(* ===== verification/Prelude.thy ===== *)
theory Prelude
  imports Main "HOL-Library.Word" "HOL-Library.Multiset" "HOL-Library.List_Lexorder" "HOL-Library.Product_Lexorder"
begin

text \<open>
  The Rust vocabulary every component shares: strings as lists of Unicode scalar values with the
  parts of \<^verbatim>\<open>str\<close> and \<^verbatim>\<open>char\<close> the sources call, decimal and hexadecimal rendering and
  parsing, saturating 64-bit arithmetic, and the named collections the component proofs draw on.
\<close>

unbundle bit_operations_syntax

named_theorems rust_simps
  \<open>defining equations of the modelled standard-library calls, for evaluation\<close>

section \<open>Integers\<close>

text \<open>
  \<^verbatim>\<open>u64\<close> quantities are naturals below \<open>2 ^ 64\<close>. Saturating operations are written out; a plain
  \<^verbatim>\<open>+\<close> of a release build wraps, and the model writes the \<open>mod\<close> where the sources use one.
\<close>

type_synonym u64 = nat

definition u64_max :: nat where
  "u64_max = 2 ^ 64 - 1"

definition sat_add :: "u64 \<Rightarrow> u64 \<Rightarrow> u64" where
  "sat_add a b = min (a + b) u64_max"

definition sat_mul :: "u64 \<Rightarrow> u64 \<Rightarrow> u64" where
  "sat_mul a b = min (a * b) u64_max"

definition clamp :: "nat \<Rightarrow> nat \<Rightarrow> nat \<Rightarrow> nat" where
  "clamp lo hi x = (if x < lo then lo else if x > hi then hi else x)"

lemma clamp_bounds: "lo \<le> hi \<Longrightarrow> lo \<le> clamp lo hi x \<and> clamp lo hi x \<le> hi"
  by (simp add: clamp_def)

lemma sat_add_le_max [simp]: "sat_add a b \<le> u64_max"
  by (simp add: sat_add_def)

lemma sat_add_mono: "a \<le> c \<Longrightarrow> b \<le> d \<Longrightarrow> sat_add a b \<le> sat_add c d"
  by (auto simp: sat_add_def)

lemma sat_add_ge: "a \<le> u64_max \<Longrightarrow> a \<le> sat_add a b"
  by (simp add: sat_add_def)

section \<open>Characters and strings\<close>

text \<open>
  A \<^verbatim>\<open>char\<close> is a Unicode scalar value and a \<^verbatim>\<open>str\<close> the list of them. The order on strings is the
  lexicographic one (\<^verbatim>\<open>List_Lexorder\<close>): comparing scalar values agrees with comparing the UTF-8
  bytes, which is what \<^verbatim>\<open>Ord for str\<close> does. \<open>lit\<close> reads an ASCII literal of the source.
\<close>

type_synonym rchar = nat
type_synonym rstr = "rchar list"

definition lit :: "string \<Rightarrow> rstr" where
  "lit s = map of_char s"

text \<open>\<^verbatim>\<open>char::is_whitespace\<close> (the White_Space property) and \<^verbatim>\<open>char::is_control\<close> (category Cc).\<close>

definition is_whitespace :: "rchar \<Rightarrow> bool" where
  "is_whitespace c \<longleftrightarrow>
     (9 \<le> c \<and> c \<le> 13) \<or> c = 32 \<or> c = 133 \<or> c = 160 \<or> c = 5760 \<or> (8192 \<le> c \<and> c \<le> 8202) \<or>
     c = 8232 \<or> c = 8233 \<or> c = 8239 \<or> c = 8287 \<or> c = 12288"

definition is_control :: "rchar \<Rightarrow> bool" where
  "is_control c \<longleftrightarrow> c \<le> 31 \<or> (127 \<le> c \<and> c \<le> 159)"

definition is_ascii_digit :: "rchar \<Rightarrow> bool" where
  "is_ascii_digit c \<longleftrightarrow> 48 \<le> c \<and> c \<le> 57"

definition to_ascii_lowercase :: "rstr \<Rightarrow> rstr" where
  "to_ascii_lowercase s = map (\<lambda>c. if 65 \<le> c \<and> c \<le> 90 then c + 32 else c) s"

text \<open>\<^verbatim>\<open>trim_start\<close>, \<^verbatim>\<open>trim_end\<close>, \<^verbatim>\<open>trim\<close> and \<^verbatim>\<open>trim_end_matches(c)\<close>.\<close>

definition trim_start :: "rstr \<Rightarrow> rstr" where
  "trim_start s = dropWhile is_whitespace s"

definition trim_end :: "rstr \<Rightarrow> rstr" where
  "trim_end s = rev (dropWhile is_whitespace (rev s))"

definition trim :: "rstr \<Rightarrow> rstr" where
  "trim s = trim_end (trim_start s)"

definition trim_end_matches :: "rchar \<Rightarrow> rstr \<Rightarrow> rstr" where
  "trim_end_matches c s = rev (dropWhile (\<lambda>x. x = c) (rev s))"

text \<open>Splitting at the first or last occurrence of a character.\<close>

fun split_once :: "rchar \<Rightarrow> rstr \<Rightarrow> (rstr \<times> rstr) option" where
  "split_once c [] = None"
| "split_once c (x # xs) =
     (if x = c then Some ([], xs) else map_option (\<lambda>(a, b). (x # a, b)) (split_once c xs))"

definition rsplit_once :: "rchar \<Rightarrow> rstr \<Rightarrow> (rstr \<times> rstr) option" where
  "rsplit_once c s = map_option (\<lambda>(a, b). (rev b, rev a)) (split_once c (rev s))"

fun strip_prefix :: "rstr \<Rightarrow> rstr \<Rightarrow> rstr option" where
  "strip_prefix [] s = Some s"
| "strip_prefix (p # ps) [] = None"
| "strip_prefix (p # ps) (x # xs) = (if p = x then strip_prefix ps xs else None)"

definition starts_with :: "rstr \<Rightarrow> rstr \<Rightarrow> bool" where
  "starts_with s p \<longleftrightarrow> take (length p) s = p"

definition ends_with :: "rstr \<Rightarrow> rstr \<Rightarrow> bool" where
  "ends_with s q \<longleftrightarrow> length q \<le> length s \<and> drop (length s - length q) s = q"

text \<open>\<^verbatim>\<open>str::contains(needle)\<close>.\<close>

fun str_contains :: "rstr \<Rightarrow> rstr \<Rightarrow> bool" where
  "str_contains [] p = (p = [])"
| "str_contains (x # xs) p = (starts_with (x # xs) p \<or> str_contains xs p)"

text \<open>
  \<^verbatim>\<open>str::lines\<close>: cut after every line feed, then drop the line feed and a carriage return right
  before it. A last piece without a line feed is kept as it is, an empty last piece is not there.
\<close>

fun split_inclusive_nl :: "rstr \<Rightarrow> rstr \<Rightarrow> rstr list" where
  "split_inclusive_nl acc [] = (if acc = [] then [] else [rev acc])"
| "split_inclusive_nl acc (x # xs) =
     (if x = 10 then rev (x # acc) # split_inclusive_nl [] xs
      else split_inclusive_nl (x # acc) xs)"

definition strip_line_end :: "rstr \<Rightarrow> rstr" where
  "strip_line_end l =
     (if l \<noteq> [] \<and> last l = 10
      then (let m = butlast l in if m \<noteq> [] \<and> last m = 13 then butlast m else m)
      else l)"

definition str_lines :: "rstr \<Rightarrow> rstr list" where
  "str_lines s = map strip_line_end (split_inclusive_nl [] s)"

text \<open>\<^verbatim>\<open>[T]::join(sep)\<close>.\<close>

fun str_join :: "rstr \<Rightarrow> rstr list \<Rightarrow> rstr" where
  "str_join sep [] = []"
| "str_join sep [x] = x"
| "str_join sep (x # xs) = x @ sep @ str_join sep xs"

section \<open>Numbers as text\<close>

text \<open>\<^verbatim>\<open>Display\<close> for unsigned and signed integers and \<^verbatim>\<open>{:x}\<close>, \<^verbatim>\<open>{:016x}\<close>.\<close>

fun show_base :: "nat \<Rightarrow> nat \<Rightarrow> rstr" where
  "show_base b n =
     (if b < 2 \<or> n < b then [n] else show_base b (n div b) @ [n mod b])"

definition digit_char :: "nat \<Rightarrow> rchar" where
  "digit_char d = (if d < 10 then d + 48 else d + 87)"

definition show_nat :: "nat \<Rightarrow> rstr" where
  "show_nat n = map digit_char (show_base 10 n)"

definition show_hex :: "nat \<Rightarrow> rstr" where
  "show_hex n = map digit_char (show_base 16 n)"

definition show_int :: "int \<Rightarrow> rstr" where
  "show_int i = (if i < 0 then 45 # show_nat (nat (- i)) else show_nat (nat i))"

definition pad_left :: "nat \<Rightarrow> rchar \<Rightarrow> rstr \<Rightarrow> rstr" where
  "pad_left w c s = replicate (w - length s) c @ s"

definition pad_right :: "nat \<Rightarrow> rchar \<Rightarrow> rstr \<Rightarrow> rstr" where
  "pad_right w c s = s @ replicate (w - length s) c"

declare show_base.simps [simp del]

text \<open>
  \<^verbatim>\<open>str::parse\<close> for unsigned integers of a given maximum: an optional \<^verbatim>\<open>+\<close>, then at least one ASCII
  digit and nothing else, and no overflow. Signed ones also take a \<^verbatim>\<open>-\<close>.
\<close>

definition digits_value :: "rstr \<Rightarrow> nat" where
  "digits_value ds = foldl (\<lambda>n d. 10 * n + (d - 48)) 0 ds"

definition parse_digits :: "nat \<Rightarrow> rstr \<Rightarrow> nat option" where
  "parse_digits mx ds =
     (if ds \<noteq> [] \<and> list_all is_ascii_digit ds \<and> digits_value ds \<le> mx
      then Some (digits_value ds) else None)"

definition parse_uint :: "nat \<Rightarrow> rstr \<Rightarrow> nat option" where
  "parse_uint mx s =
     (case s of [] \<Rightarrow> None | c # cs \<Rightarrow> if c = 43 then parse_digits mx cs else parse_digits mx s)"

definition parse_int64 :: "rstr \<Rightarrow> int option" where
  "parse_int64 s =
     (case s of [] \<Rightarrow> None
      | c # cs \<Rightarrow>
          if c = 45 then map_option (\<lambda>n. - int n) (parse_digits (2 ^ 63) cs)
          else map_option int (parse_uint (2 ^ 63 - 1) s))"

section \<open>UTF-8\<close>

text \<open>\<^verbatim>\<open>str::as_bytes\<close> and the byte length \<^verbatim>\<open>str::len\<close>.\<close>

definition utf8_char :: "rchar \<Rightarrow> 8 word list" where
  "utf8_char c =
     (if c < 128 then [of_nat c]
      else if c < 2048 then [of_nat (192 + c div 64), of_nat (128 + c mod 64)]
      else if c < 65536 then
        [of_nat (224 + c div 4096), of_nat (128 + c div 64 mod 64), of_nat (128 + c mod 64)]
      else
        [of_nat (240 + c div 262144), of_nat (128 + c div 4096 mod 64),
         of_nat (128 + c div 64 mod 64), of_nat (128 + c mod 64)])"

definition utf8 :: "rstr \<Rightarrow> 8 word list" where
  "utf8 s = concat (map utf8_char s)"

definition byte_len :: "rstr \<Rightarrow> nat" where
  "byte_len s = length (utf8 s)"

lemmas rust_text_defs [rust_simps] =
  lit_def is_whitespace_def is_control_def is_ascii_digit_def to_ascii_lowercase_def
  trim_start_def trim_end_def trim_def trim_end_matches_def rsplit_once_def starts_with_def
  ends_with_def strip_line_end_def str_lines_def digit_char_def show_nat_def show_hex_def
  show_int_def pad_left_def pad_right_def digits_value_def parse_digits_def parse_uint_def
  parse_int64_def utf8_char_def utf8_def byte_len_def

section \<open>Lemmas on text\<close>

lemma split_inclusive_append:
  "xs \<noteq> [] \<Longrightarrow> last xs = 10 \<Longrightarrow>
     split_inclusive_nl acc (xs @ ys) = split_inclusive_nl acc xs @ split_inclusive_nl [] ys"
proof (induction xs arbitrary: acc)
  case Nil
  then show ?case by simp
next
  case (Cons x xs)
  then show ?case by (cases "xs = []") auto
qed

lemma split_inclusive_line:
  "10 \<notin> set s \<Longrightarrow> split_inclusive_nl acc (s @ [10]) = [rev acc @ s @ [10]]"
  by (induction s arbitrary: acc) auto

lemma str_lines_append:
  "xs = [] \<or> last xs = 10 \<Longrightarrow> str_lines (xs @ ys) = str_lines xs @ str_lines ys"
  by (cases "xs = []") (simp_all add: str_lines_def split_inclusive_append)

lemma str_lines_line:
  "10 \<notin> set s \<Longrightarrow> s = [] \<or> last s \<noteq> 13 \<Longrightarrow> str_lines (s @ [10]) = [s]"
  by (auto simp: str_lines_def split_inclusive_line strip_line_end_def Let_def)

text \<open>Lines that hold no line end of their own come back from the text they were written to.\<close>

lemma str_lines_concat:
  "(\<And>l. l \<in> set ls \<Longrightarrow> 10 \<notin> set l \<and> (l = [] \<or> last l \<noteq> 13)) \<Longrightarrow>
     str_lines (concat (map (\<lambda>l. l @ [10]) ls)) = ls"
proof (induction ls)
  case Nil
  then show ?case by (simp add: str_lines_def)
next
  case (Cons l ls)
  have "str_lines ((l @ [10]) @ concat (map (\<lambda>l. l @ [10]) ls)) =
        str_lines (l @ [10]) @ str_lines (concat (map (\<lambda>l. l @ [10]) ls))"
    by (rule str_lines_append) simp
  also have "\<dots> = [l] @ ls"
    using Cons by (simp add: str_lines_line)
  finally show ?case by simp
qed

text \<open>Finding a separator.\<close>

lemma split_once_None: "split_once c s = None \<longleftrightarrow> c \<notin> set s"
  by (induction s) auto

lemma split_once_Some:
  "split_once c s = Some (a, b) \<longleftrightarrow> s = a @ c # b \<and> c \<notin> set a"
proof (induction s arbitrary: a)
  case Nil
  then show ?case by simp
next
  case (Cons x s)
  show ?case
  proof (cases a)
    case Nil
    then show ?thesis by (auto simp: map_option_eq_Some)
  next
    case (Cons y a')
    with Cons.IH [of a'] show ?thesis
      by (cases "x = c") (auto simp: map_option_eq_Some)
  qed
qed

lemma rsplit_once_None: "rsplit_once c s = None \<longleftrightarrow> c \<notin> set s"
  by (simp add: rsplit_once_def split_once_None)

lemma rsplit_once_Some:
  "rsplit_once c s = Some (a, b) \<longleftrightarrow> s = a @ c # b \<and> c \<notin> set b"
proof -
  have "rsplit_once c s = Some (a, b) \<longleftrightarrow> split_once c (rev s) = Some (rev b, rev a)"
    by (auto simp: rsplit_once_def map_option_eq_Some)
  also have "\<dots> \<longleftrightarrow> rev s = rev b @ c # rev a \<and> c \<notin> set b"
    by (simp add: split_once_Some)
  also have "\<dots> \<longleftrightarrow> s = a @ c # b \<and> c \<notin> set b"
    by (metis append.assoc append_Cons append_Nil rev.simps(2) rev_append rev_swap)
  finally show ?thesis .
qed

lemma strip_prefix_Some: "strip_prefix p s = Some r \<longleftrightarrow> s = p @ r"
  by (induction p s rule: strip_prefix.induct) auto

lemma starts_with_iff: "starts_with s p \<longleftrightarrow> (\<exists>r. s = p @ r)"
  by (metis append_eq_conv_conj append_take_drop_id starts_with_def)

lemma ends_with_iff: "ends_with s q \<longleftrightarrow> (\<exists>r. s = r @ q)"
proof
  assume "ends_with s q"
  then have "s = take (length s - length q) s @ q"
    by (metis append_take_drop_id ends_with_def)
  then show "\<exists>r. s = r @ q" by blast
qed (auto simp: ends_with_def)

lemma str_contains_iff: "str_contains s p \<longleftrightarrow> (\<exists>a b. s = a @ p @ b)"
proof (induction s)
  case Nil
  then show ?case by simp
next
  case (Cons x s)
  show ?case
  proof
    assume "str_contains (x # s) p"
    then show "\<exists>a b. x # s = a @ p @ b"
      using Cons by (auto simp: starts_with_iff) (metis append_Cons append_Nil)+
  next
    assume "\<exists>a b. x # s = a @ p @ b"
    then obtain a b where ab: "x # s = a @ p @ b" by blast
    show "str_contains (x # s) p"
    proof (cases a)
      case Nil
      with ab have "starts_with (x # s) p" by (auto simp only: starts_with_iff append_Nil)
      then show ?thesis by simp
    next
      case (Cons y a')
      with ab have "s = a' @ p @ b" by simp
      with Cons.IH show ?thesis by auto
    qed
  qed
qed

text \<open>Trimming.\<close>

lemma trim_Nil [simp]: "trim [] = []"
  by (simp add: trim_def trim_end_def trim_start_def)

lemma set_dropWhile_sub: "set (dropWhile P xs) \<subseteq> set xs"
  by (auto dest: set_dropWhileD)

lemma set_trim_sub: "set (trim s) \<subseteq> set s"
  by (auto simp: trim_def trim_end_def trim_start_def dest!: set_dropWhileD)

lemma dropWhile_id: "xs = [] \<or> \<not> P (hd xs) \<Longrightarrow> dropWhile P xs = xs"
  by (cases xs) auto

lemma hd_dropWhile_not: "dropWhile P xs \<noteq> [] \<Longrightarrow> \<not> P (hd (dropWhile P xs))"
  by (simp add: hd_dropWhile)

text \<open>A text is trimmed when it neither starts nor ends in white space.\<close>

definition trimmed :: "rstr \<Rightarrow> bool" where
  "trimmed s \<longleftrightarrow> s = [] \<or> (\<not> is_whitespace (hd s) \<and> \<not> is_whitespace (last s))"

lemma trim_trimmed: "trimmed s \<Longrightarrow> trim s = s"
  by (auto simp: trimmed_def trim_def trim_end_def trim_start_def dropWhile_id hd_rev)

lemma trim_end_split: "\<exists>t. s = trim_end s @ t"
proof -
  have "rev s = takeWhile is_whitespace (rev s) @ dropWhile is_whitespace (rev s)"
    by simp
  then have "s = rev (dropWhile is_whitespace (rev s)) @ rev (takeWhile is_whitespace (rev s))"
    by (metis rev_append rev_rev_ident)
  then show ?thesis by (auto simp: trim_end_def)
qed

lemma trimmed_trim: "trimmed (trim s)"
proof (cases "trim s = []")
  case True
  then show ?thesis by (simp add: trimmed_def)
next
  case False
  have l: "\<not> is_whitespace (last (trim s))"
    using False hd_dropWhile_not [of is_whitespace "rev (trim_start s)"]
    by (simp add: trim_def trim_end_def last_rev)
  obtain t where t: "trim_start s = trim s @ t"
    using trim_end_split [of "trim_start s"] by (auto simp: trim_def)
  then have "hd (trim_start s) = hd (trim s)" "trim_start s \<noteq> []"
    using False by auto
  then have "\<not> is_whitespace (hd (trim s))"
    using hd_dropWhile_not [of is_whitespace s] by (simp add: trim_start_def)
  with l show ?thesis by (simp add: trimmed_def)
qed

lemma trim_idem [simp]: "trim (trim s) = trim s"
  by (simp add: trim_trimmed trimmed_trim)

section \<open>Lists\<close>

text \<open>
  \<^verbatim>\<open>sort_by\<close> and \<^verbatim>\<open>sort_by_key\<close> are stable, as \<open>sort_key\<close> is. With a key that identifies the
  element, the sorted list depends on the elements only.
\<close>

lemma sort_key_perm:
  assumes "mset xs = mset ys" "inj_on f (set xs)"
  shows "sort_key f xs = sort_key f ys"
  by (rule sort_key_inj_key_eq) (use assms in auto)

lemma sort_key_set:
  assumes "distinct xs" "distinct ys" "set xs = set ys" "inj_on f (set xs)"
  shows "sort_key f xs = sort_key f ys"
  by (rule sort_key_perm) (use assms in \<open>auto simp: set_eq_iff_mset_eq_distinct\<close>)

lemma distinct_map_filter:
  "distinct (map f xs) \<Longrightarrow> distinct (map f (filter P xs))"
  by (induction xs) auto

end
