(* ===== verification/Assignment.thy ===== *)
theory Assignment
  imports Prelude
begin

text \<open>
  What a tab is for, \<^verbatim>\<open>src/src/assignment.rs\<close>: the grammar \<^verbatim>\<open>[override:]phase[/role]\<close>, parsed leniently
  and displayed back.
\<close>

record assignment =
  as_over :: "rstr option"
  as_phase :: rstr
  as_role :: rstr

definition unassigned :: rstr where "unassigned = lit ''unassigned''"

definition split_assignment :: "rstr \<Rightarrow> assignment" where
  "split_assignment raw =
     (let head = takeWhile (\<lambda>c. c \<noteq> 47) raw;
          (over, rest) = (case split_once 58 head of
                            None \<Rightarrow> (None, raw)
                          | Some (a, _) \<Rightarrow> (Some (trim a), drop (length a + 1) raw));
          (phase, role) = (case split_once 47 rest of Some (p, r) \<Rightarrow> (p, r) | None \<Rightarrow> (rest, []));
          non_empty = (\<lambda>s. if trim s = [] then None else Some (trim s))
      in \<lparr>as_over = Option.bind over non_empty, as_phase = trim phase, as_role = trim role\<rparr>)"

definition parse_assignment :: "rstr \<Rightarrow> assignment" where
  "parse_assignment raw0 = split_assignment (trim (filter (\<lambda>c. \<not> is_control c) raw0))"

definition phase_or_unassigned :: "assignment \<Rightarrow> rstr" where
  "phase_or_unassigned a = (if as_phase a = [] then unassigned else as_phase a)"

definition assignment_is_empty :: "assignment \<Rightarrow> bool" where
  "assignment_is_empty a \<longleftrightarrow> as_phase a = [] \<and> as_role a = [] \<and> as_over a = None"

definition show_assignment :: "assignment \<Rightarrow> rstr" where
  "show_assignment a =
     (case as_over a of None \<Rightarrow> [] | Some o' \<Rightarrow> o' @ [58]) @ as_phase a
       @ (if as_role a = [] then [] else 47 # as_role a)"

section \<open>Lemmas\<close>

text \<open>What parsing guarantees of the parts: trimmed, free of control characters, no slash but in a role.\<close>

definition clean :: "rstr \<Rightarrow> bool" where
  "clean s \<longleftrightarrow> trimmed s \<and> (\<forall>c \<in> set s. \<not> is_control c)"

definition parts_ok :: "assignment \<Rightarrow> bool" where
  "parts_ok a \<longleftrightarrow>
     clean (as_phase a) \<and> clean (as_role a) \<and> 47 \<notin> set (as_phase a) \<and>
     (case as_over a of None \<Rightarrow> True | Some s \<Rightarrow> clean s \<and> s \<noteq> [] \<and> 47 \<notin> set s \<and> 58 \<notin> set s)"

lemma clean_trim: "\<forall>c \<in> set s. \<not> is_control c \<Longrightarrow> clean (trim s)"
  using set_trim_sub [of s] by (auto simp: clean_def trimmed_trim)

lemma trim_notin: "c \<notin> set s \<Longrightarrow> c \<notin> set (trim s)"
  using set_trim_sub [of s] by auto

lemma parse_parts_ok: "parts_ok (parse_assignment raw0)"
proof -
  define raw where "raw = trim (filter (\<lambda>c. \<not> is_control c) raw0)"
  have nc: "\<forall>c \<in> set raw. \<not> is_control c" using set_trim_sub by (fastforce simp: raw_def)
  define head where "head = takeWhile (\<lambda>c. c \<noteq> 47) raw"
  have h: "set head \<subseteq> set raw" "47 \<notin> set head" by (auto simp: head_def dest: set_takeWhileD)
  define over where "over = (case split_once 58 head of None \<Rightarrow> None | Some (a, _) \<Rightarrow> Some (trim a))"
  define rest where "rest = (case split_once 58 head of None \<Rightarrow> raw | Some (a, _) \<Rightarrow> drop (length a + 1) raw)"
  define phase where "phase = (case split_once 47 rest of Some (p, r) \<Rightarrow> p | None \<Rightarrow> rest)"
  define role where "role = (case split_once 47 rest of Some (p, r) \<Rightarrow> r | None \<Rightarrow> [])"
  have p: "parse_assignment raw0 =
      \<lparr>as_over = Option.bind over (\<lambda>s. if trim s = [] then None else Some (trim s)),
       as_phase = trim phase, as_role = trim role\<rparr>"
    unfolding parse_assignment_def split_assignment_def raw_def [symmetric] head_def [symmetric] Let_def over_def phase_def role_def rest_def
    by (simp split: option.split prod.split)
  have rs: "set rest \<subseteq> set raw" by (auto simp: rest_def dest: in_set_dropD split: option.splits)
  have ph: "set phase \<subseteq> set raw" "47 \<notin> set phase"
    using rs by (auto simp: phase_def split_once_Some split_once_None split: option.splits)
  have ro: "set role \<subseteq> set raw"
  proof (cases "split_once 47 rest")
    case None
    then show ?thesis by (simp add: role_def)
  next
    case (Some pr)
    then obtain p r where pr: "split_once 47 rest = Some (p, r)" by (cases pr) auto
    then have "rest = p @ 47 # r" by (simp add: split_once_Some)
    then show ?thesis using rs pr by (simp add: role_def)
  qed
  have ov: "case over of None \<Rightarrow> True | Some s \<Rightarrow> set s \<subseteq> set raw \<and> 47 \<notin> set s \<and> 58 \<notin> set s"
  proof (cases "split_once 58 head")
    case None
    then show ?thesis by (simp add: over_def)
  next
    case (Some ab)
    then obtain a b where ab: "split_once 58 head = Some (a, b)" by (cases ab) auto
    then have "head = a @ 58 # b" "58 \<notin> set a" by (auto simp: split_once_Some)
    then show ?thesis using ab h set_trim_sub [of a] by (auto simp: over_def)
  qed
  have cl: "set s \<subseteq> set raw \<Longrightarrow> clean (trim s)" for s using nc by (intro clean_trim) blast
  show ?thesis
    unfolding p parts_ok_def using cl ph ro ov
    by (auto simp: trim_notin split: option.splits)
qed

lemma clean_append_sep:
  "clean a \<Longrightarrow> clean b \<Longrightarrow> \<not> is_whitespace c \<Longrightarrow> \<not> is_control c \<Longrightarrow> clean (a @ c # b)"
  by (cases a; cases "b = []") (auto simp: clean_def trimmed_def)

lemma sep_plain: "\<not> is_whitespace 58" "\<not> is_control 58" "\<not> is_whitespace 47" "\<not> is_control 47"
  by (simp_all add: is_whitespace_def is_control_def)

lemma clean_show: "parts_ok a \<Longrightarrow> clean (show_assignment a)"
  by (cases "as_over a"; cases "as_role a = []")
    (auto simp: parts_ok_def show_assignment_def intro!: clean_append_sep sep_plain)

lemma clean_id: "clean s \<Longrightarrow> trim (filter (\<lambda>c. \<not> is_control c) s) = s"
proof -
  assume c: "clean s"
  then have "filter (\<lambda>c. \<not> is_control c) s = s" by (auto simp: clean_def intro: filter_True)
  then show ?thesis using c by (simp add: clean_def trim_trimmed)
qed

lemma takeWhile_sep: "c \<notin> set a \<Longrightarrow> takeWhile (\<lambda>x. x \<noteq> c) (a @ c # b) = a"
  by (induction a) auto

lemma takeWhile_none: "c \<notin> set a \<Longrightarrow> takeWhile (\<lambda>x. x \<noteq> c) a = a"
  by (induction a) auto

lemma split_once_app: "c \<notin> set a \<Longrightarrow> split_once c (a @ c # b) = Some (a, b)"
  by (simp add: split_once_Some)

lemma split_once_no: "c \<notin> set a \<Longrightarrow> split_once c a = None"
  by (simp add: split_once_None)

text \<open>The body \<^verbatim>\<open>phase[/role]\<close>.\<close>

definition show_body :: "assignment \<Rightarrow> rstr" where
  "show_body a = as_phase a @ (if as_role a = [] then [] else 47 # as_role a)"

lemma show_body_split:
  "parts_ok a \<Longrightarrow>
     (case split_once 47 (show_body a) of Some (p, r) \<Rightarrow> (p, r) | None \<Rightarrow> (show_body a, [])) = (as_phase a, as_role a)"
  by (auto simp: parts_ok_def show_body_def split_once_app split_once_no)

lemma show_body_head: "parts_ok a \<Longrightarrow> takeWhile (\<lambda>c. c \<noteq> 47) (show_body a) = as_phase a"
  by (auto simp: parts_ok_def show_body_def takeWhile_sep takeWhile_none)

lemma length_trim: "length (trim s) \<le> length s"
  using length_dropWhile_le [of is_whitespace] by (simp add: trim_def trim_end_def trim_start_def) (metis length_rev order_trans)

lemma parse_shown: "parts_ok a \<Longrightarrow> parse_assignment (show_assignment a) = split_assignment (show_assignment a)"
  by (simp add: parse_assignment_def clean_id clean_show)

lemma split_with_over:
  assumes s: "47 \<notin> set s" "58 \<notin> set s" "trim s \<noteq> []" and body: "takeWhile (\<lambda>c. c \<noteq> 47) b = p"
    and pr: "(case split_once 47 b of Some (p, r) \<Rightarrow> (p, r) | None \<Rightarrow> (b, [])) = (p', r')"
  shows "split_assignment (s @ 58 # b) = \<lparr>as_over = Some (trim s), as_phase = trim p', as_role = trim r'\<rparr>"
proof -
  have "takeWhile (\<lambda>c. c \<noteq> 47) (s @ 58 # b) = s @ 58 # p"
    using s(1) body by (subst takeWhile_append2) auto
  with s pr show ?thesis by (simp add: split_assignment_def Let_def split_once_app)
qed

lemma split_without_over:
  assumes "split_once 58 (takeWhile (\<lambda>c. c \<noteq> 47) b) = None"
    and "(case split_once 47 b of Some (p, r) \<Rightarrow> (p, r) | None \<Rightarrow> (b, [])) = (p', r')"
  shows "split_assignment b = \<lparr>as_over = None, as_phase = trim p', as_role = trim r'\<rparr>"
  using assms by (simp add: split_assignment_def Let_def)

text \<open>A shown phase with a colon and no override before it loses its head to the override.\<close>

lemma split_shortens:
  assumes ok: "parts_ok a" and c: "58 \<in> set (as_phase a)"
  shows "length (as_phase (split_assignment (show_body a))) < length (as_phase a)"
proof -
  obtain x y where xy: "as_phase a = x @ 58 # y" "58 \<notin> set x" by (meson c split_list_first)
  have y: "47 \<notin> set y" using ok xy(1) by (simp add: parts_ok_def)
  have sp: "split_once 58 (takeWhile (\<lambda>c. c \<noteq> 47) (show_body a)) = Some (x, y)"
    unfolding show_body_head [OF ok] using xy by (simp add: split_once_app)
  have "as_phase (split_assignment (show_body a)) = trim y"
    using sp y
    by (auto simp: split_assignment_def Let_def show_body_def xy(1) split_once_app split_once_no split: option.split)
  then show ?thesis using length_trim [of y] xy(1) by simp
qed

lemma parse_show:
  assumes ok: "parts_ok a"
  shows "parse_assignment (show_assignment a) = a \<longleftrightarrow> as_over a \<noteq> None \<or> 58 \<notin> set (as_phase a)"
proof -
  have t: "trim (as_phase a) = as_phase a" "trim (as_role a) = as_role a"
    using ok by (simp_all add: parts_ok_def clean_def trim_trimmed)
  show ?thesis
  proof (cases "as_over a")
    case (Some s)
    have s: "trim s = s" "s \<noteq> []" "47 \<notin> set s" "58 \<notin> set s"
      using ok Some by (simp_all add: parts_ok_def clean_def trim_trimmed)
    have "show_assignment a = s @ 58 # show_body a" by (simp add: show_assignment_def show_body_def Some)
    then have "parse_assignment (show_assignment a) = a"
      using split_with_over [OF s(3,4) _ show_body_head [OF ok] show_body_split [OF ok]] s t Some parse_shown [OF ok]
      by simp
    then show ?thesis using Some by simp
  next
    case None
    have sh: "show_assignment a = show_body a" by (simp add: show_assignment_def show_body_def None)
    show ?thesis
    proof (cases "58 \<in> set (as_phase a)")
      case False
      have "parse_assignment (show_assignment a) = a"
        using split_without_over [OF _ show_body_split [OF ok]] False t None parse_shown [OF ok]
        by (simp add: show_body_head [OF ok] split_once_no sh)
      then show ?thesis using False by simp
    next
      case True
      then have "parse_assignment (show_assignment a) \<noteq> a"
        using split_shortens [OF ok True] parse_shown [OF ok] sh by auto
      then show ?thesis using None True by simp
    qed
  qed
qed

section \<open>Properties\<close>

text \<open>What is displayed parses back to the same assignment, except when an empty override left a colon
  in the phase: the text \<^verbatim>\<open>:b:c\<close> parses to phase \<^verbatim>\<open>b:c\<close>, whose display parses to override b, phase c.\<close>

theorem assignment_round_trip:
  "(parse_assignment (show_assignment (parse_assignment raw)) = parse_assignment raw \<longleftrightarrow>
      \<not> (as_over (parse_assignment raw) = None \<and> 58 \<in> set (as_phase (parse_assignment raw)))) \<and>
   parse_assignment (show_assignment (parse_assignment (lit '':b:c''))) \<noteq> parse_assignment (lit '':b:c'')"
proof -
  have "as_over (parse_assignment (lit '':b:c'')) = None" "58 \<in> set (as_phase (parse_assignment (lit '':b:c'')))"
    by (simp_all add: parse_assignment_def split_assignment_def Let_def rust_text_defs)
  then show ?thesis using parse_show [OF parse_parts_ok] by blast
qed

text \<open>C40 No part of a parsed assignment carries a control character or outer white space, whatever the
  text, and only a role can hold a slash; so each displays on one line under one band.\<close>

theorem assignment_parts_clean:
  "clean (as_phase (parse_assignment raw)) \<and> clean (as_role (parse_assignment raw)) \<and>
   clean (show_assignment (parse_assignment raw)) \<and> 47 \<notin> set (as_phase (parse_assignment raw)) \<and>
   (\<forall>s. as_over (parse_assignment raw) = Some s \<longrightarrow> clean s \<and> s \<noteq> [] \<and> 47 \<notin> set s \<and> 58 \<notin> set s)"
  using parse_parts_ok [of raw] clean_show [OF parse_parts_ok, of raw] by (auto simp: parts_ok_def)

lemma assignment_parts_clean_witness: "clean (as_role (parse_assignment (lit ''build / api'')))"
  using assignment_parts_clean [of "lit ''build / api''"] by blast

end
