(* ===== verification/OrderedMap.thy ===== *)
theory OrderedMap
  imports Prelude
begin

text \<open>
  \<^verbatim>\<open>std::collections::BTreeMap\<close> as an association list kept in strictly increasing key order, so
  that iteration order, which several sources rely on, is part of the value. The interface the
  clients use is the locale \<open>finite_map\<close>; it is interpreted on the operations defined here.
\<close>

type_synonym ('k, 'v) omap = "('k \<times> 'v) list"

fun om_insert :: "'k::linorder \<Rightarrow> 'v \<Rightarrow> ('k, 'v) omap \<Rightarrow> ('k, 'v) omap" where
  "om_insert k v [] = [(k, v)]"
| "om_insert k v ((a, b) # m) =
     (if k < a then (k, v) # (a, b) # m
      else if k = a then (k, v) # m
      else (a, b) # om_insert k v m)"

definition om_get :: "('k::linorder, 'v) omap \<Rightarrow> 'k \<Rightarrow> 'v option" where
  "om_get m k = map_of m k"

definition om_remove :: "'k::linorder \<Rightarrow> ('k, 'v) omap \<Rightarrow> ('k, 'v) omap" where
  "om_remove k m = filter (\<lambda>(a, _). a \<noteq> k) m"

definition om_retain :: "('k::linorder \<Rightarrow> 'v \<Rightarrow> bool) \<Rightarrow> ('k, 'v) omap \<Rightarrow> ('k, 'v) omap" where
  "om_retain P m = filter (\<lambda>(a, b). P a b) m"

definition om_keys :: "('k, 'v) omap \<Rightarrow> 'k list" where
  "om_keys m = map fst m"

definition om_values :: "('k, 'v) omap \<Rightarrow> 'v list" where
  "om_values m = map snd m"

definition om_inv :: "('k::linorder, 'v) omap \<Rightarrow> bool" where
  "om_inv m \<longleftrightarrow> sorted_wrt (<) (map fst m)"

section \<open>Lemmas on the representation\<close>

lemma om_inv_Nil [simp]: "om_inv []"
  by (simp add: om_inv_def)

lemma om_inv_Cons:
  "om_inv ((k, v) # m) \<longleftrightarrow> (\<forall>x \<in> fst ` set m. k < x) \<and> om_inv m"
  by (simp add: om_inv_def)

lemma om_inv_distinct: "om_inv m \<Longrightarrow> distinct (map fst m)"
  by (simp add: om_inv_def strict_sorted_iff)

lemma om_get_Nil [simp]: "om_get [] k = None"
  by (simp add: om_get_def)

lemma om_get_Cons: "om_get ((a, b) # m) k = (if k = a then Some b else om_get m k)"
  by (simp add: om_get_def)

lemma fst_set_om_insert [simp]: "fst ` set (om_insert k v m) = insert k (fst ` set m)"
  by (induction k v m rule: om_insert.induct) auto

lemma om_get_notin: "k \<notin> fst ` set m \<Longrightarrow> om_get m k = None"
  by (simp add: om_get_def map_of_eq_None_iff)

lemma om_get_insert: "om_inv m \<Longrightarrow> om_get (om_insert k v m) = (om_get m)(k \<mapsto> v)"
proof (induction k v m rule: om_insert.induct)
  case (1 k v)
  then show ?case by (simp add: om_get_def)
next
  case (2 k v a b m)
  then show ?case
    by (auto simp: om_inv_Cons om_get_Cons fun_eq_iff)
qed

lemma om_inv_insert: "om_inv m \<Longrightarrow> om_inv (om_insert k v m)"
  by (induction k v m rule: om_insert.induct) (auto simp: om_inv_Cons)

lemma om_get_remove: "om_get (om_remove k m) = (om_get m)(k := None)"
  by (induction m) (auto simp: om_get_def om_remove_def fun_eq_iff)

lemma om_inv_filter: "om_inv m \<Longrightarrow> om_inv (filter P m)"
  by (induction m) (auto simp: om_inv_Cons)

lemma om_inv_remove: "om_inv m \<Longrightarrow> om_inv (om_remove k m)"
  by (simp add: om_remove_def om_inv_filter)

lemma om_inv_retain: "om_inv m \<Longrightarrow> om_inv (om_retain P m)"
  by (simp add: om_retain_def om_inv_filter)

lemma om_get_retain:
  "om_inv m \<Longrightarrow>
     om_get (om_retain P m) k = (case om_get m k of Some v \<Rightarrow> if P k v then Some v else None | None \<Rightarrow> None)"
proof (induction m)
  case Nil
  then show ?case by (simp add: om_retain_def)
next
  case (Cons p m)
  obtain a b where p: "p = (a, b)" by (cases p)
  have inv: "om_inv m" and lt: "\<forall>x \<in> fst ` set m. a < x"
    using Cons.prems by (auto simp: p om_inv_Cons)
  have IH: "om_get (om_retain P m) k = (case om_get m k of Some v \<Rightarrow> if P k v then Some v else None | None \<Rightarrow> None)"
    by (rule Cons.IH [OF inv])
  show ?case
  proof (cases "k = a")
    case True
    have "a \<notin> fst ` set m" using lt by blast
    then have "om_get m a = None" by (rule om_get_notin)
    with IH True show ?thesis
      by (auto simp: p om_get_Cons om_retain_def)
  next
    case False
    with IH show ?thesis
      by (auto simp: p om_get_Cons om_retain_def)
  qed
qed

lemma om_get_iff: "om_inv m \<Longrightarrow> om_get m k = Some v \<longleftrightarrow> (k, v) \<in> set m"
  by (simp add: om_get_def om_inv_distinct)

text \<open>The value is determined by its look-ups.\<close>

lemma om_ext:
  assumes "om_inv m" "om_inv m'" "om_get m = om_get m'"
  shows "m = m'"
proof -
  have s: "set m = set m'"
    using assms by (auto simp: om_get_iff [symmetric])
  then have "map fst m = map fst m'"
    using assms(1,2) by (intro strict_sorted_equal) (auto simp: om_inv_def)
  with s show ?thesis
    using om_inv_distinct [OF assms(1)] assms
    by (metis distinct_map map_inj_on set_append sup.idem)
qed

section \<open>The interface\<close>

locale finite_map =
  fixes empty_map :: "'m"
    and get :: "'m \<Rightarrow> 'k \<Rightarrow> 'v option"
    and insert_map :: "'k \<Rightarrow> 'v \<Rightarrow> 'm \<Rightarrow> 'm"
    and remove_map :: "'k \<Rightarrow> 'm \<Rightarrow> 'm"
    and retain_map :: "('k \<Rightarrow> 'v \<Rightarrow> bool) \<Rightarrow> 'm \<Rightarrow> 'm"
    and entries :: "'m \<Rightarrow> ('k \<times> 'v) list"
    and map_inv :: "'m \<Rightarrow> bool"
  assumes get_empty: "get empty_map k = None"
    and get_insert: "map_inv m \<Longrightarrow> get (insert_map k v m) = (get m)(k \<mapsto> v)"
    and get_remove: "map_inv m \<Longrightarrow> get (remove_map k m) = (get m)(k := None)"
    and get_retain: "map_inv m \<Longrightarrow> get (retain_map P m) k =
          (case get m k of Some v \<Rightarrow> if P k v then Some v else None | None \<Rightarrow> None)"
    and entries_iff: "map_inv m \<Longrightarrow> (k, v) \<in> set (entries m) \<longleftrightarrow> get m k = Some v"
    and entries_distinct: "map_inv m \<Longrightarrow> distinct (map fst (entries m))"
    and inv_empty: "map_inv empty_map"
    and inv_insert: "map_inv m \<Longrightarrow> map_inv (insert_map k v m)"
    and inv_remove: "map_inv m \<Longrightarrow> map_inv (remove_map k m)"
    and inv_retain: "map_inv m \<Longrightarrow> map_inv (retain_map P m)"
begin

lemma get_insert_same: "map_inv m \<Longrightarrow> get (insert_map k v m) k = Some v"
  by (simp add: get_insert)

lemma get_insert_other: "map_inv m \<Longrightarrow> k \<noteq> j \<Longrightarrow> get (insert_map k v m) j = get m j"
  by (simp add: get_insert)

text \<open>A map never holds two values for a key, so its entries answer every look-up.\<close>

lemma entries_functional:
  "map_inv m \<Longrightarrow> (k, v) \<in> set (entries m) \<Longrightarrow> (k, w) \<in> set (entries m) \<Longrightarrow> v = w"
  by (simp add: entries_iff)

lemma retain_keeps:
  "map_inv m \<Longrightarrow> get (retain_map P m) k = Some v \<longleftrightarrow> get m k = Some v \<and> P k v"
  by (auto simp: get_retain split: option.splits if_splits)

lemma retain_idem:
  "map_inv m \<Longrightarrow> get (retain_map P (retain_map P m)) = get (retain_map P m)"
  by (auto simp: fun_eq_iff get_retain inv_retain split: option.splits)

end

interpretation om: finite_map "[]" om_get om_insert om_remove om_retain "\<lambda>m. m" om_inv
  by unfold_locales
    (auto simp: om_get_insert om_get_remove om_get_retain om_get_iff om_inv_distinct
      om_inv_insert om_inv_remove om_inv_retain)

lemma om_keys_insert: "set (om_keys (om_insert k v m)) = insert k (set (om_keys m))"
  by (simp add: om_keys_def)

lemma om_keys_get: "om_inv m \<Longrightarrow> k \<in> set (om_keys m) \<longleftrightarrow> om_get m k \<noteq> None"
  by (auto simp: om_keys_def om_get_def map_of_eq_None_iff)

lemma om_values_iff: "om_inv m \<Longrightarrow> v \<in> set (om_values m) \<longleftrightarrow> (\<exists>k. om_get m k = Some v)"
  by (force simp: om_values_def om_get_iff)

end
