(* ===== verification/GrowSet.thy ===== *)
theory GrowSet
  imports Main
begin

text \<open>
  The contract of a log that only grows: a merge returns the incoming entries whose key is not held
  yet. What the gossip protocol needs of the blackboard is proved here once, from the laws alone.
\<close>

locale grow_only_set =
  fixes merge_new :: "'e list \<Rightarrow> 'e list \<Rightarrow> 'e list"
    and key :: "'e \<Rightarrow> 'k"
    and keyed :: "'e \<Rightarrow> bool"
  assumes new_from: "set (merge_new h i) \<subseteq> set i"
    and new_keys: "key ` set (merge_new h i) = key ` {e \<in> set i. keyed e} - key ` set h"
    and new_distinct: "distinct (map key (merge_new h i))"
begin

definition join :: "'e list \<Rightarrow> 'e list \<Rightarrow> 'e list" where
  "join h i = h @ merge_new h i"

lemma keys_join: "key ` set (join h i) = key ` set h \<union> key ` {e \<in> set i. keyed e}"
  by (auto simp: join_def image_Un new_keys)

lemma join_grows: "set h \<subseteq> set (join h i)"
  by (simp add: join_def)

lemma join_from: "set (join h i) \<subseteq> set h \<union> set i"
  using new_from by (auto simp: join_def)

lemma merge_nothing_new: "key ` {e \<in> set i. keyed e} \<subseteq> key ` set h \<Longrightarrow> merge_new h i = []"
proof -
  assume "key ` {e \<in> set i. keyed e} \<subseteq> key ` set h"
  then have "key ` set (merge_new h i) = {}" by (auto simp: new_keys)
  then show ?thesis by simp
qed

text \<open>Idempotence: the same batch again adds nothing.\<close>

lemma merge_again: "merge_new (join h i) i = []"
  by (rule merge_nothing_new) (simp add: keys_join)

lemma join_idem: "join (join h i) i = join h i"
  by (simp add: join_def [of "join h i"] merge_again)

text \<open>Commutativity and associativity, up to keys.\<close>

lemma all_keyed_image: "Ball (set i) keyed \<Longrightarrow> {e \<in> set i. keyed e} = set i"
  by auto

lemma join_comm_keys:
  "Ball (set a) keyed \<Longrightarrow> Ball (set b) keyed \<Longrightarrow> key ` set (join a b) = key ` set (join b a)"
  by (simp add: keys_join all_keyed_image Un_commute)

lemma join_keyed: "Ball (set a) keyed \<Longrightarrow> Ball (set b) keyed \<Longrightarrow> Ball (set (join a b)) keyed"
  using join_from [of a b] by auto

lemma join_assoc_keys:
  "Ball (set b) keyed \<Longrightarrow> Ball (set c) keyed \<Longrightarrow>
     key ` set (join (join a b) c) = key ` set (join a (join b c))"
proof -
  assume b: "Ball (set b) keyed" and c: "Ball (set c) keyed"
  have bc: "{e \<in> set (join b c). keyed e} = set (join b c)"
    by (rule all_keyed_image [OF join_keyed [OF b c]])
  have "key ` set (join (join a b) c) = key ` set a \<union> key ` set b \<union> key ` set c"
    using all_keyed_image [OF b] all_keyed_image [OF c] by (simp only: keys_join)
  also have "\<dots> = key ` set a \<union> key ` set (join b c)"
    using all_keyed_image [OF c] by (simp only: keys_join Un_assoc)
  also have "\<dots> = key ` set (join a (join b c))"
    by (simp only: keys_join [of a] bc)
  finally show ?thesis .
qed

lemma distinct_join: "distinct (map key h) \<Longrightarrow> distinct (map key (join h i))"
  using new_keys [of h i] new_distinct [of h i] by (auto simp: join_def)

text \<open>Where a key identifies its entry, equal keys are equal logs.\<close>

lemma same_keys_same_entries:
  assumes "inj_on key U" "set a \<subseteq> U" "set b \<subseteq> U" "key ` set a = key ` set b"
  shows "set a = set b"
  using assms by (simp add: inj_on_image_eq_iff)

lemma set_join:
  assumes "inj_on key (set a \<union> set b)" "Ball (set b) keyed"
  shows "set (join a b) = set a \<union> set b"
proof -
  have "key ` set (join a b) = key ` (set a \<union> set b)"
    using assms(2) by (simp add: keys_join all_keyed_image image_Un)
  moreover have "set (join a b) \<subseteq> set a \<union> set b" by (rule join_from)
  ultimately show ?thesis using assms(1) by (simp add: inj_on_image_eq_iff)
qed

text \<open>One round, pull and then push the result, leaves both sides with the union.\<close>

lemma round_converges:
  assumes inj: "inj_on key (set a \<union> set b)" and ka: "Ball (set a) keyed" and kb: "Ball (set b) keyed"
  shows "set (join a b) = set a \<union> set b" "set (join b (join a b)) = set a \<union> set b"
proof -
  show one: "set (join a b) = set a \<union> set b"
    by (rule set_join [OF inj kb])
  have eq: "set b \<union> set (join a b) = set a \<union> set b"
    using one by auto
  have "set (join b (join a b)) = set b \<union> set (join a b)"
    using inj eq join_keyed [OF ka kb] by (intro set_join) auto
  with eq show "set (join b (join a b)) = set a \<union> set b" by simp
qed

end

end
