(* ===== verification/Blackboard.thy ===== *)
theory Blackboard
  imports OrderedMap GrowSet
begin

text \<open>
  The shared blackboard of \<^verbatim>\<open>src/src/cli/team.rs\<close>: its entries, their identities, the file they
  are kept in, the union that merges two hosts' logs, and the small views and argument parsers of
  the team verbs. The JSON codec (serde) is a parameter, and so are the Unicode tables behind
  \<^verbatim>\<open>{:?}\<close>, the host name, the clock and the outcome of a file operation.
\<close>

section \<open>Debug formatting\<close>

text \<open>
  \<^verbatim>\<open>{:?}\<close> of a string, an optional value and an entry kind. \<open>u\<close> says which scalar values the
  standard library escapes as \<^verbatim>\<open>\u{..}\<close> (the unprintable and grapheme-extending ones).
\<close>

definition debug_char :: "(rchar \<Rightarrow> bool) \<Rightarrow> rchar \<Rightarrow> rstr" where
  "debug_char u c =
     (if c = 0 then [92, 48] else if c = 9 then [92, 116] else if c = 13 then [92, 114]
      else if c = 10 then [92, 110] else if c = 92 then [92, 92] else if c = 34 then [92, 34]
      else if u c then [92, 117, 123] @ show_hex c @ [125] else [c])"

definition debug_str :: "(rchar \<Rightarrow> bool) \<Rightarrow> rstr \<Rightarrow> rstr" where
  "debug_str u s = 34 # concat (map (debug_char u) s) @ [34]"

definition debug_option :: "('a \<Rightarrow> rstr) \<Rightarrow> 'a option \<Rightarrow> rstr" where
  "debug_option f x = (case x of None \<Rightarrow> lit ''None'' | Some v \<Rightarrow> lit ''Some('' @ f v @ lit '')'')"

section \<open>Tabs as the team verbs see them\<close>

record tab_view =
  tv_index :: nat
  tv_id :: rstr
  tv_name :: rstr
  tv_cwd :: rstr
  tv_agent_state :: "rstr option"
  tv_agent_kind :: "rstr option"
  tv_agent_session_id :: "rstr option"
  tv_context :: "rstr option"
  tv_locked :: bool

definition state_word :: "tab_view \<Rightarrow> rstr" where
  "state_word t =
     (case tv_agent_state t of Some s \<Rightarrow> if s \<noteq> [] then s else lit ''idle'' | None \<Rightarrow> lit ''idle'')"

definition select_peers :: "tab_view list \<Rightarrow> bool \<Rightarrow> tab_view list" where
  "select_peers tabs all_tabs =
     filter (\<lambda>t. all_tabs \<or> tv_agent_kind t = Some (lit ''claude'')) tabs"

definition format_peer_line :: "tab_view \<Rightarrow> rstr" where
  "format_peer_line t =
     (let lock = (if tv_locked t then [32, 128274] else []);
          ctx = (case tv_context t of Some c \<Rightarrow> if c \<noteq> [] then [32, 8212, 32] @ c else [] | None \<Rightarrow> [])
      in lit ''['' @ show_nat (tv_index t) @ lit ''] '' @ tv_name t @ lock @ [32, 183, 32]
           @ state_word t @ [32, 183, 32] @ tv_cwd t @ ctx)"

text \<open>A target is looked up by exact name, then index, then uuid; a shared name is an error.\<close>

definition resolve_target :: "(rchar \<Rightarrow> bool) \<Rightarrow> tab_view list \<Rightarrow> rstr \<Rightarrow> rstr + tab_view" where
  "resolve_target u tabs key =
     (case filter (\<lambda>t. tv_name t = key) tabs of
        [one] \<Rightarrow> Inr one
      | [] \<Rightarrow>
          (case Option.bind (parse_uint u64_max key) (\<lambda>idx. find (\<lambda>t. tv_index t = idx) tabs) of
             Some t \<Rightarrow> Inr t
           | None \<Rightarrow>
               (case find (\<lambda>t. tv_id t = key) tabs of
                  Some t \<Rightarrow> Inr t
                | None \<Rightarrow> Inl (lit ''no tab matches '' @ debug_str u key)))
      | many \<Rightarrow>
          Inl (show_nat (length many) @ lit '' tabs named '' @ debug_str u key @ lit '' (indexes ''
               @ str_join (lit '', '') (map (\<lambda>t. show_nat (tv_index t)) many)
               @ lit ''); address by index''))"

text \<open>\<^verbatim>\<open>peek [--lines N] [--raw] <tab>\<close>: either an exit code or the call it makes.\<close>

datatype peek_plan = PeekExit int | PeekCall rstr nat bool

fun run_peek_loop :: "rstr list \<Rightarrow> rstr option \<Rightarrow> nat \<Rightarrow> bool \<Rightarrow> peek_plan" where
  "run_peek_loop [] tab lines raw =
     (case tab of None \<Rightarrow> PeekExit 2 | Some t \<Rightarrow> PeekCall t lines raw)"
| "run_peek_loop (a # args) tab lines raw =
     (if a = lit ''--raw'' then run_peek_loop args tab lines True
      else if a = lit ''--lines'' then
        (case args of
           [] \<Rightarrow> PeekExit 2
         | v # rest \<Rightarrow>
             (case parse_uint u64_max v of
                None \<Rightarrow> PeekExit 2
              | Some n \<Rightarrow> run_peek_loop rest tab n raw))
      else if tab = None then run_peek_loop args (Some a) lines raw
      else run_peek_loop args tab lines raw)"

definition run_peek :: "rstr list \<Rightarrow> peek_plan" where
  "run_peek args = run_peek_loop args None 40 False"

definition tail_lines :: "rstr \<Rightarrow> nat \<Rightarrow> rstr" where
  "tail_lines text n =
     (let ls = str_lines (trim_end_matches 10 text)
      in str_join [10] (drop (length ls - n) ls))"

section \<open>Entries\<close>

datatype note_kind = KNote | KAnnounce | KBid | KAward | KDone

definition kind_is_note :: "note_kind \<Rightarrow> bool" where
  "kind_is_note k \<longleftrightarrow> k = KNote"

fun kind_as_str :: "note_kind \<Rightarrow> rstr" where
  "kind_as_str KNote = lit ''note''"
| "kind_as_str KAnnounce = lit ''announce''"
| "kind_as_str KBid = lit ''bid''"
| "kind_as_str KAward = lit ''award''"
| "kind_as_str KDone = lit ''done''"

definition kind_parse :: "rstr \<Rightarrow> note_kind option" where
  "kind_parse s =
     (let l = to_ascii_lowercase s in
      if l = lit ''note'' then Some KNote
      else if l = lit ''announce'' then Some KAnnounce
      else if l = lit ''bid'' then Some KBid
      else if l = lit ''award'' then Some KAward
      else if l = lit ''done'' then Some KDone
      else None)"

fun kind_debug :: "note_kind \<Rightarrow> rstr" where
  "kind_debug KNote = lit ''Note''"
| "kind_debug KAnnounce = lit ''Announce''"
| "kind_debug KBid = lit ''Bid''"
| "kind_debug KAward = lit ''Award''"
| "kind_debug KDone = lit ''Done''"

record board_note =
  n_ts :: u64
  n_from :: "rstr option"
  n_topic :: "rstr option"
  n_msg :: rstr
  n_id :: rstr
  n_origin :: "rstr option"
  n_kind :: note_kind
  n_task :: "rstr option"
  n_cost :: "int option"
  n_to :: "rstr option"
  n_ok :: "bool option"

section \<open>Identities\<close>

text \<open>FNV-1a over the UTF-8 bytes, and the entry id \<^verbatim>\<open>{origin}-{ts:x}-{hash:016x}\<close>.\<close>

definition fnv_step :: "64 word \<Rightarrow> 8 word \<Rightarrow> 64 word" where
  "fnv_step h b = (h XOR ucast b) * 0x100000001b3"

definition stable_hash :: "rstr \<Rightarrow> 64 word" where
  "stable_hash s = foldl fnv_step 0xcbf29ce484222325 (utf8 s)"

definition mint_id :: "rstr \<Rightarrow> u64 \<Rightarrow> rstr \<Rightarrow> rstr" where
  "mint_id origin ts content =
     origin @ lit ''-'' @ show_hex ts @ lit ''-''
       @ pad_left 16 48 (show_hex (unat (stable_hash content)))"

text \<open>
  The identity of an instance: the host name, and a suffix read from, or minted into, the file
  beside the blackboard. The second component is what is written there, if anything.
\<close>

definition non_empty_trimmed :: "rstr option \<Rightarrow> rstr option" where
  "non_empty_trimmed s = (case s of None \<Rightarrow> None | Some h \<Rightarrow> if trim h = [] then None else Some (trim h))"

definition origin_id ::
    "rstr option \<Rightarrow> rstr option \<Rightarrow> u64 \<Rightarrow> nat \<Rightarrow> rstr \<Rightarrow> rstr \<times> rstr option" where
  "origin_id hostname_file origin_file millis pid board_path =
     (let host = (case non_empty_trimmed hostname_file of None \<Rightarrow> lit ''host'' | Some h \<Rightarrow> h)
      in case non_empty_trimmed origin_file of
           Some suffix \<Rightarrow> (host @ lit ''-'' @ suffix, None)
         | None \<Rightarrow>
             (let seed = host @ lit ''-'' @ show_nat millis @ lit ''-'' @ show_nat pid @ lit ''-''
                           @ board_path;
                  minted = pad_left 8 48 (show_hex (unat (stable_hash seed AND 0xffffffff)))
              in (host @ lit ''-'' @ minted, Some minted)))"

section \<open>Lines\<close>

text \<open>
  One entry per line. \<open>enc\<close> and \<open>dec\<close> stand for serde's \<^verbatim>\<open>to_string\<close> and \<^verbatim>\<open>from_str\<close>; a line that
  does not parse is skipped, and an entry without an id gets one derived from its content.
\<close>

definition encode_note_line :: "(board_note \<Rightarrow> rstr option) \<Rightarrow> board_note \<Rightarrow> rstr" where
  "encode_note_line enc n = (case enc n of Some s \<Rightarrow> s | None \<Rightarrow> lit ''{}'') @ [10]"

definition backfill_id :: "(rchar \<Rightarrow> bool) \<Rightarrow> board_note \<Rightarrow> board_note" where
  "backfill_id u n =
     (if n_id n = []
      then n\<lparr>n_id := mint_id (lit ''legacy'') (n_ts n)
                      (debug_option (debug_str u) (n_from n) @ debug_option (debug_str u) (n_topic n)
                       @ n_msg n)\<rparr>
      else n)"

definition parse_notes :: "(rchar \<Rightarrow> bool) \<Rightarrow> (rstr \<Rightarrow> board_note option) \<Rightarrow> rstr \<Rightarrow> board_note list" where
  "parse_notes u dec body =
     List.map_filter (\<lambda>l. map_option (backfill_id u) (dec l))
       (filter (\<lambda>l. trim l \<noteq> []) (str_lines body))"

section \<open>The union of two logs\<close>

fun merge_notes_go :: "rstr list \<Rightarrow> rstr list \<Rightarrow> board_note list \<Rightarrow> board_note list" where
  "merge_notes_go known seen [] = []"
| "merge_notes_go known seen (n # ns) =
     (if n_id n \<noteq> [] \<and> n_id n \<notin> set known \<and> n_id n \<notin> set seen
      then n # merge_notes_go known (n_id n # seen) ns
      else merge_notes_go known seen ns)"

definition merge_notes :: "board_note list \<Rightarrow> board_note list \<Rightarrow> board_note list" where
  "merge_notes hv incoming = merge_notes_go (map n_id hv) [] incoming"

definition select_notes :: "board_note list \<Rightarrow> rstr option \<Rightarrow> nat \<Rightarrow> (nat \<times> board_note) list" where
  "select_notes notes topic since =
     filter (\<lambda>(i, n). since \<le> i \<and> (case topic of None \<Rightarrow> True | Some t \<Rightarrow> n_topic n = Some t))
       (enumerate 0 notes)"

definition format_note :: "nat \<Rightarrow> board_note \<Rightarrow> rstr" where
  "format_note idx n =
     lit ''#'' @ show_nat idx @ lit '' ''
       @ (case n_topic n of None \<Rightarrow> [] | Some t \<Rightarrow> lit ''['' @ t @ lit ''] '')
       @ (case n_from n of None \<Rightarrow> [] | Some f \<Rightarrow> f @ lit '': '') @ n_msg n"

section \<open>The file\<close>

text \<open>
  The blackboard file is its text, or \<open>None\<close> while it cannot be read. An append may fail to open
  the file, or fail while writing, after some prefix of the text has reached it.
\<close>

datatype io_outcome = IoOk | OpenFails rstr | WriteFails nat rstr

definition append_file ::
    "io_outcome \<Rightarrow> rstr \<Rightarrow> rstr option \<Rightarrow> rstr \<Rightarrow> (rstr + unit) \<times> rstr option" where
  "append_file io path file body =
     (let old = (case file of None \<Rightarrow> [] | Some b \<Rightarrow> b) in
      case io of
        IoOk \<Rightarrow> (Inr (), Some (old @ body))
      | OpenFails e \<Rightarrow> (Inl (lit ''open '' @ path @ lit '': '' @ e), file)
      | WriteFails k e \<Rightarrow> (Inl (lit ''write '' @ path @ lit '': '' @ e), Some (old @ take k body)))"

definition read_blackboard ::
    "(rchar \<Rightarrow> bool) \<Rightarrow> (rstr \<Rightarrow> board_note option) \<Rightarrow> rstr option \<Rightarrow> board_note list" where
  "read_blackboard u dec file = parse_notes u dec (case file of None \<Rightarrow> [] | Some b \<Rightarrow> b)"

definition merge_into_blackboard ::
    "(rchar \<Rightarrow> bool) \<Rightarrow> (board_note \<Rightarrow> rstr option) \<Rightarrow> (rstr \<Rightarrow> board_note option) \<Rightarrow> rstr \<Rightarrow> io_outcome
     \<Rightarrow> rstr option \<Rightarrow> board_note list \<Rightarrow> (rstr + nat) \<times> rstr option" where
  "merge_into_blackboard u enc dec path io file incoming =
     (let new = merge_notes (read_blackboard u dec file) incoming in
      if new = [] then (Inr 0, file)
      else case append_file io path file (concat (map (encode_note_line enc) new)) of
             (Inl e, file') \<Rightarrow> (Inl e, file')
           | (Inr _, file') \<Rightarrow> (Inr (length new), file'))"

definition new_entry :: "u64 \<Rightarrow> note_kind \<Rightarrow> rstr option \<Rightarrow> rstr \<Rightarrow> board_note" where
  "new_entry now_s kind sender msg =
     \<lparr>n_ts = now_s, n_from = sender, n_topic = None, n_msg = msg, n_id = [], n_origin = None,
      n_kind = kind, n_task = None, n_cost = None, n_to = None, n_ok = None\<rparr>"

definition entry_content :: "(rchar \<Rightarrow> bool) \<Rightarrow> board_note \<Rightarrow> rstr" where
  "entry_content u n =
     debug_option (debug_str u) (n_from n) @ debug_option (debug_str u) (n_task n) @ n_msg n
       @ kind_debug (n_kind n) @ debug_option show_int (n_cost n)"

definition stamp_entry :: "(rchar \<Rightarrow> bool) \<Rightarrow> rstr \<Rightarrow> board_note \<Rightarrow> board_note" where
  "stamp_entry u origin n =
     (let m = (if n_id n = [] then n\<lparr>n_id := mint_id origin (n_ts n) (entry_content u n)\<rparr> else n)
      in if n_origin m = None then m\<lparr>n_origin := Some origin\<rparr> else m)"

definition append_entry ::
    "(rchar \<Rightarrow> bool) \<Rightarrow> (board_note \<Rightarrow> rstr option) \<Rightarrow> rstr \<Rightarrow> rstr \<Rightarrow> io_outcome
     \<Rightarrow> rstr option \<Rightarrow> board_note \<Rightarrow> (rstr + board_note) \<times> rstr option" where
  "append_entry u enc origin path io file n =
     (let m = stamp_entry u origin n in
      case append_file io path file (encode_note_line enc m) of
        (Inl e, file') \<Rightarrow> (Inl e, file')
      | (Inr _, file') \<Rightarrow> (Inr m, file'))"

text \<open>\<^verbatim>\<open>note_at\<close>: the exit code and the file.\<close>

definition note_at ::
    "(rchar \<Rightarrow> bool) \<Rightarrow> (board_note \<Rightarrow> rstr option) \<Rightarrow> rstr \<Rightarrow> u64 \<Rightarrow> rstr \<Rightarrow> io_outcome
     \<Rightarrow> rstr option \<Rightarrow> rstr option \<Rightarrow> rstr option \<Rightarrow> rstr \<Rightarrow> int \<times> rstr option" where
  "note_at u enc origin now_s path io file topic sender msg =
     (let n = \<lparr>n_ts = now_s, n_from = sender, n_topic = topic, n_msg = msg,
               n_id = mint_id origin now_s
                        (debug_option (debug_str u) sender @ debug_option (debug_str u) topic @ msg),
               n_origin = Some origin, n_kind = KNote, n_task = None, n_cost = None, n_to = None,
               n_ok = None\<rparr>
      in case append_file io path file (encode_note_line enc n) of
           (Inl _, file') \<Rightarrow> (1, file')
         | (Inr _, file') \<Rightarrow> (0, file'))"

text \<open>\<^verbatim>\<open>notes_at\<close>: the lines printed.\<close>

definition notes_at ::
    "(rchar \<Rightarrow> bool) \<Rightarrow> (rstr \<Rightarrow> board_note option) \<Rightarrow> rstr option \<Rightarrow> rstr option \<Rightarrow> nat option \<Rightarrow> rstr list" where
  "notes_at u dec file topic since =
     (let sel = select_notes (read_blackboard u dec file) topic (case since of None \<Rightarrow> 0 | Some s \<Rightarrow> s)
      in if sel = [] then [lit ''(no notes)''] else map (\<lambda>(i, n). format_note i n) sel)"

text \<open>The flag parsers of \<^verbatim>\<open>note\<close>, \<^verbatim>\<open>notes\<close> and \<^verbatim>\<open>handoff\<close>: an exit code or the call they make.\<close>

datatype note_plan = NoteExit int | NoteCall "rstr option" "rstr option" rstr

fun run_note_loop :: "rstr list \<Rightarrow> rstr option \<Rightarrow> rstr option \<Rightarrow> rstr option \<Rightarrow> note_plan" where
  "run_note_loop [] topic sender msg =
     (case msg of None \<Rightarrow> NoteExit 2 | Some m \<Rightarrow> NoteCall topic sender m)"
| "run_note_loop (a # args) topic sender msg =
     (if a = lit ''--topic'' then
        (case args of [] \<Rightarrow> run_note_loop [] None sender msg
                    | v # rest \<Rightarrow> run_note_loop rest (Some v) sender msg)
      else if a = lit ''--from'' then
        (case args of [] \<Rightarrow> run_note_loop [] topic None msg
                    | v # rest \<Rightarrow> run_note_loop rest topic (Some v) msg)
      else if msg = None then run_note_loop args topic sender (Some a)
      else run_note_loop args topic sender msg)"

definition run_note :: "rstr list \<Rightarrow> note_plan" where
  "run_note args = run_note_loop args None None None"

datatype notes_plan = NotesExit int | NotesCall "rstr option" "nat option"

fun run_notes_loop :: "rstr list \<Rightarrow> rstr option \<Rightarrow> nat option \<Rightarrow> notes_plan" where
  "run_notes_loop [] topic since = NotesCall topic since"
| "run_notes_loop (a # args) topic since =
     (if a = lit ''--topic'' then
        (case args of [] \<Rightarrow> run_notes_loop [] None since
                    | v # rest \<Rightarrow> run_notes_loop rest (Some v) since)
      else if a = lit ''--since'' then
        (case args of
           [] \<Rightarrow> NotesExit 2
         | v # rest \<Rightarrow>
             (case parse_uint u64_max v of
                None \<Rightarrow> NotesExit 2
              | Some n \<Rightarrow> run_notes_loop rest topic (Some n)))
      else run_notes_loop args topic since)"

definition run_notes :: "rstr list \<Rightarrow> notes_plan" where
  "run_notes args = run_notes_loop args None None"

definition run_handoff :: "rstr list \<Rightarrow> int + (rstr \<times> rstr)" where
  "run_handoff args = (case args of (file # tab # _) \<Rightarrow> Inr (file, tab) | _ \<Rightarrow> Inl 2)"

section \<open>Merging\<close>

lemma merge_notes_go_mem:
  "n \<in> set (merge_notes_go known seen ns) \<Longrightarrow>
     n \<in> set ns \<and> n_id n \<noteq> [] \<and> n_id n \<notin> set known \<and> n_id n \<notin> set seen"
  by (induction known seen ns rule: merge_notes_go.induct) (auto split: if_splits)

lemma merge_notes_go_ids:
  "n_id ` set (merge_notes_go known seen ns) =
     n_id ` {n \<in> set ns. n_id n \<noteq> []} - set known - set seen"
proof (induction known seen ns rule: merge_notes_go.induct)
  case (1 known seen)
  then show ?case by simp
next
  case (2 known seen n ns)
  let ?A = "{m \<in> set ns. n_id m \<noteq> []}"
  have eq: "{m \<in> set (n # ns). n_id m \<noteq> []} = (if n_id n = [] then ?A else insert n ?A)"
    by auto
  show ?case
  proof (cases "n_id n \<noteq> [] \<and> n_id n \<notin> set known \<and> n_id n \<notin> set seen")
    case True
    have "n_id ` set (merge_notes_go known (n_id n # seen) ns) = n_id ` ?A - set known - set (n_id n # seen)"
      by (rule "2.IH" (1) [OF True])
    moreover have "merge_notes_go known seen (n # ns) = n # merge_notes_go known (n_id n # seen) ns"
      using True by simp
    ultimately show ?thesis unfolding eq using True by (simp only: list.set image_insert) auto
  next
    case False
    have "n_id ` set (merge_notes_go known seen ns) = n_id ` ?A - set known - set seen"
      by (rule "2.IH" (2) [OF False])
    moreover have "merge_notes_go known seen (n # ns) = merge_notes_go known seen ns"
      using False by (simp only: merge_notes_go.simps if_False)
    ultimately show ?thesis
      unfolding eq using False
      by (cases "n_id n = []"; cases "n_id n \<in> set known"; cases "n_id n \<in> set seen")
        (simp_all add: insert_Diff_if)
  qed
qed

lemma merge_notes_go_distinct: "distinct (map n_id (merge_notes_go known seen ns))"
proof (induction known seen ns rule: merge_notes_go.induct)
  case (2 known seen n ns)
  then show ?case by (auto dest: merge_notes_go_mem)
qed simp

lemma merge_notes_fresh:
  "n \<in> set (merge_notes h i) \<Longrightarrow> n \<in> set i \<and> n_id n \<noteq> [] \<and> n_id n \<notin> n_id ` set h"
  by (auto simp: merge_notes_def dest: merge_notes_go_mem)

interpretation board: grow_only_set merge_notes n_id "\<lambda>n. n_id n \<noteq> []"
proof
  show "set (merge_notes h i) \<subseteq> set i" for h i
    by (rule subsetI) (simp add: merge_notes_fresh)
  show "n_id ` set (merge_notes h i) = n_id ` {e \<in> set i. n_id e \<noteq> []} - n_id ` set h" for h i
    by (simp add: merge_notes_def merge_notes_go_ids)
  show "distinct (map n_id (merge_notes h i))" for h i
    by (simp add: merge_notes_def merge_notes_go_distinct)
qed

lemma merge_notes_id:
  "distinct (map n_id i) \<Longrightarrow> \<forall>n \<in> set i. n_id n \<noteq> [] \<and> n_id n \<notin> n_id ` set h \<Longrightarrow> merge_notes h i = i"
proof -
  have "distinct (map n_id ns) \<Longrightarrow>
      \<forall>n \<in> set ns. n_id n \<noteq> [] \<and> n_id n \<notin> set known \<and> n_id n \<notin> set seen \<Longrightarrow>
      merge_notes_go known seen ns = ns" for known seen ns
  proof (induction known seen ns rule: merge_notes_go.induct)
    case (2 known seen n ns)
    then have "\<forall>m \<in> set ns. n_id m \<noteq> n_id n" by (metis distinct.simps(2) image_eqI image_set list.simps(9))
    with 2 show ?case by simp
  qed simp
  then show "distinct (map n_id i) \<Longrightarrow>
      \<forall>n \<in> set i. n_id n \<noteq> [] \<and> n_id n \<notin> n_id ` set h \<Longrightarrow> merge_notes h i = i"
    by (simp add: merge_notes_def)
qed

section \<open>Entries and their file\<close>

text \<open>
  What the codec is relied on for, entry by entry: encoding succeeds, decoding gives the entry
  back, and the JSON text is one line that is neither blank nor ends in a carriage return.
\<close>

definition codec_at :: "(board_note \<Rightarrow> rstr option) \<Rightarrow> (rstr \<Rightarrow> board_note option) \<Rightarrow> board_note \<Rightarrow> bool" where
  "codec_at enc dec n \<longleftrightarrow>
     (\<exists>s. enc n = Some s \<and> dec s = Some n \<and> 10 \<notin> set s \<and> trim s \<noteq> [] \<and> last s \<noteq> 13)"

text \<open>The text an append may extend: empty, or ended by a line feed.\<close>

definition file_text :: "rstr option \<Rightarrow> rstr" where
  "file_text file = (case file of None \<Rightarrow> [] | Some b \<Rightarrow> b)"

definition line_complete :: "rstr \<Rightarrow> bool" where
  "line_complete b \<longleftrightarrow> b = [] \<or> last b = 10"

lemma line_complete_append: "c \<noteq> [] \<Longrightarrow> line_complete c \<Longrightarrow> line_complete (b @ c)"
  by (simp add: line_complete_def)

lemma backfill_id_keyed [simp]: "n_id n \<noteq> [] \<Longrightarrow> backfill_id u n = n"
  by (simp add: backfill_id_def)

lemma mint_id_not_Nil [simp]: "mint_id h t c \<noteq> []"
  by (simp add: mint_id_def lit_def)

lemma backfill_id_nonempty: "n_id (backfill_id u n) \<noteq> []"
  by (simp add: backfill_id_def)

text \<open>Every entry read from a blackboard has an id.\<close>

lemma parse_notes_keyed: "n \<in> set (parse_notes u dec b) \<Longrightarrow> n_id n \<noteq> []"
  by (auto simp: parse_notes_def List.map_filter_def backfill_id_nonempty)

lemma parse_notes_Nil [simp]: "parse_notes u dec [] = []"
  by (simp add: parse_notes_def str_lines_def List.map_filter_def)

lemma parse_notes_append:
  "line_complete b \<Longrightarrow> parse_notes u dec (b @ c) = parse_notes u dec b @ parse_notes u dec c"
  by (simp add: parse_notes_def line_complete_def str_lines_append List.map_filter_def)

lemma parse_encoded_line:
  assumes "codec_at enc dec n"
  shows "parse_notes u dec (encode_note_line enc n) = [backfill_id u n]"
proof -
  obtain s where s: "enc n = Some s" "dec s = Some n" "10 \<notin> set s" "trim s \<noteq> []" "last s \<noteq> 13"
    using assms by (auto simp: codec_at_def)
  then have "str_lines (encode_note_line enc n) = [s]"
    by (simp add: encode_note_line_def str_lines_line)
  with s show ?thesis by (simp add: parse_notes_def List.map_filter_def)
qed

lemma encode_line_complete: "encode_note_line enc n \<noteq> [] \<and> last (encode_note_line enc n) = 10"
  by (simp add: encode_note_line_def)

lemma encoded_lines_complete: "line_complete (concat (map (encode_note_line enc) ns))"
  by (induction ns) (auto simp: line_complete_def encode_note_line_def)

lemma parse_encoded_lines:
  "\<forall>n \<in> set ns. codec_at enc dec n \<Longrightarrow>
     parse_notes u dec (concat (map (encode_note_line enc) ns)) = map (backfill_id u) ns"
proof (induction ns)
  case Nil
  then show ?case by simp
next
  case (Cons n ns)
  have "line_complete (encode_note_line enc n)"
    by (simp add: line_complete_def encode_line_complete)
  with Cons show ?case by (simp add: parse_notes_append parse_encoded_line)
qed

lemma read_blackboard_text: "read_blackboard u dec file = parse_notes u dec (file_text file)"
  by (simp add: read_blackboard_def file_text_def)

lemma append_file_ok: "append_file IoOk path file body = (Inr (), Some (file_text file @ body))"
  by (simp add: append_file_def file_text_def)

lemma merge_into_ok:
  assumes "line_complete (file_text file)" "\<forall>n \<in> set incoming. codec_at enc dec n"
    and r: "merge_into_blackboard u enc dec path IoOk file incoming = (r, file')"
  shows "read_blackboard u dec file' = board.join (read_blackboard u dec file) incoming"
    and "r = Inr (length (merge_notes (read_blackboard u dec file) incoming))"
    and "line_complete (file_text file')"
proof -
  let ?new = "merge_notes (read_blackboard u dec file) incoming"
  have k: "map (backfill_id u) ?new = ?new"
    by (rule map_idI) (auto dest: merge_notes_fresh)
  have c: "\<forall>n \<in> set ?new. codec_at enc dec n"
    using assms(2) by (auto dest: merge_notes_fresh)
  have f: "file' = (if ?new = [] then file else Some (file_text file @ concat (map (encode_note_line enc) ?new)))"
    and "r = Inr (length ?new)"
    using r by (auto simp: merge_into_blackboard_def append_file_ok Let_def split: if_splits)
  then show "r = Inr (length ?new)" by simp
  show "read_blackboard u dec file' = board.join (read_blackboard u dec file) incoming"
    using f assms(1) parse_encoded_lines [OF c, of u] k
    by (auto simp: read_blackboard_text board.join_def parse_notes_append file_text_def)
  show "line_complete (file_text file')"
  proof (cases "?new = []")
    case True
    with f assms(1) show ?thesis by simp
  next
    case False
    then have "concat (map (encode_note_line enc) ?new) \<noteq> []"
      by (cases ?new) (auto simp: encode_line_complete)
    then have "line_complete (file_text file @ concat (map (encode_note_line enc) ?new))"
      by (rule line_complete_append [OF _ encoded_lines_complete])
    with False f show ?thesis by (simp add: file_text_def)
  qed
qed

text \<open>An appended entry is the last one read back, with the id and origin it was stamped with.\<close>

lemma append_entry_ok:
  assumes "line_complete (file_text file)" "codec_at enc dec (stamp_entry u origin n)"
    and r: "append_entry u enc origin path IoOk file n = (r, file')"
  shows "r = Inr (stamp_entry u origin n)"
    and "read_blackboard u dec file' = read_blackboard u dec file @ [stamp_entry u origin n]"
    and "line_complete (file_text file')"
proof -
  have id: "n_id (stamp_entry u origin n) \<noteq> []"
    by (simp add: stamp_entry_def Let_def)
  have f: "file' = Some (file_text file @ encode_note_line enc (stamp_entry u origin n))"
    and "r = Inr (stamp_entry u origin n)"
    using r by (auto simp: append_entry_def append_file_ok Let_def)
  then show "r = Inr (stamp_entry u origin n)" by simp
  show "read_blackboard u dec file' = read_blackboard u dec file @ [stamp_entry u origin n]"
    using f assms(1,2) id
    by (simp add: read_blackboard_text parse_notes_append parse_encoded_line file_text_def)
  show "line_complete (file_text file')"
    using f encode_line_complete [of enc "stamp_entry u origin n"]
    by (simp add: line_complete_def file_text_def)
qed

section \<open>Small facts about the views\<close>

lemma kind_parse_as_str [simp]: "kind_parse (kind_as_str k) = Some k"
  by (cases k) (simp_all add: kind_parse_def lit_def to_ascii_lowercase_def)

text \<open>A target that is found answers to the key by name, by index or by uuid.\<close>

lemma resolve_target_sound:
  assumes "resolve_target u tabs key = Inr t"
  shows "t \<in> set tabs \<and>
         (tv_name t = key \<or> parse_uint u64_max key = Some (tv_index t) \<or> tv_id t = key)"
proof (cases "filter (\<lambda>t. tv_name t = key) tabs")
  case Nil
  with assms show ?thesis
    by (auto simp: resolve_target_def Option.bind_eq_Some_conv find_Some_iff in_set_conv_nth
        split: option.splits)
next
  case (Cons x xs)
  then have "x \<in> set (filter (\<lambda>t. tv_name t = key) tabs)" by simp
  then have "x \<in> set tabs" "tv_name x = key" by auto
  with assms Cons show ?thesis by (cases xs) (auto simp: resolve_target_def)
qed

text \<open>A name several tabs carry is refused, so a message never goes to the wrong one of them.\<close>

lemma resolve_target_ambiguous:
  assumes "i < j" "j < length tabs" "tv_name (tabs ! i) = key" "tv_name (tabs ! j) = key"
  shows "\<exists>e. resolve_target u tabs key = Inl e"
proof -
  let ?P = "\<lambda>t. tv_name t = key"
  have sub: "{i, j} \<subseteq> {k. k < length tabs \<and> ?P (tabs ! k)}"
    using assms by auto
  have "card {i, j} \<le> card {k. k < length tabs \<and> ?P (tabs ! k)}"
    by (rule card_mono [OF _ sub]) simp
  then have "2 \<le> length (filter ?P tabs)"
    using assms(1) by (simp add: length_filter_conv_card)
  then obtain x y zs where "filter ?P tabs = x # y # zs"
    by (metis One_nat_def Suc_1 Suc_le_length_iff)
  then show ?thesis by (simp add: resolve_target_def)
qed

end
