(* ===== verification/Choice.thy ===== *)
theory Choice
  imports Prelude
begin

text \<open>
  A scan that keeps the best entry seen so far, replacing it only by a strictly better one: how the
  board resolves conflicting entries. Under the laws of a strict weak order the result is a best
  entry, and where no two candidates tie it depends on the set of entries only.
\<close>

definition keep_best :: "('a \<Rightarrow> 'a \<Rightarrow> bool) \<Rightarrow> 'a option \<Rightarrow> 'a \<Rightarrow> 'a option" where
  "keep_best better b n =
     (case b of None \<Rightarrow> Some n | Some p \<Rightarrow> if better n p then Some n else Some p)"

definition choose_best :: "('a \<Rightarrow> 'a \<Rightarrow> bool) \<Rightarrow> ('a \<Rightarrow> bool) \<Rightarrow> 'a list \<Rightarrow> 'a option" where
  "choose_best better P ns = foldl (\<lambda>b n. if P n then keep_best better b n else b) None ns"

lemma choose_best_Nil [simp]: "choose_best better P [] = None"
  by (simp add: choose_best_def)

lemma choose_best_snoc:
  "choose_best better P (ns @ [n]) =
     (if P n then keep_best better (choose_best better P ns) n else choose_best better P ns)"
  by (simp add: choose_best_def)

lemma choose_best_None: "choose_best better P ns = None \<longleftrightarrow> (\<forall>n \<in> set ns. \<not> P n)"
  by (induction ns rule: rev_induct)
    (auto simp: choose_best_snoc keep_best_def split: option.splits)

lemma choose_best_in: "choose_best better P ns = Some n \<Longrightarrow> n \<in> set ns \<and> P n"
  by (induction ns arbitrary: n rule: rev_induct)
    (auto simp: choose_best_snoc keep_best_def split: option.splits if_splits)

lemma choose_best_cong:
  "(\<And>n. n \<in> set ns \<Longrightarrow> P n = Q n) \<Longrightarrow> choose_best better P ns = choose_best better Q ns"
  by (induction ns rule: rev_induct) (auto simp: choose_best_snoc)

text \<open>Entries that are no candidates may be left out.\<close>

lemma choose_best_filter:
  "(\<And>n. n \<in> set ns \<Longrightarrow> P n \<Longrightarrow> Q n) \<Longrightarrow> choose_best better P (filter Q ns) = choose_best better P ns"
  by (induction ns rule: rev_induct) (auto simp: choose_best_snoc)

locale strict_choice =
  fixes better :: "'a \<Rightarrow> 'a \<Rightarrow> bool" and scope :: "'a \<Rightarrow> bool"
  assumes better_asym: "scope a \<Longrightarrow> scope b \<Longrightarrow> better a b \<Longrightarrow> \<not> better b a"
    and not_better_trans:
      "scope a \<Longrightarrow> scope b \<Longrightarrow> scope c \<Longrightarrow> \<not> better a b \<Longrightarrow> \<not> better b c \<Longrightarrow> \<not> better a c"
begin

lemma choose_best_max:
  assumes "choose_best better P ns = Some n" "\<forall>m \<in> set ns. P m \<longrightarrow> scope m" "m \<in> set ns" "P m"
  shows "\<not> better m n"
  using assms
proof (induction ns arbitrary: n m rule: rev_induct)
  case Nil
  then show ?case by simp
next
  case (snoc x ns)
  have sc: "\<forall>m \<in> set ns. P m \<longrightarrow> scope m" using snoc.prems(2) by simp
  show ?case
  proof (cases "P x")
    case False
    with snoc show ?thesis by (auto simp: choose_best_snoc)
  next
    case Px: True
    then have sx: "scope x" using snoc.prems(2) by simp
    show ?thesis
    proof (cases "choose_best better P ns")
      case None
      then have "n = x" "\<forall>k \<in> set ns. \<not> P k"
        using snoc.prems(1) Px choose_best_None [THEN iffD1, OF None]
        by (simp_all add: choose_best_snoc keep_best_def None)
      then have "m = x" using snoc.prems by auto
      with \<open>n = x\<close> sx show ?thesis using better_asym by blast
    next
      case (Some p)
      have pin: "p \<in> set ns" "P p" using choose_best_in [OF Some] by auto
      then have sp: "scope p" using sc by blast
      have n: "n = (if better x p then x else p)"
        using snoc.prems(1) Px Some by (auto simp: choose_best_snoc keep_best_def split: if_splits)
      have old: "\<not> better k p" if "k \<in> set ns" "P k" for k
        by (rule snoc.IH [OF Some sc that])
      show ?thesis
      proof (cases "m = x")
        case True
        then show ?thesis using n sx better_asym by (cases "better x p") auto
      next
        case False
        with snoc.prems(3) have mi: "m \<in> set ns" by simp
        have sm: "scope m" using mi snoc.prems(4) sc by blast
        have mp: "\<not> better m p" by (rule old [OF mi snoc.prems(4)])
        show ?thesis
        proof (cases "better x p")
          case False
          then show ?thesis using n mp by simp
        next
          case True
          then have "\<not> better p x" using better_asym [OF sx sp] by blast
          with mp have "\<not> better m x" using not_better_trans [OF sm sp sx] by blast
          with n True show ?thesis by simp
        qed
      qed
    qed
  qed
qed

text \<open>Order independence: with no ties among the candidates, the set decides.\<close>

lemma choose_best_set:
  assumes sc: "\<forall>m \<in> set ns. P m \<longrightarrow> scope m"
    and total: "\<And>a b. a \<in> set ns \<Longrightarrow> b \<in> set ns \<Longrightarrow> P a \<Longrightarrow> P b \<Longrightarrow> a \<noteq> b \<Longrightarrow> better a b \<or> better b a"
    and eq: "set ns = set ms"
  shows "choose_best better P ns = choose_best better P ms"
proof (cases "choose_best better P ns")
  case None
  then have "\<forall>n \<in> set ms. \<not> P n" using eq by (simp add: choose_best_None)
  then have "choose_best better P ms = None" by (simp add: choose_best_None)
  with None show ?thesis by simp
next
  case (Some a)
  then have a: "a \<in> set ns" "P a" by (auto dest: choose_best_in)
  then have "choose_best better P ms \<noteq> None" using eq by (auto simp: choose_best_None)
  then obtain b where b: "choose_best better P ms = Some b" by blast
  then have b': "b \<in> set ns" "P b" using eq by (auto dest: choose_best_in)
  have "\<not> better b a" by (rule choose_best_max [OF Some sc b'])
  moreover have "\<not> better a b"
    using choose_best_max [OF b, of a] sc a eq by auto
  ultimately have "a = b" using total [OF a(1) b'(1) a(2) b'(2)] by blast
  with Some b show ?thesis by simp
qed

end

end
