(* ===== verification/Tasks.thy ===== *)
theory Tasks
  imports Blackboard Choice
begin

text \<open>
  The contract net of \<^verbatim>\<open>src/src/cli/tasks.rs\<close>: the fold that turns board entries into one view
  per task, the state derived from a view, and the uncoordinated ranking of open tasks.
\<close>

section \<open>Stamps\<close>

text \<open>The pair \<^verbatim>\<open>(ts, id)\<close> that \<^verbatim>\<open>newer\<close> compares, ordered by time and then by entry id.\<close>

datatype stamp = Stamp (stamp_ts: u64) (stamp_id: rstr)

instantiation stamp :: linorder
begin

definition less_stamp :: "stamp \<Rightarrow> stamp \<Rightarrow> bool" where
  "less_stamp a b \<longleftrightarrow>
     stamp_ts a < stamp_ts b \<or> (stamp_ts a = stamp_ts b \<and> stamp_id a < stamp_id b)"

definition less_eq_stamp :: "stamp \<Rightarrow> stamp \<Rightarrow> bool" where
  "less_eq_stamp a b \<longleftrightarrow>
     stamp_ts a < stamp_ts b \<or> (stamp_ts a = stamp_ts b \<and> stamp_id a \<le> stamp_id b)"

instance
  by standard (auto simp: less_stamp_def less_eq_stamp_def stamp.expand)

end

section \<open>Views\<close>

record task_view =
  t_id :: rstr
  t_title :: rstr
  t_announced_by :: "rstr option"
  t_home :: "rstr option"
  t_announced_ts :: u64
  t_last_ts :: u64
  t_bids :: "(rstr \<times> int) list"
  t_awarded_to :: "rstr option"
  t_done :: "(bool \<times> rstr) option"

datatype task_state = Open | Bidding | Awarded | Done | Failed

fun state_as_str :: "task_state \<Rightarrow> rstr" where
  "state_as_str Open = lit ''open''"
| "state_as_str Bidding = lit ''bidding''"
| "state_as_str Awarded = lit ''awarded''"
| "state_as_str Done = lit ''done''"
| "state_as_str Failed = lit ''failed''"

definition task_state_of :: "task_view \<Rightarrow> task_state" where
  "task_state_of t =
     (case t_done t of
        Some (True, _) \<Rightarrow> Done
      | Some (False, _) \<Rightarrow> Failed
      | None \<Rightarrow>
          if t_awarded_to t \<noteq> None then Awarded
          else if t_bids t = [] then Open
          else Bidding)"

definition is_takeable :: "task_view \<Rightarrow> bool" where
  "is_takeable t \<longleftrightarrow> task_state_of t = Open \<or> task_state_of t = Bidding"

definition claim_key :: "task_view \<Rightarrow> rstr" where
  "claim_key t = lit ''task:'' @ t_id t"

section \<open>The fold\<close>

text \<open>The four maps the loop carries: the views, and the stamp behind each award, result and bid.\<close>

record fold_state =
  fs_out :: "(rstr, task_view) omap"
  fs_award :: "(rstr, stamp) omap"
  fs_done :: "(rstr, stamp) omap"
  fs_bid :: "(rstr \<times> rstr, stamp) omap"

definition blank_task :: "rstr \<Rightarrow> task_view" where
  "blank_task task =
     \<lparr>t_id = task, t_title = [], t_announced_by = None, t_home = None, t_announced_ts = 0,
      t_last_ts = 0, t_bids = [], t_awarded_to = None, t_done = None\<rparr>"

definition note_stamp :: "board_note \<Rightarrow> stamp" where
  "note_stamp n = Stamp (n_ts n) (n_id n)"

definition is_newer :: "stamp \<Rightarrow> stamp option \<Rightarrow> bool" where
  "is_newer this prev = (case prev of None \<Rightarrow> True | Some p \<Rightarrow> p < this)"

definition bid_cost :: "board_note \<Rightarrow> int" where
  "bid_cost n = (case n_cost n of None \<Rightarrow> 0 | Some c \<Rightarrow> c)"

definition done_value :: "board_note \<Rightarrow> bool \<times> rstr" where
  "done_value n = ((case n_ok n of None \<Rightarrow> True | Some b \<Rightarrow> b), n_msg n)"

definition fold_entry :: "fold_state \<Rightarrow> board_note \<Rightarrow> rstr \<Rightarrow> fold_state" where
  "fold_entry s n task =
     (let e0 = (case om_get (fs_out s) task of Some v \<Rightarrow> v | None \<Rightarrow> blank_task task);
          e = e0\<lparr>t_last_ts := max (t_last_ts e0) (n_ts n)\<rparr>;
          put = (\<lambda>v. om_insert task v (fs_out s))
      in case n_kind n of
           KAnnounce \<Rightarrow>
             if t_announced_ts e = 0 \<or> n_ts n < t_announced_ts e
             then s\<lparr>fs_out := put (e\<lparr>t_title := n_msg n, t_announced_by := n_from n,
                                     t_home := n_origin n, t_announced_ts := n_ts n\<rparr>)\<rparr>
             else s\<lparr>fs_out := put e\<rparr>
         | KBid \<Rightarrow>
             (case n_from n of
                None \<Rightarrow> s\<lparr>fs_out := put e\<rparr>
              | Some bidder \<Rightarrow>
                  if is_newer (note_stamp n) (om_get (fs_bid s) (task, bidder))
                  then s\<lparr>fs_bid := om_insert (task, bidder) (note_stamp n) (fs_bid s),
                         fs_out := put (e\<lparr>t_bids := filter (\<lambda>(who, _). who \<noteq> bidder) (t_bids e)
                                                     @ [(bidder, bid_cost n)]\<rparr>)\<rparr>
                  else s\<lparr>fs_out := put e\<rparr>)
         | KAward \<Rightarrow>
             if is_newer (note_stamp n) (om_get (fs_award s) task)
             then s\<lparr>fs_award := om_insert task (note_stamp n) (fs_award s),
                    fs_out := put (e\<lparr>t_awarded_to := n_to n\<rparr>)\<rparr>
             else s\<lparr>fs_out := put e\<rparr>
         | KDone \<Rightarrow>
             if is_newer (note_stamp n) (om_get (fs_done s) task)
             then s\<lparr>fs_done := om_insert task (note_stamp n) (fs_done s),
                    fs_out := put (e\<lparr>t_done := Some (done_value n)\<rparr>)\<rparr>
             else s\<lparr>fs_out := put e\<rparr>
         | KNote \<Rightarrow> s\<lparr>fs_out := put e\<rparr>)"

definition fold_step :: "fold_state \<Rightarrow> board_note \<Rightarrow> fold_state" where
  "fold_step s n =
     (case n_task n of
        None \<Rightarrow> s
      | Some task \<Rightarrow> if task = [] \<or> kind_is_note (n_kind n) then s else fold_entry s n task)"

definition fold_init :: fold_state where
  "fold_init = \<lparr>fs_out = [], fs_award = [], fs_done = [], fs_bid = []\<rparr>"

definition sort_bids :: "(rstr \<times> int) list \<Rightarrow> (rstr \<times> int) list" where
  "sort_bids bs = sort_key (\<lambda>(who, cost). (cost, who)) bs"

definition sort_views :: "task_view list \<Rightarrow> task_view list" where
  "sort_views vs = sort_key (\<lambda>v. (t_announced_ts v, t_id v)) vs"

definition fold_tasks :: "board_note list \<Rightarrow> task_view list" where
  "fold_tasks notes =
     sort_views (map (\<lambda>v. v\<lparr>t_bids := sort_bids (t_bids v)\<rparr>)
       (om_values (fs_out (foldl fold_step fold_init notes))))"

definition best_bid :: "task_view \<Rightarrow> (rstr \<times> int) option" where
  "best_bid t = (case t_bids t of [] \<Rightarrow> None | b # _ \<Rightarrow> Some b)"

section \<open>Ranking\<close>

definition mix64 :: "64 word \<Rightarrow> 64 word" where
  "mix64 z0 =
     (let z1 = z0 XOR drop_bit 30 z0;
          z2 = z1 * 0xbf58476d1ce4e5b9;
          z3 = z2 XOR drop_bit 27 z2;
          z4 = z3 * 0x94d049bb133111eb
      in z4 XOR drop_bit 31 z4)"

definition rendezvous_weight :: "rstr \<Rightarrow> rstr \<Rightarrow> 64 word" where
  "rendezvous_weight task me = mix64 (stable_hash task XOR mix64 (stable_hash me))"

definition rank_tasks :: "task_view list \<Rightarrow> rstr \<Rightarrow> task_view list" where
  "rank_tasks tasks me =
     sort_key (\<lambda>t. (rendezvous_weight (t_id t) me, t_id t))
       (filter (\<lambda>t. is_takeable t \<and> t_announced_by t \<noteq> Some me) tasks)"

definition format_task :: "task_view \<Rightarrow> rstr" where
  "format_task t =
     (let who = (case t_awarded_to t of
                   Some w \<Rightarrow> w
                 | None \<Rightarrow> (case t_bids t of (b, _) # _ \<Rightarrow> b | [] \<Rightarrow> lit ''-''));
          bids = (if t_bids t = [] then []
                  else [32, 183, 32] @ show_nat (length (t_bids t)) @ lit '' bid(s)'');
          result = (case t_done t of
                      Some (_, r) \<Rightarrow> if r \<noteq> [] then [32, 8212, 32] @ r else []
                    | None \<Rightarrow> [])
      in lit ''['' @ t_id t @ lit ''] '' @ pad_right 8 32 (state_as_str (task_state_of t)) @ lit '' ''
           @ pad_right 16 32 who @ bids @ lit '' '' @ t_title t @ result)"

section \<open>What the board says of a task\<close>

text \<open>
  The same view without the loop: of the announcements the earliest, of the awards, results and
  bids of a bidder the newest. An announcement stamped 0 counts as none, as the code's test reads.
\<close>

definition about :: "rstr \<Rightarrow> board_note \<Rightarrow> bool" where
  "about k n \<longleftrightarrow> n_task n = Some k \<and> k \<noteq> [] \<and> n_kind n \<noteq> KNote"

definition earlier :: "board_note \<Rightarrow> board_note \<Rightarrow> bool" where
  "earlier n p \<longleftrightarrow> n_ts p = 0 \<or> n_ts n < n_ts p"

definition newest :: "board_note \<Rightarrow> board_note \<Rightarrow> bool" where
  "newest n p \<longleftrightarrow> note_stamp p < note_stamp n"

definition announcement :: "board_note list \<Rightarrow> rstr \<Rightarrow> board_note option" where
  "announcement ns k = choose_best earlier (\<lambda>n. about k n \<and> n_kind n = KAnnounce) ns"

definition award_of :: "board_note list \<Rightarrow> rstr \<Rightarrow> board_note option" where
  "award_of ns k = choose_best newest (\<lambda>n. about k n \<and> n_kind n = KAward) ns"

definition result_of :: "board_note list \<Rightarrow> rstr \<Rightarrow> board_note option" where
  "result_of ns k = choose_best newest (\<lambda>n. about k n \<and> n_kind n = KDone) ns"

definition bid_of :: "board_note list \<Rightarrow> rstr \<Rightarrow> rstr \<Rightarrow> board_note option" where
  "bid_of ns k b = choose_best newest (\<lambda>n. about k n \<and> n_kind n = KBid \<and> n_from n = Some b) ns"

definition latest_ts :: "board_note list \<Rightarrow> rstr \<Rightarrow> u64" where
  "latest_ts ns k = foldl (\<lambda>m n. if about k n then max m (n_ts n) else m) 0 ns"

lemmas board_says = announcement_def award_of_def result_of_def bid_of_def latest_ts_def

text \<open>One more entry: nothing changes for other tasks, and one reading for its own.\<close>

lemma board_says_other:
  "\<not> about k n \<Longrightarrow> announcement (ns @ [n]) k = announcement ns k \<and>
     award_of (ns @ [n]) k = award_of ns k \<and> result_of (ns @ [n]) k = result_of ns k \<and>
     (\<forall>b. bid_of (ns @ [n]) k b = bid_of ns k b) \<and> latest_ts (ns @ [n]) k = latest_ts ns k"
  by (simp add: board_says choose_best_snoc)

lemma announcement_snoc:
  "announcement (ns @ [n]) k =
     (if about k n \<and> n_kind n = KAnnounce then keep_best earlier (announcement ns k) n
      else announcement ns k)"
  by (simp add: announcement_def choose_best_snoc)

lemma award_of_snoc:
  "award_of (ns @ [n]) k =
     (if about k n \<and> n_kind n = KAward then keep_best newest (award_of ns k) n else award_of ns k)"
  by (simp add: award_of_def choose_best_snoc)

lemma result_of_snoc:
  "result_of (ns @ [n]) k =
     (if about k n \<and> n_kind n = KDone then keep_best newest (result_of ns k) n else result_of ns k)"
  by (simp add: result_of_def choose_best_snoc)

lemma bid_of_snoc:
  "bid_of (ns @ [n]) k b =
     (if about k n \<and> n_kind n = KBid \<and> n_from n = Some b then keep_best newest (bid_of ns k b) n
      else bid_of ns k b)"
  by (simp add: bid_of_def choose_best_snoc)

lemma latest_ts_snoc:
  "latest_ts (ns @ [n]) k = (if about k n then max (latest_ts ns k) (n_ts n) else latest_ts ns k)"
  by (simp add: latest_ts_def)

lemmas board_says_snoc = announcement_snoc award_of_snoc result_of_snoc bid_of_snoc latest_ts_snoc

text \<open>The state of one task in the loop, and what relates it to the entries read so far.\<close>

definition cell :: "fold_state \<Rightarrow> rstr \<Rightarrow> task_view" where
  "cell s k = (case om_get (fs_out s) k of Some v \<Rightarrow> v | None \<Rightarrow> blank_task k)"

definition view_ok :: "board_note list \<Rightarrow> rstr \<Rightarrow> task_view \<Rightarrow> bool" where
  "view_ok ns k v \<longleftrightarrow>
     t_id v = k \<and>
     t_title v = (case announcement ns k of None \<Rightarrow> [] | Some a \<Rightarrow> n_msg a) \<and>
     t_announced_by v = Option.bind (announcement ns k) n_from \<and>
     t_home v = Option.bind (announcement ns k) n_origin \<and>
     t_announced_ts v = (case announcement ns k of None \<Rightarrow> 0 | Some a \<Rightarrow> n_ts a) \<and>
     t_last_ts v = latest_ts ns k \<and>
     t_awarded_to v = Option.bind (award_of ns k) n_to \<and>
     t_done v = map_option done_value (result_of ns k) \<and>
     distinct (map fst (t_bids v)) \<and>
     (\<forall>b c. (b, c) \<in> set (t_bids v) \<longleftrightarrow> map_option bid_cost (bid_of ns k b) = Some c)"

definition cell_ok :: "board_note list \<Rightarrow> fold_state \<Rightarrow> rstr \<Rightarrow> bool" where
  "cell_ok ns s k \<longleftrightarrow>
     (om_get (fs_out s) k = None \<longleftrightarrow> (\<forall>n \<in> set ns. \<not> about k n)) \<and> view_ok ns k (cell s k) \<and>
     om_get (fs_award s) k = map_option note_stamp (award_of ns k) \<and>
     om_get (fs_done s) k = map_option note_stamp (result_of ns k) \<and>
     (\<forall>b. om_get (fs_bid s) (k, b) = map_option note_stamp (bid_of ns k b))"

definition maps_ok :: "fold_state \<Rightarrow> bool" where
  "maps_ok s \<longleftrightarrow> om_inv (fs_out s) \<and> om_inv (fs_award s) \<and> om_inv (fs_done s) \<and> om_inv (fs_bid s)"

lemma maps_ok_init: "maps_ok fold_init"
  by (simp add: maps_ok_def fold_init_def)

lemma maps_ok_entry: "maps_ok s \<Longrightarrow> maps_ok (fold_entry s n k)"
  by (simp add: maps_ok_def fold_entry_def Let_def om.inv_insert
      split: note_kind.split option.split)

lemma maps_ok_step: "maps_ok s \<Longrightarrow> maps_ok (fold_step s n)"
  by (simp add: fold_step_def maps_ok_entry split: option.split)

lemma cell_ok_init: "cell_ok [] fold_init k"
  by (simp add: cell_ok_def view_ok_def fold_init_def cell_def blank_task_def board_says)

text \<open>An entry about one task leaves every other task's state alone.\<close>

lemma fold_entry_other:
  assumes "maps_ok s" "j \<noteq> k"
  shows "om_get (fs_out (fold_entry s n k)) j = om_get (fs_out s) j"
    and "om_get (fs_award (fold_entry s n k)) j = om_get (fs_award s) j"
    and "om_get (fs_done (fold_entry s n k)) j = om_get (fs_done s) j"
    and "om_get (fs_bid (fold_entry s n k)) (j, b) = om_get (fs_bid s) (j, b)"
  using assms
  by (simp_all add: maps_ok_def fold_entry_def Let_def om.get_insert split: note_kind.split option.split)

lemma fold_step_other:
  assumes "maps_ok s" "\<not> about j n"
  shows "om_get (fs_out (fold_step s n)) j = om_get (fs_out s) j \<and>
    om_get (fs_award (fold_step s n)) j = om_get (fs_award s) j \<and>
    om_get (fs_done (fold_step s n)) j = om_get (fs_done s) j \<and>
    om_get (fs_bid (fold_step s n)) (j, b) = om_get (fs_bid s) (j, b)"
proof (cases "n_task n")
  case None
  then show ?thesis by (simp add: fold_step_def)
next
  case (Some k)
  then have "k = [] \<or> kind_is_note (n_kind n) \<or> j \<noteq> k"
    using assms(2) by (auto simp: about_def kind_is_note_def)
  with Some fold_entry_other [OF assms(1)] show ?thesis by (auto simp: fold_step_def)
qed

lemma cell_ok_other:
  assumes "maps_ok s" "\<not> about k n" "cell_ok ns s k"
  shows "cell_ok (ns @ [n]) (fold_step s n) k"
  using assms(3) fold_step_other [OF assms(1,2)] board_says_other [OF assms(2)] assms(2)
  by (simp add: cell_ok_def view_ok_def cell_def)

lemma keep_newest:
  "keep_best newest b n = (if is_newer (note_stamp n) (map_option note_stamp b) then Some n else b)"
  by (auto simp: is_newer_def keep_best_def newest_def split: option.splits)

lemma keep_earlier:
  "keep_best earlier b n =
     (if (case b of None \<Rightarrow> 0 | Some a \<Rightarrow> n_ts a) = 0 \<or> n_ts n < (case b of None \<Rightarrow> 0 | Some a \<Rightarrow> n_ts a)
      then Some n else b)"
  by (auto simp: keep_best_def earlier_def split: option.splits)

text \<open>An entry about a task moves its state to what the board then says, whatever its kind.\<close>

lemma fold_step_about:
  "about k n \<Longrightarrow> fold_step s n = fold_entry s n k"
  by (auto simp: fold_step_def about_def kind_is_note_def)

lemma cell_insert:
  "om_inv (fs_out s) \<Longrightarrow> cell (s\<lparr>fs_out := om_insert k v (fs_out s)\<rparr>) k = v"
  by (simp add: cell_def om.get_insert)

lemma bids_replace:
  assumes "distinct (map fst bs)" "\<forall>b c. (b, c) \<in> set bs \<longleftrightarrow> f b = Some c"
  shows "distinct (map fst (filter (\<lambda>(w, _). w \<noteq> x) bs @ [(x, d)])) \<and>
     (\<forall>b c. (b, c) \<in> set (filter (\<lambda>(w, _). w \<noteq> x) bs @ [(x, d)]) \<longleftrightarrow> (f(x \<mapsto> d)) b = Some c)"
  using assms by (auto simp: distinct_map_filter)

lemma cell_ok_about:
  assumes m: "maps_ok s" and a: "about k n" and c: "cell_ok ns s k"
  shows "cell_ok (ns @ [n]) (fold_step s n) k"
proof -
  have inv: "om_inv (fs_out s)" "om_inv (fs_award s)" "om_inv (fs_done s)" "om_inv (fs_bid s)"
    using m by (simp_all add: maps_ok_def)
  have e: "(case om_get (fs_out s) k of Some v \<Rightarrow> v | None \<Rightarrow> blank_task k) = cell s k"
    by (simp add: cell_def)
  have v: "view_ok ns k (cell s k)" using c by (simp add: cell_ok_def)
  consider "n_kind n = KAnnounce" | "n_kind n = KAward" | "n_kind n = KDone"
    | b where "n_kind n = KBid" "n_from n = Some b" | "n_kind n = KBid" "n_from n = None"
    using a by (cases "n_kind n"; cases "n_from n") (auto simp: about_def)
  then show ?thesis
  proof cases
    case 1
    with a c v inv show ?thesis
      unfolding fold_step_about [OF a] fold_entry_def e
      by (simp add: cell_ok_def Let_def cell_insert om.get_insert board_says_snoc keep_earlier view_ok_def
          split: option.splits)
  next
    case 2
    with a c v inv show ?thesis
      unfolding fold_step_about [OF a] fold_entry_def e
      by (simp add: cell_ok_def Let_def cell_def om.get_insert board_says_snoc keep_newest view_ok_def)
  next
    case 3
    with a c v inv show ?thesis
      unfolding fold_step_about [OF a] fold_entry_def e
      by (simp add: cell_ok_def Let_def cell_def om.get_insert board_says_snoc keep_newest view_ok_def)
  next
    case 5
    with a c v inv show ?thesis
      unfolding fold_step_about [OF a] fold_entry_def e
      by (simp add: cell_ok_def Let_def cell_def om.get_insert board_says_snoc view_ok_def)
  next
    case (4 x)
    have bids: "distinct (map fst (t_bids (cell s k)))"
      "\<forall>b c. (b, c) \<in> set (t_bids (cell s k)) \<longleftrightarrow> map_option bid_cost (bid_of ns k b) = Some c"
      using v by (simp_all add: view_ok_def)
    note r = bids_replace [OF bids, of x "bid_cost n"]
    from 4 a c v inv r show ?thesis
      unfolding fold_step_about [OF a] fold_entry_def e
      by (simp add: cell_ok_def Let_def cell_def om.get_insert board_says_snoc keep_newest view_ok_def)
  qed
qed

lemma fold_ok:
  "maps_ok (foldl fold_step fold_init ns) \<and> (\<forall>k. cell_ok ns (foldl fold_step fold_init ns) k)"
proof (induction ns rule: rev_induct)
  case Nil
  then show ?case by (simp add: maps_ok_init cell_ok_init)
next
  case (snoc n ns)
  let ?s = "foldl fold_step fold_init ns"
  have m: "maps_ok ?s" and c: "cell_ok ns ?s k" for k using snoc.IH by auto
  have "cell_ok (ns @ [n]) (fold_step ?s n) k" for k
    by (cases "about k n") (simp_all add: cell_ok_about cell_ok_other m c)
  then show ?case using m by (simp add: maps_ok_step)
qed

section \<open>The fold is a function of the entry set\<close>

text \<open>
  The boards the fold is order-independent on: no two entries share an id, and a task's
  announcements carry distinct, nonzero time stamps.
\<close>

definition is_announcement :: "board_note \<Rightarrow> bool" where
  "is_announcement n \<longleftrightarrow> n_kind n = KAnnounce \<and> n_task n \<noteq> None"

definition board_consistent :: "board_note set \<Rightarrow> bool" where
  "board_consistent B \<longleftrightarrow>
     inj_on n_id B \<and>
     (\<forall>a \<in> B. is_announcement a \<longrightarrow>
        n_ts a \<noteq> 0 \<and> (\<forall>b \<in> B. is_announcement b \<and> n_task a = n_task b \<and> n_ts a = n_ts b \<longrightarrow> a = b))"

interpretation newest_entry: strict_choice newest "\<lambda>n. True"
  by unfold_locales (auto simp: newest_def)

interpretation earliest_entry: strict_choice earlier "\<lambda>n. n_ts n \<noteq> 0"
  by unfold_locales (auto simp: earlier_def)

lemma newest_total: "inj_on n_id B \<Longrightarrow> a \<in> B \<Longrightarrow> b \<in> B \<Longrightarrow> a \<noteq> b \<Longrightarrow> newest a b \<or> newest b a"
proof -
  assume a: "inj_on n_id B" "a \<in> B" "b \<in> B" "a \<noteq> b"
  then have "n_id a \<noteq> n_id b" by (auto dest: inj_onD)
  then show ?thesis by (auto simp: newest_def note_stamp_def less_stamp_def)
qed

lemma newest_of_set:
  assumes "inj_on n_id (set ns)" "set ns = set ms"
  shows "choose_best newest P ns = choose_best newest P ms"
  by (rule newest_entry.choose_best_set [OF _ _ assms(2)]) (simp_all add: newest_total [OF assms(1)])

lemma announcement_of_set:
  assumes "board_consistent (set ns)" "set ns = set ms"
  shows "announcement ns k = announcement ms k"
  unfolding announcement_def
proof (rule earliest_entry.choose_best_set [OF _ _ assms(2)])
  show "\<forall>m \<in> set ns. about k m \<and> n_kind m = KAnnounce \<longrightarrow> n_ts m \<noteq> 0"
    using assms(1) by (auto simp: board_consistent_def is_announcement_def about_def)
  show "earlier a b \<or> earlier b a"
    if "a \<in> set ns" "b \<in> set ns" "about k a \<and> n_kind a = KAnnounce" "about k b \<and> n_kind b = KAnnounce"
      "a \<noteq> b" for a b
  proof -
    have "is_announcement a" "is_announcement b" "n_task a = n_task b"
      using that by (auto simp: is_announcement_def about_def)
    then have "n_ts a \<noteq> n_ts b"
      using assms(1) that unfolding board_consistent_def by blast
    then show ?thesis by (auto simp: earlier_def)
  qed
qed

lemma latest_ts_Max: "latest_ts ns k = Max (insert 0 (n_ts ` {n \<in> set ns. about k n}))"
proof (induction ns rule: rev_induct)
  case Nil
  then show ?case by (simp add: latest_ts_def)
next
  case (snoc n ns)
  have "{m \<in> set (ns @ [n]). about k m} =
        (if about k n then insert n {m \<in> set ns. about k m} else {m \<in> set ns. about k m})"
    by auto
  then show ?case
    by (simp add: latest_ts_snoc snoc.IH insert_commute [of 0] max.commute)
qed

lemma latest_ts_of_set: "set ns = set ms \<Longrightarrow> latest_ts ns k = latest_ts ms k"
  by (simp add: latest_ts_Max)

lemma board_says_set:
  assumes "board_consistent (set ns)" "set ns = set ms"
  shows "announcement ns k = announcement ms k" "award_of ns k = award_of ms k"
    "result_of ns k = result_of ms k" "bid_of ns k b = bid_of ms k b" "latest_ts ns k = latest_ts ms k"
proof -
  have inj: "inj_on n_id (set ns)" using assms(1) by (simp add: board_consistent_def)
  show "announcement ns k = announcement ms k" by (rule announcement_of_set [OF assms])
  show "award_of ns k = award_of ms k" "result_of ns k = result_of ms k" "bid_of ns k b = bid_of ms k b"
    by (simp_all add: award_of_def result_of_def bid_of_def newest_of_set [OF inj assms(2)])
  show "latest_ts ns k = latest_ts ms k" by (rule latest_ts_of_set [OF assms(2)])
qed

definition finish_view :: "task_view \<Rightarrow> task_view" where
  "finish_view v = v\<lparr>t_bids := sort_bids (t_bids v)\<rparr>"

lemma sort_bids_set:
  assumes "distinct (map fst bs)" "distinct (map fst cs)" "set bs = set cs"
  shows "sort_bids bs = sort_bids cs"
  unfolding sort_bids_def
  using assms by (intro sort_key_set) (auto simp: inj_on_def distinct_map)

text \<open>A view is determined by what the board says.\<close>

lemma view_ok_determines:
  assumes "view_ok ns k v" "view_ok ms k w"
    "announcement ns k = announcement ms k" "award_of ns k = award_of ms k"
    "result_of ns k = result_of ms k" "\<And>b. bid_of ns k b = bid_of ms k b" "latest_ts ns k = latest_ts ms k"
  shows "finish_view v = finish_view w"
proof -
  have "set (t_bids v) = set (t_bids w)"
    using assms(1,2,6) unfolding view_ok_def by auto
  then have "sort_bids (t_bids v) = sort_bids (t_bids w)"
    using assms(1,2) by (intro sort_bids_set) (simp_all add: view_ok_def)
  then show ?thesis
    using assms by (cases v; cases w) (simp add: finish_view_def view_ok_def)
qed

lemma fold_tasks_alt:
  "fold_tasks ns = sort_views (map finish_view (om_values (fs_out (foldl fold_step fold_init ns))))"
  by (simp add: fold_tasks_def finish_view_def [abs_def])

lemma t_id_finish [simp]: "t_id (finish_view v) = t_id v"
  by (simp add: finish_view_def)

lemma fold_out_id:
  assumes "(k, v) \<in> set (fs_out (foldl fold_step fold_init ns))"
  shows "t_id v = k" and "view_ok ns k v" and "\<exists>n \<in> set ns. about k n"
proof -
  let ?s = "foldl fold_step fold_init ns"
  have "om_get (fs_out ?s) k = Some v"
    using assms fold_ok [of ns] by (simp add: maps_ok_def om_get_iff)
  with fold_ok [of ns] show "view_ok ns k v" and "\<exists>n \<in> set ns. about k n"
    by (auto simp: cell_ok_def cell_def) (metis option.distinct(1) option.simps(5))+
  then show "t_id v = k" by (simp add: view_ok_def)
qed

lemma fold_out_about:
  assumes "n \<in> set ns" "about k n"
  obtains v where "(k, v) \<in> set (fs_out (foldl fold_step fold_init ns))" "view_ok ns k v"
proof -
  let ?s = "foldl fold_step fold_init ns"
  have "om_get (fs_out ?s) k \<noteq> None"
    using fold_ok [of ns] assms unfolding cell_ok_def by blast
  then obtain v where "om_get (fs_out ?s) k = Some v" by blast
  then have "(k, v) \<in> set (fs_out ?s)"
    using fold_ok [of ns] by (simp add: maps_ok_def om_get_iff)
  then show ?thesis using that fold_out_id(2) by blast
qed

lemma set_fold_tasks:
  "v \<in> set (fold_tasks ns) \<longleftrightarrow>
     (\<exists>k w. (k, w) \<in> set (fs_out (foldl fold_step fold_init ns)) \<and> v = finish_view w)"
  by (force simp: fold_tasks_alt sort_views_def om_values_def)

text \<open>One view per task somebody wrote about, and no two views of one task.\<close>

lemma fold_tasks_ids: "t_id ` set (fold_tasks ns) = {k. \<exists>n \<in> set ns. about k n}"
proof (rule set_eqI, rule iffI)
  fix k assume "k \<in> t_id ` set (fold_tasks ns)"
  then obtain j w where "(j, w) \<in> set (fs_out (foldl fold_step fold_init ns))" "k = t_id w"
    by (auto simp: set_fold_tasks)
  then show "k \<in> {k. \<exists>n \<in> set ns. about k n}" using fold_out_id by fastforce
next
  fix k assume "k \<in> {k. \<exists>n \<in> set ns. about k n}"
  then obtain n where "n \<in> set ns" "about k n" by blast
  then obtain v where v: "(k, v) \<in> set (fs_out (foldl fold_step fold_init ns))" "view_ok ns k v"
    by (rule fold_out_about)
  then have "finish_view v \<in> set (fold_tasks ns)" "t_id (finish_view v) = k"
    using fold_out_id(1) [OF v(1)] by (auto simp: set_fold_tasks)
  then show "k \<in> t_id ` set (fold_tasks ns)" by (metis image_eqI)
qed

lemma fold_out_values_ids:
  "map t_id (om_values (fs_out (foldl fold_step fold_init ns))) = om_keys (fs_out (foldl fold_step fold_init ns))"
  unfolding om_values_def om_keys_def by (auto dest: fold_out_id(1))

lemma fold_tasks_distinct: "distinct (map t_id (fold_tasks ns))"
proof -
  let ?vs = "map finish_view (om_values (fs_out (foldl fold_step fold_init ns)))"
  have "map t_id ?vs = map t_id (om_values (fs_out (foldl fold_step fold_init ns)))" by simp
  also have "distinct \<dots>"
    using fold_ok [of ns] by (simp add: fold_out_values_ids maps_ok_def om_keys_def om_inv_distinct)
  finally have "distinct (map t_id ?vs)" .
  moreover have "mset (map t_id (fold_tasks ns)) = mset (map t_id ?vs)"
    by (simp add: fold_tasks_alt sort_views_def multiset.map_comp)
  ultimately show ?thesis by (metis mset_eq_imp_distinct_iff)
qed

text \<open>A task's view, read off the board directly.\<close>

lemma fold_tasks_view:
  assumes "v \<in> set (fold_tasks ns)"
  shows "view_ok ns (t_id v) v" and "v = finish_view v"
proof -
  obtain k w where w: "(k, w) \<in> set (fs_out (foldl fold_step fold_init ns))" "v = finish_view w"
    using assms by (auto simp: set_fold_tasks)
  have ok: "view_ok ns (t_id w) w" using fold_out_id [OF w(1)] by simp
  have "set (sort_bids (t_bids w)) = set (t_bids w)" by (simp add: sort_bids_def)
  moreover have "distinct (map fst (sort_bids (t_bids w)))"
    using ok by (simp add: view_ok_def sort_bids_def distinct_map)
  ultimately show "view_ok ns (t_id v) v"
    using ok w(2) by (simp add: view_ok_def finish_view_def)
  have "sort_bids (sort_bids bs) = sort_bids bs" for bs
    unfolding sort_bids_def by (rule sort_key_perm) (auto simp: inj_on_def)
  then show "v = finish_view v" using w(2) by (simp add: finish_view_def)
qed

lemma fold_tasks_mem_set:
  assumes "board_consistent (set ns)" "set ns = set ms" "v \<in> set (fold_tasks ns)"
  shows "v \<in> set (fold_tasks ms)"
proof -
  have "t_id v \<in> t_id ` set (fold_tasks ms)"
    using assms(2,3) fold_tasks_ids [of ns] fold_tasks_ids [of ms] by auto
  then obtain w where w: "w \<in> set (fold_tasks ms)" "t_id w = t_id v" by auto
  have "finish_view v = finish_view w"
    by (rule view_ok_determines
        [OF fold_tasks_view(1) [OF assms(3)] fold_tasks_view(1) [OF w(1), unfolded w(2)]])
      (rule board_says_set [OF assms(1,2)])+
  then show ?thesis
    using fold_tasks_view(2) [OF assms(3)] fold_tasks_view(2) [OF w(1)] w(1) by simp
qed

lemma fold_tasks_set:
  assumes "board_consistent (set ns)" "set ns = set ms"
  shows "fold_tasks ns = fold_tasks ms"
proof -
  have "set (fold_tasks ns) = set (fold_tasks ms)"
  proof (rule subset_antisym)
    show "set (fold_tasks ns) \<subseteq> set (fold_tasks ms)"
      using fold_tasks_mem_set [OF assms] by blast
    show "set (fold_tasks ms) \<subseteq> set (fold_tasks ns)"
      using fold_tasks_mem_set [OF assms(1) [unfolded assms(2)] assms(2) [symmetric]] by blast
  qed
  moreover have "inj_on (\<lambda>v. (t_announced_ts v, t_id v)) (set (fold_tasks ns))"
    using fold_tasks_distinct [of ns] by (auto simp: inj_on_def distinct_map)
  ultimately have "sort_views (fold_tasks ns) = sort_views (fold_tasks ms)"
    unfolding sort_views_def
    using fold_tasks_distinct [of ns] fold_tasks_distinct [of ms]
    by (intro sort_key_set) (simp_all add: distinct_map)
  moreover have "sort_views (fold_tasks l) = fold_tasks l" for l
    unfolding fold_tasks_alt sort_views_def by (rule sort_key_id_if_sorted [OF sorted_sort_key])
  ultimately show ?thesis by simp
qed

section \<open>Mixing and ranking\<close>

text \<open>
  A right shift that is xored in can be undone as soon as three shifts leave nothing, and an odd
  multiplier has an inverse modulo \<open>2 ^ 64\<close>; so the finalizer loses nothing of the hash.
\<close>

lemma xorshift_inverse:
  fixes x :: "64 word"
  assumes "64 \<le> 3 * k"
  shows "x XOR drop_bit k x = y \<Longrightarrow> y XOR drop_bit k y XOR drop_bit (2 * k) y = x"
proof -
  have z: "drop_bit (2 * k + k) x = 0" using assms by (auto intro!: bit_word_eqI simp: bit_simps dest: bit_imp_le_length)
  have c: "(a XOR b) XOR (b XOR c) XOR (c XOR 0) = a" for a b c :: "64 word"
    by (rule bit_word_eqI) (auto simp: bit_simps)
  have "drop_bit k (x XOR drop_bit k x) = drop_bit k x XOR drop_bit (2 * k) x"
    "drop_bit (2 * k) (x XOR drop_bit k x) = drop_bit (2 * k) x XOR 0"
    by (simp_all only: drop_bit_xor drop_bit_drop_bit z [unfolded mult_2] mult_2)
  then show "x XOR drop_bit k x = y \<Longrightarrow> y XOR drop_bit k y XOR drop_bit (2 * k) y = x"
    by (metis c)
qed

lemma xorshift_inj:
  fixes x y :: "64 word"
  assumes "64 \<le> 3 * k" "x XOR drop_bit k x = y XOR drop_bit k y"
  shows "x = y"
  by (rule trans [OF xorshift_inverse [OF assms, symmetric] xorshift_inverse [OF assms(1) refl]])

lemma odd_mult_inj:
  fixes x y c d :: "64 word"
  assumes "c * d = 1" "x * c = y * c"
  shows "x = y"
proof -
  have "x * c * d = y * c * d" using assms(2) by simp
  then show ?thesis using assms(1) by (simp add: mult.assoc)
qed

lemma mix64_inj: "mix64 x = mix64 y \<Longrightarrow> x = y"
proof -
  have c: "(0xbf58476d1ce4e5b9 :: 64 word) * 0x96de1b173f119089 = 1"
    "(0x94d049bb133111eb :: 64 word) * 0x319642b2d24d8ec3 = 1" by simp_all
  assume "mix64 x = mix64 y"
  then show "x = y"
    unfolding mix64_def Let_def
    by - (drule xorshift_inj [rotated], simp, drule odd_mult_inj [OF c(2)],
        drule xorshift_inj [rotated], simp, drule odd_mult_inj [OF c(1)],
        drule xorshift_inj [rotated], simp_all)
qed

lemma xor_cancel_right: "(a :: 64 word) XOR c = b XOR c \<longleftrightarrow> a = b"
  by (auto simp: bit_eq_iff bit_simps)

lemma rank_tasks_set:
  "v \<in> set (rank_tasks ts me) \<longleftrightarrow> v \<in> set ts \<and> is_takeable v \<and> t_announced_by v \<noteq> Some me"
  by (auto simp: rank_tasks_def)

lemma rank_tasks_sorted:
  "sorted (map (\<lambda>t. (rendezvous_weight (t_id t) me, t_id t)) (rank_tasks ts me))"
  by (simp add: rank_tasks_def)

text \<open>Finished work is never open again, and neither is awarded work.\<close>

lemma result_of_some: "n \<in> set ns \<Longrightarrow> about k n \<Longrightarrow> n_kind n = KDone \<Longrightarrow> result_of ns k \<noteq> None"
  by (auto simp: result_of_def choose_best_None)

lemma done_not_takeable: "t_done v \<noteq> None \<Longrightarrow> \<not> is_takeable v"
  by (auto simp: is_takeable_def task_state_of_def split: option.splits bool.splits)

lemma finished_view:
  assumes "v \<in> set (fold_tasks ns)" "n \<in> set ns" "about (t_id v) n" "n_kind n = KDone"
  shows "\<not> is_takeable v"
  using fold_tasks_view(1) [OF assms(1)] result_of_some [OF assms(2,3,4)]
  by (intro done_not_takeable) (auto simp: view_ok_def)

lemma finished_not_ranked:
  "n \<in> set ns \<Longrightarrow> about k n \<Longrightarrow> n_kind n = KDone \<Longrightarrow> k \<notin> t_id ` set (rank_tasks (fold_tasks ns) me)"
  by (auto simp: rank_tasks_set dest: finished_view)

text \<open>The bids of a view are sorted, so the first one is the cheapest.\<close>

lemma best_bid_first:
  assumes "v \<in> set (fold_tasks ns)" "best_bid v = Some (b, c)"
  shows "(b, c) \<in> set (t_bids v)" "\<And>b' c'. (b', c') \<in> set (t_bids v) \<Longrightarrow> (c, b) \<le> (c', b')"
proof -
  have "t_bids v = sort_bids (t_bids v)"
    using fold_tasks_view(2) [OF assms(1)] by (cases v) (simp add: finish_view_def)
  then have "sorted (map (\<lambda>(w, c). (c, w)) (t_bids v))"
    by (metis sort_bids_def sorted_sort_key)
  moreover obtain bs where "t_bids v = (b, c) # bs"
    using assms(2) by (auto simp: best_bid_def split: list.splits)
  ultimately show "(b, c) \<in> set (t_bids v)"
    "\<And>b' c'. (b', c') \<in> set (t_bids v) \<Longrightarrow> (c, b) \<le> (c', b')"
    by auto
qed

section \<open>Properties\<close>

text \<open>A small board the witnesses evaluate.\<close>

definition sample_note :: "note_kind \<Rightarrow> u64 \<Rightarrow> rstr \<Rightarrow> rstr \<Rightarrow> board_note" where
  "sample_note kind ts sender nid =
     \<lparr>n_ts = ts, n_from = Some sender, n_topic = None, n_msg = [109], n_id = nid, n_origin = Some [104],
      n_kind = kind, n_task = Some [116], n_cost = Some (int ts), n_to = Some [98], n_ok = Some True\<rparr>"

definition sample_board :: "board_note list" where
  "sample_board =
     [sample_note KAnnounce 5 [97] [1], sample_note KBid 7 [98] [2], sample_note KBid 6 [99] [3],
      sample_note KAnnounce 9 [98] [4], sample_note KDone 10 [98] [5]]"

lemmas sample_defs = sample_note_def sample_board_def

text \<open>C7 The views the fold computes depend on the set of entries only: two hosts that hold the same
  entries in any order, with any duplicates, see the same tasks, winners and results.\<close>

theorem fold_tasks_order_independent:
  assumes "board_consistent (set ns)" "set ns = set ms"
  shows "fold_tasks ns = fold_tasks ms"
  by (rule fold_tasks_set [OF assms])

lemma fold_tasks_order_independent_witness:
  "fold_tasks sample_board = fold_tasks (rev sample_board)"
  by (rule fold_tasks_order_independent)
    (auto simp: sample_defs board_consistent_def is_announcement_def inj_on_def)

text \<open>Without distinct announcement times the order does matter: two announcements of one task
  stamped in the same second leave whichever came first in the list, although their ids differ.\<close>

theorem fold_announcement_tie_order_dependent:
  "\<exists>a b. n_id a \<noteq> n_id b \<and> n_ts a = n_ts b \<and> n_ts a \<noteq> 0 \<and> fold_tasks [a, b] \<noteq> fold_tasks [b, a]"
  by (rule exI [of _ "sample_note KAnnounce 5 [97] [1]"], rule exI [of _ "sample_note KAnnounce 5 [98] [2]"])
    (simp add: sample_defs fold_tasks_def fold_step_def fold_entry_def fold_init_def kind_is_note_def
      blank_task_def om_get_def om_values_def sort_views_def sort_bids_def)

text \<open>C37 The fold agrees with the loop-free reading of the board: one view for each task written
  about, in order of announcement, its announcement the earliest, its award, result and each
  bidder's bid the newest by (time, id), and its last activity the latest time stamp.\<close>

theorem fold_tasks_reads_board:
  "t_id ` set (fold_tasks ns) = {k. \<exists>n \<in> set ns. about k n} \<and> distinct (map t_id (fold_tasks ns)) \<and>
   sorted (map (\<lambda>v. (t_announced_ts v, t_id v)) (fold_tasks ns)) \<and>
   (\<forall>v \<in> set (fold_tasks ns). view_ok ns (t_id v) v)"
proof -
  have "sorted (map (\<lambda>v. (t_announced_ts v, t_id v)) (fold_tasks ns))"
    by (simp add: fold_tasks_alt sort_views_def)
  with fold_tasks_ids [of ns] fold_tasks_distinct [of ns] fold_tasks_view(1) [of _ ns] show ?thesis
    by blast
qed

lemma fold_tasks_reads_board_witness:
  "view_ok sample_board [116] (hd (fold_tasks sample_board))"
proof -
  have "hd (fold_tasks sample_board) \<in> set (fold_tasks sample_board)"
    "t_id (hd (fold_tasks sample_board)) = [116]"
    by (simp_all add: sample_defs fold_tasks_def fold_step_def fold_entry_def fold_init_def
        kind_is_note_def blank_task_def om_get_def om_values_def sort_views_def sort_bids_def
        is_newer_def note_stamp_def less_stamp_def)
  then show ?thesis using fold_tasks_reads_board [of sample_board] by metis
qed

text \<open>Once a result is on the board the task is never offered again, whoever asks, whatever
  entries arrive before or after it, and in whatever order.\<close>

theorem finished_task_never_ranked:
  assumes "n \<in> set ns" "about k n" "n_kind n = KDone"
  shows "k \<notin> t_id ` set (rank_tasks (fold_tasks ns) me)"
  by (rule finished_not_ranked [OF assms])

lemma finished_task_never_ranked_witness:
  "[116] \<notin> t_id ` set (rank_tasks (fold_tasks sample_board) [120])"
  by (rule finished_task_never_ranked [where n = "sample_note KDone 10 [98] [5]"])
    (simp_all add: sample_defs about_def)

text \<open>The ranking offers exactly the open tasks the agent did not announce itself, and a view
  list in another order gives the same ranking.\<close>

theorem rank_tasks_function_of_set:
  assumes "distinct (map t_id ts)" "distinct (map t_id us)" "set ts = set us"
  shows "rank_tasks ts me = rank_tasks us me \<and>
    set (rank_tasks ts me) = {v \<in> set us. is_takeable v \<and> t_announced_by v \<noteq> Some me}"
proof -
  let ?P = "\<lambda>t. is_takeable t \<and> t_announced_by t \<noteq> Some me"
  have "distinct (filter ?P ts)" "distinct (filter ?P us)"
    using assms by (auto simp: distinct_map)
  moreover have "inj_on (\<lambda>t. (rendezvous_weight (t_id t) me, t_id t)) (set (filter ?P ts))"
    using assms(1) by (auto simp: distinct_map inj_on_def)
  ultimately have "rank_tasks ts me = rank_tasks us me"
    unfolding rank_tasks_def by (intro sort_key_set) (use assms(3) in auto)
  then show ?thesis by (auto simp: rank_tasks_set assms(3))
qed

lemma rank_tasks_function_of_set_witness:
  "rank_tasks [blank_task [1], blank_task [2]] [9] = rank_tasks [blank_task [2], blank_task [1]] [9]"
  by (rule conjunct1 [OF rank_tasks_function_of_set]) (auto simp: blank_task_def)

text \<open>For one agent two tasks get the same weight only when the FNV hashes of their ids already
  collide: the finalizer loses nothing.\<close>

theorem rendezvous_weight_collision:
  "rendezvous_weight a me = rendezvous_weight b me \<longleftrightarrow> stable_hash a = stable_hash b"
proof
  assume "rendezvous_weight a me = rendezvous_weight b me"
  then have "stable_hash a XOR mix64 (stable_hash me) = stable_hash b XOR mix64 (stable_hash me)"
    unfolding rendezvous_weight_def by (rule mix64_inj)
  then show "stable_hash a = stable_hash b" by (simp only: xor_cancel_right)
qed (simp add: rendezvous_weight_def)

text \<open>The suggested winner is a bidder whose current bid is the lowest, and among equal bids the
  lexicographically first bidder, so every host suggests the same one.\<close>

theorem best_bid_cheapest:
  assumes "v \<in> set (fold_tasks ns)" "best_bid v = Some (b, c)"
  shows "map_option bid_cost (bid_of ns (t_id v) b) = Some c \<and>
    (\<forall>b' n. bid_of ns (t_id v) b' = Some n \<longrightarrow> c < bid_cost n \<or> (c = bid_cost n \<and> b \<le> b'))"
proof -
  have ok: "(x, y) \<in> set (t_bids v) \<longleftrightarrow> map_option bid_cost (bid_of ns (t_id v) x) = Some y" for x y
    using fold_tasks_view(1) [OF assms(1)] by (simp add: view_ok_def)
  have "c < bid_cost n \<or> (c = bid_cost n \<and> b \<le> b')" if "bid_of ns (t_id v) b' = Some n" for b' n
    using best_bid_first(2) [OF assms, of b' "bid_cost n"] that by (auto simp: ok)
  with best_bid_first(1) [OF assms] show ?thesis by (auto simp: ok)
qed

lemma best_bid_cheapest_witness:
  "map_option bid_cost (bid_of sample_board (t_id (hd (fold_tasks sample_board))) [99]) = Some 6"
  by (rule conjunct1 [OF best_bid_cheapest])
    (simp_all add: sample_defs fold_tasks_def fold_step_def fold_entry_def fold_init_def best_bid_def
        kind_is_note_def blank_task_def om_get_def om_values_def sort_views_def sort_bids_def
        is_newer_def note_stamp_def less_stamp_def bid_cost_def)

end
