(* ===== verification/Await.thy ===== *)
theory Await
  imports Tasks
begin

text \<open>
  Waiting for tasks, \<^verbatim>\<open>src/src/cli/await_task.rs\<close>: the verdict of one poll, its exit code, and the
  polling loop over the boards and deadlines it meets.
\<close>

definition exit_pending :: int where "exit_pending = 3"

definition exit_unknown :: int where "exit_unknown = 4"

datatype verdict = VDone "rstr list" | VFailed "rstr list" | VUnknown "rstr list" | VPending

fun exit_code :: "verdict \<Rightarrow> int" where
  "exit_code (VDone _) = 0"
| "exit_code (VFailed _) = 1"
| "exit_code VPending = exit_pending"
| "exit_code (VUnknown _) = exit_unknown"

text \<open>The loop over the ids sorts them into unknown, failed and finished.\<close>

fun sort_ids :: "task_view list \<Rightarrow> rstr list \<Rightarrow> rstr list \<times> rstr list \<times> rstr list \<Rightarrow> rstr list \<times> rstr list \<times> rstr list" where
  "sort_ids tasks [] acc = acc"
| "sort_ids tasks (i # ids) (unknown, failed, finished) =
     sort_ids tasks ids
       (case find (\<lambda>t. t_id t = i) tasks of
          None \<Rightarrow> (unknown @ [i], failed, finished)
        | Some t \<Rightarrow>
            (case task_state_of t of
               Done \<Rightarrow> (unknown, failed, finished @ [i])
             | Failed \<Rightarrow> (unknown, failed @ [i], finished)
             | _ \<Rightarrow> (unknown, failed, finished)))"

definition verdict_of :: "task_view list \<Rightarrow> rstr list \<Rightarrow> bool \<Rightarrow> verdict" where
  "verdict_of tasks ids any =
     (let (unknown, failed, finished) = sort_ids tasks ids ([], [], []) in
      if unknown \<noteq> [] then VUnknown unknown
      else if failed \<noteq> [] then VFailed failed
      else if any then (if finished = [] then VPending else VDone finished)
      else if length finished = length ids then VDone finished
      else VPending)"

text \<open>
  One poll sees a board and whether the deadline has passed; the loop ends at the first poll that is
  terminal or past the deadline, and \<open>None\<close> says it is still waiting after the polls given.
\<close>

fun wait_loop :: "rstr list \<Rightarrow> bool \<Rightarrow> (task_view list \<times> bool) list \<Rightarrow> int option" where
  "wait_loop ids any [] = None"
| "wait_loop ids any ((tasks, expired) # polls) =
     (let v = verdict_of tasks ids any in
      if v \<noteq> VPending \<or> expired then Some (exit_code v) else wait_loop ids any polls)"

section \<open>Lemmas\<close>

definition state_at :: "task_view list \<Rightarrow> rstr \<Rightarrow> task_state option" where
  "state_at tasks i = map_option task_state_of (find (\<lambda>t. t_id t = i) tasks)"

lemma sort_ids_eq:
  "sort_ids tasks ids (a, b, c) =
     (a @ filter (\<lambda>i. state_at tasks i = None) ids, b @ filter (\<lambda>i. state_at tasks i = Some Failed) ids,
      c @ filter (\<lambda>i. state_at tasks i = Some Done) ids)"
  by (induction ids arbitrary: a b c)
    (auto simp: state_at_def split: option.split task_state.split)

lemma verdict_alt:
  "verdict_of tasks ids any =
     (if \<exists>i \<in> set ids. state_at tasks i = None then VUnknown (filter (\<lambda>i. state_at tasks i = None) ids)
      else if \<exists>i \<in> set ids. state_at tasks i = Some Failed
        then VFailed (filter (\<lambda>i. state_at tasks i = Some Failed) ids)
      else if (if any then \<exists>i \<in> set ids. state_at tasks i = Some Done
               else \<forall>i \<in> set ids. state_at tasks i = Some Done)
        then VDone (filter (\<lambda>i. state_at tasks i = Some Done) ids)
      else VPending)"
proof -
  have l: "length (filter P ids) = length ids \<longleftrightarrow> (\<forall>i \<in> set ids. P i)" for P
    by (metis filter_id_conv length_filter_less less_irrefl)
  show ?thesis
    by (cases "\<exists>i \<in> set ids. state_at tasks i = None") (simp_all add: verdict_of_def sort_ids_eq filter_empty_conv l)
qed

text \<open>A poll ends the wait when its verdict is settled or it is past the deadline.\<close>

definition decides :: "rstr list \<Rightarrow> bool \<Rightarrow> task_view list \<times> bool \<Rightarrow> bool" where
  "decides ids any p \<longleftrightarrow> verdict_of (fst p) ids any \<noteq> VPending \<or> snd p"

lemma wait_loop_skips: "\<forall>p \<in> set pre. \<not> decides ids any p \<Longrightarrow> wait_loop ids any (pre @ polls) = wait_loop ids any polls"
  by (induction pre) (auto simp: decides_def Let_def)

lemma wait_loop_decided: "decides ids any (ts, ex) \<Longrightarrow> wait_loop ids any ((ts, ex) # polls) = Some (exit_code (verdict_of ts ids any))"
  by (auto simp: decides_def Let_def)

section \<open>Properties\<close>

text \<open>Each exit code means what the help text says of the board it was decided on: 4 iff a task is not
  there, else 1 iff one has failed, else 0 iff all have finished (with --any: one), else 3.\<close>

theorem wait_exit_code_meaning:
  "exit_code (verdict_of tasks ids any) =
     (if \<exists>i \<in> set ids. state_at tasks i = None then 4
      else if \<exists>i \<in> set ids. state_at tasks i = Some Failed then 1
      else if (if any then \<exists>i \<in> set ids. state_at tasks i = Some Done
               else \<forall>i \<in> set ids. state_at tasks i = Some Done) then 0
      else 3)"
  unfolding verdict_alt by (simp only: if_distrib [of exit_code] exit_code.simps exit_pending_def exit_unknown_def)

lemma wait_exit_code_meaning_witness: "exit_code (verdict_of [] [[116]] True) = 4"
  by (subst wait_exit_code_meaning) (simp add: state_at_def)

text \<open>C39 Given a poll past the deadline, the loop returns, and at exactly one poll: every poll before it was
  undecided and within the deadline, that one is decisive or past the deadline, and the code is the one its own
  board gives.\<close>

theorem wait_returns_at_deadline:
  assumes "(tasks, True) \<in> set polls"
  shows "\<exists>pre tasks' expired post. polls = pre @ (tasks', expired) # post \<and>
    (\<forall>(ts, ex) \<in> set pre. verdict_of ts ids any = VPending \<and> \<not> ex) \<and>
    (verdict_of tasks' ids any \<noteq> VPending \<or> expired) \<and>
    wait_loop ids any polls = Some (exit_code (verdict_of tasks' ids any))"
proof -
  have "\<exists>x \<in> set polls. decides ids any x" by (rule bexI [OF _ assms]) (simp add: decides_def)
  then obtain pre x post where x: "polls = pre @ x # post" "decides ids any x" "\<forall>y \<in> set pre. \<not> decides ids any y"
    using split_list_first_prop [of polls "decides ids any"] by blast
  obtain tasks' expired where p: "x = (tasks', expired)" by (cases x)
  have "wait_loop ids any polls = Some (exit_code (verdict_of tasks' ids any))"
    using x(2,3) by (simp add: x(1) p wait_loop_skips wait_loop_decided del: wait_loop.simps)
  then show ?thesis using x p by (intro exI [of _ pre] exI [of _ tasks'] exI [of _ expired] exI [of _ post])
      (auto simp: decides_def)
qed

lemma wait_returns_at_deadline_witness:
  "wait_loop [[116]] False [([blank_task [116]], False), ([], True), ([blank_task [116]], True)] = Some 4"
  using wait_returns_at_deadline [of "[blank_task [116]]" "[([blank_task [116]], False), ([], True), ([blank_task [116]], True)]"
      "[[116]]" False] by (simp add: verdict_of_def blank_task_def task_state_of_def exit_unknown_def)

end
