(* ===== verification/Backlog.thy ===== *)
theory Backlog
  imports Complex_Main Tasks
begin

text \<open>
  Announced work from measured state, \<^verbatim>\<open>src/src/cli/backlog.rs\<close>: the parsers of its sources, the
  policy that decides what is worth announcing, and the run that appends it to the board. The
  \<^verbatim>\<open>f64\<close> arithmetic of the coverage source is over rationals with the rounding as a parameter \<open>rnd\<close>;
  what a shell command or a file brought is an argument.
\<close>

section \<open>Sources\<close>

record candidate =
  cand_id :: rstr
  cand_title :: rstr

definition parse_candidates :: "rstr \<Rightarrow> candidate list" where
  "parse_candidates text =
     List.map_filter
       (\<lambda>line.
          let (i, title) = (case split_once 9 line of
                              Some (a, b) \<Rightarrow> (trim a, trim b)
                            | None \<Rightarrow> (trim line, trim line))
          in if i \<noteq> [] then Some \<lparr>cand_id = i, cand_title = (if title = [] then i else title)\<rparr> else None)
       (filter (\<lambda>l. trim l \<noteq> [] \<and> \<not> starts_with (trim_start l) [35]) (str_lines text))"

record file_coverage =
  fc_path :: rstr
  fc_found :: nat
  fc_hit :: nat

definition u32_max :: nat where "u32_max = 2 ^ 32 - 1"

definition fc_percent :: "(rat \<Rightarrow> rat) \<Rightarrow> file_coverage \<Rightarrow> rat" where
  "fc_percent rnd f =
     (if fc_found f = 0 then 100 else rnd (rnd (of_nat (fc_hit f) * 100) / of_nat (fc_found f)))"

text \<open>The cast to \<^verbatim>\<open>u32\<close> saturates at both ends.\<close>

definition lines_to :: "(rat \<Rightarrow> rat) \<Rightarrow> rat \<Rightarrow> file_coverage \<Rightarrow> nat" where
  "lines_to rnd target f =
     min u32_max (nat \<lceil>rnd (rnd (of_nat (fc_found f) * target) / 100)\<rceil>) - fc_hit f"

fun lcov_line :: "file_coverage option \<times> file_coverage list \<Rightarrow> rstr \<Rightarrow> file_coverage option \<times> file_coverage list" where
  "lcov_line (cur, out) line0 =
     (let line = trim line0 in
      case strip_prefix (lit ''SF:'') line of
        Some path \<Rightarrow> (Some \<lparr>fc_path = path, fc_found = 0, fc_hit = 0\<rparr>, out)
      | None \<Rightarrow>
          (case strip_prefix (lit ''LF:'') line of
             Some n \<Rightarrow>
               ((case (cur, parse_uint u32_max n) of
                   (Some c, Some v) \<Rightarrow> Some (c\<lparr>fc_found := v\<rparr>)
                 | _ \<Rightarrow> cur), out)
           | None \<Rightarrow>
               (case strip_prefix (lit ''LH:'') line of
                  Some n \<Rightarrow>
                    ((case (cur, parse_uint u32_max n) of
                        (Some c, Some v) \<Rightarrow> Some (c\<lparr>fc_hit := v\<rparr>)
                      | _ \<Rightarrow> cur), out)
                | None \<Rightarrow>
                    (if line = lit ''end_of_record''
                     then (case cur of Some c \<Rightarrow> (None, out @ [c]) | None \<Rightarrow> (None, out))
                     else (cur, out)))))"

definition parse_lcov :: "rstr \<Rightarrow> file_coverage list" where
  "parse_lcov body = snd (foldl lcov_line (None, []) (str_lines body))"

definition worst_covered ::
    "(rat \<Rightarrow> rat) \<Rightarrow> file_coverage list \<Rightarrow> rat \<Rightarrow> nat \<Rightarrow> nat \<Rightarrow> file_coverage list" where
  "worst_covered rnd files target min_lines limit =
     take limit (sort_key (\<lambda>f. (- int (lines_to rnd target f), fc_path f))
       (filter (\<lambda>f. min_lines \<le> fc_found f \<and> fc_percent rnd f < target) files))"

record coverage_policy =
  cp_target :: rat
  cp_min_lines :: nat
  cp_limit :: nat
  cp_audit_largest :: nat

definition default_policy :: coverage_policy where
  "default_policy = \<lparr>cp_target = 80, cp_min_lines = 40, cp_limit = 5, cp_audit_largest = 2\<rparr>"

text \<open>
  \<open>rel\<close> is \<^verbatim>\<open>relative_to\<close> for the root in force, and \<open>fmt d x\<close> the rendering of a float with \<open>d\<close> decimals.
\<close>

definition coverage_candidates ::
    "(rat \<Rightarrow> rat) \<Rightarrow> (nat \<Rightarrow> rat \<Rightarrow> rstr) \<Rightarrow> (rstr \<Rightarrow> rstr) \<Rightarrow> file_coverage list \<Rightarrow> coverage_policy
     \<Rightarrow> candidate list" where
  "coverage_candidates rnd fmt rel files p =
     map (\<lambda>f. let path = rel (fc_path f) in
            \<lparr>cand_id = lit ''cov:'' @ path,
             cand_title =
               lit ''raise coverage of '' @ path @ [32, 8212, 32] @ fmt 1 (fc_percent rnd f) @ lit ''% of ''
                 @ show_nat (fc_found f) @ lit '' lines, '' @ show_nat (lines_to rnd (cp_target p) f)
                 @ lit '' to reach '' @ fmt 0 (cp_target p) @ lit ''%''\<rparr>)
       (worst_covered rnd files (cp_target p) (cp_min_lines p) (cp_limit p))
     @ map (\<lambda>f. let path = rel (fc_path f) in
            \<lparr>cand_id = lit ''audit:'' @ path,
             cand_title =
               lit ''small audit of '' @ path @ lit '' ('' @ show_nat (fc_found f) @ lit '' lines)''
                 @ [32, 8212, 32] @ lit ''one focused pass, report what you find''\<rparr>)
       (take (cp_audit_largest p) (sort_key (\<lambda>f. (- int (fc_found f), fc_path f)) files))"

section \<open>Policy\<close>

definition should_announce :: "task_view list \<Rightarrow> rstr \<Rightarrow> u64 \<Rightarrow> u64 \<Rightarrow> bool" where
  "should_announce tasks task_id now_s cooldown_s =
     (case find (\<lambda>t. t_id t = task_id) tasks of
        None \<Rightarrow> True
      | Some t \<Rightarrow>
          (case task_state_of t of
             Open \<Rightarrow> False | Bidding \<Rightarrow> False | Awarded \<Rightarrow> False
           | Done \<Rightarrow> cooldown_s \<le> now_s - t_last_ts t
           | Failed \<Rightarrow> cooldown_s \<le> now_s - t_last_ts t))"

fun dedup_ids :: "rstr list \<Rightarrow> candidate list \<Rightarrow> candidate list" where
  "dedup_ids seen [] = []"
| "dedup_ids seen (c # cs) =
     (if cand_id c \<in> set seen then dedup_ids seen cs else c # dedup_ids (cand_id c # seen) cs)"

definition plan :: "candidate list \<Rightarrow> task_view list \<Rightarrow> u64 \<Rightarrow> u64 \<Rightarrow> candidate list" where
  "plan candidates tasks now_s cooldown_s =
     filter (\<lambda>c. should_announce tasks (cand_id c) now_s cooldown_s) (dedup_ids [] candidates)"

section \<open>The run\<close>

definition announcement_entry :: "u64 \<Rightarrow> candidate \<Rightarrow> board_note" where
  "announcement_entry now_s c =
     (new_entry now_s KAnnounce (Some (lit ''backlog'')) (cand_title c))\<lparr>n_task := Some (cand_id c)\<rparr>"

fun announce_all ::
    "(rchar \<Rightarrow> bool) \<Rightarrow> (board_note \<Rightarrow> rstr option) \<Rightarrow> rstr \<Rightarrow> rstr \<Rightarrow> (candidate \<Rightarrow> io_outcome) \<Rightarrow> u64
     \<Rightarrow> candidate list \<Rightarrow> rstr option \<Rightarrow> bool \<times> rstr option" where
  "announce_all u enc origin path io now_s [] file = (True, file)"
| "announce_all u enc origin path io now_s (p # ps) file =
     (case append_entry u enc origin path (io p) file (announcement_entry now_s p) of
        (Inr _, file') \<Rightarrow> announce_all u enc origin path io now_s ps file'
      | (Inl _, file') \<Rightarrow> (False, file'))"

text \<open>
  \<open>sources\<close>, \<open>files\<close> and \<open>lcov\<close> are what the commands printed and the files held, or an error; the
  result is the exit code and the board.
\<close>

definition backlog_run ::
    "(rchar \<Rightarrow> bool) \<Rightarrow> (board_note \<Rightarrow> rstr option) \<Rightarrow> (rstr \<Rightarrow> board_note option)
     \<Rightarrow> (rat \<Rightarrow> rat) \<Rightarrow> (nat \<Rightarrow> rat \<Rightarrow> rstr) \<Rightarrow> (rstr \<Rightarrow> rstr) \<Rightarrow> rstr \<Rightarrow> rstr \<Rightarrow> (candidate \<Rightarrow> io_outcome)
     \<Rightarrow> (rstr + rstr) list \<Rightarrow> (rstr + rstr) list \<Rightarrow> (rstr + rstr) option \<Rightarrow> coverage_policy \<Rightarrow> u64 \<Rightarrow> bool \<Rightarrow> u64
     \<Rightarrow> rstr option \<Rightarrow> int \<times> rstr option" where
  "backlog_run u enc dec rnd fmt rel origin path io sources files lcov policy cooldown_days dry now_s file =
     (if sources = [] \<and> files = [] \<and> lcov = None then (2, file)
      else
        (let outs = sources @ files;
             texts = List.map_filter (\<lambda>r. case r of Inr t \<Rightarrow> Some t | Inl _ \<Rightarrow> None) outs;
             broken = list_ex (\<lambda>r. case r of Inl _ \<Rightarrow> True | Inr _ \<Rightarrow> False) outs;
             (from_lcov, lcov_broken) =
               (case lcov of
                  None \<Rightarrow> ([], False)
                | Some (Inl _) \<Rightarrow> ([], True)
                | Some (Inr body) \<Rightarrow>
                    if parse_lcov body = [] then ([], True)
                    else (coverage_candidates rnd fmt rel (parse_lcov body) policy, False));
             had_error = (if broken \<or> lcov_broken then 1 else 0);
             candidates = concat (map parse_candidates texts) @ from_lcov
         in if candidates = [] then (had_error, file)
            else
              (let tasks = fold_tasks (read_blackboard u dec file);
                   planned = plan candidates tasks now_s (sat_mul cooldown_days 86400)
               in if planned = [] \<or> dry then (had_error, file)
                  else (case announce_all u enc origin path io now_s planned file of
                          (True, file') \<Rightarrow> (had_error, file')
                        | (False, file') \<Rightarrow> (1, file')))))"

section \<open>Reading the policy off the board\<close>

lemma find_view:
  assumes "v \<in> set (fold_tasks ns)"
  shows "find (\<lambda>t. t_id t = t_id v) (fold_tasks ns) = Some v"
proof -
  have "find (\<lambda>t. t_id t = t_id v) (fold_tasks ns) \<noteq> None"
    using assms by (auto simp: find_None_iff)
  then obtain w where w: "find (\<lambda>t. t_id t = t_id v) (fold_tasks ns) = Some w" by blast
  then have "w \<in> set (fold_tasks ns)" "t_id w = t_id v" by (auto simp: find_Some_iff in_set_conv_nth)
  then have "w = v"
    using assms fold_tasks_distinct [of ns] by (auto simp: distinct_map dest: inj_onD)
  with w show ?thesis by simp
qed

lemma find_no_view: "\<forall>n \<in> set ns. \<not> about k n \<Longrightarrow> find (\<lambda>t. t_id t = k) (fold_tasks ns) = None"
  using fold_tasks_ids [of ns] by (fastforce simp: find_None_iff)

lemma state_finished: "task_state_of v = Done \<or> task_state_of v = Failed \<longleftrightarrow> t_done v \<noteq> None"
  by (auto simp: task_state_of_def split: option.splits bool.splits)

lemma should_announce_board:
  "should_announce (fold_tasks ns) k now cd \<longleftrightarrow>
     (\<forall>n \<in> set ns. \<not> about k n) \<or> (result_of ns k \<noteq> None \<and> cd \<le> now - latest_ts ns k)"
proof (cases "\<exists>n \<in> set ns. about k n")
  case False
  then show ?thesis by (simp add: should_announce_def find_no_view)
next
  case True
  then have "k \<in> t_id ` set (fold_tasks ns)" using fold_tasks_ids [of ns] by blast
  then obtain v where v: "v \<in> set (fold_tasks ns)" "t_id v = k" by auto
  have ok: "view_ok ns k v" using fold_tasks_view(1) [OF v(1)] v(2) by simp
  have f: "find (\<lambda>t. t_id t = k) (fold_tasks ns) = Some v" using find_view [OF v(1)] v(2) by simp
  show ?thesis
    using True ok state_finished [of v]
    by (cases "task_state_of v") (auto simp: should_announce_def f view_ok_def)
qed

lemma dedup_ids_sub: "set (dedup_ids seen cs) \<subseteq> set cs"
  by (induction seen cs rule: dedup_ids.induct) auto

lemma dedup_ids_distinct:
  "distinct (map cand_id (dedup_ids seen cs)) \<and> cand_id ` set (dedup_ids seen cs) \<inter> set seen = {}"
  by (induction seen cs rule: dedup_ids.induct) auto

lemma dedup_ids_all: "cand_id ` set (dedup_ids seen cs) = cand_id ` set cs - set seen"
  by (induction seen cs rule: dedup_ids.induct) auto

lemma plan_iff:
  "k \<in> cand_id ` set (plan cs tasks now cd) \<longleftrightarrow> k \<in> cand_id ` set cs \<and> should_announce tasks k now cd"
proof -
  have "k \<in> cand_id ` set (plan cs tasks now cd) \<longleftrightarrow>
        k \<in> cand_id ` set (dedup_ids [] cs) \<and> should_announce tasks k now cd"
    by (auto simp: plan_def)
  then show ?thesis by (simp add: dedup_ids_all)
qed

lemma plan_distinct: "distinct (map cand_id (plan cs tasks now cd))"
  unfolding plan_def by (rule distinct_map_filter) (simp add: dedup_ids_distinct)

text \<open>The entries an announcing run leaves on the board.\<close>

lemma announcement_fields:
  "n_kind (stamp_entry u origin (announcement_entry now c)) = KAnnounce"
  "n_task (stamp_entry u origin (announcement_entry now c)) = Some (cand_id c)"
  "n_ts (stamp_entry u origin (announcement_entry now c)) = now"
  by (simp_all add: stamp_entry_def announcement_entry_def new_entry_def Let_def)

lemma announce_all_ok:
  assumes "line_complete (file_text f0)"
    and "\<forall>c \<in> set ps. codec_at enc dec (stamp_entry u origin (announcement_entry now c))"
    and "announce_all u enc origin path (\<lambda>_. IoOk) now ps f0 = (ok, f1)"
  shows "ok \<and> read_blackboard u dec f1 =
      read_blackboard u dec f0 @ map (\<lambda>c. stamp_entry u origin (announcement_entry now c)) ps \<and>
    line_complete (file_text f1)"
  using assms
proof (induction ps arbitrary: f0)
  case Nil
  then show ?case by simp
next
  case (Cons p ps)
  obtain r f2 where a: "append_entry u enc origin path IoOk f0 (announcement_entry now p) = (r, f2)"
    by fastforce
  have c: "codec_at enc dec (stamp_entry u origin (announcement_entry now p))" using Cons.prems(2) by simp
  note ok = append_entry_ok [OF Cons.prems(1) c a]
  have "announce_all u enc origin path (\<lambda>_. IoOk) now ps f2 = (ok, f1)"
    using Cons.prems(3) a ok(1) by simp
  from Cons.IH [OF ok(3) _ this] Cons.prems(2) ok(2) show ?case by simp
qed

text \<open>What announcements do to the reading of one task.\<close>

lemma about_announcement: "about k (stamp_entry u origin (announcement_entry now c)) \<longleftrightarrow> k = cand_id c \<and> k \<noteq> []"
  by (auto simp: about_def announcement_fields)

lemma result_of_announcements:
  "\<forall>n \<in> set ms. n_kind n = KAnnounce \<Longrightarrow> result_of (ns @ ms) k = result_of ns k"
  by (induction ms rule: rev_induct) (auto simp flip: append_assoc simp: result_of_snoc)

lemma latest_ts_ge: "n \<in> set ns \<Longrightarrow> about k n \<Longrightarrow> n_ts n \<le> latest_ts ns k"
  by (simp add: latest_ts_Max)

lemma latest_ts_append: "latest_ts ns k \<le> latest_ts (ns @ ms) k"
  by (induction ms rule: rev_induct) (auto simp flip: append_assoc simp: latest_ts_snoc)

text \<open>A batch of announcements quiets its own tasks and changes no other's standing.\<close>

lemma announced_not_again:
  assumes "c \<in> set ps" "cand_id c \<noteq> []" "now' - now < cd"
  shows "\<not> should_announce
    (fold_tasks (ns @ map (\<lambda>c. stamp_entry u origin (announcement_entry now c)) ps)) (cand_id c) now' cd"
proof -
  let ?e = "stamp_entry u origin (announcement_entry now c)"
  let ?ms = "map (\<lambda>c. stamp_entry u origin (announcement_entry now c)) ps"
  have e: "?e \<in> set (ns @ ?ms)" "about (cand_id c) ?e"
    using assms(1,2) by (auto simp: about_announcement)
  have "now \<le> latest_ts (ns @ ?ms) (cand_id c)"
    using latest_ts_ge [OF e] by (simp add: announcement_fields)
  then have "\<not> cd \<le> now' - latest_ts (ns @ ?ms) (cand_id c)" using assms(3) by linarith
  then show ?thesis using e unfolding should_announce_board by blast
qed

lemma refused_stays_refused:
  assumes "\<not> should_announce (fold_tasks ns) k now cd" "\<forall>n \<in> set ms. n_kind n = KAnnounce"
  shows "\<not> should_announce (fold_tasks (ns @ ms)) k now cd"
proof -
  have "now - latest_ts (ns @ ms) k \<le> now - latest_ts ns k"
    using latest_ts_append [of ns k ms] by (rule diff_le_mono2)
  then show ?thesis
    using assms(1) unfolding should_announce_board result_of_announcements [OF assms(2)] by fastforce
qed

section \<open>Properties\<close>

definition sample_cand :: candidate where
  "sample_cand = \<lparr>cand_id = [116], cand_title = [84]\<rparr>"

definition any_codec_dec :: "rstr \<Rightarrow> board_note option" where
  "any_codec_dec s =
     (if s = [65] then Some (sample_note KDone 10 [98] [5])
      else if s = [66] then Some (stamp_entry (\<lambda>c. False) [104] (announcement_entry 100 sample_cand)) else None)"

lemma sample_sweep:
  "read_blackboard (\<lambda>c. False) any_codec_dec (Some [65, 10]) = [sample_note KDone 10 [98] [5]]"
  "codec_at (\<lambda>n. Some [66]) any_codec_dec (stamp_entry (\<lambda>c. False) [104] (announcement_entry 100 sample_cand))"
  "plan [sample_cand] (fold_tasks [sample_note KDone 10 [98] [5]]) 100 50 = [sample_cand]"
  by (simp_all add: read_blackboard_def parse_notes_def rust_text_defs List.map_filter_def any_codec_dec_def
      backfill_id_def codec_at_def plan_def sample_cand_def should_announce_board)
    (simp_all add: sample_note_def about_def result_of_def choose_best_def keep_best_def latest_ts_def)

text \<open>A sweep is idempotent: once its announcements are on the board, no announced task is announced
  again within the cooldown, and running the same sources again at once announces nothing at all.\<close>

theorem backlog_sweep_idempotent:
  assumes "line_complete (file_text f0)"
    and "\<forall>c \<in> set ps. codec_at enc dec (stamp_entry u origin (announcement_entry now c))"
    and "ps = plan cs (fold_tasks (read_blackboard u dec f0)) now cd"
    and "announce_all u enc origin path (\<lambda>_. IoOk) now ps f0 = (ok, f1)"
    and "\<forall>c \<in> set cs. cand_id c \<noteq> []" "now' - now < cd"
  shows "(\<forall>c \<in> set ps. \<not> should_announce (fold_tasks (read_blackboard u dec f1)) (cand_id c) now' cd) \<and>
    plan cs (fold_tasks (read_blackboard u dec f1)) now cd = []"
proof -
  let ?ns = "read_blackboard u dec f0"
  let ?ms = "map (\<lambda>c. stamp_entry u origin (announcement_entry now c)) ps"
  have r: "read_blackboard u dec f1 = ?ns @ ?ms"
    using announce_all_ok [OF assms(1,2,4)] by simp
  have ne: "cand_id c \<noteq> []" if "c \<in> set ps" for c
    using that assms(3,5) dedup_ids_sub by (fastforce simp: plan_def)
  have ann: "\<forall>n \<in> set ?ms. n_kind n = KAnnounce" by (auto simp: announcement_fields)
  have 1: "\<not> should_announce (fold_tasks (?ns @ ?ms)) (cand_id c) now' cd" if "c \<in> set ps" for c
    by (rule announced_not_again [OF that ne [OF that] assms(6)])
  have cd: "now - now < cd" using assms(6) by linarith
  have "k \<notin> cand_id ` set (plan cs (fold_tasks (?ns @ ?ms)) now cd)" for k
  proof (cases "k \<in> cand_id ` set ps")
    case True
    then obtain c where c: "c \<in> set ps" "k = cand_id c" by blast
    have "\<not> should_announce (fold_tasks (?ns @ ?ms)) k now cd"
      unfolding c(2) by (rule announced_not_again [OF c(1) ne [OF c(1)] cd])
    then show ?thesis by (simp add: plan_iff)
  next
    case False
    then show ?thesis
      using refused_stays_refused [OF _ ann, of ?ns k now cd] by (simp add: assms(3) plan_iff)
  qed
  then have "plan cs (fold_tasks (?ns @ ?ms)) now cd = []" by (metis image_is_empty set_empty all_not_in_conv)
  with 1 r show ?thesis by simp
qed

lemma backlog_sweep_idempotent_witness:
  "plan [sample_cand] (fold_tasks (read_blackboard (\<lambda>c. False) any_codec_dec
     (snd (announce_all (\<lambda>c. False) (\<lambda>n. Some [66]) [104] [] (\<lambda>_. IoOk) 100 [sample_cand] (Some [65, 10])))))
     100 50 = []"
proof -
  obtain ok f1 where a: "announce_all (\<lambda>c. False) (\<lambda>n. Some [66]) [104] [] (\<lambda>_. IoOk) 100 [sample_cand]
      (Some [65, 10]) = (ok, f1)" by fastforce
  have "plan [sample_cand] (fold_tasks (read_blackboard (\<lambda>c. False) any_codec_dec f1)) 100 50 = []"
    by (rule conjunct2 [OF backlog_sweep_idempotent [OF _ _ _ a, where now' = 120]])
      (simp_all add: sample_sweep file_text_def line_complete_def, simp add: sample_cand_def)
  with a show ?thesis by simp
qed

text \<open>A task re-announced after its result has cooled is never offered to anyone: the fold keeps the
  old result, so the announcement is appended but the task stays finished.\<close>

theorem reannounced_task_never_offered:
  assumes "line_complete (file_text f0)"
    and "\<forall>c \<in> set ps. codec_at enc dec (stamp_entry u origin (announcement_entry now c))"
    and "ps = plan cs (fold_tasks (read_blackboard u dec f0)) now cd"
    and "announce_all u enc origin path (\<lambda>_. IoOk) now ps f0 = (ok, f1)"
    and "c \<in> set ps" "result_of (read_blackboard u dec f0) (cand_id c) \<noteq> None"
  shows "stamp_entry u origin (announcement_entry now c) \<in> set (read_blackboard u dec f1) \<and>
    (\<forall>me. cand_id c \<notin> t_id ` set (rank_tasks (fold_tasks (read_blackboard u dec f1)) me))"
proof -
  let ?ns = "read_blackboard u dec f0"
  let ?ms = "map (\<lambda>c. stamp_entry u origin (announcement_entry now c)) ps"
  have r: "read_blackboard u dec f1 = ?ns @ ?ms"
    using announce_all_ok [OF assms(1,2,4)] by simp
  obtain n where n: "n \<in> set ?ns" "about (cand_id c) n" "n_kind n = KDone"
    using assms(6) by (auto simp: result_of_def dest: choose_best_in)
  then have "n \<in> set (?ns @ ?ms)" by simp
  then have "\<forall>me. cand_id c \<notin> t_id ` set (rank_tasks (fold_tasks (?ns @ ?ms)) me)"
    using finished_not_ranked [OF _ n(2,3)] by blast
  with r assms(5) show ?thesis by simp
qed

lemma reannounced_task_never_offered_witness:
  "[116] \<notin> t_id ` set (rank_tasks (fold_tasks (read_blackboard (\<lambda>c. False) any_codec_dec
     (snd (announce_all (\<lambda>c. False) (\<lambda>n. Some [66]) [104] [] (\<lambda>_. IoOk) 100 [sample_cand] (Some [65, 10]))))) [109])"
proof -
  obtain ok f1 where a: "announce_all (\<lambda>c. False) (\<lambda>n. Some [66]) [104] [] (\<lambda>_. IoOk) 100 [sample_cand]
      (Some [65, 10]) = (ok, f1)" by fastforce
  have "cand_id sample_cand \<notin> t_id ` set (rank_tasks (fold_tasks (read_blackboard (\<lambda>c. False) any_codec_dec f1)) [109])"
    by (rule reannounced_task_never_offered
        [OF _ _ _ a, where cs = "[sample_cand]" and cd = 50, THEN conjunct2, THEN spec])
      (simp_all add: sample_sweep file_text_def line_complete_def,
       simp_all add: sample_cand_def sample_note_def result_of_def choose_best_def keep_best_def about_def)
  with a show ?thesis by (simp add: sample_cand_def)
qed

text \<open>Two hosts with the same coverage report, in whatever order its records come, pick the same files
  in the same order, whatever the rounding of the percentages.\<close>

theorem worst_covered_function_of_set:
  assumes "distinct (map fc_path fs)" "distinct (map fc_path gs)" "set fs = set gs"
  shows "worst_covered rnd fs target min_lines limit = worst_covered rnd gs target min_lines limit"
proof -
  let ?P = "\<lambda>f. min_lines \<le> fc_found f \<and> fc_percent rnd f < target"
  have "sort_key (\<lambda>f. (- int (lines_to rnd target f), fc_path f)) (filter ?P fs) =
        sort_key (\<lambda>f. (- int (lines_to rnd target f), fc_path f)) (filter ?P gs)"
    using assms by (intro sort_key_set) (auto simp: distinct_map inj_on_def)
  then show ?thesis by (simp add: worst_covered_def)
qed

lemma worst_covered_function_of_set_witness:
  "worst_covered (\<lambda>x. x) [\<lparr>fc_path = [97], fc_found = 50, fc_hit = 10\<rparr>, \<lparr>fc_path = [98], fc_found = 60, fc_hit = 10\<rparr>] 80 40 5
   = worst_covered (\<lambda>x. x) [\<lparr>fc_path = [98], fc_found = 60, fc_hit = 10\<rparr>, \<lparr>fc_path = [97], fc_found = 50, fc_hit = 10\<rparr>] 80 40 5"
  by (rule worst_covered_function_of_set) auto

end
