(* ===== verification/Pacing.thy ===== *)
theory Pacing
  imports Prelude
begin

text \<open>
  Round-robin pacing, \<^verbatim>\<open>src/crates/tab-atelier-pace/src/lib.rs\<close>: one item per tick behind a wrapping
  cursor, and the order of a rotated sweep. A cursor is a \<^verbatim>\<open>usize\<close> of 64 bits.
\<close>

definition usize_wrap :: "nat \<Rightarrow> nat" where
  "usize_wrap n = n mod 2 ^ 64"

definition pick_round_robin :: "'a list \<Rightarrow> nat \<Rightarrow> 'a option \<times> nat" where
  "pick_round_robin items cursor =
     (if items = [] then (None, cursor)
      else (Some (items ! (cursor mod length items)), usize_wrap (cursor + 1)))"

definition scan_order :: "nat \<Rightarrow> nat \<Rightarrow> nat list" where
  "scan_order n cursor =
     (if n = 0 then []
      else (let start = cursor mod n in map (\<lambda>i. (start + i) mod n) [0..<n]))"

text \<open>Successive picks from one set of items.\<close>

fun picks :: "nat \<Rightarrow> 'a list \<Rightarrow> nat \<Rightarrow> 'a option list" where
  "picks 0 items cursor = []"
| "picks (Suc k) items cursor =
     (case pick_round_robin items cursor of (x, cursor') \<Rightarrow> x # picks k items cursor')"

lemma rotate_mod_inj:
  assumes "(a + i) mod n = (a + j) mod n" "i < n" "j < (n::nat)"
  shows "i = j"
proof -
  have aux: "x = y" if "(a + x) mod n = (a + y) mod n" "x \<le> y" "y < n" for x y
  proof -
    have "n dvd (a + y) - (a + x)" using that by (metis add_left_mono mod_eq_dvd_iff_nat)
    then have "n dvd y - x" by simp
    then have "\<not> 0 < y - x" using that(3) by (intro notI) (use nat_dvd_not_less in fastforce)
    then show "x = y" using that(2) by simp
  qed
  show ?thesis using aux [of i j] aux [of j i] assms by (cases "i \<le> j") auto
qed

lemma rotate_mod_set: "0 < n \<Longrightarrow> (\<lambda>i. (a + i) mod n) ` {0..<n} = {0..<(n::nat)}"
proof (rule card_subset_eq)
  assume n: "0 < n"
  show "(\<lambda>i. (a + i) mod n) ` {0..<n} \<subseteq> {0..<n}" using n by auto
  have "inj_on (\<lambda>i. (a + i) mod n) {0..<n}" by (auto simp: inj_on_def intro: rotate_mod_inj)
  then show "card ((\<lambda>i. (a + i) mod n) ` {0..<n}) = card {0..<n}" by (rule card_image)
qed simp

lemma picks_map:
  assumes "items \<noteq> []"
  shows "cursor + k \<le> 2 ^ 64 \<Longrightarrow> picks k items cursor = map (\<lambda>i. Some (items ! ((cursor + i) mod length items))) [0..<k]"
proof (induction k arbitrary: cursor)
  case 0
  then show ?case by simp
next
  case (Suc k)
  show ?case
  proof (cases k)
    case 0
    then show ?thesis using assms by (simp add: pick_round_robin_def)
  next
    case (Suc k')
    then have w: "usize_wrap (cursor + 1) = cursor + 1" using Suc.prems by (simp add: usize_wrap_def)
    have "picks k items (cursor + 1) = map (\<lambda>i. Some (items ! ((cursor + 1 + i) mod length items))) [0..<k]"
      by (rule Suc.IH) (use Suc.prems in simp)
    then have "picks (Suc k) items cursor =
        Some (items ! (cursor mod length items)) # map (\<lambda>i. Some (items ! ((cursor + Suc i) mod length items))) [0..<k]"
      using assms w by (simp add: pick_round_robin_def)
    also have "\<dots> = map (\<lambda>i. Some (items ! ((cursor + i) mod length items))) [0..<Suc k]"
      by (simp only: upt_rec [of 0 "Suc k"] map_Suc_upt [symmetric] list.map map_map comp_def)
        (simp add: map_Suc_upt [symmetric] comp_def del: upt_Suc)
    finally show ?thesis .
  qed
qed

lemma scan_order_distinct: "distinct (scan_order n cursor)"
  by (auto simp: scan_order_def Let_def distinct_map inj_on_def intro: rotate_mod_inj)

lemma scan_order_set: "set (scan_order n cursor) = {0..<n}"
  using rotate_mod_set [of n "cursor mod n"] by (cases "n = 0") (simp_all add: scan_order_def Let_def)

lemma scan_order_length: "length (scan_order n cursor) = n"
  by (simp add: scan_order_def Let_def)

section \<open>Properties\<close>

text \<open>Pacing starves nobody: a rotated sweep visits every index exactly once, starting at the cursor,
  and as many single picks as there are items, short of the cursor wrapping, hit every position once.\<close>

theorem pacing_is_fair:
  assumes "items \<noteq> []" "cursor + length items \<le> 2 ^ 64"
  shows "distinct (scan_order (length items) cursor) \<and> set (scan_order (length items) cursor) = {0..<length items} \<and>
    hd (scan_order (length items) cursor) = cursor mod length items \<and>
    picks (length items) items cursor = map (\<lambda>i. Some (items ! i)) (scan_order (length items) cursor)"
proof -
  let ?n = "length items"
  have n: "0 < ?n" using assms(1) by simp
  have s: "scan_order ?n cursor = map (\<lambda>i. (cursor mod ?n + i) mod ?n) [0..<?n]"
    using n by (simp add: scan_order_def Let_def)
  note d = scan_order_distinct [of ?n cursor] and st = scan_order_set [of ?n cursor]
  have hd: "hd (scan_order ?n cursor) = cursor mod ?n" unfolding s using n by (simp add: hd_map)
  have "picks ?n items cursor = map (\<lambda>i. Some (items ! i)) (scan_order ?n cursor)"
    unfolding s picks_map [OF assms] by (simp add: mod_add_left_eq)
  with d st hd show ?thesis by blast
qed

lemma pacing_is_fair_witness: "set (scan_order (length [10 :: nat, 20, 30]) 4) = {0..<length [10 :: nat, 20, 30]}"
  by (rule pacing_is_fair [THEN conjunct2, THEN conjunct1]) simp_all

end
