(* ===== verification/Brain.thy ===== *)
theory Brain
  imports Blackboard Pacing
begin

text \<open>
  The watchdog of \<^verbatim>\<open>src/src/cli/brain.rs\<close>: failure patterns on a tab's screen, the per-tab freeze
  clock and backoff, the fleet-wide breaker, and the tick that sends at most one nudge. Instants are
  naturals in nanoseconds; \<^verbatim>\<open>duration_since\<close> saturates at zero, as subtraction does here. What a tick
  hears from the daemon and the network is its environment.
\<close>

section \<open>Constants and the connectivity probe\<close>

definition secs :: "nat \<Rightarrow> nat" where
  "secs n = n * 1000000000"

definition stable_secs :: nat where
  "stable_secs = 20"

definition scope_tail_bytes :: nat where
  "scope_tail_bytes = 4096"

definition nudge_backoff_base_secs :: nat where
  "nudge_backoff_base_secs = 60"

definition nudge_backoff_max_secs :: nat where
  "nudge_backoff_max_secs = 900"

definition tick_budget :: nat where
  "tick_budget = secs 4"

definition circuit_breaker_threshold :: nat where
  "circuit_breaker_threshold = 5"

definition circuit_breaker_cooldown :: nat where
  "circuit_breaker_cooldown = secs 30"

definition probe_ttl :: nat where
  "probe_ttl = secs 10"

record connectivity =
  cp_last_check :: "nat option"
  cp_last_online :: bool

text \<open>The status of each endpoint that answered; the first success ends the pass.\<close>

definition probe_once :: "nat option list \<Rightarrow> bool" where
  "probe_once answers = list_ex (\<lambda>a. case a of Some code \<Rightarrow> 200 \<le> code \<and> code < 300 | None \<Rightarrow> False) answers"

definition is_online :: "nat \<Rightarrow> nat option list \<Rightarrow> connectivity \<Rightarrow> bool \<times> connectivity" where
  "is_online now answers p =
     (let probed = (let online = probe_once answers in (online, \<lparr>cp_last_check = Some now, cp_last_online = online\<rparr>))
      in case cp_last_check p of
           Some at \<Rightarrow> if now - at < probe_ttl then (cp_last_online p, p) else probed
         | None \<Rightarrow> probed)"

section \<open>Patterns\<close>

record pattern =
  pt_needle :: rstr
  pt_label :: rstr
  pt_action :: rstr

text \<open>Every pattern's action is the text \<^verbatim>\<open>continue\<close> and a carriage return.\<close>

definition continue_cr :: rstr where
  "continue_cr = lit ''continue'' @ [13]"

definition patterns :: "pattern list" where
  "patterns = map (\<lambda>(n, l). \<lparr>pt_needle = lit n, pt_label = lit l, pt_action = continue_cr\<rparr>)
     [(''API Error: Unable to connect to API'', ''anthropic-unreachable''),
      (''ConnectionRefused'', ''connection-refused''),
      (''Connection refused'', ''connection-refused''),
      (''ECONNRESET'', ''tcp-reset''),
      (''ETIMEDOUT'', ''tcp-timeout''),
      (''503 Service Unavailable'', ''anthropic-503''),
      (''Internal server error'', ''anthropic-5xx''),
      (''Overloaded (529)'', ''anthropic-529''),
      (''529 Overloaded'', ''anthropic-529''),
      (''Server is temporarily limiting requests'', ''anthropic-rate-limited''),
      (''The socket connection was closed unexpectedly'', ''socket-closed-unexpectedly''),
      (''Connection closed mid-response'', ''connection-closed-mid-response''),
      (''auto mode cannot determine the safety'', ''auto-mode-classifier-down''),
      (''will retry in'', ''api-retry-waiting'')]"

text \<open>
  The tail starts at the last character boundary with at least \<open>scope_tail_bytes\<close> bytes after it, or is
  the whole text when it is no longer than that.
\<close>

fun cut_to_tail :: "rstr \<Rightarrow> rstr" where
  "cut_to_tail [] = []"
| "cut_to_tail (c # cs) = (if scope_tail_bytes \<le> byte_len cs then cut_to_tail cs else c # cs)"

definition tail_of :: "rstr \<Rightarrow> rstr" where
  "tail_of text = (if byte_len text \<le> scope_tail_bytes then text else cut_to_tail text)"

definition scan_output :: "rstr \<Rightarrow> pattern option" where
  "scan_output text =
     (let scope = (if scope_tail_bytes < byte_len text then cut_to_tail text else text)
      in find (\<lambda>p. str_contains scope (pt_needle p)) patterns)"

section \<open>One tab\<close>

record tab_info =
  ti_id :: rstr
  ti_name :: rstr
  ti_agent_state :: "rstr option"
  ti_agent_kind :: "rstr option"
  ti_session :: "rstr option"
  ti_crc :: "nat option"

datatype trigger = TPattern pattern | TAgentError

fun trigger_label :: "trigger \<Rightarrow> rstr" where
  "trigger_label (TPattern p) = pt_label p"
| "trigger_label TAgentError = lit ''agent-state-error''"

fun trigger_action :: "trigger \<Rightarrow> rstr" where
  "trigger_action (TPattern p) = pt_action p"
| "trigger_action TAgentError = continue_cr"

record eligible =
  el_tab :: rstr
  el_name :: rstr
  el_trigger :: trigger
  el_hash :: "64 word"

record tab_watch =
  w_last_hash :: "64 word"
  w_stable_since :: nat
  w_nudged :: "64 word option"
  w_streak :: nat
  w_next_at :: "nat option"
  w_label :: "rstr option"
  w_crc :: "nat option"
  w_tail :: rstr

definition new_watch :: "nat \<Rightarrow> tab_watch" where
  "new_watch now =
     \<lparr>w_last_hash = 0, w_stable_since = now, w_nudged = None, w_streak = 0, w_next_at = None,
      w_label = None, w_crc = None, w_tail = []\<rparr>"

definition needs_output :: "nat option \<Rightarrow> nat option \<Rightarrow> bool \<Rightarrow> bool" where
  "needs_output listed cached has_cached =
     (case (listed, cached) of
        (Some l, Some c) \<Rightarrow> l \<noteq> c \<or> \<not> has_cached
      | _ \<Rightarrow> True)"

text \<open>The same FNV-1a as the board's, over the bytes of the tail.\<close>

definition hash_output :: "rstr \<Rightarrow> 64 word" where
  "hash_output s = foldl fnv_step 0xcbf29ce484222325 (utf8 s)"

definition should_nudge :: "nat \<Rightarrow> 64 word option \<Rightarrow> 64 word \<Rightarrow> bool" where
  "should_nudge stable_for nudged current \<longleftrightarrow> secs stable_secs \<le> stable_for \<and> nudged \<noteq> Some current"

definition backoff_secs :: "nat \<Rightarrow> nat" where
  "backoff_secs streak =
     (let shift = min (streak - 1) 6
      in min (sat_mul nudge_backoff_base_secs (2 ^ shift)) nudge_backoff_max_secs)"

definition trigger_of :: "rstr \<Rightarrow> rstr option \<Rightarrow> trigger option" where
  "trigger_of output agent_state =
     (case scan_output output of
        Some p \<Rightarrow> Some (TPattern p)
      | None \<Rightarrow> if agent_state = Some (lit ''error'') then Some TAgentError else None)"

definition evaluate_tab :: "tab_watch \<Rightarrow> rstr \<Rightarrow> rstr option \<Rightarrow> nat \<Rightarrow> tab_watch \<times> trigger option" where
  "evaluate_tab w0 output agent_state now =
     (let h = hash_output output;
          w = (if w_last_hash w0 \<noteq> h then w0\<lparr>w_last_hash := h, w_stable_since := now\<rparr> else w0)
      in case trigger_of output agent_state of
           None \<Rightarrow> (w\<lparr>w_streak := 0, w_next_at := None, w_label := None\<rparr>, None)
         | Some trigger \<Rightarrow>
             if \<not> should_nudge (now - w_stable_since w) (w_nudged w) h then (w, None)
             else if w_label w = Some (trigger_label trigger) \<and>
                     (case w_next_at w of Some at \<Rightarrow> now < at | None \<Rightarrow> False)
             then (w, None)
             else (w, Some trigger))"

section \<open>The fleet\<close>

definition is_api_storm_label :: "rstr \<Rightarrow> bool" where
  "is_api_storm_label l \<longleftrightarrow>
     l = lit ''anthropic-529'' \<or> l = lit ''anthropic-rate-limited'' \<or> l = lit ''anthropic-503'' \<or> l = lit ''anthropic-5xx''"

definition systemic_api_freeze :: "eligible list \<Rightarrow> nat option \<Rightarrow> nat \<Rightarrow> bool \<times> nat option" where
  "systemic_api_freeze es breaker_until now =
     (let capped = length (filter (\<lambda>e. is_api_storm_label (trigger_label (el_trigger e))) es)
      in if circuit_breaker_threshold < capped then (True, Some (now + circuit_breaker_cooldown))
         else case breaker_until of
                Some until \<Rightarrow> if now < until then (True, breaker_until) else (False, None)
              | None \<Rightarrow> (False, None))"

definition nudge_ready :: "nat option \<Rightarrow> nat \<Rightarrow> nat \<Rightarrow> bool \<times> nat option" where
  "nudge_ready last_at now min_interval =
     (case last_at of
        Some at \<Rightarrow> if now - at < min_interval then (False, last_at) else (True, Some now)
      | None \<Rightarrow> (True, Some now))"

section \<open>The tick\<close>

type_synonym watches = "rstr \<Rightarrow> tab_watch option"

record brain =
  br_watches :: watches
  br_probe :: connectivity
  br_rr :: nat
  br_scan :: nat
  br_breaker :: "nat option"
  br_last_nudge :: "nat option"
  br_systemic :: bool

definition default_brain :: brain where
  "default_brain =
     \<lparr>br_watches = Map.empty, br_probe = \<lparr>cp_last_check = None, cp_last_online = False\<rparr>, br_rr = 0, br_scan = 0,
      br_breaker = None, br_last_nudge = None, br_systemic = False\<rparr>"

text \<open>
  What one tick meets: the listing (none when the daemon or its answer fails), each tab's output when
  asked for, the time the scan starts and how long it has run after so many tabs, the probe's time and
  answers, and whether the send goes through.
\<close>

record tick_env =
  te_tabs :: "tab_info list option"
  te_fetch :: "rstr \<Rightarrow> rstr option"
  te_now :: nat
  te_elapsed :: "nat \<Rightarrow> nat"
  te_probe_now :: nat
  te_answers :: "nat option list"
  te_post_ok :: bool

definition is_claude_tab :: "tab_info \<Rightarrow> bool" where
  "is_claude_tab t \<longleftrightarrow>
     ti_id t \<noteq> [] \<and> ti_agent_kind t = Some (lit ''claude'') \<and>
     (case ti_session t of Some s \<Rightarrow> s \<noteq> [] | None \<Rightarrow> False)"

text \<open>The watch with this tick's tail, or none when a fetch was needed and failed.\<close>

definition refresh :: "(rstr \<Rightarrow> rstr option) \<Rightarrow> tab_info \<Rightarrow> tab_watch \<Rightarrow> tab_watch option" where
  "refresh fetch t w =
     (if needs_output (ti_crc t) (w_crc w) (w_tail w \<noteq> [])
      then (case fetch (ti_id t) of
              None \<Rightarrow> None
            | Some body \<Rightarrow> Some (w\<lparr>w_tail := tail_of body, w_crc := ti_crc t\<rparr>))
      else Some w)"

text \<open>
  The scan over the tabs in order. \<open>k\<close> counts the tabs visited. A failed fetch goes on to the next tab
  without looking at the budget.
\<close>

fun scan_loop ::
    "tick_env \<Rightarrow> tab_info list \<Rightarrow> nat \<Rightarrow> watches \<Rightarrow> eligible list \<Rightarrow> watches \<times> eligible list \<times> nat" where
  "scan_loop e [] k ws es = (ws, es, k)"
| "scan_loop e (t # ts) k ws es =
     (let w0 = (case ws (ti_id t) of Some w \<Rightarrow> w | None \<Rightarrow> new_watch (te_now e)) in
      case refresh (te_fetch e) t w0 of
        None \<Rightarrow> scan_loop e ts (k + 1) (ws(ti_id t \<mapsto> w0)) es
      | Some w1 \<Rightarrow>
          (let (w2, tr) = evaluate_tab w1 (w_tail w1) (ti_agent_state t) (te_now e);
               ws' = ws(ti_id t \<mapsto> w2);
               es' = (case tr of
                        None \<Rightarrow> es
                      | Some g \<Rightarrow> es @ [\<lparr>el_tab = ti_id t, el_name = ti_name t, el_trigger = g, el_hash = w_last_hash w2\<rparr>])
           in if tick_budget \<le> te_elapsed e (k + 1) then (ws', es', k + 1)
              else scan_loop e ts (k + 1) ws' es'))"

text \<open>What picking a tab does to its watch.\<close>

definition record_nudge :: "nat \<Rightarrow> eligible \<Rightarrow> tab_watch \<Rightarrow> tab_watch" where
  "record_nudge now p w =
     (let label = trigger_label (el_trigger p);
          streak = (if w_label w = Some label then (w_streak w + 1) mod 2 ^ 32 else 1)
      in w\<lparr>w_nudged := Some (el_hash p), w_streak := streak, w_label := Some label,
           w_next_at := Some (now + secs (backoff_secs streak))\<rparr>)"

datatype tick_result = TickOk "eligible option" | TickFailed "eligible option"

text \<open>
  A tick. The result says which tab was sent its action, also when the send failed; the second
  component of a failure is none when the listing failed.
\<close>

definition send_phase :: "tick_env \<Rightarrow> bool \<Rightarrow> eligible list \<Rightarrow> brain \<Rightarrow> brain \<times> tick_result" where
  "send_phase e systemic es b =
     (let (online, probe') = is_online (te_probe_now e) (te_answers e) (br_probe b);
          b1 = b\<lparr>br_probe := probe'\<rparr>
      in if \<not> online then (b1, TickOk None)
         else
           (let (ready, last') = (if systemic then nudge_ready (br_last_nudge b1) (te_now e) circuit_breaker_cooldown
                                  else (True, br_last_nudge b1));
                b2 = b1\<lparr>br_last_nudge := last'\<rparr>
            in if \<not> ready then (b2, TickOk None)
               else case pick_round_robin es (br_rr b2) of
                      (None, c) \<Rightarrow> (b2\<lparr>br_rr := c\<rparr>, TickOk None)
                    | (Some p, c) \<Rightarrow>
                        (let b3 = b2\<lparr>br_rr := c,
                               br_watches := (case br_watches b2 (el_tab p) of
                                                None \<Rightarrow> br_watches b2
                                              | Some w \<Rightarrow> (br_watches b2)(el_tab p \<mapsto> record_nudge (te_now e) p w))\<rparr>
                         in (b3, if te_post_ok e then TickOk (Some p) else TickFailed (Some p)))))"

definition tick :: "tick_env \<Rightarrow> brain \<Rightarrow> brain \<times> tick_result" where
  "tick e b =
     (case te_tabs e of
        None \<Rightarrow> (b, TickFailed None)
      | Some tabs \<Rightarrow>
          (let claude = filter is_claude_tab tabs;
               kept = (br_watches b) |` set (map ti_id claude);
               (ws, es, scanned) =
                 scan_loop e (map ((!) claude) (scan_order (length claude) (br_scan b))) 0 kept [];
               (systemic, breaker') = systemic_api_freeze es (br_breaker b) (te_now e);
               b1 = b\<lparr>br_watches := ws, br_scan := usize_wrap (br_scan b + scanned), br_breaker := breaker',
                      br_systemic := systemic\<rparr>
           in if es = [] then (b1, TickOk None) else send_phase e systemic es b1))"

section \<open>Runs\<close>

text \<open>
  The ticks of one process, newest send first: when, whether the fleet was taken as capped, and the tab
  picked. The clock never goes back.
\<close>

type_synonym send_log = "(nat \<times> bool \<times> eligible) list"

fun sent :: "tick_result \<Rightarrow> eligible option" where
  "sent (TickOk p) = p"
| "sent (TickFailed p) = p"

inductive brain_run :: "send_log \<Rightarrow> brain \<Rightarrow> nat \<Rightarrow> bool" where
  start: "brain_run [] default_brain 0"
| tick: "brain_run log b T \<Longrightarrow> T \<le> te_now e \<Longrightarrow> tick e b = (b', r) \<Longrightarrow>
    brain_run (case sent r of None \<Rightarrow> log | Some p \<Rightarrow> (te_now e, br_systemic b', p) # log) b' (te_now e)"

section \<open>Lemmas on one tab\<close>

lemma refresh_keeps:
  "refresh f t w = Some w' \<Longrightarrow>
     w_last_hash w' = w_last_hash w \<and> w_stable_since w' = w_stable_since w \<and> w_nudged w' = w_nudged w \<and>
     w_label w' = w_label w \<and> w_next_at w' = w_next_at w"
  by (auto simp: refresh_def split: if_splits option.splits)

lemma evaluate_tab_cases:
  assumes "evaluate_tab w0 out st now = (w, tr)"
  shows "w_last_hash w = hash_output out \<and> w_nudged w = w_nudged w0 \<and>
    w_stable_since w = (if w_last_hash w0 = hash_output out then w_stable_since w0 else now) \<and> w_tail w = w_tail w0"
    and "tr = Some g \<Longrightarrow> trigger_of out st = Some g \<and> secs stable_secs \<le> now - w_stable_since w \<and>
      w_nudged w0 \<noteq> Some (hash_output out) \<and>
      (\<forall>at. w_label w0 = Some (trigger_label g) \<longrightarrow> w_next_at w0 = Some at \<longrightarrow> at \<le> now)"
  using assms by (auto simp: evaluate_tab_def Let_def should_nudge_def split: option.splits if_splits)

lemma sat_mul_small: "a * b \<le> 3840 \<Longrightarrow> sat_mul a b = a * b"
  by (simp add: sat_mul_def u64_max_def)

text \<open>The waits are the doubling series cut at the ceiling.\<close>

lemma backoff_secs_eq: "backoff_secs k = min (60 * 2 ^ (k - 1)) 900"
proof -
  have "(2::nat) ^ min (k - 1) 6 \<le> 2 ^ 6" by (rule power_increasing) simp_all
  then have s: "sat_mul 60 (2 ^ min (k - 1) 6) = 60 * 2 ^ min (k - 1) 6"
    by (intro sat_mul_small) simp
  have "min (60 * 2 ^ min (k - 1) 6) 900 = min (60 * 2 ^ (k - 1)) (900::nat)"
  proof (cases "k - 1 \<le> 6")
    case False
    then have "(2::nat) ^ 6 \<le> 2 ^ (k - 1)" by (intro power_increasing) simp_all
    with False show ?thesis by simp
  qed (simp add: min_def)
  then show ?thesis
    unfolding backoff_secs_def Let_def nudge_backoff_base_secs_def nudge_backoff_max_secs_def s .
qed

section \<open>The invariant of a run\<close>

definition watch_ok :: "send_log \<Rightarrow> nat \<Rightarrow> rstr \<Rightarrow> tab_watch \<Rightarrow> bool" where
  "watch_ok log now i w \<longleftrightarrow> w_stable_since w \<le> now \<and>
     (\<forall>t s p. (t, s, p) \<in> set log \<longrightarrow> el_tab p = i \<longrightarrow> t \<le> w_stable_since w \<or> w_nudged w = Some (w_last_hash w))"

definition watches_ok :: "send_log \<Rightarrow> nat \<Rightarrow> watches \<Rightarrow> bool" where
  "watches_ok log now ws \<longleftrightarrow> (\<forall>i w. ws i = Some w \<longrightarrow> watch_ok log now i w)"

definition log_before :: "send_log \<Rightarrow> nat \<Rightarrow> bool" where
  "log_before log now \<longleftrightarrow> (\<forall>t s p. (t, s, p) \<in> set log \<longrightarrow> t \<le> now)"

text \<open>A candidate is due, and its watch still stands at its screen or has just moved on.\<close>

definition due :: "send_log \<Rightarrow> nat \<Rightarrow> eligible \<Rightarrow> bool" where
  "due log now p \<longleftrightarrow> (\<forall>t s q. (t, s, q) \<in> set log \<longrightarrow> el_tab q = el_tab p \<longrightarrow> t + secs stable_secs \<le> now)"

definition tracked :: "nat \<Rightarrow> watches \<Rightarrow> eligible \<Rightarrow> bool" where
  "tracked now ws p \<longleftrightarrow>
     (\<exists>w. ws (el_tab p) = Some w \<and> (w_last_hash w = el_hash p \<or> w_stable_since w = now))"

lemma new_watch_ok: "log_before log now \<Longrightarrow> watch_ok log now i (new_watch now)"
  by (auto simp: watch_ok_def log_before_def new_watch_def)

lemma watches_ok_upd: "watches_ok log now ws \<Longrightarrow> watch_ok log now i w \<Longrightarrow> watches_ok log now (ws(i \<mapsto> w))"
  by (simp add: watches_ok_def)

lemma evaluate_watch_ok:
  assumes e: "evaluate_tab w0 out st now = (w, tr)" and ok: "watch_ok log now i w0" and l: "log_before log now"
  shows "watch_ok log now i w" and "tr = Some g \<Longrightarrow> el_tab p = i \<Longrightarrow> due log now p"
proof -
  note c = evaluate_tab_cases(1) [OF e]
  show ok': "watch_ok log now i w"
    using ok l c unfolding watch_ok_def log_before_def by (auto split: if_splits)
  assume g: "tr = Some g" "el_tab p = i"
  note d = evaluate_tab_cases(2) [OF e g(1)]
  have "w_nudged w \<noteq> Some (w_last_hash w)" using c d by simp
  moreover have "0 < secs stable_secs" by (simp add: secs_def stable_secs_def)
  ultimately show "due log now p"
    using ok' d g(2) unfolding watch_ok_def due_def by fastforce
qed

lemma scan_loop_ok:
  "scan_loop e ts k ws es = (ws', es', k') \<Longrightarrow> log_before log (te_now e) \<Longrightarrow> watches_ok log (te_now e) ws \<Longrightarrow>
     (\<forall>p \<in> set es. due log (te_now e) p \<and> tracked (te_now e) ws p) \<Longrightarrow>
     watches_ok log (te_now e) ws' \<and> (\<forall>p \<in> set es'. due log (te_now e) p \<and> tracked (te_now e) ws' p)"
proof (induction e ts k ws es arbitrary: ws' es' k' rule: scan_loop.induct)
  case (1 e k ws es)
  then show ?case by simp
next
  case (2 e t ts k ws es)
  let ?n = "te_now e" and ?i = "ti_id t"
  define w0 where "w0 = (case ws ?i of Some w \<Rightarrow> w | None \<Rightarrow> new_watch ?n)"
  have ok0: "watch_ok log ?n ?i w0"
    using 2(4,5) new_watch_ok [of log ?n ?i] by (auto simp: w0_def watches_ok_def split: option.split)
  have new0: "ws ?i = None \<Longrightarrow> w_stable_since w0 = ?n" by (simp add: w0_def new_watch_def)
  have old0: "ws ?i = Some w \<Longrightarrow> w0 = w" for w by (simp add: w0_def)
  have keep: "tracked ?n (ws(?i \<mapsto> w)) p"
    if "tracked ?n ws p" "w_last_hash w = w_last_hash w0 \<and> w_stable_since w = w_stable_since w0 \<or> w_stable_since w = ?n" for w p
    using that new0 old0 unfolding tracked_def by (cases "el_tab p = ?i") auto
  show ?case
  proof (cases "refresh (te_fetch e) t w0")
    case None
    have s: "scan_loop e ts (k + 1) (ws(?i \<mapsto> w0)) es = (ws', es', k')"
      using 2(3) None by (simp add: w0_def)
    show ?thesis
      by (rule 2(1) [OF w0_def None s 2(4) watches_ok_upd [OF 2(5) ok0]]) (use 2(6) keep [of _ w0] in blast)
  next
    case (Some w1)
    obtain w2 tr where ev: "evaluate_tab w1 (w_tail w1) (ti_agent_state t) ?n = (w2, tr)" by fastforce
    define es1 where "es1 = (case tr of None \<Rightarrow> es
      | Some g \<Rightarrow> es @ [\<lparr>el_tab = ?i, el_name = ti_name t, el_trigger = g, el_hash = w_last_hash w2\<rparr>])"
    note r = refresh_keeps [OF Some]
    have ok1: "watch_ok log ?n ?i w1" using ok0 r by (simp add: watch_ok_def)
    note ok2 = evaluate_watch_ok [OF ev ok1 2(4)]
    note c = evaluate_tab_cases(1) [OF ev]
    have ws2: "watches_ok log ?n (ws(?i \<mapsto> w2))" by (rule watches_ok_upd [OF 2(5) ok2(1)])
    have k2: "tracked ?n (ws(?i \<mapsto> w2)) p" if "tracked ?n ws p" for p
      using keep [OF that, of w2] c r by (auto split: if_splits)
    have es1: "\<forall>p \<in> set es1. due log ?n p \<and> tracked ?n (ws(?i \<mapsto> w2)) p"
    proof (cases tr)
      case None
      then show ?thesis using 2(6) k2 by (simp add: es1_def)
    next
      case (Some g)
      then show ?thesis using 2(6) k2 ok2(2) [OF Some] by (simp add: es1_def tracked_def)
    qed
    show ?thesis
    proof (cases "tick_budget \<le> te_elapsed e (k + 1)")
      case True
      then have "ws' = ws(?i \<mapsto> w2)" "es' = es1"
        using 2(3) Some ev by (simp_all add: w0_def es1_def Let_def)
      then show ?thesis using ws2 es1 by blast
    next
      case False
      then have s: "scan_loop e ts (k + 1) (ws(?i \<mapsto> w2)) es1 = (ws', es', k')"
        using 2(3) Some ev by (simp add: w0_def es1_def Let_def)
      show ?thesis
        by (rule 2(2) [OF w0_def Some ev [symmetric] refl refl es1_def False s 2(4) ws2 es1])
    qed
  qed
qed

text \<open>What sending does to the brain, in one place.\<close>

lemma send_phase_cases:
  assumes "send_phase e sy es b = (b', r)" "es \<noteq> []"
  obtains (quiet) "r = TickOk None" "br_watches b' = br_watches b"
      "br_last_nudge b' = br_last_nudge b \<or> sy \<and> br_last_nudge b' = Some (te_now e)"
  | (send) p where "sent r = Some p" "p \<in> set es" "is_online (te_probe_now e) (te_answers e) (br_probe b) = (True, br_probe b')"
      "br_watches b' = (case br_watches b (el_tab p) of None \<Rightarrow> br_watches b
         | Some w \<Rightarrow> (br_watches b)(el_tab p \<mapsto> record_nudge (te_now e) p w))"
      "if sy then nudge_ready (br_last_nudge b) (te_now e) circuit_breaker_cooldown = (True, br_last_nudge b')
       else br_last_nudge b' = br_last_nudge b"
proof -
  obtain on pr where o: "is_online (te_probe_now e) (te_answers e) (br_probe b) = (on, pr)" by fastforce
  obtain rd la where n: "(if sy then nudge_ready (br_last_nudge b) (te_now e) circuit_breaker_cooldown
      else (True, br_last_nudge b)) = (rd, la)" by fastforce
  obtain x c where k: "pick_round_robin es (br_rr b) = (x, c)" by fastforce
  have la: "\<not> rd \<Longrightarrow> la = br_last_nudge b"
    using n by (auto simp: nudge_ready_def split: if_splits option.splits)
  from k assms(2) have x: "x = Some (es ! (br_rr b mod length es))" by (auto simp: pick_round_robin_def)
  then have xe: "\<exists>p \<in> set es. x = Some p" using assms(2) by simp
  show ?thesis
  proof (cases "on \<and> rd")
    case False
    then show ?thesis
      using assms(1) o n la by (intro quiet) (auto simp: send_phase_def Let_def split: if_splits)
  next
    case True
    obtain p where p: "p \<in> set es" "x = Some p" using xe by blast
    show ?thesis
      by (rule send [of p]) (use assms(1) True o n k p in \<open>auto simp: send_phase_def Let_def split: if_splits cong: option.case_cong\<close>)
  qed
qed

lemma nudge_ready_True:
  "nudge_ready l n m = (True, l') \<longleftrightarrow> l' = Some n \<and> (\<forall>at. l = Some at \<longrightarrow> m \<le> n - at)"
  by (auto simp: nudge_ready_def split: option.splits)

lemma send_phase_systemic: "br_systemic (fst (send_phase e sy es b)) = br_systemic b"
  by (auto simp: send_phase_def Let_def split: prod.split option.split)

definition run_ok :: "send_log \<Rightarrow> brain \<Rightarrow> nat \<Rightarrow> bool" where
  "run_ok log b now \<longleftrightarrow> log_before log now \<and> watches_ok log now (br_watches b) \<and>
     (\<forall>t p. (t, True, p) \<in> set log \<longrightarrow> (\<exists>u. br_last_nudge b = Some u \<and> t \<le> u)) \<and>
     (\<forall>u. br_last_nudge b = Some u \<longrightarrow> u \<le> now)"

lemma log_before_mono: "log_before log T \<Longrightarrow> T \<le> n \<Longrightarrow> log_before log n"
  by (meson log_before_def order_trans)

lemma watches_ok_mono: "watches_ok log T ws \<Longrightarrow> T \<le> n \<Longrightarrow> watches_ok log n ws"
  by (auto simp: watches_ok_def watch_ok_def intro: order_trans)

lemma watches_ok_restrict: "watches_ok log n ws \<Longrightarrow> watches_ok log n (ws |` A)"
  by (auto simp: watches_ok_def restrict_map_def)

lemma record_nudge_ok:
  assumes ok: "watches_ok log n ws" and tr: "tracked n ws p" and b: "log_before log n"
  shows "watches_ok ((n, s, p) # log) n
    (case ws (el_tab p) of None \<Rightarrow> ws | Some w \<Rightarrow> ws(el_tab p \<mapsto> record_nudge n p w))"
proof -
  obtain w where w: "ws (el_tab p) = Some w" "w_last_hash w = el_hash p \<or> w_stable_since w = n"
    using tr by (auto simp: tracked_def)
  have wok: "watch_ok log n (el_tab p) w" using ok w(1) by (simp add: watches_ok_def)
  have "watch_ok ((n, s, p) # log) n (el_tab p) (record_nudge n p w)"
    using wok w(2) b by (auto simp: watch_ok_def record_nudge_def Let_def log_before_def)
  moreover have "watch_ok ((n, s, p) # log) n i v" if "ws i = Some v" "i \<noteq> el_tab p" for i v
    using ok that by (auto simp: watches_ok_def watch_ok_def)
  ultimately show ?thesis using w(1) by (auto simp: watches_ok_def)
qed

lemma tick_ok:
  assumes ok: "run_ok log b T" and le: "T \<le> te_now e" and t: "tick e b = (b', r)"
  shows "run_ok (case sent r of None \<Rightarrow> log | Some p \<Rightarrow> (te_now e, br_systemic b', p) # log) b' (te_now e) \<and>
    (\<forall>p. sent r = Some p \<longrightarrow> due log (te_now e) p \<and>
       (br_systemic b' \<longrightarrow> (\<forall>u. br_last_nudge b = Some u \<longrightarrow> u + circuit_breaker_cooldown \<le> te_now e)))"
proof (cases "te_tabs e")
  case None
  with t have "b' = b" "r = TickFailed None" by (simp_all add: tick_def)
  then show ?thesis
    using ok le by (auto simp: run_ok_def intro: log_before_mono watches_ok_mono)
next
  case (Some tabs)
  define claude where "claude = filter is_claude_tab tabs"
  obtain ws es k where sc: "scan_loop e (map ((!) claude) (scan_order (length claude) (br_scan b))) 0
      (br_watches b |` set (map ti_id claude)) [] = (ws, es, k)" by (metis prod_cases3)
  obtain sy br where sf: "systemic_api_freeze es (br_breaker b) (te_now e) = (sy, br)" by fastforce
  define b1 where "b1 = b\<lparr>br_watches := ws, br_scan := usize_wrap (br_scan b + k), br_breaker := br, br_systemic := sy\<rparr>"
  have lb: "log_before log (te_now e)" using ok le by (auto simp: run_ok_def intro: log_before_mono)
  have wk: "watches_ok log (te_now e) (br_watches b |` set (map ti_id claude))"
    using ok le by (auto simp: run_ok_def intro: watches_ok_restrict watches_ok_mono)
  from scan_loop_ok [OF sc lb wk] have sl: "watches_ok log (te_now e) ws"
    "\<forall>p \<in> set es. due log (te_now e) p \<and> tracked (te_now e) ws p" by simp_all
  have past: "u \<le> te_now e" if "br_last_nudge b = Some u" for u
    using ok le that unfolding run_ok_def by (blast intro: order_trans)
  have last: "\<forall>t p. (t, True, p) \<in> set log \<longrightarrow> (\<exists>u. br_last_nudge b = Some u \<and> t \<le> u)"
    using ok by (simp add: run_ok_def)
  have tk: "(b', r) = (if es = [] then (b1, TickOk None) else send_phase e sy es b1)"
    using t Some sc sf by (cases "es = []") (simp_all add: tick_def claude_def b1_def Let_def)
  show ?thesis
  proof (cases "es = []")
    case True
    then show ?thesis using tk sl(1) lb last past by (simp add: run_ok_def b1_def)
  next
    case False
    then have sp: "send_phase e sy es b1 = (b', r)" using tk by simp
    have sy': "br_systemic b' = sy" using send_phase_systemic [of e sy es b1] sp by (simp add: b1_def)
    from sp False show ?thesis
    proof (cases rule: send_phase_cases)
      case quiet
      have "\<forall>t p. (t, True, p) \<in> set log \<longrightarrow> (\<exists>u. br_last_nudge b' = Some u \<and> t \<le> u)"
      proof (intro allI impI)
        fix t p assume a: "(t, True, p) \<in> set log"
        then have "t \<le> te_now e" using lb unfolding log_before_def by blast
        then show "\<exists>u. br_last_nudge b' = Some u \<and> t \<le> u" using quiet(3) last a by (auto simp: b1_def)
      qed
      moreover have "br_last_nudge b' = Some u \<Longrightarrow> u \<le> te_now e" for u
        using quiet(3) past by (auto simp: b1_def)
      ultimately show ?thesis using quiet sl(1) lb by (simp add: run_ok_def b1_def)
    next
      case (send p)
      have d: "due log (te_now e) p" "tracked (te_now e) ws p" using sl(2) send(2) by auto
      have w: "watches_ok ((te_now e, sy, p) # log) (te_now e) (br_watches b')"
        using record_nudge_ok [OF sl(1) d(2) lb, of sy] send(4) by (simp add: b1_def cong: option.case_cong)
      have l: "log_before ((te_now e, sy, p) # log) (te_now e)" using lb by (auto simp: log_before_def)
      have stamp: "br_last_nudge b' = (if sy then Some (te_now e) else br_last_nudge b)"
        "sy \<Longrightarrow> br_last_nudge b = Some u \<Longrightarrow> circuit_breaker_cooldown \<le> te_now e - u" for u
        using send(5) by (auto simp: b1_def nudge_ready_True split: if_splits)
      have n: "\<exists>u. br_last_nudge b' = Some u \<and> t \<le> u" if "(t, True, q) \<in> set ((te_now e, sy, p) # log)" for t q
      proof (cases sy)
        case True
        have "t \<le> te_now e" using that lb unfolding log_before_def by auto
        then show ?thesis using stamp(1) True by simp
      next
        case False
        then show ?thesis using that stamp(1) last by auto
      qed
      have g: "u + circuit_breaker_cooldown \<le> te_now e" if "sy" "br_last_nudge b = Some u" for u
        using stamp(2) [OF that] past [OF that(2)] by (simp add: circuit_breaker_cooldown_def secs_def)
      have u: "br_last_nudge b' = Some u \<Longrightarrow> u \<le> te_now e" for u
        using stamp(1) past by (auto split: if_splits)
      show ?thesis using send(1) sy' w l n g d(1) u by (simp add: run_ok_def)
    qed
  qed
qed

lemma default_run_ok: "run_ok [] default_brain 0"
  by (simp add: run_ok_def log_before_def watches_ok_def default_brain_def)

text \<open>Sends to one tab, and sends while the fleet is capped, keep their distance.\<close>

primrec spaced :: "send_log \<Rightarrow> bool" where
  "spaced [] = True"
| "spaced (x # log) = (spaced log \<and>
     (\<forall>y \<in> set log.
        (el_tab (snd (snd y)) = el_tab (snd (snd x)) \<longrightarrow> fst y + secs stable_secs \<le> fst x) \<and>
        (fst (snd y) \<and> fst (snd x) \<longrightarrow> fst y + circuit_breaker_cooldown \<le> fst x)))"

lemma run_spaced: "brain_run log b T \<Longrightarrow> run_ok log b T \<and> spaced log"
proof (induction rule: brain_run.induct)
  case start
  show ?case using default_run_ok by simp
next
  case (tick log b T e b' r)
  have ok: "run_ok log b T" and sp: "spaced log" using tick.IH by simp_all
  note t = tick_ok [OF ok tick.hyps(2,3)]
  show ?case
  proof (cases "sent r")
    case None
    then show ?thesis using t sp by simp
  next
    case (Some p)
    have 1: "s + secs stable_secs \<le> te_now e" if "(s, y, q) \<in> set log" "el_tab q = el_tab p" for s y q
      using t Some that unfolding due_def by blast
    have 2: "s + circuit_breaker_cooldown \<le> te_now e" if a: "(s, True, q) \<in> set log" "br_systemic b'" for s q
    proof -
      obtain u where "br_last_nudge b = Some u" "s \<le> u" using ok a(1) unfolding run_ok_def by blast
      then show ?thesis using t Some a(2) by (meson add_right_mono order_trans)
    qed
    show ?thesis using t Some sp 1 2 by auto
  qed
qed

lemma spaced_nth:
  "spaced log \<Longrightarrow> i < j \<Longrightarrow> j < length log \<Longrightarrow>
     (el_tab (snd (snd (log ! j))) = el_tab (snd (snd (log ! i))) \<longrightarrow> fst (log ! j) + secs stable_secs \<le> fst (log ! i)) \<and>
     (fst (snd (log ! j)) \<and> fst (snd (log ! i)) \<longrightarrow> fst (log ! j) + circuit_breaker_cooldown \<le> fst (log ! i))"
proof (induction log arbitrary: i j)
  case (Cons x log)
  then obtain j' where j: "j = Suc j'" by (cases j) auto
  show ?case
  proof (cases i)
    case 0
    then show ?thesis using Cons.prems j by simp
  next
    case (Suc i')
    then show ?thesis using Cons.IH [of i' j'] Cons.prems j by simp
  qed
qed simp

section \<open>Why a tab is nudged\<close>

text \<open>
  The watch as it stood, the screen read this tick: the same screen since \<open>w_stable_since\<close>, an error on
  it, not nudged before, and past the wait if the last nudge was for the same error.
\<close>

definition nudge_due :: "tick_env \<Rightarrow> tab_info \<Rightarrow> tab_watch \<Rightarrow> eligible \<Rightarrow> bool" where
  "nudge_due e t w p \<longleftrightarrow>
     (\<exists>w1. refresh (te_fetch e) t w = Some w1 \<and>
        trigger_of (w_tail w1) (ti_agent_state t) = Some (el_trigger p) \<and>
        hash_output (w_tail w1) = w_last_hash w \<and> el_hash p = w_last_hash w \<and>
        w_stable_since w + secs stable_secs \<le> te_now e \<and> w_nudged w \<noteq> Some (el_hash p) \<and>
        (\<forall>at. w_label w = Some (trigger_label (el_trigger p)) \<longrightarrow> w_next_at w = Some at \<longrightarrow> at \<le> te_now e))"

lemma scan_loop_other: "scan_loop e ts k ws es = (ws', es', k') \<Longrightarrow> i \<notin> ti_id ` set ts \<Longrightarrow> ws' i = ws i"
  by (induction e ts k ws es arbitrary: ws' es' k' rule: scan_loop.induct)
    (auto simp: Let_def split: option.splits prod.splits if_splits)

lemma evaluate_due:
  assumes r: "refresh (te_fetch e) t w0 = Some w1" and ev: "evaluate_tab w1 (w_tail w1) (ti_agent_state t) (te_now e) = (w2, Some g)"
  shows "nudge_due e t w0 \<lparr>el_tab = i, el_name = n, el_trigger = g, el_hash = w_last_hash w2\<rparr> \<and>
    w_last_hash w2 = hash_output (w_tail w2)"
proof -
  note k = refresh_keeps [OF r] and c = evaluate_tab_cases(1) [OF ev] and d = evaluate_tab_cases(2) [OF ev refl]
  have pos: "0 < secs stable_secs" by (simp add: secs_def stable_secs_def)
  have same: "w_last_hash w1 = hash_output (w_tail w1)"
  proof (rule ccontr)
    assume "w_last_hash w1 \<noteq> hash_output (w_tail w1)"
    then have "w_stable_since w2 = te_now e" using c by simp
    then show False using d pos by simp
  qed
  then have s: "w_stable_since w2 = w_stable_since w0" using c k by simp
  then have "w_stable_since w0 + secs stable_secs \<le> te_now e" using d pos by arith
  then show ?thesis using r c d k same unfolding nudge_due_def by (intro conjI exI [of _ w1]) auto
qed

lemma new_not_due: "\<not> nudge_due e t (new_watch (te_now e)) p"
  by (simp add: nudge_due_def new_watch_def secs_def stable_secs_def)

text \<open>With the ids distinct, each tab in the result was due by its watch as the scan found it.\<close>

lemma scan_loop_why:
  "scan_loop e ts k ws es = (ws', es', k') \<Longrightarrow> distinct (map ti_id ts) \<Longrightarrow> p \<in> set es' \<Longrightarrow> p \<notin> set es \<Longrightarrow>
     \<exists>t w w2. t \<in> set ts \<and> ti_id t = el_tab p \<and> ws (el_tab p) = Some w \<and> nudge_due e t w p \<and>
       ws' (el_tab p) = Some w2 \<and> hash_output (w_tail w2) = el_hash p"
proof (induction e ts k ws es arbitrary: ws' es' k' rule: scan_loop.induct)
  case (1 e k ws es)
  then show ?case by simp
next
  case (2 e t ts k ws es)
  let ?n = "te_now e" and ?i = "ti_id t"
  define w0 where "w0 = (case ws ?i of Some w \<Rightarrow> w | None \<Rightarrow> new_watch ?n)"
  have dist: "distinct (map ti_id ts)" and ni: "?i \<notin> ti_id ` set ts" using 2(4) by simp_all
  have lift: "\<exists>t' w w2. t' \<in> set (t # ts) \<and> ti_id t' = el_tab p \<and> ws (el_tab p) = Some w \<and> nudge_due e t' w p \<and>
      ws' (el_tab p) = Some w2 \<and> hash_output (w_tail w2) = el_hash p"
    if h0: "\<exists>t' w w2. t' \<in> set ts \<and> ti_id t' = el_tab p \<and> (ws(?i \<mapsto> v)) (el_tab p) = Some w \<and> nudge_due e t' w p \<and>
      ws' (el_tab p) = Some w2 \<and> hash_output (w_tail w2) = el_hash p" for v
  proof -
    obtain t' w w2 where h: "t' \<in> set ts" "ti_id t' = el_tab p" "(ws(?i \<mapsto> v)) (el_tab p) = Some w" "nudge_due e t' w p"
      "ws' (el_tab p) = Some w2" "hash_output (w_tail w2) = el_hash p" using h0 by blast
    then have "el_tab p \<noteq> ?i" using ni by (metis imageI)
    with h show ?thesis by auto
  qed
  show ?case
  proof (cases "refresh (te_fetch e) t w0")
    case None
    have s: "scan_loop e ts (k + 1) (ws(?i \<mapsto> w0)) es = (ws', es', k')"
      using 2(3) None by (simp add: w0_def)
    show ?thesis by (rule lift, rule 2(1) [OF w0_def None s dist 2(5,6)])
  next
    case (Some w1)
    obtain w2 tr where ev: "evaluate_tab w1 (w_tail w1) (ti_agent_state t) ?n = (w2, tr)" by fastforce
    define es1 where "es1 = (case tr of None \<Rightarrow> es
      | Some g \<Rightarrow> es @ [\<lparr>el_tab = ?i, el_name = ti_name t, el_trigger = g, el_hash = w_last_hash w2\<rparr>])"
    have after: "ws' ?i = Some w2 \<and> (\<not> tick_budget \<le> te_elapsed e (k + 1) \<longrightarrow> scan_loop e ts (k + 1) (ws(?i \<mapsto> w2)) es1 = (ws', es', k')) \<and>
        (tick_budget \<le> te_elapsed e (k + 1) \<longrightarrow> es' = es1)"
    proof (cases "tick_budget \<le> te_elapsed e (k + 1)")
      case True
      then have "ws' = ws(?i \<mapsto> w2) \<and> es' = es1" using 2(3) Some ev by (simp add: w0_def es1_def Let_def)
      then show ?thesis using True by simp
    next
      case False
      then have s: "scan_loop e ts (k + 1) (ws(?i \<mapsto> w2)) es1 = (ws', es', k')"
        using 2(3) Some ev by (simp add: w0_def es1_def Let_def)
      then show ?thesis using scan_loop_other [OF s ni] False by simp
    qed
    show ?thesis
    proof (cases "p \<in> set es1")
      case True
      then obtain g where g: "tr = Some g" "p = \<lparr>el_tab = ?i, el_name = ti_name t, el_trigger = g, el_hash = w_last_hash w2\<rparr>"
        using 2(6) by (auto simp: es1_def split: option.splits)
      have "evaluate_tab w1 (w_tail w1) (ti_agent_state t) ?n = (w2, Some g)" using ev g(1) by simp
      from evaluate_due [OF Some this, of ?i "ti_name t"]
      have d: "nudge_due e t w0 p" "w_last_hash w2 = hash_output (w_tail w2)" unfolding g(2) by blast+
      then have "ws ?i = Some w0" using new_not_due by (auto simp: w0_def split: option.splits)
      then show ?thesis using d g(2) after by (intro exI [of _ t] exI [of _ w0] exI [of _ w2]) simp
    next
      case False
      then have nb: "\<not> tick_budget \<le> te_elapsed e (k + 1)" using after 2(5) by auto
      with after have s: "scan_loop e ts (k + 1) (ws(?i \<mapsto> w2)) es1 = (ws', es', k')" by simp
      show ?thesis
        by (rule lift, rule 2(2) [OF w0_def Some ev [symmetric] refl refl es1_def nb s dist 2(5) False])
    qed
  qed
qed

text \<open>What a tick that sends did on the way.\<close>

lemma tick_sent:
  assumes t: "tick e b = (b', r)" "sent r = Some p" and d: "\<And>tabs. te_tabs e = Some tabs \<Longrightarrow> distinct (map ti_id tabs)"
  obtains tabs t w w2 where "te_tabs e = Some tabs" "t \<in> set tabs" "is_claude_tab t" "ti_id t = el_tab p"
    "br_watches b (el_tab p) = Some w" "nudge_due e t w p" "fst (is_online (te_probe_now e) (te_answers e) (br_probe b))"
    "hash_output (w_tail w2) = el_hash p" "br_watches b' (el_tab p) = Some (record_nudge (te_now e) p w2)"
proof -
  obtain tabs where tabs: "te_tabs e = Some tabs" using t by (cases "te_tabs e") (auto simp: tick_def)
  define claude where "claude = filter is_claude_tab tabs"
  define ts where "ts = map ((!) claude) (scan_order (length claude) (br_scan b))"
  have dc: "distinct (map ti_id claude)"
    using d [OF tabs] by (simp add: claude_def distinct_map_filter)
  have sub: "set ts \<subseteq> set claude" by (auto simp: ts_def scan_order_set)
  have "map ti_id ts = map ((!) (map ti_id claude)) (scan_order (length claude) (br_scan b))"
    using scan_order_set [of "length claude" "br_scan b"] by (auto simp: ts_def)
  moreover have "inj_on ((!) (map ti_id claude)) (set (scan_order (length claude) (br_scan b)))"
    using dc by (intro inj_on_nth) (auto simp: scan_order_set)
  ultimately have dts: "distinct (map ti_id ts)" by (simp add: distinct_map scan_order_distinct)
  obtain ws es k where sc: "scan_loop e ts 0 (br_watches b |` set (map ti_id claude)) [] = (ws, es, k)"
    by (metis prod_cases3)
  obtain sy br where sf: "systemic_api_freeze es (br_breaker b) (te_now e) = (sy, br)" by fastforce
  define b1 where "b1 = b\<lparr>br_watches := ws, br_scan := usize_wrap (br_scan b + k), br_breaker := br, br_systemic := sy\<rparr>"
  have tk: "(b', r) = (if es = [] then (b1, TickOk None) else send_phase e sy es b1)"
    using t tabs sc sf by (cases "es = []") (simp_all add: tick_def claude_def ts_def b1_def Let_def)
  have ne: "es \<noteq> []" using tk t(2) by (cases "es = []") simp_all
  with tk have "send_phase e sy es b1 = (b', r)" by simp
  from this ne show ?thesis
  proof (cases rule: send_phase_cases)
    case quiet
    with t(2) show ?thesis by simp
  next
    case (send q)
    have q: "q = p" using send(1) t(2) by simp
    from scan_loop_why [OF sc dts, of p] send(2) obtain t w w2 where h: "t \<in> set ts" "ti_id t = el_tab p"
        "(br_watches b |` set (map ti_id claude)) (el_tab p) = Some w" "nudge_due e t w p" "ws (el_tab p) = Some w2"
        "hash_output (w_tail w2) = el_hash p" by (auto simp: q)
    have tc: "t \<in> set tabs" "is_claude_tab t" using h(1) sub by (auto simp: claude_def)
    have "br_watches b (el_tab p) = Some w" using h(3) by (auto simp: restrict_map_def split: if_splits)
    moreover have "br_watches b' (el_tab p) = Some (record_nudge (te_now e) p w2)"
      using send(4) h(5) q by (simp add: b1_def)
    moreover have "fst (is_online (te_probe_now e) (te_answers e) (br_probe b))"
      using send(3) by (simp add: b1_def)
    ultimately show ?thesis using that tabs tc h by blast
  qed
qed

text \<open>A tab whose watch is marked with the hash of the screen it still shows is left alone.\<close>

definition settled :: "64 word \<Rightarrow> tab_watch \<Rightarrow> bool" where
  "settled h w \<longleftrightarrow> w_nudged w = Some h \<and> hash_output (w_tail w) = h"

definition shows_still :: "tick_env \<Rightarrow> rstr \<Rightarrow> 64 word \<Rightarrow> bool" where
  "shows_still e i h \<longleftrightarrow>
     (\<forall>tabs. te_tabs e = Some tabs \<longrightarrow> (\<exists>t \<in> set tabs. is_claude_tab t \<and> ti_id t = i)) \<and>
     (\<forall>body. te_fetch e i = Some body \<longrightarrow> hash_output (tail_of body) = h)"

lemma refresh_settled:
  "refresh f t w = Some w1 \<Longrightarrow> settled h w \<Longrightarrow> (\<And>body. f (ti_id t) = Some body \<Longrightarrow> hash_output (tail_of body) = h) \<Longrightarrow>
     settled h w1"
  by (auto simp: refresh_def settled_def split: if_splits option.splits)

lemma evaluate_settled:
  "evaluate_tab w1 (w_tail w1) st now = (w2, tr) \<Longrightarrow> settled h w1 \<Longrightarrow> settled h w2 \<and> tr = None"
proof -
  assume ev: "evaluate_tab w1 (w_tail w1) st now = (w2, tr)" and s: "settled h w1"
  have "tr = None"
    using evaluate_tab_cases(2) [OF ev, of "the tr"] s by (cases tr) (simp_all add: settled_def)
  then show ?thesis using evaluate_tab_cases(1) [OF ev] s by (simp add: settled_def)
qed

lemma scan_loop_settled:
  "scan_loop e ts k ws es = (ws', es', k') \<Longrightarrow> shows_still e i h \<Longrightarrow> ws i = Some w \<Longrightarrow> settled h w \<Longrightarrow>
     (\<exists>w'. ws' i = Some w' \<and> settled h w') \<and> (\<forall>p \<in> set es'. el_tab p = i \<longrightarrow> p \<in> set es)"
proof (induction e ts k ws es arbitrary: ws' es' k' w rule: scan_loop.induct)
  case (1 e k ws es)
  then show ?case by simp
next
  case (2 e t ts k ws es)
  let ?n = "te_now e" and ?i = "ti_id t"
  define w0 where "w0 = (case ws ?i of Some w \<Rightarrow> w | None \<Rightarrow> new_watch ?n)"
  show ?case
  proof (cases "refresh (te_fetch e) t w0")
    case None
    have s: "scan_loop e ts (k + 1) (ws(?i \<mapsto> w0)) es = (ws', es', k')"
      using 2(3) None by (simp add: w0_def)
    have "\<exists>v. (ws(?i \<mapsto> w0)) i = Some v \<and> settled h v" using 2(5,6) by (auto simp: w0_def)
    then show ?thesis using 2(1) [OF w0_def None s 2(4)] by blast
  next
    case (Some w1)
    obtain w2 tr where ev: "evaluate_tab w1 (w_tail w1) (ti_agent_state t) ?n = (w2, tr)" by fastforce
    define es1 where "es1 = (case tr of None \<Rightarrow> es
      | Some g \<Rightarrow> es @ [\<lparr>el_tab = ?i, el_name = ti_name t, el_trigger = g, el_hash = w_last_hash w2\<rparr>])"
    have mine: "settled h w2 \<and> tr = None" if "?i = i"
    proof -
      have w: "settled h w0" using that 2(5,6) by (simp add: w0_def)
      have "settled h w1"
        by (rule refresh_settled [OF Some w]) (use 2(4) that in \<open>simp add: shows_still_def\<close>)
      then show ?thesis by (rule evaluate_settled [OF ev])
    qed
    have w2: "\<exists>v. (ws(?i \<mapsto> w2)) i = Some v \<and> settled h v" using 2(5,6) mine by (cases "?i = i") auto
    have e1: "\<forall>p \<in> set es1. el_tab p = i \<longrightarrow> p \<in> set es"
      using mine by (cases "?i = i") (auto simp: es1_def split: option.split)
    show ?thesis
    proof (cases "tick_budget \<le> te_elapsed e (k + 1)")
      case True
      then have "ws' = ws(?i \<mapsto> w2)" "es' = es1"
        using 2(3) Some ev by (simp_all add: w0_def es1_def Let_def)
      then show ?thesis using w2 e1 by blast
    next
      case False
      then have s: "scan_loop e ts (k + 1) (ws(?i \<mapsto> w2)) es1 = (ws', es', k')"
        using 2(3) Some ev by (simp add: w0_def es1_def Let_def)
      then show ?thesis
        using 2(2) [OF w0_def Some ev [symmetric] refl refl es1_def False s 2(4)] w2 e1 by blast
    qed
  qed
qed

lemma tick_settled:
  assumes t: "tick e b = (b', r)" and st: "shows_still e i h" and w: "br_watches b i = Some w" "settled h w"
  shows "(\<exists>w'. br_watches b' i = Some w' \<and> settled h w') \<and> (\<forall>p. sent r = Some p \<longrightarrow> el_tab p \<noteq> i)"
proof (cases "te_tabs e")
  case None
  with t w show ?thesis by (auto simp: tick_def)
next
  case (Some tabs)
  define claude where "claude = filter is_claude_tab tabs"
  define ts where "ts = map ((!) claude) (scan_order (length claude) (br_scan b))"
  obtain ws es k where sc: "scan_loop e ts 0 (br_watches b |` set (map ti_id claude)) [] = (ws, es, k)"
    by (metis prod_cases3)
  obtain sy br where sf: "systemic_api_freeze es (br_breaker b) (te_now e) = (sy, br)" by fastforce
  define b1 where "b1 = b\<lparr>br_watches := ws, br_scan := usize_wrap (br_scan b + k), br_breaker := br, br_systemic := sy\<rparr>"
  have tk: "(b', r) = (if es = [] then (b1, TickOk None) else send_phase e sy es b1)"
    using t Some sc sf by (cases "es = []") (simp_all add: tick_def claude_def ts_def b1_def Let_def)
  have "i \<in> set (map ti_id claude)" using st Some by (auto simp: shows_still_def claude_def)
  then have "(br_watches b |` set (map ti_id claude)) i = Some w" using w(1) by (simp add: restrict_map_def)
  from scan_loop_settled [OF sc st this w(2)] obtain w' where w': "ws i = Some w'" "settled h w'"
    and none: "\<forall>p \<in> set es. el_tab p \<noteq> i" by auto
  show ?thesis
  proof (cases "es = []")
    case True
    then show ?thesis using tk w' by (simp add: b1_def)
  next
    case False
    with tk have "send_phase e sy es b1 = (b', r)" by simp
    from this False show ?thesis
    proof (cases rule: send_phase_cases)
      case quiet
      then show ?thesis using w' by (simp add: b1_def)
    next
      case (send p)
      then have "el_tab p \<noteq> i" using none by blast
      then show ?thesis using send(1,4) w' by (auto simp: b1_def split: option.splits)
    qed
  qed
qed

fun ticks :: "tick_env list \<Rightarrow> brain \<Rightarrow> tick_result list" where
  "ticks [] b = []"
| "ticks (e # es) b = (case tick e b of (b', r) \<Rightarrow> r # ticks es b')"

lemma ticks_settled:
  "br_watches b i = Some w \<Longrightarrow> settled h w \<Longrightarrow> list_all (\<lambda>e. shows_still e i h) es \<Longrightarrow>
     list_all (\<lambda>r. map_option el_tab (sent r) \<noteq> Some i) (ticks es b)"
proof (induction es arbitrary: b w)
  case (Cons e es)
  obtain b' r where t: "tick e b = (b', r)" by fastforce
  from tick_settled [OF t _ Cons.prems(1,2)] Cons.prems(3) obtain w' where
    "br_watches b' i = Some w'" "settled h w'" "\<forall>p. sent r = Some p \<longrightarrow> el_tab p \<noteq> i" by auto
  then show ?case using Cons.IH [of b' w'] Cons.prems(3) t by auto
qed simp

section \<open>A sample tab\<close>

definition sample_tab :: tab_info where
  "sample_tab = \<lparr>ti_id = [97], ti_name = [97], ti_agent_state = Some (lit ''error''), ti_agent_kind = Some (lit ''claude''),
     ti_session = Some [115], ti_crc = None\<rparr>"

definition solo :: "nat \<Rightarrow> rstr \<Rightarrow> bool \<Rightarrow> tick_env" where
  "solo now out ok = \<lparr>te_tabs = Some [sample_tab], te_fetch = (\<lambda>_. Some out), te_now = now, te_elapsed = (\<lambda>_. 0),
     te_probe_now = now, te_answers = [Some 204], te_post_ok = ok\<rparr>"

lemma sample_scan: "scan_output [] = None" "scan_output [65] = None"
  by (simp_all add: scan_output_def patterns_def lit_def byte_len_def utf8_def utf8_char_def scope_tail_bytes_def starts_with_def)

lemma sample_tail: "tail_of [] = []" "tail_of [65] = [65]"
  by (simp_all add: tail_of_def byte_len_def utf8_def utf8_char_def scope_tail_bytes_def)

lemma sample_hash: "hash_output [] = 0xcbf29ce484222325" "hash_output [65] = 0xAF63FC4C860222EC"
  by (simp_all add: hash_output_def utf8_def utf8_char_def fnv_step_def)

text \<open>What a tick makes of the watch of the only tab.\<close>

definition solo_watch :: "nat \<Rightarrow> rstr \<Rightarrow> tab_watch option \<Rightarrow> tab_watch \<times> trigger option" where
  "solo_watch now out w =
     evaluate_tab ((case w of None \<Rightarrow> new_watch now | Some w \<Rightarrow> w)\<lparr>w_tail := tail_of out, w_crc := None\<rparr>)
       (tail_of out) (Some (lit ''error'')) now"

lemma solo_scan:
  "scan_loop (solo now out ok) [sample_tab] 0 ws [] =
     (case solo_watch now out (ws [97]) of (w, tr) \<Rightarrow>
        (ws([97] \<mapsto> w), (case tr of None \<Rightarrow> [] | Some g \<Rightarrow> [\<lparr>el_tab = [97], el_name = [97], el_trigger = g, el_hash = w_last_hash w\<rparr>]), 1))"
  by (simp add: solo_def sample_tab_def solo_watch_def refresh_def needs_output_def tick_budget_def secs_def Let_def
      split: option.split prod.split)

lemma solo_tick:
  "tick (solo now out ok) b =
     (case solo_watch now out (br_watches b [97]) of (w, tr) \<Rightarrow>
        (let es = (case tr of None \<Rightarrow> [] | Some g \<Rightarrow> [\<lparr>el_tab = [97], el_name = [97], el_trigger = g, el_hash = w_last_hash w\<rparr>]);
             (sy, br) = systemic_api_freeze es (br_breaker b) now;
             b1 = b\<lparr>br_watches := [[97] \<mapsto> w], br_scan := usize_wrap (br_scan b + 1), br_breaker := br, br_systemic := sy\<rparr>
         in if es = [] then (b1, TickOk None) else send_phase (solo now out ok) sy es b1))"
proof -
  have f: "filter is_claude_tab [sample_tab] = [sample_tab]"
    by (simp add: is_claude_tab_def sample_tab_def)
  have o: "map ((!) [sample_tab]) (scan_order (length [sample_tab]) (br_scan b)) = [sample_tab]"
    by (simp add: scan_order_def)
  have r: "(br_watches b |` set (map ti_id [sample_tab])) [97] = br_watches b [97]"
    "(br_watches b |` set (map ti_id [sample_tab]))([97] \<mapsto> w) = [[97] \<mapsto> w]" for w
    by (auto simp: sample_tab_def restrict_map_def)
  have n: "te_tabs (solo now out ok) = Some [sample_tab]" "te_now (solo now out ok) = now" by (simp_all add: solo_def)
  show ?thesis
    unfolding tick_def n option.case f o solo_scan r Let_def
    by (simp only: prod.case_eq_if fst_conv snd_conv Let_def r)
qed

lemma solo_sel:
  "te_tabs (solo now out ok) = Some [sample_tab]" "te_fetch (solo now out ok) = (\<lambda>_. Some out)"
  "te_now (solo now out ok) = now" "te_probe_now (solo now out ok) = now" "te_answers (solo now out ok) = [Some 204]"
  "te_post_ok (solo now out ok) = ok"
  by (simp_all add: solo_def)

lemmas solo_eval = solo_tick solo_sel solo_watch_def evaluate_tab_def trigger_of_def sample_scan sample_tail sample_hash
  new_watch_def should_nudge_def secs_def stable_secs_def systemic_api_freeze_def circuit_breaker_threshold_def
  is_api_storm_label_def lit_def send_phase_def is_online_def probe_once_def probe_ttl_def pick_round_robin_def
  usize_wrap_def record_nudge_def backoff_secs_eq Let_def

definition sample_nudge :: "64 word \<Rightarrow> eligible" where
  "sample_nudge h = \<lparr>el_tab = [97], el_name = [97], el_trigger = TAgentError, el_hash = h\<rparr>"

lemma sample_run:
  "\<exists>b. brain_run [(secs 100, False, sample_nudge (hash_output [65])), (secs 20, False, sample_nudge (hash_output []))] b (secs 100)"
proof -
  obtain b1 where t1: "tick (solo 0 [] True) default_brain = (b1, TickOk None)"
    and b1: "b1 = fst (tick (solo 0 [] True) default_brain)"
    by (simp add: solo_eval default_brain_def)
  obtain b2 where t2: "tick (solo (secs 20) [] True) b1 = (b2, TickOk (Some (sample_nudge (hash_output []))))"
    and b2: "b2 = fst (tick (solo (secs 20) [] True) b1)"
    by (simp add: b1 solo_eval default_brain_def sample_nudge_def)
  obtain b3 where t3: "tick (solo (secs 30) [65] True) b2 = (b3, TickOk None)"
    and b3: "b3 = fst (tick (solo (secs 30) [65] True) b2)"
    by (simp add: b1 b2 solo_eval default_brain_def)
  obtain b4 where t4: "tick (solo (secs 100) [65] True) b3 = (b4, TickOk (Some (sample_nudge (hash_output [65]))))"
    and b4: "b4 = fst (tick (solo (secs 100) [65] True) b3)"
    by (simp add: b1 b2 b3 solo_eval default_brain_def sample_nudge_def)
  have s2: "br_systemic b2 = False" and s4: "br_systemic b4 = False"
    by (simp_all add: b1 b2 b3 b4 solo_eval default_brain_def)
  have now: "te_now (solo n out ok) = n" for n out ok by (simp add: solo_sel)
  note r1 = brain_run.tick [OF brain_run.start _ t1, unfolded now]
  note r2 = brain_run.tick [OF r1 _ t2, unfolded now]
  note r3 = brain_run.tick [OF r2 _ t3, unfolded now]
  note r4 = brain_run.tick [OF r3 _ t4, unfolded now]
  show ?thesis using r4 by (auto simp: s2 s4 secs_def)
qed

section \<open>Properties\<close>

text \<open>C28 Brain does not hammer: in any run, two nudges of one tab are at least twenty seconds apart, whatever
  the screens and errors did in between, and while the fleet is taken as capped upstream two nudges of
  any tabs are at least thirty seconds apart. No tick sends more than one.\<close>

theorem nudges_spaced:
  assumes "brain_run log b T" "i < j" "j < length log"
  shows "(el_tab (snd (snd (log ! j))) = el_tab (snd (snd (log ! i))) \<longrightarrow> fst (log ! j) + secs 20 \<le> fst (log ! i)) \<and>
    (fst (snd (log ! j)) \<and> fst (snd (log ! i)) \<longrightarrow> fst (log ! j) + secs 30 \<le> fst (log ! i))"
  using spaced_nth [OF conjunct2 [OF run_spaced [OF assms(1)]] assms(2,3)]
  by (simp add: stable_secs_def circuit_breaker_cooldown_def)

lemma nudges_spaced_witness:
  "\<exists>log b T. brain_run log b T \<and> length log = 2 \<and> fst (log ! 1) + secs 20 \<le> fst (log ! 0)"
proof -
  obtain b where r: "brain_run [(secs 100, False, sample_nudge (hash_output [65])), (secs 20, False, sample_nudge (hash_output []))] b (secs 100)"
    using sample_run by blast
  from nudges_spaced [OF r, of 0 1] r show ?thesis
    by (intro exI [of _ "[(secs 100, False, sample_nudge (hash_output [65])), (secs 20, False, sample_nudge (hash_output []))]"]
        exI [of _ b] exI [of _ "secs 100"]) (simp add: sample_nudge_def)
qed

text \<open>A tab is nudged only when it is a listed Claude session, the box is online, its screen shows a known
  error or its agent says so, and that very screen has stood for twenty seconds without being nudged
  before; for the same error the wait has passed, and the next wait doubles from a minute to a quarter
  of an hour.\<close>

theorem nudge_only_when_stuck:
  assumes "tick e b = (b', r)" "sent r = Some p" "te_tabs e = Some tabs" "distinct (map ti_id tabs)"
  shows "fst (is_online (te_probe_now e) (te_answers e) (br_probe b)) \<and>
    (\<exists>t w w'. t \<in> set tabs \<and> is_claude_tab t \<and> ti_id t = el_tab p \<and> br_watches b (el_tab p) = Some w \<and> nudge_due e t w p \<and>
       br_watches b' (el_tab p) = Some w' \<and> w_label w' = Some (trigger_label (el_trigger p)) \<and>
       w_next_at w' = Some (te_now e + secs (min (60 * 2 ^ (w_streak w' - 1)) 900)))"
proof -
  have d: "distinct (map ti_id tabs')" if "te_tabs e = Some tabs'" for tabs' using that assms(3,4) by simp
  show ?thesis
  proof (rule tick_sent [OF assms(1,2) d])
    fix tabs' t w w2
    assume h: "te_tabs e = Some tabs'" "t \<in> set tabs'" "is_claude_tab t" "ti_id t = el_tab p" "br_watches b (el_tab p) = Some w"
      "nudge_due e t w p" "fst (is_online (te_probe_now e) (te_answers e) (br_probe b))"
      "br_watches b' (el_tab p) = Some (record_nudge (te_now e) p w2)"
    then show ?thesis using assms(3)
      by (intro conjI exI [of _ t] exI [of _ w] exI [of _ "record_nudge (te_now e) p w2"])
        (simp_all add: record_nudge_def backoff_secs_eq Let_def)
  qed
qed

lemma nudge_only_when_stuck_witness:
  "\<exists>b b' p w'. tick (solo (secs 20) [] True) b = (b', TickOk (Some p)) \<and> br_watches b' (el_tab p) = Some w' \<and>
     w_next_at w' = Some (secs 20 + secs 60)"
proof -
  define b1 where "b1 = fst (tick (solo 0 [] True) default_brain)"
  obtain b2 where t2: "tick (solo (secs 20) [] True) b1 = (b2, TickOk (Some (sample_nudge (hash_output []))))"
    and w2: "br_watches b2 [97] \<noteq> None \<and> w_streak (the (br_watches b2 [97])) = 1"
    by (simp add: b1_def solo_eval default_brain_def sample_nudge_def)
  have t: "te_tabs (solo (secs 20) [] True) = Some [sample_tab]" "te_now (solo (secs 20) [] True) = secs 20"
    by (simp_all add: solo_sel)
  from nudge_only_when_stuck [OF t2 _ t(1), of "sample_nudge (hash_output [])"] t2 w2 t(2) show ?thesis
    by (intro exI [of _ b1] exI [of _ b2] exI [of _ "sample_nudge (hash_output [])"]) (auto simp: sample_nudge_def)
qed

text \<open>A nudge whose request fails is never made up for: the screen is marked as nudged before the request
  goes out, so as long as the tab keeps showing that screen no later tick sends to it.\<close>

theorem failed_send_not_retried:
  assumes "tick e b = (b', TickFailed (Some p))" "te_tabs e = Some tabs" "distinct (map ti_id tabs)"
    and "list_all (\<lambda>e'. shows_still e' (el_tab p) (el_hash p)) es"
  shows "list_all (\<lambda>r. map_option el_tab (sent r) \<noteq> Some (el_tab p)) (ticks es b')"
proof -
  have d: "distinct (map ti_id tabs')" if "te_tabs e = Some tabs'" for tabs' using that assms(2,3) by simp
  have s: "sent (TickFailed (Some p)) = Some p" by simp
  show ?thesis
  proof (rule tick_sent [OF assms(1) s d])
    fix w2 assume "hash_output (w_tail w2) = el_hash p" "br_watches b' (el_tab p) = Some (record_nudge (te_now e) p w2)"
    then show ?thesis using assms(4)
      by (intro ticks_settled) (auto simp: settled_def record_nudge_def Let_def)
  qed
qed

lemma failed_send_not_retried_witness:
  "\<exists>b b' p. tick (solo (secs 20) [] False) b = (b', TickFailed (Some p)) \<and>
     list_all (\<lambda>r. map_option el_tab (sent r) \<noteq> Some (el_tab p)) (ticks [solo (secs 9000) [] True] b')"
proof -
  define b1 where "b1 = fst (tick (solo 0 [] True) default_brain)"
  obtain b2 where t2: "tick (solo (secs 20) [] False) b1 = (b2, TickFailed (Some (sample_nudge (hash_output []))))"
    by (simp add: b1_def solo_eval default_brain_def sample_nudge_def)
  have t: "te_tabs (solo (secs 20) [] False) = Some [sample_tab]" by (simp add: solo_sel)
  have s: "list_all (\<lambda>e'. shows_still e' [97] (hash_output [])) [solo (secs 9000) [] True]"
    by (simp add: shows_still_def solo_sel sample_tail is_claude_tab_def sample_tab_def)
  from failed_send_not_retried [OF t2 t, of "[solo (secs 9000) [] True]"] t2 s show ?thesis
    by (intro exI [of _ b1] exI [of _ b2] exI [of _ "sample_nudge (hash_output [])"]) (simp add: sample_nudge_def)
qed

text \<open>The time budget of a tick does not bound failing requests: a tab whose output cannot be fetched is
  passed over without looking at the clock, so when every fetch fails the scan goes through the whole
  fleet, however long each request takes.\<close>

theorem failed_fetches_ignore_budget:
  assumes "te_tabs e = Some tabs" "\<forall>t \<in> set tabs. ti_crc t = None \<and> te_fetch e (ti_id t) = None"
  shows "br_scan (fst (tick e b)) = usize_wrap (br_scan b + length (filter is_claude_tab tabs))"
proof -
  define claude where "claude = filter is_claude_tab tabs"
  define ts where "ts = map ((!) claude) (scan_order (length claude) (br_scan b))"
  have "set ts \<subseteq> set claude" by (auto simp: ts_def scan_order_set)
  then have sub: "set ts \<subseteq> set tabs" by (auto simp: claude_def)
  have len: "length ts = length claude" by (simp add: ts_def scan_order_length)
  have all: "scan_loop e us k ws es = (fst (scan_loop e us k ws es), es, k + length us)" if "set us \<subseteq> set tabs" for us k ws es
    using that
  proof (induction us arbitrary: k ws)
    case (Cons u us)
    then show ?case
      using assms(2) Cons.IH [of "k + 1"] by (simp add: refresh_def needs_output_def Let_def split: option.split prod.splits)
  qed simp
  have tabs: "te_tabs e = Some tabs" by (rule assms(1))
  obtain ws where sc: "scan_loop e ts 0 (br_watches b |` set (map ti_id claude)) [] = (ws, [], length ts)"
    using all [OF sub, of 0 "br_watches b |` set (map ti_id claude)" "[]"] by (metis add_0)
  have "br_scan (fst (tick e b)) = usize_wrap (br_scan b + length ts)"
    unfolding tick_def tabs option.case Let_def claude_def [symmetric] ts_def [symmetric] sc
    by (simp split: prod.split)
  then show ?thesis by (simp add: len claude_def)
qed

lemma failed_fetches_ignore_budget_witness:
  "br_scan (fst (tick ((solo 5 [] True)\<lparr>te_tabs := Some [sample_tab, sample_tab\<lparr>ti_id := [98]\<rparr>], te_fetch := Map.empty,
     te_elapsed := \<lambda>k. secs (3 * k)\<rparr>) default_brain)) = usize_wrap (0 + length [sample_tab, sample_tab\<lparr>ti_id := [98]\<rparr>])"
proof -
  let ?ts = "[sample_tab, sample_tab\<lparr>ti_id := [98]\<rparr>]"
  have f: "filter is_claude_tab ?ts = ?ts" by (simp add: is_claude_tab_def sample_tab_def)
  have s: "br_scan default_brain = 0" by (simp add: default_brain_def)
  show ?thesis
    by (rule failed_fetches_ignore_budget [of _ ?ts default_brain, unfolded f s]) (simp_all add: sample_tab_def)
qed

end
