(* ===== verification/Providers.thy ===== *)
theory Providers
  imports Choice
begin

text \<open>
  Where the proxy can send a request, \<^verbatim>\<open>src/crates/tab-atelier-proxy/src/provider.rs\<close>: classes, prices
  and their peak hours, credentials, providers with what makes one unusable, and the registry with its
  candidate lists, its billing rate and its edits. What the host knows (environment, key files, the
  Claude login) is a record the decisions read.
\<close>

section \<open>Classes\<close>

datatype cls = Fast | Balanced | Heavy

fun cls_rank :: "cls \<Rightarrow> nat" where
  "cls_rank Fast = 0"
| "cls_rank Balanced = 1"
| "cls_rank Heavy = 2"

text \<open>The derived order: variants in the order they are declared.\<close>

instantiation cls :: linorder
begin

definition less_eq_cls :: "cls \<Rightarrow> cls \<Rightarrow> bool" where
  "less_eq_cls a b \<longleftrightarrow> cls_rank a \<le> cls_rank b"

definition less_cls :: "cls \<Rightarrow> cls \<Rightarrow> bool" where
  "less_cls a b \<longleftrightarrow> cls_rank a < cls_rank b"

instance
proof
  fix a b :: cls
  show "a \<le> b \<Longrightarrow> b \<le> a \<Longrightarrow> a = b" by (cases a; cases b) (simp_all add: less_eq_cls_def)
qed (auto simp: less_eq_cls_def less_cls_def)

end

fun cheaper :: "cls \<Rightarrow> cls option" where
  "cheaper Heavy = Some Balanced"
| "cheaper Balanced = Some Fast"
| "cheaper Fast = None"

lemma cheaper_less: "cheaper c = Some c' \<Longrightarrow> c' < c"
  by (cases c) (auto simp: less_cls_def)

lemma cheaper_next: "cheaper c = Some c' \<Longrightarrow> d < c \<Longrightarrow> d \<le> c'"
  by (cases c; cases d) (auto simp: less_cls_def less_eq_cls_def)

lemma cheaper_None: "cheaper c = None \<Longrightarrow> d \<le> c \<Longrightarrow> d = c"
  by (cases c; cases d) (auto simp: less_eq_cls_def)

section \<open>Addresses and credentials\<close>

text \<open>\<^verbatim>\<open>str::split_once\<close> on a text.\<close>

fun split_at_text :: "rstr \<Rightarrow> rstr \<Rightarrow> (rstr \<times> rstr) option" where
  "split_at_text sep [] = (if sep = [] then Some ([], []) else None)"
| "split_at_text sep (x # xs) =
     (case strip_prefix sep (x # xs) of
        Some rest \<Rightarrow> Some ([], rest)
      | None \<Rightarrow> map_option (\<lambda>(a, b). (x # a, b)) (split_at_text sep xs))"

definition host_of :: "rstr \<Rightarrow> rstr" where
  "host_of url =
     (let after = (case split_at_text (lit ''://'') url of
                     None \<Rightarrow> url
                   | Some (_, rest) \<Rightarrow> (case split_at_text (lit ''://'') rest of None \<Rightarrow> rest | Some (a, _) \<Rightarrow> a));
          authority = takeWhile (\<lambda>c. c \<noteq> 47 \<and> c \<noteq> 63 \<and> c \<noteq> 35) after
      in to_ascii_lowercase (trim_end_matches 46 authority))"

definition anthropic_base :: rstr where
  "anthropic_base = lit ''https://api.anthropic.com''"

datatype wire = Anthropic | Openai

datatype auth = ClaudeOauth | ApiKeyEnv rstr | ApiKeyFile rstr

text \<open>
  The host: the environment, the texts and the lengths of files that can be read, and whether the
  Claude login is there.
\<close>

record host =
  h_get :: "rstr \<Rightarrow> rstr option"
  h_file :: "rstr \<Rightarrow> rstr option"
  h_file_len :: "rstr \<Rightarrow> nat option"
  h_subscription :: bool

datatype secret_error = ByEgress | NoCredential rstr | CannotRead rstr | EmptyKey rstr

definition secret_with :: "host \<Rightarrow> auth \<Rightarrow> secret_error + rstr" where
  "secret_with h a =
     (case a of
        ClaudeOauth \<Rightarrow> Inl ByEgress
      | ApiKeyEnv var \<Rightarrow>
          (case h_get h var of
             Some k \<Rightarrow> if trim k \<noteq> [] then Inr k else Inl (NoCredential var)
           | None \<Rightarrow> Inl (NoCredential var))
      | ApiKeyFile path \<Rightarrow>
          (case h_file h path of
             None \<Rightarrow> Inl (CannotRead path)
           | Some raw \<Rightarrow> if trim raw = [] then Inl (EmptyKey path) else Inr (trim raw)))"

definition mask_secret :: "rstr \<Rightarrow> rstr" where
  "mask_secret key =
     (let chars = trim key
      in if length chars < 16 then lit ''*****''
         else take 8 chars @ lit ''*****'' @ drop (length chars - 4) chars)"

definition masked_with :: "host \<Rightarrow> auth \<Rightarrow> rstr option" where
  "masked_with h a = (case secret_with h a of Inl _ \<Rightarrow> None | Inr k \<Rightarrow> Some (mask_secret k))"

definition accepts_a_key :: "auth \<Rightarrow> bool" where
  "accepts_a_key a = (case a of ApiKeyFile _ \<Rightarrow> True | _ \<Rightarrow> False)"

section \<open>Prices\<close>

record price =
  pr_cache_hit :: nat
  pr_input :: nat
  pr_output :: nat

definition u32_sat_mul :: "nat \<Rightarrow> nat \<Rightarrow> nat" where
  "u32_sat_mul a b = min (a * b) (2 ^ 32 - 1)"

definition scaled :: "nat \<Rightarrow> price \<Rightarrow> price" where
  "scaled percent p =
     \<lparr>pr_cache_hit = u32_sat_mul (pr_cache_hit p) percent div 100,
      pr_input = u32_sat_mul (pr_input p) percent div 100,
      pr_output = u32_sat_mul (pr_output p) percent div 100\<rparr>"

text \<open>Rates below \<open>2 ^ 32\<close> times token counts below \<open>2 ^ 64\<close> stay far inside the 128-bit accumulator.\<close>

definition split_micro :: "price \<Rightarrow> nat \<Rightarrow> nat \<Rightarrow> nat \<Rightarrow> nat \<times> nat" where
  "split_micro p cache_read input output =
     (let hit = pr_cache_hit p * cache_read;
          miss = pr_input p * input;
          out = pr_output p * output
      in ((hit + miss) div 1000000, out div 1000000))"

definition cost_micro :: "price \<Rightarrow> nat \<Rightarrow> nat \<Rightarrow> nat \<Rightarrow> nat" where
  "cost_micro p cache_read input output =
     (let (input_side, output_side) = split_micro p cache_read input output in input_side + output_side)"

record tool_price =
  tp_web_search :: nat
  tp_web_fetch :: nat
  tp_free_until :: "nat option"

definition published_for :: "rstr \<Rightarrow> tool_price option" where
  "published_for base_url =
     (let rest = (case split_at_text (lit ''://'') base_url of None \<Rightarrow> base_url | Some (_, r) \<Rightarrow> r);
          host = takeWhile (\<lambda>c. c \<noteq> 58) (takeWhile (\<lambda>c. c \<noteq> 47) rest)
      in if host = lit ''api.deepseek.com''
         then Some \<lparr>tp_web_search = 750, tp_web_fetch = 750, tp_free_until = Some 1793469600\<rparr> else None)"

definition charge_micro :: "tool_price \<Rightarrow> nat \<Rightarrow> nat \<Rightarrow> nat \<Rightarrow> nat option" where
  "charge_micro p searches fetches at =
     (if searches = 0 \<and> fetches = 0 then None
      else if (case tp_free_until p of Some until \<Rightarrow> at < until | None \<Rightarrow> False) then Some 0
      else (let micro = searches * tp_web_search p + fetches * tp_web_fetch p
            in if micro < 2 ^ 127 then Some micro else None))"

definition server_tool_charge_micro :: "tool_price option \<Rightarrow> nat \<Rightarrow> nat \<Rightarrow> nat \<Rightarrow> nat option" where
  "server_tool_charge_micro p searches fetches at =
     (if searches = 0 \<and> fetches = 0 then Some 0
      else Option.bind p (\<lambda>p. charge_micro p searches fetches at))"

section \<open>Peak hours\<close>

text \<open>A civil date is its number of days since 1970-01-01; weekdays run from 1, Monday, to 7.\<close>

record peak_window =
  pw_weekdays :: "nat list"
  pw_start_hour :: nat
  pw_end_hour :: nat

record holiday =
  hd_name :: rstr
  hd_dates :: "nat list"

record peak =
  pk_multiplier :: nat
  pk_windows :: "peak_window list"
  pk_holidays :: "holiday list"

text \<open>The last second \<^verbatim>\<open>jiff::Timestamp::from_second\<close> accepts.\<close>

definition last_timestamp :: nat where
  "last_timestamp = 253402207200"

definition beijing_date :: "nat \<Rightarrow> nat" where
  "beijing_date s = (s + 8 * 3600) div 86400"

definition holiday_at :: "peak \<Rightarrow> nat \<Rightarrow> rstr option" where
  "holiday_at p s =
     (if last_timestamp < s then None
      else map_option hd_name (find (\<lambda>h. beijing_date s \<in> set (hd_dates h)) (pk_holidays p)))"

definition utc_weekday :: "nat \<Rightarrow> nat" where
  "utc_weekday s = (s div 86400 + 3) mod 7 + 1"

definition utc_hour :: "nat \<Rightarrow> nat" where
  "utc_hour s = s div 3600 mod 24"

text \<open>An hour that does not fit \<^verbatim>\<open>i8\<close> reads 24 as a start and 0 as an end.\<close>

definition in_window :: "nat \<Rightarrow> peak_window \<Rightarrow> bool" where
  "in_window s w \<longleftrightarrow>
     utc_weekday s \<in> set (pw_weekdays w) \<and>
     (if pw_start_hour w \<le> 127 then pw_start_hour w else 24) \<le> utc_hour s \<and>
     utc_hour s < (if pw_end_hour w \<le> 127 then pw_end_hour w else 0)"

definition active_at :: "peak \<Rightarrow> nat \<Rightarrow> bool" where
  "active_at p s =
     (if pk_holidays p \<noteq> [] \<and> holiday_at p s \<noteq> None then False
      else if last_timestamp < s then False
      else list_ex (in_window s) (pk_windows p))"

fun until_loop :: "peak \<Rightarrow> nat \<Rightarrow> nat \<Rightarrow> nat option" where
  "until_loop p 0 at = None"
| "until_loop p (Suc k) at = (if \<not> active_at p at then Some at else until_loop p k (at + 3600))"

definition active_until :: "peak \<Rightarrow> nat \<Rightarrow> nat option" where
  "active_until p s =
     (if \<not> active_at p s then None else until_loop p (24 * 8) ((s div 3600 + 1) * 3600))"

definition price_with_peak :: "price \<Rightarrow> peak option \<Rightarrow> nat \<Rightarrow> price" where
  "price_with_peak price pk s =
     (case pk of
        Some p \<Rightarrow> if active_at p s then scaled (pk_multiplier p) price else price
      | None \<Rightarrow> price)"

section \<open>Models and providers\<close>

record model =
  md_id :: rstr
  md_class :: cls
  md_relative_cost :: nat
  md_price :: "price option"
  md_deprecated :: bool
  md_note :: "rstr option"
  md_context_window :: nat

definition default_context_window :: nat where
  "default_context_window = 1048576"

definition new_model :: "rstr \<Rightarrow> cls \<Rightarrow> nat \<Rightarrow> model" where
  "new_model i c cost =
     \<lparr>md_id = i, md_class = c, md_relative_cost = cost, md_price = None, md_deprecated = False,
      md_note = None, md_context_window = default_context_window\<rparr>"

definition with_context :: "nat \<Rightarrow> model \<Rightarrow> model" where
  "with_context w m = m\<lparr>md_context_window := w\<rparr>"

definition priced :: "nat \<Rightarrow> nat \<Rightarrow> nat \<Rightarrow> model \<Rightarrow> model" where
  "priced hit input output m =
     m\<lparr>md_price := Some \<lparr>pr_cache_hit = hit, pr_input = input, pr_output = output\<rparr>\<rparr>"

definition retiring :: "rstr \<Rightarrow> cls \<Rightarrow> nat \<Rightarrow> rstr \<Rightarrow> model" where
  "retiring i c cost why = (new_model i c cost)\<lparr>md_deprecated := True, md_note := Some why\<rparr>"

record provider =
  pv_id :: rstr
  pv_wire :: wire
  pv_base_url :: rstr
  pv_auth :: auth
  pv_models :: "model list"
  pv_preference :: int
  pv_enabled :: bool
  pv_peak :: "peak option"
  pv_server_tools :: "tool_price option"
  pv_user_id :: "rstr option"

definition cost_at :: "provider \<Rightarrow> model \<Rightarrow> nat \<Rightarrow> nat" where
  "cost_at p m now =
     (case pv_peak p of
        Some pk \<Rightarrow> if active_at pk now then u32_sat_mul (md_relative_cost m) (pk_multiplier pk) div 100
                   else md_relative_cost m
      | None \<Rightarrow> md_relative_cost m)"

definition serves :: "provider \<Rightarrow> rstr \<Rightarrow> model option" where
  "serves p i = find (\<lambda>m. md_id m = i \<and> \<not> md_deprecated m) (pv_models p)"

definition price_at :: "provider \<Rightarrow> model \<Rightarrow> nat \<Rightarrow> price option" where
  "price_at p m now = map_option (\<lambda>pr. price_with_peak pr (pv_peak p) now) (md_price m)"

definition server_tool_price :: "provider \<Rightarrow> tool_price option" where
  "server_tool_price p =
     (case pv_server_tools p of Some t \<Rightarrow> Some t | None \<Rightarrow> published_for (pv_base_url p))"

text \<open>\<^verbatim>\<open>min_by_key\<close>: the first of the least.\<close>

definition min_by_key :: "('a \<Rightarrow> 'b::linorder) \<Rightarrow> ('a \<Rightarrow> bool) \<Rightarrow> 'a list \<Rightarrow> 'a option" where
  "min_by_key key P xs = choose_best (\<lambda>a b. key a < key b) P xs"

definition model_for :: "provider \<Rightarrow> cls \<Rightarrow> nat \<Rightarrow> model option" where
  "model_for p c now = min_by_key (\<lambda>m. cost_at p m now) (\<lambda>m. md_class m = c \<and> \<not> md_deprecated m) (pv_models p)"

definition uses_the_subscription :: "provider \<Rightarrow> bool" where
  "uses_the_subscription p = (case pv_auth p of ClaudeOauth \<Rightarrow> True | _ \<Rightarrow> False)"

text \<open>Why a provider cannot be used; a constructor for each message of the source.\<close>

datatype refusal =
    EmptyUserId
  | LongUserId nat
  | BadUserIdChar rchar
  | UserIdOnSubscription
  | LeaksToken rstr
  | SwitchedOff
  | MissingCredential

definition is_ascii_alphanumeric :: "rchar \<Rightarrow> bool" where
  "is_ascii_alphanumeric c \<longleftrightarrow> (48 \<le> c \<and> c \<le> 57) \<or> (65 \<le> c \<and> c \<le> 90) \<or> (97 \<le> c \<and> c \<le> 122)"

definition user_id_refusal :: "provider \<Rightarrow> refusal option" where
  "user_id_refusal p =
     (case pv_user_id p of
        None \<Rightarrow> None
      | Some i \<Rightarrow>
          if i = [] then Some EmptyUserId
          else if 512 < byte_len i then Some (LongUserId (byte_len i))
          else map_option BadUserIdChar (find (\<lambda>c. \<not> (is_ascii_alphanumeric c \<or> c = 45 \<or> c = 95)) i))"

definition unusable_reason :: "provider \<Rightarrow> refusal option" where
  "unusable_reason p =
     (case user_id_refusal p of
        Some why \<Rightarrow> Some why
      | None \<Rightarrow>
          (case pv_auth p of
             ClaudeOauth \<Rightarrow>
               if pv_user_id p \<noteq> None then Some UserIdOnSubscription
               else if host_of (pv_base_url p) \<noteq> host_of anthropic_base then Some (LeaksToken (host_of (pv_base_url p)))
               else None
           | _ \<Rightarrow> None))"

definition credential_ready_with :: "host \<Rightarrow> provider \<Rightarrow> bool" where
  "credential_ready_with h p =
     (if unusable_reason p \<noteq> None then False
      else (case pv_auth p of
              ClaudeOauth \<Rightarrow> h_subscription h
            | ApiKeyEnv var \<Rightarrow> (case h_get h var of Some v \<Rightarrow> trim v \<noteq> [] | None \<Rightarrow> False)
            | ApiKeyFile path \<Rightarrow> (case h_file_len h path of Some n \<Rightarrow> 0 < n | None \<Rightarrow> False)))"

definition usable_with :: "host \<Rightarrow> provider \<Rightarrow> bool" where
  "usable_with h p \<longleftrightarrow> pv_enabled p \<and> credential_ready_with h p"

definition refusal_with :: "host \<Rightarrow> provider \<Rightarrow> refusal option" where
  "refusal_with h p =
     (if \<not> pv_enabled p then Some SwitchedOff
      else case unusable_reason p of
             Some why \<Rightarrow> Some why
           | None \<Rightarrow> if \<not> credential_ready_with h p then Some MissingCredential else None)"

definition has_no_recorded_rate :: "provider \<Rightarrow> bool" where
  "has_no_recorded_rate p \<longleftrightarrow> \<not> list_ex (\<lambda>m. \<not> md_deprecated m \<and> md_price m \<noteq> None) (pv_models p)"

section \<open>The registry\<close>

record provider_registry =
  rg_providers :: "provider list"

definition default_registry :: provider_registry where
  "default_registry =
     \<lparr>rg_providers =
        [\<lparr>pv_id = lit ''anthropic'', pv_wire = Anthropic, pv_base_url = anthropic_base, pv_auth = ClaudeOauth,
          pv_models =
            [new_model (lit ''claude-haiku-5-5'') Fast 10, new_model (lit ''claude-sonnet-5-5'') Balanced 200,
             new_model (lit ''claude-opus-5-5'') Heavy 400, new_model (lit ''claude-fable-5-1'') Heavy 1000],
          pv_preference = 0, pv_enabled = True, pv_peak = None, pv_server_tools = None, pv_user_id = None\<rparr>]\<rparr>"

definition get_provider :: "provider_registry \<Rightarrow> rstr \<Rightarrow> provider option" where
  "get_provider r i = find (\<lambda>p. pv_id p = i) (rg_providers r)"

definition all_models :: "provider_registry \<Rightarrow> model list" where
  "all_models r = concat (map pv_models (rg_providers r))"

definition eq_ignore_ascii_case :: "rstr \<Rightarrow> rstr \<Rightarrow> bool" where
  "eq_ignore_ascii_case a b \<longleftrightarrow> to_ascii_lowercase a = to_ascii_lowercase b"

definition canonical_model :: "provider_registry \<Rightarrow> rstr \<Rightarrow> rstr option" where
  "canonical_model r wanted =
     map_option md_id (find (\<lambda>m. \<not> md_deprecated m \<and> eq_ignore_ascii_case (md_id m) wanted) (all_models r))"

definition families :: "(rstr \<times> cls) list" where
  "families = [(lit ''fable'', Heavy), (lit ''opus'', Heavy), (lit ''sonnet'', Balanced), (lit ''haiku'', Fast)]"

definition class_of :: "provider_registry \<Rightarrow> rstr \<Rightarrow> cls option" where
  "class_of r model =
     (case find (\<lambda>m. md_id m = model) (all_models r) of
        Some m \<Rightarrow> Some (md_class m)
      | None \<Rightarrow> map_option snd (find (\<lambda>(needle, c). str_contains (to_ascii_lowercase model) needle) families))"

definition subscription_usable_with :: "host \<Rightarrow> provider_registry \<Rightarrow> bool" where
  "subscription_usable_with h r \<longleftrightarrow> list_ex (\<lambda>p. uses_the_subscription p \<and> usable_with h p) (rg_providers r)"

text \<open>\<^verbatim>\<open>sort_by_key\<close> is stable, as \<open>sort_key\<close> is: ties keep the registry's order.\<close>

definition route_key :: "nat \<Rightarrow> provider \<times> model \<Rightarrow> int \<times> nat" where
  "route_key now = (\<lambda>(p, m). (pv_preference p, cost_at p m now))"

definition allowed_providers :: "host \<Rightarrow> rstr option \<Rightarrow> provider_registry \<Rightarrow> provider list" where
  "allowed_providers h pinned r =
     filter (\<lambda>p. pv_enabled p \<and> credential_ready_with h p \<and> (case pinned of None \<Rightarrow> True | Some i \<Rightarrow> pv_id p = i))
       (rg_providers r)"

definition candidates_pinned :: "host \<Rightarrow> nat \<Rightarrow> rstr option \<Rightarrow> cls \<Rightarrow> provider_registry \<Rightarrow> (provider \<times> model) list" where
  "candidates_pinned h now pinned c r =
     sort_key (route_key now)
       (List.map_filter (\<lambda>p. map_option (Pair p) (model_for p c now)) (allowed_providers h pinned r))"

definition providers_serving :: "host \<Rightarrow> nat \<Rightarrow> rstr option \<Rightarrow> rstr \<Rightarrow> provider_registry \<Rightarrow> (provider \<times> model) list" where
  "providers_serving h now pinned i r =
     sort_key (route_key now)
       (List.map_filter (\<lambda>p. map_option (Pair p) (serves p i)) (allowed_providers h pinned r))"

definition context_window :: "provider_registry \<Rightarrow> rstr \<Rightarrow> rstr \<Rightarrow> nat" where
  "context_window r provider_id model_id =
     (case Option.bind (get_provider r provider_id) (\<lambda>p. serves p model_id) of
        None \<Rightarrow> default_context_window
      | Some m \<Rightarrow> md_context_window m)"

record rate =
  rt_price :: price
  rt_peak :: "peak option"
  rt_model :: rstr

definition rate_at :: "rate \<Rightarrow> nat \<Rightarrow> price" where
  "rate_at r s = price_with_peak (rt_price r) (rt_peak r) s"

definition billable :: "model \<Rightarrow> bool" where
  "billable m \<longleftrightarrow> \<not> md_deprecated m \<and> md_price m \<noteq> None"

definition rate_of :: "provider \<Rightarrow> model \<Rightarrow> rate option" where
  "rate_of p m = map_option (\<lambda>pr. \<lparr>rt_price = pr, rt_peak = pv_peak p, rt_model = md_id m\<rparr>) (md_price m)"

definition billing_price :: "provider_registry \<Rightarrow> rstr option \<Rightarrow> rstr option \<Rightarrow> rate option" where
  "billing_price r provider_pin model_pin =
     (let provider =
            (case provider_pin of
               Some i \<Rightarrow> find (\<lambda>p. pv_id p = i \<and> pv_enabled p) (rg_providers r)
             | None \<Rightarrow> min_by_key pv_preference (\<lambda>p. pv_enabled p \<and> list_ex billable (pv_models p)) (rg_providers r))
      in case provider of
           None \<Rightarrow> None
         | Some p \<Rightarrow>
             (let default = Option.bind (min_by_key md_relative_cost billable (pv_models p)) (rate_of p)
              in case model_pin of
                   None \<Rightarrow> default
                 | Some i \<Rightarrow>
                     (case find (\<lambda>m. md_id m = i \<and> billable m) (pv_models p) of
                        Some m \<Rightarrow> rate_of p m
                      | None \<Rightarrow> default)))"

section \<open>Editing the registry\<close>

fun update_first :: "('a \<Rightarrow> bool) \<Rightarrow> ('a \<Rightarrow> 'a) \<Rightarrow> 'a list \<Rightarrow> 'a list" where
  "update_first P f [] = []"
| "update_first P f (x # xs) = (if P x then f x # xs else x # update_first P f xs)"

definition upsert :: "provider \<Rightarrow> provider_registry \<Rightarrow> provider_registry" where
  "upsert p r =
     (if list_ex (\<lambda>q. pv_id q = pv_id p) (rg_providers r)
      then \<lparr>rg_providers = update_first (\<lambda>q. pv_id q = pv_id p) (\<lambda>_. p) (rg_providers r)\<rparr>
      else \<lparr>rg_providers = rg_providers r @ [p]\<rparr>)"

definition remove_provider :: "rstr \<Rightarrow> provider_registry \<Rightarrow> bool \<times> provider_registry" where
  "remove_provider i r =
     (let kept = filter (\<lambda>p. pv_id p \<noteq> i) (rg_providers r)
      in (length kept \<noteq> length (rg_providers r), \<lparr>rg_providers = kept\<rparr>))"

datatype name_error = NeedsName | LongName | BadNameChar rchar | NoLetterOrDigit | OuterSpace | LeadingDash

definition validate_provider_id :: "rstr \<Rightarrow> name_error + unit" where
  "validate_provider_id i =
     (if i = [] then Inl NeedsName
      else if 64 < byte_len i then Inl LongName
      else case find (\<lambda>c. \<not> (is_ascii_alphanumeric c \<or> c = 32 \<or> c = 45 \<or> c = 95)) i of
             Some bad \<Rightarrow> Inl (BadNameChar bad)
           | None \<Rightarrow>
               if \<not> list_ex is_ascii_alphanumeric i then Inl NoLetterOrDigit
               else if hd i = 32 \<or> last i = 32 then Inl OuterSpace
               else if hd i = 45 then Inl LeadingDash
               else Inr ())"

datatype rename_error = BadName name_error | NoSuchProvider rstr | NameTaken rstr

definition rename_provider :: "rstr \<Rightarrow> rstr \<Rightarrow> rstr \<Rightarrow> provider_registry \<Rightarrow> (rename_error + unit) \<times> provider_registry" where
  "rename_provider from to new_key_path r =
     (if from = to then (Inr (), r)
      else case validate_provider_id to of
             Inl e \<Rightarrow> (Inl (BadName e), r)
           | Inr _ \<Rightarrow>
               if \<not> list_ex (\<lambda>p. pv_id p = from) (rg_providers r) then (Inl (NoSuchProvider from), r)
               else if list_ex (\<lambda>p. pv_id p = to) (rg_providers r) then (Inl (NameTaken to), r)
               else (Inr (),
                 \<lparr>rg_providers =
                    update_first (\<lambda>p. pv_id p = from)
                      (\<lambda>p. p\<lparr>pv_id := to,
                            pv_auth := (case pv_auth p of ApiKeyFile _ \<Rightarrow> ApiKeyFile new_key_path | a \<Rightarrow> a)\<rparr>)
                      (rg_providers r)\<rparr>))"

section \<open>Choosing by key\<close>

interpretation keyed: strict_choice "\<lambda>a b. key a < key b" "\<lambda>_. True" for key :: "'a \<Rightarrow> 'b::linorder"
  by unfold_locales auto

lemma min_by_key_Some:
  "min_by_key key P xs = Some x \<Longrightarrow> x \<in> set xs \<and> P x \<and> (\<forall>y \<in> set xs. P y \<longrightarrow> key x \<le> key y)"
  unfolding min_by_key_def
  using choose_best_in [of "\<lambda>a b. key a < key b" P xs x] keyed.choose_best_max [of key P xs x] by fastforce

lemma min_by_key_None: "min_by_key key P xs = None \<longleftrightarrow> (\<forall>x \<in> set xs. \<not> P x)"
  by (simp add: min_by_key_def choose_best_None)

text \<open>The first match of a sorted list is a least match.\<close>

lemma find_sort_key:
  assumes "find P (sort_key k xs) = Some x"
  shows "x \<in> set xs \<and> P x \<and> (\<forall>y \<in> set xs. P y \<longrightarrow> k x \<le> k y)"
proof -
  have "sorted (map k ys) \<Longrightarrow> find P ys = Some x \<Longrightarrow> x \<in> set ys \<and> P x \<and> (\<forall>y \<in> set ys. P y \<longrightarrow> k x \<le> k y)" for ys
    by (induction ys) (auto split: if_splits)
  from this [of "sort_key k xs"] assms show ?thesis by simp
qed

lemma find_sort_key_None: "find P (sort_key k xs) = None \<longleftrightarrow> (\<forall>x \<in> set xs. \<not> P x)"
  by (auto simp: find_None_iff)

lemma hd_sort_key:
  assumes "xs \<noteq> []"
  shows "hd (sort_key k xs) \<in> set xs \<and> (\<forall>y \<in> set xs. k (hd (sort_key k xs)) \<le> k y)"
proof -
  have ne: "sort_key k xs \<noteq> []" using assms by (metis set_empty set_sort)
  have "find (\<lambda>_. True) (sort_key k xs) = Some (hd (sort_key k xs))" using ne by (cases "sort_key k xs") auto
  from find_sort_key [OF this] show ?thesis by simp
qed

lemma set_map_filter: "set (List.map_filter f xs) = {y. \<exists>x \<in> set xs. f x = Some y}"
  by (auto simp: map_filter_def image_iff) (metis option.sel option.distinct(1))+

lemma model_for_Some:
  "model_for p c now = Some m \<Longrightarrow>
     m \<in> set (pv_models p) \<and> md_class m = c \<and> \<not> md_deprecated m \<and>
     (\<forall>m' \<in> set (pv_models p). md_class m' = c \<longrightarrow> \<not> md_deprecated m' \<longrightarrow> cost_at p m now \<le> cost_at p m' now)"
  unfolding model_for_def by (drule min_by_key_Some) blast

lemma model_for_None: "model_for p c now = None \<longleftrightarrow> (\<forall>m \<in> set (pv_models p). md_class m = c \<longrightarrow> md_deprecated m)"
  by (auto simp: model_for_def min_by_key_None)

lemma serves_Some: "serves p i = Some m \<Longrightarrow> m \<in> set (pv_models p) \<and> md_id m = i \<and> \<not> md_deprecated m"
  by (auto simp: serves_def find_Some_iff)

lemma set_allowed:
  "set (allowed_providers h pinned r) =
     {p \<in> set (rg_providers r). usable_with h p \<and> (pinned = None \<or> pinned = Some (pv_id p))}"
  by (cases pinned) (auto simp: allowed_providers_def usable_with_def)

lemma set_candidates:
  "set (candidates_pinned h now pinned c r) =
     {(p, m). p \<in> set (allowed_providers h pinned r) \<and> model_for p c now = Some m}"
  by (auto simp: candidates_pinned_def set_map_filter)

lemma set_serving:
  "set (providers_serving h now pinned i r) =
     {(p, m). p \<in> set (allowed_providers h pinned r) \<and> serves p i = Some m}"
  by (auto simp: providers_serving_def set_map_filter)

text \<open>The one combination that would leak the host's own token is never usable.\<close>

lemma usable_subscription_host:
  "usable_with h p \<Longrightarrow> pv_auth p = ClaudeOauth \<Longrightarrow> host_of (pv_base_url p) = host_of anthropic_base \<and> pv_user_id p = None"
  by (auto simp: usable_with_def credential_ready_with_def unusable_reason_def split: if_splits option.splits)

section \<open>Peak hours end\<close>

lemma same_hour:
  assumes "s div 3600 = t div 3600"
  shows "utc_hour s = utc_hour t" "utc_weekday s = utc_weekday t" "beijing_date s = beijing_date t"
proof -
  have d: "x div 86400 = x div 3600 div 24" for x :: nat by (simp add: div_mult2_eq [symmetric])
  show "utc_hour s = utc_hour t" "utc_weekday s = utc_weekday t" using assms by (simp_all add: utc_hour_def utc_weekday_def d)
  have "(x + 8 * 3600) div 3600 = x div 3600 + 8" for x :: nat by simp
  then show "beijing_date s = beijing_date t" unfolding beijing_date_def d using assms by simp
qed

lemma same_hour_active:
  assumes "s div 3600 = t div 3600" "s \<le> last_timestamp" "t \<le> last_timestamp"
  shows "active_at p s = active_at p t"
proof -
  have "in_window s = in_window t" using same_hour [OF assms(1)] by (simp add: in_window_def fun_eq_iff)
  then show ?thesis using assms same_hour [OF assms(1)] by (simp add: active_at_def holiday_at_def)
qed

lemma active_in_range: "active_at p s \<Longrightarrow> s \<le> last_timestamp"
  by (auto simp: active_at_def split: if_splits)

lemma hour_bounds: "s div 3600 * 3600 \<le> s \<and> s < (s div 3600 + 1) * 3600" for s :: nat
  by (simp add: div_times_less_eq_dividend dividend_less_div_times algebra_simps)

text \<open>The search steps over whole hours; an hour that starts in force and stays in range is in force throughout.\<close>

lemma active_hour:
  assumes "active_at p (3600 * k)" "3600 * k \<le> u" "u < 3600 * (k + 1)" "3600 * (k + 1) \<le> last_timestamp + 1"
  shows "active_at p u"
proof -
  have "3600 * k div 3600 = u div 3600" using assms(2,3) by (simp add: div_nat_eqI)
  then show ?thesis using same_hour_active [of "3600 * k" u p] assms by simp
qed

lemma until_loop_pos:
  "0 < n \<Longrightarrow> until_loop p n at = (if \<not> active_at p at then Some at else until_loop p (n - 1) (at + 3600))"
  by (cases n) simp_all

lemma until_loop_Some:
  assumes "until_loop p n (3600 * k) = Some e" "3600 * (k + n) \<le> last_timestamp"
  shows "\<exists>j < n. e = 3600 * (k + j) \<and> \<not> active_at p e \<and> (\<forall>u. 3600 * k \<le> u \<and> u < e \<longrightarrow> active_at p u)"
  using assms
proof (induction n arbitrary: k)
  case 0
  then show ?case by simp
next
  case (Suc n)
  show ?case
  proof (cases "active_at p (3600 * k)")
    case False
    then show ?thesis using Suc.prems by (intro exI [of _ 0]) auto
  next
    case True
    then have "until_loop p n (3600 * (k + 1)) = Some e" using Suc.prems(1) by (simp add: algebra_simps)
    then obtain j where j: "j < n" "e = 3600 * (k + 1 + j)" "\<not> active_at p e"
      "\<forall>u. 3600 * (k + 1) \<le> u \<and> u < e \<longrightarrow> active_at p u" using Suc.IH [of "k + 1"] Suc.prems(2) by auto
    have "active_at p u" if "3600 * k \<le> u" "u < e" for u
      using active_hour [OF True, of u] j(4) Suc.prems(2) that by (cases "u < 3600 * (k + 1)") auto
    then show ?thesis using j by (intro exI [of _ "j + 1"]) (auto simp: algebra_simps)
  qed
qed

lemma until_loop_None:
  assumes "until_loop p n (3600 * k) = None" "3600 * (k + n) \<le> last_timestamp" "3600 * k \<le> u" "u < 3600 * (k + n)"
  shows "active_at p u"
  using assms
proof (induction n arbitrary: k)
  case 0
  then show ?case by simp
next
  case (Suc n)
  have a: "active_at p (3600 * k)" and l: "until_loop p n (3600 * (k + 1)) = None"
    using Suc.prems(1) by (auto simp: algebra_simps split: if_splits)
  show ?case
  proof (cases "u < 3600 * (k + 1)")
    case True
    then show ?thesis using active_hour [OF a] Suc.prems(2,3) by simp
  next
    case False
    then show ?thesis using Suc.IH [OF l] Suc.prems by simp
  qed
qed

section \<open>Edits\<close>

definition ids :: "provider_registry \<Rightarrow> rstr list" where
  "ids r = map pv_id (rg_providers r)"

lemma map_update_first_id: "(\<And>x. P x \<Longrightarrow> pv_id (f x) = pv_id x) \<Longrightarrow> map pv_id (update_first P f xs) = map pv_id xs"
  by (induction xs) auto

lemma upsert_ids: "ids (upsert p r) = (if pv_id p \<in> set (ids r) then ids r else ids r @ [pv_id p])"
  by (auto simp: upsert_def ids_def map_update_first_id list_ex_iff intro: rev_image_eqI)

lemma find_update_first:
  "list_ex (\<lambda>q. pv_id q = i) xs \<Longrightarrow> pv_id p = i \<Longrightarrow>
     find (\<lambda>q. pv_id q = j) (update_first (\<lambda>q. pv_id q = i) (\<lambda>_. p) xs) =
       (if j = i then Some p else find (\<lambda>q. pv_id q = j) xs)"
  by (induction xs) auto

lemma get_upsert: "get_provider (upsert p r) j = (if j = pv_id p then Some p else get_provider r j)"
proof (cases "list_ex (\<lambda>q. pv_id q = pv_id p) (rg_providers r)")
  case True
  then show ?thesis by (simp add: get_provider_def upsert_def find_update_first)
next
  case False
  have "\<not> list_ex (\<lambda>q. pv_id q = pv_id p) xs \<Longrightarrow>
      find (\<lambda>q. pv_id q = j) (xs @ [p]) = (if j = pv_id p then Some p else find (\<lambda>q. pv_id q = j) xs)" for xs
    by (induction xs) auto
  then show ?thesis using False by (simp add: get_provider_def upsert_def)
qed

lemma get_remove: "get_provider (snd (remove_provider i r)) j = (if j = i then None else get_provider r j)"
proof -
  have "find (\<lambda>q. pv_id q = j) (filter (\<lambda>p. pv_id p \<noteq> i) xs) = (if j = i then None else find (\<lambda>q. pv_id q = j) xs)" for xs
    by (induction xs) auto
  from this [of "rg_providers r"] show ?thesis by (simp add: get_provider_def remove_provider_def Let_def)
qed

definition renamed :: "rstr \<Rightarrow> rstr \<Rightarrow> provider \<Rightarrow> provider" where
  "renamed to path p = p\<lparr>pv_id := to, pv_auth := (case pv_auth p of ApiKeyFile _ \<Rightarrow> ApiKeyFile path | a \<Rightarrow> a)\<rparr>"

lemma renamed_id [simp]: "pv_id (renamed to path p) = to"
  by (simp add: renamed_def)

lemma renamed_eta:
  "(\<lambda>p. p\<lparr>pv_id := to, pv_auth := (case pv_auth p of ApiKeyFile _ \<Rightarrow> ApiKeyFile path | a \<Rightarrow> a)\<rparr>) = renamed to path"
  by (simp add: renamed_def fun_eq_iff)

lemma rename_cases:
  "(\<exists>e. rename_provider from to path r = (Inl e, r)) \<or> (from = to \<and> rename_provider from to path r = (Inr (), r)) \<or>
   (from \<noteq> to \<and> from \<in> set (ids r) \<and> to \<notin> set (ids r) \<and>
    rename_provider from to path r =
      (Inr (), \<lparr>rg_providers = update_first (\<lambda>p. pv_id p = from) (renamed to path) (rg_providers r)\<rparr>))"
  by (auto simp: rename_provider_def renamed_eta ids_def list_ex_iff split: sum.splits)

lemma ids_update_first:
  assumes "distinct (map pv_id xs)" "to \<notin> pv_id ` set xs"
  shows "map pv_id (update_first (\<lambda>p. pv_id p = from) (renamed to path) xs) = map (\<lambda>i. if i = from then to else i) (map pv_id xs)"
  using assms
proof (induction xs)
  case (Cons x xs)
  show ?case
  proof (cases "pv_id x = from")
    case True
    then have "pv_id q \<noteq> from" if "q \<in> set xs" for q using Cons.prems(1) that by (auto simp: image_iff)
    then show ?thesis using True by simp
  next
    case False
    then show ?thesis using Cons by simp
  qed
qed simp

lemma find_renamed:
  assumes "distinct (map pv_id xs)" "to \<notin> pv_id ` set xs" "from \<noteq> to"
  shows "find (\<lambda>q. pv_id q = j) (update_first (\<lambda>p. pv_id p = from) (renamed to path) xs) =
    (if j = to then map_option (renamed to path) (find (\<lambda>q. pv_id q = from) xs)
     else if j = from then None else find (\<lambda>q. pv_id q = j) xs)"
  using assms
proof (induction xs)
  case (Cons x xs)
  have n: "i \<notin> pv_id ` set xs \<Longrightarrow> find (\<lambda>q. pv_id q = i) xs = None" for i by (auto simp: find_None_iff)
  show ?case
  proof (cases "pv_id x = from")
    case True
    then show ?thesis using Cons.prems n [of "from"] n [of to] by auto
  next
    case False
    then show ?thesis using Cons by auto
  qed
qed simp

lemma rename_ids: "distinct (ids r) \<Longrightarrow> distinct (ids (snd (rename_provider from to path r)))"
  using rename_cases [of "from" to path r]
proof (elim disjE exE conjE)
  assume d: "distinct (ids r)" and a: "to \<notin> set (ids r)"
    "rename_provider from to path r = (Inr (), \<lparr>rg_providers = update_first (\<lambda>p. pv_id p = from) (renamed to path) (rg_providers r)\<rparr>)"
  have "inj_on (\<lambda>i. if i = from then to else i) (set (ids r))" using a(1) by (auto simp: inj_on_def)
  then have "distinct (map (\<lambda>i. if i = from then to else i) (ids r))" using d by (simp add: distinct_map)
  then show ?thesis using a d ids_update_first [of "rg_providers r" to "from" path] by (simp add: ids_def)
qed simp_all

lemma get_rename:
  assumes "distinct (ids r)"
  shows "get_provider (snd (rename_provider from to path r)) j =
    (case fst (rename_provider from to path r) of
       Inl e \<Rightarrow> get_provider r j
     | Inr u \<Rightarrow>
         if from = to then get_provider r j
         else if j = to then map_option (renamed to path) (get_provider r from)
         else if j = from then None else get_provider r j)"
  using rename_cases [of "from" to path r]
proof (elim disjE exE conjE)
  assume a: "from \<noteq> to" "to \<notin> set (ids r)"
    "rename_provider from to path r = (Inr (), \<lparr>rg_providers = update_first (\<lambda>p. pv_id p = from) (renamed to path) (rg_providers r)\<rparr>)"
  show ?thesis using a assms find_renamed [of "rg_providers r" to "from" j path] by (simp add: ids_def get_provider_def)
qed simp_all

lemma scaled_cap: "pr_output (scaled pct p) \<le> 42949672"
proof -
  have "u32_sat_mul a b \<le> 4294967295" for a b by (simp add: u32_sat_mul_def)
  then have "u32_sat_mul (pr_output p) pct div 100 \<le> 4294967295 div 100" by (rule div_le_mono)
  then show ?thesis by (simp add: scaled_def)
qed

section \<open>Properties\<close>

text \<open>The end of a peak is exact: within the calendar's range, \<open>active_until\<close> answers nothing only when no
  peak is on now or when it stays on for the next eight days; otherwise it is the first later second at which
  the peak is off.\<close>

theorem peak_end_exact:
  assumes "s + 8 * 86400 + 3600 \<le> last_timestamp"
  shows "case active_until p s of
           None \<Rightarrow> \<not> active_at p s \<or> (\<forall>u. s \<le> u \<and> u < s + 8 * 86400 \<longrightarrow> active_at p u)
         | Some e \<Rightarrow> s < e \<and> \<not> active_at p e \<and> (\<forall>u. s \<le> u \<and> u < e \<longrightarrow> active_at p u)"
proof (cases "active_at p s")
  case False
  then show ?thesis by (simp add: active_until_def)
next
  case True
  let ?k = "s div 3600 + 1"
  have r: "3600 * (?k + 192) \<le> last_timestamp" using assms hour_bounds [of s] by simp
  have first: "active_at p u" if "s \<le> u" "u < 3600 * ?k" for u
  proof -
    have "u div 3600 = s div 3600" using that hour_bounds [of s] by (intro div_nat_eqI) auto
    then show ?thesis using same_hour_active [of u s p] True that r by simp
  qed
  have eq: "active_until p s = until_loop p 192 (3600 * ?k)" using True by (simp add: active_until_def algebra_simps)
  show ?thesis
  proof (cases "until_loop p 192 (3600 * ?k)")
    case None
    have "active_at p u" if "s \<le> u" "u < s + 8 * 86400" for u
    proof (cases "u < 3600 * ?k")
      case False
      have "s < 3600 * ?k" using hour_bounds [of s] by simp
      then show ?thesis using until_loop_None [OF None r, of u] False that by simp
    qed (use first that in blast)
    then show ?thesis using None eq by simp
  next
    case (Some e)
    then obtain j where j: "j < 192" "e = 3600 * (?k + j)" "\<not> active_at p e"
      "\<forall>u. 3600 * ?k \<le> u \<and> u < e \<longrightarrow> active_at p u" using until_loop_Some [OF Some r] by blast
    have "s < e" using j(2) hour_bounds [of s] by simp
    moreover have "active_at p u" if "s \<le> u" "u < e" for u
      using first [of u] j(4) that by (cases "u < 3600 * ?k") auto
    ultimately show ?thesis using Some eq j(3) by simp
  qed
qed

text \<open>Weekdays 01:00 to 04:00; the example instant is Thursday 1970-01-01, 01:30.\<close>

definition sample_peak :: peak where
  "sample_peak = \<lparr>pk_multiplier = 200, pk_windows = [\<lparr>pw_weekdays = [1, 2, 3, 4, 5], pw_start_hour = 1, pw_end_hour = 4\<rparr>],
     pk_holidays = []\<rparr>"

theorem peak_end_exact_witness:
  "active_until sample_peak 5400 = Some 14400 \<and> \<not> active_at sample_peak 14400 \<and> active_at sample_peak 14399"
proof -
  have e: "active_until sample_peak 5400 = Some 14400"
    by (simp add: active_until_def active_at_def sample_peak_def in_window_def utc_weekday_def utc_hour_def last_timestamp_def
      until_loop_pos del: until_loop.simps)
  then show ?thesis using peak_end_exact [of 5400 sample_peak] by (simp add: last_timestamp_def)
qed

text \<open>Ids stay unique through every edit, and each edit does what it says by id: \<open>upsert\<close> binds the provider's
  id to it and nothing else, \<open>remove_provider\<close> unbinds one id, a rename that succeeds moves the entry to a
  free id together with its key file's path, and a rename that fails changes nothing.\<close>

theorem registry_edits_by_id:
  assumes "distinct (ids r)"
  shows "distinct (ids (upsert p r)) \<and> distinct (ids (snd (remove_provider i r))) \<and>
    distinct (ids (snd (rename_provider from to path r))) \<and>
    get_provider (upsert p r) j = (if j = pv_id p then Some p else get_provider r j) \<and>
    get_provider (snd (remove_provider i r)) j = (if j = i then None else get_provider r j) \<and>
    get_provider (snd (rename_provider from to path r)) j =
      (case fst (rename_provider from to path r) of
         Inl e \<Rightarrow> get_provider r j
       | Inr u \<Rightarrow>
           if from = to then get_provider r j
           else if j = to then map_option (renamed to path) (get_provider r from)
           else if j = from then None else get_provider r j)"
proof -
  have "distinct (ids (upsert p r))" using assms by (simp add: upsert_ids)
  moreover have "distinct (ids (snd (remove_provider i r)))"
    using assms by (auto simp: remove_provider_def ids_def Let_def intro: distinct_map_filter)
  ultimately show ?thesis using get_upsert get_remove rename_ids [OF assms] get_rename [OF assms] by blast
qed

theorem registry_edits_by_id_witness:
  "distinct (ids (snd (rename_provider (lit ''anthropic'') (lit ''plan'') (lit ''k'') default_registry))) \<and>
   get_provider (snd (rename_provider (lit ''anthropic'') (lit ''plan'') (lit ''k'') default_registry)) (lit ''anthropic'') = None"
proof -
  have d: "distinct (ids default_registry)" by (simp add: ids_def default_registry_def)
  have "rename_provider (lit ''anthropic'') (lit ''plan'') (lit ''k'') default_registry =
      (Inr (), snd (rename_provider (lit ''anthropic'') (lit ''plan'') (lit ''k'') default_registry))"
    by (simp add: rename_provider_def validate_provider_id_def default_registry_def lit_def byte_len_def utf8_def utf8_char_def
        is_ascii_alphanumeric_def)
  then have "fst (rename_provider (lit ''anthropic'') (lit ''plan'') (lit ''k'') default_registry) = Inr ()" by (metis fst_conv)
  then show ?thesis
    using registry_edits_by_id [OF d, of "hd (rg_providers default_registry)" "lit ''x''" "lit ''anthropic''" "lit ''plan''" "lit ''k''" "lit ''anthropic''"] by (simp add: lit_def)
qed

text \<open>A provider is refused exactly when it is no candidate: the words the caller gets and the routing never disagree.\<close>

theorem refusal_iff_unusable: "refusal_with h p = None \<longleftrightarrow> usable_with h p"
  by (auto simp: refusal_with_def usable_with_def credential_ready_with_def split: option.splits)

text \<open>The 32-bit product of rate and percentage saturates: a model whose output rate is above 42 949 672 micro-dollars
  a million tokens is charged less during peak hours than outside them, whatever the multiplier.\<close>

theorem peak_rate_saturates:
  assumes "active_at pk s" and "42949672 < pr_output p"
  shows "pr_output (price_with_peak p (Some pk) s) < pr_output p"
  using assms scaled_cap [of "pk_multiplier pk" p] by (simp add: price_with_peak_def)

theorem peak_rate_saturates_witness:
  "pr_output (price_with_peak \<lparr>pr_cache_hit = 1000000, pr_input = 10000000, pr_output = 50000000\<rparr> (Some sample_peak) 5400) < 50000000"
  using peak_rate_saturates [of sample_peak 5400 "\<lparr>pr_cache_hit = 1000000, pr_input = 10000000, pr_output = 50000000\<rparr>"]
  by (simp add: active_at_def sample_peak_def in_window_def utc_weekday_def utc_hour_def last_timestamp_def)

end
