(* ===== verification/Routing.thy ===== *)
theory Routing
  imports Complex_Main Providers
begin

text \<open>
  Where a request goes: \<^verbatim>\<open>src/crates/tab-atelier-proxy/src/routing.rs\<close>, the kind of traffic
  (\<^verbatim>\<open>classifier.rs\<close>), the per-person routes (\<^verbatim>\<open>users.rs\<close>) and the two-phase decision of the relay
  (\<^verbatim>\<open>pick_route\<close> in \<^verbatim>\<open>http/controllers/relay.rs\<close>). Utilisations are exact rationals; the threshold is
  the value of the source's 64-bit constant.
\<close>

section \<open>Health\<close>

record health =
  hl_utilization :: "rat option"
  hl_backoff :: nat

definition blocked :: "health \<Rightarrow> bool" where
  "blocked h \<longleftrightarrow> 0 < hl_backoff h"

definition strained_above :: rat where
  "strained_above = 7656119366529843 / 9007199254740992"

definition strained :: "health \<Rightarrow> bool" where
  "strained h = (case hl_utilization h of Some u \<Rightarrow> strained_above \<le> u | None \<Rightarrow> False)"

text \<open>\<^verbatim>\<open>provider_health\<close>: the plan's utilisation for the provider called anthropic, back-off for all.\<close>

definition provider_health :: "nat \<Rightarrow> rat option \<Rightarrow> (rstr \<Rightarrow> nat option) \<Rightarrow> rstr \<Rightarrow> health" where
  "provider_health now plan backoff i =
     \<lparr>hl_utilization = (if i = lit ''anthropic'' then plan else None),
      hl_backoff = (case backoff i of None \<Rightarrow> 0 | Some until \<Rightarrow> until - now)\<rparr>"

section \<open>Kinds and routes\<close>

datatype kind = KWork | KClassifier | KPlan

definition retargets_by_mapping :: "kind \<Rightarrow> bool" where
  "retargets_by_mapping k \<longleftrightarrow> k = KWork \<or> k = KPlan"

definition kind_compacts :: "kind \<Rightarrow> bool" where
  "kind_compacts k \<longleftrightarrow> k = KWork \<or> k = KPlan"

definition shapes_tools :: "kind \<Rightarrow> bool" where
  "shapes_tools k \<longleftrightarrow> k = KWork"

datatype reason = Rerouted | Degraded | Pinned | Routed

record route =
  ro_provider :: rstr
  ro_model :: rstr
  ro_class :: cls
  ro_kind :: kind
  ro_changed_from :: "rstr option"
  ro_reason :: "reason option"

section \<open>Choosing\<close>

definition pick_in ::
    "provider_registry \<Rightarrow> cls \<Rightarrow> (rstr \<Rightarrow> health) \<Rightarrow> host \<Rightarrow> nat \<Rightarrow> rstr option \<Rightarrow> bool \<Rightarrow> (provider \<times> model) option" where
  "pick_in r c health h now pinned allow_strained =
     find (\<lambda>(p, m). \<not> blocked (health (pv_id p)) \<and> (allow_strained \<or> \<not> strained (health (pv_id p))))
       (candidates_pinned h now pinned c r)"

text \<open>The loop over classes: twice in each class, then one class down.\<close>

function choose_loop ::
    "provider_registry \<Rightarrow> (rstr \<Rightarrow> health) \<Rightarrow> host \<Rightarrow> nat \<Rightarrow> rstr option \<Rightarrow> cls \<Rightarrow> (cls \<times> provider \<times> model) option" where
  "choose_loop r health h now pinned c =
     (case pick_in r c health h now pinned False of
        Some pm \<Rightarrow> Some (c, pm)
      | None \<Rightarrow>
          (case pick_in r c health h now pinned True of
             Some pm \<Rightarrow> Some (c, pm)
           | None \<Rightarrow> (case cheaper c of None \<Rightarrow> None | Some c' \<Rightarrow> choose_loop r health h now pinned c')))"
  by pat_completeness auto
termination
  by (relation "measure (\<lambda>(r, health, h, now, pinned, c). cls_rank c)") (auto dest: cheaper_less simp: less_cls_def)

declare choose_loop.simps [simp del]

definition asked_class :: "provider_registry \<Rightarrow> rstr \<Rightarrow> cls" where
  "asked_class r requested = (case class_of r requested of Some c \<Rightarrow> c | None \<Rightarrow> Balanced)"

definition choose_route ::
    "provider_registry \<Rightarrow> rstr \<Rightarrow> rstr option \<Rightarrow> kind \<Rightarrow> (rstr \<Rightarrow> health) \<Rightarrow> host \<Rightarrow> nat \<Rightarrow> route option" where
  "choose_route r requested pinned kind health h now =
     (let target = requested;
          mapped_from = (None :: rstr option);
          asked = asked_class r target;
          changed_from = (case mapped_from of Some f \<Rightarrow> Some f | None \<Rightarrow> if target \<noteq> requested then Some requested else None)
      in case choose_loop r health h now pinned asked of
           None \<Rightarrow> None
         | Some (c, p, m) \<Rightarrow>
             (let changed = (md_id m \<noteq> target);
                  from = (if changed then (case changed_from of Some f \<Rightarrow> Some f | None \<Rightarrow> Some target) else changed_from);
                  reason = (if from = None \<and> \<not> changed then None
                            else if c = asked then Some Rerouted else Some Degraded)
              in Some \<lparr>ro_provider = pv_id p, ro_model = md_id m, ro_class = c, ro_kind = kind,
                       ro_changed_from = from, ro_reason = reason\<rparr>))"

definition pick_exact ::
    "provider_registry \<Rightarrow> rstr \<Rightarrow> (rstr \<Rightarrow> health) \<Rightarrow> host \<Rightarrow> nat \<Rightarrow> rstr option \<Rightarrow> (provider \<times> model) option" where
  "pick_exact r i health h now pinned =
     (let usable = filter (\<lambda>(p, m). \<not> blocked (health (pv_id p))) (providers_serving h now pinned i r)
      in case find (\<lambda>(p, m). \<not> strained (health (pv_id p))) usable of
           Some pm \<Rightarrow> Some pm
         | None \<Rightarrow> (case usable of [] \<Rightarrow> None | pm # _ \<Rightarrow> Some pm))"

definition choose_exact ::
    "provider_registry \<Rightarrow> rstr \<Rightarrow> rstr option \<Rightarrow> kind \<Rightarrow> (rstr \<Rightarrow> health) \<Rightarrow> host \<Rightarrow> nat \<Rightarrow> route option" where
  "choose_exact r i provider kind health h now =
     map_option (\<lambda>(p, m). \<lparr>ro_provider = pv_id p, ro_model = md_id m, ro_class = md_class m, ro_kind = kind,
                           ro_changed_from = None, ro_reason = Some Pinned\<rparr>)
       (case pick_exact r i health h now provider of
          Some pm \<Rightarrow> Some pm
        | None \<Rightarrow> pick_exact r i health h now None)"

section \<open>Per-person routes and the relay's decision\<close>

record model_route =
  mr_from :: "rstr option"
  mr_kind :: "kind option"
  mr_from_provider :: "rstr option"
  mr_tool :: "rstr option"
  mr_to_model :: rstr
  mr_to_provider :: "rstr option"

text \<open>The part of an account the decision reads.\<close>

record account =
  ac_provider :: "rstr option"
  ac_model :: "rstr option"
  ac_routes :: "model_route list"

definition route_matches :: "model_route \<Rightarrow> rstr \<Rightarrow> kind \<Rightarrow> rstr option \<Rightarrow> rstr option \<Rightarrow> bool" where
  "route_matches mr requested kind base_provider server_tool =
     (let tool_ok = (case mr_tool mr of None \<Rightarrow> True
                     | Some wanted \<Rightarrow> (case server_tool of None \<Rightarrow> False | Some t \<Rightarrow> eq_ignore_ascii_case t wanted));
          kind_ok = (case mr_kind mr of None \<Rightarrow> kind = KWork | Some wanted \<Rightarrow> wanted = kind);
          from_ok = (case mr_from mr of None \<Rightarrow> True | Some f \<Rightarrow> eq_ignore_ascii_case f requested);
          provider_ok = (case mr_from_provider mr of None \<Rightarrow> True
                         | Some p \<Rightarrow> (case base_provider of None \<Rightarrow> False | Some b \<Rightarrow> eq_ignore_ascii_case b p))
      in tool_ok \<and> kind_ok \<and> from_ok \<and> provider_ok)"

definition has_condition :: "model_route \<Rightarrow> bool" where
  "has_condition mr \<longleftrightarrow> mr_from mr \<noteq> None \<or> mr_kind mr \<noteq> None \<or> mr_from_provider mr \<noteq> None \<or> mr_tool mr \<noteq> None"

definition route_matching :: "account \<Rightarrow> rstr \<Rightarrow> kind \<Rightarrow> rstr option \<Rightarrow> rstr option \<Rightarrow> model_route option" where
  "route_matching a requested kind base_provider server_tool =
     find (\<lambda>mr. route_matches mr requested kind base_provider server_tool) (ac_routes a)"

definition base_route ::
    "provider_registry \<Rightarrow> account \<Rightarrow> rstr \<Rightarrow> kind \<Rightarrow> (rstr \<Rightarrow> health) \<Rightarrow> host \<Rightarrow> nat \<Rightarrow> route option" where
  "base_route r a requested kind health h now =
     (case ac_model a of
        None \<Rightarrow> choose_route r requested (ac_provider a) kind health h now
      | Some pin \<Rightarrow> choose_exact r pin (ac_provider a) kind health h now)"

definition pick_route ::
    "provider_registry \<Rightarrow> account \<Rightarrow> rstr \<Rightarrow> kind \<Rightarrow> (rstr \<Rightarrow> health) \<Rightarrow> rstr option \<Rightarrow> host \<Rightarrow> nat \<Rightarrow> route option" where
  "pick_route r a requested kind health server_tool h now =
     (let base = base_route r a requested kind health h now
      in case route_matching a requested kind (map_option ro_provider base) server_tool of
           Some mr \<Rightarrow>
             map_option (\<lambda>chosen. chosen\<lparr>ro_reason := Some Routed\<rparr>)
               (choose_exact r (mr_to_model mr) (mr_to_provider mr) kind health h now)
         | None \<Rightarrow> base)"

section \<open>What a pick guarantees\<close>

text \<open>A provider that may serve: configured, usable on this host, inside the pin and not told to stop.\<close>

definition may_serve :: "provider_registry \<Rightarrow> (rstr \<Rightarrow> health) \<Rightarrow> host \<Rightarrow> rstr option \<Rightarrow> provider \<Rightarrow> bool" where
  "may_serve r health h pinned p \<longleftrightarrow>
     p \<in> set (rg_providers r) \<and> usable_with h p \<and> (pinned = None \<or> pinned = Some (pv_id p)) \<and> \<not> blocked (health (pv_id p))"

text \<open>Nothing better: no unstrained alternative for a strained pick, no lower key among equals.\<close>

definition best_of :: "(rstr \<Rightarrow> health) \<Rightarrow> nat \<Rightarrow> provider \<times> model \<Rightarrow> provider \<times> model \<Rightarrow> bool" where
  "best_of health now x y \<longleftrightarrow>
     (if strained (health (pv_id (fst x)))
      then strained (health (pv_id (fst y))) \<and> route_key now x \<le> route_key now y
      else strained (health (pv_id (fst y))) \<or> route_key now x \<le> route_key now y)"

lemma set_candidates_serve:
  "(p, m) \<in> set (candidates_pinned h now pinned c r) \<and> \<not> blocked (health (pv_id p)) \<longleftrightarrow>
     may_serve r health h pinned p \<and> model_for p c now = Some m"
  by (auto simp: set_candidates set_allowed may_serve_def)

lemma pick_in_None:
  "pick_in r c health h now pinned allow = None \<longleftrightarrow>
     (\<forall>p m. may_serve r health h pinned p \<and> model_for p c now = Some m \<longrightarrow> \<not> allow \<and> strained (health (pv_id p)))"
proof -
  have "pick_in r c health h now pinned allow = None \<longleftrightarrow>
      (\<forall>p m. (p, m) \<in> set (candidates_pinned h now pinned c r) \<and> \<not> blocked (health (pv_id p)) \<longrightarrow>
         \<not> allow \<and> strained (health (pv_id p)))"
    by (auto simp: pick_in_def find_None_iff)
  then show ?thesis unfolding set_candidates_serve .
qed

lemma pick_in_Some:
  assumes "pick_in r c health h now pinned allow = Some (p, m)"
  shows "may_serve r health h pinned p \<and> model_for p c now = Some m \<and> (allow \<or> \<not> strained (health (pv_id p))) \<and>
    (\<forall>p' m'. may_serve r health h pinned p' \<and> model_for p' c now = Some m' \<and> (allow \<or> \<not> strained (health (pv_id p'))) \<longrightarrow>
       route_key now (p, m) \<le> route_key now (p', m'))"
proof -
  let ?P = "\<lambda>(p, m). \<not> blocked (health (pv_id p)) \<and> (allow \<or> \<not> strained (health (pv_id p)))"
  let ?xs = "List.map_filter (\<lambda>p. map_option (Pair p) (model_for p c now)) (allowed_providers h pinned r)"
  have in_xs: "set ?xs = set (candidates_pinned h now pinned c r)" by (simp add: candidates_pinned_def)
  have "find ?P (sort_key (route_key now) ?xs) = Some (p, m)" using assms by (simp add: pick_in_def candidates_pinned_def)
  from find_sort_key [OF this]
  have f: "(p, m) \<in> set (candidates_pinned h now pinned c r)" "?P (p, m)"
    "\<forall>y \<in> set (candidates_pinned h now pinned c r). ?P y \<longrightarrow> route_key now (p, m) \<le> route_key now y"
    unfolding in_xs by blast+
  have "may_serve r health h pinned p \<and> model_for p c now = Some m" using f(1,2) set_candidates_serve [of p m h now pinned c r health] by simp
  moreover have "route_key now (p, m) \<le> route_key now (p', m')"
    if "may_serve r health h pinned p'" "model_for p' c now = Some m'" "allow \<or> \<not> strained (health (pv_id p'))" for p' m'
  proof -
    have "(p', m') \<in> set (candidates_pinned h now pinned c r)" "\<not> blocked (health (pv_id p'))"
      using that(1,2) set_candidates_serve [of p' m' h now pinned c r health] by blast+
    then show ?thesis using f(3) that(3) by simp
  qed
  ultimately show ?thesis using f(2) by simp
qed

lemma choose_loop_Some:
  "choose_loop r health h now pinned c = Some (c', p, m) \<Longrightarrow>
     c' \<le> c \<and> may_serve r health h pinned p \<and> model_for p c' now = Some m \<and>
     (\<forall>p' m'. may_serve r health h pinned p' \<and> model_for p' c' now = Some m' \<longrightarrow> best_of health now (p, m) (p', m')) \<and>
     (\<forall>d p' m'. c' < d \<and> d \<le> c \<and> may_serve r health h pinned p' \<longrightarrow> model_for p' d now \<noteq> Some m')"
proof (induction r health h now pinned c rule: choose_loop.induct)
  case (1 r health h now pinned c)
  show ?case
  proof (cases "pick_in r c health h now pinned False")
    case (Some pm)
    then have e: "c' = c" "pm = (p, m)" using "1.prems" by (simp_all add: choose_loop.simps [of r health h now pinned c])
    from pick_in_Some [OF Some [unfolded e]] show ?thesis unfolding e(1) by (auto simp: best_of_def)
  next
    case no: None
    note n1 = no [unfolded pick_in_None]
    show ?thesis
    proof (cases "pick_in r c health h now pinned True")
      case (Some pm)
      then have e: "c' = c" "pm = (p, m)" using "1.prems" no by (simp_all add: choose_loop.simps [of r health h now pinned c])
      from pick_in_Some [OF Some [unfolded e]] n1 show ?thesis unfolding e(1) by (auto simp: best_of_def)
    next
      case no2: None
      note n2 = no2 [unfolded pick_in_None]
      show ?thesis
      proof (cases "cheaper c")
        case None
        then show ?thesis using "1.prems" no no2 by (simp add: choose_loop.simps [of r health h now pinned c])
      next
        case (Some b)
        then have "choose_loop r health h now pinned b = Some (c', p, m)"
          using "1.prems" no no2 by (simp add: choose_loop.simps [of r health h now pinned c])
        note ih = "1.IH" [OF no no2 Some this]
        have b: "b < c" by (rule cheaper_less [OF Some])
        have "model_for p' d now \<noteq> Some m'" if "c' < d" "d \<le> c" "may_serve r health h pinned p'" for d p' m'
        proof (cases "d = c")
          case True
          then show ?thesis using n2 that(3) by blast
        next
          case False
          then have "d \<le> b" using cheaper_next [OF Some] that(2) by simp
          then show ?thesis using ih that by blast
        qed
        moreover have "c' \<le> c" using ih b by (meson less_imp_le order_trans)
        ultimately show ?thesis using ih by blast
      qed
    qed
  qed
qed

lemma choose_loop_None:
  "choose_loop r health h now pinned c = None \<Longrightarrow> d \<le> c \<Longrightarrow> may_serve r health h pinned p \<Longrightarrow> model_for p d now = None"
proof (induction r health h now pinned c rule: choose_loop.induct)
  case (1 r health h now pinned c)
  have no: "pick_in r c health h now pinned False = None" and no2: "pick_in r c health h now pinned True = None"
    using "1.prems"(1) by (auto simp: choose_loop.simps [of r health h now pinned c] split: option.splits)
  have here: "model_for p c now = None" using no2 [unfolded pick_in_None] "1.prems"(3) by (metis not_None_eq)
  show ?case
  proof (cases "cheaper c")
    case None
    then show ?thesis using cheaper_None [OF None "1.prems"(2)] here by simp
  next
    case (Some b)
    then have "choose_loop r health h now pinned b = None"
      using "1.prems"(1) no no2 by (simp add: choose_loop.simps [of r health h now pinned c])
    then show ?thesis using "1.IH" [OF no no2 Some] "1.prems"(2,3) cheaper_next [OF Some] here by (cases "d = c") auto
  qed
qed


lemma pick_exact_Some:
  assumes "pick_exact r i health h now pinned = Some (p, m)"
  shows "may_serve r health h pinned p \<and> serves p i = Some m \<and>
    (\<forall>p' m'. may_serve r health h pinned p' \<and> serves p' i = Some m' \<longrightarrow> best_of health now (p, m) (p', m'))"
proof -
  let ?xs = "List.map_filter (\<lambda>p. map_option (Pair p) (serves p i)) (allowed_providers h pinned r)"
  let ?B = "\<lambda>(p, m). \<not> blocked (health (pv_id p))" and ?S = "\<lambda>(p, m). \<not> strained (health (pv_id p))"
  let ?us = "filter ?B ?xs"
  have mem: "(p, m) \<in> set ?us \<longleftrightarrow> may_serve r health h pinned p \<and> serves p i = Some m" for p m
    by (auto simp: set_map_filter set_allowed may_serve_def)
  have us: "filter ?B (providers_serving h now pinned i r) = sort_key (route_key now) ?us"
    by (simp add: providers_serving_def filter_sort)
  show ?thesis
  proof (cases "find ?S (sort_key (route_key now) ?us)")
    case (Some pm)
    then have "pm = (p, m)" using assms us by (simp add: pick_exact_def)
    from find_sort_key [OF Some [unfolded this]]
    have f: "(p, m) \<in> set ?us" "\<not> strained (health (pv_id p))"
      "\<forall>y \<in> set ?us. ?S y \<longrightarrow> route_key now (p, m) \<le> route_key now y" by blast+
    have "best_of health now (p, m) (p', m')" if "may_serve r health h pinned p'" "serves p' i = Some m'" for p' m'
      using f(2,3) that mem [of p' m'] by (auto simp: best_of_def)
    then show ?thesis using f(1) mem by blast
  next
    case None
    then have st: "\<forall>y \<in> set ?us. \<not> ?S y" by (simp only: find_sort_key_None)
    have hd: "sort_key (route_key now) ?us \<noteq> []" "(p, m) = hd (sort_key (route_key now) ?us)"
      using assms us None by (auto simp: pick_exact_def split: list.splits)
    have ne: "?us \<noteq> []" using hd(1) by auto
    from hd_sort_key [OF ne, of "route_key now"]
    have f: "(p, m) \<in> set ?us" "\<forall>y \<in> set ?us. route_key now (p, m) \<le> route_key now y" unfolding hd(2) [symmetric] by blast+
    have "best_of health now (p, m) (p', m')" if "may_serve r health h pinned p'" "serves p' i = Some m'" for p' m'
      using f st that mem [of p' m'] mem [of p m] by (auto simp: best_of_def)
    then show ?thesis using f(1) mem by blast
  qed
qed

lemma pick_exact_None:
  "pick_exact r i health h now pinned = None \<longleftrightarrow> (\<forall>p. may_serve r health h pinned p \<longrightarrow> serves p i = None)"
proof -
  have "pick_exact r i health h now pinned = None \<longleftrightarrow>
      filter (\<lambda>(p, m). \<not> blocked (health (pv_id p))) (providers_serving h now pinned i r) = []"
    by (auto simp: pick_exact_def Let_def find_None_iff split: option.splits list.splits)
  also have "\<dots> \<longleftrightarrow> (\<forall>p m. (p, m) \<in> set (providers_serving h now pinned i r) \<longrightarrow> blocked (health (pv_id p)))"
    by (auto simp: filter_empty_conv)
  also have "\<dots> \<longleftrightarrow> (\<forall>p. may_serve r health h pinned p \<longrightarrow> serves p i = None)"
    by (auto simp: set_serving set_allowed may_serve_def)
  finally show ?thesis .
qed

lemma may_serve_unpinned: "may_serve r health h pinned p \<Longrightarrow> may_serve r health h None p"
  by (simp add: may_serve_def)

text \<open>Every route of the exact kind names a provider that may serve, pinned or not, and the model asked for.\<close>

lemma choose_exact_Some:
  assumes "choose_exact r i pinned kind health h now = Some ro"
  shows "\<exists>p m. may_serve r health h None p \<and> serves p i = Some m \<and> ro_provider ro = pv_id p \<and> ro_model ro = i \<and>
    ro_class ro = md_class m \<and> ro_kind ro = kind \<and>
    (pinned = Some (pv_id p) \<or> pick_exact r i health h now pinned = None \<or> pinned = None)"
proof -
  obtain p m where pm: "(case pick_exact r i health h now pinned of Some pm \<Rightarrow> Some pm | None \<Rightarrow> pick_exact r i health h now None) = Some (p, m)"
    "ro = \<lparr>ro_provider = pv_id p, ro_model = md_id m, ro_class = md_class m, ro_kind = kind, ro_changed_from = None, ro_reason = Some Pinned\<rparr>"
    using assms by (auto simp: choose_exact_def)
  have "(may_serve r health h None p \<and> serves p i = Some m) \<and>
    (pinned = Some (pv_id p) \<or> pick_exact r i health h now pinned = None \<or> pinned = None)"
  proof (cases "pick_exact r i health h now pinned")
    case None
    then show ?thesis using pm(1) pick_exact_Some [of r i health h now None p m] by simp
  next
    case (Some x)
    then show ?thesis using pm(1) pick_exact_Some [of r i health h now pinned p m] may_serve_unpinned
      by (auto simp: may_serve_def)
  qed
  then show ?thesis using pm(2) serves_Some by (intro exI [of _ p] exI [of _ m]) auto
qed

lemma choose_route_Some:
  assumes "choose_route r requested pinned kind health h now = Some ro"
  shows "\<exists>p m. choose_loop r health h now pinned (asked_class r requested) = Some (ro_class ro, p, m) \<and>
    ro_provider ro = pv_id p \<and> ro_model ro = md_id m \<and> ro_kind ro = kind \<and>
    (ro_reason ro = None \<longleftrightarrow> md_id m = requested) \<and> (ro_changed_from ro = (if md_id m = requested then None else Some requested)) \<and>
    (ro_reason ro = Some Degraded \<longleftrightarrow> md_id m \<noteq> requested \<and> ro_class ro \<noteq> asked_class r requested)"
proof -
  obtain c p m where l: "choose_loop r health h now pinned (asked_class r requested) = Some (c, p, m)"
    using assms by (auto simp: choose_route_def Let_def split: option.splits)
  then have "ro_class ro = c \<and> ro_provider ro = pv_id p \<and> ro_model ro = md_id m \<and> ro_kind ro = kind \<and>
    (ro_reason ro = None \<longleftrightarrow> md_id m = requested) \<and> (ro_changed_from ro = (if md_id m = requested then None else Some requested)) \<and>
    (ro_reason ro = Some Degraded \<longleftrightarrow> md_id m \<noteq> requested \<and> ro_class ro \<noteq> asked_class r requested)"
    using assms by (auto simp: choose_route_def Let_def split: if_splits)
  then show ?thesis using l by (intro exI [of _ p] exI [of _ m]) simp
qed

text \<open>Whatever decides, the destination may serve the work and the model is one it lists.\<close>

definition sound_route :: "provider_registry \<Rightarrow> (rstr \<Rightarrow> health) \<Rightarrow> host \<Rightarrow> route \<Rightarrow> bool" where
  "sound_route r health h ro \<longleftrightarrow>
     (\<exists>p \<in> set (rg_providers r). \<exists>m \<in> set (pv_models p).
        pv_id p = ro_provider ro \<and> md_id m = ro_model ro \<and> md_class m = ro_class ro \<and> \<not> md_deprecated m \<and>
        usable_with h p \<and> \<not> blocked (health (pv_id p)) \<and>
        (uses_the_subscription p \<longrightarrow> host_of (pv_base_url p) = host_of anthropic_base))"

lemma may_serve_sound:
  assumes "may_serve r health h pinned p" "m \<in> set (pv_models p)" "\<not> md_deprecated m"
    and "ro_provider ro = pv_id p" "ro_model ro = md_id m" "ro_class ro = md_class m"
  shows "sound_route r health h ro"
proof -
  have "uses_the_subscription p \<longrightarrow> host_of (pv_base_url p) = host_of anthropic_base"
    using assms(1) usable_subscription_host [of h p] by (auto simp: may_serve_def uses_the_subscription_def split: auth.splits)
  then show ?thesis
    unfolding sound_route_def using assms by (intro bexI [of _ p] bexI [of _ m]) (auto simp: may_serve_def)
qed

lemma choose_route_sound:
  assumes "choose_route r requested pinned kind health h now = Some ro"
  shows "sound_route r health h ro"
proof -
  obtain p m where c: "choose_loop r health h now pinned (asked_class r requested) = Some (ro_class ro, p, m)"
    "ro_provider ro = pv_id p" "ro_model ro = md_id m" using choose_route_Some [OF assms] by blast
  from choose_loop_Some [OF c(1)] have "may_serve r health h pinned p" "model_for p (ro_class ro) now = Some m" by blast+
  then show ?thesis using model_for_Some [of p "ro_class ro" now m] c(2,3) by (intro may_serve_sound) auto
qed

lemma choose_exact_sound:
  assumes "choose_exact r i pinned kind health h now = Some ro"
  shows "sound_route r health h ro"
proof -
  obtain p m where c: "may_serve r health h None p" "serves p i = Some m" "ro_provider ro = pv_id p" "ro_model ro = i"
    "ro_class ro = md_class m" using choose_exact_Some [OF assms] by blast
  then show ?thesis using serves_Some [of p i m] by (intro may_serve_sound [of r health h None p m]) auto
qed

lemma base_route_sound: "base_route r a requested kind health h now = Some ro \<Longrightarrow> sound_route r health h ro"
  by (auto simp: base_route_def split: option.splits dest: choose_route_sound choose_exact_sound)

lemma sound_reason [simp]: "sound_route r health h (ro\<lparr>ro_reason := x\<rparr>) = sound_route r health h ro"
  by (simp add: sound_route_def)

lemma unnamed_classifier_stays:
  assumes "\<forall>mr \<in> set (ac_routes a). mr_kind mr \<noteq> Some KClassifier"
  shows "pick_route r a requested KClassifier health server_tool h now = base_route r a requested KClassifier health h now"
proof -
  have "\<not> route_matches mr requested KClassifier b server_tool" if "mr \<in> set (ac_routes a)" for mr b
    using assms that by (auto simp: route_matches_def Let_def split: option.splits)
  then have "route_matching a requested KClassifier b server_tool = None" for b by (auto simp: route_matching_def find_None_iff)
  then show ?thesis by (simp add: pick_route_def Let_def)
qed

section \<open>Properties\<close>

text \<open>C6 The ordinary choice is the best one: a route, if there is one, goes to a provider that may serve inside the
  account's pin, in the highest class at or below the one asked for that any such provider has a model in,
  never above it; there a strained provider is used only when all are strained, and among equals the lowest
  preference, then cost, wins. No route means no such provider has a model in any class at or below it.\<close>

theorem choose_is_best:
  "case choose_route r requested pinned kind health h now of
     None \<Rightarrow> \<forall>c p. c \<le> asked_class r requested \<and> may_serve r health h pinned p \<longrightarrow> model_for p c now = None
   | Some ro \<Rightarrow>
       ro_class ro \<le> asked_class r requested \<and>
       (\<exists>p m. may_serve r health h pinned p \<and> model_for p (ro_class ro) now = Some m \<and>
          ro_provider ro = pv_id p \<and> ro_model ro = md_id m \<and>
          (\<forall>p' m'. may_serve r health h pinned p' \<and> model_for p' (ro_class ro) now = Some m' \<longrightarrow> best_of health now (p, m) (p', m'))) \<and>
       (\<forall>c p. ro_class ro < c \<and> c \<le> asked_class r requested \<and> may_serve r health h pinned p \<longrightarrow> model_for p c now = None)"
proof (cases "choose_route r requested pinned kind health h now")
  case None
  then have "choose_loop r health h now pinned (asked_class r requested) = None"
    by (auto simp: choose_route_def Let_def split: option.splits)
  then show ?thesis using None choose_loop_None by (auto 0 3)
next
  case (Some ro)
  obtain p m where c: "choose_loop r health h now pinned (asked_class r requested) = Some (ro_class ro, p, m)"
    "ro_provider ro = pv_id p" "ro_model ro = md_id m" using choose_route_Some [OF Some] by blast
  show ?thesis using choose_loop_Some [OF c(1)] c(2,3) Some by auto
qed

text \<open>The registry as shipped, on a host with the Claude login, and nobody busy.\<close>

definition plain_host :: host where
  "plain_host = \<lparr>h_get = \<lambda>_. None, h_file = \<lambda>_. None, h_file_len = \<lambda>_. None, h_subscription = True\<rparr>"

definition idle :: "rstr \<Rightarrow> health" where
  "idle = (\<lambda>_. \<lparr>hl_utilization = None, hl_backoff = 0\<rparr>)"

lemma default_usable: "usable_with plain_host (hd (rg_providers default_registry))"
  by (simp add: usable_with_def credential_ready_with_def unusable_reason_def user_id_refusal_def default_registry_def plain_host_def)

lemma default_candidates:
  "candidates_pinned plain_host now None Heavy default_registry =
     [(hd (rg_providers default_registry), new_model (lit ''claude-opus-5-5'') Heavy 400)]"
  using default_usable
  by (simp add: candidates_pinned_def allowed_providers_def default_registry_def usable_with_def model_for_def min_by_key_def
      choose_best_def keep_best_def new_model_def cost_at_def List.map_filter_simps)

text \<open>On the registry as shipped, a request for the most capable model is answered by a cheaper one of the same
  provider and class and reported as rerouted, although that provider serves the model asked for, idle.\<close>

theorem named_model_not_served:
  "choose_route default_registry (lit ''claude-fable-5-1'') None kind idle plain_host now =
     Some \<lparr>ro_provider = lit ''anthropic'', ro_model = lit ''claude-opus-5-5'', ro_class = Heavy, ro_kind = kind,
           ro_changed_from = Some (lit ''claude-fable-5-1''), ro_reason = Some Rerouted\<rparr>"
proof -
  have "asked_class default_registry (lit ''claude-fable-5-1'') = Heavy"
    by (simp add: asked_class_def class_of_def all_models_def default_registry_def new_model_def lit_def)
  moreover have "choose_loop default_registry idle plain_host now None Heavy =
      Some (Heavy, hd (rg_providers default_registry), new_model (lit ''claude-opus-5-5'') Heavy 400)"
    by (simp add: choose_loop.simps [of default_registry] pick_in_def default_candidates idle_def blocked_def strained_def)
  ultimately show ?thesis by (simp add: choose_route_def Let_def new_model_def default_registry_def lit_def)
qed

theorem choose_is_best_witness:
  "\<exists>ro p m. choose_route default_registry (lit ''claude-opus-5-5'') None KWork idle plain_host 0 = Some ro \<and> ro_class ro \<le> Heavy \<and>
     may_serve default_registry idle plain_host None p \<and> model_for p (ro_class ro) 0 = Some m \<and> ro_model ro = md_id m"
proof -
  have a: "asked_class default_registry (lit ''claude-opus-5-5'') = Heavy"
    by (simp add: asked_class_def class_of_def all_models_def default_registry_def new_model_def lit_def)
  have "may_serve default_registry idle plain_host None (hd (rg_providers default_registry))"
    using default_usable by (simp add: may_serve_def idle_def blocked_def) (simp add: default_registry_def)
  moreover have "model_for (hd (rg_providers default_registry)) Heavy 0 \<noteq> None"
    by (simp add: model_for_None default_registry_def new_model_def)
  ultimately have "choose_route default_registry (lit ''claude-opus-5-5'') None KWork idle plain_host 0 \<noteq> None"
    using choose_is_best [where r = default_registry and requested = "lit ''claude-opus-5-5''" and pinned = None and kind = KWork
        and health = idle and h = plain_host and now = 0] a by (auto split: option.splits)
  then show ?thesis
    using choose_is_best [where r = default_registry and requested = "lit ''claude-opus-5-5''" and pinned = None and kind = KWork
        and health = idle and h = plain_host and now = 0] a by (auto split: option.splits)
qed

text \<open>Wherever the relay sends a request, pinned, routed or chosen: the provider is enabled, has its credential, is
  not told to back off and lists the model as current; and the host's own Claude login goes to Anthropic's
  host only.\<close>

theorem picked_route_sound:
  assumes "pick_route r a requested kind health server_tool h now = Some ro"
  shows "sound_route r health h ro"
  using assms base_route_sound choose_exact_sound
  by (fastforce simp: pick_route_def Let_def split: option.splits)

theorem picked_route_sound_witness:
  "sound_route default_registry idle plain_host
     \<lparr>ro_provider = lit ''anthropic'', ro_model = lit ''claude-opus-5-5'', ro_class = Heavy, ro_kind = KWork,
      ro_changed_from = Some (lit ''claude-fable-5-1''), ro_reason = Some Rerouted\<rparr>"
proof (rule picked_route_sound)
  have a: "asked_class default_registry (lit ''claude-fable-5-1'') = Heavy"
    by (simp add: asked_class_def class_of_def all_models_def default_registry_def new_model_def lit_def)
  have l: "choose_loop default_registry idle plain_host 0 None Heavy =
      Some (Heavy, hd (rg_providers default_registry), new_model (lit ''claude-opus-5-5'') Heavy 400)"
    by (simp add: choose_loop.simps [of default_registry] pick_in_def default_candidates idle_def blocked_def strained_def)
  show "pick_route default_registry \<lparr>ac_provider = None, ac_model = None, ac_routes = []\<rparr> (lit ''claude-fable-5-1'') KWork idle None
      plain_host 0 = Some \<lparr>ro_provider = lit ''anthropic'', ro_model = lit ''claude-opus-5-5'', ro_class = Heavy, ro_kind = KWork,
      ro_changed_from = Some (lit ''claude-fable-5-1''), ro_reason = Some Rerouted\<rparr>"
    by (simp add: pick_route_def base_route_def route_matching_def choose_route_def a l)
      (simp add: Let_def new_model_def default_registry_def lit_def)
qed

text \<open>The auto-mode judge moves only when a route names it: if no route of the account asks for the classifier, its
  requests go where the ordinary decision sends them, whatever else the routes say.\<close>

theorem classifier_not_moved:
  assumes "\<forall>mr \<in> set (ac_routes a). mr_kind mr \<noteq> Some KClassifier"
  shows "pick_route r a requested KClassifier health server_tool h now = base_route r a requested KClassifier health h now"
  by (rule unnamed_classifier_stays [OF assms])

definition to_flash :: model_route where
  "to_flash = \<lparr>mr_from = None, mr_kind = None, mr_from_provider = Some (lit ''anthropic''), mr_tool = None,
     mr_to_model = lit ''deepseek-flash'', mr_to_provider = None\<rparr>"

theorem classifier_not_moved_witness:
  "pick_route default_registry \<lparr>ac_provider = None, ac_model = None, ac_routes = [to_flash]\<rparr> (lit ''x'') KClassifier idle None plain_host 0 =
   base_route default_registry \<lparr>ac_provider = None, ac_model = None, ac_routes = [to_flash]\<rparr> (lit ''x'') KClassifier idle plain_host 0"
  by (rule classifier_not_moved) (simp add: to_flash_def)

text \<open>A pinned account does not stay on its provider once a model is pinned too: when the pinned provider is told to
  back off, or is switched off, or does not list the model, any other provider that serves the model gets the
  work. A per-person route with a destination provider leaves that provider in the same way.\<close>

theorem exact_route_leaves_pin:
  assumes "\<forall>p \<in> set (rg_providers r). pv_id p = i \<longrightarrow> \<not> usable_with h p \<or> blocked (health i) \<or> serves p target = None"
    and "q \<in> set (rg_providers r)" and "usable_with h q" and "\<not> blocked (health (pv_id q))" and "serves q target \<noteq> None"
  shows "\<exists>ro. choose_exact r target (Some i) kind health h now = Some ro \<and> ro_provider ro \<noteq> i \<and> ro_reason ro = Some Pinned"
proof -
  have none: "pick_exact r target health h now (Some i) = None" using assms(1) by (auto simp: pick_exact_None may_serve_def)
  have "may_serve r health h None q" using assms(2-4) by (simp add: may_serve_def)
  then have "pick_exact r target health h now None \<noteq> None" using assms(5) by (auto simp: pick_exact_None)
  then obtain p m where pm: "pick_exact r target health h now None = Some (p, m)" by auto
  from pick_exact_Some [OF pm] have s: "may_serve r health h None p" "serves p target = Some m" by blast+
  have "pv_id p \<noteq> i"
  proof
    assume "pv_id p = i"
    then have "may_serve r health h (Some i) p" using s(1) by (simp add: may_serve_def)
    then show False using none s(2) by (auto simp: pick_exact_None)
  qed
  then show ?thesis using none pm by (simp add: choose_exact_def)
qed

text \<open>Two providers serve one model; the account is pinned to the second, which is told to back off.\<close>

definition mirror :: provider where
  "mirror = (hd (rg_providers default_registry))\<lparr>pv_id := lit ''mirror'', pv_auth := ApiKeyEnv (lit ''K'')\<rparr>"

definition two_providers :: provider_registry where
  "two_providers = \<lparr>rg_providers = rg_providers default_registry @ [mirror]\<rparr>"

definition mirror_busy :: "rstr \<Rightarrow> health" where
  "mirror_busy i = \<lparr>hl_utilization = None, hl_backoff = (if i = lit ''mirror'' then 60 else 0)\<rparr>"

theorem exact_route_leaves_pin_witness:
  "\<exists>ro. choose_exact two_providers (lit ''claude-opus-5-5'') (Some (lit ''mirror'')) KWork mirror_busy plain_host 0 = Some ro \<and>
     ro_provider ro \<noteq> lit ''mirror'' \<and> ro_reason ro = Some Pinned"
  by (rule exact_route_leaves_pin [where q = "hd (rg_providers default_registry)"])
    (use default_usable in \<open>auto simp: two_providers_def mirror_def mirror_busy_def blocked_def default_registry_def serves_def new_model_def lit_def\<close>)

end
