(* ===== verification/Budget.thy ===== *)
theory Budget
  imports Routing "HOL-Library.AList"
begin

text \<open>
  What the proxy reads off a request body: the completion budget (\<^verbatim>\<open>budget.rs\<close>), its use in the relay
  (\<^verbatim>\<open>fit_completion\<close> in \<^verbatim>\<open>http/controllers/relay.rs\<close>) and the detection of the auto-mode judge
  (\<^verbatim>\<open>classifier.rs\<close>). Bodies are the values \<^verbatim>\<open>serde_json\<close> yields, all under
  \<^verbatim>\<open>src/crates/tab-atelier-proxy/src\<close>.
\<close>

section \<open>JSON values\<close>

text \<open>
  A number is an unsigned 64-bit one or any other, by its text; an object has each key once.
\<close>

datatype json_number = U64 nat | OtherNumber rstr

datatype json =
    JNull
  | JBool bool
  | JNum json_number
  | JStr rstr
  | JArr "json list"
  | JObj "(rstr \<times> json) list"

definition json_get :: "rstr \<Rightarrow> json \<Rightarrow> json option" where
  "json_get k v = (case v of JObj m \<Rightarrow> map_of m k | _ \<Rightarrow> None)"

definition as_str :: "json option \<Rightarrow> rstr option" where
  "as_str v = (case v of Some (JStr s) \<Rightarrow> Some s | _ \<Rightarrow> None)"

section \<open>The budget\<close>

definition context_margin :: nat where
  "context_margin = 8192"

definition min_completion :: nat where
  "min_completion = 4096"

definition image_tokens :: nat where
  "image_tokens = 1600"

datatype budget = Unchanged nat | Clamped nat nat | TooLong nat nat

definition fit :: "nat \<Rightarrow> nat \<Rightarrow> nat \<Rightarrow> budget" where
  "fit window input requested =
     (let usable = window - context_margin
      in if usable \<le> input then TooLong input usable
         else (let left = usable - input
               in if left < min_completion then TooLong input usable
                  else if requested \<le> left then Unchanged requested
                  else Clamped requested left))"

definition is_media :: "(rstr \<times> json) list \<Rightarrow> bool" where
  "is_media m = (case as_str (map_of m (lit ''type'')) of
                   Some t \<Rightarrow> t = lit ''image'' \<or> t = lit ''document'' | None \<Rightarrow> False)"

definition payload :: "(rstr \<times> json) list \<Rightarrow> rstr option" where
  "payload m = as_str (Option.bind (map_of m (lit ''source'')) (json_get (lit ''data'')))"

text \<open>The bytes and the blocks counted so far are threaded through the walk.\<close>

fun collect_media :: "json \<Rightarrow> nat \<times> nat \<Rightarrow> nat \<times> nat"
  and collect_items :: "json list \<Rightarrow> nat \<times> nat \<Rightarrow> nat \<times> nat"
  and collect_fields :: "(rstr \<times> json) list \<Rightarrow> nat \<times> nat \<Rightarrow> nat \<times> nat" where
  "collect_media (JObj m) acc =
     collect_fields m
       (if is_media m
        then (case payload m of
                Some data \<Rightarrow> (sat_add (fst acc) (byte_len data), sat_add (snd acc) 1)
              | None \<Rightarrow> acc)
        else acc)"
| "collect_media (JArr items) acc = collect_items items acc"
| "collect_media JNull acc = acc"
| "collect_media (JBool b) acc = acc"
| "collect_media (JNum n) acc = acc"
| "collect_media (JStr s) acc = acc"
| "collect_items [] acc = acc"
| "collect_items (v # vs) acc = collect_items vs (collect_media v acc)"
| "collect_fields [] acc = acc"
| "collect_fields ((k, v) # m) acc = collect_fields m (collect_media v acc)"

definition estimate_input :: "json \<Rightarrow> nat \<Rightarrow> nat" where
  "estimate_input body raw_len =
     (let (media_bytes, media_blocks) = collect_media body (0, 0);
          text_bytes = raw_len - media_bytes
      in (text_bytes + media_blocks * image_tokens * 4) div 4)"

section \<open>The relay's use of it\<close>

definition as_u64 :: "json option \<Rightarrow> nat option" where
  "as_u64 v = (case v of Some (JNum (U64 n)) \<Rightarrow> Some n | _ \<Rightarrow> None)"

definition set_field :: "rstr \<Rightarrow> json \<Rightarrow> json \<Rightarrow> json" where
  "set_field k x v = (case v of JObj m \<Rightarrow> JObj (AList.update k x m) | _ \<Rightarrow> v)"

text \<open>\<open>None\<close> forwards the bytes as they came; a value is what is encoded instead.\<close>

definition fit_completion :: "provider_registry \<Rightarrow> route \<Rightarrow> json option \<Rightarrow> nat \<Rightarrow> json option" where
  "fit_completion r ro parsed body_len =
     (case as_u64 (Option.bind parsed (json_get (lit ''max_tokens''))) of
        None \<Rightarrow> None
      | Some requested_max \<Rightarrow>
          (let window = context_window r (ro_provider ro) (ro_model ro);
               v = (case parsed of Some v \<Rightarrow> v | None \<Rightarrow> JNull)
           in case fit window (estimate_input v body_len) requested_max of
                Unchanged _ \<Rightarrow> None
              | TooLong _ _ \<Rightarrow> None
              | Clamped _ completion \<Rightarrow> Some (set_field (lit ''max_tokens'') (JNum (U64 completion)) v)))"

section \<open>The auto-mode judge\<close>

definition verdict_tag :: rstr where
  "verdict_tag = lit ''</severity>''"

definition system_marker :: rstr where
  "system_marker = lit ''You are a security monitor for autonomous AI coding agents''"

definition mentions_monitor_prompt :: "json \<Rightarrow> bool" where
  "mentions_monitor_prompt body =
     (case json_get (lit ''system'') body of
        Some (JStr s) \<Rightarrow> str_contains s system_marker
      | Some (JArr blocks) \<Rightarrow>
          list_ex (\<lambda>b. case as_str (json_get (lit ''text'') b) of Some t \<Rightarrow> str_contains t system_marker | None \<Rightarrow> False) blocks
      | _ \<Rightarrow> False)"

definition is_classifier :: "json \<Rightarrow> bool" where
  "is_classifier body \<longleftrightarrow>
     (case json_get (lit ''stop_sequences'') body of
        Some (JArr seqs) \<Rightarrow> list_ex (\<lambda>s. as_str (Some s) = Some verdict_tag) seqs
      | _ \<Rightarrow> False) \<or> mentions_monitor_prompt body"

definition kind_of :: "json \<Rightarrow> kind" where
  "kind_of body = (if is_classifier body then KClassifier else KWork)"

section \<open>Properties\<close>

lemma get_set_field:
  "json_get k (set_field k' x v) = (case v of JObj m \<Rightarrow> if k = k' then Some x else map_of m k | _ \<Rightarrow> None)"
  by (cases v) (auto simp: json_get_def set_field_def update_conv')

lemma get_set_other: "k \<noteq> k' \<Longrightarrow> json_get k (set_field k' x v) = json_get k v"
  by (cases v) (simp_all add: json_get_def set_field_def update_conv')

lemma get_set_same: "json_get k v \<noteq> None \<Longrightarrow> json_get k (set_field k x v) = Some x"
  by (cases v) (simp_all add: json_get_def set_field_def update_conv')

lemma update_same: "map_of m k = Some x \<Longrightarrow> AList.update k x m = m"
  by (induction m) auto

lemma update_twice: "AList.update k x (AList.update k y m) = AList.update k x m"
  by (induction m) auto

lemma set_field_same: "json_get k v = Some x \<Longrightarrow> set_field k x v = v"
  by (cases v) (simp_all add: json_get_def set_field_def update_same)

lemma set_field_twice: "set_field k x (set_field k y v) = set_field k x v"
  by (cases v) (simp_all add: set_field_def update_twice)

lemma fit_Clamped:
  "fit window input requested = Clamped q c \<Longrightarrow> min_completion \<le> c \<and> c < requested \<and> input + c + context_margin = window"
  by (auto simp: fit_def Let_def min_completion_def context_margin_def split: if_splits)

text \<open>The completion granted always fits: with the margin and the estimated input it stays inside the window; it is
  what was asked for when that fits, else the most that does; and the answer is "too long" exactly when less
  than the least useful completion would be left.\<close>

theorem fit_stays_in_window:
  "case fit window input requested of
     Unchanged c \<Rightarrow> c = requested \<and> input + max c min_completion + context_margin \<le> window
   | Clamped q c \<Rightarrow> q = requested \<and> min_completion \<le> c \<and> c < requested \<and> input + c + context_margin = window
   | TooLong i u \<Rightarrow> i = input \<and> window < input + min_completion + context_margin"
  by (auto simp: fit_def Let_def min_completion_def context_margin_def)

text \<open>What the relay changes in a body is the completion reservation alone: the rewritten body asks for less than
  the client did, fits the window of the model the route names, and has every other field as it was.\<close>

theorem fit_completion_clamps_only:
  assumes "fit_completion r ro (Some v) n = Some w"
  shows "\<exists>asked c. as_u64 (json_get (lit ''max_tokens'') v) = Some asked \<and> as_u64 (json_get (lit ''max_tokens'') w) = Some c \<and>
    min_completion \<le> c \<and> c < asked \<and>
    estimate_input v n + c + context_margin = context_window r (ro_provider ro) (ro_model ro) \<and>
    (\<forall>k. k \<noteq> lit ''max_tokens'' \<longrightarrow> json_get k w = json_get k v)"
proof -
  let ?k = "lit ''max_tokens''"
  obtain asked q c where a: "as_u64 (json_get ?k v) = Some asked"
    "fit (context_window r (ro_provider ro) (ro_model ro)) (estimate_input v n) asked = Clamped q c"
    "w = set_field ?k (JNum (U64 c)) v"
    using assms by (auto simp: fit_completion_def Let_def split: option.splits budget.splits)
  have f: "min_completion \<le> c \<and> c < asked \<and> estimate_input v n + c + context_margin = context_window r (ro_provider ro) (ro_model ro)"
    by (rule fit_Clamped [OF a(2)])
  obtain m where m: "v = JObj m" using a(1) by (cases v) (auto simp: as_u64_def json_get_def)
  have "json_get k w = (if k = ?k then Some (JNum (U64 c)) else map_of m k)" for k unfolding a(3) get_set_field m by simp
  then show ?thesis using a(1) f m by (auto simp: as_u64_def json_get_def)
qed

text \<open>The session the source names: 921,123 estimated tokens of input asking for 128,000.\<close>

definition long_session :: json where
  "long_session = JObj [(lit ''max_tokens'', JNum (U64 128000)), (lit ''messages'', JArr [])]"

definition opus_route :: route where
  "opus_route = \<lparr>ro_provider = lit ''anthropic'', ro_model = lit ''claude-opus-5-5'', ro_class = Heavy, ro_kind = KWork,
     ro_changed_from = None, ro_reason = None\<rparr>"

theorem fit_completion_clamps_only_witness:
  "\<exists>w c. fit_completion default_registry opus_route (Some long_session) 3684492 = Some w \<and>
     as_u64 (json_get (lit ''max_tokens'') w) = Some c \<and> c < 128000 \<and> json_get (lit ''messages'') w = Some (JArr [])"
proof -
  have "context_window default_registry (ro_provider opus_route) (ro_model opus_route) = 1048576"
    by (simp add: context_window_def get_provider_def default_registry_def opus_route_def serves_def new_model_def lit_def
        default_context_window_def)
  moreover have "estimate_input long_session 3684492 = 921123"
    by (simp add: estimate_input_def long_session_def is_media_def as_str_def lit_def)
  ultimately obtain w where w: "fit_completion default_registry opus_route (Some long_session) 3684492 = Some w"
    by (simp add: fit_completion_def fit_def as_u64_def json_get_def long_session_def context_margin_def min_completion_def)
  show ?thesis
    using w fit_completion_clamps_only [OF w] by (auto simp: long_session_def json_get_def as_u64_def lit_def)
qed

definition text_document :: "rstr \<Rightarrow> json" where
  "text_document data =
     JObj [(lit ''messages'', JArr [JObj [(lit ''role'', JStr (lit ''user'')),
       (lit ''content'', JArr [JObj [(lit ''type'', JStr (lit ''document'')),
          (lit ''source'', JObj [(lit ''type'', JStr (lit ''text'')), (lit ''data'', JStr data)])]])]])]"

lemma text_document_media: "collect_media (text_document data) (0, 0) = (min (byte_len data) u64_max, 1)"
  by (simp add: text_document_def is_media_def payload_def as_str_def json_get_def lit_def sat_add_def u64_max_def)

text \<open>A document whose source is plain text is counted as one image however long it is, so its text does not reach
  the budget: the estimate depends on the rest of the body only.\<close>

theorem text_document_uncounted:
  assumes "byte_len data + rest \<le> u64_max"
  shows "estimate_input (text_document data) (byte_len data + rest) = (rest + 6400) div 4"
  using assms by (simp add: estimate_input_def text_document_media image_tokens_def)

theorem text_document_uncounted_witness:
  "estimate_input (text_document (replicate 3 97)) (3 + 100) = (100 + 6400) div 4"
  using text_document_uncounted [of "replicate 3 97" 100]
  by (simp add: byte_len_def utf8_def utf8_char_def u64_max_def numeral_3_eq_3)

end
