(* ===== verification/Claims.thy ===== *)
theory Claims
  imports Blackboard
begin

text \<open>
  Leases over named keys: the table of \<^verbatim>\<open>src/src/claims.rs\<close>, its persistence, and the two handlers
  of \<^verbatim>\<open>src/src/api/claims_route.rs\<close>. serde's codec of the table and the fields read from a request
  body are parameters; the clock readings are arguments.
\<close>

section \<open>Claims and the table\<close>

definition default_ttl_ms :: u64 where "default_ttl_ms = 300000"

definition min_ttl_ms :: u64 where "min_ttl_ms = 1000"

definition max_ttl_ms :: u64 where "max_ttl_ms = 6 * 3600000"

definition max_key :: nat where "max_key = 200"

definition max_holder :: nat where "max_holder = 100"

record claim =
  c_key :: rstr
  c_holder :: rstr
  c_granted :: u64
  c_expires :: u64
  c_fence :: u64

definition live_at :: "claim \<Rightarrow> u64 \<Rightarrow> bool" where
  "live_at c now \<longleftrightarrow> now < c_expires c"

definition remaining_ms :: "claim \<Rightarrow> u64 \<Rightarrow> u64" where
  "remaining_ms c now = c_expires c - now"

datatype grant_error = Held claim | Invalid rstr

record registry =
  rg_claims :: "(rstr, claim) omap"
  rg_next_fence :: u64

definition empty_registry :: registry where
  "empty_registry = \<lparr>rg_claims = [], rg_next_fence = 0\<rparr>"

definition sanitize :: "rstr \<Rightarrow> rstr \<Rightarrow> nat \<Rightarrow> rstr + rstr" where
  "sanitize what s mx =
     (let t = trim s in
      if t = [] then Inl (what @ lit '' is empty'')
      else if mx < length t then Inl (what @ lit '' is longer than '' @ show_nat mx @ lit '' characters'')
      else if list_ex is_control t then Inl (what @ lit '' contains control characters'')
      else Inr t)"

text \<open>The fence counter is a \<^verbatim>\<open>u64\<close>: the increment wraps in a release build.\<close>

definition grant :: "rstr \<Rightarrow> rstr \<Rightarrow> u64 \<Rightarrow> u64 \<Rightarrow> registry \<Rightarrow> (grant_error + claim) \<times> registry" where
  "grant key0 holder0 ttl_ms now r =
     (case sanitize (lit ''key'') key0 max_key of
        Inl e \<Rightarrow> (Inl (Invalid e), r)
      | Inr key \<Rightarrow>
          (case sanitize (lit ''holder'') holder0 max_holder of
             Inl e \<Rightarrow> (Inl (Invalid e), r)
           | Inr holder \<Rightarrow>
               (let ttl = clamp min_ttl_ms max_ttl_ms ttl_ms;
                    take_it =
                      (let fence = (rg_next_fence r + 1) mod 2 ^ 64;
                           c = \<lparr>c_key = key, c_holder = holder, c_granted = now,
                                c_expires = sat_add now ttl, c_fence = fence\<rparr>
                       in (Inr c, r\<lparr>rg_next_fence := fence, rg_claims := om_insert key c (rg_claims r)\<rparr>))
                in case om_get (rg_claims r) key of
                     None \<Rightarrow> take_it
                   | Some cur \<Rightarrow>
                       if live_at cur now \<and> c_holder cur \<noteq> holder then (Inl (Held cur), r)
                       else take_it)))"

definition release :: "rstr \<Rightarrow> rstr \<Rightarrow> u64 \<Rightarrow> registry \<Rightarrow> bool \<times> registry" where
  "release key holder now r =
     (case om_get (rg_claims r) key of
        None \<Rightarrow> (False, r)
      | Some cur \<Rightarrow>
          if c_holder cur \<noteq> holder \<or> \<not> live_at cur now then (False, r)
          else (True, r\<lparr>rg_claims := om_remove key (rg_claims r)\<rparr>))"

definition lease_of :: "rstr \<Rightarrow> u64 \<Rightarrow> registry \<Rightarrow> claim option" where
  "lease_of key now r =
     (case om_get (rg_claims r) key of
        None \<Rightarrow> None
      | Some c \<Rightarrow> if live_at c now then Some c else None)"

definition active :: "u64 \<Rightarrow> registry \<Rightarrow> claim list" where
  "active now r = filter (\<lambda>c. live_at c now) (om_values (rg_claims r))"

definition gc :: "u64 \<Rightarrow> registry \<Rightarrow> registry" where
  "gc now r = r\<lparr>rg_claims := om_retain (\<lambda>_ c. live_at c now) (rg_claims r)\<rparr>"

definition lease_count :: "u64 \<Rightarrow> registry \<Rightarrow> nat" where
  "lease_count now r = length (filter (\<lambda>c. live_at c now) (om_values (rg_claims r)))"

definition no_leases :: "u64 \<Rightarrow> registry \<Rightarrow> bool" where
  "no_leases now r \<longleftrightarrow> lease_count now r = 0"

section \<open>The host's table and its file\<close>

text \<open>
  \<^verbatim>\<open>with_registry\<close> runs under the lock and hands back the text to persist, if the table changed;
  the write itself happens after the lock is dropped, and may fail.
\<close>

record lease_host =
  lh_mem :: "registry option"
  lh_file :: "rstr option"

definition load_registry :: "(rstr \<Rightarrow> registry option) \<Rightarrow> lease_host \<Rightarrow> registry" where
  "load_registry dec h =
     (case lh_mem h of
        Some r \<Rightarrow> r
      | None \<Rightarrow> (case Option.bind (lh_file h) dec of Some r \<Rightarrow> r | None \<Rightarrow> empty_registry))"

definition with_registry ::
    "(registry \<Rightarrow> rstr option) \<Rightarrow> (rstr \<Rightarrow> registry option) \<Rightarrow> u64 \<Rightarrow> (registry \<Rightarrow> 'a \<times> registry)
     \<Rightarrow> lease_host \<Rightarrow> ('a \<times> rstr option) \<times> lease_host" where
  "with_registry enc dec gc_now f h =
     (let before = gc gc_now (load_registry dec h);
          (out, reg) = f before;
          changed = (rg_claims reg \<noteq> rg_claims before \<or> rg_next_fence reg \<noteq> rg_next_fence before)
      in ((out, if changed then enc reg else None), h\<lparr>lh_mem := Some reg\<rparr>))"

definition persist :: "io_outcome \<Rightarrow> rstr option \<Rightarrow> lease_host \<Rightarrow> lease_host" where
  "persist io body h =
     (case body of
        None \<Rightarrow> h
      | Some b \<Rightarrow>
          (case io of
             IoOk \<Rightarrow> h\<lparr>lh_file := Some b\<rparr>
           | OpenFails _ \<Rightarrow> h
           | WriteFails k _ \<Rightarrow> h\<lparr>lh_file := Some (take k b)\<rparr>))"

section \<open>The handlers\<close>

datatype 'a reply = Doc nat 'a | Problem nat rstr

record grant_doc =
  gd_granted :: bool
  gd_claim :: claim
  gd_now :: u64

text \<open>
  \<open>fstr\<close> and \<open>fnat\<close> read a string and an unsigned member of the JSON object in a request body, as
  \<^verbatim>\<open>get(..).and_then(as_str)\<close> and \<^verbatim>\<open>as_u64\<close> do; a body that is no such object has no member.
\<close>

definition quoted :: "string \<Rightarrow> rstr" where
  "quoted s = [34] @ lit s @ [34]"

definition grant_route ::
    "(rstr \<Rightarrow> rstr \<Rightarrow> rstr option) \<Rightarrow> (rstr \<Rightarrow> rstr \<Rightarrow> u64 option)
     \<Rightarrow> (registry \<Rightarrow> rstr option) \<Rightarrow> (rstr \<Rightarrow> registry option) \<Rightarrow> u64 \<Rightarrow> u64 \<Rightarrow> rstr \<Rightarrow> lease_host
     \<Rightarrow> (grant_doc reply \<times> rstr option) \<times> lease_host" where
  "grant_route fstr fnat enc dec now gc_now body h =
     (case (fstr body (lit ''key''), fstr body (lit ''holder'')) of
        (Some key, Some holder) \<Rightarrow>
          (let ttl = (case fnat body (lit ''ttl_ms'') of Some t \<Rightarrow> t | None \<Rightarrow> default_ttl_ms);
               ((res, out), h') = with_registry enc dec gc_now (grant key holder ttl now) h
           in ((case res of
                  Inr c \<Rightarrow> Doc 200 \<lparr>gd_granted = True, gd_claim = c, gd_now = now\<rparr>
                | Inl (Held c) \<Rightarrow> Doc 409 \<lparr>gd_granted = False, gd_claim = c, gd_now = now\<rparr>
                | Inl (Invalid e) \<Rightarrow> Problem 400 e, out), h'))
      | _ \<Rightarrow>
          ((Problem 400
              (lit ''expected {'' @ quoted ''key'' @ lit '':'' @ [34, 8230, 34] @ lit '','' @ quoted ''holder''
                @ lit '':'' @ [34, 8230, 34] @ lit '','' @ quoted ''ttl_ms'' @ lit '':'' @ [8230] @ lit ''}''),
            None), h))"

definition release_route ::
    "(rstr \<Rightarrow> rstr \<Rightarrow> rstr option) \<Rightarrow> (registry \<Rightarrow> rstr option) \<Rightarrow> (rstr \<Rightarrow> registry option)
     \<Rightarrow> u64 \<Rightarrow> u64 \<Rightarrow> rstr \<Rightarrow> lease_host \<Rightarrow> (bool reply \<times> rstr option) \<times> lease_host" where
  "release_route fstr enc dec now gc_now body h =
     (case (fstr body (lit ''key''), fstr body (lit ''holder'')) of
        (Some key, Some holder) \<Rightarrow>
          (let ((released, out), h') = with_registry enc dec gc_now (release (trim key) (trim holder) now) h
           in ((Doc 200 released, out), h'))
      | _ \<Rightarrow>
          ((Problem 400
              (lit ''expected {'' @ quoted ''key'' @ lit '':'' @ [34, 8230, 34] @ lit '','' @ quoted ''holder''
                @ lit '':'' @ [34, 8230, 34] @ lit ''}''),
            None), h))"

section \<open>Single operations\<close>

definition registry_ok :: "registry \<Rightarrow> bool" where
  "registry_ok r \<longleftrightarrow>
     om_inv (rg_claims r) \<and> rg_next_fence r < 2 ^ 64 \<and>
     (\<forall>(k, c) \<in> set (rg_claims r). c_key c = k \<and> 0 < c_fence c \<and> c_fence c \<le> rg_next_fence r)"

lemma registry_ok_get:
  "registry_ok r \<Longrightarrow> om_get (rg_claims r) k = Some c \<Longrightarrow>
     c_key c = k \<and> 0 < c_fence c \<and> c_fence c \<le> rg_next_fence r"
  by (auto simp: registry_ok_def om_get_iff)

lemma registry_okI:
  assumes "om_inv (rg_claims r)" "rg_next_fence r < 2 ^ 64"
    and "\<And>k c. om_get (rg_claims r) k = Some c \<Longrightarrow> c_key c = k \<and> 0 < c_fence c \<and> c_fence c \<le> rg_next_fence r"
  shows "registry_ok r"
  using assms by (auto simp: registry_ok_def om_get_iff)

lemma registry_ok_inv: "registry_ok r \<Longrightarrow> om_inv (rg_claims r)"
  by (simp add: registry_ok_def)

lemma registry_ok_empty: "registry_ok empty_registry"
  by (simp add: registry_ok_def empty_registry_def)

lemma gc_get:
  "registry_ok r \<Longrightarrow> om_get (rg_claims (gc t r)) k = lease_of k t r"
  by (simp add: gc_def lease_of_def om.get_retain registry_ok_inv split: option.splits)

lemma gc_fence [simp]: "rg_next_fence (gc t r) = rg_next_fence r"
  by (simp add: gc_def)

lemma lease_of_Some: "lease_of k t r = Some c \<longleftrightarrow> om_get (rg_claims r) k = Some c \<and> t < c_expires c"
  by (auto simp: lease_of_def live_at_def split: option.splits)

lemma registry_ok_gc: "registry_ok r \<Longrightarrow> registry_ok (gc t r)"
  by (rule registry_okI)
    (auto simp: gc_get lease_of_Some registry_ok_get, auto simp: gc_def registry_ok_def om.inv_retain)

lemma sanitize_trim: "sanitize what s mx = Inr t \<Longrightarrow> t = trim s \<and> t \<noteq> [] \<and> length t \<le> mx"
  by (auto simp: sanitize_def Let_def split: if_splits)

text \<open>A grant in one equation per outcome.\<close>

definition granted_claim :: "rstr \<Rightarrow> rstr \<Rightarrow> u64 \<Rightarrow> u64 \<Rightarrow> registry \<Rightarrow> claim" where
  "granted_claim key holder ttl now r =
     \<lparr>c_key = key, c_holder = holder, c_granted = now,
      c_expires = sat_add now (clamp min_ttl_ms max_ttl_ms ttl),
      c_fence = (rg_next_fence r + 1) mod 2 ^ 64\<rparr>"

lemma granted_claim_sel [simp]:
  "c_key (granted_claim k h ttl now r) = k" "c_holder (granted_claim k h ttl now r) = h"
  "c_fence (granted_claim k h ttl now r) = (rg_next_fence r + 1) mod 2 ^ 64"
  by (simp_all add: granted_claim_def)

lemma grant_cases:
  assumes "grant k0 h0 ttl now r = (res, r')"
  obtains (invalid) e where "res = Inl (Invalid e)" "r' = r"
  | (held) k cur where "sanitize (lit ''key'') k0 max_key = Inr k" "om_get (rg_claims r) k = Some cur"
      "live_at cur now" "sanitize (lit ''holder'') h0 max_holder \<noteq> Inr (c_holder cur)"
      "res = Inl (Held cur)" "r' = r"
  | (granted) k h where "sanitize (lit ''key'') k0 max_key = Inr k" "sanitize (lit ''holder'') h0 max_holder = Inr h"
      "res = Inr (granted_claim k h ttl now r)"
      "\<And>cur. om_get (rg_claims r) k = Some cur \<Longrightarrow> live_at cur now \<Longrightarrow> c_holder cur = h"
      "r' = r\<lparr>rg_next_fence := (rg_next_fence r + 1) mod 2 ^ 64,
              rg_claims := om_insert k (granted_claim k h ttl now r) (rg_claims r)\<rparr>"
proof (cases "sanitize (lit ''key'') k0 max_key")
  case (Inl e)
  with assms show ?thesis by (intro invalid [of e]) (simp_all add: grant_def)
next
  case k: (Inr k)
  show ?thesis
  proof (cases "sanitize (lit ''holder'') h0 max_holder")
    case (Inl e)
    with assms k show ?thesis by (intro invalid [of e]) (simp_all add: grant_def)
  next
    case h: (Inr h)
    show ?thesis
    proof (cases "\<exists>cur. om_get (rg_claims r) k = Some cur \<and> live_at cur now \<and> c_holder cur \<noteq> h")
      case True
      then obtain cur where cur: "om_get (rg_claims r) k = Some cur" "live_at cur now" "c_holder cur \<noteq> h"
        by blast
      then have "res = Inl (Held cur)" "r' = r" using assms k h by (simp_all add: grant_def Let_def)
      with cur k h show ?thesis by (intro held [of k cur]) simp_all
    next
      case False
      then have "(res, r') =
        (Inr (granted_claim k h ttl now r),
         r\<lparr>rg_next_fence := (rg_next_fence r + 1) mod 2 ^ 64,
           rg_claims := om_insert k (granted_claim k h ttl now r) (rg_claims r)\<rparr>)"
        using assms k h
        by (cases "om_get (rg_claims r) k") (auto simp: grant_def Let_def granted_claim_def split: if_splits)
      with False k h show ?thesis by (intro granted [of k h]) auto
    qed
  qed
qed

lemma release_cases:
  assumes "release k h now r = (b, r')"
  obtains (kept) "\<not> b" "r' = r"
  | (freed) cur where "b" "om_get (rg_claims r) k = Some cur" "c_holder cur = h" "live_at cur now"
      "r' = r\<lparr>rg_claims := om_remove k (rg_claims r)\<rparr>"
  using assms by (auto simp: release_def split: option.splits if_splits)

lemma registry_ok_grant:
  assumes ok: "registry_ok r" and room: "rg_next_fence r + 1 < 2 ^ 64" and g: "grant k h ttl now r = (res, r')"
  shows "registry_ok r'"
  using g
proof (cases rule: grant_cases)
  case (granted k' h')
  have f: "(rg_next_fence r + 1) mod 2 ^ 64 = rg_next_fence r + 1"
    using room by (rule mod_less)
  show ?thesis
  proof (rule registry_okI)
    show "om_inv (rg_claims r')" using granted ok by (simp add: om.inv_insert registry_ok_inv)
    show "rg_next_fence r' < 2 ^ 64" using granted room f by simp
    fix j c assume "om_get (rg_claims r') j = Some c"
    then show "c_key c = j \<and> 0 < c_fence c \<and> c_fence c \<le> rg_next_fence r'"
      using granted ok f
      by (auto simp: om.get_insert registry_ok_inv split: if_splits dest: registry_ok_get [OF ok])
  qed
qed (use ok in simp_all)

lemma registry_ok_release:
  assumes ok: "registry_ok r" and g: "release k h now r = (b, r')"
  shows "registry_ok r'"
  using g
proof (cases rule: release_cases)
  case (freed cur)
  show ?thesis
  proof (rule registry_okI)
    show "om_inv (rg_claims r')" using freed ok by (simp add: om.inv_remove registry_ok_inv)
    show "rg_next_fence r' < 2 ^ 64" using freed ok by (simp add: registry_ok_def)
    fix j c assume "om_get (rg_claims r') j = Some c"
    then show "c_key c = j \<and> 0 < c_fence c \<and> c_fence c \<le> rg_next_fence r'"
      using freed ok by (auto simp: om.get_remove registry_ok_inv split: if_splits dest: registry_ok_get [OF ok])
  qed
qed (use ok in simp)

section \<open>Runs of a host\<close>

text \<open>
  A host serves one request after another under the lock, each clock reading no earlier than the last and the
  handler's own reading taken before the one under the lock. The texts to write back are written outside the lock: in
  any order, late, and each of them may fail. A restart forgets what is in memory and every write still to come. It is
  counted as part of the run when the file then reads back as the table the host has in memory, lapsed leases aside
  (\<open>caught_up\<close>); \<open>lease_lost_by_late_write\<close> below is what happens otherwise.
\<close>

datatype lease_op = OpGrant rstr rstr u64 u64 | OpRelease rstr rstr u64

datatype lease_event = Granted claim | Released rstr rstr | Refused

fun op_now :: "lease_op \<Rightarrow> u64" where
  "op_now (OpGrant _ _ _ now) = now"
| "op_now (OpRelease _ _ now) = now"

fun lease_call :: "lease_op \<Rightarrow> registry \<Rightarrow> lease_event \<times> registry" where
  "lease_call (OpGrant k h ttl now) r =
     (case grant k h ttl now r of (Inr c, r') \<Rightarrow> (Granted c, r') | (Inl _, r') \<Rightarrow> (Refused, r'))"
| "lease_call (OpRelease k h now) r =
     (case release k h now r of (b, r') \<Rightarrow> (if b then Released k h else Refused, r'))"

type_synonym lease_log = "(u64 \<times> lease_event) list"

definition table_codec_at :: "(registry \<Rightarrow> rstr option) \<Rightarrow> (rstr \<Rightarrow> registry option) \<Rightarrow> registry \<Rightarrow> bool" where
  "table_codec_at enc dec r \<longleftrightarrow> (\<exists>s. enc r = Some s \<and> dec s = Some r)"

definition caught_up :: "(rstr \<Rightarrow> registry option) \<Rightarrow> u64 \<Rightarrow> lease_host \<Rightarrow> bool" where
  "caught_up dec T h \<longleftrightarrow> gc T (load_registry dec (h\<lparr>lh_mem := None\<rparr>)) = gc T (load_registry dec h)"

inductive host_run ::
    "(registry \<Rightarrow> rstr option) \<Rightarrow> (rstr \<Rightarrow> registry option) \<Rightarrow> lease_log \<Rightarrow> lease_host \<Rightarrow> rstr list \<Rightarrow> u64 \<Rightarrow> bool"
  for enc dec where
  start: "host_run enc dec [] \<lparr>lh_mem = None, lh_file = None\<rparr> [] 0"
| serve: "host_run enc dec log h ps T \<Longrightarrow> T \<le> t \<Longrightarrow> op_now op \<le> t \<Longrightarrow>
    with_registry enc dec t (lease_call op) h = ((ev, out), h') \<Longrightarrow>
    host_run enc dec ((t, ev) # log) h' (ps @ (case out of Some b \<Rightarrow> [b] | None \<Rightarrow> [])) t"
| wrote: "host_run enc dec log h (ps @ b # qs) T \<Longrightarrow> host_run enc dec log (persist io (Some b) h) (ps @ qs) T"
| restart: "host_run enc dec log h ps T \<Longrightarrow> caught_up dec T h \<Longrightarrow>
    host_run enc dec log (h\<lparr>lh_mem := None\<rparr>) [] T"

text \<open>A table that was written in full is one a restart may rely on.\<close>

lemma caught_up_when_written:
  assumes "table_codec_at enc dec r" "enc r = Some s"
  shows "caught_up dec T (persist IoOk (Some s) (h\<lparr>lh_mem := Some r\<rparr>))"
  using assms by (auto simp: caught_up_def table_codec_at_def persist_def load_registry_def)

fun touches :: "rstr \<Rightarrow> lease_event \<Rightarrow> bool" where
  "touches k (Granted c) = (c_key c = k)"
| "touches k (Released j _) = (j = k)"
| "touches k Refused = False"

fun last_touch :: "lease_log \<Rightarrow> rstr \<Rightarrow> lease_event option" where
  "last_touch [] k = None"
| "last_touch ((t, e) # log) k = (if touches k e then Some e else last_touch log k)"

fun grants_in :: "lease_log \<Rightarrow> nat" where
  "grants_in [] = 0"
| "grants_in ((t, Granted c) # log) = Suc (grants_in log)"
| "grants_in ((t, _) # log) = grants_in log"

lemma grants_in_le: "grants_in log \<le> length log"
  by (induction log rule: grants_in.induct) auto

text \<open>A table answers for a log: the live leases are the last grants, the counter counts them all.\<close>

definition answers_for :: "registry \<Rightarrow> lease_log \<Rightarrow> u64 \<Rightarrow> bool" where
  "answers_for r log T \<longleftrightarrow>
     registry_ok r \<and> rg_next_fence r = grants_in log \<and>
     (\<forall>k c. T < c_expires c \<longrightarrow> (om_get (rg_claims r) k = Some c \<longleftrightarrow> last_touch log k = Some (Granted c)))"

primrec log_ok :: "lease_log \<Rightarrow> bool" where
  "log_ok [] = True"
| "log_ok (x # log) =
     (log_ok log \<and> (\<forall>y \<in> set log. fst y \<le> fst x) \<and>
      (case snd x of
         Granted c \<Rightarrow>
           (\<forall>c'. last_touch log (c_key c) = Some (Granted c') \<longrightarrow> fst x < c_expires c' \<longrightarrow>
              c_holder c' = c_holder c) \<and> c_fence c = Suc (grants_in log)
       | Released k h \<Rightarrow> \<exists>c. last_touch log k = Some (Granted c) \<and> c_holder c = h
       | Refused \<Rightarrow> True))"

lemma answers_for_later: "answers_for r log T \<Longrightarrow> T \<le> t \<Longrightarrow> answers_for r log t"
  by (simp add: answers_for_def)

lemma answers_for_gc: "answers_for r log T \<Longrightarrow> answers_for (gc T r) log T"
  by (auto simp: answers_for_def registry_ok_gc gc_get lease_of_Some)

lemma answers_for_refused: "answers_for r log T \<Longrightarrow> answers_for r ((T, Refused) # log) T"
  by (simp add: answers_for_def)

text \<open>One call on a table that has just been swept.\<close>

lemma gc_live: "registry_ok r \<Longrightarrow> om_get (rg_claims (gc t r)) k = Some c \<Longrightarrow> t < c_expires c"
  by (simp add: gc_get lease_of_Some)

lemma call_granted:
  assumes a: "answers_for r log t" and swept: "\<And>k c. om_get (rg_claims r) k = Some c \<Longrightarrow> t < c_expires c"
    and room: "Suc (grants_in log) < 2 ^ 64" and le: "now \<le> t"
    and g: "grant k h ttl now r = (Inr c, r')"
  shows "answers_for r' ((t, Granted c) # log) t"
    and "\<And>c'. last_touch log (c_key c) = Some (Granted c') \<Longrightarrow> t < c_expires c' \<Longrightarrow> c_holder c' = c_holder c"
    and "c_fence c = Suc (grants_in log)"
  using g
proof (atomize (full), cases rule: grant_cases)
  case (granted j h')
  have ok: "registry_ok r" and f: "rg_next_fence r = grants_in log" using a by (simp_all add: answers_for_def)
  have m: "(rg_next_fence r + 1) mod 2 ^ 64 = Suc (grants_in log)"
    using room f by (simp only: Suc_eq_plus1 mod_less)
  have c: "c = granted_claim j h' ttl now r" using granted(3) by simp
  have get: "om_get (rg_claims r') = (om_get (rg_claims r))(j \<mapsto> c)"
    using granted(5) c ok by (simp add: om.get_insert registry_ok_inv)
  have "registry_ok r'"
    by (rule registry_ok_grant [OF ok _ g]) (use room f in simp)
  moreover have "rg_next_fence r' = Suc (grants_in log)" using granted(5) m by simp
  moreover have "om_get (rg_claims r') k' = Some c' \<longleftrightarrow> last_touch ((t, Granted c) # log) k' = Some (Granted c')"
    if "t < c_expires c'" for k' c'
    using that a get c by (auto simp: answers_for_def)
  ultimately have "answers_for r' ((t, Granted c) # log) t" by (simp add: answers_for_def)
  moreover have "c_holder c' = c_holder c"
    if "last_touch log (c_key c) = Some (Granted c')" "t < c_expires c'" for c'
  proof -
    have "om_get (rg_claims r) j = Some c'" using that a c by (simp add: answers_for_def)
    with granted(4) that(2) le show ?thesis by (simp add: c live_at_def)
  qed
  moreover have "c_fence c = Suc (grants_in log)" using m by (simp add: c)
  ultimately show "answers_for r' ((t, Granted c) # log) t \<and>
    (\<forall>c'. last_touch log (c_key c) = Some (Granted c') \<longrightarrow> t < c_expires c' \<longrightarrow> c_holder c' = c_holder c) \<and>
    c_fence c = Suc (grants_in log)" by blast
qed simp_all

lemma call_released:
  assumes a: "answers_for r log t" and swept: "\<And>k c. om_get (rg_claims r) k = Some c \<Longrightarrow> t < c_expires c"
    and g: "release k h now r = (True, r')"
  shows "answers_for r' ((t, Released k h) # log) t"
    and "\<exists>c. last_touch log k = Some (Granted c) \<and> c_holder c = h"
  using g
proof (atomize (full), cases rule: release_cases)
  case (freed cur)
  have ok: "registry_ok r" using a by (simp add: answers_for_def)
  have "om_get (rg_claims r') = (om_get (rg_claims r))(k := None)"
    using freed ok by (simp add: om.get_remove registry_ok_inv)
  then have "answers_for r' ((t, Released k h) # log) t"
    using a registry_ok_release [OF ok g] freed by (auto simp: answers_for_def)
  moreover have "last_touch log k = Some (Granted cur)"
    using a freed(2) swept [OF freed(2)] by (simp add: answers_for_def)
  ultimately show "answers_for r' ((t, Released k h) # log) t \<and>
    (\<exists>c. last_touch log k = Some (Granted c) \<and> c_holder c = h)"
    using freed by blast
qed simp

lemma lease_call_ok:
  assumes a: "answers_for r log t" and swept: "\<And>k c. om_get (rg_claims r) k = Some c \<Longrightarrow> t < c_expires c"
    and room: "Suc (grants_in log) < 2 ^ 64" and le: "op_now op \<le> t" and le2: "\<forall>y \<in> set log. fst y \<le> t"
    and lo: "log_ok log" and g: "lease_call op r = (ev, r')"
  shows "answers_for r' ((t, ev) # log) t \<and> log_ok ((t, ev) # log) \<and> (ev = Refused \<longrightarrow> r' = r)"
proof (cases op)
  case (OpGrant k h ttl now)
  obtain res r2 where gr: "grant k h ttl now r = (res, r2)" by fastforce
  show ?thesis
  proof (cases res)
    case (Inl e)
    from gr have "r2 = r" by (cases rule: grant_cases) (simp_all add: Inl)
    with Inl gr g OpGrant a lo le2 show ?thesis by (auto simp: answers_for_refused)
  next
    case (Inr c)
    then have ev: "ev = Granted c" "r' = r2" using gr g OpGrant by simp_all
    have "now \<le> t" using le OpGrant by simp
    note cg = call_granted [OF a swept room this gr [unfolded Inr]]
    show ?thesis using cg lo le2 ev by auto
  qed
next
  case (OpRelease k h now)
  obtain b r2 where re: "release k h now r = (b, r2)" by fastforce
  show ?thesis
  proof (cases b)
    case False
    from re have "r2 = r" by (cases rule: release_cases) (simp_all add: False)
    with False re g OpRelease a lo le2 show ?thesis by (auto simp: answers_for_refused)
  next
    case True
    note cr = call_released [OF a swept re [unfolded True [THEN eqTrueI]]]
    show ?thesis using cr lo le2 True re g OpRelease by auto
  qed
qed

lemma gc_gc: "T \<le> t \<Longrightarrow> gc t (gc T r) = gc t r"
  by (cases r) (auto simp: gc_def om_retain_def live_at_def intro!: filter_cong)

definition host_ok :: "(rstr \<Rightarrow> registry option) \<Rightarrow> lease_log \<Rightarrow> lease_host \<Rightarrow> rstr list \<Rightarrow> u64 \<Rightarrow> bool" where
  "host_ok dec log h ps T \<longleftrightarrow>
     log_ok log \<and> (\<forall>y \<in> set log. fst y \<le> T) \<and> answers_for (gc T (load_registry dec h)) log T \<and>
     (ps \<noteq> [] \<longrightarrow> lh_mem h \<noteq> None)"

lemma host_ok_start: "host_ok dec [] \<lparr>lh_mem = None, lh_file = None\<rparr> [] 0"
proof -
  have "answers_for empty_registry [] 0"
    by (simp add: answers_for_def registry_ok_empty) (simp add: empty_registry_def)
  then show ?thesis by (simp add: host_ok_def load_registry_def answers_for_gc)
qed

lemma host_ok_serve:
  assumes h: "host_ok dec log h ps T" and t: "T \<le> t" "op_now op \<le> t"
    and room: "Suc (grants_in log) < 2 ^ 64"
    and w: "with_registry enc dec t (lease_call op) h = ((ev, out), h')"
  shows "host_ok dec ((t, ev) # log) h' qs t"
proof -
  let ?b = "gc t (load_registry dec h)"
  obtain reg where call: "lease_call op ?b = (ev, reg)" and h': "h' = h\<lparr>lh_mem := Some reg\<rparr>"
    using w by (auto simp: with_registry_def Let_def split: prod.splits)
  have lo: "log_ok log" and le: "\<forall>y \<in> set log. fst y \<le> t"
    using h t(1) by (auto simp: host_ok_def intro: order_trans)
  have a0: "answers_for (gc T (load_registry dec h)) log t"
    using h t(1) by (auto simp: host_ok_def intro: answers_for_later)
  then have a: "answers_for ?b log t" using answers_for_gc [OF a0] gc_gc [OF t(1)] by simp
  have "om_get (rg_claims ?b) k = Some c \<Longrightarrow> t < c_expires c" for k c
    using gc_live [of "gc T (load_registry dec h)" t k c] a0 gc_gc [OF t(1)] by (simp add: answers_for_def)
  then have step: "answers_for reg ((t, ev) # log) t" "log_ok ((t, ev) # log)"
    using lease_call_ok [OF a _ room t(2) le lo call] by blast+
  then show ?thesis using le answers_for_gc [OF step(1)] by (auto simp: host_ok_def h' load_registry_def)
qed

lemma load_after_write: "lh_mem h \<noteq> None \<Longrightarrow> load_registry dec (persist io b h) = load_registry dec h"
  by (auto simp: load_registry_def persist_def split: option.split io_outcome.split)

lemma mem_after_write [simp]: "lh_mem (persist io b h) = lh_mem h"
  by (simp add: persist_def split: option.split io_outcome.split)

lemma host_run_ok:
  "host_run enc dec log h ps T \<Longrightarrow> length log < 2 ^ 64 \<Longrightarrow> host_ok dec log h ps T"
proof (induction rule: host_run.induct)
  case start
  show ?case by (rule host_ok_start)
next
  case (serve log h ps T t op ev out h')
  have "Suc (grants_in log) < 2 ^ 64"
    using serve.prems grants_in_le [of log] by simp
  moreover have "host_ok dec log h ps T" using serve.prems by (intro serve.IH) simp
  ultimately show ?case
    using host_ok_serve serve.hyps by blast
next
  case (wrote log h ps b qs T io)
  then show ?case by (auto simp: host_ok_def load_after_write)
next
  case (restart log h ps T)
  then show ?case by (simp add: host_ok_def caught_up_def)
qed

section \<open>Reading a log\<close>

text \<open>What a holder itself does about its key: release it, or renew its lease.\<close>

fun own_move :: "rstr \<Rightarrow> rstr \<Rightarrow> lease_event \<Rightarrow> bool" where
  "own_move k h (Granted c) = (c_key c = k \<and> c_holder c = h)"
| "own_move k h (Released k' h') = (k' = k \<and> h' = h)"
| "own_move k h Refused = False"

lemma log_ok_suffix: "log_ok (a @ b) \<Longrightarrow> log_ok b"
  by (induction a) auto

text \<open>A lease stays the last word on its key until its holder releases or renews it, or it lapses.\<close>

lemma last_touch_stays:
  assumes "log_ok (mid @ (t1, Granted c1) # pre)" "\<forall>y \<in> set mid. fst y < c_expires c1"
    and "\<forall>y \<in> set mid. \<not> own_move (c_key c1) (c_holder c1) (snd y)"
  shows "last_touch (mid @ (t1, Granted c1) # pre) (c_key c1) = Some (Granted c1)"
  using assms
proof (induction mid)
  case Nil
  then show ?case by simp
next
  case (Cons y mid)
  have IH: "last_touch (mid @ (t1, Granted c1) # pre) (c_key c1) = Some (Granted c1)"
    using Cons.prems by (intro Cons.IH) auto
  show ?case
  proof (cases "snd y")
    case (Granted c)
    show ?thesis
    proof (cases "c_key c = c_key c1")
      case True
      have "c_holder c1 = c_holder c"
        using Cons.prems(1,2) Granted IH True by auto
      moreover have "c_holder c \<noteq> c_holder c1" using Cons.prems(3) Granted True by simp
      ultimately show ?thesis by simp
    next
      case False
      with Granted IH show ?thesis by (cases y) simp
    qed
  next
    case (Released k h)
    show ?thesis
    proof (cases "k = c_key c1")
      case True
      then have "h = c_holder c1" using Cons.prems(1) Released IH by auto
      with True Released Cons.prems(3) show ?thesis by simp
    next
      case False
      with Released IH show ?thesis by (cases y) simp
    qed
  next
    case Refused
    with IH show ?thesis by (cases y) simp
  qed
qed

lemma log_exclusion:
  assumes "log_ok ((t2, Granted c2) # mid @ (t1, Granted c1) # pre)"
    and "c_key c1 = c_key c2" "c_holder c1 \<noteq> c_holder c2" "t2 < c_expires c1"
  shows "\<exists>y \<in> set mid. own_move (c_key c1) (c_holder c1) (snd y)"
proof (rule ccontr)
  assume n: "\<not> ?thesis"
  have "last_touch (mid @ (t1, Granted c1) # pre) (c_key c1) = Some (Granted c1)"
  proof (rule last_touch_stays)
    show "log_ok (mid @ (t1, Granted c1) # pre)" using assms(1) by simp
    have "\<forall>y \<in> set mid. fst y \<le> t2" using assms(1) by simp
    then show "\<forall>y \<in> set mid. fst y < c_expires c1" using assms(4) by (blast intro: le_less_trans)
  qed (use n in blast)
  with assms show False by auto
qed

lemma fence_after:
  "log_ok log \<Longrightarrow> (t, Granted c) \<in> set log \<Longrightarrow> c_fence c \<le> grants_in log"
proof (induction log)
  case (Cons x log)
  show ?case
  proof (cases "(t, Granted c) = x")
    case True
    then have "x = (t, Granted c)" by simp
    with Cons.prems(1) show ?thesis by simp
  next
    case False
    then have "c_fence c \<le> grants_in log" using Cons by simp
    moreover have "grants_in log \<le> grants_in (x # log)" by (cases x; cases "snd x") auto
    ultimately show ?thesis by simp
  qed
qed simp

section \<open>Properties\<close>

text \<open>
  A codec for the witnesses: it writes the counter and the entries, and reads back the tables of the
  sample run.
\<close>

definition sample_first :: registry where
  "sample_first = snd (lease_call (OpGrant [107] [65] 1000 10) empty_registry)"

definition sample_second :: registry where
  "sample_second = snd (lease_call (OpGrant [107] [66] 1000 1010) (gc 1010 sample_first))"

definition sample_enc :: "registry \<Rightarrow> rstr option" where
  "sample_enc r = Some [rg_next_fence r]"

definition sample_dec :: "rstr \<Rightarrow> registry option" where
  "sample_dec s = (if s = [1] then Some sample_first else if s = [2] then Some sample_second else None)"

lemmas sample_claims =
  sample_first_def sample_second_def sample_enc_def sample_dec_def table_codec_at_def with_registry_def
  load_registry_def persist_def grant_def release_def sanitize_def empty_registry_def gc_def om_retain_def
  om_get_def clamp_def live_at_def sat_add_def u64_max_def min_ttl_ms_def max_ttl_ms_def max_key_def
  max_holder_def rust_text_defs Let_def

definition sample_log :: lease_log where
  "sample_log =
     [(1010, Granted \<lparr>c_key = [107], c_holder = [66], c_granted = 1010, c_expires = 2010, c_fence = 2\<rparr>),
      (10, Granted \<lparr>c_key = [107], c_holder = [65], c_granted = 10, c_expires = 1010, c_fence = 1\<rparr>)]"

text \<open>A write that lands, a restart, a second holder, and a write that fails.\<close>

lemma sample_run_first:
  "host_run sample_enc sample_dec (tl sample_log) \<lparr>lh_mem = Some sample_first, lh_file = None\<rparr> [[1]] 10"
proof -
  have w: "with_registry sample_enc sample_dec 10 (lease_call (OpGrant [107] [65] 1000 10))
      \<lparr>lh_mem = None, lh_file = None\<rparr> =
      ((snd (hd (tl sample_log)), Some [1]), \<lparr>lh_mem = Some sample_first, lh_file = None\<rparr>)"
    by (simp add: sample_claims sample_log_def)
  show ?thesis
    using host_run.serve [OF host_run.start _ _ w] by (simp add: sample_log_def)
qed

lemma sample_run_second:
  "host_run sample_enc sample_dec sample_log \<lparr>lh_mem = Some sample_second, lh_file = Some [1]\<rparr> [[2]] 1010"
proof -
  have w: "with_registry sample_enc sample_dec 1010 (lease_call (OpGrant [107] [66] 1000 1010))
      \<lparr>lh_mem = None, lh_file = Some [1]\<rparr> =
      ((snd (hd sample_log), Some [2]), \<lparr>lh_mem = Some sample_second, lh_file = Some [1]\<rparr>)"
    by (simp add: sample_claims sample_log_def)
  have "host_run sample_enc sample_dec (tl sample_log) \<lparr>lh_mem = Some sample_first, lh_file = Some [1]\<rparr> [] 10"
    using host_run.wrote [of sample_enc sample_dec "tl sample_log" "\<lparr>lh_mem = Some sample_first, lh_file = None\<rparr>"
        "[]" "[1]" "[]" 10 IoOk] sample_run_first
    by (simp add: persist_def)
  then have "host_run sample_enc sample_dec (tl sample_log) \<lparr>lh_mem = None, lh_file = Some [1]\<rparr> [] 10"
    by (drule_tac host_run.restart) (simp_all add: caught_up_def load_registry_def sample_dec_def)
  from host_run.serve [OF this _ _ w] show ?thesis by (simp add: sample_log_def)
qed

lemma sample_run_failed_write:
  "host_run sample_enc sample_dec sample_log \<lparr>lh_mem = Some sample_second, lh_file = Some []\<rparr> [] 1010"
  using host_run.wrote [of sample_enc sample_dec sample_log "\<lparr>lh_mem = Some sample_second, lh_file = Some [1]\<rparr>"
      "[]" "[2]" "[]" 1010 "WriteFails 0 []"] sample_run_second
  by (simp add: persist_def)

text \<open>C1 Mutual exclusion over every run of the host with fewer than \<open>2 ^ 64\<close> requests: writes of the table may fail
  and land in any order, and the host may restart whenever its file holds the table in memory. A key is granted to
  another holder only once the earlier lease has lapsed, or its own holder released or renewed it.\<close>

theorem lease_mutual_exclusion:
  assumes "host_run enc dec log h ps T" "length log < 2 ^ 64"
    and "log = post @ (t2, Granted c2) # mid @ (t1, Granted c1) # pre"
    and "c_key c1 = c_key c2" "c_holder c1 \<noteq> c_holder c2"
  shows "c_expires c1 \<le> t2 \<or> (\<exists>y \<in> set mid. own_move (c_key c1) (c_holder c1) (snd y))"
proof -
  have "log_ok log" using host_run_ok [OF assms(1,2)] by (simp add: host_ok_def)
  then have "log_ok ((t2, Granted c2) # mid @ (t1, Granted c1) # pre)"
    unfolding assms(3) by (rule log_ok_suffix)
  then show ?thesis using log_exclusion assms(4,5) by (metis not_le)
qed

lemma lease_mutual_exclusion_witness:
  "c_expires \<lparr>c_key = [107], c_holder = [65], c_granted = 10, c_expires = 1010, c_fence = 1\<rparr> \<le> 1010"
  using lease_mutual_exclusion [OF sample_run_failed_write, of "[]" 1010
      "\<lparr>c_key = [107], c_holder = [66], c_granted = 1010, c_expires = 2010, c_fence = 2\<rparr>" "[]" 10
      "\<lparr>c_key = [107], c_holder = [65], c_granted = 10, c_expires = 1010, c_fence = 1\<rparr>" "[]"]
  by (simp add: sample_log_def)

text \<open>C8 Over the same runs - failed and reordered writes, restarts while the file holds the table in memory - fences
  increase strictly from grant to grant, whatever the keys, so a stale holder's token never equals or exceeds a later
  one.\<close>

theorem lease_fences_increase:
  assumes "host_run enc dec log h ps T" "length log < 2 ^ 64"
    and "log = post @ (t2, Granted c2) # mid @ (t1, Granted c1) # pre"
  shows "c_fence c1 < c_fence c2"
proof -
  have "log_ok log" using host_run_ok [OF assms(1,2)] by (simp add: host_ok_def)
  then have ok: "log_ok ((t2, Granted c2) # mid @ (t1, Granted c1) # pre)"
    unfolding assms(3) by (rule log_ok_suffix)
  then have "c_fence c1 \<le> grants_in (mid @ (t1, Granted c1) # pre)"
    by (intro fence_after) auto
  with ok show ?thesis by simp
qed

lemma lease_fences_increase_witness:
  "c_fence \<lparr>c_key = [107], c_holder = [65], c_granted = 10, c_expires = 1010, c_fence = 1\<rparr>
   < c_fence \<lparr>c_key = [107], c_holder = [66], c_granted = 1010, c_expires = 2010, c_fence = 2\<rparr>"
  by (rule lease_fences_increase [OF sample_run_failed_write, of "[]" 1010 _ "[]" 10 _ "[]"])
    (simp_all add: sample_log_def)

text \<open>A release takes effect exactly when the caller holds a live lease on the key, and then frees
  that key only; in every other case the table stays as it is.\<close>

theorem release_only_by_live_holder:
  assumes "registry_ok r"
  shows "(fst (release k h now r) \<longleftrightarrow> (\<exists>c. lease_of k now r = Some c \<and> c_holder c = h)) \<and>
    lease_of j t (snd (release k h now r)) =
      (if fst (release k h now r) \<and> j = k then None else lease_of j t r)"
  using assms
  by (auto simp: release_def lease_of_def live_at_def om.get_remove registry_ok_inv split: option.splits)

lemma release_only_by_live_holder_witness:
  "lease_of [107] 10 (snd (release [107] [65] 10 sample_first)) = None"
proof -
  have "registry_ok sample_first"
    by (simp add: sample_claims registry_ok_def om_inv_def)
  moreover have "fst (release [107] [65] 10 sample_first)" by (simp add: sample_claims)
  ultimately show ?thesis using release_only_by_live_holder [of sample_first "[107]" "[65]" 10 "[107]" 10]
    by simp
qed

text \<open>A request refused with 409 names the live lease that stands in the way: it is on the trimmed
  key, another holder's, and the table keeps every live lease it had.\<close>

theorem grant_route_conflict:
  assumes "grant_route fstr fnat enc dec now gc_now body h = ((Doc 409 g, out), h')"
    and "registry_ok (load_registry dec h)" "fstr body (lit ''key'') = Some key"
    "fstr body (lit ''holder'') = Some holder"
  shows "\<not> gd_granted g \<and> c_key (gd_claim g) = trim key \<and> c_holder (gd_claim g) \<noteq> trim holder \<and>
    lease_of (trim key) (max now gc_now) (load_registry dec h) = Some (gd_claim g) \<and> out = None \<and>
    (\<forall>k. om_get (rg_claims (load_registry dec h')) k = lease_of k gc_now (load_registry dec h))"
proof -
  let ?r = "gc gc_now (load_registry dec h)"
  let ?ttl = "case fnat body (lit ''ttl_ms'') of Some t \<Rightarrow> t | None \<Rightarrow> default_ttl_ms"
  obtain res r' where g: "grant key holder ?ttl now ?r = (res, r')" by fastforce
  from g show ?thesis
  proof (cases rule: grant_cases)
    case (held k cur)
    have k: "k = trim key" using held(1) by (auto dest: sanitize_trim)
    have "c_holder cur \<noteq> trim holder"
    proof
      assume e: "c_holder cur = trim holder"
      obtain x where "sanitize (lit ''holder'') holder max_holder = x" by blast
      with held(4) e assms(1,3,4) g held show False
        by (auto simp: grant_def Let_def split: sum.splits dest: sanitize_trim)
    qed
    moreover have "c_key cur = k \<and> lease_of k gc_now (load_registry dec h) = Some cur"
      using held(2) assms(2) registry_ok_get [OF registry_ok_gc [OF assms(2)] held(2)] by (simp add: gc_get)
    ultimately show ?thesis
      using assms g held k
      by (auto simp: grant_route_def with_registry_def Let_def load_registry_def [of dec "h\<lparr>lh_mem := _\<rparr>"]
          gc_get lease_of_Some live_at_def)
  qed (use assms g in \<open>auto simp: grant_route_def with_registry_def Let_def\<close>)
qed

lemma grant_route_conflict_witness:
  "\<exists>g out h'. grant_route (\<lambda>b f. if f = lit ''key'' then Some [32, 107] else Some [66]) (\<lambda>b f. None)
     sample_enc sample_dec 20 20 [] \<lparr>lh_mem = Some sample_first, lh_file = None\<rparr> = ((Doc 409 g, out), h') \<and>
     c_key (gd_claim g) = [107] \<and> c_holder (gd_claim g) \<noteq> [66]"
proof -
  let ?fstr = "\<lambda>(b :: rstr) f. if f = lit ''key'' then Some [32, 107] else Some [66]"
  let ?h = "\<lparr>lh_mem = Some sample_first, lh_file = None\<rparr>"
  obtain g out h' where r:
    "grant_route ?fstr (\<lambda>b f. None) sample_enc sample_dec 20 20 [] ?h = ((Doc 409 g, out), h')"
    by (simp add: grant_route_def sample_claims default_ttl_ms_def)
  have "registry_ok (load_registry sample_dec ?h)"
    by (simp add: load_registry_def sample_claims registry_ok_def om_inv_def)
  from grant_route_conflict [OF r this, of "[32, 107]" "[66]"] r show ?thesis
    by (simp add: rust_text_defs)
qed

text \<open>Two requests whose writes land in the other order, a restart, and a third request.\<close>

definition late_write_run ::
    "(registry \<Rightarrow> rstr option) \<Rightarrow> (rstr \<Rightarrow> registry option) \<Rightarrow> lease_event \<times> lease_event" where
  "late_write_run enc dec =
     (let h0 = \<lparr>lh_mem = Some empty_registry, lh_file = None\<rparr>;
          ((e1, o1), h1) = with_registry enc dec 10 (lease_call (OpGrant [107] [65] 1000 10)) h0;
          ((e2, o2), h2) = with_registry enc dec 10 (lease_call (OpGrant [108] [66] 1000 10)) h1;
          h3 = (persist IoOk o1 (persist IoOk o2 h2))\<lparr>lh_mem := None\<rparr>;
          ((e3, o3), h4) = with_registry enc dec 20 (lease_call (OpGrant [108] [67] 1000 20)) h3
      in (e2, e3))"

text \<open>The table is written back after the lock is dropped, so two requests may write in the other
  order; after a restart the host then reads the older table and grants a key whose lease is live.
\<close>

theorem lease_lost_by_late_write:
  assumes "table_codec_at enc dec (snd (lease_call (OpGrant [107] [65] 1000 10) empty_registry))"
  shows "\<exists>c2 c3. late_write_run enc dec = (Granted c2, Granted c3) \<and> c_key c2 = c_key c3 \<and>
    c_holder c2 \<noteq> c_holder c3 \<and> live_at c2 20 \<and> live_at c3 20"
proof -
  obtain s where s: "enc sample_first = Some s" "dec s = Some sample_first"
    using assms by (auto simp: table_codec_at_def sample_first_def)
  have 1: "with_registry enc dec 10 (lease_call (OpGrant [107] [65] 1000 10))
      \<lparr>lh_mem = Some empty_registry, lh_file = None\<rparr> =
      ((snd (hd (tl sample_log)), Some s), \<lparr>lh_mem = Some sample_first, lh_file = None\<rparr>)"
    using s(1) by (simp add: sample_claims sample_log_def)
  have 2: "\<exists>o2 c2 r2. with_registry enc dec 10 (lease_call (OpGrant [108] [66] 1000 10))
      \<lparr>lh_mem = Some sample_first, lh_file = None\<rparr> =
      ((Granted c2, o2), \<lparr>lh_mem = Some r2, lh_file = None\<rparr>) \<and>
      c_key c2 = [108] \<and> c_holder c2 = [66] \<and> live_at c2 20"
    by (simp add: sample_claims)
  have 3: "\<exists>o3 c3 h4. with_registry enc dec 20 (lease_call (OpGrant [108] [67] 1000 20))
      \<lparr>lh_mem = None, lh_file = Some s\<rparr> = ((Granted c3, o3), h4) \<and>
      c_key c3 = [108] \<and> c_holder c3 = [67] \<and> live_at c3 20"
    using s(2) by (simp add: sample_claims)
  have p: "(persist IoOk (Some s) (persist IoOk o2 \<lparr>lh_mem = Some r2, lh_file = None\<rparr>))\<lparr>lh_mem := None\<rparr> =
      \<lparr>lh_mem = None, lh_file = Some s\<rparr>" for o2 r2
    by (cases o2) (simp_all add: persist_def)
  from 2 3 show ?thesis
    by (auto simp: late_write_run_def 1 p simp del: lease_call.simps)
qed

lemma lease_lost_by_late_write_witness:
  "\<exists>c2 c3. late_write_run sample_enc sample_dec = (Granted c2, Granted c3) \<and> c_key c2 = c_key c3 \<and>
    c_holder c2 \<noteq> c_holder c3 \<and> live_at c2 20 \<and> live_at c3 20"
  by (rule lease_lost_by_late_write)
    (simp add: table_codec_at_def sample_dec_def sample_enc_def, simp add: sample_claims)

end
