(* ===== verification/Users.thy ===== *)
theory Users
  imports Routing "HOL-Library.Word"
begin

text \<open>
  The accounts of the proxy, \<^verbatim>\<open>src/crates/tab-atelier-proxy/src/users.rs\<close>: people, their keys and the sessions seen on
  them, the index keys are authenticated by, every edit, and the file behind it. \<open>sha\<close> stands for SHA-256, \<open>lower\<close>
  for Unicode lower-casing, \<open>enc\<close> and \<open>dec\<close> for \<^verbatim>\<open>serde_json\<close>; fresh ids, secrets, the clock and the outcome of a
  write are arguments. The policy on tools is of any type.
\<close>

unbundle bit_operations_syntax

section \<open>Clients and sessions\<close>

definition key_prefix :: rstr where
  "key_prefix = lit ''tap_''"

definition sessions_kept :: nat where
  "sessions_kept = 5"

definition session_ttl_secs :: nat where
  "session_ttl_secs = 24 * 60 * 60"

record client =
  ci_device :: "rstr option"
  ci_session :: "rstr option"
  ci_account :: "rstr option"

definition is_meaningful :: "client \<Rightarrow> bool" where
  "is_meaningful c \<longleftrightarrow> c \<noteq> \<lparr>ci_device = None, ci_session = None, ci_account = None\<rparr>"

record session =
  se_id :: rstr
  se_device :: "rstr option"
  se_account :: "rstr option"
  se_first :: nat
  se_last :: nat

record credential =
  ky_id :: rstr
  ky_name :: rstr
  ky_hash :: rstr
  ky_created :: nat
  ky_first_used :: "nat option"
  ky_last_used :: "nat option"
  ky_last_ip :: "rstr option"
  ky_sessions :: "session list"
  ky_disabled :: bool

definition key_active :: "credential \<Rightarrow> bool" where
  "key_active k \<longleftrightarrow> \<not> ky_disabled k \<and> ky_hash k \<noteq> []"

text \<open>\<^verbatim>\<open>sort_by_key\<close> with \<^verbatim>\<open>Reverse\<close>: newest first, ties in place.\<close>

definition prune_sessions :: "nat \<Rightarrow> session list \<Rightarrow> session list" where
  "prune_sessions now ss =
     take sessions_kept (sort_key (\<lambda>s. - int (se_last s)) (filter (\<lambda>s. now - se_last s < session_ttl_secs) ss))"

definition see_again :: "client \<Rightarrow> nat \<Rightarrow> session \<Rightarrow> session" where
  "see_again c now s = s\<lparr>se_last := max (se_last s) now,
     se_device := (if se_device s = None then ci_device c else se_device s),
     se_account := (case se_account s of Some u \<Rightarrow> Some u | None \<Rightarrow> ci_account c)\<rparr>"

definition remember_session :: "client option \<Rightarrow> nat \<Rightarrow> session list \<Rightarrow> bool \<times> session list" where
  "remember_session c now ss =
     (let ss = prune_sessions now ss
      in case (case c of Some c \<Rightarrow> if is_meaningful c then map_option (Pair c) (ci_session c) else None | None \<Rightarrow> None) of
           None \<Rightarrow> (False, ss)
         | Some (c, i) \<Rightarrow>
             (case find (\<lambda>s. se_id s = i) ss of
                Some seen \<Rightarrow> (60 \<le> now - se_last seen, update_first (\<lambda>s. se_id s = i) (see_again c now) ss)
              | None \<Rightarrow>
                  (True, prune_sessions now (ss @ [\<lparr>se_id = i, se_device = ci_device c, se_account = ci_account c,
                                                     se_first = now, se_last = now\<rparr>]))))"

section \<open>Accounts\<close>

datatype compact_level = CompactNone | CompactTools | CompactToolsThinking | CompactAll

record 'p user = account +
  us_id :: rstr
  us_first :: rstr
  us_last :: rstr
  us_email :: rstr
  us_created :: nat
  us_keys :: "credential list"
  us_key_hash :: rstr
  us_legacy_first :: "nat option"
  us_legacy_last :: "nat option"
  us_legacy_ip :: "rstr option"
  us_disabled :: bool
  us_weight :: nat
  us_compact :: compact_level
  us_tools :: 'p

text \<open>What the routing decision reads of an account.\<close>

abbreviation decision_part :: "'p user \<Rightarrow> account" where
  "decision_part u \<equiv> account.truncate u"

definition normal_weight :: nat where
  "normal_weight = 5"

definition display_name :: "'p user \<Rightarrow> rstr" where
  "display_name u =
     (let full = trim (trim (us_first u) @ [32] @ trim (us_last u)) in if full = [] then us_email u else full)"

definition user_active :: "'p user \<Rightarrow> bool" where
  "user_active u \<longleftrightarrow> \<not> us_disabled u \<and> list_ex key_active (us_keys u)"

definition migrate_single_key :: "rstr \<Rightarrow> 'p user \<Rightarrow> 'p user" where
  "migrate_single_key fresh u =
     (if us_key_hash u = [] then u
      else (let u = (if list_ex (\<lambda>k. ky_hash k = us_key_hash u) (us_keys u) then u
                     else u\<lparr>us_keys := us_keys u @ [\<lparr>ky_id = fresh, ky_name = lit ''default'', ky_hash = us_key_hash u,
                              ky_created = us_created u, ky_first_used = us_legacy_first u, ky_last_used = us_legacy_last u,
                              ky_last_ip = us_legacy_ip u, ky_sessions = [], ky_disabled = False\<rparr>],
                            us_legacy_ip := None\<rparr>)
            in u\<lparr>us_key_hash := []\<rparr>))"

definition opt_lower :: "rstr option \<Rightarrow> rstr" where
  "opt_lower s = (case s of Some s \<Rightarrow> to_ascii_lowercase s | None \<Rightarrow> [])"

definition kind_word :: "kind option \<Rightarrow> rstr" where
  "kind_word k = (case k of Some KWork \<Rightarrow> lit ''work'' | Some KClassifier \<Rightarrow> lit ''classifier'' | Some KPlan \<Rightarrow> lit ''plan'' | None \<Rightarrow> [])"

text \<open>The identity of a rule: its conditions.\<close>

definition rule_key :: "model_route \<Rightarrow> rstr" where
  "rule_key mr = opt_lower (mr_from mr) @ [124] @ kind_word (mr_kind mr) @ [124] @ opt_lower (mr_from_provider mr) @ [124]
     @ opt_lower (mr_tool mr)"

section \<open>Keys and addresses\<close>

definition hex_byte :: "8 word \<Rightarrow> rstr" where
  "hex_byte b = pad_left 2 48 (show_hex (unat b))"

definition hash_key :: "(8 word list \<Rightarrow> 8 word list) \<Rightarrow> rstr \<Rightarrow> rstr" where
  "hash_key sha key = concat (map hex_byte (sha (utf8 key)))"

definition mint_key :: "8 word list \<Rightarrow> rstr" where
  "mint_key bytes = key_prefix @ concat (map hex_byte bytes)"

definition constant_time_eq :: "8 word list \<Rightarrow> 8 word list \<Rightarrow> bool" where
  "constant_time_eq a b \<longleftrightarrow> length a = length b \<and> fold (\<lambda>(x, y) diff. diff OR (x XOR y)) (zip a b) 0 = 0"

definition email_ok :: "rstr \<Rightarrow> bool" where
  "email_ok email =
     (let email = trim email
      in if byte_len email < 3 \<or> list_ex is_whitespace email then False
         else case split_once 64 email of
                None \<Rightarrow> False
              | Some (local, domain) \<Rightarrow>
                  64 \<notin> set domain \<and> local \<noteq> [] \<and> 46 \<in> set domain \<and> hd domain \<noteq> 46 \<and> last domain \<noteq> 46)"

section \<open>The store\<close>

datatype user_error =
    UserNotFound rstr
  | DuplicateEmail rstr
  | DuplicateKeyName rstr
  | InvalidEmail rstr
  | MissingName
  | NoSuchRoute rstr
  | UserIo rstr

definition user_error_text :: "user_error \<Rightarrow> rstr" where
  "user_error_text e =
     (case e of
        UserNotFound who \<Rightarrow> lit ''no such account: '' @ who
      | DuplicateEmail m \<Rightarrow> lit ''an account already uses '' @ m
      | DuplicateKeyName n \<Rightarrow> lit ''this account already has a key named '' @ n
      | InvalidEmail m \<Rightarrow> lit ''not an email address: '' @ m
      | MissingName \<Rightarrow> lit ''first and last name are both required''
      | NoSuchRoute what \<Rightarrow> lit ''no rule matches '' @ what
      | UserIo m \<Rightarrow> m)"

text \<open>The accounts, the index from hashes to positions, and the file.\<close>

record 'p store =
  st_accounts :: "'p user list"
  st_index :: "rstr \<rightharpoonup> nat \<times> nat"
  st_file :: "rstr option"

definition live_keys :: "nat \<Rightarrow> 'p user \<Rightarrow> (rstr \<times> nat \<times> nat) list" where
  "live_keys ai u = List.map_filter (\<lambda>(ki, k). if key_active k then Some (ky_hash k, ai, ki) else None) (enumerate 0 (us_keys u))"

text \<open>Collecting into a map: the last entry for a hash stays.\<close>

definition index_of :: "'p user list \<Rightarrow> rstr \<rightharpoonup> nat \<times> nat" where
  "index_of us = map_of (rev (concat (map (\<lambda>(ai, u). live_keys ai u) (filter (\<lambda>(ai, u). \<not> us_disabled u) (enumerate 0 us)))))"

definition reindex :: "'p store \<Rightarrow> 'p store" where
  "reindex st = st\<lparr>st_index := index_of (st_accounts st)\<rparr>"

text \<open>A write of the file goes to a temporary one that is renamed: it happens, or fails with a message.\<close>

type_synonym save_io = "rstr option"

definition save :: "('p user list \<Rightarrow> rstr) \<Rightarrow> save_io \<Rightarrow> 'p store \<Rightarrow> (user_error + unit) \<times> 'p store" where
  "save enc io st =
     (case io of
        Some e \<Rightarrow> (Inl (UserIo e), st)
      | None \<Rightarrow> (Inr (), st\<lparr>st_file := Some (enc (st_accounts st))\<rparr>))"

text \<open>\<open>fresh\<close> gives the ids of the keys that are folded in.\<close>

definition load :: "(rstr \<Rightarrow> rstr + 'p user list) \<Rightarrow> (nat \<Rightarrow> rstr) \<Rightarrow> (rstr + rstr option) \<Rightarrow> user_error + 'p store" where
  "load dec fresh file =
     (case (case file of
              Inl e \<Rightarrow> Inl (UserIo e)
            | Inr None \<Rightarrow> Inr []
            | Inr (Some raw) \<Rightarrow> if trim raw = [] then Inr [] else (case dec raw of Inl e \<Rightarrow> Inl (UserIo e) | Inr us \<Rightarrow> Inr us)) of
        Inl e \<Rightarrow> Inl e
      | Inr us \<Rightarrow>
          Inr (reindex \<lparr>st_accounts = map (\<lambda>(i, u). migrate_single_key (fresh i) u) (enumerate 0 us), st_index = Map.empty,
                        st_file = (case file of Inr f \<Rightarrow> f | Inl _ \<Rightarrow> None)\<rparr>))"

definition authenticate_key :: "(8 word list \<Rightarrow> 8 word list) \<Rightarrow> rstr \<Rightarrow> 'p store \<Rightarrow> ('p user \<times> credential) option" where
  "authenticate_key sha key st =
     (let h = hash_key sha key
      in case st_index st h of
           None \<Rightarrow> None
         | Some (ai, ki) \<Rightarrow>
             if ai < length (st_accounts st) \<and> ki < length (us_keys (st_accounts st ! ai)) then
               (let u = st_accounts st ! ai; k = us_keys u ! ki
                in if \<not> us_disabled u \<and> key_active k \<and> constant_time_eq (utf8 (ky_hash k)) (utf8 h) then Some (u, k) else None)
             else None)"

definition authenticate :: "(8 word list \<Rightarrow> 8 word list) \<Rightarrow> rstr \<Rightarrow> 'p store \<Rightarrow> 'p user option" where
  "authenticate sha key st = map_option fst (authenticate_key sha key st)"

definition find_user :: "(rstr \<Rightarrow> rstr) \<Rightarrow> rstr \<Rightarrow> 'p store \<Rightarrow> 'p user option" where
  "find_user lower who st =
     (let needle = lower (trim who)
      in case find (\<lambda>u. us_id u = who \<or> lower (us_email u) = needle) (st_accounts st) of
           Some u \<Rightarrow> Some u
         | None \<Rightarrow>
             (case filter (\<lambda>u. str_contains (lower (display_name u)) needle) (st_accounts st) of
                [u] \<Rightarrow> Some u | _ \<Rightarrow> None))"

section \<open>Edits\<close>

text \<open>Every edit of one account: it is looked up, then changed in place under its id, unless the change is refused.\<close>

definition edit_user ::
    "(rstr \<Rightarrow> rstr) \<Rightarrow> rstr \<Rightarrow> ('p user \<Rightarrow> user_error + 'p user \<times> 'o) \<Rightarrow> 'p store \<Rightarrow> user_error + 'p store \<times> 'o" where
  "edit_user lower who f st =
     (case find_user lower who st of
        None \<Rightarrow> Inl (UserNotFound who)
      | Some found \<Rightarrow>
          (case find (\<lambda>u. us_id u = us_id found) (st_accounts st) of
             None \<Rightarrow> Inl (UserNotFound who)
           | Some u \<Rightarrow>
               (case f u of
                  Inl e \<Rightarrow> Inl e
                | Inr (u', out) \<Rightarrow>
                    Inr (st\<lparr>st_accounts := update_first (\<lambda>u. us_id u = us_id found) (\<lambda>_. u') (st_accounts st)\<rparr>, out))))"

text \<open>What follows a change: the index is rebuilt, the file is written, and a failed write is the answer.\<close>

definition commit ::
    "('p user list \<Rightarrow> rstr) \<Rightarrow> save_io \<Rightarrow> 'p store \<Rightarrow> user_error + 'p store \<times> 'o \<Rightarrow> (user_error + 'o) \<times> 'p store" where
  "commit enc io st r =
     (case r of
        Inl e \<Rightarrow> (Inl e, st)
      | Inr (st', out) \<Rightarrow>
          (let (saved, st') = save enc io (reindex st')
           in (case saved of Inl e \<Rightarrow> Inl e | Inr _ \<Rightarrow> Inr out, st')))"

definition new_user :: "rstr \<Rightarrow> nat \<Rightarrow> 'p \<Rightarrow> rstr \<Rightarrow> rstr \<Rightarrow> rstr \<Rightarrow> 'p user" where
  "new_user fresh now policy first_name last_name email =
     \<lparr>ac_provider = None, ac_model = None, ac_routes = [], us_id = fresh, us_first = first_name, us_last = last_name, us_email = email,
      us_created = now, us_keys = [], us_key_hash = [], us_legacy_first = None, us_legacy_last = None, us_legacy_ip = None,
      us_disabled = False, us_weight = normal_weight, us_compact = CompactNone, us_tools = policy\<rparr>"

definition add_user ::
    "('p user list \<Rightarrow> rstr) \<Rightarrow> save_io \<Rightarrow> rstr \<Rightarrow> nat \<Rightarrow> 'p \<Rightarrow> rstr \<Rightarrow> rstr \<Rightarrow> rstr \<Rightarrow> 'p store \<Rightarrow> (user_error + 'p user) \<times> 'p store" where
  "add_user enc io fresh now policy first_name last_name email st =
     (let first_name = trim first_name; last_name = trim last_name; email = trim email
      in commit enc io st
           (if first_name = [] \<or> last_name = [] then Inl MissingName
            else if \<not> email_ok email then Inl (InvalidEmail email)
            else if list_ex (\<lambda>u. eq_ignore_ascii_case (us_email u) email) (st_accounts st) then Inl (DuplicateEmail email)
            else (let u = new_user fresh now policy first_name last_name email
                  in Inr (st\<lparr>st_accounts := st_accounts st @ [u]\<rparr>, u))))"

definition add_key ::
    "(rstr \<Rightarrow> rstr) \<Rightarrow> ('p user list \<Rightarrow> rstr) \<Rightarrow> (8 word list \<Rightarrow> 8 word list) \<Rightarrow> save_io \<Rightarrow> rstr \<Rightarrow> 8 word list \<Rightarrow> nat \<Rightarrow> rstr \<Rightarrow> rstr \<Rightarrow> 'p store \<Rightarrow>
     (user_error + credential \<times> rstr) \<times> 'p store" where
  "add_key lower enc sha io fresh bytes now who name st =
     (let name = trim name
      in commit enc io st
           (if name = [] then Inl MissingName
            else edit_user lower who (\<lambda>u.
              if list_ex (\<lambda>k. eq_ignore_ascii_case (ky_name k) name) (us_keys u) then Inl (DuplicateKeyName name)
              else (let secret = mint_key bytes;
                        k = \<lparr>ky_id = fresh, ky_name = name, ky_hash = hash_key sha secret, ky_created = now, ky_first_used = None,
                             ky_last_used = None, ky_last_ip = None, ky_sessions = [], ky_disabled = False\<rparr>
                    in Inr (u\<lparr>us_keys := us_keys u @ [k]\<rparr>, (k, secret)))) st))"

definition names_key :: "rstr \<Rightarrow> credential \<Rightarrow> bool" where
  "names_key key_ref k \<longleftrightarrow> ky_id k = key_ref \<or> eq_ignore_ascii_case (ky_name k) key_ref"

fun remove_first :: "('a \<Rightarrow> bool) \<Rightarrow> 'a list \<Rightarrow> 'a list" where
  "remove_first P [] = []"
| "remove_first P (x # xs) = (if P x then xs else x # remove_first P xs)"

definition remove_key ::
    "(rstr \<Rightarrow> rstr) \<Rightarrow> ('p user list \<Rightarrow> rstr) \<Rightarrow> save_io \<Rightarrow> rstr \<Rightarrow> rstr \<Rightarrow> 'p store \<Rightarrow> (user_error + credential) \<times> 'p store" where
  "remove_key lower enc io who key_ref st =
     commit enc io st (edit_user lower who (\<lambda>u.
       case find (names_key key_ref) (us_keys u) of
         None \<Rightarrow> Inl (UserNotFound (lit ''key '' @ key_ref))
       | Some gone \<Rightarrow> Inr (u\<lparr>us_keys := remove_first (names_key key_ref) (us_keys u)\<rparr>, gone)) st)"

definition set_key_disabled ::
    "(rstr \<Rightarrow> rstr) \<Rightarrow> ('p user list \<Rightarrow> rstr) \<Rightarrow> save_io \<Rightarrow> rstr \<Rightarrow> rstr \<Rightarrow> bool \<Rightarrow> 'p store \<Rightarrow> (user_error + credential) \<times> 'p store" where
  "set_key_disabled lower enc io who key_ref disabled st =
     commit enc io st (edit_user lower who (\<lambda>u.
       case find (names_key key_ref) (us_keys u) of
         None \<Rightarrow> Inl (UserNotFound (lit ''key '' @ key_ref))
       | Some k \<Rightarrow> Inr (u\<lparr>us_keys := update_first (names_key key_ref) (\<lambda>k. k\<lparr>ky_disabled := disabled\<rparr>) (us_keys u)\<rparr>,
                        k\<lparr>ky_disabled := disabled\<rparr>)) st)"

text \<open>The edits that answer with the account.\<close>

definition set_user ::
    "(rstr \<Rightarrow> rstr) \<Rightarrow> ('p user list \<Rightarrow> rstr) \<Rightarrow> save_io \<Rightarrow> rstr \<Rightarrow> ('p user \<Rightarrow> 'p user) \<Rightarrow> 'p store \<Rightarrow> (user_error + 'p user) \<times> 'p store" where
  "set_user lower enc io who f st = commit enc io st (edit_user lower who (\<lambda>u. Inr (f u, f u)) st)"

definition non_empty :: "rstr option \<Rightarrow> rstr option" where
  "non_empty s = (case s of Some x \<Rightarrow> if x = [] then None else Some x | None \<Rightarrow> None)"

definition set_provider ::
    "(rstr \<Rightarrow> rstr) \<Rightarrow> ('p user list \<Rightarrow> rstr) \<Rightarrow> save_io \<Rightarrow> rstr \<Rightarrow> rstr option \<Rightarrow> 'p store \<Rightarrow> (user_error + 'p user) \<times> 'p store" where
  "set_provider lower enc io who provider = set_user lower enc io who (\<lambda>u. u\<lparr>ac_provider := non_empty provider\<rparr>)"

definition set_model ::
    "(rstr \<Rightarrow> rstr) \<Rightarrow> ('p user list \<Rightarrow> rstr) \<Rightarrow> save_io \<Rightarrow> rstr \<Rightarrow> rstr option \<Rightarrow> 'p store \<Rightarrow> (user_error + 'p user) \<times> 'p store" where
  "set_model lower enc io who model = set_user lower enc io who (\<lambda>u. u\<lparr>ac_model := non_empty model\<rparr>)"

definition put_rule :: "model_route \<Rightarrow> model_route list \<Rightarrow> model_route list" where
  "put_rule mr rs =
     (if list_ex (\<lambda>r. rule_key r = rule_key mr) rs then update_first (\<lambda>r. rule_key r = rule_key mr) (\<lambda>_. mr) rs else rs @ [mr])"

definition set_route ::
    "(rstr \<Rightarrow> rstr) \<Rightarrow> ('p user list \<Rightarrow> rstr) \<Rightarrow> save_io \<Rightarrow> rstr \<Rightarrow> model_route \<Rightarrow> 'p store \<Rightarrow> (user_error + 'p user) \<times> 'p store" where
  "set_route lower enc io who mr = set_user lower enc io who (\<lambda>u. u\<lparr>ac_routes := put_rule mr (ac_routes u)\<rparr>)"

definition remove_route ::
    "(rstr \<Rightarrow> rstr) \<Rightarrow> ('p user list \<Rightarrow> rstr) \<Rightarrow> save_io \<Rightarrow> rstr \<Rightarrow> model_route \<Rightarrow> 'p store \<Rightarrow> (user_error + 'p user) \<times> 'p store" where
  "remove_route lower enc io who mr st =
     (let r = edit_user lower who (\<lambda>u.
                (let kept = filter (\<lambda>r. rule_key r \<noteq> rule_key mr) (ac_routes u)
                 in if length kept = length (ac_routes u) then Inl (NoSuchRoute (rule_key mr))
                    else Inr (u\<lparr>ac_routes := kept\<rparr>, u\<lparr>ac_routes := kept\<rparr>))) st
      in commit enc io st r)"

definition set_compact ::
    "(rstr \<Rightarrow> rstr) \<Rightarrow> ('p user list \<Rightarrow> rstr) \<Rightarrow> save_io \<Rightarrow> rstr \<Rightarrow> compact_level \<Rightarrow> 'p store \<Rightarrow> (user_error + 'p user) \<times> 'p store" where
  "set_compact lower enc io who level = set_user lower enc io who (\<lambda>u. u\<lparr>us_compact := level\<rparr>)"

definition set_tools ::
    "(rstr \<Rightarrow> rstr) \<Rightarrow> ('p user list \<Rightarrow> rstr) \<Rightarrow> save_io \<Rightarrow> rstr \<Rightarrow> 'p \<Rightarrow> 'p store \<Rightarrow> (user_error + 'p user) \<times> 'p store" where
  "set_tools lower enc io who policy = set_user lower enc io who (\<lambda>u. u\<lparr>us_tools := policy\<rparr>)"

text \<open>The weight alone is saved without a new index, which it is not part of.\<close>

definition set_weight ::
    "(rstr \<Rightarrow> rstr) \<Rightarrow> ('p user list \<Rightarrow> rstr) \<Rightarrow> save_io \<Rightarrow> rstr \<Rightarrow> nat \<Rightarrow> 'p store \<Rightarrow> (user_error + 'p user) \<times> 'p store" where
  "set_weight lower enc io who weight st =
     (case edit_user lower who (\<lambda>u. Inr (u\<lparr>us_weight := clamp 1 100 weight\<rparr>, u\<lparr>us_weight := clamp 1 100 weight\<rparr>)) st of
        Inl e \<Rightarrow> (Inl e, st)
      | Inr (st', out) \<Rightarrow> (let (saved, st') = save enc io st' in (case saved of Inl e \<Rightarrow> Inl e | Inr _ \<Rightarrow> Inr out, st')))"

definition set_disabled ::
    "(rstr \<Rightarrow> rstr) \<Rightarrow> ('p user list \<Rightarrow> rstr) \<Rightarrow> save_io \<Rightarrow> rstr \<Rightarrow> bool \<Rightarrow> 'p store \<Rightarrow> (user_error + 'p user) \<times> 'p store" where
  "set_disabled lower enc io who disabled = set_user lower enc io who (\<lambda>u. u\<lparr>us_disabled := disabled\<rparr>)"

definition remove_user ::
    "(rstr \<Rightarrow> rstr) \<Rightarrow> ('p user list \<Rightarrow> rstr) \<Rightarrow> save_io \<Rightarrow> rstr \<Rightarrow> 'p store \<Rightarrow> (user_error + 'p user) \<times> 'p store" where
  "remove_user lower enc io who st =
     commit enc io st
       (case find_user lower who st of
          None \<Rightarrow> Inl (UserNotFound who)
        | Some found \<Rightarrow>
            (case find (\<lambda>u. us_id u = us_id found) (st_accounts st) of
               None \<Rightarrow> Inl (UserNotFound who)
             | Some gone \<Rightarrow> Inr (st\<lparr>st_accounts := remove_first (\<lambda>u. us_id u = us_id found) (st_accounts st)\<rparr>, gone)))"

text \<open>Following a provider's new name through the pins and both ends of the rules.\<close>

definition moved :: "rstr \<Rightarrow> rstr \<Rightarrow> rstr option \<Rightarrow> rstr option" where
  "moved from to s = (if s = Some from then Some to else s)"

definition rename_in_user :: "rstr \<Rightarrow> rstr \<Rightarrow> 'p user \<Rightarrow> 'p user" where
  "rename_in_user from to u =
     u\<lparr>ac_provider := moved from to (ac_provider u),
       ac_routes := map (\<lambda>r. r\<lparr>mr_from_provider := moved from to (mr_from_provider r), mr_to_provider := moved from to (mr_to_provider r)\<rparr>)
         (ac_routes u)\<rparr>"

definition names_provider :: "rstr \<Rightarrow> 'p user \<Rightarrow> bool" where
  "names_provider from u \<longleftrightarrow> ac_provider u = Some from \<or>
     list_ex (\<lambda>r. mr_from_provider r = Some from \<or> mr_to_provider r = Some from) (ac_routes u)"

definition rename_in_store :: "('p user list \<Rightarrow> rstr) \<Rightarrow> save_io \<Rightarrow> rstr \<Rightarrow> rstr \<Rightarrow> 'p store \<Rightarrow> (user_error + unit) \<times> 'p store" where
  "rename_in_store enc io from to st =
     (let st' = st\<lparr>st_accounts := map (rename_in_user from to) (st_accounts st)\<rparr>
      in if list_ex (names_provider from) (st_accounts st) then save enc io st' else (Inr (), st'))"

section \<open>Use\<close>

definition touch_key :: "rstr option \<Rightarrow> client option \<Rightarrow> nat \<Rightarrow> credential \<Rightarrow> bool \<times> credential" where
  "touch_key ip c now k =
     (let first_use = (ky_first_used k = None);
          elsewhere = (ip \<noteq> None \<and> ky_last_ip k \<noteq> ip);
          stale = (case ky_last_used k of None \<Rightarrow> True | Some t \<Rightarrow> 60 \<le> now - t);
          (new_session, ss) = remember_session c now (ky_sessions k)
      in (first_use \<or> elsewhere \<or> stale \<or> new_session,
          k\<lparr>ky_first_used := (if first_use then Some now else ky_first_used k),
            ky_last_ip := (case ip of Some _ \<Rightarrow> ip | None \<Rightarrow> ky_last_ip k),
            ky_last_used := Some now, ky_sessions := ss\<rparr>))"

text \<open>The first key with the id, over all accounts.\<close>

fun touch_users :: "rstr \<Rightarrow> (credential \<Rightarrow> credential) \<Rightarrow> 'p user list \<Rightarrow> 'p user list" where
  "touch_users key_id f [] = []"
| "touch_users key_id f (u # us) =
     (if list_ex (\<lambda>k. ky_id k = key_id) (us_keys u) then u\<lparr>us_keys := update_first (\<lambda>k. ky_id k = key_id) f (us_keys u)\<rparr> # us
      else u # touch_users key_id f us)"

definition touch_at ::
    "('p user list \<Rightarrow> rstr) \<Rightarrow> save_io \<Rightarrow> rstr \<Rightarrow> rstr option \<Rightarrow> client option \<Rightarrow> nat \<Rightarrow> 'p store \<Rightarrow> 'p store" where
  "touch_at enc io key_id ip c now st =
     (case find (\<lambda>k. ky_id k = key_id) (concat (map us_keys (st_accounts st))) of
        None \<Rightarrow> st
      | Some k \<Rightarrow>
          (let st' = st\<lparr>st_accounts := touch_users key_id (\<lambda>k. snd (touch_key ip c now k)) (st_accounts st)\<rparr>
           in if fst (touch_key ip c now k) then snd (save enc io st') else st'))"

section \<open>Comparing and indexing\<close>

lemma xor_zero: "x XOR y = 0 \<longleftrightarrow> x = (y :: 8 word)"
proof
  assume "x XOR y = 0"
  then have "(x XOR y) XOR y = y" by simp
  then show "x = y" by (simp add: xor.assoc)
qed simp

lemma fold_diff: "fold (\<lambda>(x, y) diff. diff OR (x XOR y)) ps d = 0 \<longleftrightarrow> d = 0 \<and> (\<forall>(x, y) \<in> set ps. x = (y :: 8 word))"
  by (induction ps arbitrary: d) (auto simp: or_eq_0_iff xor_zero)

lemma constant_time_eq_iff: "constant_time_eq a b \<longleftrightarrow> a = b"
proof
  assume "constant_time_eq a b"
  then have "length a = length b" "\<forall>(x, y) \<in> set (zip a b). x = y" by (auto simp: constant_time_eq_def fold_diff)
  then show "a = b" by (induction a b rule: list_induct2) auto
next
  assume "a = b"
  moreover have "\<forall>(x, y) \<in> set (zip b b). x = y" by (auto simp: zip_same)
  ultimately show "constant_time_eq a b" by (simp add: constant_time_eq_def fold_diff)
qed

lemma enumerate_map: "enumerate n (map f xs) = map (apsnd f) (enumerate n xs)"
  by (induction xs arbitrary: n) auto

text \<open>The index depends on whether accounts and keys are live and on the hashes only.\<close>

definition shape :: "'p user \<Rightarrow> bool \<times> (bool \<times> rstr) list" where
  "shape u = (us_disabled u, map (\<lambda>k. (key_active k, ky_hash k)) (us_keys u))"

lemma live_keys_shape:
  "live_keys ai u = List.map_filter (\<lambda>(ki, a, h). if a then Some (h, ai, ki) else None) (enumerate 0 (snd (shape u)))"
  by (simp add: live_keys_def shape_def enumerate_map List.map_filter_def filter_map comp_def case_prod_unfold)

lemma index_of_shape:
  "index_of us = map_of (rev (concat (map (\<lambda>(ai, s). List.map_filter (\<lambda>(ki, a, h). if a then Some (h, ai, ki) else None) (enumerate 0 (snd s)))
     (filter (\<lambda>(ai, s). \<not> fst s) (enumerate 0 (map shape us))))))"
  by (simp add: index_of_def enumerate_map filter_map comp_def case_prod_unfold live_keys_shape shape_def cong: if_cong)

lemma index_of_cong: "map shape us = map shape vs \<Longrightarrow> index_of us = index_of vs"
  by (simp add: index_of_shape)

lemma in_live_keys: "(h, i, ki) \<in> set (live_keys ai u) \<longleftrightarrow>
    i = ai \<and> ki < length (us_keys u) \<and> key_active (us_keys u ! ki) \<and> ky_hash (us_keys u ! ki) = h"
  by (auto simp: live_keys_def set_map_filter in_set_enumerate_eq image_iff split: if_splits
      intro!: bexI [of _ "(ki, us_keys u ! ki)"])

definition live :: "'p user list \<Rightarrow> nat \<Rightarrow> nat \<Rightarrow> rstr \<Rightarrow> bool" where
  "live us ai ki h \<longleftrightarrow> ai < length us \<and> \<not> us_disabled (us ! ai) \<and> ki < length (us_keys (us ! ai)) \<and>
     key_active (us_keys (us ! ai) ! ki) \<and> ky_hash (us_keys (us ! ai) ! ki) = h"

lemma live_entries: "(h, ai, ki) \<in> set (concat (map (\<lambda>(ai, u). live_keys ai u) (filter (\<lambda>(ai, u). \<not> us_disabled u) (enumerate 0 us)))) \<longleftrightarrow>
    live us ai ki h"
  by (auto simp: live_def in_live_keys in_set_enumerate_eq)

lemma index_of_Some: "index_of us h = Some (ai, ki) \<Longrightarrow> live us ai ki h"
  unfolding index_of_def live_entries [symmetric] using map_of_SomeD by fastforce

lemma index_of_None: "index_of us h = None \<longleftrightarrow> (\<forall>ai ki. \<not> live us ai ki h)"
  unfolding index_of_def live_entries [symmetric] map_of_eq_None_iff by force

section \<open>Runs\<close>

text \<open>An edit with what is fresh about it; a run pairs each with the outcome of its write.\<close>

datatype 'p user_op =
    AddUser rstr nat 'p rstr rstr rstr
  | AddKey rstr "8 word list" nat rstr rstr
  | RemoveKey rstr rstr
  | SetKeyDisabled rstr rstr bool
  | SetProvider rstr "rstr option"
  | SetModel rstr "rstr option"
  | RenameProvider rstr rstr
  | SetRoute rstr model_route
  | RemoveRoute rstr model_route
  | SetCompact rstr compact_level
  | SetTools rstr 'p
  | SetWeight rstr nat
  | SetDisabled rstr bool
  | RemoveUser rstr
  | Touch rstr "rstr option" "client option" nat

definition user_step ::
    "(rstr \<Rightarrow> rstr) \<Rightarrow> ('p user list \<Rightarrow> rstr) \<Rightarrow> (8 word list \<Rightarrow> 8 word list) \<Rightarrow> save_io \<Rightarrow> 'p user_op \<Rightarrow> 'p store \<Rightarrow> 'p store" where
  "user_step lower enc sha io op st =
     (case op of
        AddUser fresh now policy f l e \<Rightarrow> snd (add_user enc io fresh now policy f l e st)
      | AddKey fresh bytes now who name \<Rightarrow> snd (add_key lower enc sha io fresh bytes now who name st)
      | RemoveKey who ref \<Rightarrow> snd (remove_key lower enc io who ref st)
      | SetKeyDisabled who ref b \<Rightarrow> snd (set_key_disabled lower enc io who ref b st)
      | SetProvider who p \<Rightarrow> snd (set_provider lower enc io who p st)
      | SetModel who m \<Rightarrow> snd (set_model lower enc io who m st)
      | RenameProvider a b \<Rightarrow> snd (rename_in_store enc io a b st)
      | SetRoute who mr \<Rightarrow> snd (set_route lower enc io who mr st)
      | RemoveRoute who mr \<Rightarrow> snd (remove_route lower enc io who mr st)
      | SetCompact who c \<Rightarrow> snd (set_compact lower enc io who c st)
      | SetTools who p \<Rightarrow> snd (set_tools lower enc io who p st)
      | SetWeight who w \<Rightarrow> snd (set_weight lower enc io who w st)
      | SetDisabled who b \<Rightarrow> snd (set_disabled lower enc io who b st)
      | RemoveUser who \<Rightarrow> snd (remove_user lower enc io who st)
      | Touch i ip c now \<Rightarrow> touch_at enc io i ip c now st)"

definition user_run ::
    "(rstr \<Rightarrow> rstr) \<Rightarrow> ('p user list \<Rightarrow> rstr) \<Rightarrow> (8 word list \<Rightarrow> 8 word list) \<Rightarrow> (save_io \<times> 'p user_op) list \<Rightarrow> 'p store \<Rightarrow> 'p store" where
  "user_run lower enc sha ops st = fold (\<lambda>(io, op). user_step lower enc sha io op) ops st"

text \<open>The index is the accounts', and no account carries a key in the old place.\<close>

definition migrated :: "'p user list \<Rightarrow> bool" where
  "migrated us \<longleftrightarrow> (\<forall>u \<in> set us. us_key_hash u = [])"

definition store_ok :: "'p store \<Rightarrow> bool" where
  "store_ok st \<longleftrightarrow> st_index st = index_of (st_accounts st) \<and> migrated (st_accounts st)"

lemma set_update_first: "set (update_first P f xs) \<subseteq> set xs \<union> f ` {x \<in> set xs. P x}"
  by (induction xs) auto

lemma set_remove_first: "set (remove_first P xs) \<subseteq> set xs"
  by (induction xs) auto

lemma save_accounts [simp]: "st_accounts (snd (save enc io st)) = st_accounts st" "st_index (snd (save enc io st)) = st_index st"
  by (auto simp: save_def split: option.splits)

lemma commit_store:
  "snd (commit enc io st r) = (case r of Inl _ \<Rightarrow> st | Inr (st', _) \<Rightarrow> snd (save enc io (reindex st')))"
  by (simp add: commit_def Let_def case_prod_unfold split: sum.splits)

lemma commit_ok:
  assumes "store_ok st" and "\<And>st' out. r = Inr (st', out) \<Longrightarrow> migrated (st_accounts st')"
  shows "store_ok (snd (commit enc io st r))"
  using assms by (auto simp: commit_store store_ok_def reindex_def split: sum.splits prod.splits)

lemma edit_user_Inr:
  assumes "edit_user lower who f st = Inr (st', out)"
  obtains u u' where "find (\<lambda>v. us_id v = us_id u) (st_accounts st) = Some u" and "f u = Inr (u', out)"
    and "st' = st\<lparr>st_accounts := update_first (\<lambda>v. us_id v = us_id u) (\<lambda>_. u') (st_accounts st)\<rparr>" and "u \<in> set (st_accounts st)"
proof -
  from assms obtain found where found: "find_user lower who st = Some found"
    by (auto simp: edit_user_def split: option.splits)
  with assms obtain u where u: "find (\<lambda>v. us_id v = us_id found) (st_accounts st) = Some u"
    by (auto simp: edit_user_def split: option.splits)
  with assms found obtain u' where f: "find (\<lambda>v. us_id v = us_id found) (st_accounts st) = Some u" "f u = Inr (u', out)"
      "st' = st\<lparr>st_accounts := update_first (\<lambda>v. us_id v = us_id found) (\<lambda>_. u') (st_accounts st)\<rparr>"
    by (auto simp: edit_user_def split: sum.splits prod.splits)
  from f(1) have "us_id u = us_id found" "u \<in> set (st_accounts st)" by (auto simp: find_Some_iff)
  then show ?thesis using f by (intro that [of u u']) simp_all
qed

lemma edit_migrated:
  assumes "store_ok st" and "edit_user lower who f st = Inr (st', out)" and "\<And>u u' out. f u = Inr (u', out) \<Longrightarrow> us_key_hash u' = us_key_hash u"
  shows "migrated (st_accounts st')"
proof -
  obtain u u' where u: "f u = Inr (u', out)" "u \<in> set (st_accounts st)"
      "st' = st\<lparr>st_accounts := update_first (\<lambda>v. us_id v = us_id u) (\<lambda>_. u') (st_accounts st)\<rparr>"
    using edit_user_Inr [OF assms(2)] by blast
  then show ?thesis using assms(1) assms(3) [OF u(1)] set_update_first [of "\<lambda>v. us_id v = us_id u" "\<lambda>_. u'" "st_accounts st"]
    by (auto simp: store_ok_def migrated_def)
qed

lemma edit_commit_ok:
  assumes "store_ok st" and "\<And>u u' out. f u = Inr (u', out) \<Longrightarrow> us_key_hash u' = us_key_hash u"
  shows "store_ok (snd (commit enc io st (edit_user lower who f st)))"
  using edit_migrated [OF assms(1) _ assms(2)] by (intro commit_ok [OF assms(1)])

lemma save_ok: "store_ok st \<Longrightarrow> store_ok (snd (save enc io st))"
  by (simp add: store_ok_def)

lemma same_shape_ok:
  "store_ok st \<Longrightarrow> map shape us = map shape (st_accounts st) \<Longrightarrow> migrated us \<Longrightarrow> store_ok (st\<lparr>st_accounts := us\<rparr>)"
  using index_of_cong by (fastforce simp: store_ok_def)

lemma map_update_first_same: "(\<And>x. P x \<Longrightarrow> x \<in> set xs \<Longrightarrow> g (f x) = g x) \<Longrightarrow> map g (update_first P f xs) = map g xs"
  by (induction xs) auto

lemma touch_users_shape:
  "(\<And>k. key_active (f k) = key_active k \<and> ky_hash (f k) = ky_hash k) \<Longrightarrow> map shape (touch_users i f us) = map shape us"
  "migrated us \<Longrightarrow> migrated (touch_users i f us)"
  by (induction us) (auto simp: shape_def migrated_def intro: map_update_first_same)

lemma user_step_ok:
  assumes "store_ok st"
  shows "store_ok (user_step lower enc sha io op st)"
proof (cases op)
  case (AddUser fresh now policy f l e)
  show ?thesis unfolding user_step_def AddUser user_op.case add_user_def Let_def
    using assms by (intro commit_ok) (auto simp: store_ok_def migrated_def new_user_def split: if_splits)
next
  case (AddKey fresh bytes now who name)
  have "store_ok (snd (commit enc io st (Inl e :: user_error + 'a store \<times> credential \<times> rstr)))" for e
    using assms by (simp add: commit_store)
  then show ?thesis using assms unfolding user_step_def AddKey user_op.case add_key_def Let_def
    by (auto intro!: edit_commit_ok split: if_splits)
next
  case (RemoveKey who ref)
  show ?thesis unfolding user_step_def RemoveKey user_op.case remove_key_def
    using assms by (intro edit_commit_ok) (auto split: option.splits)
next
  case (SetKeyDisabled who ref b)
  show ?thesis unfolding user_step_def SetKeyDisabled user_op.case set_key_disabled_def
    using assms by (intro edit_commit_ok) (auto split: option.splits)
next
  case (RenameProvider a b)
  have "map shape (map (rename_in_user a b) (st_accounts st)) = map shape (st_accounts st)"
    by (simp add: shape_def rename_in_user_def)
  moreover have "migrated (map (rename_in_user a b) (st_accounts st))"
    using assms by (simp add: store_ok_def migrated_def rename_in_user_def)
  ultimately have "store_ok (st\<lparr>st_accounts := map (rename_in_user a b) (st_accounts st)\<rparr>)" using same_shape_ok assms by blast
  then show ?thesis by (simp add: user_step_def RenameProvider rename_in_store_def Let_def save_ok)
next
  case (RemoveRoute who mr)
  show ?thesis unfolding user_step_def RemoveRoute user_op.case remove_route_def Let_def
    using assms by (intro edit_commit_ok) (auto split: if_splits)
next
  case (SetWeight who w)
  show ?thesis
  proof (cases "edit_user lower who (\<lambda>u. Inr (u\<lparr>us_weight := clamp 1 100 w\<rparr>, u\<lparr>us_weight := clamp 1 100 w\<rparr>)) st")
    case (Inr r)
    obtain st' out where r: "r = (st', out)" by (cases r)
    obtain u where u: "u \<in> set (st_accounts st)" "find (\<lambda>v. us_id v = us_id u) (st_accounts st) = Some u"
        "st' = st\<lparr>st_accounts := update_first (\<lambda>v. us_id v = us_id u) (\<lambda>_. u\<lparr>us_weight := clamp 1 100 w\<rparr>) (st_accounts st)\<rparr>"
      using edit_user_Inr [OF Inr [unfolded r]] by blast
    have m: "migrated (st_accounts st')" using edit_migrated [OF assms Inr [unfolded r]] by auto
    have "map shape (update_first P (\<lambda>_. u\<lparr>us_weight := n\<rparr>) us) = map shape us" if "find P us = Some u" for P n and us :: "'a user list"
      using that by (induction us) (auto simp: shape_def split: if_splits)
    then have "map shape (st_accounts st') = map shape (st_accounts st)" using u(2,3) by simp
    then have "store_ok st'" using same_shape_ok [OF assms] m u(3) by simp
    then show ?thesis
      unfolding user_step_def SetWeight user_op.case set_weight_def Inr r by (simp add: Let_def case_prod_unfold save_ok)
  qed (use assms in \<open>simp add: user_step_def SetWeight set_weight_def\<close>)
next
  case (RemoveUser who)
  show ?thesis unfolding user_step_def RemoveUser user_op.case remove_user_def
    using assms set_remove_first by (intro commit_ok) (fastforce simp: store_ok_def migrated_def split: option.splits)+
next
  case (Touch i ip c now)
  have "store_ok (st\<lparr>st_accounts := touch_users i (\<lambda>k. snd (touch_key ip c now k)) (st_accounts st)\<rparr>)"
    using assms touch_users_shape [where f = "\<lambda>k. snd (touch_key ip c now k)"]
    by (intro same_shape_ok) (auto simp: store_ok_def touch_key_def key_active_def Let_def case_prod_unfold)
  then show ?thesis using assms by (simp add: user_step_def Touch touch_at_def Let_def save_ok split: option.splits)
qed (use assms in \<open>auto simp: user_step_def set_provider_def set_model_def set_route_def set_compact_def set_tools_def set_disabled_def
    set_user_def intro!: edit_commit_ok\<close>)

lemma user_run_ok: "store_ok st \<Longrightarrow> store_ok (user_run lower enc sha ops st)"
  unfolding user_run_def by (induction ops arbitrary: st) (auto simp: user_step_ok)

lemma migrate_done: "us_key_hash (migrate_single_key fresh u) = []"
  by (simp add: migrate_single_key_def Let_def)

lemma load_ok: "load dec fresh file = Inr st \<Longrightarrow> store_ok st"
  by (auto simp: load_def store_ok_def reindex_def migrated_def migrate_done split: sum.splits option.splits if_splits)

section \<open>Authentication\<close>

lemma authenticate_Some:
  assumes "store_ok st" and "authenticate_key sha key st = Some (u, k)"
  shows "\<exists>ai ki. live (st_accounts st) ai ki (hash_key sha key) \<and> u = st_accounts st ! ai \<and> k = us_keys u ! ki"
  using assms index_of_Some by (fastforce simp: authenticate_key_def store_ok_def Let_def split: option.splits prod.splits if_splits)

lemma authenticate_None:
  assumes "store_ok st"
  shows "authenticate_key sha key st = None \<longleftrightarrow> (\<forall>ai ki. \<not> live (st_accounts st) ai ki (hash_key sha key))"
proof (cases "index_of (st_accounts st) (hash_key sha key)")
  case None
  then show ?thesis using assms index_of_None by (fastforce simp: authenticate_key_def store_ok_def)
next
  case (Some p)
  obtain ai ki where p: "p = (ai, ki)" by (cases p)
  have l: "live (st_accounts st) ai ki (hash_key sha key)" using index_of_Some Some p by blast
  then have "authenticate_key sha key st \<noteq> None"
    using assms Some p by (auto simp: authenticate_key_def store_ok_def live_def constant_time_eq_iff Let_def)
  then show ?thesis using l by blast
qed

lemma live_iff: "(\<exists>ai ki. live us ai ki h) \<longleftrightarrow>
    (\<exists>u \<in> set us. \<not> us_disabled u \<and> (\<exists>k \<in> set (us_keys u). key_active k \<and> ky_hash k = h))"
proof
  assume "\<exists>ai ki. live us ai ki h"
  then obtain ai ki where l: "live us ai ki h" by blast
  then have "us ! ai \<in> set us" "us_keys (us ! ai) ! ki \<in> set (us_keys (us ! ai))" by (auto simp: live_def)
  then show "\<exists>u \<in> set us. \<not> us_disabled u \<and> (\<exists>k \<in> set (us_keys u). key_active k \<and> ky_hash k = h)"
    using l by (auto simp: live_def intro!: bexI [of _ "us ! ai"] bexI [of _ "us_keys (us ! ai) ! ki"])
next
  assume "\<exists>u \<in> set us. \<not> us_disabled u \<and> (\<exists>k \<in> set (us_keys u). key_active k \<and> ky_hash k = h)"
  then obtain u k where u: "u \<in> set us" "\<not> us_disabled u" "k \<in> set (us_keys u)" "key_active k" "ky_hash k = h" by blast
  then obtain ai ki where "ai < length us" "us ! ai = u" "ki < length (us_keys u)" "us_keys u ! ki = k"
    by (auto simp: in_set_conv_nth)
  with u have "live us ai ki h" by (simp add: live_def)
  then show "\<exists>ai ki. live us ai ki h" by blast
qed

definition all_keys :: "'p user list \<Rightarrow> credential list" where
  "all_keys us = concat (map us_keys us)"

lemma all_keys_simps [simp]: "all_keys [] = []" "all_keys (u # us) = us_keys u @ all_keys us"
  by (simp_all add: all_keys_def)

lemma authenticate_iff:
  assumes "store_ok st"
  shows "authenticate sha secret st \<noteq> None \<longleftrightarrow>
    (\<exists>u \<in> set (st_accounts st). \<not> us_disabled u \<and> (\<exists>k \<in> set (us_keys u). key_active k \<and> ky_hash k = hash_key sha secret))"
  using authenticate_None [OF assms] live_iff by (simp add: authenticate_def) blast

lemma no_key_refused:
  assumes "store_ok st" and "hash_key sha secret \<notin> ky_hash ` set (all_keys (st_accounts st))"
  shows "authenticate sha secret st = None"
  using authenticate_iff [OF assms(1), of sha secret] assms(2) by (force simp: all_keys_def)

lemma remove_first_gone:
  assumes "find P ks = Some k" and "distinct (map g ks)"
  shows "g k \<notin> g ` set (remove_first P ks) \<and> k \<in> set ks"
  using assms
proof (induction ks)
  case (Cons x ks)
  show ?case
  proof (cases "P x")
    case True
    then show ?thesis using Cons.prems by auto
  next
    case False
    then have "g k \<notin> g ` set (remove_first P ks)" "k \<in> set ks" using Cons by simp_all
    moreover have "g x \<noteq> g k" using \<open>k \<in> set ks\<close> Cons.prems(2) by (metis distinct.simps(2) image_eqI list.set_map list.simps(9))
    ultimately show ?thesis using False by simp
  qed
qed simp

lemma removed_hash_gone:
  assumes "distinct (map ky_hash (all_keys us))" and "find (\<lambda>v. us_id v = i) us = Some u" and "find P (us_keys u) = Some k"
  shows "ky_hash k \<notin> ky_hash ` set (all_keys (update_first (\<lambda>v. us_id v = i) (\<lambda>_. u\<lparr>us_keys := remove_first P (us_keys u)\<rparr>) us))"
  using assms(1,2)
proof (induction us)
  case (Cons v us)
  show ?case
  proof (cases "us_id v = i")
    case True
    then have "v = u" using Cons.prems by simp
    then show ?thesis using remove_first_gone [OF assms(3), of ky_hash] Cons.prems True by auto
  next
    case False
    then have u: "find (\<lambda>v. us_id v = i) us = Some u" using Cons.prems by simp
    then have "u \<in> set us" by (auto simp: find_Some_iff)
    moreover have "k \<in> set (us_keys u)" using assms(3) by (auto simp: find_Some_iff)
    ultimately have "ky_hash k \<in> ky_hash ` set (all_keys us)" by (auto simp: all_keys_def)
    then have "ky_hash k \<notin> ky_hash ` set (us_keys v)" using Cons.prems(1) by auto
    then show ?thesis using Cons.IH Cons.prems u False by auto
  qed
qed simp

lemma load_written:
  assumes "migrated us" and "dec raw = Inr us" and "trim raw \<noteq> []" and "load dec fresh (Inr (Some raw)) = Inr st"
  shows "st_accounts st = us" and "store_ok st"
proof -
  have "map (\<lambda>(i, u). migrate_single_key (fresh i) u) (enumerate n us) = us" for n
    using assms(1) by (induction us arbitrary: n) (auto simp: migrated_def migrate_single_key_def)
  then show "st_accounts st = us" using assms(2-4) by (auto simp: load_def reindex_def)
  show "store_ok st" using load_ok assms(4) .
qed

lemma commit_Inr:
  assumes "commit enc io st r = (Inr out, st')"
  obtains s where "r = Inr (s, out)" and "io = None" and "st_accounts st' = st_accounts s" and "st_file st' = Some (enc (st_accounts s))"
  using assms by (auto simp: commit_def save_def reindex_def Let_def split: sum.splits prod.splits option.splits)

section \<open>Sessions\<close>

definition sessions_ok :: "session list \<Rightarrow> bool" where
  "sessions_ok ss \<longleftrightarrow> length ss \<le> sessions_kept \<and> distinct (map se_id ss)"

lemma distinct_sort_key: "distinct (map f (sort_key g xs)) \<longleftrightarrow> distinct (map f xs)"
  by (metis distinct_map distinct_sort set_sort sorted_wrt.simps(1))

lemma prune_distinct: "distinct (map se_id ss) \<Longrightarrow> sessions_ok (prune_sessions now ss)"
  by (simp add: prune_sessions_def sessions_ok_def distinct_map_filter distinct_sort_key flip: take_map)

lemma prune_sub: "set (prune_sessions now ss) \<subseteq> set ss"
  using set_take_subset by (fastforce simp: prune_sessions_def)

lemma sessions_remember_ok: "distinct (map se_id ss) \<Longrightarrow> sessions_ok (snd (remember_session c now ss))"
proof -
  assume d: "distinct (map se_id ss)"
  let ?p = "prune_sessions now ss"
  note p = prune_distinct [OF d, of now]
  have "map se_id (update_first (\<lambda>s. se_id s = i) (see_again c now) ?p) = map se_id ?p" for i c
    by (rule map_update_first_same) (simp add: see_again_def)
  then have u: "sessions_ok (update_first (\<lambda>s. se_id s = i) (see_again c now) ?p)" for i c
    using p by (metis length_map sessions_ok_def)
  have "sessions_ok (prune_sessions now (?p @ [s]))" if "find (\<lambda>x. se_id x = se_id s) ?p = None" for s
    using that p by (intro prune_distinct) (auto simp: sessions_ok_def find_None_iff)
  then show ?thesis using p u
    by (auto simp: remember_session_def Let_def split: option.splits prod.splits)
qed


text \<open>New sessions, none of them seen before, met in one second.\<close>

definition burst :: "rstr list \<Rightarrow> nat \<Rightarrow> session list \<Rightarrow> session list" where
  "burst tabs now ss = fold (\<lambda>i ss. snd (remember_session (Some \<lparr>ci_device = None, ci_session = Some i, ci_account = None\<rparr>) now ss)) tabs ss"

abbreviation first_seen :: "nat \<Rightarrow> rstr \<Rightarrow> session" where
  "first_seen now i \<equiv> \<lparr>se_id = i, se_device = None, se_account = None, se_first = now, se_last = now\<rparr>"

lemma sort_key_front: "(\<And>b. b \<in> set bs \<Longrightarrow> g b = c) \<Longrightarrow> (\<And>y. y \<in> set ys \<Longrightarrow> c < g y) \<Longrightarrow> sort_key g (bs @ ys) = bs @ sort_key g ys"
  by (induction bs) (auto intro!: insort_is_Cons simp: order.strict_implies_order)

lemma sort_key_last: "(\<And>y. y \<in> set ys \<Longrightarrow> g n < g y) \<Longrightarrow> sort_key g (ys @ [n]) = n # sort_key g ys"
proof (induction ys)
  case (Cons y ys)
  then have "g n < g y" "sort_key g (ys @ [n]) = n # sort_key g ys" by simp_all
  then show ?case by (simp add: not_le [symmetric])
qed simp

lemma sort_key_join: "(\<And>b. b \<in> set bs \<Longrightarrow> g b = g n) \<Longrightarrow> (\<And>y. y \<in> set ys \<Longrightarrow> g n < g y) \<Longrightarrow>
    sort_key g (bs @ ys @ [n]) = bs @ n # sort_key g ys"
  by (induction bs) (auto simp: sort_key_last intro!: insort_is_Cons simp: order.strict_implies_order)

lemma prune_front:
  assumes "\<And>b. b \<in> set bs \<Longrightarrow> se_last b = now" and "\<And>y. y \<in> set ys \<Longrightarrow> se_last y < now" and "length bs \<le> sessions_kept"
  obtains ys' where "prune_sessions now (bs @ ys) = bs @ ys'" and "set ys' \<subseteq> set ys"
proof -
  let ?f = "filter (\<lambda>s. now - se_last s < session_ttl_secs)" and ?g = "\<lambda>s. - int (se_last s)"
  have f: "?f bs = bs" using assms(1) by (simp add: session_ttl_secs_def)
  have "sort_key ?g (bs @ ?f ys) = bs @ sort_key ?g (?f ys)"
    by (rule sort_key_front [where c = "- int now"]) (use assms(1,2) in auto)
  then have "prune_sessions now (bs @ ys) = bs @ take (sessions_kept - length bs) (sort_key ?g (?f ys))"
    using assms(3) f by (simp add: prune_sessions_def)
  moreover have "set (take n (sort_key ?g (?f ys))) \<subseteq> set ys" for n
    using set_take_subset by fastforce
  ultimately show ?thesis by (rule that)
qed

lemma prune_join:
  assumes "\<And>b. b \<in> set bs \<Longrightarrow> se_last b = now" and "\<And>y. y \<in> set ys \<Longrightarrow> se_last y < now" and "length bs < sessions_kept"
    and "se_last n = now"
  obtains ys' where "prune_sessions now (bs @ ys @ [n]) = (bs @ [n]) @ ys'" and "set ys' \<subseteq> set ys"
proof -
  let ?f = "filter (\<lambda>s. now - se_last s < session_ttl_secs)" and ?g = "\<lambda>s. - int (se_last s)"
  have f: "?f bs = bs" "?f [n] = [n]" using assms(1,4) by (simp_all add: session_ttl_secs_def)
  have "sort_key ?g (bs @ ?f ys @ [n]) = bs @ n # sort_key ?g (?f ys)"
    by (rule sort_key_join) (use assms in auto)
  then have "prune_sessions now (bs @ ys @ [n]) = (bs @ [n]) @ take (sessions_kept - Suc (length bs)) (sort_key ?g (?f ys))"
    using assms(3) f by (simp add: prune_sessions_def take_Cons' Suc_diff_Suc)
  moreover have "set (take n (sort_key ?g (?f ys))) \<subseteq> set ys" for n
    using set_take_subset by fastforce
  ultimately show ?thesis by (rule that)
qed


lemma remember_first:
  assumes "\<And>b. b \<in> set bs \<Longrightarrow> se_last b = now" and "\<And>y. y \<in> set ys \<Longrightarrow> se_last y < now" and "length bs < sessions_kept"
    and "i \<notin> se_id ` set bs" and "i \<notin> se_id ` set ys"
  obtains ys' where "snd (remember_session (Some \<lparr>ci_device = None, ci_session = Some i, ci_account = None\<rparr>) now (bs @ ys)) = (bs @ [first_seen now i]) @ ys'"
    and "set ys' \<subseteq> set ys"
proof -
  obtain zs where z: "prune_sessions now (bs @ ys) = bs @ zs" "set zs \<subseteq> set ys"
    by (rule prune_front [where bs = bs and ys = ys and now = now]) (use assms(1-3) in auto)
  then have "find (\<lambda>s. se_id s = i) (bs @ zs) = None" using assms(4,5) by (auto simp: find_None_iff)
  then have r: "snd (remember_session (Some \<lparr>ci_device = None, ci_session = Some i, ci_account = None\<rparr>) now (bs @ ys)) =
      prune_sessions now (bs @ zs @ [first_seen now i])"
    by (simp add: remember_session_def z is_meaningful_def)
  obtain ws where "prune_sessions now (bs @ zs @ [first_seen now i]) = (bs @ [first_seen now i]) @ ws" "set ws \<subseteq> set zs"
    by (rule prune_join [where bs = bs and ys = zs and now = now and n = "first_seen now i"]) (use assms(1-3) z(2) in auto)
  then show ?thesis using that r z(2) by auto
qed

lemma burst_front:
  assumes "\<And>b. b \<in> set bs \<Longrightarrow> se_last b = now" and "\<And>y. y \<in> set ys \<Longrightarrow> se_last y < now"
    and "distinct (map se_id bs @ tabs)" and "set tabs \<inter> se_id ` set ys = {}" and "length bs + length tabs \<le> sessions_kept"
  shows "\<exists>ys'. burst tabs now (bs @ ys) = (bs @ map (first_seen now) tabs) @ ys' \<and> set ys' \<subseteq> set ys"
  using assms
proof (induction tabs arbitrary: bs ys)
  case Nil
  then show ?case by (auto simp: burst_def)
next
  case (Cons i tabs)
  obtain zs where z: "snd (remember_session (Some \<lparr>ci_device = None, ci_session = Some i, ci_account = None\<rparr>) now (bs @ ys)) =
      (bs @ [first_seen now i]) @ zs" "set zs \<subseteq> set ys"
    by (rule remember_first [where bs = bs and ys = ys and now = now and i = i]) (use Cons.prems in auto)
  have "\<exists>ys'. burst tabs now ((bs @ [first_seen now i]) @ zs) = ((bs @ [first_seen now i]) @ map (first_seen now) tabs) @ ys' \<and> set ys' \<subseteq> set zs"
  proof (rule Cons.IH)
    show "set tabs \<inter> se_id ` set zs = {}" using Cons.prems(4) z(2) by (simp add: disjoint_iff) blast
  qed (use Cons.prems z(2) in auto)
  then show ?case using z by (auto simp: burst_def)
qed

lemma length_update_first: "length (update_first P f xs) = length xs"
  by (induction xs) auto

lemma prune_length: "length (prune_sessions now ss) \<le> sessions_kept"
  by (simp add: prune_sessions_def)

lemma remember_sessions_length: "length (snd (remember_session c now ss)) \<le> sessions_kept"
  using prune_length by (auto simp: remember_session_def Let_def length_update_first split: option.splits)

lemma burst_length: "tabs \<noteq> [] \<Longrightarrow> length (burst tabs now ss) \<le> sessions_kept"
  using remember_sessions_length by (induction tabs rule: rev_induct) (auto simp: burst_def)

section \<open>Properties\<close>

definition sample_credential :: "string \<Rightarrow> string \<Rightarrow> credential" where
  "sample_credential name h = \<lparr>ky_id = lit name, ky_name = lit name, ky_hash = lit h, ky_created = 1, ky_first_used = None,
     ky_last_used = None, ky_last_ip = None, ky_sessions = [], ky_disabled = False\<rparr>"

definition sample_user :: "credential list \<Rightarrow> unit user" where
  "sample_user ks = (new_user (lit ''u1'') 1 () (lit ''Ada'') (lit ''L'') (lit ''a@b.c''))\<lparr>us_keys := ks\<rparr>"

definition sample_store :: "unit store" where
  "sample_store = reindex \<lparr>st_accounts = [sample_user [sample_credential ''desk'' ''61'', sample_credential ''bag'' ''62'']],
     st_index = Map.empty, st_file = Some (lit ''2'')\<rparr>"

definition account_dec :: "rstr \<Rightarrow> rstr + unit user list" where
  "account_dec raw = Inr [sample_user (if raw = lit ''2'' then [sample_credential ''desk'' ''61'', sample_credential ''bag'' ''62'']
     else [sample_credential ''bag'' ''62''])]"

definition account_enc :: "unit user list \<Rightarrow> rstr" where
  "account_enc us = lit (if length (all_keys us) = 2 then ''2'' else ''1'')"

lemmas account_sample_defs = sample_credential_def sample_user_def sample_store_def account_dec_def account_enc_def new_user_def lit_def

lemma sample_loads: "load account_dec (\<lambda>_. []) (Inr (Some (lit ''2''))) = Inr sample_store"
proof -
  have "trim (lit ''2'') \<noteq> []" by (simp add: rust_simps)
  then show ?thesis by (simp add: load_def account_sample_defs migrate_single_key_def)
qed

lemma key_sample_hash: "hash_key (\<lambda>b. [last b]) (lit ''ka'') = lit ''61''"
  by code_simp

lemma sample_edit:
  "edit_user lower (lit ''u1'') f sample_store = (case f (hd (st_accounts sample_store)) of
     Inl e \<Rightarrow> Inl e | Inr (u', out) \<Rightarrow> Inr (sample_store\<lparr>st_accounts := [u']\<rparr>, out))"
  by (simp add: edit_user_def find_user_def account_sample_defs reindex_def split: sum.splits)

text \<open>C20 After a load and any sequence of edits, each saved or not, a secret authenticates exactly when an account that is
  not disabled holds an active key with its hash, and it authenticates as such a key: the index never answers for
  an account or a key that has been moved, removed or disabled, and never misses one.\<close>

theorem authenticate_iff_live:
  assumes "load dec fresh file = Inr st0" and "st = user_run lower enc sha ops st0"
  shows "(authenticate sha secret st \<noteq> None \<longleftrightarrow>
      (\<exists>u \<in> set (st_accounts st). \<not> us_disabled u \<and> (\<exists>k \<in> set (us_keys u). key_active k \<and> ky_hash k = hash_key sha secret)))
    \<and> (case authenticate_key sha secret st of
         None \<Rightarrow> True
       | Some (u, k) \<Rightarrow> u \<in> set (st_accounts st) \<and> \<not> us_disabled u \<and> k \<in> set (us_keys u) \<and> key_active k \<and> ky_hash k = hash_key sha secret)"
proof -
  have ok: "store_ok st" using load_ok [OF assms(1)] user_run_ok assms(2) by blast
  then show ?thesis using authenticate_iff [OF ok] authenticate_Some [OF ok]
    by (fastforce simp: live_def split: option.splits)
qed

theorem authenticate_iff_live_witness:
  "authenticate (\<lambda>b. [last b]) (lit ''ka'') (user_run to_ascii_lowercase account_enc (\<lambda>b. [last b])
     [(Some (lit ''full''), SetDisabled (lit ''u1'') True)] sample_store) = None"
proof -
  let ?st = "user_run to_ascii_lowercase account_enc (\<lambda>b. [last b]) [(Some (lit ''full''), SetDisabled (lit ''u1'') True)] sample_store"
  have "\<forall>u \<in> set (st_accounts ?st). us_disabled u"
    by (simp add: user_run_def user_step_def set_disabled_def set_user_def sample_edit commit_def save_def reindex_def)
  then show ?thesis
    using authenticate_iff_live [OF sample_loads refl, where lower = to_ascii_lowercase and enc = account_enc and sha = "\<lambda>b. [last b]" and secret = "lit ''ka''"
      and ops = "[(Some (lit ''full''), SetDisabled (lit ''u1'') True)]"]
    by blast
qed

text \<open>A key that has been removed is dead: as long as no two keys have the same hash, its secret no longer authenticates,
  neither in the running store nor after a restart that reads the file the removal wrote.\<close>

theorem removed_key_dead:
  assumes "load dec fresh file = Inr st0" and "st = user_run lower enc sha ops st0"
    and "distinct (map ky_hash (all_keys (st_accounts st)))"
    and "remove_key lower enc io who key_ref st = (Inr gone, st')" and "hash_key sha secret = ky_hash gone"
    and "dec (enc (st_accounts st')) = Inr (st_accounts st')" and "trim (enc (st_accounts st')) \<noteq> []"
    and "load dec fresh' (Inr (st_file st')) = Inr restarted"
  shows "authenticate sha secret st' = None \<and> authenticate sha secret restarted = None"
proof -
  have ok: "store_ok st" using load_ok [OF assms(1)] user_run_ok assms(2) by blast
  have ok': "store_ok st'" using user_step_ok [OF ok, of lower enc sha io "RemoveKey who key_ref"] assms(4) by (simp add: user_step_def)
  obtain s where s: "edit_user lower who (\<lambda>u. case find (names_key key_ref) (us_keys u) of
         None \<Rightarrow> Inl (UserNotFound (lit ''key '' @ key_ref))
       | Some gone \<Rightarrow> Inr (u\<lparr>us_keys := remove_first (names_key key_ref) (us_keys u)\<rparr>, gone)) st = Inr (s, gone)"
      "st_accounts st' = st_accounts s" "st_file st' = Some (enc (st_accounts s))"
    using commit_Inr [OF assms(4) [unfolded remove_key_def]] by blast
  obtain u u' where u: "find (\<lambda>v. us_id v = us_id u) (st_accounts st) = Some u"
      "(case find (names_key key_ref) (us_keys u) of None \<Rightarrow> Inl (UserNotFound (lit ''key '' @ key_ref))
        | Some gone \<Rightarrow> Inr (u\<lparr>us_keys := remove_first (names_key key_ref) (us_keys u)\<rparr>, gone)) = Inr (u', gone)"
      "s = st\<lparr>st_accounts := update_first (\<lambda>v. us_id v = us_id u) (\<lambda>_. u') (st_accounts st)\<rparr>"
    by (rule edit_user_Inr [OF s(1)])
  from u(2) have f: "find (names_key key_ref) (us_keys u) = Some gone" and u': "u' = u\<lparr>us_keys := remove_first (names_key key_ref) (us_keys u)\<rparr>"
    by (simp_all split: option.splits)
  have dead: "hash_key sha secret \<notin> ky_hash ` set (all_keys (st_accounts st'))"
    using removed_hash_gone [OF assms(3) u(1) f] u(3) u' s(2) assms(5) by simp
  have m: "migrated (st_accounts st')" using ok' by (simp add: store_ok_def)
  have w: "load dec fresh' (Inr (Some (enc (st_accounts st')))) = Inr restarted" using assms(8) s(2,3) by simp
  note l = load_written [where us = "st_accounts st'" and raw = "enc (st_accounts st')" and dec = dec and fresh = fresh', OF m assms(6,7) w]
  show ?thesis using no_key_refused [OF ok' dead] no_key_refused [OF l(2)] dead l(1) by simp
qed

theorem removed_key_dead_witness:
  "case remove_key to_ascii_lowercase account_enc None (lit ''u1'') (lit ''desk'') sample_store of
     (r, st') \<Rightarrow> r = Inr (sample_credential ''desk'' ''61'') \<and> authenticate (\<lambda>b. [last b]) (lit ''ka'') st' = None"
proof -
  let ?st' = "reindex (sample_store\<lparr>st_accounts := [sample_user [sample_credential ''bag'' ''62'']]\<rparr>)\<lparr>st_file := Some (lit ''1'')\<rparr>"
  have r: "remove_key to_ascii_lowercase account_enc None (lit ''u1'') (lit ''desk'') sample_store = (Inr (sample_credential ''desk'' ''61''), ?st')"
    unfolding remove_key_def sample_edit by (simp add: commit_def save_def reindex_def names_key_def account_sample_defs all_keys_def)
  have t: "trim (lit ''1'') \<noteq> []" by (simp add: rust_simps)
  have e: "account_enc (st_accounts ?st') = lit ''1''" "account_dec (lit ''1'') = Inr (st_accounts ?st')"
    by (simp_all add: account_sample_defs reindex_def)
  have l: "load account_dec (\<lambda>_. []) (Inr (st_file ?st')) = Inr (reindex ?st')"
    using t e(2) by (simp add: load_def reindex_def sample_user_def new_user_def migrate_single_key_def)
  have d: "distinct (map ky_hash (all_keys (st_accounts sample_store)))" by (simp add: account_sample_defs reindex_def)
  show ?thesis
    using removed_key_dead [OF sample_loads, where ops = "[]" and lower = to_ascii_lowercase and enc = account_enc and sha = "\<lambda>b. [last b]",
        OF _ _ r _ _ _ l, of "lit ''ka''"] d e t key_sample_hash r
    by (simp add: user_run_def sample_credential_def)
qed

text \<open>Adding an account whose file cannot be written answers with the failure, but the account stays: the file is as it was
  while the running store has it, and the same request made again is refused as a duplicate of it.\<close>

theorem failed_add_stays:
  assumes "add_user enc io fresh now policy first_name last_name email st = (Inl (UserIo e), st')"
  shows "st_file st' = st_file st
    \<and> st_accounts st' = st_accounts st @ [new_user fresh now policy (trim first_name) (trim last_name) (trim email)]
    \<and> add_user enc io' fresh' now' policy' first_name last_name email st' = (Inl (DuplicateEmail (trim email)), st')"
  using assms
  by (auto simp: add_user_def commit_def save_def reindex_def new_user_def eq_ignore_ascii_case_def Let_def split: if_splits option.splits)

theorem failed_add_stays_witness:
  "snd (add_user account_enc None (lit ''u3'') 8 () (lit ''A'') (lit ''B'') (lit ''x@y.z'')
      (snd (add_user account_enc (Some (lit ''full'')) (lit ''u2'') 7 () (lit ''A'') (lit ''B'') (lit ''x@y.z'') sample_store))) =
    snd (add_user account_enc (Some (lit ''full'')) (lit ''u2'') 7 () (lit ''A'') (lit ''B'') (lit ''x@y.z'') sample_store)"
proof -
  have t: "trim (lit ''A'') = lit ''A''" "trim (lit ''B'') = lit ''B''" "trim (lit ''x@y.z'') = lit ''x@y.z''" "lit ''A'' \<noteq> []" "lit ''B'' \<noteq> []"
    by (simp_all add: rust_simps)
  have m: "email_ok (lit ''x@y.z'')" by (simp add: email_ok_def t rust_simps)
  have d: "\<not> list_ex (\<lambda>u. eq_ignore_ascii_case (us_email u) (lit ''x@y.z'')) (st_accounts sample_store)"
    by (simp add: account_sample_defs reindex_def eq_ignore_ascii_case_def to_ascii_lowercase_def)
  obtain st' where "add_user account_enc (Some (lit ''full'')) (lit ''u2'') 7 () (lit ''A'') (lit ''B'') (lit ''x@y.z'') sample_store =
      (Inl (UserIo (lit ''full'')), st')"
    using t m d by (simp add: add_user_def commit_def save_def Let_def)
  from failed_add_stays [OF this, of None "lit ''u3''" 8 "()"] this show ?thesis by simp
qed

text \<open>Five tabs first seen in one second push out of a key's list every tab last seen before it, however recently: the list
  holds the newcomers alone.\<close>

theorem burst_evicts:
  assumes "length tabs = 5" and "distinct tabs" and "\<forall>s \<in> set ss. se_last s < now \<and> se_id s \<notin> set tabs"
  shows "burst tabs now ss = map (first_seen now) tabs"
proof -
  obtain ys where y: "burst tabs now ([] @ ss) = ([] @ map (first_seen now) tabs) @ ys"
    using burst_front [of "[]" now ss tabs] assms by (auto simp: sessions_kept_def)
  moreover have "length (burst tabs now ss) \<le> sessions_kept" using assms(1) by (intro burst_length) auto
  ultimately show ?thesis using assms(1) by (simp add: sessions_kept_def)
qed


theorem burst_evicts_witness:
  "burst [lit ''a'', lit ''b'', lit ''c'', lit ''d'', lit ''e''] 101 [first_seen 100 (lit ''busy'')] =
     map (first_seen 101) [lit ''a'', lit ''b'', lit ''c'', lit ''d'', lit ''e'']"
  by (rule burst_evicts) (simp_all add: lit_def)

end
