(* ===== verification/Compact.thy ===== *)
theory Compact
  imports Budget Users
begin

text \<open>
  The compaction of a request body before it leaves for a provider,
  \<^verbatim>\<open>src/crates/tab-atelier-proxy/src/compact.rs\<close>: old tool results become stubs, old thinking and stale
  notices go. Layers keep their index loops; \<open>json_len\<close> is the length of \<^verbatim>\<open>serde_json::to_vec\<close>. The bytes of
  one body are counted without the wrap of a 64-bit sum, which no body in memory reaches.
\<close>

section \<open>Levels and counts\<close>

definition does_tools :: "compact_level \<Rightarrow> bool" where
  "does_tools level \<longleftrightarrow> level \<noteq> CompactNone"

definition does_thinking :: "compact_level \<Rightarrow> bool" where
  "does_thinking level \<longleftrightarrow> level = CompactToolsThinking \<or> level = CompactAll"

definition does_notices :: "compact_level \<Rightarrow> bool" where
  "does_notices level \<longleftrightarrow> level = CompactAll"

definition keep_turns :: nat where
  "keep_turns = 6"

definition elide_batch :: nat where
  "elide_batch = 4"

definition min_tool_result_bytes :: nat where
  "min_tool_result_bytes = 200"

definition elide_above_bytes :: nat where
  "elide_above_bytes = 256 * 1024"

record compact_stats =
  cs_elided :: nat
  cs_kept_error :: nat
  cs_kept_small :: nat
  cs_kept_under_budget :: nat
  cs_thinking :: nat
  cs_notices :: nat

definition no_stats :: compact_stats where
  "no_stats = \<lparr>cs_elided = 0, cs_kept_error = 0, cs_kept_small = 0, cs_kept_under_budget = 0, cs_thinking = 0, cs_notices = 0\<rparr>"

definition stats_changed :: "compact_stats \<Rightarrow> bool" where
  "stats_changed st \<longleftrightarrow> cs_elided st > 0 \<or> cs_thinking st > 0 \<or> cs_notices st > 0"

section \<open>Blocks and the window\<close>

definition as_array :: "json option \<Rightarrow> json list option" where
  "as_array v = (case v of Some (JArr xs) \<Rightarrow> Some xs | _ \<Rightarrow> None)"

definition block_type :: "json \<Rightarrow> rstr option" where
  "block_type b = as_str (json_get (lit ''type'') b)"

definition blocks :: "json \<Rightarrow> json list option" where
  "blocks m = as_array (json_get (lit ''content'') m)"

definition set_blocks :: "json \<Rightarrow> json list \<Rightarrow> json" where
  "set_blocks m bs = set_field (lit ''content'') (JArr bs) m"

definition has_block :: "rstr \<Rightarrow> json \<Rightarrow> bool" where
  "has_block kind m = (case blocks m of Some bs \<Rightarrow> list_ex (\<lambda>b. block_type b = Some kind) bs | None \<Rightarrow> False)"

text \<open>The scan back from the end of the array, until \<open>keep\<close> qualifying messages were seen.\<close>

fun window_scan :: "('a \<Rightarrow> bool) \<Rightarrow> 'a list \<Rightarrow> nat \<Rightarrow> nat \<Rightarrow> nat \<Rightarrow> nat" where
  "window_scan q ms keep seen 0 = 0"
| "window_scan q ms keep seen (Suc i) =
     (if q (ms ! i) then (if Suc seen = keep then i else window_scan q ms keep (Suc seen) i)
      else window_scan q ms keep seen i)"

definition window_start :: "'a list \<Rightarrow> nat \<Rightarrow> ('a \<Rightarrow> bool) \<Rightarrow> nat" where
  "window_start ms keep q =
     (let all = length (filter q ms)
      in if all \<le> keep then 0
         else window_scan q ms (keep + (all - keep) mod elide_batch) 0 (length ms))"

section \<open>Layer A: old tool results\<close>

definition elided_prefix :: rstr where
  "elided_prefix = lit ''[elided:''"

definition elided_prefix_legacy :: rstr where
  "elided_prefix_legacy = lit ''[tool result elided by tab-atelier-proxy: ''"

definition provenance_keys :: "rstr list" where
  "provenance_keys = map lit [''file_path'', ''path'', ''pattern'', ''command'', ''query'', ''name'']"

definition provenance_keep :: nat where
  "provenance_keep = 48"

definition stub :: "nat \<Rightarrow> rstr option \<Rightarrow> rstr" where
  "stub n provenance =
     (case provenance of
        None \<Rightarrow> elided_prefix @ show_nat n @ lit ''B]''
      | Some what \<Rightarrow> elided_prefix @ show_nat n @ lit ''B; '' @ what @ lit '']'')"

definition provenance_line :: "rstr \<Rightarrow> rstr" where
  "provenance_line txt =
     (let line = trim (case str_lines txt of [] \<Rightarrow> [] | l # _ \<Rightarrow> l)
      in if length line \<le> provenance_keep then line else take provenance_keep line @ [8230])"

definition describe_call :: "rstr \<Rightarrow> json option \<Rightarrow> rstr" where
  "describe_call name input =
     (let target = Option.bind input (\<lambda>v. case filter (\<lambda>k. as_str (json_get k v) \<noteq> None) provenance_keys of
                                              [] \<Rightarrow> None
                                            | k # _ \<Rightarrow> as_str (json_get k v))
      in case map_option provenance_line target of
           Some t \<Rightarrow> if t \<noteq> [] then name @ [32] @ t else name
         | None \<Rightarrow> name)"

definition call_target :: "json \<Rightarrow> (rstr \<rightharpoonup> rstr) \<Rightarrow> (rstr \<rightharpoonup> rstr)" where
  "call_target b out =
     (if block_type b \<noteq> Some (lit ''tool_use'') then out
      else case as_str (json_get (lit ''id'') b) of
             None \<Rightarrow> out
           | Some i \<Rightarrow> (let name = (case as_str (json_get (lit ''name'') b) of Some n \<Rightarrow> n | None \<Rightarrow> lit ''tool'')
                       in out(i \<mapsto> describe_call name (json_get (lit ''input'') b))))"

definition call_targets :: "json list \<Rightarrow> (rstr \<rightharpoonup> rstr)" where
  "call_targets ms =
     fold (\<lambda>m out. case blocks m of None \<Rightarrow> out | Some bs \<Rightarrow> fold call_target bs out) ms Map.empty"

datatype result_keep = KeepError | KeepUnbound | KeepStubbed | KeepSmall

definition already_elided :: "json \<Rightarrow> bool" where
  "already_elided content =
     (case as_str (Some content) of
        Some s \<Rightarrow> starts_with s elided_prefix \<or> starts_with s elided_prefix_legacy
      | None \<Rightarrow> False)"

definition elidable :: "(json \<Rightarrow> nat) \<Rightarrow> json \<Rightarrow> result_keep + nat" where
  "elidable json_len b =
     (if json_get (lit ''is_error'') b = Some (JBool True) then Inl KeepError
      else if as_str (json_get (lit ''tool_use_id'') b) = None then Inl KeepUnbound
      else case json_get (lit ''content'') b of
             None \<Rightarrow> Inl KeepSmall
           | Some content \<Rightarrow>
               if already_elided content then Inl KeepStubbed
               else if json_len content < min_tool_result_bytes then Inl KeepSmall
               else Inr (json_len content))"

text \<open>The first pass: what may be elided before the window, by message, slot and size.\<close>

type_synonym elision = "nat \<times> nat \<times> nat"

definition note_block ::
    "(json \<Rightarrow> nat) \<Rightarrow> nat \<Rightarrow> nat \<Rightarrow> json \<Rightarrow> elision list \<times> compact_stats \<Rightarrow> elision list \<times> compact_stats" where
  "note_block json_len index slot b acc =
     (let (cands, st) = acc
      in if block_type b \<noteq> Some (lit ''tool_result'') then acc
         else case elidable json_len b of
                Inr n \<Rightarrow> (cands @ [(index, slot, n)], st)
              | Inl KeepError \<Rightarrow> (cands, st\<lparr>cs_kept_error := cs_kept_error st + 1\<rparr>)
              | Inl KeepSmall \<Rightarrow> (cands, st\<lparr>cs_kept_small := cs_kept_small st + 1\<rparr>)
              | Inl _ \<Rightarrow> (cands, st))"

fun scan_blocks ::
    "(json \<Rightarrow> nat) \<Rightarrow> nat \<Rightarrow> nat \<Rightarrow> json list \<Rightarrow> elision list \<times> compact_stats \<Rightarrow> elision list \<times> compact_stats" where
  "scan_blocks json_len index slot [] acc = acc"
| "scan_blocks json_len index slot (b # bs) acc =
     scan_blocks json_len index (Suc slot) bs (note_block json_len index slot b acc)"

fun scan_messages ::
    "(json \<Rightarrow> nat) \<Rightarrow> nat \<Rightarrow> json list \<Rightarrow> elision list \<times> compact_stats \<Rightarrow> elision list \<times> compact_stats" where
  "scan_messages json_len index [] acc = acc"
| "scan_messages json_len index (m # ms) acc =
     scan_messages json_len (Suc index) ms
       (case blocks m of None \<Rightarrow> acc | Some bs \<Rightarrow> scan_blocks json_len index 0 bs acc)"

text \<open>The second pass writes one stub, in place.\<close>

definition stub_text :: "(rstr \<rightharpoonup> rstr) \<Rightarrow> nat \<Rightarrow> json \<Rightarrow> rstr" where
  "stub_text targets n b = stub n (Option.bind (as_str (json_get (lit ''tool_use_id'') b)) targets)"

definition stub_candidate :: "(rstr \<rightharpoonup> rstr) \<Rightarrow> elision \<Rightarrow> json list \<times> compact_stats \<Rightarrow> json list \<times> compact_stats" where
  "stub_candidate targets c acc =
     (let (index, slot, n) = c; (ms, st) = acc
      in case blocks (ms ! index) of
           None \<Rightarrow> acc
         | Some bs \<Rightarrow>
             if slot < length bs
             then (let b = set_field (lit ''content'') (JStr (stub_text targets n (bs ! slot))) (bs ! slot)
                   in (ms[index := set_blocks (ms ! index) (bs[slot := b])], st\<lparr>cs_elided := cs_elided st + 1\<rparr>))
             else acc)"

definition elide_tool_results :: "(json \<Rightarrow> nat) \<Rightarrow> json list \<Rightarrow> compact_stats \<Rightarrow> json list \<times> compact_stats" where
  "elide_tool_results json_len ms st =
     (let start = window_start ms keep_turns (has_block (lit ''tool_result''));
          (cands, st) = scan_messages json_len 0 (take start ms) ([], st);
          stale = sum_list (map (\<lambda>(_, _, n). n) cands)
      in if stale < elide_above_bytes then (ms, st\<lparr>cs_kept_under_budget := length cands\<rparr>)
         else fold (stub_candidate (call_targets (take start ms))) cands (ms, st))"

section \<open>Layer B: old thinking\<close>

definition strip_thinking :: "json \<Rightarrow> json" where
  "strip_thinking m =
     (case blocks m of
        None \<Rightarrow> m
      | Some bs \<Rightarrow> set_blocks m (filter (\<lambda>b. block_type b \<noteq> Some (lit ''thinking'')) bs))"

definition thinking_count :: "json \<Rightarrow> nat" where
  "thinking_count m =
     (case blocks m of
        None \<Rightarrow> 0
      | Some bs \<Rightarrow> length bs - length (filter (\<lambda>b. block_type b \<noteq> Some (lit ''thinking'')) bs))"

definition drop_thinking :: "json list \<Rightarrow> compact_stats \<Rightarrow> json list \<times> compact_stats" where
  "drop_thinking ms st =
     (let start = window_start ms keep_turns (has_block (lit ''thinking''))
      in (map strip_thinking (take start ms) @ drop start ms,
          st\<lparr>cs_thinking := cs_thinking st + sum_list (map thinking_count (take start ms))\<rparr>))"

section \<open>Layer C: stale notices\<close>

definition is_notice :: "json \<Rightarrow> bool" where
  "is_notice m \<longleftrightarrow> as_str (json_get (lit ''role'') m) = Some (lit ''system'')"

definition is_banner :: "json \<Rightarrow> bool" where
  "is_banner m \<longleftrightarrow>
     as_str (json_get (lit ''role'') m) = Some (lit ''system'') \<and>
     (case as_str (json_get (lit ''content'') m) of Some c \<Rightarrow> starts_with c (lit ''<total_tokens>'') | None \<Rightarrow> False)"

definition remove_nth :: "nat \<Rightarrow> 'a list \<Rightarrow> 'a list" where
  "remove_nth i xs = take i xs @ drop (Suc i) xs"

definition notice_dropped :: "compact_stats \<Rightarrow> compact_stats" where
  "notice_dropped st = st\<lparr>cs_notices := cs_notices st + 1\<rparr>"

text \<open>Both loops walk the index down to 0 and remove in place.\<close>

fun notices_from :: "nat \<Rightarrow> json list \<times> compact_stats \<Rightarrow> json list \<times> compact_stats" where
  "notices_from 0 acc = acc"
| "notices_from (Suc i) (ms, st) =
     notices_from i (if is_notice (ms ! i) then (remove_nth i ms, notice_dropped st) else (ms, st))"

definition drop_notices :: "json list \<Rightarrow> compact_stats \<Rightarrow> json list \<times> compact_stats" where
  "drop_notices ms st = notices_from (window_start ms keep_turns is_notice) (ms, st)"

fun banners_from :: "nat \<Rightarrow> bool \<Rightarrow> json list \<times> compact_stats \<Rightarrow> json list \<times> compact_stats" where
  "banners_from 0 kept acc = acc"
| "banners_from (Suc i) kept (ms, st) =
     (if \<not> is_banner (ms ! i) then banners_from i kept (ms, st)
      else if kept then banners_from i kept (remove_nth i ms, notice_dropped st)
      else banners_from i True (ms, st))"

definition drop_banners :: "json list \<Rightarrow> compact_stats \<Rightarrow> json list \<times> compact_stats" where
  "drop_banners ms st = banners_from (length ms) False (ms, st)"

section \<open>The pass\<close>

definition compact_messages :: "(json \<Rightarrow> nat) \<Rightarrow> compact_level \<Rightarrow> json list \<Rightarrow> json list \<times> compact_stats" where
  "compact_messages json_len level ms =
     (let (ms, st) = (if does_tools level then elide_tool_results json_len ms no_stats else (ms, no_stats));
          (ms, st) = (if does_thinking level then drop_thinking ms st else (ms, st))
      in if does_notices level then (let (ms, st) = drop_banners ms st in drop_notices ms st) else (ms, st))"

definition compact_body :: "(json \<Rightarrow> nat) \<Rightarrow> json \<Rightarrow> compact_level \<Rightarrow> json \<times> compact_stats" where
  "compact_body json_len body level =
     (if level = CompactNone then (body, no_stats)
      else case as_array (json_get (lit ''messages'') body) of
             None \<Rightarrow> (body, no_stats)
           | Some ms \<Rightarrow>
               (let (ms, st) = compact_messages json_len level ms
                in (set_field (lit ''messages'') (JArr ms) body, st)))"

section \<open>The window\<close>

lemma window_scan_props:
  assumes "seen < keep" "keep - seen \<le> length (filter q (take i ms))" "i \<le> length ms"
  shows "window_scan q ms keep seen i < i \<and> q (ms ! window_scan q ms keep seen i) \<and>
    length (filter q (drop (window_scan q ms keep seen i) (take i ms))) = keep - seen"
  using assms
proof (induction i arbitrary: seen)
  case (Suc i)
  have tk: "take (Suc i) ms = take i ms @ [ms ! i]" using Suc.prems(3) by (simp add: take_Suc_conv_app_nth)
  have grow: "s < i \<Longrightarrow> drop s (take (Suc i) ms) = drop s (take i ms) @ [ms ! i]" for s using tk Suc.prems(3) by simp
  show ?case
  proof (cases "q (ms ! i)")
    case False
    then show ?thesis using Suc.IH [of seen] Suc.prems tk grow by simp
  next
    case True
    show ?thesis
    proof (cases "Suc seen = keep")
      case t: True
      then show ?thesis using True Suc.prems(3) tk by simp
    next
      case False
      then have w: "window_scan q ms keep seen (Suc i) = window_scan q ms keep (Suc seen) i" using True by simp
      have "keep - Suc seen \<le> length (filter q (take i ms))" using Suc.prems(2) True tk by simp
      then show ?thesis unfolding w using Suc.IH [of "Suc seen"] Suc.prems False True grow by auto
    qed
  qed
qed simp

lemma window_scan_shift: "window_scan q ms (Suc keep) (Suc seen) i = window_scan q ms keep seen i"
  by (induction i arbitrary: seen) auto

lemma window_scan_append: "i \<le> length ms \<Longrightarrow> window_scan q (ms @ xs) keep seen i = window_scan q ms keep seen i"
  by (induction i arbitrary: seen) (auto simp: nth_append)

definition window_quota :: "'a list \<Rightarrow> nat \<Rightarrow> ('a \<Rightarrow> bool) \<Rightarrow> nat" where
  "window_quota ms keep q = keep + (length (filter q ms) - keep) mod elide_batch"

lemma window_start_scan:
  "keep < length (filter q ms) \<Longrightarrow> window_start ms keep q = window_scan q ms (window_quota ms keep q) 0 (length ms)"
  by (simp add: window_start_def window_quota_def)

lemma window_quota_le: "keep < length (filter q ms) \<Longrightarrow> window_quota ms keep q \<le> length (filter q ms)"
proof -
  assume a: "keep < length (filter q ms)"
  obtain d where "length (filter q ms) = keep + d" using less_imp_add_positive [OF a] by metis
  then show ?thesis by (simp add: window_quota_def)
qed

lemma window_start_props:
  assumes "keep < length (filter q ms)" "0 < keep"
  shows "window_start ms keep q < length ms \<and> q (ms ! window_start ms keep q) \<and>
    length (filter q (drop (window_start ms keep q) ms)) = window_quota ms keep q"
  unfolding window_start_scan [OF assms(1)]
  using window_scan_props [of 0 "window_quota ms keep q" q "length ms" ms] window_quota_le [OF assms(1)] assms(2)
  by (simp add: window_quota_def)

lemma window_start_le: "0 < keep \<Longrightarrow> window_start ms keep q \<le> length ms"
  using window_start_props [of keep q ms] by (cases "keep < length (filter q ms)") (auto simp: window_start_def)

lemma window_before:
  assumes "0 < keep"
  shows "length (filter q (take (window_start ms keep q) ms)) =
    (if length (filter q ms) \<le> keep then 0 else elide_batch * ((length (filter q ms) - keep) div elide_batch))"
proof (cases "length (filter q ms) \<le> keep")
  case True
  then show ?thesis by (simp add: window_start_def)
next
  case False
  let ?s = "window_start ms keep q" and ?n = "length (filter q ms)"
  obtain d where d: "?n = keep + d" using False le_Suc_ex by (metis nat_le_linear)
  have "length (filter q (take ?s ms)) + length (filter q (drop ?s ms)) = ?n"
    by (metis append_take_drop_id filter_append length_append)
  then have "length (filter q (take ?s ms)) + (keep + d mod elide_batch) = keep + d"
    using window_start_props [of keep q ms] False assms d by (simp add: window_quota_def)
  then have "length (filter q (take ?s ms)) + d mod elide_batch = elide_batch * (d div elide_batch) + d mod elide_batch" by simp
  then have "length (filter q (take ?s ms)) = elide_batch * (d div elide_batch)" by (rule add_right_imp_eq)
  then show ?thesis using False d by simp
qed

lemma window_start_append:
  assumes "keep < length (filter q ms)" "0 < keep"
    "\<not> q m \<or> (length (filter q ms) + 1 - keep) mod elide_batch \<noteq> 0"
  shows "window_start (ms @ [m]) keep q = window_start ms keep q"
proof (cases "q m")
  case False
  then show ?thesis using assms(1) by (simp add: window_start_def window_scan_append Let_def nth_append)
next
  case True
  let ?n = "length (filter q ms)"
  have "(?n + 1 - keep) mod elide_batch = Suc ((?n - keep) mod elide_batch)"
    using assms(1,3) True by (simp add: Suc_diff_le mod_Suc split: if_splits)
  then have w: "window_quota (ms @ [m]) keep q = Suc (window_quota ms keep q)"
    using True by (simp add: window_quota_def)
  have l: "keep < length (filter q (ms @ [m]))" using assms(1) by simp
  have "0 < window_quota ms keep q" using assms(2) by (simp add: window_quota_def)
  then show ?thesis unfolding window_start_scan [OF l] window_start_scan [OF assms(1)] w
    using True by (simp add: nth_append window_scan_append window_scan_shift)
qed

text \<open>Nothing qualifies before the window until the first batch is due.\<close>

lemma window_before_none:
  assumes "length (filter q ms) < keep + elide_batch" "0 < keep" "m \<in> set (take (window_start ms keep q) ms)"
  shows "\<not> q m"
proof -
  have "elide_batch * ((length (filter q ms) - keep) div elide_batch) = 0"
    using assms(1) less_diff_conv2 [of keep "length (filter q ms)" elide_batch] by (cases "keep \<le> length (filter q ms)") (auto simp: add.commute)
  then have "length (filter q (take (window_start ms keep q) ms)) = 0" using window_before [OF assms(2), of q ms] by simp
  then show ?thesis using assms(3) by (simp add: filter_empty_conv)
qed

section \<open>Layer A rewrites the messages before the window\<close>

definition stub_block :: "(json \<Rightarrow> nat) \<Rightarrow> (rstr \<rightharpoonup> rstr) \<Rightarrow> json \<Rightarrow> json" where
  "stub_block json_len targets b =
     (if block_type b = Some (lit ''tool_result'')
      then (case elidable json_len b of Inr n \<Rightarrow> set_field (lit ''content'') (JStr (stub_text targets n b)) b | Inl _ \<Rightarrow> b)
      else b)"

definition stub_message :: "(json \<Rightarrow> nat) \<Rightarrow> (rstr \<rightharpoonup> rstr) \<Rightarrow> json \<Rightarrow> json" where
  "stub_message json_len targets m =
     (case blocks m of None \<Rightarrow> m | Some bs \<Rightarrow> set_blocks m (map (stub_block json_len targets) bs))"

fun block_cands :: "(json \<Rightarrow> nat) \<Rightarrow> nat \<Rightarrow> nat \<Rightarrow> json list \<Rightarrow> elision list" where
  "block_cands json_len i slot [] = []"
| "block_cands json_len i slot (b # bs) =
     (if block_type b = Some (lit ''tool_result'')
      then (case elidable json_len b of Inr n \<Rightarrow> [(i, slot, n)] | Inl _ \<Rightarrow> []) else []) @
     block_cands json_len i (Suc slot) bs"

fun message_cands :: "(json \<Rightarrow> nat) \<Rightarrow> nat \<Rightarrow> json list \<Rightarrow> elision list" where
  "message_cands json_len i [] = []"
| "message_cands json_len i (m # ms) =
     (case blocks m of None \<Rightarrow> [] | Some bs \<Rightarrow> block_cands json_len i 0 bs) @ message_cands json_len (Suc i) ms"

lemma scan_blocks_cands: "fst (scan_blocks json_len i slot bs acc) = fst acc @ block_cands json_len i slot bs"
  by (induction bs arbitrary: slot acc)
    (auto simp: note_block_def Let_def split: sum.splits result_keep.splits prod.splits)

lemma scan_messages_cands: "fst (scan_messages json_len i ms acc) = fst acc @ message_cands json_len i ms"
  by (induction ms arbitrary: i acc) (auto simp: scan_blocks_cands split: option.splits)

lemma blocks_set_blocks: "blocks m \<noteq> None \<Longrightarrow> blocks (set_blocks m bs) = Some bs"
  by (simp add: blocks_def set_blocks_def as_array_def get_set_same split: option.splits json.splits)

lemma set_blocks_same: "blocks m = Some bs \<Longrightarrow> set_blocks m bs = m"
  by (auto simp: blocks_def set_blocks_def as_array_def intro: set_field_same split: option.splits json.splits)

lemma set_blocks_twice: "set_blocks (set_blocks m bs) cs = set_blocks m cs"
  by (simp add: set_blocks_def set_field_twice)

lemma stub_blocks_fold:
  assumes "i < length ms" "blocks (ms ! i) = Some (pre @ bs)"
  shows "fst (fold (stub_candidate targets) (block_cands json_len i (length pre) bs) (ms, st)) =
    ms[i := set_blocks (ms ! i) (pre @ map (stub_block json_len targets) bs)]"
  using assms
proof (induction bs arbitrary: pre ms st)
  case Nil
  then show ?case by (simp add: set_blocks_same)
next
  case (Cons b bs)
  show ?case
  proof (cases "\<exists>n. block_type b = Some (lit ''tool_result'') \<and> elidable json_len b = Inr n")
    case False
    then have "stub_block json_len targets b = b" "block_cands json_len i (length pre) (b # bs) = block_cands json_len i (length (pre @ [b])) bs"
      by (auto simp: stub_block_def split: sum.splits)
    then show ?thesis using Cons.IH [of ms "pre @ [b]" st] Cons.prems by simp
  next
    case True
    then obtain n where n: "block_type b = Some (lit ''tool_result'')" "elidable json_len b = Inr n" by blast
    let ?b = "stub_block json_len targets b"
    let ?ms = "ms[i := set_blocks (ms ! i) (pre @ ?b # bs)]"
    have c: "block_cands json_len i (length pre) (b # bs) = (i, length pre, n) # block_cands json_len i (length (pre @ [?b])) bs"
      using n by simp
    have s: "stub_candidate targets (i, length pre, n) (ms, st) = (?ms, st\<lparr>cs_elided := cs_elided st + 1\<rparr>)"
      using n Cons.prems by (simp add: stub_candidate_def stub_block_def nth_append)
    have "blocks (?ms ! i) = Some ((pre @ [?b]) @ bs)" using Cons.prems by (simp add: blocks_set_blocks)
    from Cons.IH [OF _ this] show ?thesis unfolding c using Cons.prems s by (simp add: set_blocks_twice)
  qed
qed

lemma stub_messages_fold:
  "fst (fold (stub_candidate targets) (message_cands json_len (length pre) ms) (pre @ ms @ post, st)) =
     pre @ map (stub_message json_len targets) ms @ post"
proof (induction ms arbitrary: pre st)
  case (Cons m ms)
  let ?cs = "case blocks m of None \<Rightarrow> [] | Some bs \<Rightarrow> block_cands json_len (length pre) 0 bs"
  obtain xs st' where x: "fold (stub_candidate targets) ?cs (pre @ (m # ms) @ post, st) = (xs, st')" by fastforce
  have "xs = pre @ stub_message json_len targets m # ms @ post"
  proof (cases "blocks m")
    case None
    then show ?thesis using x by (simp add: stub_message_def)
  next
    case (Some bs)
    then show ?thesis
      using stub_blocks_fold [of "length pre" "pre @ (m # ms) @ post" "[]" bs targets json_len st] x
      by (simp add: stub_message_def nth_append)
  qed
  then show ?case using Cons.IH [of "pre @ [stub_message json_len targets m]" st'] x by simp
qed simp

definition stale_bytes :: "(json \<Rightarrow> nat) \<Rightarrow> json list \<Rightarrow> nat" where
  "stale_bytes json_len ms = sum_list (map (\<lambda>(_, _, n). n) (message_cands json_len 0 ms))"

abbreviation result_window :: "json list \<Rightarrow> nat" where
  "result_window ms \<equiv> window_start ms keep_turns (has_block (lit ''tool_result''))"

lemma elide_as_map:
  "fst (elide_tool_results json_len ms st) =
     (if stale_bytes json_len (take (result_window ms) ms) < elide_above_bytes then ms
      else map (stub_message json_len (call_targets (take (result_window ms) ms))) (take (result_window ms) ms) @
           drop (result_window ms) ms)"
proof -
  let ?s = "result_window ms"
  obtain cs st' where s: "scan_messages json_len 0 (take ?s ms) ([], st) = (cs, st')" by fastforce
  then have c: "cs = message_cands json_len 0 (take ?s ms)" using scan_messages_cands [of json_len 0 "take ?s ms" "([], st)"] by simp
  show ?thesis
    using s stub_messages_fold [of "call_targets (take ?s ms)" json_len "[]" "take ?s ms" "drop ?s ms" st']
    by (simp add: elide_tool_results_def Let_def c stale_bytes_def)
qed

section \<open>What each layer leaves in place\<close>

definition block_bytes :: "(json \<Rightarrow> nat) \<Rightarrow> json \<Rightarrow> nat" where
  "block_bytes json_len b =
     (if block_type b = Some (lit ''tool_result'') then (case elidable json_len b of Inr n \<Rightarrow> n | Inl _ \<Rightarrow> 0) else 0)"

definition message_bytes :: "(json \<Rightarrow> nat) \<Rightarrow> json \<Rightarrow> nat" where
  "message_bytes json_len m = (case blocks m of None \<Rightarrow> 0 | Some bs \<Rightarrow> sum_list (map (block_bytes json_len) bs))"

lemma block_cands_bytes: "sum_list (map (\<lambda>(_, _, n). n) (block_cands json_len i slot bs)) = sum_list (map (block_bytes json_len) bs)"
  by (induction bs arbitrary: slot) (auto simp: block_bytes_def split: sum.splits)

lemma message_cands_bytes: "sum_list (map (\<lambda>(_, _, n). n) (message_cands json_len i ms)) = sum_list (map (message_bytes json_len) ms)"
  by (induction ms arbitrary: i) (auto simp: message_bytes_def block_cands_bytes split: option.splits)

lemma stale_as_sum: "stale_bytes json_len ms = sum_list (map (message_bytes json_len) ms)"
  by (simp add: stale_bytes_def message_cands_bytes)

lemma list_ex_has: "has_block kind m \<longleftrightarrow> (\<exists>bs. blocks m = Some bs \<and> (\<exists>b \<in> set bs. block_type b = Some kind))"
  by (auto simp: has_block_def list_ex_iff split: option.splits)

lemma no_result_no_bytes: "\<not> has_block (lit ''tool_result'') m \<Longrightarrow> message_bytes json_len m = 0"
  by (auto simp: list_ex_has message_bytes_def block_bytes_def split: option.splits)

lemma sum_list_filter_zero: "(\<And>x. x \<in> set xs \<Longrightarrow> \<not> q x \<Longrightarrow> f x = (0::nat)) \<Longrightarrow> sum_list (map f xs) = sum_list (map f (filter q xs))"
  by (induction xs) auto

lemma filter_take_filter: "filter q (take i xs) = take (length (filter q (take i xs))) (filter q xs)"
  by (metis append_eq_conv_conj append_take_drop_id filter_append)

lemma window_region:
  "0 < keep \<Longrightarrow> filter q (take (window_start ms keep q) ms) =
     take (elide_batch * ((length (filter q ms) - keep) div elide_batch)) (filter q ms)"
  by (subst filter_take_filter) (simp add: window_before)

lemma stale_region:
  "stale_bytes json_len (take (result_window ms) ms) =
     (let rs = filter (has_block (lit ''tool_result'')) ms
      in sum_list (map (message_bytes json_len) (take (elide_batch * ((length rs - keep_turns) div elide_batch)) rs)))"
proof -
  have "stale_bytes json_len (take (result_window ms) ms) =
      sum_list (map (message_bytes json_len) (filter (has_block (lit ''tool_result'')) (take (result_window ms) ms)))"
    unfolding stale_as_sum by (rule sum_list_filter_zero) (rule no_result_no_bytes)
  also have "filter (has_block (lit ''tool_result'')) (take (result_window ms) ms) =
      take (elide_batch * ((length (filter (has_block (lit ''tool_result'')) ms) - keep_turns) div elide_batch))
        (filter (has_block (lit ''tool_result'')) ms)"
    by (rule window_region) (simp add: keep_turns_def)
  finally show ?thesis by (simp add: Let_def)
qed

lemma stub_block_type [simp]: "block_type (stub_block json_len targets b) = block_type b"
  by (simp add: stub_block_def block_type_def get_set_other lit_def split: sum.splits)

lemma stub_message_has [simp]: "has_block kind (stub_message json_len targets m) = has_block kind m"
  by (cases "blocks m") (auto simp: stub_message_def has_block_def blocks_set_blocks list_ex_iff)

lemma stubbed_elidable:
  assumes "elidable json_len b = Inr n"
  shows "elidable json_len (set_field (lit ''content'') (JStr (stub n p)) b) = Inl KeepStubbed"
proof -
  have ne: "lit ''is_error'' \<noteq> lit ''content''" "lit ''tool_use_id'' \<noteq> lit ''content''" by (simp_all add: lit_def)
  have c: "json_get (lit ''content'') b \<noteq> None" using assms by (auto simp: elidable_def split: if_splits option.splits)
  have "starts_with (stub n p) elided_prefix" by (simp add: stub_def starts_with_iff split: option.splits)
  then have "already_elided (JStr (stub n p))" by (simp add: already_elided_def as_str_def)
  then show ?thesis using assms by (auto simp: elidable_def get_set_other [OF ne(1)] get_set_other [OF ne(2)] get_set_same [OF c]
      split: if_splits option.splits)
qed

lemma stub_block_bytes [simp]: "block_bytes json_len (stub_block json_len targets b) = 0"
proof (cases "\<exists>n. block_type b = Some (lit ''tool_result'') \<and> elidable json_len b = Inr n")
  case True
  then obtain n where n: "block_type b = Some (lit ''tool_result'')" "elidable json_len b = Inr n" by blast
  have "elidable json_len (stub_block json_len targets b) = Inl KeepStubbed"
    using n stubbed_elidable [OF n(2)] by (simp add: stub_block_def stub_text_def)
  then show ?thesis by (simp add: block_bytes_def)
next
  case False
  then have "stub_block json_len targets b = b" by (auto simp: stub_block_def split: sum.splits)
  then show ?thesis using False by (auto simp: block_bytes_def split: sum.splits)
qed

lemma stub_message_bytes [simp]: "message_bytes json_len (stub_message json_len targets m) = 0"
proof (cases "blocks m")
  case (Some bs)
  then have "blocks (stub_message json_len targets m) = Some (map (stub_block json_len targets) bs)"
    by (simp add: stub_message_def blocks_set_blocks)
  then show ?thesis by (simp add: message_bytes_def o_def)
qed (simp add: stub_message_def message_bytes_def)

lemma strip_has:
  "kind \<noteq> lit ''thinking'' \<Longrightarrow> has_block kind (strip_thinking m) = has_block kind m"
  by (cases "blocks m") (auto simp: strip_thinking_def has_block_def blocks_set_blocks list_ex_iff)

lemma strip_thinking_gone: "\<not> has_block (lit ''thinking'') (strip_thinking m)"
  by (cases "blocks m") (auto simp: strip_thinking_def has_block_def blocks_set_blocks list_ex_iff)

lemma strip_same: "\<not> has_block (lit ''thinking'') m \<Longrightarrow> strip_thinking m = m"
proof (cases "blocks m")
  case (Some bs)
  assume "\<not> has_block (lit ''thinking'') m"
  then have "filter (\<lambda>b. block_type b \<noteq> Some (lit ''thinking'')) bs = bs"
    using Some by (auto simp: list_ex_has filter_id_conv)
  then show ?thesis using Some by (simp add: strip_thinking_def set_blocks_same)
qed (simp add: strip_thinking_def)

lemma strip_bytes [simp]: "message_bytes json_len (strip_thinking m) = message_bytes json_len m"
proof (cases "blocks m")
  case (Some bs)
  then have "blocks (strip_thinking m) = Some (filter (\<lambda>b. block_type b \<noteq> Some (lit ''thinking'')) bs)"
    by (simp add: strip_thinking_def blocks_set_blocks)
  then show ?thesis using Some sum_list_filter_zero [of bs "\<lambda>b. block_type b \<noteq> Some (lit ''thinking'')" "block_bytes json_len"]
    by (simp add: message_bytes_def block_bytes_def lit_def)
qed (simp add: strip_thinking_def)

text \<open>The two backward loops are filters of the messages before where they start.\<close>

lemma notices_from_filter:
  "i \<le> length ms \<Longrightarrow> fst (notices_from i (ms, st)) = filter (\<lambda>m. \<not> is_notice m) (take i ms) @ drop i ms"
proof (induction i arbitrary: ms st)
  case (Suc i)
  have tk: "take (Suc i) ms = take i ms @ [ms ! i]" using Suc.prems by (simp add: take_Suc_conv_app_nth)
  have dr: "drop i ms = ms ! i # drop (Suc i) ms" using Suc.prems by (simp add: Cons_nth_drop_Suc)
  show ?case using Suc by (simp add: tk dr remove_nth_def)
qed simp

lemma drop_notices_filter:
  "fst (drop_notices ms st) =
     filter (\<lambda>m. \<not> is_notice m) (take (window_start ms keep_turns is_notice) ms) @ drop (window_start ms keep_turns is_notice) ms"
  by (simp add: drop_notices_def notices_from_filter window_start_le keep_turns_def)

lemma banners_kept: "i \<le> length ms \<Longrightarrow> fst (banners_from i True (ms, st)) = filter (\<lambda>m. \<not> is_banner m) (take i ms) @ drop i ms"
proof (induction i arbitrary: ms st)
  case (Suc i)
  have tk: "take (Suc i) ms = take i ms @ [ms ! i]" using Suc.prems by (simp add: take_Suc_conv_app_nth)
  have dr: "drop i ms = ms ! i # drop (Suc i) ms" using Suc.prems by (simp add: Cons_nth_drop_Suc)
  show ?case using Suc by (simp add: tk dr remove_nth_def)
qed simp

text \<open>The newest banner stays, all older ones go.\<close>

fun keep_newest :: "('a \<Rightarrow> bool) \<Rightarrow> 'a list \<Rightarrow> 'a list" where
  "keep_newest q [] = []"
| "keep_newest q (x # xs) = (if q x \<and> list_ex q xs then keep_newest q xs else x # keep_newest q xs)"

lemma keep_newest_snoc: "keep_newest q (xs @ [x]) = (if q x then filter (\<lambda>y. \<not> q y) xs @ [x] else keep_newest q xs @ [x])"
  by (induction xs) auto

lemma banners_from_newest:
  "i \<le> length ms \<Longrightarrow> fst (banners_from i False (ms, st)) = keep_newest is_banner (take i ms) @ drop i ms"
proof (induction i arbitrary: ms st)
  case (Suc i)
  have tk: "take (Suc i) ms = take i ms @ [ms ! i]" using Suc.prems by (simp add: take_Suc_conv_app_nth)
  have dr: "drop i ms = ms ! i # drop (Suc i) ms" using Suc.prems by (simp add: Cons_nth_drop_Suc)
  show ?case using Suc banners_kept [of i ms st] by (simp add: tk dr keep_newest_snoc)
qed simp

lemma drop_banners_newest: "fst (drop_banners ms st) = keep_newest is_banner ms"
  by (simp add: drop_banners_def banners_from_newest)

text \<open>One layer after the other, on the messages alone.\<close>

definition layer_a :: "(json \<Rightarrow> nat) \<Rightarrow> json list \<Rightarrow> json list" where
  "layer_a json_len ms = fst (elide_tool_results json_len ms no_stats)"

definition layer_b :: "json list \<Rightarrow> json list" where
  "layer_b ms =
     (let start = window_start ms keep_turns (has_block (lit ''thinking'')) in map strip_thinking (take start ms) @ drop start ms)"

definition stale_notices_out :: "json list \<Rightarrow> json list" where
  "stale_notices_out ms =
     (let start = window_start ms keep_turns is_notice in filter (\<lambda>m. \<not> is_notice m) (take start ms) @ drop start ms)"

definition layer_c :: "json list \<Rightarrow> json list" where
  "layer_c ms = stale_notices_out (keep_newest is_banner ms)"

lemma compact_messages_layers:
  "fst (compact_messages json_len level ms) =
     (let ms1 = (if does_tools level then layer_a json_len ms else ms);
          ms2 = (if does_thinking level then layer_b ms1 else ms1)
      in if does_notices level then layer_c ms2 else ms2)"
proof -
  have b: "fst (drop_thinking xs st) = layer_b xs" for xs st by (simp add: drop_thinking_def layer_b_def Let_def)
  have c: "fst (drop_notices (fst (drop_banners xs st)) st') = layer_c xs" for xs st st'
    by (simp add: drop_notices_filter drop_banners_newest layer_c_def stale_notices_out_def Let_def)
  show ?thesis unfolding compact_messages_def Let_def case_prod_unfold layer_a_def by (simp add: b c)
qed

lemma layer_a_small: "stale_bytes json_len (take (result_window ms) ms) < elide_above_bytes \<Longrightarrow> layer_a json_len ms = ms"
  by (simp add: layer_a_def elide_as_map)

lemma layer_a_map:
  "\<exists>f. layer_a json_len ms = map f (take (result_window ms) ms) @ drop (result_window ms) ms \<and>
     (\<forall>m. f m = m \<or> f m = stub_message json_len (call_targets (take (result_window ms) ms)) m)"
  unfolding layer_a_def elide_as_map by (rule exI [where x = "\<lambda>m. if stale_bytes json_len (take (result_window ms) ms) < elide_above_bytes then m
      else stub_message json_len (call_targets (take (result_window ms) ms)) m"]) auto

text \<open>A property of messages that every layer keeps per message counts the same messages after it.\<close>

lemma layer_a_pointwise: "list_all2 (\<lambda>x y. y = x \<or> (\<exists>targets. y = stub_message json_len targets x)) ms (layer_a json_len ms)"
proof -
  have t: "ms = take (result_window ms) ms @ drop (result_window ms) ms" by simp
  show ?thesis
    by (subst (1) t, unfold layer_a_def elide_as_map) (auto simp: list_all2_conv_all_nth nth_append simp del: append_take_drop_id)
qed

lemma layer_b_pointwise: "list_all2 (\<lambda>x y. y = x \<or> y = strip_thinking x) ms (layer_b ms)"
proof -
  have t: "ms = take i ms @ drop i ms" for i by simp
  show ?thesis
    by (subst (1) t, unfold layer_b_def Let_def) (auto simp: list_all2_conv_all_nth nth_append simp del: append_take_drop_id)
qed

lemma filter_pointwise:
  "list_all2 R xs ys \<Longrightarrow> (\<And>x y. R x y \<Longrightarrow> q x = q y) \<Longrightarrow> list_all2 R (filter q xs) (filter q ys)"
  by (induction rule: list_all2_induct) auto

lemma count_pointwise:
  "list_all2 R xs ys \<Longrightarrow> (\<And>x y. R x y \<Longrightarrow> q x = q y) \<Longrightarrow> length (filter q xs) = length (filter q ys)"
  by (rule list_all2_lengthD) (rule filter_pointwise)

lemma layer_a_counts: "length (filter (has_block kind) (layer_a json_len ms)) = length (filter (has_block kind) ms)"
  by (rule count_pointwise [OF layer_a_pointwise, symmetric]) auto

section \<open>A later turn leaves the compacted prefix alone\<close>

text \<open>The window only moves when a message completes a batch.\<close>

definition batch_due :: "('a \<Rightarrow> bool) \<Rightarrow> 'a list \<Rightarrow> 'a \<Rightarrow> bool" where
  "batch_due q ms m \<longleftrightarrow>
     q m \<and> keep_turns < length (filter q ms) + 1 \<and> (length (filter q ms) + 1 - keep_turns) mod elide_batch = 0"

lemma not_due_cases:
  assumes "\<not> batch_due q ms m"
  shows "window_start (ms @ [m]) keep_turns q = window_start ms keep_turns q \<or>
    length (filter q (ms @ [m])) < keep_turns + elide_batch"
proof (cases "keep_turns < length (filter q ms)")
  case True
  then show ?thesis using window_start_append [of keep_turns q ms m] assms by (auto simp: batch_due_def keep_turns_def)
next
  case False
  then show ?thesis by (simp add: elide_batch_def)
qed

lemma layer_a_few:
  assumes "length (filter (has_block (lit ''tool_result'')) ms) < keep_turns + elide_batch"
  shows "layer_a json_len ms = ms"
proof -
  have "message_bytes json_len m = 0" if "m \<in> set (take (result_window ms) ms)" for m
    using window_before_none [OF assms _ that] by (simp add: no_result_no_bytes keep_turns_def)
  then have "stale_bytes json_len (take (result_window ms) ms) = 0" by (simp add: stale_as_sum)
  then show ?thesis by (simp add: layer_a_small elide_above_bytes_def)
qed

lemma layer_b_few:
  assumes "length (filter (has_block (lit ''thinking'')) ms) < keep_turns + elide_batch"
  shows "layer_b ms = ms"
proof -
  have "strip_thinking m = m" if "m \<in> set (take (window_start ms keep_turns (has_block (lit ''thinking''))) ms)" for m
    using window_before_none [OF assms _ that] by (simp add: strip_same keep_turns_def)
  then show ?thesis by (simp add: layer_b_def map_idI)
qed

lemma window_start_le_append: "window_start ms keep_turns q \<le> length ms"
  by (simp add: window_start_le keep_turns_def)

lemma layer_a_append:
  assumes "\<not> batch_due (has_block (lit ''tool_result'')) ms m"
  shows "layer_a json_len (ms @ [m]) = layer_a json_len ms @ [m]"
  using not_due_cases [OF assms]
proof
  assume "length (filter (has_block (lit ''tool_result'')) (ms @ [m])) < keep_turns + elide_batch"
  moreover from this have "length (filter (has_block (lit ''tool_result'')) ms) < keep_turns + elide_batch" by (simp split: if_splits)
  ultimately show ?thesis by (simp only: layer_a_few)
next
  assume "result_window (ms @ [m]) = result_window ms"
  then show ?thesis by (simp add: layer_a_def elide_as_map window_start_le_append)
qed

lemma layer_b_append:
  assumes "\<not> batch_due (has_block (lit ''thinking'')) ms m"
  shows "layer_b (ms @ [m]) = layer_b ms @ [m]"
  using not_due_cases [OF assms]
proof
  assume "length (filter (has_block (lit ''thinking'')) (ms @ [m])) < keep_turns + elide_batch"
  moreover from this have "length (filter (has_block (lit ''thinking'')) ms) < keep_turns + elide_batch" by (simp split: if_splits)
  ultimately show ?thesis by (simp only: layer_b_few)
next
  assume "window_start (ms @ [m]) keep_turns (has_block (lit ''thinking'')) = window_start ms keep_turns (has_block (lit ''thinking''))"
  then show ?thesis by (simp add: layer_b_def window_start_le_append Let_def)
qed

lemma layer_c_append:
  assumes "\<not> is_notice m"
  shows "layer_c (ms @ [m]) = layer_c ms @ [m]"
proof -
  have "\<not> is_banner m" using assms by (auto simp: is_banner_def is_notice_def)
  then have k: "keep_newest is_banner (ms @ [m]) = keep_newest is_banner ms @ [m]" by (simp add: keep_newest_snoc)
  show ?thesis
  proof (cases "keep_turns < length (filter is_notice (keep_newest is_banner ms))")
    case True
    have "window_start (keep_newest is_banner ms @ [m]) keep_turns is_notice = window_start (keep_newest is_banner ms) keep_turns is_notice"
      by (rule window_start_append [OF True]) (simp_all add: keep_turns_def assms)
    then show ?thesis by (simp add: layer_c_def stale_notices_out_def k window_start_le_append Let_def)
  next
    case False
    then show ?thesis using assms by (simp add: layer_c_def stale_notices_out_def k window_start_def Let_def)
  qed
qed

lemma layer_b_due: "batch_due (has_block kind) (layer_a json_len ms) m = batch_due (has_block kind) ms m"
  by (simp add: batch_due_def layer_a_counts)

lemma compact_append:
  assumes "\<not> batch_due (has_block (lit ''tool_result'')) ms m" "\<not> batch_due (has_block (lit ''thinking'')) ms m" "\<not> is_notice m"
  shows "fst (compact_messages json_len level (ms @ [m])) = fst (compact_messages json_len level ms) @ [m]"
  using assms by (simp add: compact_messages_layers layer_a_append layer_b_append layer_b_due layer_c_append Let_def)

text \<open>A turn that arrives leaves what was sent of the earlier ones as it was, byte for byte, unless it is the turn that
  completes a batch of four: with every result and thinking turn in mind, the compacted body of the longer
  conversation is the compacted body of the shorter one and the new turn behind it.
\<close>

theorem compacted_prefix_stable:
  assumes "\<not> batch_due (has_block (lit ''tool_result'')) ms m" "\<not> batch_due (has_block (lit ''thinking'')) ms m" "\<not> is_notice m"
  shows "fst (compact_messages json_len level (ms @ [m])) = fst (compact_messages json_len level ms) @ [m]"
  using assms by (rule compact_append)

section \<open>Nothing loses its partner\<close>

definition body_messages :: "json \<Rightarrow> json list" where
  "body_messages body = (case as_array (json_get (lit ''messages'') body) of Some ms \<Rightarrow> ms | None \<Rightarrow> [])"

text \<open>The calls and results of a message: type, name, ids, and the text of a result that is an error.\<close>

definition is_call :: "json \<Rightarrow> bool" where
  "is_call b \<longleftrightarrow> block_type b = Some (lit ''tool_use'') \<or> block_type b = Some (lit ''tool_result'')"

definition call_mark :: "json \<Rightarrow> rstr option \<times> json option \<times> json option \<times> json option \<times> json option" where
  "call_mark b =
     (block_type b, json_get (lit ''name'') b, json_get (lit ''id'') b, json_get (lit ''tool_use_id'') b,
      if json_get (lit ''is_error'') b = Some (JBool True) then json_get (lit ''content'') b else None)"

definition call_marks :: "json \<Rightarrow> (rstr option \<times> json option \<times> json option \<times> json option \<times> json option) list" where
  "call_marks m = (case blocks m of None \<Rightarrow> [] | Some bs \<Rightarrow> map call_mark (filter is_call bs))"

lemma stub_block_mark [simp]: "call_mark (stub_block json_len targets b) = call_mark b" "is_call (stub_block json_len targets b) = is_call b"
proof -
  have "json_get (lit ''is_error'') b \<noteq> Some (JBool True)" if "elidable json_len b = Inr n" for n
    using that by (auto simp: elidable_def)
  then show "call_mark (stub_block json_len targets b) = call_mark b"
    by (auto simp: stub_block_def call_mark_def get_set_other lit_def block_type_def split: sum.splits)
qed (simp add: is_call_def)

lemma stub_message_marks [simp]: "call_marks (stub_message json_len targets m) = call_marks m"
proof (cases "blocks m")
  case (Some bs)
  then have "blocks (stub_message json_len targets m) = Some (map (stub_block json_len targets) bs)"
    by (simp add: stub_message_def blocks_set_blocks)
  then show ?thesis using Some by (simp add: call_marks_def filter_map o_def)
qed (simp add: stub_message_def)

lemma strip_marks [simp]: "call_marks (strip_thinking m) = call_marks m"
proof (cases "blocks m")
  case (Some bs)
  have "filter is_call (filter (\<lambda>b. block_type b \<noteq> Some (lit ''thinking'')) bs) = filter is_call bs"
    by (auto simp: is_call_def lit_def intro!: filter_cong)
  then show ?thesis using Some by (simp add: call_marks_def strip_thinking_def blocks_set_blocks)
qed (simp add: strip_thinking_def)

lemma concat_pointwise: "list_all2 R xs ys \<Longrightarrow> (\<And>x y. R x y \<Longrightarrow> f x = f y) \<Longrightarrow> concat (map f xs) = concat (map f ys)"
  by (induction rule: list_all2_induct) auto

lemma layer_marks:
  "concat (map call_marks (layer_a json_len ms)) = concat (map call_marks ms)"
  "concat (map call_marks (layer_b ms)) = concat (map call_marks ms)"
  by (rule concat_pointwise [OF layer_a_pointwise, symmetric], auto) (rule concat_pointwise [OF layer_b_pointwise, symmetric], auto)

lemma concat_filter_empty: "(\<And>x. x \<in> set xs \<Longrightarrow> \<not> q x \<Longrightarrow> f x = []) \<Longrightarrow> concat (map f (filter q xs)) = concat (map f xs)"
  by (induction xs) auto

lemma keep_newest_concat: "(\<And>x. x \<in> set xs \<Longrightarrow> q x \<Longrightarrow> f x = []) \<Longrightarrow> concat (map f (keep_newest q xs)) = concat (map f xs)"
  by (induction xs) auto

lemma keep_newest_sub: "set (keep_newest q xs) \<subseteq> set xs"
  by (induction xs) auto

lemma stale_notices_concat:
  assumes "\<And>m. m \<in> set ms \<Longrightarrow> is_notice m \<Longrightarrow> f m = []"
  shows "concat (map f (stale_notices_out ms)) = concat (map f ms)"
proof -
  let ?s = "window_start ms keep_turns is_notice"
  have "concat (map f (filter (\<lambda>m. \<not> is_notice m) (take ?s ms))) = concat (map f (take ?s ms))"
    by (rule concat_filter_empty) (use assms in \<open>auto dest: in_set_takeD\<close>)
  then have "concat (map f (stale_notices_out ms)) = concat (map f (take ?s ms @ drop ?s ms))"
    by (simp add: stale_notices_out_def Let_def del: append_take_drop_id)
  then show ?thesis by simp
qed

lemma banner_notice: "is_banner m \<Longrightarrow> is_notice m"
  by (simp add: is_banner_def is_notice_def)

lemma layer_c_concat:
  assumes "\<And>m. m \<in> set ms \<Longrightarrow> is_notice m \<Longrightarrow> f m = []"
  shows "concat (map f (layer_c ms)) = concat (map f ms)"
  unfolding layer_c_def
proof (subst stale_notices_concat)
  show "f m = []" if "m \<in> set (keep_newest is_banner ms)" "is_notice m" for m
    using assms that keep_newest_sub [of is_banner ms] by blast
  show "concat (map f (keep_newest is_banner ms)) = concat (map f ms)"
    by (rule keep_newest_concat) (use assms banner_notice in blast)
qed

text \<open>No layer reads or writes anything that would make a message a notice, or one that was not.\<close>

lemma role_content: "lit ''role'' \<noteq> lit ''content''"
  by (simp add: lit_def)

lemma notice_layers [simp]: "is_notice (stub_message json_len targets m) = is_notice m" "is_notice (strip_thinking m) = is_notice m"
  by (auto simp: is_notice_def stub_message_def strip_thinking_def set_blocks_def get_set_other [OF role_content] split: option.splits)

lemma pointwise_notices:
  assumes "list_all2 R ms ms'" "\<And>x y. R x y \<Longrightarrow> is_notice x = is_notice y \<and> f x = f y" "\<And>m. m \<in> set ms \<Longrightarrow> is_notice m \<Longrightarrow> f m = z"
    "m \<in> set ms'" "is_notice m"
  shows "f m = z"
proof -
  obtain i where i: "i < length ms'" "ms' ! i = m" using assms(4) by (auto simp: in_set_conv_nth)
  then have "R (ms ! i) m" "ms ! i \<in> set ms" using assms(1) by (auto simp: list_all2_conv_all_nth)
  then show ?thesis using assms(2,3,5) by metis
qed

lemma compact_marks:
  assumes "\<And>m. m \<in> set ms \<Longrightarrow> is_notice m \<Longrightarrow> call_marks m = []"
  shows "concat (map call_marks (fst (compact_messages json_len level ms))) = concat (map call_marks ms)"
proof -
  have a: "call_marks m = []" if "m \<in> set (layer_a json_len ms)" "is_notice m" for m
    by (rule pointwise_notices [OF layer_a_pointwise _ _ that]) (use assms in auto)
  have b: "call_marks m = []" if "m \<in> set (layer_b (layer_a json_len ms))" "is_notice m" for m
    by (rule pointwise_notices [OF layer_b_pointwise _ _ that]) (use a in auto)
  show ?thesis unfolding compact_messages_layers Let_def
    using assms a b by (cases level) (simp_all add: does_tools_def does_thinking_def does_notices_def layer_marks layer_c_concat)
qed

text \<open>Whatever the level, a call and its result stay together: every \<^verbatim>\<open>tool_use\<close> and every \<^verbatim>\<open>tool_result\<close> of the body is
  there afterwards, in order and under its name and ids, a result that is an error word for word; and no field but
  the messages changed. It rests on notices carrying neither.
\<close>

theorem pairing_survives:
  assumes "\<And>m. m \<in> set (body_messages body) \<Longrightarrow> is_notice m \<Longrightarrow> call_marks m = []"
  shows "concat (map call_marks (body_messages (fst (compact_body json_len body level)))) =
      concat (map call_marks (body_messages body)) \<and>
    (\<forall>k. k \<noteq> lit ''messages'' \<longrightarrow> json_get k (fst (compact_body json_len body level)) = json_get k body)"
proof (cases "level = CompactNone \<or> as_array (json_get (lit ''messages'') body) = None")
  case True
  then show ?thesis by (auto simp: compact_body_def)
next
  case False
  then obtain ms where ms: "as_array (json_get (lit ''messages'') body) = Some ms" by auto
  then have g: "json_get (lit ''messages'') body \<noteq> None" by (auto simp: as_array_def split: option.splits)
  let ?out = "set_field (lit ''messages'') (JArr (fst (compact_messages json_len level ms))) body"
  have o: "fst (compact_body json_len body level) = ?out" using False ms by (simp add: compact_body_def Let_def case_prod_unfold)
  have "body_messages ?out = fst (compact_messages json_len level ms)" "body_messages body = ms"
    using ms by (simp_all add: body_messages_def get_set_same [OF g] as_array_def split: option.splits)
  then show ?thesis unfolding o using compact_marks [of ms json_len level] assms by (simp add: get_set_other)
qed

section \<open>The window\<close>

lemma after_window_few: "length (filter q (drop (window_start ms keep_turns q) ms)) < keep_turns + elide_batch"
proof (cases "keep_turns < length (filter q ms)")
  case True
  then show ?thesis using window_start_props [OF True] mod_less_divisor [of elide_batch "length (filter q ms) - keep_turns"]
    by (simp add: window_quota_def keep_turns_def elide_batch_def)
qed (simp add: window_start_def elide_batch_def)

text \<open>A layer keeps the newest six messages it acts on, and up to three more: what lies before the window is always a
  whole number of batches of four, and the window opens on such a message.
\<close>

theorem window_keeps_six_to_nine:
  "(let n = length (filter q ms); s = window_start ms keep_turns q; kept = length (filter q (drop s ms))
    in if n \<le> 6 then s = 0 else s < length ms \<and> q (ms ! s) \<and> 6 \<le> kept \<and> kept \<le> 9 \<and> (n - kept) mod 4 = 0)"
proof (cases "length (filter q ms) \<le> 6")
  case True
  then show ?thesis by (simp add: window_start_def keep_turns_def)
next
  case False
  let ?s = "window_start ms keep_turns q"
  have p: "?s < length ms \<and> q (ms ! ?s) \<and> length (filter q (drop ?s ms)) = window_quota ms keep_turns q"
    using window_start_props [of keep_turns q ms] False by (simp add: keep_turns_def)
  have s: "length (filter q ms) = length (filter q (take ?s ms)) + length (filter q (drop ?s ms))"
    by (metis append_take_drop_id filter_append length_append)
  have "length (filter q (take ?s ms)) mod 4 = 0" using window_before [of keep_turns q ms] False by (simp add: keep_turns_def elide_batch_def)
  moreover have "6 \<le> window_quota ms keep_turns q \<and> window_quota ms keep_turns q \<le> 9"
    using mod_less_divisor [of 4 "length (filter q ms) - 6"] by (simp add: window_quota_def keep_turns_def elide_batch_def)
  ultimately show ?thesis using False p s by (simp add: Let_def)
qed

section \<open>A body that was compacted\<close>

definition region_bytes :: "(json \<Rightarrow> nat) \<Rightarrow> json list \<Rightarrow> nat" where
  "region_bytes json_len rs =
     sum_list (take (elide_batch * ((length rs - keep_turns) div elide_batch)) (map (message_bytes json_len) rs))"

lemma stale_region_bytes:
  "stale_bytes json_len (take (result_window ms) ms) = region_bytes json_len (filter (has_block (lit ''tool_result'')) ms)"
  by (simp add: stale_region region_bytes_def Let_def take_map)

lemma map_filter_pointwise:
  "list_all2 R xs ys \<Longrightarrow> (\<And>x y. R x y \<Longrightarrow> q x = q y \<and> f x = f y) \<Longrightarrow> map f (filter q xs) = map f (filter q ys)"
  by (induction rule: list_all2_induct) auto

lemma region_pointwise:
  assumes "list_all2 R xs ys" "\<And>x y. R x y \<Longrightarrow> q x = q y \<and> message_bytes json_len x = message_bytes json_len y"
  shows "region_bytes json_len (filter q ys) = region_bytes json_len (filter q xs)"
proof -
  have "map (message_bytes json_len) (filter q ys) = map (message_bytes json_len) (filter q xs)"
    by (rule map_filter_pointwise [OF assms(1), symmetric]) (rule assms(2))
  then show ?thesis unfolding region_bytes_def by (metis length_map)
qed

lemma layer_a_region: "region_bytes json_len (filter (has_block (lit ''tool_result'')) (layer_a json_len ms)) < elide_above_bytes"
proof (cases "stale_bytes json_len (take (result_window ms) ms) < elide_above_bytes")
  case True
  then show ?thesis by (simp add: layer_a_small flip: stale_region_bytes)
next
  case False
  let ?s = "result_window ms" and ?q = "has_block (lit ''tool_result'')"
  let ?f = "stub_message json_len (call_targets (take ?s ms))"
  let ?k = "elide_batch * ((length (filter ?q ms) - keep_turns) div elide_batch)"
  have k: "length (filter ?q (take ?s ms)) = ?k" using window_before [of keep_turns ?q ms] by (simp add: keep_turns_def)
  have c: "?q \<circ> ?f = ?q" by (simp add: fun_eq_iff)
  have "layer_a json_len ms = map ?f (take ?s ms) @ drop ?s ms" using False by (simp add: layer_a_def elide_as_map)
  then have fl: "filter ?q (layer_a json_len ms) = map ?f (filter ?q (take ?s ms)) @ filter ?q (drop ?s ms)"
    by (simp add: filter_map c)
  have "length (filter ?q (layer_a json_len ms)) = length (filter ?q ms)" by (rule layer_a_counts)
  then have "region_bytes json_len (filter ?q (layer_a json_len ms)) = sum_list (take ?k (map (message_bytes json_len) (filter ?q (layer_a json_len ms))))"
    by (simp add: region_bytes_def)
  also have "\<dots> = sum_list (map (message_bytes json_len) (map ?f (filter ?q (take ?s ms))))"
    unfolding fl by (simp add: k o_def del: map_map)
  also have "\<dots> = 0" by (simp add: o_def)
  finally show ?thesis by (simp add: elide_above_bytes_def)
qed

lemma layer_b_region:
  "region_bytes json_len (filter (has_block (lit ''tool_result'')) (layer_b ms)) = region_bytes json_len (filter (has_block (lit ''tool_result'')) ms)"
  by (rule region_pointwise [OF layer_b_pointwise]) (auto simp: strip_has lit_def)

lemma layer_b_thinking: "length (filter (has_block (lit ''thinking'')) (layer_b ms)) < keep_turns + elide_batch"
proof -
  have "filter (has_block (lit ''thinking'')) (map strip_thinking xs) = []" for xs
    using strip_thinking_gone by (simp add: filter_empty_conv)
  then show ?thesis using after_window_few by (simp add: layer_b_def Let_def)
qed

lemma stale_notices_few: "length (filter is_notice (stale_notices_out ms)) < keep_turns + elide_batch"
  using after_window_few [of is_notice ms] by (simp add: stale_notices_out_def Let_def)

lemma stale_notices_same:
  assumes "length (filter is_notice ms) < keep_turns + elide_batch"
  shows "stale_notices_out ms = ms"
proof -
  have "filter (\<lambda>m. \<not> is_notice m) (take (window_start ms keep_turns is_notice) ms) = take (window_start ms keep_turns is_notice) ms"
    unfolding filter_id_conv using window_before_none [OF assms] by (auto simp: keep_turns_def)
  then show ?thesis by (simp add: stale_notices_out_def Let_def)
qed

lemma keep_newest_count: "length (filter q (keep_newest q xs)) \<le> 1"
proof (induction xs)
  case (Cons x xs)
  have "\<not> list_ex q xs \<Longrightarrow> filter q (keep_newest q xs) = []"
    using keep_newest_sub [of q xs] by (auto simp: filter_empty_conv list_ex_iff)
  then show ?case using Cons by auto
qed simp

lemma keep_newest_same: "length (filter q xs) \<le> 1 \<Longrightarrow> keep_newest q xs = xs"
  by (induction xs) (auto simp: filter_empty_conv list_ex_iff)

lemma length_filter_filter: "length (filter p (filter q xs)) \<le> length (filter p xs)"
  by (induction xs) auto

lemma stale_notices_banners: "length (filter is_banner (stale_notices_out ms)) \<le> length (filter is_banner ms)"
proof -
  let ?s = "window_start ms keep_turns is_notice"
  have "length (filter is_banner ms) = length (filter is_banner (take ?s ms)) + length (filter is_banner (drop ?s ms))"
    by (metis append_take_drop_id filter_append length_append)
  then show ?thesis using length_filter_filter [of is_banner "\<lambda>m. \<not> is_notice m" "take ?s ms"]
    by (simp add: stale_notices_out_def Let_def)
qed

lemma layer_c_idem: "layer_c (layer_c ms) = layer_c ms"
proof -
  have "length (filter is_banner (layer_c ms)) \<le> 1"
    unfolding layer_c_def using stale_notices_banners keep_newest_count [of is_banner ms] order_trans by blast
  then have "keep_newest is_banner (layer_c ms) = layer_c ms" by (rule keep_newest_same)
  moreover have "stale_notices_out (layer_c ms) = layer_c ms"
    unfolding layer_c_def by (rule stale_notices_same) (rule stale_notices_few)
  ultimately show ?thesis by (simp add: layer_c_def [of "layer_c ms"])
qed

lemma filter_as_concat: "filter q xs = concat (map (\<lambda>x. if q x then [x] else []) xs)"
  by (induction xs) auto

lemma layer_c_filter:
  assumes "\<And>m. m \<in> set ms \<Longrightarrow> is_notice m \<Longrightarrow> \<not> q m"
  shows "filter q (layer_c ms) = filter q ms"
  unfolding filter_as_concat by (rule layer_c_concat) (simp add: assms)

lemma layer_notices_plain:
  assumes "\<And>m. m \<in> set ms \<Longrightarrow> is_notice m \<Longrightarrow> \<not> has_block kind m" "m \<in> set (layer_b (layer_a json_len ms))" "is_notice m"
  shows "\<not> has_block kind m"
proof -
  have a: "\<not> has_block kind m" if "m \<in> set (layer_a json_len ms)" "is_notice m" for m
  proof -
    have "has_block kind m = False" by (rule pointwise_notices [OF layer_a_pointwise _ _ that]) (use assms(1) in auto)
    then show ?thesis by simp
  qed
  have "has_block kind (strip_thinking x) \<longrightarrow> has_block kind x" for x
    by (cases "kind = lit ''thinking''") (simp_all add: strip_has strip_thinking_gone)
  then have "has_block kind m = False"
    using assms(2,3) layer_b_pointwise [of "layer_a json_len ms"] a
    by (auto simp: list_all2_conv_all_nth in_set_conv_nth) (metis notice_layers(2))
  then show ?thesis by simp
qed

text \<open>C26 The pass is done once it ran: compacting what was compacted changes nothing, at every level. It rests on
  notices being plain text.
\<close>

theorem compaction_idempotent:
  assumes "\<And>m. m \<in> set ms \<Longrightarrow> is_notice m \<Longrightarrow> blocks m = None"
  shows "fst (compact_messages json_len level (fst (compact_messages json_len level ms))) = fst (compact_messages json_len level ms)"
proof -
  let ?a = "layer_a json_len ms" let ?b = "layer_b ?a" let ?c = "layer_c ?b"
  have plain: "\<And>m. m \<in> set ms \<Longrightarrow> is_notice m \<Longrightarrow> \<not> has_block kind m" for kind
    using assms by (simp add: has_block_def)
  have cf: "filter (has_block kind) ?c = filter (has_block kind) ?b" for kind
    by (rule layer_c_filter) (rule layer_notices_plain [OF plain])
  have aa: "layer_a json_len xs = xs" if "region_bytes json_len (filter (has_block (lit ''tool_result'')) xs) < elide_above_bytes" for xs
    using that by (simp add: layer_a_small stale_region_bytes)
  have "layer_a json_len ?a = ?a" by (rule aa) (rule layer_a_region)
  moreover have "layer_a json_len ?b = ?b" by (rule aa) (simp add: layer_b_region layer_a_region)
  moreover have "layer_a json_len ?c = ?c" by (rule aa) (simp add: cf layer_b_region layer_a_region)
  moreover have "layer_b ?b = ?b" by (rule layer_b_few) (rule layer_b_thinking)
  moreover have "layer_b ?c = ?c" by (rule layer_b_few) (simp add: cf layer_b_thinking)
  ultimately show ?thesis
    by (cases level) (simp_all add: compact_messages_layers does_tools_def does_thinking_def does_notices_def layer_c_idem)
qed

section \<open>Samples\<close>

definition result_turn :: "nat \<Rightarrow> json" where
  "result_turn i = JObj [(lit ''role'', JStr (lit ''user'')), (lit ''content'', JArr [JObj [(lit ''type'', JStr (lit ''tool_result'')),
     (lit ''tool_use_id'', JStr [48 + i]), (lit ''content'', JStr [120])]])]"

definition plain_turn :: json where
  "plain_turn = JObj [(lit ''role'', JStr (lit ''user'')), (lit ''content'', JStr (lit ''go on''))]"

definition notice_turn :: json where
  "notice_turn = JObj [(lit ''role'', JStr (lit ''system'')), (lit ''content'', JStr (lit ''<total_tokens>9''))]"

definition long_chat :: "json list" where
  "long_chat = notice_turn # map result_turn [0..<10]"

lemma sample_turns [simp]:
  "is_notice (result_turn i) = False" "is_notice plain_turn = False" "is_notice notice_turn = True"
  "blocks plain_turn = None" "blocks notice_turn = None" "has_block kind plain_turn = False"
  by (simp_all add: is_notice_def has_block_def blocks_def result_turn_def plain_turn_def notice_turn_def json_get_def as_str_def
      as_array_def lit_def)

theorem compacted_prefix_stable_witness:
  "fst (compact_messages (\<lambda>_. 100000) CompactAll (long_chat @ [plain_turn])) =
     fst (compact_messages (\<lambda>_. 100000) CompactAll long_chat) @ [plain_turn]"
  by (rule compacted_prefix_stable) (simp_all add: batch_due_def)

theorem compaction_idempotent_witness:
  "fst (compact_messages (\<lambda>_. 100000) CompactAll (fst (compact_messages (\<lambda>_. 100000) CompactAll long_chat))) =
     fst (compact_messages (\<lambda>_. 100000) CompactAll long_chat)"
  by (rule compaction_idempotent) (auto simp: long_chat_def)

theorem pairing_survives_witness:
  "concat (map call_marks (body_messages (fst (compact_body (\<lambda>_. 100000) (JObj [(lit ''messages'', JArr long_chat)]) CompactAll)))) =
     concat (map call_marks long_chat)"
proof -
  let ?body = "JObj [(lit ''messages'', JArr long_chat)]"
  have m: "body_messages ?body = long_chat" by (simp add: body_messages_def json_get_def as_array_def)
  have "call_marks m = []" if "m \<in> set long_chat" "is_notice m" for m
    using that by (auto simp: long_chat_def call_marks_def)
  then show ?thesis using pairing_survives [of ?body "\<lambda>_. 100000" CompactAll] m by simp
qed

end
