(* ===== verification/Gate.thy ===== *)
theory Gate
  imports Guard
begin

text \<open>
  What stands between the agent's model and its tools: the permission modes and the dispatcher
  (\<^verbatim>\<open>tools/mod.rs\<close>), which calls count as changes (\<^verbatim>\<open>tools/config.rs\<close>, \<^verbatim>\<open>tools/git.rs\<close>, \<^verbatim>\<open>tools/plouf.rs\<close>),
  and the part of a turn that runs the tools (\<^verbatim>\<open>agent.rs\<close>), all under \<^verbatim>\<open>src/crates/catbus-agent/src\<close>. The
  tools themselves are a parameter; what they are asked is recorded.
\<close>

section \<open>Modes\<close>

datatype gate = OpenGate | PlanGate | AutoGate

definition gate_as_str :: "gate \<Rightarrow> rstr" where
  "gate_as_str g = (case g of OpenGate \<Rightarrow> lit ''open'' | PlanGate \<Rightarrow> lit ''plan'' | AutoGate \<Rightarrow> lit ''auto'')"

definition plan_refusal :: "rstr \<Rightarrow> rstr" where
  "plan_refusal what =
     lit ''Plan-mode is on. '' @
     (if what = lit ''Write'' then lit ''Describe the file you want to create instead of writing it.''
      else if what = lit ''Edit'' then lit ''Describe the edit instead of applying it.''
      else if what = lit ''Spawn'' then
        lit ''Describe what you want done instead of starting a sub-agent '' @ [8212]
        @ lit '' a sub-agent begins with the gate open, so this would plan nothing.''
      else if what = lit ''PHPUnit'' then lit ''Describe what the tests should check instead of running them.''
      else if what = lit ''commit'' then lit ''Say what you would commit instead of committing it.''
      else if what = lit ''amend'' then lit ''Say what you would amend instead of rewriting the commit.''
      else if what = lit ''tag'' then lit ''Say which commit you would tag instead of tagging it.''
      else if what = lit ''worktree-add'' then lit ''Describe the worktree you would create instead of creating it.''
      else if what = lit ''worktree-remove'' then lit ''Say which worktree you would remove instead of removing it.''
      else if what = lit ''push'' then lit ''Say what you would push, and where, instead of pushing it.''
      else if what = lit ''Composer'' \<or> what = lit ''Bun'' then lit ''Describe the commands you would run instead of running them.''
      else if what = lit ''SSH'' then lit ''Describe what you would run on the host instead of running it.''
      else lit ''Describe the command instead of running it.'')"

definition gate_refusal :: "gate \<Rightarrow> rstr \<Rightarrow> rstr option" where
  "gate_refusal g what =
     (case g of PlanGate \<Rightarrow> Some (plan_refusal what) | OpenGate \<Rightarrow> None | AutoGate \<Rightarrow> None)"

definition gate_judges :: "gate \<Rightarrow> bool" where
  "gate_judges g = (case g of AutoGate \<Rightarrow> True | _ \<Rightarrow> False)"

definition gate_to_bits :: "gate \<Rightarrow> nat" where
  "gate_to_bits g = (case g of OpenGate \<Rightarrow> 0 | PlanGate \<Rightarrow> 1 | AutoGate \<Rightarrow> 2)"

definition gate_from_bits :: "nat \<Rightarrow> gate" where
  "gate_from_bits b = (if b = 1 then PlanGate else if b = 2 then AutoGate else OpenGate)"

definition parse_gate :: "rstr \<Rightarrow> gate option" where
  "parse_gate name =
     (let n = to_ascii_lowercase (trim name)
      in if n = lit ''open'' then Some OpenGate
         else if n = lit ''plan'' then Some PlanGate
         else if n = lit ''auto'' then Some AutoGate else None)"

section \<open>What counts as a change\<close>

definition git_action_writes :: "rstr \<Rightarrow> bool" where
  "git_action_writes action \<longleftrightarrow> action \<notin> {lit ''show'', lit ''history'', lit ''worktree-list''}"

definition plouf_action_writes :: "rstr \<Rightarrow> bool" where
  "plouf_action_writes action \<longleftrightarrow> action = lit ''index''"

definition action_decides_writes :: "rstr \<Rightarrow> bool" where
  "action_decides_writes name \<longleftrightarrow> name = lit ''Git'' \<or> name = lit ''Plouf''"

definition action_writes :: "rstr \<Rightarrow> rstr \<Rightarrow> bool" where
  "action_writes name action =
     (if name = lit ''Git'' then git_action_writes action
      else if name = lit ''Plouf'' then plouf_action_writes action else False)"

definition writing_names :: "rstr list" where
  "writing_names = map lit [''Write'', ''Edit'', ''Bash'', ''PHPUnit'', ''Composer'', ''Bun'', ''SSH'']"

definition changes_the_world :: "rstr \<Rightarrow> bool" where
  "changes_the_world name \<longleftrightarrow> name \<in> set writing_names"

text \<open>A resolved tool set: the names of its specifications, and its custom tools with whether they are judged.\<close>

record tool_set =
  ts_names :: "rstr list"
  ts_custom :: "rstr \<Rightarrow> bool option"

definition offers :: "tool_set \<Rightarrow> rstr \<Rightarrow> bool" where
  "offers ts name \<longleftrightarrow> ts_custom ts name \<noteq> None \<or> name \<in> set (ts_names ts)"

definition set_changes_the_world :: "tool_set \<Rightarrow> rstr \<Rightarrow> bool" where
  "set_changes_the_world ts name =
     (if \<not> offers ts name then False
      else case ts_custom ts name of
             Some judged \<Rightarrow> judged
           | None \<Rightarrow> if action_decides_writes name then True else changes_the_world name)"

definition action_of :: "json \<Rightarrow> rstr" where
  "action_of input = (case as_str (json_get (lit ''action'') input) of Some a \<Rightarrow> a | None \<Rightarrow> [])"

definition call_changes_the_world :: "tool_set \<Rightarrow> rstr \<Rightarrow> json \<Rightarrow> bool" where
  "call_changes_the_world ts name input =
     (if \<not> action_decides_writes name then set_changes_the_world ts name
      else if \<not> offers ts name then False
      else action_writes name (action_of input))"

section \<open>The dispatcher\<close>

datatype dispatched = UnknownTool | GateRefused rstr | RunCustom | RunBuiltin

definition free_names :: "rstr list" where
  "free_names = map lit [''Read'', ''FileTree'', ''Grep'', ''ListAgents'', ''Delegate'', ''AskUserQuestion'', ''Tasks'']"

definition gated_names :: "rstr list" where
  "gated_names = map lit [''Write'', ''Edit'', ''Bash'', ''Spawn'', ''Composer'', ''Bun'', ''SSH'', ''PHPUnit'']"

definition behind :: "rstr option \<Rightarrow> dispatched" where
  "behind refusal = (case refusal of Some why \<Rightarrow> GateRefused why | None \<Rightarrow> RunBuiltin)"

definition dispatch :: "tool_set \<Rightarrow> rstr \<Rightarrow> json \<Rightarrow> gate \<Rightarrow> dispatched" where
  "dispatch ts name input g =
     (if \<not> offers ts name then UnknownTool
      else if ts_custom ts name \<noteq> None then RunCustom
      else if name \<in> set free_names then RunBuiltin
      else if name \<in> set gated_names then behind (gate_refusal g name)
      else if name = lit ''Git'' then
        (if git_action_writes (action_of input) then behind (gate_refusal g (action_of input)) else RunBuiltin)
      else if name = lit ''Plouf'' then
        (if plouf_action_writes (action_of input) then behind (gate_refusal g (lit ''Plouf'')) else RunBuiltin)
      else UnknownTool)"

fun runs :: "dispatched \<Rightarrow> bool" where
  "runs RunCustom = True"
| "runs RunBuiltin = True"
| "runs _ = False"

text \<open>What the two action tools go on to do: both read the action trimmed.\<close>

definition git_known_writes :: "rstr list" where
  "git_known_writes = map lit [''commit'', ''tag'', ''worktree-add'', ''worktree-remove'', ''push'']"

definition effective_action :: "json \<Rightarrow> rstr" where
  "effective_action input = trim (action_of input)"

section \<open>Running a turn's tools\<close>

type_synonym tool_use = "rstr \<times> rstr \<times> json"

text \<open>
  The environment of one round: whether it was cancelled before or during a call, the judge's verdict on
  it, and what the tool answers when it is run.
\<close>

record round_env =
  re_cancelled :: "nat \<Rightarrow> bool"
  re_cancelled_during :: "nat \<Rightarrow> bool"
  re_verdict :: "nat \<Rightarrow> judge_verdict"
  re_output :: "nat \<Rightarrow> rstr + rstr"

definition auto_record :: "rstr \<Rightarrow> judge_verdict \<Rightarrow> rstr" where
  "auto_record name v = lit ''auto checked '' @ name @ lit '': '' @ verdict_summary v"

definition unknown_tool :: "rstr \<Rightarrow> rstr" where
  "unknown_tool name = lit ''unknown tool: '' @ name"

text \<open>The text of a tool result: an error is marked, a vetted call carries the record of its check.\<close>

definition result_of_dispatch :: "dispatched \<Rightarrow> rstr \<Rightarrow> rstr + rstr \<Rightarrow> rstr \<times> bool" where
  "result_of_dispatch d name out =
     (case (case d of UnknownTool \<Rightarrow> Inl (unknown_tool name) | GateRefused why \<Rightarrow> Inl why | _ \<Rightarrow> out) of
        Inl e \<Rightarrow> (lit ''Error: '' @ e, True)
      | Inr text \<Rightarrow> (text, False))"

text \<open>
  One call: its \<open>tool_result\<close>, or nothing when the turn is cancelled, and whether the tool was started. A call
  refused by the loop guard (\<open>stop\<close>, the refusal's text) or by the judge is not dispatched.
\<close>

definition run_call :: "tool_set \<Rightarrow> gate \<Rightarrow> rstr option \<Rightarrow> round_env \<Rightarrow> nat \<Rightarrow> tool_use \<Rightarrow> block option \<times> bool" where
  "run_call ts g stop env k = (\<lambda>(i, name, input).
     if re_cancelled env k then (None, False)
     else (case stop of
             Some why \<Rightarrow> (Some (BToolResult i why True), False)
           | None \<Rightarrow>
               (let judged = (gate_judges g \<and> call_changes_the_world ts name input);
                    v = re_verdict env k
                in if judged \<and> verdict_blocks v then (Some (BToolResult i (verdict_describe v) True), False)
                   else (let d = dispatch ts name input g
                         in if re_cancelled_during env k then (None, runs d)
                            else (let (content, is_error) = result_of_dispatch d name (re_output env k);
                                      content = (if judged then content @ [10, 10, 91] @ auto_record name v @ [93] else content)
                                  in (Some (BToolResult i content is_error), runs d))))))"

text \<open>The loop over a round's calls: the results unless cancelled, and the calls that were started, by position.\<close>

fun run_tools :: "tool_set \<Rightarrow> gate \<Rightarrow> rstr option \<Rightarrow> round_env \<Rightarrow> nat \<Rightarrow> tool_use list \<Rightarrow> block list option \<times> nat list" where
  "run_tools ts g stop env k [] = (Some [], [])"
| "run_tools ts g stop env k (u # us) =
     (case run_call ts g stop env k u of
        (None, started) \<Rightarrow> (None, if started then [k] else [])
      | (Some b, started) \<Rightarrow>
          (let (bs, log) = run_tools ts g stop env (k + 1) us
           in (map_option ((#) b) bs, if started then k # log else log)))"

section \<open>What a gate guarantees\<close>

lemma started_call:
  assumes "run_call ts g stop env k (i, name, input) = (r, True)"
  shows "stop = None \<and> runs (dispatch ts name input g) \<and>
    (gate_judges g \<and> call_changes_the_world ts name input \<longrightarrow> \<not> verdict_blocks (re_verdict env k))"
  using assms by (auto simp: run_call_def Let_def split: if_splits option.splits prod.splits)

definition vetted :: "tool_set \<Rightarrow> gate \<Rightarrow> judge_verdict \<Rightarrow> tool_use \<Rightarrow> bool" where
  "vetted ts g v u \<longleftrightarrow>
     runs (dispatch ts (fst (snd u)) (snd (snd u)) g) \<and>
     (gate_judges g \<and> call_changes_the_world ts (fst (snd u)) (snd (snd u)) \<longrightarrow> \<not> verdict_blocks v)"

lemma started_calls:
  "j \<in> set (snd (run_tools ts g stop env k us)) \<Longrightarrow>
     k \<le> j \<and> j < k + length us \<and> stop = None \<and> vetted ts g (re_verdict env j) (us ! (j - k))"
proof (induction us arbitrary: k)
  case Nil
  then show ?case by simp
next
  case (Cons u us)
  obtain i name input where u: "u = (i, name, input)" by (cases u)
  obtain b s where c: "run_call ts g stop env k u = (b, s)" by (cases "run_call ts g stop env k u")
  show ?case
  proof (cases "j = k \<and> s")
    case True
    then show ?thesis using started_call [of ts g stop env k i name input b] c u by (auto simp: vetted_def)
  next
    case False
    have "j \<in> set (snd (run_tools ts g stop env (k + 1) us))"
    proof (cases b)
      case None
      then show ?thesis using Cons.prems c False by (cases s) auto
    next
      case (Some x)
      then show ?thesis using Cons.prems c False by (cases "run_tools ts g stop env (k + 1) us") (cases s, auto)
    qed
    from Cons.IH [OF this] have a: "k + 1 \<le> j" "j < k + 1 + length us" "stop = None"
      "vetted ts g (re_verdict env j) (us ! (j - (k + 1)))" by auto
    have "j - k = Suc (j - (k + 1))" using a(1) by simp
    then show ?thesis using a by simp
  qed
qed

definition result_ids :: "block list \<Rightarrow> rstr list" where
  "result_ids bs = List.map_filter (\<lambda>b. case b of BToolResult i _ _ \<Rightarrow> Some i | _ \<Rightarrow> None) bs"

lemma run_call_id: "run_call ts g stop env k (i, name, input) = (Some b, s) \<Longrightarrow> \<exists>content e. b = BToolResult i content e"
  by (auto simp: run_call_def Let_def split: if_splits option.splits prod.splits)

lemma results_in_order:
  "fst (run_tools ts g stop env k us) = Some bs \<Longrightarrow> length bs = length us \<and> result_ids bs = map fst us"
proof (induction us arbitrary: k bs)
  case Nil
  then show ?case by (simp add: result_ids_def List.map_filter_simps)
next
  case (Cons u us)
  obtain i name input where u: "u = (i, name, input)" by (cases u)
  obtain b s where c: "run_call ts g stop env k u = (Some b, s)"
    using Cons.prems by (cases "run_call ts g stop env k u") (auto split: option.splits)
  then obtain bs' where bs': "fst (run_tools ts g stop env (k + 1) us) = Some bs'" "bs = b # bs'"
    using Cons.prems by (auto split: prod.splits)
  obtain content e where "b = BToolResult i content e" using run_call_id c u by blast
  then show ?case using Cons.IH [OF bs'(1)] bs'(2) u by (simp add: result_ids_def List.map_filter_simps)
qed

lemma gate_names_round_trip: "parse_gate (gate_as_str g) = Some g" "gate_from_bits (gate_to_bits g) = g"
  by (cases g; simp add: parse_gate_def gate_as_str_def gate_from_bits_def gate_to_bits_def Let_def
      lit_def to_ascii_lowercase_def trim_def trim_start_def trim_end_def is_whitespace_def)+

lemma stopped_results:
  "fst (run_tools ts g (Some why) env k us) = Some bs \<Longrightarrow> \<forall>b \<in> set bs. \<exists>i. b = BToolResult i why True"
proof (induction us arbitrary: k bs)
  case (Cons u us)
  obtain i name input where u: "u = (i, name, input)" by (cases u)
  have "\<not> re_cancelled env k" using Cons.prems u by (auto simp: run_call_def)
  then have c: "run_call ts g (Some why) env k u = (Some (BToolResult i why True), False)" by (simp add: run_call_def u)
  then obtain bs' where "fst (run_tools ts g (Some why) env (k + 1) us) = Some bs'" "bs = BToolResult i why True # bs'"
    using Cons.prems by (auto split: prod.splits)
  then show ?case using Cons.IH by auto
qed simp

lemma names_distinct:
  "lit ''Git'' \<notin> set free_names \<union> set gated_names" "lit ''Plouf'' \<notin> set free_names \<union> set gated_names"
  "lit ''Spawn'' \<notin> set free_names" "lit ''Spawn'' \<in> set gated_names"
  by (simp_all add: free_names_def gated_names_def lit_def)

lemma read_actions_not_known:
  "action \<in> {lit ''show'', lit ''history'', lit ''worktree-list''} \<Longrightarrow> trim action \<notin> set git_known_writes"
  by (auto simp: git_known_writes_def lit_def trim_def trim_start_def trim_end_def is_whitespace_def)

section \<open>Properties\<close>

text \<open>C3 In auto mode nothing that counts as a change is started without the judge: over a whole round of calls, each
  started call that changes the world was graded, with a severity of at most fifty.\<close>

theorem auto_mode_mediates:
  assumes "j \<in> set (snd (run_tools ts AutoGate stop env 0 us))" and "us ! j = (i, name, input)"
    and "call_changes_the_world ts name input"
  shows "\<exists>n. re_verdict env j = Scored n \<and> n \<le> 50"
proof -
  have "vetted ts AutoGate (re_verdict env j) (us ! j)" using started_calls [OF assms(1)] by simp
  then have "\<not> verdict_blocks (re_verdict env j)" using assms(2,3) by (simp add: vetted_def gate_judges_def)
  then show ?thesis by (cases "re_verdict env j") (simp_all add: block_above_def)
qed

definition shell_only :: tool_set where
  "shell_only = \<lparr>ts_names = [lit ''Bash'', lit ''Spawn'', lit ''Plouf''], ts_custom = (\<lambda>n. if n = lit ''Deploy'' then Some True else None)\<rparr>"

definition calm :: "judge_verdict \<Rightarrow> round_env" where
  "calm v = \<lparr>re_cancelled = \<lambda>_. False, re_cancelled_during = \<lambda>_. False, re_verdict = \<lambda>_. v, re_output = \<lambda>_. Inr []\<rparr>"

lemma bash_in_auto:
  "call_changes_the_world shell_only (lit ''Bash'') JNull" "dispatch shell_only (lit ''Bash'') JNull AutoGate = RunBuiltin"
  by (simp_all add: call_changes_the_world_def set_changes_the_world_def action_decides_writes_def offers_def shell_only_def
      changes_the_world_def writing_names_def dispatch_def free_names_def gated_names_def behind_def gate_refusal_def lit_def)

theorem auto_mode_mediates_witness:
  "\<exists>n. re_verdict (calm (Scored 20)) 0 = Scored n \<and> n \<le> 50"
proof (rule auto_mode_mediates)
  show "0 \<in> set (snd (run_tools shell_only AutoGate None (calm (Scored 20)) 0 [(lit ''t1'', lit ''Bash'', JNull)]))"
    using bash_in_auto by (simp add: run_call_def Let_def gate_judges_def calm_def block_above_def result_of_dispatch_def)
qed (use bash_in_auto in simp_all)

text \<open>Unless the turn is cancelled, every call gets exactly one result, under its own id and in the order asked; when the
  loop guard has stopped the round, every one of them is the refusal and nothing was started.\<close>

theorem every_call_answered:
  assumes "fst (run_tools ts g stop env 0 us) = Some bs"
  shows "length bs = length us \<and> result_ids bs = map fst us \<and>
    (case stop of None \<Rightarrow> True
     | Some why \<Rightarrow> snd (run_tools ts g stop env 0 us) = [] \<and> list_all (\<lambda>b. \<exists>i. b = BToolResult i why True) bs)"
proof -
  have "snd (run_tools ts g (Some why) env 0 us) = []" for why
    using started_calls [of _ ts g "Some why" env 0 us] by (cases "snd (run_tools ts g (Some why) env 0 us)") auto
  then show ?thesis using results_in_order [OF assms] stopped_results assms by (auto simp: list_all_iff split: option.splits)
qed

theorem every_call_answered_witness:
  "\<exists>bs. fst (run_tools shell_only AutoGate (Some (lit ''no'')) (calm (Scored 0)) 0 [(lit ''t1'', lit ''Bash'', JNull), (lit ''t2'', lit ''Bash'', JNull)]) = Some bs \<and>
     result_ids bs = [lit ''t1'', lit ''t2'']"
proof -
  obtain bs where r: "fst (run_tools shell_only AutoGate (Some (lit ''no'')) (calm (Scored 0)) 0
      [(lit ''t1'', lit ''Bash'', JNull), (lit ''t2'', lit ''Bash'', JNull)]) = Some bs"
    by (simp add: run_call_def calm_def)
  then show ?thesis using every_call_answered [OF r] by simp
qed

text \<open>In plan mode the built-in tools change nothing: a built-in call that gets past the dispatcher is none of the writing
  tools, no sub-agent, and no Git action that writes, however its action is spelled.\<close>

theorem plan_mode_keeps_builtins_reading:
  assumes "runs (dispatch ts name input PlanGate)" and "ts_custom ts name = None"
  shows "name \<notin> set gated_names \<and> (name = lit ''Git'' \<longrightarrow> effective_action input \<notin> set git_known_writes)"
proof -
  have "name \<notin> set gated_names"
  proof
    assume g: "name \<in> set gated_names"
    then have "name \<notin> set free_names" by (auto simp: free_names_def gated_names_def lit_def)
    then show False using assms g by (auto simp: dispatch_def behind_def gate_refusal_def split: if_splits)
  qed
  moreover have "effective_action input \<notin> set git_known_writes" if "name = lit ''Git''"
  proof -
    have "\<not> git_action_writes (action_of input)"
      using assms that names_distinct(1) by (auto simp: dispatch_def behind_def gate_refusal_def split: if_splits)
    then show ?thesis using read_actions_not_known [of "action_of input"] by (simp add: git_action_writes_def effective_action_def)
  qed
  ultimately show ?thesis by blast
qed

theorem plan_mode_keeps_builtins_reading_witness:
  "effective_action (JObj [(lit ''action'', JStr (lit ''show''))]) \<notin> set git_known_writes"
proof -
  let ?ts = "\<lparr>ts_names = [lit ''Git''], ts_custom = (\<lambda>_. None)\<rparr>" and ?in = "JObj [(lit ''action'', JStr (lit ''show''))]"
  have "runs (dispatch ?ts (lit ''Git'') ?in PlanGate)"
    using names_distinct(1) by (simp add: dispatch_def offers_def git_action_writes_def action_of_def as_str_def json_get_def)
  then show ?thesis using plan_mode_keeps_builtins_reading [of ?ts "lit ''Git''" ?in] by simp
qed

text \<open>The dispatcher asks no gate about a tool the operator added: in plan mode a custom tool that is declared to change
  things is started all the same, on any call that is not cancelled beforehand.\<close>

theorem plan_mode_runs_custom:
  assumes "ts_custom ts name = Some True" and "\<not> action_decides_writes name" and "\<not> re_cancelled env 0"
  shows "call_changes_the_world ts name input \<and> snd (run_tools ts PlanGate None env 0 [(i, name, input)]) = [0]"
proof -
  have o: "offers ts name" using assms(1) by (simp add: offers_def)
  have "call_changes_the_world ts name input"
    using assms(1,2) o by (simp add: call_changes_the_world_def set_changes_the_world_def)
  moreover have "dispatch ts name input PlanGate = RunCustom" using o assms(1) by (simp add: dispatch_def)
  then have "snd (run_call ts PlanGate None env 0 (i, name, input))"
    using assms(3) by (simp add: run_call_def Let_def gate_judges_def split: prod.splits)
  ultimately show ?thesis by (cases "run_call ts PlanGate None env 0 (i, name, input)") (auto split: option.splits)
qed

theorem plan_mode_runs_custom_witness:
  "snd (run_tools shell_only PlanGate None (calm (Unusable [])) 0 [(lit ''t1'', lit ''Deploy'', JNull)]) = [0]"
  using plan_mode_runs_custom [of shell_only "lit ''Deploy''" "calm (Unusable [])" JNull "lit ''t1''"]
  by (simp add: shell_only_def calm_def action_decides_writes_def lit_def)

text \<open>Two calls reach the world past both modes' questions. The gate reads a Plouf action as written, the tool reads it
  trimmed, so an action with a space after it indexes ungated in every mode. And starting a sub-agent, which
  begins with its gate open, is never put to the judge.\<close>

theorem ungated_changes:
  assumes "offers ts (lit ''Plouf'')" and "offers ts (lit ''Spawn'')" and "ts_custom ts (lit ''Plouf'') = None"
    and "ts_custom ts (lit ''Spawn'') = None"
  shows "dispatch ts (lit ''Plouf'') (JObj [(lit ''action'', JStr (lit ''index ''))]) g = RunBuiltin \<and>
    \<not> call_changes_the_world ts (lit ''Plouf'') (JObj [(lit ''action'', JStr (lit ''index ''))]) \<and>
    effective_action (JObj [(lit ''action'', JStr (lit ''index ''))]) = lit ''index'' \<and>
    dispatch ts (lit ''Spawn'') input AutoGate = RunBuiltin \<and> \<not> call_changes_the_world ts (lit ''Spawn'') input"
  using assms names_distinct
  by (simp add: dispatch_def action_of_def as_str_def json_get_def plouf_action_writes_def call_changes_the_world_def
      action_writes_def set_changes_the_world_def changes_the_world_def writing_names_def action_decides_writes_def behind_def
      gate_refusal_def effective_action_def)
    (simp add: lit_def trim_def trim_start_def trim_end_def is_whitespace_def)

theorem ungated_changes_witness:
  "dispatch shell_only (lit ''Plouf'') (JObj [(lit ''action'', JStr (lit ''index ''))]) PlanGate = RunBuiltin"
  using ungated_changes [of shell_only PlanGate] by (simp add: shell_only_def offers_def lit_def)

end
