(* ===== verification/Tool_Config.thy ===== *)
theory Tool_Config
  imports Gate OrderedMap
begin

text \<open>
  The tool set of an agent session (\<^verbatim>\<open>src/crates/catbus-agent/src/tools/config.rs\<close>): the config file, the
  layering of a project's file over the launcher's, the set built from it, the narrowing by the identity
  file's \<^verbatim>\<open>AllowedTools\<close>, and the expansion of a custom tool's \<^verbatim>\<open>argv\<close>. The deserialisers of
  \<^verbatim>\<open>serde_json\<close> and \<^verbatim>\<open>toml\<close> are a parameter, and so is the file system. The specification of a built-in
  tool is its name: the text and schema behind it are prose for the model that nothing here reads.
\<close>

section \<open>The config file\<close>

record custom_tool =
  ct_name :: rstr
  ct_description :: rstr
  ct_schema :: json
  ct_argv :: "rstr list"
  ct_timeout_secs :: nat
  ct_judged :: bool
  ct_sha256 :: "rstr option"

record tool_config =
  tc_disable :: "rstr list"
  tc_allow :: "rstr list option"
  tc_add :: "custom_tool list"
  tc_php :: "rstr list option"

definition default_config :: tool_config where
  "default_config = \<lparr>tc_disable = [], tc_allow = None, tc_add = [], tc_php = None\<rparr>"

definition minimal_tools :: "rstr list" where
  "minimal_tools = map lit [''Read'', ''Write'', ''FileTree'', ''Grep'']"

definition minimal_keyword :: rstr where
  "minimal_keyword = lit ''minimal''"

definition minimal_config :: tool_config where
  "minimal_config = default_config\<lparr>tc_allow := Some minimal_tools\<rparr>"

text \<open>Every startup refusal, with what its message names.\<close>

datatype config_error =
    Unreadable rstr rstr
  | NotToml rstr rstr
  | NotJson rstr rstr
  | NeitherFormat config_error rstr
  | ProjectAllow rstr
  | DefinedInBoth rstr rstr rstr
  | ProjectTakesBuiltin rstr rstr
  | DisablesCustom rstr rstr rstr
  | NamelessTool
  | EmptyArgv rstr
  | EmbeddedOptional rstr rstr
  | DefinedTwice rstr
  | Shadows rstr
  | UnknownTools "rstr list" "rstr list"
  | NoToolsLeft "rstr list" "rstr list"

section \<open>Specifications\<close>

datatype spec = BuiltinSpec rstr | CustomSpec rstr json

fun spec_name :: "spec \<Rightarrow> rstr" where
  "spec_name (BuiltinSpec n) = n"
| "spec_name (CustomSpec n _) = n"

definition builtin_names :: "rstr list" where
  "builtin_names = map lit
     [''Read'', ''FileTree'', ''Grep'', ''Plouf'', ''Write'', ''Edit'', ''ListAgents'', ''Delegate'', ''Spawn'', ''Tasks'',
      ''PHPUnit'', ''Git'', ''SSH'', ''Composer'', ''AskUserQuestion'', ''Bun'', ''Bash'']"

definition builtin_specs :: "spec list" where
  "builtin_specs = map BuiltinSpec builtin_names"

text \<open>
  A custom tool's schema with the \<^verbatim>\<open>worktree\<close> property. \<open>entry_or_insert\<close> is \<^verbatim>\<open>serde_json\<close>'s
  \<^verbatim>\<open>entry(k).or_insert(v)\<close>.
\<close>

definition entry_or_insert :: "rstr \<Rightarrow> json \<Rightarrow> (rstr \<times> json) list \<Rightarrow> (rstr \<times> json) list" where
  "entry_or_insert k v m = (if map_of m k = None then AList.update k v m else m)"

definition checkout_property :: json where
  "checkout_property = JObj
     [(lit ''description'', JStr (lit ''Which checkout to run in, relative to the working directory. Defaults to the working directory itself. Point it at a worktree '' @ [8212] @ lit '' `.claude/worktrees/<branch>` '' @ [8212] @ lit '' to run there instead of in the shared checkout. Absolutes and `..` are refused: a worktree is a whole checkout, so that is the sandbox boundary.'')),
      (lit ''type'', JStr (lit ''string''))]"

definition with_worktree :: "json \<Rightarrow> json" where
  "with_worktree schema =
     (case schema of
        JObj m \<Rightarrow>
          (let m = entry_or_insert (lit ''properties'') (JObj []) m
           in case map_of m (lit ''properties'') of
                Some (JObj ps) \<Rightarrow>
                  JObj (AList.update (lit ''properties'') (JObj (entry_or_insert (lit ''worktree'') checkout_property ps)) m)
              | _ \<Rightarrow> JObj m)
      | _ \<Rightarrow> schema)"

definition custom_spec :: "custom_tool \<Rightarrow> spec" where
  "custom_spec t = CustomSpec (ct_name t)
     (JObj [(lit ''description'', JStr (ct_description t)), (lit ''input_schema'', with_worktree (ct_schema t)), (lit ''name'', JStr (ct_name t))])"

section \<open>The tool set\<close>

record ssh_policy =
  allowed_hosts :: "rstr list option"
  allowed_jump_hosts :: "rstr list option"

definition no_policy :: ssh_policy where
  "no_policy = \<lparr>allowed_hosts = None, allowed_jump_hosts = None\<rparr>"

record toolset =
  set_specs :: "spec list"
  set_custom :: "(rstr, custom_tool) omap"
  set_policy :: ssh_policy
  set_php :: "rstr list option"

definition no_tools :: toolset where
  "no_tools = \<lparr>set_specs = [], set_custom = [], set_policy = no_policy, set_php = None\<rparr>"

definition builtin_set :: toolset where
  "builtin_set = \<lparr>set_specs = builtin_specs, set_custom = [], set_policy = no_policy, set_php = None\<rparr>"

definition set_names :: "toolset \<Rightarrow> rstr list" where
  "set_names s = map spec_name (set_specs s)"

definition set_offers :: "toolset \<Rightarrow> rstr \<Rightarrow> bool" where
  "set_offers s name \<longleftrightarrow> om_get (set_custom s) name \<noteq> None \<or> name \<in> set (set_names s)"

definition with_ssh_policy :: "ssh_policy \<Rightarrow> toolset \<Rightarrow> toolset" where
  "with_ssh_policy p s = s\<lparr>set_policy := p\<rparr>"

text \<open>What the gate and the judge read of a set: its names and which custom tools are judged.\<close>

definition gate_view :: "toolset \<Rightarrow> tool_set" where
  "gate_view s = \<lparr>ts_names = set_names s, ts_custom = (\<lambda>n. map_option ct_judged (om_get (set_custom s) n))\<rparr>"

section \<open>Building a set\<close>

definition strip_suffix :: "rstr \<Rightarrow> rstr \<Rightarrow> rstr option" where
  "strip_suffix p s = map_option rev (strip_prefix (rev p) (rev s))"

text \<open>\<^verbatim>\<open>{\<close> is 123, \<^verbatim>\<open>}\<close> is 125.\<close>

definition optional_name :: "rstr \<Rightarrow> rstr option" where
  "optional_name element =
     (case strip_prefix [123] element of
        None \<Rightarrow> None
      | Some inner \<Rightarrow>
          (case strip_suffix [63, 125] inner of
             None \<Rightarrow> None
           | Some name \<Rightarrow> (let name = takeWhile (\<lambda>c. c \<noteq> 125) name in if name = [] then None else Some name)))"

definition bad_element :: "rstr \<Rightarrow> bool" where
  "bad_element element \<longleftrightarrow> str_contains element [63, 125] \<and> optional_name element = None"

fun collect_custom :: "custom_tool list \<Rightarrow> (rstr, custom_tool) omap \<Rightarrow> config_error + (rstr, custom_tool) omap" where
  "collect_custom [] m = Inr m"
| "collect_custom (t # rest) m =
     (if trim (ct_name t) = [] then Inl NamelessTool
      else if ct_argv t = [] then Inl (EmptyArgv (ct_name t))
      else case find bad_element (ct_argv t) of
             Some e \<Rightarrow> Inl (EmbeddedOptional (ct_name t) e)
           | None \<Rightarrow>
               if om_get m (ct_name t) \<noteq> None then Inl (DefinedTwice (ct_name t))
               else collect_custom rest (om_insert (ct_name t) t m))"

definition keeps_builtin :: "tool_config \<Rightarrow> rstr \<Rightarrow> bool" where
  "keeps_builtin c name \<longleftrightarrow>
     name \<notin> set (tc_disable c) \<and> (case tc_allow c of None \<Rightarrow> True | Some keep \<Rightarrow> name \<in> set keep)"

fun push_custom :: "custom_tool list \<Rightarrow> spec list \<Rightarrow> config_error + spec list" where
  "push_custom [] specs = Inr specs"
| "push_custom (t # rest) specs =
     (if ct_name t \<in> spec_name ` set specs then Inl (Shadows (ct_name t))
      else push_custom rest (specs @ [custom_spec t]))"

definition from_config :: "tool_config \<Rightarrow> config_error + toolset" where
  "from_config c =
     (case collect_custom (tc_add c) [] of
        Inl e \<Rightarrow> Inl e
      | Inr custom \<Rightarrow>
          (case push_custom (om_values custom) (filter (keeps_builtin c \<circ> spec_name) builtin_specs) of
             Inl e \<Rightarrow> Inl e
           | Inr specs \<Rightarrow>
               Inr \<lparr>set_specs = sort_key spec_name specs, set_custom = custom, set_policy = no_policy, set_php = tc_php c\<rparr>))"

section \<open>Layering\<close>

definition merge_config :: "tool_config \<Rightarrow> rstr \<Rightarrow> tool_config \<Rightarrow> rstr \<Rightarrow> config_error + tool_config" where
  "merge_config base base_name over over_name =
     (if tc_allow over \<noteq> None then Inl (ProjectAllow over_name)
      else case find (\<lambda>t. ct_name t \<in> ct_name ` set (tc_add base) \<or> ct_name t \<in> set builtin_names) (tc_add over) of
             Some t \<Rightarrow>
               Inl (if ct_name t \<in> ct_name ` set (tc_add base) then DefinedInBoth (ct_name t) base_name over_name
                    else ProjectTakesBuiltin over_name (ct_name t))
           | None \<Rightarrow>
               (case find (\<lambda>n. n \<in> ct_name ` set (tc_add base)) (tc_disable over) of
                  Some n \<Rightarrow> Inl (DisablesCustom over_name n base_name)
                | None \<Rightarrow>
                    Inr \<lparr>tc_disable = tc_disable base @ tc_disable over, tc_allow = tc_allow base,
                         tc_add = tc_add base @ tc_add over,
                         tc_php = (case tc_php over of Some fs \<Rightarrow> Some fs | None \<Rightarrow> tc_php base)\<rparr>))"

datatype file_read = FileText rstr | NoFile | FileError rstr

text \<open>What the agent is given from outside: the files it can read and the two deserialisers.\<close>

record session_host =
  sh_files :: "rstr \<Rightarrow> file_read"
  sh_from_json :: "rstr \<Rightarrow> rstr + tool_config"
  sh_from_toml :: "rstr \<Rightarrow> rstr + tool_config"

text \<open>
  Paths: \<^verbatim>\<open>Path::join\<close>, and \<^verbatim>\<open>Path::extension\<close> as the text after the last dot of the last component, when
  something stands before that dot. \<^verbatim>\<open>/\<close> is 47, \<^verbatim>\<open>.\<close> is 46.
\<close>

definition join_path :: "rstr \<Rightarrow> rstr \<Rightarrow> rstr" where
  "join_path a b =
     (if starts_with b [47] then b else if a = [] \<or> last a = 47 then a @ b else a @ 47 # b)"

fun split_on :: "rchar \<Rightarrow> rstr \<Rightarrow> rstr list" where
  "split_on c [] = [[]]"
| "split_on c (x # xs) =
     (if x = c then [] # split_on c xs else (case split_on c xs of [] \<Rightarrow> [[x]] | y # ys \<Rightarrow> (x # y) # ys))"

definition file_name :: "rstr \<Rightarrow> rstr option" where
  "file_name p =
     (case rev (filter (\<lambda>c. c \<noteq> [] \<and> c \<noteq> [46]) (split_on 47 p)) of
        [] \<Rightarrow> None
      | c # _ \<Rightarrow> if c = [46, 46] then None else Some c)"

definition path_extension :: "rstr \<Rightarrow> rstr option" where
  "path_extension p =
     (case Option.bind (file_name p) (rsplit_once 46) of
        Some (stem, ext) \<Rightarrow> if stem = [] then None else Some ext
      | None \<Rightarrow> None)"

definition config_from_json :: "session_host \<Rightarrow> rstr \<Rightarrow> rstr \<Rightarrow> config_error + tool_config" where
  "config_from_json h raw path =
     (case sh_from_json h raw of Inl e \<Rightarrow> Inl (NotJson path e) | Inr c \<Rightarrow> Inr c)"

definition parse_config :: "session_host \<Rightarrow> rstr \<Rightarrow> rstr \<Rightarrow> config_error + tool_config" where
  "parse_config h raw path =
     (if path_extension path = Some (lit ''toml'') then
        (case sh_from_toml h raw of Inl e \<Rightarrow> Inl (NotToml path e) | Inr c \<Rightarrow> Inr c)
      else if path_extension path = Some (lit ''json'') then config_from_json h raw path
      else case config_from_json h raw path of
             Inr c \<Rightarrow> Inr c
           | Inl json_error \<Rightarrow>
               (case sh_from_toml h raw of Inl e \<Rightarrow> Inl (NeitherFormat json_error e) | Inr c \<Rightarrow> Inr c))"

definition read_config :: "session_host \<Rightarrow> rstr \<Rightarrow> config_error + tool_config" where
  "read_config h path =
     (case sh_files h path of
        FileText raw \<Rightarrow> parse_config h raw path
      | NoFile \<Rightarrow> Inl (Unreadable path (lit ''not found''))
      | FileError e \<Rightarrow> Inl (Unreadable path e))"

definition read_if_present :: "session_host \<Rightarrow> rstr \<Rightarrow> config_error + tool_config option" where
  "read_if_present h path =
     (case sh_files h path of
        FileText raw \<Rightarrow> map_sum id Some (parse_config h raw path)
      | NoFile \<Rightarrow> Inr None
      | FileError e \<Rightarrow> Inl (Unreadable path e))"

definition load_tools :: "session_host \<Rightarrow> rstr option \<Rightarrow> config_error + toolset" where
  "load_tools h path =
     (case path of
        None \<Rightarrow> Inr builtin_set
      | Some p \<Rightarrow>
          if p = minimal_keyword then from_config minimal_config
          else (case read_config h p of Inl e \<Rightarrow> Inl e | Inr c \<Rightarrow> from_config c))"

definition project_dir :: "rstr \<Rightarrow> rstr" where
  "project_dir cwd = join_path cwd (lit ''.catbus'')"

definition project_tool_file :: "rstr \<Rightarrow> rstr" where
  "project_tool_file cwd = join_path (project_dir cwd) (lit ''tools.toml'')"

definition load_layered :: "session_host \<Rightarrow> rstr option \<Rightarrow> rstr \<Rightarrow> config_error + toolset" where
  "load_layered h launcher cwd =
     (if launcher = Some minimal_keyword then load_tools h launcher
      else case (case launcher of None \<Rightarrow> Inr None | Some p \<Rightarrow> map_sum id Some (read_config h p)) of
             Inl e \<Rightarrow> Inl e
           | Inr launcher_config \<Rightarrow>
               (case read_if_present h (project_tool_file cwd) of
                  Inl e \<Rightarrow> Inl e
                | Inr project_config \<Rightarrow>
                    (case (launcher_config, project_config) of
                       (Some base, Some over) \<Rightarrow>
                         (case merge_config base (case launcher of Some p \<Rightarrow> p | None \<Rightarrow> lit ''--tools-config'') over (project_tool_file cwd) of
                            Inl e \<Rightarrow> Inl e
                          | Inr c \<Rightarrow> from_config c)
                     | (Some only, None) \<Rightarrow> from_config only
                     | (None, Some only) \<Rightarrow> from_config only
                     | (None, None) \<Rightarrow> Inr builtin_set)))"

section \<open>Narrowing\<close>

definition retaining :: "toolset \<Rightarrow> rstr list \<Rightarrow> toolset" where
  "retaining s keep =
     s\<lparr>set_specs := filter (\<lambda>sp. spec_name sp \<in> set keep) (set_specs s),
       set_custom := om_retain (\<lambda>n _. n \<in> set keep) (set_custom s)\<rparr>"

definition unoffered :: "toolset \<Rightarrow> rstr list \<Rightarrow> rstr list" where
  "unoffered s allowed = remdups_adj (sort (filter (\<lambda>n. \<not> set_offers s n) allowed))"

definition narrowed_to :: "toolset \<Rightarrow> rstr list \<Rightarrow> config_error + toolset" where
  "narrowed_to s allowed =
     (if allowed = [] then Inr no_tools
      else if unoffered s allowed \<noteq> [] then Inl (UnknownTools (unoffered s allowed) (set_names s))
      else if set_specs (retaining s allowed) = [] then Inl (NoToolsLeft allowed (set_names s))
      else Inr (retaining s allowed))"

definition capped_to :: "toolset \<Rightarrow> rstr list \<Rightarrow> toolset \<times> rstr list" where
  "capped_to s allowed = (retaining s allowed, unoffered s allowed)"

section \<open>What a built set is\<close>

text \<open>
  A set is well formed when its names are distinct, every custom tool is offered under its own name by its own
  specification, and every built-in it lists is one that no custom tool replaces.
\<close>

definition spec_backed :: "toolset \<Rightarrow> spec \<Rightarrow> bool" where
  "spec_backed s sp =
     (case sp of
        BuiltinSpec n \<Rightarrow> n \<in> set builtin_names \<and> om_get (set_custom s) n = None
      | CustomSpec n _ \<Rightarrow> (case om_get (set_custom s) n of Some t \<Rightarrow> sp = custom_spec t | None \<Rightarrow> False))"

definition tool_backed :: "toolset \<Rightarrow> rstr \<times> custom_tool \<Rightarrow> bool" where
  "tool_backed s p \<longleftrightarrow> ct_name (snd p) = fst p \<and> custom_spec (snd p) \<in> set (set_specs s)"

definition set_ok :: "toolset \<Rightarrow> bool" where
  "set_ok s \<longleftrightarrow>
     om_inv (set_custom s) \<and> distinct (set_names s) \<and>
     list_all (spec_backed s) (set_specs s) \<and> list_all (tool_backed s) (set_custom s)"

lemma builtin_names_distinct: "distinct builtin_names"
  by (simp add: builtin_names_def rust_simps)

lemma spec_names_builtin [simp]: "map spec_name builtin_specs = builtin_names"
  by (simp add: builtin_specs_def comp_def)

lemma spec_name_custom [simp]: "spec_name (custom_spec t) = ct_name t"
  by (simp add: custom_spec_def)

lemma collect_custom_Inr:
  assumes "collect_custom ts m = Inr m'" "om_inv m"
  shows "om_inv m' \<and> set m' = set m \<union> (\<lambda>t. (ct_name t, t)) ` set ts \<and> distinct (map ct_name ts)
    \<and> ct_name ` set ts \<inter> fst ` set m = {} \<and> list_all (\<lambda>t. ct_argv t \<noteq> [] \<and> find bad_element (ct_argv t) = None) ts"
  using assms
proof (induction ts m rule: collect_custom.induct)
  case (1 m)
  then show ?case by simp
next
  case (2 t rest m)
  from 2(2) have a: "trim (ct_name t) \<noteq> []" "ct_argv t \<noteq> []" "find bad_element (ct_argv t) = None"
    and g: "om_get m (ct_name t) = None" and r: "collect_custom rest (om_insert (ct_name t) t m) = Inr m'"
    by (auto split: if_splits option.splits)
  have new: "ct_name t \<notin> fst ` set m" using g by (simp add: om_get_def map_of_eq_None_iff)
  then have s: "set (om_insert (ct_name t) t m) = insert (ct_name t, t) (set m)"
    by (induction "ct_name t" t m rule: om_insert.induct) auto
  from 2(1) [OF a(1,2,3)] g r om_inv_insert [OF 2(3)] have ih:
    "om_inv m'" "set m' = set (om_insert (ct_name t) t m) \<union> (\<lambda>t. (ct_name t, t)) ` set rest" "distinct (map ct_name rest)"
    "ct_name ` set rest \<inter> fst ` set (om_insert (ct_name t) t m) = {}"
    "list_all (\<lambda>t. ct_argv t \<noteq> [] \<and> find bad_element (ct_argv t) = None) rest"
    by auto
  show ?case using ih a new by (auto simp: s)
qed

lemma collect_custom_get:
  assumes "collect_custom ts [] = Inr m"
  shows "om_get m n = Some t \<longleftrightarrow> t \<in> set ts \<and> ct_name t = n"
  using collect_custom_Inr [OF assms] by (auto simp: om_get_iff)

lemma push_custom_Inr:
  "push_custom ts specs = Inr out \<longleftrightarrow>
     out = specs @ map custom_spec ts \<and> distinct (map ct_name ts) \<and> ct_name ` set ts \<inter> spec_name ` set specs = {}"
  by (induction ts specs rule: push_custom.induct) auto

lemma from_config_Inr:
  "from_config c = Inr s \<longleftrightarrow>
     (\<exists>custom. collect_custom (tc_add c) [] = Inr custom \<and>
       distinct (map ct_name (om_values custom)) \<and>
       (\<forall>t \<in> set (om_values custom). ct_name t \<in> set builtin_names \<longrightarrow> \<not> keeps_builtin c (ct_name t)) \<and>
       s = \<lparr>set_specs = sort_key spec_name (filter (keeps_builtin c \<circ> spec_name) builtin_specs @ map custom_spec (om_values custom)),
            set_custom = custom, set_policy = no_policy, set_php = tc_php c\<rparr>)"
proof -
  let ?kept = "filter (keeps_builtin c \<circ> spec_name) builtin_specs"
  have clash: "ct_name ` A \<inter> spec_name ` set ?kept = {} \<longleftrightarrow>
      (\<forall>t \<in> A. ct_name t \<in> set builtin_names \<longrightarrow> \<not> keeps_builtin c (ct_name t))" for A
    by (force simp: builtin_specs_def)
  have push: "(\<exists>out. push_custom ts ?kept = Inr out \<and> P out) \<longleftrightarrow>
      distinct (map ct_name ts) \<and> (\<forall>t \<in> set ts. ct_name t \<in> set builtin_names \<longrightarrow> \<not> keeps_builtin c (ct_name t)) \<and>
      P (?kept @ map custom_spec ts)" for ts P
    unfolding push_custom_Inr clash by auto
  have unfold: "from_config c = Inr s \<longleftrightarrow> (\<exists>custom. collect_custom (tc_add c) [] = Inr custom \<and>
      (\<exists>out. push_custom (om_values custom) ?kept = Inr out \<and>
        s = \<lparr>set_specs = sort_key spec_name out, set_custom = custom, set_policy = no_policy, set_php = tc_php c\<rparr>))"
    by (auto simp: from_config_def split: sum.splits)
  show ?thesis unfolding unfold push by blast
qed

lemma from_config_ok:
  assumes "from_config c = Inr s"
  shows "set_ok s" "sorted (set_names s)"
proof -
  from assms obtain custom where cu: "collect_custom (tc_add c) [] = Inr custom"
    and d: "distinct (map ct_name (om_values custom))"
    and sh: "\<forall>t \<in> set (om_values custom). ct_name t \<in> set builtin_names \<longrightarrow> \<not> keeps_builtin c (ct_name t)"
    and s: "s = \<lparr>set_specs = sort_key spec_name (filter (keeps_builtin c \<circ> spec_name) builtin_specs @ map custom_spec (om_values custom)),
            set_custom = custom, set_policy = no_policy, set_php = tc_php c\<rparr>"
    by (auto simp: from_config_Inr)
  note facts = collect_custom_Inr [OF cu, simplified]
  have get: "om_get custom n = Some t \<longleftrightarrow> t \<in> set (tc_add c) \<and> ct_name t = n" for n t by (rule collect_custom_get [OF cu])
  have vals: "set (om_values custom) = set (tc_add c)" using facts by (simp add: om_values_def image_image)
  have perm: "mset (set_names s) = mset (filter (keeps_builtin c) builtin_names @ map ct_name (om_values custom))"
    by (simp add: set_names_def s image_mset.compositionality comp_def builtin_specs_def filter_map)
  have "distinct (filter (keeps_builtin c) builtin_names @ map ct_name (om_values custom))"
    using d sh builtin_names_distinct by auto
  then have "distinct (set_names s)" using mset_eq_imp_distinct_iff [OF perm] by blast
  moreover have custom_backed: "spec_backed s (custom_spec t)" if "t \<in> set (tc_add c)" for t
  proof -
    have "om_get custom (ct_name t) = Some t" using that get by blast
    then show ?thesis by (simp add: s spec_backed_def custom_spec_def)
  qed
  moreover have "spec_backed s (BuiltinSpec n)" if "n \<in> set builtin_names" "keeps_builtin c n" for n
  proof -
    have "om_get custom n \<noteq> Some t" for t using that sh get vals by auto
    then have "om_get custom n = None" by blast
    then show ?thesis using that by (simp add: s spec_backed_def)
  qed
  ultimately have "distinct (set_names s)" "list_all (spec_backed s) (set_specs s)"
    using vals by (auto simp: s list_all_iff builtin_specs_def)
  moreover have "list_all (tool_backed s) (set_custom s)"
    using facts vals by (auto simp: s list_all_iff tool_backed_def)
  ultimately show "set_ok s" using facts by (simp add: set_ok_def s)
  show "sorted (set_names s)" by (simp add: s set_names_def)
qed

lemma builtin_set_ok: "set_ok builtin_set"
  by (auto simp: set_ok_def builtin_set_def set_names_def builtin_names_distinct list_all_iff spec_backed_def)
    (auto simp: builtin_specs_def)

lemma no_tools_ok: "set_ok no_tools"
  by (simp add: set_ok_def no_tools_def set_names_def)

lemma load_layered_ok: "load_layered h launcher cwd = Inr s \<Longrightarrow> set_ok s"
  by (auto simp: load_layered_def load_tools_def builtin_set_ok dest: from_config_ok split: if_splits option.splits sum.splits)

lemma offers_names:
  assumes "set_ok s"
  shows "set_offers s n \<longleftrightarrow> n \<in> set (set_names s)"
proof -
  have "n \<in> set (set_names s)" if "om_get (set_custom s) n = Some t" for t
  proof -
    from that assms have "(n, t) \<in> set (set_custom s)" by (simp add: set_ok_def om_get_iff)
    with assms have "ct_name t = n" "custom_spec t \<in> set (set_specs s)"
      by (auto simp: set_ok_def list_all_iff tool_backed_def)
    then show ?thesis by (metis image_eqI set_map set_names_def spec_name_custom)
  qed
  then show ?thesis by (auto simp: set_offers_def)
qed

section \<open>Narrowing\<close>

text \<open>
  What the two callers of \<^verbatim>\<open>retaining\<close> rely on: it keeps exactly the named tools the set offers, and a tool
  it keeps is the tool it was.
\<close>

locale narrowing =
  fixes offered :: "'s \<Rightarrow> rstr set"
    and tool_of :: "'s \<Rightarrow> rstr \<Rightarrow> 't option"
    and keep :: "'s \<Rightarrow> rstr list \<Rightarrow> 's"
    and well :: "'s \<Rightarrow> bool"
  assumes keep_offered: "well s \<Longrightarrow> offered (keep s l) = offered s \<inter> set l"
    and keep_tool: "well s \<Longrightarrow> n \<in> set l \<Longrightarrow> tool_of (keep s l) n = tool_of s n"
    and keep_well: "well s \<Longrightarrow> well (keep s l)"
begin

lemma keep_sub: "well s \<Longrightarrow> offered (keep s l) \<subseteq> offered s"
  by (simp add: keep_offered)

lemma keep_all: "well s \<Longrightarrow> set l \<subseteq> offered s \<Longrightarrow> offered (keep s l) = set l"
  by (auto simp: keep_offered)

lemma keep_twice: "well s \<Longrightarrow> offered (keep (keep s l) k) = offered s \<inter> set l \<inter> set k"
  by (simp add: keep_offered keep_well)

lemma kept_tool_unchanged: "well s \<Longrightarrow> n \<in> offered (keep s l) \<Longrightarrow> tool_of (keep s l) n = tool_of s n"
  by (simp add: keep_offered keep_tool)

end

definition offered_names :: "toolset \<Rightarrow> rstr set" where
  "offered_names s = set (set_names s)"

lemma retaining_names: "set_names (retaining s l) = filter (\<lambda>n. n \<in> set l) (set_names s)"
  by (simp add: set_names_def retaining_def filter_map comp_def)

lemma retaining_get: "om_inv (set_custom s) \<Longrightarrow> om_get (set_custom (retaining s l)) n = (if n \<in> set l then om_get (set_custom s) n else None)"
  by (simp add: retaining_def om_get_retain split: option.splits)

lemma retaining_ok:
  assumes "set_ok s"
  shows "set_ok (retaining s l)"
proof -
  have "list_all (spec_backed (retaining s l)) (set_specs (retaining s l))"
    unfolding list_all_iff
  proof
    fix sp
    assume "sp \<in> set (set_specs (retaining s l))"
    then have in_s: "sp \<in> set (set_specs s)" and keep: "spec_name sp \<in> set l" by (auto simp: retaining_def)
    have "spec_backed s sp" and inv: "om_inv (set_custom s)" using assms in_s by (auto simp: set_ok_def list_all_iff)
    then show "spec_backed (retaining s l) sp"
      using keep by (cases sp) (simp_all add: spec_backed_def retaining_get)
  qed
  moreover have "distinct (set_names (retaining s l))" using assms by (simp add: set_ok_def retaining_names)
  ultimately show ?thesis
    using assms by (auto simp: set_ok_def list_all_iff tool_backed_def retaining_def om_retain_def om_inv_filter)
qed

interpretation narrow: narrowing offered_names "\<lambda>s. om_get (set_custom s)" retaining set_ok
  by unfold_locales
    (auto simp: offered_names_def retaining_names set_ok_def [THEN iffD1, THEN conjunct1] retaining_get dest: retaining_ok)

lemma unoffered_iff: "unoffered s l = [] \<longleftrightarrow> (\<forall>n \<in> set l. set_offers s n)"
  by (metis (mono_tags, lifting) empty_filter_conv remdups_adj_Nil_iff set_empty2 set_sort unoffered_def)

lemma narrowed_to_Inr:
  assumes "set_ok s" "narrowed_to s l = Inr s'"
  shows "set_ok s' \<and> offered_names s' = set l \<and> offered_names s' \<subseteq> offered_names s \<and>
    (\<forall>n \<in> set l. om_get (set_custom s') n = om_get (set_custom s) n)"
proof (cases "l = []")
  case True
  then show ?thesis using assms using no_tools_ok by (auto simp: narrowed_to_def offered_names_def no_tools_def set_names_def)
next
  case False
  with assms have s': "s' = retaining s l" and "unoffered s l = []" by (auto simp: narrowed_to_def split: if_splits)
  then have "set l \<subseteq> offered_names s"
    using assms by (auto simp: unoffered_iff offers_names offered_names_def)
  then show ?thesis
    using assms s' narrow.keep_all narrow.keep_sub narrow.keep_tool narrow.keep_well by auto
qed

section \<open>What a project's file may do\<close>

definition lists_builtin :: "toolset \<Rightarrow> rstr \<Rightarrow> bool" where
  "lists_builtin s n \<longleftrightarrow> BuiltinSpec n \<in> set (set_specs s)"

lemma from_config_builtin:
  "from_config c = Inr s \<Longrightarrow> lists_builtin s n \<longleftrightarrow> n \<in> set builtin_names \<and> keeps_builtin c n"
  by (auto simp: from_config_Inr lists_builtin_def builtin_specs_def custom_spec_def)

lemma from_config_custom:
  "from_config c = Inr s \<Longrightarrow> om_get (set_custom s) n = Some t \<longleftrightarrow> t \<in> set (tc_add c) \<and> ct_name t = n"
  by (auto simp: from_config_Inr collect_custom_get)

lemma merge_config_Inr:
  assumes "merge_config base bn over pn = Inr c"
  shows "tc_allow over = None" "tc_disable c = tc_disable base @ tc_disable over" "tc_allow c = tc_allow base"
    "tc_add c = tc_add base @ tc_add over"
    "\<And>t. t \<in> set (tc_add over) \<Longrightarrow> ct_name t \<notin> ct_name ` set (tc_add base) \<and> ct_name t \<notin> set builtin_names"
    "\<And>n. n \<in> set (tc_disable over) \<Longrightarrow> n \<notin> ct_name ` set (tc_add base)"
  using assms by (auto simp: merge_config_def find_None_iff split: if_splits option.splits)

lemma collect_custom_prefix:
  "collect_custom (xs @ ys) m = Inr out \<Longrightarrow> \<exists>mid. collect_custom xs m = Inr mid"
  by (induction xs m rule: collect_custom.induct) (auto split: if_splits option.splits)

lemma merged_base_builds:
  assumes m: "merge_config base bn over pn = Inr c" and c: "from_config c = Inr s"
  shows "\<exists>s0. from_config base = Inr s0"
proof -
  from c obtain custom where cu: "collect_custom (tc_add c) [] = Inr custom"
    and sh: "\<forall>t \<in> set (om_values custom). ct_name t \<in> set builtin_names \<longrightarrow> \<not> keeps_builtin c (ct_name t)"
    by (auto simp: from_config_Inr)
  from cu merge_config_Inr [OF m] obtain custom0 where cu0: "collect_custom (tc_add base) [] = Inr custom0"
    using collect_custom_prefix by metis
  note f = collect_custom_Inr [OF cu, simplified] and f0 = collect_custom_Inr [OF cu0, simplified]
  have vals: "set (om_values custom) = set (tc_add c)" using f by (simp add: om_values_def image_image)
  have vals0: "set (om_values custom0) = set (tc_add base)" using f0 by (simp add: om_values_def image_image)
  have "map fst custom0 = map ct_name (om_values custom0)" using f0 by (auto simp: om_values_def)
  then have "distinct (map ct_name (om_values custom0))" using f0 om_inv_distinct by metis
  moreover have "\<not> keeps_builtin base (ct_name t)" if "t \<in> set (tc_add base)" "ct_name t \<in> set builtin_names" for t
  proof -
    have "\<not> keeps_builtin c (ct_name t)" using that sh vals merge_config_Inr [OF m] by auto
    moreover have "ct_name t \<notin> set (tc_disable over)" using that merge_config_Inr(6) [OF m] by blast
    ultimately show ?thesis using merge_config_Inr(2,3) [OF m] by (auto simp: keeps_builtin_def)
  qed
  ultimately show ?thesis using cu0 vals0 by (auto simp: from_config_Inr)
qed

text \<open>
  The project's file can only take built-ins away and add tools of new names: whatever the layered set offers
  beyond the launcher's own is a custom tool of the project, under a name no built-in has.
\<close>

definition only_adds :: "toolset \<Rightarrow> toolset \<Rightarrow> bool" where
  "only_adds s0 s \<longleftrightarrow>
     (\<forall>n. lists_builtin s n \<longrightarrow> lists_builtin s0 n) \<and>
     (\<forall>n t. om_get (set_custom s0) n = Some t \<longrightarrow> om_get (set_custom s) n = Some t) \<and>
     (\<forall>n t. om_get (set_custom s) n = Some t \<and> om_get (set_custom s0) n = None \<longrightarrow> n \<notin> set builtin_names)"

lemma only_adds_refl: "only_adds s s"
  by (auto simp: only_adds_def)

lemma merged_only_adds:
  assumes m: "merge_config base bn over pn = Inr c" and c: "from_config c = Inr s" and b: "from_config base = Inr s0"
  shows "only_adds s0 s"
  using merge_config_Inr [OF m]
  by (auto simp: only_adds_def from_config_builtin [OF c] from_config_builtin [OF b] from_config_custom [OF c] keeps_builtin_def)
    (metis from_config_custom [OF b] option.distinct(1) not_None_eq)+

lemma layered_only_adds:
  assumes "load_layered h (Some p) cwd = Inr s"
  shows "\<exists>s0. load_tools h (Some p) = Inr s0 \<and> only_adds s0 s"
proof (cases "p = minimal_keyword")
  case True
  then show ?thesis using assms by (auto simp: load_layered_def only_adds_refl)
next
  case False
  with assms obtain base project where r: "read_config h p = Inr base"
    and pr: "read_if_present h (project_tool_file cwd) = Inr project"
    by (cases "read_config h p"; cases "read_if_present h (project_tool_file cwd)") (auto simp: load_layered_def)
  show ?thesis
  proof (cases project)
    case None
    then have "from_config base = Inr s" using assms False r pr by (simp add: load_layered_def)
    then show ?thesis using False r by (simp add: load_tools_def only_adds_refl)
  next
    case (Some over)
    then obtain c where "merge_config base p over (project_tool_file cwd) = Inr c" "from_config c = Inr s"
      using assms False r pr by (auto simp: load_layered_def split: sum.splits)
    then show ?thesis using merged_base_builds merged_only_adds False r by (fastforce simp: load_tools_def)
  qed
qed

text \<open>The two other parts of a set: the policy of the session's remote hosts, which no file sets, and the functions PHPUnit is
  denied, for which the project's list, when it has one, stands for the launcher's.\<close>

lemma from_config_rest: "from_config c = Inr s \<Longrightarrow> set_policy s = no_policy \<and> set_php s = tc_php c"
  by (auto simp: from_config_def split: sum.splits)

lemma merge_config_php:
  "merge_config base bn over pn = Inr c \<Longrightarrow> tc_php c = (case tc_php over of Some fs \<Rightarrow> Some fs | None \<Rightarrow> tc_php base)"
  by (auto simp: merge_config_def split: if_splits option.splits)

lemma layered_rest:
  assumes "load_layered h (Some p) cwd = Inr s" "load_tools h (Some p) = Inr s0"
  shows "set_policy s = set_policy s0 \<and> set_php s =
     (if p = minimal_keyword then set_php s0
      else case read_if_present h (project_tool_file cwd) of
             Inr (Some over) \<Rightarrow> (case tc_php over of Some fs \<Rightarrow> Some fs | None \<Rightarrow> set_php s0)
           | _ \<Rightarrow> set_php s0)"
proof (cases "p = minimal_keyword")
  case True
  then show ?thesis using assms by (simp add: load_layered_def)
next
  case False
  with assms obtain base project where r: "read_config h p = Inr base" "from_config base = Inr s0"
    and pr: "read_if_present h (project_tool_file cwd) = Inr project"
    by (cases "read_config h p"; cases "read_if_present h (project_tool_file cwd)") (auto simp: load_layered_def load_tools_def)
  note base = from_config_rest [OF r(2)]
  show ?thesis
  proof (cases project)
    case None
    then have "from_config base = Inr s" using assms False r pr by (simp add: load_layered_def)
    then show ?thesis using False r pr None by simp
  next
    case (Some over)
    then obtain c where c: "merge_config base p over (project_tool_file cwd) = Inr c" "from_config c = Inr s"
      using assms False r pr by (auto simp: load_layered_def split: sum.splits)
    show ?thesis
      using from_config_rest [OF c(2)] merge_config_php [OF c(1)] base False pr Some by (simp split: option.split)
  qed
qed

end
