(* ===== verification/Progress.thy ===== *)
theory Progress
  imports Budget
begin

text \<open>
  The guard against tool loops, \<^verbatim>\<open>src/crates/catbus-agent/src/progress.rs\<close>: it compares each round's calls and
  results with the round before and stops a turn that no longer learns anything. \<open>ser\<close> stands for
  \<^verbatim>\<open>serde_json\<close>'s rendering of a string.
\<close>

section \<open>Naming a call\<close>

definition default_limit :: nat where
  "default_limit = 3"

definition target_keys :: "rstr list" where
  "target_keys = map lit [''file_path'', ''path'', ''pattern'', ''command'', ''query'', ''name'']"

definition target_keep :: nat where
  "target_keep = 48"

definition first_line_clipped :: "rstr \<Rightarrow> rstr" where
  "first_line_clipped text =
     (let line = trim (case str_lines text of [] \<Rightarrow> [] | l # _ \<Rightarrow> l)
      in if length line \<le> target_keep then line else take target_keep line @ [8230])"

definition call_label :: "rstr \<Rightarrow> json \<Rightarrow> rstr" where
  "call_label name input =
     (case List.map_filter (\<lambda>k. as_str (json_get k input)) target_keys of
        target # _ \<Rightarrow> (let t = first_line_clipped target in if t \<noteq> [] then name @ [32] @ t else name)
      | [] \<Rightarrow> name)"

definition first_label :: "rstr list \<Rightarrow> rstr" where
  "first_label labels = (case labels of l # _ \<Rightarrow> l | [] \<Rightarrow> lit ''the last call'')"

text \<open>Arguments serialised with their keys in order.\<close>

fun canonical :: "(rstr \<Rightarrow> rstr) \<Rightarrow> json \<Rightarrow> rstr"
  and canonical_items :: "(rstr \<Rightarrow> rstr) \<Rightarrow> json list \<Rightarrow> rstr list"
  and canonical_fields :: "(rstr \<Rightarrow> rstr) \<Rightarrow> (rstr \<times> json) list \<Rightarrow> (rstr \<times> rstr) list" where
  "canonical ser (JObj m) =
     [123] @ str_join [44] (map (\<lambda>(k, t). ser k @ [58] @ t) (sort_key fst (canonical_fields ser m))) @ [125]"
| "canonical ser (JArr items) = [91] @ str_join [44] (canonical_items ser items) @ [93]"
| "canonical ser JNull = lit ''null''"
| "canonical ser (JBool b) = (if b then lit ''true'' else lit ''false'')"
| "canonical ser (JNum n) = (case n of U64 k \<Rightarrow> show_nat k | OtherNumber t \<Rightarrow> t)"
| "canonical ser (JStr s) = ser s"
| "canonical_items ser [] = []"
| "canonical_items ser (v # vs) = canonical ser v # canonical_items ser vs"
| "canonical_fields ser [] = []"
| "canonical_fields ser ((k, v) # m) = (k, canonical ser v) # canonical_fields ser m"

section \<open>The tracker\<close>

datatype stop = Repeat rstr nat | NoProgress rstr nat

text \<open>What the reader of the tab is told, and what the model gets in place of a refused call.\<close>

definition backtick :: "rstr \<Rightarrow> rstr" where
  "backtick s = [96] @ s @ [96]"

definition stop_notice :: "stop \<Rightarrow> rstr" where
  "stop_notice s =
     (case s of
        Repeat call rounds \<Rightarrow>
          [10, 10] @ lit ''[loop stopped after '' @ show_nat rounds @ lit '' identical rounds: '' @ backtick call
          @ lit '' was about to run again, and the rounds before it had already stopped returning anything new. The call was not made. Ask for something specific to continue, or raise CATBUS_REPEAT_ROUNDS if the task is meant to be repetitive.]''
      | NoProgress call rounds \<Rightarrow>
          [10, 10] @ lit ''[loop stopped after '' @ show_nat rounds @ lit '' rounds that changed nothing: the tools ran, and '' @ backtick call
          @ lit '' was the last, but the results came back byte-identical each time. Running them again cannot produce anything new. Ask for something specific, or check whether the results are reaching the model at all '' @ [8212]
          @ lit '' and raise CATBUS_REPEAT_ROUNDS if this was expected to be repetitive.]'')"

definition stop_refusal :: "stop \<Rightarrow> rstr" where
  "stop_refusal s =
     (case s of
        Repeat call rounds \<Rightarrow>
          lit ''Error: not run '' @ [8212, 32] @ backtick call @ lit '' has already been dispatched '' @ show_nat rounds
          @ lit '' rounds running, and those rounds returned the same thing, so this one would return a result you have already been given. Try a different path, a narrower range, or ask the user.''
      | NoProgress call rounds \<Rightarrow>
          lit ''Error: the loop was stopped after '' @ show_nat rounds
          @ lit '' rounds in which every result came back byte-identical to the round before '' @ [8212, 32] @ backtick call
          @ lit '' was the last call. Nothing changed, so repeating this cannot tell you anything new. Read something you have not read, or ask the user.'')"

record progress =
  pg_limit :: nat
  pg_last_calls :: "rstr list option"
  pg_last_results :: "rstr list option"
  pg_last_labels :: "rstr list"
  pg_call_streak :: nat
  pg_result_streak :: nat

definition new_progress :: "nat \<Rightarrow> progress" where
  "new_progress limit =
     \<lparr>pg_limit = limit, pg_last_calls = None, pg_last_results = None, pg_last_labels = [],
      pg_call_streak = 0, pg_result_streak = 0\<rparr>"

definition progress_from_env :: "rstr option \<Rightarrow> progress" where
  "progress_from_env raw =
     new_progress (case Option.bind raw (parse_uint (2 ^ 32 - 1)) of Some n \<Rightarrow> n | None \<Rightarrow> default_limit)"

definition signature :: "(rstr \<Rightarrow> rstr) \<Rightarrow> (rstr \<times> json) list \<Rightarrow> rstr list" where
  "signature ser calls = map (\<lambda>(name, input). name @ [58] @ canonical ser input) calls"

definition before :: "(rstr \<Rightarrow> rstr) \<Rightarrow> (rstr \<times> json) list \<Rightarrow> progress \<Rightarrow> stop option \<times> progress" where
  "before ser calls p =
     (if pg_limit p = 0 then (None, p)
      else (let labels = map (\<lambda>(name, input). call_label name input) calls;
                sig = signature ser calls
            in if sig = [] then (None, p)
               else (let streak = (if pg_last_calls p = Some sig then pg_call_streak p + 1 else 1);
                         p' = p\<lparr>pg_call_streak := streak, pg_last_calls := Some sig, pg_last_labels := labels\<rparr>
                     in (if pg_limit p \<le> streak \<and> 2 \<le> pg_result_streak p
                         then Some (Repeat (first_label labels) streak) else None, p'))))"

definition after :: "rstr list \<Rightarrow> progress \<Rightarrow> stop option \<times> progress" where
  "after results p =
     (if pg_limit p = 0 \<or> results = [] then (None, p)
      else (let streak = (if pg_last_results p = Some results then pg_result_streak p + 1 else 1);
                p' = p\<lparr>pg_result_streak := streak, pg_last_results := Some results\<rparr>
            in (if pg_limit p \<le> streak then Some (NoProgress (first_label (pg_last_labels p)) streak) else None, p')))"

section \<open>Rounds\<close>

text \<open>A round: its calls and, when they were dispatched, their results.\<close>

type_synonym tool_round = "(rstr \<times> json) list \<times> rstr list"

definition observe :: "(rstr \<Rightarrow> rstr) \<Rightarrow> progress \<Rightarrow> tool_round list \<Rightarrow> progress" where
  "observe ser p rounds = foldl (\<lambda>p (calls, results). snd (after results (snd (before ser calls p)))) p rounds"

text \<open>How many of the last elements are equal.\<close>

definition trail :: "'a list \<Rightarrow> nat" where
  "trail xs = (if xs = [] then 0 else length (takeWhile (\<lambda>x. x = last xs) (rev xs)))"

lemma trail_snoc: "trail (xs @ [x]) = (if xs \<noteq> [] \<and> last xs = x then trail xs + 1 else 1)"
  by (cases xs rule: rev_cases) (auto simp: trail_def)

text \<open>The state of the tracker is read off the rounds it has seen.\<close>

definition tracks :: "(rstr \<Rightarrow> rstr) \<Rightarrow> nat \<Rightarrow> tool_round list \<Rightarrow> progress \<Rightarrow> bool" where
  "tracks ser limit h p \<longleftrightarrow>
     pg_limit p = limit \<and>
     pg_last_calls p = (if h = [] then None else Some (signature ser (fst (last h)))) \<and>
     pg_last_results p = (if h = [] then None else Some (snd (last h))) \<and>
     pg_call_streak p = trail (map (\<lambda>r. signature ser (fst r)) h) \<and>
     pg_result_streak p = trail (map snd h)"

lemma before_tracks:
  assumes "tracks ser limit h p" "0 < limit" "calls \<noteq> []"
  shows "pg_call_streak (snd (before ser calls p)) = trail (map (\<lambda>r. signature ser (fst r)) h @ [signature ser calls])"
    "pg_last_calls (snd (before ser calls p)) = Some (signature ser calls)"
    "pg_limit (snd (before ser calls p)) = limit" "pg_last_results (snd (before ser calls p)) = pg_last_results p"
    "pg_result_streak (snd (before ser calls p)) = trail (map snd h)"
    "fst (before ser calls p) \<noteq> None \<longleftrightarrow>
      limit \<le> trail (map (\<lambda>r. signature ser (fst r)) h @ [signature ser calls]) \<and> 2 \<le> trail (map snd h)"
proof -
  have ne: "signature ser calls \<noteq> []" using assms(3) by (simp add: signature_def)
  have s: "(if pg_last_calls p = Some (signature ser calls) then pg_call_streak p + 1 else 1) =
      trail (map (\<lambda>r. signature ser (fst r)) h @ [signature ser calls])"
    using assms(1) by (auto simp: tracks_def trail_snoc last_map)
  show "pg_call_streak (snd (before ser calls p)) = trail (map (\<lambda>r. signature ser (fst r)) h @ [signature ser calls])"
    "pg_last_calls (snd (before ser calls p)) = Some (signature ser calls)"
    "pg_limit (snd (before ser calls p)) = limit" "pg_last_results (snd (before ser calls p)) = pg_last_results p"
    "pg_result_streak (snd (before ser calls p)) = trail (map snd h)"
    using assms ne s by (simp_all add: before_def Let_def tracks_def)
  show "fst (before ser calls p) \<noteq> None \<longleftrightarrow>
      limit \<le> trail (map (\<lambda>r. signature ser (fst r)) h @ [signature ser calls]) \<and> 2 \<le> trail (map snd h)"
    using assms ne unfolding before_def Let_def s by (simp add: tracks_def)
qed

lemma round_tracks:
  assumes "tracks ser limit h p" "0 < limit" "calls \<noteq> []" "results \<noteq> []"
  shows "tracks ser limit (h @ [(calls, results)]) (snd (after results (snd (before ser calls p))))"
    "fst (after results (snd (before ser calls p))) \<noteq> None \<longleftrightarrow> limit \<le> trail (map snd h @ [results])"
proof -
  note b = before_tracks [OF assms(1-3)]
  let ?q = "snd (before ser calls p)"
  have s: "(if pg_last_results ?q = Some results then pg_result_streak ?q + 1 else 1) = trail (map snd h @ [results])"
    using assms(1) b(4,5) by (auto simp: tracks_def trail_snoc last_map)
  show "tracks ser limit (h @ [(calls, results)]) (snd (after results ?q))"
    using assms(2,4) b s by (simp add: after_def Let_def tracks_def)
  show "fst (after results ?q) \<noteq> None \<longleftrightarrow> limit \<le> trail (map snd h @ [results])"
    using assms(2,4) b(3) unfolding after_def Let_def s by simp
qed

lemma observe_tracks:
  assumes "0 < limit" "\<forall>r \<in> set h. fst r \<noteq> [] \<and> snd r \<noteq> []"
  shows "tracks ser limit h (observe ser (new_progress limit) h)"
  using assms(2)
proof (induction h rule: rev_induct)
  case Nil
  then show ?case by (simp add: observe_def new_progress_def tracks_def trail_def)
next
  case (snoc r h)
  obtain calls results where r: "r = (calls, results)" by (cases r)
  have "tracks ser limit h (observe ser (new_progress limit) h)" using snoc by simp
  from round_tracks(1) [OF this assms(1), of calls results] snoc.prems r show ?case by (simp add: observe_def)
qed

lemma canonical_fields_map: "canonical_fields ser m = map (\<lambda>(k, v). (k, canonical ser v)) m"
  by (induction m) auto

lemma canonical_key_order:
  assumes "mset m = mset m'" "distinct (map fst m)"
  shows "canonical ser (JObj m) = canonical ser (JObj m')"
proof -
  have "sort_key fst (canonical_fields ser m) = sort_key fst (canonical_fields ser m')"
    unfolding canonical_fields_map
    by (rule sort_key_perm)
      (use assms in \<open>auto simp: inj_on_def intro: arg_cong [where f = "canonical ser"] dest: eq_key_imp_eq_value\<close>)
  then show ?thesis by simp
qed

section \<open>Properties\<close>

text \<open>C34 The guard is exact: after any rounds that each made calls and got results, a round is refused before it runs just
  when its calls repeat, up to the order of their arguments' keys, for the limit's number of rounds and the
  results have already repeated; and it is the last one just when its results are the same for that number of
  rounds.\<close>

theorem loop_guard_exact:
  assumes "0 < limit" and "\<forall>r \<in> set h. fst r \<noteq> [] \<and> snd r \<noteq> []" and "calls \<noteq> []" and "results \<noteq> []"
  shows "(fst (before ser calls (observe ser (new_progress limit) h)) \<noteq> None \<longleftrightarrow>
      limit \<le> trail (map (\<lambda>r. signature ser (fst r)) h @ [signature ser calls]) \<and> 2 \<le> trail (map snd h)) \<and>
    (fst (after results (snd (before ser calls (observe ser (new_progress limit) h)))) \<noteq> None \<longleftrightarrow>
      limit \<le> trail (map snd h @ [results]))"
  using before_tracks(6) [OF observe_tracks [OF assms(1,2)] assms(1,3)] round_tracks(2) [OF observe_tracks [OF assms(1,2)] assms(1,3,4)]
  by blast

text \<open>Three reads of one file, with the keys of the arguments in another order each time.\<close>

definition read_a :: "(rstr \<times> json) list" where
  "read_a = [(lit ''Read'', JObj [(lit ''path'', JStr (lit ''a'')), (lit ''offset'', JNum (U64 0))])]"

definition read_b :: "(rstr \<times> json) list" where
  "read_b = [(lit ''Read'', JObj [(lit ''offset'', JNum (U64 0)), (lit ''path'', JStr (lit ''a''))])]"

lemma same_reads: "signature ser read_a = signature ser read_b"
  unfolding signature_def read_a_def read_b_def using canonical_key_order
    [of "[(lit ''path'', JStr (lit ''a'')), (lit ''offset'', JNum (U64 0))]" "[(lit ''offset'', JNum (U64 0)), (lit ''path'', JStr (lit ''a''))]" ser]
  by (simp add: lit_def)

theorem loop_guard_exact_witness:
  "fst (before id read_b (observe id (new_progress 3) [(read_a, [[1]]), (read_b, [[1]])])) \<noteq> None"
proof -
  have "3 \<le> trail (map (\<lambda>r. signature id (fst r)) [(read_a, [[1 :: nat]]), (read_b, [[1]])] @ [signature id read_b])"
    using same_reads [of id] by (simp add: trail_def)
  moreover have "2 \<le> trail (map snd [(read_a, [[1 :: nat]]), (read_b, [[1]])])" by (simp add: trail_def)
  ultimately show ?thesis
    using loop_guard_exact [of 3 "[(read_a, [[1]]), (read_b, [[1]])]" read_b "[[1]]" id] by (simp add: read_a_def read_b_def)
qed

text \<open>A poll is progress: as long as each round's results differ from the round before, the same calls may be made any
  number of times, and neither check stops the turn.\<close>

theorem polling_never_stopped:
  assumes "2 \<le> limit" and "\<forall>r \<in> set h. fst r \<noteq> [] \<and> snd r \<noteq> []" and "calls \<noteq> []" and "results \<noteq> []"
    and "\<forall>k. Suc k < length (h @ [(calls, results)]) \<longrightarrow> snd ((h @ [(calls, results)]) ! k) \<noteq> snd ((h @ [(calls, results)]) ! Suc k)"
  shows "fst (before ser calls (observe ser (new_progress limit) h)) = None \<and>
    fst (after results (snd (before ser calls (observe ser (new_progress limit) h)))) = None"
proof -
  have pos: "0 < limit" using assms(1) by simp
  have one: "trail (map snd g) \<le> 1" if pre: "\<exists>t. h @ [(calls, results)] = g @ t" for g
  proof (cases g rule: rev_cases)
    case (snoc g' y)
    show ?thesis
    proof (cases g' rule: rev_cases)
      case (snoc g'' x)
      then obtain t where run: "h @ [(calls, results)] = g'' @ x # y # t" using pre \<open>g = g' @ [y]\<close> by auto
      have "snd x \<noteq> snd y" using assms(5) [unfolded run, rule_format, of "length g''"] by (simp add: nth_append)
      then show ?thesis using snoc \<open>g = g' @ [y]\<close> trail_snoc [of "map snd g'' @ [snd x]" "snd y"] by simp
    qed (simp add: snoc trail_def)
  qed (simp add: trail_def)
  have "\<not> 2 \<le> trail (map snd h)" using one [of h] by auto
  moreover have "\<not> limit \<le> trail (map snd h @ [results])" using one [of "h @ [(calls, results)]"] assms(1) by simp
  ultimately show ?thesis
    using before_tracks(6) [OF observe_tracks [OF pos assms(2)] pos assms(3), of ser]
      round_tracks(2) [OF observe_tracks [OF pos assms(2)] pos assms(3,4), of ser] by blast
qed

theorem polling_never_stopped_witness:
  "fst (before id read_a (observe id (new_progress 3) [(read_a, [[1]]), (read_a, [[2]])])) = None"
  using polling_never_stopped [of 3 "[(read_a, [[1]]), (read_a, [[2]])]" read_a "[[3]]" id]
  by (simp add: read_a_def nth_Cons' less_Suc_eq)

end
