(* ===== verification/Turn.thy ===== *)
theory Turn
  imports Gate Progress "HOL-Library.Sublist"
begin

text \<open>
  One turn of the agent, \<^verbatim>\<open>src/crates/catbus-agent/src/agent.rs\<close>: the loop of requests and tool rounds that
  \<^verbatim>\<open>run_user_prompt_inner\<close> drives, what it writes to the transcript (\<^verbatim>\<open>session.rs\<close>), and the reading of a transcript
  into a conversation when a session is resumed. The model's replies, the tools' outputs, cancellation and the
  outcome of each write are the environment of the turn; \<open>ser\<close>, \<open>dec\<close> and \<open>blocks_of\<close> stand for \<^verbatim>\<open>serde_json\<close>, \<open>vte\<close>
  for the escape-sequence parser.
\<close>

section \<open>Escapes\<close>

text \<open>\<^verbatim>\<open>ansi.rs\<close>: an escape, or a character of the C1 range.\<close>

definition needs_stripping :: "rstr \<Rightarrow> bool" where
  "needs_stripping input \<longleftrightarrow> list_ex (\<lambda>c. c = 27 \<or> (128 \<le> c \<and> c \<le> 159)) input"

definition strip :: "(rstr \<Rightarrow> rstr option) \<Rightarrow> rstr \<Rightarrow> rstr" where
  "strip vte input =
     (if \<not> needs_stripping input then input
      else case vte input of Some clean \<Rightarrow> clean | None \<Rightarrow> input)"

definition plain_block :: "(rstr \<Rightarrow> rstr option) \<Rightarrow> block \<Rightarrow> block" where
  "plain_block vte b = (case b of BText t \<Rightarrow> BText (strip vte t) | other \<Rightarrow> other)"

definition plain_content :: "(rstr \<Rightarrow> rstr option) \<Rightarrow> block list \<Rightarrow> block list" where
  "plain_content vte content = map (plain_block vte) content"

section \<open>The transcript\<close>

record entry_head =
  eh_uuid :: rstr
  eh_parent :: "rstr option"
  eh_session :: rstr
  eh_cwd :: rstr
  eh_time :: rstr

datatype entry =
    EUserPlain entry_head rstr
  | EUserBlocks entry_head "block list"
  | EAssistant entry_head rstr "block list"

text \<open>What the derived serialisers write.\<close>

definition block_json :: "block \<Rightarrow> json" where
  "block_json b =
     (case b of
        BText t \<Rightarrow> JObj [(lit ''type'', JStr (lit ''text'')), (lit ''text'', JStr t)]
      | BToolUse i name input \<Rightarrow>
          JObj [(lit ''type'', JStr (lit ''tool_use'')), (lit ''id'', JStr i), (lit ''name'', JStr name), (lit ''input'', input)]
      | BToolResult i content is_error \<Rightarrow>
          JObj ([(lit ''type'', JStr (lit ''tool_result'')), (lit ''tool_use_id'', JStr i), (lit ''content'', JStr content)]
                @ (if is_error then [(lit ''is_error'', JBool True)] else []))
      | BThinking thinking sig \<Rightarrow>
          JObj ([(lit ''type'', JStr (lit ''thinking'')), (lit ''thinking'', JStr thinking)]
                @ (case sig of Some s \<Rightarrow> [(lit ''signature'', JStr s)] | None \<Rightarrow> [])))"

definition head_json :: "rstr \<Rightarrow> entry_head \<Rightarrow> (rstr \<times> json) list" where
  "head_json kind h =
     [(lit ''type'', JStr kind), (lit ''uuid'', JStr (eh_uuid h))]
     @ (case eh_parent h of Some p \<Rightarrow> [(lit ''parentUuid'', JStr p)] | None \<Rightarrow> [])
     @ [(lit ''sessionId'', JStr (eh_session h)), (lit ''cwd'', JStr (eh_cwd h)), (lit ''timestamp'', JStr (eh_time h))]"

definition entry_json :: "entry \<Rightarrow> json" where
  "entry_json e =
     (case e of
        EUserPlain h text \<Rightarrow>
          JObj (head_json (lit ''user'') h @
            [(lit ''message'', JObj [(lit ''role'', JStr (lit ''user'')), (lit ''content'', JStr text)])])
      | EUserBlocks h bs \<Rightarrow>
          JObj (head_json (lit ''user'') h @
            [(lit ''message'', JObj [(lit ''role'', JStr (lit ''user'')), (lit ''content'', JArr (map block_json bs))])])
      | EAssistant h model bs \<Rightarrow>
          JObj (head_json (lit ''assistant'') h @
            [(lit ''message'', JObj [(lit ''role'', JStr (lit ''assistant'')), (lit ''model'', JStr model),
                                     (lit ''content'', JArr (map block_json bs))])]))"

definition entry_uuid :: "entry \<Rightarrow> rstr" where
  "entry_uuid e = eh_uuid (case e of EUserPlain h _ \<Rightarrow> h | EUserBlocks h _ \<Rightarrow> h | EAssistant h _ _ \<Rightarrow> h)"

text \<open>The agent: its session, the lines of the transcript, and the conversation in memory.\<close>

record agent =
  ag_session :: rstr
  ag_cwd :: rstr
  ag_last :: "rstr option"
  ag_lines :: "rstr list"
  ag_history :: "api_message list"
  ag_tokens_in :: nat
  ag_tokens_out :: nat
  ag_served :: "rstr option"

text \<open>A write: the fresh id, the clock, and whether it succeeds; a failed one may have reached the file.\<close>

datatype write_outcome = Written | WriteFailed bool

record entry_write =
  ew_uuid :: rstr
  ew_time :: rstr
  ew_outcome :: write_outcome

definition new_head :: "agent \<Rightarrow> entry_write \<Rightarrow> entry_head" where
  "new_head a w = \<lparr>eh_uuid = ew_uuid w, eh_parent = ag_last a, eh_session = ag_session a, eh_cwd = ag_cwd a, eh_time = ew_time w\<rparr>"

definition user_text :: "agent \<Rightarrow> entry_write \<Rightarrow> rstr \<Rightarrow> entry" where
  "user_text a w text = EUserPlain (new_head a w) text"

definition tool_results :: "agent \<Rightarrow> entry_write \<Rightarrow> block list \<Rightarrow> entry" where
  "tool_results a w results = EUserBlocks (new_head a w) results"

definition assistant_blocks :: "agent \<Rightarrow> entry_write \<Rightarrow> rstr \<Rightarrow> block list \<Rightarrow> entry" where
  "assistant_blocks a w model content = EAssistant (new_head a w) model content"

definition session_append :: "(json \<Rightarrow> rstr) \<Rightarrow> entry_write \<Rightarrow> entry \<Rightarrow> agent \<Rightarrow> bool \<times> agent" where
  "session_append ser w e a =
     (let line = ser (entry_json e)
      in case ew_outcome w of
           Written \<Rightarrow> (True, a\<lparr>ag_lines := ag_lines a @ [line], ag_last := Some (entry_uuid e)\<rparr>)
         | WriteFailed landed \<Rightarrow> (False, if landed then a\<lparr>ag_lines := ag_lines a @ [line]\<rparr> else a))"

definition remember_message :: "rstr \<Rightarrow> api_content \<Rightarrow> agent \<Rightarrow> agent" where
  "remember_message role content a = a\<lparr>ag_history := ag_history a @ [\<lparr>am_role = role, am_content = content\<rparr>]\<rparr>"

section \<open>Resuming a session\<close>

definition noise_markers :: "rstr list" where
  "noise_markers = map lit [''<local-command-caveat>'', ''<local-command-stdout>'', ''<command-name>'', ''<command-message>'', ''<command-args>'']"

definition is_local_command_noise :: "rstr \<Rightarrow> bool" where
  "is_local_command_noise text = list_ex (starts_with (trim_start text)) noise_markers"

text \<open>One line: nothing, or the message it stands for.\<close>

definition line_message ::
    "(rstr \<Rightarrow> json option) \<Rightarrow> (json \<Rightarrow> block list option) \<Rightarrow> rstr \<Rightarrow> api_message option" where
  "line_message dec blocks_of line =
     (if trim line = [] then None
      else case dec line of
        None \<Rightarrow> None
      | Some v \<Rightarrow>
          (case (as_str (json_get (lit ''type'') v), Option.bind (json_get (lit ''message'') v) (json_get (lit ''content''))) of
             (Some role, Some content) \<Rightarrow>
               if role = lit ''user'' then
                 (case content of
                    JStr s \<Rightarrow> if s = [] \<or> is_local_command_noise s then None
                              else Some \<lparr>am_role = lit ''user'', am_content = Plain s\<rparr>
                  | JArr items \<Rightarrow>
                      (let blocks = (case blocks_of (JArr items) of Some bs \<Rightarrow> bs | None \<Rightarrow> []);
                           blocks = filter (\<lambda>b. case b of BText t \<Rightarrow> \<not> is_local_command_noise t | _ \<Rightarrow> True) blocks
                       in if blocks = [] then None else Some \<lparr>am_role = lit ''user'', am_content = Blocks blocks\<rparr>)
                  | _ \<Rightarrow> None)
               else if role = lit ''assistant'' then
                 (let blocks = (case blocks_of content of Some bs \<Rightarrow> bs | None \<Rightarrow> [])
                  in if blocks = [] then None else Some \<lparr>am_role = lit ''assistant'', am_content = Blocks blocks\<rparr>)
               else None
           | _ \<Rightarrow> None))"

definition blocks_in :: "api_message \<Rightarrow> block list" where
  "blocks_in m = (case am_content m of Blocks bs \<Rightarrow> bs | Plain _ \<Rightarrow> [])"

definition use_ids :: "api_message \<Rightarrow> rstr set" where
  "use_ids m = set (List.map_filter (\<lambda>b. case b of BToolUse i _ _ \<Rightarrow> Some i | _ \<Rightarrow> None) (blocks_in m))"

definition answer_ids :: "api_message \<Rightarrow> rstr set" where
  "answer_ids m = set (List.map_filter (\<lambda>b. case b of BToolResult i _ _ \<Rightarrow> Some i | _ \<Rightarrow> None) (blocks_in m))"

definition asks :: "api_message \<Rightarrow> bool" where
  "asks m \<longleftrightarrow> am_role m = lit ''assistant'' \<and> use_ids m \<noteq> {}"

definition answers :: "api_message \<Rightarrow> api_message \<Rightarrow> bool" where
  "answers m next \<longleftrightarrow> am_role next = lit ''user'' \<and> use_ids m \<subseteq> answer_ids next"

text \<open>The history is cut at the first message whose calls the next one does not answer.\<close>

fun truncate_at_orphan_tool_use :: "api_message list \<Rightarrow> api_message list" where
  "truncate_at_orphan_tool_use [] = []"
| "truncate_at_orphan_tool_use (m # rest) =
     (if \<not> asks m then m # truncate_at_orphan_tool_use rest
      else case rest of
             [] \<Rightarrow> []
           | next # rest' \<Rightarrow> if answers m next then m # next # truncate_at_orphan_tool_use rest' else [])"

definition rebuild_history ::
    "(rstr \<Rightarrow> json option) \<Rightarrow> (json \<Rightarrow> block list option) \<Rightarrow> rstr list option \<Rightarrow> api_message list" where
  "rebuild_history dec blocks_of file =
     (case file of
        None \<Rightarrow> []
      | Some lines \<Rightarrow> truncate_at_orphan_tool_use (List.map_filter (line_message dec blocks_of) lines))"

section \<open>The loop\<close>

datatype agent_error = RelayFailed rstr | ApiFailed rstr | HttpFailed rstr | TranscriptFailed | TooManyRounds nat | Cancelled

record model_reply =
  rp_content :: "block list"
  rp_model :: rstr
  rp_stop :: "rstr option"
  rp_input_tokens :: nat
  rp_output_tokens :: nat

text \<open>The environment of a turn, by round: a request that was cancelled answers \<open>Cancelled\<close>.\<close>

record turn_env =
  te_prompt_write :: entry_write
  te_cancelled :: "nat \<Rightarrow> bool"
  te_reply :: "nat \<Rightarrow> agent_error + model_reply"
  te_reply_write :: "nat \<Rightarrow> entry_write"
  te_gate :: "nat \<Rightarrow> gate"
  te_tools :: "nat \<Rightarrow> round_env"
  te_results_write :: "nat \<Rightarrow> entry_write"
  te_max_rounds :: "rstr option"
  te_max_continuations :: "rstr option"
  te_repeat_rounds :: "rstr option"

definition env_limit :: "nat \<Rightarrow> rstr option \<Rightarrow> nat" where
  "env_limit fallback raw = (case Option.bind raw (parse_uint (2 ^ 32 - 1)) of Some n \<Rightarrow> n | None \<Rightarrow> fallback)"

definition max_output_tokens :: nat where
  "max_output_tokens = 65536"

definition continuation_cue :: rstr where
  "continuation_cue =
     lit ''Your previous message was cut off at the output-token limit, not by you finishing. Continue from exactly where it stopped, mid-sentence if that is where the cut fell '' @ [8212]
     @ lit '' repeat nothing you already wrote, do not restate the question, do not start over, and do not apologise. If a tool call was cut in half, make that call again from the start with the full arguments.''"

definition yellow :: "rstr \<Rightarrow> rstr" where
  "yellow s = [10, 10, 27] @ lit ''[33m'' @ s @ [27] @ lit ''[0m''"

definition cut_off_notice :: "nat \<Rightarrow> rstr" where
  "cut_off_notice max_continuations =
     yellow (lit ''[reply still cut off at the '' @ show_nat max_output_tokens @ lit ''-token output limit after ''
       @ show_nat max_continuations @ lit '' automatic continuations '' @ [8212] @ lit '' it may end mid-sentence]'')"

definition cap_notice :: "nat \<Rightarrow> rstr" where
  "cap_notice max_rounds =
     yellow (lit ''[tool loop hit the '' @ show_nat max_rounds @ lit ''-round cap '' @ [8212]
       @ lit '' response may be incomplete; raise CATBUS_MAX_ROUNDS to allow more]'')"

record loop_state =
  lp_final :: rstr
  lp_reasoning :: rstr
  lp_mid_sentence :: bool
  lp_continuations :: nat
  lp_guard :: progress

datatype turn_result = TurnDone rstr rstr | TurnFailed agent_error

text \<open>Reading a reply: the visible text, the reasoning and the calls.\<close>

definition read_block :: "bool \<Rightarrow> block \<Rightarrow> rstr \<times> rstr \<times> tool_use list \<Rightarrow> rstr \<times> rstr \<times> tool_use list" where
  "read_block mid b = (\<lambda>(final, reasoning, uses).
     case b of
       BText t \<Rightarrow> ((if final \<noteq> [] \<and> \<not> mid then final @ [10] else final) @ t, reasoning, uses)
     | BToolUse i name input \<Rightarrow> (final, reasoning, uses @ [(i, name, input)])
     | BThinking thinking _ \<Rightarrow> (final, (if reasoning \<noteq> [] then reasoning @ [10] else reasoning) @ thinking, uses)
     | BToolResult _ _ _ \<Rightarrow> (final, reasoning, uses))"

definition read_reply :: "loop_state \<Rightarrow> block list \<Rightarrow> rstr \<times> rstr \<times> tool_use list" where
  "read_reply lp content = fold (read_block (lp_mid_sentence lp)) content (lp_final lp, lp_reasoning lp, [])"

definition result_text :: "block \<Rightarrow> rstr option" where
  "result_text b = (case b of BToolResult _ content _ \<Rightarrow> Some content | _ \<Rightarrow> None)"

definition finish :: "(rstr \<Rightarrow> rstr option) \<Rightarrow> rstr \<Rightarrow> rstr \<Rightarrow> turn_result" where
  "finish vte final reasoning = TurnDone (strip vte final) (strip vte reasoning)"

text \<open>A reply without calls ends the turn, unless it was cut off and may be continued.\<close>

definition end_of_reply ::
    "(rstr \<Rightarrow> rstr option) \<Rightarrow> nat \<Rightarrow> rstr option \<Rightarrow> loop_state \<Rightarrow> agent \<Rightarrow> (turn_result + loop_state) \<times> agent" where
  "end_of_reply vte max_continuations stop_reason lp a =
     (if stop_reason = Some (lit ''max_tokens'') then
        if lp_continuations lp < max_continuations
        then (Inr (lp\<lparr>lp_continuations := lp_continuations lp + 1, lp_mid_sentence := True\<rparr>),
              remember_message (lit ''user'') (Plain continuation_cue) a)
        else (Inl (finish vte (lp_final lp @ cut_off_notice max_continuations) (lp_reasoning lp)), a)
      else (Inl (finish vte (lp_final lp) (lp_reasoning lp)), a))"

text \<open>A reply with calls: the guard, the calls, the guard again, and both messages of the round.\<close>

definition tool_round_step ::
    "(json \<Rightarrow> rstr) \<Rightarrow> (rstr \<Rightarrow> rstr option) \<Rightarrow> tool_set \<Rightarrow> turn_env \<Rightarrow> nat \<Rightarrow> block list \<Rightarrow> tool_use list \<Rightarrow> loop_state \<Rightarrow> agent \<Rightarrow>
     (turn_result + loop_state) \<times> agent" where
  "tool_round_step ser vte ts env k content uses lp a =
     (let (stop, guard) = before (\<lambda>s. ser (JStr s)) (map snd uses) (lp_guard lp)
      in case fst (run_tools ts (te_gate env k) (map_option stop_refusal stop) (te_tools env k) 0 uses) of
           None \<Rightarrow> (Inl (TurnFailed Cancelled), a)
         | Some results \<Rightarrow>
             (let (stop', guard') = (case stop of
                                       Some s \<Rightarrow> (Some s, guard)
                                     | None \<Rightarrow> after (List.map_filter result_text results) guard);
                  a1 = remember_message (lit ''assistant'') (Blocks content) a;
                  (ok, a2) = session_append ser (te_results_write env k) (tool_results a1 (te_results_write env k) results) a1
              in if \<not> ok then (Inl (TurnFailed TranscriptFailed), a2)
                 else (let a3 = remember_message (lit ''user'') (Blocks results) a2
                       in case stop' of
                            Some s \<Rightarrow> (Inl (finish vte (lp_final lp @ stop_notice s) (lp_reasoning lp)), a3)
                          | None \<Rightarrow> (Inr (lp\<lparr>lp_mid_sentence := False, lp_guard := guard'\<rparr>), a3))))"

definition round_step ::
    "(json \<Rightarrow> rstr) \<Rightarrow> (rstr \<Rightarrow> rstr option) \<Rightarrow> tool_set \<Rightarrow> turn_env \<Rightarrow> nat \<Rightarrow> loop_state \<Rightarrow> agent \<Rightarrow>
     (turn_result + loop_state) \<times> agent" where
  "round_step ser vte ts env k lp a =
     (if te_cancelled env k then (Inl (TurnFailed Cancelled), a)
      else case te_reply env k of
             Inl e \<Rightarrow> (Inl (TurnFailed e), a)
           | Inr resp \<Rightarrow>
               (let a1 = a\<lparr>ag_tokens_in := (ag_tokens_in a + rp_input_tokens resp) mod 2 ^ 64,
                           ag_tokens_out := (ag_tokens_out a + rp_output_tokens resp) mod 2 ^ 64\<rparr>;
                    (ok, a2) = session_append ser (te_reply_write env k)
                      (assistant_blocks a1 (te_reply_write env k) (rp_model resp) (plain_content vte (rp_content resp))) a1
                in if \<not> ok then (Inl (TurnFailed TranscriptFailed), a2)
                   else (let a3 = a2\<lparr>ag_served := Some (rp_model resp)\<rparr>;
                             (final, reasoning, uses) = read_reply lp (rp_content resp);
                             lp = lp\<lparr>lp_final := final, lp_reasoning := reasoning\<rparr>
                         in if uses = []
                            then end_of_reply vte (env_limit 8 (te_max_continuations env)) (rp_stop resp) lp
                                   (remember_message (lit ''assistant'') (Blocks (rp_content resp)) a3)
                            else tool_round_step ser vte ts env k (rp_content resp) uses lp a3)))"

fun turn_loop ::
    "(json \<Rightarrow> rstr) \<Rightarrow> (rstr \<Rightarrow> rstr option) \<Rightarrow> tool_set \<Rightarrow> turn_env \<Rightarrow> nat \<Rightarrow> nat \<Rightarrow> loop_state \<Rightarrow> agent \<Rightarrow> turn_result \<times> agent" where
  "turn_loop ser vte ts env 0 k lp a =
     (if lp_final lp = [] then (TurnFailed (TooManyRounds k), a)
      else (finish vte (lp_final lp @ cap_notice k) (lp_reasoning lp), a))"
| "turn_loop ser vte ts env (Suc n) k lp a =
     (case round_step ser vte ts env k lp a of
        (Inl r, a') \<Rightarrow> (r, a')
      | (Inr lp', a') \<Rightarrow> turn_loop ser vte ts env n (k + 1) lp' a')"

definition run_user_prompt ::
    "(json \<Rightarrow> rstr) \<Rightarrow> (rstr \<Rightarrow> rstr option) \<Rightarrow> tool_set \<Rightarrow> turn_env \<Rightarrow> rstr \<Rightarrow> agent \<Rightarrow> turn_result \<times> agent" where
  "run_user_prompt ser vte ts env text a =
     (let (ok, a1) = session_append ser (te_prompt_write env) (user_text a (te_prompt_write env) text) a
      in if \<not> ok then (TurnFailed TranscriptFailed, a1)
         else turn_loop ser vte ts env (env_limit 200 (te_max_rounds env)) 0
                \<lparr>lp_final = [], lp_reasoning = [], lp_mid_sentence = False, lp_continuations = 0,
                  lp_guard = progress_from_env (te_repeat_rounds env)\<rparr>
                (remember_message (lit ''user'') (Plain text) a1))"

section \<open>Histories the upstream accepts\<close>

text \<open>Every message with calls is followed by one that answers them all.\<close>

definition paired :: "api_message list \<Rightarrow> bool" where
  "paired h \<longleftrightarrow> (\<forall>k < length h. asks (h ! k) \<longrightarrow> Suc k < length h \<and> answers (h ! k) (h ! Suc k))"

lemma paired_Nil [simp]: "paired []"
  by (simp add: paired_def)

lemma answers_user: "answers m n \<Longrightarrow> \<not> asks n"
  by (auto simp: answers_def asks_def lit_def)

lemma paired_Cons:
  "paired (m # rest) \<longleftrightarrow> (asks m \<longrightarrow> rest \<noteq> [] \<and> answers m (hd rest)) \<and> paired rest"
  by (cases rest) (auto simp: paired_def all_conj_distrib nth_Cons split: nat.splits)

lemma paired_append: "paired g \<Longrightarrow> paired h \<Longrightarrow> paired (g @ h)"
  by (induction g) (auto simp: paired_Cons hd_append)

lemma paired_quiet: "\<not> asks m \<Longrightarrow> paired [m]"
  by (simp add: paired_Cons)

lemma paired_round: "answers m n \<Longrightarrow> paired [m, n]"
  using answers_user by (auto simp: paired_Cons)

lemma truncate_of_paired: "paired h \<Longrightarrow> truncate_at_orphan_tool_use h = h"
  by (induction h rule: truncate_at_orphan_tool_use.induct) (auto simp: paired_Cons split: list.splits)

lemma paired_truncate: "paired (truncate_at_orphan_tool_use h)"
  using answers_user
  by (induction h rule: truncate_at_orphan_tool_use.induct) (auto simp: paired_Cons split: list.splits)

lemma prefix_truncate: "prefix (truncate_at_orphan_tool_use h) h"
  by (induction h rule: truncate_at_orphan_tool_use.induct) (auto split: list.splits)

lemma truncate_longest: "prefix p h \<Longrightarrow> paired p \<Longrightarrow> prefix p (truncate_at_orphan_tool_use h)"
proof (induction h arbitrary: p rule: truncate_at_orphan_tool_use.induct)
  case (2 m rest)
  then show ?case by (cases p; cases rest; cases "tl p") (auto simp: paired_Cons)
qed simp

lemma truncate_orphan:
  assumes "asks m" and "L = [] \<or> \<not> answers m (hd L)"
  shows "truncate_at_orphan_tool_use (ms @ m # L) = truncate_at_orphan_tool_use ms"
proof (induction ms rule: truncate_at_orphan_tool_use.induct)
  case 1
  then show ?case using assms by (cases L) auto
next
  case (2 x rest)
  have "\<not> answers x m" using assms(1) answers_user by blast
  then show ?case using 2 by (cases rest) auto
qed

section \<open>What a turn does to the history and the transcript\<close>

lemma append_keeps [simp]:
  "ag_history (snd (session_append ser w e a)) = ag_history a"
  by (simp add: session_append_def Let_def split: write_outcome.splits)

lemma append_lines:
  "\<exists>ls. ag_lines (snd (session_append ser w e a)) = ag_lines a @ ls \<and> (ls = [] \<or> ls = [ser (entry_json e)])"
  by (auto simp: session_append_def Let_def split: write_outcome.splits)

lemma remember_sel [simp]:
  "ag_history (remember_message r c a) = ag_history a @ [\<lparr>am_role = r, am_content = c\<rparr>]"
  "ag_lines (remember_message r c a) = ag_lines a"
  by (simp_all add: remember_message_def)

lemma read_blocks_uses:
  "snd (snd (fold (read_block mid) content s)) =
     snd (snd s) @ List.map_filter (\<lambda>b. case b of BToolUse i name input \<Rightarrow> Some (i, name, input) | _ \<Rightarrow> None) content"
proof (induction content arbitrary: s)
  case (Cons b content)
  then show ?case by (cases s; cases b) (simp_all add: read_block_def List.map_filter_simps)
qed (simp add: List.map_filter_simps)

definition calls_in :: "block list \<Rightarrow> tool_use list" where
  "calls_in content = List.map_filter (\<lambda>b. case b of BToolUse i name input \<Rightarrow> Some (i, name, input) | _ \<Rightarrow> None) content"

lemma read_reply_uses: "snd (snd (read_reply lp content)) = calls_in content"
  by (simp add: read_reply_def read_blocks_uses calls_in_def)

lemma ids_of_calls: "List.map_filter (\<lambda>b. case b of BToolUse i _ _ \<Rightarrow> Some i | _ \<Rightarrow> None) content = map fst (calls_in content)"
  by (induction content) (auto simp: calls_in_def List.map_filter_simps split: block.splits)

lemma use_ids_calls: "use_ids \<lparr>am_role = r, am_content = Blocks content\<rparr> = fst ` set (calls_in content)"
  by (simp add: use_ids_def blocks_in_def ids_of_calls)

lemma answer_ids_results: "answer_ids \<lparr>am_role = r, am_content = Blocks results\<rparr> = set (result_ids results)"
  by (simp add: answer_ids_def blocks_in_def result_ids_def)

lemma plain_not_asking [simp]: "\<not> asks \<lparr>am_role = r, am_content = Plain t\<rparr>"
  by (simp add: asks_def use_ids_def blocks_in_def List.map_filter_simps)

lemma round_answered:
  assumes "fst (run_tools ts g stop env 0 (calls_in content)) = Some results"
  shows "answers \<lparr>am_role = lit ''assistant'', am_content = Blocks content\<rparr> \<lparr>am_role = lit ''user'', am_content = Blocks results\<rparr>"
  using results_in_order [OF assms] by (simp add: answers_def use_ids_calls answer_ids_results flip: set_map)

text \<open>The agent after a round, without the result of the turn.\<close>

definition after_results :: "(json \<Rightarrow> rstr) \<Rightarrow> turn_env \<Rightarrow> nat \<Rightarrow> block list \<Rightarrow> block list option \<Rightarrow> agent \<Rightarrow> agent" where
  "after_results ser env k content results a =
     (case results of
        None \<Rightarrow> a
      | Some bs \<Rightarrow>
          (let a1 = remember_message (lit ''assistant'') (Blocks content) a;
               s = session_append ser (te_results_write env k) (tool_results a1 (te_results_write env k) bs) a1
           in if fst s then remember_message (lit ''user'') (Blocks bs) (snd s) else snd s))"

definition round_results :: "(json \<Rightarrow> rstr) \<Rightarrow> tool_set \<Rightarrow> turn_env \<Rightarrow> nat \<Rightarrow> tool_use list \<Rightarrow> progress \<Rightarrow> block list option" where
  "round_results ser ts env k uses guard =
     fst (run_tools ts (te_gate env k) (map_option stop_refusal (fst (before (\<lambda>s. ser (JStr s)) (map snd uses) guard)))
            (te_tools env k) 0 uses)"

lemma tool_round_agent:
  "snd (tool_round_step ser vte ts env k content uses lp a) =
     after_results ser env k content (round_results ser ts env k uses (lp_guard lp)) a"
  by (simp add: tool_round_step_def after_results_def round_results_def Let_def case_prod_unfold split: option.splits)

definition replied :: "(json \<Rightarrow> rstr) \<Rightarrow> (rstr \<Rightarrow> rstr option) \<Rightarrow> turn_env \<Rightarrow> nat \<Rightarrow> model_reply \<Rightarrow> agent \<Rightarrow> bool \<times> agent" where
  "replied ser vte env k resp a =
     (let a1 = a\<lparr>ag_tokens_in := (ag_tokens_in a + rp_input_tokens resp) mod 2 ^ 64,
                 ag_tokens_out := (ag_tokens_out a + rp_output_tokens resp) mod 2 ^ 64\<rparr>
      in session_append ser (te_reply_write env k)
           (assistant_blocks a1 (te_reply_write env k) (rp_model resp) (plain_content vte (rp_content resp))) a1)"

definition read_into :: "loop_state \<Rightarrow> block list \<Rightarrow> loop_state" where
  "read_into lp content = lp\<lparr>lp_final := fst (read_reply lp content), lp_reasoning := fst (snd (read_reply lp content))\<rparr>"

lemma round_step_eq:
  "round_step ser vte ts env k lp a =
     (if te_cancelled env k then (Inl (TurnFailed Cancelled), a)
      else case te_reply env k of
             Inl e \<Rightarrow> (Inl (TurnFailed e), a)
           | Inr resp \<Rightarrow>
               (let (ok, a2) = replied ser vte env k resp a
                in if \<not> ok then (Inl (TurnFailed TranscriptFailed), a2)
                   else (let a3 = a2\<lparr>ag_served := Some (rp_model resp)\<rparr>
                         in if calls_in (rp_content resp) = []
                            then end_of_reply vte (env_limit 8 (te_max_continuations env)) (rp_stop resp) (read_into lp (rp_content resp))
                                   (remember_message (lit ''assistant'') (Blocks (rp_content resp)) a3)
                            else tool_round_step ser vte ts env k (rp_content resp) (calls_in (rp_content resp))
                                   (read_into lp (rp_content resp)) a3)))"
  by (cases "te_reply env k")
    (simp_all add: round_step_def replied_def read_into_def Let_def case_prod_unfold flip: read_reply_uses [of lp])

lemma replied_history [simp]: "ag_history (snd (replied ser vte env k resp a)) = ag_history a"
  by (simp add: replied_def Let_def)

text \<open>What one round adds to the history, when every round's results are written: nothing or whole exchanges.\<close>

definition results_written :: "turn_env \<Rightarrow> bool" where
  "results_written env \<longleftrightarrow> (\<forall>k. ew_outcome (te_results_write env k) = Written)"

lemma append_written: "ew_outcome w = Written \<Longrightarrow> fst (session_append ser w e a)"
  by (simp add: session_append_def Let_def)

lemma end_of_reply_history:
  "\<exists>ms. ag_history (snd (end_of_reply vte n stop lp a)) = ag_history a @ ms \<and> paired ms"
  by (auto simp: end_of_reply_def intro: paired_quiet)

lemma after_results_history:
  assumes "results_written env" and "fst (run_tools ts g stop e 0 (calls_in content)) = results"
  shows "\<exists>ms. ag_history (after_results ser env k content results a) = ag_history a @ ms \<and> paired ms"
proof (cases results)
  case (Some bs)
  then have "paired [\<lparr>am_role = lit ''assistant'', am_content = Blocks content\<rparr>, \<lparr>am_role = lit ''user'', am_content = Blocks bs\<rparr>]"
    using assms(2) by (intro paired_round round_answered) simp
  then show ?thesis using Some assms(1) append_written by (auto simp: after_results_def results_written_def Let_def)
qed (simp add: after_results_def exI [of _ "[]"])

lemma round_history:
  assumes "results_written env"
  shows "\<exists>ms. ag_history (snd (round_step ser vte ts env k lp a)) = ag_history a @ ms \<and> paired ms"
proof (cases "te_cancelled env k \<or> (\<exists>e. te_reply env k = Inl e)")
  case True
  then show ?thesis by (auto simp: round_step_eq exI [of _ "[]"])
next
  case False
  then obtain resp where r: "te_reply env k = Inr resp" "\<not> te_cancelled env k" by (cases "te_reply env k") auto
  obtain ok a2 where a2: "replied ser vte env k resp a = (ok, a2)" by fastforce
  then have h: "ag_history a2 = ag_history a" by (metis replied_history snd_conv)
  show ?thesis
  proof (cases "ok \<and> calls_in (rp_content resp) = []")
    case True
    have q: "paired [\<lparr>am_role = lit ''assistant'', am_content = Blocks (rp_content resp)\<rparr>]"
      using True by (intro paired_quiet) (simp add: asks_def use_ids_calls)
    show ?thesis using True r a2 h q
        end_of_reply_history [of vte "env_limit 8 (te_max_continuations env)" "rp_stop resp" "read_into lp (rp_content resp)"
          "remember_message (lit ''assistant'') (Blocks (rp_content resp)) (a2\<lparr>ag_served := Some (rp_model resp)\<rparr>)"]
      by (auto simp: round_step_eq dest: paired_append)
  next
    case False
    then show ?thesis using r a2 h
        after_results_history [OF assms refl, where content = "rp_content resp" and a = "a2\<lparr>ag_served := Some (rp_model resp)\<rparr>"]
      by (cases ok) (simp_all add: round_step_eq tool_round_agent round_results_def exI [of _ "[]"])
  qed
qed

lemma loop_history:
  assumes "results_written env"
  shows "\<exists>ms. ag_history (snd (turn_loop ser vte ts env n k lp a)) = ag_history a @ ms \<and> paired ms"
proof (induction n arbitrary: k lp a)
  case 0
  then show ?case by (simp add: exI [of _ "[]"])
next
  case (Suc n)
  obtain r a' where s: "round_step ser vte ts env k lp a = (r, a')" by fastforce
  obtain ms where ms: "ag_history a' = ag_history a @ ms" "paired ms" using round_history [OF assms] s by (metis snd_conv)
  show ?case
  proof (cases r)
    case (Inr lp')
    obtain ms' where "ag_history (snd (turn_loop ser vte ts env n (k + 1) lp' a')) = ag_history a' @ ms'" "paired ms'"
      using Suc.IH by blast
    then show ?thesis using Inr s ms by (auto intro: paired_append)
  qed (use s ms in auto)
qed

definition prompted :: "(json \<Rightarrow> rstr) \<Rightarrow> turn_env \<Rightarrow> rstr \<Rightarrow> agent \<Rightarrow> bool \<times> agent" where
  "prompted ser env text a = session_append ser (te_prompt_write env) (user_text a (te_prompt_write env) text) a"

definition start_loop :: "turn_env \<Rightarrow> loop_state" where
  "start_loop env =
     \<lparr>lp_final = [], lp_reasoning = [], lp_mid_sentence = False, lp_continuations = 0,
      lp_guard = progress_from_env (te_repeat_rounds env)\<rparr>"

lemma run_user_prompt_eq:
  "run_user_prompt ser vte ts env text a =
     (let (ok, a1) = prompted ser env text a
      in if \<not> ok then (TurnFailed TranscriptFailed, a1)
         else turn_loop ser vte ts env (env_limit 200 (te_max_rounds env)) 0 (start_loop env)
                (remember_message (lit ''user'') (Plain text) a1))"
  by (simp add: run_user_prompt_def prompted_def start_loop_def case_prod_unfold Let_def)

lemma prompted_history: "prompted ser env text a = (ok, a1) \<Longrightarrow> ag_history a1 = ag_history a"
  by (metis append_keeps prompted_def snd_conv)

lemma prompt_history:
  assumes "results_written env"
  shows "\<exists>ms. ag_history (snd (run_user_prompt ser vte ts env text a)) = ag_history a @ ms \<and> paired ms"
proof -
  obtain ok a1 where a1: "prompted ser env text a = (ok, a1)" by fastforce
  note h = prompted_history [OF a1]
  show ?thesis
  proof (cases ok)
    case True
    obtain ms where "ag_history (snd (run_user_prompt ser vte ts env text a)) =
        ag_history (remember_message (lit ''user'') (Plain text) a1) @ ms" "paired ms"
      using loop_history [OF assms, of ser vte ts "env_limit 200 (te_max_rounds env)" 0 "start_loop env"
          "remember_message (lit ''user'') (Plain text) a1"] a1 True by (auto simp: run_user_prompt_eq)
    then show ?thesis using h by (auto simp: paired_Cons)
  qed (use a1 h in \<open>simp add: run_user_prompt_eq exI [of _ "[]"]\<close>)
qed

text \<open>A conversation: prompts, each with its environment.\<close>

fun conversation ::
    "(json \<Rightarrow> rstr) \<Rightarrow> (rstr \<Rightarrow> rstr option) \<Rightarrow> tool_set \<Rightarrow> (turn_env \<times> rstr) list \<Rightarrow> agent \<Rightarrow> agent" where
  "conversation ser vte ts [] a = a"
| "conversation ser vte ts ((env, text) # rest) a = conversation ser vte ts rest (snd (run_user_prompt ser vte ts env text a))"

lemma conversation_history:
  "\<forall>t \<in> set turns. results_written (fst t) \<Longrightarrow>
     \<exists>ms. ag_history (conversation ser vte ts turns a) = ag_history a @ ms \<and> paired ms"
proof (induction turns arbitrary: a)
  case Nil
  then show ?case by (simp add: exI [of _ "[]"])
next
  case (Cons t turns)
  obtain env p where t: "t = (env, p)" by (cases t)
  obtain ms where ms: "ag_history (snd (run_user_prompt ser vte ts env p a)) = ag_history a @ ms" "paired ms"
    using prompt_history Cons.prems t by fastforce
  obtain ms' where "ag_history (conversation ser vte ts turns (snd (run_user_prompt ser vte ts env p a))) =
      ag_history (snd (run_user_prompt ser vte ts env p a)) @ ms'" "paired ms'"
    using Cons by fastforce
  then show ?case using ms t by (auto intro: paired_append)
qed

section \<open>Calls that are never answered\<close>

text \<open>A history whose open calls are followed by nothing, or by something that does not answer them.\<close>

definition stranded :: "api_message list \<Rightarrow> bool" where
  "stranded h \<longleftrightarrow> (\<exists>g m rest. h = g @ m # rest \<and> asks m \<and> (rest = [] \<or> \<not> answers m (hd rest)))"

lemma stranded_not_paired: "stranded h \<Longrightarrow> \<not> paired h"
proof
  assume "stranded h" "paired h"
  then obtain g m rest where h: "h = g @ m # rest" "asks m" "rest = [] \<or> \<not> answers m (hd rest)" by (auto simp: stranded_def)
  from \<open>paired h\<close> have "paired (m # rest)" unfolding h(1) by (induction g) (auto simp: paired_Cons)
  then show False using h by (simp add: paired_Cons)
qed

lemma plain_no_answer: "asks m \<Longrightarrow> \<not> answers m \<lparr>am_role = r, am_content = Plain t\<rparr>"
  by (auto simp: asks_def answers_def answer_ids_def blocks_in_def List.map_filter_simps)

lemma stranded_append: "stranded h \<Longrightarrow> g = [] \<or> (\<exists>r t. hd g = \<lparr>am_role = r, am_content = Plain t\<rparr>) \<Longrightarrow> stranded (h @ g)"
  unfolding stranded_def using plain_no_answer by (smt (verit, ccfv_threshold) append.assoc append_Cons append_Nil hd_append2 self_append_conv)

text \<open>Whatever the writes do, a turn adds to the history, and what it adds starts with the prompt.\<close>

lemma after_results_grows: "prefix (ag_history a) (ag_history (after_results ser env k content results a))"
  by (auto simp: after_results_def Let_def split: option.splits)

lemma round_grows: "prefix (ag_history a) (ag_history (snd (round_step ser vte ts env k lp a)))"
proof -
  have "ag_history (snd (replied ser vte env k resp a)) = ag_history a" for resp by simp
  then show ?thesis
    using after_results_grows [of "(snd (replied ser vte env k resp a))\<lparr>ag_served := Some (rp_model resp)\<rparr>" for resp]
    by (auto simp: round_step_eq Let_def case_prod_unfold tool_round_agent end_of_reply_def split: sum.splits)
qed

lemma loop_grows: "prefix (ag_history a) (ag_history (snd (turn_loop ser vte ts env n k lp a)))"
proof (induction n arbitrary: k lp a)
  case (Suc n)
  then show ?case using round_grows [of a ser vte ts env k lp]
    by (auto split: prod.splits sum.splits intro: prefix_order.trans)
qed simp

lemma prompt_grows:
  "\<exists>ms. ag_history (snd (run_user_prompt ser vte ts env text a)) = ag_history a @ ms \<and>
     (ms = [] \<or> (\<exists>r t. hd ms = \<lparr>am_role = r, am_content = Plain t\<rparr>))"
proof -
  obtain ok a1 where a1: "prompted ser env text a = (ok, a1)" by fastforce
  note h = prompted_history [OF a1]
  show ?thesis
  proof (cases ok)
    case True
    obtain ms where "ag_history (snd (run_user_prompt ser vte ts env text a)) =
        ag_history (remember_message (lit ''user'') (Plain text) a1) @ ms"
      using loop_grows [of "remember_message (lit ''user'') (Plain text) a1" ser vte ts env
          "env_limit 200 (te_max_rounds env)" 0 "start_loop env"] a1 True by (auto simp: run_user_prompt_eq prefix_def)
    then show ?thesis using h by auto
  qed (use a1 h in \<open>simp add: run_user_prompt_eq\<close>)
qed

lemma conversation_stranded: "stranded (ag_history a) \<Longrightarrow> stranded (ag_history (conversation ser vte ts turns a))"
proof (induction turns arbitrary: a)
  case (Cons t turns)
  obtain env p where t: "t = (env, p)" by (cases t)
  have "stranded (ag_history (snd (run_user_prompt ser vte ts env p a)))"
    using prompt_grows [of ser vte ts env p a] stranded_append [OF Cons.prems] Cons.prems by auto
  then show ?case using Cons.IH t by simp
qed simp

section \<open>The transcript\<close>

text \<open>What is relied on of \<^verbatim>\<open>serde_json\<close>: it reads back the entries and blocks it wrote, and a line is not blank.\<close>

definition transcript_codec :: "(json \<Rightarrow> rstr) \<Rightarrow> (rstr \<Rightarrow> json option) \<Rightarrow> (json \<Rightarrow> block list option) \<Rightarrow> bool" where
  "transcript_codec ser dec blocks_of \<longleftrightarrow>
     (\<forall>e. dec (ser (entry_json e)) = Some (entry_json e) \<and> trim (ser (entry_json e)) \<noteq> []) \<and>
     (\<forall>bs. blocks_of (JArr (map block_json bs)) = Some bs)"

lemma head_fields:
  "json_get (lit ''type'') (JObj (head_json kind h @ [(lit ''message'', m)])) = Some (JStr kind)"
  "json_get (lit ''message'') (JObj (head_json kind h @ [(lit ''message'', m)])) = Some m"
  by (simp_all add: json_get_def head_json_def lit_def split: option.splits)

lemma line_message_written:
  assumes "transcript_codec ser dec blocks_of"
  shows "line_message dec blocks_of (ser (entry_json (EUserPlain h text))) =
      (if text = [] \<or> is_local_command_noise text then None else Some \<lparr>am_role = lit ''user'', am_content = Plain text\<rparr>)"
    and "(\<And>b. b \<in> set bs \<Longrightarrow> result_text b \<noteq> None) \<Longrightarrow> line_message dec blocks_of (ser (entry_json (EUserBlocks h bs))) =
      (if bs = [] then None else Some \<lparr>am_role = lit ''user'', am_content = Blocks bs\<rparr>)"
    and "line_message dec blocks_of (ser (entry_json (EAssistant h model bs))) =
      (if bs = [] then None else Some \<lparr>am_role = lit ''assistant'', am_content = Blocks bs\<rparr>)"
proof -
  have c: "dec (ser (entry_json e)) = Some (entry_json e)" "(trim (ser (entry_json e)) = []) = False"
    "blocks_of (JArr (map block_json bs)) = Some bs" for e bs
    using assms by (simp_all add: transcript_codec_def)
  have g: "json_get (lit ''content'') (JObj [(lit ''role'', r), (lit ''content'', x)]) = Some x"
    "json_get (lit ''content'') (JObj [(lit ''role'', r), (lit ''model'', y), (lit ''content'', x)]) = Some x" for r x y
    by (simp_all add: json_get_def lit_def)
  have ne: "lit ''assistant'' \<noteq> lit ''user''" by (simp add: lit_def)
  show "line_message dec blocks_of (ser (entry_json (EUserPlain h text))) =
      (if text = [] \<or> is_local_command_noise text then None else Some \<lparr>am_role = lit ''user'', am_content = Plain text\<rparr>)"
    unfolding line_message_def c(1,2) by (simp add: entry_json_def head_fields g as_str_def)
  show "line_message dec blocks_of (ser (entry_json (EAssistant h model bs))) =
      (if bs = [] then None else Some \<lparr>am_role = lit ''assistant'', am_content = Blocks bs\<rparr>)"
    unfolding line_message_def c(1,2) by (simp add: c(3) entry_json_def head_fields g as_str_def ne)
  assume r: "\<And>b. b \<in> set bs \<Longrightarrow> result_text b \<noteq> None"
  have "filter (\<lambda>b. case b of BText t \<Rightarrow> \<not> is_local_command_noise t | _ \<Rightarrow> True) bs = bs"
    using r by (fastforce simp: filter_id_conv result_text_def split: block.splits)
  then show "line_message dec blocks_of (ser (entry_json (EUserBlocks h bs))) =
      (if bs = [] then None else Some \<lparr>am_role = lit ''user'', am_content = Blocks bs\<rparr>)"
    unfolding line_message_def c(1,2) by (simp add: c(3) entry_json_def head_fields g as_str_def)
qed

text \<open>The lines of a turn start with the prompt's.\<close>

lemma append_prefix: "prefix (ag_lines a) (ag_lines (snd (session_append ser w e a)))"
  using append_lines [of ser w e a] by auto

lemma after_results_lines: "prefix (ag_lines a) (ag_lines (after_results ser env k content results a))"
  by (auto simp: after_results_def Let_def split: option.splits intro: prefix_order.trans [OF _ append_prefix])

lemma replied_lines: "prefix (ag_lines a) (ag_lines (snd (replied ser vte env k resp a)))"
  by (auto simp: replied_def Let_def intro: prefix_order.trans [OF _ append_prefix])

lemma round_lines: "prefix (ag_lines a) (ag_lines (snd (round_step ser vte ts env k lp a)))"
proof (cases "te_reply env k")
  case (Inr resp)
  obtain ok a2 where a2: "replied ser vte env k resp a = (ok, a2)" by fastforce
  have p: "prefix (ag_lines a) (ag_lines a2)" using replied_lines [of a ser vte env k resp] a2 by simp
  then have "prefix (ag_lines a) (ag_lines (after_results ser env k c r (a2\<lparr>ag_served := s\<rparr>)))" for c r s
    using after_results_lines [of "a2\<lparr>ag_served := s\<rparr>"] prefix_order.trans by fastforce
  then show ?thesis using Inr a2 p by (auto simp: round_step_eq tool_round_agent end_of_reply_def Let_def)
qed (auto simp: round_step_eq)

lemma loop_lines: "prefix (ag_lines a) (ag_lines (snd (turn_loop ser vte ts env n k lp a)))"
proof (induction n arbitrary: k lp a)
  case (Suc n)
  then show ?case using round_lines [of a ser vte ts env k lp]
    by (auto split: prod.splits sum.splits intro: prefix_order.trans)
qed simp

lemma prompt_lines:
  "\<exists>ls. ag_lines (snd (run_user_prompt ser vte ts env text a)) = ag_lines a @ ls \<and>
     (ls = [] \<or> (\<exists>h. hd ls = ser (entry_json (EUserPlain h text))))"
proof -
  obtain ok a1 where a1: "prompted ser env text a = (ok, a1)" by fastforce
  obtain ls where ls: "ag_lines a1 = ag_lines a @ ls" "ls = [] \<or> (\<exists>h. ls = [ser (entry_json (EUserPlain h text))])"
    using append_lines [of ser "te_prompt_write env" "user_text a (te_prompt_write env) text" a] a1
    by (auto simp: prompted_def user_text_def)
  have landed: "ok \<Longrightarrow> ls \<noteq> []"
    using a1 ls(1) by (auto simp: prompted_def session_append_def Let_def split: write_outcome.splits)
  show ?thesis
  proof (cases ok)
    case True
    obtain ms where "ag_lines (snd (run_user_prompt ser vte ts env text a)) = ag_lines a1 @ ms"
      using loop_lines [of "remember_message (lit ''user'') (Plain text) a1" ser vte ts env
          "env_limit 200 (te_max_rounds env)" 0 "start_loop env"] a1 True by (auto simp: run_user_prompt_eq prefix_def)
    then show ?thesis using ls landed True by (intro exI [of _ "ls @ ms"]) auto
  qed (use a1 ls in \<open>auto simp: run_user_prompt_eq\<close>)
qed

text \<open>Prompts that a resumed session shows again.\<close>

definition shown :: "rstr \<Rightarrow> bool" where
  "shown text \<longleftrightarrow> text \<noteq> [] \<and> \<not> is_local_command_noise text"

lemma conversation_lines:
  assumes "transcript_codec ser dec blocks_of"
  shows "\<forall>t \<in> set turns. shown (snd t) \<Longrightarrow>
    \<exists>ls. ag_lines (conversation ser vte ts turns a) = ag_lines a @ ls \<and>
      (ls = [] \<or> (\<exists>t r. line_message dec blocks_of (hd ls) = Some \<lparr>am_role = r, am_content = Plain t\<rparr>))"
proof (induction turns arbitrary: a)
  case (Cons t turns)
  obtain env p where t: "t = (env, p)" by (cases t)
  obtain ls where ls: "ag_lines (snd (run_user_prompt ser vte ts env p a)) = ag_lines a @ ls"
      "ls = [] \<or> (\<exists>h. hd ls = ser (entry_json (EUserPlain h p)))"
    using prompt_lines by blast
  obtain ls' where "ag_lines (conversation ser vte ts turns (snd (run_user_prompt ser vte ts env p a))) = ag_lines a @ ls @ ls'"
      "ls' = [] \<or> (\<exists>t r. line_message dec blocks_of (hd ls') = Some \<lparr>am_role = r, am_content = Plain t\<rparr>)"
    using Cons ls(1) by (metis append.assoc list.set_intros(2))
  moreover have "shown p" using Cons.prems t by simp
  ultimately show ?case using ls(2) t line_message_written(1) [OF assms, of _ p]
    by (intro exI [of _ "ls @ ls'"]) (auto simp: shown_def hd_append)
qed simp

section \<open>What a resumed session sees\<close>

definition plain_message :: "(rstr \<Rightarrow> rstr option) \<Rightarrow> api_message \<Rightarrow> api_message" where
  "plain_message vte m = m\<lparr>am_content :=
     (case am_content m of Blocks bs \<Rightarrow> Blocks (if am_role m = lit ''assistant'' then plain_content vte bs else bs) | c \<Rightarrow> c)\<rparr>"

lemma plain_ids:
  "List.map_filter (\<lambda>b. case b of BToolUse i _ _ \<Rightarrow> Some i | _ \<Rightarrow> None) (plain_content vte bs) =
     List.map_filter (\<lambda>b. case b of BToolUse i _ _ \<Rightarrow> Some i | _ \<Rightarrow> None) bs"
  "List.map_filter (\<lambda>b. case b of BToolResult i _ _ \<Rightarrow> Some i | _ \<Rightarrow> None) (plain_content vte bs) =
     List.map_filter (\<lambda>b. case b of BToolResult i _ _ \<Rightarrow> Some i | _ \<Rightarrow> None) bs"
  by (induction bs) (auto simp: plain_content_def plain_block_def List.map_filter_simps split: block.splits)

lemma plain_message_ids [simp]:
  "am_role (plain_message vte m) = am_role m"
  "use_ids (plain_message vte m) = use_ids m" "answer_ids (plain_message vte m) = answer_ids m"
  by (auto simp: plain_message_def use_ids_def answer_ids_def blocks_in_def plain_ids split: api_content.splits)

lemma plain_paired: "paired (map (plain_message vte) h) \<longleftrightarrow> paired h"
  by (induction h) (auto simp: paired_Cons asks_def answers_def hd_map)

text \<open>A turn in which every write succeeds, no tool is interrupted, and no reply is empty or cut off.\<close>

definition undisturbed :: "turn_env \<Rightarrow> bool" where
  "undisturbed env \<longleftrightarrow>
     ew_outcome (te_prompt_write env) = Written \<and>
     (\<forall>k. ew_outcome (te_reply_write env k) = Written \<and> ew_outcome (te_results_write env k) = Written) \<and>
     (\<forall>k j. \<not> re_cancelled (te_tools env k) j \<and> \<not> re_cancelled_during (te_tools env k) j) \<and>
     (\<forall>k r. te_reply env k = Inr r \<longrightarrow> rp_content r \<noteq> [] \<and> rp_stop r \<noteq> Some (lit ''max_tokens''))"

definition kept ::
    "(rstr \<Rightarrow> json option) \<Rightarrow> (json \<Rightarrow> block list option) \<Rightarrow> (rstr \<Rightarrow> rstr option) \<Rightarrow> agent \<Rightarrow> bool" where
  "kept dec blocks_of vte a \<longleftrightarrow>
     List.map_filter (line_message dec blocks_of) (ag_lines a) = map (plain_message vte) (ag_history a)"

lemma map_filter_append: "List.map_filter f (xs @ ys) = List.map_filter f xs @ List.map_filter f ys"
  by (simp add: List.map_filter_def)

lemma append_written_agent:
  "ew_outcome w = Written \<Longrightarrow>
     session_append ser w e a = (True, a\<lparr>ag_lines := ag_lines a @ [ser (entry_json e)], ag_last := Some (entry_uuid e)\<rparr>)"
  by (simp add: session_append_def Let_def)

lemma tools_answer:
  assumes "\<forall>j. \<not> re_cancelled e j \<and> \<not> re_cancelled_during e j"
  shows "\<exists>bs. fst (run_tools ts g stop e k us) = Some bs"
proof (induction us arbitrary: k)
  case (Cons u us)
  obtain i n x where u: "u = (i, n, x)" by (cases u)
  have "fst (run_call ts g stop e k u) \<noteq> None"
    using assms by (auto simp: u run_call_def Let_def split: option.splits prod.splits)
  then show ?case using Cons.IH [of "k + 1"] by (auto split: prod.splits option.splits)
qed simp

lemma results_only:
  "fst (run_tools ts g stop e k us) = Some bs \<Longrightarrow> b \<in> set bs \<Longrightarrow> result_text b \<noteq> None"
proof (induction us arbitrary: k bs)
  case (Cons u us)
  obtain i n x where u: "u = (i, n, x)" by (cases u)
  obtain c s where c: "run_call ts g stop e k u = (Some c, s)"
    using Cons.prems by (cases "run_call ts g stop e k u") (auto split: option.splits)
  then obtain cs where "fst (run_tools ts g stop e (k + 1) us) = Some cs" "bs = c # cs"
    using Cons.prems by (auto split: prod.splits)
  then show ?case using Cons run_call_id [of ts g stop e k i n x c s] c u by (auto simp: result_text_def)
qed simp

lemma replied_written:
  assumes "ew_outcome (te_reply_write env k) = Written"
  shows "\<exists>h. fst (replied ser vte env k resp a) \<and> ag_history (snd (replied ser vte env k resp a)) = ag_history a \<and>
    ag_lines (snd (replied ser vte env k resp a)) =
      ag_lines a @ [ser (entry_json (EAssistant h (rp_model resp) (plain_content vte (rp_content resp))))]"
  using assms by (auto simp: replied_def Let_def append_written_agent assistant_blocks_def)

lemma round_kept:
  assumes c: "transcript_codec ser dec blocks_of" and u: "undisturbed env" and "kept dec blocks_of vte a"
  shows "kept dec blocks_of vte (snd (round_step ser vte ts env k lp a))"
proof (cases "te_cancelled env k \<or> (\<exists>e. te_reply env k = Inl e)")
  case True
  then show ?thesis using assms(3) by (auto simp: round_step_eq)
next
  case False
  then obtain resp where r: "te_reply env k = Inr resp" "\<not> te_cancelled env k" by (cases "te_reply env k") auto
  have ne: "rp_content resp \<noteq> []" "rp_stop resp \<noteq> Some (lit ''max_tokens'')" using u r by (auto simp: undisturbed_def)
  obtain h a2 where a2: "replied ser vte env k resp a = (True, a2)" "ag_history a2 = ag_history a"
      "ag_lines a2 = ag_lines a @ [ser (entry_json (EAssistant h (rp_model resp) (plain_content vte (rp_content resp))))]"
    using replied_written [of env k ser vte resp a] u by (cases "replied ser vte env k resp a") (auto simp: undisturbed_def)
  have one: "line_message dec blocks_of (ser (entry_json (EAssistant h (rp_model resp) (plain_content vte (rp_content resp))))) =
      Some (plain_message vte \<lparr>am_role = lit ''assistant'', am_content = Blocks (rp_content resp)\<rparr>)"
    using line_message_written(3) [OF c] ne(1) by (simp add: plain_message_def plain_content_def)
  show ?thesis
  proof (cases "calls_in (rp_content resp) = []")
    case True
    then show ?thesis using r a2 ne one assms(3)
      by (simp add: round_step_eq end_of_reply_def kept_def map_filter_append List.map_filter_simps)
  next
    case False
    obtain bs where bs: "round_results ser ts env k (calls_in (rp_content resp)) (lp_guard (read_into lp (rp_content resp))) = Some bs"
      using tools_answer u unfolding round_results_def undisturbed_def by blast
    have "bs \<noteq> []" using results_in_order [OF bs [unfolded round_results_def]] False by auto
    moreover have "\<And>b. b \<in> set bs \<Longrightarrow> result_text b \<noteq> None" using results_only [OF bs [unfolded round_results_def]] by blast
    ultimately have two: "line_message dec blocks_of (ser (entry_json (EUserBlocks h' bs))) =
        Some (plain_message vte \<lparr>am_role = lit ''user'', am_content = Blocks bs\<rparr>)" for h'
      using line_message_written(2) [OF c] by (simp add: plain_message_def lit_def)
    have w: "ew_outcome (te_results_write env k) = Written" using u by (simp add: undisturbed_def)
    show ?thesis using r a2 False one two bs assms(3) append_written_agent [OF w]
      by (simp add: round_step_eq tool_round_agent after_results_def tool_results_def Let_def kept_def map_filter_append List.map_filter_simps)
  qed
qed

lemma loop_kept:
  assumes "transcript_codec ser dec blocks_of" and "undisturbed env"
  shows "kept dec blocks_of vte a \<Longrightarrow> kept dec blocks_of vte (snd (turn_loop ser vte ts env n k lp a))"
proof (induction n arbitrary: k lp a)
  case (Suc n)
  then show ?case using round_kept [OF assms Suc.prems, of ts k lp]
    by (auto split: prod.splits sum.splits)
qed simp

lemma prompt_kept:
  assumes "transcript_codec ser dec blocks_of" and "undisturbed env" and "shown text" and "kept dec blocks_of vte a"
  shows "kept dec blocks_of vte (snd (run_user_prompt ser vte ts env text a))"
proof -
  obtain a1 h where a1: "prompted ser env text a = (True, a1)" "ag_history a1 = ag_history a"
      "ag_lines a1 = ag_lines a @ [ser (entry_json (EUserPlain h text))]"
    using assms(2) by (auto simp: undisturbed_def prompted_def append_written_agent user_text_def)
  have "kept dec blocks_of vte (remember_message (lit ''user'') (Plain text) a1)"
    using a1(2,3) assms(3,4) line_message_written(1) [OF assms(1)]
    by (simp add: kept_def map_filter_append List.map_filter_simps shown_def plain_message_def)
  then show ?thesis using loop_kept [OF assms(1,2)] a1(1) by (simp add: run_user_prompt_eq)
qed

lemma conversation_kept:
  assumes "transcript_codec ser dec blocks_of"
  shows "\<forall>t \<in> set turns. undisturbed (fst t) \<and> shown (snd t) \<Longrightarrow> kept dec blocks_of vte a \<Longrightarrow>
    kept dec blocks_of vte (conversation ser vte ts turns a)"
proof (induction turns arbitrary: a)
  case (Cons t turns)
  then show ?case using prompt_kept [OF assms, of "fst t" "snd t" vte a ts] by (cases t) auto
qed simp

section \<open>Turns that stop among their tools\<close>

text \<open>The first reply of the turn makes calls, and it and the prompt are written.\<close>

definition calls_first :: "turn_env \<Rightarrow> model_reply \<Rightarrow> bool" where
  "calls_first env resp \<longleftrightarrow>
     0 < env_limit 200 (te_max_rounds env) \<and> \<not> te_cancelled env 0 \<and> te_reply env 0 = Inr resp \<and>
     calls_in (rp_content resp) \<noteq> [] \<and>
     ew_outcome (te_prompt_write env) = Written \<and> ew_outcome (te_reply_write env 0) = Written"

lemma cancelled_round: "j < length us \<Longrightarrow> re_cancelled e (k + j) \<Longrightarrow> fst (run_tools ts g stop e k us) = None"
proof (induction us arbitrary: k j)
  case (Cons u us)
  show ?case
  proof (cases j)
    case 0
    then have "fst (run_call ts g stop e k u) = None" using Cons.prems by (cases u) (simp add: run_call_def)
    then show ?thesis by (auto split: prod.splits)
  next
    case (Suc j')
    then have "fst (run_tools ts g stop e (k + 1) us) = None" using Cons.IH [of j' "k + 1"] Cons.prems by simp
    then show ?thesis by (auto split: prod.splits option.splits)
  qed
qed simp

lemma tool_round_stops:
  "round_results ser ts env k uses (lp_guard lp) = None \<or> ew_outcome (te_results_write env k) \<noteq> Written \<Longrightarrow>
     \<exists>r. fst (tool_round_step ser vte ts env k content uses lp a) = Inl r"
  by (auto simp: tool_round_step_def round_results_def Let_def case_prod_unfold session_append_def split: option.splits write_outcome.splits)

definition first_results :: "(json \<Rightarrow> rstr) \<Rightarrow> tool_set \<Rightarrow> turn_env \<Rightarrow> model_reply \<Rightarrow> block list option" where
  "first_results ser ts env resp =
     round_results ser ts env 0 (calls_in (rp_content resp)) (lp_guard (read_into (start_loop env) (rp_content resp)))"

lemma stopped_turn:
  assumes "calls_first env resp" and "first_results ser ts env resp = None \<or> ew_outcome (te_results_write env 0) \<noteq> Written"
  obtains h a1 b where
    "prompted ser env text a = (True, a1)"
    "ag_history b = ag_history a @ [\<lparr>am_role = lit ''user'', am_content = Plain text\<rparr>]"
    "ag_lines b = ag_lines a1 @ [ser (entry_json (EAssistant h (rp_model resp) (plain_content vte (rp_content resp))))]"
    "snd (run_user_prompt ser vte ts env text a) = after_results ser env 0 (rp_content resp) (first_results ser ts env resp) b"
proof -
  obtain a1 where a1: "prompted ser env text a = (True, a1)"
    using assms by (simp add: calls_first_def prompted_def append_written_agent)
  note h1 = prompted_history [OF a1]
  let ?b = "remember_message (lit ''user'') (Plain text) a1"
  let ?c = "(snd (replied ser vte env 0 resp ?b))\<lparr>ag_served := Some (rp_model resp)\<rparr>"
  obtain h where h: "fst (replied ser vte env 0 resp ?b)" "ag_history (snd (replied ser vte env 0 resp ?b)) = ag_history ?b"
      "ag_lines (snd (replied ser vte env 0 resp ?b)) =
        ag_lines ?b @ [ser (entry_json (EAssistant h (rp_model resp) (plain_content vte (rp_content resp))))]"
    using replied_written [of env 0 ser vte resp ?b] assms by (auto simp: calls_first_def)
  have step: "round_step ser vte ts env 0 (start_loop env) ?b =
      tool_round_step ser vte ts env 0 (rp_content resp) (calls_in (rp_content resp)) (read_into (start_loop env) (rp_content resp)) ?c"
    using assms(1) h(1) by (simp add: round_step_eq calls_first_def case_prod_unfold Let_def)
  obtain r where "fst (round_step ser vte ts env 0 (start_loop env) ?b) = Inl r"
    using tool_round_stops assms(2) unfolding step first_results_def by blast
  moreover obtain n where "env_limit 200 (te_max_rounds env) = Suc n"
    using assms(1) by (cases "env_limit 200 (te_max_rounds env)") (auto simp: calls_first_def)
  ultimately have "snd (run_user_prompt ser vte ts env text a) = snd (round_step ser vte ts env 0 (start_loop env) ?b)"
    using a1 by (auto simp: run_user_prompt_eq split: prod.splits)
  then have "snd (run_user_prompt ser vte ts env text a) = after_results ser env 0 (rp_content resp) (first_results ser ts env resp) ?c"
    by (simp add: step tool_round_agent first_results_def)
  then show ?thesis using that [OF a1, of ?c h] h h1 by simp
qed

lemma results_after_cancel:
  assumes "calls_first env resp" and "j < length (calls_in (rp_content resp))" and "re_cancelled (te_tools env 0) j"
  shows "first_results ser ts env resp = None"
  using cancelled_round [of j _ _ 0] assms(2,3) by (simp add: first_results_def round_results_def)

section \<open>A codec\<close>

text \<open>A self-delimiting encoding of values, which meets what is asked of \<^verbatim>\<open>serde_json\<close>.\<close>

fun enc_json :: "json \<Rightarrow> rstr"
  and enc_items :: "json list \<Rightarrow> rstr"
  and enc_fields :: "(rstr \<times> json) list \<Rightarrow> rstr" where
  "enc_json JNull = [0]"
| "enc_json (JBool b) = [1, if b then 1 else 0]"
| "enc_json (JNum n) = (case n of U64 k \<Rightarrow> [2, k] | OtherNumber t \<Rightarrow> 3 # length t # t)"
| "enc_json (JStr s) = 4 # length s # s"
| "enc_json (JArr js) = 5 # length js # enc_items js"
| "enc_json (JObj m) = 6 # length m # enc_fields m"
| "enc_items [] = []"
| "enc_items (j # js) = enc_json j @ enc_items js"
| "enc_fields [] = []"
| "enc_fields ((k, v) # m) = (length k # k @ enc_json v) @ enc_fields m"

primrec dec_many :: "(rstr \<Rightarrow> ('a \<times> rstr) option) \<Rightarrow> nat \<Rightarrow> rstr \<Rightarrow> ('a list \<times> rstr) option" where
  "dec_many d 0 xs = Some ([], xs)"
| "dec_many d (Suc n) xs =
     Option.bind (d xs) (\<lambda>(x, ys). map_option (\<lambda>(zs, r). (x # zs, r)) (dec_many d n ys))"

definition dec_field :: "(rstr \<Rightarrow> (json \<times> rstr) option) \<Rightarrow> rstr \<Rightarrow> ((rstr \<times> json) \<times> rstr) option" where
  "dec_field d xs = (case xs of [] \<Rightarrow> None | n # ys \<Rightarrow> map_option (\<lambda>(v, r). ((take n ys, v), r)) (d (drop n ys)))"

fun dec_json :: "nat \<Rightarrow> rstr \<Rightarrow> (json \<times> rstr) option" where
  "dec_json (Suc f) (t # xs) =
     (if t = 0 then Some (JNull, xs)
      else case xs of
             [] \<Rightarrow> None
           | n # ys \<Rightarrow>
               if t = 1 then Some (JBool (n = 1), ys)
               else if t = 2 then Some (JNum (U64 n), ys)
               else if t = 3 then Some (JNum (OtherNumber (take n ys)), drop n ys)
               else if t = 4 then Some (JStr (take n ys), drop n ys)
               else if t = 5 then map_option (\<lambda>(js, r). (JArr js, r)) (dec_many (dec_json f) n ys)
               else map_option (\<lambda>(m, r). (JObj m, r)) (dec_many (dec_field (dec_json f)) n ys))"
| "dec_json _ _ = None"

lemma dec_items: "(\<And>j r. j \<in> set js \<Longrightarrow> d (enc_json j @ r) = Some (j, r)) \<Longrightarrow>
    dec_many d (length js) (enc_items js @ r) = Some (js, r)"
  by (induction js) auto

lemma dec_fields: "(\<And>k v r. (k, v) \<in> set m \<Longrightarrow> d (enc_json v @ r) = Some (v, r)) \<Longrightarrow>
    dec_many (dec_field d) (length m) (enc_fields m @ r) = Some (m, r)"
proof (induction m)
  case (Cons kv m)
  obtain k v where kv: "kv = (k, v)" by (cases kv)
  have "dec_field d ((length k # k @ enc_json v) @ s) = Some ((k, v), s)" for s
    using Cons.prems [of k v] kv by (simp add: dec_field_def)
  note field = this
  have "enc_fields (kv # m) @ r = (length k # k @ enc_json v) @ (enc_fields m @ r)" by (simp add: kv)
  moreover have "dec_many (dec_field d) (length m) (enc_fields m @ r) = Some (m, r)" using Cons by fastforce
  ultimately show ?case unfolding kv by (simp only: list.size dec_many.simps field add_Suc_right add_0_right) simp
qed simp

lemma dec_enc: "size j < f \<Longrightarrow> dec_json f (enc_json j @ r) = Some (j, r)"
proof (induction f arbitrary: j r)
  case (Suc f)
  show ?case
  proof (cases j)
    case (JArr js)
    have "dec_many (dec_json f) (length js) (enc_items js @ r) = Some (js, r)"
    proof (rule dec_items)
      fix x s assume "x \<in> set js"
      then have "size x < size j" unfolding JArr by (induction js) auto
      then show "dec_json f (enc_json x @ s) = Some (x, s)" using Suc by simp
    qed
    then show ?thesis by (simp add: JArr)
  next
    case (JObj m)
    have "dec_many (dec_field (dec_json f)) (length m) (enc_fields m @ r) = Some (m, r)"
    proof (rule dec_fields)
      fix k v s assume "(k, v) \<in> set m"
      then have "size v < size j" unfolding JObj by (induction m) auto
      then show "dec_json f (enc_json v @ s) = Some (v, s)" using Suc by simp
    qed
    then show ?thesis by (simp add: JObj)
  qed (auto split: json_number.splits)
qed simp

definition sample_ser :: "json \<Rightarrow> rstr" where
  "sample_ser j = 65 # size j # enc_json j"

definition sample_json_dec :: "rstr \<Rightarrow> json option" where
  "sample_json_dec l = map_option fst (dec_json (Suc (l ! 1)) (drop 2 l))"

definition block_of :: "json \<Rightarrow> block option" where
  "block_of v =
     (let str = (\<lambda>k. as_str (json_get k v))
      in if str (lit ''type'') = Some (lit ''text'') then map_option BText (str (lit ''text''))
         else if str (lit ''type'') = Some (lit ''tool_use'') then
           (case (str (lit ''id''), str (lit ''name''), json_get (lit ''input'') v) of
              (Some i, Some name, Some input) \<Rightarrow> Some (BToolUse i name input) | _ \<Rightarrow> None)
         else if str (lit ''type'') = Some (lit ''tool_result'') then
           (case (str (lit ''tool_use_id''), str (lit ''content'')) of
              (Some i, Some content) \<Rightarrow> Some (BToolResult i content (json_get (lit ''is_error'') v = Some (JBool True))) | _ \<Rightarrow> None)
         else if str (lit ''type'') = Some (lit ''thinking'') then
           map_option (\<lambda>thinking. BThinking thinking (str (lit ''signature''))) (str (lit ''thinking''))
         else None)"

definition sample_blocks :: "json \<Rightarrow> block list option" where
  "sample_blocks v = (case v of JArr js \<Rightarrow> those (map block_of js) | _ \<Rightarrow> None)"

lemma block_of_json: "block_of (block_json b) = Some b"
  by (cases b) (auto simp: block_of_def block_json_def json_get_def as_str_def lit_def Let_def split: option.splits)

lemma sample_codec: "transcript_codec sample_ser sample_json_dec sample_blocks"
proof -
  have "dec_json (Suc (size j)) (enc_json j) = Some (j, [])" for j
    using dec_enc [of j "Suc (size j)" "[]"] by simp
  moreover have "those (map block_of (map block_json bs)) = Some bs" for bs
    by (induction bs) (simp_all add: block_of_json)
  moreover have "trim (65 # xs) \<noteq> []" for xs
    by (auto simp: trim_def trim_start_def trim_end_def is_whitespace_def dropWhile_eq_Nil_conv)
  ultimately show ?thesis by (simp add: transcript_codec_def sample_ser_def sample_json_dec_def sample_blocks_def)
qed

section \<open>A sample session\<close>

definition sample_write :: entry_write where
  "sample_write = \<lparr>ew_uuid = [117], ew_time = [116], ew_outcome = Written\<rparr>"

definition reading_reply :: model_reply where
  "reading_reply = \<lparr>rp_content = [BText (lit ''let me look''), BToolUse (lit ''t1'') (lit ''Read'') JNull], rp_model = lit ''m'',
     rp_stop = Some (lit ''tool_use''), rp_input_tokens = 10, rp_output_tokens = 5\<rparr>"

definition closing_reply :: model_reply where
  "closing_reply = \<lparr>rp_content = [BText (lit ''done'')], rp_model = lit ''m'',
     rp_stop = Some (lit ''end_turn''), rp_input_tokens = 12, rp_output_tokens = 3\<rparr>"

definition sample_turn :: "(nat \<Rightarrow> bool) \<Rightarrow> write_outcome \<Rightarrow> turn_env" where
  "sample_turn cancelled results =
     \<lparr>te_prompt_write = sample_write, te_cancelled = \<lambda>_. False,
      te_reply = \<lambda>k. Inr (if k = 0 then reading_reply else closing_reply), te_reply_write = \<lambda>_. sample_write,
      te_gate = \<lambda>_. OpenGate, te_tools = \<lambda>_. (calm (Scored 0))\<lparr>re_cancelled := cancelled\<rparr>,
      te_results_write = \<lambda>_. sample_write\<lparr>ew_outcome := results\<rparr>,
      te_max_rounds = None, te_max_continuations = None, te_repeat_rounds = None\<rparr>"

definition fresh_agent :: agent where
  "fresh_agent = \<lparr>ag_session = [115], ag_cwd = [47], ag_last = None, ag_lines = [], ag_history = [],
     ag_tokens_in = 0, ag_tokens_out = 0, ag_served = None\<rparr>"

lemma sample_shown: "shown (lit ''hello'')"
  by (simp add: shown_def is_local_command_noise_def noise_markers_def starts_with_def trim_start_def is_whitespace_def lit_def)

lemma sample_undisturbed: "undisturbed (sample_turn (\<lambda>_. False) Written)"
  by (simp add: undisturbed_def sample_turn_def sample_write_def calm_def reading_reply_def closing_reply_def lit_def)

lemma sample_calls: "calls_first (sample_turn cancelled results) reading_reply"
  by (simp add: calls_first_def sample_turn_def sample_write_def env_limit_def reading_reply_def calls_in_def List.map_filter_simps)

section \<open>Properties\<close>


text \<open>C19 As long as the results of tool rounds reach the transcript, the conversation the agent sends is one the upstream
  accepts: over any sequence of turns, whatever the model replies and however they are cancelled or fail, every message with
  calls is followed by the answers to all of them.\<close>

theorem history_stays_valid:
  assumes "paired (ag_history a)" and "\<forall>t \<in> set turns. results_written (fst t)"
  shows "paired (ag_history (conversation ser vte ts turns a))"
  using conversation_history [OF assms(2)] assms(1) paired_append by metis

theorem history_stays_valid_witness:
  "paired (ag_history (conversation sample_ser Some shell_only
     [(sample_turn (\<lambda>j. j = 0) Written, lit ''hello''), (sample_turn (\<lambda>_. False) Written, lit ''hello'')] fresh_agent))"
  by (rule history_stays_valid) (auto simp: fresh_agent_def results_written_def sample_turn_def)

text \<open>Resuming cuts a transcript at the first unanswered call and nowhere earlier: the rebuilt history is accepted by the
  upstream, and it is the longest prefix of the transcript's messages that is.\<close>

theorem resume_longest_valid:
  assumes "prefix p (List.map_filter (line_message dec blocks_of) lines)" and "paired p"
  shows "prefix p (rebuild_history dec blocks_of (Some lines)) \<and>
    prefix (rebuild_history dec blocks_of (Some lines)) (List.map_filter (line_message dec blocks_of) lines) \<and>
    paired (rebuild_history dec blocks_of (Some lines))"
  using truncate_longest [OF assms] prefix_truncate paired_truncate by (simp add: rebuild_history_def)

theorem resume_longest_valid_witness:
  "prefix [\<lparr>am_role = lit ''user'', am_content = Plain (lit ''hello'')\<rparr>]
     (rebuild_history sample_json_dec sample_blocks (Some [sample_ser (entry_json (user_text fresh_agent sample_write (lit ''hello''))),
        sample_ser (entry_json (assistant_blocks fresh_agent sample_write (lit ''m'') (rp_content reading_reply)))]))"
  using resume_longest_valid [of "[\<lparr>am_role = lit ''user'', am_content = Plain (lit ''hello'')\<rparr>]" sample_json_dec sample_blocks
      "[sample_ser (entry_json (user_text fresh_agent sample_write (lit ''hello''))),
        sample_ser (entry_json (assistant_blocks fresh_agent sample_write (lit ''m'') (rp_content reading_reply)))]"]
    line_message_written(1,3) [OF sample_codec] sample_shown
  by (simp add: user_text_def assistant_blocks_def shown_def reading_reply_def List.map_filter_simps paired_Cons)

text \<open>C31 A session that was not disturbed comes back whole: after turns whose writes succeeded and whose tools ran to their
  end, resuming from the transcript gives the conversation the agent had, with escape sequences removed
  from the model's text.\<close>

theorem resume_restores:
  assumes "transcript_codec ser dec blocks_of" and "\<forall>t \<in> set turns. undisturbed (fst t) \<and> shown (snd t)"
    and "ag_history a = []" and "ag_lines a = []"
  shows "rebuild_history dec blocks_of (Some (ag_lines (conversation ser vte ts turns a))) =
    map (plain_message vte) (ag_history (conversation ser vte ts turns a))"
proof -
  have w: "\<forall>t \<in> set turns. results_written (fst t)" using assms(2) by (auto simp: undisturbed_def results_written_def)
  obtain ms where "ag_history (conversation ser vte ts turns a) = ms" "paired ms"
    using conversation_history [OF w, of ser vte ts a] assms(3) by auto
  then have "paired (map (plain_message vte) (ag_history (conversation ser vte ts turns a)))" by (simp add: plain_paired)
  moreover have "kept dec blocks_of vte (conversation ser vte ts turns a)"
    using conversation_kept [OF assms(1,2)] assms(3,4) by (simp add: kept_def List.map_filter_simps)
  ultimately show ?thesis by (simp add: rebuild_history_def kept_def truncate_of_paired)
qed

theorem resume_restores_witness:
  "rebuild_history sample_json_dec sample_blocks
     (Some (ag_lines (conversation sample_ser Some shell_only [(sample_turn (\<lambda>_. False) Written, lit ''hello'')] fresh_agent))) =
   map (plain_message Some) (ag_history (conversation sample_ser Some shell_only [(sample_turn (\<lambda>_. False) Written, lit ''hello'')] fresh_agent))"
  by (rule resume_restores [OF sample_codec]) (simp_all add: sample_undisturbed sample_shown fresh_agent_def)

text \<open>C32 A turn cancelled while the tools of its first reply run makes the rest of the session unrecoverable: the calls stay in the transcript
  without results, so however long the session goes on, resuming it gives back nothing that was said after
  that turn's prompt, although the agent still holds a valid conversation.\<close>

theorem cancelled_tools_hide_rest:
  assumes "transcript_codec ser dec blocks_of" and "calls_first env resp" and "j < length (calls_in (rp_content resp))"
    and "re_cancelled (te_tools env 0) j" and "\<forall>t \<in> set later. shown (snd t)"
  shows "rebuild_history dec blocks_of (Some (ag_lines (conversation ser vte ts ((env, prompt) # later) a))) =
    rebuild_history dec blocks_of (Some (ag_lines (snd (prompted ser env prompt a))))"
proof -
  note none = results_after_cancel [OF assms(2-4), of ser ts]
  obtain h a1 b where raw: "prompted ser env prompt a = (True, a1)"
      "ag_lines b = ag_lines a1 @ [ser (entry_json (EAssistant h (rp_model resp) (plain_content vte (rp_content resp))))]"
      "snd (run_user_prompt ser vte ts env prompt a) = after_results ser env 0 (rp_content resp) None b"
    using stopped_turn [OF assms(2) disjI1 [OF none]] unfolding none by blast
  then have a1: "prompted ser env prompt a = (True, a1)"
      "ag_lines b = ag_lines a1 @ [ser (entry_json (EAssistant h (rp_model resp) (plain_content vte (rp_content resp))))]"
      "snd (run_user_prompt ser vte ts env prompt a) = b"
    by (simp_all add: after_results_def)
  let ?m = "\<lparr>am_role = lit ''assistant'', am_content = Blocks (plain_content vte (rp_content resp))\<rparr>"
  have ne: "rp_content resp \<noteq> []" "calls_in (rp_content resp) \<noteq> []"
    using assms(2) by (auto simp: calls_first_def calls_in_def List.map_filter_simps)
  have m: "line_message dec blocks_of (ser (entry_json (EAssistant h (rp_model resp) (plain_content vte (rp_content resp))))) = Some ?m"
    using line_message_written(3) [OF assms(1)] ne by (simp add: plain_content_def)
  have "use_ids ?m = fst ` set (calls_in (rp_content resp))"
    using arg_cong [OF plain_ids(1) [of vte "rp_content resp"], of set] by (simp add: use_ids_def blocks_in_def ids_of_calls)
  then have asks: "asks ?m" using ne(2) by (simp add: asks_def)
  obtain ls where ls: "ag_lines (conversation ser vte ts later b) = ag_lines b @ ls"
      "ls = [] \<or> (\<exists>t r. line_message dec blocks_of (hd ls) = Some \<lparr>am_role = r, am_content = Plain t\<rparr>)"
    using conversation_lines [OF assms(1,5), of vte ts b] by blast
  let ?L = "List.map_filter (line_message dec blocks_of) ls"
  have "?L = [] \<or> \<not> answers ?m (hd ?L)"
    using ls(2) plain_no_answer [OF asks] by (cases ls) (auto simp: List.map_filter_simps)
  then show ?thesis using a1 m ls(1) truncate_orphan [OF asks]
    by (simp add: rebuild_history_def map_filter_append List.map_filter_simps)
qed

theorem cancelled_tools_hide_rest_witness:
  "rebuild_history sample_json_dec sample_blocks
     (Some (ag_lines (conversation sample_ser Some shell_only
        [(sample_turn (\<lambda>j. j = 0) Written, lit ''hello''), (sample_turn (\<lambda>_. False) Written, lit ''hello'')] fresh_agent))) =
   rebuild_history sample_json_dec sample_blocks
     (Some (ag_lines (snd (prompted sample_ser (sample_turn (\<lambda>j. j = 0) Written) (lit ''hello'') fresh_agent))))"
  by (rule cancelled_tools_hide_rest [OF sample_codec sample_calls, of 0])
    (simp_all add: sample_shown sample_turn_def reading_reply_def calls_in_def List.map_filter_simps)

text \<open>A failed write loses the session in memory: when the results of a round cannot be written, the calls are already in
  the history and their results never are, so whatever is said later, the conversation the agent sends is
  one the upstream refuses.\<close>

theorem lost_results_break_session:
  assumes "calls_first env resp" and "ew_outcome (te_results_write env 0) \<noteq> Written"
    and "\<forall>j. \<not> re_cancelled (te_tools env 0) j \<and> \<not> re_cancelled_during (te_tools env 0) j"
  shows "\<not> paired (ag_history (conversation ser vte ts ((env, prompt) # later) a))"
proof -
  obtain bs where bs: "first_results ser ts env resp = Some bs"
    using tools_answer [OF assms(3)] unfolding first_results_def round_results_def by blast
  obtain b where b: "ag_history b = ag_history a @ [\<lparr>am_role = lit ''user'', am_content = Plain prompt\<rparr>]"
      "snd (run_user_prompt ser vte ts env prompt a) = after_results ser env 0 (rp_content resp) (Some bs) b"
    using stopped_turn [OF assms(1) disjI2 [OF assms(2)]] unfolding bs [symmetric] by blast
  have "\<not> fst (session_append ser (te_results_write env 0) e c)" for e c
    using assms(2) by (auto simp: session_append_def Let_def split: write_outcome.splits)
  then have "ag_history (snd (run_user_prompt ser vte ts env prompt a)) =
      (ag_history b) @ [\<lparr>am_role = lit ''assistant'', am_content = Blocks (rp_content resp)\<rparr>]"
    by (simp add: b(2) after_results_def Let_def)
  moreover have "asks \<lparr>am_role = lit ''assistant'', am_content = Blocks (rp_content resp)\<rparr>"
    using assms(1) by (simp add: asks_def use_ids_calls calls_first_def)
  ultimately have "stranded (ag_history (snd (run_user_prompt ser vte ts env prompt a)))"
    unfolding stranded_def by (metis append.right_neutral)
  then show ?thesis using conversation_stranded stranded_not_paired by simp
qed

theorem lost_results_break_session_witness:
  "\<not> paired (ag_history (conversation sample_ser Some shell_only
     [(sample_turn (\<lambda>_. False) (WriteFailed False), lit ''hello''), (sample_turn (\<lambda>_. False) Written, lit ''hello'')] fresh_agent))"
  by (rule lost_results_break_session [OF sample_calls]) (simp_all add: sample_turn_def calm_def)


end
