(* ===== verification/Openai_Chat.thy ===== *)
theory Openai_Chat
  imports Compact
begin

text \<open>
  The chat-completions wire, \<^verbatim>\<open>src/crates/tab-atelier-proxy/src/openai.rs\<close>: a Messages request rewritten on the way
  out, a whole reply, an error and the usage block read on the way back. \<open>json_text\<close> is \<^verbatim>\<open>serde_json::to_string\<close> and
  \<open>parse\<close> its \<^verbatim>\<open>from_str\<close>. Objects are written in the order of the source.
\<close>

section \<open>Bytes to text\<close>

text \<open>\<^verbatim>\<open>String::from_utf8_lossy\<close>: the longest valid start of a broken sequence becomes one U+FFFD.\<close>

type_synonym octet = "8 word"

definition utf8_tail :: "nat \<Rightarrow> (nat \<times> nat) list option" where
  "utf8_tail b =
     (if b < 128 then Some []
      else if 194 \<le> b \<and> b \<le> 223 then Some [(128, 191)]
      else if b = 224 then Some [(160, 191), (128, 191)]
      else if b = 237 then Some [(128, 159), (128, 191)]
      else if 225 \<le> b \<and> b \<le> 239 then Some [(128, 191), (128, 191)]
      else if b = 240 then Some [(144, 191), (128, 191), (128, 191)]
      else if b = 244 then Some [(128, 143), (128, 191), (128, 191)]
      else if 241 \<le> b \<and> b \<le> 243 then Some [(128, 191), (128, 191), (128, 191)]
      else None)"

fun utf8_match :: "(nat \<times> nat) list \<Rightarrow> nat list \<Rightarrow> nat" where
  "utf8_match ((lo, hi) # rs) (b # bs) = (if lo \<le> b \<and> b \<le> hi then Suc (utf8_match rs bs) else 0)"
| "utf8_match _ _ = 0"

definition utf8_scalar :: "nat \<Rightarrow> nat list \<Rightarrow> rchar" where
  "utf8_scalar b conts =
     (let lead = (case length conts of 0 \<Rightarrow> b | Suc 0 \<Rightarrow> b - 192 | Suc (Suc 0) \<Rightarrow> b - 224 | _ \<Rightarrow> b - 240)
      in foldl (\<lambda>acc c. acc * 64 + (c - 128)) lead conts)"

function utf8_lossy_nats :: "nat list \<Rightarrow> rstr" where
  "utf8_lossy_nats [] = []"
| "utf8_lossy_nats (b # bs) =
     (case utf8_tail b of
        None \<Rightarrow> 65533 # utf8_lossy_nats bs
      | Some rs \<Rightarrow>
          (let n = utf8_match rs bs
           in (if n = length rs then utf8_scalar b (take n bs) else 65533) # utf8_lossy_nats (drop n bs)))"
  by pat_completeness auto
termination
  by (relation "measure length") auto

definition from_utf8_lossy :: "octet list \<Rightarrow> rstr" where
  "from_utf8_lossy bs = utf8_lossy_nats (map unat bs)"

section \<open>Reading\<close>

definition str_or_empty :: "json option \<Rightarrow> rstr" where
  "str_or_empty v = (case as_str v of Some s \<Rightarrow> s | None \<Rightarrow> [])"

definition or_null :: "json option \<Rightarrow> json" where
  "or_null v = (case v of Some x \<Rightarrow> x | None \<Rightarrow> JNull)"

definition u64_or_0 :: "json option \<Rightarrow> nat" where
  "u64_or_0 v = (case as_u64 v of Some n \<Rightarrow> n | None \<Rightarrow> 0)"

definition texts_of :: "json list \<Rightarrow> rstr list" where
  "texts_of bs = concat (map (\<lambda>b. case as_str (json_get (lit ''text'') b) of Some t \<Rightarrow> [t] | None \<Rightarrow> []) bs)"

definition join_text_blocks :: "json list \<Rightarrow> rstr" where
  "join_text_blocks bs = str_join [10] (texts_of bs)"

section \<open>The request\<close>

definition rejects_stop :: "rstr \<Rightarrow> bool" where
  "rejects_stop model =
     (let name = to_ascii_lowercase (case rsplit_once 47 model of Some (_, b) \<Rightarrow> b | None \<Rightarrow> model)
      in starts_with name (lit ''gpt-5'') \<or>
         list_ex (\<lambda>prefix. case strip_prefix prefix name of Some rest \<Rightarrow> rest = [] \<or> starts_with rest (lit ''-'') | None \<Rightarrow> False)
           (map lit [''o1'', ''o2'', ''o3'', ''o4'']))"

definition thinking_is_disabled :: "json \<Rightarrow> bool" where
  "thinking_is_disabled body =
     (as_str (Option.bind (json_get (lit ''thinking'') body) (json_get (lit ''type''))) = Some (lit ''disabled''))"

definition chat_text :: "rstr \<Rightarrow> rstr \<Rightarrow> json" where
  "chat_text role txt = JObj [(lit ''role'', JStr role), (lit ''content'', JStr txt)]"

definition system_message :: "json \<Rightarrow> json option" where
  "system_message sys =
     (case sys of
        JStr txt \<Rightarrow> if txt = [] then None else Some (chat_text (lit ''system'') txt)
      | JArr bs \<Rightarrow> (let txt = join_text_blocks bs in if txt = [] then None else Some (chat_text (lit ''system'') txt))
      | _ \<Rightarrow> None)"

definition convert_tool_use :: "(json \<Rightarrow> rstr) \<Rightarrow> json \<Rightarrow> json" where
  "convert_tool_use json_text b =
     (let input = (case json_get (lit ''input'') b of Some v \<Rightarrow> v | None \<Rightarrow> JObj [])
      in JObj [(lit ''id'', or_null (json_get (lit ''id'') b)), (lit ''type'', JStr (lit ''function'')),
               (lit ''function'', JObj [(lit ''name'', or_null (json_get (lit ''name'') b)),
                                        (lit ''arguments'', JStr (json_text input))])])"

definition tool_result_text :: "json \<Rightarrow> rstr" where
  "tool_result_text content = (case content of JStr s \<Rightarrow> s | JArr bs \<Rightarrow> join_text_blocks bs | _ \<Rightarrow> [])"

definition convert_tool_result :: "json \<Rightarrow> json" where
  "convert_tool_result b =
     (let txt = (case json_get (lit ''content'') b of None \<Rightarrow> [] | Some c \<Rightarrow> tool_result_text c);
          txt = (if json_get (lit ''is_error'') b = Some (JBool True) then lit ''Error: '' @ txt else txt)
      in JObj [(lit ''role'', JStr (lit ''tool'')), (lit ''tool_call_id'', or_null (json_get (lit ''tool_use_id'') b)),
               (lit ''content'', JStr txt)])"

definition blocks_of_type :: "rstr \<Rightarrow> json list \<Rightarrow> json list" where
  "blocks_of_type kind bs = filter (\<lambda>b. block_type b = Some kind) bs"

definition convert_assistant :: "(json \<Rightarrow> rstr) \<Rightarrow> json list \<Rightarrow> json list" where
  "convert_assistant json_text bs =
     (let txt = texts_of (blocks_of_type (lit ''text'') bs);
          calls = map (convert_tool_use json_text) (blocks_of_type (lit ''tool_use'') bs)
      in if txt = [] \<and> calls = [] then []
         else (let joined = str_join [10] txt;
                   message = [(lit ''role'', JStr (lit ''assistant'')), (lit ''content'', if joined = [] then JNull else JStr joined)]
               in [JObj (if calls \<noteq> [] then message @ [(lit ''tool_calls'', JArr calls)] else message)]))"

definition convert_user :: "json list \<Rightarrow> json list" where
  "convert_user bs =
     (let txt = texts_of (blocks_of_type (lit ''text'') bs)
      in map convert_tool_result (blocks_of_type (lit ''tool_result'') bs) @
         (if txt \<noteq> [] then [chat_text (lit ''user'') (str_join [10] txt)] else []))"

definition convert_message :: "(json \<Rightarrow> rstr) \<Rightarrow> json \<Rightarrow> json list" where
  "convert_message json_text turn =
     (let role = str_or_empty (json_get (lit ''role'') turn)
      in case json_get (lit ''content'') turn of
           Some (JStr txt) \<Rightarrow> if txt \<noteq> [] then [chat_text role txt] else []
         | Some (JArr bs) \<Rightarrow> if role = lit ''assistant'' then convert_assistant json_text bs else convert_user bs
         | _ \<Rightarrow> [])"

definition convert_tool :: "json \<Rightarrow> json" where
  "convert_tool tool =
     JObj [(lit ''type'', JStr (lit ''function'')),
           (lit ''function'', JObj [(lit ''name'', or_null (json_get (lit ''name'') tool)),
              (lit ''description'', or_null (json_get (lit ''description'') tool)),
              (lit ''parameters'', case json_get (lit ''input_schema'') tool of
                                     Some v \<Rightarrow> v
                                   | None \<Rightarrow> JObj [(lit ''type'', JStr (lit ''object'')), (lit ''properties'', JObj [])])])]"

definition convert_tool_choice :: "json \<Rightarrow> json option" where
  "convert_tool_choice choice =
     (case block_type choice of
        None \<Rightarrow> None
      | Some t \<Rightarrow>
          if t = lit ''auto'' then Some (JStr (lit ''auto''))
          else if t = lit ''any'' then Some (JStr (lit ''required''))
          else if t = lit ''none'' then Some (JStr (lit ''none''))
          else if t = lit ''tool''
          then Some (JObj [(lit ''type'', JStr (lit ''function'')),
                           (lit ''function'', JObj [(lit ''name'', or_null (json_get (lit ''name'') choice))])])
          else None)"

definition max_stop_sequences :: nat where
  "max_stop_sequences = 4"

definition chat_messages :: "(json \<Rightarrow> rstr) \<Rightarrow> json \<Rightarrow> json list" where
  "chat_messages json_text body =
     (case Option.bind (json_get (lit ''system'') body) system_message of Some m \<Rightarrow> [m] | None \<Rightarrow> []) @
     (case as_array (json_get (lit ''messages'') body) of
        Some turns \<Rightarrow> concat (map (convert_message json_text) turns)
      | None \<Rightarrow> [])"

definition copied :: "rstr \<Rightarrow> rstr \<Rightarrow> json \<Rightarrow> json \<Rightarrow> json" where
  "copied k k' body out = (case json_get k body of Some v \<Rightarrow> set_field k' v out | None \<Rightarrow> out)"

definition to_chat :: "(json \<Rightarrow> rstr) \<Rightarrow> json \<Rightarrow> json" where
  "to_chat json_text body =
     (let out = JObj [(lit ''model'', or_null (json_get (lit ''model'') body)), (lit ''messages'', JArr (chat_messages json_text body))];
          out = copied (lit ''max_tokens'') (lit ''max_completion_tokens'') body out;
          out = copied (lit ''top_p'') (lit ''top_p'') body (copied (lit ''temperature'') (lit ''temperature'') body out);
          out = (if rejects_stop (str_or_empty (json_get (lit ''model'') body)) then out
                 else case as_array (json_get (lit ''stop_sequences'') body) of
                        Some (s # stops) \<Rightarrow> set_field (lit ''stop'') (JArr (take max_stop_sequences (s # stops))) out
                      | _ \<Rightarrow> out);
          tools = (case as_array (json_get (lit ''tools'') body) of Some ts \<Rightarrow> map convert_tool ts | None \<Rightarrow> []);
          out = (if tools \<noteq> [] then set_field (lit ''tools'') (JArr tools) out else out);
          out = (if tools \<noteq> [] \<or> thinking_is_disabled body then set_field (lit ''reasoning_effort'') (JStr (lit ''none'')) out else out);
          out = (case Option.bind (json_get (lit ''tool_choice'') body) convert_tool_choice of
                   Some c \<Rightarrow> set_field (lit ''tool_choice'') c out
                 | None \<Rightarrow> out)
      in if json_get (lit ''stream'') body = Some (JBool True)
         then set_field (lit ''stream_options'') (JObj [(lit ''include_usage'', JBool True)]) (set_field (lit ''stream'') (JBool True) out)
         else out)"

section \<open>The reply\<close>

record tokens =
  tk_input :: nat
  tk_output :: nat
  tk_cache_read :: nat
  tk_cache_write :: nat

definition no_tokens :: tokens where
  "no_tokens = \<lparr>tk_input = 0, tk_output = 0, tk_cache_read = 0, tk_cache_write = 0\<rparr>"

definition tokens_of :: "json option \<Rightarrow> tokens" where
  "tokens_of usage =
     (case usage of
        None \<Rightarrow> no_tokens
      | Some u \<Rightarrow>
          (let cached = u64_or_0 (Option.bind (json_get (lit ''prompt_tokens_details'') u) (json_get (lit ''cached_tokens'')));
               prompt = u64_or_0 (json_get (lit ''prompt_tokens'') u)
           in \<lparr>tk_input = prompt - cached, tk_output = u64_or_0 (json_get (lit ''completion_tokens'') u),
               tk_cache_read = cached, tk_cache_write = 0\<rparr>))"

definition usage_json :: "tokens \<Rightarrow> json" where
  "usage_json t =
     JObj [(lit ''input_tokens'', JNum (U64 (tk_input t))), (lit ''output_tokens'', JNum (U64 (tk_output t))),
           (lit ''cache_read_input_tokens'', JNum (U64 (tk_cache_read t))),
           (lit ''cache_creation_input_tokens'', JNum (U64 (tk_cache_write t)))]"

definition stop_reason :: "json option \<Rightarrow> rstr" where
  "stop_reason finish_reason =
     (case as_str finish_reason of
        None \<Rightarrow> lit ''end_turn''
      | Some r \<Rightarrow> if r = lit ''length'' then lit ''max_tokens''
                  else if r = lit ''tool_calls'' \<or> r = lit ''function_call'' then lit ''tool_use''
                  else lit ''end_turn'')"

definition first_choice :: "json \<Rightarrow> json option" where
  "first_choice v = (case as_array (json_get (lit ''choices'') v) of Some (c # _) \<Rightarrow> Some c | _ \<Rightarrow> None)"

definition call_function :: "rstr \<Rightarrow> json \<Rightarrow> json option" where
  "call_function k call = Option.bind (json_get (lit ''function'') call) (json_get k)"

definition from_tool_call :: "(rstr \<Rightarrow> json option) \<Rightarrow> json \<Rightarrow> json" where
  "from_tool_call parse call =
     (let input = (case parse (str_or_empty (call_function (lit ''arguments'') call)) of Some v \<Rightarrow> v | None \<Rightarrow> JObj [])
      in JObj [(lit ''type'', JStr (lit ''tool_use'')), (lit ''id'', or_null (json_get (lit ''id'') call)),
               (lit ''name'', or_null (call_function (lit ''name'') call)), (lit ''input'', input)])"

definition from_chat :: "(rstr \<Rightarrow> json option) \<Rightarrow> json \<Rightarrow> json" where
  "from_chat parse chat =
     (let choice = first_choice chat;
          message = Option.bind choice (json_get (lit ''message''));
          txt = str_or_empty (Option.bind message (json_get (lit ''content'')));
          calls = (case as_array (Option.bind message (json_get (lit ''tool_calls''))) of Some cs \<Rightarrow> cs | None \<Rightarrow> []);
          content = (if txt \<noteq> [] then [JObj [(lit ''type'', JStr (lit ''text'')), (lit ''text'', JStr txt)]] else []) @
                    map (from_tool_call parse) calls
      in JObj [(lit ''id'', or_null (json_get (lit ''id'') chat)), (lit ''type'', JStr (lit ''message'')),
               (lit ''role'', JStr (lit ''assistant'')), (lit ''model'', or_null (json_get (lit ''model'') chat)),
               (lit ''content'', JArr content),
               (lit ''stop_reason'', JStr (stop_reason (Option.bind choice (json_get (lit ''finish_reason''))))),
               (lit ''usage'', usage_json (tokens_of (json_get (lit ''usage'') chat)))])"

definition error_kind :: "nat \<Rightarrow> rstr" where
  "error_kind status =
     (if status = 400 \<or> status = 422 then lit ''invalid_request_error''
      else if status = 401 then lit ''authentication_error''
      else if status = 403 then lit ''permission_error''
      else if status = 404 then lit ''not_found_error''
      else if status = 429 then lit ''rate_limit_error''
      else if status = 503 \<or> status = 529 then lit ''overloaded_error''
      else lit ''api_error'')"

text \<open>\<open>parse_bytes\<close> is \<^verbatim>\<open>serde_json::from_slice\<close>.\<close>

definition to_anthropic_error :: "(octet list \<Rightarrow> json option) \<Rightarrow> nat \<Rightarrow> octet list \<Rightarrow> json" where
  "to_anthropic_error parse_bytes status body =
     (let message = (case as_str (Option.bind (Option.bind (parse_bytes body) (json_get (lit ''error''))) (json_get (lit ''message''))) of
                       Some m \<Rightarrow> m
                     | None \<Rightarrow> trim (from_utf8_lossy body))
      in JObj [(lit ''type'', JStr (lit ''error'')),
               (lit ''error'', JObj [(lit ''type'', JStr (error_kind status)), (lit ''message'', JStr message)])])"

section \<open>Properties\<close>

fun is_obj :: "json \<Rightarrow> bool" where
  "is_obj (JObj m) = True"
| "is_obj _ = False"

lemma is_obj_set [simp]: "is_obj (set_field k x v) = is_obj v"
  by (cases v) (simp_all add: set_field_def)

lemma get_set_obj: "is_obj v \<Longrightarrow> json_get k (set_field k' x v) = (if k = k' then Some x else json_get k v)"
  by (cases v) (simp_all add: json_get_def set_field_def update_conv')

lemma is_obj_copied [simp]: "is_obj (copied k k' body out) = is_obj out"
  by (simp add: copied_def split: option.splits)

lemma get_copied: "is_obj out \<Longrightarrow> json_get j (copied k k' body out) = (if j = k' \<and> json_get k body \<noteq> None then json_get k body else json_get j out)"
  by (auto simp: copied_def get_set_obj split: option.splits)

lemma or_null_Some [simp]: "or_null (Some x) = x"
  by (simp add: or_null_def)

lemma json_get_obj: "json_get k (JObj m) = map_of m k"
  by (simp add: json_get_def)

lemma lit_eq [simp]: "lit s = lit t \<longleftrightarrow> s = t"
  by (simp add: lit_def inj_map_eq_map inj_def)

text \<open>The calls and the results of a conversation, on either wire, in order.\<close>

datatype call_event = Called json | Answered json

definition turn_calls :: "json \<Rightarrow> call_event list" where
  "turn_calls turn =
     (case blocks turn of
        None \<Rightarrow> []
      | Some bs \<Rightarrow>
          if as_str (json_get (lit ''role'') turn) = Some (lit ''assistant'')
          then map (\<lambda>b. Called (or_null (json_get (lit ''id'') b))) (blocks_of_type (lit ''tool_use'') bs)
          else map (\<lambda>b. Answered (or_null (json_get (lit ''tool_use_id'') b))) (blocks_of_type (lit ''tool_result'') bs))"

definition chat_calls :: "json \<Rightarrow> call_event list" where
  "chat_calls m =
     (case as_array (json_get (lit ''tool_calls'') m) of
        Some cs \<Rightarrow> map (\<lambda>c. Called (or_null (json_get (lit ''id'') c))) cs
      | None \<Rightarrow> (case json_get (lit ''tool_call_id'') m of Some i \<Rightarrow> [Answered i] | None \<Rightarrow> []))"

lemma chat_text_calls [simp]: "chat_calls (chat_text role txt) = []"
  by (simp add: chat_calls_def chat_text_def json_get_def as_array_def lit_def)

lemma tool_result_calls [simp]: "chat_calls (convert_tool_result b) = [Answered (or_null (json_get (lit ''tool_use_id'') b))]"
  by (simp add: chat_calls_def convert_tool_result_def json_get_def as_array_def Let_def lit_def)

lemma tool_use_id [simp]: "json_get (lit ''id'') (convert_tool_use json_text b) = Some (or_null (json_get (lit ''id'') b))"
  by (simp add: convert_tool_use_def Let_def) (simp add: json_get_def)

lemma convert_message_calls: "concat (map chat_calls (convert_message json_text turn)) = turn_calls turn"
proof (cases "blocks turn")
  case None
  then show ?thesis
    by (auto simp: convert_message_def turn_calls_def blocks_def as_array_def Let_def split: option.splits json.splits)
next
  case (Some bs)
  then have c: "json_get (lit ''content'') turn = Some (JArr bs)"
    by (auto simp: blocks_def as_array_def split: option.splits json.splits)
  have r: "str_or_empty (json_get (lit ''role'') turn) = lit ''assistant'' \<longleftrightarrow>
      as_str (json_get (lit ''role'') turn) = Some (lit ''assistant'')"
    by (auto simp: str_or_empty_def lit_def split: option.splits)
  have a: "concat (map chat_calls (convert_assistant json_text bs)) =
      map (\<lambda>b. Called (or_null (json_get (lit ''id'') b))) (blocks_of_type (lit ''tool_use'') bs)"
    by (auto simp: convert_assistant_def Let_def chat_calls_def as_array_def json_get_obj o_def)
  have u: "concat (map chat_calls (convert_user bs)) =
      map (\<lambda>b. Answered (or_null (json_get (lit ''tool_use_id'') b))) (blocks_of_type (lit ''tool_result'') bs)"
    by (simp add: convert_user_def Let_def o_def)
  show ?thesis using c r Some a u by (simp add: convert_message_def turn_calls_def Let_def)
qed

lemma convert_turns_calls: "concat (map chat_calls (concat (map (convert_message json_text) turns))) = concat (map turn_calls turns)"
  by (induction turns) (simp_all add: convert_message_calls)

lemma system_message_calls: "system_message sys = Some m \<Longrightarrow> chat_calls m = []"
  by (cases sys) (auto simp: system_message_def Let_def split: if_splits)

text \<open>C25 The other wire keeps the pairing: the calls of the assistant turns and the results of the others come out in the
  same order under the same ids, none lost and none invented, and the system prompt adds none.
\<close>

theorem chat_keeps_pairing:
  "concat (map chat_calls (chat_messages json_text body)) =
     (case as_array (json_get (lit ''messages'') body) of Some turns \<Rightarrow> concat (map turn_calls turns) | None \<Rightarrow> [])"
proof -
  have "concat (map chat_calls (case Option.bind (json_get (lit ''system'') body) system_message of Some m \<Rightarrow> [m] | None \<Rightarrow> [])) = []"
    by (cases "json_get (lit ''system'') body") (auto dest: sym [THEN system_message_calls] split: option.splits)
  then show ?thesis by (simp add: chat_messages_def convert_turns_calls split: option.splits)
qed

text \<open>A result never comes behind prose: the turn that answers an assistant's calls becomes its tool messages first, right
  behind the message that holds the calls, and one line of prose at most after them.
\<close>

theorem results_follow_their_calls:
  assumes "as_str (json_get (lit ''role'') asks) = Some (lit ''assistant'')" "blocks asks = Some bs" "blocks_of_type (lit ''tool_use'') bs \<noteq> []"
    "as_str (json_get (lit ''role'') answers) = Some (lit ''user'')" "blocks answers = Some cs"
  shows "\<exists>m prose. concat (map (convert_message json_text) [asks, answers]) =
      m # map convert_tool_result (blocks_of_type (lit ''tool_result'') cs) @ prose \<and>
    json_get (lit ''tool_calls'') m = Some (JArr (map (convert_tool_use json_text) (blocks_of_type (lit ''tool_use'') bs))) \<and>
    length prose \<le> 1 \<and> (\<forall>p \<in> set prose. json_get (lit ''role'') p = Some (JStr (lit ''user'')))"
proof -
  have c: "json_get (lit ''content'') asks = Some (JArr bs)" "json_get (lit ''content'') answers = Some (JArr cs)"
    using assms(2,5) by (auto simp: blocks_def as_array_def split: option.splits json.splits)
  have r: "str_or_empty (json_get (lit ''role'') asks) = lit ''assistant''" "str_or_empty (json_get (lit ''role'') answers) \<noteq> lit ''assistant''"
    using assms(1,4) by (simp_all add: str_or_empty_def lit_def)
  have "\<exists>m. convert_assistant json_text bs = [m] \<and>
      json_get (lit ''tool_calls'') m = Some (JArr (map (convert_tool_use json_text) (blocks_of_type (lit ''tool_use'') bs)))"
    using assms(3) by (auto simp: convert_assistant_def Let_def json_get_def lit_def)
  then obtain m where m: "convert_assistant json_text bs = [m]"
    "json_get (lit ''tool_calls'') m = Some (JArr (map (convert_tool_use json_text) (blocks_of_type (lit ''tool_use'') bs)))" by blast
  have "\<exists>prose. convert_user cs = map convert_tool_result (blocks_of_type (lit ''tool_result'') cs) @ prose \<and> length prose \<le> 1 \<and>
      (\<forall>p \<in> set prose. json_get (lit ''role'') p = Some (JStr (lit ''user'')))"
    unfolding convert_user_def Let_def by (rule exI, rule conjI, rule refl) (auto simp: chat_text_def json_get_def)
  then show ?thesis using m r c by (auto simp: convert_message_def Let_def)
qed

text \<open>A call that goes out and comes back is the call that was made: its id, its name and its input survive the two
  translations, the input through its text.
\<close>

theorem call_round_trips:
  assumes "parse (json_text (case json_get (lit ''input'') b of Some v \<Rightarrow> v | None \<Rightarrow> JObj [])) =
      Some (case json_get (lit ''input'') b of Some v \<Rightarrow> v | None \<Rightarrow> JObj [])"
  shows "from_tool_call parse (convert_tool_use json_text b) =
    JObj [(lit ''type'', JStr (lit ''tool_use'')), (lit ''id'', or_null (json_get (lit ''id'') b)),
          (lit ''name'', or_null (json_get (lit ''name'') b)),
          (lit ''input'', case json_get (lit ''input'') b of Some v \<Rightarrow> v | None \<Rightarrow> JObj [])]"
proof -
  have "str_or_empty (call_function (lit ''arguments'') (convert_tool_use json_text b)) =
      json_text (case json_get (lit ''input'') b of Some v \<Rightarrow> v | None \<Rightarrow> JObj [])"
    by (simp add: call_function_def convert_tool_use_def Let_def str_or_empty_def as_str_def json_get_def lit_def)
  moreover have "call_function (lit ''name'') (convert_tool_use json_text b) = Some (or_null (json_get (lit ''name'') b))"
    by (simp add: call_function_def convert_tool_use_def Let_def) (simp add: json_get_def lit_def)
  ultimately show ?thesis using assms by (simp add: from_tool_call_def Let_def or_null_def)
qed

text \<open>Where each field of the request comes from.\<close>

definition chat_stop :: "json \<Rightarrow> json option" where
  "chat_stop body =
     (if rejects_stop (str_or_empty (json_get (lit ''model'') body)) then None
      else case as_array (json_get (lit ''stop_sequences'') body) of
             Some (s # stops) \<Rightarrow> Some (JArr (take max_stop_sequences (s # stops)))
           | _ \<Rightarrow> None)"

definition chat_tools :: "json \<Rightarrow> json list" where
  "chat_tools body = (case as_array (json_get (lit ''tools'') body) of Some ts \<Rightarrow> map convert_tool ts | None \<Rightarrow> [])"

definition set_if :: "rstr \<Rightarrow> json option \<Rightarrow> json \<Rightarrow> json" where
  "set_if k x out = (case x of Some v \<Rightarrow> set_field k v out | None \<Rightarrow> out)"

lemma is_obj_set_if [simp]: "is_obj (set_if k x out) = is_obj out"
  by (simp add: set_if_def split: option.splits)

lemma get_set_if: "is_obj out \<Longrightarrow> json_get j (set_if k x out) = (if j = k \<and> x \<noteq> None then x else json_get j out)"
  by (auto simp: set_if_def get_set_obj split: option.splits)

lemma get_set_if_other: "j \<noteq> k \<Longrightarrow> json_get j (set_if k x out) = json_get j out"
  by (simp add: set_if_def get_set_other split: option.splits)

lemma get_set_if_same: "is_obj out \<Longrightarrow> json_get k out = None \<Longrightarrow> json_get k (set_if k x out) = x"
  by (simp add: get_set_if)

lemma copied_set_if: "copied k k' body out = set_if k' (json_get k body) out"
  by (simp add: copied_def set_if_def)

definition streams :: "json \<Rightarrow> bool" where
  "streams body \<longleftrightarrow> json_get (lit ''stream'') body = Some (JBool True)"

lemma stop_set_if:
  "(if rejects_stop (str_or_empty (json_get (lit ''model'') body)) then out
    else case as_array (json_get (lit ''stop_sequences'') body) of
           Some (s # stops) \<Rightarrow> set_field (lit ''stop'') (JArr (take max_stop_sequences (s # stops))) out
         | _ \<Rightarrow> out) = set_if (lit ''stop'') (chat_stop body) out"
  by (auto simp: chat_stop_def set_if_def split: option.splits list.splits)

lemma if_set: "(if c then set_field k v out else out) = set_if k (if c then Some v else None) out"
  by (simp add: set_if_def)

lemma stream_set:
  "(if c then set_field k v (set_field k' v' out) else out) =
     set_if k (if c then Some v else None) (set_if k' (if c then Some v' else None) out)"
  by (simp add: set_if_def)

lemma to_chat_fields:
  "to_chat json_text body =
     set_if (lit ''stream_options'') (if streams body then Some (JObj [(lit ''include_usage'', JBool True)]) else None)
      (set_if (lit ''stream'') (if streams body then Some (JBool True) else None)
       (set_if (lit ''tool_choice'') (Option.bind (json_get (lit ''tool_choice'') body) convert_tool_choice)
        (set_if (lit ''reasoning_effort'') (if chat_tools body \<noteq> [] \<or> thinking_is_disabled body then Some (JStr (lit ''none'')) else None)
         (set_if (lit ''tools'') (if chat_tools body \<noteq> [] then Some (JArr (chat_tools body)) else None)
          (set_if (lit ''stop'') (chat_stop body)
           (set_if (lit ''top_p'') (json_get (lit ''top_p'') body)
            (set_if (lit ''temperature'') (json_get (lit ''temperature'') body)
             (set_if (lit ''max_completion_tokens'') (json_get (lit ''max_tokens'') body)
               (JObj [(lit ''model'', or_null (json_get (lit ''model'') body)), (lit ''messages'', JArr (chat_messages json_text body))])))))))))"
  unfolding to_chat_def Let_def copied_set_if stop_set_if chat_tools_def [symmetric] streams_def [symmetric] stream_set
  by (simp only: if_set set_if_def [of "lit ''tool_choice''", symmetric])

lemma to_chat_get:
  "json_get (lit ''stop'') (to_chat json_text body) = chat_stop body"
  "json_get (lit ''tools'') (to_chat json_text body) = (if chat_tools body \<noteq> [] then Some (JArr (chat_tools body)) else None)"
  "json_get (lit ''reasoning_effort'') (to_chat json_text body) =
     (if chat_tools body \<noteq> [] \<or> thinking_is_disabled body then Some (JStr (lit ''none'')) else None)"
  "json_get (lit ''stream'') (to_chat json_text body) = (if streams body then Some (JBool True) else None)"
  "json_get (lit ''stream_options'') (to_chat json_text body) =
     (if streams body then Some (JObj [(lit ''include_usage'', JBool True)]) else None)"
  "json_get (lit ''messages'') (to_chat json_text body) = Some (JArr (chat_messages json_text body))"
  unfolding to_chat_fields by (simp_all add: get_set_if_other get_set_if_same json_get_obj split del: if_split)

lemma to_chat_absent:
  "k \<in> set (map lit [''system'', ''max_tokens'', ''stop_sequences'', ''thinking'', ''metadata'']) \<Longrightarrow> json_get k (to_chat json_text body) = None"
  unfolding to_chat_fields by (auto simp: get_set_if_other json_get_obj split del: if_split)

lemma chat_stop_shape:
  "chat_stop body = Some s \<Longrightarrow> \<not> rejects_stop (str_or_empty (json_get (lit ''model'') body)) \<and> (\<exists>ss. s = JArr ss \<and> 1 \<le> length ss \<and> length ss \<le> 4)"
  by (auto simp: chat_stop_def max_stop_sequences_def split: if_splits option.splits list.splits)

text \<open>The chat request carries nothing the other end refuses: no field of the Messages wire that has no place there, stop
  sequences only for a model that takes them and at most four, no tools without reasoning switched off, and
  a stream always asks for its usage.
\<close>

theorem chat_request_fits:
  "(let out = to_chat json_text body
    in (\<forall>k \<in> set (map lit [''system'', ''max_tokens'', ''stop_sequences'', ''thinking'', ''metadata'']). json_get k out = None) \<and>
       (\<forall>s. json_get (lit ''stop'') out = Some s \<longrightarrow>
          \<not> rejects_stop (str_or_empty (json_get (lit ''model'') body)) \<and> (\<exists>ss. s = JArr ss \<and> 1 \<le> length ss \<and> length ss \<le> 4)) \<and>
       (json_get (lit ''tools'') out \<noteq> None \<longrightarrow> json_get (lit ''reasoning_effort'') out = Some (JStr (lit ''none''))) \<and>
       (thinking_is_disabled body \<longrightarrow> json_get (lit ''reasoning_effort'') out = Some (JStr (lit ''none''))) \<and>
       (json_get (lit ''stream'') out \<noteq> None \<longrightarrow>
          json_get (lit ''stream_options'') out = Some (JObj [(lit ''include_usage'', JBool True)])))"
  unfolding Let_def to_chat_get using to_chat_absent [of _ json_text body] chat_stop_shape [of body] by simp

text \<open>The usage of a reply counts each prompt token once: what the cache served is taken out of the input, so the two add
  up to the prompt whenever no more was cached than asked, and to the cached count otherwise; nothing is
  ever counted as written to the cache.
\<close>

theorem usage_counts_prompt_once:
  "(let t = tokens_of (Some u); prompt = u64_or_0 (json_get (lit ''prompt_tokens'') u);
        cached = u64_or_0 (Option.bind (json_get (lit ''prompt_tokens_details'') u) (json_get (lit ''cached_tokens'')))
    in tk_input t + tk_cache_read t = max prompt cached \<and> tk_cache_write t = 0 \<and>
       tk_output t = u64_or_0 (json_get (lit ''completion_tokens'') u))"
  by (simp add: tokens_of_def Let_def max_def)

text \<open>An assistant turn whose only block is an empty text is not dropped: it goes out as a message whose content is
  \<^verbatim>\<open>null\<close> and that calls nothing, the empty turn the translation means to leave out.
\<close>

theorem empty_text_turn_sent:
  assumes "json_get (lit ''role'') turn = Some (JStr (lit ''assistant''))" "blocks turn = Some [b]"
    "block_type b = Some (lit ''text'')" "json_get (lit ''text'') b = Some (JStr [])"
  shows "convert_message json_text turn = [JObj [(lit ''role'', JStr (lit ''assistant'')), (lit ''content'', JNull)]]"
proof -
  have "json_get (lit ''content'') turn = Some (JArr [b])" using assms(2) by (auto simp: blocks_def as_array_def split: option.splits json.splits)
  then show ?thesis using assms
    by (simp add: convert_message_def str_or_empty_def as_str_def convert_assistant_def blocks_of_type_def texts_of_def Let_def)
qed

section \<open>Samples\<close>

definition typed_block :: "string \<Rightarrow> (rstr \<times> json) list \<Rightarrow> json" where
  "typed_block kind fs = JObj ((lit ''type'', JStr (lit kind)) # fs)"

definition turn_of :: "string \<Rightarrow> json list \<Rightarrow> json" where
  "turn_of role bs = JObj [(lit ''role'', JStr (lit role)), (lit ''content'', JArr bs)]"

lemma sample_turn [simp]:
  "json_get (lit ''role'') (turn_of role bs) = Some (JStr (lit role))" "blocks (turn_of role bs) = Some bs"
  "block_type (typed_block kind fs) = Some (lit kind)"
  "k \<noteq> ''type'' \<Longrightarrow> json_get (lit k) (typed_block kind fs) = map_of fs (lit k)"
  by (simp_all add: turn_of_def typed_block_def json_get_obj blocks_def as_array_def block_type_def as_str_def)

theorem results_follow_their_calls_witness:
  "\<exists>m prose. concat (map (convert_message (\<lambda>_. lit ''{}''))
       [turn_of ''assistant'' [typed_block ''tool_use'' [(lit ''id'', JStr (lit ''t1''))]],
        turn_of ''user'' [typed_block ''text'' [(lit ''text'', JStr (lit ''ok''))], typed_block ''tool_result'' [(lit ''tool_use_id'', JStr (lit ''t1''))]]]) =
     m # [convert_tool_result (typed_block ''tool_result'' [(lit ''tool_use_id'', JStr (lit ''t1''))])] @ prose \<and> length prose \<le> 1"
proof -
  let ?asks = "turn_of ''assistant'' [typed_block ''tool_use'' [(lit ''id'', JStr (lit ''t1''))]]"
  let ?r = "typed_block ''tool_result'' [(lit ''tool_use_id'', JStr (lit ''t1''))]"
  let ?cs = "[typed_block ''text'' [(lit ''text'', JStr (lit ''ok''))], ?r]"
  have "blocks_of_type (lit ''tool_result'') ?cs = [?r]" by (simp add: blocks_of_type_def)
  then show ?thesis using results_follow_their_calls [of ?asks _ "turn_of ''user'' ?cs" ?cs "\<lambda>_. lit ''{}''"]
    by (simp add: blocks_of_type_def as_str_def) blast
qed

theorem call_round_trips_witness:
  "from_tool_call (\<lambda>_. Some (JObj [])) (convert_tool_use (\<lambda>_. lit ''{}'') (typed_block ''tool_use'' [(lit ''id'', JStr (lit ''t1'')), (lit ''name'', JStr (lit ''Read''))])) =
     typed_block ''tool_use'' [(lit ''id'', JStr (lit ''t1'')), (lit ''name'', JStr (lit ''Read'')), (lit ''input'', JObj [])]"
  using call_round_trips [of "\<lambda>_. Some (JObj [])" "\<lambda>_. lit ''{}''" "typed_block ''tool_use'' [(lit ''id'', JStr (lit ''t1'')), (lit ''name'', JStr (lit ''Read''))]"]
  by (simp add: typed_block_def json_get_obj)

theorem empty_text_turn_sent_witness:
  "convert_message (\<lambda>_. []) (turn_of ''assistant'' [typed_block ''text'' [(lit ''text'', JStr [])]]) =
     [JObj [(lit ''role'', JStr (lit ''assistant'')), (lit ''content'', JNull)]]"
  by (rule empty_text_turn_sent [where b = "typed_block ''text'' [(lit ''text'', JStr [])]"]) simp_all

end
