(* ===== verification/Openai_Stream.thy ===== *)
theory Openai_Stream
  imports Openai_Chat
begin

text \<open>
  The chat-completions stream turned into an Anthropic one, \<^verbatim>\<open>src/crates/tab-atelier-proxy/src/openai.rs\<close>: the
  \<^verbatim>\<open>Translator\<close>. \<open>parse\<close> is \<^verbatim>\<open>serde_json::from_str\<close> and \<open>json_text\<close> its
  \<^verbatim>\<open>to_string\<close>; what the sources write as a frame is an event here, with its name and its JSON.
\<close>

section \<open>Events\<close>

datatype block_start = TextBlock | ToolBlock rstr rstr

datatype wire_event =
    MessageStart json "rstr option" tokens
  | BlockStart nat block_start
  | TextDelta nat rstr
  | JsonDelta nat rstr
  | BlockStop nat
  | MessageDelta rstr tokens
  | MessageStop
  | ErrorEvent rstr rstr

fun event_name :: "wire_event \<Rightarrow> rstr" where
  "event_name (MessageStart _ _ _) = lit ''message_start''"
| "event_name (BlockStart _ _) = lit ''content_block_start''"
| "event_name (TextDelta _ _) = lit ''content_block_delta''"
| "event_name (JsonDelta _ _) = lit ''content_block_delta''"
| "event_name (BlockStop _) = lit ''content_block_stop''"
| "event_name (MessageDelta _ _) = lit ''message_delta''"
| "event_name MessageStop = lit ''message_stop''"
| "event_name (ErrorEvent _ _) = lit ''error''"

definition str_or_null :: "rstr option \<Rightarrow> json" where
  "str_or_null s = (case s of Some t \<Rightarrow> JStr t | None \<Rightarrow> JNull)"

fun start_json :: "block_start \<Rightarrow> json" where
  "start_json TextBlock = JObj [(lit ''type'', JStr (lit ''text'')), (lit ''text'', JStr [])]"
| "start_json (ToolBlock i name) =
     JObj [(lit ''type'', JStr (lit ''tool_use'')), (lit ''id'', JStr i), (lit ''name'', JStr name), (lit ''input'', JObj [])]"

fun event_fields :: "wire_event \<Rightarrow> (rstr \<times> json) list" where
  "event_fields (MessageStart i model t) =
     [(lit ''message'', JObj [(lit ''id'', i), (lit ''type'', JStr (lit ''message'')), (lit ''role'', JStr (lit ''assistant'')),
        (lit ''model'', str_or_null model), (lit ''usage'', usage_json t)])]"
| "event_fields (BlockStart n b) = [(lit ''index'', JNum (U64 n)), (lit ''content_block'', start_json b)]"
| "event_fields (TextDelta n s) =
     [(lit ''index'', JNum (U64 n)), (lit ''delta'', JObj [(lit ''type'', JStr (lit ''text_delta'')), (lit ''text'', JStr s)])]"
| "event_fields (JsonDelta n s) =
     [(lit ''index'', JNum (U64 n)),
      (lit ''delta'', JObj [(lit ''type'', JStr (lit ''input_json_delta'')), (lit ''partial_json'', JStr s)])]"
| "event_fields (BlockStop n) = [(lit ''index'', JNum (U64 n))]"
| "event_fields (MessageDelta r t) =
     [(lit ''delta'', JObj [(lit ''stop_reason'', JStr r), (lit ''stop_sequence'', JNull)]), (lit ''usage'', usage_json t)]"
| "event_fields MessageStop = []"
| "event_fields (ErrorEvent kind message) =
     [(lit ''error'', JObj [(lit ''type'', JStr kind), (lit ''message'', JStr message)])]"

definition sse :: "(json \<Rightarrow> rstr) \<Rightarrow> wire_event \<Rightarrow> rstr" where
  "sse json_text ev =
     lit ''event: '' @ event_name ev @ [10] @ lit ''data: '' @
     json_text (JObj ((lit ''type'', JStr (event_name ev)) # event_fields ev)) @ [10, 10]"

section \<open>The translator\<close>

datatype open_block = OpenText nat | OpenTool nat

fun open_index :: "open_block \<Rightarrow> nat" where
  "open_index (OpenText i) = i"
| "open_index (OpenTool i) = i"

record assembling =
  am_id :: "rstr option"
  am_name :: "rstr option"
  am_arguments :: rstr

record translator =
  tl_pending :: "octet list"
  tl_started :: bool
  tl_next_index :: nat
  tl_open :: "open_block option"
  tl_tools :: "nat \<rightharpoonup> nat"
  tl_assembling :: "assembling option"
  tl_tokens :: tokens
  tl_model :: "rstr option"
  tl_stop :: "rstr option"
  tl_closed :: bool

definition new_translator :: translator where
  "new_translator =
     \<lparr>tl_pending = [], tl_started = False, tl_next_index = 0, tl_open = None, tl_tools = Map.empty, tl_assembling = None,
      tl_tokens = no_tokens, tl_model = None, tl_stop = None, tl_closed = False\<rparr>"

text \<open>A step returns the translator and the events it pushes, in order.\<close>

type_synonym emitted = "translator \<times> wire_event list"

definition close_open :: "translator \<Rightarrow> emitted" where
  "close_open t = (case tl_open t of None \<Rightarrow> (t, []) | Some b \<Rightarrow> (t\<lparr>tl_open := None\<rparr>, [BlockStop (open_index b)]))"

definition message_start :: "json \<Rightarrow> translator \<Rightarrow> emitted" where
  "message_start ch t =
     (t\<lparr>tl_started := True\<rparr>,
      [MessageStart (case json_get (lit ''id'') ch of Some v \<Rightarrow> v | None \<Rightarrow> JNull) (tl_model t) (tl_tokens t)])"

definition push_arguments :: "nat \<Rightarrow> rstr \<Rightarrow> wire_event list" where
  "push_arguments index arguments = (if arguments = [] then [] else [JsonDelta index arguments])"

definition text_delta :: "rstr \<Rightarrow> translator \<Rightarrow> emitted" where
  "text_delta txt t =
     (let t = t\<lparr>tl_assembling := None\<rparr>
      in case tl_open t of
           Some (OpenText index) \<Rightarrow> (t, [TextDelta index txt])
         | _ \<Rightarrow>
             (let (t, evs) = close_open t; index = tl_next_index t;
                  t = t\<lparr>tl_next_index := index + 1, tl_open := Some (OpenText index)\<rparr>
              in (t, evs @ [BlockStart index TextBlock, TextDelta index txt])))"

definition open_tool :: "nat \<Rightarrow> rstr \<Rightarrow> rstr \<Rightarrow> translator \<Rightarrow> nat \<times> emitted" where
  "open_tool tool i name t =
     (let (t, evs) = close_open t; index = tl_next_index t;
          t = t\<lparr>tl_next_index := index + 1, tl_tools := (tl_tools t)(tool \<mapsto> index), tl_open := Some (OpenTool index)\<rparr>
      in (index, (t, evs @ [BlockStart index (ToolBlock i name)])))"

definition call_index :: "json \<Rightarrow> nat" where
  "call_index call = u64_or_0 (json_get (lit ''index'') call)"

definition assemble :: "json \<Rightarrow> assembling option \<Rightarrow> assembling" where
  "assemble call am =
     (let a = (case am of Some a \<Rightarrow> a | None \<Rightarrow> \<lparr>am_id = None, am_name = None, am_arguments = []\<rparr>);
          a = (case as_str (json_get (lit ''id'') call) of Some i \<Rightarrow> a\<lparr>am_id := Some i\<rparr> | None \<Rightarrow> a);
          a = (case as_str (call_function (lit ''name'') call) of Some n \<Rightarrow> a\<lparr>am_name := Some n\<rparr> | None \<Rightarrow> a)
      in a\<lparr>am_arguments := am_arguments a @ str_or_empty (call_function (lit ''arguments'') call)\<rparr>)"

definition tool_delta :: "json \<Rightarrow> translator \<Rightarrow> emitted" where
  "tool_delta call t =
     (let tool = call_index call;
          arguments = str_or_empty (call_function (lit ''arguments'') call)
      in case tl_tools t tool of
           Some index \<Rightarrow> (t\<lparr>tl_assembling := None\<rparr>, push_arguments index arguments)
         | None \<Rightarrow>
             (let a = assemble call (tl_assembling t)
              in case am_name a of
                   None \<Rightarrow> (t\<lparr>tl_assembling := Some a\<rparr>, [])
                 | Some name \<Rightarrow>
                     (let i = (case am_id a of Some i \<Rightarrow> i | None \<Rightarrow> []);
                          (index, (t, evs)) = open_tool tool i name (t\<lparr>tl_assembling := None\<rparr>)
                      in (t, evs @ push_arguments index (am_arguments a)))))"

fun tool_deltas :: "json list \<Rightarrow> translator \<Rightarrow> emitted" where
  "tool_deltas [] t = (t, [])"
| "tool_deltas (call # calls) t =
     (let (t, evs) = tool_delta call t; (t, evs') = tool_deltas calls t in (t, evs @ evs'))"

definition delta_field :: "rstr \<Rightarrow> json \<Rightarrow> json option" where
  "delta_field k choice = Option.bind (json_get (lit ''delta'') choice) (json_get k)"

definition not_null :: "json option \<Rightarrow> json option" where
  "not_null v = (case v of Some JNull \<Rightarrow> None | _ \<Rightarrow> v)"

definition choice_delta :: "json \<Rightarrow> translator \<Rightarrow> emitted" where
  "choice_delta choice t =
     (let (t, evs) = (case as_str (delta_field (lit ''content'') choice) of
                        Some txt \<Rightarrow> if txt \<noteq> [] then text_delta txt t else (t, [])
                      | None \<Rightarrow> (t, []));
          (t, evs') = (case as_array (delta_field (lit ''tool_calls'') choice) of
                         Some calls \<Rightarrow> tool_deltas calls t
                       | None \<Rightarrow> (t, []));
          t = (case not_null (json_get (lit ''finish_reason'') choice) of
                 Some reason \<Rightarrow> t\<lparr>tl_stop := Some (stop_reason (Some reason))\<rparr>
               | None \<Rightarrow> t)
      in (t, evs @ evs'))"

definition stream_chunk :: "json \<Rightarrow> translator \<Rightarrow> emitted" where
  "stream_chunk ch t =
     (let t = (case as_str (json_get (lit ''model'') ch) of Some m \<Rightarrow> t\<lparr>tl_model := Some m\<rparr> | None \<Rightarrow> t);
          t = (case not_null (json_get (lit ''usage'') ch) of Some u \<Rightarrow> t\<lparr>tl_tokens := tokens_of (Some u)\<rparr> | None \<Rightarrow> t);
          (t, evs) = (if \<not> tl_started t then message_start ch t else (t, []))
      in case first_choice ch of
           None \<Rightarrow> (t, evs)
         | Some choice \<Rightarrow> (let (t, evs') = choice_delta choice t in (t, evs @ evs')))"

definition error_event :: "json \<Rightarrow> wire_event" where
  "error_event error =
     ErrorEvent (case as_str (json_get (lit ''type'') error) of Some k \<Rightarrow> k | None \<Rightarrow> lit ''api_error'')
                (case as_str (json_get (lit ''message'') error) of Some m \<Rightarrow> m | None \<Rightarrow> lit ''upstream error'')"

definition stream_line :: "(rstr \<Rightarrow> json option) \<Rightarrow> rstr \<Rightarrow> translator \<Rightarrow> emitted" where
  "stream_line parse line t =
     (case strip_prefix (lit ''data:'') (trim_end line) of
        None \<Rightarrow> (t, [])
      | Some data \<Rightarrow>
          (let data = trim data
           in if data = [] \<or> data = lit ''[DONE]'' then (t, [])
              else case parse data of
                     None \<Rightarrow> (t, [])
                   | Some v \<Rightarrow>
                       (case json_get (lit ''error'') v of
                          Some error \<Rightarrow> (t\<lparr>tl_closed := True\<rparr>, [error_event error])
                        | None \<Rightarrow> stream_chunk v t)))"

text \<open>Every complete line leaves the buffer; the rest waits for the next call.\<close>

function drain_lines :: "(rstr \<Rightarrow> json option) \<Rightarrow> octet list \<Rightarrow> translator \<Rightarrow> emitted" where
  "drain_lines parse pending t =
     (if 10 \<in> set pending
      then (let line = takeWhile (\<lambda>b. b \<noteq> 10) pending;
                (t, evs) = stream_line parse (from_utf8_lossy line) t;
                (t, evs') = drain_lines parse (drop (Suc (length line)) pending) t
            in (t, evs @ evs'))
      else (t\<lparr>tl_pending := pending\<rparr>, []))"
  by pat_completeness auto
termination
  by (relation "measure (\<lambda>(_, pending, _). length pending)") (auto intro!: diff_less dest: length_pos_if_in_set)

declare drain_lines.simps [simp del]

definition feed_bytes :: "(rstr \<Rightarrow> json option) \<Rightarrow> octet list \<Rightarrow> translator \<Rightarrow> emitted" where
  "feed_bytes parse chunk t = drain_lines parse (tl_pending t @ chunk) t"

definition finish_stream :: "translator \<Rightarrow> emitted" where
  "finish_stream t =
     (let (t, evs) = close_open t
      in if tl_started t \<and> \<not> tl_closed t
         then (t\<lparr>tl_closed := True\<rparr>,
               evs @ [MessageDelta (case tl_stop t of Some r \<Rightarrow> r | None \<Rightarrow> lit ''end_turn'') (tl_tokens t), MessageStop])
         else (t, evs))"

fun feed_all :: "(rstr \<Rightarrow> json option) \<Rightarrow> octet list list \<Rightarrow> translator \<Rightarrow> emitted" where
  "feed_all parse [] t = (t, [])"
| "feed_all parse (c # cs) t = (let (t, evs) = feed_bytes parse c t; (t, evs') = feed_all parse cs t in (t, evs @ evs'))"

section \<open>Cutting the stream anywhere\<close>

lemma pending_steps [simp]:
  "close_open (t\<lparr>tl_pending := p\<rparr>) = apfst (tl_pending_update (\<lambda>_. p)) (close_open t)"
  "message_start ch (t\<lparr>tl_pending := p\<rparr>) = apfst (tl_pending_update (\<lambda>_. p)) (message_start ch t)"
  by (simp_all add: close_open_def message_start_def split: option.splits)

lemma pending_text [simp]: "text_delta s (t\<lparr>tl_pending := p\<rparr>) = apfst (tl_pending_update (\<lambda>_. p)) (text_delta s t)"
  by (simp add: text_delta_def close_open_def Let_def split: option.splits open_block.splits)

lemma pending_open_tool [simp]:
  "open_tool k i n (t\<lparr>tl_pending := p\<rparr>) = apsnd (apfst (tl_pending_update (\<lambda>_. p))) (open_tool k i n t)"
  by (simp add: open_tool_def close_open_def Let_def split: option.splits)

lemma pending_tool [simp]: "tool_delta c (t\<lparr>tl_pending := p\<rparr>) = apfst (tl_pending_update (\<lambda>_. p)) (tool_delta c t)"
  by (simp add: tool_delta_def open_tool_def close_open_def Let_def split: option.splits)

lemma pending_tools [simp]: "tool_deltas cs (t\<lparr>tl_pending := p\<rparr>) = apfst (tl_pending_update (\<lambda>_. p)) (tool_deltas cs t)"
  by (induction cs arbitrary: t) (simp_all add: Let_def case_prod_unfold apfst_def map_prod_def)

lemma pending_choice [simp]: "choice_delta c (t\<lparr>tl_pending := p\<rparr>) = apfst (tl_pending_update (\<lambda>_. p)) (choice_delta c t)"
  by (simp add: choice_delta_def Let_def case_prod_unfold apfst_def map_prod_def split: option.splits)

lemma pending_chunk [simp]: "stream_chunk c (t\<lparr>tl_pending := p\<rparr>) = apfst (tl_pending_update (\<lambda>_. p)) (stream_chunk c t)"
proof -
  let ?m = "\<lambda>t. case as_str (json_get (lit ''model'') c) of Some m \<Rightarrow> t\<lparr>tl_model := Some m\<rparr> | None \<Rightarrow> t"
  let ?u = "\<lambda>t. case not_null (json_get (lit ''usage'') c) of Some u \<Rightarrow> t\<lparr>tl_tokens := tokens_of (Some u)\<rparr> | None \<Rightarrow> t"
  have mu: "?u (?m (t\<lparr>tl_pending := p\<rparr>)) = (?u (?m t))\<lparr>tl_pending := p\<rparr>" by (simp split: option.splits)
  show ?thesis unfolding stream_chunk_def Let_def mu
    by (simp add: case_prod_unfold apfst_def map_prod_def split: option.splits)
qed

lemma pending_line [simp]: "stream_line parse l (t\<lparr>tl_pending := p\<rparr>) = apfst (tl_pending_update (\<lambda>_. p)) (stream_line parse l t)"
  by (simp add: stream_line_def Let_def split: option.splits)

text \<open>The complete lines of a buffer and what is left of it.\<close>

fun cut_lines :: "octet list \<Rightarrow> octet list \<Rightarrow> octet list list \<times> octet list" where
  "cut_lines acc [] = ([], acc)"
| "cut_lines acc (b # bs) = (if b = 10 then apfst (Cons acc) (cut_lines [] bs) else cut_lines (acc @ [b]) bs)"

fun run_lines :: "(rstr \<Rightarrow> json option) \<Rightarrow> rstr list \<Rightarrow> translator \<Rightarrow> emitted" where
  "run_lines parse [] t = (t, [])"
| "run_lines parse (l # ls) t = (let (t, evs) = stream_line parse l t; (t, evs') = run_lines parse ls t in (t, evs @ evs'))"

lemma cut_none: "10 \<notin> set bs \<Longrightarrow> cut_lines acc bs = ([], acc @ bs)"
  by (induction bs arbitrary: acc) auto

lemma cut_append: "cut_lines acc (xs @ ys) = (fst (cut_lines acc xs) @ fst (cut_lines (snd (cut_lines acc xs)) ys), snd (cut_lines (snd (cut_lines acc xs)) ys))"
  by (induction acc xs rule: cut_lines.induct) (simp_all add: apfst_def map_prod_def case_prod_unfold)

lemma cut_first: "10 \<in> set bs \<Longrightarrow> cut_lines [] bs =
    apfst (Cons (takeWhile (\<lambda>b. b \<noteq> 10) bs)) (cut_lines [] (drop (Suc (length (takeWhile (\<lambda>b. b \<noteq> 10) bs))) bs))"
proof -
  assume "10 \<in> set bs"
  have g: "10 \<in> set xs \<Longrightarrow> cut_lines acc xs =
      apfst (Cons (acc @ takeWhile (\<lambda>b. b \<noteq> 10) xs)) (cut_lines [] (drop (Suc (length (takeWhile (\<lambda>b. b \<noteq> 10) xs))) xs))" for acc xs
    by (induction xs arbitrary: acc) auto
  show ?thesis using g [OF \<open>10 \<in> set bs\<close>, of "[]"] by simp
qed

lemma cut_rest: "10 \<notin> set acc \<Longrightarrow> 10 \<notin> set (snd (cut_lines acc bs))"
  by (induction acc bs rule: cut_lines.induct) (auto simp: apfst_def map_prod_def case_prod_unfold)

lemma drain_as_lines:
  "drain_lines parse pending t =
     apfst (tl_pending_update (\<lambda>_. snd (cut_lines [] pending))) (run_lines parse (map from_utf8_lossy (fst (cut_lines [] pending))) t)"
proof (induction parse pending t rule: drain_lines.induct)
  case (1 parse pending t)
  show ?case
  proof (cases "10 \<in> set pending")
    case False
    then show ?thesis by (subst drain_lines.simps) (simp add: cut_none)
  next
    case True
    let ?line = "takeWhile (\<lambda>b. b \<noteq> 10) pending"
    obtain t1 e1 where l: "stream_line parse (from_utf8_lossy ?line) t = (t1, e1)" by fastforce
    have "drain_lines parse (drop (Suc (length ?line)) pending) t1 =
        apfst (tl_pending_update (\<lambda>_. snd (cut_lines [] (drop (Suc (length ?line)) pending))))
          (run_lines parse (map from_utf8_lossy (fst (cut_lines [] (drop (Suc (length ?line)) pending)))) t1)"
      using 1 [OF True refl l [symmetric] refl] .
    then show ?thesis using True l
      by (subst drain_lines.simps) (simp add: cut_first Let_def case_prod_unfold)
  qed
qed

lemma run_lines_append: "run_lines parse (xs @ ys) t =
    (let (t, evs) = run_lines parse xs t; (t, evs') = run_lines parse ys t in (t, evs @ evs'))"
  by (induction xs arbitrary: t) (simp_all add: Let_def case_prod_unfold)

lemma run_lines_pending [simp]: "run_lines parse ls (t\<lparr>tl_pending := p\<rparr>) = apfst (tl_pending_update (\<lambda>_. p)) (run_lines parse ls t)"
  by (induction ls arbitrary: t) (simp_all add: Let_def case_prod_unfold apfst_def map_prod_def)

lemma feeds_as_feed:
  assumes "10 \<notin> set (tl_pending t)"
  shows "feed_all parse cs t = feed_bytes parse (concat cs) t"
  using assms
proof (induction cs arbitrary: t)
  case Nil
  then show ?case by (simp add: feed_bytes_def drain_as_lines cut_none)
next
  case (Cons c cs)
  let ?p = "tl_pending t @ c"
  let ?l1 = "map from_utf8_lossy (fst (cut_lines [] ?p))" and ?r1 = "snd (cut_lines [] ?p)"
  obtain t1 e1 where r: "run_lines parse ?l1 t = (t1, e1)" by fastforce
  have f: "feed_bytes parse c t = (t1\<lparr>tl_pending := ?r1\<rparr>, e1)" by (simp add: feed_bytes_def drain_as_lines r)
  have n: "10 \<notin> set ?r1" by (rule cut_rest) simp
  then have "feed_all parse cs (t1\<lparr>tl_pending := ?r1\<rparr>) = feed_bytes parse (concat cs) (t1\<lparr>tl_pending := ?r1\<rparr>)" by (intro Cons.IH) simp
  moreover have "cut_lines [] (?r1 @ concat cs) = cut_lines ?r1 (concat cs)"
    using n by (simp add: cut_append cut_none)
  moreover have "cut_lines [] (tl_pending t @ c @ concat cs) = apfst ((@) (fst (cut_lines [] ?p))) (cut_lines ?r1 (concat cs))"
    using cut_append [of "[]" ?p "concat cs"] by (simp add: apfst_def map_prod_def case_prod_unfold)
  ultimately show ?case
    by (simp add: f feed_bytes_def [of parse "c @ concat cs"] feed_bytes_def [of parse "concat cs"] drain_as_lines run_lines_append r Let_def case_prod_unfold)
qed

text \<open>C14 How the socket cuts the stream does not matter: fed in any pieces, the translator ends in the same state and has
  written the same events as if it had got the bytes at once.
\<close>

theorem stream_cut_anywhere:
  assumes "10 \<notin> set (tl_pending t)"
  shows "feed_all parse cs t = feed_bytes parse (concat cs) t"
  using assms by (rule feeds_as_feed)

section \<open>The grammar of an Anthropic stream\<close>

text \<open>What a client accepts; \<open>WOpen n prose\<close> has block \<open>n\<close> open.\<close>

datatype wire_state = WStart | WIdle nat | WOpen nat bool | WEnding | WDone

fun wire_step :: "wire_state \<Rightarrow> wire_event \<Rightarrow> wire_state option" where
  "wire_step WStart (MessageStart _ _ _) = Some (WIdle 0)"
| "wire_step (WIdle n) (BlockStart i b) = (if i = n then Some (WOpen n (b = TextBlock)) else None)"
| "wire_step (WOpen n prose) (TextDelta i _) = (if i = n \<and> prose then Some (WOpen n prose) else None)"
| "wire_step (WOpen n prose) (JsonDelta i _) = (if i = n \<and> \<not> prose then Some (WOpen n prose) else None)"
| "wire_step (WOpen n prose) (BlockStop i) = (if i = n then Some (WIdle (Suc n)) else None)"
| "wire_step (WIdle n) (MessageDelta _ _) = Some WEnding"
| "wire_step WEnding MessageStop = Some WDone"
| "wire_step _ _ = None"

fun wire_run :: "wire_state \<Rightarrow> wire_event list \<Rightarrow> wire_state option" where
  "wire_run w [] = Some w"
| "wire_run w (e # es) = Option.bind (wire_step w e) (\<lambda>w. wire_run w es)"

lemma wire_run_append: "wire_run w (xs @ ys) = Option.bind (wire_run w xs) (\<lambda>w. wire_run w ys)"
  by (induction xs arbitrary: w) (simp_all add: bind_assoc)

definition on_wire :: "translator \<Rightarrow> wire_state \<Rightarrow> bool" where
  "on_wire t w \<longleftrightarrow>
     (case tl_open t of
        None \<Rightarrow> w = WIdle (tl_next_index t)
      | Some (OpenText i) \<Rightarrow> w = WOpen i True \<and> tl_next_index t = Suc i
      | Some (OpenTool i) \<Rightarrow> w = WOpen i False \<and> tl_next_index t = Suc i)"

lemma on_wire_update [simp]:
  "on_wire (t\<lparr>tl_assembling := a\<rparr>) w = on_wire t w" "on_wire (t\<lparr>tl_stop := r\<rparr>) w = on_wire t w"
  "on_wire (t\<lparr>tl_model := m\<rparr>) w = on_wire t w" "on_wire (t\<lparr>tl_tokens := k\<rparr>) w = on_wire t w"
  "on_wire (t\<lparr>tl_started := b\<rparr>) w = on_wire t w" "on_wire (t\<lparr>tl_pending := p\<rparr>) w = on_wire t w"
  by (simp_all add: on_wire_def split: option.splits open_block.splits)

text \<open>What a chunk uses: prose, or the tool call of an index. \<open>orderly\<close> streams do not come back to one they left.\<close>

datatype use = Prose | Tool nat

fun orderly :: "nat option \<Rightarrow> nat set \<Rightarrow> use list \<Rightarrow> bool" where
  "orderly cur past [] = True"
| "orderly cur past (Prose # us) = orderly None (past \<union> set_option cur) us"
| "orderly cur past (Tool i # us) = (if cur = Some i then orderly cur past us else i \<notin> past \<and> orderly (Some i) (past \<union> set_option cur) us)"

fun use_step :: "nat option \<times> nat set \<Rightarrow> use \<Rightarrow> nat option \<times> nat set" where
  "use_step (cur, past) Prose = (None, past \<union> set_option cur)"
| "use_step (cur, past) (Tool i) = (if cur = Some i then (cur, past) else (Some i, past \<union> set_option cur))"

lemma orderly_append:
  "orderly cur past (us @ vs) \<longleftrightarrow> orderly cur past us \<and> (let (cur, past) = foldl use_step (cur, past) us in orderly cur past vs)"
  by (induction cur past us rule: orderly.induct) (auto simp: Let_def)

definition tools_known :: "nat option \<Rightarrow> nat set \<Rightarrow> translator \<Rightarrow> bool" where
  "tools_known cur past t \<longleftrightarrow>
     (\<forall>c. cur = Some c \<longrightarrow> c \<notin> past) \<and>
     (\<forall>i n. tl_tools t i = Some n \<longrightarrow> i \<in> past \<or> cur = Some i \<and> tl_open t = Some (OpenTool n))"

definition good :: "nat option \<times> nat set \<Rightarrow> translator \<Rightarrow> wire_state \<Rightarrow> bool" where
  "good cp t w \<longleftrightarrow> on_wire t w \<and> tools_known (fst cp) (snd cp) t \<and> tl_started t"

text \<open>A step that keeps the translator and the client together.\<close>

definition keeps :: "emitted \<Rightarrow> wire_state \<Rightarrow> nat option \<times> nat set \<Rightarrow> bool" where
  "keeps r w cp \<longleftrightarrow> (\<exists>w'. wire_run w (snd r) = Some w' \<and> good cp (fst r) w')"

lemma text_delta_keeps:
  assumes "good (cur, past) t w"
  shows "keeps (text_delta s t) w (None, past \<union> set_option cur)"
proof (cases "tl_open t")
  case None
  then show ?thesis using assms
    by (auto simp: keeps_def good_def text_delta_def close_open_def on_wire_def tools_known_def Let_def)
next
  case (Some b)
  then show ?thesis using assms
    by (cases b) (auto simp: keeps_def good_def text_delta_def close_open_def on_wire_def tools_known_def Let_def)
qed

lemma open_tool_keeps:
  assumes "on_wire t w"
  shows "wire_run w (snd (snd (open_tool k i name t))) = Some (WOpen (tl_next_index t) False) \<and>
    fst (open_tool k i name t) = tl_next_index t \<and>
    tl_open (fst (snd (open_tool k i name t))) = Some (OpenTool (tl_next_index t)) \<and>
    tl_next_index (fst (snd (open_tool k i name t))) = Suc (tl_next_index t) \<and>
    tl_tools (fst (snd (open_tool k i name t))) = (tl_tools t)(k \<mapsto> tl_next_index t) \<and>
    tl_started (fst (snd (open_tool k i name t))) = tl_started t"
proof (cases "tl_open t")
  case None
  then show ?thesis using assms by (simp add: open_tool_def close_open_def on_wire_def Let_def)
next
  case (Some b)
  then show ?thesis using assms by (cases b) (auto simp: open_tool_def close_open_def on_wire_def Let_def)
qed

lemma push_keeps: "wire_run (WOpen n False) (push_arguments n s) = Some (WOpen n False)"
  by (simp add: push_arguments_def)

lemma tool_delta_keeps:
  assumes "good (cur, past) t w" "cur = Some (call_index call) \<or> call_index call \<notin> past"
  shows "keeps (tool_delta call t) w (use_step (cur, past) (Tool (call_index call)))"
proof -
  let ?i = "call_index call"
  have inv: "\<forall>c. cur = Some c \<longrightarrow> c \<notin> past" "\<And>i n. tl_tools t i = Some n \<Longrightarrow> i \<in> past \<or> cur = Some i \<and> tl_open t = Some (OpenTool n)"
    and w: "on_wire t w" and st: "tl_started t"
    using assms(1) by (auto simp: good_def tools_known_def)
  show ?thesis
  proof (cases "tl_tools t ?i")
    case (Some n)
    then have c: "cur = Some ?i" "tl_open t = Some (OpenTool n)" using inv assms(2) by blast+
    then have "w = WOpen n False" using w by (simp add: on_wire_def)
    then show ?thesis using Some c w inv st push_keeps
      by (auto simp: keeps_def good_def tool_delta_def Let_def on_wire_def tools_known_def)
  next
    case None
    let ?a = "assemble call (tl_assembling t)"
    have p: "j \<in> snd (use_step (cur, past) (Tool ?i)) \<and> j \<noteq> ?i" if "tl_tools t j = Some n" for j n
      using inv(2) [OF that] that None by auto
    have q: "fst (use_step (cur, past) (Tool ?i)) = Some ?i" "?i \<notin> snd (use_step (cur, past) (Tool ?i))"
      using inv(1) assms(2) by auto
    show ?thesis
    proof (cases "am_name ?a")
      case n: None
      then show ?thesis using None w st p q by (simp add: keeps_def good_def tool_delta_def Let_def tools_known_def del: use_step.simps)
    next
      case (Some name)
      let ?t = "t\<lparr>tl_assembling := None\<rparr>"
      let ?o = "open_tool ?i (case am_id ?a of Some i \<Rightarrow> i | None \<Rightarrow> []) name ?t"
      have d: "tool_delta call t = (fst (snd ?o), snd (snd ?o) @ push_arguments (fst ?o) (am_arguments ?a))"
        using None Some by (simp add: tool_delta_def Let_def case_prod_unfold)
      have "on_wire ?t w" using w by simp
      note o = open_tool_keeps [OF this, of ?i "case am_id ?a of Some i \<Rightarrow> i | None \<Rightarrow> []" name]
      show ?thesis unfolding keeps_def d
        using o st p q push_keeps
        by (auto simp: wire_run_append good_def on_wire_def tools_known_def split: if_splits simp del: use_step.simps)
    qed
  qed
qed

lemma tool_deltas_keeps:
  assumes "good (cur, past) t w" "orderly cur past (map (\<lambda>c. Tool (call_index c)) calls)"
  shows "keeps (tool_deltas calls t) w (foldl use_step (cur, past) (map (\<lambda>c. Tool (call_index c)) calls))"
  using assms
proof (induction calls arbitrary: cur past t w)
  case Nil
  then show ?case by (simp add: keeps_def)
next
  case (Cons call calls)
  obtain t1 e1 where d: "tool_delta call t = (t1, e1)" by fastforce
  obtain cur1 past1 where u: "use_step (cur, past) (Tool (call_index call)) = (cur1, past1)" by fastforce
  have "cur = Some (call_index call) \<or> call_index call \<notin> past" using Cons.prems(2) by (auto split: if_splits)
  then obtain w1 where w1: "wire_run w e1 = Some w1" "good (cur1, past1) t1 w1"
    using tool_delta_keeps [OF Cons.prems(1), of call] d u by (auto simp: keeps_def)
  have "orderly cur1 past1 (map (\<lambda>c. Tool (call_index c)) calls)" using Cons.prems(2) u by (auto split: if_splits)
  then have "keeps (tool_deltas calls t1) w1 (foldl use_step (cur1, past1) (map (\<lambda>c. Tool (call_index c)) calls))"
    by (rule Cons.IH [OF w1(2)])
  then show ?case using d u w1(1) by (auto simp: keeps_def Let_def case_prod_unfold wire_run_append)
qed

definition chunk_text :: "json \<Rightarrow> rstr" where
  "chunk_text ch = str_or_empty (Option.bind (first_choice ch) (delta_field (lit ''content'')))"

definition chunk_calls :: "json \<Rightarrow> json list" where
  "chunk_calls ch =
     (case as_array (Option.bind (first_choice ch) (delta_field (lit ''tool_calls''))) of Some calls \<Rightarrow> calls | None \<Rightarrow> [])"

definition chunk_uses :: "json \<Rightarrow> use list" where
  "chunk_uses ch = (if chunk_text ch \<noteq> [] then [Prose] else []) @ map (\<lambda>c. Tool (call_index c)) (chunk_calls ch)"

text \<open>A chunk is read in three steps: what it says of the message, its text, its calls.\<close>

definition chunk_head :: "json \<Rightarrow> translator \<Rightarrow> emitted" where
  "chunk_head ch t =
     (let t = (case as_str (json_get (lit ''model'') ch) of Some m \<Rightarrow> t\<lparr>tl_model := Some m\<rparr> | None \<Rightarrow> t);
          t = (case not_null (json_get (lit ''usage'') ch) of Some u \<Rightarrow> t\<lparr>tl_tokens := tokens_of (Some u)\<rparr> | None \<Rightarrow> t)
      in if \<not> tl_started t then message_start ch t else (t, []))"

definition maybe_text :: "rstr \<Rightarrow> translator \<Rightarrow> emitted" where
  "maybe_text s t = (if s \<noteq> [] then text_delta s t else (t, []))"

definition chunk_stop :: "json \<Rightarrow> translator \<Rightarrow> translator" where
  "chunk_stop ch t =
     (case not_null (Option.bind (first_choice ch) (json_get (lit ''finish_reason''))) of
        Some reason \<Rightarrow> t\<lparr>tl_stop := Some (stop_reason (Some reason))\<rparr>
      | None \<Rightarrow> t)"

lemma choice_delta_parts:
  assumes "first_choice ch = Some choice"
  shows "choice_delta choice t =
     (let (t, e2) = maybe_text (chunk_text ch) t; (t, e3) = tool_deltas (chunk_calls ch) t in (chunk_stop ch t, e2 @ e3))"
proof -
  have x: "(case as_str (delta_field (lit ''content'') choice) of Some txt \<Rightarrow> if txt \<noteq> [] then text_delta txt t else (t, []) | None \<Rightarrow> (t, [])) =
      maybe_text (chunk_text ch) t"
    using assms by (simp add: maybe_text_def chunk_text_def str_or_empty_def split: option.splits)
  have y: "(case as_array (delta_field (lit ''tool_calls'') choice) of Some calls \<Rightarrow> tool_deltas calls t | None \<Rightarrow> (t, [])) =
      tool_deltas (chunk_calls ch) t" for t
    using assms by (simp add: chunk_calls_def split: option.splits)
  have z: "(case not_null (json_get (lit ''finish_reason'') choice) of Some reason \<Rightarrow> t\<lparr>tl_stop := Some (stop_reason (Some reason))\<rparr> | None \<Rightarrow> t) =
      chunk_stop ch t" for t
    using assms by (simp add: chunk_stop_def)
  show ?thesis unfolding choice_delta_def x y z Let_def ..
qed

lemma stream_chunk_head:
  "stream_chunk ch t =
     (let (t, e1) = chunk_head ch t
      in case first_choice ch of None \<Rightarrow> (t, e1) | Some choice \<Rightarrow> (let (t, e) = choice_delta choice t in (t, e1 @ e)))"
  unfolding stream_chunk_def chunk_head_def Let_def ..

lemma stream_chunk_parts:
  "stream_chunk ch t =
     (let (t, e1) = chunk_head ch t; (t, e2) = maybe_text (chunk_text ch) t; (t, e3) = tool_deltas (chunk_calls ch) t
      in (chunk_stop ch t, e1 @ e2 @ e3))"
proof (cases "first_choice ch")
  case None
  then have "chunk_text ch = []" "chunk_calls ch = []" "chunk_stop ch t = t" for t
    by (simp_all add: chunk_text_def chunk_calls_def chunk_stop_def str_or_empty_def as_str_def as_array_def not_null_def)
  then show ?thesis using None by (simp add: stream_chunk_head maybe_text_def Let_def case_prod_unfold)
next
  case (Some choice)
  then show ?thesis by (simp add: stream_chunk_head choice_delta_parts Let_def case_prod_unfold)
qed

lemma chunk_head_keeps:
  assumes "if tl_started t then good cp t w else w = WStart \<and> tl_open t = None \<and> tl_next_index t = 0 \<and> tl_tools t = Map.empty \<and> cp = (None, {})"
  shows "keeps (chunk_head ch t) w cp"
  using assms
  by (cases "tl_started t") (auto simp: keeps_def chunk_head_def Let_def message_start_def good_def tools_known_def on_wire_def [of _ "WIdle 0"]
      split: option.splits)

lemma maybe_text_keeps: "good (cur, past) t w \<Longrightarrow> keeps (maybe_text s t) w (if s \<noteq> [] then (None, past \<union> set_option cur) else (cur, past))"
  using text_delta_keeps by (auto simp: maybe_text_def keeps_def)

lemma chunk_stop_good [simp]: "good cp (chunk_stop ch t) w = good cp t w"
  by (simp add: chunk_stop_def good_def tools_known_def split: option.splits)

lemma stream_chunk_keeps:
  assumes "if tl_started t then good (cur, past) t w else w = WStart \<and> tl_open t = None \<and> tl_next_index t = 0 \<and> tl_tools t = Map.empty \<and> (cur, past) = (None, {})"
    "orderly cur past (chunk_uses ch)"
  shows "keeps (stream_chunk ch t) w (foldl use_step (cur, past) (chunk_uses ch))"
proof -
  obtain t1 e1 where h: "chunk_head ch t = (t1, e1)" by fastforce
  obtain w1 where w1: "wire_run w e1 = Some w1" "good (cur, past) t1 w1"
    using chunk_head_keeps [OF assms(1), of ch] h by (auto simp: keeps_def)
  obtain t2 e2 where x: "maybe_text (chunk_text ch) t1 = (t2, e2)" by fastforce
  let ?cp = "if chunk_text ch \<noteq> [] then (None, past \<union> set_option cur) else (cur, past)"
  obtain w2 where w2: "wire_run w1 e2 = Some w2" "good ?cp t2 w2"
    using maybe_text_keeps [OF w1(2), of "chunk_text ch"] x by (auto simp: keeps_def)
  obtain cur2 past2 where cp: "?cp = (cur2, past2)" by fastforce
  have "orderly cur2 past2 (map (\<lambda>c. Tool (call_index c)) (chunk_calls ch))"
    using assms(2) cp by (auto simp: chunk_uses_def split: if_splits)
  then have "keeps (tool_deltas (chunk_calls ch) t2) w2 (foldl use_step (cur2, past2) (map (\<lambda>c. Tool (call_index c)) (chunk_calls ch)))"
    using w2(2) cp by (intro tool_deltas_keeps) simp_all
  moreover have "foldl use_step (cur, past) (chunk_uses ch) = foldl use_step (cur2, past2) (map (\<lambda>c. Tool (call_index c)) (chunk_calls ch))"
    using cp by (auto simp: chunk_uses_def split: if_splits)
  ultimately show ?thesis using h x w1(1) w2(1)
    by (auto simp: keeps_def stream_chunk_parts Let_def case_prod_unfold wire_run_append)
qed

section \<open>Whole streams\<close>

definition line_value :: "(rstr \<Rightarrow> json option) \<Rightarrow> rstr \<Rightarrow> json option" where
  "line_value parse line =
     (case strip_prefix (lit ''data:'') (trim_end line) of
        None \<Rightarrow> None
      | Some data \<Rightarrow> if trim data = [] \<or> trim data = lit ''[DONE]'' then None else parse (trim data))"

definition line_values :: "(rstr \<Rightarrow> json option) \<Rightarrow> rstr list \<Rightarrow> json list" where
  "line_values parse ls = concat (map (\<lambda>l. case line_value parse l of Some v \<Rightarrow> [v] | None \<Rightarrow> []) ls)"

lemma stream_line_value:
  "stream_line parse line t =
     (case line_value parse line of
        None \<Rightarrow> (t, [])
      | Some v \<Rightarrow> (case json_get (lit ''error'') v of
                    Some error \<Rightarrow> (t\<lparr>tl_closed := True\<rparr>, [error_event error])
                  | None \<Rightarrow> stream_chunk v t))"
  by (simp add: stream_line_def line_value_def Let_def split: option.splits)

lemma closed_steps [simp]:
  "tl_closed (fst (close_open t)) = tl_closed t" "tl_closed (fst (text_delta s t)) = tl_closed t"
  "tl_closed (fst (snd (open_tool k i n t))) = tl_closed t" "tl_closed (fst (tool_delta c t)) = tl_closed t"
  by (simp_all add: close_open_def text_delta_def open_tool_def tool_delta_def Let_def case_prod_unfold
      split: option.splits open_block.splits)

lemma closed_tools [simp]: "tl_closed (fst (tool_deltas cs t)) = tl_closed t"
  by (induction cs arbitrary: t) (simp_all add: Let_def case_prod_unfold)

lemma closed_chunk [simp]: "tl_closed (fst (stream_chunk ch t)) = tl_closed t"
  by (simp add: stream_chunk_parts chunk_head_def maybe_text_def chunk_stop_def message_start_def Let_def case_prod_unfold split: option.splits)

text \<open>Before the first chunk, or with the client.\<close>

definition in_step :: "nat option \<times> nat set \<Rightarrow> translator \<Rightarrow> wire_state \<Rightarrow> bool" where
  "in_step cp t w \<longleftrightarrow>
     (if tl_started t then good cp t w
      else w = WStart \<and> tl_open t = None \<and> tl_next_index t = 0 \<and> tl_tools t = Map.empty \<and> cp = (None, {}))"

lemma run_lines_keeps:
  assumes "in_step (cur, past) t w" "\<forall>v \<in> set (line_values parse ls). json_get (lit ''error'') v = None"
    "orderly cur past (concat (map chunk_uses (line_values parse ls)))" "\<not> tl_closed t"
  shows "(\<exists>w'. wire_run w (snd (run_lines parse ls t)) = Some w' \<and>
      in_step (foldl use_step (cur, past) (concat (map chunk_uses (line_values parse ls)))) (fst (run_lines parse ls t)) w') \<and>
    \<not> tl_closed (fst (run_lines parse ls t)) \<and>
    (line_values parse ls \<noteq> [] \<longrightarrow> tl_started (fst (run_lines parse ls t))) \<and>
    (line_values parse ls = [] \<longrightarrow> run_lines parse ls t = (t, []))"
  using assms
proof (induction ls arbitrary: cur past t w)
  case Nil
  then show ?case by (simp add: line_values_def)
next
  case (Cons l ls)
  show ?case
  proof (cases "line_value parse l")
    case None
    then have "line_values parse (l # ls) = line_values parse ls" "run_lines parse (l # ls) t = run_lines parse ls t"
      by (simp_all add: line_values_def stream_line_value Let_def)
    then show ?thesis using Cons.IH Cons.prems by simp
  next
    case (Some v)
    have vs: "line_values parse (l # ls) = v # line_values parse ls" using Some by (simp add: line_values_def)
    obtain t1 e1 where c: "stream_chunk v t = (t1, e1)" by fastforce
    have s: "stream_line parse l t = (t1, e1)" using Some Cons.prems(2) vs c by (simp add: stream_line_value)
    obtain cur1 past1 where u: "foldl use_step (cur, past) (chunk_uses v) = (cur1, past1)" by fastforce
    have o: "orderly cur past (chunk_uses v)" "orderly cur1 past1 (concat (map chunk_uses (line_values parse ls)))"
      using Cons.prems(3) vs u by (simp_all add: orderly_append)
    obtain w1 where w1: "wire_run w e1 = Some w1" "good (cur1, past1) t1 w1"
      using stream_chunk_keeps [OF _ o(1), of t w] Cons.prems(1) c u by (auto simp: keeps_def in_step_def)
    then have i: "in_step (cur1, past1) t1 w1" by (simp add: in_step_def good_def)
    have cl: "\<not> tl_closed t1" using Cons.prems(4) closed_chunk [of v t] c by simp
    have e: "\<forall>v \<in> set (line_values parse ls). json_get (lit ''error'') v = None" using Cons.prems(2) vs by simp
    have st: "tl_started t1" using w1 by (simp add: good_def)
    note ih = Cons.IH [OF i e o(2) cl]
    have "tl_started (fst (run_lines parse ls t1))" using ih st by (cases "line_values parse ls = []") auto
    then show ?thesis using ih w1(1) vs s u by (auto simp: Let_def case_prod_unfold wire_run_append)
  qed
qed

lemma finish_ends:
  assumes "good cp t w" "\<not> tl_closed t"
  shows "wire_run w (snd (finish_stream t)) = Some WDone"
proof (cases "tl_open t")
  case None
  then show ?thesis using assms by (simp add: finish_stream_def close_open_def good_def on_wire_def)
next
  case (Some b)
  then show ?thesis using assms by (cases b) (auto simp: finish_stream_def close_open_def good_def on_wire_def)
qed

lemma feeds_new: "feed_all parse cs new_translator =
    apfst (tl_pending_update (\<lambda>_. snd (cut_lines [] (concat cs)))) (run_lines parse (map from_utf8_lossy (fst (cut_lines [] (concat cs)))) new_translator)"
  by (simp add: feeds_as_feed new_translator_def feed_bytes_def drain_as_lines)

definition stream_values :: "(rstr \<Rightarrow> json option) \<Rightarrow> octet list list \<Rightarrow> json list" where
  "stream_values parse cs = line_values parse (map from_utf8_lossy (fst (cut_lines [] (concat cs))))"

definition translated :: "(rstr \<Rightarrow> json option) \<Rightarrow> octet list list \<Rightarrow> wire_event list" where
  "translated parse cs = (let (t, evs) = feed_all parse cs new_translator in evs @ snd (finish_stream t))"

lemma translated_well_formed:
  assumes "\<forall>v \<in> set (stream_values parse cs). json_get (lit ''error'') v = None"
    "orderly None {} (concat (map chunk_uses (stream_values parse cs)))"
  shows "if stream_values parse cs = [] then translated parse cs = [] else wire_run WStart (translated parse cs) = Some WDone"
proof -
  let ?ls = "map from_utf8_lossy (fst (cut_lines [] (concat cs)))"
  obtain t evs where r: "run_lines parse ?ls new_translator = (t, evs)" by fastforce
  let ?t = "t\<lparr>tl_pending := snd (cut_lines [] (concat cs))\<rparr>"
  have f: "feed_all parse cs new_translator = (?t, evs)" by (simp add: feeds_new r)
  have "in_step (None, {}) new_translator WStart" by (simp add: in_step_def new_translator_def)
  moreover have "\<not> tl_closed new_translator" by (simp add: new_translator_def)
  ultimately obtain w where w: "wire_run WStart evs = Some w"
      "in_step (foldl use_step (None, {}) (concat (map chunk_uses (stream_values parse cs)))) t w" "\<not> tl_closed t"
      "stream_values parse cs \<noteq> [] \<longrightarrow> tl_started t" "stream_values parse cs = [] \<longrightarrow> (t, evs) = (new_translator, [])"
    using run_lines_keeps [of None "{}" new_translator WStart parse ?ls] assms unfolding stream_values_def r fst_conv snd_conv by blast
  have sf: "snd (finish_stream ?t) = snd (finish_stream t)" by (simp add: finish_stream_def Let_def case_prod_unfold)
  show ?thesis
  proof (cases "stream_values parse cs = []")
    case True
    then show ?thesis using w(5) f by (simp add: translated_def finish_stream_def close_open_def new_translator_def)
  next
    case False
    then obtain cp where "good cp t w" using w by (auto simp: in_step_def)
    then show ?thesis using finish_ends [OF _ w(3)] False w(1) f sf by (simp add: translated_def wire_run_append)
  qed
qed

text \<open>C24 For a vendor's stream without an error object that does not come back to a tool call it had left, however it is cut,
  what goes out is one whole Anthropic message: started once, every block opened
  under the next number and closed before the next, deltas only for the open block and of its kind, then the closing
  figures and the end; and nothing at all for a stream without a chunk.
\<close>

theorem stream_well_formed:
  assumes "\<forall>v \<in> set (stream_values parse cs). json_get (lit ''error'') v = None"
    "orderly None {} (concat (map chunk_uses (stream_values parse cs)))"
  shows "if stream_values parse cs = [] then translated parse cs = [] else wire_run WStart (translated parse cs) = Some WDone"
  using assms by (rule translated_well_formed)

text \<open>Closing is final and closes everything: after it no block is open, a stream that began has its end and counts as
  closed, and closing again writes nothing.
\<close>

theorem finish_is_final:
  "(let (t', evs) = finish_stream t
    in tl_open t' = None \<and> (tl_started t \<longrightarrow> tl_closed t') \<and> finish_stream t' = (t', []) \<and>
       (tl_started t \<and> \<not> tl_closed t \<longrightarrow> last evs = MessageStop))"
  by (auto simp: finish_stream_def close_open_def Let_def split: option.splits)

section \<open>The prose\<close>

fun event_text :: "wire_event \<Rightarrow> rstr" where
  "event_text (TextDelta _ s) = s"
| "event_text _ = []"

definition all_text :: "wire_event list \<Rightarrow> rstr" where
  "all_text evs = concat (map event_text evs)"

lemma all_text_simps [simp]:
  "all_text [] = []" "all_text (e # es) = event_text e @ all_text es" "all_text (xs @ ys) = all_text xs @ all_text ys"
  by (simp_all add: all_text_def)

lemma text_steps [simp]:
  "all_text (snd (close_open t)) = []" "all_text (snd (text_delta s t)) = s" "all_text (push_arguments n s) = []"
  "all_text (snd (snd (open_tool k i name t))) = []" "all_text (snd (message_start ch t)) = []"
  by (simp_all add: close_open_def text_delta_def push_arguments_def open_tool_def message_start_def Let_def case_prod_unfold
      split: option.splits open_block.splits)

lemma text_tool [simp]: "all_text (snd (tool_delta c t)) = []"
  by (simp add: tool_delta_def Let_def case_prod_unfold split: option.splits)

lemma text_tools [simp]: "all_text (snd (tool_deltas cs t)) = []"
  by (induction cs arbitrary: t) (simp_all add: Let_def case_prod_unfold)

lemma text_chunk [simp]: "all_text (snd (stream_chunk ch t)) = chunk_text ch"
proof -
  have "all_text (snd (chunk_head ch t)) = []" by (simp add: chunk_head_def Let_def)
  moreover have "all_text (snd (maybe_text s t)) = s" for s t by (simp add: maybe_text_def)
  ultimately show ?thesis by (simp add: stream_chunk_parts Let_def case_prod_unfold)
qed

definition shown_text :: "json \<Rightarrow> rstr" where
  "shown_text v = (if json_get (lit ''error'') v = None then chunk_text v else [])"

lemma text_lines: "all_text (snd (run_lines parse ls t)) = concat (map shown_text (line_values parse ls))"
proof (induction ls arbitrary: t)
  case (Cons l ls)
  have "all_text (snd (stream_line parse l t)) = concat (map shown_text (line_values parse [l]))"
    by (simp add: stream_line_value line_values_def shown_text_def error_event_def split: option.splits)
  then show ?case using Cons.IH by (simp add: Let_def case_prod_unfold line_values_def)
qed (simp add: line_values_def)

text \<open>No prose is lost, doubled or moved: the text of the deltas written, in order, is the text of the chunks that came,
  in order, whatever tool calls and errors stood between them.
\<close>

theorem prose_is_kept: "all_text (translated parse cs) = concat (map shown_text (stream_values parse cs))"
proof -
  have "all_text (snd (finish_stream t)) = []" for t by (simp add: finish_stream_def Let_def case_prod_unfold)
  then show ?thesis by (simp add: translated_def feeds_new Let_def case_prod_unfold stream_values_def text_lines)
qed

section \<open>Where two calls get mixed\<close>

definition call_delta :: "nat \<Rightarrow> rstr option \<Rightarrow> rstr \<Rightarrow> json" where
  "call_delta i name args =
     JObj [(lit ''index'', JNum (U64 i)),
           (lit ''function'', JObj ((case name of Some n \<Rightarrow> [(lit ''name'', JStr n)] | None \<Rightarrow> []) @ [(lit ''arguments'', JStr args)]))]"

lemma call_delta_reads [simp]:
  "call_index (call_delta i name args) = i"
  "as_str (call_function (lit ''name'') (call_delta i name args)) = name"
  "str_or_empty (call_function (lit ''arguments'') (call_delta i name args)) = args"
  "json_get (lit ''id'') (call_delta i name args) = None"
  by (cases name; simp add: call_delta_def call_index_def call_function_def u64_or_0_def as_u64_def json_get_obj as_str_def str_or_empty_def)+

text \<open>The fragments of a call that has no name yet are held in one place for all calls: when the next call is another one
  and brings its name, they go out as the start of that call's arguments.
\<close>

theorem nameless_fragments_join_next_call:
  assumes "tl_tools t i = None" "tl_tools t j = None" "tl_open t = None" "tl_assembling t = None" "a @ b \<noteq> []"
  shows "snd (tool_deltas [call_delta i None a, call_delta j (Some name) b] t) =
    [BlockStart (tl_next_index t) (ToolBlock [] name), JsonDelta (tl_next_index t) (a @ b)]"
proof -
  let ?a = "\<lparr>am_id = None, am_name = None, am_arguments = a\<rparr>"
  have "tool_delta (call_delta i None a) t = (t\<lparr>tl_assembling := Some ?a\<rparr>, [])"
    using assms(1,4) by (simp add: tool_delta_def assemble_def as_str_def [of None] Let_def)
  moreover have "snd (tool_delta (call_delta j (Some name) b) (t\<lparr>tl_assembling := Some ?a\<rparr>)) =
      [BlockStart (tl_next_index t) (ToolBlock [] name), JsonDelta (tl_next_index t) (a @ b)]"
    using assms(2,3,5) by (simp add: tool_delta_def assemble_def as_str_def [of None] Let_def open_tool_def close_open_def push_arguments_def)
  ultimately show ?thesis by (simp add: Let_def case_prod_unfold)
qed

text \<open>A vendor that interleaves the arguments of two calls gets a delta sent to a block that is closed, which is not a
  stream a client accepts.
\<close>

theorem interleaved_calls_break_stream:
  assumes "i \<noteq> j" "tl_tools t = Map.empty" "tl_open t = None" "tl_assembling t = None" "a \<noteq> []"
  shows "wire_run (WIdle (tl_next_index t))
    (snd (tool_deltas [call_delta i (Some m) [], call_delta j (Some n) [], call_delta i None a] t)) = None"
  using assms by (simp add: tool_delta_def assemble_def as_str_def [of None] Let_def open_tool_def close_open_def push_arguments_def)

section \<open>Samples\<close>

definition hello_chunk :: json where
  "hello_chunk = JObj [(lit ''choices'', JArr [JObj [(lit ''delta'', JObj [(lit ''content'', JStr (lit ''hi''))])]])]"

text \<open>\<^verbatim>\<open>data:x\<close> and a line feed, in two pieces, every payload read as the chunk above.\<close>

definition hello_bytes :: "octet list list" where
  "hello_bytes = [[100, 97, 116], [97, 58, 120, 10]]"

lemma hello_values: "stream_values (\<lambda>_. Some hello_chunk) hello_bytes = [hello_chunk]"
proof -
  have c: "cut_lines [] (concat hello_bytes) = ([[100, 97, 116, 97, 58, 120]], [])" by (simp add: hello_bytes_def)
  have l: "from_utf8_lossy [100, 97, 116, 97, 58, 120] = [100, 97, 116, 97, 58, 120]"
    by (simp add: from_utf8_lossy_def utf8_tail_def utf8_scalar_def)
  have "line_value (\<lambda>_. Some hello_chunk) [100, 97, 116, 97, 58, 120] = Some hello_chunk"
    by (simp add: line_value_def rust_simps)
  then show ?thesis by (simp add: stream_values_def line_values_def c l)
qed

theorem stream_cut_anywhere_witness:
  "feed_all (\<lambda>_. Some hello_chunk) hello_bytes new_translator = feed_bytes (\<lambda>_. Some hello_chunk) (concat hello_bytes) new_translator"
  by (rule stream_cut_anywhere) (simp add: new_translator_def)

theorem stream_well_formed_witness:
  "wire_run WStart (translated (\<lambda>_. Some hello_chunk) hello_bytes) = Some WDone"
proof -
  have "chunk_calls hello_chunk = []"
    by (simp add: hello_chunk_def chunk_calls_def first_choice_def delta_field_def json_get_obj as_array_def)
  then show ?thesis using stream_well_formed [of "\<lambda>_. Some hello_chunk" hello_bytes]
    by (simp add: hello_values chunk_uses_def) (simp add: hello_chunk_def json_get_obj)
qed

theorem nameless_fragments_join_next_call_witness:
  "snd (tool_deltas [call_delta 0 None (lit ''{''), call_delta 1 (Some (lit ''Read'')) (lit ''}'')] new_translator) =
     [BlockStart 0 (ToolBlock [] (lit ''Read'')), JsonDelta 0 (lit ''{'' @ lit ''}'')]"
  using nameless_fragments_join_next_call [of new_translator 0 1 "lit ''{''" "lit ''}''" "lit ''Read''"]
  by (simp add: new_translator_def) (simp add: lit_def)

theorem interleaved_calls_break_stream_witness:
  "wire_run (WIdle 0)
    (snd (tool_deltas [call_delta 0 (Some (lit ''Read'')) [], call_delta 1 (Some (lit ''Bash'')) [], call_delta 0 None (lit ''{}'')] new_translator)) = None"
  using interleaved_calls_break_stream [of 0 1 new_translator "lit ''{}''" "lit ''Read''" "lit ''Bash''"]
  by (simp add: new_translator_def) (simp add: lit_def)

end
