(* ===== verification/Reply.thy ===== *)
theory Reply
  imports Turn Openai_Stream
begin

text \<open>
  How the agent gets a reply: the retry policy of \<^verbatim>\<open>src/crates/catbus-agent/src/retry.rs\<close>, the sender of \<^verbatim>\<open>agent.rs\<close>
  (\<^verbatim>\<open>send_streaming\<close>, \<^verbatim>\<open>api_error\<close>) and the \<^verbatim>\<open>Assembler\<close> of \<^verbatim>\<open>stream.rs\<close>, which puts a streamed reply back together. \<open>parse\<close> is
  \<^verbatim>\<open>serde_json::from_str\<close> with its error text. The last part follows a reply from the vendor through the proxy's translator into
  the agent.
\<close>

section \<open>Retrying\<close>

definition max_attempts :: nat where
  "max_attempts = 4"

definition base_delay :: nat where
  "base_delay = 500"

definition max_delay :: nat where
  "max_delay = 30000"

definition is_retryable :: "nat \<Rightarrow> bool" where
  "is_retryable status \<longleftrightarrow> status \<in> {408, 429, 500, 502, 503, 504, 529}"

text \<open>Milliseconds.\<close>

definition delay_for :: "nat \<Rightarrow> nat option \<Rightarrow> nat" where
  "delay_for attempt retry_after =
     (let backoff = base_delay * 2 ^ min (attempt - 1) 5
      in min (case retry_after of Some d \<Rightarrow> d | None \<Rightarrow> backoff) max_delay)"

text \<open>\<open>http_date\<close> reads the date form as seconds; \<open>now\<close> is the clock in seconds.\<close>

definition parse_retry_after :: "(rstr \<Rightarrow> int option) \<Rightarrow> int \<Rightarrow> rstr \<Rightarrow> nat option" where
  "parse_retry_after http_date now value =
     (let trimmed = trim value
      in case parse_uint u64_max trimmed of
           Some seconds \<Rightarrow> Some (1000 * seconds)
         | None \<Rightarrow> map_option (\<lambda>w. 1000 * nat (max (w - now) 0)) (http_date trimmed))"

section \<open>The assembler\<close>

record usage =
  ug_input :: nat
  ug_output :: nat
  ug_cache_read :: nat
  ug_cache_write :: nat

definition no_usage :: usage where
  "no_usage = \<lparr>ug_input = 0, ug_output = 0, ug_cache_read = 0, ug_cache_write = 0\<rparr>"

definition count_of :: "json \<Rightarrow> rstr list \<Rightarrow> nat" where
  "count_of u names = (case List.map_filter (\<lambda>name. as_u64 (json_get name u)) names of [] \<Rightarrow> 0 | n # _ \<Rightarrow> n)"

definition usage_of :: "json \<Rightarrow> usage" where
  "usage_of u =
     \<lparr>ug_input = count_of u [lit ''input_tokens'', lit ''prompt_tokens''],
      ug_output = count_of u [lit ''output_tokens'', lit ''completion_tokens''],
      ug_cache_read = count_of u [lit ''cache_read_input_tokens'', lit ''cache_read_tokens'', lit ''cached_tokens''],
      ug_cache_write = count_of u [lit ''cache_creation_input_tokens'', lit ''cache_write_tokens'']\<rparr>"

definition merge_usage :: "usage \<Rightarrow> usage \<Rightarrow> usage" where
  "merge_usage mine later =
     \<lparr>ug_input = (if 0 < ug_input later then ug_input later else ug_input mine),
      ug_output = (if 0 < ug_output later then ug_output later else ug_output mine),
      ug_cache_read = (if 0 < ug_cache_read later then ug_cache_read later else ug_cache_read mine),
      ug_cache_write = (if 0 < ug_cache_write later then ug_cache_write later else ug_cache_write mine)\<rparr>"

datatype partial =
    PText rstr
  | PThinking rstr "rstr option"
  | PTool rstr rstr rstr "json option"

record assembler =
  as_partial :: "octet list"
  as_model :: rstr
  as_usage :: usage
  as_stop :: "rstr option"
  as_blocks :: "partial option list"
  as_reasoning :: rstr
  as_answer :: rstr
  as_bytes :: nat
  as_started :: bool
  as_done :: bool

definition new_assembler :: assembler where
  "new_assembler =
     \<lparr>as_partial = [], as_model = [], as_usage = no_usage, as_stop = None, as_blocks = [], as_reasoning = [], as_answer = [],
      as_bytes = 0, as_started = False, as_done = False\<rparr>"

definition index_of_event :: "json \<Rightarrow> nat" where
  "index_of_event event = u64_or_0 (json_get (lit ''index'') event)"

definition put_block :: "nat \<Rightarrow> partial \<Rightarrow> partial option list \<Rightarrow> partial option list" where
  "put_block index b bs = (if length bs \<le> index then bs @ replicate (index + 1 - length bs) None else bs)[index := Some b]"

text \<open>What is open at the index, changed.\<close>

definition at_block :: "nat \<Rightarrow> (partial \<Rightarrow> partial) \<Rightarrow> partial option list \<Rightarrow> partial option list" where
  "at_block index f bs = (if index < length bs then bs[index := map_option f (bs ! index)] else bs)"

definition begin_message :: "json \<Rightarrow> assembler \<Rightarrow> assembler" where
  "begin_message event a =
     (case json_get (lit ''message'') event of
        None \<Rightarrow> a
      | Some message \<Rightarrow>
          a\<lparr>as_started := True,
            as_model := (case as_str (json_get (lit ''model'') message) of Some m \<Rightarrow> m | None \<Rightarrow> as_model a),
            as_usage := (case json_get (lit ''usage'') message of Some u \<Rightarrow> usage_of u | None \<Rightarrow> as_usage a)\<rparr>)"

definition opened_block :: "json option \<Rightarrow> partial option" where
  "opened_block block =
     (let field = (\<lambda>k. str_or_empty (Option.bind block (json_get k)))
      in case as_str (Option.bind block (json_get (lit ''type''))) of
           None \<Rightarrow> None
         | Some kind \<Rightarrow>
             if kind = lit ''text'' then Some (PText (field (lit ''text'')))
             else if kind = lit ''thinking''
             then Some (PThinking (field (lit ''thinking'')) (as_str (Option.bind block (json_get (lit ''signature'')))))
             else if kind = lit ''tool_use''
             then Some (PTool (field (lit ''id'')) (field (lit ''name'')) [] (Option.bind block (json_get (lit ''input''))))
             else None)"

definition block_opens :: "json \<Rightarrow> assembler \<Rightarrow> assembler" where
  "block_opens event a =
     (case opened_block (json_get (lit ''content_block'') event) of
        None \<Rightarrow> a
      | Some b \<Rightarrow> a\<lparr>as_blocks := put_block (index_of_event event) b (as_blocks a)\<rparr>)"

fun push_text :: "rstr \<Rightarrow> partial \<Rightarrow> partial" where
  "push_text piece (PText t) = PText (t @ piece)"
| "push_text piece b = b"

fun push_thinking :: "rstr \<Rightarrow> partial \<Rightarrow> partial" where
  "push_thinking piece (PThinking t sig) = PThinking (t @ piece) sig"
| "push_thinking piece b = b"

fun set_signature :: "rstr \<Rightarrow> partial \<Rightarrow> partial" where
  "set_signature sig (PThinking t _) = PThinking t (Some sig)"
| "set_signature sig b = b"

fun push_json :: "rstr \<Rightarrow> partial \<Rightarrow> partial" where
  "push_json piece (PTool i n j inp) = PTool i n (j @ piece) inp"
| "push_json piece b = b"

definition counted :: "rstr \<Rightarrow> assembler \<Rightarrow> assembler" where
  "counted piece a = a\<lparr>as_bytes := sat_add (as_bytes a) (byte_len piece)\<rparr>"

definition block_grows :: "json \<Rightarrow> assembler \<Rightarrow> assembler" where
  "block_grows event a =
     (case json_get (lit ''delta'') event of
        None \<Rightarrow> a
      | Some delta \<Rightarrow>
          (let field = (\<lambda>k. str_or_empty (json_get k delta));
               index = index_of_event event
           in case as_str (json_get (lit ''type'') delta) of
                None \<Rightarrow> a
              | Some kind \<Rightarrow>
                  if kind = lit ''text_delta''
                  then (let piece = field (lit ''text''); a = counted piece a
                        in a\<lparr>as_blocks := at_block index (push_text piece) (as_blocks a), as_answer := as_answer a @ piece\<rparr>)
                  else if kind = lit ''thinking_delta''
                  then (let piece = field (lit ''thinking''); a = counted piece a
                        in a\<lparr>as_blocks := at_block index (push_thinking piece) (as_blocks a), as_reasoning := as_reasoning a @ piece\<rparr>)
                  else if kind = lit ''signature_delta''
                  then a\<lparr>as_blocks := at_block index (set_signature (field (lit ''signature''))) (as_blocks a)\<rparr>
                  else if kind = lit ''input_json_delta''
                  then (let piece = field (lit ''partial_json''); a = counted piece a
                        in a\<lparr>as_blocks := at_block index (push_json piece) (as_blocks a)\<rparr>)
                  else a))"

fun close_json :: "(rstr \<Rightarrow> rstr + json) \<Rightarrow> partial \<Rightarrow> partial" where
  "close_json parse (PTool i n j inp) =
     (if j = [] then PTool i n j inp else case parse j of Inr v \<Rightarrow> PTool i n j (Some v) | Inl _ \<Rightarrow> PTool i n j inp)"
| "close_json parse b = b"

definition block_ends :: "(rstr \<Rightarrow> rstr + json) \<Rightarrow> json \<Rightarrow> assembler \<Rightarrow> assembler" where
  "block_ends parse event a = a\<lparr>as_blocks := at_block (index_of_event event) (close_json parse) (as_blocks a)\<rparr>"

definition message_closes :: "json \<Rightarrow> assembler \<Rightarrow> assembler" where
  "message_closes event a =
     (let a = (case as_str (Option.bind (json_get (lit ''delta'') event) (json_get (lit ''stop_reason''))) of
                 Some reason \<Rightarrow> a\<lparr>as_stop := Some reason\<rparr>
               | None \<Rightarrow> a)
      in case json_get (lit ''usage'') event of
           Some u \<Rightarrow> a\<lparr>as_usage := merge_usage (as_usage a) (usage_of u)\<rparr>
         | None \<Rightarrow> a)"

definition read_event :: "(rstr \<Rightarrow> rstr + json) \<Rightarrow> json \<Rightarrow> assembler \<Rightarrow> rstr + assembler" where
  "read_event parse event a =
     (case as_str (json_get (lit ''type'') event) of
        None \<Rightarrow> Inr a
      | Some kind \<Rightarrow>
          if kind = lit ''message_start'' then Inr (begin_message event a)
          else if kind = lit ''content_block_start'' then Inr (block_opens event a)
          else if kind = lit ''content_block_delta'' then Inr (block_grows event a)
          else if kind = lit ''content_block_stop'' then Inr (block_ends parse event a)
          else if kind = lit ''message_delta'' then Inr (message_closes event a)
          else if kind = lit ''message_stop'' then Inr (a\<lparr>as_done := True\<rparr>)
          else if kind = lit ''error''
          then Inl (case as_str (Option.bind (json_get (lit ''error'') event) (json_get (lit ''message''))) of
                      Some m \<Rightarrow> m
                    | None \<Rightarrow> lit ''the provider reported an error mid-stream'')
          else Inr a)"

text \<open>\<^verbatim>\<open>str::from_utf8\<close>: the text, if every sequence is valid.\<close>

function utf8_nats :: "nat list \<Rightarrow> rstr option" where
  "utf8_nats [] = Some []"
| "utf8_nats (b # bs) =
     (case utf8_tail b of
        None \<Rightarrow> None
      | Some rs \<Rightarrow>
          if utf8_match rs bs = length rs
          then map_option (Cons (utf8_scalar b (take (length rs) bs))) (utf8_nats (drop (length rs) bs))
          else None)"
  by pat_completeness auto
termination
  by (relation "measure length") auto

definition from_utf8 :: "octet list \<Rightarrow> rstr option" where
  "from_utf8 bs = utf8_nats (map unat bs)"

text \<open>A complete line, its line feed included.\<close>

definition strip_cr :: "octet list \<Rightarrow> octet list" where
  "strip_cr line = (if line \<noteq> [] \<and> last line = 13 then butlast line else line)"

definition read_line :: "(rstr \<Rightarrow> rstr + json) \<Rightarrow> octet list \<Rightarrow> assembler \<Rightarrow> rstr + assembler" where
  "read_line parse line a =
     (case from_utf8 (strip_cr line) of
        None \<Rightarrow> Inr a
      | Some txt \<Rightarrow>
          (case strip_prefix (lit ''data:'') txt of
             None \<Rightarrow> Inr a
           | Some data \<Rightarrow>
               (let data = trim data
                in if data = [] \<or> data = lit ''[DONE]'' then Inr a
                   else case parse data of
                          Inl e \<Rightarrow> Inl (lit ''a streamed event was not JSON: '' @ e)
                        | Inr event \<Rightarrow> read_event parse event a)))"

function take_lines :: "(rstr \<Rightarrow> rstr + json) \<Rightarrow> octet list \<Rightarrow> assembler \<Rightarrow> rstr + assembler" where
  "take_lines parse bytes a =
     (if 10 \<in> set bytes
      then (let line = takeWhile (\<lambda>b. b \<noteq> 10) bytes
            in case read_line parse (line @ [10]) a of
                 Inl e \<Rightarrow> Inl e
               | Inr a \<Rightarrow> take_lines parse (drop (Suc (length line)) bytes) a)
      else Inr (a\<lparr>as_partial := bytes\<rparr>))"
  by pat_completeness auto
termination
  by (relation "measure (\<lambda>(_, bytes, _). length bytes)") (auto intro!: diff_less dest: length_pos_if_in_set)

declare take_lines.simps [simp del]

definition assemble_bytes :: "(rstr \<Rightarrow> rstr + json) \<Rightarrow> octet list \<Rightarrow> assembler \<Rightarrow> rstr + assembler" where
  "assemble_bytes parse chunk a = take_lines parse (as_partial a @ chunk) a"

record messages_resp =
  mr_content :: "block list"
  mr_model :: rstr
  mr_stop :: "rstr option"
  mr_usage :: usage

fun finished_block :: "partial \<Rightarrow> block list" where
  "finished_block (PText t) = (if t = [] then [] else [BText t])"
| "finished_block (PThinking t sig) = [BThinking t sig]"
| "finished_block (PTool i n _ inp) = [BToolUse i n (case inp of Some v \<Rightarrow> v | None \<Rightarrow> JObj [])]"

definition finish_reply :: "assembler \<Rightarrow> rstr + messages_resp" where
  "finish_reply a =
     (if \<not> as_done a then Inl (lit ''the streamed reply ended before `message_stop`'')
      else Inr \<lparr>mr_content = concat (map (\<lambda>b. case b of Some p \<Rightarrow> finished_block p | None \<Rightarrow> []) (as_blocks a)),
                mr_model = as_model a, mr_stop = as_stop a, mr_usage = as_usage a\<rparr>)"

section \<open>Sending\<close>

datatype body_end = BodyEnded | BodyBroke rstr

record http_reply =
  hr_status :: nat
  hr_retry_after :: "rstr option"
  hr_event_stream :: bool
  hr_chunks :: "octet list list"
  hr_end :: body_end

text \<open>\<^verbatim>\<open>truncate\<close>: the longest run of whole characters within the bytes.\<close>

fun clip_bytes :: "nat \<Rightarrow> rstr \<Rightarrow> rstr" where
  "clip_bytes n [] = []"
| "clip_bytes n (c # cs) = (if length (utf8_char c) \<le> n then c # clip_bytes (n - length (utf8_char c)) cs else [])"

definition error_field :: "json option \<Rightarrow> rstr list \<Rightarrow> rstr option" where
  "error_field parsed path =
     (case as_str (foldl (\<lambda>v k. Option.bind v (json_get k)) parsed path) of
        None \<Rightarrow> None
      | Some s \<Rightarrow> if trim s = [] then None else Some (trim s))"

definition provider_error :: "(rstr \<Rightarrow> rstr + json) \<Rightarrow> (nat \<Rightarrow> rstr) \<Rightarrow> nat \<Rightarrow> rstr \<Rightarrow> rstr" where
  "provider_error parse status_text status body =
     (let parsed = (case parse body of Inr v \<Rightarrow> Some v | Inl _ \<Rightarrow> None);
          kind = (case error_field parsed [lit ''error'', lit ''type''] of Some k \<Rightarrow> [32, 8212, 32] @ k | None \<Rightarrow> []);
          message = (case error_field parsed [lit ''error'', lit ''message''] of
                       Some m \<Rightarrow> m
                     | None \<Rightarrow> (case error_field parsed [lit ''message''] of
                                  Some m \<Rightarrow> m
                                | None \<Rightarrow> (case error_field parsed [lit ''error''] of Some m \<Rightarrow> m | None \<Rightarrow> trim body)))
      in status_text status @ kind @ lit '': '' @ clip_bytes 300 message @
         (if is_retryable status then [10] @ lit ''  retried, and the provider was still failing'' else []))"

text \<open>The chunks of a streamed body, read until the reply says it is done.\<close>

fun read_chunks :: "(rstr \<Rightarrow> rstr + json) \<Rightarrow> octet list list \<Rightarrow> body_end \<Rightarrow> assembler \<Rightarrow> agent_error + assembler" where
  "read_chunks parse [] BodyEnded a = Inr a"
| "read_chunks parse [] (BodyBroke e) a = Inl (HttpFailed e)"
| "read_chunks parse (c # cs) last_read a =
     (case assemble_bytes parse c a of
        Inl e \<Rightarrow> Inl (ApiFailed (lit ''stream: '' @ e))
      | Inr a \<Rightarrow> if as_done a then Inr a else read_chunks parse cs last_read a)"

definition read_streamed :: "(rstr \<Rightarrow> rstr + json) \<Rightarrow> http_reply \<Rightarrow> agent_error + messages_resp" where
  "read_streamed parse resp =
     (case read_chunks parse (hr_chunks resp) (hr_end resp) new_assembler of
        Inl e \<Rightarrow> Inl e
      | Inr a \<Rightarrow> (case finish_reply a of Inl e \<Rightarrow> Inl (ApiFailed e) | Inr r \<Rightarrow> Inr r))"

text \<open>
  \<open>meets n\<close> is what the \<open>n\<close>-th request meets: no connection, or a reply. \<open>body_text\<close> is \<^verbatim>\<open>Response::text\<close>, \<open>decode\<close> the derived
  reader of a whole reply. The waits come back with the result.
\<close>

record sender =
  sd_parse :: "rstr \<Rightarrow> rstr + json"
  sd_decode :: "rstr \<Rightarrow> rstr + messages_resp"
  sd_body_text :: "octet list \<Rightarrow> rstr"
  sd_status_text :: "nat \<Rightarrow> rstr"
  sd_hint :: "rstr \<Rightarrow> nat option"

definition whole_text :: "sender \<Rightarrow> http_reply \<Rightarrow> agent_error + rstr" where
  "whole_text s resp =
     (case hr_end resp of BodyBroke e \<Rightarrow> Inl (HttpFailed e) | BodyEnded \<Rightarrow> Inr (sd_body_text s (concat (hr_chunks resp))))"

definition read_success :: "sender \<Rightarrow> http_reply \<Rightarrow> agent_error + messages_resp" where
  "read_success s resp =
     (if hr_event_stream resp then read_streamed (sd_parse s) resp
      else case whole_text s resp of
             Inl e \<Rightarrow> Inl e
           | Inr txt \<Rightarrow>
               (case sd_decode s txt of
                  Inr r \<Rightarrow> Inr r
                | Inl e \<Rightarrow> Inl (ApiFailed (lit ''the reply from the relay did not decode: '' @ e @ [10] @ lit ''  first bytes: '' @ clip_bytes 400 txt))))"

function send_from :: "sender \<Rightarrow> (nat \<Rightarrow> rstr + http_reply) \<Rightarrow> nat \<Rightarrow> nat list \<times> (agent_error + messages_resp)" where
  "send_from s meets attempt =
     (case meets attempt of
        Inl e \<Rightarrow> ([], Inl (HttpFailed e))
      | Inr resp \<Rightarrow>
          if 200 \<le> hr_status resp \<and> hr_status resp < 300 then ([], read_success s resp)
          else case whole_text s resp of
                 Inl e \<Rightarrow> ([], Inl e)
               | Inr txt \<Rightarrow>
                   if is_retryable (hr_status resp) \<and> attempt < max_attempts
                   then (let wait = delay_for (attempt + 1) (Option.bind (hr_retry_after resp) (sd_hint s));
                             (waits, r) = send_from s meets (attempt + 1)
                         in (wait # waits, r))
                   else ([], Inl (ApiFailed (provider_error (sd_parse s) (sd_status_text s) (hr_status resp) txt))))"
  by pat_completeness auto
termination
  by (relation "measure (\<lambda>(_, _, attempt). max_attempts - attempt)") auto

declare send_from.simps [simp del]

definition send_streaming :: "sender \<Rightarrow> (nat \<Rightarrow> rstr + http_reply) \<Rightarrow> nat list \<times> (agent_error + messages_resp)" where
  "send_streaming s meets = send_from s meets 1"

section \<open>Waiting\<close>

text \<open>The last answer, taken as final.\<close>

definition last_word :: "sender \<Rightarrow> rstr + http_reply \<Rightarrow> agent_error + messages_resp" where
  "last_word s answer =
     (case answer of
        Inl e \<Rightarrow> Inl (HttpFailed e)
      | Inr resp \<Rightarrow>
          if 200 \<le> hr_status resp \<and> hr_status resp < 300 then read_success s resp
          else case whole_text s resp of
                 Inl e \<Rightarrow> Inl e
               | Inr txt \<Rightarrow> Inl (ApiFailed (provider_error (sd_parse s) (sd_status_text s) (hr_status resp) txt)))"

definition asks_again :: "sender \<Rightarrow> rstr + http_reply \<Rightarrow> bool" where
  "asks_again s answer \<longleftrightarrow>
     (case answer of Inl _ \<Rightarrow> False | Inr resp \<Rightarrow> is_retryable (hr_status resp) \<and> (\<exists>txt. whole_text s resp = Inr txt))"

definition hint_of :: "sender \<Rightarrow> rstr + http_reply \<Rightarrow> nat option" where
  "hint_of s answer = (case answer of Inl _ \<Rightarrow> None | Inr resp \<Rightarrow> Option.bind (hr_retry_after resp) (sd_hint s))"

lemma send_from_step:
  "send_from s meets attempt =
     (if asks_again s (meets attempt) \<and> attempt < max_attempts
      then apfst (Cons (delay_for (attempt + 1) (hint_of s (meets attempt)))) (send_from s meets (attempt + 1))
      else ([], last_word s (meets attempt)))"
  by (subst send_from.simps)
    (auto simp: asks_again_def last_word_def hint_of_def is_retryable_def apfst_def map_prod_def case_prod_unfold Let_def split: sum.splits)

lemma send_from_spec:
  assumes "attempt \<le> max_attempts" "send_from s meets attempt = (ws, r)"
  shows "attempt + length ws \<le> max_attempts \<and>
    (\<forall>n < length ws. asks_again s (meets (attempt + n)) \<and> ws ! n = delay_for (attempt + n + 1) (hint_of s (meets (attempt + n)))) \<and>
    r = last_word s (meets (attempt + length ws)) \<and>
    (asks_again s (meets (attempt + length ws)) \<longrightarrow> attempt + length ws = max_attempts)"
  using assms
proof (induction "max_attempts - attempt" arbitrary: attempt ws)
  case 0
  then show ?case by (subst (asm) send_from_step) auto
next
  case (Suc d)
  show ?case
  proof (cases "asks_again s (meets attempt)")
    case True
    obtain ws' where w: "ws = delay_for (attempt + 1) (hint_of s (meets attempt)) # ws'" "send_from s meets (attempt + 1) = (ws', r)"
    proof -
      have "attempt < max_attempts" using Suc.hyps(2) by simp
      then have "send_from s meets attempt =
          apfst (Cons (delay_for (attempt + 1) (hint_of s (meets attempt)))) (send_from s meets (attempt + 1))"
        using True by (simp add: send_from_step [of s meets attempt])
      then show ?thesis using that Suc.prems(2) by (cases "send_from s meets (attempt + 1)") auto
    qed
    have ih: "attempt + 1 + length ws' \<le> max_attempts \<and>
      (\<forall>n < length ws'. asks_again s (meets (attempt + 1 + n)) \<and>
         ws' ! n = delay_for (attempt + 1 + n + 1) (hint_of s (meets (attempt + 1 + n)))) \<and>
      r = last_word s (meets (attempt + 1 + length ws')) \<and>
      (asks_again s (meets (attempt + 1 + length ws')) \<longrightarrow> attempt + 1 + length ws' = max_attempts)"
      by (rule Suc.hyps(1)) (use Suc.hyps(2) Suc.prems w in auto)
    have "asks_again s (meets (attempt + n)) \<and> ws ! n = delay_for (attempt + n + 1) (hint_of s (meets (attempt + n)))"
      if "n < length ws" for n
      using that ih w(1) True by (cases n) auto
    then show ?thesis using ih w(1) by simp
  next
    case False
    then show ?thesis using Suc.prems by (subst (asm) send_from_step) auto
  qed
qed

lemma delay_le: "delay_for attempt hint \<le> max_delay"
  by (simp add: delay_for_def Let_def)

text \<open>C33 A request is sent at most four times, and again only after a refusal that says "later"; a wait is the server's or
  doubles from one second, never above thirty; what the turn gets is the answer that was not waited out, or the fourth.
\<close>

theorem sending_is_bounded:
  assumes "send_streaming s meets = (waits, r)"
  shows "length waits \<le> 3 \<and> (\<forall>w \<in> set waits. w \<le> 30000) \<and> (\<forall>n < length waits. asks_again s (meets (Suc n))) \<and>
    r = last_word s (meets (Suc (length waits))) \<and> (asks_again s (meets (Suc (length waits))) \<longrightarrow> length waits = 3) \<and>
    ((\<forall>n. hint_of s (meets n) = None) \<longrightarrow> waits = take (length waits) [1000, 2000, 4000])"
proof -
  note sp = send_from_spec [of 1 s meets waits r, simplified max_attempts_def]
  have d: "delay_for (Suc (Suc n)) None = [1000, 2000, 4000] ! n" if "n < 3" for n
  proof -
    have "n = 0 \<or> n = 1 \<or> n = 2" using that by linarith
    then show ?thesis by (auto simp: delay_for_def base_delay_def max_delay_def)
  qed
  have len: "length waits \<le> 3" using sp assms by (simp add: send_streaming_def)
  have all: "asks_again s (meets (Suc n)) \<and> waits ! n = delay_for (Suc (Suc n)) (hint_of s (meets (Suc n)))" if "n < length waits" for n
    using sp assms that by (simp add: send_streaming_def)
  have "\<forall>w \<in> set waits. w \<le> 30000" using all delay_le by (auto simp: in_set_conv_nth max_delay_def)
  moreover have "waits = take (length waits) [1000, 2000, 4000]" if "\<forall>n. hint_of s (meets n) = None"
    by (rule nth_equalityI) (use len all that d in auto)
  ultimately show ?thesis using sp assms all len by (simp add: send_streaming_def)
qed

text \<open>
  Against the module's comments: a hint of zero seconds is waited out as zero, and the first wait is twice the delay
  called the first.
\<close>

theorem zero_hint_spins:
  "delay_for attempt (Some 0) = 0" "delay_for 2 None = 2 * base_delay"
  by (simp_all add: delay_for_def base_delay_def max_delay_def)

section \<open>Bytes and text\<close>

definition scalar_value :: "rchar \<Rightarrow> bool" where
  "scalar_value c \<longleftrightarrow> c < 55296 \<or> (57344 \<le> c \<and> c < 1114112)"

lemma unat_octet: "n < 256 \<Longrightarrow> unat (of_nat n :: octet) = n"
  by (simp add: unat_of_nat take_bit_nat_def)

lemma char_nats:
  assumes "c < 1114112"
  shows "map unat (utf8_char c) =
     (if c < 128 then [c]
      else if c < 2048 then [192 + c div 64, 128 + c mod 64]
      else if c < 65536 then [224 + c div 4096, 128 + c div 64 mod 64, 128 + c mod 64]
      else [240 + c div 262144, 128 + c div 4096 mod 64, 128 + c div 64 mod 64, 128 + c mod 64])"
proof -
  have "c mod 64 < 64" "c div 64 mod 64 < 64" "c div 4096 mod 64 < 64" by simp_all
  moreover have "c < 2048 \<Longrightarrow> c div 64 < 32" "c < 65536 \<Longrightarrow> c div 4096 < 16" by (simp_all add: less_mult_imp_div_less)
  moreover have "c div 262144 < 5" using assms by (simp add: less_mult_imp_div_less)
  ultimately show ?thesis using assms by (simp add: utf8_char_def unat_octet del: of_nat_add)
qed

lemma three_digits: "(c :: nat) = (c div 4096 * 64 + c div 64 mod 64) * 64 + c mod 64"
proof -
  have "c div 64 div 64 = c div 4096" by (simp add: div_mult2_eq [symmetric])
  then show ?thesis using div_mult_mod_eq [of c 64] div_mult_mod_eq [of "c div 64" 64] by simp
qed

lemma four_digits: "(c :: nat) = ((c div 262144 * 64 + c div 4096 mod 64) * 64 + c div 64 mod 64) * 64 + c mod 64"
proof -
  have "c div 4096 div 64 = c div 262144" by (simp add: div_mult2_eq [symmetric])
  then show ?thesis using three_digits [of c] div_mult_mod_eq [of "c div 4096" 64] by simp
qed

lemma digit_bounds:
  fixes c a k m l :: nat
  shows "c = (a * 64 + m) * 64 + l \<Longrightarrow> 2048 \<le> c \<Longrightarrow> l < 64 \<Longrightarrow> a = 0 \<Longrightarrow> 32 \<le> m"
    "c = (a * 64 + m) * 64 + l \<Longrightarrow> c < 55296 \<or> 57344 \<le> c \<Longrightarrow> m < 64 \<Longrightarrow> l < 64 \<Longrightarrow> a = 13 \<Longrightarrow> m < 32"
    "c = ((a * 64 + k) * 64 + m) * 64 + l \<Longrightarrow> 65536 \<le> c \<Longrightarrow> m < 64 \<Longrightarrow> l < 64 \<Longrightarrow> a = 0 \<Longrightarrow> 16 \<le> k"
    "c = ((a * 64 + k) * 64 + m) * 64 + l \<Longrightarrow> c < 1114112 \<Longrightarrow> a = 4 \<Longrightarrow> k < 16"
  by auto

lemma decode_three:
  assumes "utf8_tail b = Some [(lo, hi), (128, 191)]" "lo \<le> x" "x \<le> hi" "128 \<le> y" "y \<le> 191"
  shows "utf8_nats (b # x # y # bs) = map_option (Cons (((b - 224) * 64 + (x - 128)) * 64 + (y - 128))) (utf8_nats bs)"
  using assms by (simp add: utf8_scalar_def)

lemma decode_four:
  assumes "utf8_tail b = Some [(lo, hi), (128, 191), (128, 191)]" "lo \<le> x" "x \<le> hi" "128 \<le> y" "y \<le> 191" "128 \<le> z" "z \<le> 191"
  shows "utf8_nats (b # x # y # z # bs) =
    map_option (Cons ((((b - 240) * 64 + (x - 128)) * 64 + (y - 128)) * 64 + (z - 128))) (utf8_nats bs)"
  using assms by (simp add: utf8_scalar_def)

lemma tail_two: "a < 16 \<Longrightarrow> m < 64 \<Longrightarrow> (a = 0 \<Longrightarrow> 32 \<le> m) \<Longrightarrow> (a = 13 \<Longrightarrow> m < 32) \<Longrightarrow>
    \<exists>lo hi. utf8_tail (224 + a) = Some [(lo, hi), (128, 191)] \<and> lo \<le> 128 + m \<and> 128 + m \<le> hi"
  by (cases "a = 0"; cases "a = 13") (auto simp: utf8_tail_def)

lemma tail_three: "a < 5 \<Longrightarrow> k < 64 \<Longrightarrow> (a = 0 \<Longrightarrow> 16 \<le> k) \<Longrightarrow> (a = 4 \<Longrightarrow> k < 16) \<Longrightarrow>
    \<exists>lo hi. utf8_tail (240 + a) = Some [(lo, hi), (128, 191), (128, 191)] \<and> lo \<le> 128 + k \<and> 128 + k \<le> hi"
  by (cases "a = 0"; cases "a = 4") (auto simp: utf8_tail_def)

lemma decode_char:
  assumes "scalar_value c"
  shows "utf8_nats (map unat (utf8_char c) @ bs) = map_option (Cons c) (utf8_nats bs)"
proof -
  have lt: "c < 1114112" using assms by (auto simp: scalar_value_def)
  consider "c < 128" | "128 \<le> c" "c < 2048" | "2048 \<le> c" "c < 65536" | "65536 \<le> c" by linarith
  then show ?thesis
  proof cases
    case 1
    then show ?thesis by (simp add: char_nats [OF lt] utf8_tail_def utf8_scalar_def)
  next
    case 2
    have m: "c mod 64 < 64" and b: "2 \<le> c div 64" "c div 64 < 32" using 2 by (simp_all add: less_mult_imp_div_less less_eq_div_iff_mult_less_eq)
    have "utf8_tail (192 + c div 64) = Some [(128, 191)]" using b by (simp add: utf8_tail_def)
    moreover have "c div 64 * 64 + c mod 64 = c" by (rule div_mult_mod_eq)
    moreover have "c mod 64 \<le> 63" using m by simp
    ultimately show ?thesis using 2 by (simp add: char_nats [OF lt] utf8_scalar_def)
  next
    case 3
    let ?a = "c div 4096" and ?m = "c div 64 mod 64" and ?l = "c mod 64"
    have m: "?l < 64" "?m < 64" and a: "?a < 16" using 3 by (simp_all add: less_mult_imp_div_less)
    have d: "c = (?a * 64 + ?m) * 64 + ?l" by (rule three_digits)
    have low: "?a = 0 \<Longrightarrow> 32 \<le> ?m" by (rule digit_bounds(1) [OF d 3(1) m(1)])
    have sur: "?a = 13 \<Longrightarrow> ?m < 32" by (rule digit_bounds(2) [OF d _ m(2) m(1)]) (use assms in \<open>auto simp: scalar_value_def\<close>)
    obtain lo hi where tl: "utf8_tail (224 + ?a) = Some [(lo, hi), (128, 191)]" "lo \<le> 128 + ?m" "128 + ?m \<le> hi"
      using tail_two [OF a m(2) low sur] by blast
    have "map unat (utf8_char c) @ bs = (224 + ?a) # (128 + ?m) # (128 + ?l) # bs" using 3 by (simp add: char_nats [OF lt])
    moreover have "((224 + ?a - 224) * 64 + (128 + ?m - 128)) * 64 + (128 + ?l - 128) = c" using d by simp
    ultimately show ?thesis using decode_three [OF tl, of "128 + ?l" bs] m by simp
  next
    case 4
    let ?a = "c div 262144" and ?k = "c div 4096 mod 64" and ?m = "c div 64 mod 64" and ?l = "c mod 64"
    have m: "?l < 64" "?m < 64" "?k < 64" and a: "?a < 5" using lt by (simp_all add: less_mult_imp_div_less)
    have d: "c = ((?a * 64 + ?k) * 64 + ?m) * 64 + ?l" by (rule four_digits)
    have low: "?a = 0 \<Longrightarrow> 16 \<le> ?k" by (rule digit_bounds(3) [OF d 4 m(2) m(1)])
    have high: "?a = 4 \<Longrightarrow> ?k < 16" by (rule digit_bounds(4) [OF d lt])
    obtain lo hi where tl: "utf8_tail (240 + ?a) = Some [(lo, hi), (128, 191), (128, 191)]" "lo \<le> 128 + ?k" "128 + ?k \<le> hi"
      using tail_three [OF a m(3) low high] by blast
    have "map unat (utf8_char c) @ bs = (240 + ?a) # (128 + ?k) # (128 + ?m) # (128 + ?l) # bs" using 4 by (simp add: char_nats [OF lt])
    moreover have "(((240 + ?a - 240) * 64 + (128 + ?k - 128)) * 64 + (128 + ?m - 128)) * 64 + (128 + ?l - 128) = c" using d by simp
    ultimately show ?thesis using decode_four [OF tl, of "128 + ?m" "128 + ?l" bs] m by simp
  qed
qed

lemma from_utf8_utf8: "list_all scalar_value s \<Longrightarrow> from_utf8 (utf8 s) = Some s"
proof (induction s)
  case (Cons c s)
  then show ?case by (simp add: from_utf8_def utf8_def decode_char)
qed (simp add: from_utf8_def utf8_def)

lemma utf8_append [simp]: "utf8 (s @ t) = utf8 s @ utf8 t"
  by (simp add: utf8_def)

lemma line_feed_char: "scalar_value c \<Longrightarrow> 10 \<in> set (utf8_char c) \<longleftrightarrow> c = 10"
proof -
  assume c: "scalar_value c"
  then have lt: "c < 1114112" by (auto simp: scalar_value_def)
  have "(10 :: octet) \<in> set (utf8_char c) \<longleftrightarrow> 10 \<in> set (map unat (utf8_char c))"
  proof -
    have "(10 :: nat) = unat w \<longleftrightarrow> w = 10" for w :: octet by (auto simp: word_unat_eq_iff)
    then show ?thesis by (simp add: image_iff)
  qed
  then show ?thesis by (auto simp: char_nats [OF lt] split: if_splits)
qed

lemma line_feed_text: "list_all scalar_value s \<Longrightarrow> 10 \<in> set (utf8 s) \<longleftrightarrow> 10 \<in> set s"
  by (induction s) (auto simp: utf8_def line_feed_char)

section \<open>Lines\<close>

fun read_lines :: "(rstr \<Rightarrow> rstr + json) \<Rightarrow> octet list list \<Rightarrow> assembler \<Rightarrow> rstr + assembler" where
  "read_lines parse [] a = Inr a"
| "read_lines parse (l # ls) a = (case read_line parse l a of Inl e \<Rightarrow> Inl e | Inr a \<Rightarrow> read_lines parse ls a)"

lemma read_lines_append:
  "read_lines parse (xs @ ys) a = (case read_lines parse xs a of Inl e \<Rightarrow> Inl e | Inr a \<Rightarrow> read_lines parse ys a)"
  by (induction xs arbitrary: a) (simp_all split: sum.splits)

definition ended_lines :: "octet list \<Rightarrow> octet list list" where
  "ended_lines bytes = map (\<lambda>l. l @ [10]) (fst (cut_lines [] bytes))"

definition left_over :: "octet list \<Rightarrow> octet list" where
  "left_over bytes = snd (cut_lines [] bytes)"

fun with_partial :: "octet list \<Rightarrow> rstr + assembler \<Rightarrow> rstr + assembler" where
  "with_partial p (Inl e) = Inl e"
| "with_partial p (Inr a) = Inr (a\<lparr>as_partial := p\<rparr>)"

lemma with_partial_twice [simp]: "with_partial p (with_partial q r) = with_partial p r"
  by (cases r) simp_all

lemma take_as_lines:
  "take_lines parse bytes a = with_partial (left_over bytes) (read_lines parse (ended_lines bytes) a)"
proof (induction parse bytes a rule: take_lines.induct)
  case (1 parse bytes a)
  let ?line = "takeWhile (\<lambda>b. b \<noteq> 10) bytes"
  show ?case
  proof (cases "10 \<in> set bytes")
    case True
    then have "ended_lines bytes = (?line @ [10]) # ended_lines (drop (Suc (length ?line)) bytes)"
        "left_over bytes = left_over (drop (Suc (length ?line)) bytes)"
      by (simp_all add: ended_lines_def left_over_def cut_first apfst_def map_prod_def case_prod_unfold)
    then show ?thesis using 1 [OF True refl] True by (subst take_lines.simps) (simp add: Let_def split: sum.splits)
  next
    case False
    then show ?thesis by (subst take_lines.simps) (simp add: ended_lines_def left_over_def cut_none)
  qed
qed

text \<open>No event looks at the bytes that wait for their line.\<close>

lemma partial_steps [simp]:
  "begin_message e (a\<lparr>as_partial := p\<rparr>) = (begin_message e a)\<lparr>as_partial := p\<rparr>"
  "block_opens e (a\<lparr>as_partial := p\<rparr>) = (block_opens e a)\<lparr>as_partial := p\<rparr>"
  "block_ends parse e (a\<lparr>as_partial := p\<rparr>) = (block_ends parse e a)\<lparr>as_partial := p\<rparr>"
  "message_closes e (a\<lparr>as_partial := p\<rparr>) = (message_closes e a)\<lparr>as_partial := p\<rparr>"
  "counted s (a\<lparr>as_partial := p\<rparr>) = (counted s a)\<lparr>as_partial := p\<rparr>"
  by (simp_all add: begin_message_def block_opens_def block_ends_def message_closes_def counted_def Let_def split: option.splits)

lemma partial_grows [simp]: "block_grows e (a\<lparr>as_partial := p\<rparr>) = (block_grows e a)\<lparr>as_partial := p\<rparr>"
  by (simp add: block_grows_def Let_def counted_def split: option.splits)

lemma partial_event [simp]:
  "read_event parse e (a\<lparr>as_partial := p\<rparr>) = with_partial p (read_event parse e a)"
  by (simp add: read_event_def split: option.splits)

lemma partial_line [simp]:
  "read_line parse l (a\<lparr>as_partial := p\<rparr>) = with_partial p (read_line parse l a)"
  by (simp add: read_line_def Let_def split: option.splits sum.splits)

lemma partial_lines [simp]:
  "read_lines parse ls (a\<lparr>as_partial := p\<rparr>) = with_partial p (read_lines parse ls a)"
  by (induction ls arbitrary: a) (simp_all split: sum.splits)

lemma bytes_append:
  "ended_lines (xs @ ys) = ended_lines xs @ ended_lines (left_over xs @ ys)" "left_over (xs @ ys) = left_over (left_over xs @ ys)"
proof -
  have "10 \<notin> set (left_over xs)" by (simp add: left_over_def cut_rest)
  then have "cut_lines [] (left_over xs @ ys) = cut_lines (left_over xs) ys" by (simp add: cut_append cut_none)
  then show "ended_lines (xs @ ys) = ended_lines xs @ ended_lines (left_over xs @ ys)" "left_over (xs @ ys) = left_over (left_over xs @ ys)"
    by (simp_all add: ended_lines_def left_over_def cut_append)
qed

fun assemble_all :: "(rstr \<Rightarrow> rstr + json) \<Rightarrow> octet list list \<Rightarrow> assembler \<Rightarrow> rstr + assembler" where
  "assemble_all parse [] a = Inr a"
| "assemble_all parse (c # cs) a = (case assemble_bytes parse c a of Inl e \<Rightarrow> Inl e | Inr a \<Rightarrow> assemble_all parse cs a)"

text \<open>How the network cuts a reply does not matter to the agent either: fed in any pieces, the assembler ends in the same
  state, or fails with the same message, as if it had got the bytes at once.
\<close>

theorem reply_cut_anywhere:
  assumes "10 \<notin> set (as_partial a)"
  shows "assemble_all parse cs a = assemble_bytes parse (concat cs) a"
  using assms
proof (induction cs arbitrary: a)
  case Nil
  then show ?case by (simp add: assemble_bytes_def take_as_lines ended_lines_def left_over_def cut_none)
next
  case (Cons c cs)
  let ?p = "as_partial a @ c"
  have eq: "assemble_bytes parse c a = with_partial (left_over ?p) (read_lines parse (ended_lines ?p) a)"
    by (simp add: assemble_bytes_def take_as_lines)
  have n: "10 \<notin> set (left_over ?p)" by (simp add: left_over_def cut_rest)
  have w: "assemble_bytes parse (concat (c # cs)) a = with_partial (left_over (left_over ?p @ concat cs))
      (read_lines parse (ended_lines ?p @ ended_lines (left_over ?p @ concat cs)) a)"
    using bytes_append [of ?p "concat cs"] by (simp add: assemble_bytes_def take_as_lines)
  show ?case
  proof (cases "read_lines parse (ended_lines ?p) a")
    case (Inl e)
    then show ?thesis using eq w by (simp add: read_lines_append)
  next
    case (Inr b)
    have "assemble_all parse cs (b\<lparr>as_partial := left_over ?p\<rparr>) = assemble_bytes parse (concat cs) (b\<lparr>as_partial := left_over ?p\<rparr>)"
      by (rule Cons.IH) (simp add: n)
    then show ?thesis using eq w Inr
      by (simp add: read_lines_append assemble_bytes_def take_as_lines)
  qed
qed

section \<open>Samples\<close>

definition plain_sender :: sender where
  "plain_sender = \<lparr>sd_parse = Inl, sd_decode = Inl, sd_body_text = (\<lambda>_. []), sd_status_text = show_nat, sd_hint = (\<lambda>_. None)\<rparr>"

definition overload_reply :: http_reply where
  "overload_reply = \<lparr>hr_status = 529, hr_retry_after = None, hr_event_stream = False, hr_chunks = [], hr_end = BodyEnded\<rparr>"

theorem sending_is_bounded_witness:
  "fst (send_streaming plain_sender (\<lambda>_. Inr overload_reply)) = [1000, 2000, 4000]"
proof -
  obtain waits r where w: "send_streaming plain_sender (\<lambda>_. Inr overload_reply) = (waits, r)" by fastforce
  have "asks_again plain_sender (Inr overload_reply)" "hint_of plain_sender (Inr overload_reply) = None"
    by (simp_all add: asks_again_def hint_of_def overload_reply_def plain_sender_def is_retryable_def whole_text_def)
  then have l: "length waits = 3" and e: "waits = take (length waits) [1000, 2000, 4000]" using sending_is_bounded [OF w] by blast+
  from e have "waits = take 3 [1000, 2000, 4000]" unfolding l .
  then show ?thesis using w by simp
qed

theorem reply_cut_anywhere_witness:
  "assemble_all Inl [[100, 97], [116, 97, 58, 10]] new_assembler = assemble_bytes Inl [100, 97, 116, 97, 58, 10] new_assembler"
  using reply_cut_anywhere [of new_assembler Inl "[[100, 97], [116, 97, 58, 10]]"] by (simp add: new_assembler_def)

end
