(* ===== verification/Custom_Tool.thy ===== *)
theory Custom_Tool
  imports Tool_Config Reply
begin

text \<open>
  Running a custom tool (\<^verbatim>\<open>tools/config.rs\<close>, with \<^verbatim>\<open>checkout\<close> of \<^verbatim>\<open>tools/mod.rs\<close>): the checkout it runs in, the
  expansion of its \<^verbatim>\<open>argv\<close>, the digest its program must have, and the wait for the child. The child, the
  digest function and the file tests are the host's.
\<close>

section \<open>Expansion\<close>

datatype tool_error =
    FieldRequired rstr
  | FieldAbsolute rstr rstr
  | FieldParent rstr
  | FieldHome rstr
  | FieldOutside rstr
  | MissingArgument rstr rstr
  | BadArgument rstr rstr rstr
  | NothingToRun rstr
  | ProgramNotFound rstr rstr
  | ProgramUnreadable rstr rstr rstr
  | DigestDiffers rstr rstr rstr rstr
  | NotStarted rstr rstr rstr
  | TimedOut rstr nat
  | NotWaited rstr rstr
  | Exited rstr rstr rstr "rstr option"

definition value_to_argument :: "rstr \<Rightarrow> rstr \<Rightarrow> json \<Rightarrow> tool_error + rstr" where
  "value_to_argument tool name v =
     (case v of
        JStr s \<Rightarrow> Inr s
      | JNum (U64 n) \<Rightarrow> Inr (show_nat n)
      | JNum (OtherNumber s) \<Rightarrow> Inr s
      | JBool b \<Rightarrow> Inr (if b then lit ''true'' else lit ''false'')
      | JNull \<Rightarrow> Inl (BadArgument tool name (lit ''null''))
      | JArr _ \<Rightarrow> Inl (BadArgument tool name (lit ''an array''))
      | JObj _ \<Rightarrow> Inl (BadArgument tool name (lit ''an object'')))"

lemma split_once_shorter: "split_once c s = Some (a, b) \<Longrightarrow> length b < length s"
  by (simp add: split_once_Some)

text \<open>The textual substitution inside one element.\<close>

function splice_argument :: "rstr \<Rightarrow> json \<Rightarrow> rstr \<Rightarrow> tool_error + rstr" where
  "splice_argument tool input rest =
     (case split_once 123 rest of
        None \<Rightarrow> Inr rest
      | Some (ahead, behind_brace) \<Rightarrow>
          (case split_once 125 behind_brace of
             None \<Rightarrow> Inr rest
           | Some (name, rest') \<Rightarrow>
               (case json_get name input of
                  None \<Rightarrow> Inl (MissingArgument tool name)
                | Some v \<Rightarrow>
                    (case value_to_argument tool name v of
                       Inl e \<Rightarrow> Inl e
                     | Inr text \<Rightarrow> map_sum id (\<lambda>out. ahead @ text @ out) (splice_argument tool input rest')))))"
  by pat_completeness auto
termination
  by (relation "measure (\<lambda>(_, _, rest). length rest)") (auto dest!: split_once_shorter)

declare splice_argument.simps [simp del]

text \<open>One element: nothing when an optional argument is absent.\<close>

definition expand_element :: "rstr \<Rightarrow> json \<Rightarrow> rstr \<Rightarrow> tool_error + rstr list" where
  "expand_element tool input element =
     (case optional_name element of
        Some name \<Rightarrow>
          (case json_get name input of
             None \<Rightarrow> Inr []
           | Some v \<Rightarrow> if v = JNull then Inr [] else map_sum id (\<lambda>a. [a]) (value_to_argument tool name v))
      | None \<Rightarrow> map_sum id (\<lambda>a. [a]) (splice_argument tool input element))"

fun expand_elements :: "rstr \<Rightarrow> json \<Rightarrow> rstr list \<Rightarrow> tool_error + rstr list" where
  "expand_elements tool input [] = Inr []"
| "expand_elements tool input (e # es) =
     (case expand_element tool input e of
        Inl why \<Rightarrow> Inl why
      | Inr out \<Rightarrow> map_sum id ((@) out) (expand_elements tool input es))"

definition expand_argv :: "custom_tool \<Rightarrow> json \<Rightarrow> tool_error + rstr list" where
  "expand_argv t input = expand_elements (ct_name t) input (ct_argv t)"

section \<open>The checkout\<close>

definition path_components :: "rstr \<Rightarrow> rstr list" where
  "path_components p = filter (\<lambda>c. c \<noteq> [] \<and> c \<noteq> [46]) (split_on 47 p)"

definition path_starts_with :: "rstr \<Rightarrow> rstr \<Rightarrow> bool" where
  "path_starts_with p base \<longleftrightarrow>
     starts_with p [47] = starts_with base [47] \<and>
     take (length (path_components base)) (path_components p) = path_components base"

definition inside :: "rstr \<Rightarrow> rstr \<Rightarrow> rstr option \<Rightarrow> tool_error + rstr" where
  "inside cwd field raw =
     (case map_option trim raw of
        None \<Rightarrow> Inl (FieldRequired field)
      | Some rel \<Rightarrow>
          if rel = [] then Inl (FieldRequired field)
          else if starts_with rel [47] then Inl (FieldAbsolute field rel)
          else if [46, 46] \<in> set (path_components rel) then Inl (FieldParent field)
          else if starts_with rel [126] then Inl (FieldHome field)
          else if \<not> path_starts_with (join_path cwd rel) cwd then Inl (FieldOutside field)
          else Inr rel)"

definition checkout :: "json \<Rightarrow> rstr \<Rightarrow> tool_error + rstr" where
  "checkout input cwd =
     (case as_str (json_get (lit ''worktree'') input) of
        None \<Rightarrow> Inr cwd
      | Some path \<Rightarrow> map_sum id (join_path cwd) (inside cwd (lit ''worktree'') (Some path)))"

section \<open>The digest\<close>

text \<open>
  What the tool meets when it runs. A child closes its two streams and ends at some time, counted in seconds
  from its start, or never: \<open>ch_exit\<close> is the failure of the wait or whether it succeeded and its status.
\<close>

record child =
  ch_stdout :: "(nat \<times> octet list) option"
  ch_stderr :: "(nat \<times> octet list) option"
  ch_exit :: "(nat \<times> (rstr + bool \<times> rstr)) option"

record tool_host =
  th_is_file :: "rstr \<Rightarrow> bool"
  th_search_path :: "rstr list option"
  th_digest :: "rstr \<Rightarrow> rstr + rstr"
  th_start :: "rstr list \<Rightarrow> rstr \<Rightarrow> rstr + child"

definition program_path :: "tool_host \<Rightarrow> rstr \<Rightarrow> rstr \<Rightarrow> rstr option" where
  "program_path h program cwd =
     (if starts_with program [47] then Some program
      else if 47 \<in> set program then Some (join_path cwd program)
      else Option.bind (th_search_path h) (\<lambda>dirs. find (th_is_file h) (map (\<lambda>d. join_path d program) dirs)))"

definition verify_sha256 :: "tool_host \<Rightarrow> custom_tool \<Rightarrow> rstr \<Rightarrow> rstr \<Rightarrow> rstr \<Rightarrow> tool_error option" where
  "verify_sha256 h t program cwd expected =
     (case program_path h program cwd of
        None \<Rightarrow> Some (ProgramNotFound (ct_name t) program)
      | Some path \<Rightarrow>
          (case th_digest h path of
             Inl e \<Rightarrow> Some (ProgramUnreadable (ct_name t) path e)
           | Inr found \<Rightarrow>
               if eq_ignore_ascii_case found (trim expected) then None
               else Some (DigestDiffers (ct_name t) path (trim expected) found)))"

section \<open>The run\<close>

definition truncate_output :: "rstr \<Rightarrow> rstr" where
  "truncate_output text =
     (if byte_len text \<le> 64 * 1024 then text
      else clip_bytes (64 * 1024) text @ [10] @ lit ''[output truncated at 65536 bytes]'')"

text \<open>\<^verbatim>\<open>read_to_string\<close> into an empty string, its failure ignored: bytes that are not UTF-8 leave it empty.\<close>

definition read_stream :: "octet list \<Rightarrow> rstr" where
  "read_stream bs = (case from_utf8 bs of Some s \<Rightarrow> s | None \<Rightarrow> [])"

text \<open>
  The two streams are read to their ends, one after the other, and only then is the child waited for, for at
  most the tool's timeout. \<open>None\<close>: the call never returns.
\<close>

definition finish_child :: "custom_tool \<Rightarrow> child \<Rightarrow> (tool_error + rstr) option" where
  "finish_child t c =
     (case ch_stdout c of
        None \<Rightarrow> None
      | Some (t1, out) \<Rightarrow>
          (case ch_stderr c of
             None \<Rightarrow> None
           | Some (t2, err) \<Rightarrow>
               Some (case ch_exit c of
                 None \<Rightarrow> Inl (TimedOut (ct_name t) (ct_timeout_secs t))
               | Some (t3, status) \<Rightarrow>
                   if t3 > max t1 t2 + ct_timeout_secs t then Inl (TimedOut (ct_name t) (ct_timeout_secs t))
                   else (case status of
                     Inl e \<Rightarrow> Inl (NotWaited (ct_name t) e)
                   | Inr (success, shown_status) \<Rightarrow>
                       if success then Inr (truncate_output (read_stream out))
                       else Inl (Exited (ct_name t) shown_status (truncate_output (read_stream out))
                         (if trim (read_stream err) = [] then None else Some (truncate_output (read_stream err))))))))"

text \<open>What was started, in which directory, and what the call returned.\<close>

datatype custom_run =
    NotRun tool_error
  | Ran "rstr list" rstr "(tool_error + rstr) option"

definition run_custom :: "tool_host \<Rightarrow> custom_tool \<Rightarrow> json \<Rightarrow> rstr \<Rightarrow> custom_run" where
  "run_custom h t input cwd =
     (case checkout input cwd of
        Inl e \<Rightarrow> NotRun e
      | Inr dir \<Rightarrow>
          (case expand_argv t input of
             Inl e \<Rightarrow> NotRun e
           | Inr [] \<Rightarrow> NotRun (NothingToRun (ct_name t))
           | Inr (program # rest) \<Rightarrow>
               (case Option.bind (ct_sha256 t) (verify_sha256 h t program dir) of
                  Some e \<Rightarrow> NotRun e
                | None \<Rightarrow>
                    (case th_start h (program # rest) dir of
                       Inl e \<Rightarrow> NotRun (NotStarted (ct_name t) program e)
                     | Inr c \<Rightarrow> Ran (program # rest) dir (finish_child t c)))))"

section \<open>Substitution is whole arguments\<close>

text \<open>
  The reading of a template that does not depend on the call: literal text and the places values go. What a
  call supplies fills the places and is never read for braces itself.
\<close>

datatype piece = Literal rstr | Place rstr

function pieces :: "rstr \<Rightarrow> piece list" where
  "pieces rest =
     (case split_once 123 rest of
        None \<Rightarrow> [Literal rest]
      | Some (ahead, behind_brace) \<Rightarrow>
          (case split_once 125 behind_brace of
             None \<Rightarrow> [Literal rest]
           | Some (name, rest') \<Rightarrow> Literal ahead # Place name # pieces rest'))"
  by pat_completeness auto
termination
  by (relation "measure length") (auto dest!: split_once_shorter)

declare pieces.simps [simp del]

definition argument_text :: "json \<Rightarrow> rstr \<Rightarrow> rstr option" where
  "argument_text input name =
     (case json_get name input of
        None \<Rightarrow> None
      | Some v \<Rightarrow> (case value_to_argument [] name v of Inl _ \<Rightarrow> None | Inr text \<Rightarrow> Some text))"

fun piece_text :: "json \<Rightarrow> piece \<Rightarrow> rstr option" where
  "piece_text input (Literal s) = Some s"
| "piece_text input (Place name) = argument_text input name"

fun fill :: "json \<Rightarrow> piece list \<Rightarrow> rstr option" where
  "fill input [] = Some []"
| "fill input (p # ps) =
     (case (piece_text input p, fill input ps) of (Some a, Some b) \<Rightarrow> Some (a @ b) | _ \<Rightarrow> None)"

definition template_text :: "json \<Rightarrow> rstr \<Rightarrow> rstr option" where
  "template_text input element =
     (case optional_name element of
        Some name \<Rightarrow> argument_text input name
      | None \<Rightarrow> fill input (pieces element))"

definition is_left_out :: "json \<Rightarrow> rstr \<Rightarrow> bool" where
  "is_left_out input element \<longleftrightarrow>
     (case optional_name element of
        Some name \<Rightarrow> json_get name input \<in> {None, Some JNull}
      | None \<Rightarrow> False)"

lemma value_text:
  "(\<exists>w. value_to_argument tool name v = Inr w \<and> value_to_argument [] name v = Inr w) \<or>
   (\<exists>e e'. value_to_argument tool name v = Inl e \<and> value_to_argument [] name v = Inl e')"
  by (auto simp: value_to_argument_def split: json.splits json_number.splits)

lemma splice_fill: "splice_argument tool input rest = Inr out \<longleftrightarrow> fill input (pieces rest) = Some out"
proof (induction tool input rest arbitrary: out rule: splice_argument.induct)
  case (1 tool input rest)
  show ?case
  proof (cases "split_once 123 rest")
    case None
    then show ?thesis by (simp add: splice_argument.simps pieces.simps)
  next
    case (Some p)
    obtain ahead behind_brace where p: "p = (ahead, behind_brace)" by (cases p)
    show ?thesis
    proof (cases "split_once 125 behind_brace")
      case None
      then show ?thesis using Some p by (simp add: splice_argument.simps [of tool input rest] pieces.simps [of rest])
    next
      case n: (Some q)
      obtain name rest' where q: "q = (name, rest')" by (cases q)
      have s: "splice_argument tool input rest =
          (case json_get name input of None \<Rightarrow> Inl (MissingArgument tool name)
           | Some v \<Rightarrow> (case value_to_argument tool name v of Inl e \<Rightarrow> Inl e
              | Inr text \<Rightarrow> map_sum id (\<lambda>out. ahead @ text @ out) (splice_argument tool input rest')))"
        using Some p n q by (simp add: splice_argument.simps [of tool input rest])
      have f: "pieces rest = Literal ahead # Place name # pieces rest'"
        using Some p n q by (simp add: pieces.simps [of rest])
      show ?thesis
      proof (cases "json_get name input")
        case None
        then show ?thesis by (simp add: s f argument_text_def)
      next
        case v: (Some v)
        show ?thesis
        proof (cases "\<exists>w. value_to_argument tool name v = Inr w")
          case False
          then obtain e e' where e: "value_to_argument tool name v = Inl e" "value_to_argument [] name v = Inl e'"
            using value_text [of tool name v] by auto
          then show ?thesis using v by (simp add: s f argument_text_def)
        next
          case True
          then obtain w where w: "value_to_argument tool name v = Inr w" "value_to_argument [] name v = Inr w"
            using value_text [of tool name v] by auto
          have eq: "splice_argument tool input rest' = Inr x \<longleftrightarrow> fill input (pieces rest') = Some x" for x
            using 1 [OF Some p [symmetric] n q [symmetric] v w(1)] .
          have ih: "fill input (pieces rest') = (case splice_argument tool input rest' of Inl _ \<Rightarrow> None | Inr x \<Rightarrow> Some x)"
          proof (cases "splice_argument tool input rest'")
            case (Inl e)
            then have "fill input (pieces rest') \<noteq> Some x" for x using eq [of x] by simp
            then have "fill input (pieces rest') = None" by blast
            then show ?thesis using Inl by simp
          next
            case (Inr y)
            then show ?thesis using eq [of y] by simp
          qed
          show ?thesis
            by (cases "splice_argument tool input rest'") (auto simp: s f argument_text_def v w ih)
        qed
      qed
    qed
  qed
qed

lemma expand_element_Inr:
  "expand_element tool input e = Inr out \<longleftrightarrow>
     (if is_left_out input e then out = [] else \<exists>text. template_text input e = Some text \<and> out = [text])"
proof (cases "optional_name e")
  case None
  show ?thesis
    using splice_fill [of tool input e]
    by (cases "splice_argument tool input e") (auto simp: expand_element_def is_left_out_def template_text_def None)
next
  case (Some name)
  show ?thesis
  proof (cases "json_get name input")
    case None
    then show ?thesis using Some by (auto simp: expand_element_def is_left_out_def)
  next
    case v: (Some v)
    show ?thesis
      using value_text [of tool name v]
      by (elim disjE exE) (auto simp: Some v expand_element_def is_left_out_def template_text_def argument_text_def)
  qed
qed

lemma expand_elements_Inr:
  "expand_elements tool input es = Inr out \<longleftrightarrow>
     map Some out = map (template_text input) (filter (\<lambda>e. \<not> is_left_out input e) es)"
proof (induction es arbitrary: out)
  case Nil
  then show ?case by auto
next
  case (Cons e es)
  show ?case
  proof (cases "expand_element tool input e")
    case (Inl why)
    then have no: "\<not> (if is_left_out input e then out = [] else \<exists>text. template_text input e = Some text \<and> out = [text])" for out
      using expand_element_Inr [of tool input e out] by simp
    have "\<not> is_left_out input e" using no [of "[]"] by auto
    moreover have "template_text input e \<noteq> Some w" for w using no [of "[w]"] calculation by simp
    ultimately have "\<not> is_left_out input e" "template_text input e = None" by auto
    then show ?thesis using Inl by (cases out) auto
  next
    case (Inr a)
    then have a: "if is_left_out input e then a = [] else \<exists>text. template_text input e = Some text \<and> a = [text]"
      using expand_element_Inr [of tool input e a] by simp
    have rest: "expand_elements tool input (e # es) = Inr out \<longleftrightarrow>
        (\<exists>more. out = a @ more \<and> map Some more = map (template_text input) (filter (\<lambda>e. \<not> is_left_out input e) es))"
      using Inr Cons.IH by (cases "expand_elements tool input es") auto
    show ?thesis
    proof (cases "is_left_out input e")
      case True
      then show ?thesis using a unfolding rest by simp
    next
      case False
      then obtain w where w: "template_text input e = Some w" "a = [w]" using a by auto
      show ?thesis unfolding rest using False w by (cases out) auto
    qed
  qed
qed

text \<open>The place a path leads to when each \<^verbatim>\<open>..\<close> is taken for the directory above.\<close>

definition resolved :: "rstr list \<Rightarrow> rstr list" where
  "resolved cs = foldl (\<lambda>here c. if c = [46, 46] then butlast here else here @ [c]) [] cs"

lemma resolved_descends: "[46, 46] \<notin> set b \<Longrightarrow> resolved (a @ b) = resolved a @ b"
proof (induction b rule: rev_induct)
  case (snoc c b)
  then show ?case by (auto simp: resolved_def simp flip: append_assoc)
qed simp

lemma split_on_nonempty [simp]: "split_on c s \<noteq> []"
  by (induction s) (auto split: list.splits)

lemma split_on_join: "split_on c (a @ c # b) = split_on c a @ split_on c b"
  by (induction a) (auto split: list.splits)

lemma join_components:
  assumes "\<not> starts_with rel [47]"
  shows "path_components (join_path dir rel) = path_components dir @ path_components rel"
proof (cases "dir = [] \<or> last dir = 47")
  case True
  then show ?thesis
  proof (cases dir rule: rev_cases)
    case (snoc a c)
    then have "dir = a @ [47]" using True by simp
    then show ?thesis using assms split_on_join [of 47 a rel] split_on_join [of 47 a "[]"]
      by (simp add: join_path_def path_components_def)
  qed (use assms in \<open>simp add: join_path_def path_components_def\<close>)
next
  case False
  then show ?thesis using assms by (simp add: join_path_def path_components_def split_on_join)
qed

lemma checkout_inside:
  assumes "checkout input cwd = Inr dir"
  shows "path_starts_with dir cwd \<and> (\<exists>sub. resolved (path_components dir) = resolved (path_components cwd) @ sub)"
proof (cases "as_str (json_get (lit ''worktree'') input)")
  case None
  then show ?thesis using assms by (simp add: checkout_def path_starts_with_def)
next
  case (Some path)
  then obtain rel where rel: "inside cwd (lit ''worktree'') (Some path) = Inr rel" "dir = join_path cwd rel"
    using assms by (cases "inside cwd (lit ''worktree'') (Some path)") (auto simp: checkout_def)
  then have r: "path_starts_with dir cwd" "\<not> starts_with rel [47]" "[46, 46] \<notin> set (path_components rel)"
    by (auto simp: inside_def split: if_splits)
  then show ?thesis unfolding rel(2) by (simp add: join_components resolved_descends)
qed

lemma run_custom_Ran:
  assumes "run_custom h t input cwd = Ran argv dir r"
  obtains program rest c where "argv = program # rest" "checkout input cwd = Inr dir" "expand_argv t input = Inr argv"
    "Option.bind (ct_sha256 t) (verify_sha256 h t program dir) = None" "th_start h argv dir = Inr c" "r = finish_child t c"
  using assms by (auto simp: run_custom_def split: sum.splits list.splits option.splits)

lemma other_timeout [simp]:
  "ct_name (t\<lparr>ct_timeout_secs := n\<rparr>) = ct_name t" "ct_argv (t\<lparr>ct_timeout_secs := n\<rparr>) = ct_argv t"
  "ct_sha256 (t\<lparr>ct_timeout_secs := n\<rparr>) = ct_sha256 t"
  by simp_all

section \<open>Properties\<close>

text \<open>C16 A custom tool that is started is started with exactly its template's arguments, one for each element that is not
  left out, the call's values filling the template's places and never read as syntax; in the session's directory
  or one below it, by the names of the path and also after every \<^verbatim>\<open>..\<close> in it is followed upwards (symbolic links are
  not); and, when its program is pinned, only with a program whose digest is the pinned one.\<close>

theorem custom_tool_start:
  assumes "run_custom h t input cwd = Ran argv dir r"
  shows "map Some argv = map (template_text input) (filter (\<lambda>e. \<not> is_left_out input e) (ct_argv t)) \<and>
    path_starts_with dir cwd \<and>
    (\<exists>sub. resolved (path_components dir) = resolved (path_components cwd) @ sub) \<and>
    (case ct_sha256 t of
       None \<Rightarrow> True
     | Some expected \<Rightarrow>
         (case program_path h (hd argv) dir of
            None \<Rightarrow> False
          | Some path \<Rightarrow> (case th_digest h path of Inl _ \<Rightarrow> False | Inr found \<Rightarrow> eq_ignore_ascii_case found (trim expected))))"
  using assms
proof (rule run_custom_Ran)
  fix program rest c
  assume a: "argv = program # rest" "checkout input cwd = Inr dir" "expand_argv t input = Inr argv"
    and v: "Option.bind (ct_sha256 t) (verify_sha256 h t program dir) = None"
  have "map Some argv = map (template_text input) (filter (\<lambda>e. \<not> is_left_out input e) (ct_argv t))"
    using a(3) by (simp only: expand_argv_def expand_elements_Inr)
  moreover note checkout_inside [OF a(2)]
  moreover have "ct_sha256 t = Some expected \<Longrightarrow> verify_sha256 h t (hd argv) dir expected = None" for expected
    using a(1) v by simp
  ultimately show ?thesis by (auto simp: verify_sha256_def split: option.splits sum.splits if_splits)
qed

definition log_tool :: custom_tool where
  "log_tool = \<lparr>ct_name = lit ''Log'', ct_description = [], ct_schema = JNull,
     ct_argv = [lit ''git'', lit ''log'', lit ''-n{count}'', lit ''{path?}''], ct_timeout_secs = 30, ct_judged = True,
     ct_sha256 = Some (lit ''AB'')\<rparr>"

definition log_input :: json where
  "log_input = JObj [(lit ''count'', JStr (lit ''5; rm {path}''))]"

definition quiet_host :: tool_host where
  "quiet_host = \<lparr>th_is_file = (\<lambda>_. True), th_search_path = Some [lit ''/bin''], th_digest = (\<lambda>_. Inr (lit ''ab'')),
     th_start = (\<lambda>_ _. Inr \<lparr>ch_stdout = None, ch_stderr = Some (0, []), ch_exit = None\<rparr>)\<rparr>"

lemma log_run:
  "run_custom quiet_host log_tool log_input (lit ''/w'') = Ran [lit ''git'', lit ''log'', lit ''-n5; rm {path}''] (lit ''/w'') None"
  by (simp add: run_custom_def checkout_def log_input_def json_get_def as_str_def expand_argv_def log_tool_def
      expand_element_def optional_name_def strip_suffix_def splice_argument.simps value_to_argument_def
      verify_sha256_def quiet_host_def program_path_def starts_with_def join_path_def eq_ignore_ascii_case_def
      to_ascii_lowercase_def finish_child_def trim_def trim_start_def trim_end_def is_whitespace_def lit_def)

theorem custom_tool_start_witness:
  "map Some [lit ''git'', lit ''log'', lit ''-n5; rm {path}''] =
     map (template_text log_input) (filter (\<lambda>e. \<not> is_left_out log_input e) (ct_argv log_tool)) \<and>
   path_starts_with (lit ''/w'') (lit ''/w'')"
  using custom_tool_start [OF log_run] by blast

text \<open>A timeout stops no custom tool that keeps its standard output open: the stream is read to its end before the
  timeout starts, so the call of a tool that hangs never returns, whatever \<^verbatim>\<open>timeout_secs\<close> says.\<close>

theorem hung_tool_never_stopped:
  assumes "run_custom h t input cwd = Ran argv dir r" "th_start h argv dir = Inr c" "ch_stdout c = None"
  shows "r = None \<and> run_custom h (t\<lparr>ct_timeout_secs := n\<rparr>) input cwd = Ran argv dir None"
  using assms(1)
proof (rule run_custom_Ran)
  fix program rest c'
  assume a: "argv = program # rest" "checkout input cwd = Inr dir" "expand_argv t input = Inr argv"
    and v: "Option.bind (ct_sha256 t) (verify_sha256 h t program dir) = None" and c': "th_start h argv dir = Inr c'" "r = finish_child t c'"
  have "verify_sha256 h (t\<lparr>ct_timeout_secs := n\<rparr>) = verify_sha256 h t" 
    by (intro ext) (unfold verify_sha256_def other_timeout, rule refl)
  then show ?thesis
    using assms a v c' by (simp add: finish_child_def run_custom_def expand_argv_def)
qed

theorem hung_tool_never_stopped_witness:
  "run_custom quiet_host (log_tool\<lparr>ct_timeout_secs := 1\<rparr>) log_input (lit ''/w'') =
     Ran [lit ''git'', lit ''log'', lit ''-n5; rm {path}''] (lit ''/w'') None"
  using hung_tool_never_stopped [OF log_run, of "\<lparr>ch_stdout = None, ch_stderr = Some (0, []), ch_exit = None\<rparr>" 1]
  by (simp add: quiet_host_def)

text \<open>An element that holds a placeholder and ends in an optional one passes the check meant to refuse it, and is
  taken for its first placeholder alone: the rest of the element is dropped.\<close>

theorem optional_swallows_element:
  assumes "a \<noteq> []" "125 \<notin> set a" "json_get a input = Some (JStr w)"
  shows "\<not> bad_element ([123] @ a @ [125] @ mid @ [63, 125]) \<and>
    expand_element tool input ([123] @ a @ [125] @ mid @ [63, 125]) = Inr [w]"
proof -
  have "optional_name ([123] @ a @ [125] @ mid @ [63, 125]) = Some a"
  proof -
    have "takeWhile (\<lambda>c. c \<noteq> 125) (a @ 125 # mid) = a" using assms(2) by (subst takeWhile_append2) auto
    then show ?thesis using assms(1) by (simp add: optional_name_def strip_suffix_def)
  qed
  then show ?thesis using assms(3) by (simp add: bad_element_def expand_element_def value_to_argument_def)
qed

theorem optional_swallows_element_witness:
  "expand_element (lit ''Copy'') (JObj [(lit ''dir'', JStr (lit ''/srv'')), (lit ''name'', JStr (lit ''x''))]) (lit ''{dir}/{name?}'')
     = Inr [lit ''/srv'']"
  using optional_swallows_element [of "lit ''dir''" "JObj [(lit ''dir'', JStr (lit ''/srv'')), (lit ''name'', JStr (lit ''x''))]"
      "lit ''/srv''" "lit ''/{name''" "lit ''Copy''"]
  by (simp add: lit_def json_get_def)

end
