(* ===== verification/Decisions.thy ===== *)
theory Decisions
  imports Blackboard
begin

text \<open>
  The decision journal of \<^verbatim>\<open>src/crates/tab-atelier-decisions/src/lib.rs\<close>: JSON lines, one decision a
  line, with comments and blank lines kept; listing, marking read, ruling, and a producer's append. The
  codec of one line (\<^verbatim>\<open>serde_json\<close>) is a parameter; the file is its text, or missing, or unreadable.
\<close>

section \<open>Data\<close>

definition state_open :: rstr where "state_open = lit ''open''"
definition state_read :: rstr where "state_read = lit ''read''"
definition state_tranched :: rstr where "state_tranched = lit ''tranched''"
definition state_archived :: rstr where "state_archived = lit ''archived''"

record decision =
  de_id :: rstr
  de_project :: "rstr option"
  de_state :: rstr
  de_title :: "rstr option"
  de_verdict :: "rstr option"
  de_summary :: "rstr option"
  de_detail :: "rstr option"
  de_why_gated :: "rstr option"
  de_reco :: "rstr option"
  de_effort :: "rstr option"
  de_files :: "rstr list"

datatype decision_error = NotFound | Unavailable

datatype appended = New | Identical | Settled | Reopened

fun appended_wrote :: "appended \<Rightarrow> bool" where
  "appended_wrote New = True"
| "appended_wrote Identical = False"
| "appended_wrote Settled = False"
| "appended_wrote Reopened = True"

fun appended_describe :: "appended \<Rightarrow> rstr" where
  "appended_describe New = lit ''appended''"
| "appended_describe Identical = lit ''already-present''"
| "appended_describe Settled = lit ''already-ruled''"
| "appended_describe Reopened = lit ''updated''"

type_synonym dec_line = "rstr \<Rightarrow> decision option"
type_synonym enc_line = "decision \<Rightarrow> rstr option"

definition same_line :: "enc_line \<Rightarrow> decision \<Rightarrow> decision \<Rightarrow> bool" where
  "same_line enc a b \<longleftrightarrow> enc a = enc b"

datatype journal_file = Missing | Unreadable | Text rstr

section \<open>Operations\<close>

definition skipped :: "rstr \<Rightarrow> bool" where
  "skipped line \<longleftrightarrow> trim line = [] \<or> hd (trim line) = 35"

text \<open>Every line that is neither blank nor a comment must parse.\<close>

fun parse_lines :: "dec_line \<Rightarrow> rstr list \<Rightarrow> decision list option" where
  "parse_lines dec [] = Some []"
| "parse_lines dec (l # ls) =
     (if skipped l then parse_lines dec ls
      else (case dec (trim l) of
              None \<Rightarrow> None
            | Some d \<Rightarrow> map_option ((#) d) (parse_lines dec ls)))"

definition list_journal :: "dec_line \<Rightarrow> bool \<Rightarrow> journal_file \<Rightarrow> decision_error + decision list" where
  "list_journal dec include_archived file =
     (case file of
        Missing \<Rightarrow> Inr []
      | Unreadable \<Rightarrow> Inl Unavailable
      | Text raw \<Rightarrow>
          (case parse_lines dec (str_lines raw) of
             None \<Rightarrow> Inl Unavailable
           | Some ds \<Rightarrow> Inr (filter (\<lambda>d. include_archived \<or> de_state d \<noteq> state_archived) ds)))"

text \<open>The loop of \<^verbatim>\<open>update\<close>: the text written so far and the last decision edited.\<close>

fun rewrite_lines ::
    "enc_line \<Rightarrow> dec_line \<Rightarrow> rstr \<Rightarrow> (decision \<Rightarrow> decision) \<Rightarrow> rstr list \<Rightarrow> rstr \<Rightarrow> decision option
     \<Rightarrow> (rstr \<times> decision option) option" where
  "rewrite_lines enc dec i edit [] out updated = Some (out, updated)"
| "rewrite_lines enc dec i edit (l # ls) out updated =
     (if skipped l then rewrite_lines enc dec i edit ls (out @ l @ [10]) updated
      else (case dec (trim l) of
              None \<Rightarrow> None
            | Some d0 \<Rightarrow>
                (let (d, updated') = (if de_id d0 = i then (edit d0, Some (edit d0)) else (d0, updated)) in
                 case enc d of
                   None \<Rightarrow> None
                 | Some s \<Rightarrow> rewrite_lines enc dec i edit ls (out @ s @ [10]) updated')))"

text \<open>\<^verbatim>\<open>fs::write\<close> truncates first, so a failed write leaves a prefix.\<close>

definition write_journal :: "io_outcome \<Rightarrow> journal_file \<Rightarrow> rstr \<Rightarrow> bool \<times> journal_file" where
  "write_journal io file body =
     (case io of IoOk \<Rightarrow> (True, Text body) | OpenFails _ \<Rightarrow> (False, file) | WriteFails k _ \<Rightarrow> (False, Text (take k body)))"

definition update_journal ::
    "enc_line \<Rightarrow> dec_line \<Rightarrow> io_outcome \<Rightarrow> rstr \<Rightarrow> (decision \<Rightarrow> decision) \<Rightarrow> journal_file
     \<Rightarrow> (decision_error + decision) \<times> journal_file" where
  "update_journal enc dec io i edit file =
     (case file of
        Text raw \<Rightarrow>
          (case rewrite_lines enc dec i edit (str_lines raw) [] None of
             None \<Rightarrow> (Inl Unavailable, file)
           | Some (out, None) \<Rightarrow> (Inl NotFound, file)
           | Some (out, Some d) \<Rightarrow>
               (case write_journal io file out of
                  (True, file') \<Rightarrow> (Inr d, file')
                | (False, file') \<Rightarrow> (Inl Unavailable, file')))
      | _ \<Rightarrow> (Inl Unavailable, file))"

definition mark_read ::
    "enc_line \<Rightarrow> dec_line \<Rightarrow> io_outcome \<Rightarrow> rstr \<Rightarrow> journal_file \<Rightarrow> (decision_error + decision) \<times> journal_file" where
  "mark_read enc dec io i =
     update_journal enc dec io i (\<lambda>d. if de_state d = state_open then d\<lparr>de_state := state_read\<rparr> else d)"

definition tranch ::
    "enc_line \<Rightarrow> dec_line \<Rightarrow> io_outcome \<Rightarrow> rstr \<Rightarrow> rstr \<Rightarrow> journal_file \<Rightarrow> (decision_error + decision) \<times> journal_file" where
  "tranch enc dec io i verdict =
     update_journal enc dec io i (\<lambda>d. d\<lparr>de_state := state_tranched, de_verdict := Some verdict\<rparr>)"

text \<open>\<^verbatim>\<open>O_APPEND\<close> with \<^verbatim>\<open>create\<close>; a failed write leaves a prefix of the line.\<close>

definition append_journal :: "io_outcome \<Rightarrow> journal_file \<Rightarrow> rstr \<Rightarrow> bool \<times> journal_file" where
  "append_journal io file body =
     (case io of
        OpenFails _ \<Rightarrow> (False, file)
      | IoOk \<Rightarrow> (True, (case file of Text raw \<Rightarrow> Text (raw @ body) | Missing \<Rightarrow> Text body | Unreadable \<Rightarrow> Unreadable))
      | WriteFails k _ \<Rightarrow>
          (False, (case file of Text raw \<Rightarrow> Text (raw @ take k body) | Missing \<Rightarrow> Text (take k body) | Unreadable \<Rightarrow> Unreadable)))"

definition append_decision ::
    "enc_line \<Rightarrow> dec_line \<Rightarrow> io_outcome \<Rightarrow> decision \<Rightarrow> journal_file \<Rightarrow> (decision_error + appended) \<times> journal_file" where
  "append_decision enc dec io d file =
     (case list_journal dec True file of
        Inl e \<Rightarrow> (Inl Unavailable, file)
      | Inr ds \<Rightarrow>
          (case find (\<lambda>x. de_id x = de_id d) ds of
             Some old \<Rightarrow>
               if same_line enc old d then (Inr Identical, file)
               else if de_state old = state_tranched then (Inr Settled, file)
               else (case update_journal enc dec io (de_id d) (\<lambda>_. d) file of
                       (Inl e, file') \<Rightarrow> (Inl e, file')
                     | (Inr _, file') \<Rightarrow> (Inr Reopened, file'))
           | None \<Rightarrow>
               (case enc d of
                  None \<Rightarrow> (Inl Unavailable, file)
                | Some s \<Rightarrow>
                    (let line = s @ [10];
                         line = (case file of Text raw \<Rightarrow> if raw \<noteq> [] \<and> last raw \<noteq> 10 then 10 # line else line
                                            | _ \<Rightarrow> line)
                     in case append_journal io file line of
                          (True, file') \<Rightarrow> (Inr New, file')
                        | (False, file') \<Rightarrow> (Inl Unavailable, file')))))"

section \<open>Files a decision links\<close>

text \<open>\<^verbatim>\<open>expand_with\<close>, \<^verbatim>\<open>PathBuf::join\<close> and \<^verbatim>\<open>resolve\<close> on path texts; \<open>base\<close> is the outbox's parent.\<close>

definition path_join :: "rstr \<Rightarrow> rstr \<Rightarrow> rstr" where
  "path_join a b =
     (if b \<noteq> [] \<and> hd b = 47 then b
      else if a = [] \<or> last a = 47 then a @ b else a @ [47] @ b)"

definition expand_with :: "rstr \<Rightarrow> rstr option \<Rightarrow> rstr" where
  "expand_with raw home =
     (case (strip_prefix [126, 47] raw, home) of
        (Some rest, Some h) \<Rightarrow> path_join h rest
      | _ \<Rightarrow> raw)"

definition resolve_path :: "rstr \<Rightarrow> rstr option \<Rightarrow> rstr \<Rightarrow> rstr" where
  "resolve_path base home raw =
     (let expanded = expand_with raw home
      in if expanded \<noteq> [] \<and> hd expanded = 47 then expanded else path_join base expanded)"

text \<open>
  Canonical paths are component lists; \<open>canon\<close> and \<open>contents\<close> stand for the file system. Only what lies
  under the canonical outbox is read.
\<close>

definition read_linked ::
    "(rstr \<Rightarrow> rstr list option) \<Rightarrow> (rstr list \<Rightarrow> 'b option) \<Rightarrow> rstr \<Rightarrow> rstr \<Rightarrow> rstr option \<Rightarrow> rstr
     \<Rightarrow> decision_error + rstr list \<times> 'b" where
  "read_linked canon contents outbox base home raw =
     (case canon outbox of
        None \<Rightarrow> Inl Unavailable
      | Some root \<Rightarrow>
          (case canon (resolve_path base home raw) of
             None \<Rightarrow> Inl NotFound
           | Some p \<Rightarrow>
               if take (length root) p \<noteq> root then Inl NotFound
               else (case contents p of None \<Rightarrow> Inl NotFound | Some b \<Rightarrow> Inr (p, b))))"

section \<open>Lines\<close>

lemma str_lines_no_nl: "l \<in> set (str_lines s) \<Longrightarrow> 10 \<notin> set l"
proof -
  have split: "10 \<notin> set acc \<Longrightarrow> p \<in> set (split_inclusive_nl acc s) \<Longrightarrow> 10 \<notin> set (butlast p)" for acc s and p :: rstr
    by (induction acc s rule: split_inclusive_nl.induct) (auto split: if_splits dest: in_set_butlastD list.set_sel(2) [rotated])
  have strip: "10 \<notin> set (butlast p) \<Longrightarrow> 10 \<notin> set (strip_line_end p)" for p
  proof -
    assume b: "10 \<notin> set (butlast p)"
    show "10 \<notin> set (strip_line_end p)"
    proof (cases "p \<noteq> [] \<and> last p = 10")
      case True
      then show ?thesis using b by (auto simp: strip_line_end_def Let_def dest: in_set_butlastD)
    next
      case False
      then have "set p = set (butlast p) \<union> (if p = [] then {} else {last p})"
        by (cases p rule: rev_cases) auto
      then show ?thesis using False b by (auto simp: strip_line_end_def split: if_splits)
    qed
  qed
  assume "l \<in> set (str_lines s)"
  then obtain p where "p \<in> set (split_inclusive_nl [] s)" "l = strip_line_end p" by (auto simp: str_lines_def)
  then show ?thesis using split [of "[]" p s] strip [of p] by simp
qed

lemma trim_strip_cr: "trim (s @ [13]) = trim s"
proof -
  have w: "is_whitespace 13" by (simp add: is_whitespace_def)
  show ?thesis
  proof (cases "trim_start s = []")
    case True
    then have "\<forall>x \<in> set s. is_whitespace x" by (simp add: trim_start_def)
    then have "trim_start (s @ [13]) = []" using w by (simp add: trim_start_def)
    then show ?thesis using True by (simp add: trim_def)
  next
    case False
    then have "trim_start (s @ [13]) = trim_start s @ [13]"
      by (auto simp: trim_start_def dropWhile_append3 dropWhile_eq_Nil_conv)
    then show ?thesis using w by (simp add: trim_def trim_end_def)
  qed
qed

lemma str_lines_one: "10 \<notin> set l \<Longrightarrow> \<exists>l'. str_lines (l @ [10]) = [l'] \<and> trim l' = trim l"
proof -
  assume n: "10 \<notin> set l"
  show ?thesis
  proof (cases "l \<noteq> [] \<and> last l = 13")
    case True
    then obtain k where k: "l = k @ [13]" by (metis append_butlast_last_id)
    then show ?thesis using n trim_strip_cr [of k]
      by (simp add: str_lines_def split_inclusive_line strip_line_end_def Let_def del: append_assoc)
  next
    case False
    then have "str_lines (l @ [10]) = [l]" using n by (auto intro: str_lines_line)
    then show ?thesis by blast
  qed
qed

section \<open>What a journal says\<close>

definition decisions_of :: "dec_line \<Rightarrow> rstr \<Rightarrow> decision list option" where
  "decisions_of dec raw = parse_lines dec (str_lines raw)"

text \<open>A decision that survives being written as a line.\<close>

definition line_codec :: "enc_line \<Rightarrow> dec_line \<Rightarrow> decision \<Rightarrow> bool" where
  "line_codec enc dec d \<longleftrightarrow>
     (\<exists>s. enc d = Some s \<and> dec s = Some d \<and> 10 \<notin> set s \<and> trim s = s \<and> s \<noteq> [] \<and> hd s \<noteq> 35)"

lemma parse_lines_append:
  "parse_lines dec (xs @ ys) =
     Option.bind (parse_lines dec xs) (\<lambda>a. map_option ((@) a) (parse_lines dec ys))"
proof (induction xs)
  case Nil
  then show ?case by (cases "parse_lines dec ys") simp_all
next
  case (Cons l xs)
  show ?case
    by (cases "dec (trim l)"; cases "parse_lines dec xs"; cases "parse_lines dec ys") (simp_all add: Cons)
qed

lemma parse_one: "trim l' = trim l \<Longrightarrow> parse_lines dec [l'] = parse_lines dec [l]"
  by (simp add: skipped_def)

lemma decisions_of_line:
  assumes "line_complete out" "10 \<notin> set l"
  shows "decisions_of dec (out @ l @ [10]) =
    Option.bind (decisions_of dec out) (\<lambda>a. map_option ((@) a) (parse_lines dec [l]))"
proof -
  obtain l' where l': "str_lines (l @ [10]) = [l']" "trim l' = trim l" using str_lines_one [OF assms(2)] by blast
  have "str_lines (out @ l @ [10]) = str_lines out @ [l']"
    using assms(1) l'(1) by (simp add: line_complete_def str_lines_append)
  then show ?thesis unfolding decisions_of_def by (simp only: parse_lines_append parse_one [OF l'(2)])
qed

lemma parse_codec: "line_codec enc dec d \<Longrightarrow> enc d = Some s \<Longrightarrow> parse_lines dec [s] = Some [d] \<and> 10 \<notin> set s"
  by (auto simp: line_codec_def skipped_def)

text \<open>The rewrite loop maps the edit over the decisions and keeps everything else.\<close>

lemma rewrite_lines_eq:
  assumes "parse_lines dec ls = Some ds" "\<forall>l \<in> set ls. 10 \<notin> set l"
    and "line_complete out" "decisions_of dec out = Some acc"
    and "\<forall>d \<in> set ds. line_codec enc dec (if de_id d = i then edit d else d)"
  shows "\<exists>out' upd'. rewrite_lines enc dec i edit ls out upd = Some (out', upd') \<and>
    decisions_of dec out' = Some (acc @ map (\<lambda>d. if de_id d = i then edit d else d) ds) \<and>
    (if \<exists>d \<in> set ds. de_id d = i then (\<exists>d \<in> set ds. de_id d = i \<and> upd' = Some (edit d)) else upd' = upd)"
  using assms
proof (induction ls arbitrary: ds out acc upd)
  case Nil
  then show ?case by simp
next
  case (Cons l ls)
  show ?case
  proof (cases "skipped l")
    case True
    have "parse_lines dec [l] = Some []" using True by simp
    then have "decisions_of dec (out @ l @ [10]) = Some acc"
      using decisions_of_line [of out l dec] Cons.prems by simp
    moreover have "line_complete (out @ l @ [10])" by (simp add: line_complete_def)
    ultimately show ?thesis using Cons.IH [of ds "out @ l @ [10]" acc upd] Cons.prems True by simp
  next
    case False
    then obtain d0 ds' where d0: "dec (trim l) = Some d0" "parse_lines dec ls = Some ds'" "ds = d0 # ds'"
      using Cons.prems(1) by (auto split: option.splits)
    let ?d = "if de_id d0 = i then edit d0 else d0" and ?u = "if de_id d0 = i then Some (edit d0) else upd"
    have c: "line_codec enc dec ?d" using Cons.prems(5) d0(3) by simp
    then obtain s where s: "enc ?d = Some s" unfolding line_codec_def by blast
    have "decisions_of dec (out @ s @ [10]) = Some (acc @ [?d])"
      using decisions_of_line [of out s dec] parse_codec [OF c s] Cons.prems(3,4) by simp
    moreover have "line_complete (out @ s @ [10])" by (simp add: line_complete_def)
    ultimately obtain out' upd' where r: "rewrite_lines enc dec i edit ls (out @ s @ [10]) ?u = Some (out', upd')"
      "decisions_of dec out' = Some ((acc @ [?d]) @ map (\<lambda>d. if de_id d = i then edit d else d) ds')"
      "if \<exists>d \<in> set ds'. de_id d = i then (\<exists>d \<in> set ds'. de_id d = i \<and> upd' = Some (edit d)) else upd' = ?u"
      using Cons.IH [of ds' "out @ s @ [10]" "acc @ [?d]" ?u] Cons.prems d0 by auto
    have "rewrite_lines enc dec i edit (l # ls) out upd = Some (out', upd')"
      using False d0(1) s r(1) by (auto simp: Let_def split: if_splits)
    then show ?thesis using r(2,3) d0(3) by (auto split: if_splits)
  qed
qed

lemma update_journal_eq:
  assumes p: "decisions_of dec raw = Some ds"
    and c: "\<forall>d \<in> set ds. line_codec enc dec (if de_id d = i then edit d else d)" and ex: "\<exists>d \<in> set ds. de_id d = i"
  shows "\<exists>d raw'. update_journal enc dec IoOk i edit (Text raw) = (Inr d, Text raw') \<and>
    (\<exists>x \<in> set ds. de_id x = i \<and> d = edit x) \<and>
    decisions_of dec raw' = Some (map (\<lambda>d. if de_id d = i then edit d else d) ds)"
proof -
  have "decisions_of dec [] = Some []" by (simp add: decisions_of_def str_lines_def)
  moreover have "\<forall>l \<in> set (str_lines raw). 10 \<notin> set l" using str_lines_no_nl by blast
  moreover have "line_complete []" by (simp add: line_complete_def)
  ultimately obtain out upd where "rewrite_lines enc dec i edit (str_lines raw) [] None = Some (out, upd)"
    "decisions_of dec out = Some (map (\<lambda>d. if de_id d = i then edit d else d) ds)"
    "\<exists>d \<in> set ds. de_id d = i \<and> upd = Some (edit d)"
    using rewrite_lines_eq [of dec "str_lines raw" ds "[]" "[]" enc i edit None] p c ex unfolding decisions_of_def by auto
  then show ?thesis by (auto simp: update_journal_def write_journal_def)
qed

text \<open>The journal as a list of decisions: what an append and a mark-read mean.\<close>

definition posted :: "decision \<Rightarrow> decision list \<Rightarrow> appended \<times> decision list" where
  "posted d ds =
     (case find (\<lambda>x. de_id x = de_id d) ds of
        None \<Rightarrow> (New, ds @ [d])
      | Some old \<Rightarrow>
          if old = d then (Identical, ds)
          else if de_state old = state_tranched then (Settled, ds)
          else (Reopened, map (\<lambda>x. if de_id x = de_id d then d else x) ds))"

definition seen :: "decision \<Rightarrow> decision" where
  "seen d = (if de_state d = state_open then d\<lparr>de_state := state_read\<rparr> else d)"

definition marked :: "rstr \<Rightarrow> decision list \<Rightarrow> decision list" where
  "marked i ds = map (\<lambda>d. if de_id d = i then seen d else d) ds"

lemma same_line_codec: "line_codec enc dec a \<Longrightarrow> line_codec enc dec b \<Longrightarrow> same_line enc a b \<longleftrightarrow> a = b"
  unfolding line_codec_def same_line_def by (metis option.inject)

text \<open>Ending an unfinished last line does not change what the text says.\<close>

lemma decisions_of_newline:
  assumes "raw \<noteq> []" "last raw \<noteq> 10"
  shows "decisions_of dec (raw @ [10]) = decisions_of dec raw"
proof -
  define B where "B = rev (takeWhile (\<lambda>c. c \<noteq> 10) (rev raw))"
  define A where "A = rev (dropWhile (\<lambda>c. c \<noteq> 10) (rev raw))"
  have AB: "raw = A @ B" unfolding A_def B_def by (metis rev_append rev_rev_ident takeWhile_dropWhile_id)
  have B: "10 \<notin> set B" by (auto simp: B_def dest: set_takeWhileD)
  have A: "line_complete A"
    using hd_dropWhile_not [of "\<lambda>c. c \<noteq> 10" "rev raw"] by (auto simp: A_def line_complete_def last_rev)
  have Bne: "B \<noteq> []"
  proof
    assume "B = []"
    then have "raw = A" using AB by simp
    then show False using A assms by (simp add: line_complete_def)
  qed
  obtain l' where l': "str_lines (B @ [10]) = [l']" "trim l' = trim B" using str_lines_one [OF B] by blast
  have inc: "split_inclusive_nl acc B = [rev acc @ B]" for acc
    using B Bne by (induction B arbitrary: acc) (auto, metis append.assoc append_Cons append_Nil rev.simps(2) split_inclusive_nl.simps(1) list.distinct(1))
  have "str_lines B = [B]"
    using inc [of "[]"] last_in_set [OF Bne] B by (auto simp: str_lines_def strip_line_end_def)
  then have "str_lines raw = str_lines A @ [B]" "str_lines (raw @ [10]) = str_lines A @ [l']"
    using A l'(1) by (simp_all add: AB line_complete_def str_lines_append)
  then show ?thesis unfolding decisions_of_def by (simp only: parse_lines_append parse_one [OF l'(2)])
qed

lemma append_decision_eq:
  assumes p: "decisions_of dec raw = Some ds" and c: "\<forall>x \<in> insert d (set ds). line_codec enc dec x"
  shows "\<exists>raw'. append_decision enc dec IoOk d (Text raw) = (Inr (fst (posted d ds)), Text raw') \<and>
    decisions_of dec raw' = Some (snd (posted d ds))"
proof -
  have l: "list_journal dec True (Text raw) = Inr ds" using p by (simp add: list_journal_def decisions_of_def)
  show ?thesis
  proof (cases "find (\<lambda>x. de_id x = de_id d) ds")
    case None
    have dc: "line_codec enc dec d" using c by simp
    then obtain s where s: "enc d = Some s" unfolding line_codec_def by blast
    note ps = parse_codec [OF dc s]
    show ?thesis
    proof (cases "raw \<noteq> [] \<and> last raw \<noteq> 10")
      case True
      have "decisions_of dec ((raw @ [10]) @ s @ [10]) = Some (ds @ [d])"
        using decisions_of_line [of "raw @ [10]" s dec] decisions_of_newline [of raw dec] True ps p
        by (simp add: line_complete_def)
      then show ?thesis using True l None s
        by (auto simp: append_decision_def append_journal_def posted_def Let_def)
    next
      case False
      then have "decisions_of dec (raw @ s @ [10]) = Some (ds @ [d])"
        using decisions_of_line [of raw s dec] ps p by (auto simp: line_complete_def)
      then show ?thesis using False l None s
        by (auto simp: append_decision_def append_journal_def posted_def Let_def)
    qed
  next
    case (Some old)
    then have old: "old \<in> set ds" "de_id old = de_id d" by (auto simp: find_Some_iff)
    have sm: "same_line enc old d \<longleftrightarrow> old = d" using c old by (intro same_line_codec) auto
    have "\<exists>raw' x. update_journal enc dec IoOk (de_id d) (\<lambda>_. d) (Text raw) = (Inr x, Text raw') \<and>
        decisions_of dec raw' = Some (map (\<lambda>x. if de_id x = de_id d then d else x) ds)"
      using update_journal_eq [OF p, of enc "de_id d" "\<lambda>_. d"] c old by auto
    then show ?thesis using Some sm l p by (auto simp: append_decision_def posted_def)
  qed
qed

lemma mark_read_eq:
  assumes p: "decisions_of dec raw = Some ds" and c: "\<forall>x \<in> set ds. line_codec enc dec x \<and> line_codec enc dec (seen x)"
    and ex: "\<exists>x \<in> set ds. de_id x = i"
  shows "\<exists>d raw'. mark_read enc dec IoOk i (Text raw) = (Inr d, Text raw') \<and> decisions_of dec raw' = Some (marked i ds)"
proof -
  have s: "(\<lambda>d. if de_state d = state_open then d\<lparr>de_state := state_read\<rparr> else d) = seen"
    by (simp add: seen_def fun_eq_iff)
  have "\<forall>x \<in> set ds. line_codec enc dec (if de_id x = i then seen x else x)" using c by simp
  from update_journal_eq [OF p this ex] show ?thesis unfolding mark_read_def s marked_def by blast
qed

text \<open>Producers and readers at work.\<close>

datatype journal_op = Post decision | MarkRead rstr

definition journal_step :: "enc_line \<Rightarrow> dec_line \<Rightarrow> journal_op \<Rightarrow> journal_file \<Rightarrow> journal_file" where
  "journal_step enc dec op file =
     (case op of
        Post d \<Rightarrow> snd (append_decision enc dec IoOk d file)
      | MarkRead i \<Rightarrow> snd (mark_read enc dec IoOk i file))"

definition journal_run :: "enc_line \<Rightarrow> dec_line \<Rightarrow> journal_op list \<Rightarrow> journal_file \<Rightarrow> journal_file" where
  "journal_run enc dec ops file = fold (journal_step enc dec) ops file"

text \<open>The decisions an operation can bring in, each with its read version.\<close>

definition writable :: "enc_line \<Rightarrow> dec_line \<Rightarrow> decision \<Rightarrow> bool" where
  "writable enc dec d \<longleftrightarrow> line_codec enc dec d \<and> line_codec enc dec (seen d)"

definition op_writable :: "enc_line \<Rightarrow> dec_line \<Rightarrow> journal_op \<Rightarrow> bool" where
  "op_writable enc dec op = (case op of Post d \<Rightarrow> writable enc dec d | MarkRead i \<Rightarrow> True)"

lemma seen_seen: "seen (seen d) = seen d"
  by (simp add: seen_def state_open_def state_read_def lit_def)

lemma seen_id [simp]: "de_id (seen d) = de_id d"
  by (simp add: seen_def)

lemma find_map_other:
  "(\<And>x. de_id (f x) = de_id x) \<Longrightarrow> find (\<lambda>x. de_id x = i) ds = Some old \<Longrightarrow> f old = old \<Longrightarrow>
     find (\<lambda>x. de_id x = i) (map f ds) = Some old"
  by (induction ds) (auto split: if_splits)

lemma tranched_seen: "de_state old = state_tranched \<Longrightarrow> seen old = old"
  by (simp add: seen_def state_tranched_def state_open_def lit_def)

lemma posted_keeps_ruling:
  assumes "find (\<lambda>x. de_id x = i) ds = Some old" "de_state old = state_tranched"
  shows "find (\<lambda>x. de_id x = i) (snd (posted d ds)) = Some old"
proof (cases "de_id d = i")
  case True
  then show ?thesis using assms by (simp add: posted_def)
next
  case False
  have o: "de_id old = i" using assms(1) by (auto simp: find_Some_iff)
  have a: "find (\<lambda>x. de_id x = i) (ds @ [d]) = Some old" using assms(1) by (induction ds) auto
  have m: "find (\<lambda>x. de_id x = i) (map (\<lambda>x. if de_id x = de_id d then d else x) ds) = Some old"
    by (rule find_map_other) (use assms(1) o False in auto)
  show ?thesis using assms(1) a m by (auto simp: posted_def split: option.split)
qed

lemma marked_keeps_ruling:
  assumes "find (\<lambda>x. de_id x = i) ds = Some old" "de_state old = state_tranched"
  shows "find (\<lambda>x. de_id x = i) (marked j ds) = Some old"
  unfolding marked_def by (rule find_map_other) (use assms tranched_seen in auto)

lemma posted_set: "set (snd (posted d ds)) \<subseteq> insert d (set ds)"
  by (auto simp: posted_def split: option.split)

lemma mark_read_absent:
  assumes p: "decisions_of dec raw = Some ds" and c: "\<forall>x \<in> set ds. line_codec enc dec x" and no: "\<not> (\<exists>x \<in> set ds. de_id x = i)"
  shows "snd (mark_read enc dec IoOk i (Text raw)) = Text raw"
proof -
  have "\<forall>l \<in> set (str_lines raw). 10 \<notin> set l" using str_lines_no_nl by blast
  moreover have "decisions_of dec [] = Some []" "line_complete []" by (simp_all add: decisions_of_def str_lines_def line_complete_def)
  moreover have "\<forall>d \<in> set ds. line_codec enc dec (if de_id d = i then seen d else d)" using c no by auto
  ultimately obtain out where "rewrite_lines enc dec i seen (str_lines raw) [] None = Some (out, None)"
    using rewrite_lines_eq [of dec "str_lines raw" ds "[]" "[]" enc i seen None] p no unfolding decisions_of_def by auto
  moreover have "(\<lambda>d. if de_state d = state_open then d\<lparr>de_state := state_read\<rparr> else d) = seen"
    by (simp add: seen_def fun_eq_iff)
  ultimately show ?thesis by (simp add: mark_read_def update_journal_def)
qed

lemma journal_run_keeps:
  assumes "decisions_of dec raw = Some ds" "\<forall>x \<in> set ds. writable enc dec x" "\<forall>op \<in> set ops. op_writable enc dec op"
    and "find (\<lambda>x. de_id x = i) ds = Some old" "de_state old = state_tranched"
  shows "\<exists>raw' ds'. journal_run enc dec ops (Text raw) = Text raw' \<and> decisions_of dec raw' = Some ds' \<and>
    find (\<lambda>x. de_id x = i) ds' = Some old"
  using assms
proof (induction ops arbitrary: raw ds)
  case Nil
  then show ?case by (simp add: journal_run_def)
next
  case (Cons op ops)
  have run: "journal_run enc dec (op # ops) (Text raw) = journal_run enc dec ops (journal_step enc dec op (Text raw))"
    by (simp add: journal_run_def)
  have "\<exists>raw1 ds1. journal_step enc dec op (Text raw) = Text raw1 \<and> decisions_of dec raw1 = Some ds1 \<and>
      (\<forall>x \<in> set ds1. writable enc dec x) \<and> find (\<lambda>x. de_id x = i) ds1 = Some old"
  proof (cases op)
    case (Post d)
    have w: "writable enc dec d" using Cons.prems(3) Post by (simp add: op_writable_def)
    have c: "\<forall>x \<in> insert d (set ds). line_codec enc dec x" using Cons.prems(2) w by (simp add: writable_def)
    obtain raw1 where r: "append_decision enc dec IoOk d (Text raw) = (Inr (fst (posted d ds)), Text raw1)"
      "decisions_of dec raw1 = Some (snd (posted d ds))" using append_decision_eq [OF Cons.prems(1) c] by blast
    have "\<forall>x \<in> set (snd (posted d ds)). writable enc dec x" using posted_set [of d ds] Cons.prems(2) w by blast
    then show ?thesis using r posted_keeps_ruling [OF Cons.prems(4,5)] Post by (simp add: journal_step_def)
  next
    case (MarkRead j)
    show ?thesis
    proof (cases "\<exists>x \<in> set ds. de_id x = j")
      case True
      have c: "\<forall>x \<in> set ds. line_codec enc dec x \<and> line_codec enc dec (seen x)"
        using Cons.prems(2) by (simp add: writable_def)
      obtain y raw1 where r: "mark_read enc dec IoOk j (Text raw) = (Inr y, Text raw1)" "decisions_of dec raw1 = Some (marked j ds)"
        using mark_read_eq [OF Cons.prems(1) c True] by blast
      have "\<forall>x \<in> set (marked j ds). writable enc dec x"
        using Cons.prems(2) by (auto simp: marked_def writable_def seen_seen)
      then show ?thesis using r marked_keeps_ruling [OF Cons.prems(4,5)] MarkRead by (simp add: journal_step_def)
    next
      case False
      have "snd (mark_read enc dec IoOk j (Text raw)) = Text raw"
        by (rule mark_read_absent [OF Cons.prems(1) _ False]) (use Cons.prems(2) in \<open>simp add: writable_def\<close>)
      then show ?thesis using Cons.prems MarkRead by (simp add: journal_step_def)
    qed
  qed
  then show ?case using run Cons.IH Cons.prems(3,5) by auto
qed

lemma append_decision_again:
  assumes p: "decisions_of dec raw = Some ds" and f: "find (\<lambda>x. de_id x = de_id d) ds = Some old"
  shows "append_decision enc dec io d (Text raw) =
    (if same_line enc old d then (Inr Identical, Text raw)
     else if de_state old = state_tranched then (Inr Settled, Text raw)
     else append_decision enc dec io d (Text raw))"
  using assms by (simp add: append_decision_def list_journal_def decisions_of_def)

lemma posted_find:
  "find (\<lambda>x. de_id x = de_id d) (snd (posted d ds)) =
     (if fst (posted d ds) = Settled then find (\<lambda>x. de_id x = de_id d) ds else Some d)"
proof (cases "find (\<lambda>x. de_id x = de_id d) ds")
  case None
  then have "find (\<lambda>x. de_id x = de_id d) (ds @ [d]) = Some d" by (induction ds) (auto split: if_splits)
  then show ?thesis using None by (simp add: posted_def)
next
  case (Some old)
  then have "find (\<lambda>x. de_id x = de_id d) (map (\<lambda>x. if de_id x = de_id d then d else x) ds) = Some d"
    by (induction ds) (auto split: if_splits)
  then show ?thesis using Some by (simp add: posted_def)
qed

lemma posted_settled:
  "fst (posted d ds) = Settled \<Longrightarrow>
     \<exists>old. find (\<lambda>x. de_id x = de_id d) ds = Some old \<and> de_state old = state_tranched \<and> snd (posted d ds) = ds"
  by (auto simp: posted_def split: option.splits if_splits)

section \<open>Properties\<close>

text \<open>A codec of one-letter lines for the concrete examples.\<close>

definition letters :: "(nat \<times> decision) list \<Rightarrow> enc_line \<times> dec_line" where
  "letters tab =
     (\<lambda>d. map_option (\<lambda>(c, _). [c]) (find (\<lambda>(_, x). x = d) tab),
      \<lambda>s. (case s of [c] \<Rightarrow> map_of tab c | _ \<Rightarrow> None))"

definition sample_decision :: "rstr \<Rightarrow> rstr \<Rightarrow> decision" where
  "sample_decision i st =
     \<lparr>de_id = i, de_project = None, de_state = st, de_title = None, de_verdict = None, de_summary = None,
      de_detail = None, de_why_gated = None, de_reco = None, de_effort = None, de_files = []\<rparr>"

definition sample_codec :: "enc_line \<times> dec_line" where
  "sample_codec = letters
     [(65, sample_decision (lit ''a'') state_open), (66, sample_decision (lit ''a'') state_read),
      (67, sample_decision (lit ''b'') state_tranched), (68, sample_decision (lit ''b'') state_open),
      (69, sample_decision (lit ''b'') state_read)]"

text \<open>Posting to a readable journal implements the list specification \<open>posted\<close>: a new id is added at
  the end, an unruled one is replaced in place, a ruled or an equal one is left alone; the answer says which. The
  text stays readable even when the last line was unfinished. Posting the same decision again, whatever the
  disk would do, changes no byte and answers that it is there or already ruled.\<close>

theorem journal_append_refines:
  assumes "decisions_of dec raw = Some ds" and "\<forall>x \<in> insert d (set ds). line_codec enc dec x"
  shows "\<exists>raw'. append_decision enc dec IoOk d (Text raw) = (Inr (fst (posted d ds)), Text raw') \<and>
    decisions_of dec raw' = Some (snd (posted d ds)) \<and>
    append_decision enc dec io d (Text raw') =
      (Inr (if same_line enc (the (find (\<lambda>x. de_id x = de_id d) (snd (posted d ds)))) d then Identical else Settled), Text raw') \<and>
    (fst (posted d ds) = Settled \<or> find (\<lambda>x. de_id x = de_id d) (snd (posted d ds)) = Some d)"
proof -
  obtain raw' where r: "append_decision enc dec IoOk d (Text raw) = (Inr (fst (posted d ds)), Text raw')"
    "decisions_of dec raw' = Some (snd (posted d ds))" using append_decision_eq [OF assms] by blast
  show ?thesis
  proof (cases "fst (posted d ds) = Settled")
    case True
    then obtain old where o: "find (\<lambda>x. de_id x = de_id d) ds = Some old" "de_state old = state_tranched"
      "snd (posted d ds) = ds" using posted_settled by blast
    then show ?thesis using append_decision_again [OF r(2), of d old enc io] r True by auto
  next
    case False
    then have "find (\<lambda>x. de_id x = de_id d) (snd (posted d ds)) = Some d" by (simp add: posted_find)
    then show ?thesis using append_decision_again [OF r(2), of d d enc io] r by (auto simp: same_line_def)
  qed
qed

lemma sample_facts:
  "decisions_of (snd sample_codec) [65, 10, 35, 10, 67] =
     Some [sample_decision (lit ''a'') state_open, sample_decision (lit ''b'') state_tranched]"
  "\<forall>x \<in> {sample_decision (lit ''a'') state_open, sample_decision (lit ''a'') state_read,
     sample_decision (lit ''b'') state_tranched, sample_decision (lit ''b'') state_open}.
     writable (fst sample_codec) (snd sample_codec) x"
  by (simp_all add: decisions_of_def str_lines_def strip_line_end_def skipped_def trim_def trim_start_def trim_end_def is_whitespace_def
      sample_codec_def letters_def sample_decision_def writable_def line_codec_def seen_def lit_def
      state_open_def state_read_def state_tranched_def Let_def)

theorem journal_append_refines_witness:
  "\<exists>raw'. append_decision (fst sample_codec) (snd sample_codec) IoOk (sample_decision (lit ''a'') state_read)
      (Text [65, 10, 35, 10, 67]) =
      (Inr (fst (posted (sample_decision (lit ''a'') state_read)
        [sample_decision (lit ''a'') state_open, sample_decision (lit ''b'') state_tranched])), Text raw')"
  using journal_append_refines [OF sample_facts(1), of "sample_decision (lit ''a'') state_read" "fst sample_codec" IoOk]
    sample_facts(2) by (auto simp: writable_def)

text \<open>C22 A ruling is final while it is not archived: over any sequence of posts and read marks whose writes succeed, of decisions
  whose lines read back as written, a decision that was ruled keeps its line's content, verdict included, and the journal
  stays readable. (A ruling that was archived as well is not
  protected by \<open>append_decision\<close>: a new post replaces it.)\<close>

theorem ruling_never_overturned:
  assumes "decisions_of dec raw = Some ds" and "\<forall>x \<in> set ds. writable enc dec x" and "\<forall>op \<in> set ops. op_writable enc dec op"
    and "find (\<lambda>x. de_id x = i) ds = Some old" and "de_state old = state_tranched"
  shows "\<exists>raw' ds'. journal_run enc dec ops (Text raw) = Text raw' \<and>
    list_journal dec True (Text raw') = Inr ds' \<and> find (\<lambda>x. de_id x = i) ds' = Some old"
  using journal_run_keeps [OF assms] by (auto simp: list_journal_def decisions_of_def)

theorem ruling_never_overturned_witness:
  "\<exists>raw' ds'. journal_run (fst sample_codec) (snd sample_codec)
      [Post (sample_decision (lit ''b'') state_open), MarkRead (lit ''b'')] (Text [65, 10, 35, 10, 67]) = Text raw' \<and>
    list_journal (snd sample_codec) True (Text raw') = Inr ds' \<and>
    find (\<lambda>x. de_id x = lit ''b'') ds' = Some (sample_decision (lit ''b'') state_tranched)"
  by (rule ruling_never_overturned [OF sample_facts(1)])
    (use sample_facts(2) in \<open>auto simp: op_writable_def sample_decision_def lit_def state_tranched_def\<close>)

text \<open>Reading is not kept: after a person has read an open decision, a producer that posts the very
  same line again sets it back to open, and the answer is that the board moved.\<close>

theorem repost_reopens_read:
  assumes "decisions_of dec raw = Some ds" and "\<forall>x \<in> set ds. writable enc dec x"
    and "d \<in> set ds" and "de_state d = state_open" and "\<forall>x \<in> set ds. de_id x = de_id d \<longrightarrow> x = d"
  shows "\<exists>raw'. append_decision enc dec IoOk d (snd (mark_read enc dec IoOk (de_id d) (Text raw))) = (Inr Reopened, Text raw') \<and>
    decisions_of dec raw' = Some ds"
proof -
  have c: "\<forall>x \<in> set ds. line_codec enc dec x \<and> line_codec enc dec (seen x)" using assms(2) by (simp add: writable_def)
  obtain y raw1 where m: "mark_read enc dec IoOk (de_id d) (Text raw) = (Inr y, Text raw1)"
    "decisions_of dec raw1 = Some (marked (de_id d) ds)" using mark_read_eq [OF assms(1) c] assms(3) by blast
  have c1: "\<forall>x \<in> insert d (set (marked (de_id d) ds)). line_codec enc dec x" using c assms(3) by (auto simp: marked_def)
  have ne: "seen d \<noteq> d" "de_state (seen d) \<noteq> state_tranched"
    using assms(4) by (auto simp: seen_def state_open_def state_read_def state_tranched_def lit_def dest: arg_cong [where f = de_state])
  have "find (\<lambda>x. de_id x = de_id d) (marked (de_id d) ds) = Some (seen d)"
    using assms(3,5) unfolding marked_def by (induction ds) (auto split: if_splits)
  moreover have "map (\<lambda>x. if de_id x = de_id d then d else x) (marked (de_id d) ds) = ds"
    unfolding marked_def map_map o_def by (rule map_idI) (use assms(5) in auto)
  ultimately have "posted d (marked (de_id d) ds) = (Reopened, ds)" using ne by (simp add: posted_def)
  then show ?thesis using append_decision_eq [OF m(2) c1] m(1) by simp
qed

theorem repost_reopens_read_witness:
  "\<exists>raw'. append_decision (fst sample_codec) (snd sample_codec) IoOk (sample_decision (lit ''a'') state_open)
      (snd (mark_read (fst sample_codec) (snd sample_codec) IoOk (lit ''a'') (Text [65, 10, 35, 10, 67]))) =
      (Inr Reopened, Text raw')"
  using repost_reopens_read [OF sample_facts(1), of "fst sample_codec" "sample_decision (lit ''a'') state_open"] sample_facts(2)
  by (auto simp: sample_decision_def lit_def)

end
