(* ===== verification/Editor.thy ===== *)
theory Editor
  imports Prelude
begin

text \<open>
  The input line of the agent's terminal interface, \<^verbatim>\<open>src/crates/catbus-agent/src/tui/editor.rs\<close>: a
  buffer of characters with a cursor, and a history that is walked with a stash for the live line. An
  index a Rust vector would refuse is a panic, the result \<^term>\<open>None\<close>.
\<close>

section \<open>State\<close>

datatype action = Continue | Submit rstr | Exit | Cancel | ClearScreen

record editor =
  ed_chars :: rstr
  ed_cursor :: nat
  ed_history :: "rstr list"
  ed_browsing :: "nat option"
  ed_stashed :: rstr

definition history_limit :: nat where
  "history_limit = 500"

definition new_editor :: editor where
  "new_editor = \<lparr>ed_chars = [], ed_cursor = 0, ed_history = [], ed_browsing = None, ed_stashed = []\<rparr>"

section \<open>Vectors\<close>

text \<open>\<^verbatim>\<open>Vec::insert\<close>, \<^verbatim>\<open>remove\<close> and \<^verbatim>\<open>drain(a..b)\<close>; \<^verbatim>\<open>truncate\<close> never panics.\<close>

definition vec_insert :: "nat \<Rightarrow> 'a \<Rightarrow> 'a list \<Rightarrow> 'a list option" where
  "vec_insert i x xs = (if i \<le> length xs then Some (take i xs @ x # drop i xs) else None)"

definition vec_remove :: "nat \<Rightarrow> 'a list \<Rightarrow> 'a list option" where
  "vec_remove i xs = (if i < length xs then Some (take i xs @ drop (i + 1) xs) else None)"

definition vec_drain :: "nat \<Rightarrow> nat \<Rightarrow> 'a list \<Rightarrow> 'a list option" where
  "vec_drain a b xs = (if a \<le> b \<and> b \<le> length xs then Some (take a xs @ drop b xs) else None)"

section \<open>Operations\<close>

definition is_blank :: "editor \<Rightarrow> bool" where
  "is_blank e \<longleftrightarrow> trim (ed_chars e) = []"

definition clear :: "editor \<Rightarrow> editor" where
  "clear e = e\<lparr>ed_chars := [], ed_cursor := 0, ed_browsing := None, ed_stashed := []\<rparr>"

definition set_line :: "rstr \<Rightarrow> editor \<Rightarrow> editor" where
  "set_line text e = e\<lparr>ed_chars := text, ed_cursor := length text, ed_browsing := None\<rparr>"

text \<open>One character at the cursor, which then steps over it.\<close>

definition insert_char :: "rchar \<Rightarrow> editor \<Rightarrow> editor option" where
  "insert_char c e =
     map_option (\<lambda>cs. e\<lparr>ed_chars := cs, ed_cursor := ed_cursor e + 1\<rparr>) (vec_insert (ed_cursor e) c (ed_chars e))"

fun paste :: "rstr \<Rightarrow> editor \<Rightarrow> editor option" where
  "paste [] e = Some e"
| "paste (ch # rest) e =
     (if ch = 13 then
        (case insert_char 10 e of
           None \<Rightarrow> None
         | Some e' \<Rightarrow> (if rest \<noteq> [] \<and> hd rest = 10 then paste (tl rest) e' else paste rest e'))
      else (case insert_char ch e of None \<Rightarrow> None | Some e' \<Rightarrow> paste rest e'))"

definition newline :: "editor \<Rightarrow> editor option" where
  "newline e = map_option (\<lambda>e. e\<lparr>ed_browsing := None\<rparr>) (insert_char 10 e)"

definition line_at_cursor :: "editor \<Rightarrow> rstr \<times> rstr" where
  "line_at_cursor e =
     (let cursor = min (ed_cursor e) (length (ed_chars e)) in (take cursor (ed_chars e), drop cursor (ed_chars e)))"

definition move_left :: "editor \<Rightarrow> editor" where
  "move_left e = e\<lparr>ed_cursor := ed_cursor e - 1\<rparr>"

definition move_right :: "editor \<Rightarrow> editor" where
  "move_right e = (if ed_cursor e < length (ed_chars e) then e\<lparr>ed_cursor := ed_cursor e + 1\<rparr> else e)"

definition delete_forward :: "editor \<Rightarrow> editor option" where
  "delete_forward e =
     (if ed_cursor e < length (ed_chars e)
      then map_option (\<lambda>cs. e\<lparr>ed_chars := cs\<rparr>) (vec_remove (ed_cursor e) (ed_chars e))
      else Some e)"

definition backspace :: "editor \<Rightarrow> editor option" where
  "backspace e =
     (if 0 < ed_cursor e
      then map_option (\<lambda>cs. e\<lparr>ed_cursor := ed_cursor e - 1, ed_chars := cs\<rparr>) (vec_remove (ed_cursor e - 1) (ed_chars e))
      else Some e)"

text \<open>The two loops of \<^verbatim>\<open>kill_word\<close>: while the character before \<open>n\<close> is of the kind, step back.\<close>

fun skip_back :: "(rchar \<Rightarrow> bool) \<Rightarrow> rstr \<Rightarrow> nat \<Rightarrow> nat option" where
  "skip_back kind cs 0 = Some 0"
| "skip_back kind cs (Suc n) =
     (if n < length cs then (if kind (cs ! n) then skip_back kind cs n else Some (Suc n)) else None)"

definition kill_word :: "editor \<Rightarrow> editor option" where
  "kill_word e =
     Option.bind (skip_back is_whitespace (ed_chars e) (ed_cursor e)) (\<lambda>mid.
     Option.bind (skip_back (\<lambda>c. \<not> is_whitespace c) (ed_chars e) mid) (\<lambda>end_at.
     map_option (\<lambda>cs. e\<lparr>ed_chars := cs, ed_cursor := end_at\<rparr>) (vec_drain end_at (ed_cursor e) (ed_chars e))))"

definition kill_to_start :: "editor \<Rightarrow> editor option" where
  "kill_to_start e = map_option (\<lambda>cs. e\<lparr>ed_chars := cs, ed_cursor := 0\<rparr>) (vec_drain 0 (ed_cursor e) (ed_chars e))"

definition remember_line :: "rstr \<Rightarrow> editor \<Rightarrow> editor" where
  "remember_line line e =
     (let trimmed = trim line in
      if trimmed = [] then e
      else if ed_history e \<noteq> [] \<and> last (ed_history e) = trimmed then e
      else (let h = ed_history e @ [trimmed]
            in e\<lparr>ed_history := (if history_limit < length h then tl h else h)\<rparr>))"

definition submit :: "editor \<Rightarrow> action \<times> editor" where
  "submit e =
     (if is_blank e then (Continue, e) else (Submit (ed_chars e), remember_line (ed_chars e) e))"

definition set_line_keeping_browse :: "rstr \<Rightarrow> editor \<Rightarrow> editor" where
  "set_line_keeping_browse text e =
     (set_line text (e\<lparr>ed_stashed := []\<rparr>))\<lparr>ed_browsing := ed_browsing e, ed_stashed := ed_stashed e\<rparr>"

definition walk_to :: "nat \<Rightarrow> editor \<Rightarrow> editor option" where
  "walk_to next e =
     (let e' = e\<lparr>ed_browsing := Some next\<rparr> in
      if next < length (ed_history e') then Some (set_line_keeping_browse (ed_history e' ! next) e') else None)"

definition history_back :: "editor \<Rightarrow> editor option" where
  "history_back e =
     (if ed_history e = [] then Some e
      else case ed_browsing e of
             None \<Rightarrow> walk_to (length (ed_history e) - 1) (e\<lparr>ed_stashed := ed_chars e\<rparr>)
           | Some i \<Rightarrow> if i = 0 then Some e else walk_to (i - 1) e)"

definition history_forward :: "editor \<Rightarrow> editor option" where
  "history_forward e =
     (case ed_browsing e of
        None \<Rightarrow> Some e
      | Some current \<Rightarrow>
          if length (ed_history e) \<le> current + 1
          then Some (set_line_keeping_browse (ed_stashed e) (e\<lparr>ed_stashed := [], ed_browsing := None\<rparr>))
          else walk_to (current + 1) e)"

section \<open>Keys\<close>

datatype key_code = Enter | Char rchar | Backspace | Delete | Left | Right | Home | End | Up | Down | OtherKey

record key =
  k_code :: key_code
  k_ctrl :: bool
  k_alt :: bool
  k_shift :: bool

definition go :: "editor option \<Rightarrow> (action \<times> editor) option" where
  "go r = map_option (Pair Continue) r"

text \<open>The arms of \<^verbatim>\<open>handle\<close>, in its order; a control character no arm names is consumed.\<close>

definition handle :: "key \<Rightarrow> editor \<Rightarrow> (action \<times> editor) option" where
  "handle key e =
     (case k_code key of
        Enter \<Rightarrow>
          if k_shift key \<or> k_alt key then go (newline e)
          else if k_ctrl key then go (Some e)
          else Some (submit e)
      | Char ch \<Rightarrow>
          if ch = 10 \<or> ch = 13 then Some (submit e)
          else if ch = 106 \<and> k_ctrl key then Some (submit e)
          else if ch = 100 \<and> k_ctrl key then
            (if ed_chars e = [] then Some (Exit, e) else go (delete_forward e))
          else if ch = 99 \<and> k_ctrl key then Some (Cancel, e)
          else if ch = 97 \<and> k_ctrl key then go (Some (e\<lparr>ed_cursor := 0\<rparr>))
          else if ch = 101 \<and> k_ctrl key then go (Some (e\<lparr>ed_cursor := length (ed_chars e)\<rparr>))
          else if ch = 98 \<and> k_ctrl key then go (Some (move_left e))
          else if ch = 102 \<and> k_ctrl key then go (Some (move_right e))
          else if ch = 117 \<and> k_ctrl key then go (kill_to_start e)
          else if ch = 107 \<and> k_ctrl key then go (Some (e\<lparr>ed_chars := take (ed_cursor e) (ed_chars e)\<rparr>))
          else if ch = 119 \<and> k_ctrl key then go (kill_word e)
          else if ch = 108 \<and> k_ctrl key then Some (ClearScreen, clear e)
          else if \<not> k_ctrl key then go (insert_char ch e)
          else go (Some e)
      | Backspace \<Rightarrow> go (backspace e)
      | Delete \<Rightarrow> go (delete_forward e)
      | Left \<Rightarrow> go (Some (move_left e))
      | Right \<Rightarrow> go (Some (move_right e))
      | Home \<Rightarrow> go (Some (e\<lparr>ed_cursor := 0\<rparr>))
      | End \<Rightarrow> go (Some (e\<lparr>ed_cursor := length (ed_chars e)\<rparr>))
      | Up \<Rightarrow> go (history_back e)
      | Down \<Rightarrow> go (history_forward e)
      | OtherKey \<Rightarrow> go (Some e))"

text \<open>What the interface does with an editor: keys, pastes, and the caller's own resets.\<close>

datatype input = Key key | Paste rstr | Clear | SetLine rstr

definition feed :: "input \<Rightarrow> editor \<Rightarrow> editor option" where
  "feed i e =
     (case i of
        Key k \<Rightarrow> map_option snd (handle k e)
      | Paste s \<Rightarrow> paste s e
      | Clear \<Rightarrow> Some (clear e)
      | SetLine s \<Rightarrow> Some (set_line s e))"

fun feeds :: "input list \<Rightarrow> editor \<Rightarrow> editor option" where
  "feeds [] e = Some e"
| "feeds (i # is) e = Option.bind (feed i e) (feeds is)"

section \<open>The abstract editor\<close>

text \<open>
  What an operator sees: the text before and after the cursor. Each key has its effect on this pair,
  written without indices.
\<close>

type_synonym zipper = "rstr \<times> rstr"

definition view :: "editor \<Rightarrow> zipper" where
  "view e = (take (ed_cursor e) (ed_chars e), drop (ed_cursor e) (ed_chars e))"

definition drop_word :: "rstr \<Rightarrow> rstr" where
  "drop_word before = rev (dropWhile (\<lambda>c. \<not> is_whitespace c) (dropWhile is_whitespace (rev before)))"

text \<open>Line ends as \<^verbatim>\<open>paste\<close> leaves them.\<close>

fun unix_newlines :: "rstr \<Rightarrow> rstr" where
  "unix_newlines [] = []"
| "unix_newlines (c # cs) =
     (if c = 13 then 10 # unix_newlines (if cs \<noteq> [] \<and> hd cs = 10 then tl cs else cs)
      else c # unix_newlines cs)"

definition ed_ok :: "editor \<Rightarrow> bool" where
  "ed_ok e \<longleftrightarrow> ed_cursor e \<le> length (ed_chars e) \<and> length (ed_history e) \<le> history_limit \<and>
     (\<forall>l \<in> set (ed_history e). l \<noteq> [] \<and> trim l = l) \<and> distinct_adj (ed_history e) \<and>
     (\<forall>i. ed_browsing e = Some i \<longrightarrow> i < length (ed_history e))"

lemma insert_char_ok:
  assumes "ed_ok e"
  obtains e' where "insert_char c e = Some e'" "ed_ok e'" "view e' = (fst (view e) @ [c], snd (view e))"
    "ed_history e' = ed_history e" "ed_browsing e' = ed_browsing e" "ed_stashed e' = ed_stashed e"
proof -
  have "ed_cursor e \<le> length (ed_chars e)" using assms by (simp add: ed_ok_def)
  then show ?thesis using assms
    by (intro that [of "e\<lparr>ed_chars := take (ed_cursor e) (ed_chars e) @ c # drop (ed_cursor e) (ed_chars e), ed_cursor := ed_cursor e + 1\<rparr>"])
      (simp_all add: insert_char_def vec_insert_def ed_ok_def view_def min_def)
qed

lemma paste_ok:
  "ed_ok e \<Longrightarrow> \<exists>e'. paste s e = Some e' \<and> ed_ok e' \<and> view e' = (fst (view e) @ unix_newlines s, snd (view e)) \<and>
     ed_history e' = ed_history e \<and> ed_browsing e' = ed_browsing e"
proof (induction s e rule: paste.induct)
  case (1 e)
  then show ?case by simp
next
  case (2 ch rest e)
  show ?case
  proof (cases "ch = 13")
    case True
    obtain e1 where e1: "insert_char 10 e = Some e1" "ed_ok e1" "view e1 = (fst (view e) @ [10], snd (view e))"
      "ed_history e1 = ed_history e" "ed_browsing e1 = ed_browsing e" by (rule insert_char_ok [OF 2(4)])
    show ?thesis
    proof (cases "rest \<noteq> [] \<and> hd rest = 10")
      case t: True
      from 2(1) [OF True e1(1) t e1(2)] show ?thesis using True e1 t by auto
    next
      case f: False
      from 2(2) [OF True e1(1) f e1(2)] show ?thesis using True e1 f by auto
    qed
  next
    case False
    obtain e1 where e1: "insert_char ch e = Some e1" "ed_ok e1" "view e1 = (fst (view e) @ [ch], snd (view e))"
      "ed_history e1 = ed_history e" "ed_browsing e1 = ed_browsing e" by (rule insert_char_ok [OF 2(4)])
    from 2(3) [OF False e1(1,2)] show ?thesis using False e1 by auto
  qed
qed

lemma unix_newlines_no_cr: "13 \<notin> set (unix_newlines s)"
  by (induction s rule: unix_newlines.induct) auto

lemma newline_ok:
  assumes "ed_ok e"
  shows "\<exists>e'. newline e = Some e' \<and> ed_ok e' \<and> view e' = (fst (view e) @ [10], snd (view e)) \<and> ed_history e' = ed_history e"
proof -
  obtain e1 where "insert_char 10 e = Some e1" "ed_ok e1" "view e1 = (fst (view e) @ [10], snd (view e))"
      "ed_history e1 = ed_history e" by (rule insert_char_ok [OF assms])
  then show ?thesis by (simp add: newline_def ed_ok_def view_def)
qed

lemma delete_forward_ok:
  "ed_ok e \<Longrightarrow> \<exists>e'. delete_forward e = Some e' \<and> ed_ok e' \<and> view e' = (fst (view e), tl (snd (view e))) \<and> ed_history e' = ed_history e"
  by (cases "ed_cursor e < length (ed_chars e)")
    (auto simp: delete_forward_def vec_remove_def ed_ok_def view_def drop_Suc tl_drop)

lemma backspace_ok:
  "ed_ok e \<Longrightarrow> \<exists>e'. backspace e = Some e' \<and> ed_ok e' \<and> view e' = (butlast (fst (view e)), snd (view e)) \<and> ed_history e' = ed_history e"
  by (auto simp: backspace_def vec_remove_def ed_ok_def view_def butlast_take min_def)

lemma kill_to_start_ok:
  "ed_ok e \<Longrightarrow> \<exists>e'. kill_to_start e = Some e' \<and> ed_ok e' \<and> view e' = ([], snd (view e)) \<and> ed_history e' = ed_history e"
  by (auto simp: kill_to_start_def vec_drain_def ed_ok_def view_def)

lemma skip_back_eq:
  "n \<le> length cs \<Longrightarrow> \<exists>m \<le> n. skip_back kind cs n = Some m \<and> take m cs = rev (dropWhile kind (rev (take n cs)))"
proof (induction n)
  case (Suc n)
  have t: "rev (take (Suc n) cs) = cs ! n # rev (take n cs)"
    using Suc.prems by (simp add: take_Suc_conv_app_nth)
  show ?case
  proof (cases "kind (cs ! n)")
    case True
    then show ?thesis using Suc t by (auto intro: le_SucI)
  next
    case False
    then show ?thesis using Suc.prems t by (auto simp: take_Suc_conv_app_nth)
  qed
qed simp

lemma kill_word_ok:
  assumes "ed_ok e"
  shows "\<exists>e'. kill_word e = Some e' \<and> ed_ok e' \<and> view e' = (drop_word (fst (view e)), snd (view e)) \<and> ed_history e' = ed_history e"
proof -
  let ?cs = "ed_chars e" and ?n = "ed_cursor e"
  have n: "?n \<le> length ?cs" using assms by (simp add: ed_ok_def)
  obtain m where m: "m \<le> ?n" "skip_back is_whitespace ?cs ?n = Some m"
    "take m ?cs = rev (dropWhile is_whitespace (rev (take ?n ?cs)))" using skip_back_eq [OF n, of is_whitespace] by blast
  then have "m \<le> length ?cs" using n by simp
  then obtain q where q: "q \<le> m" "skip_back (\<lambda>c. \<not> is_whitespace c) ?cs m = Some q"
    "take q ?cs = rev (dropWhile (\<lambda>c. \<not> is_whitespace c) (rev (take m ?cs)))"
    using skip_back_eq [of m ?cs "\<lambda>c. \<not> is_whitespace c"] by blast
  have w: "take q ?cs = drop_word (take ?n ?cs)" unfolding drop_word_def q(3) m(3) by simp
  have l: "length (take q ?cs) = q" using q(1) m(1) n by simp
  have "kill_word e = Some (e\<lparr>ed_chars := take q ?cs @ drop ?n ?cs, ed_cursor := q\<rparr>)"
    using m q n by (simp add: kill_word_def vec_drain_def)
  then show ?thesis using assms w l n by (auto simp: ed_ok_def view_def)
qed

lemma remember_ok:
  assumes "ed_ok e"
  shows "ed_ok (remember_line line e) \<and> view (remember_line line e) = view e"
proof -
  let ?t = "trim line" and ?h = "ed_history e"
  consider "?t = [] \<or> ?h \<noteq> [] \<and> last ?h = ?t" | (push) "?t \<noteq> []" "?h = [] \<or> last ?h \<noteq> ?t" by blast
  then show ?thesis
  proof cases
    case push
    have d: "distinct_adj (?h @ [?t])" using assms push(2) by (auto simp: ed_ok_def distinct_adj_append_iff)
    have dt: "distinct_adj (tl (?h @ [?t]))" using d by (cases "?h @ [?t]") (auto simp: distinct_adj_Cons)
    have s: "set (tl (?h @ [?t])) \<subseteq> insert ?t (set ?h)" by (cases ?h) auto
    have all: "\<forall>l \<in> insert ?t (set ?h). l \<noteq> [] \<and> trim l = l" using assms push(1) by (simp add: ed_ok_def trim_idem)
    have r: "remember_line line e = e\<lparr>ed_history := (if history_limit < length (?h @ [?t]) then tl (?h @ [?t]) else ?h @ [?t])\<rparr>"
      using push by (auto simp: remember_line_def Let_def)
    have b: "\<And>i. ed_browsing e = Some i \<Longrightarrow> i < length ?h" and l: "length ?h \<le> history_limit" and c: "ed_cursor e \<le> length (ed_chars e)"
      using assms by (simp_all add: ed_ok_def)
    show ?thesis
    proof (cases "history_limit < length (?h @ [?t])")
      case True
      then show ?thesis using r dt s all b l c by (auto simp: ed_ok_def view_def)
    next
      case False
      then show ?thesis using r d all b l c by (auto simp: ed_ok_def view_def less_Suc_eq)
    qed
  qed (use assms in \<open>auto simp: remember_line_def Let_def\<close>)
qed

lemma walk_to_eq:
  "n < length (ed_history e) \<Longrightarrow> walk_to n e = Some (e\<lparr>ed_chars := ed_history e ! n, ed_cursor := length (ed_history e ! n), ed_browsing := Some n\<rparr>)"
  by (simp add: walk_to_def set_line_keeping_browse_def set_line_def Let_def)

lemma history_back_ok:
  "ed_ok e \<Longrightarrow> \<exists>e'. history_back e = Some e' \<and> ed_ok e' \<and> ed_history e' = ed_history e"
  by (auto simp: history_back_def walk_to_eq ed_ok_def split: option.split)

lemma history_forward_ok:
  "ed_ok e \<Longrightarrow> \<exists>e'. history_forward e = Some e' \<and> ed_ok e' \<and> ed_history e' = ed_history e"
  by (auto simp: history_forward_def walk_to_eq ed_ok_def set_line_keeping_browse_def set_line_def split: option.split)

lemma still_ok:
  assumes "ed_ok e"
  shows "ed_ok (move_left e)" "ed_ok (move_right e)" "ed_ok (clear e)" "ed_ok (set_line s e)"
    "ed_ok (e\<lparr>ed_cursor := 0\<rparr>)" "ed_ok (e\<lparr>ed_cursor := length (ed_chars e)\<rparr>)"
    "ed_ok (e\<lparr>ed_chars := take (ed_cursor e) (ed_chars e)\<rparr>)" "ed_ok (snd (submit e))"
  using assms remember_ok [OF assms]
  by (auto simp: ed_ok_def move_left_def move_right_def clear_def set_line_def submit_def)

text \<open>The effect of each key on what is before and after the cursor; the history keys are not edits.\<close>

definition edit :: "key \<Rightarrow> zipper \<Rightarrow> zipper option" where
  "edit key z =
     (let (before, after) = z in
      case k_code key of
        Enter \<Rightarrow> Some (if k_shift key \<or> k_alt key then before @ [10] else before, after)
      | Char ch \<Rightarrow>
          Some (if ch = 10 \<or> ch = 13 then z
                else if \<not> k_ctrl key then (before @ [ch], after)
                else if ch = 100 then (before, tl after)
                else if ch = 97 then ([], before @ after)
                else if ch = 101 then (before @ after, [])
                else if ch = 98 then (butlast before, if before = [] then after else last before # after)
                else if ch = 102 then (before @ take 1 after, tl after)
                else if ch = 117 then ([], after)
                else if ch = 107 then (before, [])
                else if ch = 119 then (drop_word before, after)
                else if ch = 108 then ([], [])
                else z)
      | Backspace \<Rightarrow> Some (butlast before, after)
      | Delete \<Rightarrow> Some (before, tl after)
      | Left \<Rightarrow> Some (butlast before, if before = [] then after else last before # after)
      | Right \<Rightarrow> Some (before @ take 1 after, tl after)
      | Home \<Rightarrow> Some ([], before @ after)
      | End \<Rightarrow> Some (before @ after, [])
      | Up \<Rightarrow> None
      | Down \<Rightarrow> None
      | OtherKey \<Rightarrow> Some z)"

lemma view_moves:
  assumes "ed_ok e"
  shows "view (move_left e) = (butlast (fst (view e)), if fst (view e) = [] then snd (view e) else last (fst (view e)) # snd (view e))"
    "view (move_right e) = (fst (view e) @ take 1 (snd (view e)), tl (snd (view e)))"
    "view (e\<lparr>ed_cursor := 0\<rparr>) = ([], fst (view e) @ snd (view e))"
    "view (e\<lparr>ed_cursor := length (ed_chars e)\<rparr>) = (fst (view e) @ snd (view e), [])"
    "view (e\<lparr>ed_chars := take (ed_cursor e) (ed_chars e)\<rparr>) = (fst (view e), [])"
    "view (clear e) = ([], [])" "view (snd (submit e)) = view e"
proof -
  have c: "ed_cursor e \<le> length (ed_chars e)" using assms by (simp add: ed_ok_def)
  show "view (move_left e) = (butlast (fst (view e)), if fst (view e) = [] then snd (view e) else last (fst (view e)) # snd (view e))"
  proof (cases "ed_cursor e")
    case 0
    then show ?thesis by (simp add: move_left_def view_def)
  next
    case (Suc n)
    then have n: "n < length (ed_chars e)" using c by simp
    then show ?thesis
      using Suc by (auto simp: move_left_def view_def butlast_take take_Suc_conv_app_nth Cons_nth_drop_Suc)
  qed
  show "view (move_right e) = (fst (view e) @ take 1 (snd (view e)), tl (snd (view e)))"
  proof (cases "ed_cursor e < length (ed_chars e)")
    case True
    then show ?thesis
      by (simp add: move_right_def view_def take_Suc_conv_app_nth tl_drop drop_Suc Cons_nth_drop_Suc [symmetric])
  qed (simp add: move_right_def view_def)
qed (use remember_ok [OF assms] in \<open>simp_all add: view_def clear_def submit_def\<close>)

lemma go_Some: "(\<exists>e'. r = Some e' \<and> P e') \<Longrightarrow> \<exists>a e'. go r = Some (a, e') \<and> P e'"
  by (auto simp: go_def)

lemma handle_ok:
  assumes ok: "ed_ok e"
  shows "\<exists>a e'. handle k e = Some (a, e') \<and> ed_ok e' \<and> (case edit k (view e) of None \<Rightarrow> True | Some z \<Rightarrow> view e' = z)"
proof -
  obtain b a where v: "view e = (b, a)" by fastforce
  note ops = newline_ok [OF ok] delete_forward_ok [OF ok] backspace_ok [OF ok] kill_to_start_ok [OF ok] kill_word_ok [OF ok]
    history_back_ok [OF ok] history_forward_ok [OF ok]
  obtain ins where ins: "\<And>c. insert_char c e = Some (ins c)" "\<And>c. ed_ok (ins c)" "\<And>c. view (ins c) = (b @ [c], a)"
  proof -
    have "\<forall>c. \<exists>e'. insert_char c e = Some e' \<and> ed_ok e' \<and> view e' = (b @ [c], a)"
      using insert_char_ok [OF ok] v by (metis fst_conv snd_conv)
    then show ?thesis using that by metis
  qed
  have sub: "\<exists>x y. submit e = (x, y) \<and> ed_ok y \<and> view y = (b, a)"
    using still_ok(8) [OF ok] view_moves(7) [OF ok] v by (cases "submit e") simp
  have nil: "ed_chars e = [] \<Longrightarrow> a = []" using v by (auto simp: view_def)
  show ?thesis
    unfolding handle_def edit_def v Let_def
    by (cases "k_code k"; simp only: key_code.case prod.case option.case)
      (use ops ins sub nil still_ok [OF ok] view_moves [OF ok] ok v in \<open>auto simp: go_def\<close>)
qed

lemma feed_ok: "ed_ok e \<Longrightarrow> \<exists>e'. feed i e = Some e' \<and> ed_ok e'"
  using handle_ok [of e] paste_ok [of e] still_ok(3,4) [of e]
  by (cases i; simp add: feed_def; metis snd_conv option.map(2))

lemma feeds_ok: "ed_ok e \<Longrightarrow> \<exists>e'. feeds is e = Some e' \<and> ed_ok e'"
proof (induction "is" arbitrary: e)
  case (Cons i "is")
  obtain e1 where "feed i e = Some e1" "ed_ok e1" using feed_ok [OF Cons.prems] by blast
  then show ?case using Cons.IH [of e1] by simp
qed simp

lemma feeds_append: "feeds (xs @ ys) e = Option.bind (feeds xs e) (feeds ys)"
proof (induction xs arbitrary: e)
  case (Cons i xs)
  show ?case by (cases "feed i e") (simp_all add: Cons.IH)
qed simp

lemma feeds_one: "feeds [i] e = feed i e"
  by (cases "feed i e") simp_all

lemma new_editor_ok: "ed_ok new_editor"
  by (simp add: ed_ok_def new_editor_def)

text \<open>Walking the history.\<close>

abbreviation plain_key :: "key_code \<Rightarrow> input" where
  "plain_key c \<equiv> Key \<lparr>k_code = c, k_ctrl = False, k_alt = False, k_shift = False\<rparr>"

lemma feed_up: "feed (plain_key Up) e = history_back e" and feed_down: "feed (plain_key Down) e = history_forward e"
  by (simp_all add: feed_def handle_def go_def option.map_comp comp_def option.map_ident)

text \<open>The editor after walking up to entry \<open>n\<close> from a live line.\<close>

definition at_entry :: "nat \<Rightarrow> editor \<Rightarrow> editor" where
  "at_entry n e =
     e\<lparr>ed_chars := ed_history e ! n, ed_cursor := length (ed_history e ! n), ed_browsing := Some n, ed_stashed := ed_chars e\<rparr>"

lemma ups:
  "ed_browsing e = None \<Longrightarrow> k < length (ed_history e) \<Longrightarrow>
     feeds (replicate (Suc k) (plain_key Up)) e = Some (at_entry (length (ed_history e) - Suc k) e)"
proof (induction k)
  case 0
  then show ?case by (simp add: feed_up history_back_def walk_to_eq at_entry_def)
next
  case (Suc k)
  have "feeds (replicate (Suc (Suc k)) (plain_key Up)) e = Option.bind (feeds (replicate (Suc k) (plain_key Up)) e) (feeds [plain_key Up])"
    unfolding feeds_append [symmetric] replicate_append_same by simp
  also have "\<dots> = history_back (at_entry (length (ed_history e) - Suc k) e)"
    using Suc by (simp add: feed_up feeds_one del: feeds.simps(2) replicate.simps)
  also have "\<dots> = Some (at_entry (length (ed_history e) - Suc (Suc k)) e)"
    using Suc.prems by (auto simp: history_back_def at_entry_def walk_to_eq)
  finally show ?case .
qed

lemma downs:
  "k < length (ed_history e) \<Longrightarrow>
     feeds (replicate (Suc k) (plain_key Down)) (at_entry (length (ed_history e) - Suc k) e) =
     Some (e\<lparr>ed_cursor := length (ed_chars e), ed_browsing := None, ed_stashed := []\<rparr>)"
proof (induction k)
  case 0
  then show ?case
    by (simp add: feed_down history_forward_def at_entry_def set_line_keeping_browse_def set_line_def)
next
  case (Suc k)
  have "history_forward (at_entry (length (ed_history e) - Suc (Suc k)) e) = Some (at_entry (length (ed_history e) - Suc k) e)"
    using Suc.prems by (auto simp: history_forward_def at_entry_def walk_to_eq Suc_diff_Suc)
  then show ?case using Suc by (simp add: feed_down)
qed

section \<open>Properties\<close>

text \<open>The editor never panics: from an empty line, any sequence of keys, pastes, clears and recalls runs
  through, with the cursor inside the line, the browsed entry inside the history, and the history a list
  of at most five hundred trimmed lines without blanks or immediate repeats.\<close>

theorem editor_never_panics:
  "\<exists>e. feeds inputs new_editor = Some e \<and> ed_cursor e \<le> length (ed_chars e) \<and> length (ed_history e) \<le> 500 \<and>
     (\<nexists>i. ed_browsing e = Some i \<and> length (ed_history e) \<le> i) \<and>
     list_all (\<lambda>l. l \<noteq> [] \<and> trim l = l) (ed_history e) \<and> distinct_adj (ed_history e)"
  using feeds_ok [OF new_editor_ok, of inputs] by (auto simp: ed_ok_def history_limit_def not_le list_all_iff)

text \<open>Every key edits the text around the cursor as a shell's line editor does: the index arithmetic of the
  buffer implements the abstract editor, in which each key is a small operation on what stands before
  and after the cursor, and a paste puts its text, line ends normalised, before the cursor.\<close>

theorem handle_refines_edit:
  assumes "feeds inputs new_editor = Some e" "edit k (view e) = Some z"
  shows "(\<exists>a e'. handle k e = Some (a, e') \<and> view e' = z) \<and>
    (\<exists>e'. paste s e = Some e' \<and> view e' = (fst (view e) @ unix_newlines s, snd (view e))) \<and> 13 \<notin> set (unix_newlines s)"
proof -
  have ok: "ed_ok e" using feeds_ok [OF new_editor_ok, of inputs] assms(1) by simp
  show ?thesis using handle_ok [OF ok, of k] paste_ok [OF ok, of s] unix_newlines_no_cr assms(2) by auto
qed

lemma handle_refines_edit_witness:
  "\<exists>e a e'. feeds [Paste [97, 13, 10, 98], plain_key Left] new_editor = Some e \<and> view e = ([97, 10], [98]) \<and>
     handle \<lparr>k_code = Char 119, k_ctrl = True, k_alt = False, k_shift = False\<rparr> e = Some (a, e') \<and> view e' = ([], [98])"
proof -
  let ?k = "\<lparr>k_code = Char 119, k_ctrl = True, k_alt = False, k_shift = False\<rparr>"
  obtain e where e: "feeds [Paste [97, 13, 10, 98], plain_key Left] new_editor = Some e" "view e = ([97, 10], [98])"
    by (simp add: feed_def insert_char_def vec_insert_def new_editor_def handle_def go_def move_left_def view_def)
  have "edit ?k (view e) = Some ([], [98])"
    by (simp add: e(2) edit_def drop_word_def is_whitespace_def)
  from handle_refines_edit [OF e(1) this] e show ?thesis by blast
qed

text \<open>Walking up into the history and back down returns the line that was being typed: after \<open>k\<close> steps up
  the line is the \<open>k\<close>-th newest entry, and as many steps down give back the text as it was, with the
  cursor at its end and nothing stashed.\<close>

theorem history_walk_returns:
  assumes "ed_browsing e = None" "0 < k" "k \<le> length (ed_history e)"
  shows "map_option ed_chars (feeds (replicate k (plain_key Up)) e) = Some (ed_history e ! (length (ed_history e) - k)) \<and>
    Option.bind (feeds (replicate k (plain_key Up)) e) (feeds (replicate k (plain_key Down))) =
      Some (e\<lparr>ed_cursor := length (ed_chars e), ed_browsing := None, ed_stashed := []\<rparr>)"
proof -
  obtain j where j: "k = Suc j" using assms(2) by (cases k) auto
  have u: "feeds (replicate k (plain_key Up)) e = Some (at_entry (length (ed_history e) - k) e)"
    using ups [OF assms(1), of j] assms(3) j by simp
  show ?thesis
    using downs [of j e] assms(3) j unfolding u by (simp add: at_entry_def)
qed

lemma history_walk_returns_witness:
  "\<exists>e. ed_chars e = [99] \<and> map_option ed_chars (feeds (replicate 2 (plain_key Up)) e) = Some [97]"
  using history_walk_returns
    [of "\<lparr>ed_chars = [99], ed_cursor = 0, ed_history = [[97], [98]], ed_browsing = None, ed_stashed = []\<rparr>" 2]
  by (intro exI [of _ "\<lparr>ed_chars = [99], ed_cursor = 0, ed_history = [[97], [98]], ed_browsing = None, ed_stashed = []\<rparr>"]) simp

end
