(* ===== verification/Federation.thy ===== *)
theory Federation
  imports Blackboard
begin

text \<open>
  Which host answers for which name: the learned directory of \<^verbatim>\<open>src/src/federation.rs\<close>. The JSON
  codec of the directory is a parameter, as is the outcome of writing its file.
\<close>

text \<open>The fields of a configured remote that the fleet code reads.\<close>

record endpoint =
  ep_id :: rstr
  ep_label :: rstr
  ep_url :: rstr
  ep_token :: rstr

type_synonym directory = "(rstr, rstr) omap"

definition load_directory :: "(rstr \<Rightarrow> directory option) \<Rightarrow> rstr option \<Rightarrow> directory" where
  "load_directory dec file = (case Option.bind file dec of Some d \<Rightarrow> d | None \<Rightarrow> [])"

text \<open>\<^verbatim>\<open>fs::write\<close>: the file is replaced, or left, or truncated to a part of the text.\<close>

definition write_file :: "io_outcome \<Rightarrow> rstr \<Rightarrow> rstr option \<Rightarrow> rstr option" where
  "write_file io body file =
     (case io of IoOk \<Rightarrow> Some body | OpenFails _ \<Rightarrow> file | WriteFails k _ \<Rightarrow> Some (take k body))"

definition remember ::
    "(directory \<Rightarrow> rstr option) \<Rightarrow> (rstr \<Rightarrow> directory option) \<Rightarrow> io_outcome \<Rightarrow> rstr \<Rightarrow> rstr
     \<Rightarrow> rstr option \<Rightarrow> rstr option" where
  "remember enc dec io origin0 endpoint_id file =
     (let origin = trim origin0 in
      if origin = [] \<or> endpoint_id = [] then file
      else
        (let dir = load_directory dec file in
         if om_get dir origin = Some endpoint_id then file
         else case enc (om_insert origin endpoint_id dir) of
                Some body \<Rightarrow> write_file io body file
              | None \<Rightarrow> file))"

definition endpoint_for ::
    "(rstr \<Rightarrow> directory option) \<Rightarrow> rstr option \<Rightarrow> rstr \<Rightarrow> rstr \<Rightarrow> endpoint list \<Rightarrow> endpoint option" where
  "endpoint_for dec file origin me endpoints =
     (if origin = [] \<or> origin = me then None
      else case om_get (load_directory dec file) origin of
             None \<Rightarrow> None
           | Some i \<Rightarrow> find (\<lambda>e. ep_id e = i) endpoints)"

section \<open>Lemmas\<close>

text \<open>What is relied on of the codec, for the directory about to be written.\<close>

definition directory_codec_at :: "(directory \<Rightarrow> rstr option) \<Rightarrow> (rstr \<Rightarrow> directory option) \<Rightarrow> directory \<Rightarrow> bool" where
  "directory_codec_at enc dec d \<longleftrightarrow> (\<exists>s. enc d = Some s \<and> dec s = Some d)"

lemma load_after_remember:
  assumes "om_inv (load_directory dec file)" "trim o' \<noteq> []" "i \<noteq> []"
    and "directory_codec_at enc dec (om_insert (trim o') i (load_directory dec file))"
  shows "om_get (load_directory dec (remember enc dec IoOk o' i file)) =
    (om_get (load_directory dec file))(trim o' \<mapsto> i)"
proof (cases "om_get (load_directory dec file) (trim o') = Some i")
  case True
  then show ?thesis using assms(2,3) by (auto simp: remember_def)
next
  case False
  then have "load_directory dec (remember enc dec IoOk o' i file) = om_insert (trim o') i (load_directory dec file)"
    using assms(2,3,4) unfolding directory_codec_at_def
    by (auto simp: remember_def write_file_def load_directory_def [of dec "Some _"] Let_def)
  then show ?thesis by (simp add: om.get_insert [OF assms(1)])
qed

lemma endpoint_for_Some:
  "endpoint_for dec file origin me eps = Some e \<Longrightarrow>
     e \<in> set eps \<and> origin \<noteq> me \<and> origin \<noteq> [] \<and> om_get (load_directory dec file) origin = Some (ep_id e)"
  by (auto simp: endpoint_for_def find_Some_iff split: if_splits option.splits)

section \<open>Properties\<close>

text \<open>A host is its own authority, and learning who speaks for an origin rebinds that origin and no
  other: afterwards it is answered by the first configured remote with the learned id, if any.\<close>

theorem remember_then_endpoint:
  assumes "om_inv (load_directory dec file)" "trim o' \<noteq> []" "i \<noteq> []"
    and "directory_codec_at enc dec (om_insert (trim o') i (load_directory dec file))"
  shows "endpoint_for dec (remember enc dec IoOk o' i file) origin me eps =
    (if origin = me then None
     else if origin = trim o' then find (\<lambda>e. ep_id e = i) eps
     else endpoint_for dec file origin me eps)"
  unfolding endpoint_for_def load_after_remember [OF assms] using assms(2) by simp

lemma remember_then_endpoint_witness:
  "endpoint_for (\<lambda>s. if s = [1] then Some [([104], [101])] else None)
     (remember (\<lambda>d. Some [1]) (\<lambda>s. if s = [1] then Some [([104], [101])] else None) IoOk [104] [101] None)
     [104] [109] [\<lparr>ep_id = [101], ep_label = [], ep_url = [], ep_token = []\<rparr>] =
   Some \<lparr>ep_id = [101], ep_label = [], ep_url = [], ep_token = []\<rparr>"
  by (subst remember_then_endpoint)
    (simp_all add: load_directory_def directory_codec_at_def rust_text_defs)

end
