(* ===== verification/Fleet_Graph.thy ===== *)
theory Fleet_Graph
  imports Claims Tasks
begin

text \<open>
  The fleet as a graph, \<^verbatim>\<open>src/src/fleet.rs\<close>: board, leases and tabs joined into nodes and edges. The
  builder carries the graph and the set of node ids it has pushed.
\<close>

record gnode =
  gn_id :: rstr
  gn_kind :: rstr
  gn_label :: rstr
  gn_status :: "rstr option"
  gn_uuid :: "rstr option"

record gedge =
  ge_from :: rstr
  ge_to :: rstr
  ge_kind :: rstr
  ge_label :: "rstr option"
  ge_leased :: "bool option"
  ge_expires_in :: "u64 option"

record graph =
  g_nodes :: "gnode list"
  g_edges :: "gedge list"

record agent_tab =
  at_name :: rstr
  at_uuid :: rstr
  at_state :: "rstr option"

definition agent_id :: "rstr \<Rightarrow> rstr" where
  "agent_id name = lit ''agent:'' @ name"

definition host_id :: "rstr \<Rightarrow> rstr" where
  "host_id name = lit ''host:'' @ name"

definition task_node_id :: "task_view \<Rightarrow> rstr" where
  "task_node_id t = lit ''task:'' @ t_id t"

text \<open>\<^verbatim>\<open>push_node\<close> with its \<^verbatim>\<open>have\<close> set, and the edge pushes.\<close>

type_synonym building = "graph \<times> rstr list"

definition push_node :: "gnode \<Rightarrow> building \<Rightarrow> building" where
  "push_node n b =
     (case b of (g, have) \<Rightarrow>
        if gn_id n \<in> set have then (g, have) else (g\<lparr>g_nodes := g_nodes g @ [n]\<rparr>, gn_id n # have))"

definition push_edge :: "gedge \<Rightarrow> building \<Rightarrow> building" where
  "push_edge e b = (case b of (g, have) \<Rightarrow> (g\<lparr>g_edges := g_edges g @ [e]\<rparr>, have))"

definition plain_edge :: "rstr \<Rightarrow> rstr \<Rightarrow> rstr \<Rightarrow> gedge" where
  "plain_edge a b kind =
     \<lparr>ge_from = a, ge_to = b, ge_kind = kind, ge_label = None, ge_leased = None, ge_expires_in = None\<rparr>"

definition host_node :: "rstr \<Rightarrow> rstr \<Rightarrow> gnode" where
  "host_node name status =
     \<lparr>gn_id = host_id name, gn_kind = lit ''host'', gn_label = name, gn_status = Some status, gn_uuid = None\<rparr>"

definition ensure_agent :: "rstr \<Rightarrow> building \<Rightarrow> building" where
  "ensure_agent name =
     push_node \<lparr>gn_id = agent_id name, gn_kind = lit ''agent'', gn_label = name,
                gn_status = Some (lit ''elsewhere''), gn_uuid = None\<rparr>"

definition add_peer :: "rstr \<Rightarrow> rstr \<Rightarrow> building \<Rightarrow> building" where
  "add_peer me peer b =
     push_edge (plain_edge (host_id me) (host_id peer) (lit ''peer'')) (push_node (host_node peer (lit ''peer'')) b)"

definition add_tab :: "rstr \<Rightarrow> agent_tab \<Rightarrow> building \<Rightarrow> building" where
  "add_tab me t b =
     push_edge (plain_edge (agent_id (at_name t)) (host_id me) (lit ''runs_on''))
       (push_node \<lparr>gn_id = agent_id (at_name t), gn_kind = lit ''agent'', gn_label = at_name t,
                   gn_status = at_state t, gn_uuid = Some (at_uuid t)\<rparr> b)"

definition add_bid :: "task_view \<Rightarrow> rstr \<times> int \<Rightarrow> building \<Rightarrow> building" where
  "add_bid t bid b =
     push_edge ((plain_edge (agent_id (fst bid)) (task_node_id t) (lit ''bid''))\<lparr>ge_label := Some (show_int (snd bid))\<rparr>)
       (ensure_agent (fst bid) b)"

definition works_on_edge :: "claim option \<Rightarrow> u64 \<Rightarrow> task_view \<Rightarrow> rstr \<Rightarrow> gedge" where
  "works_on_edge c now_ms t who =
     (plain_edge (agent_id who) (task_node_id t) (lit ''works_on''))
       \<lparr>ge_leased := Some (case c of Some c \<Rightarrow> c_holder c = who | None \<Rightarrow> False),
        ge_expires_in := map_option (\<lambda>c. remaining_ms c now_ms) c\<rparr>"

definition add_task :: "(rstr, claim) omap \<Rightarrow> u64 \<Rightarrow> task_view \<Rightarrow> building \<Rightarrow> building" where
  "add_task live now_ms t b0 =
     (let b1 = push_node \<lparr>gn_id = task_node_id t, gn_kind = lit ''task'',
                          gn_label = (if t_title t = [] then t_id t else t_title t),
                          gn_status = Some (state_as_str (task_state_of t)), gn_uuid = None\<rparr> b0;
          b2 = (case t_home t of
                  None \<Rightarrow> b1
                | Some home \<Rightarrow>
                    push_edge (plain_edge (task_node_id t) (host_id home) (lit ''home''))
                      (push_node (host_node home (lit ''peer'')) b1));
          b3 = (case t_announced_by t of
                  None \<Rightarrow> b2
                | Some who \<Rightarrow>
                    push_edge (plain_edge (agent_id who) (task_node_id t) (lit ''announced'')) (ensure_agent who b2));
          b4 = foldl (\<lambda>b bid. add_bid t bid b) b3 (t_bids t)
      in case t_awarded_to t of
           None \<Rightarrow> b4
         | Some who \<Rightarrow> push_edge (works_on_edge (om_get live (claim_key t)) now_ms t who) (ensure_agent who b4))"

text \<open>\<^verbatim>\<open>collect\<close> into a map: a later claim on the same key replaces an earlier one.\<close>

definition claims_by_key :: "claim list \<Rightarrow> (rstr, claim) omap" where
  "claims_by_key cs = foldl (\<lambda>m c. om_insert (c_key c) c m) [] cs"

definition build_graph ::
    "task_view list \<Rightarrow> claim list \<Rightarrow> agent_tab list \<Rightarrow> rstr \<Rightarrow> (rstr, rstr) omap \<Rightarrow> u64 \<Rightarrow> graph" where
  "build_graph tasks claims tabs me peers now_ms =
     (let b0 = push_node (host_node me (lit ''self'')) (\<lparr>g_nodes = [], g_edges = []\<rparr>, []);
          b1 = foldl (\<lambda>b p. add_peer me p b) b0 (om_keys peers);
          b2 = foldl (\<lambda>b t. add_tab me t b) b1 tabs;
          live = claims_by_key claims
      in fst (foldl (\<lambda>b t. add_task live now_ms t b) b2 tasks))"

section \<open>The builder's invariant\<close>

text \<open>
  The ids pushed are exactly those of the nodes, each once, and every edge joins two of them. A
  works-on edge carries what \<open>ok\<close> says.
\<close>

definition building_ok :: "(gedge \<Rightarrow> bool) \<Rightarrow> building \<Rightarrow> bool" where
  "building_ok ok b \<longleftrightarrow>
     set (snd b) = gn_id ` set (g_nodes (fst b)) \<and> distinct (map gn_id (g_nodes (fst b))) \<and>
     (\<forall>e \<in> set (g_edges (fst b)). ge_from e \<in> set (snd b) \<and> ge_to e \<in> set (snd b) \<and> ok e)"

named_theorems graph_intros

lemma push_node_ok [graph_intros]: "building_ok ok b \<Longrightarrow> building_ok ok (push_node n b)"
  by (cases b) (auto simp: building_ok_def push_node_def)

lemma push_edge_ok [graph_intros]:
  "building_ok ok b \<Longrightarrow> ge_from e \<in> set (snd b) \<Longrightarrow> ge_to e \<in> set (snd b) \<Longrightarrow> ok e \<Longrightarrow>
     building_ok ok (push_edge e b)"
  by (cases b) (auto simp: building_ok_def push_edge_def)

lemma push_node_has [simp]: "set (snd (push_node n b)) = insert (gn_id n) (set (snd b))"
  by (cases b) (auto simp: push_node_def)

lemma push_edge_has [simp]: "snd (push_edge e b) = snd b"
  by (cases b) (simp add: push_edge_def)

lemma plain_edge_sel [simp]:
  "ge_from (plain_edge a b k) = a" "ge_to (plain_edge a b k) = b" "ge_kind (plain_edge a b k) = k"
  by (simp_all add: plain_edge_def)

lemma works_on_sel [simp]:
  "ge_from (works_on_edge c now t who) = agent_id who" "ge_to (works_on_edge c now t who) = task_node_id t"
  "ge_kind (works_on_edge c now t who) = lit ''works_on''"
  by (simp_all add: works_on_edge_def)

lemma ensure_agent_has [simp]: "set (snd (ensure_agent a b)) = insert (agent_id a) (set (snd b))"
  by (simp add: ensure_agent_def)

lemma ensure_agent_ok [graph_intros]: "building_ok ok b \<Longrightarrow> building_ok ok (ensure_agent a b)"
  unfolding ensure_agent_def by (rule push_node_ok)

lemma host_node_id [simp]: "gn_id (host_node n s) = host_id n"
  by (simp add: host_node_def)

text \<open>Each piece keeps the invariant and the ids already there.\<close>

lemma add_peer_ok:
  "building_ok ok b \<Longrightarrow> host_id me \<in> set (snd b) \<Longrightarrow> (\<And>a c. ok (plain_edge a c (lit ''peer''))) \<Longrightarrow>
     building_ok ok (add_peer me p b) \<and> set (snd b) \<subseteq> set (snd (add_peer me p b))"
  unfolding add_peer_def by (auto intro!: graph_intros)

lemma add_tab_ok:
  "building_ok ok b \<Longrightarrow> host_id me \<in> set (snd b) \<Longrightarrow> (\<And>a c. ok (plain_edge a c (lit ''runs_on''))) \<Longrightarrow>
     building_ok ok (add_tab me t b) \<and> set (snd b) \<subseteq> set (snd (add_tab me t b))"
  unfolding add_tab_def by (auto intro!: graph_intros)

lemma add_bid_ok:
  "building_ok ok b \<Longrightarrow> task_node_id t \<in> set (snd b) \<Longrightarrow>
     (\<And>a c l. ok ((plain_edge a c (lit ''bid''))\<lparr>ge_label := l\<rparr>)) \<Longrightarrow>
     building_ok ok (add_bid t bid b) \<and> set (snd b) \<subseteq> set (snd (add_bid t bid b))"
  unfolding add_bid_def by (auto intro!: graph_intros)

lemma foldl_building:
  assumes "\<And>b x. x \<in> set xs \<Longrightarrow> building_ok ok b \<Longrightarrow> k \<in> set (snd b) \<Longrightarrow>
      building_ok ok (f b x) \<and> set (snd b) \<subseteq> set (snd (f b x))"
    and "building_ok ok b" "k \<in> set (snd b)"
  shows "building_ok ok (foldl f b xs) \<and> set (snd b) \<subseteq> set (snd (foldl f b xs))"
  using assms
proof (induction xs arbitrary: b)
  case Nil
  then show ?case by simp
next
  case (Cons x xs)
  have 1: "building_ok ok (f b x) \<and> set (snd b) \<subseteq> set (snd (f b x))"
    by (rule Cons.prems(1)) (use Cons.prems in auto)
  have "building_ok ok (foldl f (f b x) xs) \<and> set (snd (f b x)) \<subseteq> set (snd (foldl f (f b x) xs))"
  proof (rule Cons.IH)
    show "k \<in> set (snd (f b x))" using 1 Cons.prems(3) by blast
    show "building_ok ok (f b x)" using 1 by blast
    show "building_ok ok (f c y) \<and> set (snd c) \<subseteq> set (snd (f c y))"
      if "y \<in> set xs" "building_ok ok c" "k \<in> set (snd c)" for c y
      by (rule Cons.prems(1)) (use that in auto)
  qed
  with 1 show ?case by auto
qed

text \<open>What a works-on edge says: the lease on the task it points to, as the claims given have it.\<close>

definition lease_edge_ok :: "(rstr, claim) omap \<Rightarrow> u64 \<Rightarrow> task_view list \<Rightarrow> gedge \<Rightarrow> bool" where
  "lease_edge_ok live now_ms tasks e \<longleftrightarrow>
     (ge_kind e = lit ''works_on'' \<longrightarrow>
       (\<exists>t \<in> set tasks. \<exists>who. t_awarded_to t = Some who \<and> e = works_on_edge (om_get live (claim_key t)) now_ms t who))"

lemma lease_edge_plain:
  "lease_edge_ok live now tasks (plain_edge a b (lit ''peer''))"
  "lease_edge_ok live now tasks (plain_edge a b (lit ''runs_on''))"
  "lease_edge_ok live now tasks (plain_edge a b (lit ''home''))"
  "lease_edge_ok live now tasks (plain_edge a b (lit ''announced''))"
  "lease_edge_ok live now tasks ((plain_edge a b (lit ''bid''))\<lparr>ge_label := l\<rparr>)"
  by (simp_all add: lease_edge_ok_def lit_def plain_edge_def)

lemma add_task_ok:
  assumes b: "building_ok (lease_edge_ok live now tasks) b" and t: "t \<in> set tasks"
  shows "building_ok (lease_edge_ok live now tasks) (add_task live now t b) \<and>
    insert (task_node_id t) (set (snd b)) \<subseteq> set (snd (add_task live now t b))"
proof -
  let ?ok = "building_ok (lease_edge_ok live now tasks)"
  define b1 where "b1 = push_node \<lparr>gn_id = task_node_id t, gn_kind = lit ''task'',
      gn_label = (if t_title t = [] then t_id t else t_title t),
      gn_status = Some (state_as_str (task_state_of t)), gn_uuid = None\<rparr> b"
  define b2 where "b2 = (case t_home t of None \<Rightarrow> b1 | Some home \<Rightarrow>
      push_edge (plain_edge (task_node_id t) (host_id home) (lit ''home'')) (push_node (host_node home (lit ''peer'')) b1))"
  define b3 where "b3 = (case t_announced_by t of None \<Rightarrow> b2 | Some who \<Rightarrow>
      push_edge (plain_edge (agent_id who) (task_node_id t) (lit ''announced'')) (ensure_agent who b2))"
  define b4 where "b4 = foldl (\<lambda>b bid. add_bid t bid b) b3 (t_bids t)"
  have 1: "?ok b1" "insert (task_node_id t) (set (snd b)) \<subseteq> set (snd b1)"
    using b by (auto simp: b1_def intro!: graph_intros)
  have 2: "?ok b2" "set (snd b1) \<subseteq> set (snd b2)"
    using 1 by (auto simp: b2_def lease_edge_plain intro!: graph_intros split: option.splits)
  have 3: "?ok b3" "set (snd b2) \<subseteq> set (snd b3)"
    using 1 2 by (auto simp: b3_def lease_edge_plain intro!: graph_intros split: option.splits)
  have 4: "?ok b4 \<and> set (snd b3) \<subseteq> set (snd b4)"
    unfolding b4_def
  proof (rule foldl_building [where k = "task_node_id t"])
    show "?ok (add_bid t x c) \<and> set (snd c) \<subseteq> set (snd (add_bid t x c))"
      if "?ok c" "task_node_id t \<in> set (snd c)" for c x
      by (rule add_bid_ok [OF that lease_edge_plain(5)])
  qed (use 1 2 3 in auto)
  have "add_task live now t b =
      (case t_awarded_to t of None \<Rightarrow> b4
       | Some who \<Rightarrow> push_edge (works_on_edge (om_get live (claim_key t)) now t who) (ensure_agent who b4))"
    by (simp only: add_task_def Let_def b4_def b3_def b2_def b1_def)
  moreover have "lease_edge_ok live now tasks (works_on_edge (om_get live (claim_key t)) now t who)"
    if "t_awarded_to t = Some who" for who
    using that t by (auto simp: lease_edge_ok_def)
  moreover have "insert (task_node_id t) (set (snd b)) \<subseteq> set (snd b4)" using 1(2) 2(2) 3(2) 4 by blast
  ultimately show ?thesis
    using 4 by (auto intro!: graph_intros split: option.splits)
qed

lemma build_graph_ok:
  "\<exists>have. building_ok (lease_edge_ok (claims_by_key claims) now tasks)
     (build_graph tasks claims tabs me peers now, have) \<and> host_id me \<in> set have \<and> task_node_id ` set tasks \<subseteq> set have"
proof -
  let ?l = "claims_by_key claims"
  let ?ok = "building_ok (lease_edge_ok ?l now tasks)"
  define b0 where "b0 = push_node (host_node me (lit ''self'')) (\<lparr>g_nodes = [], g_edges = []\<rparr>, [])"
  define b1 where "b1 = foldl (\<lambda>b p. add_peer me p b) b0 (om_keys peers)"
  define b2 where "b2 = foldl (\<lambda>b t. add_tab me t b) b1 tabs"
  have 0: "?ok b0" "host_id me \<in> set (snd b0)"
    by (auto simp: b0_def building_ok_def push_node_def)
  have 1: "?ok b1 \<and> set (snd b0) \<subseteq> set (snd b1)"
    unfolding b1_def
    by (rule foldl_building [where k = "host_id me"], rule add_peer_ok)
      (use 0 in \<open>auto simp: lease_edge_plain\<close>)
  have 2: "?ok b2 \<and> set (snd b1) \<subseteq> set (snd b2)"
    unfolding b2_def
    by (rule foldl_building [where k = "host_id me"], rule add_tab_ok)
      (use 0 1 in \<open>auto simp: lease_edge_plain\<close>)
  have all: "set ts \<subseteq> set tasks \<Longrightarrow> ?ok (foldl (\<lambda>b t. add_task ?l now t b) b2 ts) \<and>
      set (snd b2) \<union> task_node_id ` set ts \<subseteq> set (snd (foldl (\<lambda>b t. add_task ?l now t b) b2 ts))" for ts
  proof (induction ts rule: rev_induct)
    case Nil
    then show ?case using 2 by simp
  next
    case (snoc t ts)
    let ?b = "foldl (\<lambda>b t. add_task ?l now t b) b2 ts"
    have "?ok ?b" and s: "set (snd b2) \<union> task_node_id ` set ts \<subseteq> set (snd ?b)" and t: "t \<in> set tasks"
      using snoc by simp_all
    note a = add_task_ok [OF \<open>?ok ?b\<close> t]
    have "set (snd b2) \<union> task_node_id ` set (ts @ [t]) \<subseteq> set (snd (add_task ?l now t ?b))"
      using a s by (simp only: set_append image_Un list.set image_insert image_empty) blast
    then show ?case using a by simp
  qed
  have "build_graph tasks claims tabs me peers now = fst (foldl (\<lambda>b t. add_task ?l now t b) b2 tasks)"
    by (simp add: build_graph_def b0_def b1_def b2_def Let_def)
  moreover obtain g hv where F: "foldl (\<lambda>b t. add_task ?l now t b) b2 tasks = (g, hv)"
    by (rule prod.exhaust)
  ultimately have g: "build_graph tasks claims tabs me peers now = g" by (simp only: fst_conv)
  have "host_id me \<in> set (snd b2)" using 0(2) 1 2 by blast
  moreover have "?ok (g, hv)" "set (snd b2) \<union> task_node_id ` set tasks \<subseteq> set hv"
    using all [OF subset_refl] by (simp_all only: F snd_conv)
  ultimately have "?ok (g, hv) \<and> host_id me \<in> set hv \<and> task_node_id ` set tasks \<subseteq> set hv" by blast
  then show ?thesis unfolding g by (rule exI)
qed

text \<open>Looking a claim up by key, when no two claims share one.\<close>

lemma claims_by_key_get:
  "distinct (map c_key cs) \<Longrightarrow>
     om_inv (claims_by_key cs) \<and> om_get (claims_by_key cs) k = find (\<lambda>c. c_key c = k) cs"
proof (induction cs rule: rev_induct)
  case Nil
  then show ?case by (simp add: claims_by_key_def)
next
  case (snoc c cs)
  have f: "find P (xs @ ys) = (case find P xs of None \<Rightarrow> find P ys | Some x \<Rightarrow> Some x)" for P :: "claim \<Rightarrow> bool" and xs ys
    by (induction xs) auto
  have "find (\<lambda>c'. c_key c' = c_key c) cs = None"
    using snoc.prems by (simp add: find_None_iff) (metis image_eqI)
  with snoc show ?case
    by (auto simp: claims_by_key_def om.inv_insert om.get_insert f split: option.splits)
qed

section \<open>Properties\<close>

text \<open>The graph a viewer gets is well formed: node ids are unique, every edge joins two nodes of it,
  and this host and every task on the board are drawn.\<close>

theorem fleet_graph_well_formed:
  "distinct (map gn_id (g_nodes (build_graph tasks claims tabs me peers now))) \<and>
   (\<forall>e \<in> set (g_edges (build_graph tasks claims tabs me peers now)).
      ge_from e \<in> gn_id ` set (g_nodes (build_graph tasks claims tabs me peers now)) \<and>
      ge_to e \<in> gn_id ` set (g_nodes (build_graph tasks claims tabs me peers now))) \<and>
   host_id me \<in> gn_id ` set (g_nodes (build_graph tasks claims tabs me peers now)) \<and>
   task_node_id ` set tasks \<subseteq> gn_id ` set (g_nodes (build_graph tasks claims tabs me peers now))"
  using build_graph_ok [of claims now tasks tabs me peers] by (auto simp: building_ok_def)

lemma fleet_graph_well_formed_witness:
  "host_id [104] \<in> gn_id ` set (g_nodes (build_graph [blank_task [116]] [] [] [104] [] 0))"
  using fleet_graph_well_formed [of "[blank_task [116]]" "[]" "[]" "[104]" "[]" 0] by blast

text \<open>A works-on edge is there only for an awarded task, and it says \<^verbatim>\<open>leased\<close> exactly when a claim
  given for that task's key is held by the agent the task was awarded to.\<close>

theorem works_on_leased_iff_held:
  assumes "distinct (map c_key claims)"
    and "e \<in> set (g_edges (build_graph tasks claims tabs me peers now))" "ge_kind e = lit ''works_on''"
  shows "\<exists>t \<in> set tasks. \<exists>who. t_awarded_to t = Some who \<and> ge_from e = agent_id who \<and> ge_to e = task_node_id t \<and>
    (ge_leased e = Some True \<longleftrightarrow> (\<exists>c \<in> set claims. c_key c = claim_key t \<and> c_holder c = who))"
proof -
  have "lease_edge_ok (claims_by_key claims) now tasks e"
    using build_graph_ok [of claims now tasks tabs me peers] assms(2) by (auto simp: building_ok_def)
  then obtain t who where t: "t \<in> set tasks" "t_awarded_to t = Some who"
    "e = works_on_edge (om_get (claims_by_key claims) (claim_key t)) now t who"
    using assms(3) by (auto simp: lease_edge_ok_def)
  have f: "om_get (claims_by_key claims) (claim_key t) = find (\<lambda>c. c_key c = claim_key t) claims"
    using claims_by_key_get [OF assms(1)] by blast
  have u: "a = b" if "a \<in> set claims" "b \<in> set claims" "c_key a = c_key b" for a b
    using that assms(1) by (auto simp: distinct_map dest: inj_onD)
  have "(case find (\<lambda>c. c_key c = claim_key t) claims of Some c \<Rightarrow> c_holder c = who | None \<Rightarrow> False) \<longleftrightarrow>
    (\<exists>c \<in> set claims. c_key c = claim_key t \<and> c_holder c = who)"
  proof (cases "find (\<lambda>c. c_key c = claim_key t) claims")
    case None
    then have "\<forall>c \<in> set claims. c_key c \<noteq> claim_key t" by (auto simp: find_None_iff)
    with None show ?thesis by simp
  next
    case (Some c)
    then have "c \<in> set claims" "c_key c = claim_key t" by (auto simp: find_Some_iff in_set_conv_nth)
    then have "d = c" if "d \<in> set claims" "c_key d = claim_key t" for d
      by (intro u that) (simp_all add: that(2))
    then have "(\<exists>d \<in> set claims. c_key d = claim_key t \<and> c_holder d = who) \<longleftrightarrow> c_holder c = who"
      using \<open>c \<in> set claims\<close> \<open>c_key c = claim_key t\<close> by blast
    then show ?thesis by (simp only: Some option.case)
  qed
  then have "ge_leased e = Some True \<longleftrightarrow> (\<exists>c \<in> set claims. c_key c = claim_key t \<and> c_holder c = who)"
    by (simp add: t(3) f works_on_edge_def)
  with t show ?thesis by auto
qed

lemma works_on_leased_iff_held_witness:
  "\<exists>e \<in> set (g_edges (build_graph [(blank_task [116])\<lparr>t_awarded_to := Some [97]\<rparr>]
     [\<lparr>c_key = lit ''task:t'', c_holder = [97], c_granted = 0, c_expires = 9, c_fence = 1\<rparr>] [] [104] [] 0)).
     ge_leased e = Some True"
proof -
  let ?t = "(blank_task [116])\<lparr>t_awarded_to := Some [97]\<rparr>"
  let ?c = "\<lparr>c_key = lit ''task:t'', c_holder = [97], c_granted = 0, c_expires = 9, c_fence = 1\<rparr>"
  let ?e = "works_on_edge (Some ?c) 0 ?t [97]"
  have k: "claim_key ?t = lit ''task:t''" by (simp add: claim_key_def blank_task_def lit_def)
  have e: "?e \<in> set (g_edges (build_graph [?t] [?c] [] [104] [] 0))"
    by (simp add: build_graph_def add_task_def Let_def push_node_def push_edge_def ensure_agent_def om_keys_def
        claims_by_key_def om_get_def k host_id_def agent_id_def task_node_id_def lit_def host_node_def)
      (simp add: blank_task_def)
  have "\<exists>t \<in> set [?t]. \<exists>who. t_awarded_to t = Some who \<and> ge_from ?e = agent_id who \<and> ge_to ?e = task_node_id t \<and>
    (ge_leased ?e = Some True \<longleftrightarrow> (\<exists>c \<in> set [?c]. c_key c = claim_key t \<and> c_holder c = who))"
    by (rule works_on_leased_iff_held [OF _ e]) simp_all
  then have "ge_leased ?e = Some True" by (auto simp: k)
  with e show ?thesis by blast
qed

end
