(* ===== verification/Gossip.thy ===== *)
theory Gossip
  imports Tasks Federation
begin

text \<open>
  Anti-entropy between hosts: the blackboard resource of \<^verbatim>\<open>src/src/api/blackboard_route.rs\<close> and one
  exchange with a peer, \<^verbatim>\<open>exchange\<close> of \<^verbatim>\<open>src/src/cli/gossip.rs\<close>. HTTP is a parameter: what the GET
  brought back, and what the POST does to the peer and answers.
\<close>

section \<open>The resource\<close>

definition max_merge :: nat where "max_merge = 5000"

record slice =
  sl_entries :: "board_note list"
  sl_next :: nat
  sl_origin :: rstr

definition list_board ::
    "(rchar \<Rightarrow> bool) \<Rightarrow> (rstr \<Rightarrow> board_note option) \<Rightarrow> rstr \<Rightarrow> rstr option \<Rightarrow> rstr option \<Rightarrow> slice" where
  "list_board u dec origin since file =
     (let notes = read_blackboard u dec file;
          start = min (case Option.bind since (\<lambda>v. parse_uint u64_max (trim v)) of Some n \<Rightarrow> n | None \<Rightarrow> 0)
                      (length notes)
      in \<lparr>sl_entries = drop start notes, sl_next = length notes, sl_origin = origin\<rparr>)"

datatype merge_reply = Merged nat nat | MergeProblem nat rstr

text \<open>
  \<open>entries\<close> is the array of the request body, each element as the entry it decodes to; \<open>None\<close> when
  the body has no such array.
\<close>

definition merge_board ::
    "(rchar \<Rightarrow> bool) \<Rightarrow> (board_note \<Rightarrow> rstr option) \<Rightarrow> (rstr \<Rightarrow> board_note option) \<Rightarrow> rstr \<Rightarrow> io_outcome
     \<Rightarrow> board_note option list option \<Rightarrow> rstr option \<Rightarrow> merge_reply \<times> rstr option" where
  "merge_board u enc dec path io entries file =
     (case entries of
        None \<Rightarrow>
          (MergeProblem 400 (lit ''expected {'' @ [34] @ lit ''entries'' @ [34] @ lit '':['' @ [8230] @ lit '']}''),
           file)
      | Some es \<Rightarrow>
          if max_merge < length es
          then (MergeProblem 413 (lit ''batch larger than '' @ show_nat max_merge @ lit '' entries''), file)
          else
            (let incoming = List.map_filter (\<lambda>e. e) es in
             case merge_into_blackboard u enc dec path io file incoming of
               (Inl e, file') \<Rightarrow> (MergeProblem 500 e, file')
             | (Inr added, file') \<Rightarrow> (Merged added (length incoming), file')))"

section \<open>One exchange\<close>

record round =
  r_peer :: rstr
  r_origin :: "rstr option"
  r_pulled :: nat
  r_pushed :: nat
  r_error :: "rstr option"

definition format_round :: "round \<Rightarrow> rstr" where
  "format_round r =
     (case r_error r of
        None \<Rightarrow>
          r_peer r @ (case r_origin r of None \<Rightarrow> [] | Some s \<Rightarrow> lit '' ('' @ s @ lit '')'')
            @ lit '': pulled '' @ show_nat (r_pulled r) @ lit '' pushed '' @ show_nat (r_pushed r)
      | Some e \<Rightarrow> r_peer r @ lit '': '' @ e)"

text \<open>What a GET of the peer's board brought: a failed call, an unreadable body, or a document.\<close>

record board_doc =
  bd_origin :: "rstr option"
  bd_entries :: "board_note list option"

datatype fetched = CallFailed rstr | ReadFailed rstr | Fetched board_doc

text \<open>
  The exchange changes this host's board and directory, and through \<open>post\<close> the peer's state; a
  posted batch is answered by an error or by the count the answer carries, if it carries one.
\<close>

definition exchange ::
    "(rchar \<Rightarrow> bool) \<Rightarrow> (board_note \<Rightarrow> rstr option) \<Rightarrow> (rstr \<Rightarrow> board_note option)
     \<Rightarrow> (directory \<Rightarrow> rstr option) \<Rightarrow> (rstr \<Rightarrow> directory option) \<Rightarrow> rstr \<Rightarrow> io_outcome \<Rightarrow> io_outcome
     \<Rightarrow> endpoint \<Rightarrow> bool \<Rightarrow> fetched \<Rightarrow> (board_note list \<Rightarrow> 's \<Rightarrow> (rstr + nat option) \<times> 's)
     \<Rightarrow> rstr option \<Rightarrow> rstr option \<Rightarrow> 's \<Rightarrow> round \<times> rstr option \<times> rstr option \<times> 's" where
  "exchange u enc dec encd decd path io iod ep pull_only got post file dir peer =
     (let r0 = \<lparr>r_peer = ep_label ep, r_origin = None, r_pulled = 0, r_pushed = 0, r_error = None\<rparr>
      in case got of
           CallFailed e \<Rightarrow> (r0\<lparr>r_error := Some e\<rparr>, file, dir, peer)
         | ReadFailed e \<Rightarrow> (r0\<lparr>r_error := Some (lit ''read: '' @ e)\<rparr>, file, dir, peer)
         | Fetched doc \<Rightarrow>
             (let dir' = (case bd_origin doc of
                            Some origin \<Rightarrow> remember encd decd iod origin (ep_id ep) dir
                          | None \<Rightarrow> dir);
                  r1 = r0\<lparr>r_origin := bd_origin doc\<rparr>;
                  theirs = (case bd_entries doc of Some es \<Rightarrow> es | None \<Rightarrow> [])
              in case merge_into_blackboard u enc dec path io file theirs of
                   (Inl e, file') \<Rightarrow> (r1\<lparr>r_error := Some e\<rparr>, file', dir', peer)
                 | (Inr n, file') \<Rightarrow>
                     (let r2 = r1\<lparr>r_pulled := n\<rparr> in
                      if pull_only then (r2, file', dir', peer)
                      else
                        (case post (read_blackboard u dec file') peer of
                           (Inr merged, peer') \<Rightarrow>
                             (r2\<lparr>r_pushed := (case merged of Some m \<Rightarrow> m | None \<Rightarrow> 0)\<rparr>, file', dir', peer')
                         | (Inl e, peer') \<Rightarrow> (r2\<lparr>r_error := Some e\<rparr>, file', dir', peer')))))"

text \<open>\<^verbatim>\<open>gossip\<close>: which remotes it talks to, and its exit code.\<close>

definition selected_peers :: "rstr option \<Rightarrow> endpoint list \<Rightarrow> endpoint list" where
  "selected_peers peer eps =
     filter (\<lambda>e. case peer of None \<Rightarrow> True | Some p \<Rightarrow> ep_label e = p \<or> ep_id e = p) eps"

definition gossip_exit :: "rstr option \<Rightarrow> endpoint list \<Rightarrow> (endpoint \<Rightarrow> round) \<Rightarrow> int" where
  "gossip_exit peer eps talk =
     (let sel = selected_peers peer eps in
      if sel = [] then (if peer = None then 0 else 1)
      else if \<exists>e \<in> set sel. r_error (talk e) \<noteq> None then 1 else 0)"

section \<open>Two hosts\<close>

text \<open>
  A peer that runs the same resource over its own file: a transport that delivers the documents as
  they are and reports a status of 400 and above as an error, which \<open>sterr\<close> renders.
\<close>

definition serve_post ::
    "(nat \<Rightarrow> rstr) \<Rightarrow> (rchar \<Rightarrow> bool) \<Rightarrow> (board_note \<Rightarrow> rstr option) \<Rightarrow> (rstr \<Rightarrow> board_note option) \<Rightarrow> rstr
     \<Rightarrow> board_note list \<Rightarrow> rstr option \<Rightarrow> (rstr + nat option) \<times> rstr option" where
  "serve_post sterr u enc dec path ours b =
     (case merge_board u enc dec path IoOk (Some (map Some ours)) b of
        (Merged n _, b') \<Rightarrow> (Inr (Some n), b')
      | (MergeProblem code _, b') \<Rightarrow> (Inl (sterr code), b'))"

definition gossip_round ::
    "(nat \<Rightarrow> rstr) \<Rightarrow> (rchar \<Rightarrow> bool) \<Rightarrow> (board_note \<Rightarrow> rstr option) \<Rightarrow> (rstr \<Rightarrow> board_note option)
     \<Rightarrow> (directory \<Rightarrow> rstr option) \<Rightarrow> (rstr \<Rightarrow> directory option) \<Rightarrow> rstr \<Rightarrow> rstr \<Rightarrow> endpoint
     \<Rightarrow> rstr option \<Rightarrow> rstr option \<Rightarrow> rstr option \<Rightarrow> round \<times> rstr option \<times> rstr option \<times> rstr option" where
  "gossip_round sterr u enc dec encd decd path their_origin ep a dir b =
     (let sl = list_board u dec their_origin None b in
      exchange u enc dec encd decd path IoOk IoOk ep False
        (Fetched \<lparr>bd_origin = Some (sl_origin sl), bd_entries = Some (sl_entries sl)\<rparr>)
        (serve_post sterr u enc dec path) a dir b)"

text \<open>A board a host can gossip: its text ends its lines and its entries survive the codec.\<close>

definition board_file_ok ::
    "(rchar \<Rightarrow> bool) \<Rightarrow> (board_note \<Rightarrow> rstr option) \<Rightarrow> (rstr \<Rightarrow> board_note option) \<Rightarrow> rstr option \<Rightarrow> bool" where
  "board_file_ok u enc dec file \<longleftrightarrow>
     line_complete (file_text file) \<and> (\<forall>n \<in> set (read_blackboard u dec file). codec_at enc dec n)"

lemma read_keyed: "Ball (set (read_blackboard u dec file)) (\<lambda>n. n_id n \<noteq> [])"
  by (auto simp: read_blackboard_text dest: parse_notes_keyed)

lemma list_board_all: "sl_entries (list_board u dec o' None b) = read_blackboard u dec b"
  by (simp add: list_board_def Let_def)

lemma merge_board_ok:
  assumes "line_complete (file_text b)" "\<forall>n \<in> set ours. codec_at enc dec n" "length ours \<le> max_merge"
    and "merge_board u enc dec path IoOk (Some (map Some ours)) b = (r, b')"
  shows "r = Merged (length (merge_notes (read_blackboard u dec b) ours)) (length ours)"
    and "read_blackboard u dec b' = board.join (read_blackboard u dec b) ours"
    and "line_complete (file_text b')"
proof -
  obtain r2 b2 where m: "merge_into_blackboard u enc dec path IoOk b ours = (r2, b2)" by fastforce
  note ok = merge_into_ok [OF assms(1,2) m]
  have e: "List.map_filter (\<lambda>e. e) (map Some ours) = ours" by (simp add: List.map_filter_def comp_def)
  have "r = Merged (length (merge_notes (read_blackboard u dec b) ours)) (length ours) \<and> b' = b2"
    using assms(3,4) m ok(2) by (simp add: merge_board_def e Let_def)
  with ok show "r = Merged (length (merge_notes (read_blackboard u dec b) ours)) (length ours)"
    "read_blackboard u dec b' = board.join (read_blackboard u dec b) ours" "line_complete (file_text b')"
    by simp_all
qed

text \<open>What one round leaves on either side.\<close>

lemma gossip_round_boards:
  assumes a: "board_file_ok u enc dec a" and b: "board_file_ok u enc dec b"
    and small: "length (board.join (read_blackboard u dec a) (read_blackboard u dec b)) \<le> max_merge"
    and r: "gossip_round sterr u enc dec encd decd path their_origin ep a dir b = (r, a', dir', b')"
  shows "read_blackboard u dec a' = board.join (read_blackboard u dec a) (read_blackboard u dec b)"
    and "read_blackboard u dec b' = board.join (read_blackboard u dec b) (read_blackboard u dec a')"
    and "board_file_ok u enc dec a'" "board_file_ok u enc dec b'"
    and "r_error r = None"
    and "r_pulled r = length (merge_notes (read_blackboard u dec a) (read_blackboard u dec b))"
    and "r_pushed r = length (merge_notes (read_blackboard u dec b) (read_blackboard u dec a'))"
proof -
  let ?A = "read_blackboard u dec a" and ?B = "read_blackboard u dec b"
  obtain m a2 where m: "merge_into_blackboard u enc dec path IoOk a ?B = (m, a2)" by fastforce
  have la: "line_complete (file_text a)" and lb: "line_complete (file_text b)"
    and ca: "\<forall>n \<in> set ?A. codec_at enc dec n" and cb: "\<forall>n \<in> set ?B. codec_at enc dec n"
    using a b by (simp_all add: board_file_ok_def)
  note ok = merge_into_ok [OF la cb m]
  have c2: "\<forall>n \<in> set (read_blackboard u dec a2). codec_at enc dec n"
    using board.join_from [of ?A ?B] ca cb by (auto simp: ok(1))
  have s2: "length (read_blackboard u dec a2) \<le> max_merge" using small by (simp add: ok(1))
  obtain q b2 where q: "merge_board u enc dec path IoOk (Some (map Some (read_blackboard u dec a2))) b = (q, b2)"
    by fastforce
  note pk = merge_board_ok [OF lb c2 s2 q]
  have res: "a' = a2 \<and> b' = b2 \<and> r_error r = None \<and> r_pulled r = length (merge_notes ?A ?B) \<and>
    r_pushed r = length (merge_notes ?B (read_blackboard u dec a2))"
    using r m ok(2) q pk(1)
    by (auto simp: gossip_round_def exchange_def list_board_all serve_post_def Let_def)
  then show "read_blackboard u dec a' = board.join ?A ?B"
    "read_blackboard u dec b' = board.join ?B (read_blackboard u dec a')" "r_error r = None"
    "r_pulled r = length (merge_notes ?A ?B)"
    "r_pushed r = length (merge_notes ?B (read_blackboard u dec a'))"
    using ok(1) pk(2) by simp_all
  show "board_file_ok u enc dec a'"
    using res ok(3) c2 by (simp add: board_file_ok_def)
  show "board_file_ok u enc dec b'"
    using res pk(2,3) c2 cb board.join_from [of ?B "read_blackboard u dec a2"]
    by (auto simp: board_file_ok_def)
qed

lemma gossip_push_too_big:
  assumes a: "board_file_ok u enc dec a" and b: "board_file_ok u enc dec b"
    and big: "max_merge < length (board.join (read_blackboard u dec a) (read_blackboard u dec b))"
    and r: "gossip_round sterr u enc dec encd decd path their_origin ep a dir b = (r, a', dir', b')"
  shows "b' = b \<and> r_error r = Some (sterr 413)"
proof -
  let ?A = "read_blackboard u dec a" and ?B = "read_blackboard u dec b"
  obtain m a2 where m: "merge_into_blackboard u enc dec path IoOk a ?B = (m, a2)" by fastforce
  have la: "line_complete (file_text a)" and cb: "\<forall>n \<in> set ?B. codec_at enc dec n"
    using a b by (simp_all add: board_file_ok_def)
  note ok = merge_into_ok [OF la cb m]
  have "max_merge < length (read_blackboard u dec a2)" using big by (simp add: ok(1))
  then show ?thesis
    using r m ok(2)
    by (auto simp: gossip_round_def exchange_def list_board_all serve_post_def merge_board_def Let_def)
qed

text \<open>Two boards whose entries are told apart by their ids.\<close>

definition boards_ok ::
    "(rchar \<Rightarrow> bool) \<Rightarrow> (board_note \<Rightarrow> rstr option) \<Rightarrow> (rstr \<Rightarrow> board_note option) \<Rightarrow> rstr option
     \<Rightarrow> rstr option \<Rightarrow> bool" where
  "boards_ok u enc dec a b \<longleftrightarrow>
     board_file_ok u enc dec a \<and> board_file_ok u enc dec b \<and>
     board_consistent (set (read_blackboard u dec a) \<union> set (read_blackboard u dec b)) \<and>
     length (board.join (read_blackboard u dec a) (read_blackboard u dec b)) \<le> max_merge"

lemma round_sets:
  assumes "boards_ok u enc dec a b"
    and "gossip_round sterr u enc dec encd decd path their_origin ep a dir b = (r, a', dir', b')"
  shows "set (read_blackboard u dec a') = set (read_blackboard u dec a) \<union> set (read_blackboard u dec b)"
    and "set (read_blackboard u dec b') = set (read_blackboard u dec a) \<union> set (read_blackboard u dec b)"
proof -
  have ok: "board_file_ok u enc dec a" "board_file_ok u enc dec b"
    "length (board.join (read_blackboard u dec a) (read_blackboard u dec b)) \<le> max_merge"
    and inj: "inj_on n_id (set (read_blackboard u dec a) \<union> set (read_blackboard u dec b))"
    using assms(1) by (simp_all add: boards_ok_def board_consistent_def)
  note g = gossip_round_boards [OF ok assms(2)]
  show "set (read_blackboard u dec a') = set (read_blackboard u dec a) \<union> set (read_blackboard u dec b)"
    unfolding g(1) by (rule board.round_converges(1) [OF inj read_keyed read_keyed])
  show "set (read_blackboard u dec b') = set (read_blackboard u dec a) \<union> set (read_blackboard u dec b)"
    unfolding g(2) g(1) by (rule board.round_converges(2) [OF inj read_keyed read_keyed])
qed

lemma gossip_round_quiet:
  assumes a: "board_file_ok u enc dec a" "board_file_ok u enc dec b"
    and small: "length (board.join (read_blackboard u dec a) (read_blackboard u dec b)) \<le> max_merge"
    and same: "n_id ` set (read_blackboard u dec a) = n_id ` set (read_blackboard u dec b)"
    and r: "gossip_round sterr u enc dec encd decd path their_origin ep a dir b = (r, a', dir', b')"
  shows "r_pulled r = 0 \<and> r_pushed r = 0 \<and> read_blackboard u dec a' = read_blackboard u dec a \<and>
    read_blackboard u dec b' = read_blackboard u dec b"
proof -
  note g = gossip_round_boards [OF a small r]
  have k: "n_id ` {e \<in> set (read_blackboard u dec f). n_id e \<noteq> []} = n_id ` set (read_blackboard u dec f)" for f
    using board.all_keyed_image [OF read_keyed] by simp
  have 1: "merge_notes (read_blackboard u dec a) (read_blackboard u dec b) = []"
    by (rule board.merge_nothing_new) (simp add: k same)
  then have a': "read_blackboard u dec a' = read_blackboard u dec a"
    using g(1) by (simp add: board.join_def)
  have 2: "merge_notes (read_blackboard u dec b) (read_blackboard u dec a) = []"
    by (rule board.merge_nothing_new) (simp add: k same)
  then show ?thesis using g 1 a' by (simp add: board.join_def)
qed

section \<open>Properties\<close>

text \<open>Two sample files: one announcement here, one result there, and a codec that knows them.\<close>

definition sample_codec_enc :: "board_note \<Rightarrow> rstr option" where
  "sample_codec_enc n = Some (65 # n_id n)"

definition sample_codec_dec :: "rstr \<Rightarrow> board_note option" where
  "sample_codec_dec s =
     (if s = [65, 7] then Some (sample_note KAnnounce 5 [97] [7])
      else if s = [65, 5] then Some (sample_note KDone 10 [98] [5]) else None)"

definition sample_ep :: endpoint where
  "sample_ep = \<lparr>ep_id = [1], ep_label = [2], ep_url = [], ep_token = []\<rparr>"

lemma sample_reads:
  "read_blackboard u sample_codec_dec (Some [65, 7, 10]) = [sample_note KAnnounce 5 [97] [7]]"
  "read_blackboard u sample_codec_dec (Some [65, 5, 10]) = [sample_note KDone 10 [98] [5]]"
  by (simp_all add: read_blackboard_def parse_notes_def rust_text_defs List.map_filter_def
      sample_codec_dec_def backfill_id_def sample_note_def)

lemma sample_boards_ok:
  "boards_ok u sample_codec_enc sample_codec_dec (Some [65, 7, 10]) (Some [65, 5, 10])"
  by (simp add: boards_ok_def board_file_ok_def sample_reads codec_at_def line_complete_def file_text_def
      board.join_def merge_notes_def max_merge_def)
    (auto simp: sample_codec_enc_def sample_codec_dec_def sample_note_def rust_text_defs
      board_consistent_def is_announcement_def inj_on_def)

text \<open>C2 One exchange, the pull and then the push, leaves both hosts with the union of their boards, and
  so with the same folded tasks. It holds for boards that read back entry for entry, that together have no more entries
  than one merge takes (\<open>max_merge\<close>; \<open>gossip_large_board_never_pushed\<close> is what happens above it) and whose union is
  consistent: one entry to an id, and the announcements of a task under distinct stamps
  other than zero.\<close>

theorem gossip_round_converges:
  assumes "boards_ok u enc dec a b"
    and "gossip_round sterr u enc dec encd decd path their_origin ep a dir b = (r, a', dir', b')"
  shows "r_error r = None \<and>
    set (read_blackboard u dec a') = set (read_blackboard u dec a) \<union> set (read_blackboard u dec b) \<and>
    set (read_blackboard u dec b') = set (read_blackboard u dec a) \<union> set (read_blackboard u dec b) \<and>
    fold_tasks (read_blackboard u dec a') = fold_tasks (read_blackboard u dec b')"
proof -
  note s = round_sets [OF assms]
  have "r_error r = None"
    by (rule gossip_round_boards(5) [OF _ _ _ assms(2)]) (use assms(1) in \<open>simp_all add: boards_ok_def\<close>)
  moreover have "fold_tasks (read_blackboard u dec a') = fold_tasks (read_blackboard u dec b')"
    by (rule fold_tasks_set) (use assms(1) s in \<open>simp_all add: boards_ok_def\<close>)
  ultimately show ?thesis using s by simp
qed

lemma gossip_round_converges_witness:
  "\<exists>r a' dir' b'. gossip_round (\<lambda>n. []) (\<lambda>c. False) sample_codec_enc sample_codec_dec (\<lambda>d. None) (\<lambda>s. None)
     [] [104] sample_ep (Some [65, 7, 10]) None (Some [65, 5, 10]) = (r, a', dir', b') \<and>
     fold_tasks (read_blackboard (\<lambda>c. False) sample_codec_dec a') =
     fold_tasks (read_blackboard (\<lambda>c. False) sample_codec_dec b')"
proof -
  obtain r a' dir' b' where g: "gossip_round (\<lambda>n. []) (\<lambda>c. False) sample_codec_enc sample_codec_dec
      (\<lambda>d. None) (\<lambda>s. None) [] [104] sample_ep (Some [65, 7, 10]) None (Some [65, 5, 10]) = (r, a', dir', b')"
    by (metis prod_cases4)
  with gossip_round_converges [OF sample_boards_ok g] show ?thesis by blast
qed

text \<open>A further exchange is free: it pulls nothing, pushes nothing and changes neither board.\<close>

theorem gossip_second_round_idle:
  assumes "boards_ok u enc dec a b"
    and "gossip_round sterr u enc dec encd decd path their_origin ep a dir b = (r, a', dir', b')"
    and "gossip_round sterr u enc dec encd decd path their_origin ep a' dir' b' = (r2, a2, dir2, b2)"
  shows "r_pulled r2 = 0 \<and> r_pushed r2 = 0 \<and> read_blackboard u dec a2 = read_blackboard u dec a' \<and>
    read_blackboard u dec b2 = read_blackboard u dec b'"
proof -
  have ok: "board_file_ok u enc dec a" "board_file_ok u enc dec b"
    "length (board.join (read_blackboard u dec a) (read_blackboard u dec b)) \<le> max_merge"
    using assms(1) by (simp_all add: boards_ok_def)
  note g = gossip_round_boards [OF ok assms(2)]
  have ids: "n_id ` set (read_blackboard u dec a') = n_id ` set (read_blackboard u dec b')"
    using round_sets [OF assms(1,2)] by simp
  have "merge_notes (read_blackboard u dec a') (read_blackboard u dec b') = []"
    by (rule board.merge_nothing_new) (auto simp: ids)
  then have "length (board.join (read_blackboard u dec a') (read_blackboard u dec b')) \<le> max_merge"
    using ok(3) g(1) by (simp add: board.join_def)
  with g ids assms(3) show ?thesis by (intro gossip_round_quiet) auto
qed

lemma gossip_second_round_idle_witness:
  "\<exists>r a' dir' b'. gossip_round (\<lambda>n. []) (\<lambda>c. False) sample_codec_enc sample_codec_dec (\<lambda>d. None) (\<lambda>s. None)
     [] [104] sample_ep (Some [65, 7, 10]) None (Some [65, 5, 10]) = (r, a', dir', b') \<and>
     r_pulled (fst (gossip_round (\<lambda>n. []) (\<lambda>c. False) sample_codec_enc sample_codec_dec (\<lambda>d. None) (\<lambda>s. None)
       [] [104] sample_ep a' dir' b')) = 0"
proof -
  obtain r a' dir' b' where g: "gossip_round (\<lambda>n. []) (\<lambda>c. False) sample_codec_enc sample_codec_dec
      (\<lambda>d. None) (\<lambda>s. None) [] [104] sample_ep (Some [65, 7, 10]) None (Some [65, 5, 10]) = (r, a', dir', b')"
    by (metis prod_cases4)
  obtain r2 a2 dir2 b2 where g2: "gossip_round (\<lambda>n. []) (\<lambda>c. False) sample_codec_enc sample_codec_dec
      (\<lambda>d. None) (\<lambda>s. None) [] [104] sample_ep a' dir' b' = (r2, a2, dir2, b2)"
    by (metis prod_cases4)
  with gossip_second_round_idle [OF sample_boards_ok g g2] g show ?thesis by auto
qed

text \<open>Past the batch limit convergence stops: every push carries the whole board, so once it holds
  more than the limit the peer refuses it and learns nothing, round after round.\<close>

theorem gossip_large_board_never_pushed:
  assumes "board_file_ok u enc dec a" "board_file_ok u enc dec b"
    and "max_merge < length (board.join (read_blackboard u dec a) (read_blackboard u dec b))"
    and "gossip_round sterr u enc dec encd decd path their_origin ep a dir b = (r, a', dir', b')"
  shows "b' = b \<and> r_error r = Some (sterr 413)"
  by (rule gossip_push_too_big [OF assms])

text \<open>A board of 5001 entries, for the witness.\<close>

definition big_note :: "nat \<Rightarrow> board_note" where
  "big_note i = sample_note KNote 1 [97] [1000 + i]"

definition big_enc :: "board_note \<Rightarrow> rstr option" where
  "big_enc n = Some (65 # n_id n)"

definition big_dec :: "rstr \<Rightarrow> board_note option" where
  "big_dec s = Some (sample_note KNote 1 [97] (tl s))"

definition big_board :: "rstr option" where
  "big_board = Some (concat (map (encode_note_line big_enc) (map big_note [0..<5001])))"

lemma big_codec: "codec_at big_enc big_dec (big_note i)"
  by (simp add: codec_at_def big_enc_def big_dec_def big_note_def sample_note_def rust_text_defs)

lemma big_read: "read_blackboard u big_dec big_board = map big_note [0..<5001]"
proof -
  have "map (backfill_id u) (map big_note [0..<5001]) = map big_note [0..<5001]"
    by (rule map_idI) (auto simp: big_note_def sample_note_def)
  moreover have "read_blackboard u big_dec big_board = map (backfill_id u) (map big_note [0..<5001])"
    unfolding read_blackboard_text file_text_def big_board_def option.case
    by (rule parse_encoded_lines) (auto simp: big_codec)
  ultimately show ?thesis by simp
qed

lemma gossip_large_board_never_pushed_witness:
  "snd (snd (snd (gossip_round (\<lambda>n. []) (\<lambda>c. False) big_enc big_dec (\<lambda>d. None) (\<lambda>s. None)
     [] [104] sample_ep big_board None None))) = None"
proof -
  obtain r a' dir' b' where g: "gossip_round (\<lambda>n. []) (\<lambda>c. False) big_enc big_dec
      (\<lambda>d. None) (\<lambda>s. None) [] [104] sample_ep big_board None None = (r, a', dir', b')"
    by (metis prod_cases4)
  have none: "read_blackboard u big_dec None = []" for u by (simp add: read_blackboard_def)
  have a: "board_file_ok u big_enc big_dec big_board" for u
    unfolding board_file_ok_def big_read
    by (intro conjI) (simp only: big_board_def file_text_def option.case encoded_lines_complete,
        auto simp: big_codec)
  have b: "board_file_ok u big_enc big_dec None" for u
    by (simp add: board_file_ok_def none file_text_def line_complete_def)
  have "max_merge < length (board.join (read_blackboard u big_dec big_board) (read_blackboard u big_dec None))" for u
    by (simp add: none big_read board.join_def max_merge_def del: upt.simps)
  from gossip_large_board_never_pushed [OF a b this g] g show ?thesis by simp
qed

end
