(* ===== verification/Net_Policy.thy ===== *)
theory Net_Policy
  imports Prelude
begin

text \<open>
  The per-tab network policy of \<^verbatim>\<open>src/src/net_policy.rs\<close>: presets, CIDR networks, and the allow-set a
  host name or an address is matched against. The address syntax of \<^verbatim>\<open>std::net\<close> is modelled as its
  parser reads it.
\<close>

section \<open>Addresses\<close>

datatype ip_addr = V4 "32 word" | V6 "128 word"

text \<open>
  The parser reads from the front: a number of at most \<open>mx\<close> digits of a radix below a limit, in IPv4
  without a leading zero. A reader gives the value and the rest.
\<close>

definition digit_value :: "nat \<Rightarrow> rchar \<Rightarrow> nat option" where
  "digit_value radix c =
     (let d = (if 48 \<le> c \<and> c \<le> 57 then c - 48
               else if 97 \<le> c \<and> c \<le> 122 then c - 87
               else if 65 \<le> c \<and> c \<le> 90 then c - 55 else 99)
      in if d < radix then Some d else None)"

fun take_digits :: "nat \<Rightarrow> rstr \<Rightarrow> nat list \<times> rstr" where
  "take_digits radix [] = ([], [])"
| "take_digits radix (c # cs) =
     (case digit_value radix c of
        None \<Rightarrow> ([], c # cs)
      | Some d \<Rightarrow> (case take_digits radix cs of (ds, rest) \<Rightarrow> (d # ds, rest)))"

definition read_number :: "nat \<Rightarrow> nat \<Rightarrow> nat \<Rightarrow> bool \<Rightarrow> rstr \<Rightarrow> (nat \<times> rstr) option" where
  "read_number radix mx_digits limit leading_zero s =
     (case take_digits radix s of
        (ds, rest) \<Rightarrow>
          (let v = foldl (\<lambda>n d. radix * n + d) 0 ds in
           if ds = [] \<or> mx_digits < length ds \<or> limit < v then None
           else if \<not> leading_zero \<and> hd ds = 0 \<and> 1 < length ds then None
           else Some (v, rest)))"

text \<open>A separator is wanted before every item but the first.\<close>

definition read_sep :: "rchar \<Rightarrow> nat \<Rightarrow> (rstr \<Rightarrow> ('a \<times> rstr) option) \<Rightarrow> rstr \<Rightarrow> ('a \<times> rstr) option" where
  "read_sep sep i rd s =
     (if i = 0 then rd s else (case s of c # cs \<Rightarrow> if c = sep then rd cs else None | [] \<Rightarrow> None))"

definition read_octet :: "rstr \<Rightarrow> (nat \<times> rstr) option" where
  "read_octet s = read_number 10 3 255 False s"

definition read_v4 :: "rstr \<Rightarrow> (32 word \<times> rstr) option" where
  "read_v4 s0 =
     (case read_octet s0 of None \<Rightarrow> None | Some (a, s1) \<Rightarrow>
      (case read_sep 46 1 read_octet s1 of None \<Rightarrow> None | Some (b, s2) \<Rightarrow>
       (case read_sep 46 2 read_octet s2 of None \<Rightarrow> None | Some (c, s3) \<Rightarrow>
        (case read_sep 46 3 read_octet s3 of None \<Rightarrow> None | Some (d, s4) \<Rightarrow>
          Some (of_nat (((a * 256 + b) * 256 + c) * 256 + d), s4)))))"

text \<open>Up to \<open>limit\<close> groups of an IPv6 address from position \<open>i\<close>, the last two possibly an IPv4 address.\<close>

fun read_groups :: "nat \<Rightarrow> nat \<Rightarrow> nat \<Rightarrow> rstr \<Rightarrow> nat list \<times> bool \<times> rstr" where
  "read_groups 0 limit i s = ([], False, s)"
| "read_groups (Suc k) limit i s =
     (case (if i + 1 < limit then read_sep 58 i read_v4 s else None) of
        Some (a, rest) \<Rightarrow> ([unat (drop_bit 16 a), unat (take_bit 16 a)], True, rest)
      | None \<Rightarrow>
          (case read_sep 58 i (read_number 16 4 65535 True) s of
             None \<Rightarrow> ([], False, s)
           | Some (g, rest) \<Rightarrow>
               (case read_groups k limit (i + 1) rest of (gs, v4, rest') \<Rightarrow> (g # gs, v4, rest'))))"

definition groups_value :: "nat list \<Rightarrow> 128 word" where
  "groups_value gs = of_nat (foldl (\<lambda>n g. 65536 * n + g) 0 gs)"

definition read_v6 :: "rstr \<Rightarrow> (128 word \<times> rstr) option" where
  "read_v6 s =
     (case read_groups 8 8 0 s of
        (hs, head_v4, s1) \<Rightarrow>
          if length hs = 8 then Some (groups_value hs, s1)
          else if head_v4 then None
          else (case strip_prefix [58, 58] s1 of
                  None \<Rightarrow> None
                | Some s2 \<Rightarrow>
                    (let limit = 8 - (length hs + 1) in
                     case read_groups limit limit 0 s2 of
                       (ts, _, s3) \<Rightarrow>
                         Some (groups_value (hs @ replicate (8 - length hs - length ts) 0 @ ts), s3))))"

definition parse_ip :: "rstr \<Rightarrow> ip_addr option" where
  "parse_ip s =
     (case read_v4 s of
        Some (a, rest) \<Rightarrow> if rest = [] then Some (V4 a) else None
      | None \<Rightarrow> (case read_v6 s of Some (a, rest) \<Rightarrow> if rest = [] then Some (V6 a) else None | None \<Rightarrow> None))"

section \<open>Networks\<close>

definition mask_v4 :: "nat \<Rightarrow> 32 word" where
  "mask_v4 prefix = (if prefix = 0 then 0 else push_bit (32 - prefix) (- 1))"

definition mask_v6 :: "nat \<Rightarrow> 128 word" where
  "mask_v6 prefix = (if prefix = 0 then 0 else push_bit (128 - prefix) (- 1))"

datatype cidr = CV4 "32 word" nat | CV6 "128 word" nat

definition parse_cidr :: "rstr \<Rightarrow> cidr option" where
  "parse_cidr s =
     (let (addr, prefix) = (case split_once 47 s of Some (a, p) \<Rightarrow> (a, Some p) | None \<Rightarrow> (s, None)) in
      case parse_ip addr of
        None \<Rightarrow> None
      | Some (V4 v4) \<Rightarrow>
          (case (case prefix of None \<Rightarrow> Some 32 | Some p \<Rightarrow> parse_uint 255 p) of
             None \<Rightarrow> None
           | Some p \<Rightarrow> if 32 < p then None else Some (CV4 (v4 AND mask_v4 p) p))
      | Some (V6 v6) \<Rightarrow>
          (case (case prefix of None \<Rightarrow> Some 128 | Some p \<Rightarrow> parse_uint 255 p) of
             None \<Rightarrow> None
           | Some p \<Rightarrow> if 128 < p then None else Some (CV6 (v6 AND mask_v6 p) p)))"

fun cidr_contains :: "cidr \<Rightarrow> ip_addr \<Rightarrow> bool" where
  "cidr_contains (CV4 base prefix) (V4 a) = (a AND mask_v4 prefix = base)"
| "cidr_contains (CV6 base prefix) (V6 a) = (a AND mask_v6 prefix = base)"
| "cidr_contains _ _ = False"

section \<open>Presets\<close>

datatype preset = ClaudeCode | Cloudflare

definition preset_from_id :: "rstr \<Rightarrow> preset option" where
  "preset_from_id s =
     (if s = lit ''claude-code'' then Some ClaudeCode
      else if s = lit ''cloudflare'' then Some Cloudflare else None)"

fun preset_id :: "preset \<Rightarrow> rstr" where
  "preset_id ClaudeCode = lit ''claude-code''"
| "preset_id Cloudflare = lit ''cloudflare''"

definition cloudflare_cidrs :: "rstr list" where
  "cloudflare_cidrs = map lit
     [''173.245.48.0/20'', ''103.21.244.0/22'', ''103.22.200.0/22'', ''103.31.4.0/22'', ''141.101.64.0/18'',
      ''108.162.192.0/18'', ''190.93.240.0/20'', ''188.114.96.0/20'', ''197.234.240.0/22'',
      ''198.41.128.0/17'', ''162.158.0.0/15'', ''104.16.0.0/13'', ''104.24.0.0/14'', ''172.64.0.0/13'',
      ''131.0.72.0/22'',
      ''2400:cb00::/32'', ''2606:4700::/32'', ''2803:f800::/32'', ''2405:b500::/32'', ''2405:8100::/32'',
      ''2a06:98c0::/29'', ''2c0f:f248::/32'']"

fun preset_domains :: "preset \<Rightarrow> rstr list" where
  "preset_domains ClaudeCode = [lit ''api.anthropic.com'']"
| "preset_domains Cloudflare = []"

fun preset_cidrs :: "preset \<Rightarrow> rstr list" where
  "preset_cidrs ClaudeCode = []"
| "preset_cidrs Cloudflare = cloudflare_cidrs"

section \<open>The allow-set\<close>

text \<open>Suffixes and, in parallel, whether each also matches its apex.\<close>

record allow_set =
  al_domains :: "rstr list"
  al_apex_ok :: "bool list"
  al_cidrs :: "cidr list"

fun position_of :: "rstr \<Rightarrow> rstr list \<Rightarrow> nat option" where
  "position_of x [] = None"
| "position_of x (y # ys) = (if y = x then Some 0 else map_option Suc (position_of x ys))"

definition push_domain :: "rstr \<Rightarrow> allow_set \<Rightarrow> allow_set" where
  "push_domain raw0 s =
     (let raw = to_ascii_lowercase (trim_end_matches 46 (trim raw0)) in
      if raw = [] then s
      else
        (let (suffix, apex) = (case strip_prefix [42, 46] raw of Some bare \<Rightarrow> (bare, False) | None \<Rightarrow> (raw, True)) in
         if suffix = [] then s
         else case position_of suffix (al_domains s) of
                Some i \<Rightarrow> s\<lparr>al_apex_ok := (al_apex_ok s)[i := (al_apex_ok s ! i \<or> apex)]\<rparr>
              | None \<Rightarrow> s\<lparr>al_domains := al_domains s @ [suffix], al_apex_ok := al_apex_ok s @ [apex]\<rparr>))"

definition push_cidr :: "rstr \<Rightarrow> allow_set \<Rightarrow> allow_set" where
  "push_cidr c s = (case parse_cidr c of None \<Rightarrow> s | Some n \<Rightarrow> s\<lparr>al_cidrs := al_cidrs s @ [n]\<rparr>)"

definition empty_allow :: allow_set where
  "empty_allow = \<lparr>al_domains = [], al_apex_ok = [], al_cidrs = []\<rparr>"

definition push_preset :: "preset \<Rightarrow> allow_set \<Rightarrow> allow_set" where
  "push_preset p s = fold push_cidr (preset_cidrs p) (fold push_domain (preset_domains p) s)"

definition build_allow :: "preset list \<Rightarrow> rstr list \<Rightarrow> rstr list \<Rightarrow> allow_set" where
  "build_allow presets domains cidrs =
     fold push_cidr cidrs (fold push_domain domains (fold push_preset presets empty_allow))"

definition ip_allowed :: "allow_set \<Rightarrow> ip_addr \<Rightarrow> bool" where
  "ip_allowed s ip \<longleftrightarrow> list_ex (\<lambda>c. cidr_contains c ip) (al_cidrs s)"

text \<open>The loop over the suffixes with their flags; the byte before a matched suffix must be a dot.\<close>

fun suffix_allowed :: "rstr \<Rightarrow> (rstr \<times> bool) list \<Rightarrow> bool" where
  "suffix_allowed host [] = False"
| "suffix_allowed host ((suffix, apex) # rest) =
     (if host = suffix then (apex \<or> suffix_allowed host rest)
      else if ends_with host suffix \<and> host ! (length host - length suffix - 1) = 46 then True
      else suffix_allowed host rest)"

definition host_allowed :: "allow_set \<Rightarrow> rstr \<Rightarrow> bool" where
  "host_allowed s host0 =
     (let host1 = (case rsplit_once 58 host0 of None \<Rightarrow> host0 | Some (h, _) \<Rightarrow> h);
          host = to_ascii_lowercase (trim_end_matches 46 host1)
      in if host = [] then False
         else case parse_ip host of
                Some ip \<Rightarrow> ip_allowed s ip
              | None \<Rightarrow> suffix_allowed host (zip (al_domains s) (al_apex_ok s)))"

definition resolvable_domains :: "allow_set \<Rightarrow> rstr list" where
  "resolvable_domains s = map fst (filter snd (zip (al_domains s) (al_apex_ok s)))"

definition allow_is_empty :: "allow_set \<Rightarrow> bool" where
  "allow_is_empty s \<longleftrightarrow> al_domains s = [] \<and> al_cidrs s = []"

datatype net_mode = NetOn | NetOff | NetAllowlist

record allow_config =
  ac_presets :: "preset list"
  ac_domains :: "rstr list"
  ac_cidrs :: "rstr list"

definition config_is_empty :: "allow_config \<Rightarrow> bool" where
  "config_is_empty c \<longleftrightarrow> ac_presets c = [] \<and> ac_domains c = [] \<and> ac_cidrs c = []"

definition to_allow_set :: "allow_config \<Rightarrow> allow_set" where
  "to_allow_set c = build_allow (ac_presets c) (ac_domains c) (ac_cidrs c)"

section \<open>What an entry grants\<close>

text \<open>
  The specification of one domain entry, without the de-duplicated table: an entry \<^verbatim>\<open>*.d\<close> grants the
  names below \<^verbatim>\<open>d\<close>, any other entry \<^verbatim>\<open>d\<close> grants \<^verbatim>\<open>d\<close> and the names below it.
\<close>

definition normal_entry :: "rstr \<Rightarrow> rstr" where
  "normal_entry raw = to_ascii_lowercase (trim_end_matches 46 (trim raw))"

definition below :: "rstr \<Rightarrow> rstr \<Rightarrow> bool" where
  "below d host \<longleftrightarrow> d \<noteq> [] \<and> ends_with host (46 # d)"

definition entry_grants :: "rstr \<Rightarrow> rstr \<Rightarrow> bool" where
  "entry_grants raw host =
     (case strip_prefix [42, 46] (normal_entry raw) of
        Some bare \<Rightarrow> below bare host
      | None \<Rightarrow> normal_entry raw \<noteq> [] \<and> (host = normal_entry raw \<or> below (normal_entry raw) host))"

definition table_ok :: "allow_set \<Rightarrow> bool" where
  "table_ok s \<longleftrightarrow> length (al_apex_ok s) = length (al_domains s) \<and> distinct (al_domains s) \<and> [] \<notin> set (al_domains s)"

definition table_grants :: "allow_set \<Rightarrow> rstr \<Rightarrow> bool" where
  "table_grants s host = suffix_allowed host (zip (al_domains s) (al_apex_ok s))"

lemma suffix_dot:
  "host \<noteq> suffix \<Longrightarrow>
     ends_with host suffix \<and> host ! (length host - length suffix - 1) = 46 \<longleftrightarrow> ends_with host (46 # suffix)"
proof
  assume ne: "host \<noteq> suffix" and a: "ends_with host suffix \<and> host ! (length host - length suffix - 1) = 46"
  then obtain r where r: "host = r @ suffix" by (auto simp: ends_with_iff)
  with ne have "r \<noteq> []" by auto
  then obtain r' x where x: "r = r' @ [x]" by (metis rev_exhaust)
  with a r have "x = 46" by (simp add: nth_append)
  with r x show "ends_with host (46 # suffix)" by (auto simp: ends_with_iff)
next
  assume "ends_with host (46 # suffix)"
  then obtain r where r: "host = r @ 46 # suffix" by (auto simp: ends_with_iff)
  then show "ends_with host suffix \<and> host ! (length host - length suffix - 1) = 46"
    by (auto simp: ends_with_iff intro: exI [of _ "r @ [46]"])
qed

lemma suffix_allowed_iff:
  "[] \<notin> fst ` set ds \<Longrightarrow>
     suffix_allowed host ds \<longleftrightarrow> (\<exists>(d, apex) \<in> set ds. (host = d \<and> apex) \<or> below d host)"
proof (induction host ds rule: suffix_allowed.induct)
  case (1 host)
  then show ?case by simp
next
  case (2 host suffix apex rest)
  have nb: "\<not> ends_with suffix (46 # suffix)" by (simp add: ends_with_def)
  show ?case
  proof (cases "host = suffix")
    case True
    then show ?thesis using 2 nb by (auto simp: below_def)
  next
    case False
    then show ?thesis using 2 suffix_dot [OF False] by (auto simp: below_def)
  qed
qed

lemma table_grants_set:
  "table_ok s \<Longrightarrow>
     table_grants s host \<longleftrightarrow>
       (\<exists>(d, apex) \<in> set (zip (al_domains s) (al_apex_ok s)). (host = d \<and> apex) \<or> below d host)"
proof -
  assume ok: "table_ok s"
  have "[] \<notin> fst ` set (zip (al_domains s) (al_apex_ok s))"
    using ok by (auto simp: table_ok_def dest: set_zip_leftD)
  then show ?thesis unfolding table_grants_def by (rule suffix_allowed_iff)
qed

lemma table_grants_iff:
  "table_ok s \<Longrightarrow>
     table_grants s host \<longleftrightarrow>
       (\<exists>i < length (al_domains s). (host = al_domains s ! i \<and> al_apex_ok s ! i) \<or> below (al_domains s ! i) host)"
  unfolding table_grants_set by (auto simp: table_ok_def set_zip)

lemma position_of_Some: "position_of x ys = Some i \<Longrightarrow> i < length ys \<and> ys ! i = x"
  by (induction ys arbitrary: i) (auto split: if_splits)

lemma position_of_None: "position_of x ys = None \<longleftrightarrow> x \<notin> set ys"
  by (induction ys) auto

text \<open>Adding one normalised suffix.\<close>

definition add_suffix :: "rstr \<Rightarrow> bool \<Rightarrow> allow_set \<Rightarrow> allow_set" where
  "add_suffix suffix apex s =
     (case position_of suffix (al_domains s) of
        Some i \<Rightarrow> s\<lparr>al_apex_ok := (al_apex_ok s)[i := (al_apex_ok s ! i \<or> apex)]\<rparr>
      | None \<Rightarrow> s\<lparr>al_domains := al_domains s @ [suffix], al_apex_ok := al_apex_ok s @ [apex]\<rparr>)"

lemma add_suffix_grants:
  assumes ok: "table_ok s" and ne: "suffix \<noteq> []"
  shows "table_ok (add_suffix suffix apex s) \<and>
    (table_grants (add_suffix suffix apex s) host \<longleftrightarrow>
      table_grants s host \<or> (host = suffix \<and> apex) \<or> below suffix host)"
proof (cases "position_of suffix (al_domains s)")
  case None
  then have a: "add_suffix suffix apex s =
      s\<lparr>al_domains := al_domains s @ [suffix], al_apex_ok := al_apex_ok s @ [apex]\<rparr>" and n: "suffix \<notin> set (al_domains s)"
    using position_of_None [THEN iffD1, OF None] by (simp_all add: add_suffix_def)
  have ok': "table_ok (add_suffix suffix apex s)" using ok ne n by (simp add: table_ok_def a)
  have l: "length (al_apex_ok s) = length (al_domains s)" using ok by (simp add: table_ok_def)
  have z: "set (zip (al_domains (add_suffix suffix apex s)) (al_apex_ok (add_suffix suffix apex s))) =
      insert (suffix, apex) (set (zip (al_domains s) (al_apex_ok s)))"
    using l by (simp add: a)
  show ?thesis
    using ok' unfolding table_grants_set [OF ok'] table_grants_set [OF ok] z by blast
next
  case (Some i)
  then have a: "add_suffix suffix apex s = s\<lparr>al_apex_ok := (al_apex_ok s)[i := (al_apex_ok s ! i \<or> apex)]\<rparr>"
    and i: "i < length (al_domains s)" "al_domains s ! i = suffix"
    by (simp_all add: add_suffix_def position_of_Some)
  have ok': "table_ok (add_suffix suffix apex s)" using ok by (simp add: table_ok_def a)
  have l: "length (al_apex_ok s) = length (al_domains s)" using ok by (simp add: table_ok_def)
  show ?thesis
    using ok' l i unfolding table_grants_iff [OF ok'] table_grants_iff [OF ok]
    by (auto simp: a nth_list_update split: if_splits)
qed

lemma push_domain_cases:
  obtains (skip) "push_domain raw s = s" "\<And>host. \<not> entry_grants raw host"
  | (add) suffix apex where "push_domain raw s = add_suffix suffix apex s" "suffix \<noteq> []"
      "\<And>host. entry_grants raw host \<longleftrightarrow> (host = suffix \<and> apex) \<or> below suffix host"
proof (cases "strip_prefix [42, 46] (normal_entry raw)")
  case None
  show ?thesis
  proof (cases "normal_entry raw = []")
    case True
    then show ?thesis by (intro skip) (simp_all add: push_domain_def normal_entry_def [symmetric] entry_grants_def)
  next
    case False
    with None show ?thesis
      by (intro add [of "normal_entry raw" True])
        (simp_all add: push_domain_def normal_entry_def [symmetric] entry_grants_def add_suffix_def Let_def)
  qed
next
  case (Some bare)
  then have ne: "normal_entry raw \<noteq> []" by auto
  show ?thesis
  proof (cases "bare = []")
    case True
    with Some ne show ?thesis
      by (intro skip) (simp_all add: push_domain_def normal_entry_def [symmetric] entry_grants_def below_def Let_def)
  next
    case False
    with Some ne show ?thesis
      by (intro add [of bare False])
        (simp_all add: push_domain_def normal_entry_def [symmetric] entry_grants_def add_suffix_def Let_def)
  qed
qed

lemma push_domain_grants:
  assumes "table_ok s"
  shows "table_ok (push_domain raw s) \<and> (table_grants (push_domain raw s) host \<longleftrightarrow> table_grants s host \<or> entry_grants raw host)"
proof (cases rule: push_domain_cases [of raw s])
  case skip
  then show ?thesis using assms by simp
next
  case (add suffix apex)
  then show ?thesis using add_suffix_grants [OF assms add(2)] by simp
qed

lemma push_domains_grants:
  "table_ok s \<Longrightarrow> table_ok (fold push_domain ds s) \<and>
     (table_grants (fold push_domain ds s) host \<longleftrightarrow> table_grants s host \<or> (\<exists>d \<in> set ds. entry_grants d host))"
proof (induction ds arbitrary: s)
  case (Cons d ds)
  then show ?case using push_domain_grants [of s d host] push_domain_grants [of s d] by auto
qed simp

lemma push_cidr_domains [simp]:
  "al_domains (push_cidr c s) = al_domains s" "al_apex_ok (push_cidr c s) = al_apex_ok s"
  by (simp_all add: push_cidr_def split: option.split)

lemma push_cidrs_domains [simp]:
  "al_domains (fold push_cidr cs s) = al_domains s" "al_apex_ok (fold push_cidr cs s) = al_apex_ok s"
  by (induction cs arbitrary: s) simp_all

lemma table_cong:
  "al_domains s = al_domains t \<Longrightarrow> al_apex_ok s = al_apex_ok t \<Longrightarrow> table_ok s = table_ok t \<and> table_grants s = table_grants t"
  by (simp add: table_ok_def table_grants_def fun_eq_iff)

lemma push_preset_grants:
  assumes "table_ok s"
  shows "table_ok (push_preset p s) \<and>
    (table_grants (push_preset p s) host \<longleftrightarrow> table_grants s host \<or> (\<exists>d \<in> set (preset_domains p). entry_grants d host))"
  using push_domains_grants [OF assms, of "preset_domains p" host]
    table_cong [of "push_preset p s" "fold push_domain (preset_domains p) s"]
  by (simp add: push_preset_def)

lemma push_presets_grants:
  "table_ok s \<Longrightarrow> table_ok (fold push_preset ps s) \<and>
     (table_grants (fold push_preset ps s) host \<longleftrightarrow>
       table_grants s host \<or> (\<exists>p \<in> set ps. \<exists>d \<in> set (preset_domains p). entry_grants d host))"
proof (induction ps arbitrary: s)
  case (Cons p ps)
  then show ?case using push_preset_grants [of s p host] push_preset_grants [of s p] by auto
qed simp

lemma build_allow_grants:
  "table_ok (build_allow ps ds cs) \<and>
   (table_grants (build_allow ps ds cs) host \<longleftrightarrow>
     (\<exists>p \<in> set ps. \<exists>d \<in> set (preset_domains p). entry_grants d host) \<or> (\<exists>d \<in> set ds. entry_grants d host))"
proof -
  have e: "table_ok empty_allow" "\<not> table_grants empty_allow host"
    by (simp_all add: empty_allow_def table_ok_def table_grants_def)
  note p = push_presets_grants [OF e(1), of ps]
  have "table_ok (fold push_preset ps empty_allow)" using p by blast
  note d = push_domains_grants [OF this, of ds host]
  show ?thesis
    using p [of host] d e(2)
      table_cong [of "build_allow ps ds cs" "fold push_domain ds (fold push_preset ps empty_allow)"]
    by (simp add: build_allow_def)
qed

text \<open>CIDR masks.\<close>

lemma masked_eq_drop:
  fixes a b m :: "'a::len word"
  assumes m: "\<And>n. bit m n \<longleftrightarrow> k \<le> n \<and> n < LENGTH('a)"
  shows "a AND m = b AND m \<longleftrightarrow> drop_bit k a = drop_bit k b"
proof -
  have "a AND m = b AND m \<longleftrightarrow> (\<forall>n. k \<le> n \<longrightarrow> bit a n = bit b n)"
    by (auto simp: bit_eq_iff bit_simps m dest: bit_imp_le_length)
  also have "\<dots> \<longleftrightarrow> (\<forall>j. bit a (k + j) = bit b (k + j))"
    by (auto simp: le_iff_add)
  also have "\<dots> \<longleftrightarrow> (\<forall>j. bit (drop_bit k a) j = bit (drop_bit k b) j)"
    by (simp only: bit_drop_bit_eq comp_def)
  also have "\<dots> \<longleftrightarrow> drop_bit k a = drop_bit k b"
    by (auto intro: bit_eqI)
  finally show ?thesis .
qed

lemma mask_v4_eq: "p \<le> 32 \<Longrightarrow> a AND mask_v4 p = b AND mask_v4 p \<longleftrightarrow> drop_bit (32 - p) a = drop_bit (32 - p) b"
  by (rule masked_eq_drop) (auto simp: mask_v4_def bit_simps)

lemma mask_v6_eq: "p \<le> 128 \<Longrightarrow> a AND mask_v6 p = b AND mask_v6 p \<longleftrightarrow> drop_bit (128 - p) a = drop_bit (128 - p) b"
  by (rule masked_eq_drop) (auto simp: mask_v6_def bit_simps)

text \<open>
  What a network's text means, without masks: an address and a prefix length no longer than the address;
  it covers the addresses of its own family that agree with it on the leading \<open>p\<close> bits.
\<close>

definition prefix_value :: "rstr option \<Rightarrow> nat \<Rightarrow> nat option" where
  "prefix_value p w =
     (case p of
        None \<Rightarrow> Some w
      | Some t \<Rightarrow> (case parse_uint 255 t of None \<Rightarrow> None | Some n \<Rightarrow> if n \<le> w then Some n else None))"

definition cidr_text :: "rstr \<Rightarrow> (ip_addr \<times> nat) option" where
  "cidr_text s =
     (let (addr, p) = (case split_once 47 s of Some (a, p) \<Rightarrow> (a, Some p) | None \<Rightarrow> (s, None)) in
      case parse_ip addr of
        None \<Rightarrow> None
      | Some (V4 a) \<Rightarrow> map_option (Pair (V4 a)) (prefix_value p 32)
      | Some (V6 a) \<Rightarrow> map_option (Pair (V6 a)) (prefix_value p 128))"

fun same_prefix :: "nat \<Rightarrow> ip_addr \<Rightarrow> ip_addr \<Rightarrow> bool" where
  "same_prefix p (V4 a) (V4 b) = (drop_bit (32 - p) a = drop_bit (32 - p) b)"
| "same_prefix p (V6 a) (V6 b) = (drop_bit (128 - p) a = drop_bit (128 - p) b)"
| "same_prefix p _ _ = False"

definition covers :: "rstr \<Rightarrow> ip_addr \<Rightarrow> bool" where
  "covers s ip = (case cidr_text s of None \<Rightarrow> False | Some (a, p) \<Rightarrow> same_prefix p a ip)"

lemma parse_cidr_covers:
  "(case parse_cidr s of None \<Rightarrow> False | Some c \<Rightarrow> cidr_contains c ip) \<longleftrightarrow> covers s ip"
  by (cases ip)
    (auto simp: parse_cidr_def covers_def cidr_text_def prefix_value_def mask_v4_eq mask_v6_eq
       split: option.split ip_addr.split prod.split)

lemma push_cidr_covers:
  "(\<exists>c \<in> set (al_cidrs (push_cidr t s)). cidr_contains c ip) \<longleftrightarrow>
     (\<exists>c \<in> set (al_cidrs s). cidr_contains c ip) \<or> covers t ip"
  using parse_cidr_covers [where s = t and ip = ip] by (auto simp: push_cidr_def split: option.splits)

lemma push_cidrs_covers:
  "(\<exists>c \<in> set (al_cidrs (fold push_cidr ts s)). cidr_contains c ip) \<longleftrightarrow>
     (\<exists>c \<in> set (al_cidrs s). cidr_contains c ip) \<or> (\<exists>t \<in> set ts. covers t ip)"
proof (induction ts arbitrary: s)
  case (Cons t ts)
  show ?case unfolding fold_simps comp_apply Cons.IH push_cidr_covers by simp
qed simp

lemma push_domain_cidrs [simp]: "al_cidrs (push_domain d s) = al_cidrs s"
  by (simp add: push_domain_def Let_def split: option.split prod.split)

lemma push_domains_cidrs [simp]: "al_cidrs (fold push_domain ds s) = al_cidrs s"
  by (induction ds arbitrary: s) simp_all

lemma push_preset_covers:
  "(\<exists>c \<in> set (al_cidrs (push_preset p s)). cidr_contains c ip) \<longleftrightarrow>
     (\<exists>c \<in> set (al_cidrs s). cidr_contains c ip) \<or> (\<exists>t \<in> set (preset_cidrs p). covers t ip)"
  unfolding push_preset_def push_cidrs_covers by simp

lemma push_presets_covers:
  "(\<exists>c \<in> set (al_cidrs (fold push_preset ps s)). cidr_contains c ip) \<longleftrightarrow>
     (\<exists>c \<in> set (al_cidrs s). cidr_contains c ip) \<or> (\<exists>p \<in> set ps. \<exists>t \<in> set (preset_cidrs p). covers t ip)"
proof (induction ps arbitrary: s)
  case (Cons p ps)
  show ?case unfolding fold_simps comp_apply Cons.IH push_preset_covers by simp
qed simp

lemma ip_allowed_iff:
  "ip_allowed (build_allow ps ds cs) ip \<longleftrightarrow>
     (\<exists>p \<in> set ps. \<exists>t \<in> set (preset_cidrs p). covers t ip) \<or> (\<exists>t \<in> set cs. covers t ip)"
proof -
  have "ip_allowed (build_allow ps ds cs) ip \<longleftrightarrow> (\<exists>c \<in> set (al_cidrs (build_allow ps ds cs)). cidr_contains c ip)"
    by (simp add: ip_allowed_def list_ex_iff)
  then show ?thesis
    unfolding build_allow_def push_cidrs_covers push_domains_cidrs push_presets_covers
    by (simp add: empty_allow_def)
qed

text \<open>The host a target names: the text before the last colon, without trailing dots, in lower case.\<close>

definition host_of_target :: "rstr \<Rightarrow> rstr" where
  "host_of_target target =
     to_ascii_lowercase (trim_end_matches 46 (case rsplit_once 58 target of None \<Rightarrow> target | Some (h, _) \<Rightarrow> h))"

lemma host_allowed_cases:
  "host_allowed (to_allow_set c) target \<longleftrightarrow> host_of_target target \<noteq> [] \<and>
     (case parse_ip (host_of_target target) of
        Some ip \<Rightarrow> (\<exists>p \<in> set (ac_presets c). \<exists>t \<in> set (preset_cidrs p). covers t ip) \<or> (\<exists>t \<in> set (ac_cidrs c). covers t ip)
      | None \<Rightarrow> (\<exists>p \<in> set (ac_presets c). \<exists>d \<in> set (preset_domains p). entry_grants d (host_of_target target)) \<or>
                (\<exists>d \<in> set (ac_domains c). entry_grants d (host_of_target target)))"
  unfolding host_allowed_def to_allow_set_def Let_def host_of_target_def [symmetric]
  using build_allow_grants [of "ac_presets c" "ac_domains c" "ac_cidrs c" "host_of_target target"]
  by (simp add: ip_allowed_iff table_grants_def split: option.split)

lemmas read_groups_numeral [simp] = read_groups.simps(2) [of "pred_numeral k" for k, folded numeral_eq_Suc]

lemma replicate_numeral_eq: "replicate (numeral k) x = x # replicate (pred_numeral k) x"
  by (simp add: numeral_eq_Suc)

lemmas net_eval = rust_simps parse_ip_def read_v4_def read_v6_def read_octet_def read_number_def digit_value_def
  read_sep_def groups_value_def covers_def cidr_text_def prefix_value_def parse_uint_def parse_digits_def
  digits_value_def Let_def replicate_numeral_eq

section \<open>Properties\<close>

text \<open>C35 The policy decision is the union of its entries: with the port and trailing dots dropped and case
  aside, a literal address gets through exactly when some network given (in a preset or by the user)
  covers it on its leading bits, and a name gets through exactly when some domain entry is that name or a
  parent at a label boundary. The order of the entries and the de-duplicated table do not matter; an
  unparsable network grants nothing; a name that only ends in an entry does not get through.\<close>

theorem host_allowed_iff_granted:
  "host_allowed (to_allow_set c) target \<longleftrightarrow> host_of_target target \<noteq> [] \<and>
     (case parse_ip (host_of_target target) of
        Some ip \<Rightarrow> (\<exists>p \<in> set (ac_presets c). \<exists>t \<in> set (preset_cidrs p). covers t ip) \<or> (\<exists>t \<in> set (ac_cidrs c). covers t ip)
      | None \<Rightarrow> (\<exists>p \<in> set (ac_presets c). \<exists>d \<in> set (preset_domains p). entry_grants d (host_of_target target)) \<or>
                (\<exists>d \<in> set (ac_domains c). entry_grants d (host_of_target target)))"
  by (rule host_allowed_cases)

text \<open>A bare IPv6 literal as a target: \<^verbatim>\<open>host_allowed\<close> cuts it at its last colon as if that began a port, so
  the address is never matched against the networks, and Cloudflare's own address is refused under the
  Cloudflare preset although the same allow-set covers it (bracketed literals fare no better). The
  same address in IPv4 is let through with and without a port.\<close>

theorem ipv6_literal_refused:
  "parse_ip (lit ''2606:4700::1111'') = Some (V6 50543257672059871404715951523469725969) \<and>
   ip_allowed (to_allow_set \<lparr>ac_presets = [Cloudflare], ac_domains = [], ac_cidrs = []\<rparr>)
     (V6 50543257672059871404715951523469725969) \<and>
   \<not> host_allowed (to_allow_set \<lparr>ac_presets = [Cloudflare], ac_domains = [], ac_cidrs = []\<rparr>) (lit ''2606:4700::1111'') \<and>
   \<not> host_allowed (to_allow_set \<lparr>ac_presets = [Cloudflare], ac_domains = [], ac_cidrs = []\<rparr>) (lit ''[2606:4700::1111]:443'') \<and>
   host_allowed (to_allow_set \<lparr>ac_presets = [Cloudflare], ac_domains = [], ac_cidrs = []\<rparr>) (lit ''104.16.0.9'') \<and>
   host_allowed (to_allow_set \<lparr>ac_presets = [Cloudflare], ac_domains = [], ac_cidrs = []\<rparr>) (lit ''104.16.0.9:443'')"
proof -
  let ?c = "\<lparr>ac_presets = [Cloudflare], ac_domains = [], ac_cidrs = []\<rparr> :: allow_config"
  have v6: "covers (lit ''2606:4700::/32'') (V6 50543257672059871404715951523469725969)"
    by (simp add: net_eval)
  have v4: "covers (lit ''104.16.0.0/13'') (V4 1745879049)"
    by (simp add: net_eval)
  have in6: "lit ''2606:4700::/32'' \<in> set (preset_cidrs Cloudflare)" and in4: "lit ''104.16.0.0/13'' \<in> set (preset_cidrs Cloudflare)"
    by (simp_all add: cloudflare_cidrs_def)
  have p6: "parse_ip (lit ''2606:4700::1111'') = Some (V6 50543257672059871404715951523469725969)"
    and p4: "parse_ip (lit ''104.16.0.9'') = Some (V4 1745879049)"
    and c6: "parse_ip (lit ''2606:4700:'') = None" and b6: "parse_ip (lit ''[2606:4700::1111]'') = None"
    by (simp_all add: net_eval)
  have h6: "host_of_target (lit ''2606:4700::1111'') = lit ''2606:4700:''"
    and hb: "host_of_target (lit ''[2606:4700::1111]:443'') = lit ''[2606:4700::1111]''"
    and h4: "host_of_target (lit ''104.16.0.9'') = lit ''104.16.0.9''"
    and h4p: "host_of_target (lit ''104.16.0.9:443'') = lit ''104.16.0.9''"
    by (simp_all add: host_of_target_def rust_simps)
  have ip: "ip_allowed (to_allow_set ?c) (V6 50543257672059871404715951523469725969)"
    using v6 in6 by (auto simp: to_allow_set_def ip_allowed_iff simp del: preset_cidrs.simps)
  have ne: "lit ''104.16.0.9'' \<noteq> []" by (simp add: lit_def)
  have no: "\<not> host_allowed (to_allow_set ?c) (lit ''2606:4700::1111'')"
    "\<not> host_allowed (to_allow_set ?c) (lit ''[2606:4700::1111]:443'')"
    unfolding host_allowed_cases h6 hb c6 b6 by simp_all
  have yes: "host_allowed (to_allow_set ?c) (lit ''104.16.0.9'')" "host_allowed (to_allow_set ?c) (lit ''104.16.0.9:443'')"
    unfolding host_allowed_cases h4 h4p p4 using ne v4 in4 by auto
  show ?thesis using p6 ip no yes by simp
qed

end
