(* ===== verification/Http_Guards.thy ===== *)
theory Http_Guards
  imports Users Net_Policy
begin

text \<open>
  Who may call a server: the two readers of a request's credential (\<^verbatim>\<open>tab-atelier-api/src/guard.rs\<close>, \<^verbatim>\<open>auth.rs\<close>
  and the proxy's \<^verbatim>\<open>http/middleware/arrival.rs\<close>), the address a request counts for, the proxy's rules
  (\<^verbatim>\<open>http/guards.rs\<close>, \<^verbatim>\<open>http/middleware/admin_token.rs\<close>, \<^verbatim>\<open>user_key.rs\<close>) and the kiosk's
  (\<^verbatim>\<open>tab-atelier-kiosk/src/auth.rs\<close>), all under \<^verbatim>\<open>src/crates\<close>. Which names and values \<^verbatim>\<open>http\<close> takes as headers, the hash
  of a key and the text of an address are parameters.
\<close>

section \<open>Requests\<close>

text \<open>The headers in the order they came, each name compared without case; the query after \<^verbatim>\<open>?\<close>.\<close>

type_synonym headers = "(rstr \<times> rstr) list"

record request =
  rq_headers :: headers
  rq_query :: "rstr option"
  rq_peer :: "ip_addr option"

definition header_get :: "string \<Rightarrow> headers \<Rightarrow> rstr option" where
  "header_get name hs =
     map_option snd (find (\<lambda>(n, _). to_ascii_lowercase n = to_ascii_lowercase (lit name)) hs)"

subsection \<open>The shared reader\<close>

record presented =
  pr_header :: "rstr option"
  pr_bearer :: "rstr option"
  pr_query :: "rstr option"

definition presented_any :: "presented \<Rightarrow> rstr option" where
  "presented_any p =
     (case pr_header p of
        Some s \<Rightarrow> Some s
      | None \<Rightarrow> (case pr_bearer p of Some s \<Rightarrow> Some s | None \<Rightarrow> pr_query p))"

fun split_at_char :: "rchar \<Rightarrow> rstr \<Rightarrow> rstr list" where
  "split_at_char c [] = [[]]"
| "split_at_char c (x # xs) =
     (if x = c then [] # split_at_char c xs
      else (case split_at_char c xs of [] \<Rightarrow> [[x]] | y # ys \<Rightarrow> (x # y) # ys))"

text \<open>\<^verbatim>\<open>&\<close> is 38, \<^verbatim>\<open>=\<close> is 61, a space 32, \<^verbatim>\<open>,\<close> is 44.\<close>

definition presented_by :: "request \<Rightarrow> presented" where
  "presented_by rq =
     \<lparr>pr_header = header_get ''x-api-key'' (rq_headers rq),
      pr_bearer =
        (case Option.bind (header_get ''authorization'' (rq_headers rq)) (split_once 32) of
           Some (scheme, credentials) \<Rightarrow>
             if to_ascii_lowercase scheme = lit ''bearer'' then Some (trim credentials) else None
         | None \<Rightarrow> None),
      pr_query =
        Option.bind (rq_query rq)
          (\<lambda>q. map_option snd (find (\<lambda>(n, _). n = lit ''token'') (List.map_filter (split_once 61) (split_at_char 38 q))))\<rparr>"

subsection \<open>The proxy's reader\<close>

definition from_rocket :: "(rstr \<Rightarrow> bool) \<Rightarrow> (rstr \<Rightarrow> bool) \<Rightarrow> headers \<Rightarrow> headers" where
  "from_rocket ok_name ok_value hs = filter (\<lambda>(n, v). ok_name n \<and> ok_value v) hs"

definition header_of :: "headers \<Rightarrow> string \<Rightarrow> rstr option" where
  "header_of hs name =
     (case map_option trim (header_get name hs) of Some v \<Rightarrow> if v = [] then None else Some v | None \<Rightarrow> None)"

definition bearer_of :: "headers \<Rightarrow> rstr option" where
  "bearer_of hs =
     (case Option.bind (map_option trim (header_get ''authorization'' hs))
             (\<lambda>v. case strip_prefix (lit ''Bearer '') v of Some s \<Rightarrow> Some s | None \<Rightarrow> strip_prefix (lit ''bearer '') v) of
        Some s \<Rightarrow> if trim s = [] then None else Some (trim s)
      | None \<Rightarrow> None)"

definition arrival_presented :: "headers \<Rightarrow> rstr" where
  "arrival_presented hs =
     (case header_of hs ''x-api-key'' of
        Some v \<Rightarrow> v
      | None \<Rightarrow> (case bearer_of hs of Some v \<Rightarrow> v | None \<Rightarrow> []))"

subsection \<open>Where a request came from\<close>

definition near_v4 :: "32 word \<Rightarrow> bool" where
  "near_v4 w \<longleftrightarrow>
     drop_bit 24 w = 127 \<or>
     drop_bit 24 w = 10 \<or> drop_bit 20 w = 0xAC1 \<or> drop_bit 16 w = 0xC0A8 \<or>
     drop_bit 16 w = 0xA9FE"

fun is_trusted_hop :: "ip_addr \<Rightarrow> bool" where
  "is_trusted_hop (V4 w) = near_v4 w"
| "is_trusted_hop (V6 w) =
     (if drop_bit 32 w = 0xFFFF then near_v4 (ucast w)
      else w = 1 \<or> drop_bit 112 w AND 0xFE00 = 0xFC00 \<or> drop_bit 112 w AND 0xFFC0 = 0xFE80)"

definition unknown_peer :: ip_addr where
  "unknown_peer = V4 0x7F000001"

definition first_listed :: "string \<Rightarrow> headers \<Rightarrow> rstr option" where
  "first_listed name hs =
     (case map_option (\<lambda>v. trim (hd (split_at_char 44 v))) (header_get name hs) of
        Some v \<Rightarrow> if v = [] then None else Some v
      | None \<Rightarrow> None)"

definition client_ip :: "(ip_addr \<Rightarrow> rstr) \<Rightarrow> headers \<Rightarrow> ip_addr \<Rightarrow> rstr" where
  "client_ip ip_text hs peer =
     (if \<not> is_trusted_hop peer then ip_text peer
      else case first_listed ''x-real-ip'' hs of
             Some v \<Rightarrow> v
           | None \<Rightarrow> (case first_listed ''x-forwarded-for'' hs of Some v \<Rightarrow> v | None \<Rightarrow> ip_text peer))"

section \<open>The proxy's rules\<close>

datatype refusal_reason =
    NoValidKey
  | NoAdminToken
  | NoCredential
  | ThatIsAUserKey
  | PaddedToken
  | TokenMismatch
  | NoKioskToken
  | WrongKioskToken

definition refusal_status :: "refusal_reason \<Rightarrow> nat" where
  "refusal_status r = (case r of NoAdminToken \<Rightarrow> 503 | _ \<Rightarrow> 401)"

text \<open>The header and the bearer token, never the query.\<close>

definition offered_key :: "presented \<Rightarrow> rstr" where
  "offered_key p =
     (case pr_header p of Some s \<Rightarrow> s | None \<Rightarrow> (case pr_bearer p of Some s \<Rightarrow> s | None \<Rightarrow> []))"

definition authenticate_presented ::
    "(8 word list \<Rightarrow> 8 word list) \<Rightarrow> presented \<Rightarrow> 'p store \<Rightarrow> refusal_reason + 'p user \<times> rstr" where
  "authenticate_presented sha p st =
     (case authenticate_key sha (offered_key p) st of
        None \<Rightarrow> Inl NoValidKey
      | Some (u, k) \<Rightarrow> Inr (u, ky_id k))"

definition guard_token ::
    "(8 word list \<Rightarrow> 8 word list) \<Rightarrow> rstr \<Rightarrow> 'p store \<Rightarrow> rstr \<Rightarrow> refusal_reason option" where
  "guard_token sha admin_token st key =
     (if constant_time_eq (utf8 key) (utf8 admin_token) then None
      else Some (if key = [] then NoCredential
                 else if authenticate sha key st \<noteq> None then ThatIsAUserKey
                 else if trim key \<noteq> key then PaddedToken else TokenMismatch))"

definition allows_admin ::
    "(8 word list \<Rightarrow> 8 word list) \<Rightarrow> rstr \<Rightarrow> 'p store \<Rightarrow> presented \<Rightarrow> refusal_reason option" where
  "allows_admin sha admin_token st p =
     (if admin_token = [] then Some NoAdminToken else guard_token sha admin_token st (offered_key p))"

text \<open>The guard of an administrative route, and of a person's: the second stamps the key.\<close>

definition admin_guard ::
    "(8 word list \<Rightarrow> 8 word list) \<Rightarrow> rstr \<Rightarrow> 'p store \<Rightarrow> request \<Rightarrow> refusal_reason option" where
  "admin_guard sha admin_token st rq = allows_admin sha admin_token st (presented_by rq)"

record 'p proxy_io =
  px_sha :: "8 word list \<Rightarrow> 8 word list"
  px_enc :: "'p user list \<Rightarrow> rstr"
  px_save :: save_io
  px_now :: nat
  px_ip_text :: "ip_addr \<Rightarrow> rstr"
  px_ok_name :: "rstr \<Rightarrow> bool"
  px_ok_value :: "rstr \<Rightarrow> bool"

definition authenticate_and_stamp :: "'p proxy_io \<Rightarrow> rstr \<Rightarrow> rstr \<Rightarrow> 'p store \<Rightarrow> ('p user \<times> rstr) option \<times> 'p store" where
  "authenticate_and_stamp px key ip st =
     (case authenticate_presented (px_sha px) \<lparr>pr_header = Some key, pr_bearer = None, pr_query = None\<rparr> st of
        Inl _ \<Rightarrow> (None, st)
      | Inr (u, key_id) \<Rightarrow> (Some (u, key_id), touch_at (px_enc px) (px_save px) key_id (Some ip) None (px_now px) st))"

definition client_key_guard :: "'p proxy_io \<Rightarrow> request \<Rightarrow> 'p store \<Rightarrow> (refusal_reason + 'p user \<times> rstr) \<times> 'p store" where
  "client_key_guard px rq st =
     (let hs = from_rocket (px_ok_name px) (px_ok_value px) (rq_headers rq);
          peer = (case rq_peer rq of Some a \<Rightarrow> a | None \<Rightarrow> unknown_peer)
      in case authenticate_and_stamp px (arrival_presented hs) (client_ip (px_ip_text px) hs peer) st of
           (None, st') \<Rightarrow> (Inl NoValidKey, st')
         | (Some who, st') \<Rightarrow> (Inr who, st'))"

section \<open>The kiosk's rule\<close>

text \<open>\<^verbatim>\<open>tokens_match\<close>: every position of the longer one is looked at, a missing byte reads as zero.\<close>

definition byte_at :: "8 word list \<Rightarrow> nat \<Rightarrow> 8 word" where
  "byte_at bs i = (if i < length bs then bs ! i else 0)"

definition tokens_match :: "rstr \<Rightarrow> rstr \<Rightarrow> bool" where
  "tokens_match a b \<longleftrightarrow>
     (let x = utf8 a; y = utf8 b
      in fold (\<lambda>i diff. diff OR (byte_at x i XOR byte_at y i)) [0..<max (length x) (length y)]
           (if length x \<noteq> length y then 1 else 0) = 0)"

definition kiosk_authenticate :: "rstr option \<Rightarrow> presented \<Rightarrow> refusal_reason option" where
  "kiosk_authenticate token p =
     (case token of
        None \<Rightarrow> Some NoKioskToken
      | Some expected \<Rightarrow>
          (case presented_any p of
             Some given \<Rightarrow> if tokens_match given expected then None else Some WrongKioskToken
           | None \<Rightarrow> Some WrongKioskToken))"

text \<open>
  \<^verbatim>\<open>resolve_token\<close>: the environment, then the token file, then a fresh one whose writing may fail. The file read
  that fails is as if it were not there.
\<close>

definition resolve_token :: "rstr option \<Rightarrow> rstr option \<Rightarrow> rstr option \<Rightarrow> rstr option" where
  "resolve_token from_env existing fresh =
     (case map_option trim from_env of
        Some t \<Rightarrow> if t \<noteq> [] then Some t else
          (case map_option trim existing of Some e \<Rightarrow> if e \<noteq> [] then Some e else fresh | None \<Rightarrow> fresh)
      | None \<Rightarrow> (case map_option trim existing of Some e \<Rightarrow> if e \<noteq> [] then Some e else fresh | None \<Rightarrow> fresh))"

section \<open>Comparing tokens\<close>

lemma fold_or_zero:
  "fold (\<lambda>i diff. diff OR (f i XOR g i)) is d = 0 \<longleftrightarrow> d = 0 \<and> (\<forall>i \<in> set is. f i = (g i :: 8 word))"
  by (induction "is" arbitrary: d) (auto simp: or_eq_0_iff xor_zero)

lemma tokens_match_iff: "tokens_match a b \<longleftrightarrow> utf8 a = utf8 b"
proof -
  have "length x = length y \<and> (\<forall>i < max (length x) (length y). byte_at x i = byte_at y i) \<longleftrightarrow> x = y" for x y
    by (auto simp: byte_at_def list_eq_iff_nth_eq)
  then have eq: "length (utf8 a) = length (utf8 b) \<and>
      (\<forall>i < max (length (utf8 a)) (length (utf8 b)). byte_at (utf8 a) i = byte_at (utf8 b) i) \<longleftrightarrow> utf8 a = utf8 b" .
  have "tokens_match a b \<longleftrightarrow> length (utf8 a) = length (utf8 b) \<and>
      (\<forall>i < max (length (utf8 a)) (length (utf8 b)). byte_at (utf8 a) i = byte_at (utf8 b) i)"
    unfolding tokens_match_def Let_def fold_or_zero by (simp add: Ball_def del: max_less_iff_conj)
  then show ?thesis by (simp only: eq)
qed

section \<open>The credential of a request\<close>

definition live_key :: "'p store \<Rightarrow> rstr \<Rightarrow> 'p user \<Rightarrow> credential \<Rightarrow> bool" where
  "live_key st h u k \<longleftrightarrow>
     u \<in> set (st_accounts st) \<and> \<not> us_disabled u \<and> k \<in> set (us_keys u) \<and> key_active k \<and> ky_hash k = h"

lemma authenticate_key_live:
  assumes "store_ok st" "authenticate_key sha key st = Some (u, k)"
  shows "live_key st (hash_key sha key) u k"
  using authenticate_Some [OF assms] by (auto simp: live_key_def live_iff live_def dest!: spec)

lemma authenticate_key_exists:
  assumes "store_ok st"
  shows "(\<exists>who. authenticate_key sha key st = Some who) \<longleftrightarrow> (\<exists>u k. live_key st (hash_key sha key) u k)"
proof -
  have e: "authenticate sha key st \<noteq> None \<longleftrightarrow> (\<exists>u k. live_key st (hash_key sha key) u k)"
    unfolding authenticate_iff [OF assms] live_key_def by blast
  have "authenticate sha key st \<noteq> None \<longleftrightarrow> (\<exists>who. authenticate_key sha key st = Some who)"
    by (simp add: authenticate_def)
  then show ?thesis using e by simp
qed

lemma touch_ok: "store_ok st \<Longrightarrow> store_ok (touch_at enc io i ip c now st)"
  using user_step_ok [of st to_ascii_lowercase enc id io "Touch i ip c now"] by (simp add: user_step_def)

definition client_key :: "'p proxy_io \<Rightarrow> request \<Rightarrow> rstr" where
  "client_key px rq = arrival_presented (from_rocket (px_ok_name px) (px_ok_value px) (rq_headers rq))"

lemma client_key_guard_cases:
  "client_key_guard px rq st =
     (case authenticate_key (px_sha px) (client_key px rq) st of
        None \<Rightarrow> (Inl NoValidKey, st)
      | Some (u, k) \<Rightarrow>
          (Inr (u, ky_id k),
           touch_at (px_enc px) (px_save px) (ky_id k)
             (Some (client_ip (px_ip_text px) (from_rocket (px_ok_name px) (px_ok_value px) (rq_headers rq))
               (case rq_peer rq of Some a \<Rightarrow> a | None \<Rightarrow> unknown_peer))) None (px_now px) st))"
  by (simp add: client_key_guard_def authenticate_and_stamp_def authenticate_presented_def offered_key_def client_key_def Let_def
      split: option.splits prod.splits)

section \<open>Properties\<close>

text \<open>C21 A person's route is opened by exactly the live keys: the guard lets a request through when the key it presents in a
  header is an active one of an account that is not disabled, as that account and that key, and otherwise leaves the
  store as it was; and the store's index stays the accounts' own.\<close>

theorem client_key_guard_exact:
  assumes "store_ok st"
  shows "store_ok (snd (client_key_guard px rq st)) \<and>
    (case fst (client_key_guard px rq st) of
       Inl _ \<Rightarrow> snd (client_key_guard px rq st) = st \<and> (\<nexists>u k. live_key st (hash_key (px_sha px) (client_key px rq)) u k)
     | Inr (u, key_id) \<Rightarrow> \<exists>k. live_key st (hash_key (px_sha px) (client_key px rq)) u k \<and> ky_id k = key_id)"
proof (cases "authenticate_key (px_sha px) (client_key px rq) st")
  case None
  then have "\<nexists>u k. live_key st (hash_key (px_sha px) (client_key px rq)) u k"
    using authenticate_key_exists [OF assms] by (metis option.distinct(1))
  then show ?thesis using None assms by (simp add: client_key_guard_cases)
next
  case (Some p)
  obtain u k where p: "p = (u, k)" by (cases p)
  then have a: "authenticate_key (px_sha px) (client_key px rq) st = Some (u, k)" using Some by simp
  have "live_key st (hash_key (px_sha px) (client_key px rq)) u k" by (rule authenticate_key_live [OF assms a])
  then show ?thesis using touch_ok [OF assms] by (simp add: client_key_guard_cases a) blast
qed

text \<open>The operator's routes are opened by the configured token and nothing else: without one they answer 503 whatever is
  sent, and with one a request passes exactly when its \<^verbatim>\<open>x-api-key\<close> header, or its bearer token if it sends no such header,
  has the token's bytes; the query never counts.\<close>

theorem admin_guard_exact:
  "(admin_guard sha admin_token st rq = None \<longleftrightarrow> admin_token \<noteq> [] \<and> utf8 (offered_key (presented_by rq)) = utf8 admin_token) \<and>
   (admin_token = [] \<longleftrightarrow> admin_guard sha admin_token st rq = Some NoAdminToken) \<and>
   admin_guard sha admin_token st (rq\<lparr>rq_query := q\<rparr>) = admin_guard sha admin_token st rq"
proof -
  have "offered_key (presented_by (rq\<lparr>rq_query := q\<rparr>)) = offered_key (presented_by rq)"
  proof -
    have "pr_header (presented_by (rq\<lparr>rq_query := q\<rparr>)) = pr_header (presented_by rq)"
      "pr_bearer (presented_by (rq\<lparr>rq_query := q\<rparr>)) = pr_bearer (presented_by rq)"
      by (simp_all add: presented_by_def)
    then show ?thesis by (simp only: offered_key_def)
  qed
  then show ?thesis
    by (auto simp: admin_guard_def allows_admin_def guard_token_def constant_time_eq_iff split: if_splits)
qed

text \<open>The kiosk is opened by its token, in whichever place is read first, and without one by nobody; a token that comes from
  the environment or from its file is never empty.\<close>

theorem kiosk_opens_to_its_token:
  "(kiosk_authenticate token p = None \<longleftrightarrow>
      (\<exists>expected given. token = Some expected \<and> presented_any p = Some given \<and> utf8 given = utf8 expected)) \<and>
   (resolve_token from_env existing None \<noteq> Some [])"
proof -
  have "resolve_token from_env existing None \<noteq> Some []"
    by (auto simp: resolve_token_def split: option.splits if_splits)
  then show ?thesis by (auto simp: kiosk_authenticate_def tokens_match_iff split: option.splits if_splits)
qed

text \<open>A blank \<^verbatim>\<open>x-api-key\<close> header hides the bearer token from the shared reader and not from the proxy's: the same request is
  a person's with a valid key and an operator's with no credential; and a scheme in capitals is the other way round.\<close>

theorem readers_disagree:
  assumes "trim key = key" "key \<noteq> []" "32 \<notin> set key" "\<And>n. ok_name n" "\<And>v. ok_value v"
  shows "arrival_presented (from_rocket ok_name ok_value [(lit ''x-api-key'', []), (lit ''authorization'', lit ''Bearer '' @ key)]) = key \<and>
    offered_key (presented_by \<lparr>rq_headers = [(lit ''x-api-key'', []), (lit ''authorization'', lit ''Bearer '' @ key)], rq_query = q, rq_peer = p\<rparr>) = [] \<and>
    arrival_presented (from_rocket ok_name ok_value [(lit ''authorization'', lit ''BEARER '' @ key)]) = [] \<and>
    offered_key (presented_by \<lparr>rq_headers = [(lit ''authorization'', lit ''BEARER '' @ key)], rq_query = q, rq_peer = p\<rparr>) = key"
proof -
  have t: "trim (lit w @ key) = lit w @ key" if "w = ''Bearer '' \<or> w = ''BEARER ''" for w
  proof -
    have "trimmed key" using assms(1) trimmed_trim [of key] by simp
    then have "\<not> is_whitespace (last (lit w @ key))" using assms(2) by (simp add: trimmed_def)
    moreover have "hd (lit w @ key) = 66" using that by (elim disjE) (simp_all add: lit_def)
    moreover have "\<not> is_whitespace 66" by (simp add: is_whitespace_def)
    ultimately have "trimmed (lit w @ key)" by (simp only: trimmed_def) simp
    then show ?thesis by (rule trim_trimmed)
  qed
  have s: "split_once 32 (lit ''BEARER '' @ key) = Some (lit ''BEARER'', key)"
    by (simp add: split_once_Some lit_def)
  have p1: "strip_prefix (lit ''Bearer '') (lit ''Bearer '' @ key) = Some key" by (simp add: lit_def)
  have p2: "strip_prefix (lit ''Bearer '') (lit ''BEARER '' @ key) = None" "strip_prefix (lit ''bearer '') (lit ''BEARER '' @ key) = None"
    by (simp_all add: lit_def)
  have n: "to_ascii_lowercase (lit ''x-api-key'') = lit ''x-api-key''" "to_ascii_lowercase (lit ''authorization'') = lit ''authorization''"
    "lit ''x-api-key'' \<noteq> lit ''authorization''" "to_ascii_lowercase (lit ''BEARER'') = lit ''bearer''"
    by (simp_all add: to_ascii_lowercase_def lit_def)
  have e: "trim [] = []" by (simp add: trim_def trim_start_def trim_end_def)
  show ?thesis
    using assms t s p1 p2 n e
    by (simp add: arrival_presented_def from_rocket_def header_of_def bearer_of_def header_get_def offered_key_def presented_by_def)
qed

text \<open>A forwarding header counts only from a near peer: what any other peer writes into one changes nothing, neither who the
  request is nor the address the key is stamped with.\<close>

theorem far_peer_cannot_forward:
  assumes "\<not> is_trusted_hop peer"
  shows "client_ip ip_text hs peer = ip_text peer \<and> is_trusted_hop unknown_peer"
proof -
  have "drop_bit 24 (0x7F000001 :: 32 word) = 127" by (simp add: drop_bit_eq_div)
  then show ?thesis using assms by (simp add: client_ip_def unknown_peer_def near_v4_def)
qed

section \<open>Witnesses\<close>

definition sample_px :: "unit proxy_io" where
  "sample_px = \<lparr>px_sha = (\<lambda>b. [last b]), px_enc = account_enc, px_save = None, px_now = 7, px_ip_text = (\<lambda>_. []),
     px_ok_name = (\<lambda>_. True), px_ok_value = (\<lambda>_. True)\<rparr>"

definition sample_request :: request where
  "sample_request = \<lparr>rq_headers = [(lit ''X-Api-Key'', lit ''ka'')], rq_query = None, rq_peer = None\<rparr>"

lemma sample_store_ok: "store_ok sample_store"
  by (rule load_ok [OF sample_loads])

lemma sample_client_key: "client_key sample_px sample_request = lit ''ka''"
  by (simp add: client_key_def sample_px_def sample_request_def from_rocket_def arrival_presented_def header_of_def header_get_def
      to_ascii_lowercase_def trim_def trim_start_def trim_end_def is_whitespace_def lit_def)

theorem client_key_guard_exact_witness:
  "\<exists>u key_id. fst (client_key_guard sample_px sample_request sample_store) = Inr (u, key_id) \<and>
     (\<exists>k. live_key sample_store (lit ''61'') u k \<and> ky_id k = key_id)"
proof -
  have h: "hash_key (px_sha sample_px) (client_key sample_px sample_request) = lit ''61''"
    using key_sample_hash by (simp add: sample_client_key) (simp add: sample_px_def)
  have "live_key sample_store (lit ''61'') (sample_user [sample_credential ''desk'' ''61'', sample_credential ''bag'' ''62''])
      (sample_credential ''desk'' ''61'')"
    by (simp add: live_key_def account_sample_defs reindex_def key_active_def)
  then have live: "\<not> (\<nexists>u k. live_key sample_store (lit ''61'') u k)" by blast
  note g = client_key_guard_exact [OF sample_store_ok, of sample_px sample_request, unfolded h]
  show ?thesis
  proof (cases "fst (client_key_guard sample_px sample_request sample_store)")
    case (Inl e)
    then show ?thesis using g live by simp
  next
    case (Inr p)
    obtain u i where p: "p = (u, i)" by (cases p)
    have "\<exists>k. live_key sample_store (lit ''61'') u k \<and> ky_id k = i" using g by (simp add: Inr p)
    then show ?thesis using Inr p by blast
  qed
qed

theorem readers_disagree_witness:
  "arrival_presented (from_rocket (\<lambda>_. True) (\<lambda>_. True) [(lit ''x-api-key'', []), (lit ''authorization'', lit ''Bearer '' @ lit ''k1'')]) = lit ''k1'' \<and>
   offered_key (presented_by \<lparr>rq_headers = [(lit ''x-api-key'', []), (lit ''authorization'', lit ''Bearer '' @ lit ''k1'')], rq_query = None, rq_peer = None\<rparr>) = []"
proof -
  have "trim (lit ''k1'') = lit ''k1''" "lit ''k1'' \<noteq> []" "32 \<notin> set (lit ''k1'')"
    by (simp_all add: trim_def trim_start_def trim_end_def is_whitespace_def lit_def)
  then show ?thesis
    using readers_disagree [of "lit ''k1''" "\<lambda>_. True" "\<lambda>_. True" None None] by blast
qed

end
