(* ===== verification/Tool_Policy.thy ===== *)
theory Tool_Policy
  imports Compact
begin

text \<open>
  What tools a request keeps, \<^verbatim>\<open>src/crates/tab-atelier-proxy/src/tools.rs\<close>: an account's policy removes, orders, adds
  and rewords tool definitions. The byte scans of the sources look for ASCII only, so the model makes them on scalar values.
\<close>

section \<open>The policy\<close>

datatype tool_mode = ModeAll | ModeReferenced | ModeAllow | ModeNone

definition prunes :: "tool_mode \<Rightarrow> bool" where
  "prunes md \<longleftrightarrow> md \<noteq> ModeAll \<and> md \<noteq> ModeReferenced"

datatype normalise = DropDates | DropProvider | Replaced rstr rstr

text \<open>The rewrites are a \<^verbatim>\<open>BTreeMap\<close>, here its entries in order.\<close>

record tool_policy =
  tp_mode :: tool_mode
  tp_disable :: "rstr list"
  tp_allow :: "rstr list"
  tp_add :: "json list"
  tp_rewrite :: "(rstr \<times> normalise list) list"

datatype tool_refusal = Shadow rstr | Nameless

record tool_report =
  tr_mode :: tool_mode
  tr_offered :: nat
  tr_sent :: nat
  tr_pinned :: "rstr list"
  tr_removed :: "rstr list"
  tr_added :: nat
  tr_refused :: "tool_refusal list"
  tr_rewritten :: "rstr list"
  tr_local :: "rstr list"
  tr_cache_stripped :: bool

definition empty_report :: "tool_mode \<Rightarrow> tool_report" where
  "empty_report md =
     \<lparr>tr_mode = md, tr_offered = 0, tr_sent = 0, tr_pinned = [], tr_removed = [], tr_added = 0, tr_refused = [],
      tr_rewritten = [], tr_local = [], tr_cache_stripped = False\<rparr>"

definition report_changed :: "tool_report \<Rightarrow> bool" where
  "report_changed r \<longleftrightarrow>
     tr_removed r \<noteq> [] \<or> tr_added r > 0 \<or> tr_refused r \<noteq> [] \<or> tr_rewritten r \<noteq> [] \<or> tr_local r \<noteq> [] \<or> tr_cache_stripped r"

definition is_noop :: "tool_policy \<Rightarrow> bool" where
  "is_noop p \<longleftrightarrow> \<not> prunes (tp_mode p) \<and> tp_disable p = [] \<and> tp_add p = [] \<and> tp_rewrite p = []"

section \<open>Edits to a description\<close>

definition date_phrases :: "rstr list" where
  "date_phrases = map lit [''current month'', ''current date'', ''today'' @ CHR 0x27 # ''s date'', ''todays date'']"

definition provider_claims :: "rstr list" where
  "provider_claims = map lit [''us-only'', ''us only'', ''us-based'', ''us based'']"

definition months :: "rstr list" where
  "months = map lit [''january'', ''february'', ''march'', ''april'', ''may'', ''june'', ''july'', ''august'',
     ''september'', ''october'', ''november'', ''december'']"

definition contains_word :: "rstr \<Rightarrow> rstr \<Rightarrow> bool" where
  "contains_word hay needle =
     (if needle = [] \<or> length hay < length needle then False
      else list_ex (\<lambda>i. eq_ignore_ascii_case (take (length needle) (drop i hay)) needle \<and>
                        (i = 0 \<or> \<not> is_ascii_alphanumeric (hay ! (i - 1))) \<and>
                        (i + length needle = length hay \<or> \<not> is_ascii_alphanumeric (hay ! (i + length needle))))
                   [0..<Suc (length hay - length needle)])"

definition names_month :: "rstr \<Rightarrow> bool" where
  "names_month txt = list_ex (contains_word txt) months"

text \<open>A run of digits is read whole; a year is one of exactly four.\<close>

function has_year :: "rstr \<Rightarrow> bool" where
  "has_year s =
     (case s of
        [] \<Rightarrow> False
      | c # cs \<Rightarrow>
          if \<not> is_ascii_digit c then has_year cs
          else (let run = takeWhile is_ascii_digit s
                in if length run = 4 \<and> 1900 \<le> digits_value run \<and> digits_value run \<le> 2999 then True
                   else has_year (dropWhile is_ascii_digit s)))"
  by pat_completeness auto
termination
  by (relation "measure length") (auto simp: le_imp_less_Suc length_dropWhile_le)

declare has_year.simps [simp del]

definition claims_date :: "rstr \<Rightarrow> bool" where
  "claims_date sentence =
     (let lower = to_ascii_lowercase sentence
      in if list_ex (str_contains lower) date_phrases then True
         else names_month sentence \<and> has_year sentence)"

definition claims_provider :: "rstr \<Rightarrow> bool" where
  "claims_provider sentence = (let lower = to_ascii_lowercase sentence in list_ex (str_contains lower) provider_claims)"

text \<open>A sentence ends after a full stop and the spaces behind it.\<close>

function split_sentences :: "rstr \<Rightarrow> rstr list" where
  "split_sentences line =
     (if line = [] then []
      else (let body = takeWhile (\<lambda>c. c \<noteq> 46) line; rest = drop (length body) line
            in if rest = [] then [line]
               else (let gap = takeWhile (\<lambda>c. c = 32) (tl rest)
                     in (body @ [46] @ gap) # split_sentences (drop (length gap) (tl rest)))))"
  by pat_completeness auto
termination
  by (relation "measure length") (auto simp: Let_def length_greater_0_conv)

declare split_sentences.simps [simp del]

text \<open>\<^verbatim>\<open>split_inclusive\<close> and \<^verbatim>\<open>strip_suffix\<close> at the line feed: a line and its break.\<close>

definition line_and_break :: "rstr \<Rightarrow> rstr \<times> rstr" where
  "line_and_break chunk = (if chunk \<noteq> [] \<and> last chunk = 10 then (butlast chunk, [10]) else (chunk, []))"

fun collapse_lines :: "nat \<Rightarrow> rstr list \<Rightarrow> rstr" where
  "collapse_lines blanks [] = []"
| "collapse_lines blanks (chunk # chunks) =
     (let (line, newline) = line_and_break chunk; line = trim_end line
      in if line = []
         then (if blanks + 1 > 1 then collapse_lines (blanks + 1) chunks
               else line @ newline @ collapse_lines (blanks + 1) chunks)
         else line @ newline @ collapse_lines 0 chunks)"

definition collapse :: "rstr \<Rightarrow> rstr" where
  "collapse txt = collapse_lines 0 (split_inclusive_nl [] txt)"

definition prune_line :: "(rstr \<Rightarrow> bool) \<Rightarrow> rstr \<Rightarrow> rstr" where
  "prune_line claimed chunk =
     (let (line, newline) = line_and_break chunk
      in concat (filter (\<lambda>s. \<not> claimed s) (split_sentences line)) @ newline)"

definition prune_sentences :: "rstr \<Rightarrow> (rstr \<Rightarrow> bool) \<Rightarrow> rstr" where
  "prune_sentences txt claimed =
     (let chunks = split_inclusive_nl [] txt;
          dropped = list_ex (\<lambda>chunk. list_ex claimed (split_sentences (fst (line_and_break chunk)))) chunks
      in if \<not> dropped then txt else collapse (concat (map (prune_line claimed) chunks)))"

text \<open>\<^verbatim>\<open>str::replace\<close> for a phrase that is not empty.\<close>

function str_replace :: "rstr \<Rightarrow> rstr \<Rightarrow> rstr \<Rightarrow> rstr" where
  "str_replace pat rep s =
     (case s of
        [] \<Rightarrow> []
      | c # cs \<Rightarrow>
          if pat \<noteq> [] \<and> starts_with s pat then rep @ str_replace pat rep (drop (length pat) s)
          else c # str_replace pat rep cs)"
  by pat_completeness auto
termination
  by (relation "measure (\<lambda>(_, _, s). length s)") (auto simp: length_greater_0_conv)

declare str_replace.simps [simp del]

definition normalise_run :: "normalise \<Rightarrow> rstr \<Rightarrow> rstr option" where
  "normalise_run rule description =
     (case rule of
        DropDates \<Rightarrow> (let p = prune_sentences description claims_date in if p = description then None else Some p)
      | DropProvider \<Rightarrow> (let p = prune_sentences description claims_provider in if p = description then None else Some p)
      | Replaced pat rep \<Rightarrow>
          if pat = [] \<or> \<not> str_contains description pat then None
          else (let next = str_replace pat rep description in if next = description then None else Some next))"

section \<open>Validation\<close>

datatype policy_refusal = UnnamedEntry rstr | UnnamedAdd | UnnamedRewrite | CaseCollision rstr | EmptyFind rstr

definition first_of :: "('a \<Rightarrow> 'e option) \<Rightarrow> 'a list \<Rightarrow> 'e option" where
  "first_of f xs = (case filter (\<lambda>x. f x \<noteq> None) xs of [] \<Rightarrow> None | x # _ \<Rightarrow> f x)"

definition rewrite_refusal :: "tool_policy \<Rightarrow> rstr \<times> normalise list \<Rightarrow> policy_refusal option" where
  "rewrite_refusal p entry =
     (let (tool, rules) = entry
      in if trim tool = [] then Some UnnamedRewrite
         else if length (filter (\<lambda>other. eq_ignore_ascii_case other tool) (map fst (tp_rewrite p))) > 1
         then Some (CaseCollision tool)
         else if list_ex (\<lambda>rule. case rule of Replaced pat _ \<Rightarrow> pat = [] | _ \<Rightarrow> False) rules then Some (EmptyFind tool)
         else None)"

definition tool_name :: "json \<Rightarrow> rstr option" where
  "tool_name tool = as_str (json_get (lit ''name'') tool)"

definition validate_policy :: "tool_policy \<Rightarrow> policy_refusal option" where
  "validate_policy p =
     (case first_of (\<lambda>name. if trim name = [] then Some (UnnamedEntry name) else None) (tp_disable p @ tp_allow p) of
        Some e \<Rightarrow> Some e
      | None \<Rightarrow>
          (case first_of (\<lambda>entry. case tool_name entry of
                                     None \<Rightarrow> Some UnnamedAdd
                                   | Some n \<Rightarrow> if trim n = [] then Some UnnamedAdd else None) (tp_add p) of
             Some e \<Rightarrow> Some e
           | None \<Rightarrow> first_of (rewrite_refusal p) (tp_rewrite p)))"

section \<open>Applying it\<close>

definition always_kept :: "rstr list" where
  "always_kept = [lit ''ToolSearch'']"

definition cloudflare_ips :: rstr where
  "cloudflare_ips = lit ''cloudflare_ips''"

definition is_local :: "rstr \<Rightarrow> bool" where
  "is_local name \<longleftrightarrow> eq_ignore_ascii_case name cloudflare_ips"

definition keep_by_mode :: "tool_policy \<Rightarrow> rstr \<Rightarrow> bool" where
  "keep_by_mode p name =
     (case tp_mode p of
        ModeAll \<Rightarrow> True
      | ModeReferenced \<Rightarrow> True
      | ModeAllow \<Rightarrow> name \<in> set (tp_allow p)
      | ModeNone \<Rightarrow> name \<in> set (tp_allow p))"

definition called_name :: "json \<Rightarrow> rstr list" where
  "called_name b =
     (if block_type b \<noteq> Some (lit ''tool_use'') then []
      else case as_str (json_get (lit ''name'') b) of Some n \<Rightarrow> [n] | None \<Rightarrow> [])"

definition referenced_names :: "json \<Rightarrow> rstr set" where
  "referenced_names body =
     set (concat (map (\<lambda>m. case blocks m of None \<Rightarrow> [] | Some bs \<Rightarrow> concat (map called_name bs)) (body_messages body)))"

definition forced_name :: "json \<Rightarrow> rstr option" where
  "forced_name body =
     (case json_get (lit ''tool_choice'') body of
        None \<Rightarrow> None
      | Some choice \<Rightarrow>
          if block_type choice \<noteq> Some (lit ''tool'') then None
          else case as_str (json_get (lit ''name'') choice) of
                 Some n \<Rightarrow> if n \<noteq> [] then Some n else None
               | None \<Rightarrow> None)"

text \<open>One offered tool, with what was sent and reported so far.\<close>

definition consider_tool ::
    "tool_policy \<Rightarrow> rstr set \<Rightarrow> json \<Rightarrow> json list \<times> tool_report \<Rightarrow> json list \<times> tool_report" where
  "consider_tool p keep tool acc =
     (let (sent, r) = acc
      in case tool_name tool of
           None \<Rightarrow> (sent @ [tool], r)
         | Some name \<Rightarrow>
             (let protected = (name \<in> set always_kept \<or> name \<in> keep);
                  wanted = (keep_by_mode p name \<and> name \<notin> set (tp_disable p))
              in if wanted \<or> protected
                 then (sent @ [tool], if \<not> wanted then r\<lparr>tr_pinned := tr_pinned r @ [name]\<rparr> else r)
                 else (sent, r\<lparr>tr_removed := tr_removed r @ [name]\<rparr>)))"

fun slot_of :: "rstr \<Rightarrow> rstr list \<Rightarrow> nat option" where
  "slot_of x [] = None"
| "slot_of x (y # ys) = (if x = y then Some 0 else map_option Suc (slot_of x ys))"

definition allow_rank :: "tool_policy \<Rightarrow> json \<Rightarrow> nat" where
  "allow_rank p tool =
     (case Option.bind (tool_name tool) (\<lambda>name. slot_of name (tp_allow p)) of Some i \<Rightarrow> i | None \<Rightarrow> u64_max)"

definition rules_for :: "tool_policy \<Rightarrow> rstr \<Rightarrow> normalise list option" where
  "rules_for p name =
     (case filter (\<lambda>(key, _). eq_ignore_ascii_case key name) (tp_rewrite p) of [] \<Rightarrow> None | (_, rules) # _ \<Rightarrow> Some rules)"

fun run_rules :: "normalise list \<Rightarrow> rstr \<times> bool \<Rightarrow> rstr \<times> bool" where
  "run_rules [] acc = acc"
| "run_rules (rule # rules) (txt, edited) =
     run_rules rules (case normalise_run rule txt of Some next \<Rightarrow> (next, True) | None \<Rightarrow> (txt, edited))"

definition rewrite_tool :: "tool_policy \<Rightarrow> json \<Rightarrow> json \<times> rstr list" where
  "rewrite_tool p tool =
     (case tool_name tool of
        None \<Rightarrow> (tool, [])
      | Some name \<Rightarrow>
          (case rules_for p name of
             None \<Rightarrow> (tool, [])
           | Some rules \<Rightarrow>
               (case as_str (json_get (lit ''description'') tool) of
                  None \<Rightarrow> (tool, [])
                | Some description \<Rightarrow>
                    (case run_rules rules (description, False) of
                       (txt, True) \<Rightarrow> (set_field (lit ''description'') (JStr txt) tool, [name])
                     | (_, False) \<Rightarrow> (tool, [])))))"

definition apply_rewrites :: "tool_policy \<Rightarrow> json list \<Rightarrow> tool_report \<Rightarrow> json list \<times> tool_report" where
  "apply_rewrites p sent r =
     (map (fst \<circ> rewrite_tool p) sent, r\<lparr>tr_rewritten := tr_rewritten r @ concat (map (snd \<circ> rewrite_tool p) sent)\<rparr>)"

definition strip_one :: "json \<Rightarrow> json" where
  "strip_one tool = (case tool of JObj m \<Rightarrow> JObj (filter (\<lambda>(k, _). k \<noteq> lit ''cache_control'') m) | _ \<Rightarrow> tool)"

definition add_tool :: "rstr set \<Rightarrow> bool \<Rightarrow> json \<Rightarrow> (json list \<times> rstr set) \<times> tool_report \<Rightarrow> (json list \<times> rstr set) \<times> tool_report" where
  "add_tool client_names strip_marks tool acc =
     (let ((sent, seen), r) = acc
      in case tool_name tool of
           None \<Rightarrow> ((sent, seen), r\<lparr>tr_refused := tr_refused r @ [Nameless]\<rparr>)
         | Some name \<Rightarrow>
             if is_local name then ((sent, seen), r\<lparr>tr_local := tr_local r @ [name]\<rparr>)
             else if name \<in> client_names \<or> name \<in> seen then ((sent, seen), r\<lparr>tr_refused := tr_refused r @ [Shadow name]\<rparr>)
             else ((sent @ [if strip_marks then strip_one tool else tool], insert name seen),
                   r\<lparr>tr_added := tr_added r + 1\<rparr>))"

definition tool_names :: "json list \<Rightarrow> rstr list" where
  "tool_names tools = concat (map (\<lambda>t. case tool_name t of Some n \<Rightarrow> [n] | None \<Rightarrow> []) tools)"

definition reject_and_append ::
    "json list \<Rightarrow> json list \<Rightarrow> rstr set \<Rightarrow> bool \<Rightarrow> tool_report \<Rightarrow> json list \<times> tool_report" where
  "reject_and_append sent incoming client_names strip_marks r =
     (let ((sent, _), r) = fold (add_tool client_names strip_marks) incoming ((sent, set (tool_names sent)), r)
      in (sent, r))"

text \<open>
  \<^verbatim>\<open>body["tools"] = v\<close>: an object gets the field, \<^verbatim>\<open>null\<close> becomes an object, anything else panics.
\<close>

definition index_set :: "rstr \<Rightarrow> json \<Rightarrow> json \<Rightarrow> json option" where
  "index_set k x v =
     (case v of JObj _ \<Rightarrow> Some (set_field k x v) | JNull \<Rightarrow> Some (JObj [(k, x)]) | _ \<Rightarrow> None)"

definition add_only :: "json \<Rightarrow> tool_policy \<Rightarrow> bool \<Rightarrow> tool_report \<Rightarrow> (json \<times> tool_report) option" where
  "add_only body p takes_cache r =
     (let (sent, r) = reject_and_append [] (tp_add p) {} (\<not> takes_cache) r;
          r = r\<lparr>tr_cache_stripped := (\<not> takes_cache \<and> tr_added r > 0), tr_sent := length sent\<rparr>
      in if sent \<noteq> [] then map_option (\<lambda>b. (b, r)) (index_set (lit ''tools'') (JArr sent) body) else Some (body, r))"

definition protected_names :: "json \<Rightarrow> rstr set" where
  "protected_names body = referenced_names body \<union> set_option (forced_name body)"

definition shape_tools :: "json list \<Rightarrow> rstr set \<Rightarrow> tool_policy \<Rightarrow> bool \<Rightarrow> tool_report \<Rightarrow> json list \<times> tool_report" where
  "shape_tools tools keep p takes_cache r =
     (let r = r\<lparr>tr_offered := length tools\<rparr>;
          (sent, r) = fold (consider_tool p keep) tools ([], r);
          sent = (if tp_mode p = ModeAllow then sort_key (allow_rank p) sent else sent);
          (sent, r) = apply_rewrites p sent r;
          (sent, r) = (if \<not> takes_cache \<and> tr_removed r \<noteq> [] then (map strip_one sent, r\<lparr>tr_cache_stripped := True\<rparr>) else (sent, r));
          (sent, r) = reject_and_append sent (tp_add p) (set (tool_names sent)) (\<not> takes_cache) r
      in (sent, r\<lparr>tr_sent := length sent\<rparr>))"

definition apply_policy :: "json \<Rightarrow> tool_policy \<Rightarrow> bool \<Rightarrow> (json \<times> tool_report) option" where
  "apply_policy body p takes_cache =
     (let r = empty_report (tp_mode p)
      in if is_noop p then Some (body, r)
         else case as_array (json_get (lit ''tools'') body) of
                None \<Rightarrow> add_only body p takes_cache r
              | Some tools \<Rightarrow>
                  (let (sent, r) = shape_tools tools (protected_names body) p takes_cache r
                   in map_option (\<lambda>b. (b, r)) (index_set (lit ''tools'') (JArr sent) body)))"

section \<open>The client's tools and the added ones\<close>

definition offered :: "tool_policy \<Rightarrow> rstr set \<Rightarrow> json \<Rightarrow> bool" where
  "offered p keep tool =
     (case tool_name tool of
        None \<Rightarrow> True
      | Some name \<Rightarrow> keep_by_mode p name \<and> name \<notin> set (tp_disable p) \<or> name \<in> set always_kept \<or> name \<in> keep)"

definition in_order :: "tool_policy \<Rightarrow> json list \<Rightarrow> json list" where
  "in_order p sent = (if tp_mode p = ModeAllow then sort_key (allow_rank p) sent else sent)"

text \<open>What becomes of one tool that is sent: its rewrite and, where the marks must go, its mark.\<close>

definition dressed :: "tool_policy \<Rightarrow> bool \<Rightarrow> json \<Rightarrow> json" where
  "dressed p strips tool = (let t = fst (rewrite_tool p tool) in if strips then strip_one t else t)"

definition client_tools :: "json list \<Rightarrow> rstr set \<Rightarrow> tool_policy \<Rightarrow> bool \<Rightarrow> json list" where
  "client_tools tools keep p takes_cache =
     map (dressed p (\<not> takes_cache \<and> tool_names (filter (\<lambda>t. \<not> offered p keep t) tools) \<noteq> []))
       (in_order p (filter (offered p keep) tools))"

lemma tool_names_simps [simp]:
  "tool_names [] = []"
  "tool_names (t # ts) = (case tool_name t of Some n \<Rightarrow> [n] | None \<Rightarrow> []) @ tool_names ts"
  "tool_names (ts @ us) = tool_names ts @ tool_names us"
  by (simp_all add: tool_names_def)

lemma tool_names_set: "n \<in> set (tool_names ts) \<longleftrightarrow> (\<exists>t \<in> set ts. tool_name t = Some n)"
  by (induction ts) (auto split: option.splits)

lemma tool_names_map: "(\<And>t. tool_name (f t) = tool_name t) \<Longrightarrow> tool_names (map f ts) = tool_names ts"
  by (simp add: tool_names_def o_def)

lemma consider_fold:
  "fst (fold (consider_tool p keep) tools acc) = fst acc @ filter (offered p keep) tools"
  by (induction tools arbitrary: acc) (auto simp: consider_tool_def offered_def Let_def split: option.splits prod.splits)

lemma consider_removed:
  "tr_removed (snd (fold (consider_tool p keep) tools acc)) = tr_removed (snd acc) @ tool_names (filter (\<lambda>t. \<not> offered p keep t) tools)"
  by (induction tools arbitrary: acc) (auto simp: consider_tool_def offered_def Let_def split: option.splits prod.splits)

lemma tool_name_other: "k \<noteq> lit ''name'' \<Longrightarrow> tool_name (set_field k x t) = tool_name t"
  by (simp add: tool_name_def get_set_other)

lemma strip_one_get: "k \<noteq> lit ''cache_control'' \<Longrightarrow> json_get k (strip_one t) = json_get k t"
proof (cases t)
  case (JObj m)
  assume k: "k \<noteq> lit ''cache_control''"
  have "map_of (filter (\<lambda>(k, _). k \<noteq> lit ''cache_control'') m) k = map_of m k" using k by (induction m) auto
  then show ?thesis using JObj by (simp add: strip_one_def json_get_def)
qed (simp_all add: strip_one_def)

lemma rewrite_tool_get: "k \<noteq> lit ''description'' \<Longrightarrow> json_get k (fst (rewrite_tool p t)) = json_get k t"
  by (auto simp: rewrite_tool_def get_set_other split: option.splits prod.splits bool.splits)

lemma dressed_get: "k \<noteq> lit ''description'' \<Longrightarrow> k \<noteq> lit ''cache_control'' \<Longrightarrow> json_get k (dressed p strips t) = json_get k t"
  by (simp add: dressed_def strip_one_get rewrite_tool_get Let_def)

lemma strip_one_name [simp]: "tool_name (strip_one t) = tool_name t"
  by (simp add: tool_name_def strip_one_get lit_def)

lemma dressed_name [simp]: "tool_name (dressed p strips t) = tool_name t"
  by (simp add: tool_name_def dressed_get lit_def)

lemma in_order_set [simp]: "set (in_order p ts) = set ts"
  by (simp add: in_order_def)

lemma in_order_mset: "mset (in_order p ts) = mset ts"
  by (simp add: in_order_def)

lemma client_tools_names: "set (tool_names (client_tools tools keep p tc)) = set (tool_names (filter (offered p keep) tools))"
  by (auto simp: client_tools_def tool_names_map tool_names_set)

text \<open>What is added: named, new, none twice, and none of the proxy's own.\<close>

lemma add_tool_fold:
  "\<exists>xs. fst (fst (fold (add_tool names strip) incoming ((sent, seen), r))) = sent @ xs \<and>
     distinct (tool_names xs) \<and> set (tool_names xs) \<inter> (names \<union> seen) = {} \<and>
     (\<forall>x \<in> set xs. \<exists>t \<in> set incoming. x = (if strip then strip_one t else t) \<and> (\<exists>n. tool_name t = Some n \<and> \<not> is_local n))"
proof (induction incoming arbitrary: sent seen r)
  case (Cons t incoming)
  let ?acc = "add_tool names strip t ((sent, seen), r)"
  show ?case
  proof (cases "\<exists>n. tool_name t = Some n \<and> \<not> is_local n \<and> n \<notin> names \<and> n \<notin> seen")
    case False
    then have "fst ?acc = (sent, seen)" by (auto simp: add_tool_def Let_def split: option.splits)
    then obtain r' where "?acc = ((sent, seen), r')" by (metis prod.collapse)
    then show ?thesis using Cons.IH [of sent seen r'] by auto
  next
    case True
    then obtain n where n: "tool_name t = Some n" "\<not> is_local n" "n \<notin> names" "n \<notin> seen" by blast
    let ?t = "if strip then strip_one t else t"
    obtain r' where r: "?acc = ((sent @ [?t], insert n seen), r')" using n by (simp add: add_tool_def)
    obtain xs where x: "fst (fst (fold (add_tool names strip) incoming ((sent @ [?t], insert n seen), r'))) = (sent @ [?t]) @ xs"
        "distinct (tool_names xs)" "set (tool_names xs) \<inter> (names \<union> insert n seen) = {}"
        "\<forall>x \<in> set xs. \<exists>t \<in> set incoming. x = (if strip then strip_one t else t) \<and> (\<exists>n. tool_name t = Some n \<and> \<not> is_local n)"
      using Cons.IH [of "sent @ [?t]" "insert n seen" r'] by blast
    have "tool_names (?t # xs) = n # tool_names xs" using n by simp
    then show ?thesis using x n r by (intro exI [where x = "?t # xs"]) auto
  qed
qed simp

lemma shape_tools_split:
  assumes "tr_removed r = []"
  shows "\<exists>xs. fst (shape_tools tools keep p tc r) = client_tools tools keep p tc @ xs \<and>
     distinct (tool_names xs) \<and> set (tool_names xs) \<inter> set (tool_names (client_tools tools keep p tc)) = {} \<and>
     (\<forall>x \<in> set xs. \<exists>t \<in> set (tp_add p). x = (if \<not> tc then strip_one t else t) \<and> (\<exists>n. tool_name t = Some n \<and> \<not> is_local n))"
proof -
  let ?c = "client_tools tools keep p tc"
  let ?f = "fold (consider_tool p keep) tools ([], r\<lparr>tr_offered := length tools\<rparr>)"
  have rm: "tr_removed (snd ?f) = tool_names (filter (\<lambda>t. \<not> offered p keep t) tools)"
    using assms by (simp add: consider_removed)
  have "\<exists>R. fst (shape_tools tools keep p tc r) = fst (fst (fold (add_tool (set (tool_names ?c)) (\<not> tc)) (tp_add p) ((?c, set (tool_names ?c)), R)))"
  proof (cases "\<not> tc \<and> tr_removed (snd ?f) \<noteq> []")
    case True
    then have "?c = map strip_one (map (fst \<circ> rewrite_tool p) (in_order p (filter (offered p keep) tools)))"
      using rm by (simp add: client_tools_def dressed_def o_def Let_def)
    then show ?thesis using True
      by (simp add: shape_tools_def Let_def case_prod_unfold apply_rewrites_def reject_and_append_def consider_fold in_order_def) blast
  next
    case False
    then have "?c = map (fst \<circ> rewrite_tool p) (in_order p (filter (offered p keep) tools))"
      using rm by (auto simp: client_tools_def dressed_def o_def Let_def)
    then show ?thesis using False
      by (simp add: shape_tools_def Let_def case_prod_unfold apply_rewrites_def reject_and_append_def consider_fold in_order_def) blast
  qed
  then obtain R where R: "fst (shape_tools tools keep p tc r) = fst (fst (fold (add_tool (set (tool_names ?c)) (\<not> tc)) (tp_add p) ((?c, set (tool_names ?c)), R)))"
    by blast
  show ?thesis unfolding R using add_tool_fold [of "set (tool_names ?c)" "\<not> tc" "tp_add p" ?c "set (tool_names ?c)" R]
    by (simp only: Un_absorb)
qed

lemma apply_policy_tools:
  assumes "apply_policy body p tc = Some (out, r)" "as_array (json_get (lit ''tools'') body) = Some tools" "\<not> is_noop p"
  shows "as_array (json_get (lit ''tools'') out) = Some (fst (shape_tools tools (protected_names body) p tc (empty_report (tp_mode p))))"
    "r = snd (shape_tools tools (protected_names body) p tc (empty_report (tp_mode p)))"
proof -
  have "json_get (lit ''tools'') body \<noteq> None" using assms(2) by (auto simp: as_array_def split: option.splits)
  then obtain m where m: "body = JObj m" by (cases body) (simp_all add: json_get_def)
  have g: "json_get (lit ''tools'') (JObj m) \<noteq> None" using \<open>json_get (lit ''tools'') body \<noteq> None\<close> m by simp
  have "out = set_field (lit ''tools'') (JArr (fst (shape_tools tools (protected_names body) p tc (empty_report (tp_mode p))))) (JObj m) \<and>
      r = snd (shape_tools tools (protected_names body) p tc (empty_report (tp_mode p)))"
    using assms m by (simp add: apply_policy_def Let_def case_prod_unfold index_set_def)
  then show "as_array (json_get (lit ''tools'') out) = Some (fst (shape_tools tools (protected_names body) p tc (empty_report (tp_mode p))))"
    "r = snd (shape_tools tools (protected_names body) p tc (empty_report (tp_mode p)))"
    by (simp_all add: get_set_same [OF g] as_array_def)
qed

lemma tools_out:
  assumes "apply_policy body p tc = Some (out, r)" "as_array (json_get (lit ''tools'') body) = Some tools"
  shows "\<exists>xs ys. as_array (json_get (lit ''tools'') out) = Some (xs @ ys) \<and>
    (is_noop p \<and> out = body \<and> xs = tools \<and> ys = [] \<or>
     \<not> is_noop p \<and> xs = client_tools tools (protected_names body) p tc \<and> distinct (tool_names ys) \<and>
     set (tool_names ys) \<inter> set (tool_names xs) = {} \<and>
     (\<forall>y \<in> set ys. \<exists>t \<in> set (tp_add p). y = (if \<not> tc then strip_one t else t) \<and> (\<exists>n. tool_name t = Some n \<and> \<not> is_local n)))"
proof (cases "is_noop p")
  case True
  then show ?thesis using assms by (auto simp: apply_policy_def Let_def)
next
  case False
  have e: "tr_removed (empty_report (tp_mode p)) = []" by (simp add: empty_report_def)
  obtain ys where "fst (shape_tools tools (protected_names body) p tc (empty_report (tp_mode p))) = client_tools tools (protected_names body) p tc @ ys"
      "distinct (tool_names ys)" "set (tool_names ys) \<inter> set (tool_names (client_tools tools (protected_names body) p tc)) = {}"
      "\<forall>x \<in> set ys. \<exists>t \<in> set (tp_add p). x = (if \<not> tc then strip_one t else t) \<and> (\<exists>n. tool_name t = Some n \<and> \<not> is_local n)"
    using shape_tools_split [OF e] by blast
  then show ?thesis using apply_policy_tools(1) [OF assms False] False by (intro exI [where x = "client_tools tools (protected_names body) p tc"] exI [where x = ys]) auto
qed

lemma protected_tool_sent:
  assumes "apply_policy body p tc = Some (out, r)" "as_array (json_get (lit ''tools'') body) = Some tools" "tool \<in> set tools"
    "tool_name tool = Some n" "n \<in> protected_names body \<or> n = lit ''ToolSearch''"
  shows "\<exists>sent tool'. as_array (json_get (lit ''tools'') out) = Some sent \<and> tool' \<in> set sent \<and> tool_name tool' = Some n \<and>
    (\<forall>k. k \<noteq> lit ''description'' \<longrightarrow> k \<noteq> lit ''cache_control'' \<longrightarrow> json_get k tool' = json_get k tool)"
proof -
  obtain xs ys where o: "as_array (json_get (lit ''tools'') out) = Some (xs @ ys)"
    and c: "xs = tools \<or> xs = client_tools tools (protected_names body) p tc"
    using tools_out [OF assms(1,2)] by blast
  have "offered p (protected_names body) tool" using assms(4,5) by (auto simp: offered_def always_kept_def)
  then have "\<exists>strips. dressed p strips tool \<in> set (client_tools tools (protected_names body) p tc)"
    using assms(3) by (auto simp: client_tools_def)
  then have "\<exists>tool' \<in> set xs. tool' = tool \<or> (\<exists>strips. tool' = dressed p strips tool)" using c assms(3) by blast
  then show ?thesis using o assms(4) by (auto simp: dressed_get)
qed

section \<open>Properties\<close>

text \<open>No policy takes away a definition the conversation still needs: a tool the client offered and the transcript
  called, \<^verbatim>\<open>tool_choice\<close> forces or tool search is, is sent under its name with its schema and every other field as
  it came, but for its description and its cache mark.
\<close>

theorem called_tools_survive:
  assumes "apply_policy body p tc = Some (out, r)" "as_array (json_get (lit ''tools'') body) = Some tools" "tool \<in> set tools"
    "tool_name tool = Some n" "n \<in> protected_names body \<or> n = lit ''ToolSearch''"
  shows "\<exists>sent tool'. as_array (json_get (lit ''tools'') out) = Some sent \<and> tool' \<in> set sent \<and> tool_name tool' = Some n \<and>
    (\<forall>k. k \<noteq> lit ''description'' \<longrightarrow> k \<noteq> lit ''cache_control'' \<longrightarrow> json_get k tool' = json_get k tool)"
  using assms by (rule protected_tool_sent)

text \<open>A policy never sends two definitions of one name unless the client did: what it adds is new against what is
  sent, and new against what it added before.
\<close>

theorem no_tool_sent_twice:
  assumes "apply_policy body p tc = Some (out, r)" "as_array (json_get (lit ''tools'') body) = Some tools" "distinct (tool_names tools)"
  shows "\<exists>sent. as_array (json_get (lit ''tools'') out) = Some sent \<and> distinct (tool_names sent)"
proof -
  have "distinct (tool_names (filter q ts))" if "distinct (tool_names ts)" for q ts
    using that by (induction ts) (auto simp: tool_names_set split: option.splits)
  then have "distinct (tool_names (filter (offered p (protected_names body)) tools))" using assms(3) by blast
  moreover have "mset (tool_names (in_order p ts)) = mset (tool_names ts)" for ts
  proof -
    have "mset (tool_names us) = (\<Sum>t \<in># mset us. case tool_name t of Some n \<Rightarrow> {#n#} | None \<Rightarrow> {#})" for us
      by (induction us) (auto split: option.splits)
    then show ?thesis by (simp add: in_order_mset)
  qed
  ultimately have "distinct (tool_names (client_tools tools (protected_names body) p tc))"
    unfolding client_tools_def by (simp add: tool_names_map) (metis mset_eq_imp_distinct_iff)
  then show ?thesis using tools_out [OF assms(1,2)] assms(3) by auto
qed

text \<open>The tools sent are a function of the tools offered and the policy until the conversation calls something new: a
  later request of the same conversation, whose history protects no other offered tool, sends the same array.
\<close>

theorem tool_surface_stable:
  assumes "apply_policy body p tc = Some (out, r)" "apply_policy later p tc = Some (out', r')"
    "as_array (json_get (lit ''tools'') body) = Some tools" "as_array (json_get (lit ''tools'') later) = Some tools"
    "protected_names later \<inter> set (tool_names tools) = protected_names body \<inter> set (tool_names tools)"
  shows "as_array (json_get (lit ''tools'') out') = as_array (json_get (lit ''tools'') out) \<and> r' = r"
proof (cases "is_noop p")
  case True
  then show ?thesis using assms by (auto simp: apply_policy_def Let_def)
next
  case False
  have same: "consider_tool p (protected_names later) t acc = consider_tool p (protected_names body) t acc" if "t \<in> set tools" for t acc
  proof -
    have "n \<in> protected_names later \<longleftrightarrow> n \<in> protected_names body" if "tool_name t = Some n" for n
    proof -
      have "n \<in> set (tool_names tools)" using that \<open>t \<in> set tools\<close> by (auto simp: tool_names_set)
      moreover have "n \<in> protected_names later \<inter> set (tool_names tools) \<longleftrightarrow> n \<in> protected_names body \<inter> set (tool_names tools)"
        by (simp only: assms(5))
      ultimately show ?thesis by simp
    qed
    then show ?thesis by (simp add: consider_tool_def split: prod.splits option.splits)
  qed
  then have "fold (consider_tool p (protected_names later)) tools acc = fold (consider_tool p (protected_names body)) tools acc" for acc
    by (intro fold_cong refl ext) (rule same)
  then have "shape_tools tools (protected_names later) p tc r0 = shape_tools tools (protected_names body) p tc r0" for r0
    by (simp add: shape_tools_def)
  then show ?thesis using apply_policy_tools [OF assms(1,3) False] apply_policy_tools [OF assms(2,4) False] by simp
qed

text \<open>\<^verbatim>\<open>allow\<close> and \<^verbatim>\<open>none\<close> with one list send the same of the client's tools, \<^verbatim>\<open>none\<close> in the client's order; and nothing the list
  omits, the transcript calls and tool search is, is among them.
\<close>

theorem pruning_modes_agree:
  assumes "tp_mode p = ModeNone"
  shows "mset (client_tools tools keep (p\<lparr>tp_mode := ModeAllow\<rparr>) tc) = mset (client_tools tools keep p tc) \<and>
    tool_names (client_tools tools keep p tc) = tool_names (filter (offered p keep) tools) \<and>
    set (tool_names (client_tools tools keep p tc)) \<subseteq> set (tp_allow p) \<union> set always_kept \<union> keep"
proof -
  let ?a = "p\<lparr>tp_mode := ModeAllow\<rparr>"
  have o: "offered ?a keep = offered p keep" using assms by (auto simp: offered_def keep_by_mode_def fun_eq_iff split: option.splits)
  have "rules_for ?a = rules_for p" by (simp add: rules_for_def fun_eq_iff)
  then have "rewrite_tool ?a = rewrite_tool p" by (intro ext) (simp only: rewrite_tool_def)
  then have d: "dressed ?a s = dressed p s" for s by (simp add: dressed_def fun_eq_iff)
  have "in_order p ts = ts" for ts using assms by (simp add: in_order_def)
  then show ?thesis using assms
    by (auto simp: client_tools_def o d in_order_mset tool_names_map tool_names_set offered_def keep_by_mode_def)
qed

lemma first_of_None: "first_of f xs = None \<longleftrightarrow> (\<forall>x \<in> set xs. f x = None)"
  by (auto simp: first_of_def filter_empty_conv neq_Nil_conv filter_eq_Cons_iff split: list.splits)

text \<open>A policy that is stored is unambiguous: no name in it is blank, no two rewrites answer for one tool whatever its
  case, and no replacement looks for an empty text.
\<close>

theorem valid_policy_unambiguous:
  assumes "validate_policy p = None"
  shows "length (filter (\<lambda>(key, _). eq_ignore_ascii_case key name) (tp_rewrite p)) \<le> 1 \<and>
    (\<forall>n \<in> set (tp_disable p) \<union> set (tp_allow p) \<union> fst ` set (tp_rewrite p). trim n \<noteq> []) \<and>
    (\<forall>t \<in> set (tp_add p). \<exists>n. tool_name t = Some n \<and> trim n \<noteq> []) \<and>
    (\<forall>(key, rules) \<in> set (tp_rewrite p). \<forall>with. Replaced [] with \<notin> set rules)"
proof -
  have d: "\<forall>n \<in> set (tp_disable p @ tp_allow p). trim n \<noteq> []"
    and a: "\<forall>t \<in> set (tp_add p). \<exists>n. tool_name t = Some n \<and> trim n \<noteq> []"
    and r: "\<forall>e \<in> set (tp_rewrite p). rewrite_refusal p e = None"
    using assms by (auto simp: validate_policy_def first_of_None split: option.splits if_splits) metis
  have one: "trim key \<noteq> [] \<and> length (filter (\<lambda>other. eq_ignore_ascii_case other key) (map fst (tp_rewrite p))) \<le> 1 \<and>
      (\<forall>with. Replaced [] with \<notin> set rules)" if "(key, rules) \<in> set (tp_rewrite p)" for key rules
    using bspec [OF r that] by (auto simp: rewrite_refusal_def list_ex_iff split: if_splits)
  have "length (filter (\<lambda>(key, _). eq_ignore_ascii_case key name) (tp_rewrite p)) \<le> 1"
  proof (cases "filter (\<lambda>(key, _). eq_ignore_ascii_case key name) (tp_rewrite p)")
    case (Cons e es)
    obtain key rules where e: "e = (key, rules)" by fastforce
    have m: "(key, rules) \<in> set (tp_rewrite p) \<and> eq_ignore_ascii_case key name"
      using Cons e by (metis (no_types, lifting) case_prod_conv filter_eq_Cons_iff in_set_conv_decomp)
    then have same: "filter (\<lambda>(k, _). eq_ignore_ascii_case k name) (tp_rewrite p) = filter (\<lambda>e. eq_ignore_ascii_case (fst e) key) (tp_rewrite p)"
      by (intro filter_cong) (auto simp: eq_ignore_ascii_case_def)
    have "length (filter (\<lambda>(k, _). eq_ignore_ascii_case k name) (tp_rewrite p)) =
        length (filter (\<lambda>other. eq_ignore_ascii_case other key) (map fst (tp_rewrite p)))"
      unfolding same by (simp add: filter_map o_def)
    then show ?thesis using one [of key rules] m by simp
  qed simp
  then show ?thesis using d a one by fastforce
qed

text \<open>The shadow rule looks at what is sent, not at what the client offered: a policy that disables a tool may add its
  own definition of the same name, which then goes out in the tool's place and is not refused.
\<close>

theorem disabled_tool_redefined:
  assumes "as_array (json_get (lit ''tools'') body) = Some [tool]" "tool_name tool = Some n" "n \<notin> protected_names body"
    "n \<noteq> lit ''ToolSearch''" "\<not> is_local n" "tool_name own = Some n"
  shows "\<exists>out r. apply_policy body \<lparr>tp_mode = ModeAll, tp_disable = [n], tp_allow = [], tp_add = [own], tp_rewrite = []\<rparr> True = Some (out, r) \<and>
    as_array (json_get (lit ''tools'') out) = Some [own] \<and> tr_refused r = [] \<and> tr_added r = 1"
proof -
  let ?p = "\<lparr>tp_mode = ModeAll, tp_disable = [n], tp_allow = [], tp_add = [own], tp_rewrite = []\<rparr>"
  have "json_get (lit ''tools'') body \<noteq> None" using assms(1) by (auto simp: as_array_def split: option.splits)
  then obtain m where m: "body = JObj m" by (cases body) (simp_all add: json_get_def)
  have g: "json_get (lit ''tools'') (JObj m) \<noteq> None" using \<open>json_get (lit ''tools'') body \<noteq> None\<close> m by simp
  let ?s = "shape_tools [tool] (protected_names body) ?p True (empty_report ModeAll)"
  have s: "fst ?s = [own]" "tr_refused (snd ?s) = []" "tr_added (snd ?s) = 1"
    using assms(2-) by (simp_all add: shape_tools_def consider_tool_def always_kept_def keep_by_mode_def apply_rewrites_def reject_and_append_def
        add_tool_def empty_report_def Let_def)
  have "\<not> is_noop ?p" by (simp add: is_noop_def)
  then have "apply_policy body ?p True = Some (set_field (lit ''tools'') (JArr (fst ?s)) body, snd ?s)"
    using assms(1) m by (simp add: apply_policy_def Let_def case_prod_unfold index_set_def)
  then show ?thesis using s m g by (simp add: get_set_same [OF g] as_array_def)
qed

section \<open>Samples\<close>

definition tool_def :: "string \<Rightarrow> string \<Rightarrow> json" where
  "tool_def name schema =
     JObj [(lit ''name'', JStr (lit name)), (lit ''description'', JStr (lit ''Does it.'')), (lit ''input_schema'', JStr (lit schema)),
           (lit ''cache_control'', JNull)]"

definition call_turn :: "string \<Rightarrow> json" where
  "call_turn name = JObj [(lit ''role'', JStr (lit ''assistant'')), (lit ''content'', JArr [JObj [(lit ''type'', JStr (lit ''tool_use'')),
     (lit ''id'', JStr (lit ''t1'')), (lit ''name'', JStr (lit name))]])]"

definition sample_body :: "json list \<Rightarrow> json" where
  "sample_body ms = JObj [(lit ''messages'', JArr ms), (lit ''tools'', JArr [tool_def ''Bash'' ''b'', tool_def ''Read'' ''r''])]"

definition narrow_policy :: tool_policy where
  "narrow_policy = \<lparr>tp_mode = ModeNone, tp_disable = [], tp_allow = [lit ''Read''], tp_add = [tool_def ''Read'' ''x''], tp_rewrite = []\<rparr>"

lemma sample_body_facts:
  "as_array (json_get (lit ''tools'') (sample_body ms)) = Some [tool_def ''Bash'' ''b'', tool_def ''Read'' ''r'']"
  "tool_name (tool_def name schema) = Some (lit name)"
  "protected_names (sample_body [call_turn ''Bash'']) = {lit ''Bash''}" "protected_names (sample_body [call_turn ''Bash'', plain_turn]) = {lit ''Bash''}"
  "protected_names (sample_body []) = {}"
  by (simp_all add: sample_body_def json_get_def as_array_def tool_name_def tool_def_def as_str_def protected_names_def referenced_names_def
      body_messages_def blocks_def call_turn_def called_name_def block_type_def forced_name_def plain_turn_def lit_def)

lemma narrow_applies: "\<exists>out r. apply_policy (sample_body ms) narrow_policy True = Some (out, r)"
  by (simp add: apply_policy_def Let_def case_prod_unfold sample_body_facts)
    (simp add: sample_body_def index_set_def narrow_policy_def is_noop_def prunes_def)

theorem called_tools_survive_witness:
  "\<exists>out r sent tool'. apply_policy (sample_body [call_turn ''Bash'']) narrow_policy True = Some (out, r) \<and>
     as_array (json_get (lit ''tools'') out) = Some sent \<and> tool' \<in> set sent \<and> tool_name tool' = Some (lit ''Bash'') \<and>
     json_get (lit ''input_schema'') tool' = Some (JStr (lit ''b''))"
proof -
  obtain out r where a: "apply_policy (sample_body [call_turn ''Bash'']) narrow_policy True = Some (out, r)" using narrow_applies by blast
  obtain sent tool' where "as_array (json_get (lit ''tools'') out) = Some sent" "tool' \<in> set sent" "tool_name tool' = Some (lit ''Bash'')"
      "\<forall>k. k \<noteq> lit ''description'' \<longrightarrow> k \<noteq> lit ''cache_control'' \<longrightarrow> json_get k tool' = json_get k (tool_def ''Bash'' ''b'')"
    using called_tools_survive [OF a sample_body_facts(1), of "tool_def ''Bash'' ''b''" "lit ''Bash''"] by (auto simp: sample_body_facts)
  then show ?thesis using a by (auto simp: tool_def_def json_get_def lit_def)
qed

theorem no_tool_sent_twice_witness:
  "\<exists>out r sent. apply_policy (sample_body []) narrow_policy True = Some (out, r) \<and>
     as_array (json_get (lit ''tools'') out) = Some sent \<and> distinct (tool_names sent)"
proof -
  obtain out r where a: "apply_policy (sample_body []) narrow_policy True = Some (out, r)" using narrow_applies by blast
  have "distinct (tool_names [tool_def ''Bash'' ''b'', tool_def ''Read'' ''r''])" by (simp add: sample_body_facts) (simp add: lit_def)
  then show ?thesis using a no_tool_sent_twice [OF a sample_body_facts(1)] by blast
qed

theorem tool_surface_stable_witness:
  "\<exists>out r out' r'. apply_policy (sample_body [call_turn ''Bash'']) narrow_policy True = Some (out, r) \<and>
     apply_policy (sample_body [call_turn ''Bash'', plain_turn]) narrow_policy True = Some (out', r') \<and>
     as_array (json_get (lit ''tools'') out') = as_array (json_get (lit ''tools'') out)"
proof -
  obtain out r where a: "apply_policy (sample_body [call_turn ''Bash'']) narrow_policy True = Some (out, r)" using narrow_applies by blast
  obtain out' r' where b: "apply_policy (sample_body [call_turn ''Bash'', plain_turn]) narrow_policy True = Some (out', r')"
    using narrow_applies by blast
  show ?thesis using a b tool_surface_stable [OF a b sample_body_facts(1) sample_body_facts(1)] by (simp add: sample_body_facts)
qed

theorem pruning_modes_agree_witness:
  "mset (client_tools [tool_def ''Bash'' ''b''] {} (narrow_policy\<lparr>tp_mode := ModeAllow\<rparr>) True) =
     mset (client_tools [tool_def ''Bash'' ''b''] {} narrow_policy True)"
  using pruning_modes_agree [of narrow_policy "[tool_def ''Bash'' ''b'']" "{}" True] by (simp add: narrow_policy_def)

theorem valid_policy_unambiguous_witness:
  "validate_policy narrow_policy = None \<and>
     length (filter (\<lambda>(key, _). eq_ignore_ascii_case key (lit ''read'')) (tp_rewrite narrow_policy)) \<le> 1"
proof -
  have "validate_policy narrow_policy = None"
    by (simp add: validate_policy_def first_of_def narrow_policy_def tool_name_def tool_def_def json_get_def as_str_def rust_simps)
  then show ?thesis using valid_policy_unambiguous [of narrow_policy "lit ''read''"] by simp
qed

theorem disabled_tool_redefined_witness:
  "\<exists>out r. apply_policy (JObj [(lit ''tools'', JArr [tool_def ''Bash'' ''b''])])
       \<lparr>tp_mode = ModeAll, tp_disable = [lit ''Bash''], tp_allow = [], tp_add = [tool_def ''Bash'' ''own''], tp_rewrite = []\<rparr> True = Some (out, r) \<and>
     as_array (json_get (lit ''tools'') out) = Some [tool_def ''Bash'' ''own''] \<and> tr_refused r = [] \<and> tr_added r = 1"
proof (rule disabled_tool_redefined [where tool = "tool_def ''Bash'' ''b''"])
  show "lit ''Bash'' \<notin> protected_names (JObj [(lit ''tools'', JArr [tool_def ''Bash'' ''b''])])"
    by (simp add: json_get_def as_array_def protected_names_def referenced_names_def body_messages_def forced_name_def lit_def)
  show "\<not> is_local (lit ''Bash'')"
    by (simp add: is_local_def cloudflare_ips_def eq_ignore_ascii_case_def to_ascii_lowercase_def lit_def)
qed (simp_all add: sample_body_facts(2) json_get_def as_array_def lit_def)

text \<open>Names are compared exactly where a tool is disabled and loosely where it is reworded, and a decimal fraction of
  four digits reads as a year.
\<close>

theorem names_match_unevenly:
  "offered \<lparr>tp_mode = ModeAll, tp_disable = [lit ''websearch''], tp_allow = [], tp_add = [], tp_rewrite = [(lit ''websearch'', [DropDates])]\<rparr> {}
     (tool_def ''WebSearch'' ''q'') \<and>
   rules_for \<lparr>tp_mode = ModeAll, tp_disable = [lit ''websearch''], tp_allow = [], tp_add = [], tp_rewrite = [(lit ''websearch'', [DropDates])]\<rparr>
     (lit ''WebSearch'') = Some [DropDates] \<and>
   has_year (lit ''0.2026'')"
  by (simp add: offered_def sample_body_facts(2) json_get_def as_str_def keep_by_mode_def rules_for_def eq_ignore_ascii_case_def
      has_year.simps rust_simps)

end
