(* ===== verification/Identity.thy ===== *)
theory Identity
  imports Tool_Policy
begin

text \<open>
  What a request claims to be, \<^verbatim>\<open>src/crates/tab-atelier-proxy/src/identity.rs\<close>: the rewrite of system prompt and tool
  descriptions for a model that is not Anthropic's. The needles are ASCII, so a match found in the bytes
  is one of characters and always at a character boundary.
\<close>

section \<open>Vendors\<close>

datatype vendor = VAnthropic | VDeepseek | VOpenai | VOther

definition vendor_of :: "provider \<Rightarrow> vendor" where
  "vendor_of p =
     (let i = to_ascii_lowercase (pv_id p); base = to_ascii_lowercase (pv_base_url p)
      in if str_contains i (lit ''anthropic'') \<or> str_contains base (lit ''anthropic.'') then VAnthropic
         else if str_contains i (lit ''deepseek'') \<or> str_contains base (lit ''deepseek'') then VDeepseek
         else if str_contains i (lit ''openai'') \<or> str_contains base (lit ''openai'') then VOpenai
         else VOther)"

definition vendor_trailer :: "vendor \<Rightarrow> rstr \<Rightarrow> rstr option" where
  "vendor_trailer v model =
     (case v of
        VAnthropic \<Rightarrow> None
      | VOther \<Rightarrow> None
      | VDeepseek \<Rightarrow> Some (lit ''Co-authored-by: DeepSeek <noreply@deepseek.com>'')
      | VOpenai \<Rightarrow> Some (lit ''Co-authored-by: OpenAI '' @ model @ lit '' <noreply@openai.com>''))"

section \<open>Lines\<close>

fun find_from :: "nat \<Rightarrow> (rstr \<Rightarrow> bool) \<Rightarrow> rstr \<Rightarrow> nat option" where
  "find_from pos hit [] = (if hit [] then Some pos else None)"
| "find_from pos hit (x # xs) = (if hit (x # xs) then Some pos else find_from (Suc pos) hit xs)"

definition find_ignoring_ascii_case :: "rstr \<Rightarrow> rstr \<Rightarrow> nat option" where
  "find_ignoring_ascii_case hay needle =
     find_from 0 (\<lambda>s. length needle \<le> length s \<and> eq_ignore_ascii_case (take (length needle) s) needle) hay"

definition model_needle :: rstr where
  "model_needle = lit ''you are powered by the model named''"

definition model_line :: "rstr \<Rightarrow> rstr \<Rightarrow> rstr option" where
  "model_line line model =
     (case find_ignoring_ascii_case line model_needle of
        None \<Rightarrow> None
      | Some pos \<Rightarrow>
          Some (take pos line @ lit ''You are powered by the model named '' @ model @ lit ''.'' @
                drop (length (trim_end_matches 10 line)) line))"

definition dropped_heads :: "rstr list" where
  "dropped_heads = map lit [''x-anthropic-'', ''end pr bodies with'', ''assistant knowledge cutoff is'',
     ''the most recent claude model family is'', ''the most recent claude models are'',
     ''claude code is available as a'', ''fast mode for claude code'']"

definition dropped_phrases :: "rstr list" where
  "dropped_phrases = map lit
     [''you are claude code, anthropic'' @ CHR 0x27 # ''s official cli for claude'', ''generated with [claude code]'',
      ''pentesting engagements, ctf competitions, security research, or defensive use cases'']"

definition dropped :: "rstr \<Rightarrow> bool" where
  "dropped line =
     (let head = trim_start line;
          head = (case strip_prefix (lit ''-'') head of Some h \<Rightarrow> trim_start h | None \<Rightarrow> head);
          lower = to_ascii_lowercase head
      in list_ex (starts_with lower) dropped_heads \<or> list_ex (str_contains lower) dropped_phrases)"

definition repoint_line :: "rstr \<Rightarrow> rstr \<Rightarrow> rstr" where
  "repoint_line model line =
     (case model_line line model of Some l \<Rightarrow> l | None \<Rightarrow> if dropped line then [] else line)"

definition strip_and_repoint :: "rstr \<Rightarrow> rstr \<Rightarrow> rstr" where
  "strip_and_repoint txt model = concat (map (repoint_line model) (split_inclusive_nl [] txt))"

section \<open>The trailer\<close>

definition find_char :: "rchar set \<Rightarrow> rstr \<Rightarrow> nat option" where
  "find_char cs s = find_from 0 (\<lambda>t. case t of [] \<Rightarrow> False | c # _ \<Rightarrow> c \<in> cs) s"

text \<open>The search goes on behind a bracket pair that wraps no \<^verbatim>\<open>@\<close>.\<close>

function closing_bracket :: "nat \<Rightarrow> rstr \<Rightarrow> nat option" where
  "closing_bracket from rest =
     (case find_char {60, 40} (drop from rest) of
        None \<Rightarrow> None
      | Some off \<Rightarrow>
          (let opn = off + from
           in case find_char {62, 41} (drop opn rest) of
                None \<Rightarrow> None
              | Some cl \<Rightarrow>
                  if 64 \<in> set (take (cl - 1) (drop (opn + 1) rest)) then Some (opn + cl + 1)
                  else if opn < length rest then closing_bracket (opn + 1) rest else None))"
  by pat_completeness auto
termination
  by (relation "measure (\<lambda>(from, rest). length rest - from)") auto

declare closing_bracket.simps [simp del]

definition trailer_needle :: rstr where
  "trailer_needle = lit ''co-authored-by:''"

definition trailer_line :: "rstr \<Rightarrow> rstr \<Rightarrow> rstr" where
  "trailer_line replacement line =
     (case find_ignoring_ascii_case line trailer_needle of
        None \<Rightarrow> line
      | Some start \<Rightarrow>
          (case closing_bracket 0 (drop start line) of
             None \<Rightarrow> line
           | Some end_at \<Rightarrow> take start line @ replacement @ drop (start + end_at) line))"

definition rewrite_trailer :: "rstr \<Rightarrow> rstr \<Rightarrow> rstr" where
  "rewrite_trailer txt replacement = concat (map (trailer_line replacement) (split_inclusive_nl [] txt))"

definition rewrite_prose :: "rstr \<Rightarrow> rstr option \<Rightarrow> rstr \<Rightarrow> rstr" where
  "rewrite_prose txt trailer model =
     (let txt = strip_and_repoint txt model; txt = str_replace (lit ''Claude Code'') [] txt
      in case trailer of None \<Rightarrow> txt | Some line \<Rightarrow> rewrite_trailer txt line)"

section \<open>The body\<close>

definition agent_needle :: rstr where
  "agent_needle = lit ''do not use the agent tool''"

definition strip_agent_rule :: "rstr \<Rightarrow> rstr" where
  "strip_agent_rule txt =
     concat (filter (\<lambda>line. \<not> str_contains (to_ascii_lowercase line) agent_needle) (split_inclusive_nl [] txt))"

definition agent_rule_tools :: "rstr list" where
  "agent_rule_tools = map lit [''Agent'', ''Task'', ''Workflow'', ''DeepResearch'']"

definition governed_tool :: "json \<Rightarrow> bool" where
  "governed_tool tool =
     (case as_str (case json_get (lit ''name'') tool of
                     Some v \<Rightarrow> Some v
                   | None \<Rightarrow> Option.bind (json_get (lit ''function'') tool) (json_get (lit ''name''))) of
        None \<Rightarrow> False
      | Some name \<Rightarrow> list_ex (\<lambda>known. eq_ignore_ascii_case known name) agent_rule_tools)"

definition agent_rule_is_dangling :: "json \<Rightarrow> bool" where
  "agent_rule_is_dangling body =
     (case as_array (json_get (lit ''tools'') body) of
        None \<Rightarrow> False
      | Some tools \<Rightarrow> \<not> list_ex governed_tool tools)"

definition system_rewrite :: "rstr \<Rightarrow> rstr option \<Rightarrow> rstr \<Rightarrow> bool \<Rightarrow> rstr" where
  "system_rewrite txt trailer model drop_agent_rule =
     (let txt = rewrite_prose txt trailer model in if drop_agent_rule then strip_agent_rule txt else txt)"

fun rewrite_descriptions :: "rstr option \<Rightarrow> rstr \<Rightarrow> json \<Rightarrow> json"
  and rewrite_fields :: "rstr option \<Rightarrow> rstr \<Rightarrow> (rstr \<times> json) list \<Rightarrow> (rstr \<times> json) list"
  and rewrite_items :: "rstr option \<Rightarrow> rstr \<Rightarrow> json list \<Rightarrow> json list" where
  "rewrite_descriptions trailer model (JObj m) = JObj (rewrite_fields trailer model m)"
| "rewrite_descriptions trailer model (JArr items) = JArr (rewrite_items trailer model items)"
| "rewrite_descriptions trailer model JNull = JNull"
| "rewrite_descriptions trailer model (JBool b) = JBool b"
| "rewrite_descriptions trailer model (JNum n) = JNum n"
| "rewrite_descriptions trailer model (JStr s) = JStr s"
| "rewrite_fields trailer model [] = []"
| "rewrite_fields trailer model ((k, child) # m) =
     (k, case child of
           JStr txt \<Rightarrow> if k = lit ''description'' then JStr (rewrite_prose txt trailer model) else rewrite_descriptions trailer model child
         | _ \<Rightarrow> rewrite_descriptions trailer model child) # rewrite_fields trailer model m"
| "rewrite_items trailer model [] = []"
| "rewrite_items trailer model (v # vs) = rewrite_descriptions trailer model v # rewrite_items trailer model vs"

definition rewrite_block :: "rstr option \<Rightarrow> rstr \<Rightarrow> bool \<Rightarrow> json \<Rightarrow> json" where
  "rewrite_block trailer model drop_agent_rule b =
     (case json_get (lit ''text'') b of
        Some (JStr txt) \<Rightarrow> set_field (lit ''text'') (JStr (system_rewrite txt trailer model drop_agent_rule)) b
      | _ \<Rightarrow> b)"

definition rewrite_system :: "rstr option \<Rightarrow> rstr \<Rightarrow> bool \<Rightarrow> json \<Rightarrow> json" where
  "rewrite_system trailer model drop_agent_rule sys =
     (case sys of
        JStr txt \<Rightarrow> JStr (system_rewrite txt trailer model drop_agent_rule)
      | JArr bs \<Rightarrow> JArr (map (rewrite_block trailer model drop_agent_rule) bs)
      | _ \<Rightarrow> sys)"

text \<open>\<^verbatim>\<open>get_mut\<close> and an assignment through it.\<close>

definition update_field :: "rstr \<Rightarrow> (json \<Rightarrow> json) \<Rightarrow> json \<Rightarrow> json" where
  "update_field k f v = (case json_get k v of None \<Rightarrow> v | Some x \<Rightarrow> set_field k (f x) v)"

definition apply_identity :: "json \<Rightarrow> vendor \<Rightarrow> rstr \<Rightarrow> json" where
  "apply_identity body v model =
     (if v = VAnthropic then body
      else (let trailer = vendor_trailer v model; drop_agent_rule = agent_rule_is_dangling body
            in update_field (lit ''tools'') (rewrite_descriptions trailer model)
                 (update_field (lit ''system'') (rewrite_system trailer model drop_agent_rule) body)))"

section \<open>Lines come back from their text\<close>

text \<open>Pieces of \<^verbatim>\<open>split_inclusive\<close>: none empty, a line feed only at the end, and only the last without one.\<close>

fun whole_lines :: "rstr list \<Rightarrow> bool" where
  "whole_lines [] = True"
| "whole_lines (l # ls) \<longleftrightarrow> l \<noteq> [] \<and> 10 \<notin> set (butlast l) \<and> (ls \<noteq> [] \<longrightarrow> last l = 10) \<and> whole_lines ls"

lemma split_inclusive_whole: "10 \<notin> set acc \<Longrightarrow> whole_lines (split_inclusive_nl acc s)"
  by (induction acc s rule: split_inclusive_nl.induct) (auto dest: list.set_sel(2))

lemma split_unbroken: "10 \<notin> set s \<Longrightarrow> split_inclusive_nl acc s = (if rev acc @ s = [] then [] else [rev acc @ s])"
  by (induction s arbitrary: acc) auto

lemma split_whole: "whole_lines ls \<Longrightarrow> split_inclusive_nl [] (concat ls) = ls"
proof (induction ls)
  case (Cons l ls)
  show ?case
  proof (cases "last l = 10")
    case True
    have l: "l = butlast l @ [10]" using True Cons.prems by (metis append_butlast_last_id whole_lines.simps(2))
    have "split_inclusive_nl [] (l @ concat ls) = split_inclusive_nl [] l @ split_inclusive_nl [] (concat ls)"
      by (rule split_inclusive_append) (use True Cons.prems in auto)
    moreover have "split_inclusive_nl [] l = [l]"
      by (subst l, subst split_inclusive_line) (use Cons.prems l in auto)
    ultimately show ?thesis using Cons by simp
  next
    case False
    then have "ls = []" using Cons.prems by auto
    moreover have "10 \<notin> set l" using Cons.prems False by (metis append_butlast_last_id in_set_conv_decomp_last last_snoc
          rotate1.simps(2) set_ConsD set_rotate1 whole_lines.simps(2))
    ultimately show ?thesis using Cons.prems by (simp add: split_unbroken)
  qed
qed simp

lemma whole_filter: "whole_lines ls \<Longrightarrow> whole_lines (filter q ls)"
  by (induction ls) auto

section \<open>What the rewrite touches\<close>

text \<open>The value with the text of every description blanked, at any depth.\<close>

fun undescribed :: "json \<Rightarrow> json"
  and undescribed_fields :: "(rstr \<times> json) list \<Rightarrow> (rstr \<times> json) list"
  and undescribed_items :: "json list \<Rightarrow> json list" where
  "undescribed (JObj m) = JObj (undescribed_fields m)"
| "undescribed (JArr items) = JArr (undescribed_items items)"
| "undescribed JNull = JNull"
| "undescribed (JBool b) = JBool b"
| "undescribed (JNum n) = JNum n"
| "undescribed (JStr s) = JStr s"
| "undescribed_fields [] = []"
| "undescribed_fields ((k, child) # m) =
     (k, case child of JStr txt \<Rightarrow> if k = lit ''description'' then JStr [] else JStr txt | _ \<Rightarrow> undescribed child) # undescribed_fields m"
| "undescribed_items [] = []"
| "undescribed_items (v # vs) = undescribed v # undescribed_items vs"

lemma rewrite_undescribed:
  "undescribed (rewrite_descriptions trailer model v) = undescribed v"
  "undescribed_fields (rewrite_fields trailer model m) = undescribed_fields m"
  "undescribed_items (rewrite_items trailer model vs) = undescribed_items vs"
  by (induction trailer model v and trailer model m and trailer model vs
      rule: rewrite_descriptions_rewrite_fields_rewrite_items.induct) (auto split: json.splits)

lemma rewrite_items_map: "rewrite_items trailer model vs = map (rewrite_descriptions trailer model) vs"
  by (induction vs) auto

lemma rewrite_fields_get:
  "k \<noteq> lit ''description'' \<Longrightarrow> map_of (rewrite_fields trailer model m) k = map_option (rewrite_descriptions trailer model) (map_of m k)"
  by (induction m) (auto split: json.splits)

lemma rewrite_name [simp]: "tool_name (rewrite_descriptions trailer model t) = tool_name t"
proof (cases t)
  case (JObj m)
  have "as_str (map_option (rewrite_descriptions trailer model) x) = as_str x" for x
    by (cases x; cases "the x") (auto simp: as_str_def)
  then show ?thesis using JObj by (simp add: tool_name_def json_get_def rewrite_fields_get lit_def)
qed (simp_all add: tool_name_def json_get_def)

lemma update_field_other: "k \<noteq> k' \<Longrightarrow> json_get k (update_field k' f v) = json_get k v"
  by (simp add: update_field_def get_set_other split: option.splits)

lemma update_field_get: "json_get k (update_field k f v) = map_option f (json_get k v)"
  by (cases "json_get k v") (simp_all add: update_field_def get_set_same)

lemma apply_identity_other:
  "k \<noteq> lit ''system'' \<Longrightarrow> k \<noteq> lit ''tools'' \<Longrightarrow> json_get k (apply_identity body v model) = json_get k body"
  by (simp add: apply_identity_def Let_def update_field_other)

lemma apply_identity_names:
  "map_option tool_names (as_array (json_get (lit ''tools'') (apply_identity body v model))) =
     map_option tool_names (as_array (json_get (lit ''tools'') body))"
proof -
  have ne: "lit ''tools'' \<noteq> lit ''system''" by (simp add: lit_def)
  have "map_option tool_names (as_array (map_option (rewrite_descriptions trailer m) x)) = map_option tool_names (as_array x)" for trailer m x
    by (cases x; cases "the x") (auto simp: as_array_def rewrite_items_map tool_names_map)
  then show ?thesis by (simp add: apply_identity_def Let_def update_field_get update_field_other [OF ne])
qed

text \<open>The rewrite for another vendor is confined to prose: no field of the request but the system prompt and the tools
  changes, the tools differ in nothing but the text under a \<^verbatim>\<open>description\<close> at some depth, no tool changes its name, and a
  request for Anthropic stays as it is.
\<close>

theorem identity_touches_prose_only:
  "(\<forall>k. k \<noteq> lit ''system'' \<longrightarrow> k \<noteq> lit ''tools'' \<longrightarrow> json_get k (apply_identity body v model) = json_get k body) \<and>
   map_option undescribed (json_get (lit ''tools'') (apply_identity body v model)) = map_option undescribed (json_get (lit ''tools'') body) \<and>
   map_option tool_names (as_array (json_get (lit ''tools'') (apply_identity body v model))) =
     map_option tool_names (as_array (json_get (lit ''tools'') body)) \<and>
   apply_identity body VAnthropic model = body"
proof -
  have ne: "lit ''tools'' \<noteq> lit ''system''" by (simp add: lit_def)
  have "json_get (lit ''tools'') (apply_identity body v model) =
      (if v = VAnthropic then json_get (lit ''tools'') body
       else map_option (rewrite_descriptions (vendor_trailer v model) model) (json_get (lit ''tools'') body))"
    by (simp add: apply_identity_def Let_def update_field_get update_field_other [OF ne])
  then show ?thesis using apply_identity_names [of body v model]
    by (auto simp: apply_identity_other rewrite_undescribed option.map_comp o_def) (simp add: apply_identity_def)
qed

text \<open>The sentence forbidding the Agent tool goes exactly when nothing it governs is offered: then no line of the
  rewritten system text carries it, and otherwise every line of the rewritten prose is there.
\<close>

theorem agent_rule_goes_with_its_tools:
  "(agent_rule_is_dangling body \<longrightarrow>
     (\<forall>line \<in> set (split_inclusive_nl [] (system_rewrite txt trailer model (agent_rule_is_dangling body))).
        \<not> str_contains (to_ascii_lowercase line) agent_needle)) \<and>
   (\<not> agent_rule_is_dangling body \<longrightarrow>
     system_rewrite txt trailer model (agent_rule_is_dangling body) = rewrite_prose txt trailer model)"
proof -
  let ?q = "\<lambda>line. \<not> str_contains (to_ascii_lowercase line) agent_needle"
  have "split_inclusive_nl [] (strip_agent_rule t) = filter ?q (split_inclusive_nl [] t)" for t
    unfolding strip_agent_rule_def by (rule split_whole, rule whole_filter, rule split_inclusive_whole) simp
  then show ?thesis by (simp add: system_rewrite_def Let_def)
qed

section \<open>The trailer stays on its line\<close>

lemma find_from_bound: "find_from pos hit s = Some i \<Longrightarrow> pos \<le> i \<and> i \<le> pos + length s \<and> hit (drop (i - pos) s)"
proof (induction pos hit s rule: find_from.induct)
  case (2 pos hit x xs)
  show ?case
  proof (cases "hit (x # xs)")
    case False
    then have i: "Suc pos \<le> i" "i \<le> Suc pos + length xs" "hit (drop (i - Suc pos) xs)" using 2 by auto
    then have "i - pos = Suc (i - Suc pos)" by simp
    then show ?thesis using i by simp
  qed (use 2 in auto)
qed (auto split: if_splits)

lemma find_char_bound:
  assumes "find_char cs s = Some i"
  shows "i < length s \<and> s ! i \<in> cs"
proof -
  have h: "case drop i s of [] \<Rightarrow> False | c # _ \<Rightarrow> c \<in> cs"
    using find_from_bound [of 0 "\<lambda>t. case t of [] \<Rightarrow> False | c # _ \<Rightarrow> c \<in> cs" s i] assms by (simp add: find_char_def)
  then have "i < length s" by (cases "i < length s") simp_all
  then show ?thesis using h by (simp add: Cons_nth_drop_Suc [symmetric])
qed

lemma closing_bracket_bound:
  "closing_bracket from rest = Some e \<Longrightarrow> e \<le> length rest \<and> 2 \<le> e \<and> rest ! (e - 1) \<in> {62, 41} \<and> 64 \<in> set (take e rest)"
proof (induction "from" rest rule: closing_bracket.induct)
  case (1 "from" rest)
  obtain off where off: "find_char {60, 40} (drop from rest) = Some off"
    using 1(2) by (subst (asm) closing_bracket.simps) (auto split: option.splits)
  let ?open = "off + from"
  obtain cl where cl: "find_char {62, 41} (drop ?open rest) = Some cl"
    using 1(2) off by (subst (asm) closing_bracket.simps) (auto simp: Let_def split: option.splits)
  have o: "?open < length rest" "rest ! ?open \<in> {60, 40}"
    using find_char_bound [OF off] by (auto simp: add.commute)
  have c: "?open + cl < length rest" "rest ! (?open + cl) \<in> {62, 41}"
    using find_char_bound [OF cl] o(1) by (auto simp: less_diff_conv add.commute)
  have "cl \<noteq> 0" by (cases cl) (use o(2) c(2) in auto)
  show ?case
  proof (cases "64 \<in> set (take (cl - 1) (drop (?open + 1) rest))")
    case True
    then have e: "e = ?open + cl + 1" using 1(2) off cl by (subst (asm) closing_bracket.simps) (simp add: Let_def)
    have "take (cl - 1) (drop (?open + 1) rest) = drop (?open + 1) (take (?open + cl) rest)"
      using \<open>cl \<noteq> 0\<close> by (simp add: drop_take)
    then have "64 \<in> set (take (?open + cl) rest)" using True by (metis in_set_dropD)
    then have "64 \<in> set (take e rest)" unfolding e by (metis le_add1 set_take_subset_set_take subsetD)
    then show ?thesis using e c \<open>cl \<noteq> 0\<close> by simp
  next
    case False
    then have "closing_bracket (?open + 1) rest = Some e" using 1(2) off cl o(1) by (subst (asm) closing_bracket.simps) (simp add: Let_def)
    then show ?thesis using 1(1) [OF off refl cl False o(1)] by simp
  qed
qed

text \<open>Crediting the vendor never leaves the line: what is cut out starts at the trailer, ends behind a bracket that closes
  an address, and what stood before and after it stays; without such an address the line stays whole.
\<close>

theorem trailer_cut_is_bounded:
  "trailer_line credit line = line \<or>
   (\<exists>start cut rest. line = start @ cut @ rest \<and> trailer_line credit line = start @ credit @ rest \<and>
      eq_ignore_ascii_case (take (length trailer_needle) (cut @ rest)) trailer_needle \<and>
      64 \<in> set cut \<and> last cut \<in> {62, 41})"
proof (cases "find_ignoring_ascii_case line trailer_needle")
  case None
  then show ?thesis by (simp add: trailer_line_def)
next
  case (Some i)
  then have i: "i \<le> length line" "eq_ignore_ascii_case (take (length trailer_needle) (drop i line)) trailer_needle"
    using find_from_bound [of 0 _ line i] by (auto simp: find_ignoring_ascii_case_def)
  show ?thesis
  proof (cases "closing_bracket 0 (drop i line)")
    case None
    then show ?thesis using Some by (simp add: trailer_line_def)
  next
    case e: (Some e)
    let ?cut = "take e (drop i line)" let ?rest = "drop (i + e) line"
    have b: "e \<le> length (drop i line)" "2 \<le> e" "drop i line ! (e - 1) \<in> {62, 41}" "64 \<in> set ?cut"
      using closing_bracket_bound [OF e] by auto
    have "?cut \<noteq> []" using b(1,2) by auto
    then have "last ?cut = drop i line ! (e - 1)" using b(1,2) by (simp add: last_conv_nth min_def)
    moreover have d: "drop i line = ?cut @ ?rest" by (metis append_take_drop_id add.commute drop_drop)
    then have "line = take i line @ ?cut @ ?rest" by (metis append_take_drop_id)
    moreover have "trailer_line credit line = take i line @ credit @ ?rest" using Some e by (simp add: trailer_line_def)
    ultimately show ?thesis using b i(2) d
      by (intro disjI2 exI [where x = "take i line"] exI [where x = ?cut] exI [where x = ?rest]) simp
  qed
qed

theorem identity_touches_prose_only_witness:
  "json_get (lit ''model'') (apply_identity (JObj [(lit ''model'', JStr (lit ''glm'')), (lit ''system'', JStr (lit ''You are Claude Code''))])
     VOpenai (lit ''glm'')) = Some (JStr (lit ''glm''))"
  using identity_touches_prose_only [of "JObj [(lit ''model'', JStr (lit ''glm'')), (lit ''system'', JStr (lit ''You are Claude Code''))]" VOpenai "lit ''glm''"]
  by (simp add: json_get_def lit_def)

end
