(* ===== verification/Log_Ring.thy ===== *)
theory Log_Ring
  imports Prelude
begin

text \<open>
  The in-memory tail of the log, \<^verbatim>\<open>src/src/log_ring.rs\<close>, and the humanised durations of
  \<^verbatim>\<open>src/src/fmt.rs\<close>. The wrapped logger is a parameter: what it enables and what it has been given.
\<close>

definition capacity :: nat where "capacity = 500"

definition max_msg :: nat where "max_msg = 2000"

text \<open>Levels, most severe first, compared as the log crate does.\<close>

datatype level = LError | LWarn | LInfo | LDebug | LTrace

instantiation level :: linorder
begin

fun level_rank :: "level \<Rightarrow> nat" where
  "level_rank LError = 1" | "level_rank LWarn = 2" | "level_rank LInfo = 3"
| "level_rank LDebug = 4" | "level_rank LTrace = 5"

definition less_level :: "level \<Rightarrow> level \<Rightarrow> bool" where
  "less_level a b \<longleftrightarrow> level_rank a < level_rank b"

definition less_eq_level :: "level \<Rightarrow> level \<Rightarrow> bool" where
  "less_eq_level a b \<longleftrightarrow> level_rank a \<le> level_rank b"

instance
proof
  fix x y z :: level
  show "x < y \<longleftrightarrow> x \<le> y \<and> \<not> y \<le> x" by (auto simp: less_level_def less_eq_level_def)
  show "x \<le> x" by (simp add: less_eq_level_def)
  show "x \<le> y \<Longrightarrow> y \<le> z \<Longrightarrow> x \<le> z" by (simp add: less_eq_level_def)
  show "x \<le> y \<Longrightarrow> y \<le> x \<Longrightarrow> x = y" by (cases x; cases y) (simp_all add: less_eq_level_def)
  show "x \<le> y \<or> y \<le> x" by (auto simp: less_eq_level_def)
qed

end

definition ring_level :: level where "ring_level = LInfo"

record log_line =
  ln_ts :: u64
  ln_level :: level
  ln_target :: rstr
  ln_msg :: rstr

definition push_line :: "log_line \<Rightarrow> log_line list \<Rightarrow> log_line list" where
  "push_line l ring = (if length ring = capacity then tl ring else ring) @ [l]"

definition tail :: "nat \<Rightarrow> log_line list \<Rightarrow> log_line list" where
  "tail n ring = drop (length ring - n) ring"

definition clamp_msg :: "rstr \<Rightarrow> rstr" where
  "clamp_msg msg =
     (if length msg \<le> max_msg then msg else take max_msg msg @ [8230] @ lit '' (truncated)'')"

text \<open>One record through the wrapping logger: what the inner logger receives, and the ring.\<close>

definition log_record ::
    "(level \<Rightarrow> rstr \<Rightarrow> bool) \<Rightarrow> log_line \<Rightarrow> log_line list \<times> log_line list \<Rightarrow> log_line list \<times> log_line list" where
  "log_record inner_enabled rec st =
     (case st of (inner, ring) \<Rightarrow>
        (if inner_enabled (ln_level rec) (ln_target rec) then inner @ [rec] else inner,
         if ln_level rec \<le> ring_level then push_line (rec\<lparr>ln_msg := clamp_msg (ln_msg rec)\<rparr>) ring else ring))"

definition log_enabled :: "(level \<Rightarrow> rstr \<Rightarrow> bool) \<Rightarrow> level \<Rightarrow> rstr \<Rightarrow> bool" where
  "log_enabled inner_enabled l target \<longleftrightarrow> l \<le> ring_level \<or> inner_enabled l target"

text \<open>\<^verbatim>\<open>duration_secs\<close> of \<^verbatim>\<open>fmt.rs\<close>.\<close>

definition duration_secs :: "u64 \<Rightarrow> rstr" where
  "duration_secs secs =
     (if secs < 60 then show_nat secs @ lit ''s''
      else if secs < 3600 then show_nat (secs div 60) @ lit ''m '' @ show_nat (secs mod 60) @ lit ''s''
      else show_nat (secs div 3600) @ lit ''h '' @ show_nat (secs mod 3600 div 60) @ lit ''m'')"

section \<open>Lemmas\<close>

text \<open>The ring holds the last lines pushed, at most \<open>capacity\<close> of them.\<close>

lemma push_line_last:
  "push_line l (drop (length ls - capacity) ls) = drop (length (ls @ [l]) - capacity) (ls @ [l])"
proof (cases "capacity \<le> length ls")
  case True
  then have "length (drop (length ls - capacity) ls) = capacity" by simp
  then have "push_line l (drop (length ls - capacity) ls) = drop (Suc (length ls - capacity)) ls @ [l]"
    by (simp add: push_line_def drop_Suc tl_drop)
  moreover have "Suc (length ls) - capacity = Suc (length ls - capacity)" using True by (rule Suc_diff_le)
  moreover have "Suc (length ls - capacity) \<le> length ls" using True by (simp add: capacity_def)
  ultimately show ?thesis by simp
next
  case False
  then show ?thesis by (simp add: push_line_def)
qed

lemma pushes_last: "foldl (\<lambda>r l. push_line l r) [] ls = drop (length ls - capacity) ls"
proof (induction ls rule: rev_induct)
  case (snoc l ls)
  then show ?case using push_line_last [of l ls] by simp
qed simp

definition clamped :: "log_line \<Rightarrow> log_line" where
  "clamped l = l\<lparr>ln_msg := clamp_msg (ln_msg l)\<rparr>"

lemma log_all_ring:
  "snd (foldl (\<lambda>st l. log_record en l st) (inner, ring) ls) =
     foldl (\<lambda>r l. push_line l r) ring (map clamped (filter (\<lambda>l. ln_level l \<le> ring_level) ls))"
  by (induction ls arbitrary: inner ring) (simp_all add: log_record_def clamped_def)

section \<open>Properties\<close>

text \<open>Whatever filter the wrapped logger has, \<^verbatim>\<open>logs\<close> shows the newest records of level info or worse,
  in order, as many as asked for and never more than the ring's capacity, each message clamped.\<close>

theorem logs_show_newest:
  "tail n (snd (foldl (\<lambda>st l. log_record en l st) ([], []) ls)) =
     (let kept = map clamped (filter (\<lambda>l. ln_level l \<le> ring_level) ls)
      in drop (length kept - min n capacity) kept)"
proof -
  define kept where "kept = map clamped (filter (\<lambda>l. ln_level l \<le> ring_level) ls)"
  have "length kept - (length kept - capacity) - n + (length kept - capacity) = length kept - min n capacity"
    by (cases "length kept \<le> capacity"; cases "n \<le> capacity") auto
  then show ?thesis
    by (simp add: log_all_ring pushes_last tail_def Let_def kept_def [symmetric])
qed

end
