(* ===== verification/Prompt_File.thy ===== *)
theory Prompt_File
  imports Tool_Config
begin

text \<open>
  The prompt file of an agent (\<^verbatim>\<open>src/crates/catbus-agent/src/identity.rs\<close>): the front matter that limits the
  tools and the hosts, the body after it, and where the file is looked for.
\<close>

section \<open>Front matter\<close>

record limits =
  lim_tools :: "rstr list option"
  lim_hosts :: "rstr list option"
  lim_jumps :: "rstr list option"

definition no_limits :: limits where
  "no_limits = \<lparr>lim_tools = None, lim_hosts = None, lim_jumps = None\<rparr>"

datatype header_error =
    NeverClosed
  | NotKeyValue nat rstr
  | UnknownKey nat rstr

text \<open>\<^verbatim>\<open>,\<close> is 44, \<^verbatim>\<open>:\<close> is 58, \<^verbatim>\<open>#\<close> is 35, carriage return 13, line feed 10.\<close>

definition split_list :: "rstr \<Rightarrow> rstr list" where
  "split_list value = filter (\<lambda>item. item \<noteq> []) (map trim (split_on 44 value))"

definition is_rule :: "rstr \<Rightarrow> bool" where
  "is_rule line \<longleftrightarrow> trim_end_matches 13 line = lit ''---''"

definition skipped_line :: "rstr \<Rightarrow> bool" where
  "skipped_line line \<longleftrightarrow> trim line = [] \<or> starts_with (trim_start line) [35]"

definition set_limit :: "rstr \<Rightarrow> rstr \<Rightarrow> limits \<Rightarrow> limits option" where
  "set_limit key value l =
     (if eq_ignore_ascii_case key (lit ''AllowedTools'') then Some (l\<lparr>lim_tools := Some (split_list value)\<rparr>)
      else if eq_ignore_ascii_case key (lit ''AllowedHosts'') then Some (l\<lparr>lim_hosts := Some (split_list value)\<rparr>)
      else if eq_ignore_ascii_case key (lit ''AllowedJumpHosts'') then Some (l\<lparr>lim_jumps := Some (split_list value)\<rparr>)
      else None)"

text \<open>The header's lines, numbered from the line after the opening rule.\<close>

fun read_header :: "nat \<Rightarrow> rstr list \<Rightarrow> limits \<Rightarrow> header_error + limits" where
  "read_header n [] l = Inr l"
| "read_header n (line # rest) l =
     (if skipped_line line then read_header (n + 1) rest l
      else case split_once 58 line of
             None \<Rightarrow> Inl (NotKeyValue n line)
           | Some (key, value) \<Rightarrow>
               (case set_limit (trim key) value l of
                  None \<Rightarrow> Inl (UnknownKey n (trim key))
                | Some l' \<Rightarrow> read_header (n + 1) rest l'))"

definition trim_start_newlines :: "rstr \<Rightarrow> rstr" where
  "trim_start_newlines s = dropWhile (\<lambda>c. c = 10) s"

definition parse_prompt :: "rstr \<Rightarrow> header_error + rstr \<times> limits" where
  "parse_prompt raw =
     (case str_lines raw of
        [] \<Rightarrow> Inr (trim_start_newlines raw, no_limits)
      | first # lines \<Rightarrow>
          if \<not> is_rule first then Inr (trim_start_newlines raw, no_limits)
          else if \<not> list_ex is_rule lines then Inl NeverClosed
          else (let header = takeWhile (\<lambda>l. \<not> is_rule l) lines
                in map_sum id
                     (\<lambda>l. (trim_start_newlines (str_join [10] (drop (length header + 2) (first # lines))), l))
                     (read_header 2 header no_limits)))"

section \<open>Finding the file\<close>

datatype agent_identity =
    AutoIdentity
  | TextIdentity rstr limits
  | OmittedIdentity limits

datatype identity_error =
    EmptyInline
  | CannotReadIdentity rstr rstr
  | BadPromptFile rstr header_error
  | NoPromptIn rstr

fun identity_limits :: "agent_identity \<Rightarrow> limits" where
  "identity_limits AutoIdentity = no_limits"
| "identity_limits (TextIdentity _ l) = l"
| "identity_limits (OmittedIdentity l) = l"

definition project_path :: "rstr \<Rightarrow> rstr" where
  "project_path cwd = join_path (project_dir cwd) (lit ''identity.md'')"

definition machine_path :: "rstr option \<Rightarrow> rstr option \<Rightarrow> rstr" where
  "machine_path xdg_config home =
     (let base = (case xdg_config of
                    Some x \<Rightarrow> x
                  | None \<Rightarrow> (case home of Some hm \<Rightarrow> join_path hm (lit ''.config'') | None \<Rightarrow> lit ''.config''))
      in join_path (join_path (join_path base (lit ''tab-atelier'')) (lit ''catbus-agent'')) (lit ''identity.md''))"

fun load_convenience :: "session_host \<Rightarrow> rstr list \<Rightarrow> identity_error + agent_identity" where
  "load_convenience h [] = Inr AutoIdentity"
| "load_convenience h (p # ps) =
     (case sh_files h p of
        NoFile \<Rightarrow> load_convenience h ps
      | FileError e \<Rightarrow> Inl (CannotReadIdentity p e)
      | FileText raw \<Rightarrow>
          (case parse_prompt raw of
             Inl e \<Rightarrow> Inl (BadPromptFile p e)
           | Inr (body, l) \<Rightarrow> Inr (if trim body = [] then OmittedIdentity l else TextIdentity body l)))"

definition load_identity :: "session_host \<Rightarrow> rstr option \<Rightarrow> rstr option \<Rightarrow> rstr list \<Rightarrow> identity_error + agent_identity" where
  "load_identity h inline named convenience =
     (case inline of
        Some text \<Rightarrow> if trim text = [] then Inl EmptyInline else Inr (TextIdentity text no_limits)
      | None \<Rightarrow>
          (case named of
             Some p \<Rightarrow>
               (case sh_files h p of
                  NoFile \<Rightarrow> Inl (CannotReadIdentity p (lit ''not found''))
                | FileError e \<Rightarrow> Inl (CannotReadIdentity p e)
                | FileText raw \<Rightarrow>
                    (case parse_prompt raw of
                       Inl e \<Rightarrow> Inl (BadPromptFile p e)
                     | Inr (body, l) \<Rightarrow> if trim body = [] then Inl (NoPromptIn p) else Inr (TextIdentity body l)))
           | None \<Rightarrow> load_convenience h convenience))"

section \<open>The header as written\<close>

text \<open>A prompt file as an operator writes it: one line for each limit that is set, then the body's lines.\<close>

definition limit_line :: "string \<Rightarrow> rstr list option \<Rightarrow> rstr list" where
  "limit_line key v = (case v of None \<Rightarrow> [] | Some xs \<Rightarrow> [lit key @ lit '': '' @ str_join (lit '', '') xs])"

definition header_lines :: "limits \<Rightarrow> rstr list" where
  "header_lines l = limit_line ''AllowedTools'' (lim_tools l) @ limit_line ''AllowedHosts'' (lim_hosts l)
     @ limit_line ''AllowedJumpHosts'' (lim_jumps l)"

definition written_lines :: "rstr list \<Rightarrow> rstr" where
  "written_lines ls = concat (map (\<lambda>l. l @ [10]) ls)"

definition render_prompt :: "limits \<Rightarrow> rstr list \<Rightarrow> rstr" where
  "render_prompt l body = written_lines ([lit ''---''] @ header_lines l @ [lit ''---''] @ body)"

definition plain_item :: "rstr \<Rightarrow> bool" where
  "plain_item x \<longleftrightarrow> x \<noteq> [] \<and> trimmed x \<and> 44 \<notin> set x \<and> 10 \<notin> set x"

definition plain_items :: "rstr list option \<Rightarrow> bool" where
  "plain_items v \<longleftrightarrow> (case v of None \<Rightarrow> True | Some xs \<Rightarrow> list_all plain_item xs)"

definition plain_limits :: "limits \<Rightarrow> bool" where
  "plain_limits l \<longleftrightarrow> plain_items (lim_tools l) \<and> plain_items (lim_hosts l) \<and> plain_items (lim_jumps l)"

definition plain_line :: "rstr \<Rightarrow> bool" where
  "plain_line l \<longleftrightarrow> 10 \<notin> set l \<and> (l = [] \<or> last l \<noteq> 13)"

lemma split_on_none: "c \<notin> set x \<Longrightarrow> split_on c x = [x]"
  by (induction x) auto

lemma split_on_append: "c \<notin> set x \<Longrightarrow> split_on c (x @ c # r) = x # split_on c r"
  by (induction x) auto

lemma trim_space: "plain_item x \<Longrightarrow> trim (32 # x) = x"
  using trim_trimmed [of x] by (simp add: plain_item_def trim_def trim_start_def is_whitespace_def)

lemma split_list_items: "list_all plain_item xs \<Longrightarrow> split_list (32 # str_join (lit '', '') xs) = xs"
proof (induction xs)
  case Nil
  then show ?case by (simp add: split_list_def trim_def trim_start_def trim_end_def is_whitespace_def)
next
  case (Cons x xs)
  then have x: "plain_item x" "x \<noteq> []" "44 \<notin> set (32 # x)" by (auto simp: plain_item_def)
  show ?case
  proof (cases xs)
    case Nil
    then show ?thesis using x split_on_none [OF x(3)] by (simp add: split_list_def trim_space)
  next
    case (Cons y ys)
    then have "32 # str_join (lit '', '') (x # xs) = (32 # x) @ 44 # (32 # str_join (lit '', '') xs)"
      by (simp add: lit_def)
    then have "split_on 44 (32 # str_join (lit '', '') (x # xs)) = (32 # x) # split_on 44 (32 # str_join (lit '', '') xs)"
      by (simp only: split_on_append [OF x(3)])
    then show ?thesis using Cons.IH Cons.prems x by (simp add: split_list_def trim_space)
  qed
qed

lemma limit_key:
  "k \<in> {''AllowedTools'', ''AllowedHosts'', ''AllowedJumpHosts''} \<Longrightarrow>
     58 \<notin> set (lit k) \<and> trim (lit k) = lit k \<and> 10 \<notin> set (lit k) \<and> hd (lit k) = 65 \<and> lit k \<noteq> []"
  by (auto simp: lit_def trim_def trim_start_def trim_end_def is_whitespace_def)

lemma set_str_join: "set (str_join sep xs) \<subseteq> set sep \<union> \<Union> (set ` set xs)"
  by (induction sep xs rule: str_join.induct) auto

lemma last_join: "xs \<noteq> [] \<Longrightarrow> last xs \<noteq> [] \<Longrightarrow> last (str_join sep xs) = last (last xs) \<and> str_join sep xs \<noteq> []"
  by (induction sep xs rule: str_join.induct) auto

lemma is_rule_hd: "is_rule l \<Longrightarrow> hd l = 45 \<and> l \<noteq> []"
proof -
  assume "is_rule l"
  then have "rev (dropWhile (\<lambda>x. x = 13) (rev l)) = lit ''---''" by (simp add: is_rule_def trim_end_matches_def)
  moreover have "l = rev (dropWhile (\<lambda>x. x = 13) (rev l)) @ rev (takeWhile (\<lambda>x. x = 13) (rev l))"
    by (metis rev_append rev_rev_ident takeWhile_dropWhile_id)
  ultimately obtain b where "l = lit ''---'' @ b" by simp
  then show ?thesis by (simp add: lit_def)
qed

lemma text_not_skipped:
  assumes "l = c # r" "\<not> is_whitespace c" "c \<noteq> 35"
  shows "\<not> skipped_line l"
proof -
  have t: "trim_start l = l" using assms by (simp add: trim_start_def)
  have "dropWhile is_whitespace (rev l) \<noteq> []" using assms by (auto simp: dropWhile_eq_Nil_conv)
  then show ?thesis using assms t by (simp add: skipped_line_def trim_def trim_end_def starts_with_def)
qed

lemma limit_line_read:
  assumes k: "k \<in> {''AllowedTools'', ''AllowedHosts'', ''AllowedJumpHosts''}" and xs: "list_all plain_item xs"
  defines "line \<equiv> lit k @ lit '': '' @ str_join (lit '', '') xs"
  shows "plain_line line" "\<not> is_rule line" "\<not> skipped_line line"
    "split_once 58 line = Some (lit k, 32 # str_join (lit '', '') xs)"
proof -
  note kf = limit_key [OF k]
  have line: "line = lit k @ 58 # 32 # str_join (lit '', '') xs" by (simp add: line_def lit_def)
  show "split_once 58 line = Some (lit k, 32 # str_join (lit '', '') xs)"
    using kf by (simp add: line split_once_Some)
  have hd: "hd line = 65" "line \<noteq> []" using kf by (simp_all add: line)
  then show "\<not> is_rule line" using is_rule_hd by fastforce
  have "line = 65 # tl line" using hd by (cases line) auto
  then show "\<not> skipped_line line" by (rule text_not_skipped) (simp_all add: is_whitespace_def)
  have "10 \<notin> set line"
    using kf xs set_str_join [of "lit '', ''" xs] by (auto simp: line_def lit_def list_all_iff plain_item_def)
  moreover have "last line \<noteq> 13"
  proof (cases "xs = []")
    case True
    then show ?thesis by (simp add: line)
  next
    case False
    then have "plain_item (last xs)" using xs by (simp add: list_all_iff)
    then have "\<not> is_whitespace (last (last xs))" "last xs \<noteq> []" by (auto simp: plain_item_def trimmed_def)
    then show ?thesis using last_join [OF False] by (auto simp: line is_whitespace_def)
  qed
  ultimately show "plain_line line" by (simp add: plain_line_def)
qed

lemma set_limit_each:
  "set_limit (lit ''AllowedTools'') v l = Some (l\<lparr>lim_tools := Some (split_list v)\<rparr>)"
  "set_limit (lit ''AllowedHosts'') v l = Some (l\<lparr>lim_hosts := Some (split_list v)\<rparr>)"
  "set_limit (lit ''AllowedJumpHosts'') v l = Some (l\<lparr>lim_jumps := Some (split_list v)\<rparr>)"
  by (simp_all add: set_limit_def eq_ignore_ascii_case_def to_ascii_lowercase_def lit_def)

lemma read_written_header:
  assumes "plain_limits l"
  shows "read_header n (header_lines l) no_limits = Inr l"
proof -
  have p: "plain_items (lim_tools l)" "plain_items (lim_hosts l)" "plain_items (lim_jumps l)"
    using assms by (simp_all add: plain_limits_def)
  show ?thesis
    using p
    by (cases "lim_tools l"; cases "lim_hosts l"; cases "lim_jumps l")
      (simp_all add: header_lines_def limit_line_def no_limits_def plain_items_def limit_line_read limit_key set_limit_each split_list_items)
qed

lemma header_lines_plain: "plain_limits l \<Longrightarrow> line \<in> set (header_lines l) \<Longrightarrow> plain_line line \<and> \<not> is_rule line"
  by (cases "lim_tools l"; cases "lim_hosts l"; cases "lim_jumps l")
    (auto simp: header_lines_def limit_line_def plain_limits_def plain_items_def limit_line_read)

lemma rule_line: "is_rule (lit ''---'')" "plain_line (lit ''---'')"
  by (simp_all add: is_rule_def trim_end_matches_def plain_line_def lit_def)

lemma written_prompt_reads:
  assumes "plain_limits l" "list_all plain_line body"
  shows "parse_prompt (render_prompt l body) = Inr (trim_start_newlines (str_join [10] body), l)"
proof -
  have lines: "str_lines (render_prompt l body) = lit ''---'' # header_lines l @ lit ''---'' # body"
    unfolding render_prompt_def written_lines_def
    using assms header_lines_plain rule_line by (subst str_lines_concat) (auto simp: plain_line_def list_all_iff)
  have header: "takeWhile (\<lambda>l. \<not> is_rule l) (header_lines l @ lit ''---'' # body) = header_lines l"
    using assms header_lines_plain rule_line by (subst takeWhile_append2) auto
  show ?thesis
    using rule_line by (simp add: parse_prompt_def lines header read_written_header [OF assms(1)])
qed

text \<open>A written prompt file reads back: its limits are the ones written, and its body is everything after the
  closing rule, whatever rule lines the body itself holds.\<close>

theorem front_matter_round_trip:
  assumes "plain_limits l" "list_all plain_line body"
  shows "parse_prompt (render_prompt l body) = Inr (trim_start_newlines (str_join [10] body), l)"
  using assms by (rule written_prompt_reads)

theorem front_matter_round_trip_witness:
  "parse_prompt (render_prompt \<lparr>lim_tools = Some [lit ''Read'', lit ''Bash''], lim_hosts = Some [], lim_jumps = None\<rparr>
     [lit ''You review.'', lit ''---'', lit ''Be brief.'']) =
   Inr (lit ''You review.'' @ [10] @ lit ''---'' @ [10] @ lit ''Be brief.'',
     \<lparr>lim_tools = Some [lit ''Read'', lit ''Bash''], lim_hosts = Some [], lim_jumps = None\<rparr>)"
proof -
  have l: "plain_limits \<lparr>lim_tools = Some [lit ''Read'', lit ''Bash''], lim_hosts = Some [], lim_jumps = None\<rparr>"
    by (simp add: plain_limits_def plain_items_def plain_item_def trimmed_def is_whitespace_def lit_def)
  have b: "list_all plain_line [lit ''You review.'', lit ''---'', lit ''Be brief.'']"
    by (simp add: plain_line_def lit_def)
  show ?thesis using front_matter_round_trip [OF l b] by (simp add: trim_start_newlines_def lit_def)
qed

end
