(* ===== verification/Provider_Admin.thy ===== *)
theory Provider_Admin
  imports Users
begin

text \<open>
  Renaming and removing a provider, \<^verbatim>\<open>src/crates/tab-atelier-proxy/src/http/controllers/provider.rs\<close>: the two operations that touch
  the registry, the accounts and the key files together. \<open>enc_reg\<close> and \<open>enc\<close> write the two files; whether a copy, a
  write or a removal fails is an argument. A copy or a write that fails leaves its file as it was, and paths
  are compared as text.
\<close>

section \<open>The state and the operations\<close>

definition provider_key_path :: "rstr \<Rightarrow> rstr \<Rightarrow> rstr" where
  "provider_key_path dir i =
     (let name = lit ''provider-'' @ i @ lit ''.key''
      in if dir = [] then name else if last dir = 47 then dir @ name else dir @ [47] @ name)"

record 'p proxy_state =
  ps_registry :: provider_registry
  ps_registry_file :: "rstr option"
  ps_store :: "'p store"
  ps_files :: "rstr \<rightharpoonup> rstr"

record rename_io =
  io_copy :: "rstr option"
  io_registry :: "rstr option"
  io_accounts :: save_io
  io_unlinked :: bool

datatype admin_error =
    NoSuchRow
  | RowTaken rstr
  | BadRowName name_error
  | KeyIo rstr
  | RenameRefused rename_error
  | RegistryIo rstr
  | AccountsIo user_error

fun status_code :: "admin_error \<Rightarrow> nat" where
  "status_code NoSuchRow = 404"
| "status_code (RowTaken _) = 409"
| "status_code (BadRowName _) = 400"
| "status_code (KeyIo _) = 500"
| "status_code (RenameRefused _) = 409"
| "status_code (RegistryIo _) = 500"
| "status_code (AccountsIo _) = 500"

text \<open>The key is where the entry says, and at the canonical path for an entry that names none.\<close>

definition old_key_path :: "rstr \<Rightarrow> rstr \<Rightarrow> provider_registry \<Rightarrow> rstr" where
  "old_key_path dir i r =
     (case get_provider r i of
        None \<Rightarrow> provider_key_path dir i
      | Some p \<Rightarrow> (case pv_auth p of ApiKeyFile path \<Rightarrow> path | _ \<Rightarrow> provider_key_path dir i))"

text \<open>The end of a rename: the registry and its file, the accounts and theirs, then the old key.\<close>

definition commit_rename ::
    "(provider_registry \<Rightarrow> rstr) \<Rightarrow> ('p user list \<Rightarrow> rstr) \<Rightarrow> rename_io \<Rightarrow> rstr \<Rightarrow> rstr \<Rightarrow> rstr option \<Rightarrow> provider_registry \<Rightarrow>
     'p proxy_state \<Rightarrow> (admin_error + unit) \<times> 'p proxy_state" where
  "commit_rename enc_reg enc io i to drop_key r ps =
     (let ps = ps\<lparr>ps_registry := r\<rparr>
      in case io_registry io of
           Some e \<Rightarrow> (Inl (RegistryIo e), ps)
         | None \<Rightarrow>
             (let ps = ps\<lparr>ps_registry_file := Some (enc_reg r)\<rparr>;
                  (saved, st) = rename_in_store enc (io_accounts io) i to (ps_store ps);
                  ps = ps\<lparr>ps_store := st\<rparr>
              in case saved of
                   Inl e \<Rightarrow> (Inl (AccountsIo e), ps)
                 | Inr _ \<Rightarrow>
                     (Inr (), case drop_key of
                                Some path \<Rightarrow> if io_unlinked io then ps\<lparr>ps_files := (ps_files ps)(path := None)\<rparr> else ps
                              | None \<Rightarrow> ps)))"

definition rename_at ::
    "rstr \<Rightarrow> (provider_registry \<Rightarrow> rstr) \<Rightarrow> ('p user list \<Rightarrow> rstr) \<Rightarrow> rename_io \<Rightarrow> rstr \<Rightarrow> rstr \<Rightarrow> 'p proxy_state \<Rightarrow>
     (admin_error + unit) \<times> 'p proxy_state" where
  "rename_at dir enc_reg enc io i requested ps =
     (let to = trim requested; r = ps_registry ps
      in if to = i then (Inr (), ps)
         else if \<not> list_ex (\<lambda>p. pv_id p = i) (rg_providers r) then (Inl NoSuchRow, ps)
         else if list_ex (\<lambda>p. pv_id p = to) (rg_providers r) then (Inl (RowTaken to), ps)
         else case validate_provider_id to of
           Inl why \<Rightarrow> (Inl (BadRowName why), ps)
         | Inr _ \<Rightarrow>
             (let old_key = old_key_path dir i r; new_key = provider_key_path dir to;
                  moves = (ps_files ps old_key \<noteq> None \<and> old_key \<noteq> new_key)
              in case (if moves then io_copy io else None) of
                   Some e \<Rightarrow> (Inl (KeyIo e), ps)
                 | None \<Rightarrow>
                     (let ps = (if moves then ps\<lparr>ps_files := (ps_files ps)(new_key := ps_files ps old_key)\<rparr> else ps)
                      in case rename_provider i to new_key r of
                           (Inl why, _) \<Rightarrow>
                             (Inl (RenameRefused why), if moves then ps\<lparr>ps_files := (ps_files ps)(new_key := None)\<rparr> else ps)
                         | (Inr _, r') \<Rightarrow> commit_rename enc_reg enc io i to (if moves then Some old_key else None) r' ps)))"

text \<open>Removal unpins first, by display name, and goes on when an unpinning fails.\<close>

definition unpin_all :: "(rstr \<Rightarrow> rstr) \<Rightarrow> ('p user list \<Rightarrow> rstr) \<Rightarrow> (nat \<Rightarrow> save_io) \<Rightarrow> rstr list \<Rightarrow> 'p store \<Rightarrow> 'p store" where
  "unpin_all lower enc io names st =
     fold (\<lambda>(n, who) st. snd (set_provider lower enc (io n) who None st)) (enumerate 0 names) st"

definition remove_at ::
    "(rstr \<Rightarrow> rstr) \<Rightarrow> (provider_registry \<Rightarrow> rstr) \<Rightarrow> ('p user list \<Rightarrow> rstr) \<Rightarrow> (nat \<Rightarrow> save_io) \<Rightarrow> rstr option \<Rightarrow> rstr \<Rightarrow> 'p proxy_state \<Rightarrow>
     (admin_error + unit) \<times> 'p proxy_state" where
  "remove_at lower enc_reg enc io reg_io i ps =
     (let names = map display_name (filter (\<lambda>u. ac_provider u = Some i) (st_accounts (ps_store ps)));
          ps = ps\<lparr>ps_store := unpin_all lower enc io names (ps_store ps)\<rparr>;
          (found, r) = remove_provider i (ps_registry ps)
      in if \<not> found then (Inl NoSuchRow, ps)
         else (let ps = ps\<lparr>ps_registry := r\<rparr>
               in case reg_io of
                    Some e \<Rightarrow> (Inl (RegistryIo e), ps)
                  | None \<Rightarrow> (Inr (), ps\<lparr>ps_registry_file := Some (enc_reg r)\<rparr>)))"

section \<open>Lists under an injection of keys\<close>






section \<open>Routing after a rename\<close>

definition moved_id :: "rstr \<Rightarrow> rstr \<Rightarrow> rstr \<Rightarrow> rstr" where
  "moved_id i to j = (if j = i then to else j)"

definition moved_row :: "rstr \<Rightarrow> rstr \<Rightarrow> rstr \<Rightarrow> provider \<Rightarrow> provider" where
  "moved_row i to path p = (if pv_id p = i then renamed to path p else p)"

lemma moved_row_simps [simp]:
  "pv_id (moved_row i to path p) = moved_id i to (pv_id p)"
  "pv_models (moved_row i to path p) = pv_models p"
  "pv_preference (moved_row i to path p) = pv_preference p"
  "pv_peak (moved_row i to path p) = pv_peak p"
  "pv_enabled (moved_row i to path p) = pv_enabled p"
  by (simp_all add: moved_row_def moved_id_def renamed_def)

lemma moved_row_same [simp]:
  "model_for (moved_row i to path p) c now = model_for p c now"
  "serves (moved_row i to path p) m = serves p m"
  "cost_at (moved_row i to path p) md now = cost_at p md now"
  by (simp_all add: model_for_def serves_def cost_at_def)

lemma moved_row_key [simp]: "route_key now (map_prod (moved_row i to path) id pm) = route_key now pm"
  by (cases pm) (simp add: route_key_def)


lemma unusable_moved [simp]: "unusable_reason (moved_row i to path p) = unusable_reason p"
  by (simp add: unusable_reason_def user_id_refusal_def moved_row_def renamed_def split: auth.splits option.splits)


























lemma moved_simps [simp]: "moved i to None = None" "moved i to (Some j) = Some (moved_id i to j)"
  by (simp_all add: moved_def moved_id_def)






section \<open>Key files after a rename\<close>










lemma choose_loop_unserved:
  assumes "i \<notin> set (ids r)"
  shows "choose_route r requested (Some i) kind health h now = None"
proof (cases "choose_route r requested (Some i) kind health h now")
  case (Some ro)
  then obtain c p m where "choose_loop r health h now (Some i) c = Some (ro_class ro, p, m)"
    using choose_route_Some by metis
  then have "may_serve r health h (Some i) p" using choose_loop_Some by metis
  then show ?thesis using assms by (auto simp: may_serve_def ids_def)
qed

lemma pinned_unserved:
  assumes "i \<notin> set (ids r)" and "ac_provider a = Some i" and "ac_model a = None" and "ac_routes a = []"
  shows "pick_route r a requested kind health tool h now = None"
  using assms choose_loop_unserved by (simp add: pick_route_def base_route_def route_matching_def)

section \<open>Unpinning by name\<close>

lemma find_user_unnamed:
  assumes "find_user lower who st = Some x"
    and "\<forall>y \<in> set (st_accounts st). us_id y \<noteq> who \<and> lower (us_email y) \<noteq> lower (trim who)"
  shows "filter (\<lambda>y. str_contains (lower (display_name y)) (lower (trim who))) (st_accounts st) = [x]"
proof -
  have "find (\<lambda>y. us_id y = who \<or> lower (us_email y) = lower (trim who)) (st_accounts st) = None"
    using assms(2) by (auto simp: find_None_iff)
  then show ?thesis using assms(1) by (auto simp: find_user_def Let_def split: list.splits)
qed

definition plain_people :: "(rstr \<Rightarrow> rstr) \<Rightarrow> 'p user list \<Rightarrow> bool" where
  "plain_people lower us \<longleftrightarrow> distinct (map us_id us) \<and>
     (\<forall>w \<in> set us. trim (display_name w) = display_name w \<and>
        (\<forall>y \<in> set us. us_id y \<noteq> display_name w \<and> lower (us_email y) \<noteq> lower (display_name w)))"

definition identity_of :: "'p user \<Rightarrow> rstr \<times> rstr \<times> rstr" where
  "identity_of u = (us_id u, us_email u, display_name u)"

lemma plain_people_iff: "plain_people lower us \<longleftrightarrow> distinct (map fst (map identity_of us)) \<and>
    (\<forall>w \<in> set (map identity_of us). trim (snd (snd w)) = snd (snd w) \<and>
      (\<forall>y \<in> set (map identity_of us). fst y \<noteq> snd (snd w) \<and> lower (fst (snd y)) \<noteq> lower (snd (snd w))))"
  by (simp add: plain_people_def identity_of_def comp_def)

lemma plain_people_cong:
  assumes "map identity_of us = map identity_of vs"
  shows "plain_people lower us = plain_people lower vs"
  unfolding plain_people_iff assms by (rule refl)


lemma identity_update [simp]: "identity_of (u\<lparr>ac_provider := x\<rparr>) = identity_of u"
  by (simp add: identity_of_def display_name_def Let_def)

lemma set_provider_cases:
  obtains "st_accounts (snd (set_provider lower enc io who None st)) = st_accounts st"
  | x where "find_user lower who st = Some x" and
      "st_accounts (snd (set_provider lower enc io who None st)) =
        update_first (\<lambda>v. us_id v = us_id x) (\<lambda>u. u\<lparr>ac_provider := None\<rparr>) (st_accounts st)"
proof (cases "find_user lower who st")
  case None
  then have "st_accounts (snd (set_provider lower enc io who None st)) = st_accounts st"
    by (simp add: set_provider_def set_user_def commit_def edit_user_def)
  then show ?thesis by (rule that(1))
next
  case (Some x)
  have const: "find P us = Some u \<Longrightarrow> update_first P (\<lambda>_. f u) us = update_first P f us" for P f u and us :: "'a user list"
    by (induction us) auto
  show ?thesis
  proof (cases "find (\<lambda>u. us_id u = us_id x) (st_accounts st)")
    case None
    then have "st_accounts (snd (set_provider lower enc io who None st)) = st_accounts st"
      by (simp add: set_provider_def set_user_def commit_def edit_user_def Some)
    then show ?thesis by (rule that(1))
  next
    case u: (Some u)
    then have "st_accounts (snd (set_provider lower enc io who None st)) =
        update_first (\<lambda>v. us_id v = us_id x) (\<lambda>u. u\<lparr>ac_provider := None\<rparr>) (st_accounts st)"
      using const [OF u, of "\<lambda>u. u\<lparr>ac_provider := None\<rparr>"]
      by (simp add: set_provider_def set_user_def commit_store edit_user_def Some non_empty_def reindex_def)
    then show ?thesis using Some that(2) by blast
  qed
qed

lemma unpin_step:
  assumes pp: "plain_people lower (st_accounts st)" and u: "u \<in> set (st_accounts st)" and v: "v \<in> set (st_accounts st)"
    and ne: "us_id u \<noteq> us_id v" "display_name u = display_name v" and w: "w \<in> set (st_accounts st)"
  shows "u \<in> set (st_accounts (snd (set_provider lower enc io (display_name w) None st)))
    \<and> map identity_of (st_accounts (snd (set_provider lower enc io (display_name w) None st))) = map identity_of (st_accounts st)"
proof (cases rule: set_provider_cases [of lower enc io "display_name w" st])
  case 1
  then show ?thesis using u by simp
next
  case (2 x)
  have t: "trim (display_name w) = display_name w" and n: "\<forall>y \<in> set (st_accounts st). us_id y \<noteq> display_name w \<and> lower (us_email y) \<noteq> lower (trim (display_name w))"
    using pp w by (auto simp: plain_people_def)
  let ?m = "\<lambda>y. str_contains (lower (display_name y)) (lower (display_name w))"
  have x: "filter ?m (st_accounts st) = [x]" using find_user_unnamed [OF 2(1) n] t by simp
  have self: "?m w" unfolding str_contains_iff by (metis append_Nil append_Nil2)
  have only: "y = x" if "y \<in> set (st_accounts st)" "?m y" for y
  proof -
    have "y \<in> set (filter ?m (st_accounts st))" using that by simp
    then show ?thesis unfolding x by simp
  qed
  have "us_id u \<noteq> us_id x"
  proof
    assume i: "us_id u = us_id x"
    have "x \<in> set (st_accounts st)" using x by (metis filter_is_subset list.set_intros(1) subsetD)
    then have "u = x" using pp u i by (auto simp: plain_people_def distinct_map dest: inj_onD)
    then have "w = u" using only [OF w self] by simp
    then have "v = x" using only [OF v] ne(2) self by simp
    then show False using \<open>u = x\<close> ne(1) by simp
  qed
  then have "u \<in> set (update_first (\<lambda>v. us_id v = us_id x) f us)" if "u \<in> set us" for f and us :: "'a user list"
    using that by (induction us) auto
  then show ?thesis using u 2(2) by (simp add: map_update_first_same)
qed

lemma unpin_keeps_namesake:
  assumes "plain_people lower (st_accounts st)" and "u \<in> set (st_accounts st)" and "v \<in> set (st_accounts st)"
    and "us_id u \<noteq> us_id v" "display_name u = display_name v" and "set names \<subseteq> display_name ` set (st_accounts st)"
  shows "u \<in> set (st_accounts (fold (\<lambda>(n, who) st. snd (set_provider lower enc (io n) who None st)) (enumerate k names) st))"
  using assms
proof (induction names arbitrary: st k)
  case (Cons who names)
  obtain w where w: "w \<in> set (st_accounts st)" "who = display_name w" using Cons.prems(6) by auto
  let ?st = "snd (set_provider lower enc (io k) (display_name w) None st)"
  have s: "u \<in> set (st_accounts ?st)" "v \<in> set (st_accounts ?st)" and i: "map identity_of (st_accounts ?st) = map identity_of (st_accounts st)"
    using unpin_step [OF Cons.prems(1-5) w(1)] unpin_step [OF Cons.prems(1,3,2) Cons.prems(4) [symmetric] Cons.prems(5) [symmetric] w(1)]
    by auto
  have "display_name ` set us = (snd \<circ> snd) ` set (map identity_of us)" for us :: "'a user list"
    by (auto simp: identity_of_def image_image comp_def)
  then have "set names \<subseteq> display_name ` set (st_accounts ?st)" using Cons.prems(6) i by (metis list.set_intros(2) subset_iff)
  then have "u \<in> set (st_accounts (fold (\<lambda>(n, who) st. snd (set_provider lower enc (io n) who None st)) (enumerate (Suc k) names) ?st))"
    using Cons.IH [of ?st "Suc k"] s Cons.prems(1,4,5) plain_people_cong [OF i] by blast
  then show ?case by (simp add: w(2))
qed simp


section \<open>Samples\<close>

text \<open>One provider with its key in a file of its own, and two people of one name pinned to it.\<close>

definition sample_person :: "string \<Rightarrow> string \<Rightarrow> unit user" where
  "sample_person i email = (new_user (lit i) 1 () (lit ''Ada'') (lit ''L'') (lit email))\<lparr>ac_provider := Some (lit ''ds'')\<rparr>"

definition sample_admin :: "unit proxy_state" where
  "sample_admin = \<lparr>ps_registry = \<lparr>rg_providers = [mirror\<lparr>pv_id := lit ''ds'', pv_auth := ApiKeyFile (lit ''k'')\<rparr>]\<rparr>, ps_registry_file = None,
     ps_store = \<lparr>st_accounts = [sample_person ''u1'' ''a@b.c'', sample_person ''u2'' ''d@b.c''], st_index = Map.empty, st_file = None\<rparr>,
     ps_files = [lit ''k'' \<mapsto> lit ''sk'']\<rparr>"

definition sample_io :: "rstr option \<Rightarrow> rename_io" where
  "sample_io e = \<lparr>io_copy = None, io_registry = e, io_accounts = None, io_unlinked = True\<rparr>"

lemma sample_ids: "ids (ps_registry sample_admin) = [lit ''ds'']"
  by (simp add: sample_admin_def ids_def)

lemma sample_rename:
  shows "\<exists>ps'. rename_at [] (\<lambda>_. []) (\<lambda>_. []) (sample_io None) (lit ''ds'') (lit ''deep'') sample_admin = (Inr (), ps')"
    and "\<exists>ps'. rename_at [] (\<lambda>_. []) (\<lambda>_. []) (sample_io (Some (lit ''full''))) (lit ''ds'') (lit ''deep'') sample_admin =
      (Inl (RegistryIo (lit ''full'')), ps')"
    and "trim (lit ''deep'') = lit ''deep''"
proof -
  show t: "trim (lit ''deep'') = lit ''deep''" by (simp add: rust_simps)
  have v: "validate_provider_id (lit ''deep'') = Inr ()"
    by (simp add: validate_provider_id_def is_ascii_alphanumeric_def rust_simps)
  have n: "lit ''deep'' \<noteq> lit ''ds''" by (simp add: lit_def)
  show "\<exists>ps'. rename_at [] (\<lambda>_. []) (\<lambda>_. []) (sample_io None) (lit ''ds'') (lit ''deep'') sample_admin = (Inr (), ps')"
    "\<exists>ps'. rename_at [] (\<lambda>_. []) (\<lambda>_. []) (sample_io (Some (lit ''full''))) (lit ''ds'') (lit ''deep'') sample_admin =
      (Inl (RegistryIo (lit ''full'')), ps')"
    using t v n
    by (simp_all add: rename_at_def commit_rename_def rename_provider_def rename_in_store_def save_def sample_io_def sample_admin_def Let_def
        case_prod_unfold)
qed

section \<open>Properties\<close>



text \<open>A rename whose registry file cannot be written answers with a failure, yet the running registry has the new name and no account
  does: an account pinned to the provider is served by nobody.\<close>

theorem failed_rename_strands_pins:
  assumes "rename_at dir enc_reg enc io i requested ps = (Inl (RegistryIo e), ps')" and "distinct (ids (ps_registry ps))"
    and "u \<in> set (st_accounts (ps_store ps))" and "ac_provider u = Some i" and "ac_model u = None" and "ac_routes u = []"
  shows "u \<in> set (st_accounts (ps_store ps')) \<and> ps_registry_file ps' = ps_registry_file ps
    \<and> trim requested \<in> set (ids (ps_registry ps'))
    \<and> pick_route (ps_registry ps') (decision_part u) wanted kind health tool h now = None"
proof -
  let ?to = "trim requested" and ?r = "ps_registry ps"
  have i: "list_ex (\<lambda>p. pv_id p = i) (rg_providers ?r)" "\<not> list_ex (\<lambda>p. pv_id p = ?to) (rg_providers ?r)" "?to \<noteq> i"
      and v: "\<exists>u. validate_provider_id ?to = Inr u"
    using assms(1) by (simp_all add: rename_at_def Let_def split: if_splits sum.splits)
  let ?rows = "update_first (\<lambda>p. pv_id p = i) (renamed ?to (provider_key_path dir ?to)) (rg_providers ?r)"
  have rn: "rename_provider i ?to (provider_key_path dir ?to) ?r = (Inr (), \<lparr>rg_providers = ?rows\<rparr>)"
    using i v by (auto simp: rename_provider_def renamed_eta)
  have ps': "ps_registry ps' = \<lparr>rg_providers = ?rows\<rparr> \<and> ps_store ps' = ps_store ps \<and> ps_registry_file ps' = ps_registry_file ps"
    using assms(1) i v rn
    by (auto simp: rename_at_def commit_rename_def Let_def case_prod_unfold split: if_splits option.splits sum.splits)
  have "map pv_id ?rows = map (\<lambda>j. if j = i then ?to else j) (map pv_id (rg_providers ?r))"
    by (rule ids_update_first) (use assms(2) i in \<open>auto simp: ids_def list_ex_iff\<close>)
  then have "ids (ps_registry ps') = map (\<lambda>j. if j = i then ?to else j) (ids ?r)" using ps' by (simp add: ids_def)
  then have "i \<notin> set (ids (ps_registry ps'))" "?to \<in> set (ids (ps_registry ps'))"
    using i by (auto simp: ids_def list_ex_iff)
  moreover from this have "pick_route (ps_registry ps') (decision_part u) wanted kind health tool h now = None"
    by (intro pinned_unserved [where i = i]) (simp_all add: account.truncate_def assms(4-6))
  ultimately show ?thesis using ps' assms(3) by simp
qed

theorem failed_rename_strands_pins_witness:
  "\<exists>ps'. rename_at [] (\<lambda>_. []) (\<lambda>_. []) (sample_io (Some (lit ''full''))) (lit ''ds'') (lit ''deep'') sample_admin = (Inl (RegistryIo (lit ''full'')), ps') \<and>
    pick_route (ps_registry ps') (decision_part (sample_person ''u1'' ''a@b.c'')) (lit ''m'') KWork idle None plain_host 0 = None"
proof -
  obtain ps' where r: "rename_at [] (\<lambda>_. []) (\<lambda>_. []) (sample_io (Some (lit ''full''))) (lit ''ds'') (lit ''deep'') sample_admin =
      (Inl (RegistryIo (lit ''full'')), ps')"
    using sample_rename(2) by blast
  have "sample_person ''u1'' ''a@b.c'' \<in> set (st_accounts (ps_store sample_admin))" by (simp add: sample_admin_def)
  from failed_rename_strands_pins [OF r _ this] r show ?thesis
    by (auto simp: sample_ids sample_person_def new_user_def)
qed

text \<open>Removing a provider unpins the accounts routed to it by their display names, so two people of the same name are both
  left pinned to a provider that is gone, and a request of theirs is served by nobody.\<close>

theorem namesakes_stay_pinned:
  assumes "remove_at lower enc_reg enc io reg_io i ps = (Inr (), ps')"
    and "plain_people lower (st_accounts (ps_store ps))"
    and "u \<in> set (st_accounts (ps_store ps))" and "v \<in> set (st_accounts (ps_store ps))"
    and "us_id u \<noteq> us_id v" and "display_name u = display_name v"
    and "ac_provider u = Some i" and "ac_model u = None" and "ac_routes u = []"
  shows "u \<in> set (st_accounts (ps_store ps')) \<and> i \<notin> set (ids (ps_registry ps'))
    \<and> pick_route (ps_registry ps') (decision_part u) wanted kind health tool h now = None"
proof -
  have s: "ps_store ps' = unpin_all lower enc io (map display_name (filter (\<lambda>u. ac_provider u = Some i) (st_accounts (ps_store ps)))) (ps_store ps)"
    and r: "ps_registry ps' = \<lparr>rg_providers = filter (\<lambda>p. pv_id p \<noteq> i) (rg_providers (ps_registry ps))\<rparr>"
    using assms(1) by (auto simp: remove_at_def remove_provider_def Let_def split: if_splits option.splits)
  have "u \<in> set (st_accounts (ps_store ps'))"
    unfolding s unpin_all_def by (rule unpin_keeps_namesake [OF assms(2-6)]) auto
  moreover have i: "i \<notin> set (ids (ps_registry ps'))" by (auto simp: r ids_def)
  moreover have "pick_route (ps_registry ps') (decision_part u) wanted kind health tool h now = None"
    by (intro pinned_unserved [OF i]) (simp_all add: account.truncate_def assms(7-9))
  ultimately show ?thesis by blast
qed


theorem namesakes_stay_pinned_witness:
  "\<exists>ps'. remove_at to_ascii_lowercase (\<lambda>_. []) (\<lambda>_. []) (\<lambda>_. None) None (lit ''ds'') sample_admin = (Inr (), ps') \<and>
    sample_person ''u1'' ''a@b.c'' \<in> set (st_accounts (ps_store ps')) \<and>
    pick_route (ps_registry ps') (decision_part (sample_person ''u1'' ''a@b.c'')) (lit ''m'') KWork idle None plain_host 0 = None"
proof -
  let ?u = "sample_person ''u1'' ''a@b.c''" and ?v = "sample_person ''u2'' ''d@b.c''"
  obtain ps' where r: "remove_at to_ascii_lowercase (\<lambda>_. []) (\<lambda>_. []) (\<lambda>_. None) None (lit ''ds'') sample_admin = (Inr (), ps')"
    by (simp add: remove_at_def remove_provider_def Let_def sample_admin_def)
  have a: "st_accounts (ps_store sample_admin) = [?u, ?v]" by (simp add: sample_admin_def)
  have d: "display_name ?u = lit ''Ada L''" "display_name ?v = lit ''Ada L''"
    by (simp_all add: display_name_def sample_person_def new_user_def Let_def rust_simps)
  have "trim (lit ''Ada L'') = lit ''Ada L''" by (simp add: rust_simps)
  then have p: "plain_people to_ascii_lowercase (st_accounts (ps_store sample_admin))"
    unfolding plain_people_def a by (simp add: d) (simp add: sample_person_def new_user_def lit_def to_ascii_lowercase_def)
  from namesakes_stay_pinned [OF r p, of ?u ?v] r d show ?thesis
    by (auto simp: a) (auto simp: sample_person_def new_user_def lit_def)
qed

end
