(* ===== verification/Prune.thy ===== *)
theory Prune
  imports Tasks
begin

text \<open>
  Compacting the board, \<^verbatim>\<open>src/src/cli/prune.rs\<close>: which entries go, the rewrite through a temporary
  file, and the run. The outcome of the rewrite is an argument.
\<close>

definition default_days :: u64 where "default_days = 14"

record prune_args =
  pa_older_than_days :: u64
  pa_notes :: bool
  pa_all_done :: bool
  pa_dry_run :: bool

definition default_prune_args :: prune_args where
  "default_prune_args =
     \<lparr>pa_older_than_days = default_days, pa_notes = False, pa_all_done = False, pa_dry_run = False\<rparr>"

definition prune_cutoff :: "u64 \<Rightarrow> prune_args \<Rightarrow> u64" where
  "prune_cutoff now_s args = now_s - sat_mul (pa_older_than_days args) 86400"

definition compactable :: "task_view list \<Rightarrow> u64 \<Rightarrow> prune_args \<Rightarrow> rstr list" where
  "compactable tasks now_s args =
     map t_id (filter (\<lambda>t. pa_all_done args \<or> t_last_ts t \<le> prune_cutoff now_s args)
       (filter (\<lambda>t. task_state_of t = Done \<or> task_state_of t = Failed) tasks))"

definition goes :: "rstr list \<Rightarrow> u64 \<Rightarrow> prune_args \<Rightarrow> board_note \<Rightarrow> bool" where
  "goes done_ids now_s args n =
     (let is_old_note = (kind_is_note (n_kind n) \<and> n_ts n \<le> prune_cutoff now_s args);
          plain = (pa_notes args \<and> is_old_note)
      in case n_task n of
           Some task \<Rightarrow> if task \<noteq> [] \<and> \<not> kind_is_note (n_kind n) then task \<in> set done_ids else plain
         | None \<Rightarrow> plain)"

definition partition_board :: "board_note list \<Rightarrow> u64 \<Rightarrow> prune_args \<Rightarrow> board_note list \<times> board_note list" where
  "partition_board notes now_s args =
     (let done_ids = compactable (fold_tasks notes) now_s args
      in (filter (\<lambda>n. \<not> goes done_ids now_s args n) notes, filter (goes done_ids now_s args) notes))"

text \<open>
  The new text is written beside the board and renamed over it, so a failure at any point leaves the
  board as it was.
\<close>

definition rewrite_board ::
    "(board_note \<Rightarrow> rstr option) \<Rightarrow> rstr option \<Rightarrow> board_note list \<Rightarrow> rstr option \<Rightarrow> (rstr + unit) \<times> rstr option" where
  "rewrite_board enc failure keep file =
     (case failure of
        Some e \<Rightarrow> (Inl e, file)
      | None \<Rightarrow> (Inr (), Some (concat (map (encode_note_line enc) keep))))"

definition prune_run ::
    "(rchar \<Rightarrow> bool) \<Rightarrow> (board_note \<Rightarrow> rstr option) \<Rightarrow> (rstr \<Rightarrow> board_note option) \<Rightarrow> rstr option
     \<Rightarrow> u64 \<Rightarrow> prune_args \<Rightarrow> rstr option \<Rightarrow> int \<times> rstr option" where
  "prune_run u enc dec failure millis args file =
     (let notes = read_blackboard u dec file in
      if notes = [] then (0, file)
      else
        (let (keep, drop) = partition_board notes (millis div 1000) args in
         if drop = [] then (0, file)
         else if pa_dry_run args then (0, file)
         else case rewrite_board enc failure keep file of
                (Inl _, file') \<Rightarrow> (1, file')
              | (Inr _, file') \<Rightarrow> (0, file')))"

section \<open>Lemmas\<close>

lemma goes_about: "about k n \<Longrightarrow> goes ids now args n \<longleftrightarrow> k \<in> set ids"
  by (auto simp: goes_def about_def kind_is_note_def Let_def)

text \<open>Filtering entries about other tasks changes nothing the board says of a task.\<close>

lemma latest_ts_filter:
  "(\<And>n. about k n \<Longrightarrow> Q n) \<Longrightarrow> latest_ts (filter Q ns) k = latest_ts ns k"
proof -
  assume q: "\<And>n. about k n \<Longrightarrow> Q n"
  have "{n \<in> set (filter Q ns). about k n} = {n \<in> set ns. about k n}" using q by auto
  then show ?thesis by (simp only: latest_ts_Max)
qed

lemma board_says_filter:
  assumes "\<And>n. about k n \<Longrightarrow> Q n"
  shows "announcement (filter Q ns) k = announcement ns k" "award_of (filter Q ns) k = award_of ns k"
    "result_of (filter Q ns) k = result_of ns k" "bid_of (filter Q ns) k b = bid_of ns k b"
    "latest_ts (filter Q ns) k = latest_ts ns k"
proof -
  note f = choose_best_filter [where Q = Q and ns = ns]
  show "announcement (filter Q ns) k = announcement ns k" "award_of (filter Q ns) k = award_of ns k"
    "result_of (filter Q ns) k = result_of ns k" "bid_of (filter Q ns) k b = bid_of ns k b"
    unfolding announcement_def award_of_def result_of_def bid_of_def by (rule f, use assms in blast)+
  show "latest_ts (filter Q ns) k = latest_ts ns k" by (rule latest_ts_filter [OF assms])
qed

lemma view_of_same_board:
  assumes "v \<in> set (fold_tasks ns)" "w \<in> set (fold_tasks ms)" "t_id v = k" "t_id w = k"
    and "announcement ns k = announcement ms k" "award_of ns k = award_of ms k"
    "result_of ns k = result_of ms k" "\<And>b. bid_of ns k b = bid_of ms k b" "latest_ts ns k = latest_ts ms k"
  shows "v = w"
proof -
  have "finish_view v = finish_view w"
    using fold_tasks_view(1) [OF assms(1)] fold_tasks_view(1) [OF assms(2)] assms(3-)
    by (intro view_ok_determines [of ns k v ms w]) simp_all
  then show ?thesis using fold_tasks_view(2) [OF assms(1)] fold_tasks_view(2) [OF assms(2)] by simp
qed

lemma fold_tasks_sorted: "sort_views (fold_tasks ns) = fold_tasks ns"
  unfolding fold_tasks_alt sort_views_def by (rule sort_key_id_if_sorted [OF sorted_sort_key])

lemma fold_tasks_inj: "inj_on (\<lambda>v. (t_announced_ts v, t_id v)) (set (fold_tasks ns))"
  using fold_tasks_distinct [of ns] by (auto simp: inj_on_def distinct_map)

lemma fold_tasks_filter_mem:
  assumes keep: "\<And>n k. about k n \<Longrightarrow> Q n \<longleftrightarrow> k \<notin> K"
  shows "v \<in> set (fold_tasks (filter Q ns)) \<longleftrightarrow> v \<in> set (fold_tasks ns) \<and> t_id v \<notin> K"
proof -
  have ids: "t_id ` set (fold_tasks (filter Q ns)) = {k. (\<exists>n \<in> set ns. about k n) \<and> k \<notin> K}"
    unfolding fold_tasks_ids using keep by auto
  have same: "v = w"
    if "v \<in> set (fold_tasks ns)" "w \<in> set (fold_tasks (filter Q ns))" "t_id v = t_id w" for v w
  proof -
    have "t_id w \<notin> K" using ids that(2) by auto
    then have q: "\<And>n. about (t_id w) n \<Longrightarrow> Q n" using keep by blast
    show ?thesis by (rule view_of_same_board [OF that(1,2,3) refl]) (simp_all add: board_says_filter [OF q])
  qed
  show ?thesis
  proof
    assume v: "v \<in> set (fold_tasks (filter Q ns))"
    then have k: "t_id v \<in> t_id ` set (fold_tasks ns)" "t_id v \<notin> K"
      using ids fold_tasks_ids [of ns] by auto
    then obtain w where "w \<in> set (fold_tasks ns)" "t_id w = t_id v" by auto
    with same v k show "v \<in> set (fold_tasks ns) \<and> t_id v \<notin> K" by metis
  next
    assume v: "v \<in> set (fold_tasks ns) \<and> t_id v \<notin> K"
    then have "t_id v \<in> t_id ` set (fold_tasks (filter Q ns))"
      using ids fold_tasks_ids [of ns] by auto
    then obtain w where "w \<in> set (fold_tasks (filter Q ns))" "t_id w = t_id v" by auto
    with same v show "v \<in> set (fold_tasks (filter Q ns))" by metis
  qed
qed

lemma fold_tasks_filter:
  assumes keep: "\<And>n k. about k n \<Longrightarrow> Q n \<longleftrightarrow> k \<notin> K"
  shows "fold_tasks (filter Q ns) = filter (\<lambda>v. t_id v \<notin> K) (fold_tasks ns)"
proof -
  have d: "distinct (fold_tasks ms)" for ms using fold_tasks_distinct [of ms] by (simp add: distinct_map)
  have "sort_views (fold_tasks (filter Q ns)) = sort_views (filter (\<lambda>v. t_id v \<notin> K) (fold_tasks ns))"
    unfolding sort_views_def
    using d fold_tasks_inj by (intro sort_key_set) (auto simp: fold_tasks_filter_mem [OF keep])
  moreover have "sort_views (filter (\<lambda>v. t_id v \<notin> K) (fold_tasks ns)) = filter (\<lambda>v. t_id v \<notin> K) (fold_tasks ns)"
    unfolding sort_views_def
    by (rule sort_key_id_if_sorted) (simp add: fold_tasks_alt sort_views_def sorted_filter)
  ultimately show ?thesis by (simp add: fold_tasks_sorted)
qed

lemma fold_after_partition:
  "fold_tasks (fst (partition_board ns now args)) =
     filter (\<lambda>v. t_id v \<notin> set (compactable (fold_tasks ns) now args)) (fold_tasks ns)"
  unfolding partition_board_def Let_def fst_conv
  by (rule fold_tasks_filter) (simp add: goes_about)

lemma compactable_finished:
  assumes "v \<in> set (fold_tasks ns)"
  shows "t_id v \<in> set (compactable (fold_tasks ns) now args) \<longleftrightarrow>
    (task_state_of v = Done \<or> task_state_of v = Failed) \<and>
    (pa_all_done args \<or> t_last_ts v \<le> prune_cutoff now args)"
proof -
  have "w = v" if "w \<in> set (fold_tasks ns)" "t_id w = t_id v" for w
    using that assms fold_tasks_distinct [of ns] by (auto simp: distinct_map dest: inj_onD)
  then show ?thesis using assms by (auto simp: compactable_def)
qed

section \<open>Properties\<close>

text \<open>C38 Pruning removes whole finished tasks and nothing else from the folded board: what is left is the
  old board without the tasks that are finished and quiet, every live task's view unchanged.\<close>

theorem prune_folds_to_live_tasks:
  "fold_tasks (fst (partition_board ns now args)) =
     filter (\<lambda>v. \<not> ((task_state_of v = Done \<or> task_state_of v = Failed) \<and>
                   (pa_all_done args \<or> t_last_ts v \<le> prune_cutoff now args))) (fold_tasks ns)"
  unfolding fold_after_partition by (rule filter_cong [OF refl]) (simp add: compactable_finished)

text \<open>The rewrite is all or nothing: a run either fails with the board file untouched, or leaves a file
  that reads back as exactly the kept entries.\<close>

theorem prune_run_atomic:
  assumes "\<forall>n \<in> set (read_blackboard u dec file). codec_at enc dec n"
    and "prune_run u enc dec failure millis args file = (code, file')"
  shows "(code = 1 \<and> file' = file) \<or>
    (code = 0 \<and> (file' = file \<or>
      read_blackboard u dec file' = fst (partition_board (read_blackboard u dec file) (millis div 1000) args)))"
proof -
  let ?keep = "fst (partition_board (read_blackboard u dec file) (millis div 1000) args)"
  have sub: "set ?keep \<subseteq> set (read_blackboard u dec file)" by (auto simp: partition_board_def Let_def)
  have "map (backfill_id u) ?keep = ?keep"
    using sub by (intro map_idI) (auto simp: read_blackboard_text dest!: parse_notes_keyed)
  moreover have "\<forall>n \<in> set ?keep. codec_at enc dec n" using sub assms(1) by blast
  ultimately have r: "read_blackboard u dec (Some (concat (map (encode_note_line enc) ?keep))) = ?keep"
    by (simp add: read_blackboard_text file_text_def parse_encoded_lines)
  obtain keep drop where p: "partition_board (read_blackboard u dec file) (millis div 1000) args = (keep, drop)"
    by fastforce
  show ?thesis
    using assms(2) r p
    by (auto simp: prune_run_def rewrite_board_def Let_def split: if_splits option.splits)
qed

lemma prune_run_atomic_witness:
  "snd (prune_run (\<lambda>c. False) (\<lambda>n. Some [65]) (\<lambda>s. Some (sample_note KDone 10 [98] [5])) (Some [33]) 5000
     (default_prune_args\<lparr>pa_all_done := True\<rparr>) (Some [65, 10])) = Some [65, 10]"
proof -
  let ?dec = "\<lambda>s :: rstr. Some (sample_note KDone 10 [98] [5])"
  obtain code f where r: "prune_run (\<lambda>c. False) (\<lambda>n. Some [65]) ?dec (Some [33]) 5000
      (default_prune_args\<lparr>pa_all_done := True\<rparr>) (Some [65, 10]) = (code, f)" by fastforce
  have b: "read_blackboard (\<lambda>c. False) ?dec (Some [65, 10]) = [sample_note KDone 10 [98] [5]]"
    by (simp add: read_blackboard_def parse_notes_def rust_text_defs List.map_filter_def backfill_id_def
        sample_note_def)
  have "f = Some [65, 10] \<or> code = 0"
    using prune_run_atomic [OF _ r] by (auto simp: b codec_at_def rust_text_defs)
  then show ?thesis
    using r by (auto simp: prune_run_def rewrite_board_def Let_def b split: if_splits prod.splits)
qed

end
