(* ===== verification/Pty_Ring.thy ===== *)
theory Pty_Ring
  imports Prelude
begin

text \<open>
  The per-tab byte ring of \<^verbatim>\<open>src/src/pty_ring.rs\<close>: a plain tail, deflated older chunks, and a
  monotonic offset space. The deflate codec is a parameter. Offsets are naturals: a \<^verbatim>\<open>u64\<close> counts
  every byte a terminal ever printed and is not exhausted.
\<close>

type_synonym byte = "8 word"

definition default_capacity_bytes :: nat where "default_capacity_bytes = 4 * 1024 * 1024"

definition hot_max :: nat where "hot_max = 256 * 1024"

definition chunk_raw :: nat where "chunk_raw = 128 * 1024"

definition frame_cache_max :: nat where "frame_cache_max = 512 * 1024"

record cold_chunk =
  ch_raw_len :: nat
  ch_deflated :: "byte list"

text \<open>
  \<open>pr_woken\<close> counts the wake-ups sent to waiting pumps. The \<^verbatim>\<open>Arc\<close> handles that share the viewer
  count and the mirrored length with other threads are these fields.
\<close>

record pty_ring =
  pr_hot :: "byte list"
  pr_cold :: "cold_chunk list"
  pr_cold_raw :: nat
  pr_base :: nat
  pr_cap :: nat
  pr_viewers :: nat
  pr_len_mirror :: nat
  pr_frame :: "(nat \<times> nat \<times> byte list) option"
  pr_woken :: nat

definition with_capacity :: "nat \<Rightarrow> pty_ring" where
  "with_capacity cap =
     \<lparr>pr_hot = [], pr_cold = [], pr_cold_raw = 0, pr_base = 0, pr_cap = max cap 1, pr_viewers = 0,
      pr_len_mirror = 0, pr_frame = None, pr_woken = 0\<rparr>"

definition cached_frame :: "nat \<Rightarrow> nat \<Rightarrow> pty_ring \<Rightarrow> byte list option" where
  "cached_frame a b r =
     (case pr_frame r of
        Some (f, t, bytes) \<Rightarrow> if f = a \<and> t = b then Some bytes else None
      | None \<Rightarrow> None)"

definition store_frame :: "nat \<Rightarrow> nat \<Rightarrow> byte list \<Rightarrow> pty_ring \<Rightarrow> pty_ring" where
  "store_frame a b frame r = (if length frame \<le> frame_cache_max then r\<lparr>pr_frame := Some (a, b, frame)\<rparr> else r)"

definition total_len :: "pty_ring \<Rightarrow> nat" where
  "total_len r = pr_base r + (pr_cold_raw r + length (pr_hot r))"

section \<open>Appending\<close>

function compact_loop :: "(byte list \<Rightarrow> byte list) \<Rightarrow> pty_ring \<Rightarrow> pty_ring" where
  "compact_loop deflate r =
     (if hot_max < length (pr_hot r) then
        (let raw = take chunk_raw (pr_hot r) in
         compact_loop deflate
           (r\<lparr>pr_hot := drop chunk_raw (pr_hot r), pr_cold_raw := pr_cold_raw r + length raw,
              pr_cold := pr_cold r @ [\<lparr>ch_raw_len = length raw, ch_deflated = deflate raw\<rparr>]\<rparr>))
      else r)"
  by pat_completeness auto

termination
  by (relation "measure (\<lambda>(_, r). length (pr_hot r))") (auto simp: hot_max_def chunk_raw_def)

declare compact_loop.simps [simp del]

definition compact :: "(byte list \<Rightarrow> byte list) \<Rightarrow> pty_ring \<Rightarrow> pty_ring" where
  "compact deflate r = (if pr_cap r \<le> hot_max * 2 then r else compact_loop deflate r)"

function evict_loop :: "nat \<Rightarrow> pty_ring \<Rightarrow> pty_ring" where
  "evict_loop overflow r =
     (if overflow = 0 then r
      else case pr_cold r of
             front # rest \<Rightarrow>
               evict_loop (overflow - ch_raw_len front)
                 (r\<lparr>pr_cold := rest, pr_cold_raw := pr_cold_raw r - ch_raw_len front,
                    pr_base := pr_base r + ch_raw_len front\<rparr>)
           | [] \<Rightarrow> r\<lparr>pr_hot := drop overflow (pr_hot r), pr_base := pr_base r + overflow\<rparr>)"
  by pat_completeness auto

termination
  by (relation "measure (\<lambda>(_, r). length (pr_cold r))") auto

declare evict_loop.simps [simp del]

definition evict_over_cap :: "pty_ring \<Rightarrow> pty_ring" where
  "evict_over_cap r = evict_loop ((pr_cold_raw r + length (pr_hot r)) - pr_cap r) r"

definition push_inner :: "(byte list \<Rightarrow> byte list) \<Rightarrow> byte list \<Rightarrow> pty_ring \<Rightarrow> pty_ring" where
  "push_inner deflate data r =
     (if pr_cap r \<le> length data then
        (let dropped = pr_cold_raw r + length (pr_hot r);
             skip = length data - pr_cap r
         in compact deflate
              (r\<lparr>pr_cold := [], pr_cold_raw := 0, pr_base := pr_base r + dropped + skip,
                 pr_hot := drop skip data\<rparr>))
      else evict_over_cap (compact deflate (r\<lparr>pr_hot := pr_hot r @ data\<rparr>)))"

definition push :: "(byte list \<Rightarrow> byte list) \<Rightarrow> byte list \<Rightarrow> pty_ring \<Rightarrow> pty_ring" where
  "push deflate data r0 =
     (let r1 = push_inner deflate data r0;
          r = r1\<lparr>pr_len_mirror := total_len r1\<rparr>
      in if data \<noteq> [] \<and> 0 < pr_viewers r then r\<lparr>pr_woken := Suc (pr_woken r)\<rparr>
         else if pr_frame r \<noteq> None then r\<lparr>pr_frame := None\<rparr>
         else r)"

section \<open>Reading\<close>

text \<open>The walk over the cold chunks, from position \<open>pos\<close>.\<close>

fun cold_from :: "(byte list \<Rightarrow> byte list) \<Rightarrow> nat \<Rightarrow> nat \<Rightarrow> cold_chunk list \<Rightarrow> byte list" where
  "cold_from inflate start pos [] = []"
| "cold_from inflate start pos (c # cs) =
     (let end_pos = pos + ch_raw_len c in
      (if start < end_pos then drop (start - pos) (inflate (ch_deflated c)) else [])
        @ cold_from inflate start end_pos cs)"

definition since :: "(byte list \<Rightarrow> byte list) \<Rightarrow> nat \<Rightarrow> pty_ring \<Rightarrow> byte list" where
  "since inflate offset r =
     (if total_len r \<le> offset then []
      else
        (let start = max offset (pr_base r);
             hot_start = pr_base r + pr_cold_raw r
         in if hot_start \<le> start then drop (start - hot_start) (pr_hot r)
            else cold_from inflate start (pr_base r) (pr_cold r) @ pr_hot r))"

definition stored_bytes :: "pty_ring \<Rightarrow> nat" where
  "stored_bytes r = sum_list (map (\<lambda>c. length (ch_deflated c)) (pr_cold r)) + length (pr_hot r)"

text \<open>The tap mirrors what a read brought into the ring; a read that fails or is empty changes nothing.\<close>

definition tap_read :: "(byte list \<Rightarrow> byte list) \<Rightarrow> rstr + byte list \<Rightarrow> pty_ring \<Rightarrow> (rstr + byte list) \<times> pty_ring" where
  "tap_read deflate got r =
     (case got of
        Inl e \<Rightarrow> (Inl e, r)
      | Inr bytes \<Rightarrow> (Inr bytes, if bytes \<noteq> [] then push deflate bytes r else r))"

section \<open>What a ring remembers\<close>

text \<open>
  A ring stands for the stream of everything pushed: it holds the stream from its base on, in chunks
  that inflate to their recorded length and the plain tail.
\<close>

definition contents :: "(byte list \<Rightarrow> byte list) \<Rightarrow> pty_ring \<Rightarrow> byte list" where
  "contents inflate r = concat (map (\<lambda>c. inflate (ch_deflated c)) (pr_cold r)) @ pr_hot r"

definition chunks_ok :: "(byte list \<Rightarrow> byte list) \<Rightarrow> pty_ring \<Rightarrow> bool" where
  "chunks_ok inflate r \<longleftrightarrow>
     (\<forall>c \<in> set (pr_cold r). length (inflate (ch_deflated c)) = ch_raw_len c \<and> ch_raw_len c \<le> chunk_raw) \<and>
     pr_cold_raw r = sum_list (map ch_raw_len (pr_cold r))"

definition holds_stream :: "(byte list \<Rightarrow> byte list) \<Rightarrow> byte list \<Rightarrow> pty_ring \<Rightarrow> bool" where
  "holds_stream inflate stream r \<longleftrightarrow>
     chunks_ok inflate r \<and> pr_base r \<le> length stream \<and> contents inflate r = drop (pr_base r) stream"

definition codec_ok :: "(byte list \<Rightarrow> byte list) \<Rightarrow> (byte list \<Rightarrow> byte list) \<Rightarrow> bool" where
  "codec_ok deflate inflate \<longleftrightarrow> (\<forall>b. inflate (deflate b) = b)"

lemma contents_length: "chunks_ok inflate r \<Longrightarrow> length (contents inflate r) = pr_cold_raw r + length (pr_hot r)"
proof -
  assume c: "chunks_ok inflate r"
  have "(\<forall>c \<in> set cs. length (inflate (ch_deflated c)) = ch_raw_len c) \<Longrightarrow>
      length (concat (map (\<lambda>c. inflate (ch_deflated c)) cs)) = sum_list (map ch_raw_len cs)" for cs
    by (induction cs) auto
  from this [of "pr_cold r"] c show ?thesis by (simp add: contents_def chunks_ok_def)
qed

lemma holds_total: "holds_stream inflate stream r \<Longrightarrow> total_len r = length stream"
  using contents_length [of inflate r] by (auto simp: holds_stream_def total_len_def)

text \<open>Compacting changes where the bytes are, not which.\<close>

lemma compact_loop_ok:
  "codec_ok deflate inflate \<Longrightarrow> chunks_ok inflate r \<Longrightarrow>
     chunks_ok inflate (compact_loop deflate r) \<and>
     contents inflate (compact_loop deflate r) = contents inflate r \<and>
     pr_base (compact_loop deflate r) = pr_base r \<and> pr_cap (compact_loop deflate r) = pr_cap r \<and>
     pr_viewers (compact_loop deflate r) = pr_viewers r \<and> length (pr_hot (compact_loop deflate r)) \<le> max hot_max (length (pr_hot r))"
proof (induction deflate r rule: compact_loop.induct)
  case (1 deflate r)
  show ?case
  proof (cases "hot_max < length (pr_hot r)")
    case False
    then show ?thesis using "1.prems" by (subst (1 2 3 4 5 6) compact_loop.simps) simp
  next
    case True
    let ?raw = "take chunk_raw (pr_hot r)"
    define s where "s = r\<lparr>pr_hot := drop chunk_raw (pr_hot r), pr_cold_raw := pr_cold_raw r + length ?raw,
              pr_cold := pr_cold r @ [\<lparr>ch_raw_len = length ?raw, ch_deflated = deflate ?raw\<rparr>]\<rparr>"
    have s: "chunks_ok inflate s" "contents inflate s = contents inflate r"
      "pr_base s = pr_base r" "pr_cap s = pr_cap r" "pr_viewers s = pr_viewers r"
      "length (pr_hot s) \<le> length (pr_hot r)"
      using "1.prems" by (auto simp: s_def chunks_ok_def codec_ok_def contents_def)
    have u: "compact_loop deflate r = compact_loop deflate s"
      using True unfolding s_def by (subst compact_loop.simps) (simp only: Let_def if_True)
    note IH = "1.IH" [OF True refl "1.prems"(1), folded s_def, OF s(1)]
    show ?thesis unfolding u using IH s by auto
  qed
qed

lemma compact_ok:
  "codec_ok deflate inflate \<Longrightarrow> chunks_ok inflate r \<Longrightarrow>
     chunks_ok inflate (compact deflate r) \<and> contents inflate (compact deflate r) = contents inflate r \<and>
     pr_base (compact deflate r) = pr_base r \<and> pr_cap (compact deflate r) = pr_cap r \<and>
     pr_viewers (compact deflate r) = pr_viewers r"
  by (simp add: compact_def compact_loop_ok)

text \<open>Evicting drops a prefix and moves the base with it.\<close>

lemma evict_loop_ok:
  "chunks_ok inflate r \<Longrightarrow> n \<le> pr_cold_raw r + length (pr_hot r) \<Longrightarrow>
     \<exists>d. chunks_ok inflate (evict_loop n r) \<and> contents inflate (evict_loop n r) = drop d (contents inflate r) \<and>
       d \<le> length (contents inflate r) \<and> n \<le> d \<and> d < n + chunk_raw + (if n = 0 then 1 else 0) \<and>
       pr_base (evict_loop n r) = pr_base r + d \<and> pr_cap (evict_loop n r) = pr_cap r \<and>
       pr_viewers (evict_loop n r) = pr_viewers r"
proof (induction n r rule: evict_loop.induct)
  case (1 n r)
  have pos: "0 < chunk_raw" by (simp add: chunk_raw_def)
  show ?case
  proof (cases "n = 0")
    case True
    then show ?thesis using "1.prems" by (intro exI [of _ 0]) (simp add: evict_loop.simps)
  next
    case n: False
    show ?thesis
    proof (cases "pr_cold r")
      case Nil
      have "n \<le> length (contents inflate r)" using contents_length [OF "1.prems"(1)] "1.prems"(2) by simp
      moreover have "evict_loop n r = r\<lparr>pr_hot := drop n (pr_hot r), pr_base := pr_base r + n\<rparr>"
        using n Nil by (simp add: evict_loop.simps)
      ultimately show ?thesis
        using "1.prems" Nil n pos by (intro exI [of _ n]) (simp add: chunks_ok_def contents_def)
    next
      case (Cons c cs)
      let ?s = "r\<lparr>pr_cold := cs, pr_cold_raw := pr_cold_raw r - ch_raw_len c, pr_base := pr_base r + ch_raw_len c\<rparr>"
      have u: "evict_loop n r = evict_loop (n - ch_raw_len c) ?s"
        using n Cons by (subst evict_loop.simps) simp
      have c: "length (inflate (ch_deflated c)) = ch_raw_len c" "ch_raw_len c \<le> chunk_raw"
        "pr_cold_raw r = ch_raw_len c + sum_list (map ch_raw_len cs)"
        using "1.prems"(1) Cons by (simp_all add: chunks_ok_def)
      have s: "chunks_ok inflate ?s" using "1.prems"(1) Cons by (simp add: chunks_ok_def)
      have cs: "contents inflate r = inflate (ch_deflated c) @ contents inflate ?s"
        by (simp add: contents_def Cons)
      have le: "n - ch_raw_len c \<le> pr_cold_raw ?s + length (pr_hot ?s)" using "1.prems"(2) c(3) by simp
      obtain d where d: "chunks_ok inflate (evict_loop (n - ch_raw_len c) ?s)"
        "contents inflate (evict_loop (n - ch_raw_len c) ?s) = drop d (contents inflate ?s)"
        "d \<le> length (contents inflate ?s)" "n - ch_raw_len c \<le> d"
        "d < n - ch_raw_len c + chunk_raw + (if n - ch_raw_len c = 0 then 1 else 0)"
        "pr_base (evict_loop (n - ch_raw_len c) ?s) = pr_base ?s + d"
        "pr_cap (evict_loop (n - ch_raw_len c) ?s) = pr_cap ?s"
        "pr_viewers (evict_loop (n - ch_raw_len c) ?s) = pr_viewers ?s"
        using "1.IH" [OF n Cons s le] by blast
      have d0: "n - ch_raw_len c = 0 \<Longrightarrow> d = 0"
      proof -
        assume z: "n - ch_raw_len c = 0"
        have "evict_loop (n - ch_raw_len c) ?s = ?s" by (simp add: z evict_loop.simps)
        then show "d = 0" using d(6) by simp
      qed
      have "d + ch_raw_len c < n + chunk_raw"
        using d(5) d0 c(2) n by (cases "n - ch_raw_len c = 0") auto
      then show ?thesis
        unfolding u using d c(1) cs n
        by (intro exI [of _ "ch_raw_len c + d"]) auto
    qed
  qed
qed

section \<open>Reading is reading the stream\<close>

lemma cold_from_drop:
  "\<forall>c \<in> set cs. length (inflate (ch_deflated c)) = ch_raw_len c \<Longrightarrow>
     cold_from inflate start pos cs = drop (start - pos) (concat (map (\<lambda>c. inflate (ch_deflated c)) cs))"
proof (induction cs arbitrary: pos)
  case Nil
  then show ?case by simp
next
  case (Cons c cs)
  then show ?case by (cases "start < pos + ch_raw_len c") (auto simp: Let_def)
qed

lemma since_drop:
  assumes h: "holds_stream inflate stream r"
  shows "since inflate offset r = drop (max offset (pr_base r)) stream"
proof (cases "total_len r \<le> offset")
  case True
  then show ?thesis using holds_total [OF h] by (simp add: since_def)
next
  case False
  let ?C = "concat (map (\<lambda>c. inflate (ch_deflated c)) (pr_cold r))"
  let ?start = "max offset (pr_base r)"
  have len: "\<forall>c \<in> set (pr_cold r). length (inflate (ch_deflated c)) = ch_raw_len c" and ok: "chunks_ok inflate r"
    and c: "?C @ pr_hot r = drop (pr_base r) stream"
    using h by (auto simp: holds_stream_def chunks_ok_def contents_def)
  have l: "length ?C = pr_cold_raw r"
    using contents_length [OF ok] by (simp add: contents_def)
  have "drop ?start stream = drop (?start - pr_base r) (drop (pr_base r) stream)" by simp
  also have "\<dots> = drop (?start - pr_base r) (?C @ pr_hot r)" by (simp only: c)
  finally have d: "drop ?start stream = drop (?start - pr_base r) ?C @ drop (?start - pr_base r - pr_cold_raw r) (pr_hot r)"
    by (simp only: drop_append l)
  show ?thesis
  proof (cases "pr_base r + pr_cold_raw r \<le> ?start")
    case True
    then have "drop (?start - pr_base r) ?C = []" using l by auto
    moreover have "?start - pr_base r - pr_cold_raw r = ?start - (pr_base r + pr_cold_raw r)" by simp
    ultimately show ?thesis using False True d by (simp add: since_def Let_def del: max_def)
  next
    case cold: False
    then have "?start - pr_base r - pr_cold_raw r = 0" by simp
    then show ?thesis using False cold d cold_from_drop [OF len, of ?start "pr_base r"]
      by (simp add: since_def Let_def)
  qed
qed

section \<open>The invariant\<close>

text \<open>
  Beside holding the stream a ring stays within its capacity, and once it has dropped anything it
  holds at least its capacity less one chunk.
\<close>

definition ring_inv :: "(byte list \<Rightarrow> byte list) \<Rightarrow> byte list \<Rightarrow> pty_ring \<Rightarrow> bool" where
  "ring_inv inflate stream r \<longleftrightarrow>
     holds_stream inflate stream r \<and> 0 < pr_cap r \<and> length stream - pr_base r \<le> pr_cap r \<and>
     (pr_base r = 0 \<or> pr_cap r < length stream - pr_base r + chunk_raw)"

lemma ring_inv_new: "ring_inv inflate [] (with_capacity cap)"
  by (simp add: ring_inv_def holds_stream_def chunks_ok_def contents_def with_capacity_def)

lemma push_inner_inv:
  assumes codec: "codec_ok deflate inflate" and inv: "ring_inv inflate stream r"
  shows "ring_inv inflate (stream @ data) (push_inner deflate data r) \<and> pr_cap (push_inner deflate data r) = pr_cap r"
proof -
  have h: "chunks_ok inflate r" "pr_base r \<le> length stream" "contents inflate r = drop (pr_base r) stream"
    and cap: "0 < pr_cap r" using inv by (simp_all add: ring_inv_def holds_stream_def)
  have held: "pr_cold_raw r + length (pr_hot r) = length stream - pr_base r"
    using contents_length [OF h(1)] h(3) by simp
  show ?thesis
  proof (cases "pr_cap r \<le> length data")
    case True
    let ?s = "r\<lparr>pr_cold := [], pr_cold_raw := 0,
        pr_base := pr_base r + (pr_cold_raw r + length (pr_hot r)) + (length data - pr_cap r),
        pr_hot := drop (length data - pr_cap r) data\<rparr>"
    have p: "push_inner deflate data r = compact deflate ?s"
      using True by (simp add: push_inner_def Let_def add.assoc)
    have s: "chunks_ok inflate ?s" by (simp add: chunks_ok_def)
    have b: "pr_base ?s = length stream + (length data - pr_cap r)" using held h(2) by simp
    have c: "contents inflate ?s = drop (pr_base ?s) (stream @ data)"
      unfolding b by (simp add: contents_def)
    show ?thesis
      unfolding p using compact_ok [OF codec s] b c cap True
      by (auto simp: ring_inv_def holds_stream_def chunk_raw_def)
  next
    case False
    let ?a = "r\<lparr>pr_hot := pr_hot r @ data\<rparr>"
    define s where "s = compact deflate ?a"
    have a: "chunks_ok inflate ?a" using h(1) by (simp add: chunks_ok_def)
    have s: "chunks_ok inflate s" "contents inflate s = contents inflate r @ data" "pr_base s = pr_base r"
      "pr_cap s = pr_cap r"
      using compact_ok [OF codec a] by (simp_all add: s_def contents_def)
    have len: "pr_cold_raw s + length (pr_hot s) = length stream - pr_base r + length data"
      using contents_length [OF s(1)] s(2) h(3) by simp
    define n where "n = length stream - pr_base r + length data - pr_cap r"
    have le: "n \<le> pr_cold_raw s + length (pr_hot s)" by (simp add: n_def len)
    have p: "push_inner deflate data r = evict_loop n s"
      using False by (simp add: push_inner_def evict_over_cap_def s_def [symmetric] len s(4) n_def)
    obtain d where d: "chunks_ok inflate (evict_loop n s)" "contents inflate (evict_loop n s) = drop d (contents inflate s)"
      "d \<le> length (contents inflate s)" "n \<le> d" "d < n + chunk_raw + (if n = 0 then 1 else 0)"
      "pr_base (evict_loop n s) = pr_base s + d" "pr_cap (evict_loop n s) = pr_cap s"
      using evict_loop_ok [OF s(1) le] by blast
    have d0: "n = 0 \<Longrightarrow> d = 0" using d(6) by (simp add: evict_loop.simps)
    have dl: "d \<le> length stream - pr_base r + length data" using d(3) s(2) h(3) by simp
    have "contents inflate (evict_loop n s) = drop (pr_base r + d) (stream @ data)"
      using d(2) s(2) h(2,3) by (simp add: drop_append add.commute)
    moreover have "pr_base r + d \<le> length (stream @ data)" using dl h(2) by simp
    moreover have "length (stream @ data) - (pr_base r + d) \<le> pr_cap r"
      using d(4) h(2) by (simp add: n_def)
    moreover have "pr_base r + d = 0 \<or> pr_cap r < length (stream @ data) - (pr_base r + d) + chunk_raw"
    proof (cases "n = 0")
      case True
      then show ?thesis using d0 inv by (auto simp: ring_inv_def)
    next
      case False
      define L where "L = length stream - pr_base r + length data"
      have "length (stream @ data) - (pr_base r + d) = L - d" using h(2) by (simp add: L_def)
      moreover have "d \<le> L" "d < L - pr_cap r + chunk_raw" "L - pr_cap r \<noteq> 0"
        using d(5) dl False by (simp_all add: L_def n_def)
      ultimately show ?thesis by linarith
    qed
    ultimately show ?thesis
      unfolding p using d s cap by (simp add: ring_inv_def holds_stream_def)
  qed
qed

lemma ring_inv_cong:
  "pr_cold r = pr_cold q \<Longrightarrow> pr_cold_raw r = pr_cold_raw q \<Longrightarrow> pr_hot r = pr_hot q \<Longrightarrow> pr_base r = pr_base q \<Longrightarrow>
     pr_cap r = pr_cap q \<Longrightarrow> ring_inv inflate stream r = ring_inv inflate stream q"
  by (simp add: ring_inv_def holds_stream_def chunks_ok_def contents_def)

lemma push_inv:
  assumes "codec_ok deflate inflate" "ring_inv inflate stream r"
  shows "ring_inv inflate (stream @ data) (push deflate data r)" "pr_cap (push deflate data r) = pr_cap r"
    "pr_len_mirror (push deflate data r) = total_len (push deflate data r)"
proof -
  have "ring_inv inflate (stream @ data) (push deflate data r) = ring_inv inflate (stream @ data) (push_inner deflate data r)"
    by (rule ring_inv_cong) (simp_all add: push_def Let_def)
  then show "ring_inv inflate (stream @ data) (push deflate data r)" using push_inner_inv [OF assms] by blast
  show "pr_cap (push deflate data r) = pr_cap r"
    using push_inner_inv [OF assms] by (auto simp: push_def Let_def)
  show "pr_len_mirror (push deflate data r) = total_len (push deflate data r)"
    by (auto simp: push_def Let_def total_len_def)
qed

definition pushes :: "(byte list \<Rightarrow> byte list) \<Rightarrow> nat \<Rightarrow> byte list list \<Rightarrow> pty_ring" where
  "pushes deflate cap datas = foldl (\<lambda>r d. push deflate d r) (with_capacity cap) datas"

lemma pushes_inv:
  "codec_ok deflate inflate \<Longrightarrow>
     ring_inv inflate (concat datas) (pushes deflate cap datas) \<and> pr_cap (pushes deflate cap datas) = max cap 1"
proof (induction datas rule: rev_induct)
  case Nil
  then show ?case by (simp add: pushes_def ring_inv_new) (simp add: with_capacity_def)
next
  case (snoc d datas)
  then show ?case using push_inv [of deflate inflate "concat datas" "pushes deflate cap datas" d]
    by (simp add: pushes_def)
qed

section \<open>Properties\<close>

text \<open>C23 Whatever was pushed, however it was cut, compacted and evicted, reading from an offset gives the
  stream from there on, or from the oldest byte still held; the offsets count the whole stream.\<close>

theorem ring_replays_stream:
  assumes "codec_ok deflate inflate"
  shows "since inflate offset (pushes deflate cap datas) =
      drop (max offset (pr_base (pushes deflate cap datas))) (concat datas) \<and>
    total_len (pushes deflate cap datas) = length (concat datas)"
  using pushes_inv [OF assms, of datas cap] since_drop holds_total by (auto simp: ring_inv_def)

lemma ring_replays_stream_witness:
  "since (\<lambda>b. b) 2 (pushes (\<lambda>b. b) 3 [[1, 2], [3, 4]]) = [3, 4]"
proof -
  have "pr_base (pushes (\<lambda>b. b) 3 [[1, 2], [3, 4]]) = 1"
    by (simp add: pushes_def with_capacity_def push_def push_inner_def compact_def evict_over_cap_def
        evict_loop.simps hot_max_def)
  then show ?thesis
    using ring_replays_stream [of "\<lambda>b. b" "\<lambda>b. b" 2 3 "[[1, 2], [3, 4]]"] by (simp add: codec_ok_def)
qed

text \<open>The ring is bounded and forgets no more than it must: it never holds more than its capacity, and
  once anything has aged out it still holds its capacity less at most one chunk.\<close>

theorem ring_bounded:
  assumes "codec_ok deflate inflate"
  shows "length (contents inflate (pushes deflate cap datas)) \<le> max cap 1 \<and>
    (contents inflate (pushes deflate cap datas) = concat datas \<or>
     max cap 1 < length (contents inflate (pushes deflate cap datas)) + chunk_raw)"
proof -
  have inv: "ring_inv inflate (concat datas) (pushes deflate cap datas)" and c: "pr_cap (pushes deflate cap datas) = max cap 1"
    using pushes_inv [OF assms, of datas cap] by auto
  then have "contents inflate (pushes deflate cap datas) = drop (pr_base (pushes deflate cap datas)) (concat datas)"
    by (simp add: ring_inv_def holds_stream_def)
  then show ?thesis using inv unfolding ring_inv_def c by auto
qed

lemma ring_bounded_witness:
  "length (contents (\<lambda>b. b) (pushes (\<lambda>b. b) 3 [[1, 2], [3, 4]])) \<le> 3"
  using ring_bounded [of "\<lambda>b. b" "\<lambda>b. b" 3 "[[1, 2], [3, 4]]"] by (simp add: codec_ok_def)

end
