(* ===== verification/Qos.thy ===== *)
theory Qos
  imports Budget OrderedMap
begin

text \<open>
  Sharing one upstream quota, \<^verbatim>\<open>src/crates/tab-atelier-proxy/src/qos.rs\<close>: the weighted fair scheduler, its admission and
  settling, and what the relay (\<^verbatim>\<open>http/controllers/relay.rs\<close>) tells it about each call. The source computes shares in
  double precision; here they are exact rationals. Times are milliseconds, and the clock is an argument.
\<close>

section \<open>The scheduler\<close>

definition max_wait_ms :: nat where
  "max_wait_ms = 5000"

definition burst_secs :: rat where
  "burst_secs = 10"

definition headroom :: nat where
  "headroom = 2000"

definition idle_after_ms :: nat where
  "idle_after_ms = 60000"

datatype admission = AdmitGo nat | AdmitWait nat | AdmitReject nat

record quota_account =
  qa_weight :: nat
  qa_credit :: rat
  qa_inflight :: nat
  qa_last_seen :: nat

definition quota_active :: "nat \<Rightarrow> quota_account \<Rightarrow> bool" where
  "quota_active now a \<longleftrightarrow> 0 < qa_inflight a \<or> now - qa_last_seen a < idle_after_ms"

record sched =
  sc_accounts :: "(rstr, quota_account) omap"
  sc_budget :: "nat option"
  sc_window_reset :: nat
  sc_backoff_until :: nat
  sc_last_accrual :: nat
  sc_admitted :: nat
  sc_rejected :: nat

definition new_sched :: sched where
  "new_sched = \<lparr>sc_accounts = [], sc_budget = None, sc_window_reset = 0, sc_backoff_until = 0, sc_last_accrual = 0,
     sc_admitted = 0, sc_rejected = 0\<rparr>"

text \<open>\<^verbatim>\<open>get_mut\<close>: an entry changed in place.\<close>

definition om_update :: "'k \<Rightarrow> ('v \<Rightarrow> 'v) \<Rightarrow> ('k, 'v) omap \<Rightarrow> ('k, 'v) omap" where
  "om_update k f m = map (\<lambda>(a, v). (a, if a = k then f v else v)) m"

definition quota_rate :: "sched \<Rightarrow> nat \<Rightarrow> rat option" where
  "quota_rate s now = map_option (\<lambda>b. of_nat b * 1000 / of_nat (max 1 (sc_window_reset s - now))) (sc_budget s)"

definition account_weight :: "quota_account \<Rightarrow> nat" where
  "account_weight a = max 1 (qa_weight a)"

definition total_weight :: "nat \<Rightarrow> sched \<Rightarrow> nat" where
  "total_weight now s = sum_list (map account_weight (filter (quota_active now) (om_values (sc_accounts s))))"

definition accrue_account :: "rat \<Rightarrow> rat \<Rightarrow> nat \<Rightarrow> nat \<Rightarrow> quota_account \<Rightarrow> quota_account" where
  "accrue_account r dt whole now a =
     (if \<not> quota_active now a then a\<lparr>qa_credit := min (qa_credit a) 0\<rparr>
      else (let share = of_nat (account_weight a) / of_nat whole;
                earned = r * share * dt;
                ceiling = r * share * burst_secs
            in a\<lparr>qa_credit := min (qa_credit a + earned) (max ceiling 1)\<rparr>))"

definition accrue :: "nat \<Rightarrow> sched \<Rightarrow> sched" where
  "accrue now s =
     (case quota_rate s now of
        None \<Rightarrow> s\<lparr>sc_last_accrual := now\<rparr>
      | Some r \<Rightarrow>
          (let dt = of_nat (now - sc_last_accrual s) / 1000; s = s\<lparr>sc_last_accrual := now\<rparr>; whole = total_weight now s
           in if dt \<le> 0 \<or> whole = 0 then s
              else s\<lparr>sc_accounts := map (\<lambda>(k, a). (k, accrue_account r dt whole now a)) (sc_accounts s)\<rparr>))"

definition charge :: "rstr \<Rightarrow> nat \<Rightarrow> nat \<Rightarrow> sched \<Rightarrow> sched" where
  "charge i est now s =
     s\<lparr>sc_accounts := om_update i (\<lambda>a. a\<lparr>qa_credit := qa_credit a - of_nat est, qa_inflight := qa_inflight a + 1, qa_last_seen := now\<rparr>)
         (sc_accounts s),
       sc_budget := map_option (\<lambda>b. b - est) (sc_budget s)\<rparr>"

definition div_ceil :: "nat \<Rightarrow> nat \<Rightarrow> nat" where
  "div_ceil a b = (a + b - 1) div b"

text \<open>A window that has rolled over makes the last reading stale.\<close>

definition roll_window :: "nat \<Rightarrow> sched \<Rightarrow> sched" where
  "roll_window now s =
     (if sc_window_reset s \<noteq> 0 \<and> sc_window_reset s \<le> now then s\<lparr>sc_budget := None, sc_window_reset := 0\<rparr> else s)"

definition see_account :: "rstr \<Rightarrow> nat \<Rightarrow> nat \<Rightarrow> sched \<Rightarrow> sched" where
  "see_account i weight now s =
     (let entry = (case om_get (sc_accounts s) i of
                     Some a \<Rightarrow> a
                   | None \<Rightarrow> \<lparr>qa_weight = weight, qa_credit = 0, qa_inflight = 0, qa_last_seen = now\<rparr>)
      in s\<lparr>sc_accounts := om_insert i (entry\<lparr>qa_weight := weight, qa_last_seen := now\<rparr>) (sc_accounts s)\<rparr>)"

definition admit_go :: "rstr \<Rightarrow> nat \<Rightarrow> nat \<Rightarrow> sched \<Rightarrow> admission \<times> sched" where
  "admit_go i est now s = (let s = charge i est now s in (AdmitGo est, s\<lparr>sc_admitted := sc_admitted s + 1\<rparr>))"

definition turn_away :: "nat \<Rightarrow> sched \<Rightarrow> admission \<times> sched" where
  "turn_away retry_after s = (AdmitReject retry_after, s\<lparr>sc_rejected := sc_rejected s + 1\<rparr>)"

definition try_admit :: "rstr \<Rightarrow> nat \<Rightarrow> nat \<Rightarrow> nat \<Rightarrow> nat \<Rightarrow> sched \<Rightarrow> admission \<times> sched" where
  "try_admit i weight est now waited s =
     (let weight = max 1 weight; est = max 1 est
      in if now < sc_backoff_until s then
           (let left = sc_backoff_until s - now
            in if max_wait_ms \<le> waited then turn_away (max 1 (div_ceil left 1000)) s else (AdmitWait (min left 500), s))
         else
           (let s = see_account i weight now (roll_window now s)
            in case quota_rate s now of
                 None \<Rightarrow> admit_go i est now s
               | Some r \<Rightarrow>
                   (let s = accrue now s
                    in if (case sc_budget s of Some b \<Rightarrow> b - est < headroom | None \<Rightarrow> False) then
                         (if max_wait_ms \<le> waited then turn_away (max 1 (div_ceil (sc_window_reset s - now) 1000)) s
                          else (AdmitWait 250, s))
                       else
                         (let credit = (case om_get (sc_accounts s) i of Some a \<Rightarrow> qa_credit a | None \<Rightarrow> 0)
                          in if of_nat est \<le> credit then admit_go i est now s
                             else
                               (let whole = total_weight now s;
                                    share = of_nat weight / of_nat (max 1 whole);
                                    per_sec = max (r * share) 1;
                                    secs = (of_nat est - credit) / per_sec
                                in if max_wait_ms \<le> waited then turn_away (clamp 1 60 (nat \<lceil>secs\<rceil>)) s
                                   else (AdmitWait (clamp 20 500 (nat \<lfloor>secs * 1000\<rfloor>)), s))))))"

definition settle :: "rstr \<Rightarrow> nat \<Rightarrow> nat \<Rightarrow> nat \<Rightarrow> sched \<Rightarrow> sched" where
  "settle i est actual now s =
     s\<lparr>sc_accounts := om_update i (\<lambda>a. a\<lparr>qa_inflight := qa_inflight a - 1, qa_last_seen := now,
           qa_credit := qa_credit a - (of_nat actual - of_nat est)\<rparr>) (sc_accounts s),
       sc_budget := map_option (\<lambda>b. if est < actual then b - (actual - est) else sat_add b (est - actual)) (sc_budget s)\<rparr>"

text \<open>A sum of 64-bit integers wraps.\<close>

definition observe_limits :: "nat option \<Rightarrow> nat option \<Rightarrow> nat \<Rightarrow> sched \<Rightarrow> sched" where
  "observe_limits remaining reset_in now s =
     (let s = (case remaining of Some r \<Rightarrow> s\<lparr>sc_budget := Some r\<rparr> | None \<Rightarrow> s);
          s = (case reset_in of Some secs \<Rightarrow> s\<lparr>sc_window_reset := (now + secs * 1000) mod 2 ^ 64\<rparr> | None \<Rightarrow> s)
      in if sc_last_accrual s = 0 then s\<lparr>sc_last_accrual := now\<rparr> else s)"

definition on_429 :: "nat option \<Rightarrow> nat \<Rightarrow> sched \<Rightarrow> sched" where
  "on_429 retry_after now s =
     (let wait = clamp 1 300 (case retry_after of Some r \<Rightarrow> r | None \<Rightarrow> 5); until = now + wait * 1000
      in s\<lparr>sc_backoff_until := until, sc_budget := Some 0, sc_window_reset := until\<rparr>)"

text \<open>The guess before the call: four bytes a token, and what the caller reserved. \<open>parsed\<close> is the body read as JSON.\<close>

definition estimate_cost :: "nat \<Rightarrow> json option \<Rightarrow> nat" where
  "estimate_cost len parsed =
     (let max_tokens = (case as_u64 (Option.bind parsed (json_get (lit ''max_tokens''))) of Some n \<Rightarrow> n | None \<Rightarrow> 1024)
      in max 1 ((len div 4 + max_tokens) mod 2 ^ 64))"

section \<open>The relay's side\<close>

text \<open>Waiting for admission: each poll has its time, how long the call has waited, and what other calls did since the last.\<close>

fun admit :: "rstr \<Rightarrow> nat \<Rightarrow> nat \<Rightarrow> (nat \<times> nat \<times> (sched \<Rightarrow> sched)) list \<Rightarrow> sched \<Rightarrow> (nat + unit) option \<times> sched" where
  "admit i weight est [] s = (None, s)"
| "admit i weight est ((now, waited, others) # polls) s =
     (case try_admit i weight est now waited (others s) of
        (AdmitGo _, s) \<Rightarrow> (Some (Inr ()), s)
      | (AdmitReject retry_after, s) \<Rightarrow> (Some (Inl retry_after), s)
      | (AdmitWait _, s) \<Rightarrow> admit i weight est polls s)"

record reply_head =
  rh_status :: nat
  rh_remaining :: "nat option"
  rh_reset_in :: "nat option"
  rh_retry_after :: "nat option"

datatype forward_outcome =
    NoDestination
  | SendFailed
  | ClientGone reply_head
  | ReplyRead reply_head nat

record relay_quota =
  rq_sched :: sched
  rq_waits :: "rstr \<rightharpoonup> nat"

definition observe_upstream :: "bool \<Rightarrow> rstr \<Rightarrow> reply_head \<Rightarrow> nat \<Rightarrow> relay_quota \<Rightarrow> relay_quota" where
  "observe_upstream subscription provider_id h now q =
     (let q = (if subscription then
                 (if rh_status h = 429 then q\<lparr>rq_sched := on_429 (rh_retry_after h) now (rq_sched q)\<rparr>
                  else q\<lparr>rq_sched := observe_limits (rh_remaining h) (rh_reset_in h) now (rq_sched q)\<rparr>)
               else q)
      in if rh_status h = 429
         then q\<lparr>rq_waits := (rq_waits q)(provider_id \<mapsto> now div 1000 + clamp 1 300 (case rh_retry_after h of Some r \<Rightarrow> r | None \<Rightarrow> 30))\<rparr>
         else q\<lparr>rq_waits := (rq_waits q)(provider_id := None)\<rparr>)"

text \<open>What sending a call does to the quota: the answer's head is observed, and a reply read to its end settles the estimate.\<close>

definition forward_quota ::
    "bool \<Rightarrow> bool \<Rightarrow> rstr \<Rightarrow> rstr \<Rightarrow> nat \<Rightarrow> forward_outcome \<Rightarrow> nat \<Rightarrow> nat \<Rightarrow> relay_quota \<Rightarrow> relay_quota" where
  "forward_quota subscription metered provider_id i est out now done_at q =
     (case out of
        NoDestination \<Rightarrow> q
      | SendFailed \<Rightarrow> q
      | ClientGone h \<Rightarrow> observe_upstream subscription provider_id h now q
      | ReplyRead h tokens \<Rightarrow>
          (let q = observe_upstream subscription provider_id h now q
           in if metered then q\<lparr>rq_sched := settle i est (max 1 tokens) done_at (rq_sched q)\<rparr> else q))"

definition relay_call ::
    "bool \<Rightarrow> bool \<Rightarrow> rstr \<Rightarrow> rstr \<Rightarrow> nat \<Rightarrow> nat \<Rightarrow> (nat \<times> nat \<times> (sched \<Rightarrow> sched)) list \<Rightarrow> forward_outcome \<Rightarrow> nat \<Rightarrow> nat \<Rightarrow> relay_quota \<Rightarrow>
     (nat + unit) option \<times> relay_quota" where
  "relay_call subscription metered provider_id i weight est polls out now done_at q =
     (let (r, s) = (if metered \<and> subscription then admit i weight est polls (rq_sched q) else (Some (Inr ()), rq_sched q));
          q = q\<lparr>rq_sched := s\<rparr>
      in (r, case r of Some (Inr _) \<Rightarrow> forward_quota subscription metered provider_id i est out now done_at q | _ \<Rightarrow> q))"


section \<open>What each operation keeps\<close>

lemma om_update_keys [simp]: "map fst (om_update k f m) = map fst m"
  by (induction m) (auto simp: om_update_def)

lemma om_map_keys: "map fst (map (\<lambda>(k, a). (k, f a)) m) = map fst m"
  by (induction m) auto

lemma om_inv_update [simp]: "om_inv (om_update k f m) = om_inv m"
  unfolding om_inv_def om_update_keys ..

lemma om_inv_map [simp]: "om_inv (map (\<lambda>(k, a). (k, f a)) m) = om_inv m"
  unfolding om_inv_def om_map_keys ..

lemma om_get_update: "om_get (om_update k f m) j = (if j = k then map_option f (om_get m j) else om_get m j)"
  by (induction m) (auto simp: om_update_def om_get_def)

lemma om_get_map: "om_get (map (\<lambda>(k, a). (k, f a)) m) j = map_option f (om_get m j)"
  by (induction m) (auto simp: om_get_def)

lemma quota_rate_None: "quota_rate s now = None \<longleftrightarrow> sc_budget s = None"
  by (simp add: quota_rate_def)

lemma accrue_keeps [simp]:
  "sc_budget (accrue now s) = sc_budget s" "sc_window_reset (accrue now s) = sc_window_reset s"
  "sc_backoff_until (accrue now s) = sc_backoff_until s" "sc_admitted (accrue now s) = sc_admitted s"
  "om_inv (sc_accounts (accrue now s)) = om_inv (sc_accounts s)"
  by (auto simp: accrue_def Let_def split: option.splits)

lemma see_account_keeps [simp]:
  "sc_budget (see_account i w now s) = sc_budget s" "sc_window_reset (see_account i w now s) = sc_window_reset s"
  "sc_backoff_until (see_account i w now s) = sc_backoff_until s" "sc_admitted (see_account i w now s) = sc_admitted s"
  by (simp_all add: see_account_def Let_def)

lemma roll_window_keeps [simp]:
  "sc_accounts (roll_window now s) = sc_accounts s" "sc_backoff_until (roll_window now s) = sc_backoff_until s"
  "sc_admitted (roll_window now s) = sc_admitted s"
  by (simp_all add: roll_window_def)

definition inflight_of :: "rstr \<Rightarrow> sched \<Rightarrow> nat" where
  "inflight_of i s = (case om_get (sc_accounts s) i of Some a \<Rightarrow> qa_inflight a | None \<Rightarrow> 0)"

lemma inflight_rejected [simp]: "inflight_of j (s\<lparr>sc_rejected := n\<rparr>) = inflight_of j s"
  by (simp add: inflight_of_def)

lemma inflight_accrue [simp]: "inflight_of i (accrue now s) = inflight_of i s"
  by (auto simp: inflight_of_def accrue_def om_get_map accrue_account_def Let_def split: option.splits)

lemma see_account_inv: "om_inv (sc_accounts s) \<Longrightarrow> om_inv (sc_accounts (see_account i w now s))"
  by (simp add: see_account_def Let_def om_inv_insert)

lemma inflight_see: "om_inv (sc_accounts s) \<Longrightarrow> inflight_of j (see_account i w now s) = inflight_of j s"
  by (auto simp: inflight_of_def see_account_def Let_def om_get_insert split: option.splits)

lemma see_account_known: "om_inv (sc_accounts s) \<Longrightarrow> om_get (sc_accounts (see_account i w now s)) i \<noteq> None"
  by (simp add: see_account_def Let_def om_get_insert)

lemma accrue_known: "om_get (sc_accounts (accrue now s)) i = None \<longleftrightarrow> om_get (sc_accounts s) i = None"
  by (auto simp: accrue_def om_get_map Let_def split: option.splits)

lemma inflight_charge: "om_get (sc_accounts s) i \<noteq> None \<Longrightarrow>
    inflight_of j (charge i est now s) = inflight_of j s + (if j = i then 1 else 0)"
  by (auto simp: inflight_of_def charge_def om_get_update split: option.splits)

lemma inflight_settle: "inflight_of j (settle i est actual now s) = (if j = i then inflight_of j s - 1 else inflight_of j s)"
  by (auto simp: inflight_of_def settle_def om_get_update split: option.splits)

text \<open>Upstream's figure as it stands at a moment: none once the window it was reported for is over.\<close>

definition live_figure :: "nat \<Rightarrow> sched \<Rightarrow> nat option" where
  "live_figure now s = (if sc_window_reset s \<noteq> 0 \<and> sc_window_reset s \<le> now then None else sc_budget s)"

lemma rolled_figure: "sc_budget (roll_window now s) = live_figure now s"
  by (simp add: roll_window_def live_figure_def)

lemma charge_figure: "sc_budget (charge i est now s) = map_option (\<lambda>b. b - est) (sc_budget s)"
  by (simp add: charge_def)

text \<open>The two ways to be admitted, and what an answer that is not admission leaves alone.\<close>

lemma try_admit_Go:
  assumes "try_admit i w est now waited s = (AdmitGo c, s')"
  obtains s0 where "s0 = see_account i (max 1 w) now (roll_window now s) \<or> s0 = accrue now (see_account i (max 1 w) now (roll_window now s))"
    and "s' = (charge i (max 1 est) now s0)\<lparr>sc_admitted := sc_admitted s + 1\<rparr>" and "c = max 1 est" and "sc_backoff_until s \<le> now"
    and "\<forall>b. sc_budget s0 = Some b \<longrightarrow> headroom \<le> b - max 1 est"
proof -
  let ?s = "see_account i (max 1 w) now (roll_window now s)"
  show ?thesis
  proof (cases "quota_rate ?s now")
    case None
    then have "s' = (charge i (max 1 est) now ?s)\<lparr>sc_admitted := sc_admitted s + 1\<rparr>" "c = max 1 est" "sc_backoff_until s \<le> now"
      using assms by (auto simp: try_admit_def admit_go_def turn_away_def charge_def Let_def split: if_splits)
    moreover have "sc_budget ?s = None" using None by (simp add: quota_rate_None)
    ultimately show ?thesis using that [of ?s] by simp
  next
    case (Some r)
    have "s' = (charge i (max 1 est) now (accrue now ?s))\<lparr>sc_admitted := sc_admitted s + 1\<rparr>" "c = max 1 est" "sc_backoff_until s \<le> now"
        "\<not> (case sc_budget (accrue now ?s) of Some b \<Rightarrow> b - max 1 est < headroom | None \<Rightarrow> False)"
      using assms Some by (auto simp: try_admit_def admit_go_def turn_away_def charge_def Let_def simp del: One_nat_def split: if_splits)
    then show ?thesis using that [of "accrue now ?s"] by (auto simp: not_less simp del: One_nat_def split: option.splits)
  qed
qed

lemma try_admit_not_Go:
  assumes "try_admit i w est now waited s = (d, s')" and "\<nexists>c. d = AdmitGo c" and "om_inv (sc_accounts s)"
  shows "inflight_of j s' = inflight_of j s \<and> sc_admitted s' = sc_admitted s \<and> om_inv (sc_accounts s')"
proof -
  let ?s = "see_account i (max 1 w) now (roll_window now s)"
  have r: "om_inv (sc_accounts (roll_window now s))" using assms(3) by simp
  have "inflight_of j (roll_window now s) = inflight_of j s" by (simp add: inflight_of_def)
  then have i: "inflight_of j ?s = inflight_of j s" "om_inv (sc_accounts ?s)" using inflight_see [OF r] see_account_inv [OF r] by simp_all
  show ?thesis
  proof (cases "now < sc_backoff_until s")
    case True
    then have "s' = s \<or> s' = s\<lparr>sc_rejected := sc_rejected s + 1\<rparr>"
      using assms(1) by (auto simp: try_admit_def turn_away_def Let_def split: if_splits)
    then show ?thesis using assms(3) by auto
  next
    case False
    then have "s' = accrue now ?s \<or> s' = (accrue now ?s)\<lparr>sc_rejected := sc_rejected (accrue now ?s) + 1\<rparr>"
      using assms(1,2) by (auto simp: try_admit_def admit_go_def turn_away_def Let_def split: if_splits option.splits)
    then show ?thesis using i by auto
  qed
qed


lemma try_admit_Go_inflight:
  assumes "try_admit i w est now waited s = (AdmitGo c, s')" and "om_inv (sc_accounts s)"
  shows "inflight_of j s' = inflight_of j s + (if j = i then 1 else 0) \<and> om_inv (sc_accounts s')"
proof -
  let ?s = "see_account i (max 1 w) now (roll_window now s)"
  have r: "om_inv (sc_accounts (roll_window now s))" using assms(2) by simp
  have i: "inflight_of j ?s = inflight_of j s" "om_inv (sc_accounts ?s)" "om_get (sc_accounts ?s) i \<noteq> None"
    using inflight_see [OF r] see_account_inv [OF r] see_account_known [OF r] by (simp_all add: inflight_of_def)
  from assms(1) obtain s0 where s0: "s0 = ?s \<or> s0 = accrue now ?s" "s' = (charge i (max 1 est) now s0)\<lparr>sc_admitted := sc_admitted s + 1\<rparr>"
    by (rule try_admit_Go)
  have k: "inflight_of j s0 = inflight_of j s" "om_inv (sc_accounts s0)" "om_get (sc_accounts s0) i \<noteq> None"
    using s0(1) i accrue_known [of now ?s i] by auto
  have "inflight_of j s' = inflight_of j (charge i (max 1 est) now s0)" by (simp add: s0(2) inflight_of_def)
  moreover have "om_inv (sc_accounts s')" using k(2) by (simp add: s0(2) charge_def)
  ultimately show ?thesis using inflight_charge [OF k(3), of j] k(1) by simp
qed

lemma admit_inflight:
  assumes "admit i w est polls s = (r, s')" and "om_inv (sc_accounts s)" and "\<forall>p \<in> set polls. snd (snd p) = id"
  shows "inflight_of j s' = inflight_of j s + (if r = Some (Inr ()) \<and> j = i then 1 else 0) \<and> om_inv (sc_accounts s')"
  using assms
proof (induction polls arbitrary: s)
  case (Cons p polls)
  obtain now waited others where p: "p = (now, waited, others)" by (cases p)
  obtain d s1 where d: "try_admit i w est now waited s = (d, s1)" by (cases "try_admit i w est now waited s")
  have o: "others = id" using Cons.prems(3) bspec [of "set (p # polls)" _ p] by (metis list.set_intros(1) p snd_conv)
  show ?case
  proof (cases d)
    case (AdmitGo c)
    then show ?thesis using try_admit_Go_inflight [OF d [unfolded AdmitGo] Cons.prems(2)] Cons.prems(1) d by (auto simp: p o)
  next
    case (AdmitWait n)
    then have "admit i w est polls s1 = (r, s')" using Cons.prems(1) d by (simp add: p o)
    moreover have "inflight_of j s1 = inflight_of j s \<and> om_inv (sc_accounts s1)"
      using try_admit_not_Go [OF d _ Cons.prems(2)] AdmitWait by simp
    ultimately show ?thesis using Cons.IH [of s1] Cons.prems(3) by simp
  next
    case (AdmitReject n)
    then show ?thesis using try_admit_not_Go [OF d _ Cons.prems(2)] Cons.prems(1) d by (auto simp: p o)
  qed
qed simp

lemma observe_keeps:
  "sc_accounts (rq_sched (observe_upstream sub prov h now q)) = sc_accounts (rq_sched q)"
  by (simp add: observe_upstream_def observe_limits_def on_429_def Let_def split: option.splits)

section \<open>What an accrual hands out\<close>

definition credits :: "sched \<Rightarrow> rat" where
  "credits s = sum_list (map qa_credit (om_values (sc_accounts s)))"

definition accrual_secs :: "nat \<Rightarrow> sched \<Rightarrow> rat" where
  "accrual_secs now s = of_nat (now - sc_last_accrual s) / 1000"

lemma total_weight_last [simp]: "total_weight now (s\<lparr>sc_last_accrual := n\<rparr>) = total_weight now s"
  by (simp add: total_weight_def)

lemma accrue_accounts:
  assumes "quota_rate s now = Some r" and "sc_last_accrual s < now" and "0 < total_weight now s"
  shows "sc_accounts (accrue now s) = map (\<lambda>(k, a). (k, accrue_account r (accrual_secs now s) (total_weight now s) now a)) (sc_accounts s)"
  using assms by (simp add: accrue_def accrual_secs_def Let_def)

lemma sum_shares:
  assumes "0 < sum_list (map w as)"
  shows "sum_list (map (\<lambda>a. r * (of_nat (w a) / of_nat (sum_list (map w as))) * dt) as) = r * (dt :: rat)"
proof -
  have "sum_list (map (\<lambda>a. r * (of_nat (w a) / of_nat W) * dt) as) = r * dt * of_nat (sum_list (map w as)) / of_nat W" for W
    by (induction as) (simp_all add: field_simps add_divide_distrib)
  from this [of "sum_list (map w as)"]
  have "sum_list (map (\<lambda>a. r * (of_nat (w a) / of_nat (sum_list (map w as))) * dt) as) =
      r * dt * of_nat (sum_list (map w as)) / of_nat (sum_list (map w as))" .
  also have "\<dots> = r * dt" by (rule nonzero_mult_div_cancel_right) (use assms in \<open>simp only: of_nat_eq_0_iff\<close>)
  finally show ?thesis .
qed

lemma accrue_account_le:
  "0 \<le> r * (of_nat (account_weight a) / of_nat W) * dt \<Longrightarrow>
     qa_credit (accrue_account r dt W now a) \<le> qa_credit a + (if quota_active now a then r * (of_nat (account_weight a) / of_nat W) * dt else 0)"
  by (auto simp: accrue_account_def Let_def)

lemma credits_accrue:
  assumes "quota_rate s now = Some r" and "sc_last_accrual s < now" and "0 < total_weight now s"
  shows "credits (accrue now s) \<le> credits s + r * accrual_secs now s"
proof -
  let ?W = "total_weight now s" and ?dt = "accrual_secs now s" and ?as = "om_values (sc_accounts s)"
  let ?g = "\<lambda>a. r * (of_nat (account_weight a) / of_nat ?W) * ?dt"
  have r: "0 \<le> r" using assms(1) by (auto simp: quota_rate_def)
  have g: "0 \<le> ?g a" for a using r by (simp add: accrual_secs_def)
  have "credits (accrue now s) = sum_list (map (\<lambda>a. qa_credit (accrue_account r ?dt ?W now a)) ?as)"
    by (simp add: credits_def accrue_accounts [OF assms] om_values_def comp_def case_prod_unfold)
  also have "\<dots> \<le> sum_list (map (\<lambda>a. qa_credit a + (if quota_active now a then ?g a else 0)) ?as)"
    by (rule sum_list_mono) (rule accrue_account_le [OF g])
  also have "\<dots> = credits s + sum_list (map ?g (filter (quota_active now) ?as))"
    by (simp only: credits_def sum_list_addf sum_list_map_filter')
  also have "sum_list (map ?g (filter (quota_active now) ?as)) = r * ?dt"
    using sum_shares [of account_weight "filter (quota_active now) ?as" r ?dt] assms(3) by (simp add: total_weight_def)
  finally show ?thesis .
qed

section \<open>A sample\<close>

text \<open>Sixty thousand tokens for a minute, and two accounts of weights three and one.\<close>

definition contended :: sched where
  "contended = (observe_limits (Some 60000) (Some 60) 0 new_sched)\<lparr>sc_accounts :=
     [(lit ''ada'', \<lparr>qa_weight = 3, qa_credit = 900, qa_inflight = 0, qa_last_seen = 100\<rparr>),
      (lit ''bob'', \<lparr>qa_weight = 1, qa_credit = 900, qa_inflight = 0, qa_last_seen = 100\<rparr>)], sc_last_accrual := 100\<rparr>"

lemma names_differ [simp]: "lit ''ada'' \<noteq> lit ''bob''" "lit ''bob'' \<noteq> lit ''ada''" "lit ''ada'' < lit ''bob''"
  by (simp_all add: lit_def)

lemma contended_parts [simp]:
  "sc_accounts contended = [(lit ''ada'', \<lparr>qa_weight = 3, qa_credit = 900, qa_inflight = 0, qa_last_seen = 100\<rparr>),
      (lit ''bob'', \<lparr>qa_weight = 1, qa_credit = 900, qa_inflight = 0, qa_last_seen = 100\<rparr>)]"
  "sc_budget contended = Some 60000" "sc_window_reset contended = 60000" "sc_backoff_until contended = 0" "sc_last_accrual contended = 100"
  by (simp_all add: contended_def observe_limits_def new_sched_def Let_def)

lemma contended_rate: "quota_rate contended 1100 = Some (600000 / 589)" "total_weight 1100 contended = 4"
  by (simp_all add: quota_rate_def total_weight_def om_values_def quota_active_def idle_after_ms_def account_weight_def)

lemma contended_inv: "om_inv (sc_accounts contended)"
  by (simp add: om_inv_def)

lemma contended_go: "\<exists>s'. try_admit (lit ''ada'') 3 500 100 0 contended = (AdmitGo 500, s') \<and> sc_budget s' = Some 59500"
  by (simp add: try_admit_def roll_window_def see_account_def om_get_def quota_rate_def accrue_def admit_go_def charge_def headroom_def Let_def)

section \<open>Properties\<close>

text \<open>C29 The gate passes a call only when upstream has not told the proxy to stop and either upstream's figure for the window is
  not known (none was reported, or the window it was reported for is over), or the figure less the call's estimate still leaves
  the reserve of two thousand tokens; the figure kept is then that difference. A call that meets an unknown figure outside such
  a stop always passes.\<close>

theorem admission_keeps_headroom:
  assumes "try_admit i w est now waited s = (a, s')"
  shows "(\<forall>c. a = AdmitGo c \<longrightarrow> sc_backoff_until s \<le> now \<and> c = max 1 est
            \<and> sc_budget s' = map_option (\<lambda>b. b - c) (live_figure now s)
            \<and> (\<forall>b. live_figure now s = Some b \<longrightarrow> headroom + c \<le> b))
    \<and> (sc_backoff_until s \<le> now \<and> live_figure now s = None \<longrightarrow> a = AdmitGo (max 1 est))"
proof (intro conjI allI impI)
  fix c assume "a = AdmitGo c"
  with assms have "try_admit i w est now waited s = (AdmitGo c, s')" by simp
  then obtain s0 where s0: "s0 = see_account i (max 1 w) now (roll_window now s) \<or> s0 = accrue now (see_account i (max 1 w) now (roll_window now s))"
      "s' = (charge i (max 1 est) now s0)\<lparr>sc_admitted := sc_admitted s + 1\<rparr>" "c = max 1 est" "sc_backoff_until s \<le> now"
      "\<forall>b. sc_budget s0 = Some b \<longrightarrow> headroom \<le> b - max 1 est"
    by (rule try_admit_Go)
  have kept: "sc_budget s0 = live_figure now s" using s0(1) by (auto simp: rolled_figure)
  show "sc_backoff_until s \<le> now" "c = max 1 est" by (rule s0)+
  show "sc_budget s' = map_option (\<lambda>b. b - c) (live_figure now s)" by (simp add: s0(2,3) charge_figure kept)
  show "headroom + c \<le> b" if "live_figure now s = Some b" for b
    using s0(3,5) kept that by (auto simp: headroom_def)
next
  assume free: "sc_backoff_until s \<le> now \<and> live_figure now s = None"
  then have "quota_rate (see_account i (max 1 w) now (roll_window now s)) now = None"
    by (simp add: quota_rate_None rolled_figure)
  then show "a = AdmitGo (max 1 est)" using assms free by (simp add: try_admit_def admit_go_def Let_def not_less)
qed

theorem admission_keeps_headroom_witness:
  "live_figure 100 contended = Some 60000 \<and>
   (\<exists>s'. try_admit (lit ''ada'') 3 500 100 0 contended = (AdmitGo 500, s') \<and> headroom + 500 \<le> (60000 :: nat))"
proof -
  have l: "live_figure 100 contended = Some 60000" by (simp add: live_figure_def)
  obtain s' where g: "try_admit (lit ''ada'') 3 500 100 0 contended = (AdmitGo 500, s')" using contended_go by blast
  from admission_keeps_headroom [OF g] l g show ?thesis by simp
qed

text \<open>While upstream has told the proxy to stop, nobody goes, whatever their weight: the scheduler is unchanged but for its count
  of refusals, a refusal comes only after the longest wait, and the time it names is not before the end of the stop.\<close>

theorem backoff_stops_everyone:
  assumes "now < sc_backoff_until s" and "try_admit i w est now waited s = (d, s')"
  shows "(\<forall>c. d \<noteq> AdmitGo c) \<and> sc_accounts s' = sc_accounts s \<and> sc_budget s' = sc_budget s \<and> sc_admitted s' = sc_admitted s
    \<and> (\<forall>n. d = AdmitWait n \<longrightarrow> waited < max_wait_ms \<and> now + n \<le> sc_backoff_until s)
    \<and> (\<forall>n. d = AdmitReject n \<longrightarrow> max_wait_ms \<le> waited \<and> sc_backoff_until s \<le> now + n * 1000)"
proof -
  have "a \<le> max 1 (div_ceil a 1000) * 1000" for a :: nat
  proof -
    have "(a + 999) div 1000 * 1000 + (a + 999) mod 1000 = a + 999" "(a + 999) mod 1000 < 1000" by simp_all
    then have "a \<le> div_ceil a 1000 * 1000" by (simp add: div_ceil_def)
    also have "\<dots> \<le> max 1 (div_ceil a 1000) * 1000" by simp
    finally show ?thesis .
  qed
  then have "sc_backoff_until s - now \<le> max 1 (div_ceil (sc_backoff_until s - now) 1000) * 1000" by blast
  then show ?thesis using assms
    by (auto simp: try_admit_def turn_away_def Let_def split: if_splits)
qed

theorem backoff_stops_everyone_witness:
  "fst (try_admit (lit ''ada'') 3 500 5000 0 (on_429 (Some 30) 0 contended)) \<noteq> AdmitGo 500"
  using backoff_stops_everyone [OF _ prod.collapse [symmetric], of 5000 "on_429 (Some 30) 0 contended"] by (simp add: on_429_def clamp_def)

text \<open>Settling replaces the estimate by the cost: after a call was admitted and settled, the account has paid exactly what the call
  cost, has as many calls in flight as before, and the known window has lost exactly the cost.\<close>

theorem settle_charges_actual:
  assumes "om_get (sc_accounts s) i = Some a" and "est \<le> b" and "b \<le> u64_max" and "sc_budget s = Some b"
  shows "sc_budget (settle i est actual later (charge i est now s)) = Some (b - actual)
    \<and> (\<exists>a'. om_get (sc_accounts (settle i est actual later (charge i est now s))) i = Some a'
          \<and> qa_credit a' = qa_credit a - of_nat actual \<and> qa_inflight a' = qa_inflight a)"
  using assms by (auto simp: settle_def charge_def om_get_update sat_add_def)


theorem settle_charges_actual_witness:
  "sc_budget (settle (lit ''bob'') 500 700 200 (charge (lit ''bob'') 500 100 contended)) = Some 59300"
  using settle_charges_actual [of contended "lit ''bob''" _ 500 60000 700 200 100] by (simp add: om_get_def u64_max_def)

text \<open>Sharing is fair: what an accrual hands out to all accounts together is at most what upstream allows for the time elapsed, and
  two active accounts that stay below their ceilings gain in the ratio of their weights.\<close>

theorem accrual_is_fair:
  assumes "quota_rate s now = Some r" and "sc_last_accrual s < now"
    and "om_get (sc_accounts s) i = Some a" and "om_get (sc_accounts s) j = Some b" and "quota_active now a" and "quota_active now b"
    and "om_get (sc_accounts (accrue now s)) i = Some a'" and "om_get (sc_accounts (accrue now s)) j = Some b'"
    and "qa_credit a' < max 1 (r * (of_nat (account_weight a) / of_nat (total_weight now s)) * burst_secs)"
    and "qa_credit b' < max 1 (r * (of_nat (account_weight b) / of_nat (total_weight now s)) * burst_secs)"
  shows "credits (accrue now s) \<le> credits s + r * accrual_secs now s
    \<and> (qa_credit a' - qa_credit a) * of_nat (account_weight b) = (qa_credit b' - qa_credit b) * of_nat (account_weight a)"
proof -
  have "a \<in> set (filter (quota_active now) (om_values (sc_accounts s)))"
    using assms(3,5) by (auto simp: om_get_def om_values_def dest!: map_of_SomeD intro: rev_image_eqI)
  then have "account_weight a \<le> total_weight now s" unfolding total_weight_def by (intro member_le_sum_list) auto
  then have W: "0 < total_weight now s" by (simp add: account_weight_def)
  have m: "om_get (sc_accounts (accrue now s)) k =
      map_option (accrue_account r (accrual_secs now s) (total_weight now s) now) (om_get (sc_accounts s) k)" for k
    by (simp add: accrue_accounts [OF assms(1,2) W] om_get_map)
  have gain: "qa_credit x' - qa_credit x = r * accrual_secs now s / of_nat (total_weight now s) * of_nat (account_weight x)"
    if "om_get (sc_accounts s) k = Some x" "quota_active now x" "om_get (sc_accounts (accrue now s)) k = Some x'"
      "qa_credit x' < max 1 (r * (of_nat (account_weight x) / of_nat (total_weight now s)) * burst_secs)" for k x x'
  proof -
    have "x' = accrue_account r (accrual_secs now s) (total_weight now s) now x" using m [of k] that(1,3) by simp
    then have "qa_credit x' = qa_credit x + r * (of_nat (account_weight x) / of_nat (total_weight now s)) * accrual_secs now s"
      using that(2,4) by (simp add: accrue_account_def Let_def min_def max.commute split: if_splits)
    then show ?thesis by simp
  qed
  show ?thesis
    using credits_accrue [OF assms(1,2) W] gain [OF assms(3,5,7,9)] gain [OF assms(4,6,8,10)] by simp
qed

theorem accrual_is_fair_witness:
  "\<exists>a' b'. om_get (sc_accounts (accrue 1100 contended)) (lit ''ada'') = Some a' \<and> om_get (sc_accounts (accrue 1100 contended)) (lit ''bob'') = Some b' \<and>
     qa_credit a' - 900 = 3 * (qa_credit b' - 900) \<and> credits (accrue 1100 contended) \<le> 1800 + 600000 / 589"
proof -
  have W: "0 < total_weight 1100 contended" "sc_last_accrual contended < 1100" by (simp_all add: contended_rate)
  have secs: "accrual_secs 1100 contended = 1" by (simp add: accrual_secs_def)
  note acc = accrue_accounts [OF contended_rate(1) W(2,1), unfolded secs contended_rate(2)]
  let ?acc = "accrue_account (600000 / 589) 1 4 1100"
  have g: "om_get (sc_accounts (accrue 1100 contended)) k = map_option ?acc (om_get (sc_accounts contended) k)" for k
    unfolding acc om_get_map ..
  have c: "credits contended = 1800" by (simp add: credits_def om_values_def)
  show ?thesis
    using accrual_is_fair [OF contended_rate(1) W(2), of "lit ''ada''" _ "lit ''bob''"] g c secs contended_rate(2)
    by (simp add: om_get_def quota_active_def idle_after_ms_def accrue_account_def account_weight_def burst_secs_def Let_def)
qed

lemma late_decided:
  assumes "max_wait_ms \<le> waited"
  shows "fst (try_admit i w est now waited s) \<noteq> AdmitWait n"
proof
  assume "fst (try_admit i w est now waited s) = AdmitWait n"
  then show False using assms unfolding try_admit_def admit_go_def turn_away_def Let_def
    by (simp split: if_splits option.splits)
qed

text \<open>Waiting for admission ends: whatever other calls do in between, the call is let go or refused at the latest at the first poll
  that finds it has waited the longest time allowed.\<close>

theorem admission_decided_by_max_wait:
  assumes "(now, waited, others) \<in> set polls" and "max_wait_ms \<le> waited"
  shows "fst (admit i w est polls s) \<noteq> None"
  using assms
proof (induction polls arbitrary: s)
  case (Cons p polls)
  obtain n m f where p: "p = (n, m, f)" by (cases p)
  obtain d s' where d: "try_admit i w est n m (f s) = (d, s')" by (cases "try_admit i w est n m (f s)")
  show ?case
  proof (cases d)
    case (AdmitWait k)
    then have "m < max_wait_ms"
      using d late_decided [of m i w est n "f s" k] by (fastforce simp: not_le [symmetric])
    then have "(now, waited, others) \<in> set polls" using Cons.prems p by auto
    then show ?thesis using Cons.IH [OF _ Cons.prems(2), of s'] AdmitWait d by (simp add: p)
  qed (use d in \<open>simp_all add: p\<close>)
qed simp

theorem admission_decided_by_max_wait_witness:
  "fst (admit (lit ''ada'') 3 5000 [(100, 0, id), (5200, 5100, on_429 (Some 30) 5000)] contended) \<noteq> None"
  by (rule admission_decided_by_max_wait [where now = 5200 and waited = 5100 and others = "on_429 (Some 30) 5000"]) (simp_all add: max_wait_ms_def)

text \<open>A call that went to a provider billed elsewhere, and so was never admitted, is settled all the same: what it was
  overestimated by is added to the subscription's window and to the account's credit.\<close>

theorem foreign_call_refills_window:
  assumes "sc_budget (rq_sched q) = Some b" and "max 1 tokens \<le> est" and "b + est \<le> u64_max"
    and "om_get (sc_accounts (rq_sched q)) i = Some a"
  shows "\<exists>q' a'. relay_call False True provider_id i w est polls (ReplyRead h tokens) now later q = (Some (Inr ()), q')
    \<and> sc_budget (rq_sched q') = Some (b + (est - max 1 tokens))
    \<and> om_get (sc_accounts (rq_sched q')) i = Some a' \<and> qa_credit a' = qa_credit a + of_nat (est - max 1 tokens)"
proof -
  have o: "rq_sched (observe_upstream False provider_id h now q) = rq_sched q"
    by (simp add: observe_upstream_def)
  have c: "(of_nat est :: rat) - of_nat (max 1 tokens) = of_nat (est - max 1 tokens)" using assms(2) by (simp add: of_nat_diff)
  show ?thesis using assms c
    by (auto simp: relay_call_def forward_quota_def Let_def o settle_def om_get_update sat_add_def simp del: One_nat_def)
qed


definition sample_head :: reply_head where
  "sample_head = \<lparr>rh_status = 200, rh_remaining = None, rh_reset_in = None, rh_retry_after = None\<rparr>"

theorem foreign_call_refills_window_witness:
  "\<exists>q'. relay_call False True (lit ''ds'') (lit ''ada'') 3 40000 [] (ReplyRead sample_head 1000) 200 900 \<lparr>rq_sched = contended, rq_waits = Map.empty\<rparr>
      = (Some (Inr ()), q') \<and> sc_budget (rq_sched q') = Some 99000"
  using foreign_call_refills_window [of "\<lparr>rq_sched = contended, rq_waits = Map.empty\<rparr>" 60000 1000 40000 "lit ''ada''"]
  by (fastforce simp: om_get_def u64_max_def)

text \<open>Calls that are admitted, answered and read to the end, one after the other.\<close>

record served_call =
  sv_id :: rstr
  sv_weight :: nat
  sv_est :: nat
  sv_polls :: "(nat \<times> nat) list"
  sv_head :: reply_head
  sv_tokens :: nat
  sv_now :: nat
  sv_done :: nat

definition serve :: "rstr \<Rightarrow> served_call \<Rightarrow> relay_quota \<Rightarrow> relay_quota" where
  "serve provider_id c q = snd (relay_call True True provider_id (sv_id c) (sv_weight c) (sv_est c)
     (map (\<lambda>(now, waited). (now, waited, id)) (sv_polls c)) (ReplyRead (sv_head c) (sv_tokens c)) (sv_now c) (sv_done c) q)"

lemma serve_inflight:
  assumes "om_inv (sc_accounts (rq_sched q))"
  shows "inflight_of j (rq_sched (serve provider_id c q)) = inflight_of j (rq_sched q) \<and> om_inv (sc_accounts (rq_sched (serve provider_id c q)))"
proof -
  let ?polls = "map (\<lambda>(now, waited). (now, waited, id :: sched \<Rightarrow> sched)) (sv_polls c)"
  obtain r s where a: "admit (sv_id c) (sv_weight c) (sv_est c) ?polls (rq_sched q) = (r, s)"
    by (cases "admit (sv_id c) (sv_weight c) (sv_est c) ?polls (rq_sched q)")
  have i: "inflight_of j s = inflight_of j (rq_sched q) + (if r = Some (Inr ()) \<and> j = sv_id c then 1 else 0)" "om_inv (sc_accounts s)"
    using admit_inflight [OF a assms, of j] by (auto simp: case_prod_unfold)
  show ?thesis
  proof (cases "r = Some (Inr ())")
    case True
    let ?q = "observe_upstream True provider_id (sv_head c) (sv_now c) (q\<lparr>rq_sched := s\<rparr>)"
    have o: "sc_accounts (rq_sched ?q) = sc_accounts s" by (simp add: observe_keeps)
    have e: "rq_sched (serve provider_id c q) = settle (sv_id c) (sv_est c) (max 1 (sv_tokens c)) (sv_done c) (rq_sched ?q)"
      using a True by (simp add: serve_def relay_call_def forward_quota_def Let_def)
    have "inflight_of j (rq_sched ?q) = inflight_of j s" by (simp add: inflight_of_def o)
    moreover have "om_inv (sc_accounts (rq_sched (serve provider_id c q)))" unfolding e using i(2) by (simp add: settle_def o)
    ultimately show ?thesis unfolding e inflight_settle using i(1) True by (cases "j = sv_id c") simp_all
  next
    case False
    then have "rq_sched (serve provider_id c q) = s"
      using a by (auto simp: serve_def relay_call_def Let_def split: option.splits sum.splits)
    then show ?thesis using i False by simp
  qed
qed

lemma serves_inflight:
  "om_inv (sc_accounts (rq_sched q)) \<Longrightarrow> inflight_of j (rq_sched (fold (serve provider_id) cs q)) = inflight_of j (rq_sched q)"
proof (induction cs arbitrary: q)
  case (Cons c cs)
  show ?case using Cons.IH [of "serve provider_id c q"] serve_inflight [OF Cons.prems, of _ provider_id c] by simp
qed simp

text \<open>A call whose client hangs up before the answer's head reaches it is never settled: however many calls are served after it,
  its account counts as active for ever, and so keeps its share of the rate.\<close>

theorem abandoned_call_keeps_share:
  assumes "relay_call True True provider_id i w est (map (\<lambda>(now, waited). (now, waited, id)) polls) (ClientGone h) now later q = (Some (Inr ()), q1)"
    and "om_inv (sc_accounts (rq_sched q))"
  shows "\<exists>a. om_get (sc_accounts (rq_sched (fold (serve provider_id) cs q1))) i = Some a \<and> (\<forall>t. quota_active t a)"
proof -
  let ?polls = "map (\<lambda>(now, waited). (now, waited, id :: sched \<Rightarrow> sched)) polls"
  obtain r s where a: "admit i w est ?polls (rq_sched q) = (r, s)" by (cases "admit i w est ?polls (rq_sched q)")
  have r: "r = Some (Inr ())" "q1 = observe_upstream True provider_id h now (q\<lparr>rq_sched := s\<rparr>)"
    using assms(1) a by (auto simp: relay_call_def forward_quota_def Let_def)
  have i: "inflight_of i s = inflight_of i (rq_sched q) + 1" "om_inv (sc_accounts s)"
    using admit_inflight [OF a assms(2), of i] r(1) by (auto simp: case_prod_unfold)
  have "sc_accounts (rq_sched q1) = sc_accounts s" by (simp add: r(2) observe_keeps)
  then have "0 < inflight_of i (rq_sched (fold (serve provider_id) cs q1))"
    using serves_inflight [of q1 i provider_id cs] i by (simp add: inflight_of_def)
  then show ?thesis by (auto simp: inflight_of_def quota_active_def split: option.splits)
qed

theorem abandoned_call_keeps_share_witness:
  "\<exists>q1 a. relay_call True True (lit ''anthropic'') (lit ''ada'') 3 500 [(100, 0, id)] (ClientGone sample_head) 200 200 \<lparr>rq_sched = contended, rq_waits = Map.empty\<rparr>
      = (Some (Inr ()), q1) \<and>
    om_get (sc_accounts (rq_sched (fold (serve (lit ''anthropic'')) [\<lparr>sv_id = lit ''ada'', sv_weight = 3, sv_est = 10, sv_polls = [(300, 0)],
      sv_head = sample_head, sv_tokens = 10, sv_now = 310, sv_done = 320\<rparr>] q1))) (lit ''ada'') = Some a \<and> quota_active 99999999 a"
proof -
  obtain s' where "try_admit (lit ''ada'') 3 500 100 0 contended = (AdmitGo 500, s')" using contended_go by blast
  then obtain q1 where q1: "relay_call True True (lit ''anthropic'') (lit ''ada'') 3 500 (map (\<lambda>(now, waited). (now, waited, id)) [(100, 0)])
      (ClientGone sample_head) 200 200 \<lparr>rq_sched = contended, rq_waits = Map.empty\<rparr> = (Some (Inr ()), q1)"
    by (simp add: relay_call_def)
  have i: "om_inv (sc_accounts (rq_sched \<lparr>rq_sched = contended, rq_waits = Map.empty\<rparr>))" using contended_inv by simp
  have "map (\<lambda>(now, waited). (now, waited, id)) [(100, 0)] = [(100, 0, id)]" by simp
  then show ?thesis using abandoned_call_keeps_share [OF q1 i] q1 by metis
qed

text \<open>When upstream says what is left but not when it refills, and no call is in flight, a window too small for the estimates asked
  for never changes: nobody is admitted again, however long they wait.\<close>

theorem unknown_reset_starves:
  assumes "sc_window_reset s = 0" and "\<forall>(i, w, est, now, waited) \<in> set asks. b < headroom + max 1 est"
  shows "sc_admitted (fold (\<lambda>(i, w, est, now, waited) s. snd (try_admit i w est now waited s)) asks (observe_limits (Some b) None t s)) = sc_admitted s"
proof -
  have "sc_admitted (fold (\<lambda>(i, w, est, now, waited) s. snd (try_admit i w est now waited s)) asks s) = sc_admitted s"
    if "sc_window_reset s = 0" "sc_budget s = Some b" "\<forall>(i, w, est, now, waited) \<in> set asks. b < headroom + max 1 est" for asks s
    using that
  proof (induction asks arbitrary: s)
    case (Cons ask asks)
    obtain i w est now waited where ask: "ask = (i, w, est, now, waited)" by (cases ask)
    obtain d s' where d: "try_admit i w est now waited s = (d, s')" by (cases "try_admit i w est now waited s")
    have "b - max 1 est < headroom" using Cons.prems(3) by (auto simp: ask headroom_def)
    moreover have "quota_rate (see_account i (max 1 w) now (roll_window now s)) now \<noteq> None"
      using Cons.prems(1,2) by (simp add: quota_rate_None roll_window_def)
    ultimately have "sc_window_reset s' = 0 \<and> sc_budget s' = Some b \<and> sc_admitted s' = sc_admitted s"
      using d Cons.prems(1,2)
      by (auto simp: try_admit_def turn_away_def roll_window_def Let_def simp del: One_nat_def split: if_splits)
    then show ?case using Cons.IH [of s'] Cons.prems(3) d by (simp add: ask)
  qed simp
  from this [of "observe_limits (Some b) None t s" asks] assms show ?thesis
    by (simp add: observe_limits_def Let_def)
qed


theorem unknown_reset_starves_witness:
  "sc_admitted (fold (\<lambda>(i, w, est, now, waited) s. snd (try_admit i w est now waited s)) [(lit ''ada'', 1, 4000, 99999999, 0), (lit ''bob'', 1, 5000, 999999999, 0)]
     (observe_limits (Some 5900) None 10 new_sched)) = 0"
  using unknown_reset_starves [where s = new_sched and b = 5900 and t = 10
      and asks = "[(lit ''ada'', 1, 4000, 99999999, 0), (lit ''bob'', 1, 5000, 999999999, 0)]"]
  by (simp add: new_sched_def headroom_def)

end
