(* ===== verification/Reply_Path.thy ===== *)
theory Reply_Path
  imports Reply
begin

text \<open>
  A reply on its way from the vendor to the agent: the chunks of a chat-completions stream go through the proxy's
  translator (\<open>Openai_Stream\<close>), are framed as server-sent events, cut by the network, and put together by the agent
  (\<open>Reply\<close>). No definition here models code of its own: the theory states what the two sides do together.
\<close>

section \<open>Frames\<close>

definition frame_json :: "wire_event \<Rightarrow> json" where
  "frame_json ev = JObj ((lit ''type'', JStr (event_name ev)) # event_fields ev)"

definition frame_bytes :: "(json \<Rightarrow> rstr) \<Rightarrow> wire_event \<Rightarrow> octet list" where
  "frame_bytes json_text ev = utf8 (sse json_text ev)"

text \<open>What \<^verbatim>\<open>serde_json\<close> does for the value of a frame: one line, read back as it was written.\<close>

definition frame_ok :: "(json \<Rightarrow> rstr) \<Rightarrow> (rstr \<Rightarrow> rstr + json) \<Rightarrow> wire_event \<Rightarrow> bool" where
  "frame_ok json_text parse ev \<longleftrightarrow>
     (let s = json_text (frame_json ev)
      in parse s = Inr (frame_json ev) \<and> list_all scalar_value s \<and> 10 \<notin> set s \<and> s \<noteq> [] \<and> s \<noteq> lit ''[DONE]'' \<and>
         \<not> is_whitespace (hd s) \<and> \<not> is_whitespace (last s))"

lemma lit_scalar: "list_all (\<lambda>c. of_char c < (55296 :: nat)) s \<Longrightarrow> list_all scalar_value (lit s)"
  by (simp add: lit_def list_all_iff scalar_value_def)

lemma char_small: "of_char c < (55296 :: nat)"
proof -
  have "of_char c < (256 :: nat)" by simp
  then show ?thesis by linarith
qed

lemma scalar_lit [simp]: "list_all scalar_value (lit s)"
  by (rule lit_scalar) (simp add: list_all_iff char_small)

lemma feed_free: "CHR 0x0A \<notin> set s \<Longrightarrow> 10 \<notin> set (lit s)"
proof
  assume s: "CHR 0x0A \<notin> set s" "10 \<in> set (lit s)"
  then obtain c where c: "c \<in> set s" "(10 :: nat) = of_char c" by (auto simp: lit_def)
  have "(of_char c :: nat) = of_char (CHR 0x0A)" using c(2) by simp
  then have "c = CHR 0x0A" by (simp only: of_char_eq_iff)
  then show False using s(1) c(1) by simp
qed

lemma name_line: "10 \<notin> set (event_name ev)" "list_all scalar_value (event_name ev)"
  by (cases ev; simp add: feed_free)+

lemma utf8_feed [simp]: "utf8 (10 # s) = 10 # utf8 s" "utf8 [] = []"
  by (simp_all add: utf8_def utf8_char_def)

lemma cut_line: "10 \<notin> set xs \<Longrightarrow> cut_lines [] (xs @ 10 # rest) = apfst (Cons xs) (cut_lines [] rest)"
proof -
  have "10 \<notin> set xs \<Longrightarrow> cut_lines acc (xs @ 10 # rest) = apfst (Cons (acc @ xs)) (cut_lines [] rest)" for acc
    by (induction xs arbitrary: acc) auto
  then show "10 \<notin> set xs \<Longrightarrow> ?thesis" by simp
qed

definition frame_lines :: "(json \<Rightarrow> rstr) \<Rightarrow> wire_event \<Rightarrow> octet list list" where
  "frame_lines json_text ev =
     [utf8 (lit ''event: '' @ event_name ev @ [10]), utf8 (lit ''data: '' @ json_text (frame_json ev) @ [10]), [10]]"

lemma frame_cut:
  assumes "frame_ok json_text parse ev"
  shows "ended_lines (frame_bytes json_text ev @ rest) = frame_lines json_text ev @ ended_lines rest"
    "left_over (frame_bytes json_text ev @ rest) = left_over rest"
proof -
  let ?s = "json_text (frame_json ev)"
  have n: "10 \<notin> set (utf8 (lit ''event: '' @ event_name ev))"
    using name_line [of ev] by (simp add: line_feed_text feed_free)
  have m: "10 \<notin> set (utf8 (lit ''data: '' @ ?s))"
    using assms by (simp add: line_feed_text frame_ok_def Let_def feed_free)
  have b: "frame_bytes json_text ev @ rest = utf8 (lit ''event: '' @ event_name ev) @ 10 # (utf8 (lit ''data: '' @ ?s) @ 10 # ([] @ 10 # rest))"
    by (simp add: frame_bytes_def sse_def frame_json_def)
  have "cut_lines [] (frame_bytes json_text ev @ rest) =
      apfst ((@) [utf8 (lit ''event: '' @ event_name ev), utf8 (lit ''data: '' @ ?s), []]) (cut_lines [] rest)"
    unfolding b using cut_line [OF n] cut_line [OF m] cut_line [of "[]" rest] by (simp add: apfst_def map_prod_def case_prod_unfold)
  then show "ended_lines (frame_bytes json_text ev @ rest) = frame_lines json_text ev @ ended_lines rest"
      "left_over (frame_bytes json_text ev @ rest) = left_over rest"
    by (simp_all add: ended_lines_def left_over_def frame_lines_def)
qed

lemma frames_cut:
  "\<forall>ev \<in> set evs. frame_ok json_text parse ev \<Longrightarrow>
     ended_lines (concat (map (frame_bytes json_text) evs)) = concat (map (frame_lines json_text) evs) \<and>
     left_over (concat (map (frame_bytes json_text) evs)) = []"
proof (induction evs)
  case (Cons ev evs)
  then have "frame_ok json_text parse ev" by simp
  from frame_cut [OF this] Cons show ?case by simp
qed (simp add: ended_lines_def left_over_def)

lemma dropWhile_none: "xs \<noteq> [] \<Longrightarrow> \<not> q (hd xs) \<Longrightarrow> dropWhile q xs = xs"
  by (cases xs) simp_all

lemma trim_inner: "s \<noteq> [] \<Longrightarrow> \<not> is_whitespace (hd s) \<Longrightarrow> \<not> is_whitespace (last s) \<Longrightarrow> trim (32 # s @ [10]) = s"
proof -
  assume s: "s \<noteq> []" "\<not> is_whitespace (hd s)" "\<not> is_whitespace (last s)"
  have w: "is_whitespace 32" "is_whitespace 10" by (simp_all add: is_whitespace_def)
  have st: "dropWhile is_whitespace (s @ [10]) = s @ [10]" using s(1,2) by (intro dropWhile_none) auto
  have en: "dropWhile is_whitespace (rev s) = rev s" using s(1,3) by (intro dropWhile_none) (simp_all add: hd_rev)
  show ?thesis unfolding trim_def trim_start_def trim_end_def using w st en by simp
qed

lemma strip_cr_feed: "strip_cr (xs @ [10]) = xs @ [10]"
  by (simp add: strip_cr_def)

lemma read_text_line: "list_all scalar_value s \<Longrightarrow> from_utf8 (strip_cr (utf8 (s @ [10]))) = Some (s @ [10])"
proof -
  assume s: "list_all scalar_value s"
  have "utf8 (s @ [10]) = utf8 s @ [10]" by (simp add: utf8_def utf8_char_def)
  then have "strip_cr (utf8 (s @ [10])) = utf8 (s @ [10])" by (simp add: strip_cr_feed)
  then show ?thesis using from_utf8_utf8 [of "s @ [10]"] s by (simp add: scalar_value_def)
qed

text \<open>Of a frame the agent reads its value.\<close>

lemma read_frame:
  assumes "frame_ok json_text parse ev"
  shows "read_lines parse (frame_lines json_text ev) a = read_event parse (frame_json ev) a"
proof -
  let ?s = "json_text (frame_json ev)"
  note ok = assms [unfolded frame_ok_def Let_def]
  have e: "read_line parse (utf8 (lit ''event: '' @ event_name ev @ [10])) a = Inr a" for a
    using read_text_line [of "lit ''event: '' @ event_name ev"] name_line [of ev]
    by (simp add: read_line_def) (simp add: lit_def)
  have b: "read_line parse [10] a = Inr a" for a
    using read_text_line [of "[]"] by (simp add: read_line_def utf8_def utf8_char_def) (simp add: lit_def)
  have "from_utf8 (strip_cr (utf8 (lit ''data: '' @ ?s @ [10]))) = Some (lit ''data: '' @ ?s @ [10])"
    using read_text_line [of "lit ''data: '' @ ?s"] ok by simp
  moreover have "strip_prefix (lit ''data:'') (lit ''data: '' @ ?s @ [10]) = Some (32 # ?s @ [10])" by (simp add: lit_def)
  moreover have "trim (32 # ?s @ [10]) = ?s" using ok by (intro trim_inner) auto
  ultimately have d: "read_line parse (utf8 (lit ''data: '' @ ?s @ [10])) a = read_event parse (frame_json ev) a" for a
    using ok by (simp add: read_line_def)
  show ?thesis unfolding frame_lines_def by (simp only: read_lines.simps e d sum.case b split: sum.splits) auto
qed

section \<open>What the agent makes of a well-formed stream\<close>

fun read_frames :: "(rstr \<Rightarrow> rstr + json) \<Rightarrow> wire_event list \<Rightarrow> assembler \<Rightarrow> rstr + assembler" where
  "read_frames parse [] a = Inr a"
| "read_frames parse (ev # evs) a = (case read_event parse (frame_json ev) a of Inl e \<Rightarrow> Inl e | Inr a \<Rightarrow> read_frames parse evs a)"

lemma read_all_frames:
  "\<forall>ev \<in> set evs. frame_ok json_text parse ev \<Longrightarrow> read_lines parse (concat (map (frame_lines json_text) evs)) a = read_frames parse evs a"
proof (induction evs arbitrary: a)
  case (Cons ev evs)
  then have "frame_ok json_text parse ev" by simp
  from read_frame [OF this] Cons show ?case by (simp add: read_lines_append split: sum.splits)
qed simp

definition usage_from :: "tokens \<Rightarrow> usage" where
  "usage_from t = \<lparr>ug_input = tk_input t, ug_output = tk_output t, ug_cache_read = tk_cache_read t, ug_cache_write = tk_cache_write t\<rparr>"

lemma usage_of_json [simp]: "usage_of (usage_json t) = usage_from t"
  by (simp add: usage_of_def usage_json_def usage_from_def count_of_def json_get_obj as_u64_def List.map_filter_def)

text \<open>The open block of the reader: what it is and what it has got so far.\<close>

type_synonym reading = "(block_start \<times> rstr) option"

fun partial_of :: "block_start \<times> rstr \<Rightarrow> partial" where
  "partial_of (TextBlock, acc) = PText acc"
| "partial_of (ToolBlock i n, acc) = PTool i n acc (Some (JObj []))"

definition call_input :: "(rstr \<Rightarrow> rstr + json) \<Rightarrow> rstr \<Rightarrow> json" where
  "call_input parse args = (if args = [] then JObj [] else case parse args of Inr v \<Rightarrow> v | Inl _ \<Rightarrow> JObj [])"

fun closed_block :: "(rstr \<Rightarrow> rstr + json) \<Rightarrow> reading \<Rightarrow> block list" where
  "closed_block parse None = []"
| "closed_block parse (Some (TextBlock, acc)) = (if acc = [] then [] else [BText acc])"
| "closed_block parse (Some (ToolBlock i n, acc)) = [BToolUse i n (call_input parse acc)]"

text \<open>The blocks of a stream of events, read without indices.\<close>

fun event_blocks :: "(rstr \<Rightarrow> rstr + json) \<Rightarrow> reading \<Rightarrow> wire_event list \<Rightarrow> block list" where
  "event_blocks parse cur [] = []"
| "event_blocks parse cur (BlockStart _ b # evs) = event_blocks parse (Some (b, [])) evs"
| "event_blocks parse (Some (b, acc)) (TextDelta _ s # evs) = event_blocks parse (Some (b, acc @ s)) evs"
| "event_blocks parse (Some (b, acc)) (JsonDelta _ s # evs) = event_blocks parse (Some (b, acc @ s)) evs"
| "event_blocks parse cur (BlockStop _ # evs) = closed_block parse cur @ event_blocks parse None evs"
| "event_blocks parse cur (_ # evs) = event_blocks parse cur evs"

definition finished_blocks :: "partial option list \<Rightarrow> block list" where
  "finished_blocks bs = concat (map (\<lambda>b. case b of Some p \<Rightarrow> finished_block p | None \<Rightarrow> []) bs)"

lemma finished_blocks_simps [simp]:
  "finished_blocks [] = []" "finished_blocks (xs @ ys) = finished_blocks xs @ finished_blocks ys"
  "finished_blocks (Some p # xs) = finished_block p @ finished_blocks xs"
  by (simp_all add: finished_blocks_def)

fun client_at :: "wire_state \<Rightarrow> reading \<Rightarrow> block list \<Rightarrow> partial option list \<Rightarrow> bool" where
  "client_at WStart cur bs ps \<longleftrightarrow> ps = [] \<and> bs = [] \<and> cur = None"
| "client_at (WIdle n) cur bs ps \<longleftrightarrow> length ps = n \<and> finished_blocks ps = bs \<and> cur = None"
| "client_at (WOpen n prose) cur bs ps \<longleftrightarrow>
     (\<exists>old b acc. cur = Some (b, acc) \<and> ps = old @ [Some (partial_of (b, acc))] \<and> length old = n \<and> finished_blocks old = bs \<and>
        prose = (b = TextBlock))"
| "client_at WEnding cur bs ps \<longleftrightarrow> finished_blocks ps = bs \<and> cur = None"
| "client_at WDone cur bs ps \<longleftrightarrow> finished_blocks ps = bs \<and> cur = None"

fun stop_after :: "wire_event \<Rightarrow> rstr option \<Rightarrow> rstr option" where
  "stop_after (MessageDelta r _) st = Some r"
| "stop_after _ st = st"

fun usage_after :: "wire_event \<Rightarrow> usage \<Rightarrow> usage" where
  "usage_after (MessageStart _ _ t) u = usage_from t"
| "usage_after (MessageDelta _ t) u = merge_usage u (usage_from t)"
| "usage_after _ u = u"

lemma finished_partial: "finished_block (close_json parse (partial_of (b, acc))) = closed_block parse (Some (b, acc))"
  by (cases b) (simp_all add: call_input_def split: sum.splits)

lemma frame_field:
  "json_get (lit ''type'') (frame_json ev) = Some (JStr (event_name ev))"
  "k \<noteq> lit ''type'' \<Longrightarrow> json_get k (frame_json ev) = map_of (event_fields ev) k"
  by (simp_all add: frame_json_def json_get_obj)

lemma at_last: "at_block (length old) f (old @ [Some p]) = old @ [Some (f p)]"
  by (simp add: at_block_def)

lemma put_next: "put_block (length ps) b ps = ps @ [Some b]"
  by (simp add: put_block_def)

lemma client_step:
  assumes "wire_step w ev = Some w'" "client_at w cur bs (as_blocks a)"
  shows "\<exists>a' cur' bs'. read_event parse (frame_json ev) a = Inr a' \<and> client_at w' cur' bs' (as_blocks a') \<and>
    (\<forall>evs. bs' @ event_blocks parse cur' evs = bs @ event_blocks parse cur (ev # evs)) \<and>
    as_done a' = (as_done a \<or> ev = MessageStop) \<and> as_stop a' = stop_after ev (as_stop a) \<and> as_usage a' = usage_after ev (as_usage a)"
proof (cases ev)
  case (MessageStart i m t)
  then show ?thesis using assms
    by (cases w) (auto simp: read_event_def frame_field as_str_def begin_message_def json_get_obj)
next
  case (BlockStart n b)
  then obtain ps where w: "w = WIdle n" "w' = WOpen n (b = TextBlock)" using assms(1) by (cases w) (auto split: if_splits)
  have o: "opened_block (Some (start_json b)) = Some (partial_of (b, []))"
    by (cases b) (simp_all add: opened_block_def json_get_obj as_str_def str_or_empty_def)
  have "read_event parse (frame_json ev) a = Inr (a\<lparr>as_blocks := as_blocks a @ [Some (partial_of (b, []))]\<rparr>)"
    using assms(2) w o BlockStart put_next [of "as_blocks a"]
    by (simp add: read_event_def frame_field as_str_def block_opens_def index_of_event_def u64_or_0_def as_u64_def)
  then show ?thesis using assms(2) w BlockStart by auto
next
  case (TextDelta n s)
  then have w: "w = WOpen n True" "w' = w" using assms(1) by (cases w; auto split: if_splits)+
  then obtain old acc where c: "cur = Some (TextBlock, acc)" "as_blocks a = old @ [Some (PText acc)]" "length old = n" "finished_blocks old = bs"
    using assms(2) by auto
  let ?a = "counted s a"
  have k: "as_blocks ?a = as_blocks a" "as_done ?a = as_done a" "as_stop ?a = as_stop a" "as_usage ?a = as_usage a" by (simp_all add: counted_def)
  have "read_event parse (frame_json ev) a = Inr (?a\<lparr>as_blocks := old @ [Some (PText (acc @ s))], as_answer := as_answer ?a @ s\<rparr>)"
    using TextDelta c k at_last [of old "push_text s"]
    by (simp add: read_event_def frame_field as_str_def block_grows_def index_of_event_def u64_or_0_def as_u64_def json_get_obj str_or_empty_def Let_def)
  then show ?thesis using w c k TextDelta by (intro exI [of _ "?a\<lparr>as_blocks := _, as_answer := _\<rparr>"] exI [of _ "Some (TextBlock, acc @ s)"] exI [of _ bs]) auto
next
  case (JsonDelta n s)
  then have w: "w = WOpen n False" "w' = w" using assms(1) by (cases w; auto split: if_splits)+
  then obtain old b acc where c: "cur = Some (b, acc)" "as_blocks a = old @ [Some (partial_of (b, acc))]" "length old = n"
      "finished_blocks old = bs" "b \<noteq> TextBlock"
    using assms(2) by auto
  then obtain i nm where b: "b = ToolBlock i nm" by (cases b) auto
  let ?a = "counted s a"
  have k: "as_blocks ?a = as_blocks a" "as_done ?a = as_done a" "as_stop ?a = as_stop a" "as_usage ?a = as_usage a" by (simp_all add: counted_def)
  have "read_event parse (frame_json ev) a = Inr (?a\<lparr>as_blocks := old @ [Some (PTool i nm (acc @ s) (Some (JObj [])))]\<rparr>)"
    using JsonDelta b c k at_last [of old "push_json s"]
    by (simp add: read_event_def frame_field as_str_def block_grows_def index_of_event_def u64_or_0_def as_u64_def json_get_obj str_or_empty_def Let_def)
  then show ?thesis using w b c k JsonDelta by (intro exI [of _ "?a\<lparr>as_blocks := _\<rparr>"] exI [of _ "Some (b, acc @ s)"] exI [of _ bs]) auto
next
  case (BlockStop n)
  then obtain prose where w: "w = WOpen n prose" "w' = WIdle (Suc n)" using assms(1) by (cases w) (auto split: if_splits)
  then obtain old b acc where c: "cur = Some (b, acc)" "as_blocks a = old @ [Some (partial_of (b, acc))]" "length old = n" "finished_blocks old = bs"
    using assms(2) by auto
  have "read_event parse (frame_json ev) a = Inr (a\<lparr>as_blocks := old @ [Some (close_json parse (partial_of (b, acc)))]\<rparr>)"
    using BlockStop c at_last [of old "close_json parse"]
    by (simp add: read_event_def frame_field as_str_def block_ends_def index_of_event_def u64_or_0_def as_u64_def)
  then show ?thesis using w c BlockStop finished_partial [of parse b acc]
    by (intro exI [of _ "a\<lparr>as_blocks := _\<rparr>"] exI [of _ None] exI [of _ "bs @ closed_block parse cur"]) auto
next
  case (MessageDelta r t)
  then obtain n where w: "w = WIdle n" "w' = WEnding" using assms(1) by (cases w) auto
  have "read_event parse (frame_json ev) a = Inr (a\<lparr>as_stop := Some r, as_usage := merge_usage (as_usage a) (usage_from t)\<rparr>)"
    using MessageDelta by (simp add: read_event_def frame_field as_str_def message_closes_def json_get_obj)
  then show ?thesis using assms(2) w MessageDelta by auto
next
  case MessageStop
  then have w: "w = WEnding" "w' = WDone" using assms(1) by (cases w; auto)+
  have "read_event parse (frame_json ev) a = Inr (a\<lparr>as_done := True\<rparr>)"
    using MessageStop by (simp add: read_event_def frame_field as_str_def)
  then show ?thesis using assms(2) w MessageStop by auto
next
  case (ErrorEvent k m)
  then show ?thesis using assms(1) by (cases w) auto
qed

lemma client_run:
  assumes "wire_run w evs = Some w'" "client_at w cur bs (as_blocks a)"
  shows "\<exists>a' cur' bs'. read_frames parse evs a = Inr a' \<and> client_at w' cur' bs' (as_blocks a') \<and>
    (\<forall>es. bs' @ event_blocks parse cur' es = bs @ event_blocks parse cur (evs @ es)) \<and>
    as_done a' = (as_done a \<or> MessageStop \<in> set evs) \<and> as_stop a' = fold stop_after evs (as_stop a) \<and>
    as_usage a' = fold usage_after evs (as_usage a)"
  using assms
proof (induction evs arbitrary: w cur bs a)
  case Nil
  then show ?case by auto
next
  case (Cons ev evs)
  then obtain w1 where w1: "wire_step w ev = Some w1" "wire_run w1 evs = Some w'" by (cases "wire_step w ev") auto
  obtain a1 cur1 bs1 where s: "read_event parse (frame_json ev) a = Inr a1" "client_at w1 cur1 bs1 (as_blocks a1)"
      "\<forall>es. bs1 @ event_blocks parse cur1 es = bs @ event_blocks parse cur (ev # es)"
      "as_done a1 = (as_done a \<or> ev = MessageStop)" "as_stop a1 = stop_after ev (as_stop a)" "as_usage a1 = usage_after ev (as_usage a)"
    using client_step [OF w1(1) Cons.prems(2), of parse] by blast
  obtain a' cur' bs' where r: "read_frames parse evs a1 = Inr a'" "client_at w' cur' bs' (as_blocks a')"
      "\<forall>es. bs' @ event_blocks parse cur' es = bs1 @ event_blocks parse cur1 (evs @ es)"
      "as_done a' = (as_done a1 \<or> MessageStop \<in> set evs)" "as_stop a' = fold stop_after evs (as_stop a1)"
      "as_usage a' = fold usage_after evs (as_usage a1)"
    using Cons.IH [OF w1(2) s(2)] by blast
  show ?case by (rule exI [of _ a'], rule exI [of _ cur'], rule exI [of _ bs']) (use r s in auto)
qed

section \<open>Reading until the end is said\<close>

lemma done_line: "read_line parse l a = Inr b \<Longrightarrow> as_done a \<Longrightarrow> as_done b"
proof -
  assume r: "read_line parse l a = Inr b" "as_done a"
  have "read_event parse e a = Inr b \<Longrightarrow> as_done b" for e
    using r(2) by (auto simp: read_event_def begin_message_def block_opens_def block_grows_def block_ends_def message_closes_def counted_def Let_def
        split: option.splits if_splits)
  then show ?thesis using r by (auto simp: read_line_def Let_def split: option.splits if_splits sum.splits)
qed

lemma done_lines: "read_lines parse ls a = Inr b \<Longrightarrow> as_done a \<Longrightarrow> as_done b"
  by (induction ls arbitrary: a) (auto split: sum.splits dest: done_line)

lemma read_lines_prefix:
  assumes "read_lines parse (xs @ ys) a = Inr b"
  obtains c where "read_lines parse xs a = Inr c" "read_lines parse ys c = Inr b"
  using assms by (cases "read_lines parse xs a") (auto simp: read_lines_append)

lemma blank_line: "read_line parse [10] a = Inr a"
  using read_text_line [of "[]"] by (simp add: read_line_def utf8_def utf8_char_def) (simp add: lit_def)

lemma chunks_until_done:
  assumes "10 \<notin> set (as_partial a)" "ended_lines (as_partial a @ concat cs) = ls @ [x, [10]]"
    "read_lines parse ls a = Inr b" "\<not> as_done b" "read_line parse x b = Inr c" "as_done c"
  shows "\<exists>p. read_chunks parse cs e a = Inr (c\<lparr>as_partial := p\<rparr>)"
  using assms
proof (induction cs arbitrary: a ls b c)
  case Nil
  then show ?case by (simp add: ended_lines_def cut_none)
next
  case (Cons d cs)
  let ?p = "as_partial a @ d"
  let ?P = "ended_lines ?p" and ?R = "ended_lines (left_over ?p @ concat cs)"
  have n: "10 \<notin> set (left_over ?p)" by (simp add: left_over_def cut_rest)
  have all: "?P @ ?R = ls @ [x, [10]]" using Cons.prems(2) bytes_append(1) [of ?p "concat cs"] by simp
  have asm: "assemble_bytes parse d a = with_partial (left_over ?p) (read_lines parse ?P a)" by (simp add: assemble_bytes_def take_as_lines)
  have full: "read_lines parse (ls @ [x]) a = Inr c" "read_lines parse (ls @ [x, [10]]) a = Inr c"
    using Cons.prems(3,5) blank_line by (simp_all add: read_lines_append)
  show ?case
  proof (cases "length ?P \<le> length ls")
    case True
    then obtain ls' where l: "ls = ?P @ ls'" "?R = ls' @ [x, [10]]"
      using all by (auto simp: append_eq_append_conv2)
    obtain a1 where a1: "read_lines parse ?P a = Inr a1" "read_lines parse ls' a1 = Inr b"
      using Cons.prems(3) l(1) read_lines_prefix by metis
    have nd: "\<not> as_done a1" using a1(2) Cons.prems(4) done_lines by blast
    let ?a = "a1\<lparr>as_partial := left_over ?p\<rparr>"
    have "read_line parse x (b\<lparr>as_partial := left_over ?p\<rparr>) = Inr (c\<lparr>as_partial := left_over ?p\<rparr>)" using Cons.prems(5) by simp
    moreover have "read_lines parse ls' ?a = Inr (b\<lparr>as_partial := left_over ?p\<rparr>)" using a1(2) by simp
    ultimately have "\<exists>q. read_chunks parse cs e ?a = Inr (c\<lparr>as_partial := left_over ?p, as_partial := q\<rparr>)"
      using Cons.IH [of ?a ls' "b\<lparr>as_partial := left_over ?p\<rparr>" "c\<lparr>as_partial := left_over ?p\<rparr>"] n l(2) Cons.prems(4,6) by simp
    then show ?thesis using asm a1(1) nd by simp
  next
    case False
    then have "?P = ls @ [x] \<or> ?P = ls @ [x, [10]]" using all by (auto simp: append_eq_append_conv2 append_eq_Cons_conv)
    then have "read_lines parse ?P a = Inr c" using full by auto
    then show ?thesis using asm Cons.prems(6) by auto
  qed
qed

lemma wire_ends:
  "wire_run w evs = Some WDone \<Longrightarrow> w \<noteq> WDone \<Longrightarrow>
     \<exists>init. evs = init @ [MessageStop] \<and> wire_run w init = Some WEnding \<and> MessageStop \<notin> set init"
proof (induction evs arbitrary: w)
  case (Cons ev evs)
  from Cons.prems(1) obtain w1 where w1: "wire_step w ev = Some w1" "wire_run w1 evs = Some WDone" by (cases "wire_step w ev") auto
  show ?case
  proof (cases "w1 = WDone")
    case True
    then have "evs = []" using w1(2) by (cases evs) auto
    moreover have "w = WEnding \<and> ev = MessageStop" using w1(1) True by (cases w; cases ev) (auto split: if_splits)
    ultimately show ?thesis by simp
  next
    case False
    obtain init where i: "evs = init @ [MessageStop]" "wire_run w1 init = Some WEnding" "MessageStop \<notin> set init"
      using Cons.IH [OF w1(2) False] by blast
    have "ev \<noteq> MessageStop" using w1(1) False by (cases w) auto
    then show ?thesis using i w1(1) by (intro exI [of _ "ev # init"]) simp
  qed
qed simp

text \<open>A whole stream, cut anywhere, whatever the connection does behind its end.\<close>

lemma whole_stream_read:
  assumes "wire_run WStart evs = Some WDone" "\<forall>ev \<in> set evs. frame_ok json_text parse ev"
    "concat (hr_chunks resp) = concat (map (frame_bytes json_text) evs)"
  shows "\<exists>r. read_streamed parse resp = Inr r \<and> mr_content r = event_blocks parse None evs \<and>
    mr_stop r = fold stop_after evs None \<and> mr_usage r = fold usage_after evs no_usage"
proof -
  obtain init where i: "evs = init @ [MessageStop]" "wire_run WStart init = Some WEnding" "MessageStop \<notin> set init"
    using wire_ends [OF assms(1)] by blast
  let ?a = new_assembler
  have new: "as_blocks ?a = []" "as_done ?a = False" "as_stop ?a = None" "as_usage ?a = no_usage" "as_partial ?a = []"
    by (simp_all add: new_assembler_def)
  obtain b cur bs where b: "read_frames parse init ?a = Inr b" "client_at WEnding cur bs (as_blocks b)"
      "\<forall>es. bs @ event_blocks parse cur es = [] @ event_blocks parse None (init @ es)"
      "as_done b = (as_done ?a \<or> MessageStop \<in> set init)" "as_stop b = fold stop_after init (as_stop ?a)"
      "as_usage b = fold usage_after init (as_usage ?a)"
    using client_run [OF i(2), of None "[]" ?a parse] new by auto
  let ?ok = "frame_ok json_text parse" and ?x = "utf8 (lit ''data: '' @ json_text (frame_json MessageStop) @ [10])"
  let ?e = "utf8 (lit ''event: '' @ event_name MessageStop @ [10])"
  have oks: "\<forall>ev \<in> set init. ?ok ev" "?ok MessageStop" using assms(2) i(1) by auto
  let ?c = "b\<lparr>as_done := True\<rparr>"
  have "read_event parse (frame_json MessageStop) b = Inr ?c" by (simp add: read_event_def frame_field as_str_def)
  then have stop: "read_lines parse [?e, ?x, [10]] b = Inr ?c" using read_frame [OF oks(2), of b] by (simp add: frame_lines_def)
  obtain b' where e: "read_line parse ?e b = Inr b'" "read_lines parse [?x, [10]] b' = Inr ?c"
    using stop read_lines_prefix [of parse "[?e]" "[?x, [10]]" b ?c] by (auto split: sum.splits)
  have "from_utf8 (strip_cr ?e) = Some (lit ''event: '' @ event_name MessageStop @ [10])"
    using read_text_line [of "lit ''event: '' @ event_name MessageStop"] name_line [of MessageStop] by simp
  then have "read_line parse ?e b = Inr b" by (simp add: read_line_def) (simp add: lit_def)
  then have bb: "b' = b" using e(1) by simp
  have x: "read_line parse ?x b = Inr ?c" using e(2) bb blank_line by (auto split: sum.splits)
  let ?ls = "concat (map (frame_lines json_text) init) @ [?e]"
  have ls: "ended_lines (as_partial ?a @ concat (hr_chunks resp)) = ?ls @ [?x, [10]]"
    using frames_cut [OF assms(2)] assms(3) i(1) new(5) by (simp add: frame_lines_def)
  have "read_lines parse ?ls ?a = Inr b"
    using b(1) read_all_frames [OF oks(1)] \<open>read_line parse ?e b = Inr b\<close> by (simp add: read_lines_append)
  then obtain p where "read_chunks parse (hr_chunks resp) (hr_end resp) ?a = Inr (?c\<lparr>as_partial := p\<rparr>)"
    using chunks_until_done [OF _ ls _ _ x, of "hr_end resp"] b(4) i(3) new by auto
  moreover have "finished_blocks (as_blocks b) = event_blocks parse None evs"
    using b(2) spec [OF b(3), of "[MessageStop]"] i(1) by simp
  ultimately show ?thesis using b(5,6) new i(1) by (simp add: read_streamed_def finish_reply_def finished_blocks_def)
qed

lemma chunks_never_done:
  assumes "10 \<notin> set (as_partial a)" "read_lines parse (ended_lines (as_partial a @ concat cs)) a = Inr b" "\<not> as_done b"
  shows "\<exists>p. read_chunks parse cs BodyEnded a = Inr (b\<lparr>as_partial := p\<rparr>)"
  using assms
proof (induction cs arbitrary: a b)
  case Nil
  then have "read_chunks parse [] BodyEnded a = Inr (b\<lparr>as_partial := as_partial b\<rparr>)" by (simp add: ended_lines_def cut_none)
  then show ?case by blast
next
  case (Cons d cs)
  let ?p = "as_partial a @ d"
  have n: "10 \<notin> set (left_over ?p)" by (simp add: left_over_def cut_rest)
  have "read_lines parse (ended_lines ?p @ ended_lines (left_over ?p @ concat cs)) a = Inr b"
    using Cons.prems(2) bytes_append(1) [of ?p "concat cs"] by simp
  then obtain a1 where a1: "read_lines parse (ended_lines ?p) a = Inr a1" "read_lines parse (ended_lines (left_over ?p @ concat cs)) a1 = Inr b"
    using read_lines_prefix by metis
  have nd: "\<not> as_done a1" using a1(2) Cons.prems(3) done_lines by blast
  have "\<exists>q. read_chunks parse cs BodyEnded (a1\<lparr>as_partial := left_over ?p\<rparr>) = Inr (b\<lparr>as_partial := left_over ?p, as_partial := q\<rparr>)"
    using Cons.IH [of "a1\<lparr>as_partial := left_over ?p\<rparr>" "b\<lparr>as_partial := left_over ?p\<rparr>"] n a1(2) Cons.prems(3) by simp
  then show ?case using a1(1) nd by (simp add: assemble_bytes_def take_as_lines)
qed

text \<open>A stream that breaks off before its end is refused.\<close>

lemma broken_stream_refused:
  assumes "wire_run WStart evs = Some w" "MessageStop \<notin> set evs" "\<forall>ev \<in> set evs. frame_ok json_text parse ev"
    "concat (hr_chunks resp) = concat (map (frame_bytes json_text) evs)" "hr_end resp = BodyEnded"
  shows "read_streamed parse resp = Inl (ApiFailed (lit ''the streamed reply ended before `message_stop`''))"
proof -
  let ?a = new_assembler
  have new: "as_blocks ?a = []" "as_done ?a = False" "as_partial ?a = []" by (simp_all add: new_assembler_def)
  obtain b where b: "read_frames parse evs ?a = Inr b" "as_done b = (as_done ?a \<or> MessageStop \<in> set evs)"
    using client_run [OF assms(1), of None "[]" ?a parse] new by auto
  have "read_lines parse (ended_lines (as_partial ?a @ concat (hr_chunks resp))) ?a = Inr b"
    using frames_cut [OF assms(3)] assms(4) new(3) b(1) read_all_frames [OF assms(3)] by simp
  then obtain p where "read_chunks parse (hr_chunks resp) BodyEnded ?a = Inr (b\<lparr>as_partial := p\<rparr>)"
    using chunks_never_done [of ?a parse "hr_chunks resp" b] b(2) assms(2) new by auto
  then show ?thesis using assms(2,5) b(2) new by (simp add: read_streamed_def finish_reply_def)
qed

section \<open>What the translator makes of a reply\<close>

text \<open>A chunk as a list of things said: prose, and fragments of calls.\<close>

datatype item = Said rstr | Fragment json

definition chunk_items :: "json \<Rightarrow> item list" where
  "chunk_items ch = (if chunk_text ch \<noteq> [] then [Said (chunk_text ch)] else []) @ map Fragment (chunk_calls ch)"

fun run_item :: "item \<Rightarrow> translator \<Rightarrow> emitted" where
  "run_item (Said s) t = text_delta s t"
| "run_item (Fragment c) t = tool_delta c t"

fun run_items :: "item list \<Rightarrow> translator \<Rightarrow> emitted" where
  "run_items [] t = (t, [])"
| "run_items (x # xs) t = (let (t, evs) = run_item x t; (t, evs') = run_items xs t in (t, evs @ evs'))"

lemma run_items_append: "run_items (xs @ ys) t = (let (t, evs) = run_items xs t; (t, evs') = run_items ys t in (t, evs @ evs'))"
  by (induction xs arbitrary: t) (simp_all add: Let_def case_prod_unfold)

lemma run_fragments: "run_items (map Fragment cs) t = tool_deltas cs t"
  by (induction cs arbitrary: t) (simp_all add: Let_def case_prod_unfold)

text \<open>The events depend on the open block, the next number, the calls seen and the call that waits for its name.\<close>

definition same_core :: "translator \<Rightarrow> translator \<Rightarrow> bool" where
  "same_core t u \<longleftrightarrow> tl_open t = tl_open u \<and> tl_next_index t = tl_next_index u \<and> tl_tools t = tl_tools u \<and> tl_assembling t = tl_assembling u"

lemma core_item: "same_core t u \<Longrightarrow> snd (run_item x t) = snd (run_item x u) \<and> same_core (fst (run_item x t)) (fst (run_item x u))"
  by (cases x) (auto simp: same_core_def text_delta_def tool_delta_def open_tool_def close_open_def Let_def split: option.splits open_block.splits)

lemma core_items: "same_core t u \<Longrightarrow> snd (run_items xs t) = snd (run_items xs u) \<and> same_core (fst (run_items xs t)) (fst (run_items xs u))"
proof (induction xs arbitrary: t u)
  case (Cons x xs)
  then show ?case using core_item [OF Cons.prems, of x] Cons.IH [of "fst (run_item x t)" "fst (run_item x u)"]
    by (simp add: Let_def case_prod_unfold)
qed simp

lemma item_keeps [simp]:
  "tl_stop (fst (run_item x t)) = tl_stop t" "tl_tokens (fst (run_item x t)) = tl_tokens t" "tl_started (fst (run_item x t)) = tl_started t"
  "tl_closed (fst (run_item x t)) = tl_closed t"
  by (cases x; simp add: text_delta_def tool_delta_def open_tool_def close_open_def Let_def split: option.splits open_block.splits)+

lemma items_keep [simp]:
  "tl_stop (fst (run_items xs t)) = tl_stop t" "tl_tokens (fst (run_items xs t)) = tl_tokens t" "tl_started (fst (run_items xs t)) = tl_started t"
  "tl_closed (fst (run_items xs t)) = tl_closed t"
  by (induction xs arbitrary: t) (simp_all add: Let_def case_prod_unfold)

fun run_values :: "json list \<Rightarrow> translator \<Rightarrow> emitted" where
  "run_values [] t = (t, [])"
| "run_values (v # vs) t = (let (t, evs) = stream_chunk v t; (t, evs') = run_values vs t in (t, evs @ evs'))"

lemma run_lines_values:
  "\<forall>v \<in> set (line_values parse ls). json_get (lit ''error'') v = None \<Longrightarrow> run_lines parse ls t = run_values (line_values parse ls) t"
proof (induction ls arbitrary: t)
  case (Cons l ls)
  then show ?case
    by (cases "line_value parse l") (simp_all add: line_values_def stream_line_value Let_def case_prod_unfold)
qed (simp add: line_values_def)

definition tokens_after :: "json \<Rightarrow> tokens \<Rightarrow> tokens" where
  "tokens_after v k = (case not_null (json_get (lit ''usage'') v) of Some u \<Rightarrow> tokens_of (Some u) | None \<Rightarrow> k)"

definition finish_of :: "json \<Rightarrow> json option" where
  "finish_of v = not_null (Option.bind (first_choice v) (json_get (lit ''finish_reason'')))"

definition reason_after :: "json \<Rightarrow> rstr option \<Rightarrow> rstr option" where
  "reason_after v r = (case finish_of v of Some reason \<Rightarrow> Some (stop_reason (Some reason)) | None \<Rightarrow> r)"

lemma chunk_as_items:
  "\<exists>u. stream_chunk v t = (let (t', evs) = run_items (chunk_items v) u in (chunk_stop v t', snd (chunk_head v t) @ evs)) \<and>
    u = fst (chunk_head v t)"
proof -
  have "run_items (chunk_items v) u =
      (let (t, e2) = maybe_text (chunk_text v) u; (t, e3) = tool_deltas (chunk_calls v) t in (t, e2 @ e3))" for u
    by (simp add: chunk_items_def run_items_append run_fragments maybe_text_def Let_def case_prod_unfold)
  then show ?thesis by (simp add: stream_chunk_parts Let_def case_prod_unfold)
qed

lemma head_facts:
  "same_core (fst (chunk_head v t)) t" "tl_stop (fst (chunk_head v t)) = tl_stop t" "tl_tokens (fst (chunk_head v t)) = tokens_after v (tl_tokens t)"
  "tl_started (fst (chunk_head v t))" "tl_closed (fst (chunk_head v t)) = tl_closed t"
  "tl_started t \<Longrightarrow> snd (chunk_head v t) = []"
  "\<not> tl_started t \<Longrightarrow> \<exists>i m. snd (chunk_head v t) = [MessageStart i m (tokens_after v (tl_tokens t))]"
  by (simp_all add: chunk_head_def same_core_def message_start_def tokens_after_def Let_def split: option.splits)

lemma stop_facts:
  "same_core (chunk_stop v t) t" "tl_stop (chunk_stop v t) = reason_after v (tl_stop t)" "tl_tokens (chunk_stop v t) = tl_tokens t"
  "tl_started (chunk_stop v t) = tl_started t" "tl_closed (chunk_stop v t) = tl_closed t"
  by (simp_all add: chunk_stop_def same_core_def reason_after_def finish_of_def split: option.splits)

lemma core_trans: "same_core t u \<Longrightarrow> same_core u w \<Longrightarrow> same_core t w"
  by (simp add: same_core_def)

lemma value_step:
  "snd (stream_chunk v t) = snd (chunk_head v t) @ snd (run_items (chunk_items v) t) \<and>
   same_core (fst (stream_chunk v t)) (fst (run_items (chunk_items v) t)) \<and>
   tl_stop (fst (stream_chunk v t)) = reason_after v (tl_stop t) \<and> tl_tokens (fst (stream_chunk v t)) = tokens_after v (tl_tokens t) \<and>
   tl_started (fst (stream_chunk v t)) \<and> tl_closed (fst (stream_chunk v t)) = tl_closed t"
proof -
  let ?u = "fst (chunk_head v t)"
  have s: "stream_chunk v t = (chunk_stop v (fst (run_items (chunk_items v) ?u)), snd (chunk_head v t) @ snd (run_items (chunk_items v) ?u))"
    using chunk_as_items [of v t] by (simp add: Let_def case_prod_unfold)
  have c: "snd (run_items (chunk_items v) ?u) = snd (run_items (chunk_items v) t)"
      "same_core (fst (run_items (chunk_items v) ?u)) (fst (run_items (chunk_items v) t))"
    using core_items [OF head_facts(1) [of v t], of "chunk_items v"] by simp_all
  show ?thesis using c core_trans [OF stop_facts(1) c(2)] by (simp add: s stop_facts head_facts)
qed

lemma run_values_items:
  assumes "tl_started t"
  shows "snd (run_values vs t) = snd (run_items (concat (map chunk_items vs)) t) \<and>
    same_core (fst (run_values vs t)) (fst (run_items (concat (map chunk_items vs)) t)) \<and>
    tl_stop (fst (run_values vs t)) = fold reason_after vs (tl_stop t) \<and> tl_tokens (fst (run_values vs t)) = fold tokens_after vs (tl_tokens t) \<and>
    tl_started (fst (run_values vs t)) \<and> tl_closed (fst (run_values vs t)) = tl_closed t"
  using assms
proof (induction vs arbitrary: t)
  case Nil
  then show ?case by (simp add: same_core_def)
next
  case (Cons v vs)
  note st = value_step [of v t]
  let ?t = "fst (stream_chunk v t)" and ?i = "fst (run_items (chunk_items v) t)"
  have ih: "snd (run_values vs ?t) = snd (run_items (concat (map chunk_items vs)) ?t) \<and>
    same_core (fst (run_values vs ?t)) (fst (run_items (concat (map chunk_items vs)) ?t)) \<and>
    tl_stop (fst (run_values vs ?t)) = fold reason_after vs (tl_stop ?t) \<and> tl_tokens (fst (run_values vs ?t)) = fold tokens_after vs (tl_tokens ?t) \<and>
    tl_started (fst (run_values vs ?t)) \<and> tl_closed (fst (run_values vs ?t)) = tl_closed ?t"
    by (rule Cons.IH) (use st in simp)
  have c: "snd (run_items (concat (map chunk_items vs)) ?t) = snd (run_items (concat (map chunk_items vs)) ?i)"
      "same_core (fst (run_items (concat (map chunk_items vs)) ?t)) (fst (run_items (concat (map chunk_items vs)) ?i))"
    using core_items [of ?t ?i "concat (map chunk_items vs)"] st by simp_all
  have h: "snd (chunk_head v t) = []" by (rule head_facts(6) [OF Cons.prems])
  show ?case using ih st c h core_trans [of "fst (run_values vs ?t)" "fst (run_items (concat (map chunk_items vs)) ?t)"]
    by (simp add: run_items_append Let_def case_prod_unfold)
qed

lemma run_values_new:
  assumes "vs \<noteq> []"
  shows "\<exists>i m. snd (run_values vs new_translator) =
      MessageStart i m (tokens_after (hd vs) no_tokens) # snd (run_items (concat (map chunk_items vs)) new_translator) \<and>
    same_core (fst (run_values vs new_translator)) (fst (run_items (concat (map chunk_items vs)) new_translator)) \<and>
    tl_stop (fst (run_values vs new_translator)) = fold reason_after vs None \<and>
    tl_tokens (fst (run_values vs new_translator)) = fold tokens_after vs no_tokens \<and>
    tl_started (fst (run_values vs new_translator)) \<and> \<not> tl_closed (fst (run_values vs new_translator))"
proof -
  obtain v ws where vs: "vs = v # ws" using assms by (cases vs) auto
  let ?n = new_translator and ?t = "fst (stream_chunk v new_translator)"
  have new: "tl_stop ?n = None" "tl_tokens ?n = no_tokens" "\<not> tl_started ?n" "\<not> tl_closed ?n" by (simp_all add: new_translator_def)
  note st = value_step [of v ?n]
  have "tl_started ?t" using st by simp
  note rest = run_values_items [OF this, of ws]
  let ?i = "fst (run_items (chunk_items v) ?n)"
  have c: "snd (run_items (concat (map chunk_items ws)) ?t) = snd (run_items (concat (map chunk_items ws)) ?i)"
      "same_core (fst (run_items (concat (map chunk_items ws)) ?t)) (fst (run_items (concat (map chunk_items ws)) ?i))"
    using core_items [of ?t ?i "concat (map chunk_items ws)"] st by simp_all
  obtain i m where h: "snd (chunk_head v ?n) = [MessageStart i m (tokens_after v no_tokens)]" using head_facts(7) [OF new(3), of v] new(2) by auto
  show ?thesis using rest st c h new core_trans [of "fst (run_values ws ?t)" "fst (run_items (concat (map chunk_items ws)) ?t)"]
    by (auto simp: vs run_items_append Let_def case_prod_unfold)
qed

section \<open>The blocks of a reply\<close>

definition call_arguments :: "json \<Rightarrow> rstr" where
  "call_arguments c = str_or_empty (call_function (lit ''arguments'') c)"

text \<open>A call of the reply: its number, id, name and arguments; and the fragments it arrives in.\<close>

type_synonym whole_call = "nat \<times> rstr \<times> rstr \<times> rstr"

fun fragments_of :: "whole_call \<Rightarrow> json list \<Rightarrow> bool" where
  "fragments_of (k, i, n, args) frs \<longleftrightarrow>
     frs \<noteq> [] \<and> (\<forall>f \<in> set frs. call_index f = k) \<and> as_str (json_get (lit ''id'') (hd frs)) = Some i \<and>
     as_str (call_function (lit ''name'') (hd frs)) = Some n \<and> concat (map call_arguments frs) = args"

fun call_block :: "(rstr \<Rightarrow> rstr + json) \<Rightarrow> whole_call \<Rightarrow> block" where
  "call_block parse (k, i, n, args) = BToolUse i n (call_input parse args)"

definition open_together :: "translator \<Rightarrow> reading \<Rightarrow> bool" where
  "open_together t cur \<longleftrightarrow> (tl_open t = None \<longleftrightarrow> cur = None)"

lemma close_blocks:
  "open_together t cur \<Longrightarrow> event_blocks parse cur (snd (close_open t) @ evs) = closed_block parse cur @ event_blocks parse None evs"
  by (cases cur) (auto simp: open_together_def close_open_def split: option.splits)

lemma argument_blocks: "event_blocks parse (Some (b, acc)) (push_arguments n s @ evs) = event_blocks parse (Some (b, acc @ s)) evs"
  by (simp add: push_arguments_def)

lemma prose_blocks:
  assumes "open_together t cur" "cur = None \<or> (\<exists>n acc. tl_open t = Some (OpenText n) \<and> cur = Some (TextBlock, acc))" "\<forall>s \<in> set ps. s \<noteq> []"
  shows "\<exists>cur'. (\<forall>evs. event_blocks parse cur (snd (run_items (map Said ps) t) @ evs) = event_blocks parse cur' evs) \<and>
    open_together (fst (run_items (map Said ps) t)) cur' \<and>
    closed_block parse cur' = (let acc = (case cur of None \<Rightarrow> [] | Some (_, acc) \<Rightarrow> acc) @ concat ps in if acc = [] then [] else [BText acc]) \<and>
    tl_tools (fst (run_items (map Said ps) t)) = tl_tools t \<and>
    (ps \<noteq> [] \<or> tl_assembling t = None \<longrightarrow> tl_assembling (fst (run_items (map Said ps) t)) = None)"
  using assms
proof (induction ps arbitrary: t cur)
  case Nil
  then show ?case by (auto simp: Let_def)
next
  case (Cons s ps)
  let ?t = "fst (text_delta s t)"
  let ?acc = "(case cur of None \<Rightarrow> [] | Some (_, acc) \<Rightarrow> acc) @ s"
  let ?cur = "Some (TextBlock, ?acc)"
  have step: "event_blocks parse cur (snd (text_delta s t) @ evs) = event_blocks parse ?cur evs" for evs
    using Cons.prems(1,2) by (auto simp: open_together_def text_delta_def close_open_def Let_def)
  have o: "\<exists>n. tl_open ?t = Some (OpenText n)" "tl_tools ?t = tl_tools t" "tl_assembling ?t = None"
    by (auto simp: text_delta_def close_open_def Let_def split: option.splits open_block.splits)
  have "open_together ?t ?cur" using o(1) by (auto simp: open_together_def)
  from Cons.IH [OF this] o Cons.prems(3) show ?case by (auto simp: step Let_def case_prod_unfold)
qed

lemma later_fragments:
  assumes "tl_tools t k = Some n" "\<forall>f \<in> set frs. call_index f = k" "tl_open t \<noteq> None"
  shows "(\<forall>evs. event_blocks parse (Some (b, acc)) (snd (tool_deltas frs t) @ evs) = event_blocks parse (Some (b, acc @ concat (map call_arguments frs))) evs) \<and>
    tl_open (fst (tool_deltas frs t)) = tl_open t \<and> tl_tools (fst (tool_deltas frs t)) = tl_tools t \<and>
    (frs \<noteq> [] \<or> tl_assembling t = None \<longrightarrow> tl_assembling (fst (tool_deltas frs t)) = None)"
  using assms
proof (induction frs arbitrary: t acc)
  case (Cons f frs)
  then have s: "tool_delta f t = (t\<lparr>tl_assembling := None\<rparr>, push_arguments n (call_arguments f))"
    by (simp add: tool_delta_def call_arguments_def Let_def)
  show ?case using Cons.IH [of "t\<lparr>tl_assembling := None\<rparr>" "acc @ call_arguments f"] Cons.prems
    by (simp add: s Let_def case_prod_unfold argument_blocks)
qed simp

lemma call_blocks:
  assumes "open_together t cur" "tl_assembling t = None" "tl_tools t k = None" "fragments_of (k, i, n, args) frs"
  shows "(\<forall>evs. event_blocks parse cur (snd (tool_deltas frs t) @ evs) = closed_block parse cur @ event_blocks parse (Some (ToolBlock i n, args)) evs) \<and>
    open_together (fst (tool_deltas frs t)) (Some (ToolBlock i n, args)) \<and> tl_assembling (fst (tool_deltas frs t)) = None \<and>
    (\<exists>m. tl_tools (fst (tool_deltas frs t)) = (tl_tools t)(k \<mapsto> m))"
proof -
  obtain f fs where f: "frs = f # fs" using assms(4) by (cases frs) auto
  have a: "assemble f (tl_assembling t) = \<lparr>am_id = Some i, am_name = Some n, am_arguments = call_arguments f\<rparr>"
    using assms(2,4) f by (simp add: assemble_def call_arguments_def Let_def)
  have k: "call_index f = k" using assms(4) f by simp
  let ?m = "tl_next_index (fst (close_open (t\<lparr>tl_assembling := None\<rparr>)))"
  let ?t = "fst (tool_delta f t)"
  have e: "snd (tool_delta f t) = snd (close_open t) @ BlockStart (tl_next_index t) (ToolBlock i n) # push_arguments (tl_next_index t) (call_arguments f)"
    using assms(3) a k by (simp add: tool_delta_def open_tool_def close_open_def Let_def split: option.splits)
  have t: "tl_tools ?t = (tl_tools t)(k \<mapsto> tl_next_index t)" "tl_open ?t = Some (OpenTool (tl_next_index t))" "tl_assembling ?t = None"
    using assms(3) a k by (simp_all add: tool_delta_def open_tool_def close_open_def Let_def split: option.splits)
  have step: "event_blocks parse cur (snd (tool_delta f t) @ evs) =
      closed_block parse cur @ event_blocks parse (Some (ToolBlock i n, call_arguments f)) evs" for evs
    using close_blocks [OF assms(1), of parse] argument_blocks [of parse "ToolBlock i n" "[]"] by (simp add: e)
  have "tl_tools ?t k = Some (tl_next_index t)" "\<forall>g \<in> set fs. call_index g = k" "tl_open ?t \<noteq> None" using t assms(4) f by simp_all
  note later = later_fragments [OF this, of parse "ToolBlock i n" "call_arguments f"]
  show ?thesis using later step t assms(4) f by (auto simp: Let_def case_prod_unfold open_together_def)
qed


lemma calls_blocks:
  assumes "open_together t cur" "tl_assembling t = None" "list_all2 fragments_of calls frss" "distinct (map fst calls)"
    "\<forall>c \<in> set calls. tl_tools t (fst c) = None"
  shows "\<exists>got cur'. (\<forall>evs. event_blocks parse cur (snd (tool_deltas (concat frss) t) @ evs) = got @ event_blocks parse cur' evs) \<and>
    got @ closed_block parse cur' = closed_block parse cur @ map (call_block parse) calls \<and>
    open_together (fst (tool_deltas (concat frss) t)) cur'"
  using assms
proof (induction calls arbitrary: t cur frss)
  case Nil
  then show ?case by (auto intro!: exI [of _ "[]"] exI [of _ cur])
next
  case (Cons c calls)
  obtain frs rest where frss: "frss = frs # rest" "fragments_of c frs" "list_all2 fragments_of calls rest"
    using Cons.prems(3) by (cases frss) auto
  obtain k i n args where c: "c = (k, i, n, args)" by (cases c) auto
  let ?t = "fst (tool_deltas frs t)" and ?cur = "Some (ToolBlock i n, args)"
  have "tl_tools t k = None" using Cons.prems(5) c by simp
  note one = call_blocks [OF Cons.prems(1,2) this frss(2) [unfolded c], of parse]
  have fresh: "\<forall>d \<in> set calls. tl_tools ?t (fst d) = None" using one Cons.prems(4,5) c by force
  obtain got cur' where ih: "\<forall>evs. event_blocks parse ?cur (snd (tool_deltas (concat rest) ?t) @ evs) = got @ event_blocks parse cur' evs"
      "got @ closed_block parse cur' = closed_block parse ?cur @ map (call_block parse) calls"
      "open_together (fst (tool_deltas (concat rest) ?t)) cur'"
    using Cons.IH [of ?t ?cur rest] one frss(3) Cons.prems(4) fresh by auto
  have app: "tool_deltas (xs @ ys) t = (let (t, evs) = tool_deltas xs t; (t, evs') = tool_deltas ys t in (t, evs @ evs'))" for xs ys t
    using run_items_append [of "map Fragment xs" "map Fragment ys" t] by (simp add: run_fragments [symmetric])
  show ?case
    by (rule exI [of _ "closed_block parse cur @ got"], rule exI [of _ cur']) (use ih one c frss in \<open>simp add: app Let_def case_prod_unfold\<close>)
qed

text \<open>All of a reply: its prose first, then its calls.\<close>

lemma reply_blocks:
  assumes "\<forall>s \<in> set ps. s \<noteq> []" "list_all2 fragments_of calls frss" "distinct (map fst calls)"
    "xs = map Said ps @ map Fragment (concat frss)" "same_core t (fst (run_items xs new_translator))"
  shows "event_blocks parse None (snd (run_items xs new_translator) @ snd (close_open t) @ [MessageDelta r k, MessageStop]) =
    (if concat ps = [] then [] else [BText (concat ps)]) @ map (call_block parse) calls"
proof -
  let ?n = new_translator
  let ?t = "fst (run_items (map Said ps) ?n)"
  have new: "open_together ?n None" "tl_assembling ?n = None" "tl_tools ?n = Map.empty" by (simp_all add: open_together_def new_translator_def)
  obtain cur where p: "\<forall>evs. event_blocks parse None (snd (run_items (map Said ps) ?n) @ evs) = event_blocks parse cur evs"
      "open_together ?t cur" "closed_block parse cur = (if concat ps = [] then [] else [BText (concat ps)])" "tl_tools ?t = Map.empty"
      "tl_assembling ?t = None"
    using prose_blocks [OF new(1) _ assms(1), of parse] new(2,3) by (auto simp: Let_def)
  have "\<forall>c \<in> set calls. tl_tools ?t (fst c) = None" using p(4) by simp
  from calls_blocks [OF p(2,5) assms(2,3) this, of parse] obtain got cur' where
    c: "\<forall>evs. event_blocks parse cur (snd (tool_deltas (concat frss) ?t) @ evs) = got @ event_blocks parse cur' evs"
      "got @ closed_block parse cur' = closed_block parse cur @ map (call_block parse) calls"
      "open_together (fst (tool_deltas (concat frss) ?t)) cur'"
    by blast
  have fin: "fst (run_items xs ?n) = fst (tool_deltas (concat frss) ?t)"
      "snd (run_items xs ?n) = snd (run_items (map Said ps) ?n) @ snd (tool_deltas (concat frss) ?t)"
    by (simp_all add: assms(4) run_items_append run_fragments Let_def case_prod_unfold)
  have "open_together t cur'" using assms(5) c(3) fin(1) by (simp add: open_together_def same_core_def)
  from close_blocks [OF this, of parse "[MessageDelta r k, MessageStop]"]
  have "event_blocks parse cur' (snd (close_open t) @ [MessageDelta r k, MessageStop]) = closed_block parse cur'" by simp
  then show ?thesis using p(1,3) c(1,2) fin(2) by simp
qed

section \<open>The order of a reply\<close>

fun item_use :: "item \<Rightarrow> use" where
  "item_use (Said _) = Prose"
| "item_use (Fragment c) = Tool (call_index c)"

lemma uses_of_items: "chunk_uses v = map item_use (chunk_items v)"
  by (simp add: chunk_uses_def chunk_items_def)

lemma orderly_prose: "orderly None past (map item_use (map Said ps) @ us) = orderly None past us"
  by (induction ps) simp_all

lemma orderly_more: "\<forall>f \<in> set fs. call_index f = k \<Longrightarrow> orderly (Some k) past (map item_use (map Fragment fs) @ us) = orderly (Some k) past us"
  by (induction fs) simp_all

lemma orderly_calls:
  "list_all2 fragments_of calls frss \<Longrightarrow> distinct (map fst calls) \<Longrightarrow> \<forall>c \<in> set calls. fst c \<notin> past \<and> cur \<noteq> Some (fst c) \<Longrightarrow>
     orderly cur past (map item_use (map Fragment (concat frss)))"
proof (induction calls arbitrary: frss cur past)
  case (Cons c calls)
  obtain frs rest where frss: "frss = frs # rest" "fragments_of c frs" "list_all2 fragments_of calls rest"
    using Cons.prems(1) by (cases frss) auto
  obtain k i n args where c: "c = (k, i, n, args)" by (cases c) auto
  obtain f fs where f: "frs = f # fs" "call_index f = k" "\<forall>g \<in> set fs. call_index g = k" using frss(2) c by (cases frs) auto
  have "orderly (Some k) (past \<union> set_option cur) (map item_use (map Fragment (concat rest)))"
    using Cons.prems(2,3) c by (intro Cons.IH frss(3)) (force simp: elem_set)+
  then show ?case using Cons.prems(3) c f orderly_more [OF f(3)] by (simp add: frss(1))
qed simp

section \<open>From the vendor to the agent\<close>

text \<open>What each side's \<^verbatim>\<open>from_str\<close> gives where only success matters.\<close>

definition heard :: "(rstr \<Rightarrow> rstr + json) \<Rightarrow> rstr \<Rightarrow> json option" where
  "heard parse s = (case parse s of Inr v \<Rightarrow> Some v | Inl _ \<Rightarrow> None)"

definition quiet_event :: "wire_event \<Rightarrow> bool" where
  "quiet_event ev \<longleftrightarrow> (\<forall>r u. stop_after ev r = r \<and> usage_after ev u = u)"

lemma quiet_events [simp]:
  "quiet_event (BlockStart i b)" "quiet_event (BlockStop i)" "quiet_event (TextDelta i s)" "quiet_event (JsonDelta i s)" "quiet_event MessageStop"
  by (simp_all add: quiet_event_def)

lemma quiet_item: "\<forall>ev \<in> set (snd (run_item x t)). quiet_event ev"
  by (cases x) (auto simp: text_delta_def tool_delta_def open_tool_def close_open_def push_arguments_def Let_def split: option.splits open_block.splits)

lemma quiet_items: "\<forall>ev \<in> set (snd (run_items xs t)). quiet_event ev"
proof (induction xs arbitrary: t)
  case (Cons x xs)
  then show ?case using quiet_item [of x t] by (auto simp: Let_def case_prod_unfold)
qed simp

lemma quiet_folds: "\<forall>ev \<in> set evs. quiet_event ev \<Longrightarrow> fold stop_after evs r = r \<and> fold usage_after evs u = u"
  by (induction evs arbitrary: r u) (auto simp: quiet_event_def)

lemma translated_events:
  assumes "stream_values p cs = vs" "vs \<noteq> []" "\<forall>v \<in> set vs. json_get (lit ''error'') v = None" "xs = concat (map chunk_items vs)"
  shows "\<exists>i m t. translated p cs = MessageStart i m (tokens_after (hd vs) no_tokens) # snd (run_items xs new_translator) @ snd (close_open t) @
      [MessageDelta (case fold reason_after vs None of Some r \<Rightarrow> r | None \<Rightarrow> lit ''end_turn'') (fold tokens_after vs no_tokens), MessageStop] \<and>
    same_core t (fst (run_items xs new_translator))"
proof -
  let ?ls = "map from_utf8_lossy (fst (cut_lines [] (concat cs)))" and ?q = "snd (cut_lines [] (concat cs))"
  let ?t = "fst (run_values vs new_translator)"
  have vs: "line_values p ?ls = vs" using assms(1) by (simp add: stream_values_def)
  have r: "run_lines p ?ls new_translator = run_values vs new_translator" using run_lines_values [of p ?ls] assms(3) vs by simp
  have f: "feed_all p cs new_translator = (?t\<lparr>tl_pending := ?q\<rparr>, snd (run_values vs new_translator))"
    by (simp add: feeds_new r apfst_def map_prod_def case_prod_unfold)
  obtain i m where n: "snd (run_values vs new_translator) = MessageStart i m (tokens_after (hd vs) no_tokens) # snd (run_items xs new_translator)"
      "same_core ?t (fst (run_items xs new_translator))" "tl_stop ?t = fold reason_after vs None" "tl_tokens ?t = fold tokens_after vs no_tokens"
      "tl_started ?t" "\<not> tl_closed ?t"
    using run_values_new [OF assms(2)] assms(4) by auto
  have cl: "close_open (?t\<lparr>tl_pending := ?q\<rparr>) = apfst (tl_pending_update (\<lambda>_. ?q)) (close_open ?t)" by simp
  have keep: "tl_stop (fst (close_open ?t)) = tl_stop ?t" "tl_tokens (fst (close_open ?t)) = tl_tokens ?t"
      "tl_started (fst (close_open ?t)) = tl_started ?t"
    by (simp_all add: close_open_def split: option.splits)
  have "snd (finish_stream (?t\<lparr>tl_pending := ?q\<rparr>)) = snd (close_open ?t) @
      [MessageDelta (case tl_stop ?t of Some r \<Rightarrow> r | None \<Rightarrow> lit ''end_turn'') (tl_tokens ?t), MessageStop]"
    using n(5,6) keep by (simp add: finish_stream_def cl Let_def case_prod_unfold)
  then show ?thesis using n f by (intro exI [of _ i] exI [of _ m] exI [of _ ?t]) (simp add: translated_def)
qed

lemma reply_read:
  assumes "stream_values (heard parse) up = vs" "vs \<noteq> []" "\<forall>v \<in> set vs. json_get (lit ''error'') v = None"
    "concat (map chunk_items vs) = map Said ps @ map Fragment (concat frss)" "list_all2 fragments_of calls frss" "distinct (map fst calls)"
    "\<forall>ev \<in> set (translated (heard parse) up). frame_ok json_text parse ev"
    "concat (hr_chunks resp) = concat (map (frame_bytes json_text) (translated (heard parse) up))"
  shows "\<exists>r. read_streamed parse resp = Inr r \<and>
    mr_content r = (if concat ps = [] then [] else [BText (concat ps)]) @ map (call_block parse) calls \<and>
    mr_stop r = Some (case fold reason_after vs None of Some r \<Rightarrow> r | None \<Rightarrow> lit ''end_turn'') \<and>
    mr_usage r = merge_usage (usage_from (tokens_after (hd vs) no_tokens)) (usage_from (fold tokens_after vs no_tokens))"
proof -
  let ?xs = "concat (map chunk_items vs)" and ?evs = "translated (heard parse) up"
  let ?r = "case fold reason_after vs None of Some r \<Rightarrow> r | None \<Rightarrow> lit ''end_turn''" and ?k = "fold tokens_after vs no_tokens"
  obtain i m t where e: "?evs = MessageStart i m (tokens_after (hd vs) no_tokens) # snd (run_items ?xs new_translator) @ snd (close_open t) @
      [MessageDelta ?r ?k, MessageStop]" "same_core t (fst (run_items ?xs new_translator))"
    using translated_events [OF assms(1-3) refl] by blast
  have "\<forall>x \<in> set vs. \<forall>s. Said s \<in> set (chunk_items x) \<longrightarrow> s \<noteq> []" by (auto simp: chunk_items_def)
  then have "\<forall>s. Said s \<in> set ?xs \<longrightarrow> s \<noteq> []" by auto
  then have ne: "\<forall>s \<in> set ps. s \<noteq> []" unfolding assms(4) by auto
  have uses: "concat (map chunk_uses vs) = map item_use ?xs" by (simp add: uses_of_items [abs_def] map_concat o_def)
  have "orderly None {} (concat (map chunk_uses vs))"
    unfolding uses assms(4) map_append orderly_prose by (rule orderly_calls [OF assms(5,6)]) simp
  then have "wire_run WStart ?evs = Some WDone" using translated_well_formed [of "heard parse" up] assms(1-3) by simp
  from whole_stream_read [OF this assms(7,8)] obtain r where r: "read_streamed parse resp = Inr r" "mr_content r = event_blocks parse None ?evs"
      "mr_stop r = fold stop_after ?evs None" "mr_usage r = fold usage_after ?evs no_usage"
    by blast
  have b: "event_blocks parse None ?evs = (if concat ps = [] then [] else [BText (concat ps)]) @ map (call_block parse) calls"
    unfolding e(1) using reply_blocks [OF ne assms(5,6,4) e(2), of parse ?r ?k] by simp
  have "\<forall>ev \<in> set (snd (close_open t)). quiet_event ev" by (simp add: close_open_def split: option.splits)
  then have "\<forall>ev \<in> set (snd (run_items ?xs new_translator) @ snd (close_open t)). quiet_event ev"
    using quiet_items [of ?xs new_translator] by auto
  note q = quiet_folds [OF this]
  have "fold stop_after ?evs None = Some ?r" "fold usage_after ?evs no_usage =
      merge_usage (usage_from (tokens_after (hd vs) no_tokens)) (usage_from ?k)"
    unfolding e(1) using q by (simp_all add: fold_append o_def)
  then show ?thesis using r b by simp
qed

fun whole_call_json :: "whole_call \<Rightarrow> json" where
  "whole_call_json (k, i, n, args) =
     JObj [(lit ''id'', JStr i), (lit ''type'', JStr (lit ''function'')),
           (lit ''function'', JObj [(lit ''name'', JStr n), (lit ''arguments'', JStr args)])]"

definition whole_reply :: "rstr \<Rightarrow> whole_call list \<Rightarrow> json \<Rightarrow> json \<Rightarrow> json" where
  "whole_reply prose calls reason u =
     JObj [(lit ''choices'', JArr [JObj [(lit ''message'', JObj [(lit ''role'', JStr (lit ''assistant'')), (lit ''content'', JStr prose),
              (lit ''tool_calls'', JArr (map whole_call_json calls))]), (lit ''finish_reason'', reason)]]), (lit ''usage'', u)]"

lemma whole_content:
  assumes "parse [] = Inl e"
  shows "json_get (lit ''content'') (from_chat (heard parse) (whole_reply prose calls reason u)) =
      Some (JArr (map block_json ((if prose = [] then [] else [BText prose]) @ map (call_block parse) calls)))"
    "json_get (lit ''stop_reason'') (from_chat (heard parse) (whole_reply prose calls reason u)) = Some (JStr (stop_reason (Some reason)))"
    "json_get (lit ''usage'') (from_chat (heard parse) (whole_reply prose calls reason u)) = Some (usage_json (tokens_of (Some u)))"
proof -
  have c: "from_tool_call (heard parse) (whole_call_json c) = block_json (call_block parse c)" for c
    using assms by (cases c)
      (auto simp: from_tool_call_def call_function_def json_get_obj str_or_empty_def as_str_def heard_def call_input_def block_json_def Let_def
        split: sum.splits)
  have parts: "first_choice (whole_reply prose calls reason u) = Some (JObj [(lit ''message'', JObj [(lit ''role'', JStr (lit ''assistant'')),
      (lit ''content'', JStr prose), (lit ''tool_calls'', JArr (map whole_call_json calls))]), (lit ''finish_reason'', reason)])"
    by (simp add: first_choice_def whole_reply_def json_get_obj as_array_def)
  have said: "JObj [(lit ''type'', JStr (lit ''text'')), (lit ''text'', JStr prose)] = block_json (BText prose)" by (simp add: block_json_def)
  show "json_get (lit ''content'') (from_chat (heard parse) (whole_reply prose calls reason u)) =
      Some (JArr (map block_json ((if prose = [] then [] else [BText prose]) @ map (call_block parse) calls)))"
    by (simp add: from_chat_def parts Let_def json_get_obj as_str_def as_array_def str_or_empty_def said c o_def)
  show "json_get (lit ''stop_reason'') (from_chat (heard parse) (whole_reply prose calls reason u)) = Some (JStr (stop_reason (Some reason)))"
    by (simp add: from_chat_def parts Let_def json_get_obj)
  show "json_get (lit ''usage'') (from_chat (heard parse) (whole_reply prose calls reason u)) = Some (usage_json (tokens_of (Some u)))"
    by (simp add: from_chat_def parts Let_def json_get_obj) (simp add: whole_reply_def json_get_obj)
qed

definition last_finish :: "json list \<Rightarrow> json option" where
  "last_finish vs = fold (\<lambda>v r. case finish_of v of Some x \<Rightarrow> Some x | None \<Rightarrow> r) vs None"

lemma last_reason: "fold reason_after vs None = map_option (\<lambda>x. stop_reason (Some x)) (last_finish vs)"
proof -
  have "fold reason_after vs (map_option (\<lambda>x. stop_reason (Some x)) r) =
      map_option (\<lambda>x. stop_reason (Some x)) (fold (\<lambda>v r. case finish_of v of Some x \<Rightarrow> Some x | None \<Rightarrow> r) vs r)" for r
  proof (induction vs arbitrary: r)
    case (Cons v vs)
    have "reason_after v (map_option (\<lambda>x. stop_reason (Some x)) r) =
        map_option (\<lambda>x. stop_reason (Some x)) (case finish_of v of Some x \<Rightarrow> Some x | None \<Rightarrow> r)"
      by (simp add: reason_after_def split: option.splits)
    then show ?case using Cons.IH by simp
  qed simp
  from this [of None] show ?thesis by (simp add: last_finish_def)
qed

lemma no_tokens_till: "\<forall>v \<in> set vs. not_null (json_get (lit ''usage'') v) = None \<Longrightarrow> fold tokens_after vs k = k"
  by (induction vs) (simp_all add: tokens_after_def)

lemma merge_same: "merge_usage u u = u" "merge_usage (usage_from no_tokens) u = u"
  by (simp_all add: merge_usage_def usage_from_def no_tokens_def)

text \<open>C9 Streaming changes nothing: a vendor's reply that comes as a stream, prose first and then one call after another, each in as many fragments
  as the vendor likes with its id and name in the first of them, without an error object and with its usage on the last chunk
  alone, goes through the translator, the network's cuts and the agent's assembler and is, block for
  block, with its stop reason and its counts, what the proxy's translation of the same reply in one piece holds.
\<close>

theorem streamed_reply_is_the_whole:
  assumes "stream_values (heard parse) up = vs" "vs \<noteq> []" "\<forall>v \<in> set vs. json_get (lit ''error'') v = None"
    "concat (map chunk_items vs) = map Said ps @ map Fragment (concat frss)" "list_all2 fragments_of calls frss" "distinct (map fst calls)"
    "last_finish vs = Some reason" "\<forall>v \<in> set (butlast vs). not_null (json_get (lit ''usage'') v) = None"
    "not_null (json_get (lit ''usage'') (last vs)) = Some u" "parse [] = Inl e"
    "\<forall>ev \<in> set (translated (heard parse) up). frame_ok json_text parse ev"
    "concat (hr_chunks resp) = concat (map (frame_bytes json_text) (translated (heard parse) up))"
  shows "\<exists>r chat. read_streamed parse resp = Inr r \<and> chat = from_chat (heard parse) (whole_reply (concat ps) calls reason u) \<and>
    json_get (lit ''content'') chat = Some (JArr (map block_json (mr_content r))) \<and>
    json_get (lit ''stop_reason'') chat = map_option JStr (mr_stop r) \<and>
    map_option usage_of (json_get (lit ''usage'') chat) = Some (mr_usage r)"
proof -
  obtain r where r: "read_streamed parse resp = Inr r"
      "mr_content r = (if concat ps = [] then [] else [BText (concat ps)]) @ map (call_block parse) calls"
      "mr_stop r = Some (case fold reason_after vs None of Some r \<Rightarrow> r | None \<Rightarrow> lit ''end_turn'')"
      "mr_usage r = merge_usage (usage_from (tokens_after (hd vs) no_tokens)) (usage_from (fold tokens_after vs no_tokens))"
    using reply_read [OF assms(1-6,11,12)] by blast
  have split: "vs = butlast vs @ [last vs]" using assms(2) by simp
  have "fold tokens_after vs no_tokens = tokens_of (Some u)"
    using no_tokens_till [OF assms(8), of no_tokens] assms(9) by (subst split) (simp add: tokens_after_def)
  moreover have "tokens_after (hd vs) no_tokens = no_tokens \<or> tokens_after (hd vs) no_tokens = tokens_of (Some u)"
  proof (cases "butlast vs")
    case Nil
    then have "hd vs = last vs" using split by (metis append_Nil list.sel(1))
    then show ?thesis using assms(9) by (simp add: tokens_after_def)
  next
    case (Cons v ws)
    then have "hd vs = v" using split by (metis append_Cons list.sel(1))
    then show ?thesis using assms(8) Cons by (simp add: tokens_after_def)
  qed
  ultimately have "mr_usage r = usage_from (tokens_of (Some u))" using r(4) merge_same by auto
  moreover have "mr_stop r = Some (stop_reason (Some reason))" using r(3) assms(7) by (simp add: last_reason)
  ultimately show ?thesis using r(1,2) whole_content [of parse e "concat ps" calls reason u] assms(10) by simp
qed

text \<open>C10 A reply the vendor did not finish counts as a whole one: when the upstream connection breaks after any chunk, the proxy
  still closes the stream it sends, and the agent takes what it got as a turn that ended by itself, with the calls
  it held and whatever arguments had come.
\<close>

theorem broken_reply_taken_as_whole:
  assumes "stream_values (heard parse) up = vs" "vs \<noteq> []" "\<forall>v \<in> set vs. json_get (lit ''error'') v = None"
    "concat (map chunk_items vs) = map Said ps @ map Fragment (concat frss)" "list_all2 fragments_of calls frss" "distinct (map fst calls)"
    "last_finish vs = None" "\<forall>ev \<in> set (translated (heard parse) up). frame_ok json_text parse ev"
    "concat (hr_chunks resp) = concat (map (frame_bytes json_text) (translated (heard parse) up))"
  shows "\<exists>r. read_streamed parse resp = Inr r \<and> mr_stop r = Some (lit ''end_turn'') \<and>
    mr_content r = (if concat ps = [] then [] else [BText (concat ps)]) @ map (call_block parse) calls"
  using reply_read [OF assms(1-6,8,9)] assms(7) by (auto simp: last_reason)

text \<open>On the Messages wire, which the proxy passes through, the agent refuses it: a well-formed stream that breaks off before
  its end, wherever the network cut it, is an error and no turn.
\<close>

theorem cut_stream_refused:
  assumes "wire_run WStart evs = Some w" "MessageStop \<notin> set evs" "\<forall>ev \<in> set evs. frame_ok json_text parse ev"
    "concat (hr_chunks resp) = concat (map (frame_bytes json_text) evs)" "hr_end resp = BodyEnded"
  shows "read_streamed parse resp = Inl (ApiFailed (lit ''the streamed reply ended before `message_stop`''))"
  using assms by (rule broken_stream_refused)

section \<open>Samples\<close>

text \<open>A stream of one chunk; the codec writes a frame as the name of its event.\<close>

definition sample_chunk :: "bool \<Rightarrow> json" where
  "sample_chunk whole =
     JObj ([(lit ''choices'', JArr [JObj ((lit ''delta'', JObj [(lit ''content'', JStr (lit ''hi''))]) #
              (if whole then [(lit ''finish_reason'', JStr (lit ''stop''))] else []))])] @
           (if whole then [(lit ''usage'', JObj [])] else []))"

definition sample_events :: "wire_event list" where
  "sample_events =
     [MessageStart JNull None no_tokens, BlockStart 0 TextBlock, TextDelta 0 (lit ''hi''), BlockStop 0,
      MessageDelta (lit ''end_turn'') no_tokens, MessageStop]"

definition name_text :: "json \<Rightarrow> rstr" where
  "name_text v = str_or_empty (json_get (lit ''type'') v)"

definition name_parse :: "bool \<Rightarrow> rstr \<Rightarrow> rstr + json" where
  "name_parse whole s =
     (if s = [120] then Inr (sample_chunk whole)
      else case find (\<lambda>ev. event_name ev = s) sample_events of Some ev \<Rightarrow> Inr (frame_json ev) | None \<Rightarrow> Inl [])"

lemma name_parse_chunk: "heard (name_parse whole) [120] = Some (sample_chunk whole)" "name_parse whole [] = Inl []"
  by (simp_all add: heard_def name_parse_def sample_events_def) (simp add: lit_def)

lemma sample_chunk_facts:
  "json_get (lit ''error'') (sample_chunk whole) = None" "chunk_text (sample_chunk whole) = lit ''hi''" "chunk_calls (sample_chunk whole) = []"
  "finish_of (sample_chunk whole) = (if whole then Some (JStr (lit ''stop'')) else None)"
  "not_null (json_get (lit ''usage'') (sample_chunk whole)) = (if whole then Some (JObj []) else None)"
  by (simp_all add: sample_chunk_def json_get_obj chunk_text_def chunk_calls_def first_choice_def delta_field_def as_array_def as_str_def
      str_or_empty_def finish_of_def not_null_def)

lemma sample_values: "stream_values (heard (name_parse whole)) hello_bytes = [sample_chunk whole]"
proof -
  have c: "cut_lines [] (concat hello_bytes) = ([[100, 97, 116, 97, 58, 120]], [])" by (simp add: hello_bytes_def)
  have l: "from_utf8_lossy [100, 97, 116, 97, 58, 120] = [100, 97, 116, 97, 58, 120]"
    by (simp add: from_utf8_lossy_def utf8_tail_def utf8_scalar_def)
  have "line_value (heard (name_parse whole)) [100, 97, 116, 97, 58, 120] = heard (name_parse whole) [120]"
    by (simp add: line_value_def rust_simps)
  then show ?thesis by (simp add: stream_values_def line_values_def c l name_parse_chunk)
qed

lemma sample_items: "chunk_items (sample_chunk whole) = map Said [lit ''hi''] @ map Fragment (concat [])"
  by (simp add: chunk_items_def sample_chunk_facts) (simp add: lit_def)

lemma sample_translated: "translated (heard (name_parse whole)) hello_bytes = sample_events"
proof -
  let ?p = "heard (name_parse whole)"
  have hi: "lit ''hi'' \<noteq> []" by (simp add: lit_def)
  have tk: "tokens_of (Some (JObj [])) = no_tokens" by (simp add: tokens_of_def json_get_obj u64_or_0_def as_u64_def no_tokens_def)
  have c: "run_values [sample_chunk whole] new_translator = stream_chunk (sample_chunk whole) new_translator"
    by (simp add: Let_def case_prod_unfold)
  have r: "run_lines ?p (map from_utf8_lossy (fst (cut_lines [] (concat hello_bytes)))) new_translator = stream_chunk (sample_chunk whole) new_translator"
    using run_lines_values [of ?p "map from_utf8_lossy (fst (cut_lines [] (concat hello_bytes)))"] sample_values [of whole] sample_chunk_facts c
    by (simp add: stream_values_def)
  have m: "json_get (lit ''model'') (sample_chunk whole) = None" "json_get (lit ''id'') (sample_chunk whole) = None"
    by (simp_all add: sample_chunk_def json_get_obj)
  have s: "stop_reason (Some (JStr (lit ''stop''))) = lit ''end_turn''" by (simp add: stop_reason_def as_str_def)
  have f: "not_null (Option.bind (first_choice (sample_chunk whole)) (json_get (lit ''finish_reason''))) = (if whole then Some (JStr (lit ''stop'')) else None)"
    using sample_chunk_facts(4) [of whole] by (simp add: finish_of_def)
  show ?thesis unfolding translated_def feeds_new r
    by (simp add: stream_chunk_parts chunk_head_def m sample_chunk_facts tk message_start_def maybe_text_def hi text_delta_def
        close_open_def new_translator_def chunk_stop_def f s finish_stream_def sample_events_def Let_def as_str_def)
qed

lemma lit_ends: "length (lit s) = length s" "s \<noteq> [] \<Longrightarrow> hd (lit s) = of_char (hd s)" "s \<noteq> [] \<Longrightarrow> last (lit s) = of_char (last s)"
  by (simp_all add: lit_def hd_map last_map)

lemma name_ends:
  "event_name ev \<noteq> []" "event_name ev \<noteq> [120]" "event_name ev \<noteq> lit ''[DONE]''"
  "\<not> is_whitespace (hd (event_name ev))" "\<not> is_whitespace (last (event_name ev))"
proof -
  have l: "1 < length (event_name ev)" by (cases ev) (simp_all add: lit_ends)
  then show "event_name ev \<noteq> []" "event_name ev \<noteq> [120]" by auto
  show "event_name ev \<noteq> lit ''[DONE]''" by (cases ev) simp_all
  show "\<not> is_whitespace (hd (event_name ev))" "\<not> is_whitespace (last (event_name ev))"
    by (cases ev; simp add: lit_ends is_whitespace_def)+
qed

lemma sample_frames: "\<forall>ev \<in> set sample_events. frame_ok name_text (name_parse whole) ev"
proof
  fix ev assume e: "ev \<in> set sample_events"
  have t: "name_text (frame_json ev) = event_name ev" by (simp add: name_text_def frame_field str_or_empty_def as_str_def)
  have "find (\<lambda>x. event_name x = event_name ev) sample_events = Some ev" 
  proof -
    have "list_all (\<lambda>y. find (\<lambda>x. event_name x = event_name y) sample_events = Some y) sample_events"
      by (simp add: sample_events_def)
    then show ?thesis using e by (simp add: list_all_iff)
  qed
  then have "name_parse whole (event_name ev) = Inr (frame_json ev)" using name_ends(2) [of ev] by (simp add: name_parse_def)
  then show "frame_ok name_text (name_parse whole) ev" using name_ends [of ev] name_line [of ev] by (simp add: frame_ok_def t)
qed

definition sample_reply :: http_reply where
  "sample_reply = \<lparr>hr_status = 200, hr_retry_after = None, hr_event_stream = True,
     hr_chunks = map (\<lambda>b. [b]) (concat (map (frame_bytes name_text) sample_events)), hr_end = BodyBroke []\<rparr>"

lemma sample_chunks: "concat (hr_chunks sample_reply) = concat (map (frame_bytes name_text) sample_events)"
  by (simp add: sample_reply_def)

theorem streamed_reply_is_the_whole_witness:
  "\<exists>r. read_streamed (name_parse True) sample_reply = Inr r \<and>
     json_get (lit ''content'') (from_chat (heard (name_parse True)) (whole_reply (lit ''hi'') [] (JStr (lit ''stop'')) (JObj []))) =
       Some (JArr (map block_json (mr_content r)))"
  using streamed_reply_is_the_whole [of "name_parse True" hello_bytes "[sample_chunk True]" "[lit ''hi'']" "[]" "[]" "JStr (lit ''stop'')" "JObj []" "[]"
      name_text sample_reply] sample_frames [of True] sample_items [of True]
  by (auto simp: sample_values sample_chunk_facts last_finish_def name_parse_chunk sample_translated sample_chunks)

theorem broken_reply_taken_as_whole_witness:
  "\<exists>r. read_streamed (name_parse False) sample_reply = Inr r \<and> mr_stop r = Some (lit ''end_turn'')"
  using broken_reply_taken_as_whole [of "name_parse False" hello_bytes "[sample_chunk False]" "[lit ''hi'']" "[]" "[]" name_text sample_reply]
    sample_frames [of False] sample_items [of False]
  by (auto simp: sample_values sample_chunk_facts last_finish_def sample_translated sample_chunks)

theorem cut_stream_refused_witness:
  "read_streamed (name_parse True) \<lparr>hr_status = 200, hr_retry_after = None, hr_event_stream = True,
     hr_chunks = [concat (map (frame_bytes name_text) (butlast sample_events))], hr_end = BodyEnded\<rparr> =
   Inl (ApiFailed (lit ''the streamed reply ended before `message_stop`''))"
proof (rule cut_stream_refused)
  show "wire_run WStart (butlast sample_events) = Some WEnding" by (simp add: sample_events_def)
  show "\<forall>ev \<in> set (butlast sample_events). frame_ok name_text (name_parse True) ev" using sample_frames by (auto dest: in_set_butlastD)
qed (simp_all add: sample_events_def)

end
