(* ===== verification/Schedule.thy ===== *)
theory Schedule
  imports Prelude
begin

text \<open>
  Off-hours locking of tabs, \<^verbatim>\<open>src/src/schedule.rs\<close>: a schedule is an opening-hours rule in a time zone; while it is
  closed, writes are refused. The verdict at the current time is kept in a cache until the schedule's next change.
  The time-zone database and the opening-hours grammar are a parameter, the record \<open>calendar\<close>; instants and
  wall-clock times are seconds.
\<close>

section \<open>Zones and rules\<close>

datatype rule_kind = Open | Closed | Unknown

text \<open>
  \<open>cl_from_local\<close> gives the instants at which a zone's clocks show a wall-clock time, in order: one as a rule, none when
  the clocks skip it, two when they show it twice.
\<close>

record ('z, 'r) calendar =
  cl_zone :: "rstr \<Rightarrow> 'z option"
  cl_utc :: 'z
  cl_local :: "'z \<Rightarrow> int \<Rightarrow> int"
  cl_from_local :: "'z \<Rightarrow> int \<Rightarrow> int list"
  cl_rule :: "rstr \<Rightarrow> rstr + 'r"
  cl_state :: "'r \<Rightarrow> int \<Rightarrow> rule_kind"
  cl_next :: "'r \<Rightarrow> int \<Rightarrow> int option"

section \<open>A schedule\<close>

record tab_schedule =
  sc_rule :: rstr
  sc_tz :: rstr

datatype schedule_error = BadRule rstr | BadTimezone rstr | EmptyField rstr

definition schedule_error_text :: "schedule_error \<Rightarrow> rstr" where
  "schedule_error_text e =
     (case e of
        BadRule s \<Rightarrow> lit ''invalid opening_hours rule: '' @ s
      | BadTimezone s \<Rightarrow> lit ''unknown timezone: '' @ s
      | EmptyField which \<Rightarrow> lit ''schedule '' @ which @ lit '' is empty'')"

definition new_schedule :: "('z, 'r) calendar \<Rightarrow> rstr \<Rightarrow> rstr \<Rightarrow> schedule_error + tab_schedule" where
  "new_schedule cl rule tz =
     (if trim rule = [] then Inl (EmptyField (lit ''rule''))
      else if trim tz = [] then Inl (EmptyField (lit ''tz''))
      else case cl_zone cl (trim tz) of
             None \<Rightarrow> Inl (BadTimezone tz)
           | Some _ \<Rightarrow>
               (case cl_rule cl rule of
                  Inl e \<Rightarrow> Inl (BadRule e)
                | Inr _ \<Rightarrow> Inr \<lparr>sc_rule = trim rule, sc_tz = trim tz\<rparr>))"

definition timezone :: "('z, 'r) calendar \<Rightarrow> tab_schedule \<Rightarrow> 'z" where
  "timezone cl s = (case cl_zone cl (sc_tz s) of Some z \<Rightarrow> z | None \<Rightarrow> cl_utc cl)"

definition parsed :: "('z, 'r) calendar \<Rightarrow> tab_schedule \<Rightarrow> 'r option" where
  "parsed cl s = (case cl_rule cl (sc_rule s) of Inr r \<Rightarrow> Some r | Inl _ \<Rightarrow> None)"

text \<open>The cache of parsed rules, by rule.\<close>

definition parsed_cached ::
    "('z, 'r) calendar \<Rightarrow> tab_schedule \<Rightarrow> (rstr \<rightharpoonup> 'r) \<Rightarrow> 'r option \<times> (rstr \<rightharpoonup> 'r)" where
  "parsed_cached cl s cache =
     (case cache (sc_rule s) of
        Some oh \<Rightarrow> (Some oh, cache)
      | None \<Rightarrow> (case parsed cl s of
                   None \<Rightarrow> (None, cache)
                 | Some oh \<Rightarrow> (Some oh, cache(sc_rule s \<mapsto> oh))))"

definition local_naive :: "('z, 'r) calendar \<Rightarrow> tab_schedule \<Rightarrow> int \<Rightarrow> int" where
  "local_naive cl s now = cl_local cl (timezone cl s) now"

definition is_open_at :: "('z, 'r) calendar \<Rightarrow> tab_schedule \<Rightarrow> int \<Rightarrow> (rstr \<rightharpoonup> 'r) \<Rightarrow> bool \<times> (rstr \<rightharpoonup> 'r)" where
  "is_open_at cl s now rules =
     (let (oh, rules) = parsed_cached cl s rules
      in ((case oh of None \<Rightarrow> True | Some r \<Rightarrow> cl_state cl r (local_naive cl s now) = Open), rules))"

definition next_change_at :: "('z, 'r) calendar \<Rightarrow> tab_schedule \<Rightarrow> int \<Rightarrow> (rstr \<rightharpoonup> 'r) \<Rightarrow> int option \<times> (rstr \<rightharpoonup> 'r)" where
  "next_change_at cl s now rules =
     (let (oh, rules) = parsed_cached cl s rules
      in (Option.bind (Option.bind oh (\<lambda>r. cl_next cl r (local_naive cl s now)))
            (\<lambda>next_local. case cl_from_local cl (timezone cl s) next_local of t # _ \<Rightarrow> Some t | [] \<Rightarrow> None), rules))"

section \<open>The verdict now\<close>

record verdict_at =
  vd_open :: bool
  vd_next :: "int option"

type_synonym verdict_cache = "((rstr \<times> rstr) \<times> verdict_at) list"

record 'r schedule_state =
  ss_rules :: "rstr \<rightharpoonup> 'r"
  ss_verdicts :: verdict_cache

definition schedule_key :: "tab_schedule \<Rightarrow> rstr \<times> rstr" where
  "schedule_key s = (sc_rule s, sc_tz s)"

fun set_slot :: "rstr \<times> rstr \<Rightarrow> verdict_at \<Rightarrow> verdict_cache \<Rightarrow> verdict_cache" where
  "set_slot k v [] = []"
| "set_slot k v ((k', v') # rest) = (if k' = k then (k, v) # rest else (k', v') # set_slot k v rest)"

definition fresh_verdict :: "verdict_at \<Rightarrow> int \<Rightarrow> bool" where
  "fresh_verdict v now = (case vd_next v of None \<Rightarrow> True | Some at \<Rightarrow> now < at)"

definition verdict_now ::
    "('z, 'r) calendar \<Rightarrow> tab_schedule \<Rightarrow> int \<Rightarrow> 'r schedule_state \<Rightarrow> verdict_at \<times> 'r schedule_state" where
  "verdict_now cl s now st =
     (let cached = map_of (ss_verdicts st) (schedule_key s)
      in case (case cached of Some v \<Rightarrow> if fresh_verdict v now then Some v else None | None \<Rightarrow> None) of
           Some v \<Rightarrow> (v, st)
         | None \<Rightarrow>
             (let (is_open, rules) = is_open_at cl s now (ss_rules st);
                  (next_change, rules) = next_change_at cl s now rules;
                  v = \<lparr>vd_open = is_open, vd_next = next_change\<rparr>;
                  verdicts = (if cached \<noteq> None then set_slot (schedule_key s) v (ss_verdicts st)
                              else (if 64 \<le> length (ss_verdicts st) then [] else ss_verdicts st) @ [(schedule_key s, v)])
              in (v, \<lparr>ss_rules = rules, ss_verdicts = verdicts\<rparr>)))"

definition is_open_now :: "('z, 'r) calendar \<Rightarrow> tab_schedule \<Rightarrow> int \<Rightarrow> 'r schedule_state \<Rightarrow> bool \<times> 'r schedule_state" where
  "is_open_now cl s now st = apfst vd_open (verdict_now cl s now st)"

definition next_change_from_now ::
    "('z, 'r) calendar \<Rightarrow> tab_schedule \<Rightarrow> int \<Rightarrow> 'r schedule_state \<Rightarrow> int option \<times> 'r schedule_state" where
  "next_change_from_now cl s now st = apfst vd_next (verdict_now cl s now st)"

section \<open>The lock\<close>

definition lock_reason ::
    "('z, 'r) calendar \<Rightarrow> bool \<Rightarrow> tab_schedule option \<Rightarrow> int \<Rightarrow> 'r schedule_state \<Rightarrow> rstr option \<times> 'r schedule_state" where
  "lock_reason cl manual_locked schedule now st =
     (if manual_locked then (Some (lit ''manual''), st)
      else case schedule of
             None \<Rightarrow> (None, st)
           | Some s \<Rightarrow> (let (open_now, st) = is_open_now cl s now st
                        in (if \<not> open_now then Some (lit ''schedule'') else None, st)))"

definition effective_locked ::
    "('z, 'r) calendar \<Rightarrow> bool \<Rightarrow> tab_schedule option \<Rightarrow> int \<Rightarrow> 'r schedule_state \<Rightarrow> bool \<times> 'r schedule_state" where
  "effective_locked cl manual_locked schedule now st =
     apfst (\<lambda>r. r \<noteq> None) (lock_reason cl manual_locked schedule now st)"

text \<open>A run of write gates: each asks for its tab's lock at its time.\<close>

type_synonym lock_query = "bool \<times> tab_schedule option \<times> int"

fun locks :: "('z, 'r) calendar \<Rightarrow> lock_query list \<Rightarrow> 'r schedule_state \<Rightarrow> bool list \<times> 'r schedule_state" where
  "locks cl [] st = ([], st)"
| "locks cl ((m, sched, now) # qs) st =
     (let (b, st) = effective_locked cl m sched now st; (bs, st) = locks cl qs st in (b # bs, st))"

definition no_cache :: "'r schedule_state" where
  "no_cache = \<lparr>ss_rules = Map.empty, ss_verdicts = []\<rparr>"

section \<open>What the cache stands for\<close>

text \<open>The answers without any cache.\<close>

definition open_at :: "('z, 'r) calendar \<Rightarrow> tab_schedule \<Rightarrow> int \<Rightarrow> bool" where
  "open_at cl s now = (case parsed cl s of None \<Rightarrow> True | Some r \<Rightarrow> cl_state cl r (local_naive cl s now) = Open)"

definition change_at :: "('z, 'r) calendar \<Rightarrow> tab_schedule \<Rightarrow> int \<Rightarrow> int option" where
  "change_at cl s now =
     Option.bind (Option.bind (parsed cl s) (\<lambda>r. cl_next cl r (local_naive cl s now)))
       (\<lambda>n. case cl_from_local cl (timezone cl s) n of t # _ \<Rightarrow> Some t | [] \<Rightarrow> None)"

definition rules_ok :: "('z, 'r) calendar \<Rightarrow> (rstr \<rightharpoonup> 'r) \<Rightarrow> bool" where
  "rules_ok cl rules \<longleftrightarrow> (\<forall>k r. rules k = Some r \<longrightarrow> cl_rule cl k = Inr r)"

lemma parsed_cached_ok:
  assumes "rules_ok cl rules"
  shows "fst (parsed_cached cl s rules) = parsed cl s" and "rules_ok cl (snd (parsed_cached cl s rules))"
  using assms by (auto simp: parsed_cached_def parsed_def rules_ok_def split: option.splits sum.splits)

lemma open_change_ok:
  assumes "rules_ok cl rules"
  shows "fst (is_open_at cl s now rules) = open_at cl s now" "rules_ok cl (snd (is_open_at cl s now rules))"
    and "fst (next_change_at cl s now rules) = change_at cl s now" "rules_ok cl (snd (next_change_at cl s now rules))"
  using parsed_cached_ok [OF assms, of s]
  by (auto simp: is_open_at_def open_at_def next_change_at_def change_at_def Let_def case_prod_unfold)

definition answer_at :: "('z, 'r) calendar \<Rightarrow> tab_schedule \<Rightarrow> int \<Rightarrow> verdict_at" where
  "answer_at cl s now = \<lparr>vd_open = open_at cl s now, vd_next = change_at cl s now\<rparr>"

lemma verdict_now_eq:
  assumes "rules_ok cl (ss_rules st)"
  shows "\<exists>rules. rules_ok cl rules \<and> verdict_now cl s now st =
    (case map_of (ss_verdicts st) (schedule_key s) of
       Some v \<Rightarrow> if fresh_verdict v now then (v, st)
                 else (answer_at cl s now, \<lparr>ss_rules = rules, ss_verdicts = set_slot (schedule_key s) (answer_at cl s now) (ss_verdicts st)\<rparr>)
     | None \<Rightarrow> (answer_at cl s now, \<lparr>ss_rules = rules, ss_verdicts =
         (if 64 \<le> length (ss_verdicts st) then [] else ss_verdicts st) @ [(schedule_key s, answer_at cl s now)]\<rparr>))"
proof -
  let ?r1 = "snd (is_open_at cl s now (ss_rules st))"
  let ?r2 = "snd (next_change_at cl s now ?r1)"
  note 1 = open_change_ok [OF assms, of s now]
  note 2 = open_change_ok [OF 1(2), of s now]
  show ?thesis using 1 2
    by (intro exI [of _ ?r2]) (auto simp: verdict_now_def answer_at_def Let_def case_prod_unfold split: option.splits)
qed

text \<open>Every cached verdict was the answer at some time up to \<open>T\<close>; keys are distinct and at most 64.\<close>

definition schedule_of :: "rstr \<times> rstr \<Rightarrow> tab_schedule" where
  "schedule_of k = \<lparr>sc_rule = fst k, sc_tz = snd k\<rparr>"

lemma schedule_of_key [simp]: "schedule_of (schedule_key s) = s"
  by (simp add: schedule_of_def schedule_key_def)

definition bounded :: "verdict_cache \<Rightarrow> bool" where
  "bounded vs \<longleftrightarrow> distinct (map fst vs) \<and> length vs \<le> 64"

definition cache_ok :: "('z, 'r) calendar \<Rightarrow> int \<Rightarrow> 'r schedule_state \<Rightarrow> bool" where
  "cache_ok cl T st \<longleftrightarrow> rules_ok cl (ss_rules st) \<and> bounded (ss_verdicts st) \<and>
     (\<forall>(k, v) \<in> set (ss_verdicts st). \<exists>t \<le> T. v = answer_at cl (schedule_of k) t)"

lemma cache_ok_later: "cache_ok cl T st \<Longrightarrow> T \<le> now \<Longrightarrow> cache_ok cl now st"
  unfolding cache_ok_def by (blast intro: order_trans)

lemma set_slot_keys [simp]: "map fst (set_slot k v vs) = map fst vs"
  by (induction k v vs rule: set_slot.induct) auto

lemma set_slot_length [simp]: "length (set_slot k v vs) = length vs"
  by (induction k v vs rule: set_slot.induct) auto

lemma set_slot_sub: "set (set_slot k v vs) \<subseteq> insert (k, v) (set vs)"
  by (induction k v vs rule: set_slot.induct) auto

lemma map_of_None_key: "map_of vs k = None \<Longrightarrow> k \<notin> fst ` set vs"
  by (metis map_of_eq_None_iff)

lemma verdict_now_bounded:
  assumes "rules_ok cl (ss_rules st)" and "bounded (ss_verdicts st)"
  shows "rules_ok cl (ss_rules (snd (verdict_now cl s now st)))" and "bounded (ss_verdicts (snd (verdict_now cl s now st)))"
proof -
  obtain rules where "rules_ok cl rules" and eq: "verdict_now cl s now st =
    (case map_of (ss_verdicts st) (schedule_key s) of
       Some v \<Rightarrow> if fresh_verdict v now then (v, st)
                 else (answer_at cl s now, \<lparr>ss_rules = rules, ss_verdicts = set_slot (schedule_key s) (answer_at cl s now) (ss_verdicts st)\<rparr>)
     | None \<Rightarrow> (answer_at cl s now, \<lparr>ss_rules = rules, ss_verdicts =
         (if 64 \<le> length (ss_verdicts st) then [] else ss_verdicts st) @ [(schedule_key s, answer_at cl s now)]\<rparr>))"
    using verdict_now_eq [OF assms(1)] by blast
  then show "rules_ok cl (ss_rules (snd (verdict_now cl s now st)))" "bounded (ss_verdicts (snd (verdict_now cl s now st)))"
    using assms map_of_None_key [of "ss_verdicts st" "schedule_key s"] by (auto simp: bounded_def split: option.splits)
qed

lemma verdict_now_ok:
  assumes "cache_ok cl T st" and "T \<le> now"
  shows "cache_ok cl now (snd (verdict_now cl s now st))"
    and "\<exists>t \<le> now. fst (verdict_now cl s now st) = answer_at cl s t \<and> (t = now \<or> fresh_verdict (answer_at cl s t) now)"
proof -
  have r: "rules_ok cl (ss_rules st)" and b: "bounded (ss_verdicts st)"
    and old: "\<And>k v. (k, v) \<in> set (ss_verdicts st) \<Longrightarrow> \<exists>t \<le> now. v = answer_at cl (schedule_of k) t"
    using cache_ok_later [OF assms] by (auto simp: cache_ok_def)
  obtain rules where eq: "verdict_now cl s now st =
    (case map_of (ss_verdicts st) (schedule_key s) of
       Some v \<Rightarrow> if fresh_verdict v now then (v, st)
                 else (answer_at cl s now, \<lparr>ss_rules = rules, ss_verdicts = set_slot (schedule_key s) (answer_at cl s now) (ss_verdicts st)\<rparr>)
     | None \<Rightarrow> (answer_at cl s now, \<lparr>ss_rules = rules, ss_verdicts =
         (if 64 \<le> length (ss_verdicts st) then [] else ss_verdicts st) @ [(schedule_key s, answer_at cl s now)]\<rparr>))"
    using verdict_now_eq [OF r] by blast
  have "(k, v) \<in> set (ss_verdicts (snd (verdict_now cl s now st))) \<Longrightarrow>
      (k, v) \<in> set (ss_verdicts st) \<or> (k = schedule_key s \<and> v = answer_at cl s now)" for k v
    using set_slot_sub [of "schedule_key s" "answer_at cl s now" "ss_verdicts st"]
    by (auto simp: eq split: option.splits if_splits)
  then have "(k, v) \<in> set (ss_verdicts (snd (verdict_now cl s now st))) \<Longrightarrow> \<exists>t \<le> now. v = answer_at cl (schedule_of k) t" for k v
    using old by fastforce
  then show "cache_ok cl now (snd (verdict_now cl s now st))"
    using verdict_now_bounded [OF r b, of s now] by (auto simp: cache_ok_def)
  have "\<exists>t \<le> now. v = answer_at cl s t" if "map_of (ss_verdicts st) (schedule_key s) = Some v" for v
    using old [OF map_of_SomeD [OF that]] by simp
  then show "\<exists>t \<le> now. fst (verdict_now cl s now st) = answer_at cl s t \<and> (t = now \<or> fresh_verdict (answer_at cl s t) now)"
    by (fastforce simp: eq split: option.splits)
qed

section \<open>Zones without shifts\<close>

text \<open>
  What is documented of the opening-hours library: the state stays the same up to the next change it reports. A zone
  without daylight saving, such as UTC, differs from UTC by a constant.
\<close>

definition steady_hours :: "('z, 'r) calendar \<Rightarrow> bool" where
  "steady_hours cl \<longleftrightarrow>
     (\<forall>r l m. l \<le> m \<longrightarrow> (case cl_next cl r l of Some n \<Rightarrow> m < n | None \<Rightarrow> True) \<longrightarrow> cl_state cl r m = cl_state cl r l)"

definition fixed_zone :: "('z, 'r) calendar \<Rightarrow> 'z \<Rightarrow> bool" where
  "fixed_zone cl z \<longleftrightarrow> (\<exists>off. \<forall>t. cl_local cl z t = t + off \<and> cl_from_local cl z (t + off) = [t])"

lemma fresh_open:
  assumes "steady_hours cl" and "fixed_zone cl (timezone cl s)" and "t \<le> now" and "fresh_verdict (answer_at cl s t) now"
  shows "open_at cl s now = open_at cl s t"
proof (cases "parsed cl s")
  case (Some r)
  obtain off where z: "\<And>t. cl_local cl (timezone cl s) t = t + off" "\<And>t. cl_from_local cl (timezone cl s) (t + off) = [t]"
    using assms(2) by (auto simp: fixed_zone_def)
  have "cl_from_local cl (timezone cl s) n = [n - off]" for n using z(2) [of "n - off"] by simp
  then have "case cl_next cl r (t + off) of Some n \<Rightarrow> now + off < n | None \<Rightarrow> True"
    using assms(4) Some by (auto simp: fresh_verdict_def answer_at_def change_at_def local_naive_def z(1) split: option.splits)
  then have "cl_state cl r (now + off) = cl_state cl r (t + off)"
    using assms(1,3) unfolding steady_hours_def by (metis add_le_cancel_right)
  then show ?thesis by (simp add: open_at_def Some local_naive_def z(1))
qed (simp add: open_at_def)

definition locked_at :: "('z, 'r) calendar \<Rightarrow> lock_query \<Rightarrow> bool" where
  "locked_at cl = (\<lambda>(m, sched, now). m \<or> (case sched of Some s \<Rightarrow> \<not> open_at cl s now | None \<Rightarrow> False))"

lemma effective_locked_ok:
  assumes "cache_ok cl T st" and "T \<le> now" and "steady_hours cl" and "\<forall>s. sched = Some s \<longrightarrow> fixed_zone cl (timezone cl s)"
  shows "fst (effective_locked cl m sched now st) = locked_at cl (m, sched, now)"
    and "cache_ok cl now (snd (effective_locked cl m sched now st))"
proof -
  note mono = cache_ok_later [OF assms(1,2)]
  show "cache_ok cl now (snd (effective_locked cl m sched now st))"
    using mono verdict_now_ok(1) [OF assms(1,2)]
    by (auto simp: effective_locked_def lock_reason_def is_open_now_def case_prod_unfold Let_def split: option.splits)
  have "vd_open (fst (verdict_now cl s now st)) = open_at cl s now" if "sched = Some s" for s
    using verdict_now_ok(2) [OF assms(1,2), of s] fresh_open [OF assms(3)] assms(4) that by (fastforce simp: answer_at_def)
  then show "fst (effective_locked cl m sched now st) = locked_at cl (m, sched, now)"
    by (auto simp: effective_locked_def lock_reason_def is_open_now_def locked_at_def case_prod_unfold Let_def split: option.splits)
qed

lemma locks_ok:
  assumes "steady_hours cl"
  shows "cache_ok cl T st \<Longrightarrow> sorted (T # map (snd \<circ> snd) qs) \<Longrightarrow>
    \<forall>(m, sched, now) \<in> set qs. \<forall>s. sched = Some s \<longrightarrow> fixed_zone cl (timezone cl s) \<Longrightarrow>
    fst (locks cl qs st) = map (locked_at cl) qs"
proof (induction qs arbitrary: T st)
  case (Cons q qs)
  obtain m sched now where q: "q = (m, sched, now)" by (cases q)
  have "T \<le> now" "\<forall>s. sched = Some s \<longrightarrow> fixed_zone cl (timezone cl s)" using Cons.prems q by auto
  note ok = effective_locked_ok [OF Cons.prems(1) this(1) assms this(2), of m]
  have "fst (locks cl qs (snd (effective_locked cl m sched now st))) = map (locked_at cl) qs"
    using Cons.IH [OF ok(2)] Cons.prems q by auto
  then show ?case using ok(1) by (simp add: q case_prod_unfold Let_def)
qed simp

lemma locks_bounded:
  "rules_ok cl (ss_rules st) \<Longrightarrow> bounded (ss_verdicts st) \<Longrightarrow> bounded (ss_verdicts (snd (locks cl qs st)))"
proof (induction qs arbitrary: st)
  case (Cons q qs)
  obtain m sched now where q: "q = (m, sched, now)" by (cases q)
  let ?st = "snd (effective_locked cl m sched now st)"
  have "rules_ok cl (ss_rules ?st) \<and> bounded (ss_verdicts ?st)"
    using Cons.prems verdict_now_bounded [OF Cons.prems]
    by (auto simp: effective_locked_def lock_reason_def is_open_now_def case_prod_unfold Let_def split: option.splits)
  then show ?case using Cons.IH [of ?st] by (simp add: q case_prod_unfold Let_def)
qed simp

section \<open>Verdicts that never expire\<close>

lemma stuck_verdict:
  assumes "map_of (ss_verdicts st) (schedule_key s) = Some v" and "vd_next v = None"
  shows "fst (locks cl (map (\<lambda>t. (False, Some s, t)) ts) st) = replicate (length ts) (\<not> vd_open v)"
proof -
  have "verdict_now cl s t st = (v, st)" for t using assms by (simp add: verdict_now_def fresh_verdict_def)
  then show ?thesis
    by (induction ts) (simp_all add: effective_locked_def lock_reason_def is_open_now_def case_prod_unfold)
qed

lemma first_verdict:
  "\<exists>st. verdict_now cl s t no_cache = (answer_at cl s t, st) \<and> map_of (ss_verdicts st) (schedule_key s) = Some (answer_at cl s t)"
proof -
  have "rules_ok cl (ss_rules no_cache)" by (simp add: rules_ok_def no_cache_def)
  from verdict_now_eq [OF this, of s t] show ?thesis by (auto simp: no_cache_def)
qed

definition half_past_two :: tab_schedule where
  "half_past_two = \<lparr>sc_rule = lit ''00:00-02:30'', sc_tz = lit ''Europe/Paris''\<rparr>"

text \<open>The night of a spring change, in seconds: clocks go from 02:00 to 03:00, and the rule closes at 02:30.\<close>

definition spring_night :: "(unit, unit) calendar" where
  "spring_night = \<lparr>cl_zone = \<lambda>_. Some (), cl_utc = (),
     cl_local = \<lambda>_ t. if t < 7200 then t else t + 3600,
     cl_from_local = \<lambda>_ l. if l < 7200 then [l] else if l < 10800 then [] else [l - 3600],
     cl_rule = \<lambda>_. Inr (), cl_state = \<lambda>_ l. if l < 9000 then Open else Closed,
     cl_next = \<lambda>_ l. if l < 9000 then Some 9000 else None\<rparr>"

text \<open>The same rule on a host that keeps UTC.\<close>

definition utc_night :: "(unit, unit) calendar" where
  "utc_night = spring_night\<lparr>cl_local := \<lambda>_ t. t, cl_from_local := \<lambda>_ l. [l]\<rparr>"

section \<open>Properties\<close>

text \<open>C36 In a zone without clock changes the cache cannot be seen: over any run of write gates at times that do not go back,
  whatever schedules they ask for and however the cache fills up and is cleared, each is answered as if the
  rule were evaluated at that moment.\<close>

theorem lock_cache_exact:
  assumes "steady_hours cl" and "sorted (map (snd \<circ> snd) qs)"
    and "\<forall>(m, sched, now) \<in> set qs. \<forall>s. sched = Some s \<longrightarrow> fixed_zone cl (timezone cl s)"
  shows "fst (locks cl qs no_cache) = map (locked_at cl) qs"
proof (cases qs)
  case (Cons q rest)
  have "cache_ok cl (snd (snd q)) no_cache" by (simp add: cache_ok_def no_cache_def rules_ok_def bounded_def)
  from locks_ok [OF assms(1) this, of qs] show ?thesis using assms(2,3) Cons by simp
qed simp

theorem lock_cache_exact_witness:
  "fst (locks utc_night [(False, Some half_past_two, 0), (True, None, 5), (False, Some half_past_two, 9000)] no_cache) =
     [False, True, True]"
proof -
  have "fst (locks utc_night [(False, Some half_past_two, 0), (True, None, 5), (False, Some half_past_two, 9000)] no_cache) =
      map (locked_at utc_night) [(False, Some half_past_two, 0), (True, None, 5), (False, Some half_past_two, 9000)]"
    by (rule lock_cache_exact)
      (auto simp: steady_hours_def fixed_zone_def utc_night_def spring_night_def split: if_splits intro: exI [of _ 0])
  then show ?thesis
    by (simp add: locked_at_def open_at_def parsed_def timezone_def local_naive_def utc_night_def spring_night_def)
qed

text \<open>The cache stays small whatever schedules are asked for: at most 64 verdicts, one for each rule and zone.\<close>

theorem verdict_cache_bounded:
  "length (ss_verdicts (snd (locks cl qs no_cache))) \<le> 64 \<and> distinct (map fst (ss_verdicts (snd (locks cl qs no_cache))))"
  using locks_bounded [of cl no_cache qs] by (simp add: rules_ok_def no_cache_def bounded_def)

text \<open>A change that falls into the hour the clocks skip is never seen: the verdict taken before it is kept without an
  end, so from then on the tab's lock answers as it did at that moment, at any later time.\<close>

theorem skipped_change_never_seen:
  assumes "parsed cl s = Some r" and "cl_next cl r (local_naive cl s t0) = Some n" and "cl_from_local cl (timezone cl s) n = []"
  shows "fst (locks cl (map (\<lambda>t. (False, Some s, t)) (t0 # ts)) no_cache) = replicate (Suc (length ts)) (\<not> open_at cl s t0)"
proof -
  obtain st where st: "verdict_now cl s t0 no_cache = (answer_at cl s t0, st)"
      "map_of (ss_verdicts st) (schedule_key s) = Some (answer_at cl s t0)" using first_verdict by blast
  have "vd_next (answer_at cl s t0) = None" using assms by (simp add: answer_at_def change_at_def)
  then have "fst (locks cl (map (\<lambda>t. (False, Some s, t)) ts) st) = replicate (length ts) (\<not> open_at cl s t0)"
    using stuck_verdict [OF st(2), of cl ts] by (simp add: answer_at_def)
  then show ?thesis using st(1)
    by (cases "open_at cl s t0")
      (simp_all add: effective_locked_def lock_reason_def is_open_now_def answer_at_def case_prod_unfold Let_def)
qed

theorem skipped_change_never_seen_witness:
  "fst (locks spring_night [(False, Some half_past_two, 0), (False, Some half_past_two, 7200)] no_cache) = [False, False] \<and>
     locked_at spring_night (False, Some half_past_two, 7200) \<and> steady_hours spring_night"
  using skipped_change_never_seen [of spring_night half_past_two "()" 0 9000 "[7200]"]
  by (simp add: spring_night_def parsed_def local_naive_def timezone_def open_at_def locked_at_def steady_hours_def)

end
