(* ===== verification/Shaping.thy ===== *)
theory Shaping
  imports Identity Openai_Chat
begin

text \<open>
  What happens to a request between its arrival and the provider: \<^verbatim>\<open>shape_body\<close>, \<^verbatim>\<open>upstream_body\<close> and \<^verbatim>\<open>stamp_user_id\<close> of
  \<^verbatim>\<open>src/crates/tab-atelier-proxy/src/http/controllers/relay.rs\<close> and the proxy's own tool in \<^verbatim>\<open>localtool.rs\<close>. Bodies are
  of a type \<open>'b\<close>; \<open>parse\<close> and \<open>enc\<close> are \<^verbatim>\<open>serde_json\<close>'s, which encodes every value. A panic is \<open>None\<close>.
\<close>

section \<open>Shaping\<close>

definition level_name :: "compact_level \<Rightarrow> rstr" where
  "level_name level =
     (case level of
        CompactNone \<Rightarrow> lit ''none''
      | CompactTools \<Rightarrow> lit ''tools''
      | CompactToolsThinking \<Rightarrow> lit ''tools_thinking''
      | CompactAll \<Rightarrow> lit ''all'')"

record compaction_row =
  cr_level :: rstr
  cr_before :: nat
  cr_after :: nat
  cr_stats :: compact_stats

definition governed ::
    "tool_policy option \<Rightarrow> bool \<Rightarrow> json \<Rightarrow> (json \<times> tool_report) option" where
  "governed policy takes_cache v =
     (case policy of None \<Rightarrow> Some (v, empty_report ModeAll) | Some p \<Rightarrow> apply_policy v p takes_cache)"

definition with_model :: "rstr option \<Rightarrow> json \<Rightarrow> json option" where
  "with_model rename v = (case rename of None \<Rightarrow> Some v | Some model \<Rightarrow> index_set (lit ''model'') (JStr model) v)"

text \<open>The value sent, the counts of the compaction and the report of the policy.\<close>

definition shape_value ::
    "(json \<Rightarrow> nat) \<Rightarrow> rstr option \<Rightarrow> compact_level \<Rightarrow> tool_policy option \<Rightarrow> bool \<Rightarrow> vendor \<Rightarrow> rstr \<Rightarrow> json \<Rightarrow>
       (json \<times> compact_stats \<times> tool_report) option" where
  "shape_value json_len rename level policy takes_cache vendor model v =
     Option.bind (with_model rename v) (\<lambda>v.
       let (v, st) = compact_body json_len v level
       in map_option (\<lambda>(v, r). (if vendor \<noteq> VAnthropic then apply_identity v vendor model else v, st, r)) (governed policy takes_cache v))"

definition shape_body ::
    "('b \<Rightarrow> json option) \<Rightarrow> (json \<Rightarrow> 'b) \<Rightarrow> ('b \<Rightarrow> nat) \<Rightarrow> 'b \<Rightarrow> route \<Rightarrow> rstr \<Rightarrow> compact_level \<Rightarrow> tool_policy \<Rightarrow> bool \<Rightarrow> vendor \<Rightarrow>
       ('b \<times> compaction_row option \<times> rstr list) option" where
  "shape_body parse enc body_len body ro requested wanted policy takes_cache vendor =
     (let rename = (if ro_model ro \<noteq> requested then Some (ro_model ro) else None);
          level = (if kind_compacts (ro_kind ro) then wanted else CompactNone);
          policy = (if shapes_tools (ro_kind ro) then Some policy else None)
      in if rename = None \<and> level = CompactNone \<and> (case policy of None \<Rightarrow> True | Some p \<Rightarrow> is_noop p) \<and> vendor = VAnthropic
         then Some (body, None, [])
         else case parse body of
                None \<Rightarrow> Some (body, None, [])
              | Some v \<Rightarrow>
                  map_option (\<lambda>(v, st, r).
                      (enc v,
                       if level = CompactNone then None
                       else Some \<lparr>cr_level = level_name level, cr_before = body_len body, cr_after = body_len (enc v), cr_stats = st\<rparr>,
                       tr_local r))
                    (shape_value (body_len \<circ> enc) rename level policy takes_cache vendor (ro_model ro) v))"

section \<open>From arrival to shape\<close>

text \<open>\<^verbatim>\<open>inspect::server_tool\<close>: the family of the first versioned type.\<close>

definition tool_family :: "rstr \<Rightarrow> rstr option" where
  "tool_family ty =
     (case rsplit_once 95 ty of
        None \<Rightarrow> None
      | Some (family, date) \<Rightarrow> if length date = 8 \<and> list_all is_ascii_digit date \<and> family \<noteq> [] then Some family else None)"

definition server_tool :: "json \<Rightarrow> rstr option" where
  "server_tool body =
     (case as_array (json_get (lit ''tools'') body) of
        None \<Rightarrow> None
      | Some tools \<Rightarrow>
          (case List.map_filter (\<lambda>tool. Option.bind (block_type tool) tool_family) tools of [] \<Rightarrow> None | f # _ \<Rightarrow> Some f))"

definition requested_model :: "json option \<Rightarrow> rstr" where
  "requested_model parsed = str_or_empty (Option.bind parsed (json_get (lit ''model'')))"

text \<open>Metered calls up to admission; \<open>NoRoute\<close> is the 503 of a request nothing can serve.\<close>

datatype 'b shaped = NoRoute | Shaped 'b route "compaction_row option" "rstr list" bool

definition shape_call ::
    "('b \<Rightarrow> json option) \<Rightarrow> (json \<Rightarrow> 'b) \<Rightarrow> ('b \<Rightarrow> nat) \<Rightarrow> provider_registry \<Rightarrow> account \<Rightarrow> compact_level \<Rightarrow> tool_policy \<Rightarrow> (rstr \<Rightarrow> health) \<Rightarrow>
       host \<Rightarrow> nat \<Rightarrow> 'b \<Rightarrow> 'b shaped option" where
  "shape_call parse enc body_len r a wanted policy health h now body =
     (let parsed = parse body;
          requested = requested_model parsed;
          kind = (case parsed of Some v \<Rightarrow> kind_of v | None \<Rightarrow> KWork)
      in case pick_route r a requested kind health (Option.bind parsed server_tool) h now of
           None \<Rightarrow> Some NoRoute
         | Some ro \<Rightarrow>
             (let ro = (if ac_model a \<noteq> None \<and> ro_model ro \<noteq> requested then ro\<lparr>ro_changed_from := Some requested\<rparr> else ro);
                  body = (case fit_completion r ro parsed (body_len body) of Some v \<Rightarrow> enc v | None \<Rightarrow> body);
                  (on_subscription, vendor) = (case get_provider r (ro_provider ro) of
                                                 None \<Rightarrow> (True, VAnthropic)
                                               | Some p \<Rightarrow> (uses_the_subscription p, vendor_of p))
              in map_option (\<lambda>(body, row, local). Shaped body ro row local on_subscription)
                   (shape_body parse enc body_len body ro requested wanted policy True vendor)))"

section \<open>The proxy's own tool\<close>

definition render_ranges :: "rstr \<Rightarrow> rstr \<Rightarrow> rstr" where
  "render_ranges v4 v6 = str_join [10] (filter (\<lambda>b. b \<noteq> []) [trim v4, trim v6])"

definition ranges_ttl :: nat where
  "ranges_ttl = 300"

type_synonym ranges_cache = "(nat \<times> rstr) option"

text \<open>\<open>fetched\<close> is what the two requests return, or the error of the one that failed.\<close>

definition ranges :: "rstr + rstr \<times> rstr \<Rightarrow> nat \<Rightarrow> ranges_cache \<Rightarrow> (rstr + rstr) \<times> ranges_cache" where
  "ranges fetched now cache =
     (case cache of
        Some (t0, txt) \<Rightarrow>
          if now - t0 < ranges_ttl then (Inr txt, cache)
          else (case fetched of Inl e \<Rightarrow> (Inl e, cache) | Inr (v4, v6) \<Rightarrow> (Inr (render_ranges v4 v6), Some (now, render_ranges v4 v6)))
      | None \<Rightarrow> (case fetched of Inl e \<Rightarrow> (Inl e, cache) | Inr (v4, v6) \<Rightarrow> (Inr (render_ranges v4 v6), Some (now, render_ranges v4 v6))))"

definition text_block :: "rstr \<Rightarrow> json" where
  "text_block txt = JObj [(lit ''type'', JStr (lit ''text'')), (lit ''text'', JStr txt)]"

definition append_note :: "json \<Rightarrow> json \<Rightarrow> json" where
  "append_note message note =
     set_field (lit ''content'')
       (case json_get (lit ''content'') message of
          Some (JArr bs) \<Rightarrow> JArr (bs @ [note])
        | Some (JStr prompt) \<Rightarrow> JArr [text_block prompt, note]
        | _ \<Rightarrow> JArr [note]) message"

definition ends_on_user :: "json list \<Rightarrow> bool" where
  "ends_on_user ms \<longleftrightarrow> ms \<noteq> [] \<and> as_str (json_get (lit ''role'') (last ms)) = Some (lit ''user'')"

definition noted_messages :: "rstr \<Rightarrow> json list \<Rightarrow> json list" where
  "noted_messages txt ms =
     (let note = text_block (cloudflare_ips @ [58, 10] @ txt)
      in if ends_on_user ms then butlast ms @ [append_note (last ms) note]
         else ms @ [JObj [(lit ''role'', JStr (lit ''user'')), (lit ''content'', JArr [note])]])"

definition inject_note :: "json \<Rightarrow> rstr \<Rightarrow> json" where
  "inject_note body txt =
     (case as_array (json_get (lit ''messages'') body) of
        None \<Rightarrow> body
      | Some ms \<Rightarrow> set_field (lit ''messages'') (JArr (noted_messages txt ms)) body)"

definition inject :: "json \<Rightarrow> rstr list \<Rightarrow> rstr + rstr \<times> rstr \<Rightarrow> nat \<Rightarrow> ranges_cache \<Rightarrow> json \<times> ranges_cache" where
  "inject body names fetched now cache =
     (if \<not> list_ex is_local names then (body, cache)
      else (let (r, cache) = ranges fetched now cache
            in (inject_note body (case r of Inr txt \<Rightarrow> txt | Inl err \<Rightarrow> cloudflare_ips @ lit '' could not be fetched: '' @ err), cache)))"

section \<open>What is sent\<close>

definition stamp_user_id :: "json \<Rightarrow> wire \<Rightarrow> rstr option \<Rightarrow> json" where
  "stamp_user_id body w user_id =
     (case user_id of
        None \<Rightarrow> body
      | Some i \<Rightarrow>
          (case w of
             Openai \<Rightarrow> set_field (lit ''user_id'') (JStr i) body
           | Anthropic \<Rightarrow>
               (case json_get (lit ''metadata'') body of
                  Some (JObj m) \<Rightarrow> set_field (lit ''metadata'') (set_field (lit ''user_id'') (JStr i) (JObj m)) body
                | Some _ \<Rightarrow> body
                | None \<Rightarrow> set_field (lit ''metadata'') (JObj [(lit ''user_id'', JStr i)]) body)))"

definition provider_attribution :: "provider_registry \<Rightarrow> rstr \<Rightarrow> rstr option" where
  "provider_attribution r i = Option.bind (get_provider r i) pv_user_id"

definition upstream_body ::
    "('b \<Rightarrow> json option) \<Rightarrow> (json \<Rightarrow> 'b) \<Rightarrow> (json \<Rightarrow> rstr) \<Rightarrow> wire \<Rightarrow> rstr \<Rightarrow> 'b \<Rightarrow> rstr list \<Rightarrow> rstr option \<Rightarrow> rstr + rstr \<times> rstr \<Rightarrow> nat \<Rightarrow>
       ranges_cache \<Rightarrow> (rstr \<times> 'b) \<times> ranges_cache" where
  "upstream_body parse enc json_text w sub_pq body local attribution fetched now cache =
     (case w of
        Anthropic \<Rightarrow>
          if local = [] \<and> attribution = None then ((sub_pq, body), cache)
          else (case parse body of
                  None \<Rightarrow> ((sub_pq, body), cache)
                | Some v \<Rightarrow> (let (v, cache) = inject v local fetched now cache
                            in ((sub_pq, enc (stamp_user_id v Anthropic attribution)), cache)))
      | Openai \<Rightarrow>
          (let v = (case parse body of Some v \<Rightarrow> v | None \<Rightarrow> JNull);
               (v, cache) = inject v local fetched now cache
           in ((lit ''/v1/chat/completions'', enc (stamp_user_id (to_chat json_text v) Openai attribution)), cache)))"

section \<open>Two requests that differ in their messages\<close>

definition agree :: "json \<Rightarrow> json \<Rightarrow> bool" where
  "agree v w \<longleftrightarrow> is_obj v \<and> is_obj w \<and> (\<forall>k. k \<noteq> lit ''messages'' \<longrightarrow> json_get k v = json_get k w)"

lemma agree_set: "agree v w \<Longrightarrow> agree (set_field k x v) (set_field k x w)"
  by (simp add: agree_def get_set_obj)

lemma agree_messages: "agree v w \<Longrightarrow> agree (set_field (lit ''messages'') x v) (set_field (lit ''messages'') y w)"
  by (simp add: agree_def get_set_obj)

lemma index_set_obj: "is_obj v \<Longrightarrow> index_set k x v = Some (set_field k x v)"
  by (cases v) (simp_all add: index_set_def)

lemma is_obj_update [simp]: "is_obj (update_field k f v) = is_obj v"
  by (simp add: update_field_def split: option.splits)

lemma update_agree: "agree v w \<Longrightarrow> k \<noteq> lit ''messages'' \<Longrightarrow> agree (update_field k f v) (update_field k f w)"
  by (auto simp: update_field_def agree_def get_set_obj split: option.splits)

lemma identity_agree: "agree v w \<Longrightarrow> agree (apply_identity v vendor model) (apply_identity w vendor model)"
proof -
  assume a: "agree v w"
  then have "agent_rule_is_dangling v = agent_rule_is_dangling w" by (simp add: agent_rule_is_dangling_def agree_def)
  then show ?thesis using a by (simp add: apply_identity_def Let_def update_agree)
qed

lemma apply_policy_obj:
  "is_obj v \<Longrightarrow> apply_policy v p tc =
     Some (let r = empty_report (tp_mode p)
           in if is_noop p then (v, r)
              else case as_array (json_get (lit ''tools'') v) of
                     None \<Rightarrow> (let (sent, r) = reject_and_append [] (tp_add p) {} (\<not> tc) r;
                                   r = r\<lparr>tr_cache_stripped := (\<not> tc \<and> tr_added r > 0), tr_sent := length sent\<rparr>
                               in (if sent \<noteq> [] then set_field (lit ''tools'') (JArr sent) v else v, r))
                   | Some tools \<Rightarrow> (let (sent, r) = shape_tools tools (protected_names v) p tc r
                                   in (set_field (lit ''tools'') (JArr sent) v, r)))"
  by (simp add: apply_policy_def add_only_def Let_def case_prod_unfold index_set_obj split: option.splits)

lemma apply_policy_agree:
  assumes "agree v w" "protected_names v = protected_names w"
  shows "\<exists>v' w' r. apply_policy v p tc = Some (v', r) \<and> apply_policy w p tc = Some (w', r) \<and> agree v' w' \<and>
    json_get (lit ''messages'') v' = json_get (lit ''messages'') v \<and> json_get (lit ''messages'') w' = json_get (lit ''messages'') w"
proof -
  have o: "is_obj v" "is_obj w" and t: "json_get (lit ''tools'') v = json_get (lit ''tools'') w" using assms(1) by (simp_all add: agree_def)
  have m: "json_get (lit ''messages'') (set_field (lit ''tools'') x u) = json_get (lit ''messages'') u" for x u by (simp add: get_set_other)
  show ?thesis
    unfolding apply_policy_obj [OF o(1)] apply_policy_obj [OF o(2)] t assms(2)
    using assms(1) by (auto simp: Let_def case_prod_unfold agree_set m split: option.splits)
qed

section \<open>Properties\<close>

lemma apply_identity_messages [simp]: "json_get (lit ''messages'') (apply_identity v vendor model) = json_get (lit ''messages'') v"
  by (rule apply_identity_other) simp_all

lemma is_obj_identity [simp]: "is_obj (apply_identity v vendor model) = is_obj v"
  by (simp add: apply_identity_def Let_def)

lemma compact_body_set:
  assumes "is_obj v" "json_get (lit ''messages'') v = Some (JArr ms)"
  shows "fst (compact_body json_len v level) = set_field (lit ''messages'') (JArr (fst (compact_messages json_len level ms))) v"
proof (cases "level = CompactNone")
  case True
  then have "fst (compact_messages json_len level ms) = ms"
    by (simp add: compact_messages_def does_tools_def does_thinking_def does_notices_def)
  then show ?thesis using True assms(2) by (simp add: compact_body_def set_field_same)
next
  case False
  then show ?thesis using assms(2) by (simp add: compact_body_def as_array_def Let_def case_prod_unfold)
qed

definition message_calls :: "json \<Rightarrow> rstr list" where
  "message_calls m = (case blocks m of None \<Rightarrow> [] | Some bs \<Rightarrow> concat (map called_name bs))"

lemma referenced_as: "referenced_names v = set (concat (map message_calls (body_messages v)))"
  by (simp add: referenced_names_def message_calls_def)

lemma referenced_messages: "json_get (lit ''messages'') v = json_get (lit ''messages'') w \<Longrightarrow> referenced_names v = referenced_names w"
  by (simp add: referenced_names_def body_messages_def)

lemma agree_forced: "agree v w \<Longrightarrow> forced_name v = forced_name w"
  by (simp add: forced_name_def agree_def)

lemma body_messages_set: "is_obj v \<Longrightarrow> body_messages (set_field (lit ''messages'') (JArr ms) v) = ms"
  by (simp add: body_messages_def get_set_obj as_array_def)

lemma no_call_no_name: "\<not> has_block (lit ''tool_use'') m \<Longrightarrow> message_calls m = []"
  by (auto simp: list_ex_has called_name_def message_calls_def split: option.splits)

lemma with_model_obj: "is_obj v \<Longrightarrow> \<exists>w. with_model rename v = Some w \<and> is_obj w \<and> (\<forall>k. k \<noteq> lit ''model'' \<longrightarrow> json_get k w = json_get k v) \<and>
    (rename = None \<longrightarrow> w = v)"
  by (cases rename) (auto simp: with_model_def index_set_obj get_set_obj)

lemma governed_obj: "is_obj v \<Longrightarrow> \<exists>w r. governed policy tc v = Some (w, r) \<and> is_obj w \<and> (\<forall>k. k \<noteq> lit ''tools'' \<longrightarrow> json_get k w = json_get k v)"
proof (cases policy)
  case (Some p)
  assume "is_obj v"
  then show ?thesis unfolding Some governed_def option.case apply_policy_obj [OF \<open>is_obj v\<close>]
    by (auto simp: Let_def case_prod_unfold get_set_obj split: option.splits)
qed (simp add: governed_def)

text \<open>C11 A turn that completes no batch, is no notice and calls no tool leaves the whole request before it as it was:
  the body sent for the longer conversation has the messages sent for the shorter one with the new
  turn behind them, and every other field, the tools and the system prompt first, is the same.
\<close>

theorem shaped_prefix_stable:
  assumes "is_obj v" "json_get (lit ''messages'') v = Some (JArr ms)"
    "\<not> batch_due (has_block (lit ''tool_result'')) ms m" "\<not> batch_due (has_block (lit ''thinking'')) ms m" "\<not> is_notice m"
    "\<not> has_block (lit ''tool_use'') m"
  shows "\<exists>out later sent st st' r.
    shape_value json_len rename level policy tc vendor model v = Some (out, st, r) \<and>
    shape_value json_len rename level policy tc vendor model (set_field (lit ''messages'') (JArr (ms @ [m])) v) = Some (later, st', r) \<and>
    json_get (lit ''messages'') out = Some (JArr sent) \<and> json_get (lit ''messages'') later = Some (JArr (sent @ [m])) \<and>
    (\<forall>k. k \<noteq> lit ''messages'' \<longrightarrow> json_get k later = json_get k out)"
proof -
  let ?w = "set_field (lit ''messages'') (JArr (ms @ [m])) v"
  have ag: "agree v ?w" using assms(1) by (simp add: agree_def get_set_obj)
  obtain v1 w1 where r: "with_model rename v = Some v1" "with_model rename ?w = Some w1" and ag1: "agree v1 w1"
    and m1: "json_get (lit ''messages'') v1 = Some (JArr ms)" "json_get (lit ''messages'') w1 = Some (JArr (ms @ [m]))"
  proof (cases rename)
    case None
    then show ?thesis using that [of v ?w] ag assms(1,2) by (simp add: with_model_def get_set_obj)
  next
    case (Some x)
    then show ?thesis using that [of "set_field (lit ''model'') (JStr x) v" "set_field (lit ''model'') (JStr x) ?w"] ag assms(1,2)
      by (simp add: with_model_def index_set_obj agree_set get_set_obj)
  qed
  let ?C = "fst (compact_messages json_len level ms)"
  have o: "is_obj v1" "is_obj w1" using ag1 by (simp_all add: agree_def)
  have cv: "fst (compact_body json_len v1 level) = set_field (lit ''messages'') (JArr ?C) v1" by (rule compact_body_set [OF o(1) m1(1)])
  have cw: "fst (compact_body json_len w1 level) = set_field (lit ''messages'') (JArr (?C @ [m])) w1"
    using compact_body_set [OF o(2) m1(2), of json_len level] compact_append [OF assms(3,4,5), of json_len level] by simp
  let ?v2 = "set_field (lit ''messages'') (JArr ?C) v1" and ?w2 = "set_field (lit ''messages'') (JArr (?C @ [m])) w1"
  have ag2: "agree ?v2 ?w2" by (rule agree_messages [OF ag1])
  have "referenced_names ?w2 = referenced_names ?v2"
    using no_call_no_name [OF assms(6)] o by (simp add: referenced_as body_messages_set)
  then have pr: "protected_names ?v2 = protected_names ?w2" using agree_forced [OF ag2] by (simp add: protected_names_def)
  obtain v3 w3 rep where g: "governed policy tc ?v2 = Some (v3, rep)" "governed policy tc ?w2 = Some (w3, rep)" and ag3: "agree v3 w3"
    and m3: "json_get (lit ''messages'') v3 = Some (JArr ?C)" "json_get (lit ''messages'') w3 = Some (JArr (?C @ [m]))"
  proof (cases policy)
    case None
    then show ?thesis using that [of ?v2 _ ?w2] ag2 o by (simp add: governed_def get_set_obj)
  next
    case (Some p)
    then show ?thesis using that apply_policy_agree [OF ag2 pr, of p tc] o by (auto simp: governed_def get_set_obj)
  qed
  let ?f = "\<lambda>u. if vendor \<noteq> VAnthropic then apply_identity u vendor model else u"
  have sv: "shape_value json_len rename level policy tc vendor model v = Some (?f v3, snd (compact_body json_len v1 level), rep)"
    using r(1) cv g(1) by (simp add: shape_value_def Let_def case_prod_unfold)
  have sw: "shape_value json_len rename level policy tc vendor model ?w = Some (?f w3, snd (compact_body json_len w1 level), rep)"
    using r(2) cw g(2) by (simp add: shape_value_def Let_def case_prod_unfold)
  have "agree (?f v3) (?f w3)" using ag3 identity_agree by simp
  then show ?thesis using sv sw m3 by (auto simp: agree_def)
qed

text \<open>C12 A shaped request can be answered: every tool the client offered and the transcript that is sent calls, or
  \<^verbatim>\<open>tool_choice\<close> forces, is among the tools that are sent, whatever the level, the policy and the vendor.
\<close>

theorem shaped_calls_resolve:
  assumes "is_obj v" "as_array (json_get (lit ''tools'') v) = Some tools" "tool \<in> set tools" "tool_name tool = Some n"
    "shape_value json_len rename level policy tc vendor model v = Some (out, st, r)" "n \<in> protected_names out"
  shows "\<exists>sent. as_array (json_get (lit ''tools'') out) = Some sent \<and> n \<in> set (tool_names sent)"
proof -
  obtain v1 where v1: "with_model rename v = Some v1" "is_obj v1" "\<forall>k. k \<noteq> lit ''model'' \<longrightarrow> json_get k v1 = json_get k v"
    using with_model_obj [OF assms(1)] by blast
  let ?v2 = "fst (compact_body json_len v1 level)"
  have v2: "is_obj ?v2" "\<forall>k. k \<noteq> lit ''messages'' \<longrightarrow> json_get k ?v2 = json_get k v1"
    using v1(2) by (auto simp: compact_body_def Let_def case_prod_unfold get_set_other split: option.splits)
  obtain v3 rep where v3: "governed policy tc ?v2 = Some (v3, rep)" "is_obj v3" "\<forall>k. k \<noteq> lit ''tools'' \<longrightarrow> json_get k v3 = json_get k ?v2"
    using governed_obj [OF v2(1)] by blast
  have o: "out = (if vendor \<noteq> VAnthropic then apply_identity v3 vendor model else v3)"
    using assms(5) v1(1) v3(1) by (auto simp: shape_value_def Let_def case_prod_unfold split: if_splits)
  have "protected_names out = protected_names v3"
    unfolding o protected_names_def referenced_names_def body_messages_def forced_name_def by (simp add: apply_identity_other)
  then have p: "n \<in> protected_names ?v2"
    using assms(6) v3(3) by (simp add: protected_names_def referenced_names_def body_messages_def forced_name_def)
  have t: "as_array (json_get (lit ''tools'') ?v2) = Some tools" using assms(2) v1(3) v2(2) by simp
  have "\<exists>sent. as_array (json_get (lit ''tools'') v3) = Some sent \<and> n \<in> set (tool_names sent)"
  proof (cases policy)
    case None
    then show ?thesis using v3(1) t assms(3,4) by (auto simp: governed_def tool_names_set)
  next
    case (Some q)
    then have "apply_policy ?v2 q tc = Some (v3, rep)" using v3(1) by (simp add: governed_def)
    from protected_tool_sent [OF this t assms(3,4)] p show ?thesis by (auto simp: tool_names_set)
  qed
  moreover have "map_option tool_names (as_array (json_get (lit ''tools'') out)) = map_option tool_names (as_array (json_get (lit ''tools'') v3))"
    unfolding o by (simp add: apply_identity_names)
  ultimately show ?thesis by (auto simp: map_option_eq_Some)
qed

text \<open>The judge reads what it was sent: a call of the auto-mode classifier is neither compacted nor given or refused a
  tool, its body goes out as it came when nothing has to be with_model for Anthropic, and otherwise no field but
  the model, the system prompt and the tools' prose differs; no row is recorded for it.
\<close>

theorem judge_is_not_reshaped:
  assumes "ro_kind ro = KClassifier" "parse body = Some v" "is_obj v"
  shows "\<exists>out. shape_body parse enc body_len body ro requested wanted policy tc vendor = Some (out, None, []) \<and>
    (if ro_model ro = requested \<and> vendor = VAnthropic then out = body
     else \<exists>w. out = enc w \<and> (\<forall>k. k \<noteq> lit ''model'' \<longrightarrow> k \<noteq> lit ''system'' \<longrightarrow> k \<noteq> lit ''tools'' \<longrightarrow> json_get k w = json_get k v) \<and>
       map_option tool_names (as_array (json_get (lit ''tools'') w)) = map_option tool_names (as_array (json_get (lit ''tools'') v)))"
proof (cases "ro_model ro = requested \<and> vendor = VAnthropic")
  case True
  then show ?thesis using assms(1) by (simp add: shape_body_def Let_def kind_compacts_def shapes_tools_def)
next
  case False
  let ?rename = "if ro_model ro \<noteq> requested then Some (ro_model ro) else None"
  obtain v1 where v1: "with_model ?rename v = Some v1" "is_obj v1" "\<forall>k. k \<noteq> lit ''model'' \<longrightarrow> json_get k v1 = json_get k v"
    using with_model_obj [OF assms(3)] by blast
  let ?w = "if vendor \<noteq> VAnthropic then apply_identity v1 vendor (ro_model ro) else v1"
  have "shape_value (body_len \<circ> enc) ?rename CompactNone None tc vendor (ro_model ro) v = Some (?w, no_stats, empty_report ModeAll)"
    using v1(1) by (simp add: shape_value_def compact_body_def governed_def)
  then have s: "shape_body parse enc body_len body ro requested wanted policy tc vendor = Some (enc ?w, None, [])"
    using False assms(1,2) by (auto simp: shape_body_def Let_def kind_compacts_def shapes_tools_def empty_report_def)
  have "\<forall>k. k \<noteq> lit ''model'' \<longrightarrow> k \<noteq> lit ''system'' \<longrightarrow> k \<noteq> lit ''tools'' \<longrightarrow> json_get k ?w = json_get k v"
    using v1(3) by (simp add: apply_identity_other)
  moreover have "map_option tool_names (as_array (json_get (lit ''tools'') ?w)) = map_option tool_names (as_array (json_get (lit ''tools'') v))"
    using v1(3) by (simp add: apply_identity_names)
  ultimately show ?thesis using False s by auto
qed

text \<open>Shaping never fails on a request that is a JSON object; a body that is JSON but neither an object nor null, which
  names no model, makes it panic as soon as routing found any model to send it to.
\<close>

theorem shaping_panics_on_arrays_only:
  assumes "parse body = Some v"
  shows "(is_obj v \<longrightarrow> shape_body parse enc body_len body ro requested wanted policy tc vendor \<noteq> None) \<and>
    (\<not> is_obj v \<and> v \<noteq> JNull \<and> ro_model ro \<noteq> [] \<longrightarrow>
       shape_body parse enc body_len body ro (requested_model (parse body)) wanted policy tc vendor = None)"
proof (rule conjI; rule impI)
  assume o: "is_obj v"
  have "shape_value len rename level pol tc vendor model v \<noteq> None" for len rename level pol model
  proof -
    obtain v1 where v1: "with_model rename v = Some v1" "is_obj v1" using with_model_obj [OF o] by blast
    have "is_obj (fst (compact_body len v1 level))" using v1(2) by (auto simp: compact_body_def Let_def case_prod_unfold split: option.splits)
    from governed_obj [OF this, of pol tc] obtain w r where "governed pol tc (fst (compact_body len v1 level)) = Some (w, r)" by blast
    then show ?thesis using v1 by (simp add: shape_value_def Let_def case_prod_unfold)
  qed
  then show "shape_body parse enc body_len body ro requested wanted policy tc vendor \<noteq> None"
    using assms by (simp add: shape_body_def Let_def)
next
  assume a: "\<not> is_obj v \<and> v \<noteq> JNull \<and> ro_model ro \<noteq> []"
  then have "json_get k v = None" for k by (cases v) (simp_all add: json_get_def)
  then have q: "requested_model (parse body) = []" using assms by (simp add: requested_model_def str_or_empty_def as_str_def)
  have "with_model (Some (ro_model ro)) v = None" using a by (cases v) (simp_all add: with_model_def index_set_def)
  then show "shape_body parse enc body_len body ro (requested_model (parse body)) wanted policy tc vendor = None"
    using a assms q by (simp add: shape_body_def Let_def shape_value_def)
qed

section \<open>The order of the two passes\<close>

definition mark_name :: "rstr option \<times> json option \<times> json option \<times> json option \<times> json option \<Rightarrow> rstr list" where
  "mark_name mark = (if fst mark = Some (lit ''tool_use'') then case as_str (fst (snd mark)) of Some n \<Rightarrow> [n] | None \<Rightarrow> [] else [])"

lemma message_calls_marks: "message_calls m = concat (map mark_name (call_marks m))"
proof -
  have "concat (map called_name bs) = concat (map mark_name (map call_mark (filter is_call bs)))" for bs
    by (induction bs) (auto simp: called_name_def mark_name_def call_mark_def is_call_def split: option.splits)
  then show ?thesis by (simp add: message_calls_def call_marks_def split: option.splits)
qed

lemma concat_marks: "concat (map message_calls ms) = concat (map mark_name (concat (map call_marks ms)))"
  by (induction ms) (simp_all add: message_calls_marks)

lemma compact_body_messages:
  assumes "is_obj v" "json_get (lit ''messages'') v = Some (JArr ms)"
  shows "body_messages (fst (compact_body json_len v level)) = fst (compact_messages json_len level ms)"
  unfolding compact_body_set [OF assms] by (rule body_messages_set [OF assms(1)])

lemma compact_body_no_messages: "as_array (json_get (lit ''messages'') v) = None \<Longrightarrow> fst (compact_body json_len v level) = v"
  by (simp add: compact_body_def)

text \<open>The tools sent do not depend on the pass that runs first: compaction elides results and never a call, so narrowing the tools
  before it protects the same names, sends the same request and reports the same.
\<close>

theorem passes_commute:
  assumes "is_obj v" "\<And>m. m \<in> set (body_messages v) \<Longrightarrow> is_notice m \<Longrightarrow> call_marks m = []"
  shows "\<exists>a b r. apply_policy v p tc = Some (a, r) \<and> apply_policy (fst (compact_body json_len v level)) p tc = Some (b, r) \<and>
    (\<forall>k. json_get k (fst (compact_body json_len a level)) = json_get k b)"
proof (cases "as_array (json_get (lit ''messages'') v)")
  case None
  obtain a r where a: "apply_policy v p tc = Some (a, r)" "json_get (lit ''messages'') a = json_get (lit ''messages'') v"
    using apply_policy_agree [of v v p tc] assms(1) by (auto simp: agree_def)
  then have "fst (compact_body json_len a level) = a" using None by (simp add: compact_body_no_messages)
  then show ?thesis using a(1) compact_body_no_messages [OF None, of json_len level] by simp
next
  case (Some ms)
  then have ms: "json_get (lit ''messages'') v = Some (JArr ms)" by (auto simp: as_array_def split: option.splits json.splits)
  let ?w = "fst (compact_body json_len v level)" and ?C = "fst (compact_messages json_len level ms)"
  have w: "?w = set_field (lit ''messages'') (JArr ?C) v" by (rule compact_body_set [OF assms(1) ms])
  have m: "body_messages v = ms" using Some by (simp add: body_messages_def)
  have ag: "agree v ?w" using assms(1) by (simp add: w agree_def get_set_obj)
  have "concat (map call_marks ?C) = concat (map call_marks ms)" by (rule compact_marks) (use assms(2) m in auto)
  then have "referenced_names ?w = referenced_names v"
    unfolding referenced_as compact_body_messages [OF assms(1) ms] m concat_marks by simp
  then have "protected_names v = protected_names ?w" using agree_forced [OF ag] by (simp add: protected_names_def)
  from apply_policy_agree [OF ag this, of p tc] obtain a b r where ab: "apply_policy v p tc = Some (a, r)" "apply_policy ?w p tc = Some (b, r)"
      "agree a b" "json_get (lit ''messages'') a = Some (JArr ms)" "json_get (lit ''messages'') b = Some (JArr ?C)"
    using ms assms(1) by (auto simp: w get_set_obj)
  have o: "is_obj a" using ab(3) by (simp add: agree_def)
  have "json_get k (fst (compact_body json_len a level)) = json_get k b" for k
    unfolding compact_body_set [OF o ab(4)] using ab(3,5) by (cases "k = lit ''messages''") (auto simp: agree_def get_set_obj)
  then show ?thesis using ab(1,2) by blast
qed

section \<open>The proxy's note and the provider's stamp\<close>

lemma message_calls_append: "message_calls (append_note m (text_block txt)) = message_calls m" if "is_obj m"
  using that by (auto simp: message_calls_def append_note_def blocks_def as_array_def get_set_obj called_name_def block_type_def text_block_def
      json_get_obj as_str_def split: option.splits json.splits)

lemma noted_unfold: "ms \<noteq> [] \<Longrightarrow> ms = butlast ms @ [last ms]"
  by simp

text \<open>What the proxy fetches reaches the model as an aside of the caller: every message before the last is as it was, the last keeps its role
  and the prose and the blocks it had, a message is added only behind a turn that is not the caller's, and no call is added.
\<close>

theorem note_is_an_aside:
  assumes "is_obj v" "json_get (lit ''messages'') v = Some (JArr ms)" "\<And>m. m \<in> set ms \<Longrightarrow> is_obj m"
  shows "\<exists>sent note. json_get (lit ''messages'') (inject_note v txt) = Some (JArr sent) \<and>
    (\<forall>k. k \<noteq> lit ''messages'' \<longrightarrow> json_get k (inject_note v txt) = json_get k v) \<and>
    (if ends_on_user ms
     then butlast sent = butlast ms \<and> length sent = length ms \<and> as_str (json_get (lit ''role'') (last sent)) = Some (lit ''user'') \<and>
       (\<forall>bs. blocks (last ms) = Some bs \<longrightarrow> blocks (last sent) = Some (bs @ [note])) \<and>
       (\<forall>s. json_get (lit ''content'') (last ms) = Some (JStr s) \<longrightarrow> blocks (last sent) = Some [text_block s, note])
     else \<exists>m. sent = ms @ [m] \<and> as_str (json_get (lit ''role'') m) = Some (lit ''user'')) \<and>
    referenced_names (inject_note v txt) = referenced_names v"
proof -
  let ?sent = "noted_messages txt ms" and ?note = "text_block (cloudflare_ips @ [58, 10] @ txt)"
  have v: "inject_note v txt = set_field (lit ''messages'') (JArr ?sent) v" using assms(2) by (simp add: inject_note_def as_array_def)
  have m: "body_messages v = ms" using assms(2) by (simp add: body_messages_def as_array_def)
  have calls: "concat (map message_calls ?sent) = concat (map message_calls ms)"
  proof (cases "ends_on_user ms")
    case True
    then have ne: "ms \<noteq> []" by (simp add: ends_on_user_def)
    then have "message_calls (append_note (last ms) ?note) = message_calls (last ms)" by (intro message_calls_append assms(3)) simp
    then have "concat (map message_calls ?sent) = concat (map message_calls (butlast ms @ [last ms]))"
      using True by (simp add: noted_messages_def Let_def)
    then show ?thesis using ne by simp
  next
    case False
    then show ?thesis
      by (simp add: noted_messages_def Let_def message_calls_def blocks_def json_get_obj as_array_def called_name_def block_type_def text_block_def as_str_def)
  qed
  have "if ends_on_user ms
     then butlast ?sent = butlast ms \<and> length ?sent = length ms \<and> as_str (json_get (lit ''role'') (last ?sent)) = Some (lit ''user'') \<and>
       (\<forall>bs. blocks (last ms) = Some bs \<longrightarrow> blocks (last ?sent) = Some (bs @ [?note])) \<and>
       (\<forall>s. json_get (lit ''content'') (last ms) = Some (JStr s) \<longrightarrow> blocks (last ?sent) = Some [text_block s, ?note])
     else \<exists>m. ?sent = ms @ [m] \<and> as_str (json_get (lit ''role'') m) = Some (lit ''user'')"
  proof (cases "ends_on_user ms")
    case True
    then have ne: "ms \<noteq> []" and role: "as_str (json_get (lit ''role'') (last ms)) = Some (lit ''user'')" by (simp_all add: ends_on_user_def)
    have o: "is_obj (last ms)" using ne assms(3) by simp
    have s: "?sent = butlast ms @ [append_note (last ms) ?note]" using True by (simp add: noted_messages_def Let_def)
    show ?thesis unfolding s using True ne role o
      by (auto simp: append_note_def get_set_obj blocks_def as_array_def split: option.splits json.splits)
  next
    case False
    then show ?thesis by (simp add: noted_messages_def Let_def json_get_obj as_str_def)
  qed
  moreover have "referenced_names (inject_note v txt) = referenced_names v"
    unfolding referenced_as v body_messages_set [OF assms(1)] m calls by simp
  ultimately show ?thesis unfolding v using assms(1) by (intro exI [of _ ?sent] exI [of _ ?note]) (simp add: get_set_obj)
qed

lemma to_chat_user_id: "json_get (lit ''user_id'') (to_chat json_text v) = None"
  by (simp add: to_chat_def Let_def get_set_obj get_copied json_get_obj split: option.splits list.splits)

lemma inject_note_obj [simp]: "is_obj (inject_note v txt) = is_obj v"
  by (simp add: inject_note_def split: option.splits)

lemma inject_other: "k \<noteq> lit ''messages'' \<Longrightarrow> json_get k (fst (inject v names fetched now cache)) = json_get k v"
  by (auto simp: inject_def inject_note_def get_set_other case_prod_unfold Let_def split: option.splits)

lemma inject_obj [simp]: "is_obj (fst (inject v names fetched now cache)) = is_obj v"
  by (auto simp: inject_def case_prod_unfold Let_def)

text \<open>A provider is told the user it is configured with and never the one the client named: a chat-completions body carries the
  provider's attribution or none, and a Messages body whose \<open>metadata\<close> is an object or absent carries the provider's.
\<close>

theorem attribution_is_the_providers:
  "(\<exists>w. snd (fst (upstream_body parse enc json_text Openai sub_pq body local attribution fetched now cache)) = enc w \<and>
      json_get (lit ''user_id'') w = map_option JStr attribution) \<and>
   (parse body = Some v \<longrightarrow> is_obj v \<longrightarrow> (\<forall>x. json_get (lit ''metadata'') v = Some x \<longrightarrow> is_obj x) \<longrightarrow>
    (\<exists>w. snd (fst (upstream_body parse enc json_text Anthropic sub_pq body local (Some i) fetched now cache)) = enc w \<and>
      Option.bind (json_get (lit ''metadata'') w) (json_get (lit ''user_id'')) = Some (JStr i)))"
proof (intro conjI impI)
  have "is_obj (to_chat json_text u)" for u
    by (simp add: to_chat_def Let_def split: option.splits list.splits)
  then show "\<exists>w. snd (fst (upstream_body parse enc json_text Openai sub_pq body local attribution fetched now cache)) = enc w \<and>
    json_get (lit ''user_id'') w = map_option JStr attribution"
    by (cases attribution) (auto simp: upstream_body_def Let_def case_prod_unfold stamp_user_id_def to_chat_user_id get_set_obj)
next
  assume a: "parse body = Some v" "is_obj v" "\<forall>x. json_get (lit ''metadata'') v = Some x \<longrightarrow> is_obj x"
  let ?u = "fst (inject v local fetched now cache)"
  have u: "is_obj ?u" "json_get (lit ''metadata'') ?u = json_get (lit ''metadata'') v" using a(2) by (simp_all add: inject_other)
  have "Option.bind (json_get (lit ''metadata'') (stamp_user_id ?u Anthropic (Some i))) (json_get (lit ''user_id'')) = Some (JStr i)"
  proof (cases "json_get (lit ''metadata'') v")
    case None
    then show ?thesis using u by (simp add: stamp_user_id_def get_set_obj json_get_obj)
  next
    case (Some x)
    then obtain m where "x = JObj m" using a(3) by (cases x) auto
    then show ?thesis using u Some by (simp add: stamp_user_id_def get_set_obj)
  qed
  moreover have "snd (fst (upstream_body parse enc json_text Anthropic sub_pq body local (Some i) fetched now cache)) =
      enc (stamp_user_id ?u Anthropic (Some i))"
    using a(1) by (simp add: upstream_body_def Let_def case_prod_unfold)
  ultimately show "\<exists>w. snd (fst (upstream_body parse enc json_text Anthropic sub_pq body local (Some i) fetched now cache)) = enc w \<and>
      Option.bind (json_get (lit ''metadata'') w) (json_get (lit ''user_id'')) = Some (JStr i)"
    by blast
qed

section \<open>Shaping: instances\<close>

lemma sample_obj [simp]: "is_obj (sample_body ms)" "json_get (lit ''messages'') (sample_body ms) = Some (JArr ms)" "is_obj plain_turn" "is_obj (call_turn n)"
  by (simp_all add: sample_body_def json_get_obj plain_turn_def call_turn_def)

lemma plain_turn_facts: "has_block kind plain_turn = False" "is_notice plain_turn = False" "is_notice (call_turn n) = False"
    "as_str (json_get (lit ''role'') plain_turn) = Some (lit ''user'')"
  by (simp_all add: has_block_def blocks_def is_notice_def plain_turn_def call_turn_def json_get_obj as_array_def as_str_def)

theorem shaped_prefix_stable_witness:
  "\<exists>out later sent st st' r.
    shape_value (\<lambda>_. 100000) (Some (lit ''glm'')) CompactAll (Some narrow_policy) False VOpenai (lit ''glm'') (sample_body [call_turn ''Bash'']) =
      Some (out, st, r) \<and>
    shape_value (\<lambda>_. 100000) (Some (lit ''glm'')) CompactAll (Some narrow_policy) False VOpenai (lit ''glm'')
      (set_field (lit ''messages'') (JArr [call_turn ''Bash'', plain_turn]) (sample_body [call_turn ''Bash''])) = Some (later, st', r) \<and>
    json_get (lit ''messages'') out = Some (JArr sent) \<and> json_get (lit ''messages'') later = Some (JArr (sent @ [plain_turn]))"
proof -
  have b: "\<not> batch_due (has_block kind) ms plain_turn" for kind ms by (simp add: batch_due_def plain_turn_facts)
  have n: "\<not> is_notice plain_turn" "\<not> has_block (lit ''tool_use'') plain_turn" by (simp_all add: plain_turn_facts)
  show ?thesis
    using shaped_prefix_stable [of "sample_body [call_turn ''Bash'']" "[call_turn ''Bash'']" plain_turn "\<lambda>_. 100000" "Some (lit ''glm'')" CompactAll
        "Some narrow_policy" False VOpenai "lit ''glm''"] b n by simp blast
qed

theorem shaped_calls_resolve_witness:
  "\<exists>out st r sent. shape_value (\<lambda>_. 100000) None CompactNone (Some narrow_policy) False VOpenai (lit ''glm'') (sample_body [call_turn ''Bash'']) =
      Some (out, st, r) \<and> as_array (json_get (lit ''tools'') out) = Some sent \<and> lit ''Bash'' \<in> set (tool_names sent)"
proof -
  let ?v = "sample_body [call_turn ''Bash'']"
  obtain w r where w: "governed (Some narrow_policy) False ?v = Some (w, r)" "\<forall>k. k \<noteq> lit ''tools'' \<longrightarrow> json_get k w = json_get k ?v"
    using governed_obj [OF sample_obj(1)] by blast
  let ?out = "apply_identity w VOpenai (lit ''glm'')"
  have s: "shape_value (\<lambda>_. 100000) None CompactNone (Some narrow_policy) False VOpenai (lit ''glm'') ?v = Some (?out, no_stats, r)"
    using w(1) by (simp add: shape_value_def with_model_def compact_body_def)
  have k: "json_get (lit ''messages'') w = json_get (lit ''messages'') ?v" "json_get (lit ''tool_choice'') ?out = json_get (lit ''tool_choice'') ?v"
    using w(2) by (simp_all add: apply_identity_other)
  have "protected_names ?out = protected_names ?v"
    unfolding protected_names_def referenced_names_def body_messages_def forced_name_def apply_identity_messages k ..
  then show ?thesis
    using shaped_calls_resolve [OF sample_obj(1) sample_body_facts(1) _ _ s, of "tool_def ''Bash'' ''b''" "lit ''Bash''"] s
    by (simp add: sample_body_facts)
qed

theorem judge_is_not_reshaped_witness:
  "\<exists>w. shape_body Some (\<lambda>v. v) (\<lambda>_. 1) (sample_body [])
      \<lparr>ro_provider = lit ''p'', ro_model = lit ''m'', ro_class = Fast, ro_kind = KClassifier, ro_changed_from = None, ro_reason = None\<rparr>
      (lit ''asked'') CompactAll narrow_policy True VOpenai = Some (w, None, []) \<and>
    json_get (lit ''messages'') w = Some (JArr [])"
  using judge_is_not_reshaped [of "\<lparr>ro_provider = lit ''p'', ro_model = lit ''m'', ro_class = Fast, ro_kind = KClassifier, ro_changed_from = None,
      ro_reason = None\<rparr>" Some "sample_body []" "sample_body []" "\<lambda>v. v" "\<lambda>_. 1" "lit ''asked''" CompactAll narrow_policy True VOpenai]
  by auto

theorem shaping_panics_on_arrays_only_witness:
  "shape_body Some (\<lambda>v. v) (\<lambda>_. 1) (JArr [])
      \<lparr>ro_provider = lit ''p'', ro_model = lit ''m'', ro_class = Fast, ro_kind = KWork, ro_changed_from = None, ro_reason = None\<rparr>
      (requested_model (Some (JArr []))) CompactNone narrow_policy True VOpenai = None"
  using shaping_panics_on_arrays_only [of Some "JArr []" "JArr []" "\<lambda>v. v" "\<lambda>_. 1" "\<lparr>ro_provider = lit ''p'', ro_model = lit ''m'', ro_class = Fast,
      ro_kind = KWork, ro_changed_from = None, ro_reason = None\<rparr>"]
  by (simp add: lit_def)

theorem passes_commute_witness:
  "\<exists>a b r. apply_policy (sample_body [call_turn ''Bash'']) narrow_policy True = Some (a, r) \<and>
    apply_policy (fst (compact_body (\<lambda>_. 100000) (sample_body [call_turn ''Bash'']) CompactAll)) narrow_policy True = Some (b, r) \<and>
    (\<forall>k. json_get k (fst (compact_body (\<lambda>_. 100000) a CompactAll)) = json_get k b)"
proof (rule passes_commute)
  fix m assume "m \<in> set (body_messages (sample_body [call_turn ''Bash'']))" "is_notice m"
  then show "call_marks m = []" by (auto simp: body_messages_def as_array_def plain_turn_facts)
qed simp

theorem note_is_an_aside_witness:
  "\<exists>sent. json_get (lit ''messages'') (inject_note (sample_body [plain_turn]) (lit ''10.0.0.0/8'')) = Some (JArr sent) \<and> length sent = 1"
proof -
  have "ends_on_user [plain_turn]" by (simp add: ends_on_user_def plain_turn_facts)
  then show ?thesis using note_is_an_aside [of "sample_body [plain_turn]" "[plain_turn]" "lit ''10.0.0.0/8''"] by auto
qed

theorem attribution_is_the_providers_witness:
  "\<exists>w. snd (fst (upstream_body Some (\<lambda>v. v) (\<lambda>_. []) Anthropic [] (sample_body []) [] (Some (lit ''u1'')) (Inl []) 0 None)) = w \<and>
    Option.bind (json_get (lit ''metadata'') w) (json_get (lit ''user_id'')) = Some (JStr (lit ''u1''))"
proof -
  have "json_get (lit ''metadata'') (sample_body []) = None" by (simp add: sample_body_def json_get_obj)
  then show ?thesis
    using attribution_is_the_providers [of Some "\<lambda>v. v" "\<lambda>_. []" "[]" "sample_body []" "[]" "Some (lit ''u1'')" "Inl []" 0 None "sample_body []" "lit ''u1''"]
    by simp
qed

end
