(* ===== verification/Ssh_Tool.thy ===== *)
theory Ssh_Tool
  imports Session_Tools
begin

text \<open>
  The \<^verbatim>\<open>SSH\<close> tool (\<^verbatim>\<open>src/crates/catbus-agent/src/tools/ssh.rs\<close>): reading an address, the two lists of the
  identity file, the argument vectors of \<^verbatim>\<open>ssh\<close> and \<^verbatim>\<open>ssh-keyscan\<close>, and the keys appended to
  \<^verbatim>\<open>known_hosts\<close>. What the two programs do with their arguments is theirs.
\<close>

section \<open>Addresses\<close>

record target =
  tg_host :: rstr
  tg_port :: "nat option"

datatype ssh_error =
    HostRequired
  | HostTooLong nat
  | HostIsOption rstr
  | BracketOpen rstr
  | NotBracketed rstr
  | NotIpv6 rstr
  | HostEmpty
  | HostCharacters rstr
  | PortEmpty
  | PortNotDigits rstr
  | PortRange rstr
  | PortZero
  | NotPermitted target "rstr list"
  | JumpNotGranted target "rstr list option"
  | MissingAction
  | MissingHost
  | UnknownAction rstr
  | MissingCommand
  | NoKeys

definition is_ascii_hexdigit :: "rchar \<Rightarrow> bool" where
  "is_ascii_hexdigit c \<longleftrightarrow> is_ascii_digit c \<or> (65 \<le> c \<and> c \<le> 70) \<or> (97 \<le> c \<and> c \<le> 102)"

text \<open>\<^verbatim>\<open>:\<close> is 58, \<^verbatim>\<open>.\<close> 46, \<^verbatim>\<open>-\<close> 45, \<^verbatim>\<open>_\<close> 95, \<^verbatim>\<open>[\<close> 91, \<^verbatim>\<open>]\<close> 93.\<close>

definition is_ipv6 :: "rstr \<Rightarrow> bool" where
  "is_ipv6 s \<longleftrightarrow> s \<noteq> [] \<and> 58 \<in> set s \<and> list_all (\<lambda>c. is_ascii_hexdigit c \<or> c = 58 \<or> c = 46) s"

definition host_char :: "rchar \<Rightarrow> bool" where
  "host_char c \<longleftrightarrow> is_ascii_alphanumeric c \<or> c = 46 \<or> c = 45 \<or> c = 95"

definition check_hostname :: "rstr \<Rightarrow> ssh_error option" where
  "check_hostname host =
     (if host = [] then Some HostEmpty
      else if byte_len host > 253 then Some (HostTooLong (byte_len host))
      else if \<not> list_all host_char host then Some (HostCharacters host) else None)"

definition parse_port :: "rstr \<Rightarrow> ssh_error + nat" where
  "parse_port raw =
     (if raw = [] then Inl PortEmpty
      else if \<not> list_all is_ascii_digit raw then Inl (PortNotDigits raw)
      else case parse_uint 65535 raw of
             None \<Rightarrow> Inl (PortRange raw)
           | Some port \<Rightarrow> if port = 0 then Inl PortZero else Inr port)"

definition parse_target :: "rstr \<Rightarrow> ssh_error + target" where
  "parse_target given =
     (let raw = trim given
      in if raw = [] then Inl HostRequired
         else if byte_len raw > 253 then Inl (HostTooLong (byte_len raw))
         else if starts_with raw [45] then Inl (HostIsOption raw)
         else case strip_prefix [91] raw of
                Some rest \<Rightarrow>
                  (case split_once 93 rest of
                     None \<Rightarrow> Inl (BracketOpen raw)
                   | Some (host, behind_bracket) \<Rightarrow>
                       if \<not> is_ipv6 host then Inl (NotBracketed host)
                       else if behind_bracket = [] then Inr \<lparr>tg_host = host, tg_port = None\<rparr>
                       else map_sum id (\<lambda>p. \<lparr>tg_host = host, tg_port = Some p\<rparr>) (parse_port (dropWhile (\<lambda>c. c = 58) behind_bracket)))
              | None \<Rightarrow>
                  (case split_once 58 raw of
                     None \<Rightarrow>
                       (case check_hostname raw of Some e \<Rightarrow> Inl e | None \<Rightarrow> Inr \<lparr>tg_host = raw, tg_port = None\<rparr>)
                   | Some (host, port) \<Rightarrow>
                       if 58 \<in> set port then
                         (if is_ipv6 raw then Inr \<lparr>tg_host = raw, tg_port = None\<rparr> else Inl (NotIpv6 raw))
                       else (case check_hostname host of
                               Some e \<Rightarrow> Inl e
                             | None \<Rightarrow> map_sum id (\<lambda>p. \<lparr>tg_host = host, tg_port = Some p\<rparr>) (parse_port port))))"

definition display_target :: "target \<Rightarrow> rstr" where
  "display_target t =
     (case tg_port t of
        Some port \<Rightarrow> if 58 \<in> set (tg_host t) then [91] @ tg_host t @ [93, 58] @ show_nat port else tg_host t @ [58] @ show_nat port
      | None \<Rightarrow> tg_host t)"

section \<open>The two lists\<close>

definition matches_list :: "rstr \<Rightarrow> rstr list \<Rightarrow> bool" where
  "matches_list host entries =
     list_ex (\<lambda>entry.
       (let entry = to_ascii_lowercase (trim entry)
        in case strip_prefix [42, 46] entry of
             None \<Rightarrow> entry = to_ascii_lowercase host
           | Some domain \<Rightarrow> ends_with (to_ascii_lowercase host) (46 # domain))) entries"

definition permitted :: "target \<Rightarrow> rstr list option \<Rightarrow> ssh_error option" where
  "permitted t allowed =
     (case allowed of
        None \<Rightarrow> None
      | Some entries \<Rightarrow> if matches_list (tg_host t) entries then None else Some (NotPermitted t entries))"

definition permits_jump :: "target \<Rightarrow> rstr list option \<Rightarrow> ssh_error option" where
  "permits_jump t allowed =
     (case allowed of
        Some entries \<Rightarrow> if matches_list (tg_host t) entries then None else Some (JumpNotGranted t allowed)
      | None \<Rightarrow> Some (JumpNotGranted t None))"

section \<open>What is started\<close>

definition read_jump :: "json \<Rightarrow> ssh_error + target option" where
  "read_jump input =
     (case map_option trim (as_str (json_get (lit ''jump'') input)) of
        None \<Rightarrow> Inr None
      | Some raw \<Rightarrow> if raw = [] then Inr None else map_sum id Some (parse_target raw))"

definition ssh_args :: "target \<Rightarrow> target option \<Rightarrow> bool \<Rightarrow> nat \<Rightarrow> rstr list" where
  "ssh_args t jump forward_agent connect_timeout =
     [lit ''-T'', if forward_agent then lit ''-A'' else lit ''-a'', lit ''-o'', lit ''BatchMode=yes'', lit ''-o'',
      lit ''ConnectTimeout='' @ show_nat connect_timeout, lit ''-o'', lit ''StrictHostKeyChecking=yes'']
     @ (case jump of Some j \<Rightarrow> [lit ''-J'', display_target j] | None \<Rightarrow> [])
     @ (case tg_port t of Some port \<Rightarrow> [lit ''-p'', show_nat port] | None \<Rightarrow> [])
     @ [tg_host t]"

definition keyscan_args :: "target \<Rightarrow> rstr list" where
  "keyscan_args t =
     [lit ''-T'', show_nat 10] @ (case tg_port t of Some port \<Rightarrow> [lit ''-p'', show_nat port] | None \<Rightarrow> []) @ [tg_host t]"

text \<open>The program, its arguments and the seconds it is given.\<close>

datatype ssh_start = RunSsh "rstr list" nat | RunKeyscan "rstr list" nat

definition ssh_command :: "json \<Rightarrow> target \<Rightarrow> target option \<Rightarrow> bool \<Rightarrow> ssh_error + ssh_start" where
  "ssh_command input t jump forward_agent =
     (case map_option trim (as_str (json_get (lit ''command'') input)) of
        None \<Rightarrow> Inl MissingCommand
      | Some remote \<Rightarrow>
          if remote = [] then Inl MissingCommand
          else Inr (RunSsh (ssh_args t jump forward_agent 10 @ [remote])
                 (case as_u64 (json_get (lit ''timeout_secs'') input) of None \<Rightarrow> 120 | Some s \<Rightarrow> min s 1800)))"

definition run_ssh :: "json \<Rightarrow> ssh_error + ssh_start" where
  "run_ssh input =
     (case as_str (json_get (lit ''action'') input) of
        None \<Rightarrow> Inl MissingAction
      | Some action \<Rightarrow>
          (case as_str (json_get (lit ''host'') input) of
             None \<Rightarrow> Inl MissingHost
           | Some host \<Rightarrow>
               (case parse_target host of
                  Inl e \<Rightarrow> Inl e
                | Inr t \<Rightarrow>
                    (case read_jump input of
                       Inl e \<Rightarrow> Inl e
                     | Inr jump \<Rightarrow>
                         if action = lit ''command'' then
                           ssh_command input t jump (json_get (lit ''forward_agent'') input = Some (JBool True))
                         else if action = lit ''keyscan'' then Inr (RunKeyscan (keyscan_args t) 15)
                         else Inl (UnknownAction action)))))"

definition run_allowed :: "json \<Rightarrow> ssh_policy \<Rightarrow> ssh_error + ssh_start" where
  "run_allowed input policy =
     (case (case as_str (json_get (lit ''host'') input) of
              None \<Rightarrow> None
            | Some host \<Rightarrow>
                (case parse_target host of Inl e \<Rightarrow> Some e | Inr t \<Rightarrow> permitted t (allowed_hosts policy))) of
        Some e \<Rightarrow> Inl e
      | None \<Rightarrow>
          (case read_jump input of
             Inl e \<Rightarrow> Inl e
           | Inr jump \<Rightarrow>
               (case Option.bind jump (\<lambda>j. permits_jump j (allowed_jump_hosts policy)) of
                  Some e \<Rightarrow> Inl e
                | None \<Rightarrow> run_ssh input)))"

section \<open>Trusted keys\<close>

fun words_from :: "rstr \<Rightarrow> rstr \<Rightarrow> rstr list" where
  "words_from acc [] = (if acc = [] then [] else [rev acc])"
| "words_from acc (c # cs) =
     (if is_whitespace c then (if acc = [] then words_from [] cs else rev acc # words_from [] cs)
      else words_from (c # acc) cs)"

definition split_whitespace :: "rstr \<Rightarrow> rstr list" where
  "split_whitespace s = words_from [] s"

definition is_host_key_line :: "rstr \<Rightarrow> bool" where
  "is_host_key_line line =
     (case split_whitespace line of
        address # key_kind # key # _ \<Rightarrow>
          starts_with key_kind (lit ''ssh-'') \<or> starts_with key_kind (lit ''ecdsa-'') \<or> starts_with key_kind (lit ''sk-'')
      | _ \<Rightarrow> False)"

definition usable_keys :: "rstr \<Rightarrow> rstr list" where
  "usable_keys stdout =
     filter is_host_key_line (filter (\<lambda>l. l \<noteq> [] \<and> \<not> starts_with l [35]) (map trim (str_lines stdout)))"

text \<open>
  \<^verbatim>\<open>trust_keys_in\<close>: \<open>existing\<close> is what reading \<^verbatim>\<open>known_hosts\<close> gave, \<open>None\<close> when it failed for any reason; the
  result is what is appended, and how many lines were added and known.
\<close>

definition trust_keys :: "rstr option \<Rightarrow> rstr list \<Rightarrow> ssh_error + rstr \<times> nat \<times> nat" where
  "trust_keys existing usable =
     (if usable = [] then Inl NoKeys
      else
        (let text = (case existing of Some t \<Rightarrow> t | None \<Rightarrow> []);
             already = set (map trim (str_lines text));
             fresh = filter (\<lambda>l. l \<notin> already) usable
         in Inr ((if fresh = [] then [] else (if text \<noteq> [] \<and> last text \<noteq> 10 then [10] else []) @ written_lines fresh),
                 length fresh, length usable - length fresh)))"

section \<open>Lemmas\<close>

definition safe_host :: "rstr \<Rightarrow> bool" where
  "safe_host host \<longleftrightarrow> host \<noteq> [] \<and> \<not> starts_with host [45] \<and> list_all (\<lambda>c. host_char c \<or> c = 58) host"

lemma ipv6_chars: "is_ipv6 s \<Longrightarrow> list_all (\<lambda>c. host_char c \<or> c = 58) s"
  by (auto simp: is_ipv6_def list_all_iff host_char_def is_ascii_hexdigit_def is_ascii_alphanumeric_def is_ascii_digit_def)

lemma ipv6_no_dash: "is_ipv6 s \<Longrightarrow> \<not> starts_with s [45]"
  by (cases s) (auto simp: is_ipv6_def starts_with_def is_ascii_hexdigit_def is_ascii_digit_def)

lemma hostname_chars: "check_hostname s = None \<Longrightarrow> s \<noteq> [] \<and> list_all (\<lambda>c. host_char c \<or> c = 58) s"
  by (auto simp: check_hostname_def list_all_iff split: if_splits)

lemma head_no_dash: "\<not> starts_with (a @ b) [45] \<Longrightarrow> a \<noteq> [] \<Longrightarrow> \<not> starts_with a [45]"
  by (cases a) (auto simp: starts_with_def)

lemma parse_target_safe:
  assumes "parse_target given = Inr t"
  shows "safe_host (tg_host t)"
proof -
  let ?raw = "trim given"
  have raw: "?raw \<noteq> []" "\<not> starts_with ?raw [45]" using assms by (auto simp: parse_target_def Let_def split: if_splits)
  show ?thesis
  proof (cases "strip_prefix [91] ?raw")
    case (Some rest)
    then obtain host behind_bracket where "split_once 93 rest = Some (host, behind_bracket)" and v: "is_ipv6 host"
      using assms raw by (cases "split_once 93 rest") (auto simp: parse_target_def Let_def split: if_splits)
    then have "tg_host t = host"
      using assms raw Some by (cases "parse_port (dropWhile (\<lambda>c. c = 58) behind_bracket)") (auto simp: parse_target_def Let_def split: if_splits)
    then show ?thesis using v ipv6_chars ipv6_no_dash by (auto simp: safe_host_def is_ipv6_def)
  next
    case none: None
    show ?thesis
    proof (cases "split_once 58 ?raw")
      case None
      then have "tg_host t = ?raw" "check_hostname ?raw = None"
        using assms raw none by (auto simp: parse_target_def Let_def split: if_splits option.splits)
      then show ?thesis using raw hostname_chars by (simp add: safe_host_def)
    next
      case (Some p)
      obtain host port where p: "p = (host, port)" by (cases p)
      then have split: "?raw = host @ 58 # port" using Some by (simp add: split_once_Some)
      show ?thesis
      proof (cases "58 \<in> set port")
        case True
        then have "tg_host t = ?raw" "is_ipv6 ?raw"
          using assms raw none Some p by (auto simp: parse_target_def Let_def split: if_splits)
        then show ?thesis using raw ipv6_chars by (simp add: safe_host_def)
      next
        case False
        then have c: "check_hostname host = None"
          using assms raw none Some p by (auto simp: parse_target_def Let_def split: if_splits option.splits)
        then have "tg_host t = host"
          using assms raw none Some p False
          by (cases "parse_port port") (auto simp: parse_target_def Let_def split: if_splits)
        then show ?thesis using hostname_chars [OF c] head_no_dash [of host "58 # port"] raw split by (simp add: safe_host_def)
      qed
    qed
  qed
qed

lemma read_jump_safe: "read_jump input = Inr (Some j) \<Longrightarrow> safe_host (tg_host j)"
proof -
  assume r: "read_jump input = Inr (Some j)"
  then obtain raw where "as_str (json_get (lit ''jump'') input) = Some raw" "trim raw \<noteq> []"
    by (auto simp: read_jump_def split: option.splits if_splits)
  with r have "parse_target (trim raw) = Inr j" by (cases "parse_target (trim raw)") (auto simp: read_jump_def)
  then show ?thesis by (rule parse_target_safe)
qed

text \<open>What a started command came from.\<close>

lemma run_allowed_RunSsh:
  assumes "run_allowed input policy = Inr (RunSsh argv secs)"
  obtains host t jump remote where "as_str (json_get (lit ''host'') input) = Some host" "parse_target host = Inr t"
    "permitted t (allowed_hosts policy) = None" "read_jump input = Inr jump"
    "Option.bind jump (\<lambda>j. permits_jump j (allowed_jump_hosts policy)) = None"
    "as_str (json_get (lit ''action'') input) = Some (lit ''command'')"
    "argv = ssh_args t jump (json_get (lit ''forward_agent'') input = Some (JBool True)) 10 @ [remote]" "secs \<le> 1800"
    "secs = (case as_u64 (json_get (lit ''timeout_secs'') input) of None \<Rightarrow> 120 | Some s \<Rightarrow> min s 1800)"
  using assms
  by (auto simp: run_allowed_def run_ssh_def ssh_command_def split: option.splits sum.splits if_splits)

section \<open>Properties\<close>

text \<open>C17 The arguments of an \<^verbatim>\<open>ssh\<close> the tool starts name a host the identity file's list permits, a jump host only when the
  jump list grants it, each a plain address that is no option, then the remote command, and it runs for at most half an hour.
  The remote command itself is not bounded: \<open>remote_command_unguarded\<close> below has one that \<^verbatim>\<open>ssh\<close> reads as an option.\<close>

theorem ssh_stays_in_lists:
  assumes "run_allowed input policy = Inr (RunSsh argv secs)"
  shows "\<exists>t jump forward remote. argv = ssh_args t jump forward 10 @ [remote] \<and> secs \<le> 1800 \<and> safe_host (tg_host t) \<and>
    (case allowed_hosts policy of None \<Rightarrow> True | Some l \<Rightarrow> matches_list (tg_host t) l) \<and>
    (case jump of None \<Rightarrow> True
     | Some j \<Rightarrow> safe_host (tg_host j) \<and> (case allowed_jump_hosts policy of None \<Rightarrow> False | Some l \<Rightarrow> matches_list (tg_host j) l))"
  using assms
proof (rule run_allowed_RunSsh)
  fix host t jump remote
  assume t: "parse_target host = Inr t" "permitted t (allowed_hosts policy) = None"
    and j: "read_jump input = Inr jump" "Option.bind jump (\<lambda>j. permits_jump j (allowed_jump_hosts policy)) = None"
    and a: "argv = ssh_args t jump (json_get (lit ''forward_agent'') input = Some (JBool True)) 10 @ [remote]" "secs \<le> 1800"
  have "case allowed_hosts policy of None \<Rightarrow> True | Some l \<Rightarrow> matches_list (tg_host t) l"
    using t(2) by (auto simp: permitted_def split: option.splits if_splits)
  moreover have "case jump of None \<Rightarrow> True
     | Some j \<Rightarrow> safe_host (tg_host j) \<and> (case allowed_jump_hosts policy of None \<Rightarrow> False | Some l \<Rightarrow> matches_list (tg_host j) l)"
    using j read_jump_safe [of input] by (auto simp: permits_jump_def split: option.splits if_splits)
  ultimately show ?thesis using parse_target_safe [OF t(1)] a by blast
qed

lemma get_set_command:
  "json_get k (set_field c v (JObj m)) = (if k = c then Some v else json_get k (JObj m))"
  by (simp add: json_get_def set_field_def update_conv')

lemma no_separator: "safe_host (tg_host t) \<Longrightarrow> (\<And>j. jump = Some j \<Longrightarrow> safe_host (tg_host j)) \<Longrightarrow> lit ''--'' \<notin> set (ssh_args t jump fwd n)"
proof -
  assume t: "safe_host (tg_host t)" and j: "\<And>j. jump = Some j \<Longrightarrow> safe_host (tg_host j)"
  have h: "safe_host h \<Longrightarrow> lit ''--'' \<noteq> h @ r" for h r
    by (cases h) (auto simp: safe_host_def starts_with_def lit_def)
  have d: "lit ''--'' \<noteq> show_nat k" for k
  proof
    assume "lit ''--'' = show_nat k"
    then have "parse_uint k (lit ''--'') = Some k" using parse_show_nat [of k k] by simp
    then show False by (simp add: parse_uint_def parse_digits_def is_ascii_digit_def lit_def)
  qed
  have "lit ''--'' \<noteq> display_target j" if "jump = Some j" for j
    using h [OF j [OF that], of "[]"] h [OF j [OF that]] by (auto simp: display_target_def lit_def split: option.splits)
  then show ?thesis
    using d h [OF t, of "[]"] by (auto simp: ssh_args_def lit_def split: option.splits)
qed

text \<open>The remote command is an argument of its own after the host, whatever it begins with, and no \<^verbatim>\<open>--\<close> stands before it:
  a call that reaches a permitted host may put any text there, an option of \<^verbatim>\<open>ssh\<close> among them.\<close>

theorem remote_command_unguarded:
  assumes "run_allowed (JObj m) policy = Inr (RunSsh argv secs)" "trim w = w" "w \<noteq> []"
  shows "run_allowed (set_field (lit ''command'') (JStr w) (JObj m)) policy = Inr (RunSsh (butlast argv @ [w]) secs) \<and>
    lit ''--'' \<notin> set (butlast argv)"
  using assms(1)
proof (rule run_allowed_RunSsh)
  fix host t jump remote
  assume a: "as_str (json_get (lit ''host'') (JObj m)) = Some host" "parse_target host = Inr t"
    "permitted t (allowed_hosts policy) = None" "read_jump (JObj m) = Inr jump"
    "Option.bind jump (\<lambda>j. permits_jump j (allowed_jump_hosts policy)) = None"
    "as_str (json_get (lit ''action'') (JObj m)) = Some (lit ''command'')"
    "argv = ssh_args t jump (json_get (lit ''forward_agent'') (JObj m) = Some (JBool True)) 10 @ [remote]"
    "secs = (case as_u64 (json_get (lit ''timeout_secs'') (JObj m)) of None \<Rightarrow> 120 | Some s \<Rightarrow> min s 1800)"
  have j: "read_jump (set_field (lit ''command'') (JStr w) (JObj m)) = Inr jump"
    using a(4) by (simp add: read_jump_def get_set_command)
  have "jump = Some j \<Longrightarrow> safe_host (tg_host j)" for j using a(4) read_jump_safe by auto
  then have "lit ''--'' \<notin> set (butlast argv)"
    using no_separator [of t jump] parse_target_safe [OF a(2)] a(7) by auto
  then show ?thesis
    using a j assms(2,3) by (simp add: run_allowed_def run_ssh_def ssh_command_def get_set_command as_str_def)
qed

definition deploy_call :: "(rstr \<times> json) list" where
  "deploy_call = [(lit ''action'', JStr (lit ''command'')), (lit ''host'', JStr (lit ''Web.example'')), (lit ''command'', JStr (lit ''id''))]"

definition web_policy :: ssh_policy where
  "web_policy = \<lparr>allowed_hosts = Some [lit ''*.example''], allowed_jump_hosts = None\<rparr>"

lemma deploy_runs:
  "run_allowed (JObj deploy_call) web_policy =
     Inr (RunSsh (ssh_args \<lparr>tg_host = lit ''Web.example'', tg_port = None\<rparr> None False 10 @ [lit ''id'']) 120)"
proof -
  have t: "parse_target (lit ''Web.example'') = Inr \<lparr>tg_host = lit ''Web.example'', tg_port = None\<rparr>"
    by (simp add: parse_target_def check_hostname_def host_char_def is_ascii_alphanumeric_def byte_len_def utf8_def utf8_char_def
        starts_with_def trim_def trim_start_def trim_end_def is_whitespace_def lit_def)
  have p: "matches_list (lit ''Web.example'') [lit ''*.example'']"
    by (simp add: matches_list_def to_ascii_lowercase_def ends_with_def trim_def trim_start_def trim_end_def is_whitespace_def lit_def)
  have "trim (lit ''id'') = lit ''id''" by (simp add: trim_def trim_start_def trim_end_def is_whitespace_def lit_def)
  then show ?thesis
    using t p by (simp add: run_allowed_def run_ssh_def ssh_command_def read_jump_def deploy_call_def web_policy_def permitted_def
        json_get_def as_str_def as_u64_def) (simp add: lit_def)
qed

theorem ssh_stays_in_lists_witness:
  "\<exists>t jump forward remote. ssh_args \<lparr>tg_host = lit ''Web.example'', tg_port = None\<rparr> None False 10 @ [lit ''id''] =
     ssh_args t jump forward 10 @ [remote] \<and> matches_list (tg_host t) [lit ''*.example'']"
  using ssh_stays_in_lists [OF deploy_runs] by (auto simp: web_policy_def)

theorem remote_command_unguarded_witness:
  "run_allowed (set_field (lit ''command'') (JStr (lit ''-oProxyCommand=id'')) (JObj deploy_call)) web_policy =
     Inr (RunSsh (ssh_args \<lparr>tg_host = lit ''Web.example'', tg_port = None\<rparr> None False 10 @ [lit ''-oProxyCommand=id'']) 120)"
  using remote_command_unguarded [OF deploy_runs, of "lit ''-oProxyCommand=id''"]
  by (simp add: trim_def trim_start_def trim_end_def is_whitespace_def) (simp add: lit_def is_whitespace_def)

section \<open>Trusting twice\<close>

lemma last_line: "\<exists>pre l. s = pre @ l \<and> 10 \<notin> set l \<and> (pre = [] \<or> last pre = 10)"
proof (induction s)
  case Nil
  then show ?case by simp
next
  case (Cons x xs)
  then obtain pre l where p: "xs = pre @ l" "10 \<notin> set l" "pre = [] \<or> last pre = 10" by blast
  show ?case
  proof (cases "pre = [] \<and> x \<noteq> 10")
    case True
    then show ?thesis using p by (intro exI [of _ "[]"] exI [of _ "x # xs"]) auto
  next
    case False
    then show ?thesis using p by (intro exI [of _ "x # pre"] exI [of _ l]) auto
  qed
qed

lemma lone_line: "10 \<notin> set l \<Longrightarrow> l \<noteq> [] \<Longrightarrow> str_lines l = [l]"
proof -
  assume l: "10 \<notin> set l" "l \<noteq> []"
  have "10 \<notin> set m \<Longrightarrow> split_inclusive_nl acc m = (if acc = [] \<and> m = [] then [] else [rev acc @ m])" for acc m
    by (induction m arbitrary: acc) auto
  then have "split_inclusive_nl [] l = [l]" using l by simp
  moreover have "last l \<noteq> 10" using l last_in_set by metis
  ultimately show ?thesis by (simp add: str_lines_def strip_line_end_def)
qed

lemma trim_snoc: "is_whitespace c \<Longrightarrow> trim (s @ [c]) = trim s"
proof (cases "\<exists>x \<in> set s. \<not> is_whitespace x")
  case True
  then have "trim_start (s @ [c]) = trim_start s @ [c]" by (auto simp: trim_start_def dropWhile_append3 dropWhile_append1)
  then show "is_whitespace c \<Longrightarrow> trim (s @ [c]) = trim s" by (simp add: trim_def trim_end_def)
next
  case False
  then have "trim_start s = []" by (simp add: trim_start_def dropWhile_eq_Nil_conv)
  moreover from False have "is_whitespace c \<Longrightarrow> trim_start (s @ [c]) = []" by (simp add: trim_start_def dropWhile_eq_Nil_conv)
  ultimately show "is_whitespace c \<Longrightarrow> trim (s @ [c]) = trim s" by (simp add: trim_def trim_end_def)
qed

lemma trim_lines_closed:
  assumes "text \<noteq> []" "last text \<noteq> 10"
  shows "map trim (str_lines (text @ [10])) = map trim (str_lines text)"
proof -
  obtain pre l where p: "text = pre @ l" "10 \<notin> set l" "pre = [] \<or> last pre = 10" using last_line by blast
  have l: "l \<noteq> []" using p assms by auto
  have "map trim (str_lines (l @ [10])) = [trim l]"
  proof (cases "last l = 13")
    case False
    then show ?thesis using str_lines_line p l by simp
  next
    case True
    then have "l = butlast l @ [13]" using l by (metis append_butlast_last_id)
    then have "trim (butlast l) = trim l" using trim_snoc [of 13 "butlast l"] by (simp add: is_whitespace_def)
    then show ?thesis
      using p l True by (simp add: str_lines_def split_inclusive_line strip_line_end_def Let_def)
  qed
  then show ?thesis
    using p l str_lines_append [of pre l] str_lines_append [of pre "l @ [10]"] lone_line [of l] by auto
qed

text \<open>Trusting the same keys again adds nothing and counts every one of them as known.\<close>

theorem trusting_twice_adds_nothing:
  assumes "trust_keys existing usable = Inr (added, n, k)"
    and "list_all (\<lambda>l. trimmed l \<and> 10 \<notin> set l) usable"
  shows "trust_keys (Some ((case existing of Some t \<Rightarrow> t | None \<Rightarrow> []) @ added)) usable = Inr ([], 0, length usable)"
proof -
  define base where "base = (case existing of Some t \<Rightarrow> t | None \<Rightarrow> [])"
  define fresh where "fresh = filter (\<lambda>l. l \<notin> set (map trim (str_lines base))) usable"
  define sep :: rstr where "sep = (if base \<noteq> [] \<and> last base \<noteq> 10 then [10] else [])"
  have ne: "usable \<noteq> []" using assms(1) by (auto simp: trust_keys_def)
  have added: "added = (if fresh = [] then [] else sep @ written_lines fresh)"
    using assms(1) ne by (auto simp: trust_keys_def Let_def fresh_def base_def sep_def)
  have all: "u \<in> set (map trim (str_lines (base @ added)))" if u: "u \<in> set usable" for u
  proof (cases "fresh = []")
    case True
    then show ?thesis using u added by (auto simp: fresh_def filter_empty_conv)
  next
    case False
    have plain: "10 \<notin> set l \<and> (l = [] \<or> last l \<noteq> 13)" "trim l = l" if "l \<in> set fresh" for l
    proof -
      have "trimmed l" "10 \<notin> set l" using that assms(2) by (auto simp: fresh_def list_all_iff)
      then show "10 \<notin> set l \<and> (l = [] \<or> last l \<noteq> 13)" "trim l = l"
        by (auto simp: trim_trimmed) (simp add: trimmed_def is_whitespace_def)
    qed
    have "str_lines (base @ added) = str_lines (base @ sep) @ fresh"
      using False added str_lines_append [of "base @ sep" "written_lines fresh"] str_lines_concat [of fresh] plain
      by (auto simp: sep_def written_lines_def)
    moreover have "map trim (str_lines (base @ sep)) = map trim (str_lines base)"
      using trim_lines_closed [of base] by (auto simp: sep_def)
    ultimately have "map trim (str_lines (base @ added)) = map trim (str_lines base) @ map trim fresh" by simp
    moreover have "u \<in> set (map trim (str_lines base)) \<or> u \<in> set (map trim fresh)"
    proof (cases "u \<in> set fresh")
      case True
      then have "trim u \<in> set (map trim fresh)" unfolding set_map by (rule imageI)
      then show ?thesis using plain(2) [OF True] by simp
    next
      case False
      then show ?thesis using u by (simp only: fresh_def set_filter mem_Collect_eq) blast
    qed
    ultimately show ?thesis by (simp only: set_append Un_iff)
  qed
  then have "filter (\<lambda>l. l \<notin> set (map trim (str_lines (base @ added)))) usable = []" by (simp only: filter_empty_conv) blast
  then have known: "filter (\<lambda>l. l \<notin> trim ` set (str_lines (base @ added))) usable = []" by (simp only: set_map)
  have "trust_keys (Some (base @ added)) usable = Inr ([], 0, length usable)"
    unfolding trust_keys_def Let_def option.case set_map known using ne by simp
  then show ?thesis by (simp only: base_def)
qed

lemma first_trust: "trust_keys None [l] = Inr (l @ [10], 1, 0)"
proof -
  have e: "str_lines [] = []" by (simp add: str_lines_def)
  show ?thesis by (simp add: trust_keys_def written_lines_def e)
qed

lemma key_line: "trimmed (lit ''a ssh-rsa K'')" "10 \<notin> set (lit ''a ssh-rsa K'')"
  by (simp_all add: trimmed_def is_whitespace_def lit_def)

theorem trusting_twice_adds_nothing_witness:
  "trust_keys (Some (lit ''a ssh-rsa K'' @ [10])) [lit ''a ssh-rsa K''] = Inr ([], 0, 1)"
  using trusting_twice_adds_nothing [OF first_trust [of "lit ''a ssh-rsa K''"]] key_line by simp

end
