(* ===== verification/State_Store.thy ===== *)
theory State_Store
  imports Prelude
begin

text \<open>
  What the daemon keeps on disk, \<^verbatim>\<open>src/src/lib.rs\<close>: the checksum that names per-tab files, the paths, the save that
  stages, rotates and publishes, the loads that fall back to the backups, and the preferences. A disk is a map from
  paths to files; serialising and \<^verbatim>\<open>serde_json::from_str\<close> of what \<^verbatim>\<open>read_to_string\<close> gives are parameters. A save is the
  list of the disks it goes through, so that a crash is one of them; which of its system calls fail is its fate.
\<close>

section \<open>The checksum\<close>

definition crc_poly :: "32 word" where
  "crc_poly = 0xEDB88320"

definition crc_bit :: "32 word \<Rightarrow> 32 word" where
  "crc_bit c = drop_bit 1 c XOR (crc_poly AND (- (c AND 1)))"

definition crc32_table :: "32 word list" where
  "crc32_table = map (\<lambda>n. (crc_bit ^^ 8) (of_nat n)) [0..<256]"

definition crc32 :: "8 word list \<Rightarrow> 32 word" where
  "crc32 data =
     NOT (fold (\<lambda>b crc. drop_bit 8 crc XOR crc32_table ! unat ((crc XOR ucast b) AND 0xFF)) data (NOT 0))"

text \<open>The reference of the sources' tests: bit by bit, without the table.\<close>

definition bitwise_crc32 :: "8 word list \<Rightarrow> 32 word" where
  "bitwise_crc32 data = NOT (fold (\<lambda>b crc. (crc_bit ^^ 8) (crc XOR ucast b)) data (NOT 0))"

lemma crc_mask: "crc_poly AND (- (c AND 1)) = (if odd c then crc_poly else 0)"
proof -
  have "c AND 1 = of_bool (odd c)" by (simp add: and_one_eq odd_iff_mod_2_eq_one)
  then show ?thesis by simp
qed

lemma crc_bit_cases: "crc_bit c = (if odd c then drop_bit 1 c XOR crc_poly else drop_bit 1 c)"
  by (simp add: crc_bit_def crc_mask)

lemma crc_bit_xor: "crc_bit (a XOR b) = crc_bit a XOR crc_bit b"
proof -
  have "odd (a XOR b) \<longleftrightarrow> odd a \<noteq> odd b" by (simp add: even_xor_iff)
  then show ?thesis
    by (auto simp: crc_bit_cases drop_bit_xor intro!: bit_word_eqI simp: bit_xor_iff)
qed

lemma crc_bits_xor: "(crc_bit ^^ n) (a XOR b) = (crc_bit ^^ n) a XOR (crc_bit ^^ n) b"
  by (induction n) (simp_all add: crc_bit_xor)

lemma crc_bits_shift: "(\<forall>k < n. \<not> bit c k) \<Longrightarrow> (crc_bit ^^ n) c = drop_bit n c"
proof (induction n)
  case 0
  then show ?case by simp
next
  case (Suc n)
  then have e: "even (drop_bit n c)" by (simp add: bit_iff_odd_drop_bit)
  have i: "(crc_bit ^^ n) c = drop_bit n c" using Suc by simp
  have "(crc_bit ^^ Suc n) c = crc_bit (drop_bit n c)" by (simp add: i)
  also have "\<dots> = drop_bit 1 (drop_bit n c)" using e unfolding crc_bit_cases by (simp only: not_not if_False simp_thms)
  also have "\<dots> = drop_bit (Suc n) c" by (simp only: drop_bit_drop_bit) simp
  finally show ?case .
qed

lemma crc_low_byte: "unat ((w :: 32 word) AND 0xFF) < 256"
proof -
  have "(0xFF :: 32 word) = mask 8" by (simp add: mask_eq_exp_minus_1)
  then have "w AND 0xFF = take_bit 8 w" by (simp only: take_bit_eq_mask)
  then have "unat (w AND 0xFF) = take_bit 8 (unat w)" by (simp only: unsigned_take_bit_eq)
  then show ?thesis by (simp add: take_bit_eq_mod)
qed

text \<open>A byte's eight steps are one shift and one table entry.\<close>

lemma crc_table_step:
  fixes x :: "32 word"
  shows "(crc_bit ^^ 8) x = drop_bit 8 x XOR crc32_table ! unat (x AND 0xFF)"
proof -
  have m: "(0xFF :: 32 word) = mask 8" by (simp add: mask_eq_exp_minus_1)
  have split: "x = (x AND NOT (mask 8)) XOR (x AND mask 8)"
    by (rule bit_word_eqI) (auto simp: bit_xor_iff bit_and_iff bit_not_iff bit_mask_iff)
  have high: "(crc_bit ^^ 8) (x AND NOT (mask 8)) = drop_bit 8 x"
  proof -
    have "(crc_bit ^^ 8) (x AND NOT (mask 8)) = drop_bit 8 (x AND NOT (mask 8))"
      by (rule crc_bits_shift) (auto simp: bit_and_iff bit_not_iff bit_mask_iff)
    also have "\<dots> = drop_bit 8 x"
      by (rule bit_word_eqI) (auto simp: bit_drop_bit_eq bit_and_iff bit_not_iff bit_mask_iff dest: bit_imp_le_length)
    finally show ?thesis .
  qed
  have low: "crc32_table ! unat (x AND mask 8) = (crc_bit ^^ 8) (x AND mask 8)"
    using crc_low_byte [of x] by (simp add: crc32_table_def m)
  have "(crc_bit ^^ 8) x = (crc_bit ^^ 8) (x AND NOT (mask 8)) XOR (crc_bit ^^ 8) (x AND mask 8)"
    by (subst split, rule crc_bits_xor)
  then show ?thesis unfolding m high low .
qed

lemma drop_bit_byte: "drop_bit 8 (ucast (b :: 8 word) :: 32 word) = 0"
  by (rule bit_word_eqI) (auto simp: bit_drop_bit_eq bit_ucast_iff dest: bit_imp_le_length)

lemma crc32_is_bitwise: "crc32 data = bitwise_crc32 data"
proof -
  have step: "drop_bit 8 crc XOR crc32_table ! unat ((crc XOR ucast b) AND 0xFF) = (crc_bit ^^ 8) (crc XOR ucast b)"
    for crc :: "32 word" and b :: "8 word"
    unfolding crc_table_step by (simp only: drop_bit_xor drop_bit_byte xor.right_neutral)
  show ?thesis unfolding crc32_def bitwise_crc32_def step ..
qed


section \<open>Paths\<close>

text \<open>
  \<^verbatim>\<open>Path::join\<close> of a relative name (\<^verbatim>\<open>/\<close> is 47) and \<^verbatim>\<open>with_extension\<close> of a path that ends in a file name: what
  stands after its last dot (46) goes, unless that dot leads the name.
\<close>

definition under :: "rstr \<Rightarrow> rstr \<Rightarrow> rstr" where
  "under base name = (if base = [] \<or> last base = 47 then base @ name else base @ 47 # name)"

definition name_with_extension :: "rstr \<Rightarrow> string \<Rightarrow> rstr" where
  "name_with_extension n ext =
     (case rsplit_once 46 n of
        Some (stem, _) \<Rightarrow> if stem = [] then n @ 46 # lit ext else stem @ 46 # lit ext
      | None \<Rightarrow> n @ 46 # lit ext)"

definition with_extension :: "rstr \<Rightarrow> string \<Rightarrow> rstr" where
  "with_extension p ext =
     (case rsplit_once 47 p of
        Some (d, n) \<Rightarrow> d @ 47 # name_with_extension n ext
      | None \<Rightarrow> name_with_extension p ext)"

definition app_dir :: rstr where
  "app_dir = lit ''tab-atelier''"

definition state_dir :: "rstr \<Rightarrow> rstr" where
  "state_dir base = under base app_dir"

definition config_dir :: "rstr \<Rightarrow> rstr" where
  "config_dir base = under base app_dir"

definition config_state_path :: "rstr \<Rightarrow> rstr" where
  "config_state_path base = under (config_dir base) (lit ''tabs.json'')"

definition tab_name_char :: "rchar \<Rightarrow> bool" where
  "tab_name_char c \<longleftrightarrow>
     is_ascii_digit c \<or> (65 \<le> c \<and> c \<le> 90) \<or> (97 \<le> c \<and> c \<le> 122) \<or> c \<in> {95, 45, 46}"

definition sanitize_tab_filename :: "rstr \<Rightarrow> rstr" where
  "sanitize_tab_filename name =
     (let out = map (\<lambda>c. if tab_name_char c then c else 95) name;
          out = (if out = [] \<or> hd out = 46 then 95 # out else out);
          out = (if 100 < length out then take 100 out else out)
      in out @ 45 # pad_left 8 48 (show_hex (unat (crc32 (utf8 name)))))"

definition tab_file :: "string \<Rightarrow> rstr \<Rightarrow> rstr \<Rightarrow> rstr" where
  "tab_file prefix base name = under (state_dir base) (lit prefix @ sanitize_tab_filename name @ lit ''.json'')"

definition tab_output_path :: "rstr \<Rightarrow> rstr \<Rightarrow> rstr" where
  "tab_output_path = tab_file ''output_tab-''"

definition tab_power_path :: "rstr \<Rightarrow> rstr \<Rightarrow> rstr" where
  "tab_power_path = tab_file ''power_tab-''"

definition tab_uptime_path :: "rstr \<Rightarrow> rstr \<Rightarrow> rstr" where
  "tab_uptime_path = tab_file ''uptime_tab-''"

definition tab_tokens_path :: "rstr \<Rightarrow> rstr \<Rightarrow> rstr" where
  "tab_tokens_path = tab_file ''tokens_tab-''"

section \<open>The disk\<close>

text \<open>A file has its bytes and is private when only its owner may read it.\<close>

record stored_file =
  sf_bytes :: "8 word list"
  sf_private :: bool

type_synonym state_disk = "rstr \<rightharpoonup> stored_file"

text \<open>A rename that fails, whose source is missing, or that goes nowhere changes nothing.\<close>

definition move :: "bool \<Rightarrow> rstr \<Rightarrow> rstr \<Rightarrow> state_disk \<Rightarrow> state_disk" where
  "move ok a b d = (case d a of Some f \<Rightarrow> if ok \<and> a \<noteq> b then (d(b \<mapsto> f))(a := None) else d | None \<Rightarrow> d)"

text \<open>What each system call of a save does; a body that fails has written some bytes.\<close>

record save_fate =
  ft_create :: bool
  ft_chmod :: bool
  ft_body :: "nat option"
  ft_rotate2 :: bool
  ft_rotate1 :: bool
  ft_rotate0 :: bool
  ft_publish :: bool

definition write_atomic :: "save_fate \<Rightarrow> rstr \<Rightarrow> 8 word list \<Rightarrow> state_disk \<Rightarrow> state_disk list" where
  "write_atomic ft path data d =
     (let tmp = with_extension path ''json.tmp'';
          created = d(tmp \<mapsto> \<lparr>sf_bytes = [], sf_private = (case d tmp of Some f \<Rightarrow> sf_private f | None \<Rightarrow> False)\<rparr>);
          written = (\<lambda>n. d(tmp \<mapsto> \<lparr>sf_bytes = take n data, sf_private = True\<rparr>))
      in if \<not> ft_create ft then [d]
         else if \<not> ft_chmod ft then [d, created, created(tmp := None)]
         else case ft_body ft of
                Some n \<Rightarrow> [d, created] @ map written [0..<Suc n] @ [d(tmp := None)]
              | None \<Rightarrow>
                  (let staged = written (length data);
                       bak = with_extension path ''json.bak'';
                       bak1 = with_extension path ''json.bak.1'';
                       bak2 = with_extension path ''json.bak.2'';
                       rot2 = move (ft_rotate2 ft) bak1 bak2 staged;
                       rot1 = move (ft_rotate1 ft) bak bak1 rot2;
                       rot0 = move (ft_rotate0 ft) path bak rot1
                   in [d, created] @ map written [0..<Suc (length data)] @
                      (if staged path \<noteq> None then [rot2, rot1, rot0, move (ft_publish ft) tmp path rot0]
                       else [move (ft_publish ft) tmp path staged])))"

section \<open>Loading\<close>

definition max_state_file_bytes :: nat where
  "max_state_file_bytes = 16 * 1024 * 1024"

definition read_state_file_capped :: "rstr \<Rightarrow> state_disk \<Rightarrow> 8 word list option" where
  "read_state_file_capped path d =
     (case d path of
        Some f \<Rightarrow> if length (sf_bytes f) > max_state_file_bytes then None else Some (sf_bytes f)
      | None \<Rightarrow> None)"

definition load_one :: "(8 word list \<Rightarrow> 'a option) \<Rightarrow> rstr \<Rightarrow> state_disk \<Rightarrow> 'a option" where
  "load_one dec path d = Option.bind (read_state_file_capped path d) dec"

fun load_backup :: "(8 word list \<Rightarrow> 'a option) \<Rightarrow> rstr \<Rightarrow> string list \<Rightarrow> state_disk \<Rightarrow> 'a option" where
  "load_backup dec path [] d = None"
| "load_backup dec path (ext # exts) d =
     (case load_one dec (with_extension path (''json.'' @ ext)) d of
        Some s \<Rightarrow> Some s
      | None \<Rightarrow> load_backup dec path exts d)"

definition load_state_at :: "(8 word list \<Rightarrow> 'a option) \<Rightarrow> rstr \<Rightarrow> state_disk \<Rightarrow> 'a option" where
  "load_state_at dec path d =
     (case load_one dec path d of
        Some s \<Rightarrow> Some s
      | None \<Rightarrow> load_backup dec path [''bak'', ''bak.1'', ''bak.2''] d)"

text \<open>The per-tab files, which have no cap and fall back to the newest backup alone.\<close>

definition read_decoded :: "(8 word list \<Rightarrow> 'a option) \<Rightarrow> rstr \<Rightarrow> state_disk \<Rightarrow> 'a option" where
  "read_decoded dec path d = Option.bind (d path) (\<lambda>f. dec (sf_bytes f))"

definition load_with_bak :: "(8 word list \<Rightarrow> 'a option) \<Rightarrow> rstr \<Rightarrow> state_disk \<Rightarrow> 'a option" where
  "load_with_bak dec path d =
     (case read_decoded dec path d of
        Some v \<Rightarrow> Some v
      | None \<Rightarrow> read_decoded dec (with_extension path ''json.bak'') d)"

section \<open>Preferences\<close>

definition system_preferences_path :: rstr where
  "system_preferences_path = lit ''/etc/tab-atelier/preferences.json''"

definition preferences_path :: "rstr \<Rightarrow> rstr" where
  "preferences_path base = under (config_dir base) (lit ''preferences.json'')"

definition load_preferences :: "(8 word list \<Rightarrow> 'a option) \<Rightarrow> 'a \<Rightarrow> rstr \<Rightarrow> state_disk \<Rightarrow> 'a" where
  "load_preferences dec dflt base d =
     (case read_decoded dec (preferences_path base) d of
        Some prefs \<Rightarrow> prefs
      | None \<Rightarrow> (case read_decoded dec system_preferences_path d of Some prefs \<Rightarrow> prefs | None \<Rightarrow> dflt))"

definition editable_preferences_path :: "rstr \<Rightarrow> state_disk \<Rightarrow> rstr" where
  "editable_preferences_path base d =
     (if d (preferences_path base) = None \<and> d system_preferences_path \<noteq> None
      then system_preferences_path else preferences_path base)"

text \<open>\<^verbatim>\<open>std::fs::write\<close>: the file is emptied, then filled; a new file has the mode of the process's mask.\<close>

definition write_plain :: "rstr \<Rightarrow> 8 word list \<Rightarrow> state_disk \<Rightarrow> state_disk list" where
  "write_plain path data d =
     d # map (\<lambda>n. d(path \<mapsto> \<lparr>sf_bytes = take n data,
                              sf_private = (case d path of Some f \<Rightarrow> sf_private f | None \<Rightarrow> False)\<rparr>)) [0..<Suc (length data)]"

definition save_preferences :: "('a \<Rightarrow> 8 word list) \<Rightarrow> rstr \<Rightarrow> 'a \<Rightarrow> state_disk \<Rightarrow> state_disk list" where
  "save_preferences enc base prefs d = write_plain (preferences_path base) (enc prefs) d"

text \<open>\<^verbatim>\<open>save_preferences_at\<close>: the atomic save, then the file there made private if that succeeds.\<close>

definition save_preferences_at :: "('a \<Rightarrow> 8 word list) \<Rightarrow> save_fate \<Rightarrow> bool \<Rightarrow> rstr \<Rightarrow> 'a \<Rightarrow> state_disk \<Rightarrow> state_disk list" where
  "save_preferences_at enc ft ok path prefs d =
     (let ds = write_atomic ft path (enc prefs) d; d' = last ds
      in ds @ (case d' path of
                 Some f \<Rightarrow> if ok then [d'(path \<mapsto> f\<lparr>sf_private := True\<rparr>)] else []
               | None \<Rightarrow> []))"

section \<open>Renaming a tab\<close>

text \<open>The files of a tab follow its name (\<^verbatim>\<open>drain_pending\<close> in \<^verbatim>\<open>src/src/headless.rs\<close>).\<close>

definition follow_name :: "(rstr \<Rightarrow> rstr \<Rightarrow> rstr) \<Rightarrow> rstr \<Rightarrow> rstr \<Rightarrow> rstr \<Rightarrow> state_disk \<Rightarrow> state_disk" where
  "follow_name resolver base old_name new_name d =
     (let old_path = resolver base old_name; new_path = resolver base new_name
      in if d old_path = None then d
         else move True (with_extension old_path ''json.bak'') (with_extension new_path ''json.bak'')
                (move True old_path new_path d))"

definition rename_tab_files :: "rstr \<Rightarrow> rstr \<Rightarrow> rstr \<Rightarrow> state_disk \<Rightarrow> state_disk" where
  "rename_tab_files base old_name new_name d =
     fold (\<lambda>resolver d. follow_name resolver base old_name new_name d)
       [tab_output_path, tab_uptime_path, tab_power_path] d"

section \<open>Paths of one state file\<close>

definition state_file :: "rstr \<Rightarrow> bool" where
  "state_file p \<longleftrightarrow> (\<exists>b. p = b @ lit ''.json'' \<and> b \<noteq> [] \<and> last b \<noteq> 47)"

lemma rsplit_once_append: "c \<notin> set t \<Longrightarrow> rsplit_once c (s @ c # t) = Some (s, t)"
  by (simp add: rsplit_once_Some)

lemma with_extension_json:
  assumes "b \<noteq> []" "last b \<noteq> 47"
  shows "with_extension (b @ lit ''.json'') ext = b @ 46 # lit ext"
proof -
  have j: "lit ''.json'' = 46 # lit ''json''" "46 \<notin> set (lit ''json'')" "47 \<notin> set (lit ''.json'')"
    by (simp_all add: lit_def)
  show ?thesis
  proof (cases "rsplit_once 47 b")
    case None
    then have "47 \<notin> set (b @ lit ''.json'')" using j(3) by (simp add: rsplit_once_None)
    then have "rsplit_once 47 (b @ lit ''.json'') = None" by (simp add: rsplit_once_None)
    moreover have "rsplit_once 46 (b @ lit ''.json'') = Some (b, lit ''json'')"
      unfolding j(1) by (rule rsplit_once_append [OF j(2)])
    ultimately show ?thesis using assms(1) by (simp add: with_extension_def name_with_extension_def)
  next
    case (Some dn)
    then obtain d n where dn: "rsplit_once 47 b = Some (d, n)" by (cases dn) auto
    then have b: "b = d @ 47 # n" "47 \<notin> set n" by (simp_all add: rsplit_once_Some)
    then have n: "n \<noteq> []" using assms(2) by (auto split: if_splits)
    have "rsplit_once 47 (b @ lit ''.json'') = Some (d, n @ lit ''.json'')"
      using b j(3) by (simp add: rsplit_once_Some)
    moreover have "rsplit_once 46 (n @ lit ''.json'') = Some (n, lit ''json'')"
      unfolding j(1) by (rule rsplit_once_append [OF j(2)])
    ultimately show ?thesis using n b by (simp add: with_extension_def name_with_extension_def)
  qed
qed

lemma state_paths:
  assumes "state_file p"
  shows "distinct [p, with_extension p ''json.tmp'', with_extension p ''json.bak'',
                   with_extension p ''json.bak.1'', with_extension p ''json.bak.2'']"
proof -
  obtain b where b: "p = b @ lit ''.json''" "b \<noteq> []" "last b \<noteq> 47" using assms by (auto simp: state_file_def)
  show ?thesis unfolding b(1) with_extension_json [OF b(2,3)] by (simp add: lit_def)
qed


section \<open>A save that fails or is cut anywhere\<close>

text \<open>
  Standing: the state is read from the file, or, when the file is not there, from its newest backup. Every disk of a
  save that finds the old state standing has the old or the new one standing.
\<close>

definition readable :: "(8 word list \<Rightarrow> 'a option) \<Rightarrow> 8 word list \<Rightarrow> 'a option" where
  "readable dec bs = (if length bs > max_state_file_bytes then None else dec bs)"

definition standing :: "(8 word list \<Rightarrow> 'a option) \<Rightarrow> rstr \<Rightarrow> state_disk \<Rightarrow> 'a \<Rightarrow> bool" where
  "standing dec p d v \<longleftrightarrow>
     (case d p of
        Some f \<Rightarrow> readable dec (sf_bytes f) = Some v
      | None \<Rightarrow> (\<exists>f. d (with_extension p ''json.bak'') = Some f \<and> readable dec (sf_bytes f) = Some v))"

lemma load_one_readable:
  "load_one dec p d = (case d p of Some f \<Rightarrow> readable dec (sf_bytes f) | None \<Rightarrow> None)"
  by (simp add: load_one_def read_state_file_capped_def readable_def split: option.splits)

lemma standing_loads: "standing dec p d v \<Longrightarrow> load_state_at dec p d = Some v"
  by (auto simp: standing_def load_state_at_def load_one_readable split: option.splits)

lemma standing_cong:
  "d' p = d p \<Longrightarrow> d' (with_extension p ''json.bak'') = d (with_extension p ''json.bak'') \<Longrightarrow>
     standing dec p d' v = standing dec p d v"
  by (simp add: standing_def split: option.splits)

lemma standing_staged:
  assumes "state_file p" "standing dec p d v"
  shows "standing dec p (d(with_extension p ''json.tmp'' := x)) v"
  using assms(2) state_paths [OF assms(1)] by (auto simp: standing_def split: option.splits)

lemma standing_rotates:
  assumes p: "state_file p" and s: "standing dec p d v" and e: "d p \<noteq> None"
  shows "standing dec p (move r2 (with_extension p ''json.bak.1'') (with_extension p ''json.bak.2'') d) v"
    and "standing dec p (move r1 (with_extension p ''json.bak'') (with_extension p ''json.bak.1'') d) v"
    and "standing dec p (move r0 p (with_extension p ''json.bak'') d) v"
  using s e state_paths [OF p] by (auto simp: standing_def move_def split: option.splits)

lemma move_elsewhere: "a \<noteq> q \<Longrightarrow> b \<noteq> q \<Longrightarrow> move r a b d q = d q"
  by (simp add: move_def split: option.splits)

lemma standing_publishes:
  assumes p: "state_file p" and s: "standing dec p d v"
    and t: "d (with_extension p ''json.tmp'') = Some \<lparr>sf_bytes = data, sf_private = True\<rparr>"
    and w: "readable dec data = Some w"
  shows "standing dec p (move ok (with_extension p ''json.tmp'') p d) w \<or>
         standing dec p (move ok (with_extension p ''json.tmp'') p d) v"
  using s w t state_paths [OF p] by (auto simp: standing_def move_def)

lemma write_atomic_stands:
  assumes p: "state_file p" and s: "standing dec p d v" and w: "readable dec data = Some w"
    and D: "D \<in> set (write_atomic ft p data d)"
  shows "standing dec p D v \<or> standing dec p D w"
proof -
  let ?tmp = "with_extension p ''json.tmp''"
  let ?bak = "with_extension p ''json.bak''" and ?bak1 = "with_extension p ''json.bak.1''"
  let ?bak2 = "with_extension p ''json.bak.2''"
  define staged where "staged = d(?tmp \<mapsto> \<lparr>sf_bytes = data, sf_private = True\<rparr>)"
  define rot2 where "rot2 = move (ft_rotate2 ft) ?bak1 ?bak2 staged"
  define rot1 where "rot1 = move (ft_rotate1 ft) ?bak ?bak1 rot2"
  define rot0 where "rot0 = move (ft_rotate0 ft) p ?bak rot1"
  note dist = state_paths [OF p]
  have st: "standing dec p staged v" unfolding staged_def by (rule standing_staged [OF p s])
  have same: "rot2 p = staged p" "rot1 p = staged p"
    using dist by (auto simp: rot2_def rot1_def move_elsewhere)
  have tmp: "staged ?tmp = Some \<lparr>sf_bytes = data, sf_private = True\<rparr>"
    "rot0 ?tmp = Some \<lparr>sf_bytes = data, sf_private = True\<rparr>"
    using dist by (auto simp: staged_def rot0_def rot1_def rot2_def move_elsewhere)
  have rot: "standing dec p rot2 v" "standing dec p rot1 v" "standing dec p rot0 v" if e: "staged p \<noteq> None"
  proof -
    show 2: "standing dec p rot2 v" unfolding rot2_def by (rule standing_rotates(1) [OF p st e])
    show 1: "standing dec p rot1 v" unfolding rot1_def using 2 e same by (intro standing_rotates(2) [OF p]) simp_all
    show "standing dec p rot0 v" unfolding rot0_def using 1 e same by (intro standing_rotates(3) [OF p]) simp_all
  qed
  consider "D = d" | x where "D = d(?tmp := x)" | "D \<in> {rot2, rot1, rot0}" "staged p \<noteq> None"
    | "D = move (ft_publish ft) ?tmp p rot0" "staged p \<noteq> None"
    | "D = move (ft_publish ft) ?tmp p staged"
    using D unfolding write_atomic_def Let_def rot2_def rot1_def rot0_def staged_def
    by (auto split: if_splits option.splits)
  then show ?thesis
  proof cases
    case 1 then show ?thesis using s by simp
  next
    case (2 x) then show ?thesis using standing_staged [OF p s] by blast
  next
    case 3 then show ?thesis using rot by auto
  next
    case 4 then show ?thesis using standing_publishes [OF p rot(3) tmp(2) w] by blast
  next
    case 5 then show ?thesis using standing_publishes [OF p st tmp(1) w] by blast
  qed
qed

lemma write_atomic_nonempty: "write_atomic ft p data d \<noteq> []"
  by (simp add: write_atomic_def Let_def split: option.splits)

text \<open>Saves one after the other, each left at some disk of its own: its last, or where the process died.\<close>

fun saves :: "rstr \<Rightarrow> (save_fate \<times> 8 word list \<times> nat) list \<Rightarrow> state_disk \<Rightarrow> state_disk" where
  "saves p [] d = d"
| "saves p ((ft, data, n) # rest) d =
     (let ds = write_atomic ft p data d in saves p rest (ds ! min n (length ds - 1)))"

lemma saves_stand:
  assumes "state_file p" "standing dec p d v" "\<forall>(ft, data, n) \<in> set ss. readable dec data \<noteq> None"
  shows "\<exists>u. standing dec p (saves p ss d) u \<and>
             (u = v \<or> (\<exists>(ft, data, n) \<in> set ss. readable dec data = Some u))"
  using assms(2,3)
proof (induction ss arbitrary: d v)
  case Nil
  then show ?case by auto
next
  case (Cons s ss)
  obtain ft data n where s: "s = (ft, data, n)" by (cases s)
  obtain w where w: "readable dec data = Some w" using Cons.prems(2) s by auto
  let ?ds = "write_atomic ft p data d"
  have "?ds ! min n (length ?ds - 1) \<in> set ?ds"
    using write_atomic_nonempty by (intro nth_mem) (metis length_greater_0_conv min.strict_coboundedI2 diff_less zero_less_one)
  from write_atomic_stands [OF assms(1) Cons.prems(1) w this]
  obtain v' where v': "standing dec p (?ds ! min n (length ?ds - 1)) v'" "v' = v \<or> v' = w" by blast
  from Cons.IH [OF v'(1)] Cons.prems(2) obtain u where
    u: "standing dec p (saves p ss (?ds ! min n (length ?ds - 1))) u"
    "u = v' \<or> (\<exists>(ft, data, n) \<in> set ss. readable dec data = Some u)" by auto
  show ?case using u v'(2) w by (auto simp: s Let_def)
qed

definition all_well :: save_fate where
  "all_well = \<lparr>ft_create = True, ft_chmod = True, ft_body = None, ft_rotate2 = True, ft_rotate1 = True,
               ft_rotate0 = True, ft_publish = True\<rparr>"

lemma write_atomic_loads:
  assumes "state_file p" "readable dec data = Some w"
  shows "load_state_at dec p (last (write_atomic all_well p data d)) = Some w"
proof -
  have m: "move True a p e p = e a" if "a \<noteq> p" "e a \<noteq> None" for a e
    using that by (auto simp: move_def)
  note dist = state_paths [OF assms(1)]
  have tmp: "with_extension p ''json.tmp'' \<noteq> p" "with_extension p ''json.bak'' \<noteq> with_extension p ''json.tmp''"
    "with_extension p ''json.bak.1'' \<noteq> with_extension p ''json.tmp''"
    "with_extension p ''json.bak.2'' \<noteq> with_extension p ''json.tmp''"
    using dist by auto
  have "last (write_atomic all_well p data d) p = Some \<lparr>sf_bytes = data, sf_private = True\<rparr>"
  proof (cases "d p = None")
    case True
    then show ?thesis using dist tmp by (simp add: write_atomic_def all_well_def Let_def m)
  next
    case False
    then show ?thesis using dist tmp by (simp add: write_atomic_def all_well_def Let_def m move_elsewhere)
  qed
  then have "standing dec p (last (write_atomic all_well p data d)) w"
    using assms(2) by (simp add: standing_def)
  then show ?thesis by (rule standing_loads)
qed

text \<open>C13 No crash and no failing call loses the saved tabs: if the state could be loaded before from where it stands (the file
  itself readable, or absent and the newest backup readable), then after any saves of readable texts (at most 16 MiB, and
  decodable), each of which may fail at any call or be cut at any point, what loads is that state or one of those that were being saved;
  and a save whose calls all succeed is what loads next.
\<close>

theorem state_survives_crashes:
  assumes "state_file p" "standing dec p d v" "\<forall>(ft, data, n) \<in> set ss. readable dec data \<noteq> None"
  shows "(load_state_at dec p (saves p ss d) = Some v \<or>
          (\<exists>(ft, data, n) \<in> set ss. load_state_at dec p (saves p ss d) = readable dec data)) \<and>
         (\<forall>data w. readable dec data = Some w \<longrightarrow>
            load_state_at dec p (last (write_atomic all_well p data (saves p ss d))) = Some w)"
proof (intro conjI allI impI)
  fix data w
  assume "readable dec data = Some w"
  then show "load_state_at dec p (last (write_atomic all_well p data (saves p ss d))) = Some w"
    by (rule write_atomic_loads [OF assms(1)])
next
  obtain u where u: "standing dec p (saves p ss d) u"
    "u = v \<or> (\<exists>(ft, data, n) \<in> set ss. readable dec data = Some u)"
    using saves_stand [OF assms] by blast
  note l = standing_loads [OF u(1)]
  from u(2) show "load_state_at dec p (saves p ss d) = Some v \<or>
      (\<exists>(ft, data, n) \<in> set ss. load_state_at dec p (saves p ss d) = readable dec data)"
  proof
    assume "u = v"
    then show ?thesis using l by simp
  next
    assume "\<exists>(ft, data, n) \<in> set ss. readable dec data = Some u"
    then show ?thesis using l by force
  qed
qed

section \<open>What others may read\<close>

text \<open>Whatever a save puts on the disk that was not there before is private or empty.\<close>

definition exposed :: "state_disk \<Rightarrow> stored_file set" where
  "exposed d = {f \<in> ran d. sf_bytes f \<noteq> [] \<and> \<not> sf_private f}"

lemma exposed_upd: "sf_private f \<or> sf_bytes f = [] \<Longrightarrow> exposed (d(q \<mapsto> f)) \<subseteq> exposed d"
  by (auto simp: exposed_def ran_def split: if_splits)

lemma exposed_drop: "exposed (d(q := None)) \<subseteq> exposed d"
  by (auto simp: exposed_def ran_def split: if_splits)

lemma exposed_move: "exposed (move ok a b d) \<subseteq> exposed d"
  by (auto simp: exposed_def ran_def move_def split: if_splits option.splits)

lemma saves_expose_nothing:
  assumes "D \<in> set (write_atomic ft p data d)"
  shows "exposed D \<subseteq> exposed d"
proof -
  have c: "exposed (d(q \<mapsto> \<lparr>sf_bytes = [], sf_private = x\<rparr>)) \<subseteq> exposed d" for q x
    by (rule exposed_upd) simp
  have w: "exposed (d(q \<mapsto> \<lparr>sf_bytes = y, sf_private = True\<rparr>)) \<subseteq> exposed d" for q y
    by (rule exposed_upd) simp
  have m: "exposed (move ok a b d') \<subseteq> exposed d" if "exposed d' \<subseteq> exposed d" for ok a b d'
    using exposed_move that by (rule subset_trans)
  have "\<forall>D \<in> set (write_atomic ft p data d). exposed D \<subseteq> exposed d"
    unfolding write_atomic_def Let_def
    by (auto split: option.splits simp del: fun_upd_apply intro!: m c w exposed_drop simp: fun_upd_upd del: subsetI)
  then show ?thesis using assms by blast
qed

text \<open>Preferences are written in place: while they are written there is a moment at which the daemon, if it died,
  would start again with the defaults, and a file that was not there before is left readable to everyone, the tokens
  of the peers in it.
\<close>

theorem preferences_written_in_place:
  assumes "dec [] = None" "d system_preferences_path = None" "system_preferences_path \<noteq> preferences_path base"
  shows "(\<exists>D \<in> set (save_preferences enc base prefs d). load_preferences dec dflt base D = dflt) \<and>
         (d (preferences_path base) = None \<longrightarrow>
            last (save_preferences enc base prefs d) (preferences_path base) =
              Some \<lparr>sf_bytes = enc prefs, sf_private = False\<rparr>)"
proof -
  let ?p = "preferences_path base"
  let ?D = "d(?p \<mapsto> \<lparr>sf_bytes = take 0 (enc prefs),
                       sf_private = (case d ?p of Some f \<Rightarrow> sf_private f | None \<Rightarrow> False)\<rparr>)"
  have "?D \<in> set (save_preferences enc base prefs d)"
    unfolding save_preferences_def write_plain_def by (force simp del: take_0)
  moreover have "load_preferences dec dflt base ?D = dflt"
    using assms by (simp add: load_preferences_def read_decoded_def)
  moreover have "last (save_preferences enc base prefs d) ?p = Some \<lparr>sf_bytes = enc prefs, sf_private = False\<rparr>"
    if "d ?p = None"
    using that by (simp add: save_preferences_def write_plain_def)
  ultimately show ?thesis by blast
qed

section \<open>The names of per-tab files\<close>

lemma show_base_below: "2 \<le> b \<Longrightarrow> c \<in> set (show_base b n) \<Longrightarrow> c < b"
proof (induction b n rule: show_base.induct)
  case (1 b n)
  show ?case
  proof (cases "n < b")
    case True
    then have "show_base b n = [n]" by (subst show_base.simps) simp
    then show ?thesis using 1 True by simp
  next
    case False
    then have "show_base b n = show_base b (n div b) @ [n mod b]" using 1 by (subst show_base.simps) simp
    then show ?thesis using 1 False by auto
  qed
qed

lemma show_base_length: "2 \<le> b \<Longrightarrow> n < b ^ Suc k \<Longrightarrow> length (show_base b n) \<le> Suc k"
proof (induction k arbitrary: n)
  case 0
  then show ?case by (subst show_base.simps) simp
next
  case (Suc k)
  show ?case
  proof (cases "n < b")
    case True
    then show ?thesis by (subst show_base.simps) simp
  next
    case False
    have "n div b < b ^ Suc k" using Suc.prems by (simp add: less_mult_imp_div_less mult.commute)
    then have "length (show_base b (n div b)) \<le> Suc k" using Suc.IH Suc.prems by simp
    then show ?thesis using False Suc.prems by (subst show_base.simps) simp
  qed
qed

lemma crc_suffix:
  fixes w :: "32 word"
  shows "length (pad_left 8 48 (show_hex (unat w))) = 8"
    and "c \<in> set (pad_left 8 48 (show_hex (unat w))) \<Longrightarrow> tab_name_char c"
proof -
  have "unat w < 16 ^ Suc 7" using unsigned_less [of w] by simp
  then have "length (show_base 16 (unat w)) \<le> Suc 7" by (intro show_base_length) simp_all
  then show "length (pad_left 8 48 (show_hex (unat w))) = 8" by (simp add: pad_left_def show_hex_def)
  assume "c \<in> set (pad_left 8 48 (show_hex (unat w)))"
  then have "c = 48 \<or> (\<exists>d \<in> set (show_base 16 (unat w)). c = digit_char d)"
    by (auto simp: pad_left_def show_hex_def)
  moreover have "d < 16" if "d \<in> set (show_base 16 (unat w))" for d
    using show_base_below [OF _ that] by simp
  ultimately show "tab_name_char c"
    by (fastforce simp: tab_name_char_def is_ascii_digit_def digit_char_def)
qed

lemma tab_file_names_plain:
  "sanitize_tab_filename name \<noteq> [] \<and> (\<forall>c \<in> set (sanitize_tab_filename name). tab_name_char c)"
proof -
  let ?m = "map (\<lambda>c. if tab_name_char c then c else 95) name"
  let ?o = "if ?m = [] \<or> hd ?m = 46 then 95 # ?m else ?m"
  let ?t = "if 100 < length ?o then take 100 ?o else ?o"
  let ?s = "pad_left 8 48 (show_hex (unat (crc32 (utf8 name))))"
  have "sanitize_tab_filename name = ?t @ 45 # ?s" by (simp add: sanitize_tab_filename_def Let_def)
  moreover have "tab_name_char 95" "tab_name_char 45" by (simp_all add: tab_name_char_def)
  ultimately show ?thesis using crc_suffix(2) by (auto dest!: in_set_takeD split: if_splits)
qed

text \<open>Whatever a tab is called, its files stay in the state directory under a visible name of at most 109 plain
  characters, which ends in the checksum of the name.
\<close>

theorem tab_file_names_safe:
  "length (sanitize_tab_filename name) \<le> 109 \<and> hd (sanitize_tab_filename name) \<noteq> 46 \<and>
   (\<forall>c \<in> set (sanitize_tab_filename name). tab_name_char c) \<and> 47 \<notin> set (sanitize_tab_filename name)"
proof -
  let ?m = "map (\<lambda>c. if tab_name_char c then c else 95) name"
  let ?o = "if ?m = [] \<or> hd ?m = 46 then 95 # ?m else ?m"
  let ?t = "if 100 < length ?o then take 100 ?o else ?o"
  let ?s = "pad_left 8 48 (show_hex (unat (crc32 (utf8 name))))"
  have s: "sanitize_tab_filename name = ?t @ 45 # ?s" by (simp add: sanitize_tab_filename_def Let_def)
  have chars: "\<forall>c \<in> set (sanitize_tab_filename name). tab_name_char c"
    using tab_file_names_plain by blast
  have "?o \<noteq> []" "hd ?o \<noteq> 46" by auto
  then have "?t \<noteq> []" "hd ?t \<noteq> 46" by (auto simp: hd_take)
  then have "hd (sanitize_tab_filename name) \<noteq> 46" unfolding s by simp
  moreover have "length ?t \<le> 100" by simp
  then have "length (sanitize_tab_filename name) \<le> 109" unfolding s using crc_suffix(1) by simp
  moreover have "47 \<notin> set (sanitize_tab_filename name)"
    using chars by (force simp: tab_name_char_def is_ascii_digit_def)
  ultimately show ?thesis using chars by blast
qed

section \<open>A renamed tab's files\<close>

definition tab_stem :: "string \<Rightarrow> rstr \<Rightarrow> rstr \<Rightarrow> rstr" where
  "tab_stem prefix base name = under (state_dir base) (lit prefix @ sanitize_tab_filename name)"

lemma under_append: "under base (a @ b) = under base a @ b"
  by (simp add: under_def)

lemma under_same: "under base a = under base b \<longleftrightarrow> a = b"
  by (simp add: under_def)

lemma tab_file_stem: "tab_file prefix base name = tab_stem prefix base name @ lit ''.json''"
  by (simp add: tab_file_def tab_stem_def under_append flip: append_assoc)

lemma tab_file_bak: "with_extension (tab_file prefix base name) ''json.bak'' = tab_stem prefix base name @ lit ''.json.bak''"
proof -
  have n: "47 \<notin> set (sanitize_tab_filename name)" "sanitize_tab_filename name \<noteq> []"
    using tab_file_names_plain [of name] by (auto simp: tab_name_char_def is_ascii_digit_def)
  then have "last (sanitize_tab_filename name) \<noteq> 47" by (metis last_in_set)
  then have "tab_stem prefix base name \<noteq> []" "last (tab_stem prefix base name) \<noteq> 47"
    using n(2) by (simp_all add: tab_stem_def under_def)
  from with_extension_json [OF this] show ?thesis by (simp add: tab_file_stem lit_def)
qed

lemma tab_stems_differ:
  assumes "p \<noteq> []" "q \<noteq> []" "hd p \<noteq> hd q"
  shows "tab_stem p base n @ x \<noteq> tab_stem q base m @ y"
proof -
  obtain a p' b q' where pq: "p = a # p'" "q = b # q'" "a \<noteq> b"
    using assms by (cases p; cases q) auto
  have "under base' (of_char a # s) \<noteq> under base' (of_char b # r)" for base' s r
    using pq(3) by (simp add: under_def)
  then show ?thesis
    unfolding tab_stem_def pq(1,2) by (simp add: lit_def flip: under_append)
qed

lemma follow_name_frame:
  assumes "\<And>n x. q \<noteq> tab_stem prefix base n @ x"
  shows "follow_name (tab_file prefix) base old_name new_name d q = d q"
proof -
  have "q \<noteq> tab_file prefix base n" "q \<noteq> with_extension (tab_file prefix base n) ''json.bak''" for n
    unfolding tab_file_bak unfolding tab_file_stem using assms by blast+
  note this [symmetric]
  then show ?thesis by (simp add: follow_name_def Let_def move_elsewhere)
qed

lemma json_not_bak: "a @ lit ''.json'' \<noteq> b @ lit ''.json.bak''"
proof
  assume "a @ lit ''.json'' = b @ lit ''.json.bak''"
  then have "last (a @ lit ''.json'') = last (b @ lit ''.json.bak'')" by simp
  then show False by (simp add: lit_def)
qed

text \<open>A tab that takes the name of another takes over that tab's saved output: what was there is gone. The token
  counts do not follow the name: they stay where they were.
\<close>

theorem rename_takes_over_output:
  assumes "d (tab_output_path base old_name) = Some f" "tab_output_path base old_name \<noteq> tab_output_path base new_name"
  shows "rename_tab_files base old_name new_name d (tab_output_path base new_name) = Some f \<and>
         rename_tab_files base old_name new_name d (tab_output_path base old_name) = None \<and>
         (\<forall>q. rename_tab_files base old_name new_name d (tab_tokens_path base q) = d (tab_tokens_path base q))"
proof -
  define d1 where "d1 = follow_name tab_output_path base old_name new_name d"
  have eq: "rename_tab_files base old_name new_name d =
      follow_name tab_power_path base old_name new_name (follow_name tab_uptime_path base old_name new_name d1)"
    by (simp add: rename_tab_files_def d1_def)
  have later: "rename_tab_files base old_name new_name d q = d1 q"
    if "\<And>n x. q \<noteq> tab_stem ''uptime_tab-'' base n @ x" "\<And>n x. q \<noteq> tab_stem ''power_tab-'' base n @ x" for q
    unfolding eq tab_power_path_def tab_uptime_path_def using that by (simp add: follow_name_frame)
  have out: "tab_output_path base m \<noteq> tab_stem ''uptime_tab-'' base n @ x"
    "tab_output_path base m \<noteq> tab_stem ''power_tab-'' base n @ x" for m n x
    unfolding tab_output_path_def tab_file_stem by (rule tab_stems_differ; simp)+
  have tok: "tab_tokens_path base m \<noteq> tab_stem ''uptime_tab-'' base n @ x"
    "tab_tokens_path base m \<noteq> tab_stem ''power_tab-'' base n @ x"
    "tab_tokens_path base m \<noteq> tab_stem ''output_tab-'' base n @ x" for m n x
    unfolding tab_tokens_path_def tab_file_stem by (rule tab_stems_differ; simp)+
  have bak: "tab_output_path base m \<noteq> with_extension (tab_output_path base n) ''json.bak''" for m n
    unfolding tab_output_path_def tab_file_bak unfolding tab_file_stem by (rule json_not_bak)
  have "d1 (tab_output_path base new_name) = Some f" "d1 (tab_output_path base old_name) = None"
    using assms bak [of new_name, symmetric] bak [of old_name, symmetric]
    by (simp_all add: d1_def follow_name_def Let_def move_elsewhere) (simp_all add: move_def)
  moreover have "d1 (tab_tokens_path base m) = d (tab_tokens_path base m)" for m
    unfolding d1_def tab_output_path_def using tok by (simp add: follow_name_frame)
  ultimately show ?thesis using later [OF out] later [OF tok(1,2)] by simp
qed

section \<open>Concrete runs\<close>

definition first_byte :: "8 word list \<Rightarrow> 8 word option" where
  "first_byte bs = (case bs of [] \<Rightarrow> None | b # _ \<Rightarrow> Some b)"

definition tabs_file :: rstr where
  "tabs_file = lit ''tabs.json''"

definition one_state :: state_disk where
  "one_state = [tabs_file \<mapsto> \<lparr>sf_bytes = [1], sf_private = True\<rparr>]"

lemma tabs_file_state: "state_file tabs_file"
  unfolding state_file_def tabs_file_def by (rule exI [of _ "lit ''tabs''"]) (simp add: lit_def)

definition two_saves :: "(save_fate \<times> 8 word list \<times> nat) list" where
  "two_saves = [(all_well, [2], 6), (all_well\<lparr>ft_rotate0 := False\<rparr>, [3], 99)]"

lemma state_survives_crashes_witness:
  "load_state_at first_byte tabs_file (saves tabs_file two_saves one_state) \<in> {Some 1, Some 2, Some 3} \<and>
   load_state_at first_byte tabs_file (last (write_atomic all_well tabs_file [4] (saves tabs_file two_saves one_state))) =
     Some 4"
proof -
  have r: "readable first_byte [b] = Some b" for b
    by (simp add: readable_def first_byte_def max_state_file_bytes_def)
  have s: "standing first_byte tabs_file one_state 1" by (simp add: standing_def one_state_def r)
  have ok: "\<forall>(ft, data, n) \<in> set two_saves. readable first_byte data \<noteq> None" by (simp add: two_saves_def r)
  note t = state_survives_crashes [OF tabs_file_state s ok]
  have "load_state_at first_byte tabs_file (saves tabs_file two_saves one_state) = Some 1 \<or>
      (\<exists>(ft, data, n) \<in> set two_saves.
         load_state_at first_byte tabs_file (saves tabs_file two_saves one_state) = readable first_byte data)"
    using t by (rule conjunct1)
  moreover have "(\<exists>(ft, data, n) \<in> set two_saves. x = readable first_byte data) \<Longrightarrow> x \<in> {Some 2, Some 3}" for x
    by (auto simp: two_saves_def r)
  ultimately have "load_state_at first_byte tabs_file (saves tabs_file two_saves one_state) \<in> {Some 1, Some 2, Some 3}"
    by blast
  moreover have "load_state_at first_byte tabs_file
      (last (write_atomic all_well tabs_file [4] (saves tabs_file two_saves one_state))) = Some 4"
    using t r by blast
  ultimately show ?thesis ..
qed

lemma preferences_written_in_place_witness:
  "(\<exists>D \<in> set (save_preferences (\<lambda>n. replicate n 7) (lit ''/home'') 3 Map.empty).
      load_preferences (\<lambda>bs. if bs = [] then None else Some (length bs)) 0 (lit ''/home'') D = 0) \<and>
   last (save_preferences (\<lambda>n. replicate n 7) (lit ''/home'') 3 Map.empty) (preferences_path (lit ''/home'')) =
     Some \<lparr>sf_bytes = [7, 7, 7], sf_private = False\<rparr>"
proof -
  have "system_preferences_path \<noteq> preferences_path (lit ''/home'')"
    by (simp add: system_preferences_path_def preferences_path_def config_dir_def app_dir_def under_def lit_def)
  then show ?thesis
    using preferences_written_in_place [of "\<lambda>bs. if bs = [] then None else Some (length bs)" Map.empty
        "lit ''/home''" "\<lambda>n. replicate n 7" 3 0]
    by (simp add: numeral_3_eq_3)
qed

end
