(* ===== verification/Work.thy ===== *)
theory Work
  imports Claims Federation Tasks
begin

text \<open>
  The verbs of \<^verbatim>\<open>src/src/cli/work.rs\<close>: identity, announce, bid, award, done, the board listing, and
  \<^verbatim>\<open>take\<close>, which walks the ranking and leases the first task it can. What \<^verbatim>\<open>take\<close> needs of the lease
  table is the locale \<open>lease_service\<close>, interpreted on the registry of \<^verbatim>\<open>claims.rs\<close>.
\<close>

section \<open>Identity and the simple verbs\<close>

definition identity_from :: "rstr option \<Rightarrow> rstr option \<Rightarrow> rstr \<Rightarrow> rstr" where
  "identity_from agent_var tab_id origin =
     (case (case agent_var of Some a \<Rightarrow> Some a | None \<Rightarrow> tab_id) of
        None \<Rightarrow> lit ''cli@'' @ origin
      | Some s \<Rightarrow> if trim s \<noteq> [] then trim s else lit ''cli@'' @ origin)"

text \<open>The entry a verb posts, before its own change to it.\<close>

definition post_entry :: "u64 \<Rightarrow> rstr \<Rightarrow> note_kind \<Rightarrow> rstr \<Rightarrow> rstr \<Rightarrow> (board_note \<Rightarrow> board_note) \<Rightarrow> board_note" where
  "post_entry now_s me kind task msg mutate =
     mutate ((new_entry now_s kind (Some me) msg)\<lparr>n_task := Some (trim task)\<rparr>)"

datatype verb_plan = VerbExit int | VerbPost note_kind rstr rstr "board_note \<Rightarrow> board_note"

definition announce_verb :: "rstr list \<Rightarrow> verb_plan" where
  "announce_verb args =
     (case args of
        [] \<Rightarrow> VerbExit 2
      | i # rest \<Rightarrow> if rest = [] then VerbExit 2 else VerbPost KAnnounce i (str_join [32] rest) (\<lambda>n. n))"

fun bid_args :: "rstr list \<Rightarrow> int option \<Rightarrow> rstr list \<Rightarrow> (int option \<times> rstr list) option" where
  "bid_args [] cost words = Some (cost, words)"
| "bid_args (a # rest) cost words =
     (if a = lit ''--cost'' then
        (case rest of
           [] \<Rightarrow> None
         | v # rest' \<Rightarrow>
             (case parse_int64 v of
                None \<Rightarrow> None
              | Some c \<Rightarrow> bid_args rest' (Some c) words))
      else bid_args rest cost (words @ [a]))"

definition bid_verb :: "rstr list \<Rightarrow> verb_plan" where
  "bid_verb args =
     (case args of
        [] \<Rightarrow> VerbExit 2
      | i # rest \<Rightarrow>
          (case bid_args rest None [] of
             None \<Rightarrow> VerbExit 2
           | Some (None, _) \<Rightarrow> VerbExit 2
           | Some (Some c, words) \<Rightarrow> VerbPost KBid i (str_join [32] words) (\<lambda>n. n\<lparr>n_cost := Some c\<rparr>)))"

fun flag_value :: "rstr \<Rightarrow> rstr list \<Rightarrow> rstr option" where
  "flag_value f [] = None"
| "flag_value f (a # rest) =
     (if a = f then (case rest of [] \<Rightarrow> None | v # _ \<Rightarrow> Some v) else flag_value f rest)"

definition award_verb :: "rstr list \<Rightarrow> verb_plan" where
  "award_verb args =
     (case args of
        [] \<Rightarrow> VerbExit 2
      | i # rest \<Rightarrow>
          (case flag_value (lit ''--to'') rest of
             None \<Rightarrow> VerbExit 2
           | Some who \<Rightarrow> VerbPost KAward i [] (\<lambda>n. n\<lparr>n_to := Some who\<rparr>)))"

definition done_verb :: "rstr list \<Rightarrow> verb_plan" where
  "done_verb args =
     (case args of
        [] \<Rightarrow> VerbExit 2
      | i # rest \<Rightarrow>
          VerbPost KDone i (str_join [32] (filter (\<lambda>a. a \<noteq> lit ''--fail'') rest))
            (\<lambda>n. n\<lparr>n_ok := Some (lit ''--fail'' \<notin> set rest)\<rparr>))"

text \<open>Carrying out a plan: the exit code and the board.\<close>

definition run_verb ::
    "(rchar \<Rightarrow> bool) \<Rightarrow> (board_note \<Rightarrow> rstr option) \<Rightarrow> rstr \<Rightarrow> rstr \<Rightarrow> io_outcome \<Rightarrow> u64 \<Rightarrow> rstr
     \<Rightarrow> verb_plan \<Rightarrow> rstr option \<Rightarrow> int \<times> rstr option" where
  "run_verb u enc origin path io now_s me p file =
     (case p of
        VerbExit c \<Rightarrow> (c, file)
      | VerbPost kind task msg mutate \<Rightarrow>
          (case append_entry u enc origin path io file (post_entry now_s me kind task msg mutate) of
             (Inl _, file') \<Rightarrow> (1, file')
           | (Inr _, file') \<Rightarrow> (0, file')))"

text \<open>\<^verbatim>\<open>tasks [--all]\<close>: the lines it prints; none stands for the hint about an empty board.\<close>

definition tasks_verb :: "rstr list \<Rightarrow> task_view list \<Rightarrow> rstr list" where
  "tasks_verb args folded =
     map format_task (filter (\<lambda>t. lit ''--all'' \<in> set args \<or> task_state_of t \<noteq> Done) folded)"

section \<open>Where a lease lives\<close>

record daemon =
  d_url :: rstr
  d_token :: rstr

definition claim_endpoint ::
    "(rstr \<Rightarrow> directory option) \<Rightarrow> rstr option \<Rightarrow> endpoint list \<Rightarrow> rstr \<Rightarrow> task_view \<Rightarrow> daemon
     \<Rightarrow> daemon \<times> rstr option" where
  "claim_endpoint decd dir remotes me_origin task here =
     (case t_home task of
        None \<Rightarrow> (here, None)
      | Some home \<Rightarrow>
          (case endpoint_for decd dir home me_origin remotes of
             None \<Rightarrow> (here, None)
           | Some remote \<Rightarrow> (\<lparr>d_url = ep_url remote, d_token = ep_token remote\<rparr>, Some home)))"

section \<open>Taking a task\<close>

text \<open>What a lease request answers: granted, held by another (409), or any other failure.\<close>

datatype lease_answer = LeaseGranted | LeaseHeld | LeaseFailed rstr

type_synonym 's ask = "daemon \<Rightarrow> rstr \<Rightarrow> rstr \<Rightarrow> u64 \<Rightarrow> 's \<Rightarrow> lease_answer \<times> 's"

definition award_entry :: "u64 \<Rightarrow> rstr \<Rightarrow> task_view \<Rightarrow> board_note" where
  "award_entry now_s me t =
     (new_entry now_s KAward (Some me) [])\<lparr>n_task := Some (t_id t), n_to := Some me\<rparr>"

text \<open>
  The loop over the ranking. The result is the exit code, the task taken with the daemon that leased
  it, the board and the lease tables. \<open>where_of\<close> is \<open>claim_endpoint\<close> for the task and \<open>record\<close> appends
  the award, whose failure is ignored.
\<close>

fun take_loop ::
    "'s ask \<Rightarrow> (task_view \<Rightarrow> daemon \<times> rstr option) \<Rightarrow> (task_view \<Rightarrow> 'b \<Rightarrow> 'b) \<Rightarrow> daemon \<Rightarrow> rstr \<Rightarrow> u64
     \<Rightarrow> task_view list \<Rightarrow> 'b \<Rightarrow> 's \<Rightarrow> int \<times> (task_view \<times> daemon) option \<times> 'b \<times> 's" where
  "take_loop ask where_of add_award here me ttl_ms [] b s = (3, None, b, s)"
| "take_loop ask where_of add_award here me ttl_ms (t # ts) b s =
     (let (ep, away) = where_of t in
      case ask ep (claim_key t) me ttl_ms s of
        (LeaseGranted, s') \<Rightarrow> (0, Some (t, ep), add_award t b, s')
      | (LeaseHeld, s') \<Rightarrow> take_loop ask where_of add_award here me ttl_ms ts b s'
      | (LeaseFailed _, s') \<Rightarrow>
          (case away of
             None \<Rightarrow> (1, None, b, s')
           | Some _ \<Rightarrow>
               (case ask here (claim_key t) me ttl_ms s' of
                  (LeaseGranted, s'') \<Rightarrow> (0, Some (t, here), b, s'')
                | (_, s'') \<Rightarrow> take_loop ask where_of add_award here me ttl_ms ts b s'')))"

definition take_verb ::
    "(rchar \<Rightarrow> bool) \<Rightarrow> (board_note \<Rightarrow> rstr option) \<Rightarrow> (rstr \<Rightarrow> board_note option) \<Rightarrow> rstr \<Rightarrow> rstr \<Rightarrow> io_outcome
     \<Rightarrow> 's ask \<Rightarrow> (task_view \<Rightarrow> daemon \<Rightarrow> daemon \<times> rstr option) \<Rightarrow> daemon option \<Rightarrow> rstr \<Rightarrow> u64 \<Rightarrow> u64 \<Rightarrow> bool
     \<Rightarrow> rstr option \<Rightarrow> 's \<Rightarrow> int \<times> (task_view \<times> daemon) option \<times> rstr option \<times> 's" where
  "take_verb u enc dec origin path io ask place_of daemon me now_s ttl_s dry file s =
     (let ranked = rank_tasks (fold_tasks (read_blackboard u dec file)) me in
      if ranked = [] then (3, None, file, s)
      else if dry then (0, None, file, s)
      else case daemon of
             None \<Rightarrow> (1, None, file, s)
           | Some here \<Rightarrow>
               take_loop ask (\<lambda>t. place_of t here)
                 (\<lambda>t f. snd (append_entry u enc origin path io f (award_entry now_s me t)))
                 here me (ttl_s * 1000 mod 2 ^ 64) ranked file s)"

section \<open>Finishing\<close>

text \<open>
  \<^verbatim>\<open>done\<close> posts the report, then gives the lease back where \<^verbatim>\<open>claim_endpoint\<close> places the task of the
  board as it is then; a task not on the board is released here. \<open>rel\<close> is the release request, its
  outcome ignored; without a daemon nothing is released.
\<close>

definition done_target ::
    "(task_view \<Rightarrow> daemon \<Rightarrow> daemon \<times> rstr option) \<Rightarrow> daemon \<Rightarrow> rstr \<Rightarrow> task_view list \<Rightarrow> daemon" where
  "done_target place_of here i board =
     (case find (\<lambda>t. t_id t = trim i) board of None \<Rightarrow> here | Some t \<Rightarrow> fst (place_of t here))"

definition done_run ::
    "(rchar \<Rightarrow> bool) \<Rightarrow> (board_note \<Rightarrow> rstr option) \<Rightarrow> (rstr \<Rightarrow> board_note option) \<Rightarrow> rstr \<Rightarrow> rstr \<Rightarrow> io_outcome
     \<Rightarrow> (daemon \<Rightarrow> rstr \<Rightarrow> rstr \<Rightarrow> 's \<Rightarrow> 's) \<Rightarrow> (task_view \<Rightarrow> daemon \<Rightarrow> daemon \<times> rstr option) \<Rightarrow> daemon option
     \<Rightarrow> rstr \<Rightarrow> u64 \<Rightarrow> rstr list \<Rightarrow> rstr option \<Rightarrow> 's \<Rightarrow> int \<times> rstr option \<times> 's" where
  "done_run u enc dec origin path io rel place_of daemon me now_s args file s =
     (let (code, file') = run_verb u enc origin path io now_s me (done_verb args) file in
      (code, file',
       (case (daemon, args) of
          (Some here, i # _) \<Rightarrow>
            if code = 0
            then rel (done_target place_of here i (fold_tasks (read_blackboard u dec file')))
                   (lit ''task:'' @ trim i) me s
            else s
        | _ \<Rightarrow> s)))"

section \<open>What taking relies on\<close>

text \<open>
  A service answers with whom each daemon's key is leased to; \<open>table\<close> tells which daemons share one lease table. A
  grant to an agent happens only where nobody else holds the key, makes that agent the holder there and changes no
  other key. A request that is not granted changes nothing, unless its answer was lost (\<open>lossy\<close>): then the agent may
  hold a key it does not know of. While every request and answer gets through (\<open>steady\<close>), a request fails only for
  what it asks, and asking another daemon the same fails too.
\<close>

locale lease_service =
  fixes ask :: "'s ask"
    and holder_at :: "'s \<Rightarrow> daemon \<Rightarrow> rstr \<Rightarrow> rstr option"
    and good :: "'s \<Rightarrow> bool"
    and lossy :: "'s \<Rightarrow> bool"
    and steady :: "'s \<Rightarrow> bool"
    and table :: "daemon \<Rightarrow> 'u"
  assumes ask_good: "good s \<Longrightarrow> good (snd (ask d k h ttl s))"
    and ask_lossy: "lossy (snd (ask d k h ttl s)) \<Longrightarrow> lossy s"
    and ask_steady: "steady s \<Longrightarrow> steady (snd (ask d k h ttl s))"
    and grant_free: "good s \<Longrightarrow> ask d k h ttl s = (LeaseGranted, s') \<Longrightarrow>
      holder_at s d (trim k) = None \<or> holder_at s d (trim k) = Some (trim h)"
    and grant_holds: "good s \<Longrightarrow> ask d k h ttl s = (LeaseGranted, s') \<Longrightarrow> holder_at s' d (trim k) = Some (trim h)"
    and grant_only: "good s \<Longrightarrow> ask d k h ttl s = (LeaseGranted, s') \<Longrightarrow> table e \<noteq> table d \<or> j \<noteq> trim k \<Longrightarrow>
      holder_at s' e j = holder_at s e j"
    and refusal_gains: "good s \<Longrightarrow> ask d k h ttl s = (r, s') \<Longrightarrow> r \<noteq> LeaseGranted \<Longrightarrow>
      holder_at s' e j = holder_at s e j \<or> lossy s \<and> holder_at s e j = None \<and> holder_at s' e j = Some (trim h)"
    and steady_failure: "steady s \<Longrightarrow> ask d k h ttl s = (LeaseFailed why, s') \<Longrightarrow> fst (ask d' k h ttl s') \<noteq> LeaseGranted"
begin

definition gains :: "rstr \<Rightarrow> bool \<Rightarrow> 's \<Rightarrow> 's \<Rightarrow> daemon \<Rightarrow> rstr \<Rightarrow> bool" where
  "gains me lost s s' e j \<longleftrightarrow>
     holder_at s' e j = holder_at s e j \<or> lost \<and> holder_at s e j = None \<and> holder_at s' e j = Some me"

lemma gains_trans: "gains me lost s s1 e j \<Longrightarrow> gains me lost s1 s' e j \<Longrightarrow> gains me lost s s' e j"
  by (auto simp: gains_def)

lemma refused:
  assumes "good s" "ask d k me ttl s = (r, s')" "r \<noteq> LeaseGranted"
  shows "good s'" "lossy s' \<longrightarrow> lossy s" "steady s \<longrightarrow> steady s'" "gains (trim me) (lossy s) s s' e j"
  using ask_good [OF assms(1), of d k me ttl] ask_lossy [of d k me ttl s] ask_steady [of s d k me ttl]
    refusal_gains [OF assms, of e j] assms(2) by (simp_all add: gains_def)

definition taken ::
    "(task_view \<Rightarrow> daemon \<times> rstr option) \<Rightarrow> daemon \<Rightarrow> rstr \<Rightarrow> task_view \<Rightarrow> daemon \<Rightarrow> 's \<Rightarrow> 's \<Rightarrow> bool" where
  "taken where_of here me t d s s' \<longleftrightarrow>
     holder_at s d (trim (claim_key t)) \<in> {None, Some me} \<and> holder_at s' d (trim (claim_key t)) = Some me \<and>
     (d = fst (where_of t) \<or> d = here \<and> snd (where_of t) \<noteq> None \<and> \<not> steady s) \<and>
     (\<forall>e j. table e \<noteq> table d \<or> j \<noteq> trim (claim_key t) \<longrightarrow> gains me (lossy s) s s' e j)"

lemma taken_now:
  assumes "good s" "ask d (claim_key t) me ttl s = (LeaseGranted, s')"
    and "d = fst (where_of t) \<or> d = here \<and> snd (where_of t) \<noteq> None \<and> \<not> steady s"
  shows "taken where_of here (trim me) t d s s'"
  using assms(3) grant_free [OF assms(1,2)] grant_holds [OF assms(1,2)] grant_only [OF assms(1,2)]
  by (auto simp: taken_def gains_def)

text \<open>A request that was refused before counts for nothing but what it may have gained.\<close>

lemma taken_after:
  assumes "good s" "ask d' k' me ttl s = (r, s1)" "r \<noteq> LeaseGranted" "taken where_of here (trim me) t d s1 s'"
  shows "taken where_of here (trim me) t d s s'"
proof -
  note f = refused [OF assms(1-3)]
  have "gains (trim me) (lossy s) s s' e j" if "table e \<noteq> table d \<or> j \<noteq> trim (claim_key t)" for e j
  proof -
    have "gains (trim me) (lossy s1) s1 s' e j" using assms(4) that by (simp add: taken_def)
    then have "gains (trim me) (lossy s) s1 s' e j" using f(2) by (auto simp: gains_def)
    then show ?thesis by (rule gains_trans [OF f(4)])
  qed
  moreover have "holder_at s d (trim (claim_key t)) \<in> {None, Some (trim me)}"
    using f(4) [of d "trim (claim_key t)"] assms(4) by (auto simp: taken_def gains_def)
  ultimately show ?thesis using assms(4) f(3) by (auto simp: taken_def)
qed

lemma take_loop_outcome:
  assumes "good s" "take_loop ask where_of add_award here me ttl ts b s = (code, got, b', s')"
  shows "(\<exists>t d. got = Some (t, d) \<and> code = 0 \<and> t \<in> set ts \<and> taken where_of here (trim me) t d s s') \<or>
         (got = None \<and> code \<in> {1, 3} \<and> b' = b \<and> (\<forall>e j. gains (trim me) (lossy s) s s' e j))"
  using assms
proof (induction ts arbitrary: s)
  case Nil
  then show ?case by (simp add: gains_def)
next
  case (Cons t ts)
  obtain ep away where w: "where_of t = (ep, away)" by fastforce
  obtain r s1 where a: "ask ep (claim_key t) me ttl s = (r, s1)" by fastforce
  have later: "?case" if r: "r \<noteq> LeaseGranted"
      and l: "(\<exists>t' d. got = Some (t', d) \<and> code = 0 \<and> t' \<in> set (t # ts) \<and> taken where_of here (trim me) t' d s1 s') \<or>
         (got = None \<and> code \<in> {1, 3} \<and> b' = b \<and> (\<forall>e j. gains (trim me) (lossy s1) s1 s' e j))"
  proof -
    note f = refused [OF Cons.prems(1) a r]
    have "gains (trim me) (lossy s1) s1 s' e j \<Longrightarrow> gains (trim me) (lossy s) s s' e j" for e j
      using f(2) gains_trans [OF f(4)] by (auto simp: gains_def)
    then show ?thesis using l taken_after [OF Cons.prems(1) a r] by blast
  qed
  show ?case
  proof (cases r)
    case LeaseGranted
    with a have "ask ep (claim_key t) me ttl s = (LeaseGranted, s1)" by simp
    from taken_now [OF Cons.prems(1) this, of where_of here] show ?thesis
      using Cons.prems(2) w a LeaseGranted by auto
  next
    case LeaseHeld
    have "take_loop ask where_of add_award here me ttl ts b s1 = (code, got, b', s')"
      using Cons.prems(2) w a LeaseHeld by simp
    from later [OF _] Cons.IH [OF refused(1) [OF Cons.prems(1) a] this] show ?thesis
      by (auto simp: LeaseHeld)
  next
    case (LeaseFailed e)
    then have r: "r \<noteq> LeaseGranted" by simp
    note f = refused [OF Cons.prems(1) a r]
    show ?thesis
    proof (cases away)
      case None
      then show ?thesis using Cons.prems(2) w a LeaseFailed f(4) by simp
    next
      case (Some home)
      obtain r2 s2 where a2: "ask here (claim_key t) me ttl s1 = (r2, s2)" by fastforce
      show ?thesis
      proof (cases "r2 = LeaseGranted")
        case True
        with a2 have a2': "ask here (claim_key t) me ttl s1 = (LeaseGranted, s2)" by simp
        have ns: "\<not> steady s"
          using steady_failure [of s ep "claim_key t" me ttl e s1 here] a a2' LeaseFailed by auto
        have "holder_at s1 here (trim (claim_key t)) \<in> {None, Some (trim me)}" "holder_at s2 here (trim (claim_key t)) = Some (trim me)"
          using grant_free [OF f(1) a2'] grant_holds [OF f(1) a2'] by auto
        moreover have "gains (trim me) (lossy s) s s2 i j" if "table i \<noteq> table here \<or> j \<noteq> trim (claim_key t)" for i j
          using grant_only [OF f(1) a2' that] f(4) [of i j] by (auto simp: gains_def)
        ultimately have "taken where_of here (trim me) t here s s2"
          using f(4) [of here "trim (claim_key t)"] ns w Some by (auto simp: taken_def gains_def)
        then show ?thesis using Cons.prems(2) w a LeaseFailed Some a2' by auto
      next
        case False
        have l: "take_loop ask where_of add_award here me ttl ts b s2 = (code, got, b', s')"
          using Cons.prems(2) w a LeaseFailed Some a2 False by (cases r2) simp_all
        note f2 = refused [OF f(1) a2 False]
        have "(\<exists>t' d. got = Some (t', d) \<and> code = 0 \<and> t' \<in> set (t # ts) \<and> taken where_of here (trim me) t' d s1 s') \<or>
            (got = None \<and> code \<in> {1, 3} \<and> b' = b \<and> (\<forall>e j. gains (trim me) (lossy s1) s1 s' e j))"
        proof -
          have "gains (trim me) (lossy s2) s2 s' e j \<Longrightarrow> gains (trim me) (lossy s1) s1 s' e j" for e j
            using f2(2) gains_trans [OF f2(4)] by (auto simp: gains_def)
          then show ?thesis using Cons.IH [OF f2(1) l] taken_after [OF f(1) a2 False] by auto
        qed
        then show ?thesis by (rule later [OF r])
      qed
    qed
  qed
qed

end

section \<open>The service the daemons provide\<close>

text \<open>
  One registry per daemon, by url; a request is served under the lock as \<^verbatim>\<open>with_registry\<close> does, and
  a refusal other than \<open>Held\<close> answers 400, which the client reports as an error.
\<close>

definition daemon_ask :: "u64 \<Rightarrow> (rstr \<Rightarrow> registry) ask" where
  "daemon_ask now d k h ttl s =
     (case grant k h ttl now (gc now (s (d_url d))) of
        (Inr _, r') \<Rightarrow> (LeaseGranted, s(d_url d := r'))
      | (Inl (Held _), r') \<Rightarrow> (LeaseHeld, s(d_url d := r'))
      | (Inl (Invalid e), r') \<Rightarrow> (LeaseFailed (lit ''http status: 400''), s(d_url d := r')))"

text \<open>
  On its way a request may not arrive, and its answer may get lost after it was served. The links are what the
  requests of one run meet, in order; with none left, everything gets through.
\<close>

datatype link = LinkUp | NotReached rstr | AnswerLost rstr

type_synonym fleet = "link list \<times> (rstr \<Rightarrow> registry)"

fun fleet_ask :: "u64 \<Rightarrow> fleet ask" where
  "fleet_ask now d k h ttl ([], s) = apsnd (Pair []) (daemon_ask now d k h ttl s)"
| "fleet_ask now d k h ttl (LinkUp # ls, s) = apsnd (Pair ls) (daemon_ask now d k h ttl s)"
| "fleet_ask now d k h ttl (NotReached e # ls, s) = (LeaseFailed e, (ls, s))"
| "fleet_ask now d k h ttl (AnswerLost e # ls, s) = (LeaseFailed e, (ls, snd (daemon_ask now d k h ttl s)))"

definition daemon_release :: "u64 \<Rightarrow> daemon \<Rightarrow> rstr \<Rightarrow> rstr \<Rightarrow> (rstr \<Rightarrow> registry) \<Rightarrow> (rstr \<Rightarrow> registry)" where
  "daemon_release now d k h s = s(d_url d := snd (release (trim k) (trim h) now (gc now (s (d_url d)))))"

definition daemon_holder :: "u64 \<Rightarrow> (rstr \<Rightarrow> registry) \<Rightarrow> daemon \<Rightarrow> rstr \<Rightarrow> rstr option" where
  "daemon_holder now s d k = map_option c_holder (lease_of k now (s (d_url d)))"

definition daemons_ok :: "u64 \<Rightarrow> (rstr \<Rightarrow> registry) \<Rightarrow> bool" where
  "daemons_ok now s \<longleftrightarrow> now < u64_max \<and> (\<forall>url. om_inv (rg_claims (s url)))"

lemma lease_of_gc: "om_inv (rg_claims r) \<Longrightarrow> lease_of k t (gc t r) = lease_of k t r"
  by (simp add: lease_of_def gc_def om.get_retain split: option.splits)

lemma gc_inv: "om_inv (rg_claims r) \<Longrightarrow> om_inv (rg_claims (gc t r))"
  by (simp add: gc_def om.inv_retain)

lemma daemon_ask_cases:
  assumes "daemon_ask now d k h ttl s = (a, s')"
  obtains (granted) c r' where "a = LeaseGranted" "grant k h ttl now (gc now (s (d_url d))) = (Inr c, r')"
      "s' = s(d_url d := r')"
  | (refused) e r' where "a \<noteq> LeaseGranted" "grant k h ttl now (gc now (s (d_url d))) = (Inl e, r')"
      "s' = s(d_url d := r')"
  using assms unfolding daemon_ask_def by (auto split: prod.splits sum.splits grant_error.splits)

lemma grant_refused_same: "grant k h ttl now r = (Inl e, r') \<Longrightarrow> r' = r"
  by (erule grant_cases) simp_all

lemma grant_inv: "grant k h ttl now r = (res, r') \<Longrightarrow> om_inv (rg_claims r) \<Longrightarrow> om_inv (rg_claims r')"
  by (erule grant_cases) (simp_all add: om.inv_insert)

lemma grant_lease:
  assumes "grant k h ttl now r = (Inr c, r')" "om_inv (rg_claims r)" "now < u64_max"
  shows "lease_of (trim k) now r = None \<or> map_option c_holder (lease_of (trim k) now r) = Some (trim h)"
    and "map_option c_holder (lease_of (trim k) now r') = Some (trim h)"
    and "j \<noteq> trim k \<Longrightarrow> lease_of j now r' = lease_of j now r"
  using assms(1)
proof (atomize (full), cases rule: grant_cases)
  case (granted k' h')
  have kh: "k' = trim k" "h' = trim h" using granted by (auto dest: sanitize_trim)
  have "now < sat_add now (clamp min_ttl_ms max_ttl_ms ttl)"
    using assms(3) by (simp add: sat_add_def clamp_def min_ttl_ms_def max_ttl_ms_def)
  then have "live_at (granted_claim k' h' ttl now r) now"
    by (simp add: live_at_def granted_claim_def)
  then have new: "lease_of (trim k) now r' = Some (granted_claim k' h' ttl now r)"
    using granted(5) assms(2) kh by (simp add: lease_of_def om.get_insert)
  have old: "lease_of (trim k) now r = None \<or> map_option c_holder (lease_of (trim k) now r) = Some (trim h)"
    using granted(4) kh by (auto simp: lease_of_def split: option.splits)
  have other: "j \<noteq> trim k \<Longrightarrow> lease_of j now r' = lease_of j now r"
    using granted(5) assms(2) kh by (simp add: lease_of_def om.get_insert)
  show "(lease_of (trim k) now r = None \<or> map_option c_holder (lease_of (trim k) now r) = Some (trim h)) \<and>
    map_option c_holder (lease_of (trim k) now r') = Some (trim h) \<and>
    (j \<noteq> trim k \<longrightarrow> lease_of j now r' = lease_of j now r)"
    using new old other kh by simp
qed simp_all

lemma daemon_swept:
  assumes "daemons_ok now s"
  shows "om_inv (rg_claims (gc now (s url)))" "lease_of j now (gc now (s url)) = lease_of j now (s url)"
  using assms by (simp_all add: daemons_ok_def gc_inv lease_of_gc)

lemma daemon_granted:
  assumes ok: "daemons_ok now s" and a: "daemon_ask now d k h ttl s = (LeaseGranted, s')"
  shows "daemon_holder now s d (trim k) = None \<or> daemon_holder now s d (trim k) = Some (trim h)"
    and "daemon_holder now s' d (trim k) = Some (trim h)"
    and "d_url e \<noteq> d_url d \<or> j \<noteq> trim k \<Longrightarrow> daemon_holder now s' e j = daemon_holder now s e j"
proof -
  obtain c r' where g: "grant k h ttl now (gc now (s (d_url d))) = (Inr c, r')" "s' = s(d_url d := r')"
    using a by (cases rule: daemon_ask_cases) auto
  have now: "now < u64_max" using ok by (simp add: daemons_ok_def)
  note l = grant_lease [OF g(1) daemon_swept(1) [OF ok] now, unfolded daemon_swept(2) [OF ok]]
  show free: "daemon_holder now s d (trim k) = None \<or> daemon_holder now s d (trim k) = Some (trim h)"
    using l(1) by (auto simp: daemon_holder_def)
  show holds: "daemon_holder now s' d (trim k) = Some (trim h)"
    using l(2) g(2) by (simp add: daemon_holder_def)
  show "daemon_holder now s' e j = daemon_holder now s e j" if "d_url e \<noteq> d_url d \<or> j \<noteq> trim k"
    using that l(3) [of j] g(2) by (auto simp: daemon_holder_def)
qed

lemma daemon_refused:
  assumes ok: "daemons_ok now s" and a: "daemon_ask now d k h ttl s = (r, s')" "r \<noteq> LeaseGranted"
  shows "daemon_holder now s' = daemon_holder now s"
proof -
  have "s' = s(d_url d := gc now (s (d_url d)))"
    using a by (cases rule: daemon_ask_cases) (auto dest: grant_refused_same)
  then show ?thesis using daemon_swept(2) [OF ok] by (auto simp: daemon_holder_def fun_eq_iff)
qed

lemma daemon_ask_ok:
  assumes ok: "daemons_ok now s"
  shows "daemons_ok now (snd (daemon_ask now d k h ttl s))"
proof -
  obtain a s' where a: "daemon_ask now d k h ttl s = (a, s')" by fastforce
  then obtain res r' where g: "grant k h ttl now (gc now (s (d_url d))) = (res, r')" "s' = s(d_url d := r')"
    by (cases rule: daemon_ask_cases) auto
  have "om_inv (rg_claims r')" by (rule grant_inv [OF g(1) daemon_swept(1) [OF ok]])
  then show ?thesis using ok a g(2) by (simp add: daemons_ok_def)
qed

text \<open>A key or a holder the registry refuses is refused by every daemon.\<close>

lemma daemon_failed:
  assumes "daemon_ask now d k h ttl s = (LeaseFailed e, s')"
  shows "fst (daemon_ask now d' k h ttl s2) \<noteq> LeaseGranted"
proof -
  obtain e' r' where "grant k h ttl now (gc now (s (d_url d))) = (Inl (Invalid e'), r')"
    using assms unfolding daemon_ask_def by (auto split: prod.splits sum.splits grant_error.splits)
  then have bad: "(\<exists>x. sanitize (lit ''key'') k max_key = Inl x) \<or> (\<exists>x. sanitize (lit ''holder'') h max_holder = Inl x)"
    unfolding grant_def by (auto simp: Let_def split: sum.splits option.splits if_splits)
  have "\<exists>x r. grant k h ttl now r2 = (Inl x, r)" for r2
    using bad unfolding grant_def by (auto split: sum.splits)
  then obtain x r where "grant k h ttl now (gc now (s2 (d_url d'))) = (Inl x, r)" by blast
  then show ?thesis by (simp add: daemon_ask_def split: grant_error.split)
qed

lemma fleet_ask_cases:
  assumes "fleet_ask now d k h ttl x = (a, x')"
  obtains (served) "daemon_ask now d k h ttl (snd x) = (a, snd x')" "fst x' = tl (fst x)"
  | (unreached) e where "a = LeaseFailed e" "snd x' = snd x" "fst x = NotReached e # fst x'"
  | (unheard) e where "a = LeaseFailed e" "snd x' = snd (daemon_ask now d k h ttl (snd x))" "fst x = AnswerLost e # fst x'"
  using assms
  by (cases "(now, d, k, h, ttl, x)" rule: fleet_ask.cases) (auto simp: apsnd_def map_prod_def split: prod.splits)

definition answers_lost :: "link list \<Rightarrow> bool" where
  "answers_lost ls \<longleftrightarrow> (\<exists>e. AnswerLost e \<in> set ls)"

definition all_up :: "link list \<Rightarrow> bool" where
  "all_up ls \<longleftrightarrow> set ls \<subseteq> {LinkUp}"

lemma tl_links: "answers_lost (tl ls) \<Longrightarrow> answers_lost ls" "all_up ls \<Longrightarrow> all_up (tl ls)"
  by (cases ls; auto simp: answers_lost_def all_up_def)+

lemma fleet_links:
  "answers_lost (fst (snd (fleet_ask now d k h ttl x))) \<Longrightarrow> answers_lost (fst x)"
  "all_up (fst x) \<Longrightarrow> all_up (fst (snd (fleet_ask now d k h ttl x)))"
proof -
  obtain a x' where a: "fleet_ask now d k h ttl x = (a, x')" by (metis surj_pair)
  have "(answers_lost (fst x') \<longrightarrow> answers_lost (fst x)) \<and> (all_up (fst x) \<longrightarrow> all_up (fst x'))"
    using tl_links [of "fst x"] by (cases rule: fleet_ask_cases [OF a]) (simp_all add: answers_lost_def all_up_def)
  then show "answers_lost (fst (snd (fleet_ask now d k h ttl x))) \<Longrightarrow> answers_lost (fst x)"
    "all_up (fst x) \<Longrightarrow> all_up (fst (snd (fleet_ask now d k h ttl x)))" by (simp_all add: a)
qed

lemma daemon_gains:
  assumes "daemons_ok now s"
  shows "daemon_holder now (snd (daemon_ask now d k h ttl s)) e j = daemon_holder now s e j \<or>
    daemon_holder now s e j = None \<and> daemon_holder now (snd (daemon_ask now d k h ttl s)) e j = Some (trim h)"
proof -
  obtain r s' where a: "daemon_ask now d k h ttl s = (r, s')" by fastforce
  show ?thesis
  proof (cases "r = LeaseGranted")
    case True
    with a have a': "daemon_ask now d k h ttl s = (LeaseGranted, s')" by simp
    have same: "d_url e = d_url d \<Longrightarrow> daemon_holder now x e = daemon_holder now x d" for x
      by (simp add: daemon_holder_def fun_eq_iff)
    show ?thesis
    proof (cases "d_url e = d_url d \<and> j = trim k")
      case True
      then show ?thesis using daemon_granted(1,2) [OF assms a'] same by (auto simp: a')
    next
      case False
      then show ?thesis using daemon_granted(3) [OF assms a', of e j] by (simp add: a')
    qed
  next
    case False
    then show ?thesis using daemon_refused [OF assms a] by (simp add: a)
  qed
qed

interpretation fleet: lease_service "fleet_ask now" "\<lambda>x. daemon_holder now (snd x)" "\<lambda>x. daemons_ok now (snd x)"
    "\<lambda>x. answers_lost (fst x)" "\<lambda>x. all_up (fst x)" d_url for now
proof
  fix x x' :: fleet and d e d' :: daemon and k h j why :: rstr and ttl r
  show "daemons_ok now (snd (snd (fleet_ask now d k h ttl x)))" if "daemons_ok now (snd x)"
  proof -
    obtain a y where a: "fleet_ask now d k h ttl x = (a, y)" by (metis surj_pair)
    show ?thesis using daemon_ask_ok [OF that, of d k h ttl] that by (cases rule: fleet_ask_cases [OF a]) (simp_all add: a)
  qed
  show "answers_lost (fst (snd (fleet_ask now d k h ttl x))) \<Longrightarrow> answers_lost (fst x)"
    "all_up (fst x) \<Longrightarrow> all_up (fst (snd (fleet_ask now d k h ttl x)))" by (rule fleet_links; assumption)+
  { assume ok: "daemons_ok now (snd x)" and a: "fleet_ask now d k h ttl x = (LeaseGranted, x')"
    from a have g: "daemon_ask now d k h ttl (snd x) = (LeaseGranted, snd x')" by (cases rule: fleet_ask_cases) auto
    show "daemon_holder now (snd x) d (trim k) = None \<or> daemon_holder now (snd x) d (trim k) = Some (trim h)"
      "daemon_holder now (snd x') d (trim k) = Some (trim h)"
      by (rule daemon_granted [OF ok g])+
    show "d_url e \<noteq> d_url d \<or> j \<noteq> trim k \<Longrightarrow> daemon_holder now (snd x') e j = daemon_holder now (snd x) e j"
      by (rule daemon_granted [OF ok g]) }
  show "daemon_holder now (snd x') e j = daemon_holder now (snd x) e j \<or>
      answers_lost (fst x) \<and> daemon_holder now (snd x) e j = None \<and> daemon_holder now (snd x') e j = Some (trim h)"
    if ok: "daemons_ok now (snd x)" and a: "fleet_ask now d k h ttl x = (r, x')" and r: "r \<noteq> LeaseGranted"
    using a
  proof (cases rule: fleet_ask_cases)
    case served
    then show ?thesis using daemon_refused [OF ok _ r] by metis
  next
    case (unheard w)
    then show ?thesis using daemon_gains [OF ok, of d k h ttl e j] by (auto simp: answers_lost_def)
  qed simp
  show "fst (fleet_ask now d' k h ttl x') \<noteq> LeaseGranted"
    if up: "all_up (fst x)" and a: "fleet_ask now d k h ttl x = (LeaseFailed why, x')"
  proof -
    from a have f: "daemon_ask now d k h ttl (snd x) = (LeaseFailed why, snd x')"
      using up by (cases rule: fleet_ask_cases) (auto simp: all_up_def)
    obtain b y where b: "fleet_ask now d' k h ttl x' = (b, y)" by (metis surj_pair)
    show ?thesis using daemon_failed [OF f, of d' "snd x'"] by (cases rule: fleet_ask_cases [OF b]) (simp_all add: b)
  qed
qed

text \<open>A key the registry refuses outright.\<close>

lemma daemon_ask_invalid:
  "max_key < length (trim k) \<Longrightarrow> \<exists>e s'. daemon_ask now d k h ttl s = (LeaseFailed e, s')"
  by (auto simp: daemon_ask_def grant_def sanitize_def Let_def split: prod.splits)

lemma release_lease:
  assumes "om_inv (rg_claims r)"
  shows "map_option c_holder (lease_of j now (snd (release k h now r))) =
    (if j = k \<and> map_option c_holder (lease_of j now r) = Some h then None else map_option c_holder (lease_of j now r))"
  using assms by (auto simp: release_def lease_of_def om.get_remove split: option.splits if_splits)

lemma daemon_release_holder:
  assumes "daemons_ok now s"
  shows "daemon_holder now (daemon_release now d k h s) e j =
    (if d_url e = d_url d \<and> j = trim k \<and> daemon_holder now s e j = Some (trim h) then None else daemon_holder now s e j)"
  using release_lease [OF daemon_swept(1) [OF assms]] daemon_swept(2) [OF assms]
  by (auto simp: daemon_holder_def daemon_release_def)

section \<open>Properties\<close>

text \<open>C30 Taking a task leases one key and no other. Whatever becomes of the requests on their way: on success the task is
  one of those ranked for the agent; its key on the answering daemon was free or already the agent's and is now the
  agent's; that daemon is the task's own, or the local one when its home host could not be asked; and every other key
  of every daemon has the holder it had, except that an answer lost on the way may leave the agent with a key it does
  not know of. On failure the board is as it was and, with the same exception, so is every holder.\<close>

theorem take_leases_one_free_task:
  assumes "daemons_ok now s"
    and "take_verb u enc dec origin path io (fleet_ask now) place_of (Some here) me now_s ttl_s dry file (links, s) =
      (code, got, file', (links', s'))"
  shows "(\<exists>t d. got = Some (t, d) \<and> code = 0 \<and>
        t \<in> set (rank_tasks (fold_tasks (read_blackboard u dec file)) me) \<and>
        daemon_holder now s d (trim (claim_key t)) \<in> {None, Some (trim me)} \<and>
        daemon_holder now s' d (trim (claim_key t)) = Some (trim me) \<and>
        (d = fst (place_of t here) \<or> d = here \<and> snd (place_of t here) \<noteq> None \<and> \<not> all_up links) \<and>
        (\<forall>e j. d_url e \<noteq> d_url d \<or> j \<noteq> trim (claim_key t) \<longrightarrow>
           daemon_holder now s' e j = daemon_holder now s e j \<or>
           answers_lost links \<and> daemon_holder now s e j = None \<and> daemon_holder now s' e j = Some (trim me))) \<or>
    (got = None \<and> file' = file \<and>
       (\<forall>e j. daemon_holder now s' e j = daemon_holder now s e j \<or>
          answers_lost links \<and> daemon_holder now s e j = None \<and> daemon_holder now s' e j = Some (trim me)))"
proof -
  let ?ranked = "rank_tasks (fold_tasks (read_blackboard u dec file)) me"
  consider "?ranked = []" | "?ranked \<noteq> []" "dry" | "?ranked \<noteq> []" "\<not> dry" by blast
  then show ?thesis
  proof cases
    case 3
    then have "take_loop (fleet_ask now) (\<lambda>t. place_of t here)
        (\<lambda>t f. snd (append_entry u enc origin path io f (award_entry now_s me t)))
        here me (ttl_s * 1000 mod 2 ^ 64) ?ranked file (links, s) = (code, got, file', (links', s'))"
      using assms(2) by (simp add: take_verb_def)
    from fleet.take_loop_outcome [OF _ this] assms(1) show ?thesis
      unfolding fleet.taken_def fleet.gains_def by simp blast
  qed (use assms(2) in \<open>simp_all add: take_verb_def\<close>)
qed

lemma take_leases_one_free_task_witness:
  "daemon_holder 10 (snd (snd (snd (snd (take_verb (\<lambda>c. False) (\<lambda>n. Some [65])
       (\<lambda>s. Some (sample_note KAnnounce 5 [97] [7])) [104] [] IoOk (fleet_ask 10)
       (\<lambda>t d. (\<lparr>d_url = [9], d_token = []\<rparr>, Some [104]))
       (Some \<lparr>d_url = [7], d_token = []\<rparr>) [98] 10 900 False (Some [65, 10]) ([NotReached [], LinkUp], \<lambda>_. empty_registry))))))
     \<lparr>d_url = [7], d_token = []\<rparr> (lit ''task:t'') = Some [98]"
proof -
  let ?dec = "\<lambda>s :: rstr. Some (sample_note KAnnounce 5 [97] [7])"
  let ?d = "\<lparr>d_url = [7], d_token = []\<rparr>"
  have b: "read_blackboard (\<lambda>c. False) ?dec (Some [65, 10]) = [sample_note KAnnounce 5 [97] [7]]"
    by (simp add: read_blackboard_def parse_notes_def rust_text_defs List.map_filter_def backfill_id_def
        sample_note_def)
  define v where "v = hd (fold_tasks [sample_note KAnnounce 5 [97] [7]])"
  have v: "fold_tasks [sample_note KAnnounce 5 [97] [7]] = [v]" "t_id v = [116]" "t_home v = Some [104]"
    "rank_tasks [v] [98] = [v]"
    by (simp_all add: v_def sample_note_def fold_tasks_def fold_step_def fold_entry_def fold_init_def
        kind_is_note_def blank_task_def om_get_def om_values_def sort_views_def sort_bids_def rank_tasks_def
        is_takeable_def task_state_of_def)
  have ok: "daemons_ok 10 (\<lambda>_. empty_registry)"
    by (simp add: daemons_ok_def u64_max_def empty_registry_def)
  have ask: "\<exists>s'. daemon_ask 10 ?d (claim_key v) [98] 900000 (\<lambda>_. empty_registry) = (LeaseGranted, s')"
    by (simp add: daemon_ask_def claim_key_def v(2) sample_claims)
  obtain code got f ls s' where r: "take_verb (\<lambda>c. False) (\<lambda>n. Some [65]) ?dec [104] [] IoOk (fleet_ask 10)
      (\<lambda>t d. (\<lparr>d_url = [9], d_token = []\<rparr>, Some [104])) (Some ?d) [98] 10 900 False (Some [65, 10])
      ([NotReached [], LinkUp], \<lambda>_. empty_registry) = (code, got, f, (ls, s'))"
    by (metis surj_pair)
  then have "got = Some (v, ?d)"
    using ask by (auto simp: take_verb_def b v)
  with take_leases_one_free_task [OF ok r] v(2) r show ?thesis
    by (simp add: claim_key_def rust_text_defs)
qed

text \<open>A task whose lease key the table refuses blocks the agent: at the first such task in its ranking
  \<^verbatim>\<open>take\<close> stops with exit code 1, whatever free tasks follow.\<close>

theorem take_blocked_by_long_id:
  assumes "rank_tasks (fold_tasks (read_blackboard u dec file)) me = t # ts"
    and "max_key < length (trim (claim_key t))" "snd (place_of t here) = None"
  shows "fst (take_verb u enc dec origin path io (daemon_ask now) place_of (Some here) me now_s ttl_s False file s) = 1 \<and>
    fst (snd (take_verb u enc dec origin path io (daemon_ask now) place_of (Some here) me now_s ttl_s False file s)) = None"
proof -
  obtain ep where p: "place_of t here = (ep, None)" using assms(3) by (metis prod.collapse)
  obtain e s' where "daemon_ask now ep (claim_key t) me (ttl_s * 1000 mod 2 ^ 64) s = (LeaseFailed e, s')"
    using daemon_ask_invalid [OF assms(2)] by blast
  then show ?thesis by (simp add: take_verb_def assms(1) p)
qed

lemma take_blocked_by_long_id_witness:
  "\<exists>note. fst (take_verb (\<lambda>c. False) (\<lambda>n. Some [65]) (\<lambda>s. Some note) [104] [] IoOk (daemon_ask 10)
     (\<lambda>t d. (d, None)) (Some \<lparr>d_url = [7], d_token = []\<rparr>) [98] 10 900 False (Some [65, 10])
     (\<lambda>_. empty_registry)) = 1"
proof -
  let ?n = "(sample_note KAnnounce 5 [97] [7])\<lparr>n_task := Some (replicate 300 97)\<rparr>"
  have b: "read_blackboard (\<lambda>c. False) (\<lambda>s. Some ?n) (Some [65, 10]) = [?n]"
    by (simp add: read_blackboard_def parse_notes_def rust_text_defs List.map_filter_def backfill_id_def
        sample_note_def)
  define v where "v = hd (fold_tasks [?n])"
  have ne: "replicate 300 (97::nat) \<noteq> []" by simp
  have v: "fold_tasks [?n] = [v]" "t_id v = replicate 300 97" "rank_tasks [v] [98] = [v]"
    using ne
    by (simp_all add: v_def sample_note_def fold_tasks_def fold_step_def fold_entry_def
        fold_init_def kind_is_note_def blank_task_def om_get_def om_values_def sort_views_def sort_bids_def
        rank_tasks_def is_takeable_def task_state_of_def)
  have "trimmed (claim_key v)"
    unfolding claim_key_def v(2) trimmed_def by (simp add: lit_def is_whitespace_def last_append last_replicate
       )
  then have "max_key < length (trim (claim_key v))"
    by (simp add: trim_trimmed claim_key_def v(2) max_key_def lit_def)
  then show ?thesis
    using take_blocked_by_long_id [of "\<lambda>c. False" "\<lambda>s. Some ?n" "Some [65, 10]" "[98]" v "[]"]
    by (intro exI [of _ ?n]) (simp add: b v)
qed

text \<open>Finishing a task gives exactly one lease back: a successful \<^verbatim>\<open>done\<close> frees the task's key on the
  daemon the folded board places the task at, and only if the finisher holds it there; every other lease
  on that daemon and on every other daemon stays, in particular a lease taken at another daemon, as
  \<^verbatim>\<open>take\<close> does when the home host is away.\<close>

theorem done_frees_one_lease:
  assumes "daemons_ok now s"
    and "done_run u enc dec origin path io (daemon_release now) place_of (Some here) me now_s (i # rest) file s = (0, file', s')"
  shows "daemon_holder now s' e j =
    (if d_url e = d_url (done_target place_of here i (fold_tasks (read_blackboard u dec file'))) \<and>
        j = trim (lit ''task:'' @ trim i) \<and> daemon_holder now s e j = Some (trim me)
     then None else daemon_holder now s e j)"
proof -
  have "s' = daemon_release now (done_target place_of here i (fold_tasks (read_blackboard u dec file')))
      (lit ''task:'' @ trim i) me s"
    using assms(2) by (auto simp: done_run_def split: prod.splits)
  then show ?thesis by (simp only: daemon_release_holder [OF assms(1)])
qed

lemma done_frees_one_lease_witness:
  "\<exists>s s'. daemon_holder 10 s \<lparr>d_url = [7], d_token = []\<rparr> (lit ''task:t'') = Some [98] \<and>
     done_run (\<lambda>c. False) (\<lambda>n. Some [65]) (\<lambda>s. None) [104] [] IoOk (daemon_release 10) (\<lambda>t d. (d, None))
       (Some \<lparr>d_url = [7], d_token = []\<rparr>) [98] 10 [[116]] None s = (0, Some [65, 10], s') \<and>
     daemon_holder 10 s' \<lparr>d_url = [7], d_token = []\<rparr> (lit ''task:t'') = None"
proof -
  let ?d = "\<lparr>d_url = [7], d_token = []\<rparr>"
  let ?run = "done_run (\<lambda>c. False) (\<lambda>n. Some [65]) (\<lambda>s. None) [104] [] IoOk (daemon_release 10) (\<lambda>t d. (d, None))
       (Some ?d) [98] 10 [[116]] None"
  define s where "s = snd (daemon_ask 10 ?d (lit ''task:t'') [98] 900000 (\<lambda>_. empty_registry))"
  have ok0: "daemons_ok 10 (\<lambda>_. empty_registry)" by (simp add: daemons_ok_def u64_max_def empty_registry_def)
  have ok: "daemons_ok 10 s" unfolding s_def by (rule daemon_ask_ok [OF ok0])
  obtain s1 where ask: "daemon_ask 10 ?d (lit ''task:t'') [98] 900000 (\<lambda>_. empty_registry) = (LeaseGranted, s1)"
    by (simp add: daemon_ask_def sample_claims)
  have tr: "trim (lit ''task:t'') = lit ''task:t''" "trim [98] = [98]" by (simp_all add: rust_text_defs)
  have h: "daemon_holder 10 s ?d (lit ''task:t'') = Some [98]"
    using daemon_granted(2) [OF ok0 ask] by (simp add: s_def ask tr)
  have tt: "lit ''task:'' @ trim [116] = lit ''task:t''" by (simp add: rust_text_defs)
  have b: "fold_tasks (read_blackboard (\<lambda>c. False) (\<lambda>s. None) (Some [65, 10])) = []"
    by (simp add: read_blackboard_def parse_notes_def rust_text_defs List.map_filter_def fold_tasks_def
        fold_init_def om_values_def sort_views_def)
  obtain code f s' where r: "?run s = (code, f, s')" by (metis prod_cases3)
  then have cf: "code = 0" "f = Some [65, 10]"
    by (auto simp: done_run_def run_verb_def done_verb_def append_entry_def append_file_def encode_note_line_def
        Let_def split: prod.splits)
  from r cf have r': "?run s = (0, Some [65, 10], s')" by simp
  have "daemon_holder 10 s' ?d (lit ''task:t'') = None"
    using done_frees_one_lease [OF ok r', of ?d "lit ''task:t''"] h by (simp add: b done_target_def tt tr)
  with h r' show ?thesis by blast
qed

end
