(* ===== verification/Spec2Isabelle.thy ===== *)
theory Spec2Isabelle
  imports Assignment Await Backlog Blackboard Brain Budget Choice Claims Compact Custom_Tool Decisions Editor Federation
    Fleet_Graph Gate Gossip GrowSet Guard Http_Guards Identity Log_Ring Net_Policy Openai_Chat Openai_Stream OrderedMap Pacing Prelude Progress Prompt_File Provider_Admin
    Providers Prune Pty_Ring Qos Reply Reply_Path
    Routing Schedule Session_Tools Shaping Ssh_Tool State_Store Tasks Tool_Config Tool_Policy Turn Users Work
begin

text \<open>
  tab-atelier runs coding agents in terminal tabs on one or several hosts. This development models the parts
  of it that decide something: how the agents of all hosts share work, how the daemon watches them, which
  provider serves a request, and what an agent may do. Every definition is a translation of the Rust code
  under \<^verbatim>\<open>src/\<close>, in the order the code has it; data are records and datatypes with the source's fields and
  variants, errors are values, strings are lists of Unicode scalar values (\<open>rstr\<close>).

  \<^bold>\<open>Coordination.\<close> \<open>Blackboard\<close> (\<^verbatim>\<open>cli/team.rs\<close>) is the append-only board of typed entries each host keeps as a file
  of JSON lines; \<open>Tasks\<close> (\<^verbatim>\<open>cli/tasks.rs\<close>) folds it into task views and ranks the open tasks; \<open>Gossip\<close> (\<^verbatim>\<open>cli/gossip.rs\<close>,
  \<^verbatim>\<open>api/blackboard_route.rs\<close>) merges boards between hosts; \<open>Claims\<close> (\<^verbatim>\<open>claims.rs\<close>, \<^verbatim>\<open>api/claims_route.rs\<close>) is each
  daemon's lease registry with its file and restarts; \<open>Federation\<close> finds the peers' daemons; \<open>Work\<close> (\<^verbatim>\<open>cli/work.rs\<close>)
  composes all of these into the verbs announce, bid, award, take and done; \<open>Await\<close>, \<open>Backlog\<close> and \<open>Prune\<close> are the
  waiting, generating and compacting commands on top; \<open>Fleet_Graph\<close> draws board and leases as one graph; \<open>Assignment\<close>
  is the label a tab's agent shows. \<open>Tasks\<close> proves that the fold is a function of the set of entries and equal to a
  loop-free reading of the board; \<open>Gossip\<close> uses that to show that one exchange brings two hosts to the same tasks.
  \<open>Claims\<close> proves mutual exclusion and growing fences over the runs in which writes of the table may fail or land in any order
  and a restart comes only when the file holds the table in memory, and that a restart after two writes in the other order breaks
  the first. \<open>Work\<close> joins both: over links that may lose a request or an answer, what take leases was free.

  \<^bold>\<open>Daemon.\<close> \<open>Brain\<close> (\<^verbatim>\<open>cli/brain.rs\<close>) nudges stuck agents: patterns, freeze clock, back-off, circuit breaker and the
  whole tick over an answering daemon; \<open>Pacing\<close> is its fair choice of tabs. \<open>Pty_Ring\<close> is the scrollback ring, proved to
  replay the byte stream; \<open>Log_Ring\<close> the log tail; \<open>Net_Policy\<close> the egress allow-set, proved equal to the union of its
  entries; \<open>Decisions\<close> the journal of decisions, with every failing read and write; \<open>Schedule\<close> (\<^verbatim>\<open>schedule.rs\<close>) the opening hours of
  a tab, whose caches are proved to answer as the rule does until a change falls into a skipped hour. \<open>State_Store\<close>
  (\<^verbatim>\<open>lib.rs\<close>) is what survives a restart: a save of the tabs is the list of the disks it goes through, and no failing call
  and no crash among them loses the tabs, while the preferences, written in place, can be lost and read by others.

  \<^bold>\<open>Proxy.\<close> \<open>Providers\<close> (\<^verbatim>\<open>tab-atelier-proxy/src/provider.rs\<close>) is the registry: prices in 32 and 64 bits with their
  saturation, peak hours, credentials, candidates, and edits by id; \<open>Routing\<close> (\<^verbatim>\<open>routing.rs\<close>, part of \<^verbatim>\<open>users.rs\<close> and
  \<^verbatim>\<open>relay.rs\<close>) picks the destination of a request from health, pins and per-person routes; \<open>Budget\<close> (\<^verbatim>\<open>budget.rs\<close>,
  \<^verbatim>\<open>classifier.rs\<close>) fits the completion into the context window and recognises the auto-mode judge's requests; \<open>Users\<close>
  (\<^verbatim>\<open>users.rs\<close>) is the account store with its index, sessions and file, where a secret is proved to authenticate exactly
  the live keys over any edits and failed writes; \<open>Http_Guards\<close> (\<^verbatim>\<open>http/guards.rs\<close> and its middleware, \<^verbatim>\<open>tab-atelier-api\<close>) reads the
  credential of a request and shows that a person's routes open to exactly these keys, an operator's to the one token
  and the kiosk to its own. \<open>Qos\<close> (\<^verbatim>\<open>qos.rs\<close> and the admission and settling of \<^verbatim>\<open>relay.rs\<close>) shares one
  upstream quota by weight: shares are exact rationals where the source has doubles. \<open>Provider_Admin\<close>
  (\<^verbatim>\<open>http/controllers/provider.rs\<close>) renames and removes a provider across the registry, the accounts and the key files, and
  proves that a rename changes no routing decision when names and key files are not shared. Between arrival and upstream a
  request is shaped (\<open>Shaping\<close>: \<^verbatim>\<open>shape_body\<close>, \<^verbatim>\<open>upstream_body\<close> and the call up to admission in \<^verbatim>\<open>relay.rs\<close>, \<^verbatim>\<open>localtool.rs\<close>):
  \<open>Compact\<close> (\<^verbatim>\<open>compact.rs\<close>) elides old tool results, thinking and notices, \<open>Tool_Policy\<close> (\<^verbatim>\<open>tools.rs\<close>) narrows and rewords the tools,
  \<open>Identity\<close> (\<^verbatim>\<open>identity.rs\<close>) rewrites the prose for another vendor, \<open>Openai_Chat\<close> and \<open>Openai_Stream\<close> (\<^verbatim>\<open>openai.rs\<close>) speak
  the chat-completions wire. \<open>Compact\<close> relates the index loops to maps and filters of the messages and proves that compaction is
  idempotent and keeps calls, results and the prompt cache's prefix; \<open>Tool_Policy\<close> that no tool the conversation needs is withheld;
  \<open>Shaping\<close> composes them: the prefix is stable and the calls resolve through the whole pipeline. \<open>Openai_Chat\<close> shows that no
  call is lost or unpaired on the other wire, \<open>Openai_Stream\<close> that reads may be cut anywhere and that the events sent
  follow the grammar of the Messages stream as long as the calls do not interleave.

  \<^bold>\<open>Agent.\<close> In \<open>Turn\<close> (\<^verbatim>\<open>catbus-agent/src/agent.rs\<close>, \<^verbatim>\<open>session.rs\<close>) a prompt becomes rounds of requests; the calls of a
  round go through the loop guard of \<open>Progress\<close> and the gate of \<open>Gate\<close> (\<^verbatim>\<open>tools/mod.rs\<close>), which asks the judge of \<open>Guard\<close>
  (\<^verbatim>\<open>guard.rs\<close>); messages go to the history in memory and entries to the transcript, from which a session is
  resumed. \<open>Gate\<close> shows what each mode lets through, \<open>Guard\<close> that the judge fails closed and that its own request is the
  one \<open>Budget\<close> recognises, \<open>Progress\<close> that the guard stops exactly the loops it describes, and \<open>Turn\<close> that the history
  stays acceptable and a session is restored, and the two ways in which it is not. \<open>Reply\<close> (\<^verbatim>\<open>stream.rs\<close>, \<^verbatim>\<open>retry.rs\<close>,
  \<^verbatim>\<open>send_streaming\<close>) sends a request with its bounded retries and puts the streamed reply together; \<open>Reply_Path\<close> joins it to
  \<open>Openai_Stream\<close>: a reply that is streamed through the proxy is the reply in one piece, and one the vendor broke off counts as
  whole on that path while it is refused on the Messages wire. What an agent may call is settled when it starts:
  \<open>Tool_Config\<close> (\<^verbatim>\<open>tools/config.rs\<close>) builds the tool set from the launcher's config and the project's and narrows it, \<open>Prompt_File\<close>
  (\<^verbatim>\<open>identity.rs\<close>) reads the limits from the prompt file's front matter, \<open>Session_Tools\<close> (\<^verbatim>\<open>main.rs\<close>, \<^verbatim>\<open>tools/spawn.rs\<close>) joins
  the two for a session and for the sub-agents it starts, \<open>Custom_Tool\<close> runs a tool of the config and \<open>Ssh_Tool\<close>
  (\<^verbatim>\<open>tools/ssh.rs\<close>) a command on a permitted host. They prove that the file's list is a ceiling which the dispatcher of
  \<open>Gate\<close> enforces, that a project's file only withholds, adds and names the PHP functions PHPUnit is denied, that a call's values never
  become syntax, and that the lists bound the hosts SSH is given; and they show the four ways around it: a project file without a launcher config, a child's
  own tool set, a custom tool under a built-in's name and a remote command that begins with a dash. \<open>Editor\<close> is the prompt's line
  editor, proved against an editor without indices.

  \<^bold>\<open>Shared theories.\<close> \<open>Prelude\<close> has the string functions of the standard library that the code calls, saturating
  arithmetic and decimal printing; \<open>OrderedMap\<close> the ordered maps; \<open>Choice\<close> the folds that keep a best element;
  \<open>GrowSet\<close> the locale of a state that only gains entries, interpreted on the board.

  \<^bold>\<open>Parameters.\<close> \<^verbatim>\<open>serde_json\<close>, \<^verbatim>\<open>zstd\<close>, the escape-sequence parser, the clock, the environment, process output and the
  network are arguments of the definitions. Where a property relies on them, its hypotheses say what (a decoder
  reads back what the encoder wrote), and a witness instantiates them with concrete functions. The outcome of a write
  is a value of the environment, so failing, torn and reordered writes are cases of the model where the code handles
  or exposes them.

  \<^bold>\<open>Bounds and fuel.\<close> Loops are structural recursion or come with a measure. \<open>Providers.until_loop\<close> walks the hours of a
  peak with the code's own bound and is proved to find the end within it; \<open>Turn.turn_loop\<close> recurses over the code's round
  limit; \<open>Await.wait_loop\<close> over the polls before the deadline; the decoder \<open>Turn.dec_json\<close>, used by witnesses only,
  has fuel above the size of the value, which \<open>dec_enc\<close> shows to be enough.

  \<^bold>\<open>Not modelled.\<close> The desktop and web front ends and the kiosk (drawing); sockets, HTTP parsing, process
  spawning and the forwarding of bytes (input and output around the modelled decisions); the tools' own work
  on files and processes; the proxy's capture and accounting; the presets of provider.rs; the deserialising of
  configuration files (\<^verbatim>\<open>serde_json\<close>, \<^verbatim>\<open>toml\<close>); a child agent's process and socket; labels and colours; a transcript line
  of which only a part reached the file. Line endings and file locks are taken from the standard library as
  documented.
\<close>

end
